(* ===== verification/Prelude.thy ===== *)
theory Prelude
  imports Main "HOL-Library.Word"
begin

unbundle bit_operations_syntax

text \<open>
  The vocabulary the components share: bytes and machine integers, the little-endian
  layout that \<open>memcpy\<close> and \<open>fwrite\<close> give an integer on the x86-64 targets of the
  Makefile, a buffer overwritten in place, and the linear scan over an array that most
  loops of the code are (\<open>for (i = 0; i < n; i++) if (P(a[i])) ...\<close>).

  Collections of simp rules declared here and filled by the components:
  \<open>wf_simps\<close> (well-formedness predicates unfolded), \<open>frame_simps\<close> (fields an
  operation leaves alone) and \<open>codec_simps\<close> (encoders against their decoders).
\<close>

named_theorems wf_simps
named_theorems frame_simps
named_theorems codec_simps

type_synonym byte = "8 word"
type_synonym u16 = "16 word"
type_synonym u32 = "32 word"
type_synonym u64 = "64 word"
type_synonym bytes = "byte list"

lemma word_less_succ:
  assumes "x \<noteq> - 1"
  shows "x < x + (1 :: 'a::len word)"
proof -
  have "1 + x \<noteq> 0" using assms by (simp add: add_eq_0_iff add.commute)
  from unatSuc [OF this] show ?thesis by (simp add: word_less_nat_alt add.commute)
qed

section \<open>Little-endian integers\<close>

text \<open>\<open>le_encode n x\<close> is the \<open>n\<close> low bytes of \<open>x\<close>, least significant first.\<close>

fun le_encode :: "nat \<Rightarrow> nat \<Rightarrow> bytes" where
  "le_encode 0 x = []"
| "le_encode (Suc n) x = word_of_nat (x mod 256) # le_encode n (x div 256)"

fun le_decode :: "bytes \<Rightarrow> nat" where
  "le_decode [] = 0"
| "le_decode (b # bs) = unat b + 256 * le_decode bs"

lemma length_le_encode [simp]: "length (le_encode n x) = n"
  by (induction n arbitrary: x) auto

lemma le_decode_encode_mod: "le_decode (le_encode n x) = x mod 256 ^ n"
proof (induction n arbitrary: x)
  case 0
  then show ?case by simp
next
  case (Suc n)
  have "unat (word_of_nat (x mod 256) :: byte) = x mod 256"
    by (simp add: unat_of_nat)
  moreover have "x mod 256 + 256 * (x div 256 mod 256 ^ n) = x mod (256 * 256 ^ n)"
    by (simp add: mod_mult2_eq)
  ultimately show ?case using Suc by simp
qed

lemma le_decode_encode [codec_simps]: "x < 256 ^ n \<Longrightarrow> le_decode (le_encode n x) = x"
  by (simp add: le_decode_encode_mod)

lemma unat_byte_less [simp]: "unat (b :: byte) < 256"
  using unsigned_less [where 'a = nat and w = b] by simp

lemma le_decode_bound: "le_decode bs < 256 ^ length bs"
proof (induction bs)
  case Nil
  then show ?case by simp
next
  case (Cons b bs)
  have "unat b + 256 * le_decode bs < 256 + 256 * le_decode bs" by simp
  also have "\<dots> \<le> 256 * 256 ^ length bs"
    using mult_le_mono2 [OF Suc_leI [OF Cons.IH], of 256] by simp
  finally show ?case by simp
qed

lemma le_encode_decode [codec_simps]: "le_encode (length bs) (le_decode bs) = bs"
proof (induction bs)
  case Nil
  then show ?case by simp
next
  case (Cons b bs)
  have "unat b < 256" by simp
  then have "(unat b + 256 * le_decode bs) mod 256 = unat b"
    and "(unat b + 256 * le_decode bs) div 256 = le_decode bs" by simp_all
  with Cons show ?case by simp
qed

section \<open>Buffers\<close>

text \<open>\<open>memcpy(buf + off, bs, len)\<close> inside a buffer; \<open>window\<close> is what a read of \<open>len\<close>
  bytes at \<open>off\<close> sees.\<close>

definition window :: "nat \<Rightarrow> nat \<Rightarrow> 'a list \<Rightarrow> 'a list" where
  "window off len buf = take len (drop off buf)"

definition blit :: "nat \<Rightarrow> 'a list \<Rightarrow> 'a list \<Rightarrow> 'a list" where
  "blit off bs buf = take off buf @ bs @ drop (off + length bs) buf"

lemma length_window [simp]: "length (window off len buf) = min len (length buf - off)"
  by (simp add: window_def)

lemma length_blit [simp]: "off + length bs \<le> length buf \<Longrightarrow> length (blit off bs buf) = length buf"
  by (simp add: blit_def)

lemma window_blit_same: "off + length bs \<le> length buf \<Longrightarrow> window off (length bs) (blit off bs buf) = bs"
  by (simp add: window_def blit_def)

lemma window_blit_before:
  "o2 + n \<le> off \<Longrightarrow> off + length bs \<le> length buf \<Longrightarrow> window o2 n (blit off bs buf) = window o2 n buf"
  by (cases "o2 \<le> off") (auto simp: window_def blit_def drop_take)

lemma window_blit_after:
  "off + length bs \<le> o2 \<Longrightarrow> off + length bs \<le> length buf \<Longrightarrow> window o2 n (blit off bs buf) = window o2 n buf"
  by (simp add: window_def blit_def)

lemma window_blit_disjoint:
  assumes "off + length bs \<le> length buf" and "o2 + n \<le> off \<or> off + length bs \<le> o2"
  shows "window o2 n (blit off bs buf) = window o2 n buf"
  using assms window_blit_before window_blit_after by blast

lemma nth_blit:
  assumes "off + length bs \<le> length buf" and "i < length buf"
  shows "blit off bs buf ! i = (if off \<le> i \<and> i < off + length bs then bs ! (i - off) else buf ! i)"
  using assms by (auto simp: blit_def nth_append min_def)

lemma window_all: "length buf = n \<Longrightarrow> window 0 n buf = buf"
  by (simp add: window_def)

lemma window_append_left: "off + n \<le> length xs \<Longrightarrow> window off n (xs @ ys) = window off n xs"
  by (simp add: window_def)

lemma window_nth: "i < n \<Longrightarrow> off + i < length buf \<Longrightarrow> window off n buf ! i = buf ! (off + i)"
  by (simp add: window_def)

section \<open>Readers\<close>

text \<open>Reading a byte stream: \<open>None\<close> when fewer than \<open>n\<close> bytes are left.\<close>

definition get_bytes :: "nat \<Rightarrow> bytes \<Rightarrow> (bytes \<times> bytes) option" where
  "get_bytes n bs = (if n \<le> length bs then Some (take n bs, drop n bs) else None)"

definition get_le :: "nat \<Rightarrow> bytes \<Rightarrow> (nat \<times> bytes) option" where
  "get_le n bs = (if n \<le> length bs then Some (le_decode (take n bs), drop n bs) else None)"

text \<open>A C \<open>int\<close> from its four bytes read unsigned, and back.\<close>

definition int_of_u32 :: "nat \<Rightarrow> int" where
  "int_of_u32 n = (if n < 2147483648 then int n else int n - 4294967296)"

lemma int_of_u32_small [codec_simps]: "n < 2147483648 \<Longrightarrow> int_of_u32 n = int n"
  by (simp add: int_of_u32_def)

lemma get_bytes_append [codec_simps]: "get_bytes (length bs) (bs @ rest) = Some (bs, rest)"
  by (simp add: get_bytes_def)

lemma get_bytes_append_eq: "length bs = n \<Longrightarrow> get_bytes n (bs @ rest) = Some (bs, rest)"
  by (simp add: get_bytes_def)

lemma get_le_append [codec_simps]: "x < 256 ^ n \<Longrightarrow> get_le n (le_encode n x @ rest) = Some (x, rest)"
  by (simp add: get_le_def le_decode_encode)

lemma get_bytes_short [codec_simps]: "length bs < n \<Longrightarrow> get_bytes n bs = None"
  by (simp add: get_bytes_def)

lemma get_le_short [codec_simps]: "length bs < n \<Longrightarrow> get_le n bs = None"
  by (simp add: get_le_def)

lemma get_le_take_short: "k < n \<Longrightarrow> get_le n (take k bs) = None"
  by (simp add: get_le_def)

lemma blit_at_end: "off = length pre \<Longrightarrow> length bs \<le> length junk \<Longrightarrow>
    blit off bs (pre @ junk) = pre @ bs @ drop (length bs) junk"
  by (simp add: blit_def)

section \<open>The first index that satisfies a test\<close>

text \<open>\<open>first_idx P xs\<close> is the index at which the loop
  \<open>for (i = 0; i < n; i++) if (P(xs[i])) return i;\<close> stops, \<open>None\<close> when it falls through.\<close>

fun first_idx :: "('a \<Rightarrow> bool) \<Rightarrow> 'a list \<Rightarrow> nat option" where
  "first_idx P [] = None"
| "first_idx P (x # xs) = (if P x then Some 0 else map_option Suc (first_idx P xs))"

lemma first_idx_None: "first_idx P xs = None \<longleftrightarrow> (\<forall>x \<in> set xs. \<not> P x)"
  by (induction xs) auto

lemma first_idx_None_nth: "first_idx P xs = None \<longleftrightarrow> (\<forall>i < length xs. \<not> P (xs ! i))"
  by (simp add: first_idx_None all_set_conv_all_nth)

lemma first_idx_Some:
  "first_idx P xs = Some i \<longleftrightarrow> i < length xs \<and> P (xs ! i) \<and> (\<forall>j < i. \<not> P (xs ! j))"
proof (induction xs arbitrary: i)
  case Nil
  then show ?case by simp
next
  case (Cons x xs)
  show ?case
  proof (cases i)
    case 0
    then show ?thesis by auto
  next
    case (Suc k)
    then show ?thesis using Cons [of k] by (auto simp: less_Suc_eq_0_disj)
  qed
qed

lemma first_idx_SomeD:
  assumes "first_idx P xs = Some i"
  shows "i < length xs" and "P (xs ! i)" and "\<And>j. j < i \<Longrightarrow> \<not> P (xs ! j)"
  using assms by (auto simp: first_idx_Some)

lemma first_idx_cong:
  assumes "length xs = length ys" and "\<And>i. i < length xs \<Longrightarrow> P (xs ! i) = Q (ys ! i)"
  shows "first_idx P xs = first_idx Q ys"
  using assms
proof (induction xs ys rule: list_induct2)
  case Nil
  then show ?case by simp
next
  case (Cons x xs y ys)
  have "P x = Q y" using Cons.prems [of 0] by simp
  moreover have "first_idx P xs = first_idx Q ys"
  proof (rule Cons.IH)
    fix i assume "i < length xs"
    then show "P (xs ! i) = Q (ys ! i)" using Cons.prems [of "Suc i"] by simp
  qed
  ultimately show ?case by simp
qed

lemma first_idx_unique:
  assumes "i < length xs" and "P (xs ! i)" and "\<And>j. j < length xs \<Longrightarrow> P (xs ! j) \<Longrightarrow> j = i"
  shows "first_idx P xs = Some i"
proof -
  have "\<not> P (xs ! j)" if "j < i" for j
    using that assms(1) assms(3) [of j] by auto
  with assms(1,2) show ?thesis by (simp add: first_idx_Some)
qed

section \<open>Lists updated by index\<close>

lemma nth_update: "j < length xs \<Longrightarrow> xs[i := x] ! j = (if i = j then x else xs ! j)"
  by (cases "i = j") auto

lemma list_update_restore: "i < length xs \<Longrightarrow> xs ! i = x \<Longrightarrow> xs[i := y, i := x] = xs"
  by auto

lemma distinct_map_nth: "distinct (map f xs) \<Longrightarrow> i < length xs \<Longrightarrow> j < length xs \<Longrightarrow>
   f (xs ! i) = f (xs ! j) \<Longrightarrow> i = j"
  using nth_eq_iff_index_eq [of "map f xs" i j] by simp

end
