(* ===== verification/Pager.thy ===== *)
theory Pager
  imports Prelude
begin

text \<open>
  \<open>src/pager.c\<close>: a file of 4096-byte pages. The file is its bytes; \<open>fread\<close> returns what
  lies before the end of file, \<open>fwrite\<close> past the end first extends the file with zeros.
  A page offset is computed in \<open>uint32_t\<close>, so it wraps modulo \<open>2^32\<close>. \<open>fopen\<close> and
  \<open>malloc\<close> are taken to succeed; \<open>pager_close\<close> only releases handles.
\<close>

abbreviation PAGE_SIZE :: nat where "PAGE_SIZE \<equiv> 4096"
abbreviation TABLE_MAX_PAGES :: u32 where "TABLE_MAX_PAGES \<equiv> 100"

record pager =
  pg_file :: bytes
  file_length :: u32
  num_pages :: u32

text \<open>The argument is the content of an existing file, \<open>None\<close> when it is created.\<close>

definition pager_open :: "bytes option \<Rightarrow> pager" where
  "pager_open f =
     (let content = (case f of None \<Rightarrow> [] | Some bs \<Rightarrow> bs);
          len = word_of_nat (length content)
      in \<lparr>pg_file = content, file_length = len, num_pages = len div 4096\<rparr>)"

definition page_offset :: "u32 \<Rightarrow> nat" where
  "page_offset page_num = unat (page_num * 4096)"

text \<open>\<open>out_data\<close> is the caller's buffer: it is left as it is for a page out of bounds, and
  zero-filled after a short read.\<close>

definition pager_read :: "pager \<Rightarrow> u32 \<Rightarrow> bytes \<Rightarrow> bytes" where
  "pager_read pgr page_num out_data =
     (if page_num \<ge> TABLE_MAX_PAGES then out_data
      else let got = window (page_offset page_num) PAGE_SIZE (pg_file pgr)
           in got @ replicate (PAGE_SIZE - length got) 0)"

definition pager_write :: "pager \<Rightarrow> u32 \<Rightarrow> bytes \<Rightarrow> pager" where
  "pager_write pgr page_num data =
     (let off = page_offset page_num;
          file = pg_file pgr @ replicate (off - length (pg_file pgr)) 0
      in pgr\<lparr>pg_file := take off file @ data @ drop (off + length data) file\<rparr>)"

definition pager_get_num_pages :: "pager \<Rightarrow> u32 \<times> pager" where
  "pager_get_num_pages pgr =
     (let len = word_of_nat (length (pg_file pgr)); n = len div 4096
      in (n, pgr\<lparr>file_length := len, num_pages := n\<rparr>))"

section \<open>Reads against writes\<close>

lemma page_offset_in_bounds: "n < TABLE_MAX_PAGES \<Longrightarrow> page_offset n = unat n * PAGE_SIZE"
  by (simp add: page_offset_def word_less_nat_alt unat_word_ariths)

lemma length_pager_read [simp]: "n < TABLE_MAX_PAGES \<Longrightarrow> length (pager_read pgr n out) = PAGE_SIZE"
  by (auto simp: pager_read_def dest: leD)

lemma pager_read_out_of_bounds: "\<not> n < TABLE_MAX_PAGES \<Longrightarrow> pager_read pgr n out = out"
  by (auto simp: pager_read_def not_less)

lemma pager_read_any_buffer: "n < TABLE_MAX_PAGES \<Longrightarrow> pager_read pgr n out = pager_read pgr n out'"
  by (auto simp: pager_read_def dest: leD)

text \<open>A page in bounds, byte by byte: the file's byte, or zero past its end.\<close>

lemma pager_read_nth:
  assumes "n < TABLE_MAX_PAGES" and "i < PAGE_SIZE"
  shows "pager_read pgr n out ! i =
    (if page_offset n + i < length (pg_file pgr) then pg_file pgr ! (page_offset n + i) else 0)"
  using assms by (auto simp: pager_read_def Let_def nth_append window_nth dest: leD)

lemma pager_write_nth:
  assumes "length data = PAGE_SIZE" and "off = page_offset n"
    and "file' = pg_file (pager_write pgr n data)"
  shows "(if k < length file' then file' ! k else 0) =
    (if off \<le> k \<and> k < off + PAGE_SIZE then data ! (k - off)
     else if k < length (pg_file pgr) then pg_file pgr ! k else 0)"
  using assms by (auto simp: pager_write_def Let_def nth_append min_def)

lemma pager_read_write_same:
  assumes "n < TABLE_MAX_PAGES" and "length data = PAGE_SIZE"
  shows "pager_read (pager_write pgr n data) n out = data"
proof (rule nth_equalityI)
  fix i assume "i < length (pager_read (pager_write pgr n data) n out)"
  then have i: "i < PAGE_SIZE" using assms by simp
  show "pager_read (pager_write pgr n data) n out ! i = data ! i"
    using pager_read_nth [OF assms(1) i] pager_write_nth [OF assms(2) refl refl, where k = "page_offset n + i" and n = n and pgr = pgr] i
    by simp
qed (use assms in simp)

lemma pager_read_write_other:
  assumes "n < TABLE_MAX_PAGES" and "m < TABLE_MAX_PAGES" and "n \<noteq> m" and "length data = PAGE_SIZE"
  shows "pager_read (pager_write pgr n data) m out = pager_read pgr m out"
proof (rule nth_equalityI)
  fix i assume "i < length (pager_read (pager_write pgr n data) m out)"
  then have i: "i < PAGE_SIZE" using assms by simp
  have "unat n \<noteq> unat m" using assms(3) by (simp add: word_unat_eq_iff)
  then have "unat n < unat m \<or> unat m < unat n" by arith
  then have "\<not> (page_offset n \<le> page_offset m + i \<and> page_offset m + i < page_offset n + PAGE_SIZE)"
    using i by (auto simp: page_offset_in_bounds assms(1,2))
  then show "pager_read (pager_write pgr n data) m out ! i = pager_read pgr m out ! i"
    using pager_read_nth [OF assms(2) i] pager_write_nth [OF assms(4) refl refl, where k = "page_offset m + i" and n = n and pgr = pgr]
    by (auto split: if_splits)
qed (use assms in simp)

end
