(* ===== verification/BufferPool.thy ===== *)
theory BufferPool
  imports Pager
begin

text \<open>
  \<open>src/buffer_pool.c\<close>: ten page frames in memory over the pager. The \<open>i\<close>-th entries of the
  five parallel arrays \<open>pages\<close>, \<open>page_ids\<close>, \<open>is_dirty\<close>, \<open>pin_count\<close> and \<open>last_used\<close> are
  one \<open>frame\<close>; a \<open>void*\<close> into a page is the index of its frame, so what the caller
  stores through it is a change of that frame (\<open>pool_store\<close>). The \<open>int\<close> counters are
  unbounded: \<open>clock\<close> overflows after \<open>2^31 - 1\<close> calls, which is undefined behaviour in C.
  \<open>bp_content\<close> is the abstract view: the page file as its users see it.
\<close>

abbreviation POOL_SIZE :: nat where "POOL_SIZE \<equiv> 10"
abbreviation NO_PAGE :: u32 where "NO_PAGE \<equiv> 0xFFFFFFFF"

record frame =
  page :: "bytes option"
  page_id :: u32
  is_dirty :: bool
  pin_count :: int
  last_used :: int

record buffer_pool =
  bp_pager :: pager
  frames :: "frame list"
  clock :: int

definition empty_frame :: frame where
  "empty_frame = \<lparr>page = None, page_id = NO_PAGE, is_dirty = False, pin_count = 0, last_used = 0\<rparr>"

definition buffer_pool_init :: "bytes option \<Rightarrow> buffer_pool" where
  "buffer_pool_init f =
     \<lparr>bp_pager = pager_open f, frames = replicate POOL_SIZE empty_frame, clock = 0\<rparr>"

section \<open>Operations\<close>

text \<open>The scan of \<open>buffer_pool_evict\<close>: \<open>i\<close> counts slots, \<open>min_time\<close> and \<open>lru_idx\<close> are its variables.\<close>

fun lru_scan :: "frame list \<Rightarrow> nat \<Rightarrow> int \<Rightarrow> nat option \<Rightarrow> nat option" where
  "lru_scan [] i min_time lru_idx = lru_idx"
| "lru_scan (f # fs) i min_time lru_idx =
     (if pin_count f = 0 \<and> last_used f < min_time
      then lru_scan fs (Suc i) (last_used f) (Some i)
      else lru_scan fs (Suc i) min_time lru_idx)"

text \<open>Write-back of one frame; a dirty frame without a page would be a null dereference.\<close>

definition write_back :: "pager \<Rightarrow> frame \<Rightarrow> pager" where
  "write_back pgr f = (case page f of Some d \<Rightarrow> pager_write pgr (page_id f) d | None \<Rightarrow> pgr)"

definition buffer_pool_evict :: "buffer_pool \<Rightarrow> nat option \<times> buffer_pool" where
  "buffer_pool_evict pool =
     (case lru_scan (frames pool) 0 0x7FFFFFFF None of
        None \<Rightarrow> (None, pool)
      | Some i \<Rightarrow>
          let f = frames pool ! i;
              pgr = (if is_dirty f then write_back (bp_pager pool) f else bp_pager pool)
          in (Some i, pool\<lparr>bp_pager := pgr,
                frames := (frames pool)[i := f\<lparr>page := None, page_id := NO_PAGE,
                                             is_dirty := False, pin_count := 0\<rparr>]\<rparr>))"

text \<open>\<open>junk\<close> is the indeterminate content of the block \<open>malloc\<close> returns. The result is the
  frame whose page is returned, \<open>None\<close> for the \<open>NULL\<close> of a pool with every page pinned.\<close>

definition buffer_pool_get_page :: "bytes \<Rightarrow> buffer_pool \<Rightarrow> u32 \<Rightarrow> nat option \<times> buffer_pool" where
  "buffer_pool_get_page junk pool0 pid =
     (let pool = pool0\<lparr>clock := clock pool0 + 1\<rparr>
      in case first_idx (\<lambda>f. page_id f = pid) (frames pool) of
           Some i \<Rightarrow>
             (Some i, pool\<lparr>frames := (frames pool)[i := (frames pool ! i)
                 \<lparr>last_used := clock pool, pin_count := pin_count (frames pool ! i) + 1\<rparr>]\<rparr>)
         | None \<Rightarrow>
             (let (slot, pool') = (case first_idx (\<lambda>f. page_id f = NO_PAGE) (frames pool) of
                                     Some i \<Rightarrow> (Some i, pool)
                                   | None \<Rightarrow> buffer_pool_evict pool)
              in case slot of
                   None \<Rightarrow> (None, pool')
                 | Some s \<Rightarrow>
                     (Some s, pool'\<lparr>frames := (frames pool')[s :=
                        \<lparr>page = Some (pager_read (bp_pager pool') pid junk), page_id = pid,
                         is_dirty = False, pin_count = 1, last_used = clock pool'\<rparr>]\<rparr>)))"

definition update_first :: "('a \<Rightarrow> bool) \<Rightarrow> ('a \<Rightarrow> 'a) \<Rightarrow> 'a list \<Rightarrow> 'a list" where
  "update_first P g xs = (case first_idx P xs of None \<Rightarrow> xs | Some i \<Rightarrow> xs[i := g (xs ! i)])"

definition buffer_pool_pin :: "buffer_pool \<Rightarrow> u32 \<Rightarrow> buffer_pool" where
  "buffer_pool_pin pool pid = pool\<lparr>frames :=
     update_first (\<lambda>f. page_id f = pid) (\<lambda>f. f\<lparr>pin_count := pin_count f + 1\<rparr>) (frames pool)\<rparr>"

definition buffer_pool_unpin :: "buffer_pool \<Rightarrow> u32 \<Rightarrow> buffer_pool" where
  "buffer_pool_unpin pool pid = pool\<lparr>frames :=
     update_first (\<lambda>f. page_id f = pid)
       (\<lambda>f. if pin_count f > 0 then f\<lparr>pin_count := pin_count f - 1\<rparr> else f) (frames pool)\<rparr>"

definition buffer_pool_mark_dirty :: "buffer_pool \<Rightarrow> u32 \<Rightarrow> buffer_pool" where
  "buffer_pool_mark_dirty pool pid = pool\<lparr>frames :=
     update_first (\<lambda>f. page_id f = pid) (\<lambda>f. f\<lparr>is_dirty := True\<rparr>) (frames pool)\<rparr>"

text \<open>The loop of \<open>buffer_pool_flush_all\<close>, slot by slot.\<close>

fun flush_frames :: "pager \<Rightarrow> frame list \<Rightarrow> pager \<times> frame list" where
  "flush_frames pgr [] = (pgr, [])"
| "flush_frames pgr (f # fs) =
     (if page_id f \<noteq> NO_PAGE \<and> is_dirty f
      then (let (pgr', fs') = flush_frames (write_back pgr f) fs in (pgr', f\<lparr>is_dirty := False\<rparr> # fs'))
      else (let (pgr', fs') = flush_frames pgr fs in (pgr', f # fs')))"

definition buffer_pool_flush_all :: "buffer_pool \<Rightarrow> buffer_pool" where
  "buffer_pool_flush_all pool =
     (let (pgr, fs) = flush_frames (bp_pager pool) (frames pool)
      in pool\<lparr>bp_pager := pgr, frames := fs\<rparr>)"

text \<open>What closing leaves behind: the file on disk.\<close>

definition buffer_pool_close :: "buffer_pool \<Rightarrow> bytes" where
  "buffer_pool_close pool = pg_file (bp_pager (buffer_pool_flush_all pool))"

text \<open>Reading and storing through the pointer \<open>buffer_pool_get_page\<close> returned.\<close>

definition pool_peek :: "buffer_pool \<Rightarrow> nat \<Rightarrow> bytes" where
  "pool_peek pool s = (case page (frames pool ! s) of Some d \<Rightarrow> d | None \<Rightarrow> [])"

definition pool_store :: "buffer_pool \<Rightarrow> nat \<Rightarrow> bytes \<Rightarrow> buffer_pool" where
  "pool_store pool s d = pool\<lparr>frames := (frames pool)[s := (frames pool ! s)\<lparr>page := Some d\<rparr>]\<rparr>"

section \<open>The invariant and the abstract page file\<close>

definition frame_wf :: "pager \<Rightarrow> int \<Rightarrow> frame \<Rightarrow> bool" where
  "frame_wf pgr now f \<longleftrightarrow>
     0 \<le> pin_count f \<and> last_used f \<le> now \<and>
     (if page_id f = NO_PAGE then page f = None \<and> \<not> is_dirty f
      else page_id f < TABLE_MAX_PAGES \<and>
           (case page f of None \<Rightarrow> False
            | Some d \<Rightarrow> length d = PAGE_SIZE \<and> (is_dirty f \<or> d = pager_read pgr (page_id f) [])))"

definition ids_unique :: "frame list \<Rightarrow> bool" where
  "ids_unique fs \<longleftrightarrow> (\<forall>i < length fs. \<forall>j < length fs.
     page_id (fs ! i) = page_id (fs ! j) \<and> page_id (fs ! i) \<noteq> NO_PAGE \<longrightarrow> i = j)"

definition pool_wf :: "buffer_pool \<Rightarrow> bool" where
  "pool_wf pool \<longleftrightarrow> length (frames pool) = POOL_SIZE \<and> ids_unique (frames pool) \<and>
     (\<forall>i < POOL_SIZE. frame_wf (bp_pager pool) (clock pool) (frames pool ! i))"

definition bp_content :: "buffer_pool \<Rightarrow> u32 \<Rightarrow> bytes" where
  "bp_content pool q =
     (case first_idx (\<lambda>f. page_id f = q \<and> q \<noteq> NO_PAGE) (frames pool) of
        Some i \<Rightarrow> pool_peek pool i
      | None \<Rightarrow> pager_read (bp_pager pool) q [])"

lemma pool_wfD:
  assumes "pool_wf pool"
  shows "length (frames pool) = POOL_SIZE" and "ids_unique (frames pool)"
    and "i < POOL_SIZE \<Longrightarrow> frame_wf (bp_pager pool) (clock pool) (frames pool ! i)"
  using assms by (auto simp: pool_wf_def)

lemma ids_uniqueD:
  "ids_unique fs \<Longrightarrow> i < length fs \<Longrightarrow> j < length fs \<Longrightarrow> page_id (fs ! i) = page_id (fs ! j) \<Longrightarrow>
   page_id (fs ! i) \<noteq> NO_PAGE \<Longrightarrow> i = j"
  by (auto simp: ids_unique_def)

lemma no_page_out_of_bounds [simp]: "\<not> NO_PAGE < TABLE_MAX_PAGES" "TABLE_MAX_PAGES \<le> NO_PAGE"
  by simp_all

lemma frame_wf_valid:
  assumes "frame_wf pgr now f" and "page_id f \<noteq> NO_PAGE"
  obtains d where "page f = Some d" and "length d = PAGE_SIZE" and "page_id f < TABLE_MAX_PAGES"
    and "is_dirty f \<or> d = pager_read pgr (page_id f) []"
  using assms by (auto simp: frame_wf_def split: option.splits)

lemma first_idx_id:
  assumes "ids_unique fs" and "i < length fs" and "page_id (fs ! i) = q" and "q \<noteq> NO_PAGE"
  shows "first_idx (\<lambda>f. page_id f = q) fs = Some i"
    and "first_idx (\<lambda>f. page_id f = q \<and> q \<noteq> NO_PAGE) fs = Some i"
proof -
  have "page_id (fs ! j) \<noteq> q" if "j < i" for j
  proof
    assume "page_id (fs ! j) = q"
    then have "j = i"
      by (intro ids_uniqueD [OF assms(1)]) (use that assms in simp_all)
    with that show False by simp
  qed
  then show "first_idx (\<lambda>f. page_id f = q) fs = Some i"
    and "first_idx (\<lambda>f. page_id f = q \<and> q \<noteq> NO_PAGE) fs = Some i"
    using assms(2-4) by (simp_all add: first_idx_Some)
qed

lemma ids_unique_replace:
  assumes uniq: "ids_unique fs" and i: "i < length fs"
    and fresh: "\<And>j. j < length fs \<Longrightarrow> j \<noteq> i \<Longrightarrow> page_id f = NO_PAGE \<or> page_id (fs ! j) \<noteq> page_id f"
  shows "ids_unique (fs[i := f])"
  unfolding ids_unique_def
proof (intro allI impI)
  fix a b assume a: "a < length (fs[i := f])" and b: "b < length (fs[i := f])"
    and same: "page_id (fs[i := f] ! a) = page_id (fs[i := f] ! b) \<and> page_id (fs[i := f] ! a) \<noteq> NO_PAGE"
  consider "a = i" "b = i" | "a = i" "b \<noteq> i" | "a \<noteq> i" "b = i" | "a \<noteq> i" "b \<noteq> i" by blast
  then show "a = b"
  proof cases
    case 2
    then show ?thesis using same a b i fresh [of b] by simp
  next
    case 3
    then show ?thesis using same a b i fresh [of a] by simp
  next
    case 4
    then have eqs: "fs[i := f] ! a = fs ! a" "fs[i := f] ! b = fs ! b" by simp_all
    from same have "page_id (fs ! a) = page_id (fs ! b) \<and> page_id (fs ! a) \<noteq> NO_PAGE"
      unfolding eqs .
    with a b show ?thesis using ids_uniqueD [OF uniq, of a b] by auto
  qed simp
qed

lemma bp_content_frame:
  assumes "ids_unique (frames pool)" and "i < length (frames pool)"
    and "page_id (frames pool ! i) = q" and "q \<noteq> NO_PAGE"
  shows "bp_content pool q = pool_peek pool i"
  using first_idx_id(2) [OF assms] by (simp add: bp_content_def)

lemma bp_content_file:
  assumes "\<And>i. i < length (frames pool) \<Longrightarrow> q = NO_PAGE \<or> page_id (frames pool ! i) \<noteq> q"
  shows "bp_content pool q = pager_read (bp_pager pool) q []"
proof -
  have "first_idx (\<lambda>f. page_id f = q \<and> q \<noteq> NO_PAGE) (frames pool) = None"
    unfolding first_idx_None_nth using assms by blast
  then show ?thesis by (simp add: bp_content_def)
qed

text \<open>A page is either in exactly one frame or read from the file.\<close>

lemma bp_content_cases [consumes 1, case_names cached on_file]:
  assumes "ids_unique (frames pool)"
  obtains (cached) i where "i < length (frames pool)" and "page_id (frames pool ! i) = q"
      and "q \<noteq> NO_PAGE" and "bp_content pool q = pool_peek pool i"
  | (on_file) "\<And>i. i < length (frames pool) \<Longrightarrow> q = NO_PAGE \<or> page_id (frames pool ! i) \<noteq> q"
      and "bp_content pool q = pager_read (bp_pager pool) q []"
proof (cases "\<exists>i < length (frames pool). page_id (frames pool ! i) = q \<and> q \<noteq> NO_PAGE")
  case True
  then show ?thesis using cached bp_content_frame [OF assms] by blast
next
  case False
  then have "\<And>i. i < length (frames pool) \<Longrightarrow> q = NO_PAGE \<or> page_id (frames pool ! i) \<noteq> q" by blast
  then show ?thesis using on_file bp_content_file by blast
qed

lemma pool_wf_init: "pool_wf (buffer_pool_init f)"
  by (auto simp: pool_wf_def buffer_pool_init_def empty_frame_def frame_wf_def ids_unique_def)

lemma bp_content_init: "bp_content (buffer_pool_init f) q = pager_read (pager_open f) q []"
  by (subst bp_content_file) (auto simp: buffer_pool_init_def empty_frame_def)

section \<open>LRU eviction\<close>

lemma lru_scan_None:
  "lru_scan fs i t idx = None \<Longrightarrow> idx = None \<and> (\<forall>f \<in> set fs. pin_count f = 0 \<longrightarrow> t \<le> last_used f)"
  by (induction fs i t idx rule: lru_scan.induct) (auto split: if_splits)

lemma lru_scan_Some:
  "lru_scan fs i t idx = Some k \<Longrightarrow>
     (idx = Some k \<and> (\<forall>f \<in> set fs. pin_count f = 0 \<longrightarrow> t \<le> last_used f)) \<or>
     (\<exists>j < length fs. k = i + j \<and> pin_count (fs ! j) = 0 \<and> last_used (fs ! j) < t \<and>
        (\<forall>f \<in> set fs. pin_count f = 0 \<longrightarrow> last_used (fs ! j) \<le> last_used f))"
proof (induction fs i t idx rule: lru_scan.induct)
  case (1 i t idx)
  then show ?case by simp
next
  case (2 f fs i t idx)
  show ?case
  proof (cases "pin_count f = 0 \<and> last_used f < t")
    case True
    with 2 have "(Some i = Some k \<and> (\<forall>f' \<in> set fs. pin_count f' = 0 \<longrightarrow> last_used f \<le> last_used f')) \<or>
      (\<exists>j < length fs. k = Suc i + j \<and> pin_count (fs ! j) = 0 \<and> last_used (fs ! j) < last_used f \<and>
        (\<forall>f' \<in> set fs. pin_count f' = 0 \<longrightarrow> last_used (fs ! j) \<le> last_used f'))" by simp
    then show ?thesis
    proof (elim disjE exE conjE)
      assume "Some i = Some k" and "\<forall>f' \<in> set fs. pin_count f' = 0 \<longrightarrow> last_used f \<le> last_used f'"
      with True show ?thesis by (intro disjI2 exI [of _ 0]) auto
    next
      fix j assume "j < length fs" "k = Suc i + j" "pin_count (fs ! j) = 0" "last_used (fs ! j) < last_used f"
        "\<forall>f' \<in> set fs. pin_count f' = 0 \<longrightarrow> last_used (fs ! j) \<le> last_used f'"
      with True show ?thesis by (intro disjI2 exI [of _ "Suc j"]) auto
    qed
  next
    case False
    with 2 have "(idx = Some k \<and> (\<forall>f' \<in> set fs. pin_count f' = 0 \<longrightarrow> t \<le> last_used f')) \<or>
      (\<exists>j < length fs. k = Suc i + j \<and> pin_count (fs ! j) = 0 \<and> last_used (fs ! j) < t \<and>
        (\<forall>f' \<in> set fs. pin_count f' = 0 \<longrightarrow> last_used (fs ! j) \<le> last_used f'))" by simp
    then show ?thesis
    proof (elim disjE exE conjE)
      assume "idx = Some k" and "\<forall>f' \<in> set fs. pin_count f' = 0 \<longrightarrow> t \<le> last_used f'"
      with False show ?thesis by auto
    next
      fix j assume "j < length fs" "k = Suc i + j" "pin_count (fs ! j) = 0" "last_used (fs ! j) < t"
        "\<forall>f' \<in> set fs. pin_count f' = 0 \<longrightarrow> last_used (fs ! j) \<le> last_used f'"
      with False show ?thesis by (intro disjI2 exI [of _ "Suc j"]) auto
    qed
  qed
qed

text \<open>The victim is an unpinned slot that was used no later than any other unpinned slot.\<close>

lemma evict_victim:
  assumes "buffer_pool_evict pool = (Some i, pool')"
  shows "i < length (frames pool)" and "pin_count (frames pool ! i) = 0"
    and "\<forall>f \<in> set (frames pool). pin_count f = 0 \<longrightarrow> last_used (frames pool ! i) \<le> last_used f"
proof -
  have "lru_scan (frames pool) 0 0x7FFFFFFF None = Some i"
    using assms by (auto simp: buffer_pool_evict_def Let_def split: option.splits)
  from lru_scan_Some [OF this]
  show "i < length (frames pool)" and "pin_count (frames pool ! i) = 0"
    and "\<forall>f \<in> set (frames pool). pin_count f = 0 \<longrightarrow> last_used (frames pool ! i) \<le> last_used f"
    by auto
qed

lemma evict_None:
  assumes "buffer_pool_evict pool = (None, pool')"
  shows "pool' = pool" and "\<forall>f \<in> set (frames pool). pin_count f = 0 \<longrightarrow> 0x7FFFFFFF \<le> last_used f"
proof -
  have "lru_scan (frames pool) 0 0x7FFFFFFF None = None"
    using assms by (auto simp: buffer_pool_evict_def Let_def split: option.splits)
  then show "pool' = pool" and "\<forall>f \<in> set (frames pool). pin_count f = 0 \<longrightarrow> 0x7FFFFFFF \<le> last_used f"
    using assms lru_scan_None [of "frames pool" 0 "0x7FFFFFFF" None]
    by (auto simp: buffer_pool_evict_def)
qed

section \<open>Every operation keeps the invariant and the page file\<close>

text \<open>What replacing one frame must respect: the new frame is well formed, no other frame
  holds its page, and the page the old frame held is on file.\<close>

lemma pool_wf_replace_frame:
  assumes wf: "pool_wf pool" and i: "i < POOL_SIZE"
    and frame: "frame_wf (bp_pager pool) now f" and later: "clock pool \<le> now"
    and fresh: "\<And>j. j < POOL_SIZE \<Longrightarrow> j \<noteq> i \<Longrightarrow> page_id f = NO_PAGE \<or> page_id (frames pool ! j) \<noteq> page_id f"
  shows "pool_wf (pool\<lparr>frames := (frames pool)[i := f], clock := now\<rparr>)"
proof -
  have len: "length (frames pool) = POOL_SIZE" using wf by (rule pool_wfD)
  have "ids_unique ((frames pool)[i := f])"
    using ids_unique_replace [OF pool_wfD(2) [OF wf]] i len fresh by simp
  moreover have "frame_wf (bp_pager pool) now ((frames pool)[i := f] ! j)" if "j < POOL_SIZE" for j
    using pool_wfD(3) [OF wf that] frame later that len
    by (cases "j = i") (auto simp: frame_wf_def)
  ultimately show ?thesis using len by (simp add: pool_wf_def)
qed

lemma bp_content_replace_frame:
  assumes wf: "pool_wf pool" and i: "i < POOL_SIZE"
    and fresh: "\<And>j. j < POOL_SIZE \<Longrightarrow> j \<noteq> i \<Longrightarrow> page_id f = NO_PAGE \<or> page_id (frames pool ! j) \<noteq> page_id f"
    and new: "page_id f = q \<Longrightarrow> q \<noteq> NO_PAGE \<Longrightarrow> page f = Some (bp_content pool q)"
    and old: "page_id f \<noteq> q \<Longrightarrow> page_id (frames pool ! i) = q \<Longrightarrow> q \<noteq> NO_PAGE \<Longrightarrow>
      pool_peek pool i = pager_read (bp_pager pool) q []"
  shows "bp_content (pool\<lparr>frames := (frames pool)[i := f], clock := now\<rparr>) q = bp_content pool q"
    (is "bp_content ?p q = _")
proof -
  have len: "length (frames pool) = POOL_SIZE" and uniq: "ids_unique (frames pool)"
    using wf by (auto simp: pool_wf_def)
  have uniq': "ids_unique (frames ?p)"
    using ids_unique_replace [OF uniq] i len fresh by simp
  from uniq' show ?thesis
  proof (cases rule: bp_content_cases [where q = q])
    case (cached k)
    show ?thesis
    proof (cases "k = i")
      case True
      then show ?thesis using cached new i len by (simp add: pool_peek_def)
    next
      case False
      then have "bp_content pool q = pool_peek pool k"
        using cached len by (intro bp_content_frame [OF uniq]) auto
      with False cached show ?thesis by (simp add: pool_peek_def)
    qed
  next
    case on_file
    show ?thesis
    proof (cases "page_id (frames pool ! i) = q \<and> q \<noteq> NO_PAGE")
      case True
      moreover have "page_id f \<noteq> q" using on_file(1) [of i] True i len by simp
      ultimately show ?thesis
        using on_file(2) old bp_content_frame [OF uniq, of i q] i len by simp
    next
      case False
      have "bp_content pool q = pager_read (bp_pager pool) q []"
      proof (rule bp_content_file)
        fix j assume "j < length (frames pool)"
        then show "q = NO_PAGE \<or> page_id (frames pool ! j) \<noteq> q"
          using on_file(1) [of j] False by (cases "j = i") auto
      qed
      with on_file show ?thesis by simp
    qed
  qed
qed

text \<open>Writing a frame's page back changes neither the invariant nor the content.\<close>

lemma write_back_other:
  assumes "frame_wf pgr now f" and "page_id f \<noteq> NO_PAGE" and "q \<noteq> page_id f"
  shows "pager_read (write_back pgr f) q [] = pager_read pgr q []"
proof -
  from assms(1,2) obtain d where d: "page f = Some d" "length d = PAGE_SIZE" "page_id f < TABLE_MAX_PAGES"
    by (rule frame_wf_valid)
  show ?thesis
  proof (cases "q < TABLE_MAX_PAGES")
    case True
    then show ?thesis using pager_read_write_other [OF d(3) True _ d(2)] assms(3) d(1)
      by (simp add: write_back_def)
  next
    case False
    then show ?thesis by (simp add: pager_read_out_of_bounds)
  qed
qed

lemma write_back_same:
  assumes "frame_wf pgr now f" and "page_id f \<noteq> NO_PAGE"
  shows "Some (pager_read (write_back pgr f) (page_id f) []) = page f"
proof -
  from assms obtain d where d: "page f = Some d" "length d = PAGE_SIZE" "page_id f < TABLE_MAX_PAGES"
    by (rule frame_wf_valid)
  then show ?thesis by (simp add: write_back_def pager_read_write_same)
qed

lemma pool_wf_write_back:
  assumes wf: "pool_wf pool" and i: "i < POOL_SIZE" and id: "page_id (frames pool ! i) \<noteq> NO_PAGE"
  shows "pool_wf (pool\<lparr>bp_pager := write_back (bp_pager pool) (frames pool ! i)\<rparr>)"
    and "bp_content (pool\<lparr>bp_pager := write_back (bp_pager pool) (frames pool ! i)\<rparr>) q = bp_content pool q"
proof -
  let ?f = "frames pool ! i" and ?pgr = "write_back (bp_pager pool) (frames pool ! i)"
  have len: "length (frames pool) = POOL_SIZE" and uniq: "ids_unique (frames pool)"
    using wf by (auto simp: pool_wf_def)
  have fi: "frame_wf (bp_pager pool) (clock pool) ?f" using wf i by (rule pool_wfD)
  have "frame_wf ?pgr (clock pool) (frames pool ! j)" if j: "j < POOL_SIZE" for j
  proof (cases "j = i")
    case True
    then show ?thesis using fi write_back_same [OF fi id]
      by (auto simp: frame_wf_def split: option.splits)
  next
    case False
    then have "page_id (frames pool ! j) = NO_PAGE \<or> page_id (frames pool ! j) \<noteq> page_id ?f"
      using ids_uniqueD [OF uniq] len i j by metis
    then show ?thesis using pool_wfD(3) [OF wf j] write_back_other [OF fi id]
      by (auto simp: frame_wf_def split: option.splits if_splits)
  qed
  then show "pool_wf (pool\<lparr>bp_pager := ?pgr\<rparr>)" using len uniq by (simp add: pool_wf_def)
  from uniq show "bp_content (pool\<lparr>bp_pager := ?pgr\<rparr>) q = bp_content pool q"
  proof (cases rule: bp_content_cases [where q = q])
    case (cached k)
    then show ?thesis using bp_content_frame [of "pool\<lparr>bp_pager := ?pgr\<rparr>" k q] uniq
      by (simp add: pool_peek_def)
  next
    case on_file
    have "bp_content (pool\<lparr>bp_pager := ?pgr\<rparr>) q = pager_read ?pgr q []"
      using on_file(1) by (subst bp_content_file) auto
    also have "\<dots> = pager_read (bp_pager pool) q []"
    proof (cases "q = page_id ?f")
      case True
      then show ?thesis using on_file(1) [of i] i len id by auto
    next
      case False
      then show ?thesis using write_back_other [OF fi id] by simp
    qed
    finally show ?thesis using on_file(2) by simp
  qed
qed

lemma evict_ok:
  assumes wf: "pool_wf pool" and ev: "buffer_pool_evict pool = (Some i, pool')"
  shows "pool_wf pool'" and "i < POOL_SIZE" and "page_id (frames pool' ! i) = NO_PAGE"
    and "bp_content pool' q = bp_content pool q" and "clock pool' = clock pool"
    and "\<And>j. page_id (frames pool' ! j) = NO_PAGE \<or> page_id (frames pool' ! j) = page_id (frames pool ! j)"
proof -
  let ?f = "frames pool ! i"
  let ?e = "?f\<lparr>page := None, page_id := NO_PAGE, is_dirty := False, pin_count := 0\<rparr>"
  let ?p = "if is_dirty ?f then pool\<lparr>bp_pager := write_back (bp_pager pool) ?f\<rparr> else pool"
  have len: "length (frames pool) = POOL_SIZE" and uniq: "ids_unique (frames pool)"
    using wf by (auto simp: pool_wf_def)
  show i: "i < POOL_SIZE" using evict_victim(1) [OF ev] len by simp
  have fi: "frame_wf (bp_pager pool) (clock pool) ?f" using wf i by (rule pool_wfD)
  have pool': "pool' = ?p\<lparr>frames := (frames ?p)[i := ?e], clock := clock ?p\<rparr>"
    using ev by (auto simp: buffer_pool_evict_def Let_def split: option.splits)
  have dirty: "page_id ?f \<noteq> NO_PAGE" if "is_dirty ?f" using fi that by (auto simp: frame_wf_def)
  have p_wf: "pool_wf ?p" using pool_wf_write_back(1) [OF wf i] dirty wf by simp
  have p_content: "bp_content ?p q = bp_content pool q" for q
    using pool_wf_write_back(2) [OF wf i] dirty by simp
  have p_frames: "frames ?p = frames pool" "clock ?p = clock pool" by simp_all
  have e_wf: "frame_wf (bp_pager ?p) (clock ?p) ?e" using fi by (auto simp: frame_wf_def)
  show "pool_wf pool'" unfolding pool' by (rule pool_wf_replace_frame [OF p_wf i e_wf]) simp_all
  show "page_id (frames pool' ! i) = NO_PAGE" using i len by (simp add: pool')
  show "clock pool' = clock pool" by (simp add: pool')
  show "\<And>j. page_id (frames pool' ! j) = NO_PAGE \<or> page_id (frames pool' ! j) = page_id (frames pool ! j)"
    using i len by (simp add: pool' nth_list_update)
  have "bp_content pool' q = bp_content ?p q"
    unfolding pool'
  proof (rule bp_content_replace_frame [OF p_wf i])
    assume held: "page_id (frames ?p ! i) = q" and "q \<noteq> NO_PAGE"
    then have "page_id ?f \<noteq> NO_PAGE" unfolding p_frames by simp
    with fi obtain d where "page ?f = Some d" and "length d = PAGE_SIZE" and "page_id ?f < TABLE_MAX_PAGES"
      and "is_dirty ?f \<or> d = pager_read (bp_pager pool) (page_id ?f) []"
      by (rule frame_wf_valid)
    then show "pool_peek ?p i = pager_read (bp_pager ?p) q []"
      using write_back_same [OF fi \<open>page_id ?f \<noteq> NO_PAGE\<close>] held by (auto simp: pool_peek_def)
  qed auto
  with p_content show "bp_content pool' q = bp_content pool q" by simp
qed

text \<open>Loading a page into an empty slot.\<close>

lemma load_ok:
  assumes wf: "pool_wf pool" and s: "s < POOL_SIZE" and empty: "page_id (frames pool ! s) = NO_PAGE"
    and pid: "pid < TABLE_MAX_PAGES" and absent: "\<And>j. j < POOL_SIZE \<Longrightarrow> page_id (frames pool ! j) \<noteq> pid"
    and pool'_def: "pool' = pool\<lparr>frames := (frames pool)[s := \<lparr>page = Some (pager_read (bp_pager pool) pid junk),
     page_id = pid, is_dirty = False, pin_count = 1, last_used = clock pool\<rparr>]\<rparr>"
  shows "pool_wf pool'" and "bp_content pool' q = bp_content pool q"
    and "pool_peek pool' s = bp_content pool pid"
proof -
  let ?f = "\<lparr>page = Some (pager_read (bp_pager pool) pid junk),
     page_id = pid, is_dirty = False, pin_count = 1, last_used = clock pool\<rparr>"
  have len: "length (frames pool) = POOL_SIZE" using wf by (rule pool_wfD)
  have same: "pool' = pool\<lparr>frames := (frames pool)[s := ?f], clock := clock pool\<rparr>"
    by (simp add: pool'_def)
  have nz: "pid \<noteq> NO_PAGE" using pid by auto
  have f_wf: "frame_wf (bp_pager pool) (clock pool) ?f"
    using pid nz pager_read_any_buffer [OF pid] by (simp add: frame_wf_def)
  show "pool_wf pool'" unfolding same
    by (rule pool_wf_replace_frame [OF wf s f_wf]) (use absent in auto)
  have on_file: "bp_content pool pid = pager_read (bp_pager pool) pid []"
    using absent len by (intro bp_content_file) simp
  show "pool_peek pool' s = bp_content pool pid"
    using s len on_file pager_read_any_buffer [OF pid] by (simp add: pool_peek_def pool'_def)
  show "bp_content pool' q = bp_content pool q" unfolding same
  proof (rule bp_content_replace_frame [OF wf s])
    show "page ?f = Some (bp_content pool q)" if "page_id ?f = q"
      using that on_file pager_read_any_buffer [OF pid, of "bp_pager pool" junk "[]"] by auto
  qed (use absent empty in auto)
qed

lemma get_page_hit:
  assumes wf: "pool_wf pool" and pid: "pid \<noteq> NO_PAGE" and s: "s < POOL_SIZE"
    and hit: "page_id (frames pool ! s) = pid"
  shows "buffer_pool_get_page junk pool pid = (Some s, pool\<lparr>frames := (frames pool)[s := (frames pool ! s)
     \<lparr>last_used := clock pool + 1, pin_count := pin_count (frames pool ! s) + 1\<rparr>], clock := clock pool + 1\<rparr>)"
proof -
  have "first_idx (\<lambda>f. page_id f = pid) (frames pool) = Some s"
    using first_idx_id(1) [OF pool_wfD(2) [OF wf] _ hit pid] s pool_wfD(1) [OF wf] by simp
  then show ?thesis by (simp add: buffer_pool_get_page_def)
qed

lemma pool_wf_tick: "pool_wf pool \<Longrightarrow> pool_wf (pool\<lparr>clock := clock pool + 1\<rparr>)"
  by (auto simp: pool_wf_def frame_wf_def split: option.splits if_splits)

lemma bp_content_tick [simp]: "bp_content (pool\<lparr>clock := c\<rparr>) q = bp_content pool q"
  by (simp add: bp_content_def pool_peek_def split: option.split)

text \<open>A page not in the pool: the slot comes empty or is made empty by eviction.\<close>

lemma get_page_miss:
  assumes wf: "pool_wf pool" and absent: "\<And>j. j < POOL_SIZE \<Longrightarrow> page_id (frames pool ! j) \<noteq> pid"
    and got: "buffer_pool_get_page junk pool pid = (Some s, pool')" and pid: "pid \<noteq> NO_PAGE"
  obtains pool1 where "pool_wf pool1" and "s < POOL_SIZE" and "page_id (frames pool1 ! s) = NO_PAGE"
    and "\<And>q. bp_content pool1 q = bp_content pool q" and "clock pool1 = clock pool + 1"
    and "\<And>j. j < POOL_SIZE \<Longrightarrow> page_id (frames pool1 ! j) \<noteq> pid"
    and "pool' = pool1\<lparr>frames := (frames pool1)[s := \<lparr>page = Some (pager_read (bp_pager pool1) pid junk),
       page_id = pid, is_dirty = False, pin_count = 1, last_used = clock pool1\<rparr>]\<rparr>"
proof -
  let ?p = "pool\<lparr>clock := clock pool + 1\<rparr>"
  have len: "length (frames pool) = POOL_SIZE" using wf by (rule pool_wfD)
  have p_wf: "pool_wf ?p" using wf by (rule pool_wf_tick)
  have none: "first_idx (\<lambda>f. page_id f = pid) (frames pool) = None"
    unfolding first_idx_None_nth using absent len by simp
  show thesis
  proof (cases "first_idx (\<lambda>f. page_id f = NO_PAGE) (frames pool)")
    case (Some i)
    then have i: "i < POOL_SIZE" "page_id (frames pool ! i) = NO_PAGE"
      using first_idx_SomeD [OF Some] len by auto
    have "s = i" and "pool' = ?p\<lparr>frames := (frames ?p)[s := \<lparr>page = Some (pager_read (bp_pager ?p) pid junk),
       page_id = pid, is_dirty = False, pin_count = 1, last_used = clock ?p\<rparr>]\<rparr>"
      using got none Some by (auto simp: buffer_pool_get_page_def)
    with i p_wf absent show ?thesis by (intro that [of ?p]) auto
  next
    case None
    obtain slot pool1 where ev: "buffer_pool_evict ?p = (slot, pool1)" by fastforce
    with got none None have slot: "slot = Some s"
      and pool': "pool' = pool1\<lparr>frames := (frames pool1)[s := \<lparr>page = Some (pager_read (bp_pager pool1) pid junk),
       page_id = pid, is_dirty = False, pin_count = 1, last_used = clock pool1\<rparr>]\<rparr>"
      by (auto simp: buffer_pool_get_page_def split: option.splits)
    note e = evict_ok [OF p_wf ev [unfolded slot]]
    have gone: "page_id (frames pool1 ! j) \<noteq> pid" if "j < POOL_SIZE" for j
      using e(6) [of j] absent [OF that] pid by auto
    show ?thesis by (rule that [OF e(1-3) _ _ gone pool']) (use e(4,5) in simp_all)
  qed
qed

lemma get_page_ok:
  assumes wf: "pool_wf pool" and pid: "pid < TABLE_MAX_PAGES"
    and got: "buffer_pool_get_page junk pool pid = (Some s, pool')"
  shows "pool_wf pool'" and "s < POOL_SIZE" and "page_id (frames pool' ! s) = pid"
    and "pin_count (frames pool' ! s) > 0"
    and "pool_peek pool' s = bp_content pool pid" and "bp_content pool' q = bp_content pool q"
proof -
  have len: "length (frames pool) = POOL_SIZE" using wf by (rule pool_wfD)
  have nz: "pid \<noteq> NO_PAGE" using pid by auto
  have "pool_wf pool' \<and> s < POOL_SIZE \<and> page_id (frames pool' ! s) = pid \<and> pin_count (frames pool' ! s) > 0 \<and>
    pool_peek pool' s = bp_content pool pid \<and> bp_content pool' q = bp_content pool q"
  proof (cases "\<exists>i < POOL_SIZE. page_id (frames pool ! i) = pid")
    case True
    then obtain i where i: "i < POOL_SIZE" and hit: "page_id (frames pool ! i) = pid" by blast
    let ?g = "(frames pool ! i)\<lparr>last_used := clock pool + 1, pin_count := pin_count (frames pool ! i) + 1\<rparr>"
    have s: "s = i" and pool': "pool' = pool\<lparr>frames := (frames pool)[i := ?g], clock := clock pool + 1\<rparr>"
      using got unfolding get_page_hit [OF wf nz i hit] by auto
    have fi: "frame_wf (bp_pager pool) (clock pool) (frames pool ! i)" using wf i by (rule pool_wfD)
    then obtain d where d: "page (frames pool ! i) = Some d"
      using frame_wf_valid [of "bp_pager pool" "clock pool" "frames pool ! i"] hit nz by metis
    have content: "bp_content pool pid = pool_peek pool i"
      using bp_content_frame [OF pool_wfD(2) [OF wf] _ hit nz] i len by simp
    have fresh: "page_id ?g = NO_PAGE \<or> page_id (frames pool ! j) \<noteq> page_id ?g"
      if "j < POOL_SIZE" "j \<noteq> i" for j
      using ids_uniqueD [OF pool_wfD(2) [OF wf], of j i] that i len by auto
    have g_wf: "frame_wf (bp_pager pool) (clock pool + 1) ?g"
      using fi by (auto simp: frame_wf_def split: option.splits if_splits)
    have "pool_wf pool'" unfolding pool'
      by (rule pool_wf_replace_frame [OF wf i g_wf _ fresh]) simp_all
    moreover have "bp_content pool' q = bp_content pool q" unfolding pool'
      by (rule bp_content_replace_frame [OF wf i fresh])
         (use content d hit in \<open>auto simp: pool_peek_def\<close>)
    ultimately show ?thesis
      using i s len hit fi content d by (auto simp: pool' pool_peek_def frame_wf_def)
  next
    case False
    then have absent: "\<And>j. j < POOL_SIZE \<Longrightarrow> page_id (frames pool ! j) \<noteq> pid" by blast
    from get_page_miss [OF wf absent got nz] obtain pool1 where p1: "pool_wf pool1" "s < POOL_SIZE"
      "page_id (frames pool1 ! s) = NO_PAGE" "\<And>q. bp_content pool1 q = bp_content pool q"
      "\<And>j. j < POOL_SIZE \<Longrightarrow> page_id (frames pool1 ! j) \<noteq> pid"
      and pool': "pool' = pool1\<lparr>frames := (frames pool1)[s := \<lparr>page = Some (pager_read (bp_pager pool1) pid junk),
         page_id = pid, is_dirty = False, pin_count = 1, last_used = clock pool1\<rparr>]\<rparr>" by blast
    note l = load_ok [OF p1(1-3) pid p1(5) pool']
    show ?thesis using l p1(2,4) pool_wfD(1) [OF p1(1)] by (simp add: pool')
  qed
  then show "pool_wf pool'" and "s < POOL_SIZE" and "page_id (frames pool' ! s) = pid"
    and "pin_count (frames pool' ! s) > 0"
    and "pool_peek pool' s = bp_content pool pid" and "bp_content pool' q = bp_content pool q" by auto
qed

text \<open>\<open>NULL\<close> means that every page is pinned; then nothing has changed.\<close>

lemma get_page_None:
  assumes wf: "pool_wf pool" and pid: "pid < TABLE_MAX_PAGES" and time: "clock pool < 0x7FFFFFFE"
    and got: "buffer_pool_get_page junk pool pid = (None, pool')"
  shows "\<forall>i < POOL_SIZE. pin_count (frames pool ! i) > 0" and "bp_content pool' q = bp_content pool q"
    and "pool_wf pool'"
proof -
  let ?p = "pool\<lparr>clock := clock pool + 1\<rparr>"
  have len: "length (frames pool) = POOL_SIZE" using wf by (rule pool_wfD)
  have ev: "buffer_pool_evict ?p = (None, pool')"
    using got by (auto simp: buffer_pool_get_page_def Let_def split: option.splits prod.splits)
  note e = evict_None [OF ev]
  show "\<forall>i < POOL_SIZE. pin_count (frames pool ! i) > 0"
  proof (intro allI impI)
    fix i assume i: "i < POOL_SIZE"
    then have "0 \<le> pin_count (frames pool ! i)" and "last_used (frames pool ! i) \<le> clock pool"
      using pool_wfD(3) [OF wf i] by (auto simp: frame_wf_def)
    moreover have "pin_count (frames pool ! i) = 0 \<longrightarrow> 0x7FFFFFFF \<le> last_used (frames pool ! i)"
      using e(2) i len by simp
    ultimately show "pin_count (frames pool ! i) > 0" using time by linarith
  qed
  show "bp_content pool' q = bp_content pool q" and "pool_wf pool'"
    using e(1) pool_wf_tick [OF wf] by simp_all
qed

text \<open>A pinned frame keeps its page whatever page is fetched next: eviction never takes it.\<close>

lemma get_page_keeps_pinned:
  assumes wf: "pool_wf pool" and pid: "pid < TABLE_MAX_PAGES" and i: "i < POOL_SIZE"
    and pinned: "pin_count (frames pool ! i) > 0" and held: "page_id (frames pool ! i) \<noteq> NO_PAGE"
    and got: "buffer_pool_get_page junk pool pid = (r, pool')"
  shows "page (frames pool' ! i) = page (frames pool ! i)"
    and "page_id (frames pool' ! i) = page_id (frames pool ! i)"
    and "pin_count (frames pool' ! i) \<ge> pin_count (frames pool ! i)"
proof -
  have len: "length (frames pool) = POOL_SIZE" using wf by (rule pool_wfD)
  let ?p = "pool\<lparr>clock := clock pool + 1\<rparr>"
  have "page (frames pool' ! i) = page (frames pool ! i) \<and>
    page_id (frames pool' ! i) = page_id (frames pool ! i) \<and>
    pin_count (frames pool' ! i) \<ge> pin_count (frames pool ! i)"
  proof (cases "first_idx (\<lambda>f. page_id f = pid) (frames pool)")
    case (Some k)
    then show ?thesis using got len i by (cases "k = i") (auto simp: buffer_pool_get_page_def)
  next
    case none: None
    show ?thesis
    proof (cases "first_idx (\<lambda>f. page_id f = NO_PAGE) (frames pool)")
      case (Some k)
      then have "k \<noteq> i" using first_idx_SomeD(2) [OF Some] held by auto
      then show ?thesis using got none Some by (auto simp: buffer_pool_get_page_def)
    next
      case full: None
      obtain slot pool1 where ev: "buffer_pool_evict ?p = (slot, pool1)" by fastforce
      show ?thesis
      proof (cases slot)
        case None
        then show ?thesis using got none full ev evict_None(1) [of ?p pool1]
          by (auto simp: buffer_pool_get_page_def)
      next
        case (Some k)
        then have "k \<noteq> i" using evict_victim(2) [of ?p k pool1] ev pinned by auto
        moreover have "frames pool1 ! i = frames pool ! i"
          using ev Some \<open>k \<noteq> i\<close> by (auto simp: buffer_pool_evict_def Let_def split: option.splits)
        ultimately show ?thesis using got none full ev Some
          by (auto simp: buffer_pool_get_page_def)
      qed
    qed
  qed
  then show "page (frames pool' ! i) = page (frames pool ! i)"
    and "page_id (frames pool' ! i) = page_id (frames pool ! i)"
    and "pin_count (frames pool' ! i) \<ge> pin_count (frames pool ! i)" by auto
qed

text \<open>Storing a page through its pointer and marking it dirty changes that page and no other.\<close>

definition holds :: "buffer_pool \<Rightarrow> nat \<Rightarrow> u32 \<Rightarrow> bool" where
  "holds pool s pid \<longleftrightarrow> s < POOL_SIZE \<and> page_id (frames pool ! s) = pid \<and> pid < TABLE_MAX_PAGES \<and>
     pin_count (frames pool ! s) > 0"

lemma store_dirty:
  assumes wf: "pool_wf pool" and h: "holds pool s pid" and d: "length d = PAGE_SIZE"
  shows "pool_wf (buffer_pool_mark_dirty (pool_store pool s d) pid)"
    and "bp_content (buffer_pool_mark_dirty (pool_store pool s d) pid) q =
      (if q = pid then d else bp_content pool q)"
    and "holds (buffer_pool_mark_dirty (pool_store pool s d) pid) s pid"
proof -
  let ?f = "(frames pool ! s)\<lparr>page := Some d, is_dirty := True\<rparr>"
  have len: "length (frames pool) = POOL_SIZE" and uniq: "ids_unique (frames pool)"
    using wf by (auto simp: pool_wf_def)
  from h have s: "s < POOL_SIZE" "page_id (frames pool ! s) = pid" "pid < TABLE_MAX_PAGES" "pid \<noteq> NO_PAGE"
    by (auto simp: holds_def)
  have stored: "ids_unique ((frames pool)[s := (frames pool ! s)\<lparr>page := Some d\<rparr>])"
    by (rule ids_unique_replace [OF uniq]) (use s len ids_uniqueD [OF uniq] in auto)
  have "first_idx (\<lambda>f. page_id f = pid) ((frames pool)[s := (frames pool ! s)\<lparr>page := Some d\<rparr>]) = Some s"
    using first_idx_id(1) [OF stored, of s pid] s len by simp
  then have eq: "buffer_pool_mark_dirty (pool_store pool s d) pid =
      pool\<lparr>frames := (frames pool)[s := ?f], clock := clock pool\<rparr>"
    using s len by (simp add: buffer_pool_mark_dirty_def pool_store_def update_first_def)
  have f_wf: "frame_wf (bp_pager pool) (clock pool) ?f"
    using pool_wfD(3) [OF wf s(1)] s d by (auto simp: frame_wf_def split: if_splits)
  have fresh: "page_id ?f = NO_PAGE \<or> page_id (frames pool ! j) \<noteq> page_id ?f"
    if "j < POOL_SIZE" "j \<noteq> s" for j
    using ids_uniqueD [OF uniq, of j s] that s len by auto
  show wf': "pool_wf (buffer_pool_mark_dirty (pool_store pool s d) pid)"
    unfolding eq by (rule pool_wf_replace_frame [OF wf s(1) f_wf _ fresh]) simp_all
  show "holds (buffer_pool_mark_dirty (pool_store pool s d) pid) s pid"
    using h len by (simp add: eq holds_def)
  show "bp_content (buffer_pool_mark_dirty (pool_store pool s d) pid) q =
      (if q = pid then d else bp_content pool q)"
  proof (cases "q = pid")
    case True
    then show ?thesis
      using bp_content_frame [OF pool_wfD(2) [OF wf'], of s pid] s len by (simp add: eq pool_peek_def)
  next
    case False
    then show ?thesis unfolding eq
      using bp_content_replace_frame [OF wf s(1) fresh, of q "clock pool"] s by simp
  qed
qed

lemma unpin_ok:
  assumes wf: "pool_wf pool"
  shows "pool_wf (buffer_pool_unpin pool pid)" and "bp_content (buffer_pool_unpin pool pid) q = bp_content pool q"
proof -
  have len: "length (frames pool) = POOL_SIZE" and uniq: "ids_unique (frames pool)"
    using wf by (auto simp: pool_wf_def)
  have "pool_wf (buffer_pool_unpin pool pid) \<and> bp_content (buffer_pool_unpin pool pid) q = bp_content pool q"
  proof (cases "first_idx (\<lambda>f. page_id f = pid) (frames pool)")
    case None
    then show ?thesis using wf by (simp add: buffer_pool_unpin_def update_first_def)
  next
    case (Some s)
    let ?g = "frames pool ! s"
    let ?f = "if pin_count ?g > 0 then ?g\<lparr>pin_count := pin_count ?g - 1\<rparr> else ?g"
    have s: "s < POOL_SIZE" using first_idx_SomeD(1) [OF Some] len by simp
    have eq: "buffer_pool_unpin pool pid = pool\<lparr>frames := (frames pool)[s := ?f], clock := clock pool\<rparr>"
      using Some by (simp add: buffer_pool_unpin_def update_first_def)
    have g: "frame_wf (bp_pager pool) (clock pool) ?g" using wf s by (rule pool_wfD)
    have f_wf: "frame_wf (bp_pager pool) (clock pool) ?f"
      using g by (auto simp: frame_wf_def split: option.splits if_splits)
    have id: "page_id ?f = page_id ?g" and pg: "page ?f = page ?g" by simp_all
    have fresh: "page_id ?f = NO_PAGE \<or> page_id (frames pool ! j) \<noteq> page_id ?f"
      if "j < POOL_SIZE" "j \<noteq> s" for j
      using ids_uniqueD [OF uniq, of j s] that s len unfolding id by auto
    have new: "page ?f = Some (bp_content pool q)" if "page_id ?f = q" "q \<noteq> NO_PAGE"
    proof -
      from g that obtain d where "page ?g = Some d" unfolding id
        using frame_wf_valid by metis
      then show ?thesis
        using bp_content_frame [OF uniq, of s q] that s len unfolding id pg by (simp add: pool_peek_def)
    qed
    have "pool_wf (pool\<lparr>frames := (frames pool)[s := ?f], clock := clock pool\<rparr>)"
      by (rule pool_wf_replace_frame [OF wf s f_wf _ fresh]) simp_all
    moreover have "bp_content (pool\<lparr>frames := (frames pool)[s := ?f], clock := clock pool\<rparr>) q = bp_content pool q"
      by (rule bp_content_replace_frame [OF wf s fresh new]) (use id in simp_all)
    ultimately show ?thesis unfolding eq by blast
  qed
  then show "pool_wf (buffer_pool_unpin pool pid)" and "bp_content (buffer_pool_unpin pool pid) q = bp_content pool q"
    by auto
qed

section \<open>Flushing\<close>

lemma ids_unique_Cons:
  assumes "ids_unique (f # fs)"
  shows "ids_unique fs" and "g \<in> set fs \<Longrightarrow> page_id f = NO_PAGE \<or> page_id g \<noteq> page_id f"
proof -
  show "ids_unique fs"
    unfolding ids_unique_def
  proof (intro allI impI)
    fix i j assume i: "i < length fs" "j < length fs"
      and same: "page_id (fs ! i) = page_id (fs ! j) \<and> page_id (fs ! i) \<noteq> NO_PAGE"
    from i have "Suc i = Suc j"
      by (intro ids_uniqueD [OF assms]) (simp_all add: conjunct1 [OF same], use same in auto)
    then show "i = j" by simp
  qed
  show "page_id f = NO_PAGE \<or> page_id g \<noteq> page_id f" if "g \<in> set fs"
  proof -
    from that obtain i where "i < length fs" "g = fs ! i" by (auto simp: in_set_conv_nth)
    then show ?thesis using ids_uniqueD [OF assms, of 0 "Suc i"] by auto
  qed
qed

lemma flush_frames_frames:
  "\<forall>f \<in> set fs. page_id f = NO_PAGE \<longrightarrow> \<not> is_dirty f \<Longrightarrow>
   snd (flush_frames pgr fs) = map (\<lambda>f. f\<lparr>is_dirty := False\<rparr>) fs"
  by (induction pgr fs rule: flush_frames.induct) (auto split: prod.splits)

lemma flush_frames_file:
  assumes "ids_unique fs" and "\<forall>f \<in> set fs. \<exists>pgr. frame_wf pgr now f"
  shows "pager_read (fst (flush_frames pgr fs)) q [] =
    (case find (\<lambda>f. page_id f = q \<and> q \<noteq> NO_PAGE \<and> is_dirty f) fs of
       Some f \<Rightarrow> (case page f of Some d \<Rightarrow> d | None \<Rightarrow> [])
     | None \<Rightarrow> pager_read pgr q [])"
  using assms
proof (induction fs arbitrary: pgr)
  case Nil
  then show ?case by simp
next
  case (Cons f fs)
  note uniq = ids_unique_Cons [OF Cons.prems(1)]
  from Cons.prems(2) obtain pgr0 where wf: "frame_wf pgr0 now f" by auto
  show ?case
  proof (cases "page_id f \<noteq> NO_PAGE \<and> is_dirty f")
    case True
    then have wf': "frame_wf pgr now f" using wf by (auto simp: frame_wf_def split: option.splits)
    have IH: "pager_read (fst (flush_frames (write_back pgr f) fs)) q [] =
      (case find (\<lambda>f. page_id f = q \<and> q \<noteq> NO_PAGE \<and> is_dirty f) fs of
         Some f \<Rightarrow> (case page f of Some d \<Rightarrow> d | None \<Rightarrow> [])
       | None \<Rightarrow> pager_read (write_back pgr f) q [])"
      using Cons.IH [OF uniq(1)] Cons.prems(2) by simp
    have step: "fst (flush_frames pgr (f # fs)) = fst (flush_frames (write_back pgr f) fs)"
      using True by (simp split: prod.splits)
    show ?thesis
    proof (cases "page_id f = q")
      case q: True
      then have none: "find (\<lambda>f. page_id f = q \<and> q \<noteq> NO_PAGE \<and> is_dirty f) fs = None"
        using uniq(2) True by (auto simp: find_None_iff)
      have "Some (pager_read (write_back pgr f) q []) = page f"
        using write_back_same [OF wf'] True q by simp
      then show ?thesis using IH none step True q by (auto split: option.splits)
    next
      case False
      then show ?thesis using IH step True write_back_other [OF wf', of q]
        by (auto split: option.splits)
    qed
  next
    case False
    then have "fst (flush_frames pgr (f # fs)) = fst (flush_frames pgr fs)"
      by (auto split: prod.splits)
    then show ?thesis using Cons.IH [OF uniq(1), of pgr] Cons.prems(2) False by auto
  qed
qed

lemma flush_all_ok:
  assumes wf: "pool_wf pool"
  shows "pager_read (bp_pager (buffer_pool_flush_all pool)) q [] = bp_content pool q"
    and "i < POOL_SIZE \<Longrightarrow> \<not> is_dirty (frames (buffer_pool_flush_all pool) ! i)"
    and "i < POOL_SIZE \<Longrightarrow> page (frames (buffer_pool_flush_all pool) ! i) = page (frames pool ! i)"
proof -
  have len: "length (frames pool) = POOL_SIZE" and uniq: "ids_unique (frames pool)"
    using wf by (auto simp: pool_wf_def)
  have all_wf: "\<forall>f \<in> set (frames pool). frame_wf (bp_pager pool) (clock pool) f"
    using wf len by (auto simp: pool_wf_def in_set_conv_nth)
  then have some_wf: "\<forall>f \<in> set (frames pool). \<exists>pgr. frame_wf pgr (clock pool) f" by blast
  from all_wf have "\<forall>f \<in> set (frames pool). page_id f = NO_PAGE \<longrightarrow> \<not> is_dirty f"
    by (auto simp: frame_wf_def)
  from flush_frames_frames [OF this]
  have frames': "frames (buffer_pool_flush_all pool) = map (\<lambda>f. f\<lparr>is_dirty := False\<rparr>) (frames pool)"
    by (simp add: buffer_pool_flush_all_def split: prod.splits) (metis snd_conv)
  show "i < POOL_SIZE \<Longrightarrow> \<not> is_dirty (frames (buffer_pool_flush_all pool) ! i)"
    and "i < POOL_SIZE \<Longrightarrow> page (frames (buffer_pool_flush_all pool) ! i) = page (frames pool ! i)"
    using frames' len by simp_all
  let ?P = "\<lambda>f. page_id f = q \<and> q \<noteq> NO_PAGE \<and> is_dirty f"
  have final: "pager_read (bp_pager (buffer_pool_flush_all pool)) q [] =
    (case find ?P (frames pool) of
       Some f \<Rightarrow> (case page f of Some d \<Rightarrow> d | None \<Rightarrow> []) | None \<Rightarrow> pager_read (bp_pager pool) q [])"
    using flush_frames_file [OF uniq some_wf, of "bp_pager pool" q]
    by (auto simp: buffer_pool_flush_all_def split: prod.splits)
  from uniq show "pager_read (bp_pager (buffer_pool_flush_all pool)) q [] = bp_content pool q"
  proof (cases rule: bp_content_cases [where q = q])
    case (cached k)
    let ?f = "frames pool ! k"
    have f: "?f \<in> set (frames pool)" using cached by simp
    from all_wf f have wf_f: "frame_wf (bp_pager pool) (clock pool) ?f" by blast
    with cached obtain d where d: "page ?f = Some d" "is_dirty ?f \<or> d = pager_read (bp_pager pool) (page_id ?f) []"
      using frame_wf_valid by metis
    show ?thesis
    proof (cases "find ?P (frames pool)")
      case None
      then have "\<not> is_dirty ?f" using cached f by (auto simp: find_None_iff)
      then show ?thesis using d cached final None by (simp add: pool_peek_def)
    next
      case (Some g)
      then obtain j where j: "j < length (frames pool)" "g = frames pool ! j" "?P g"
        by (auto simp: find_Some_iff)
      then have "j = k" using ids_uniqueD [OF uniq, of j k] cached by simp
      then show ?thesis using j cached final Some by (simp add: pool_peek_def)
    qed
  next
    case on_file
    then have "find ?P (frames pool) = None"
      by (auto simp: find_None_iff in_set_conv_nth)
    then show ?thesis using on_file final by simp
  qed
qed

section \<open>A pool with no page pinned\<close>

definition quiet :: "buffer_pool \<Rightarrow> bool" where
  "quiet pool \<longleftrightarrow> (\<forall>i < POOL_SIZE. pin_count (frames pool ! i) = 0)"

definition one_pinned :: "buffer_pool \<Rightarrow> nat \<Rightarrow> bool" where
  "one_pinned pool s \<longleftrightarrow> (\<forall>i < POOL_SIZE. pin_count (frames pool ! i) = (if i = s then 1 else 0))"

text \<open>Fetching from a quiet pool succeeds and pins one frame; unpinning makes it quiet again.\<close>

lemma quiet_fetch:
  assumes wf: "pool_wf pool" and q: "quiet pool" and pid: "pid < TABLE_MAX_PAGES" and time: "clock pool < 0x7FFFFFFE"
  obtains s pool' where "buffer_pool_get_page junk pool pid = (Some s, pool')"
    and "one_pinned pool' s" and "clock pool' = clock pool + 1"
proof -
  obtain r pool' where got: "buffer_pool_get_page junk pool pid = (r, pool')" by fastforce
  have len: "length (frames pool) = POOL_SIZE" using wf by (rule pool_wfD)
  have nz: "pid \<noteq> NO_PAGE" using pid by auto
  from q have "pin_count (frames pool ! 0) = 0" by (simp add: quiet_def)
  then have "r \<noteq> None"
    using get_page_None(1) [OF wf pid time, of junk pool'] got by force
  then obtain s where r: "r = Some s" by blast
  have pins: "pin_count (frames pool' ! i) = (if i = s then 1 else 0)" if i: "i < POOL_SIZE" for i
  proof (cases "first_idx (\<lambda>f. page_id f = pid) (frames pool)")
    case (Some k)
    then show ?thesis using got r q i len
      by (cases "k = i") (auto simp: buffer_pool_get_page_def quiet_def)
  next
    case none: None
    show ?thesis
    proof (cases "first_idx (\<lambda>f. page_id f = NO_PAGE) (frames pool)")
      case (Some k)
      then show ?thesis using got r none q i len
        by (cases "k = i") (auto simp: buffer_pool_get_page_def quiet_def)
    next
      case full: None
      obtain slot pool1 where ev: "buffer_pool_evict (pool\<lparr>clock := clock pool + 1\<rparr>) = (slot, pool1)" by fastforce
      then have slot: "slot = Some s" using got r none full
        by (auto simp: buffer_pool_get_page_def split: option.splits)
      have pool1: "frames pool1 = (frames pool)[s := (frames pool ! s)
          \<lparr>page := None, page_id := NO_PAGE, is_dirty := False, pin_count := 0\<rparr>]"
        using ev slot by (auto simp: buffer_pool_evict_def Let_def split: option.splits)
      show ?thesis using got none full ev slot pool1 q i len
        by (cases "s = i") (auto simp: buffer_pool_get_page_def quiet_def)
    qed
  qed
  have "clock pool' = clock pool + 1"
  proof (cases "first_idx (\<lambda>f. page_id f = pid) (frames pool)")
    case (Some k)
    then show ?thesis using got by (auto simp: buffer_pool_get_page_def)
  next
    case none: None
    show ?thesis
    proof (cases "first_idx (\<lambda>f. page_id f = NO_PAGE) (frames pool)")
      case (Some k)
      then show ?thesis using got none by (auto simp: buffer_pool_get_page_def)
    next
      case full: None
      obtain slot pool1 where ev: "buffer_pool_evict (pool\<lparr>clock := clock pool + 1\<rparr>) = (slot, pool1)" by fastforce
      then have "clock pool1 = clock pool + 1"
        by (auto simp: buffer_pool_evict_def Let_def split: option.splits)
      then show ?thesis using got none full ev
        by (auto simp: buffer_pool_get_page_def split: option.splits)
    qed
  qed
  with pins show thesis using that [of s pool'] got r by (simp add: one_pinned_def)
qed

lemma quiet_unpin:
  assumes wf: "pool_wf pool" and s: "s < POOL_SIZE" "page_id (frames pool ! s) = pid" "pid < TABLE_MAX_PAGES"
    and pins: "one_pinned pool s"
  shows "quiet (buffer_pool_unpin pool pid)" and "clock (buffer_pool_unpin pool pid) = clock pool"
proof -
  have len: "length (frames pool) = POOL_SIZE" using wf by (rule pool_wfD)
  have "pid \<noteq> NO_PAGE" using s(3) by auto
  then have "first_idx (\<lambda>f. page_id f = pid) (frames pool) = Some s"
    using first_idx_id(1) [OF pool_wfD(2) [OF wf] _ s(2)] s(1) len by simp
  then show "quiet (buffer_pool_unpin pool pid)" and "clock (buffer_pool_unpin pool pid) = clock pool"
    using pins s(1) len
    by (auto simp: quiet_def one_pinned_def buffer_pool_unpin_def update_first_def nth_list_update)
qed

lemma quiet_init: "quiet (buffer_pool_init f)"
  by (simp add: quiet_def buffer_pool_init_def empty_frame_def)

lemma update_first_nth:
  assumes "\<And>x. h (g x) = h x"
  shows "h (update_first P g xs ! i) = h (xs ! i)"
proof (cases "first_idx P xs")
  case None
  then show ?thesis by (simp add: update_first_def)
next
  case (Some k)
  then show ?thesis using assms first_idx_SomeD(1) [OF Some]
    by (cases "k = i") (simp_all add: update_first_def)
qed

lemma store_dirty_pins:
  assumes "pool_wf pool" and "holds pool s pid"
  shows "page_id (frames (buffer_pool_mark_dirty (pool_store pool s d) pid) ! i) = page_id (frames pool ! i)"
    and "one_pinned (buffer_pool_mark_dirty (pool_store pool s d) pid) k \<longleftrightarrow> one_pinned pool k"
    and "clock (buffer_pool_mark_dirty (pool_store pool s d) pid) = clock pool"
proof -
  have s: "s < length (frames pool)" using assms by (simp add: pool_wf_def holds_def)
  have stored: "page_id (frames (pool_store pool s d) ! i) = page_id (frames pool ! i)"
    "pin_count (frames (pool_store pool s d) ! i) = pin_count (frames pool ! i)" for i
    using s by (cases "s = i"; simp add: pool_store_def)+
  show "page_id (frames (buffer_pool_mark_dirty (pool_store pool s d) pid) ! i) = page_id (frames pool ! i)"
    using stored update_first_nth [of page_id "\<lambda>f :: frame. f\<lparr>is_dirty := True\<rparr>"]
    by (simp add: buffer_pool_mark_dirty_def)
  have "pin_count (frames (buffer_pool_mark_dirty (pool_store pool s d) pid) ! i) = pin_count (frames pool ! i)" for i
    using stored update_first_nth [of pin_count "\<lambda>f :: frame. f\<lparr>is_dirty := True\<rparr>"]
    by (simp add: buffer_pool_mark_dirty_def)
  then show "one_pinned (buffer_pool_mark_dirty (pool_store pool s d) pid) k \<longleftrightarrow> one_pinned pool k"
    by (simp add: one_pinned_def)
  show "clock (buffer_pool_mark_dirty (pool_store pool s d) pid) = clock pool"
    by (simp add: buffer_pool_mark_dirty_def pool_store_def)
qed

section \<open>The page cache as an interface\<close>

text \<open>
  What the B+ tree layer calls: fetch a page (pinned), look at it and store through the
  pointer, mark it dirty, unpin it. The provider promises that a fetch shows the page's
  content and that nothing but a store changes any page's content. The client's two
  patterns, a read and an update of one page, are proved from the promises alone.
\<close>

locale page_cache =
  fixes fetch :: "'p \<Rightarrow> u32 \<Rightarrow> nat option \<times> 'p"
    and peek :: "'p \<Rightarrow> nat \<Rightarrow> bytes"
    and store :: "'p \<Rightarrow> nat \<Rightarrow> bytes \<Rightarrow> 'p"
    and mark :: "'p \<Rightarrow> u32 \<Rightarrow> 'p"
    and release :: "'p \<Rightarrow> u32 \<Rightarrow> 'p"
    and content :: "'p \<Rightarrow> u32 \<Rightarrow> bytes"
    and invar :: "'p \<Rightarrow> bool"
    and pinned :: "'p \<Rightarrow> nat \<Rightarrow> u32 \<Rightarrow> bool"
  assumes fetch_ok: "invar p \<Longrightarrow> n < TABLE_MAX_PAGES \<Longrightarrow> fetch p n = (Some s, p') \<Longrightarrow>
      invar p' \<and> pinned p' s n \<and> peek p' s = content p n \<and> content p' = content p"
    and update_ok: "invar p \<Longrightarrow> pinned p s n \<Longrightarrow> length d = PAGE_SIZE \<Longrightarrow>
      invar (mark (store p s d) n) \<and> content (mark (store p s d) n) = (content p)(n := d)"
    and release_ok: "invar p \<Longrightarrow> invar (release p n) \<and> content (release p n) = content p"
begin

lemma read_session:
  assumes "invar p" and "n < TABLE_MAX_PAGES" and "fetch p n = (Some s, p')"
  shows "peek p' s = content p n" and "invar (release p' n)" and "content (release p' n) = content p"
  using fetch_ok [OF assms] release_ok [of p' n] by simp_all

lemma update_session:
  assumes "invar p" and "n < TABLE_MAX_PAGES" and "fetch p n = (Some s, p')" and "length d = PAGE_SIZE"
  shows "invar (release (mark (store p' s d) n) n)"
    and "content (release (mark (store p' s d) n) n) = (content p)(n := d)"
  using fetch_ok [OF assms(1-3)] update_ok [of p' s n d] release_ok [of "mark (store p' s d) n" n] assms(4)
  by simp_all

end

interpretation bp: page_cache "buffer_pool_get_page junk" pool_peek pool_store
    buffer_pool_mark_dirty buffer_pool_unpin bp_content pool_wf holds for junk
proof
  fix p n s p'
  assume "pool_wf p" and "n < TABLE_MAX_PAGES" and "buffer_pool_get_page junk p n = (Some s, p')"
  note g = get_page_ok [OF this]
  show "pool_wf p' \<and> holds p' s n \<and> pool_peek p' s = bp_content p n \<and> bp_content p' = bp_content p"
    using g \<open>n < TABLE_MAX_PAGES\<close> by (auto simp: holds_def)
next
  fix p s n and d :: bytes
  assume "pool_wf p" and "holds p s n" and "length d = PAGE_SIZE"
  note u = store_dirty [OF this]
  show "pool_wf (buffer_pool_mark_dirty (pool_store p s d) n) \<and>
    bp_content (buffer_pool_mark_dirty (pool_store p s d) n) = (bp_content p)(n := d)"
    using u by auto
next
  fix p n
  assume "pool_wf p"
  then show "pool_wf (buffer_pool_unpin p n) \<and> bp_content (buffer_pool_unpin p n) = bp_content p"
    using unpin_ok by auto
qed

lemma replicate_POOL_SIZE: "replicate POOL_SIZE x = [x, x, x, x, x, x, x, x, x, x]"
  by (simp add: numeral_eq_Suc)

lemma pager_read_file: "pg_file p = pg_file p' \<Longrightarrow> pager_read p q out = pager_read p' q out"
  by (simp add: pager_read_def)

lemma pg_file_open [simp]: "pg_file (pager_open (Some bs)) = bs"
  by (simp add: pager_open_def Let_def)

section \<open>Properties\<close>

text \<open>C12: Fetching a page below \<open>TABLE_MAX_PAGES\<close> from a well-formed pool either returns a frame
  that holds exactly that page's current content, pinned, or, when no frame is returned, every
  frame is pinned; in both cases the pool stays well formed and no page's content changes,
  whatever was evicted and written back.\<close>

theorem get_page_refines:
  assumes "pool_wf pool" and "pid < TABLE_MAX_PAGES" and "clock pool < 0x7FFFFFFE"
    and "buffer_pool_get_page junk pool pid = (r, pool')"
  shows "pool_wf pool' \<and> bp_content pool' = bp_content pool \<and>
    (case r of Some s \<Rightarrow> s < POOL_SIZE \<and> page_id (frames pool' ! s) = pid \<and>
         pin_count (frames pool' ! s) > 0 \<and> pool_peek pool' s = bp_content pool pid
     | None \<Rightarrow> (\<forall>i < POOL_SIZE. pin_count (frames pool ! i) > 0))"
proof (cases r)
  case None
  with assms get_page_None [OF assms(1,2,3)] show ?thesis by auto
next
  case (Some s)
  with assms get_page_ok [OF assms(1,2)] show ?thesis by auto
qed

theorem get_page_refines_witness:
  "pool_wf (snd (buffer_pool_get_page [] (buffer_pool_init None) 3))"
proof -
  have "clock (buffer_pool_init None) < 0x7FFFFFFE" by (simp add: buffer_pool_init_def)
  from get_page_refines [OF pool_wf_init [of None] _ this, of 3 "[]"]
  show ?thesis by (simp add: prod_eq_iff)
qed

text \<open>A page that is pinned is never evicted: whatever page is fetched next, its frame keeps
  the same page and identity and stays pinned, so a pointer into it stays valid.\<close>

theorem pinned_page_survives_fetch:
  assumes "pool_wf pool" and "pid < TABLE_MAX_PAGES" and "holds pool i n"
    and "buffer_pool_get_page junk pool pid = (r, pool')"
  shows "holds pool' i n \<and> pool_peek pool' i = pool_peek pool i"
proof -
  have i: "i < POOL_SIZE" "pin_count (frames pool ! i) > 0" "page_id (frames pool ! i) \<noteq> NO_PAGE"
    using assms(3) by (auto simp: holds_def)
  from get_page_keeps_pinned [OF assms(1,2) i assms(4)] assms(3) show ?thesis
    by (auto simp: holds_def pool_peek_def)
qed

theorem pinned_page_survives_fetch_witness:
  "holds (snd (buffer_pool_get_page [] (snd (buffer_pool_get_page [] (buffer_pool_init None) 3)) 4)) 0 3"
proof -
  let ?p0 = "buffer_pool_init None" and ?p1 = "snd (buffer_pool_get_page [] (buffer_pool_init None) 3)"
  have "holds ?p1 0 3"
    by (simp add: holds_def buffer_pool_get_page_def buffer_pool_init_def empty_frame_def
        replicate_POOL_SIZE)
  moreover have "pool_wf ?p1"
  proof -
    have "fst (buffer_pool_get_page [] ?p0 3) = Some 0"
      by (simp add: buffer_pool_get_page_def buffer_pool_init_def empty_frame_def replicate_POOL_SIZE)
    then have "buffer_pool_get_page [] ?p0 3 = (Some 0, ?p1)" by (simp add: prod_eq_iff)
    from get_page_ok(1) [OF pool_wf_init _ this] show ?thesis by simp
  qed
  ultimately show ?thesis
    using pinned_page_survives_fetch [of ?p1 4 0 3 "[]"] by (simp add: prod_eq_iff)
qed

text \<open>Eviction is LRU: the slot it takes is unpinned, and no other unpinned slot was used
  before it.\<close>

theorem evict_takes_lru:
  assumes "buffer_pool_evict pool = (Some i, pool')" and "j < length (frames pool)"
    and "pin_count (frames pool ! j) = 0"
  shows "pin_count (frames pool ! i) = 0 \<and> last_used (frames pool ! i) \<le> last_used (frames pool ! j)"
  using evict_victim [OF assms(1)] assms(2,3) by simp

definition two_frames :: buffer_pool where
  "two_frames = \<lparr>bp_pager = pager_open None, frames =
     [\<lparr>page = Some [], page_id = 1, is_dirty = False, pin_count = 0, last_used = 7\<rparr>,
      \<lparr>page = Some [], page_id = 2, is_dirty = False, pin_count = 0, last_used = 5\<rparr>], clock = 9\<rparr>"

theorem evict_takes_lru_witness:
  "fst (buffer_pool_evict two_frames) = Some 1 \<and> last_used (frames two_frames ! 1) \<le> last_used (frames two_frames ! 0)"
proof -
  have ev: "fst (buffer_pool_evict two_frames) = Some 1"
    by (simp add: buffer_pool_evict_def two_frames_def)
  then have "buffer_pool_evict two_frames = (Some 1, snd (buffer_pool_evict two_frames))"
    by (simp add: prod_eq_iff)
  from evict_takes_lru [OF this, of 0] ev show ?thesis by (simp add: two_frames_def)
qed

text \<open>Closing the pool and opening the file again loses nothing: every page has, in the
  new pool, the content it had in the old one, dirty pages included.\<close>

theorem close_then_open_keeps_content:
  assumes "pool_wf pool"
  shows "bp_content (buffer_pool_init (Some (buffer_pool_close pool))) q = bp_content pool q"
  using flush_all_ok(1) [OF assms, of q]
    pager_read_file [of "pager_open (Some (buffer_pool_close pool))" "bp_pager (buffer_pool_flush_all pool)"]
  by (simp add: bp_content_init buffer_pool_close_def)

theorem close_then_open_keeps_content_witness:
  "bp_content (buffer_pool_init (Some (buffer_pool_close (buffer_pool_init None)))) 5 = bp_content (buffer_pool_init None) 5"
  by (rule close_then_open_keeps_content [OF pool_wf_init])

end
