(* ===== verification/BTreeLeaf.thy ===== *)
theory BTreeLeaf
  imports BufferPool "HOL-Library.Multiset"
begin

text \<open>
  \<open>src/btree.c\<close> and the node layout of \<open>include/btree.h\<close>: a table is one leaf node on the
  root page, its cells (a 4-byte key and a 512-byte row) sorted by key; a full node is not
  split. Offsets are the values of the \<open>#define\<close>s: common header 6, leaf header 10, cell 516,
  \<open>LEAF_NODE_MAX_CELLS = (4096 - 10) / 516 = 7\<close>. A page is the bytes of its frame; the table
  functions reach it through the buffer pool as the code does. A \<open>NULL\<close> page (every frame
  pinned) is dereferenced by the code, which is the outcome \<open>None\<close> here.
\<close>

abbreviation ROW_SIZE :: nat where "ROW_SIZE \<equiv> 512"
abbreviation LEAF_NODE_NUM_CELLS_OFFSET :: nat where "LEAF_NODE_NUM_CELLS_OFFSET \<equiv> 6"
abbreviation LEAF_NODE_HEADER_SIZE :: nat where "LEAF_NODE_HEADER_SIZE \<equiv> 10"
abbreviation LEAF_NODE_CELL_SIZE :: nat where "LEAF_NODE_CELL_SIZE \<equiv> 516"
abbreviation LEAF_NODE_MAX_CELLS :: nat where "LEAF_NODE_MAX_CELLS \<equiv> 7"

section \<open>Node accessors\<close>

definition leaf_node_num_cells :: "bytes \<Rightarrow> nat" where
  "leaf_node_num_cells node = le_decode (window LEAF_NODE_NUM_CELLS_OFFSET 4 node)"

definition set_num_cells :: "nat \<Rightarrow> bytes \<Rightarrow> bytes" where
  "set_num_cells n node = blit LEAF_NODE_NUM_CELLS_OFFSET (le_encode 4 n) node"

definition leaf_node_cell :: "nat \<Rightarrow> nat" where
  "leaf_node_cell i = LEAF_NODE_HEADER_SIZE + i * LEAF_NODE_CELL_SIZE"

definition leaf_node_key :: "bytes \<Rightarrow> nat \<Rightarrow> u32" where
  "leaf_node_key node i = word_of_nat (le_decode (window (leaf_node_cell i) 4 node))"

definition leaf_node_value :: "bytes \<Rightarrow> nat \<Rightarrow> bytes" where
  "leaf_node_value node i = window (leaf_node_cell i + 4) ROW_SIZE node"

definition leaf_node_init :: "bytes \<Rightarrow> bytes" where
  "leaf_node_init node = set_num_cells 0 (node[0 := 1, 1 := 0])"

definition set_is_root :: "byte \<Rightarrow> bytes \<Rightarrow> bytes" where
  "set_is_root b node = node[1 := b]"

section \<open>Tables and cursors\<close>

record table =
  root_page_num :: u32
  tbl_pool :: buffer_pool

text \<open>\<open>table_find\<close> does not set \<open>end_of_table\<close>: \<open>None\<close>.\<close>

record cursor =
  page_num :: u32
  cell_num :: nat
  end_of_table :: "bool option"

definition db_open :: "bytes \<Rightarrow> bytes option \<Rightarrow> table option" where
  "db_open junk f =
     (let pool = buffer_pool_init f
      in if file_length (bp_pager pool) div 4096 = 0
         then (case buffer_pool_get_page junk pool 0 of
                 (None, _) \<Rightarrow> None
               | (Some s, pool1) \<Rightarrow>
                   let node = set_is_root 1 (leaf_node_init (pool_peek pool1 s));
                       pool2 = buffer_pool_mark_dirty (pool_store pool1 s node) 0
                   in Some \<lparr>root_page_num = 0, tbl_pool = buffer_pool_unpin pool2 0\<rparr>)
         else Some \<lparr>root_page_num = 0, tbl_pool = pool\<rparr>)"

definition table_start :: "bytes \<Rightarrow> table \<Rightarrow> (cursor \<times> table) option" where
  "table_start junk tbl =
     (case buffer_pool_get_page junk (tbl_pool tbl) (root_page_num tbl) of
        (None, _) \<Rightarrow> None
      | (Some s, pool) \<Rightarrow>
          let num_cells = leaf_node_num_cells (pool_peek pool s)
          in Some (\<lparr>page_num = root_page_num tbl, cell_num = 0, end_of_table = Some (num_cells = 0)\<rparr>,
                   tbl\<lparr>tbl_pool := buffer_pool_unpin pool (root_page_num tbl)\<rparr>))"

text \<open>The binary search of \<open>table_find\<close>; \<open>lo\<close> and \<open>hi\<close> are \<open>min_index\<close> and
  \<open>one_past_max_index\<close>, which start at 0 and the number of cells.\<close>

function leaf_search :: "(nat \<Rightarrow> u32) \<Rightarrow> u32 \<Rightarrow> nat \<Rightarrow> nat \<Rightarrow> nat" where
  "leaf_search key_at key lo hi =
     (if lo < hi
      then let index = (lo + hi) div 2
           in if key = key_at index then index
              else if key < key_at index then leaf_search key_at key lo index
              else leaf_search key_at key (index + 1) hi
      else lo)"
  by pat_completeness auto
termination
  by (relation "measure (\<lambda>(k, key, lo, hi). hi - lo)") auto

declare leaf_search.simps [simp del]

definition table_find :: "bytes \<Rightarrow> table \<Rightarrow> u32 \<Rightarrow> (cursor \<times> table) option" where
  "table_find junk tbl key =
     (case buffer_pool_get_page junk (tbl_pool tbl) (root_page_num tbl) of
        (None, _) \<Rightarrow> None
      | (Some s, pool) \<Rightarrow>
          let node = pool_peek pool s;
              index = leaf_search (leaf_node_key node) key 0 (leaf_node_num_cells node)
          in Some (\<lparr>page_num = root_page_num tbl, cell_num = index, end_of_table = None\<rparr>,
                   tbl\<lparr>tbl_pool := buffer_pool_unpin pool (root_page_num tbl)\<rparr>))"

text \<open>\<open>for (i = num_cells; i > cell_num; i--) memcpy(cell(i), cell(i - 1), CELL_SIZE)\<close>\<close>

fun shift_cells :: "nat \<Rightarrow> nat \<Rightarrow> bytes \<Rightarrow> bytes" where
  "shift_cells c 0 node = node"
| "shift_cells c (Suc i) node =
     (if Suc i > c
      then shift_cells c i
             (blit (leaf_node_cell (Suc i)) (window (leaf_node_cell i) LEAF_NODE_CELL_SIZE node) node)
      else node)"

definition leaf_insert_cell :: "nat \<Rightarrow> u32 \<Rightarrow> bytes \<Rightarrow> bytes \<Rightarrow> bytes" where
  "leaf_insert_cell c key row node =
     (let n = leaf_node_num_cells node;
          node1 = (if c < n then shift_cells c n node else node);
          node2 = set_num_cells (n + 1) node1;
          node3 = blit (leaf_node_cell c) (le_encode 4 (unat key)) node2
      in blit (leaf_node_cell c + 4) row node3)"

text \<open>A full node is reported on the console and left alone.\<close>

definition leaf_node_insert :: "bytes \<Rightarrow> table \<Rightarrow> cursor \<Rightarrow> u32 \<Rightarrow> bytes \<Rightarrow> table option" where
  "leaf_node_insert junk tbl cur key row =
     (case buffer_pool_get_page junk (tbl_pool tbl) (page_num cur) of
        (None, _) \<Rightarrow> None
      | (Some s, pool) \<Rightarrow>
          let node = pool_peek pool s
          in if leaf_node_num_cells node \<ge> LEAF_NODE_MAX_CELLS
             then Some (tbl\<lparr>tbl_pool := buffer_pool_unpin pool (page_num cur)\<rparr>)
             else let pool1 = pool_store pool s (leaf_insert_cell (cell_num cur) key row node);
                      pool2 = buffer_pool_mark_dirty pool1 (page_num cur)
                  in Some (tbl\<lparr>tbl_pool := buffer_pool_unpin pool2 (page_num cur)\<rparr>))"

text \<open>The keys that \<open>print_leaf_node\<close> lists.\<close>

definition print_leaf_node :: "bytes \<Rightarrow> u32 list" where
  "print_leaf_node node = map (leaf_node_key node) [0..<leaf_node_num_cells node]"

section \<open>The abstract node: a sorted list of rows\<close>

definition leaf_rows :: "bytes \<Rightarrow> (u32 \<times> bytes) list" where
  "leaf_rows node = map (\<lambda>i. (leaf_node_key node i, leaf_node_value node i)) [0..<leaf_node_num_cells node]"

definition leaf_wf :: "bytes \<Rightarrow> bool" where
  "leaf_wf node \<longleftrightarrow> length node = PAGE_SIZE \<and> leaf_node_num_cells node \<le> LEAF_NODE_MAX_CELLS \<and>
     sorted (map fst (leaf_rows node))"

definition cell_of :: "bytes \<Rightarrow> nat \<Rightarrow> bytes" where
  "cell_of node i = window (leaf_node_cell i) LEAF_NODE_CELL_SIZE node"

lemma length_leaf_rows [simp]: "length (leaf_rows node) = leaf_node_num_cells node"
  by (simp add: leaf_rows_def)

lemma leaf_rows_nth: "i < leaf_node_num_cells node \<Longrightarrow>
   leaf_rows node ! i = (leaf_node_key node i, leaf_node_value node i)"
  by (simp add: leaf_rows_def)

lemma key_of_cell: "leaf_node_key node i = word_of_nat (le_decode (take 4 (cell_of node i)))"
  by (simp add: leaf_node_key_def cell_of_def window_def)

lemma value_of_cell: "leaf_node_value node i = take ROW_SIZE (drop 4 (cell_of node i))"
  by (simp add: leaf_node_value_def cell_of_def window_def drop_take min_def add.commute)

subsection \<open>Binary search\<close>

text \<open>On sorted keys the search stops at an occurrence of the key, or between the smaller
  and the greater ones.\<close>

definition search_result :: "(nat \<Rightarrow> u32) \<Rightarrow> u32 \<Rightarrow> nat \<Rightarrow> nat \<Rightarrow> bool" where
  "search_result key_at key n r \<longleftrightarrow> r \<le> n \<and>
     ((r < n \<and> key_at r = key) \<or> ((\<forall>i < r. key_at i < key) \<and> (\<forall>i. r \<le> i \<and> i < n \<longrightarrow> key < key_at i)))"

lemma leaf_search_correct:
  assumes "\<And>i j. i \<le> j \<Longrightarrow> j < n \<Longrightarrow> key_at i \<le> key_at j" and "lo \<le> hi" and "hi \<le> n"
    and "\<forall>i < lo. key_at i < key" and "\<forall>i. hi \<le> i \<and> i < n \<longrightarrow> key < key_at i"
  shows "search_result key_at key n (leaf_search key_at key lo hi)"
  using assms
proof (induction key_at key lo hi rule: leaf_search.induct)
  case (1 key_at key lo hi)
  let ?m = "(lo + hi) div 2"
  show ?case
  proof (cases "lo < hi")
    case False
    then show ?thesis using 1 by (simp add: leaf_search.simps search_result_def)
  next
    case lt: True
    then have m: "lo \<le> ?m" "?m < hi" "?m < n" using "1.prems"(3) by auto
    consider "key = key_at ?m" | "key < key_at ?m" | "key_at ?m < key" by (meson linorder_neqE)
    then show ?thesis
    proof cases
      case 1
      then show ?thesis using lt m by (simp add: leaf_search.simps search_result_def)
    next
      case 2
      have "\<forall>i. ?m \<le> i \<and> i < n \<longrightarrow> key < key_at i"
        using 2 "1.prems"(1) by (meson less_le_trans)
      with 2 lt m "1.IH"(1) [OF lt refl] "1.prems" show ?thesis
        by (auto simp: leaf_search.simps [of key_at key lo hi] Let_def)
    next
      case 3
      have "\<forall>i < ?m + 1. key_at i < key"
      proof (intro allI impI)
        fix i assume "i < ?m + 1"
        then have "key_at i \<le> key_at ?m" using "1.prems"(1) m by simp
        with 3 show "key_at i < key" by simp
      qed
      with 3 lt m "1.IH"(2) [OF lt refl] "1.prems" show ?thesis
        by (auto simp: leaf_search.simps [of key_at key lo hi] Let_def)
    qed
  qed
qed

subsection \<open>Inserting a cell\<close>

lemma cell_bounds: "i < LEAF_NODE_MAX_CELLS \<Longrightarrow> leaf_node_cell i + LEAF_NODE_CELL_SIZE \<le> PAGE_SIZE"
  by (simp add: leaf_node_cell_def)

lemma length_cell_of: "length node = PAGE_SIZE \<Longrightarrow> i < LEAF_NODE_MAX_CELLS \<Longrightarrow> length (cell_of node i) = LEAF_NODE_CELL_SIZE"
  using cell_bounds [of i] by (simp add: cell_of_def)

lemma cells_apart: "i \<noteq> j \<Longrightarrow> leaf_node_cell i + LEAF_NODE_CELL_SIZE \<le> leaf_node_cell j \<or>
   leaf_node_cell j + LEAF_NODE_CELL_SIZE \<le> leaf_node_cell i"
  by (auto simp: leaf_node_cell_def)

lemma cell_of_blit_cell:
  assumes "length node = PAGE_SIZE" and "i < LEAF_NODE_MAX_CELLS" and "j < LEAF_NODE_MAX_CELLS"
    and "length c = LEAF_NODE_CELL_SIZE"
  shows "cell_of (blit (leaf_node_cell i) c node) j = (if j = i then c else cell_of node j)"
  using assms cell_bounds [of i] window_blit_same [of "leaf_node_cell i" c node]
    window_blit_disjoint [of "leaf_node_cell i" c node "leaf_node_cell j" LEAF_NODE_CELL_SIZE]
    cells_apart [of i j]
  by (auto simp: cell_of_def)

lemma header_blit_cell:
  assumes "length node = PAGE_SIZE" and "i < LEAF_NODE_MAX_CELLS" and "length c = LEAF_NODE_CELL_SIZE"
  shows "leaf_node_num_cells (blit (leaf_node_cell i) c node) = leaf_node_num_cells node"
proof -
  have "window LEAF_NODE_NUM_CELLS_OFFSET 4 (blit (leaf_node_cell i) c node) = window LEAF_NODE_NUM_CELLS_OFFSET 4 node"
    using cell_bounds [OF assms(2)] assms by (intro window_blit_before) (auto simp: leaf_node_cell_def)
  then show ?thesis by (simp add: leaf_node_num_cells_def)
qed

lemma shift_cells_ok:
  assumes "length node = PAGE_SIZE" and "i < LEAF_NODE_MAX_CELLS"
  shows "length (shift_cells c i node) = PAGE_SIZE"
    and "leaf_node_num_cells (shift_cells c i node) = leaf_node_num_cells node"
    and "j < LEAF_NODE_MAX_CELLS \<Longrightarrow>
      cell_of (shift_cells c i node) j = (if c < j \<and> j \<le> i then cell_of node (j - 1) else cell_of node j)"
proof -
  have "length (shift_cells c i node) = PAGE_SIZE \<and>
    leaf_node_num_cells (shift_cells c i node) = leaf_node_num_cells node \<and>
    (\<forall>j < LEAF_NODE_MAX_CELLS. cell_of (shift_cells c i node) j =
       (if c < j \<and> j \<le> i then cell_of node (j - 1) else cell_of node j))"
    using assms
  proof (induction c i node rule: shift_cells.induct)
    case (1 c node)
    then show ?case by simp
  next
    case (2 c i node)
    let ?w = "window (leaf_node_cell i) LEAF_NODE_CELL_SIZE node"
    let ?n = "blit (leaf_node_cell (Suc i)) ?w node"
    have w: "length ?w = LEAF_NODE_CELL_SIZE" "?w = cell_of node i"
      using length_cell_of [of node i] 2 by (simp_all add: cell_of_def)
    have n: "length ?n = PAGE_SIZE" using cell_bounds [OF "2.prems"(2)] 2 w by simp
    show ?case
    proof (cases "Suc i > c")
      case False
      then show ?thesis using "2.prems" by auto
    next
      case True
      note IH = "2.IH" [OF True n]
      have cells: "cell_of ?n j = (if j = Suc i then cell_of node i else cell_of node j)"
        if "j < LEAF_NODE_MAX_CELLS" for j
        using cell_of_blit_cell [OF "2.prems" that w(1)] w(2) by simp
      have "leaf_node_num_cells ?n = leaf_node_num_cells node"
        using header_blit_cell [OF "2.prems" w(1)] .
      with True IH cells "2.prems" show ?thesis by (auto simp: le_Suc_eq)
    qed
  qed
  then show "length (shift_cells c i node) = PAGE_SIZE"
    and "leaf_node_num_cells (shift_cells c i node) = leaf_node_num_cells node"
    and "j < LEAF_NODE_MAX_CELLS \<Longrightarrow>
      cell_of (shift_cells c i node) j = (if c < j \<and> j \<le> i then cell_of node (j - 1) else cell_of node j)"
    by auto
qed

lemma set_num_cells_ok:
  assumes "length node = PAGE_SIZE" and "n < 2 ^ 32"
  shows "length (set_num_cells n node) = PAGE_SIZE" and "leaf_node_num_cells (set_num_cells n node) = n"
    and "cell_of (set_num_cells n node) j = cell_of node j"
proof -
  show "length (set_num_cells n node) = PAGE_SIZE" using assms by (simp add: set_num_cells_def)
  show "leaf_node_num_cells (set_num_cells n node) = n"
    using assms window_blit_same [of LEAF_NODE_NUM_CELLS_OFFSET "le_encode 4 n" node]
    by (simp add: set_num_cells_def leaf_node_num_cells_def le_decode_encode)
  show "cell_of (set_num_cells n node) j = cell_of node j"
    using assms by (simp add: set_num_cells_def cell_of_def window_blit_after leaf_node_cell_def)
qed

lemma blit_blit_adjacent:
  "off + length xs + length ys \<le> length buf \<Longrightarrow>
   blit (off + length xs) ys (blit off xs buf) = blit off (xs @ ys) buf"
  by (simp add: blit_def ac_simps)

lemma leaf_insert_cell_ok:
  assumes node: "length node = PAGE_SIZE" and n: "leaf_node_num_cells node < LEAF_NODE_MAX_CELLS"
    and c: "c \<le> leaf_node_num_cells node" and row: "length row = ROW_SIZE"
  shows "length (leaf_insert_cell c key row node) = PAGE_SIZE"
    and "leaf_rows (leaf_insert_cell c key row node) =
      take c (leaf_rows node) @ (key, row) # drop c (leaf_rows node)"
proof -
  let ?n = "leaf_node_num_cells node"
  define node1 where "node1 = (if c < ?n then shift_cells c ?n node else node)"
  define node2 where "node2 = set_num_cells (?n + 1) node1"
  let ?new = "le_encode 4 (unat key) @ row"
  have cB: "c < LEAF_NODE_MAX_CELLS" using n c by simp
  have node1: "length node1 = PAGE_SIZE" "leaf_node_num_cells node1 = ?n"
    "\<And>j. j < LEAF_NODE_MAX_CELLS \<Longrightarrow> c < j \<Longrightarrow> j \<le> ?n \<Longrightarrow> cell_of node1 j = cell_of node (j - 1)"
    "\<And>j. j < LEAF_NODE_MAX_CELLS \<Longrightarrow> j < c \<Longrightarrow> cell_of node1 j = cell_of node j"
    using shift_cells_ok [OF node n] node c by (auto simp: node1_def)
  have "?n + 1 < 2 ^ 32" using n by simp
  note node2 = set_num_cells_ok [OF node1(1) this, folded node2_def]
  have result: "leaf_insert_cell c key row node = blit (leaf_node_cell c) ?new node2"
    using blit_blit_adjacent [of "leaf_node_cell c" "le_encode 4 (unat key)" row node2]
      cell_bounds [OF cB] node2(1) row
    by (simp add: leaf_insert_cell_def Let_def node1_def node2_def)
  have new: "length ?new = LEAF_NODE_CELL_SIZE" using row by simp
  show len: "length (leaf_insert_cell c key row node) = PAGE_SIZE"
    using cell_bounds [OF cB] node2(1) row by (simp add: result)
  have num: "leaf_node_num_cells (leaf_insert_cell c key row node) = ?n + 1"
    using header_blit_cell [OF node2(1) cB new] node2(2) by (simp add: result)
  have cell: "cell_of (leaf_insert_cell c key row node) j =
      (if j = c then ?new else if j < c then cell_of node j else cell_of node (j - 1))"
    if "j \<le> ?n" for j
    using that n node1(3,4) [of j] node2(3) [of j] cell_of_blit_cell [OF node2(1) cB _ new, of j]
    by (auto simp: result)
  have key: "word_of_nat (le_decode (le_encode 4 (unat key))) = key"
    using unsigned_less [of key, where 'a = nat] by (simp add: le_decode_encode)
  show "leaf_rows (leaf_insert_cell c key row node) =
      take c (leaf_rows node) @ (key, row) # drop c (leaf_rows node)"
  proof (rule nth_equalityI)
    show "length (leaf_rows (leaf_insert_cell c key row node)) =
      length (take c (leaf_rows node) @ (key, row) # drop c (leaf_rows node))"
      using num c by simp
    fix j assume "j < length (leaf_rows (leaf_insert_cell c key row node))"
    then have j: "j \<le> ?n" using num by simp
    then have lhs: "leaf_rows (leaf_insert_cell c key row node) ! j =
      (word_of_nat (le_decode (take 4 (cell_of (leaf_insert_cell c key row node) j))),
       take ROW_SIZE (drop 4 (cell_of (leaf_insert_cell c key row node) j)))"
      using num by (simp add: leaf_rows_nth key_of_cell value_of_cell)
    have old: "leaf_rows node ! k = (word_of_nat (le_decode (take 4 (cell_of node k))),
       take ROW_SIZE (drop 4 (cell_of node k)))" if "k < ?n" for k
      using that by (simp add: leaf_rows_nth key_of_cell value_of_cell)
    consider "j < c" | "j = c" | "c < j" by linarith
    then show "leaf_rows (leaf_insert_cell c key row node) ! j =
      (take c (leaf_rows node) @ (key, row) # drop c (leaf_rows node)) ! j"
    proof cases
      case 1
      then show ?thesis using lhs cell [OF j] old [of j] c by (simp add: nth_append)
    next
      case 2
      then show ?thesis using lhs cell [OF j] key row c by (simp add: nth_append)
    next
      case 3
      then have "(take c (leaf_rows node) @ (key, row) # drop c (leaf_rows node)) ! j = leaf_rows node ! (j - 1)"
        using c j by (simp add: nth_append nth_Cons' min_def)
      then show ?thesis using lhs cell [OF j] old [of "j - 1"] 3 j by simp
    qed
  qed
qed

lemma sorted_insert_at:
  fixes xs :: "('k :: linorder) list"
  assumes "sorted xs" and "r \<le> length xs" and "\<forall>i < r. xs ! i \<le> k"
    and "\<forall>i. r \<le> i \<and> i < length xs \<longrightarrow> k \<le> xs ! i"
  shows "sorted (take r xs @ k # drop r xs)"
proof -
  have "x \<le> k" if "x \<in> set (take r xs)" for x
    using that assms by (auto simp: in_set_conv_nth)
  moreover have "k \<le> x" if "x \<in> set (drop r xs)" for x
    using that assms(2,4) by (auto simp: in_set_conv_nth)
  ultimately show ?thesis
    using assms(1) sorted_append [of "take r xs" "drop r xs"]
    by (auto simp: sorted_append intro: order_trans)
qed

section \<open>Tables over the page cache\<close>

text \<open>The table's rows are those of its root page, as the page cache shows it.\<close>

definition table_rows :: "table \<Rightarrow> (u32 \<times> bytes) list" where
  "table_rows tbl = leaf_rows (bp_content (tbl_pool tbl) (root_page_num tbl))"

definition table_wf :: "table \<Rightarrow> bool" where
  "table_wf tbl \<longleftrightarrow> pool_wf (tbl_pool tbl) \<and> root_page_num tbl < TABLE_MAX_PAGES \<and>
     leaf_wf (bp_content (tbl_pool tbl) (root_page_num tbl))"

lemma leaf_wf_keys_mono:
  assumes "leaf_wf node" and "i \<le> j" and "j < leaf_node_num_cells node"
  shows "leaf_node_key node i \<le> leaf_node_key node j"
  using sorted_nth_mono [of "map fst (leaf_rows node)" i j] assms
  by (simp add: leaf_wf_def leaf_rows_nth)

lemma leaf_search_node:
  "leaf_wf node \<Longrightarrow> search_result (leaf_node_key node) key (leaf_node_num_cells node)
     (leaf_search (leaf_node_key node) key 0 (leaf_node_num_cells node))"
  by (rule leaf_search_correct) (auto intro: leaf_wf_keys_mono)

lemma table_find_spec:
  assumes wf: "table_wf tbl" and found: "table_find junk tbl key = Some (cur, tbl')"
  shows "table_wf tbl'" and "table_rows tbl' = table_rows tbl" and "root_page_num tbl' = root_page_num tbl"
    and "page_num cur = root_page_num tbl" and "bp_content (tbl_pool tbl') = bp_content (tbl_pool tbl)"
    and "search_result (leaf_node_key (bp_content (tbl_pool tbl) (root_page_num tbl))) key
      (length (table_rows tbl)) (cell_num cur)"
proof -
  from wf have pool: "pool_wf (tbl_pool tbl)" "root_page_num tbl < TABLE_MAX_PAGES"
    and leaf: "leaf_wf (bp_content (tbl_pool tbl) (root_page_num tbl))"
    by (auto simp: table_wf_def)
  from found obtain s p where got: "buffer_pool_get_page junk (tbl_pool tbl) (root_page_num tbl) = (Some s, p)"
    and tbl': "tbl' = tbl\<lparr>tbl_pool := buffer_pool_unpin p (root_page_num tbl)\<rparr>"
    and cur: "cur = \<lparr>page_num = root_page_num tbl, cell_num = leaf_search (leaf_node_key (pool_peek p s)) key 0
       (leaf_node_num_cells (pool_peek p s)), end_of_table = None\<rparr>"
    by (auto simp: table_find_def Let_def split: prod.splits option.splits)
  note session = bp.read_session [OF pool got]
  show "table_wf tbl'" "table_rows tbl' = table_rows tbl" "root_page_num tbl' = root_page_num tbl"
    "page_num cur = root_page_num tbl" "bp_content (tbl_pool tbl') = bp_content (tbl_pool tbl)"
    using wf session by (simp_all add: tbl' cur table_wf_def table_rows_def)
  show "search_result (leaf_node_key (bp_content (tbl_pool tbl) (root_page_num tbl))) key
      (length (table_rows tbl)) (cell_num cur)"
    using leaf_search_node [OF leaf] session(1) by (simp add: cur table_rows_def)
qed

lemma leaf_node_insert_spec:
  assumes wf: "table_wf tbl" and cur: "page_num cur = root_page_num tbl"
    and ins: "leaf_node_insert junk tbl cur key row = Some tbl'" and row: "length row = ROW_SIZE"
    and pos: "search_result (leaf_node_key (bp_content (tbl_pool tbl) (root_page_num tbl))) key
      (length (table_rows tbl)) (cell_num cur)"
  shows "table_wf tbl'" and "root_page_num tbl' = root_page_num tbl"
    and "table_rows tbl' = (if length (table_rows tbl) \<ge> LEAF_NODE_MAX_CELLS then table_rows tbl
       else take (cell_num cur) (table_rows tbl) @ (key, row) # drop (cell_num cur) (table_rows tbl))"
proof -
  let ?node = "bp_content (tbl_pool tbl) (root_page_num tbl)" and ?c = "cell_num cur"
  let ?root = "root_page_num tbl"
  from wf have pool: "pool_wf (tbl_pool tbl)" "?root < TABLE_MAX_PAGES" and leaf: "leaf_wf ?node"
    by (auto simp: table_wf_def)
  have len: "length ?node = PAGE_SIZE" and sorted: "sorted (map fst (leaf_rows ?node))"
    using leaf by (auto simp: leaf_wf_def)
  from ins obtain s p where got: "buffer_pool_get_page junk (tbl_pool tbl) ?root = (Some s, p)"
    using cur by (auto simp: leaf_node_insert_def split: prod.splits option.splits)
  note read = bp.read_session [OF pool got]
  have "table_wf tbl' \<and> root_page_num tbl' = ?root \<and>
    table_rows tbl' = (if length (table_rows tbl) \<ge> LEAF_NODE_MAX_CELLS then table_rows tbl
       else take ?c (table_rows tbl) @ (key, row) # drop ?c (table_rows tbl))"
  proof (cases "leaf_node_num_cells ?node \<ge> LEAF_NODE_MAX_CELLS")
    case True
    then have "tbl' = tbl\<lparr>tbl_pool := buffer_pool_unpin p ?root\<rparr>"
      using ins got cur read(1) by (simp add: leaf_node_insert_def)
    then show ?thesis using wf read True by (simp add: table_wf_def table_rows_def)
  next
    case False
    let ?new = "leaf_insert_cell ?c key row ?node"
    have tbl': "tbl' = tbl\<lparr>tbl_pool := buffer_pool_unpin (buffer_pool_mark_dirty (pool_store p s ?new) ?root) ?root\<rparr>"
      using ins got cur read(1) False by (simp add: leaf_node_insert_def)
    have c: "?c \<le> leaf_node_num_cells ?node"
      using pos by (simp add: search_result_def table_rows_def)
    note new = leaf_insert_cell_ok [OF len _ c row, of key]
    have n: "leaf_node_num_cells ?node < LEAF_NODE_MAX_CELLS" using False by simp
    note update = bp.update_session [OF pool got new(1) [OF n]]
    have rows: "leaf_rows ?new = take ?c (leaf_rows ?node) @ (key, row) # drop ?c (leaf_rows ?node)"
      using new(2) [OF n] .
    have keys: "map fst (leaf_rows ?node) ! i = leaf_node_key ?node i" if "i < leaf_node_num_cells ?node" for i
      using that by (simp add: leaf_rows_nth)
    have "sorted (take ?c (map fst (leaf_rows ?node)) @ key # drop ?c (map fst (leaf_rows ?node)))"
    proof (rule sorted_insert_at [OF sorted])
      show "?c \<le> length (map fst (leaf_rows ?node))" using c by simp
      show "\<forall>i < ?c. map fst (leaf_rows ?node) ! i \<le> key"
      proof (intro allI impI)
        fix i assume i: "i < ?c"
        then have "leaf_node_key ?node i < key \<or> ?c < leaf_node_num_cells ?node \<and> leaf_node_key ?node ?c = key"
          using pos by (auto simp: search_result_def table_rows_def)
        then have "leaf_node_key ?node i \<le> key"
          using leaf_wf_keys_mono [OF leaf, of i ?c] i by auto
        then show "map fst (leaf_rows ?node) ! i \<le> key" using keys i c by simp
      qed
      show "\<forall>i. ?c \<le> i \<and> i < length (map fst (leaf_rows ?node)) \<longrightarrow> key \<le> map fst (leaf_rows ?node) ! i"
      proof (intro allI impI)
        fix i assume i: "?c \<le> i \<and> i < length (map fst (leaf_rows ?node))"
        then have "key < leaf_node_key ?node i \<or> leaf_node_key ?node ?c = key"
          using pos by (auto simp: search_result_def table_rows_def)
        then have "key \<le> leaf_node_key ?node i"
          using leaf_wf_keys_mono [OF leaf, of ?c i] i by auto
        then show "key \<le> map fst (leaf_rows ?node) ! i" using keys i by simp
      qed
    qed
    moreover have "leaf_node_num_cells ?new = leaf_node_num_cells ?node + 1"
      using arg_cong [OF rows, of length] c by simp
    ultimately have "leaf_wf ?new"
      using new(1) [OF n] rows n by (simp add: leaf_wf_def take_map drop_map)
    with update wf rows n show ?thesis
      by (simp add: tbl' table_wf_def table_rows_def)
  qed
  then show "table_wf tbl'" and "root_page_num tbl' = root_page_num tbl"
    and "table_rows tbl' = (if length (table_rows tbl) \<ge> LEAF_NODE_MAX_CELLS then table_rows tbl
       else take (cell_num cur) (table_rows tbl) @ (key, row) # drop (cell_num cur) (table_rows tbl))"
    by auto
qed

subsection \<open>The table functions return when no page is pinned\<close>

lemma table_find_returns:
  assumes wf: "table_wf tbl" and q: "quiet (tbl_pool tbl)" and time: "clock (tbl_pool tbl) < 0x7FFFFFFE"
  obtains cur tbl' where "table_find junk tbl key = Some (cur, tbl')" and "quiet (tbl_pool tbl')"
    and "clock (tbl_pool tbl') = clock (tbl_pool tbl) + 1"
proof -
  let ?root = "root_page_num tbl"
  from wf have pool: "pool_wf (tbl_pool tbl)" "?root < TABLE_MAX_PAGES" by (auto simp: table_wf_def)
  from pool(1) q pool(2) time obtain s p where got: "buffer_pool_get_page junk (tbl_pool tbl) ?root = (Some s, p)"
    and pins: "one_pinned p s" and clk: "clock p = clock (tbl_pool tbl) + 1"
    by (rule quiet_fetch [of _ _ junk])
  note g = get_page_ok [OF pool got]
  note u = quiet_unpin [OF g(1,2,3) pool(2) pins]
  show thesis using that u clk got by (simp add: table_find_def Let_def)
qed

lemma leaf_node_insert_returns:
  assumes wf: "table_wf tbl" and q: "quiet (tbl_pool tbl)" and time: "clock (tbl_pool tbl) < 0x7FFFFFFE"
    and cur: "page_num cur = root_page_num tbl" and row: "length row = ROW_SIZE"
    and pos: "search_result (leaf_node_key (bp_content (tbl_pool tbl) (root_page_num tbl))) key
      (length (table_rows tbl)) (cell_num cur)"
  obtains tbl' where "leaf_node_insert junk tbl cur key row = Some tbl'" and "quiet (tbl_pool tbl')"
    and "clock (tbl_pool tbl') = clock (tbl_pool tbl) + 1"
proof -
  let ?root = "root_page_num tbl"
  from wf have pool: "pool_wf (tbl_pool tbl)" "?root < TABLE_MAX_PAGES" by (auto simp: table_wf_def)
  from pool(1) q pool(2) time obtain s p where got: "buffer_pool_get_page junk (tbl_pool tbl) ?root = (Some s, p)"
    and pins: "one_pinned p s" and clk: "clock p = clock (tbl_pool tbl) + 1"
    by (rule quiet_fetch [of _ _ junk])
  note g = get_page_ok [OF pool got]
  have h: "holds p s ?root" using g pool by (simp add: holds_def)
  show thesis
  proof (cases "leaf_node_num_cells (pool_peek p s) \<ge> LEAF_NODE_MAX_CELLS")
    case True
    note u = quiet_unpin [OF g(1,2,3) pool(2) pins]
    show thesis using that u clk got True cur by (simp add: leaf_node_insert_def Let_def)
  next
    case False
    let ?node = "pool_peek p s"
    let ?p = "buffer_pool_mark_dirty (pool_store p s (leaf_insert_cell (cell_num cur) key row ?node)) ?root"
    have "search_result (leaf_node_key ?node) key (leaf_node_num_cells ?node) (cell_num cur)"
      using pos g(5) by (simp add: table_rows_def)
    then have c: "cell_num cur \<le> leaf_node_num_cells ?node" by (simp add: search_result_def)
    have "length ?node = PAGE_SIZE" using wf g(5) by (simp add: table_wf_def leaf_wf_def)
    from leaf_insert_cell_ok(1) [OF this _ c row] False
    have "length (leaf_insert_cell (cell_num cur) key row ?node) = PAGE_SIZE" by simp
    note st = store_dirty [OF g(1) h this]
    note pinned = store_dirty_pins [OF g(1) h, of "leaf_insert_cell (cell_num cur) key row ?node"]
    have "one_pinned ?p s" using pinned(2) pins by simp
    moreover have "page_id (frames ?p ! s) = ?root" using st(3) by (simp add: holds_def)
    ultimately have u: "quiet (buffer_pool_unpin ?p ?root)" "clock (buffer_pool_unpin ?p ?root) = clock ?p"
      using quiet_unpin [OF st(1) g(2) _ pool(2)] by blast+
    have clk': "clock ?p = clock (tbl_pool tbl) + 1" using pinned(3) clk by simp
    show thesis using that u clk' got False cur by (simp add: leaf_node_insert_def Let_def)
  qed
qed

text \<open>A new database file opens as an empty table.\<close>

lemma db_open_new:
  obtains tbl where "db_open junk None = Some tbl" and "table_wf tbl" and "table_rows tbl = []"
    and "quiet (tbl_pool tbl)" and "clock (tbl_pool tbl) = 1"
proof -
  let ?pool = "buffer_pool_init None"
  have wf: "pool_wf ?pool" by (rule pool_wf_init)
  have zero: "(0 :: u32) < TABLE_MAX_PAGES" by simp
  have "clock ?pool < 0x7FFFFFFE" by (simp add: buffer_pool_init_def)
  from wf quiet_init zero this obtain s p where got: "buffer_pool_get_page junk ?pool 0 = (Some s, p)"
    and pins: "one_pinned p s" and clk: "clock p = clock ?pool + 1"
    by (rule quiet_fetch [of _ _ junk])
  note g = get_page_ok [OF wf zero got]
  let ?fresh = "pool_peek p s"
  let ?node = "set_is_root 1 (leaf_node_init ?fresh)"
  let ?p = "buffer_pool_mark_dirty (pool_store p s ?node) 0"
  have h: "holds p s 0" using g zero by (simp add: holds_def)
  have "length ?fresh = PAGE_SIZE"
    using g(5) length_pager_read [OF zero] by (simp add: bp_content_init)
  have node: "length ?node = PAGE_SIZE" "leaf_node_num_cells ?node = 0"
  proof -
    have len: "length (?fresh[0 := 1, 1 := 0]) = PAGE_SIZE" using \<open>length ?fresh = PAGE_SIZE\<close> by simp
    note n = set_num_cells_ok [OF len, of 0]
    show "length ?node = PAGE_SIZE" using n(1) by (simp add: set_is_root_def leaf_node_init_def)
    have "leaf_node_num_cells (xs[1 := b]) = leaf_node_num_cells xs" for xs b
      by (simp add: leaf_node_num_cells_def window_def)
    then show "leaf_node_num_cells ?node = 0" using n(2) by (simp add: set_is_root_def leaf_node_init_def)
  qed
  note st = store_dirty [OF g(1) h node(1)]
  have id: "page_id (frames ?p ! s) = 0" "s < POOL_SIZE"
    using st(3) by (auto simp: holds_def)
  have "one_pinned ?p s" using store_dirty_pins(2) [OF g(1) h] pins by simp
  note u = quiet_unpin [OF st(1) id(2,1) zero this] and uc = unpin_ok [OF st(1), of 0]
  have "leaf_wf ?node" using node by (simp add: leaf_wf_def leaf_rows_def)
  then have "table_wf \<lparr>root_page_num = 0, tbl_pool = buffer_pool_unpin ?p 0\<rparr>"
    using uc st(2) zero by (simp add: table_wf_def)
  moreover have "table_rows \<lparr>root_page_num = 0, tbl_pool = buffer_pool_unpin ?p 0\<rparr> = []"
    using uc(2) st(2) node by (simp add: table_rows_def leaf_rows_def)
  moreover have "file_length (bp_pager ?pool) div 4096 = 0"
    by (simp add: buffer_pool_init_def pager_open_def)
  moreover have "clock ?p = 1" using store_dirty_pins(3) [OF g(1) h] clk by (simp add: buffer_pool_init_def)
  ultimately show thesis using that u got by (simp add: db_open_def Let_def)
qed

lemma search_result_rows:
  assumes "search_result (leaf_node_key (bp_content (tbl_pool tbl) (root_page_num tbl))) key
      (length (table_rows tbl)) c"
  shows "c \<le> length (table_rows tbl) \<and>
    (if key \<in> fst ` set (table_rows tbl)
     then c < length (table_rows tbl) \<and> fst (table_rows tbl ! c) = key
     else (\<forall>i < c. fst (table_rows tbl ! i) < key) \<and>
          (\<forall>i. c \<le> i \<and> i < length (table_rows tbl) \<longrightarrow> key < fst (table_rows tbl ! i)))"
proof -
  let ?node = "bp_content (tbl_pool tbl) (root_page_num tbl)"
  have key: "leaf_node_key ?node i = fst (table_rows tbl ! i)" if "i < length (table_rows tbl)" for i
    using that by (simp add: table_rows_def leaf_rows_nth)
  have c: "c \<le> length (table_rows tbl)" using assms by (simp add: search_result_def)
  have mem: "key \<in> fst ` set (table_rows tbl) \<longleftrightarrow> (\<exists>i < length (table_rows tbl). fst (table_rows tbl ! i) = key)"
    using in_set_conv_nth [of key "map fst (table_rows tbl)"] by auto
  have "c < length (table_rows tbl) \<and> fst (table_rows tbl ! c) = key \<or>
    (\<forall>i < c. fst (table_rows tbl ! i) < key) \<and>
    (\<forall>i. c \<le> i \<and> i < length (table_rows tbl) \<longrightarrow> key < fst (table_rows tbl ! i))"
    using assms key c by (auto simp: search_result_def)
  moreover have "fst (table_rows tbl ! i) \<noteq> key"
    if "\<forall>i < c. fst (table_rows tbl ! i) < key"
      "\<forall>i. c \<le> i \<and> i < length (table_rows tbl) \<longrightarrow> key < fst (table_rows tbl ! i)"
      "i < length (table_rows tbl)" for i
    using that by (cases "i < c") (auto simp: not_less)
  ultimately show ?thesis using c mem by auto
qed

lemma find_then_insert:
  assumes "table_wf tbl" and "quiet (tbl_pool tbl)" and "clock (tbl_pool tbl) < 0x7FFFFFFD"
    and "length row = ROW_SIZE"
  shows "\<exists>cur tbl1 tbl2. table_find junk tbl key = Some (cur, tbl1) \<and>
    leaf_node_insert junk tbl1 cur key row = Some tbl2 \<and> table_wf tbl2 \<and> quiet (tbl_pool tbl2) \<and>
    clock (tbl_pool tbl2) = clock (tbl_pool tbl) + 2 \<and>
    mset (table_rows tbl2) = (if length (table_rows tbl) < LEAF_NODE_MAX_CELLS
       then add_mset (key, row) (mset (table_rows tbl)) else mset (table_rows tbl))"
proof -
  have "clock (tbl_pool tbl) < 0x7FFFFFFE" using assms(3) by simp
  with assms(1,2) obtain cur tbl1 where f: "table_find junk tbl key = Some (cur, tbl1)"
    and q1: "quiet (tbl_pool tbl1)" and c1: "clock (tbl_pool tbl1) = clock (tbl_pool tbl) + 1"
    by (rule table_find_returns [where junk = junk])
  note f = f and s = table_find_spec [OF assms(1) f]
  have pos: "search_result (leaf_node_key (bp_content (tbl_pool tbl1) (root_page_num tbl1))) key
      (length (table_rows tbl1)) (cell_num cur)"
    using s(6) by (simp add: s)
  have cur: "page_num cur = root_page_num tbl1" using s by simp
  have "clock (tbl_pool tbl1) < 0x7FFFFFFE" using c1 assms(3) by simp
  with s(1) q1 obtain tbl2 where i: "leaf_node_insert junk tbl1 cur key row = Some tbl2"
    and q2: "quiet (tbl_pool tbl2)" "clock (tbl_pool tbl2) = clock (tbl_pool tbl1) + 1"
    using cur assms(4) pos by (rule leaf_node_insert_returns [where junk = junk])
  note r = leaf_node_insert_spec [OF s(1) cur i assms(4) pos]
  have "mset (take c rows) + mset (drop c rows) = mset rows" for c and rows :: "(u32 \<times> bytes) list"
    by (metis append_take_drop_id mset_append)
  then show ?thesis using f i r q2 c1 s(2) by auto
qed

section \<open>Properties\<close>

text \<open>On a well-formed table with no page pinned, \<open>table_find\<close> returns (it never meets a
  \<open>NULL\<close> page) and leaves the rows alone; its cursor is at a row with the key if there is one,
  and otherwise between the smaller and the greater keys.\<close>

theorem table_find_correct:
  assumes "table_wf tbl" and "quiet (tbl_pool tbl)" and "clock (tbl_pool tbl) < 0x7FFFFFFE"
  shows "\<exists>cur tbl'. table_find junk tbl key = Some (cur, tbl') \<and> table_rows tbl' = table_rows tbl \<and>
    (if key \<in> fst ` set (table_rows tbl)
     then cell_num cur < length (table_rows tbl) \<and> fst (table_rows tbl ! cell_num cur) = key
     else (\<forall>i < cell_num cur. fst (table_rows tbl ! i) < key) \<and>
          (\<forall>i. cell_num cur \<le> i \<and> i < length (table_rows tbl) \<longrightarrow> key < fst (table_rows tbl ! i)))"
proof -
  from assms obtain cur tbl' where f: "table_find junk tbl key = Some (cur, tbl')"
    by (rule table_find_returns [where junk = junk])
  show ?thesis
    using f table_find_spec(2) [OF assms(1) f] search_result_rows [OF table_find_spec(6) [OF assms(1) f]]
    by blast
qed

theorem table_find_correct_witness:
  "\<exists>tbl cur tbl'. db_open [] None = Some tbl \<and> table_find [] tbl 4 = Some (cur, tbl') \<and> table_rows tbl' = []"
proof -
  obtain tbl where t: "db_open [] None = Some tbl" "table_wf tbl" "table_rows tbl = []"
    "quiet (tbl_pool tbl)" "clock (tbl_pool tbl) = 1" by (rule db_open_new)
  then have "clock (tbl_pool tbl) < 0x7FFFFFFE" by simp
  from table_find_correct [OF t(2,4) this, of "[]" 4] t show ?thesis by auto
qed

text \<open>C26: Finding a key's place and inserting there, as \<open>kv_put\<close> does, returns, keeps the table
  well formed (sorted by key, in one page), leaves no page pinned, and adds exactly the new row;
  once the node holds seven rows the insertion is silently dropped and no row changes.\<close>

theorem find_then_insert_correct:
  assumes "table_wf tbl" and "quiet (tbl_pool tbl)" and "clock (tbl_pool tbl) < 0x7FFFFFFD"
    and "length row = ROW_SIZE"
  shows "\<exists>cur tbl1 tbl2. table_find junk tbl key = Some (cur, tbl1) \<and>
    leaf_node_insert junk tbl1 cur key row = Some tbl2 \<and> table_wf tbl2 \<and> quiet (tbl_pool tbl2) \<and>
    clock (tbl_pool tbl2) = clock (tbl_pool tbl) + 2 \<and>
    mset (table_rows tbl2) = (if length (table_rows tbl) < LEAF_NODE_MAX_CELLS
       then add_mset (key, row) (mset (table_rows tbl)) else mset (table_rows tbl))"
  using assms by (rule find_then_insert)

theorem find_then_insert_correct_witness:
  "\<exists>tbl cur tbl1 tbl2. db_open [] None = Some tbl \<and> table_find [] tbl 4 = Some (cur, tbl1) \<and>
    leaf_node_insert [] tbl1 cur 4 (replicate ROW_SIZE 1) = Some tbl2 \<and>
    mset (table_rows tbl2) = {#(4, replicate ROW_SIZE 1)#}"
proof -
  obtain tbl where t: "db_open [] None = Some tbl" "table_wf tbl" "table_rows tbl = []"
    "quiet (tbl_pool tbl)" "clock (tbl_pool tbl) = 1" by (rule db_open_new)
  then have "clock (tbl_pool tbl) < 0x7FFFFFFD" by simp
  from find_then_insert_correct [OF t(2,4) this, of "replicate ROW_SIZE 1" "[]" 4] t show ?thesis
    by auto
qed

end
