(* ===== verification/CStrings.thy ===== *)
theory CStrings
  imports Prelude "HOL-Library.Char_ord" "HOL-Library.List_Lexorder"
begin

text \<open>
  What the code uses of \<open>string.h\<close> and \<open>stdlib.h\<close> on NUL-terminated strings, and the
  djb2 hash that \<open>storage.c\<close>, \<open>mvcc.c\<close> and \<open>storage_engine.c\<close> each write out. A C
  string is its characters before the terminator, a HOL \<open>string\<close>. Plain \<open>char\<close> is
  signed on the x86-64 targets, so \<open>int c = *str++\<close> sign-extends: \<open>char_int\<close>.
\<close>

section \<open>Characters and bytes\<close>

definition char_int :: "char \<Rightarrow> int" where
  "char_int c = (let n = (of_char c :: int) in if n < 128 then n else n - 256)"

definition byte_of_char :: "char \<Rightarrow> byte" where
  "byte_of_char c = word_of_nat (of_char c)"

definition char_of_byte :: "byte \<Rightarrow> char" where
  "char_of_byte b = char_of (unat b)"

lemma of_char_less [simp]: "(of_char c :: nat) < 256"
  using nat_of_char_less_256 by simp

lemma char_of_byte_of_char [codec_simps, simp]: "char_of_byte (byte_of_char c) = c"
  by (simp add: char_of_byte_def byte_of_char_def unat_of_nat)

lemma byte_of_char_inject [simp]: "byte_of_char c = byte_of_char d \<longleftrightarrow> c = d"
  by (metis char_of_byte_of_char)

definition bytes_of :: "string \<Rightarrow> bytes" where
  "bytes_of s = map byte_of_char s"

definition string_of :: "bytes \<Rightarrow> string" where
  "string_of bs = map char_of_byte bs"

lemma length_bytes_of [simp]: "length (bytes_of s) = length s"
  by (simp add: bytes_of_def)

lemma string_of_bytes_of [codec_simps, simp]: "string_of (bytes_of s) = s"
  by (induction s) (auto simp: string_of_def bytes_of_def)

section \<open>strcmp\<close>

text \<open>The sign of \<open>strcmp\<close>: the first differing characters, compared as unsigned bytes.\<close>

fun strcmp :: "string \<Rightarrow> string \<Rightarrow> int" where
  "strcmp [] [] = 0"
| "strcmp [] (_ # _) = -1"
| "strcmp (_ # _) [] = 1"
| "strcmp (c # cs) (d # ds) =
     (if (of_char c :: nat) < of_char d then -1
      else if (of_char d :: nat) < of_char c then 1
      else strcmp cs ds)"

lemma strcmp_eq_0 [simp]: "strcmp s t = 0 \<longleftrightarrow> s = t"
  by (induction s t rule: strcmp.induct) (auto dest: antisym_conv3)

lemma strcmp_refl: "strcmp s s = 0"
  by simp

lemma strcmp_less [simp]: "strcmp s t < 0 \<longleftrightarrow> s < t"
  by (induction s t rule: strcmp.induct) (auto simp: less_char_def)

lemma strcmp_greater [simp]: "0 < strcmp s t \<longleftrightarrow> t < s"
  by (induction s t rule: strcmp.induct) (auto simp: less_char_def)

section \<open>The djb2 hash\<close>

text \<open>\<open>hash = ((hash << 5) + hash) + c\<close>, at the width the caller computes it in.\<close>

definition djb2_step :: "'a::len word \<Rightarrow> char \<Rightarrow> 'a word" where
  "djb2_step h c = (push_bit 5 h + h) + word_of_int (char_int c)"

definition djb2 :: "string \<Rightarrow> 'a::len word" where
  "djb2 s = foldl djb2_step 5381 s"

section \<open>atoi, strrchr\<close>

definition is_digit :: "char \<Rightarrow> bool" where
  "is_digit c \<longleftrightarrow> 48 \<le> (of_char c :: nat) \<and> (of_char c :: nat) \<le> 57"

definition is_space :: "char \<Rightarrow> bool" where
  "is_space c \<longleftrightarrow> c \<in> {CHR '' '', CHR 0x09, CHR 0x0A, CHR 0x0B, CHR 0x0C, CHR 0x0D}"

fun digits_val :: "int \<Rightarrow> string \<Rightarrow> int" where
  "digits_val acc [] = acc"
| "digits_val acc (c # cs) =
     (if is_digit c then digits_val (10 * acc + (of_char c - 48)) cs else acc)"

text \<open>\<open>atoi\<close>: leading blanks, one optional sign, the digits that follow.\<close>

definition atoi :: "string \<Rightarrow> int" where
  "atoi s = (case dropWhile is_space s of
       [] \<Rightarrow> 0
     | c # cs \<Rightarrow> if c = CHR ''-'' then - digits_val 0 cs
                else if c = CHR ''+'' then digits_val 0 cs
                else digits_val 0 (c # cs))"

text \<open>What follows the last \<open>c\<close> of \<open>s\<close> (\<open>strrchr(s, c) + 1\<close>), \<open>None\<close> for no \<open>c\<close>.\<close>

fun after_last :: "char \<Rightarrow> string \<Rightarrow> string option" where
  "after_last c [] = None"
| "after_last c (d # ds) =
     (case after_last c ds of Some t \<Rightarrow> Some t | None \<Rightarrow> if d = c then Some ds else None)"

text \<open>The first tail of \<open>s\<close> with a property, and \<open>strstr\<close> as the text from the match on.\<close>

fun text_from :: "(string \<Rightarrow> bool) \<Rightarrow> string \<Rightarrow> string option" where
  "text_from P [] = (if P [] then Some [] else None)"
| "text_from P (c # cs) = (if P (c # cs) then Some (c # cs) else text_from P cs)"

definition str_from :: "string \<Rightarrow> string \<Rightarrow> string option" where
  "str_from s w = text_from (\<lambda>t. take (length w) t = w) s"

section \<open>Decimal printing\<close>

text \<open>What \<open>printf\<close>'s \<open>%u\<close> and \<open>%d\<close> print.\<close>

definition digit_char :: "nat \<Rightarrow> char" where
  "digit_char n = char_of (48 + n)"

fun show_nat :: "nat \<Rightarrow> string" where
  "show_nat n = (if n < 10 then [digit_char n] else show_nat (n div 10) @ [digit_char (n mod 10)])"

declare show_nat.simps [simp del]

definition show_int :: "int \<Rightarrow> string" where
  "show_int i = (if i < 0 then CHR ''-'' # show_nat (nat (- i)) else show_nat (nat i))"

lemma of_char_digit [simp]: "n < 10 \<Longrightarrow> of_char (digit_char n) = (48 + of_nat n :: nat)"
  by (simp add: digit_char_def)

lemma of_char_digit_int [simp]: "n < 10 \<Longrightarrow> of_char (digit_char n) = (48 + int n)"
  using of_nat_of_char [of "digit_char n", where 'a = int] by simp

lemma is_digit_char [simp]: "n < 10 \<Longrightarrow> is_digit (digit_char n)"
  by (simp add: is_digit_def)

lemma show_nat_digits: "\<forall>c \<in> set (show_nat n). is_digit c"
  by (induction n rule: show_nat.induct) (subst show_nat.simps, auto)

lemma show_nat_ne [simp]: "show_nat n \<noteq> []"
  by (subst show_nat.simps) simp

lemma digits_val_append:
  "\<forall>c \<in> set s. is_digit c \<Longrightarrow> digits_val acc (s @ t) = digits_val (digits_val acc s) t"
  by (induction s arbitrary: acc) auto

lemma digits_val_show_nat: "digits_val 0 (show_nat n) = int n"
proof (induction n rule: show_nat.induct)
  case (1 n)
  show ?case
  proof (cases "n < 10")
    case True
    then show ?thesis by (simp add: show_nat.simps [of n])
  next
    case False
    then have "digits_val 0 (show_nat n) = digits_val (digits_val 0 (show_nat (n div 10))) [digit_char (n mod 10)]"
      by (subst show_nat.simps) (simp add: digits_val_append show_nat_digits)
    moreover have "10 * int (n div 10) + int (n mod 10) = int n"
      using mult_div_mod_eq [of 10 "int n"] by (simp add: of_nat_div of_nat_mod)
    ultimately show ?thesis using 1 [OF False] by simp
  qed
qed

lemma digit_not_space: "is_digit c \<Longrightarrow> \<not> is_space c"
  by (auto simp: is_digit_def is_space_def)

lemma atoi_show_int [codec_simps]: "atoi (show_int i) = i"
proof -
  have pos: "atoi (show_nat n) = int n" for n
  proof -
    obtain c cs where s: "show_nat n = c # cs" by (cases "show_nat n") auto
    then have "is_digit c" using show_nat_digits [of n] by simp
    then have "\<not> is_space c" "c \<noteq> CHR ''-''" "c \<noteq> CHR ''+''"
      by (auto simp: digit_not_space, auto simp: is_digit_def)
    then show ?thesis using digits_val_show_nat [of n] by (simp add: atoi_def s)
  qed
  have "atoi (CHR ''-'' # show_nat n) = - int n" for n
    using digits_val_show_nat [of n] by (simp add: atoi_def is_space_def)
  with pos show ?thesis by (simp add: show_int_def)
qed

lemma show_int_no_colon: "CHR '':'' \<notin> set (show_int i)"
proof -
  have "\<not> is_digit CHR '':''" by (simp add: is_digit_def)
  then have "CHR '':'' \<notin> set (show_nat n)" for n using show_nat_digits by blast
  then show ?thesis by (simp add: show_int_def)
qed

lemma after_last_none [simp]: "c \<notin> set s \<Longrightarrow> after_last c s = None"
  by (induction s) auto

lemma after_last_append: "c \<notin> set t \<Longrightarrow> after_last c (s @ c # t) = Some t"
  by (induction s) auto

end
