(* ===== verification/RowFormat.thy ===== *)
theory RowFormat
  imports CStrings
begin

text \<open>
  The binary row format of \<open>src/row.c\<close>: a column count and, per column, a length and the
  characters, all lengths as 4-byte \<open>int\<close>s. \<open>row_serialize\<close> first sums the size, allocates
  that many bytes and then writes through a moving pointer; the model keeps the buffer and the
  pointer. \<open>row_deserialize\<close> checks only the count: it is given the bytes of the object
  \<open>data\<close> points to and the \<open>size\<close> it was told, and a read beyond the object is the
  outcome \<open>OutOfBounds\<close>.
\<close>

section \<open>Serialisation\<close>

text \<open>The sizing loop: \<open>(count, total_size)\<close>.\<close>

fun row_size_loop :: "string list \<Rightarrow> nat \<Rightarrow> nat \<Rightarrow> nat \<times> nat" where
  "row_size_loop [] count total_size = (count, total_size)"
| "row_size_loop (v # vs) count total_size = row_size_loop vs (count + 1) (total_size + 4 + length v)"

text \<open>The writing loop, at \<open>ptr\<close> in \<open>buffer\<close>.\<close>

fun row_write_loop :: "string list \<Rightarrow> nat \<Rightarrow> bytes \<Rightarrow> bytes" where
  "row_write_loop [] ptr buffer = buffer"
| "row_write_loop (v # vs) ptr buffer =
     (let buffer = blit ptr (le_encode 4 (length v)) buffer;
          ptr = ptr + 4;
          buffer = blit ptr (bytes_of v) buffer
      in row_write_loop vs (ptr + length v) buffer)"

text \<open>\<open>malloc_bytes n\<close> is what \<open>malloc\<close> gives: \<open>n\<close> bytes of any content.\<close>

definition row_serialize :: "(nat \<Rightarrow> bytes) \<Rightarrow> string list \<Rightarrow> bytes \<times> nat" where
  "row_serialize malloc_bytes values =
     (let (count, total_size) = row_size_loop values 0 4;
          buffer = malloc_bytes total_size;
          buffer = blit 0 (le_encode 4 count) buffer
      in (row_write_loop values 4 buffer, total_size))"

section \<open>Deserialisation\<close>

datatype row_result = RowNull | OutOfBounds | Columns "string list"

text \<open>The reading loop at the bytes from \<open>ptr\<close> on. A negative length copies
  \<open>(size_t) len\<close> bytes, past any object.\<close>

fun row_read_loop :: "nat \<Rightarrow> bytes \<Rightarrow> string list option" where
  "row_read_loop 0 ptr = Some []"
| "row_read_loop (Suc n) ptr =
     (case get_le 4 ptr of
        None \<Rightarrow> None
      | Some (len, ptr) \<Rightarrow>
          if int_of_u32 len < 0 then None
          else (case get_bytes len ptr of
                  None \<Rightarrow> None
                | Some (col, ptr) \<Rightarrow>
                    (case row_read_loop n ptr of
                       None \<Rightarrow> None
                     | Some cols \<Rightarrow> Some (string_of col # cols))))"

definition row_deserialize :: "bytes option \<Rightarrow> nat \<Rightarrow> row_result" where
  "row_deserialize data data_size =
     (case data of
        None \<Rightarrow> RowNull
      | Some mem \<Rightarrow>
          if data_size < 4 then RowNull
          else (case get_le 4 mem of
                  None \<Rightarrow> OutOfBounds
                | Some (n, ptr) \<Rightarrow>
                    (let count = int_of_u32 n in
                     if count < 0 \<or> count > 1000 then RowNull
                     else (case row_read_loop (nat count) ptr of
                             None \<Rightarrow> OutOfBounds
                           | Some cols \<Rightarrow> Columns cols))))"

section \<open>The encoding\<close>

definition row_column :: "string \<Rightarrow> bytes" where
  "row_column v = le_encode 4 (length v) @ bytes_of v"

definition row_encoding :: "string list \<Rightarrow> bytes" where
  "row_encoding vs = le_encode 4 (length vs) @ concat (map row_column vs)"

lemma length_row_column [simp]: "length (row_column v) = 4 + length v"
  by (simp add: row_column_def)

lemma row_size_loop_eq:
  "row_size_loop vs c t = (c + length vs, t + length (concat (map row_column vs)))"
  by (induction vs c t rule: row_size_loop.induct) auto

lemma row_write_loop_eq:
  "ptr = length pre \<Longrightarrow> length junk = length (concat (map row_column vs)) \<Longrightarrow>
   row_write_loop vs ptr (pre @ junk) = pre @ concat (map row_column vs)"
proof (induction vs arbitrary: ptr pre junk)
  case Nil
  then show ?case by simp
next
  case (Cons v vs)
  let ?pre = "pre @ row_column v" and ?junk = "drop (4 + length v) junk"
  have junk: "length junk = 4 + length v + length (concat (map row_column vs))" using Cons.prems by simp
  then have one: "blit ptr (le_encode 4 (length v)) (pre @ junk) = (pre @ le_encode 4 (length v)) @ drop 4 junk"
    using Cons.prems(1) by (simp add: blit_at_end)
  have two: "blit (ptr + 4) (bytes_of v) ((pre @ le_encode 4 (length v)) @ drop 4 junk) = ?pre @ ?junk"
    using junk Cons.prems(1) by (subst blit_at_end) (auto simp: row_column_def add.commute)
  have "row_write_loop vs (ptr + 4 + length v) (?pre @ ?junk) = ?pre @ concat (map row_column vs)"
    by (rule Cons.IH) (use junk Cons.prems(1) in auto)
  then show ?case using one two by (simp add: Let_def)
qed

lemma row_serialize_eq:
  assumes "\<And>n. length (malloc_bytes n) = n"
  shows "row_serialize malloc_bytes vs = (row_encoding vs, length (row_encoding vs))"
proof -
  let ?size = "4 + length (concat (map row_column vs))"
  have len: "length (malloc_bytes ?size) = ?size" using assms .
  have "blit 0 (le_encode 4 (length vs)) (malloc_bytes ?size)
      = le_encode 4 (length vs) @ drop 4 (malloc_bytes ?size)"
    by (simp add: blit_def)
  then show ?thesis
    using row_write_loop_eq [of 4 "le_encode 4 (length vs)" "drop 4 (malloc_bytes ?size)" vs] len
    by (simp add: row_serialize_def row_size_loop_eq row_encoding_def)
qed

lemma row_read_loop_take:
  assumes "\<forall>v \<in> set vs. length v < 2147483648"
  shows "row_read_loop (length vs) (take k (concat (map row_column vs) @ rest)) =
    (if k < length (concat (map row_column vs)) then None else Some vs)"
  using assms
proof (induction vs arbitrary: k)
  case Nil
  then show ?case by simp
next
  case (Cons v vs)
  let ?tail = "concat (map row_column vs) @ rest"
  have v: "length v < 2147483648" using Cons.prems by simp
  show ?case
  proof (cases "k < 4")
    case True
    then show ?thesis by (simp add: get_le_take_short)
  next
    case False
    then have "take k (concat (map row_column (v # vs)) @ rest)
        = le_encode 4 (length v) @ take (k - 4) (bytes_of v @ ?tail)"
      by (simp add: row_column_def)
    then have read: "get_le 4 (take k (concat (map row_column (v # vs)) @ rest))
        = Some (length v, take (k - 4) (bytes_of v @ ?tail))"
      using v by (simp add: get_le_append)
    show ?thesis
    proof (cases "k - 4 < length v")
      case True
      then show ?thesis using read v by (simp add: get_bytes_short int_of_u32_small)
    next
      case far: False
      then have "take (k - 4) (bytes_of v @ ?tail) = bytes_of v @ take (k - 4 - length v) ?tail" by simp
      then have "get_bytes (length v) (take (k - 4) (bytes_of v @ ?tail))
          = Some (bytes_of v, take (k - 4 - length v) ?tail)"
        by (simp add: get_bytes_append_eq)
      moreover have "row_read_loop (length vs) (take (k - 4 - length v) ?tail) =
          (if k - 4 - length v < length (concat (map row_column vs)) then None else Some vs)"
        by (rule Cons.IH) (use Cons.prems in simp)
      ultimately show ?thesis
        using read v False far by (auto simp: int_of_u32_small simp del: take_append)
    qed
  qed
qed

section \<open>Properties\<close>

text \<open>C28: Whatever \<open>malloc\<close> returns, \<open>row_serialize\<close> fills its buffer exactly, and reading
  the first \<open>k\<close> bytes of it back gives: \<open>NULL\<close> when there are more than 1000 columns, a read
  outside the buffer when the row was cut short anywhere, and otherwise, padding or not, exactly
  the columns written.\<close>

theorem row_deserialize_serialize:
  assumes "\<And>n. length (malloc_bytes n) = n"
    and "\<forall>v \<in> set vs. length v < 2147483648" and "length vs < 2147483648" and "4 \<le> k"
  shows "(case row_serialize malloc_bytes vs of (buffer, n) \<Rightarrow> length buffer = n \<and>
    row_deserialize (Some (take k (buffer @ padding))) k =
      (if length vs > 1000 then RowNull else if k < n then OutOfBounds else Columns vs))"
proof -
  have "take k (row_encoding vs @ padding) =
      le_encode 4 (length vs) @ take (k - 4) (concat (map row_column vs) @ padding)"
    using assms(4) by (simp add: row_encoding_def)
  then have "get_le 4 (take k (row_encoding vs @ padding)) =
      Some (length vs, take (k - 4) (concat (map row_column vs) @ padding))"
    using assms(3) by (simp add: get_le_append)
  moreover have "k - 4 < length (concat (map row_column vs)) \<longleftrightarrow> k < length (row_encoding vs)"
    using assms(4) by (auto simp: row_encoding_def)
  ultimately show ?thesis
    using assms(3,4) row_read_loop_take [OF assms(2), of "k - 4" padding]
    by (simp add: row_serialize_eq [OF assms(1)] row_deserialize_def int_of_u32_small Let_def)
qed

theorem row_deserialize_serialize_witness:
  "row_deserialize (Some (take 40 (fst (row_serialize (\<lambda>n. replicate n 7) [''id'', '''']) @ replicate 30 0))) 40
     = Columns [''id'', ''''] \<and>
   row_deserialize (Some (take 13 (fst (row_serialize (\<lambda>n. replicate n 7) [''id'', '''']) @ []))) 13 = OutOfBounds"
  using row_deserialize_serialize [of "\<lambda>n. replicate n 7" "[''id'', '''']" 40 "replicate 30 0"]
    row_deserialize_serialize [of "\<lambda>n. replicate n 7" "[''id'', '''']" 13 "[]"]
  by (simp add: row_serialize_eq row_encoding_def split: prod.splits)

end
