(* ===== verification/HashTable.thy ===== *)
theory HashTable
  imports CStrings
begin

text \<open>
  The hash table of \<open>src/storage.c\<close>: \<open>KVEntry\<close> slots in an array, djb2 of the key modulo the
  capacity, linear probing, deletion by clearing \<open>occupied\<close>. The loops of \<open>kv_put_internal\<close>,
  \<open>kv_get\<close>, \<open>kv_delete\<close> and of the replay in \<open>kv_recover\<close> are the same walk, \<open>kv_probe\<close>,
  with three ends. \<open>kv_reach\<close> is the invariant of linear probing: every occupied slot is
  reached from its key's home slot over occupied slots with other keys. Puts keep it; a delete
  keeps it only when no other key's path crosses the slot it clears.
\<close>

section \<open>Entries\<close>

type_synonym value_type = u32

abbreviation VAL_TYPE_ROW :: value_type where "VAL_TYPE_ROW \<equiv> 0"
abbreviation VAL_TYPE_JSON :: value_type where "VAL_TYPE_JSON \<equiv> 1"
abbreviation VAL_TYPE_SCHEMA :: value_type where "VAL_TYPE_SCHEMA \<equiv> 2"

text \<open>\<open>Value\<close>: the \<open>size\<close> bytes at \<open>data\<close>, and the type.\<close>

record kv_value =
  val_data :: bytes
  val_type :: value_type

record kv_entry =
  entry_key :: string
  entry_val :: kv_value
  occupied :: bool

text \<open>What \<open>calloc\<close> gives: a slot that is not occupied.\<close>

definition free_entry :: kv_entry where
  "free_entry = \<lparr>entry_key = [], entry_val = \<lparr>val_data = [], val_type = 0\<rparr>, occupied = False\<rparr>"

definition kv_hash :: "string \<Rightarrow> u64" where
  "kv_hash s = djb2 s"

definition home :: "kv_entry list \<Rightarrow> string \<Rightarrow> nat" where
  "home es key = unat (kv_hash key) mod length es"

section \<open>Probing\<close>

datatype probe = Found nat | Free nat | Full

text \<open>The loop from \<open>idx\<close>; the bounds test only makes it total.\<close>

function kv_probe :: "kv_entry list \<Rightarrow> string \<Rightarrow> nat \<Rightarrow> nat \<Rightarrow> probe" where
  "kv_probe es key start idx =
     (if \<not> (idx < length es \<and> start < length es) then Full
      else if \<not> occupied (es ! idx) then Free idx
      else if strcmp (entry_key (es ! idx)) key = 0 then Found idx
      else let idx' = (idx + 1) mod length es in
           if idx' = start then Full else kv_probe es key start idx')"
  by pat_completeness auto
termination
proof (relation "measure (\<lambda>(es, key, start, idx). if start \<le> idx then start + length es - idx else start - idx)",
    goal_cases)
  case 1
  then show ?case by simp
next
  case (2 es key start idx idx')
  then have "idx < length es" "start < length es" "idx' = (idx + 1) mod length es" "idx' \<noteq> start" by auto
  then show ?case by (cases "idx + 1 = length es") auto
qed

declare kv_probe.simps [simp del]

definition probe_from_home :: "kv_entry list \<Rightarrow> string \<Rightarrow> probe" where
  "probe_from_home es key = kv_probe es key (home es key) (home es key)"

section \<open>Operations\<close>

definition kv_put_internal :: "kv_entry list \<Rightarrow> string \<Rightarrow> kv_value \<Rightarrow> kv_entry list" where
  "kv_put_internal es key val =
     (let e = \<lparr>entry_key = key, entry_val = val, occupied = True\<rparr> in
      case probe_from_home es key of
        Found idx \<Rightarrow> es[idx := e]
      | Free idx \<Rightarrow> es[idx := e]
      | Full \<Rightarrow> es)"

definition kv_lookup :: "kv_entry list \<Rightarrow> string \<Rightarrow> kv_value option" where
  "kv_lookup es key =
     (case probe_from_home es key of
        Found idx \<Rightarrow> Some (entry_val (es ! idx))
      | Free idx \<Rightarrow> None
      | Full \<Rightarrow> None)"

definition kv_clear :: "kv_entry list \<Rightarrow> string \<Rightarrow> kv_entry list" where
  "kv_clear es key =
     (case probe_from_home es key of
        Found idx \<Rightarrow> es[idx := (es ! idx)\<lparr>occupied := False\<rparr>]
      | Free idx \<Rightarrow> es
      | Full \<Rightarrow> es)"

definition live :: "kv_entry list \<Rightarrow> kv_entry list" where
  "live es = filter occupied es"

text \<open>\<open>kv_iterate\<close> with a callback that updates its context.\<close>

fun kv_iterate :: "(string \<Rightarrow> kv_value \<Rightarrow> 's \<Rightarrow> 's) \<Rightarrow> kv_entry list \<Rightarrow> 's \<Rightarrow> 's" where
  "kv_iterate callback [] ctx = ctx"
| "kv_iterate callback (e # es) ctx =
     (if occupied e then kv_iterate callback es (callback (entry_key e) (entry_val e) ctx)
      else kv_iterate callback es ctx)"

lemma kv_iterate_live:
  "kv_iterate cb es ctx = foldl (\<lambda>c e. cb (entry_key e) (entry_val e) c) ctx (live es)"
  by (induction es arbitrary: ctx) (simp_all add: live_def)

section \<open>The path of a key\<close>

text \<open>\<open>slot_at es key k\<close> is the \<open>k\<close>-th slot of the walk; the walk stops at a slot that is free
  or has the key.\<close>

definition slot_at :: "kv_entry list \<Rightarrow> string \<Rightarrow> nat \<Rightarrow> nat" where
  "slot_at es key k = (home es key + k) mod length es"

definition stops :: "kv_entry list \<Rightarrow> string \<Rightarrow> nat \<Rightarrow> bool" where
  "stops es key i \<longleftrightarrow> \<not> occupied (es ! i) \<or> entry_key (es ! i) = key"

definition outcome :: "kv_entry list \<Rightarrow> nat \<Rightarrow> probe" where
  "outcome es i = (if occupied (es ! i) then Found i else Free i)"

definition path_offsets :: "kv_entry list \<Rightarrow> string \<Rightarrow> nat set" where
  "path_offsets es key = {k. k < length es \<and> (\<forall>j < k. \<not> stops es key (slot_at es key j))}"

text \<open>The slots a walk for \<open>key\<close> looks at, the last one included.\<close>

definition path :: "kv_entry list \<Rightarrow> string \<Rightarrow> nat set" where
  "path es key = slot_at es key ` path_offsets es key"

lemma home_less: "es \<noteq> [] \<Longrightarrow> home es key < length es"
  by (simp add: home_def)

lemma slot_at_0 [simp]: "es \<noteq> [] \<Longrightarrow> slot_at es key 0 = home es key"
  by (simp add: slot_at_def home_less)

lemma slot_at_less [simp]: "es \<noteq> [] \<Longrightarrow> slot_at es key k < length es"
  by (simp add: slot_at_def)

lemma slot_at_Suc: "slot_at es key (Suc k) = (slot_at es key k + 1) mod length es"
  by (simp add: slot_at_def mod_Suc_eq)

lemma mod_shift_le: "(s + j) mod n = (s + k) mod (n :: nat) \<Longrightarrow> k < n \<Longrightarrow> j \<le> k \<Longrightarrow> j = k"
  using mod_eq_dvd_iff_nat [of "s + j" "s + k" n] by (auto dest: dvd_imp_le)

lemma mod_shift_inj:
  assumes "(s + j) mod n = (s + k) mod (n :: nat)" and "j < n" and "k < n"
  shows "j = k"
  using mod_shift_le [of s j n k] mod_shift_le [of s k n j] assms by (cases "j \<le> k") auto

lemma slot_at_inj: "slot_at es key j = slot_at es key k \<Longrightarrow> j < length es \<Longrightarrow> k < length es \<Longrightarrow> j = k"
  unfolding slot_at_def by (rule mod_shift_inj)

lemma slot_at_onto: "i < length es \<Longrightarrow> \<exists>k < length es. slot_at es key k = i"
proof -
  assume i: "i < length es"
  let ?h = "home es key" and ?n = "length es"
  have h: "?h < ?n" using i by (auto intro: home_less)
  show ?thesis
  proof (cases "?h \<le> i")
    case True
    with i show ?thesis by (intro exI [of _ "i - ?h"]) (auto simp: slot_at_def)
  next
    case False
    with i h show ?thesis by (intro exI [of _ "?n + i - ?h"]) (auto simp: slot_at_def)
  qed
qed

text \<open>The walk is a linear search over the offsets.\<close>

lemma kv_probe_find:
  assumes "es \<noteq> []" and "k < length es"
  shows "kv_probe es key (home es key) (slot_at es key k) =
    (case find (\<lambda>j. stops es key (slot_at es key j)) [k ..< length es] of
       None \<Rightarrow> Full | Some j \<Rightarrow> outcome es (slot_at es key j))"
  using assms(2)
proof (induction "length es - k" arbitrary: k)
  case 0
  then show ?case by simp
next
  case (Suc d)
  have upt: "[k ..< length es] = k # [Suc k ..< length es]" using Suc.prems by (simp add: upt_conv_Cons)
  have start: "slot_at es key (Suc k) = home es key \<longleftrightarrow> Suc k = length es"
  proof
    assume "slot_at es key (Suc k) = home es key"
    then have "slot_at es key (Suc k) = slot_at es key 0" using assms(1) by simp
    then show "Suc k = length es"
      using slot_at_inj [of es key "Suc k" 0] Suc.prems by (metis Suc_lessI length_greater_0_conv assms(1) nat.distinct(1))
  next
    assume "Suc k = length es"
    then show "slot_at es key (Suc k) = home es key" using assms(1) by (simp add: slot_at_def home_less)
  qed
  have home: "home es key < length es" "slot_at es key k < length es" using assms(1) by (auto simp: home_less)
  have step: "kv_probe es key (home es key) (slot_at es key k) =
      (if stops es key (slot_at es key k) then outcome es (slot_at es key k)
       else if Suc k = length es then Full
       else kv_probe es key (home es key) (slot_at es key (Suc k)))"
    using home start by (subst kv_probe.simps) (auto simp: stops_def outcome_def slot_at_Suc Let_def)
  show ?case
  proof (cases "Suc k = length es")
    case True
    then show ?thesis using step upt by simp
  next
    case False
    then have "Suc k < length es" using Suc.prems by simp
    then have "kv_probe es key (home es key) (slot_at es key (Suc k)) =
      (case find (\<lambda>j. stops es key (slot_at es key j)) [Suc k ..< length es] of
       None \<Rightarrow> Full | Some j \<Rightarrow> outcome es (slot_at es key j))"
      using Suc.hyps by (intro Suc.hyps(1)) auto
    then show ?thesis using step upt False by simp
  qed
qed

lemma probe_from_home_cases:
  assumes "es \<noteq> []"
  shows "(\<exists>k \<in> path_offsets es key. stops es key (slot_at es key k) \<and>
      probe_from_home es key = outcome es (slot_at es key k)) \<or>
    ((\<forall>k < length es. \<not> stops es key (slot_at es key k)) \<and> probe_from_home es key = Full)"
proof -
  let ?f = "find (\<lambda>j. stops es key (slot_at es key j)) [0 ..< length es]"
  have eq: "probe_from_home es key = (case ?f of None \<Rightarrow> Full | Some j \<Rightarrow> outcome es (slot_at es key j))"
    using kv_probe_find [of es 0 key] assms by (simp add: probe_from_home_def)
  show ?thesis
  proof (cases ?f)
    case None
    then have "\<forall>k < length es. \<not> stops es key (slot_at es key k)" by (auto simp: find_None_iff)
    then show ?thesis using eq None by simp
  next
    case (Some j)
    then have "j \<in> path_offsets es key" "stops es key (slot_at es key j)"
      by (auto simp: find_Some_iff path_offsets_def)
    then show ?thesis using eq Some by auto
  qed
qed

lemma probe_at:
  assumes "es \<noteq> []" and "k \<in> path_offsets es key" and "stops es key (slot_at es key k)"
  shows "probe_from_home es key = outcome es (slot_at es key k)"
proof -
  have "j = k" if "j \<in> path_offsets es key" "stops es key (slot_at es key j)" for j
    using that assms(2,3) by (auto simp: path_offsets_def intro: linorder_cases [of j k])
  moreover have "\<not> (\<forall>j < length es. \<not> stops es key (slot_at es key j))"
    using assms(2,3) by (auto simp: path_offsets_def)
  ultimately show ?thesis using probe_from_home_cases [OF assms(1), of key] by metis
qed

lemma probe_full:
  assumes "es \<noteq> []" and "\<And>k. k < length es \<Longrightarrow> \<not> stops es key (slot_at es key k)"
  shows "probe_from_home es key = Full"
  using probe_from_home_cases [OF assms(1), of key] assms(2) by (auto simp: path_offsets_def)

text \<open>The slot a probe ends in, as one case analysis for all operations.\<close>

lemma probe_result:
  assumes "es \<noteq> []"
  obtains (At) k where "k < length es" "\<forall>j < k. \<not> stops es key (slot_at es key j)"
      "stops es key (slot_at es key k)" "probe_from_home es key = outcome es (slot_at es key k)"
  | (None) "\<forall>k < length es. \<not> stops es key (slot_at es key k)" "probe_from_home es key = Full"
  using probe_from_home_cases [OF assms, of key] by (auto simp: path_offsets_def)

lemma probe_empty [simp]: "probe_from_home [] key = Full"
  by (simp add: probe_from_home_def kv_probe.simps)

lemma probe_Found:
  assumes "probe_from_home es key = Found i"
  shows "i < length es" "occupied (es ! i)" "entry_key (es ! i) = key"
    "\<exists>k < length es. i = slot_at es key k \<and> (\<forall>j < k. \<not> stops es key (slot_at es key j))"
proof -
  have ne: "es \<noteq> []" using assms by auto
  have "i < length es \<and> occupied (es ! i) \<and> entry_key (es ! i) = key \<and>
    (\<exists>k < length es. i = slot_at es key k \<and> (\<forall>j < k. \<not> stops es key (slot_at es key j)))"
    by (rule probe_result [OF ne, of key])
      (use assms ne in \<open>auto simp: outcome_def stops_def split: if_splits\<close>)
  then show "i < length es" "occupied (es ! i)" "entry_key (es ! i) = key"
    "\<exists>k < length es. i = slot_at es key k \<and> (\<forall>j < k. \<not> stops es key (slot_at es key j))" by auto
qed

lemma probe_Free:
  assumes "probe_from_home es key = Free i"
  shows "i < length es" "\<not> occupied (es ! i)"
    "\<exists>k < length es. i = slot_at es key k \<and> (\<forall>j < k. \<not> stops es key (slot_at es key j))"
proof -
  have ne: "es \<noteq> []" using assms by auto
  have "i < length es \<and> \<not> occupied (es ! i) \<and>
    (\<exists>k < length es. i = slot_at es key k \<and> (\<forall>j < k. \<not> stops es key (slot_at es key j)))"
    by (rule probe_result [OF ne, of key])
      (use assms ne in \<open>auto simp: outcome_def stops_def split: if_splits\<close>)
  then show "i < length es" "\<not> occupied (es ! i)"
    "\<exists>k < length es. i = slot_at es key k \<and> (\<forall>j < k. \<not> stops es key (slot_at es key j))" by auto
qed

section \<open>Writing one slot\<close>

text \<open>Every operation rewrites at most the slot its walk ended in.\<close>

lemma home_update [simp]: "home (es[i := e]) key = home es key"
  by (simp add: home_def)

lemma slot_at_update [simp]: "slot_at (es[i := e]) key k = slot_at es key k"
  by (simp add: slot_at_def)

lemma stops_update:
  "i < length es \<Longrightarrow> stops (es[i := e]) key j =
    (if j = i then \<not> occupied e \<or> entry_key e = key else stops es key j)"
  by (auto simp: stops_def)

lemma slot_at_before:
  assumes "k < length es" and "j < k"
  shows "slot_at es key j \<noteq> slot_at es key k"
  using slot_at_inj [of es key j k] assms by auto

lemma probe_update_same:
  assumes "k < length es" and "\<forall>j < k. \<not> stops es key (slot_at es key j)"
    and "\<not> occupied e \<or> entry_key e = key"
  shows "probe_from_home (es[slot_at es key k := e]) key =
    (if occupied e then Found (slot_at es key k) else Free (slot_at es key k))"
proof -
  let ?i = "slot_at es key k" let ?es = "es[slot_at es key k := e]"
  have ne: "es \<noteq> []" using assms(1) by auto
  then have i: "?i < length es" by simp
  have before: "\<not> stops ?es key (slot_at es key j)" if "j < k" for j
    using assms(1,2) i that slot_at_before [of k es j key] by (simp add: stops_update)
  have "k \<in> path_offsets ?es key" using assms(1) before by (simp add: path_offsets_def)
  moreover have "stops ?es key (slot_at ?es key k)" using assms(3) i by (simp add: stops_update)
  ultimately have "probe_from_home ?es key = outcome ?es (slot_at ?es key k)"
    using ne by (intro probe_at) auto
  then show ?thesis using i by (simp add: outcome_def)
qed

lemma probe_update_off_path:
  assumes "i \<notin> path es key" and "i < length es"
  shows "probe_from_home (es[i := e]) key = probe_from_home es key"
proof -
  have ne: "es \<noteq> []" using assms(2) by auto
  show ?thesis
  proof (cases rule: probe_result [OF ne, of key, case_names At None])
    case (At k)
    have off: "slot_at es key j \<noteq> i" if "j \<le> k" for j
      using assms(1) At that by (auto simp: path_def path_offsets_def)
    have "k \<in> path_offsets (es[i := e]) key"
      using At off assms(2) by (simp add: path_offsets_def stops_update)
    moreover have "stops (es[i := e]) key (slot_at (es[i := e]) key k)"
      using At off assms(2) by (simp add: stops_update)
    ultimately have "probe_from_home (es[i := e]) key = outcome (es[i := e]) (slot_at es key k)"
      using probe_at [of "es[i := e]" k key] ne by simp
    moreover have "i \<noteq> slot_at es key k" using off [of k] by auto
    ultimately show ?thesis using At by (simp add: outcome_def)
  next
    case None
    obtain k where "k < length es" "slot_at es key k = i" using slot_at_onto [OF assms(2)] by blast
    with None have "i \<in> path es key" by (force simp: path_def path_offsets_def)
    with assms(1) show ?thesis by simp
  qed
qed

section \<open>The probing invariant\<close>

definition kv_reach :: "kv_entry list \<Rightarrow> bool" where
  "kv_reach es \<longleftrightarrow> (\<forall>i < length es. occupied (es ! i) \<longrightarrow>
     probe_from_home es (entry_key (es ! i)) = Found i)"

text \<open>The map a table stands for.\<close>

definition has_entry :: "kv_entry list \<Rightarrow> string \<Rightarrow> kv_value \<Rightarrow> bool" where
  "has_entry es key v \<longleftrightarrow> (\<exists>e \<in> set es. occupied e \<and> entry_key e = key \<and> entry_val e = v)"

lemma kv_lookup_reach:
  assumes "kv_reach es"
  shows "kv_lookup es key = Some v \<longleftrightarrow> has_entry es key v"
proof
  assume "kv_lookup es key = Some v"
  then obtain i where "probe_from_home es key = Found i" "entry_val (es ! i) = v"
    by (auto simp: kv_lookup_def split: probe.splits)
  with probe_Found [of es key i] show "has_entry es key v" by (auto simp: has_entry_def)
next
  assume "has_entry es key v"
  then obtain i where "i < length es" "occupied (es ! i)" "entry_key (es ! i) = key" "entry_val (es ! i) = v"
    by (auto simp: has_entry_def in_set_conv_nth)
  with assms show "kv_lookup es key = Some v" by (force simp: kv_reach_def kv_lookup_def)
qed

lemma path_through:
  assumes "i \<in> path es key" and "\<not> occupied (es ! i)" 
  shows "probe_from_home es key = Free i"
proof -
  from assms(1) obtain k where k: "k \<in> path_offsets es key" "i = slot_at es key k" by (auto simp: path_def)
  then have "es \<noteq> []" by (auto simp: path_offsets_def)
  from probe_at [OF this k(1)] k assms(2) show ?thesis by (simp add: stops_def outcome_def)
qed

lemma path_within:
  assumes "k < length es" and "\<forall>j < k. \<not> stops es key (slot_at es key j)"
  shows "slot_at es key k \<in> path es key"
  using assms by (auto simp: path_def path_offsets_def)

text \<open>A slot filled where it was free does not shorten the walk of another key.\<close>

lemma probe_fill_other:
  assumes i: "i < length es" and old: "\<not> occupied (es ! i)"
    and e: "occupied e" "entry_key e \<noteq> key" and found: "probe_from_home es key = Found n"
  shows "probe_from_home (es[i := e]) key = Found n"
proof -
  have "i \<notin> path es key"
    using path_through [OF _ old, of key] found by auto
  from probe_update_off_path [OF this i] found show ?thesis by simp
qed

lemma probe_overwrite:
  assumes i: "i < length es" and old: "occupied (es ! i)"
    and e: "occupied e" "entry_key e = entry_key (es ! i)"
  shows "probe_from_home (es[i := e]) key = probe_from_home es key"
proof -
  have ne: "es \<noteq> []" using i by auto
  have same: "stops (es[i := e]) key j = stops es key j" for j
    using assms by (auto simp: stops_def nth_list_update split: if_splits)
  have out: "outcome (es[i := e]) j = outcome es j" for j
    using assms by (cases "j = i") (auto simp: outcome_def)
  show ?thesis
  proof (cases rule: probe_result [OF ne, of key, case_names At None])
    case (At k)
    have "k \<in> path_offsets (es[i := e]) key" using At same by (simp add: path_offsets_def)
    moreover have "stops (es[i := e]) key (slot_at (es[i := e]) key k)" using At same by simp
    ultimately show ?thesis using probe_at [of "es[i := e]" k key] ne At out by simp
  next
    case None
    then show ?thesis using probe_full [of "es[i := e]" key] ne same by simp
  qed
qed

lemma kv_put_cases:
  obtains (Full) "probe_from_home es key = Full" "kv_put_internal es key v = es"
  | (Slot) i where "i < length es" "probe_from_home es key = Found i \<or> probe_from_home es key = Free i"
      "kv_put_internal es key v = es[i := \<lparr>entry_key = key, entry_val = v, occupied = True\<rparr>]"
      "probe_from_home (kv_put_internal es key v) key = Found i"
proof (cases "probe_from_home es key")
  case (Found i)
  from probe_Found [OF this] obtain k where "k < length es" "i = slot_at es key k"
    "\<forall>j < k. \<not> stops es key (slot_at es key j)" by blast
  with probe_update_same [of k es key "\<lparr>entry_key = key, entry_val = v, occupied = True\<rparr>"]
    probe_Found(1) [OF Found] Found Slot show ?thesis by (simp add: kv_put_internal_def)
next
  case (Free i)
  from probe_Free [OF this] obtain k where "k < length es" "i = slot_at es key k"
    "\<forall>j < k. \<not> stops es key (slot_at es key j)" by blast
  with probe_update_same [of k es key "\<lparr>entry_key = key, entry_val = v, occupied = True\<rparr>"]
    probe_Free(1) [OF Free] Free Slot show ?thesis by (simp add: kv_put_internal_def)
next
  case Full
  then show ?thesis using that(1) by (simp add: kv_put_internal_def)
qed

lemma length_kv_put_internal [simp]: "length (kv_put_internal es key v) = length es"
  by (simp add: kv_put_internal_def Let_def split: probe.splits)

lemma length_kv_clear [simp]: "length (kv_clear es key) = length es"
  by (simp add: kv_clear_def split: probe.splits)

lemma kv_put_found_other:
  assumes "\<kappa> \<noteq> key" and "probe_from_home es \<kappa> = Found n"
  shows "probe_from_home (kv_put_internal es key v) \<kappa> = Found n"
    and "kv_put_internal es key v ! n = es ! n"
proof -
  let ?e = "\<lparr>entry_key = key, entry_val = v, occupied = True\<rparr>"
  note n = probe_Found(1-3) [OF assms(2)]
  have "probe_from_home (kv_put_internal es key v) \<kappa> = Found n \<and> kv_put_internal es key v ! n = es ! n"
  proof (cases rule: kv_put_cases [of es key v, case_names Full Slot])
    case Full
    then show ?thesis using assms by simp
  next
    case (Slot i)
    from Slot(2) show ?thesis
    proof
      assume f: "probe_from_home es key = Found i"
      have "probe_from_home (es[i := ?e]) \<kappa> = probe_from_home es \<kappa>"
        using probe_Found(1-3) [OF f] by (intro probe_overwrite) auto
      moreover have "n \<noteq> i" using n probe_Found(3) [OF f] assms(1) by auto
      ultimately show ?thesis using assms(2) Slot by simp
    next
      assume f: "probe_from_home es key = Free i"
      have "probe_from_home (es[i := ?e]) \<kappa> = Found n"
        using probe_Free(1,2) [OF f] assms by (intro probe_fill_other) auto
      moreover have "n \<noteq> i" using n probe_Free(2) [OF f] by auto
      ultimately show ?thesis using Slot by simp
    qed
  qed
  then show "probe_from_home (kv_put_internal es key v) \<kappa> = Found n"
    and "kv_put_internal es key v ! n = es ! n" by auto
qed

lemma kv_put_reach:
  assumes "kv_reach es"
  shows "kv_reach (kv_put_internal es key v)"
proof (cases rule: kv_put_cases [of es key v, case_names Full Slot])
  case Full
  then show ?thesis using assms by simp
next
  case (Slot i)
  show ?thesis
    unfolding kv_reach_def
  proof (intro allI impI)
    fix j
    assume j: "j < length (kv_put_internal es key v)" "occupied (kv_put_internal es key v ! j)"
    show "probe_from_home (kv_put_internal es key v) (entry_key (kv_put_internal es key v ! j)) = Found j"
    proof (cases "j = i")
      case True
      then show ?thesis using Slot by simp
    next
      case False
      then have es: "kv_put_internal es key v ! j = es ! j" using Slot by simp
      then have f: "probe_from_home es (entry_key (es ! j)) = Found j"
        using assms j by (simp add: kv_reach_def)
      have "entry_key (es ! j) \<noteq> key"
        using f False Slot(2) by auto
      from kv_put_found_other(1) [OF this f] es show ?thesis by simp
    qed
  qed
qed

lemma kv_put_lookup_same:
  "kv_lookup (kv_put_internal es key v) key = (if probe_from_home es key = Full then None else Some v)"
proof (cases rule: kv_put_cases [of es key v, case_names Full Slot])
  case Full
  then show ?thesis by (simp add: kv_lookup_def)
next
  case (Slot i)
  then have "kv_lookup (kv_put_internal es key v) key = Some v" by (simp add: kv_lookup_def)
  then show ?thesis using Slot(2) by auto
qed

lemma kv_put_lookup_other:
  assumes "kv_reach es" and "\<kappa> \<noteq> key"
  shows "kv_lookup (kv_put_internal es key v) \<kappa> = kv_lookup es \<kappa>"
proof (cases "kv_lookup es \<kappa>")
  case (Some w)
  then obtain n where n: "probe_from_home es \<kappa> = Found n" "w = entry_val (es ! n)"
    by (auto simp: kv_lookup_def split: probe.splits)
  then show ?thesis using kv_put_found_other [OF assms(2) n(1), of v] Some by (simp add: kv_lookup_def)
next
  case None
  have "\<not> has_entry (kv_put_internal es key v) \<kappa> w" for w
  proof
    assume "has_entry (kv_put_internal es key v) \<kappa> w"
    then have "has_entry es \<kappa> w"
      by (cases rule: kv_put_cases [of es key v, case_names Full Slot])
        (use assms(2) in \<open>auto simp: has_entry_def dest!: set_update_subset_insert [THEN subsetD]\<close>)
    with None assms(1) show False by (simp flip: kv_lookup_reach)
  qed
  then show ?thesis using None kv_lookup_reach [OF kv_put_reach [OF assms(1)]] by (metis option.exhaust)
qed

section \<open>Deletion\<close>

text \<open>Clearing the slot of \<open>key\<close> hides exactly the keys whose walk crosses that slot.\<close>

lemma kv_clear_lookup:
  "kv_lookup (kv_clear es key) \<kappa> =
    (case probe_from_home es key of
       Found i \<Rightarrow> if i \<in> path es \<kappa> then None else kv_lookup es \<kappa>
     | _ \<Rightarrow> kv_lookup es \<kappa>)"
proof (cases "probe_from_home es key")
  case (Found i)
  note i = probe_Found(1,2) [OF Found]
  let ?e = "(es ! i)\<lparr>occupied := False\<rparr>"
  have clear: "kv_clear es key = es[i := ?e]" using Found by (simp add: kv_clear_def)
  show ?thesis
  proof (cases "i \<in> path es \<kappa>")
    case True
    then obtain k where "k \<in> path_offsets es \<kappa>" "i = slot_at es \<kappa> k" by (auto simp: path_def)
    then have "probe_from_home (es[i := ?e]) \<kappa> = Free i"
      using probe_update_same [of k es \<kappa> ?e] by (simp add: path_offsets_def)
    then show ?thesis using clear Found True by (simp add: kv_lookup_def)
  next
    case False
    from probe_update_off_path [OF this i(1), of ?e]
    have p: "probe_from_home (es[i := ?e]) \<kappa> = probe_from_home es \<kappa>" .
    have "i \<noteq> n" if n: "probe_from_home es \<kappa> = Found n" for n
      using False probe_Found(4) [OF n] path_within [of _ es \<kappa>] by auto
    then show ?thesis using clear Found False p by (auto simp: kv_lookup_def split: probe.splits)
  qed
qed (simp_all add: kv_clear_def)

lemma found_on_path: "probe_from_home es key = Found i \<Longrightarrow> i \<in> path es key"
  using probe_Found(4) [of es key i] path_within [of _ es key] by auto

lemma kv_clear_lookup_same: "kv_lookup (kv_clear es key) key = None"
  by (cases "probe_from_home es key") (simp_all add: kv_clear_lookup found_on_path, simp_all add: kv_lookup_def)

text \<open>A slot whose successor is free ends its cluster: no other entry's walk crosses it.\<close>

lemma cluster_end_not_crossed:
  assumes "probe_from_home es \<kappa> = Found n" and "n \<noteq> i" and "\<not> occupied (es ! ((i + 1) mod length es))"
  shows "i \<notin> path es \<kappa>"
proof
  assume "i \<in> path es \<kappa>"
  then obtain m where m: "m < length es" "\<forall>j < m. \<not> stops es \<kappa> (slot_at es \<kappa> j)" "i = slot_at es \<kappa> m"
    by (auto simp: path_def path_offsets_def)
  from probe_Found [OF assms(1)] obtain k where k: "k < length es" "n = slot_at es \<kappa> k"
    "\<forall>j < k. \<not> stops es \<kappa> (slot_at es \<kappa> j)" "occupied (es ! n)" "entry_key (es ! n) = \<kappa>" by blast
  then have "stops es \<kappa> (slot_at es \<kappa> k)" by (simp add: stops_def)
  then have "m < k" using m k assms(2) by (metis linorder_neqE_nat)
  have "stops es \<kappa> (slot_at es \<kappa> (Suc m))"
    using assms(3) m by (simp add: slot_at_Suc stops_def)
  then have "Suc m = k" using \<open>m < k\<close> k(3) by (metis Suc_lessI)
  then have "n = (i + 1) mod length es" using k(2) m(3) by (simp add: slot_at_Suc flip: \<open>Suc m = k\<close>)
  with assms(3) k(4) show False by simp
qed

lemma kv_clear_reach:
  assumes "kv_reach es" and "probe_from_home es key = Found i"
    and "\<And>\<kappa> n. probe_from_home es \<kappa> = Found n \<Longrightarrow> n \<noteq> i \<Longrightarrow> i \<notin> path es \<kappa>"
  shows "kv_reach (kv_clear es key)"
  unfolding kv_reach_def
proof (intro allI impI)
  fix j
  let ?es = "kv_clear es key"
  assume j: "j < length ?es" "occupied (?es ! j)"
  have es: "?es = es[i := (es ! i)\<lparr>occupied := False\<rparr>]" using assms(2) by (simp add: kv_clear_def)
  have "i < length es" using probe_Found(1) [OF assms(2)] .
  with j es have "j \<noteq> i" "?es ! j = es ! j" by (auto simp: nth_list_update split: if_splits)
  moreover have f: "probe_from_home es (entry_key (es ! j)) = Found j"
    using assms(1) j calculation by (simp add: kv_reach_def)
  ultimately show "probe_from_home ?es (entry_key (?es ! j)) = Found j"
    using probe_update_off_path [OF assms(3) [OF f] \<open>i < length es\<close>] es by simp
qed

section \<open>Undoing an operation\<close>

text \<open>Two tables are alike when the occupied slots agree; no operation sees the rest.\<close>

definition alike :: "kv_entry \<Rightarrow> kv_entry \<Rightarrow> bool" where
  "alike e f \<longleftrightarrow> e = f \<or> \<not> occupied e \<and> \<not> occupied f"

definition kv_sim :: "kv_entry list \<Rightarrow> kv_entry list \<Rightarrow> bool" where
  "kv_sim es fs \<longleftrightarrow> list_all2 alike es fs"

lemma kv_simD:
  assumes "kv_sim es fs"
  shows "length fs = length es"
    and "i < length es \<Longrightarrow> occupied (fs ! i) = occupied (es ! i)"
    and "i < length es \<Longrightarrow> occupied (es ! i) \<Longrightarrow> fs ! i = es ! i"
  using assms by (auto simp: kv_sim_def alike_def dest: list_all2_lengthD list_all2_nthD)

lemma kv_sim_refl [simp, intro]: "kv_sim es es"
  by (simp add: kv_sim_def list_all2_refl alike_def)

lemma kv_sim_sym: "kv_sim es fs \<Longrightarrow> kv_sim fs es"
  using kv_simD [of es fs] unfolding kv_sim_def by (intro list_all2_all_nthI) (auto simp: alike_def)

lemma kv_sim_trans: "kv_sim es fs \<Longrightarrow> kv_sim fs gs \<Longrightarrow> kv_sim es gs"
  unfolding kv_sim_def by (rule list_all2_trans [of alike alike alike]) (auto simp: alike_def)

lemma kv_sim_probe:
  assumes "kv_sim es fs"
  shows "probe_from_home es key = probe_from_home fs key"
proof (cases "es = []")
  case True
  then show ?thesis using kv_simD(1) [OF assms] by simp
next
  case False
  note len = kv_simD(1) [OF assms]
  have home: "home fs key = home es key" by (simp add: home_def len)
  then have slot: "slot_at fs key k = slot_at es key k" for k by (simp add: slot_at_def len)
  have st: "stops fs key (slot_at es key j) = stops es key (slot_at es key j)"
    and out: "outcome fs (slot_at es key j) = outcome es (slot_at es key j)" for j
    using kv_simD(2,3) [OF assms slot_at_less [OF False, of key j]] by (auto simp: stops_def outcome_def)
  have "fs \<noteq> []" using False len by auto
  show ?thesis
  proof (cases rule: probe_result [OF False, of key, case_names At None])
    case (At k)
    then have "k \<in> path_offsets fs key" by (simp add: path_offsets_def len slot st)
    from probe_at [OF \<open>fs \<noteq> []\<close> this] At show ?thesis by (simp add: slot st out)
  next
    case None
    then show ?thesis using probe_full [OF \<open>fs \<noteq> []\<close>, of key] by (simp add: len slot st)
  qed
qed

lemma kv_sim_update: "kv_sim es fs \<Longrightarrow> kv_sim (es[i := e]) (fs[i := e])"
  unfolding kv_sim_def by (rule list_all2_update_cong) (auto simp: alike_def)

lemma kv_sim_put: "kv_sim es fs \<Longrightarrow> kv_sim (kv_put_internal es key v) (kv_put_internal fs key v)"
  by (cases "probe_from_home fs key") (simp_all add: kv_put_internal_def kv_sim_probe kv_sim_update)

lemma kv_sim_clear:
  assumes "kv_sim es fs"
  shows "kv_sim (kv_clear es key) (kv_clear fs key)"
proof (cases "probe_from_home fs key")
  case (Found i)
  then have "fs ! i = es ! i"
    using kv_simD(3) [OF kv_sim_sym [OF assms]] probe_Found(1,2) [OF Found] by simp
  then show ?thesis using Found assms by (simp add: kv_clear_def kv_sim_probe kv_sim_update)
qed (use assms in \<open>simp_all add: kv_clear_def kv_sim_probe\<close>)

lemma kv_sim_lookup:
  assumes "kv_sim es fs"
  shows "kv_lookup es key = kv_lookup fs key"
proof (cases "probe_from_home fs key")
  case (Found i)
  then have "es ! i = fs ! i"
    using kv_simD(3) [OF kv_sim_sym [OF assms]] probe_Found(1,2) [OF Found] by simp
  then show ?thesis using Found assms by (simp add: kv_lookup_def kv_sim_probe)
qed (use assms in \<open>simp_all add: kv_lookup_def kv_sim_probe\<close>)

lemma kv_undo_insert:
  assumes "kv_lookup es key = None"
  shows "kv_sim (kv_clear (kv_put_internal es key v) key) es"
proof (cases rule: kv_put_cases [of es key v, case_names Full Slot])
  case Full
  then show ?thesis by (simp add: kv_clear_def)
next
  case (Slot i)
  then have "probe_from_home es key = Free i" using assms by (auto simp: kv_lookup_def)
  then have "\<not> occupied (es ! i)" by (rule probe_Free)
  then have "alike ((es[i := \<lparr>entry_key = key, entry_val = v, occupied = True\<rparr>] ! i)\<lparr>occupied := False\<rparr>) (es ! i)"
    using Slot by (simp add: alike_def)
  then have "kv_sim (es[i := (es[i := \<lparr>entry_key = key, entry_val = v, occupied = True\<rparr>] ! i)\<lparr>occupied := False\<rparr>]) (es[i := es ! i])"
    unfolding kv_sim_def by (intro list_all2_update_cong list_all2_refl) (simp_all add: alike_def)
  then show ?thesis using Slot by (simp add: kv_clear_def)
qed

lemma kv_undo_update:
  assumes "kv_lookup es key = Some old"
  shows "kv_put_internal (kv_put_internal es key v) key old = es"
proof (cases rule: kv_put_cases [of es key v, case_names Full Slot])
  case Full
  then show ?thesis using assms by (simp add: kv_lookup_def)
next
  case (Slot i)
  then have f: "probe_from_home es key = Found i" using assms by (auto simp: kv_lookup_def)
  have "es ! i = \<lparr>entry_key = key, entry_val = old, occupied = True\<rparr>"
    using probe_Found(2,3) [OF f] assms f by (simp add: kv_lookup_def)
  then have "es[i := \<lparr>entry_key = key, entry_val = old, occupied = True\<rparr>] = es"
    by (metis list_update_id)
  with Slot show ?thesis by (simp add: kv_put_internal_def Let_def)
qed

lemma kv_undo_delete:
  assumes "kv_lookup es key = Some old"
  shows "kv_put_internal (kv_clear es key) key old = es"
proof -
  obtain i where f: "probe_from_home es key = Found i" "entry_val (es ! i) = old"
    using assms by (auto simp: kv_lookup_def split: probe.splits)
  from probe_Found [OF f(1)] obtain k where k: "k < length es" "i = slot_at es key k"
    "\<forall>j < k. \<not> stops es key (slot_at es key j)" "occupied (es ! i)" "entry_key (es ! i) = key" by blast
  then have "probe_from_home (es[i := (es ! i)\<lparr>occupied := False\<rparr>]) key = Free i"
    using probe_update_same [of k es key "(es ! i)\<lparr>occupied := False\<rparr>"] by simp
  then have "kv_put_internal (kv_clear es key) key old = es[i := \<lparr>entry_key = key, entry_val = old, occupied = True\<rparr>]"
    using f by (simp add: kv_clear_def kv_put_internal_def)
  moreover have "es ! i = \<lparr>entry_key = key, entry_val = old, occupied = True\<rparr>" using k f by simp
  ultimately show ?thesis by (metis list_update_id)
qed

section \<open>Properties\<close>

text \<open>On a table that satisfies the probing invariant, a put keeps the invariant and the
  capacity, leaves the value of every other key as it was, and afterwards the key has the new
  value, unless the walk found the table full of other keys, when nothing is stored.\<close>

theorem kv_put_internal_correct:
  assumes "kv_reach es"
  shows "kv_reach (kv_put_internal es key v) \<and>
    length (kv_put_internal es key v) = length es \<and>
    (\<forall>\<kappa>. kv_lookup (kv_put_internal es key v) \<kappa> =
       (if \<kappa> = key then (if probe_from_home es key = Full then None else Some v)
        else kv_lookup es \<kappa>))"
  using assms by (simp add: kv_put_reach kv_put_lookup_same kv_put_lookup_other)

theorem kv_put_internal_correct_witness:
  "kv_reach (replicate 4 free_entry) \<and>
   kv_lookup (kv_put_internal (replicate 4 free_entry) ''k'' \<lparr>val_data = [1], val_type = 1\<rparr>) ''j'' = None"
proof -
  let ?es = "replicate 4 free_entry"
  have r: "kv_reach ?es" by (simp add: kv_reach_def free_entry_def)
  moreover have "kv_lookup ?es ''j'' = None" using kv_lookup_reach [OF r, of "''j''"]
    by (cases "kv_lookup ?es ''j''") (auto simp: has_entry_def free_entry_def)
  ultimately show ?thesis using kv_put_internal_correct [OF r, of "''k''" "\<lparr>val_data = [1], val_type = 1\<rparr>"]
    by simp
qed

text \<open>Deleting a stored key: exactly the keys whose probe walk passes the cleared slot are no
  longer found, the deleted key among them, and every other key keeps its value. So nothing else
  is lost when the next slot is free, and then the invariant is kept too; when it is not, another
  key of the cluster can become unreachable although its entry is still in the table.\<close>

theorem kv_delete_exact:
  assumes "probe_from_home es key = Found i"
  shows "kv_lookup (kv_clear es key) key = None \<and>
    (\<forall>\<kappa>. kv_lookup (kv_clear es key) \<kappa> = (if i \<in> path es \<kappa> then None else kv_lookup es \<kappa>)) \<and>
    (kv_reach es \<and> \<not> occupied (es ! ((i + 1) mod length es)) \<longrightarrow>
       kv_reach (kv_clear es key) \<and>
       (\<forall>\<kappa>. \<kappa> \<noteq> key \<longrightarrow> kv_lookup (kv_clear es key) \<kappa> = kv_lookup es \<kappa>))"
proof (intro conjI impI allI)
  show "kv_lookup (kv_clear es key) key = None" by (rule kv_clear_lookup_same)
  show all: "kv_lookup (kv_clear es key) \<kappa> = (if i \<in> path es \<kappa> then None else kv_lookup es \<kappa>)" for \<kappa>
    by (simp add: kv_clear_lookup assms)
  assume a: "kv_reach es \<and> \<not> occupied (es ! ((i + 1) mod length es))"
  have off: "i \<notin> path es \<kappa>" if "probe_from_home es \<kappa> = Found n" "n \<noteq> i" for \<kappa> n
    using cluster_end_not_crossed that a by blast
  show "kv_reach (kv_clear es key)" using a off by (intro kv_clear_reach [OF _ assms]) auto
  fix \<kappa> assume "\<kappa> \<noteq> key"
  show "kv_lookup (kv_clear es key) \<kappa> = kv_lookup es \<kappa>"
  proof (cases "probe_from_home es \<kappa>")
    case (Found n)
    then have "n \<noteq> i" using probe_Found(3) assms \<open>\<kappa> \<noteq> key\<close> by blast
    with off [OF Found] show ?thesis by (simp add: all)
  qed (simp_all add: all, simp_all add: kv_lookup_def)
qed

lemma replicate_4: "replicate 4 x = [x, x, x, x]"
  by (simp add: numeral_nat)

text \<open>\<open>ab\<close> and \<open>bA\<close> have the same hash.\<close>

definition colliding :: "kv_entry list" where
  "colliding = kv_put_internal (kv_put_internal (replicate 4 free_entry) ''ab'' \<lparr>val_data = [1], val_type = 0\<rparr>)
     ''bA'' \<lparr>val_data = [2], val_type = 0\<rparr>"

lemma hash_ab: "kv_hash ''ab'' = 5863208" and hash_bA: "kv_hash ''bA'' = 5863208"
  by (simp_all add: kv_hash_def djb2_def djb2_step_def char_int_def of_char_def push_bit_eq_mult)

theorem kv_delete_exact_witness:
  "kv_lookup colliding ''bA'' = Some \<lparr>val_data = [2], val_type = 0\<rparr> \<and>
   kv_lookup (kv_clear colliding ''ab'') ''bA'' = None"
proof -
  define e1 where "e1 = \<lparr>entry_key = ''ab'', entry_val = \<lparr>val_data = [1], val_type = 0\<rparr>, occupied = True\<rparr>"
  define e2 where "e2 = \<lparr>entry_key = ''bA'', entry_val = \<lparr>val_data = [2], val_type = 0\<rparr>, occupied = True\<rparr>"
  have es: "colliding = [e1, e2, free_entry, free_entry]"
    by (simp add: colliding_def kv_put_internal_def probe_from_home_def home_def hash_ab hash_bA
        kv_probe.simps replicate_4 e1_def e2_def) (simp add: free_entry_def)
  have p: "probe_from_home colliding ''ab'' = Found 0" "probe_from_home colliding ''bA'' = Found 1"
    unfolding es by (simp_all add: probe_from_home_def home_def hash_ab hash_bA kv_probe.simps e1_def e2_def)
  have "0 \<in> path colliding ''bA''"
    using path_within [of 0 colliding "''bA''"] by (simp add: es slot_at_def home_def hash_bA)
  with kv_delete_exact [OF p(1)] have "kv_lookup (kv_clear colliding ''ab'') ''bA'' = None" by simp
  moreover have "kv_lookup colliding ''bA'' = Some \<lparr>val_data = [2], val_type = 0\<rparr>"
    by (simp add: kv_lookup_def p) (simp add: es e2_def)
  ultimately show ?thesis by simp
qed

text \<open>A table whose slots all hold different keys is probed all round, so every key is found.\<close>

lemma full_table_reach:
  assumes "\<forall>e \<in> set es. occupied e" and "distinct (map entry_key es)"
  shows "kv_reach es"
  unfolding kv_reach_def
proof (intro allI impI)
  fix i assume i: "i < length es"
  then obtain k where k: "k < length es" "slot_at es (entry_key (es ! i)) k = i" using slot_at_onto by metis
  let ?key = "entry_key (es ! i)"
  have ne: "es \<noteq> []" using i by auto
  have "\<not> stops es ?key (slot_at es ?key j)" if "j < k" for j
  proof -
    have "slot_at es ?key j \<noteq> i" using slot_at_before [OF k(1) that] k(2) by metis
    moreover have "slot_at es ?key j < length es" using ne by simp
    ultimately show ?thesis using assms i
      by (auto simp: stops_def nth_eq_iff_index_eq [of "map entry_key es", simplified])
         (metis (no_types, lifting) distinct_conv_nth length_map nth_map)
  qed
  then have "k \<in> path_offsets es ?key" using k(1) by (simp add: path_offsets_def)
  then have "probe_from_home es ?key = outcome es (slot_at es ?key k)"
    by (rule probe_at [OF ne]) (simp add: k(2) stops_def)
  then show "probe_from_home es ?key = Found i" using assms(1) i k(2) by (simp add: outcome_def)
qed

end
