(* ===== verification/KVLog.thy ===== *)
theory KVLog
  imports HashTable
begin

text \<open>
  The files of \<open>src/storage.c\<close>, byte for byte: the append-only log that \<open>kv_append_log\<close> writes
  (operation, key length, key, and for a put the size, type and data), the snapshot of
  \<open>kv_snapshot_internal\<close> (an entry count and the same fields per entry) and the two loops of
  \<open>kv_recover\<close> that read them back. \<open>kv_recover\<close> ignores what most of its \<open>fread\<close>s return:
  where one comes up short it goes on with uninitialised memory, which is \<open>None\<close> here. A key
  read back is a C string: it ends at its first NUL.
\<close>

section \<open>Records\<close>

definition value_fields :: "kv_value \<Rightarrow> bytes" where
  "value_fields v = le_encode 8 (length (val_data v)) @ le_encode 4 (unat (val_type v)) @ val_data v"

definition key_fields :: "string \<Rightarrow> bytes" where
  "key_fields key = le_encode 4 (length key) @ bytes_of key"

definition put_record :: "string \<Rightarrow> kv_value \<Rightarrow> bytes" where
  "put_record key v = [1] @ key_fields key @ value_fields v"

definition delete_record :: "string \<Rightarrow> bytes" where
  "delete_record key = [2] @ key_fields key"

definition snapshot_entry :: "kv_entry \<Rightarrow> bytes" where
  "snapshot_entry e = key_fields (entry_key e) @ value_fields (entry_val e)"

text \<open>The file \<open>kv_snapshot_internal\<close> writes.\<close>

definition snapshot_bytes :: "kv_entry list \<Rightarrow> bytes" where
  "snapshot_bytes es = le_encode 4 (length (live es)) @ concat (map snapshot_entry (live es))"

section \<open>Reading\<close>

definition c_string :: "bytes \<Rightarrow> string" where
  "c_string bs = string_of (takeWhile (\<lambda>b. b \<noteq> 0) bs)"

definition read_key :: "bytes \<Rightarrow> (string \<times> bytes) option" where
  "read_key bs =
     (case get_le 4 bs of
        None \<Rightarrow> None
      | Some (klen, r) \<Rightarrow>
          if int_of_u32 klen < 0 then None
          else (case get_bytes klen r of
                  None \<Rightarrow> None
                | Some (k, r) \<Rightarrow> Some (c_string k, r)))"

definition read_value :: "bytes \<Rightarrow> (kv_value \<times> bytes) option" where
  "read_value bs =
     (case get_le 8 bs of
        None \<Rightarrow> None
      | Some (n, r) \<Rightarrow>
          (case get_le 4 r of
             None \<Rightarrow> None
           | Some (t, r) \<Rightarrow>
               (case get_bytes n r of
                  None \<Rightarrow> None
                | Some (d, r) \<Rightarrow> Some (\<lparr>val_data = d, val_type = word_of_nat t\<rparr>, r))))"

text \<open>The snapshot loop: \<open>n\<close> entries still to read.\<close>

fun load_entries :: "nat \<Rightarrow> bytes \<Rightarrow> kv_entry list \<Rightarrow> kv_entry list option" where
  "load_entries 0 bs es = Some es"
| "load_entries (Suc n) bs es =
     (case read_key bs of
        None \<Rightarrow> None
      | Some (key, r) \<Rightarrow>
          (case read_value r of
             None \<Rightarrow> None
           | Some (v, r) \<Rightarrow> load_entries n r (kv_put_internal es key v)))"

definition load_snapshot :: "bytes option \<Rightarrow> kv_entry list \<Rightarrow> kv_entry list option" where
  "load_snapshot snap es =
     (case snap of
        None \<Rightarrow> Some es
      | Some bs \<Rightarrow>
          (case get_le 4 bs of
             None \<Rightarrow> Some es
           | Some (count, r) \<Rightarrow> load_entries (nat (int_of_u32 count)) r es))"

lemma read_key_shorter: "read_key bs = Some (k, r) \<Longrightarrow> length r < length bs"
  by (auto simp: read_key_def get_le_def get_bytes_def split: if_splits option.splits)

lemma read_value_shorter: "read_value bs = Some (v, r) \<Longrightarrow> length r < length bs"
  by (auto simp: read_value_def get_le_def get_bytes_def split: if_splits option.splits)

text \<open>The log loop. Only the end of the file and a short key length stop it.\<close>

function replay_log :: "bytes \<Rightarrow> kv_entry list \<Rightarrow> kv_entry list option" where
  "replay_log [] es = Some es"
| "replay_log (op # bs) es =
     (if get_le 4 bs = None then Some es
      else (case read_key bs of
              None \<Rightarrow> None
            | Some (key, r) \<Rightarrow>
                if op = 1 then
                  (case read_value r of
                     None \<Rightarrow> None
                   | Some (v, r) \<Rightarrow> replay_log r (kv_put_internal es key v))
                else if op = 2 then replay_log r (kv_clear es key)
                else replay_log r es))"
  by pat_completeness auto
termination
  by (relation "measure (\<lambda>(bs, es). length bs)")
    (auto dest!: read_key_shorter read_value_shorter)

definition kv_recover_entries :: "bytes option \<Rightarrow> bytes option \<Rightarrow> kv_entry list \<Rightarrow> kv_entry list option" where
  "kv_recover_entries snap log es =
     (case load_snapshot snap es of
        None \<Rightarrow> None
      | Some es \<Rightarrow> (case log of None \<Rightarrow> Some es | Some bs \<Rightarrow> replay_log bs es))"

section \<open>What is written is read back\<close>

text \<open>Keys and values the format can hold: no NUL, lengths that fit their fields.\<close>

definition key_ok :: "string \<Rightarrow> bool" where
  "key_ok key \<longleftrightarrow> CHR 0x00 \<notin> set key \<and> length key < 2147483648"

definition val_ok :: "kv_value \<Rightarrow> bool" where
  "val_ok v \<longleftrightarrow> length (val_data v) < 18446744073709551616"

lemma byte_of_char_0: "byte_of_char c = 0 \<longleftrightarrow> c = CHR 0x00"
  using byte_of_char_inject [of c "CHR 0x00"] by (simp add: byte_of_char_def)

lemma c_string_bytes_of: "CHR 0x00 \<notin> set key \<Longrightarrow> c_string (bytes_of key) = key"
proof -
  assume "CHR 0x00 \<notin> set key"
  then have "takeWhile (\<lambda>b. b \<noteq> 0) (bytes_of key) = bytes_of key"
    by (subst takeWhile_eq_all_conv) (auto simp: bytes_of_def byte_of_char_0)
  then show ?thesis by (simp only: c_string_def string_of_bytes_of)
qed

lemma read_key_fields [codec_simps]: "key_ok key \<Longrightarrow> read_key (key_fields key @ rest) = Some (key, rest)"
  by (simp add: read_key_def key_fields_def key_ok_def get_le_append get_bytes_append_eq
      int_of_u32_small c_string_bytes_of)

lemma get_le_key_fields: "key_ok key \<Longrightarrow> get_le 4 (key_fields key @ rest) \<noteq> None"
  by (simp add: key_fields_def key_ok_def get_le_append)

lemma read_value_fields [codec_simps]: "val_ok v \<Longrightarrow> read_value (value_fields v @ rest) = Some (v, rest)"
proof -
  assume v: "val_ok v"
  have "unat (val_type v) < 256 ^ 4" using unsigned_less [where 'a = nat and w = "val_type v"] by simp
  with v show ?thesis
    by (simp add: read_value_def value_fields_def val_ok_def get_le_append get_bytes_append_eq)
qed

lemma replay_put_record:
  "key_ok key \<Longrightarrow> val_ok v \<Longrightarrow> replay_log (put_record key v @ rest) es = replay_log rest (kv_put_internal es key v)"
  by (simp add: put_record_def get_le_key_fields read_key_fields read_value_fields)

lemma replay_delete_record:
  "key_ok key \<Longrightarrow> replay_log (delete_record key @ rest) es = replay_log rest (kv_clear es key)"
  by (simp add: delete_record_def get_le_key_fields read_key_fields)

text \<open>A complete prefix of records is replayed before anything that follows it.\<close>

datatype log_op = LogPut string kv_value | LogDelete string

fun op_bytes :: "log_op \<Rightarrow> bytes" where
  "op_bytes (LogPut key v) = put_record key v"
| "op_bytes (LogDelete key) = delete_record key"

fun op_ok :: "log_op \<Rightarrow> bool" where
  "op_ok (LogPut key v) \<longleftrightarrow> key_ok key \<and> val_ok v"
| "op_ok (LogDelete key) \<longleftrightarrow> key_ok key"

fun op_apply :: "log_op \<Rightarrow> kv_entry list \<Rightarrow> kv_entry list" where
  "op_apply (LogPut key v) es = kv_put_internal es key v"
| "op_apply (LogDelete key) es = kv_clear es key"

definition log_bytes :: "log_op list \<Rightarrow> bytes" where
  "log_bytes ops = concat (map op_bytes ops)"

lemma replay_log_bytes:
  "\<forall>op \<in> set ops. op_ok op \<Longrightarrow> replay_log (log_bytes ops @ rest) es = replay_log rest (fold op_apply ops es)"
proof (induction ops arbitrary: es)
  case Nil
  then show ?case by (simp add: log_bytes_def)
next
  case (Cons op ops)
  have "replay_log (log_bytes (op # ops) @ rest) es = replay_log (log_bytes ops @ rest) (op_apply op es)"
    using Cons.prems by (cases op) (simp_all add: log_bytes_def replay_put_record replay_delete_record)
  with Cons show ?case by simp
qed

text \<open>Bytes too few for an operation and its key length are dropped by the replay.\<close>

lemma replay_torn: "length bs < 5 \<Longrightarrow> replay_log bs es = Some es"
  by (cases bs) (auto simp: get_le_def)

lemma log_bytes_snoc: "log_bytes (ops @ [op]) = log_bytes ops @ op_bytes op"
  by (simp add: log_bytes_def)

text \<open>Loading a snapshot is putting its entries in order.\<close>

definition entry_ok :: "kv_entry \<Rightarrow> bool" where
  "entry_ok e \<longleftrightarrow> key_ok (entry_key e) \<and> val_ok (entry_val e)"

lemma load_entries_bytes:
  "\<forall>e \<in> set xs. entry_ok e \<Longrightarrow> load_entries (length xs) (concat (map snapshot_entry xs)) es =
    Some (fold (\<lambda>e es. kv_put_internal es (entry_key e) (entry_val e)) xs es)"
  by (induction xs arbitrary: es) (auto simp: snapshot_entry_def entry_ok_def read_key_fields read_value_fields)

lemma load_snapshot_bytes:
  assumes "\<forall>e \<in> set (live es). entry_ok e" and "length (live es) < 2147483648"
  shows "load_snapshot (Some (snapshot_bytes es)) fs =
    Some (fold (\<lambda>e fs. kv_put_internal fs (entry_key e) (entry_val e)) (live es) fs)"
  using assms load_entries_bytes [OF assms(1), of fs]
  by (simp add: load_snapshot_def snapshot_bytes_def get_le_append int_of_u32_small)

section \<open>Torn records\<close>

lemma length_key_fields [simp]: "length (key_fields key) = 4 + length key"
  by (simp add: key_fields_def)

lemma length_value_fields [simp]: "length (value_fields v) = 12 + length (val_data v)"
  by (simp add: value_fields_def)

lemma read_key_torn:
  assumes "key_ok key" and "k < length (key_fields key)"
  shows "read_key (take k (key_fields key)) = None"
proof (cases "k < 4")
  case True
  then show ?thesis by (simp add: read_key_def get_le_short)
next
  case False
  then have "take k (key_fields key) = le_encode 4 (length key) @ take (k - 4) (bytes_of key)"
    by (simp add: key_fields_def)
  with assms False show ?thesis
    by (simp add: read_key_def key_ok_def get_le_append get_bytes_short int_of_u32_small del: take_append)
qed

lemma read_value_torn:
  assumes "val_ok v" and "k < length (value_fields v)"
  shows "read_value (take k (value_fields v)) = None"
proof -
  let ?t = "le_encode 4 (unat (val_type v))" and ?d = "val_data v"
  have t: "unat (val_type v) < 256 ^ 4" using unsigned_less [where 'a = nat and w = "val_type v"] by simp
  consider "k < 8" | "8 \<le> k" "k < 12" | "12 \<le> k" by linarith
  then show ?thesis
  proof cases
    case 1
    then show ?thesis by (simp add: read_value_def get_le_short)
  next
    case 2
    then have "take k (value_fields v) = le_encode 8 (length ?d) @ take (k - 8) (?t @ ?d)"
      by (simp add: value_fields_def)
    with assms 2 show ?thesis
      by (simp add: read_value_def val_ok_def get_le_append get_le_short del: take_append)
  next
    case 3
    then have "take k (value_fields v) = le_encode 8 (length ?d) @ ?t @ take (k - 12) ?d"
      by (simp add: value_fields_def)
    with assms 3 t show ?thesis
      by (simp add: read_value_def val_ok_def get_le_append get_bytes_short del: take_append)
  qed
qed

lemma replay_torn_record:
  assumes op: "op_ok op" and k: "5 \<le> k" "k < length (op_bytes op)"
  shows "replay_log (take k (op_bytes op)) es = None"
proof -
  obtain tag key rest where r: "op_bytes op = tag # key_fields key @ rest" and key: "key_ok key"
    and tag: "tag = 1 \<longrightarrow> (\<exists>v. rest = value_fields v \<and> val_ok v)" "tag = 1 \<or> rest = []"
    using op by (cases op) (auto simp: put_record_def delete_record_def)
  have t: "take k (op_bytes op) = tag # take (k - 1) (key_fields key @ rest)"
    using k(1) by (simp add: r take_Cons')
  have "get_le 4 (take (k - 1) (key_fields key @ rest)) \<noteq> None"
    using k(1) by (simp add: get_le_def)
  moreover have "read_key (take (k - 1) (key_fields key @ rest)) = None \<or>
    (\<exists>v. tag = 1 \<and> read_key (take (k - 1) (key_fields key @ rest)) = Some (key, take (k - 1 - length (key_fields key)) rest) \<and>
      read_value (take (k - 1 - length (key_fields key)) rest) = None)"
  proof (cases "k - 1 < length (key_fields key)")
    case True
    then show ?thesis using read_key_torn [OF key True] by simp
  next
    case False
    then have "take (k - 1) (key_fields key @ rest) = key_fields key @ take (k - 1 - length (key_fields key)) rest"
      by simp
    then have "read_key (take (k - 1) (key_fields key @ rest)) = Some (key, take (k - 1 - length (key_fields key)) rest)"
      by (simp add: read_key_fields [OF key] del: take_append)
    moreover have "rest \<noteq> []" using False k(2) r by auto
    then obtain v where v: "tag = 1" "rest = value_fields v" "val_ok v" using tag by auto
    moreover have "k - 1 - length (key_fields key) < length (value_fields v)" using k False r v(2) by auto
    ultimately show ?thesis using read_value_torn [OF v(3)] by auto
  qed
  ultimately show ?thesis unfolding t by (auto simp del: take_append)
qed

section \<open>Properties\<close>

text \<open>Recovery of a log whose last record was cut after \<open>k\<close> bytes. Every complete record is
  replayed in order; a last record cut inside its operation byte or key length is dropped; one cut
  anywhere later makes the recovery read uninitialised memory.\<close>

theorem log_replay_after_crash:
  assumes "\<forall>op \<in> set ops. op_ok op" and "op_ok op"
  shows "replay_log (log_bytes ops @ take k (op_bytes op)) es =
    (if k < 5 then Some (fold op_apply ops es)
     else if k < length (op_bytes op) then None
     else Some (fold op_apply (ops @ [op]) es))"
proof -
  have pre: "replay_log (log_bytes ops @ rest) es = replay_log rest (fold op_apply ops es)" for rest
    using assms(1) by (rule replay_log_bytes)
  have "replay_log (log_bytes [op] @ []) es' = Some (op_apply op es')" for es'
    using replay_log_bytes [of "[op]" "[]" es'] assms(2) by simp
  then have "replay_log (op_bytes op) es' = Some (op_apply op es')" for es'
    by (simp add: log_bytes_def)
  then show ?thesis using replay_torn [of "take k (op_bytes op)"] replay_torn_record [OF assms(2), of k]
    by (simp add: pre)
qed

theorem log_replay_after_crash_witness:
  "replay_log (log_bytes [LogPut ''a'' \<lparr>val_data = [7], val_type = 1\<rparr>] @ take 4 (op_bytes (LogDelete ''a'')))
     (replicate 4 free_entry) = Some (kv_put_internal (replicate 4 free_entry) ''a'' \<lparr>val_data = [7], val_type = 1\<rparr>) \<and>
   replay_log (log_bytes [LogPut ''a'' \<lparr>val_data = [7], val_type = 1\<rparr>] @ take 5 (op_bytes (LogDelete ''a'')))
     (replicate 4 free_entry) = None"
  using log_replay_after_crash [of "[LogPut ''a'' \<lparr>val_data = [7], val_type = 1\<rparr>]" "LogDelete ''a''" 4 "replicate 4 free_entry"]
    log_replay_after_crash [of "[LogPut ''a'' \<lparr>val_data = [7], val_type = 1\<rparr>]" "LogDelete ''a''" 5 "replicate 4 free_entry"]
  by (simp add: key_ok_def val_ok_def delete_record_def)

end
