(* ===== verification/KVStore.thy ===== *)
theory KVStore
  imports KVLog BTreeLeaf
begin

text \<open>
  The key-value store of \<open>src/storage.c\<close> as one state: the hash table, the log handle and size,
  the snapshot and log files and the B+ tree table that \<open>kv_put\<close> also writes. The configured
  checkpoint threshold and whether \<open>fopen\<close> of the temporary snapshot succeeds are an
  environment \<open>kv_env\<close>. The \<open>count\<close> field is written and never read, so it is left out, and so
  are the mutex (each operation is one step) and the skip-list indexes. \<open>None\<close> is a dereferenced
  null page, which \<open>buffer_pool_get_page\<close> returns when every frame is pinned.
\<close>

section \<open>State\<close>

record kv_env =
  threshold :: int
  tmp_ok :: bool

record kv_store =
  entries :: "kv_entry list"
  log_open :: bool
  log_size :: int
  snap_file :: "bytes option"
  log_file :: "bytes option"
  btree_table :: table

section \<open>Log and snapshot\<close>

definition kv_snapshot_internal :: "kv_env \<Rightarrow> kv_store \<Rightarrow> kv_store" where
  "kv_snapshot_internal env s =
     (let s = s\<lparr>log_open := False\<rparr> in
      if \<not> tmp_ok env then s
      else s\<lparr>snap_file := Some (snapshot_bytes (entries s)),
             log_file := Some [], log_open := True, log_size := 0\<rparr>)"

definition log_append :: "bytes \<Rightarrow> bytes option \<Rightarrow> bytes option" where
  "log_append bs log = (case log of None \<Rightarrow> Some bs | Some l \<Rightarrow> Some (l @ bs))"

definition kv_append_log :: "kv_env \<Rightarrow> kv_store \<Rightarrow> nat \<Rightarrow> string \<Rightarrow> kv_value \<Rightarrow> kv_store" where
  "kv_append_log env s op_type key v =
     (if \<not> log_open s then s
      else
        let s = s\<lparr>log_file := log_append (word_of_nat op_type # key_fields key) (log_file s),
                  log_size := log_size s + 1 + 4 + int (length key)\<rparr>;
            s = (if op_type = 1
                 then s\<lparr>log_file := log_append (value_fields v) (log_file s),
                        log_size := log_size s + 8 + 4 + int (length (val_data v))\<rparr>
                 else s)
        in if log_size s > threshold env then kv_snapshot_internal env s else s)"

section \<open>Operations\<close>

text \<open>The row written to the B+ tree: 512 zero bytes with the data, cut at 512, copied in.\<close>

definition btree_row :: "bytes \<Rightarrow> bytes" where
  "btree_row data =
     (let copy_size = (if length data \<le> ROW_SIZE then length data else ROW_SIZE)
      in blit 0 (take copy_size data) (replicate ROW_SIZE 0))"

definition btree_id :: "string \<Rightarrow> kv_value \<Rightarrow> u32 option" where
  "btree_id key v =
     (if val_type v = VAL_TYPE_ROW \<and> take 4 key = ''TBL:'' then
        (case after_last (CHR '':'') key of
           None \<Rightarrow> None
         | Some t \<Rightarrow> (let rid = word_of_int (atoi t) in if rid > 0 then Some rid else None))
      else None)"

definition kv_put_btree :: "bytes \<Rightarrow> kv_store \<Rightarrow> string \<Rightarrow> kv_value \<Rightarrow> kv_store option" where
  "kv_put_btree junk s key v =
     (case btree_id key v of
        None \<Rightarrow> Some s
      | Some rid \<Rightarrow>
          (case table_find junk (btree_table s) rid of
             None \<Rightarrow> None
           | Some (cur, tbl) \<Rightarrow>
               (case leaf_node_insert junk tbl cur rid (btree_row (val_data v)) of
                  None \<Rightarrow> None
                | Some tbl \<Rightarrow> Some (s\<lparr>btree_table := tbl\<rparr>))))"

text \<open>The locked part of \<open>kv_put\<close>: the table and the log.\<close>

definition kv_put_locked :: "kv_env \<Rightarrow> kv_store \<Rightarrow> string \<Rightarrow> kv_value \<Rightarrow> kv_store" where
  "kv_put_locked env s key v =
     kv_append_log env (s\<lparr>entries := kv_put_internal (entries s) key v\<rparr>) 1 key v"

definition kv_put :: "bytes \<Rightarrow> kv_env \<Rightarrow> kv_store \<Rightarrow> string \<Rightarrow> kv_value \<Rightarrow> kv_store option" where
  "kv_put junk env s key v =
     (case kv_put_btree junk s key v of
        None \<Rightarrow> None
      | Some s \<Rightarrow> Some (kv_put_locked env s key v))"

definition kv_get :: "kv_store \<Rightarrow> string \<Rightarrow> kv_value option" where
  "kv_get s key = kv_lookup (entries s) key"

definition kv_delete :: "kv_env \<Rightarrow> kv_store \<Rightarrow> string \<Rightarrow> kv_store" where
  "kv_delete env s key =
     (case probe_from_home (entries s) key of
        Found idx \<Rightarrow> kv_append_log env (s\<lparr>entries := kv_clear (entries s) key\<rparr>) 2 key
                       \<lparr>val_data = [], val_type = 0\<rparr>
      | Free idx \<Rightarrow> s
      | Full \<Rightarrow> s)"

definition kv_snapshot :: "kv_env \<Rightarrow> kv_store \<Rightarrow> kv_store" where
  "kv_snapshot env s = kv_snapshot_internal env s"

definition kv_recover :: "kv_store \<Rightarrow> kv_store option" where
  "kv_recover s =
     map_option (\<lambda>es. s\<lparr>entries := es\<rparr>) (kv_recover_entries (snap_file s) (log_file s) (entries s))"

definition kv_create :: "bytes \<Rightarrow> nat \<Rightarrow> bytes option \<Rightarrow> bytes option \<Rightarrow> bytes option \<Rightarrow> kv_store option" where
  "kv_create junk capacity db_file snap log =
     (case db_open junk db_file of
        None \<Rightarrow> None
      | Some tbl \<Rightarrow>
          (case kv_recover \<lparr>entries = replicate capacity free_entry, log_open = False, log_size = 0,
                            snap_file = snap, log_file = log, btree_table = tbl\<rparr> of
             None \<Rightarrow> None
           | Some s \<Rightarrow>
               if \<not> log_open s
               then Some (s\<lparr>log_file := log_append [] (log_file s), log_open := True, log_size := 0\<rparr>)
               else Some s))"

text \<open>\<open>kv_destroy\<close> closes both files: what is left is the snapshot, the log and \<open>data.db\<close>.\<close>

definition kv_destroy :: "kv_store \<Rightarrow> bytes option \<times> bytes option \<times> bytes" where
  "kv_destroy s = (snap_file s, log_file s, buffer_pool_close (tbl_pool (btree_table s)))"

section \<open>Key builders\<close>

text \<open>\<open>sprintf\<close> into \<open>malloc(256)\<close>: longer keys overflow the buffer, which is \<open>None\<close>.\<close>

definition sprintf_256 :: "string \<Rightarrow> string option" where
  "sprintf_256 s = (if length s < 256 then Some s else None)"

definition generate_key_table :: "string \<Rightarrow> int \<Rightarrow> string option" where
  "generate_key_table table_name rid = sprintf_256 (''TBL:'' @ table_name @ '':'' @ show_int rid)"

definition generate_key_doc :: "string \<Rightarrow> string \<Rightarrow> string option" where
  "generate_key_doc collection doc_id = sprintf_256 (''DOC:'' @ collection @ '':'' @ doc_id)"

definition generate_key_schema :: "string \<Rightarrow> string option" where
  "generate_key_schema table_name = sprintf_256 (''META:TBL:'' @ table_name)"

section \<open>One operation\<close>

lemma entries_append_log [simp]: "entries (kv_append_log env s op key v) = entries s"
  by (simp add: kv_append_log_def kv_snapshot_internal_def Let_def)

lemma btree_append_log [simp]: "btree_table (kv_append_log env s op key v) = btree_table s"
  by (simp add: kv_append_log_def kv_snapshot_internal_def Let_def)

lemma entries_snapshot [simp]: "entries (kv_snapshot_internal env s) = entries s"
  by (simp add: kv_snapshot_internal_def Let_def)

lemma entries_put_locked [simp]: "entries (kv_put_locked env s key v) = kv_put_internal (entries s) key v"
  by (simp add: kv_put_locked_def)

lemma entries_delete [simp]: "entries (kv_delete env s key) = kv_clear (entries s) key"
  by (simp add: kv_delete_def kv_clear_def split: probe.split)

lemma length_btree_row [simp]: "length (btree_row data) = ROW_SIZE"
  by (simp add: btree_row_def)

text \<open>What the B+ tree needs of the table for \<open>kv_put\<close> to go through.\<close>

definition btree_ready :: "kv_store \<Rightarrow> bool" where
  "btree_ready s \<longleftrightarrow> table_wf (btree_table s) \<and> quiet (tbl_pool (btree_table s))"

definition btree_clock :: "kv_store \<Rightarrow> int" where
  "btree_clock s = clock (tbl_pool (btree_table s))"

definition rows_after :: "u32 option \<Rightarrow> bytes \<Rightarrow> (u32 \<times> bytes) list \<Rightarrow> (u32 \<times> bytes) multiset" where
  "rows_after rid data rows =
     (case rid of
        Some n \<Rightarrow> if length rows < LEAF_NODE_MAX_CELLS then add_mset (n, btree_row data) (mset rows) else mset rows
      | None \<Rightarrow> mset rows)"

lemma kv_put_btree_ok:
  assumes "btree_ready s" and "btree_clock s < 0x7FFFFFFD"
  obtains s' where "kv_put_btree junk s key v = Some s'" "btree_ready s'" "btree_clock s' \<le> btree_clock s + 2"
    "s'\<lparr>btree_table := btree_table s\<rparr> = s"
    "mset (table_rows (btree_table s')) = rows_after (btree_id key v) (val_data v) (table_rows (btree_table s))"
proof (cases "btree_id key v")
  case None
  then show ?thesis using assms that [of s] by (simp add: kv_put_btree_def rows_after_def)
next
  case (Some rid)
  have "table_wf (btree_table s)" "quiet (tbl_pool (btree_table s))" "clock (tbl_pool (btree_table s)) < 0x7FFFFFFD"
    using assms by (auto simp: btree_ready_def btree_clock_def)
  from find_then_insert [OF this, of "btree_row (val_data v)" junk rid]
  obtain cur tbl1 tbl2 where t: "table_find junk (btree_table s) rid = Some (cur, tbl1)"
    "leaf_node_insert junk tbl1 cur rid (btree_row (val_data v)) = Some tbl2" "table_wf tbl2" "quiet (tbl_pool tbl2)"
    "clock (tbl_pool tbl2) = clock (tbl_pool (btree_table s)) + 2"
    "mset (table_rows tbl2) = rows_after (Some rid) (val_data v) (table_rows (btree_table s))"
    by (auto simp: rows_after_def)
  then show ?thesis using Some that [of "s\<lparr>btree_table := tbl2\<rparr>"]
    by (simp add: kv_put_btree_def btree_ready_def btree_clock_def)
qed

lemma kv_put_ok:
  assumes "btree_ready s" and "btree_clock s < 0x7FFFFFFD"
  obtains s1 where "kv_put junk env s key v =
      Some (kv_append_log env (s1\<lparr>entries := kv_put_internal (entries s) key v\<rparr>) 1 key v)"
    "s1\<lparr>btree_table := btree_table s\<rparr> = s" "btree_ready s1" "btree_clock s1 \<le> btree_clock s + 2"
    "mset (table_rows (btree_table s1)) = rows_after (btree_id key v) (val_data v) (table_rows (btree_table s))"
proof -
  from assms obtain s' where s': "kv_put_btree junk s key v = Some s'" "btree_ready s'"
    "btree_clock s' \<le> btree_clock s + 2" "s'\<lparr>btree_table := btree_table s\<rparr> = s"
    "mset (table_rows (btree_table s')) = rows_after (btree_id key v) (val_data v) (table_rows (btree_table s))"
    by (rule kv_put_btree_ok [where junk = junk])
  have "entries s' = entries s" by (subst s'(4) [symmetric]) simp
  then show ?thesis using s' that [of s'] by (simp add: kv_put_def kv_put_locked_def)
qed

lemma key_table_id:
  assumes "generate_key_table t rid = Some key" and "0 < rid" and "rid < 2147483648" and "val_type v = VAL_TYPE_ROW"
  shows "btree_id key v = Some (word_of_int rid)"
proof -
  have key: "key = ''TBL:'' @ t @ '':'' @ show_int rid"
    using assms(1) by (auto simp: generate_key_table_def sprintf_256_def split: if_splits)
  have "after_last (CHR '':'') ((''TBL:'' @ t) @ CHR '':'' # show_int rid) = Some (show_int rid)"
    by (rule after_last_append [OF show_int_no_colon])
  then have al: "after_last (CHR '':'') key = Some (show_int rid)" using key by (simp only: append_assoc append_Cons append_Nil)
  have "uint (word_of_int rid :: u32) = rid" using assms(2,3) by (simp add: uint_word_of_int)
  then have "(word_of_int rid :: u32) > 0" using assms(2) by (auto simp: word_greater_zero_iff)
  moreover have "take 4 key = ''TBL:''" by (simp add: key)
  ultimately show ?thesis using assms(4) al by (simp add: btree_id_def atoi_show_int Let_def)
qed

section \<open>Properties\<close>

text \<open>A put on a store whose table satisfies the probing invariant and whose B+ tree has no
  page pinned returns. Afterwards the key has the new value (unless the table is full of other
  keys), every other key the value it had, whatever checkpoint the log size triggered; and the
  B+ tree got exactly one more row, with the id at the end of the key, when the value is a row,
  the key starts with \<open>TBL:\<close>, the id is positive and the leaf has room.\<close>

theorem kv_put_correct:
  assumes "kv_reach (entries s)" and "btree_ready s" and "btree_clock s < 0x7FFFFFFD"
  shows "\<exists>s'. kv_put junk env s key v = Some s' \<and> kv_reach (entries s') \<and> btree_ready s' \<and>
    (\<forall>\<kappa>. kv_get s' \<kappa> =
       (if \<kappa> = key then (if probe_from_home (entries s) key = Full then None else Some v)
        else kv_get s \<kappa>)) \<and>
    mset (table_rows (btree_table s')) =
      rows_after (btree_id key v) (val_data v) (table_rows (btree_table s))"
proof -
  from assms(2,3) obtain s1 where s1: "kv_put junk env s key v =
      Some (kv_append_log env (s1\<lparr>entries := kv_put_internal (entries s) key v\<rparr>) 1 key v)"
    "btree_ready s1"
    "mset (table_rows (btree_table s1)) = rows_after (btree_id key v) (val_data v) (table_rows (btree_table s))"
    by (rule kv_put_ok [where junk = junk and env = env])
  then show ?thesis using assms(1)
    by (simp add: kv_get_def kv_put_lookup_same kv_put_lookup_other kv_put_reach btree_ready_def)
qed

definition small_env :: kv_env where
  "small_env = \<lparr>threshold = 100, tmp_ok = True\<rparr>"

lemma empty_reach: "kv_reach (replicate n free_entry)"
  by (simp add: kv_reach_def free_entry_def)

lemma empty_lookup: "kv_lookup (replicate n free_entry) key = None"
proof -
  have "\<not> has_entry (replicate n free_entry) key v" for v
    by (auto simp: has_entry_def free_entry_def)
  then show ?thesis using kv_lookup_reach [OF empty_reach, of n key] by (metis option.exhaust)
qed

text \<open>A first start: no file exists.\<close>

lemma kv_create_fresh:
  obtains s where "kv_create junk n None None None = Some s" "entries s = replicate n free_entry"
    "btree_ready s" "btree_clock s = 1" "table_rows (btree_table s) = []"
    "log_open s" "log_size s = 0" "snap_file s = None" "log_file s = Some []"
proof -
  obtain tbl where t: "db_open junk None = Some tbl" "table_wf tbl" "table_rows tbl = []"
    "quiet (tbl_pool tbl)" "clock (tbl_pool tbl) = 1" by (rule db_open_new)
  then show thesis
    using that by (simp add: kv_create_def kv_recover_def kv_recover_entries_def load_snapshot_def
        log_append_def btree_ready_def btree_clock_def)
qed

theorem kv_put_correct_witness:
  "\<exists>s s'. kv_create [] 4 None None None = Some s \<and>
     kv_put [] small_env s ''TBL:t:7'' \<lparr>val_data = [1], val_type = VAL_TYPE_ROW\<rparr> = Some s' \<and>
     kv_get s' ''other'' = None \<and>
     mset (table_rows (btree_table s')) = {#(7, btree_row [1])#}"
proof -
  obtain s where s: "kv_create [] 4 None None None = Some s" "entries s = replicate 4 free_entry"
    "btree_ready s" "btree_clock s = 1" "table_rows (btree_table s) = []"
    by (rule kv_create_fresh)
  have "generate_key_table ''t'' 7 = Some ''TBL:t:7''"
    by (simp add: generate_key_table_def sprintf_256_def show_int_def show_nat.simps digit_char_def char_of_def bit_0)
  then have rid: "btree_id ''TBL:t:7'' \<lparr>val_data = [1], val_type = VAL_TYPE_ROW\<rparr> = Some 7"
    using key_table_id [of "''t''" 7 "''TBL:t:7''" "\<lparr>val_data = [1], val_type = VAL_TYPE_ROW\<rparr>"] by simp
  have "kv_reach (entries s)" "btree_clock s < 0x7FFFFFFD" by (simp_all add: s empty_reach)
  from kv_put_correct [OF this(1) s(3) this(2), of "[]" small_env "''TBL:t:7''" "\<lparr>val_data = [1], val_type = VAL_TYPE_ROW\<rparr>"]
  show ?thesis using s rid by (auto simp: rows_after_def kv_get_def empty_lookup)
qed

text \<open>A checkpoint that cannot open its temporary file still closes the log: from then on
  puts and deletes change the memory but neither file, so a restart finds none of them.\<close>

theorem failed_checkpoint_stops_logging:
  assumes "\<not> tmp_ok env" and "kv_put junk env' (kv_snapshot env s) key v = Some s'"
  shows "\<not> log_open s' \<and> snap_file s' = snap_file s \<and> log_file s' = log_file s \<and>
    snap_file (kv_delete env' s' \<kappa>) = snap_file s \<and> log_file (kv_delete env' s' \<kappa>) = log_file s"
proof -
  have b: "log_open s1 = log_open s0 \<and> snap_file s1 = snap_file s0 \<and> log_file s1 = log_file s0"
    if "kv_put_btree junk s0 key v = Some s1" for s0 s1
    using that by (auto simp: kv_put_btree_def split: option.splits)
  have s': "\<not> log_open s' \<and> snap_file s' = snap_file s \<and> log_file s' = log_file s"
    using assms b [of "kv_snapshot env s"]
    by (auto simp: kv_put_def kv_put_locked_def kv_append_log_def kv_snapshot_def kv_snapshot_internal_def Let_def split: option.splits)
  then show ?thesis by (simp add: kv_delete_def kv_append_log_def split: probe.split)
qed

theorem failed_checkpoint_stops_logging_witness:
  "\<exists>s s'. kv_create [] 4 None None None = Some s \<and>
     kv_put [] small_env (kv_snapshot (small_env\<lparr>tmp_ok := False\<rparr>) s) ''k'' \<lparr>val_data = [1], val_type = VAL_TYPE_JSON\<rparr> = Some s' \<and>
     log_file s' = Some []"
proof -
  obtain s where s: "kv_create [] 4 None None None = Some s" "log_file s = Some []"
    by (rule kv_create_fresh)
  have "btree_id ''k'' \<lparr>val_data = [1], val_type = VAL_TYPE_JSON\<rparr> = None" by (simp add: btree_id_def)
  then obtain s' where
    "kv_put [] small_env (kv_snapshot (small_env\<lparr>tmp_ok := False\<rparr>) s) ''k'' \<lparr>val_data = [1], val_type = VAL_TYPE_JSON\<rparr> = Some s'"
    by (simp add: kv_put_def kv_put_btree_def)
  with failed_checkpoint_stops_logging [OF _ this] s show ?thesis by auto
qed

end
