(* ===== verification/KVRecovery.thy ===== *)
theory KVRecovery
  imports KVStore
begin

text \<open>
  What \<open>kv_recover\<close> brings back. Two relations between a running store and its files:
  \<open>exact\<close> (no checkpoint since the start: replaying the log gives the very same table, whatever
  the deletes did to the probe walks) and \<open>durable\<close> (checkpoints allowed: the recovered table has
  another layout and the same map). Full tables are handled by counting: under the invariant the
  keys found are as many as the occupied slots, so two tables of the same capacity with the same
  map are full for the same keys.
\<close>

section \<open>The keys of a table\<close>

definition kv_keys :: "kv_entry list \<Rightarrow> string set" where
  "kv_keys es = {\<kappa>. kv_lookup es \<kappa> \<noteq> None}"

definition occupied_slots :: "kv_entry list \<Rightarrow> nat set" where
  "occupied_slots es = {i. i < length es \<and> occupied (es ! i)}"

lemma finite_occupied_slots [simp]: "finite (occupied_slots es)"
  by (simp add: occupied_slots_def)

lemma card_occupied_le: "card (occupied_slots es) \<le> length es"
proof -
  have "occupied_slots es \<subseteq> {0 ..< length es}" by (auto simp: occupied_slots_def)
  from card_mono [OF _ this] show ?thesis by simp
qed

lemma reach_inj: "kv_reach es \<Longrightarrow> i < length es \<Longrightarrow> occupied (es ! i) \<Longrightarrow> j < length es \<Longrightarrow>
    occupied (es ! j) \<Longrightarrow> entry_key (es ! i) = entry_key (es ! j) \<Longrightarrow> i = j"
  unfolding kv_reach_def by (metis probe.inject(1))

lemma kv_keys_slots:
  assumes "kv_reach es"
  shows "bij_betw (\<lambda>i. entry_key (es ! i)) (occupied_slots es) (kv_keys es)"
proof (rule bij_betwI')
  fix i j assume "i \<in> occupied_slots es" "j \<in> occupied_slots es"
  then show "(entry_key (es ! i) = entry_key (es ! j)) = (i = j)"
    using reach_inj [OF assms, of i j] by (auto simp: occupied_slots_def)
next
  fix i assume "i \<in> occupied_slots es"
  then have "probe_from_home es (entry_key (es ! i)) = Found i"
    using assms by (simp add: kv_reach_def occupied_slots_def)
  then show "entry_key (es ! i) \<in> kv_keys es" by (simp add: kv_keys_def kv_lookup_def)
next
  fix \<kappa> assume "\<kappa> \<in> kv_keys es"
  then obtain i where "probe_from_home es \<kappa> = Found i"
    by (auto simp: kv_keys_def kv_lookup_def split: probe.splits)
  from probe_Found(1-3) [OF this] show "\<exists>i \<in> occupied_slots es. \<kappa> = entry_key (es ! i)"
    by (auto simp: occupied_slots_def)
qed

lemma probe_Full_iff:
  assumes "kv_reach es"
  shows "probe_from_home es key = Full \<longleftrightarrow> card (kv_keys es) = length es \<and> key \<notin> kv_keys es"
proof (cases "es = []")
  case True
  then show ?thesis by (simp add: kv_keys_def kv_lookup_def)
next
  case False
  note card = bij_betw_same_card [OF kv_keys_slots [OF assms]]
  show ?thesis
  proof
    assume full: "probe_from_home es key = Full"
    have "\<forall>k < length es. \<not> stops es key (slot_at es key k)"
      by (rule probe_result [OF False, of key]) (use full in \<open>auto simp: outcome_def split: if_splits\<close>)
    then have "occupied (es ! i)" if "i < length es" for i
      using slot_at_onto [OF that, of key] by (auto simp: stops_def)
    then have "occupied_slots es = {0 ..< length es}" by (auto simp: occupied_slots_def)
    then show "card (kv_keys es) = length es \<and> key \<notin> kv_keys es"
      using card full by (simp add: kv_keys_def kv_lookup_def)
  next
    assume a: "card (kv_keys es) = length es \<and> key \<notin> kv_keys es"
    have "occupied_slots es = {0 ..< length es}"
    proof (rule card_subset_eq)
      show "occupied_slots es \<subseteq> {0 ..< length es}" by (auto simp: occupied_slots_def)
      show "card (occupied_slots es) = card {0 ..< length es}" using a card by simp
    qed simp
    then have "i \<in> occupied_slots es" if "i < length es" for i using that by simp
    then have all: "occupied (es ! i)" if "i < length es" for i
      using that unfolding occupied_slots_def by blast
    show "probe_from_home es key = Full"
    proof (cases "probe_from_home es key")
      case (Found i)
      then show ?thesis using a by (simp add: kv_keys_def kv_lookup_def)
    next
      case (Free i)
      from probe_Free(1,2) [OF this] all show ?thesis by simp
    qed
  qed
qed

section \<open>The same map at the same capacity\<close>

definition same_map :: "kv_entry list \<Rightarrow> kv_entry list \<Rightarrow> bool" where
  "same_map es fs \<longleftrightarrow> length es = length fs \<and> (\<forall>\<kappa>. kv_lookup es \<kappa> = kv_lookup fs \<kappa>)"

lemma same_map_refl [simp]: "same_map es es"
  by (simp add: same_map_def)

lemma same_map_Full:
  "same_map es fs \<Longrightarrow> kv_reach es \<Longrightarrow> kv_reach fs \<Longrightarrow>
   probe_from_home es key = Full \<longleftrightarrow> probe_from_home fs key = Full"
  by (simp add: probe_Full_iff kv_keys_def same_map_def)

lemma same_map_put:
  assumes "same_map es fs" and "kv_reach es" and "kv_reach fs"
  shows "same_map (kv_put_internal es key v) (kv_put_internal fs key v)"
  unfolding same_map_def
proof (intro conjI allI)
  show "length (kv_put_internal es key v) = length (kv_put_internal fs key v)"
    using assms(1) by (simp add: same_map_def)
  fix \<kappa>
  show "kv_lookup (kv_put_internal es key v) \<kappa> = kv_lookup (kv_put_internal fs key v) \<kappa>"
    using assms same_map_Full [OF assms]
    by (cases "\<kappa> = key") (simp_all add: kv_put_lookup_same kv_put_lookup_other same_map_def)
qed

section \<open>Loading a snapshot\<close>

definition put_entries :: "kv_entry list \<Rightarrow> kv_entry list \<Rightarrow> kv_entry list" where
  "put_entries xs fs = fold (\<lambda>e fs. kv_put_internal fs (entry_key e) (entry_val e)) xs fs"

lemma put_entries_reach: "kv_reach fs \<Longrightarrow> kv_reach (put_entries xs fs)"
  by (induction xs arbitrary: fs) (auto simp: put_entries_def kv_put_reach)

lemma length_put_entries [simp]: "length (put_entries xs fs) = length fs"
  by (induction xs arbitrary: fs) (auto simp: put_entries_def)

definition entry_map :: "kv_entry list \<Rightarrow> string \<Rightarrow> kv_value option" where
  "entry_map xs = map_of (map (\<lambda>e. (entry_key e, entry_val e)) xs)"

lemma finite_kv_keys: "kv_reach es \<Longrightarrow> finite (kv_keys es)"
  using bij_betw_finite [OF kv_keys_slots, of es] by simp

lemma put_entries_lookup:
  assumes "kv_reach fs" and "distinct (map entry_key xs)"
    and "kv_keys fs \<inter> entry_key ` set xs = {}" and "card (kv_keys fs) + length xs \<le> length fs"
  shows "kv_lookup (put_entries xs fs) \<kappa> =
    (case entry_map xs \<kappa> of Some v \<Rightarrow> Some v | None \<Rightarrow> kv_lookup fs \<kappa>)"
  using assms
proof (induction xs arbitrary: fs)
  case Nil
  then show ?case by (simp add: put_entries_def entry_map_def)
next
  case (Cons e xs)
  let ?fs = "kv_put_internal fs (entry_key e) (entry_val e)"
  have "entry_key e \<notin> kv_keys fs" using Cons.prems(3) by simp
  have nf: "probe_from_home fs (entry_key e) \<noteq> Full"
    using Cons.prems(4) probe_Full_iff [OF Cons.prems(1), of "entry_key e"] by auto
  have look: "kv_lookup ?fs \<kappa> = (if \<kappa> = entry_key e then Some (entry_val e) else kv_lookup fs \<kappa>)" for \<kappa>
    using nf by (simp add: kv_put_lookup_same kv_put_lookup_other [OF Cons.prems(1)])
  then have keys: "kv_keys ?fs = insert (entry_key e) (kv_keys fs)" by (auto simp: kv_keys_def)
  then have "card (kv_keys ?fs) = Suc (card (kv_keys fs))"
    using \<open>entry_key e \<notin> kv_keys fs\<close> finite_kv_keys [OF Cons.prems(1)] by simp
  then have "kv_lookup (put_entries xs ?fs) \<kappa> = (case entry_map xs \<kappa> of Some v \<Rightarrow> Some v | None \<Rightarrow> kv_lookup ?fs \<kappa>)"
    using Cons.prems keys by (intro Cons.IH kv_put_reach) auto
  moreover have "entry_map xs (entry_key e) = None"
    using Cons.prems(2) by (auto simp: entry_map_def map_of_eq_None_iff image_image)
  moreover have "put_entries (e # xs) fs = put_entries xs ?fs" by (simp add: put_entries_def)
  ultimately show ?case by (auto simp: look entry_map_def split: option.splits)
qed

lemma distinct_filter_key:
  assumes "\<And>i j. i < length xs \<Longrightarrow> P (xs ! i) \<Longrightarrow> j < length xs \<Longrightarrow> P (xs ! j) \<Longrightarrow> f (xs ! i) = f (xs ! j) \<Longrightarrow> i = j"
  shows "distinct (map f (filter P xs))"
  using assms
proof (induction xs)
  case Nil
  then show ?case by simp
next
  case (Cons x xs)
  have "distinct (map f (filter P xs))"
    by (rule Cons.IH) (use Cons.prems [of "Suc _" "Suc _"] in simp)
  moreover have "f x \<notin> f ` set (filter P xs)" if "P x"
  proof
    assume "f x \<in> f ` set (filter P xs)"
    then obtain j where "j < length xs" "P (xs ! j)" "f x = f (xs ! j)" by (auto simp: in_set_conv_nth)
    with Cons.prems [of 0 "Suc j"] \<open>P x\<close> show False by simp
  qed
  ultimately show ?case by simp
qed

lemma live_distinct: "kv_reach es \<Longrightarrow> distinct (map entry_key (live es))"
  unfolding live_def by (rule distinct_filter_key) (rule reach_inj)

lemma live_lookup:
  assumes "kv_reach es"
  shows "entry_map (live es) \<kappa> = kv_lookup es \<kappa>"
proof -
  have d: "distinct (map fst (map (\<lambda>e. (entry_key e, entry_val e)) (live es)))"
    using live_distinct [OF assms] by (simp add: comp_def)
  have "entry_map (live es) \<kappa> = Some v \<longleftrightarrow> has_entry es \<kappa> v" for v
    unfolding entry_map_def map_of_eq_Some_iff [OF d] by (auto simp: has_entry_def live_def)
  then show ?thesis using kv_lookup_reach [OF assms, of \<kappa>] by (metis option.exhaust)
qed

lemma put_live_same:
  assumes "kv_reach es"
  shows "same_map (put_entries (live es) (replicate (length es) free_entry)) es"
proof -
  let ?fs = "replicate (length es) free_entry"
  have none: "kv_keys ?fs = {}" by (simp add: kv_keys_def empty_lookup)
  have "length (live es) \<le> length es" by (simp add: live_def)
  then have "kv_lookup (put_entries (live es) ?fs) \<kappa> = kv_lookup es \<kappa>" for \<kappa>
    using put_entries_lookup [OF empty_reach live_distinct [OF assms]] none live_lookup [OF assms]
    by (simp add: empty_lookup split: option.split)
  then show ?thesis by (simp add: same_map_def)
qed

section \<open>A store and its files\<close>

text \<open>The log holds the complete records \<open>ops\<close>, and \<open>base\<close> is what the snapshot loads.\<close>

definition logged :: "kv_store \<Rightarrow> log_op list \<Rightarrow> kv_entry list \<Rightarrow> bool" where
  "logged s ops base \<longleftrightarrow> log_open s \<and> log_file s = Some (log_bytes ops) \<and> (\<forall>op \<in> set ops. op_ok op) \<and>
     load_snapshot (snap_file s) (replicate (length (entries s)) free_entry) = Some base"

definition exact :: "kv_store \<Rightarrow> bool" where
  "exact s \<longleftrightarrow> (\<exists>ops base. logged s ops base \<and> fold op_apply ops base = entries s)"

definition storable :: "kv_entry list \<Rightarrow> bool" where
  "storable es \<longleftrightarrow> kv_reach es \<and> (\<forall>e \<in> set (live es). entry_ok e) \<and> length es < 2147483648"

definition durable :: "kv_store \<Rightarrow> bool" where
  "durable s \<longleftrightarrow> storable (entries s) \<and>
     (\<exists>ops base. logged s ops base \<and> kv_reach (fold op_apply ops base) \<and>
       same_map (fold op_apply ops base) (entries s))"

lemma logged_recovers:
  "logged s ops base \<Longrightarrow>
   kv_recover_entries (snap_file s) (log_file s) (replicate (length (entries s)) free_entry) =
     Some (fold op_apply ops base)"
  using replay_log_bytes [of ops "[]" base] by (simp add: logged_def kv_recover_entries_def)

text \<open>Appending a record, short of the threshold and beyond it.\<close>

fun op_code :: "log_op \<Rightarrow> nat" where
  "op_code (LogPut key v) = 1"
| "op_code (LogDelete key) = 2"

fun op_key :: "log_op \<Rightarrow> string" where
  "op_key (LogPut key v) = key"
| "op_key (LogDelete key) = key"

fun op_val :: "log_op \<Rightarrow> kv_value" where
  "op_val (LogPut key v) = v"
| "op_val (LogDelete key) = \<lparr>val_data = [], val_type = 0\<rparr>"

definition append_op :: "kv_env \<Rightarrow> kv_store \<Rightarrow> log_op \<Rightarrow> kv_store" where
  "append_op env s op = kv_append_log env s (op_code op) (op_key op) (op_val op)"

lemma append_op_eq:
  assumes "log_open s" and "log_file s = Some l"
  shows "append_op env s op =
    (let s' = s\<lparr>log_file := Some (l @ op_bytes op), log_size := log_size s + int (length (op_bytes op))\<rparr> in
     if log_size s + int (length (op_bytes op)) > threshold env then kv_snapshot_internal env s' else s')"
  using assms
  by (cases op) (simp_all add: append_op_def kv_append_log_def log_append_def put_record_def delete_record_def
      add.assoc Let_def)

lemma append_op_logged:
  assumes "logged s ops base" and "op_ok op" and "log_size s + int (length (op_bytes op)) \<le> threshold env"
  shows "logged (append_op env s op) (ops @ [op]) base"
    and "log_size (append_op env s op) = log_size s + int (length (op_bytes op))"
  using assms by (auto simp: append_op_eq logged_def log_bytes_snoc Let_def)

lemma snapshot_durable:
  assumes "storable (entries s)" and "tmp_ok env"
  shows "durable (kv_snapshot_internal env s)"
proof -
  let ?s = "kv_snapshot_internal env s" let ?fs = "replicate (length (entries s)) free_entry"
  have "length (live (entries s)) < 2147483648"
    unfolding live_def by (rule le_less_trans [OF length_filter_le]) (use assms(1) in \<open>simp add: storable_def\<close>)
  then have "load_snapshot (snap_file ?s) ?fs = Some (put_entries (live (entries s)) ?fs)"
    using assms load_snapshot_bytes [of "entries s" ?fs]
    by (simp add: kv_snapshot_internal_def storable_def put_entries_def Let_def)
  then have "logged ?s [] (put_entries (live (entries s)) ?fs)"
    using assms(2) by (simp add: logged_def kv_snapshot_internal_def log_bytes_def Let_def)
  moreover have "kv_reach (put_entries (live (entries s)) ?fs)"
    by (rule put_entries_reach [OF empty_reach])
  moreover have "same_map (put_entries (live (entries s)) ?fs) (entries s)"
    using assms(1) by (intro put_live_same) (simp add: storable_def)
  ultimately show ?thesis using assms(1) unfolding durable_def by (intro conjI exI [of _ "[]"] exI) auto
qed

lemma storable_put: "storable es \<Longrightarrow> key_ok key \<Longrightarrow> val_ok v \<Longrightarrow> storable (kv_put_internal es key v)"
proof -
  assume a: "storable es" "key_ok key" "val_ok v"
  have "entry_ok e" if "e \<in> set (live (kv_put_internal es key v))" for e
    by (rule kv_put_cases [of es key v])
      (use a that set_update_subset_insert [of es] in \<open>auto simp: storable_def entry_ok_def live_def
         dest!: set_update_subset_insert [THEN subsetD]\<close>)
  with a show ?thesis by (simp add: storable_def kv_put_reach)
qed

lemma append_put_durable:
  assumes d: "durable s" and ok: "key_ok key" "val_ok v" and env: "tmp_ok env"
  shows "durable (append_op env (s\<lparr>entries := kv_put_internal (entries s) key v\<rparr>) (LogPut key v))"
proof -
  let ?s = "s\<lparr>entries := kv_put_internal (entries s) key v\<rparr>" let ?op = "LogPut key v"
  from d obtain ops base where l: "logged s ops base" "kv_reach (fold op_apply ops base)"
    "same_map (fold op_apply ops base) (entries s)" and st: "storable (entries s)"
    by (auto simp: durable_def)
  have l': "logged ?s ops base" using l(1) by (simp add: logged_def)
  have st': "storable (entries ?s)" using storable_put [OF st ok] by simp
  show ?thesis
  proof (cases "log_size s + int (length (op_bytes ?op)) > threshold env")
    case True
    have "durable (kv_snapshot_internal env (?s\<lparr>log_file := f, log_size := n\<rparr>))" for f n
      by (rule snapshot_durable [OF _ env]) (use st' in simp)
    moreover have "log_open s" "log_file s = Some (log_bytes ops)" using l(1) by (auto simp: logged_def)
    ultimately show ?thesis using True by (simp add: append_op_eq Let_def)
  next
    case False
    then have le: "log_size ?s + int (length (op_bytes ?op)) \<le> threshold env" by simp
    have "op_ok ?op" using ok by simp
    note l2 = append_op_logged(1) [OF l' this le]
    have e: "entries (append_op env ?s ?op) = entries ?s" by (simp add: append_op_def)
    have "fold op_apply (ops @ [?op]) base = kv_put_internal (fold op_apply ops base) key v" by simp
    then have "kv_reach (fold op_apply (ops @ [?op]) base)"
      and "same_map (fold op_apply (ops @ [?op]) base) (entries ?s)"
      using l(2,3) st by (simp_all add: kv_put_reach same_map_put storable_def)
    with l2 st' e show ?thesis unfolding durable_def by metis
  qed
qed

section \<open>Sessions\<close>

datatype kv_cmd = CmdPut string kv_value | CmdDelete string | CmdCheckpoint

fun kv_exec :: "bytes \<Rightarrow> kv_env \<Rightarrow> kv_cmd \<Rightarrow> kv_store \<Rightarrow> kv_store option" where
  "kv_exec junk env (CmdPut key v) s = kv_put junk env s key v"
| "kv_exec junk env (CmdDelete key) s = Some (kv_delete env s key)"
| "kv_exec junk env CmdCheckpoint s = Some (kv_snapshot env s)"

fun kv_run :: "bytes \<Rightarrow> kv_env \<Rightarrow> kv_cmd list \<Rightarrow> kv_store \<Rightarrow> kv_store option" where
  "kv_run junk env [] s = Some s"
| "kv_run junk env (c # cs) s =
     (case kv_exec junk env c s of None \<Rightarrow> None | Some s \<Rightarrow> kv_run junk env cs s)"

fun cmd_ok :: "kv_cmd \<Rightarrow> bool" where
  "cmd_ok (CmdPut key v) \<longleftrightarrow> key_ok key \<and> val_ok v"
| "cmd_ok (CmdDelete key) \<longleftrightarrow> key_ok key"
| "cmd_ok CmdCheckpoint \<longleftrightarrow> True"

fun cmd_log :: "kv_cmd \<Rightarrow> nat" where
  "cmd_log (CmdPut key v) = length (put_record key v)"
| "cmd_log (CmdDelete key) = length (delete_record key)"
| "cmd_log CmdCheckpoint = 0"

lemma put_append_op:
  assumes "btree_ready s" and "btree_clock s < 0x7FFFFFFD"
  obtains s1 where "kv_put junk env s key v = Some (append_op env (s1\<lparr>entries := kv_put_internal (entries s) key v\<rparr>) (LogPut key v))"
    "s1\<lparr>btree_table := btree_table s\<rparr> = s" "btree_ready s1" "btree_clock s1 \<le> btree_clock s + 2"
proof -
  from assms obtain s1 where "kv_put junk env s key v =
      Some (kv_append_log env (s1\<lparr>entries := kv_put_internal (entries s) key v\<rparr>) 1 key v)"
    "s1\<lparr>btree_table := btree_table s\<rparr> = s" "btree_ready s1" "btree_clock s1 \<le> btree_clock s + 2"
    by (rule kv_put_ok [where junk = junk and env = env])
  then show thesis by (intro that) (simp_all add: append_op_def)
qed

lemma entries_append_op [simp]: "entries (append_op env s op) = entries s"
  by (simp add: append_op_def)

lemma btree_append_op [simp]:
  "btree_ready (append_op env s op) = btree_ready s" "btree_clock (append_op env s op) = btree_clock s"
  by (simp_all add: append_op_def btree_ready_def btree_clock_def)

lemma btree_entries [simp]:
  "btree_ready (s\<lparr>entries := es\<rparr>) = btree_ready s" "btree_clock (s\<lparr>entries := es\<rparr>) = btree_clock s"
  by (simp_all add: btree_ready_def btree_clock_def)

lemma same_but_btree:
  assumes "s1\<lparr>btree_table := t\<rparr> = s"
  shows "entries s1 = entries s" "log_size s1 = log_size s" "logged s1 ops base = logged s ops base"
  using assms by (auto simp: logged_def)

lemma exec_exact:
  assumes ex: "exact s" and ready: "btree_ready s" "btree_clock s < 0x7FFFFFFD"
    and c: "cmd_ok c" "c \<noteq> CmdCheckpoint" and room: "log_size s + int (cmd_log c) \<le> threshold env"
  shows "\<exists>s'. kv_exec junk env c s = Some s' \<and> exact s' \<and> btree_ready s' \<and>
    btree_clock s' \<le> btree_clock s + 2 \<and> log_size s' \<le> log_size s + int (cmd_log c) \<and>
    length (entries s') = length (entries s)"
proof -
  from ex obtain ops base where l: "logged s ops base" "fold op_apply ops base = entries s"
    by (auto simp: exact_def)
  show ?thesis
  proof (cases c)
    case (CmdPut key v)
    let ?op = "LogPut key v"
    from ready obtain s1 where
      p: "kv_put junk env s key v = Some (append_op env (s1\<lparr>entries := kv_put_internal (entries s) key v\<rparr>) ?op)"
      and s1: "s1\<lparr>btree_table := btree_table s\<rparr> = s" "btree_ready s1" "btree_clock s1 \<le> btree_clock s + 2"
      by (rule put_append_op [where junk = junk and env = env])
    let ?s = "s1\<lparr>entries := kv_put_internal (entries s) key v\<rparr>"
    note eq = same_but_btree [OF s1(1)]
    have "logged s1 ops base" using l(1) eq(3) by simp
    then have "logged ?s ops base" using eq(1) by (simp add: logged_def)
    moreover have "log_size ?s + int (length (op_bytes ?op)) \<le> threshold env" using room CmdPut eq by simp
    ultimately have "logged (append_op env ?s ?op) (ops @ [?op]) base"
      "log_size (append_op env ?s ?op) = log_size ?s + int (length (op_bytes ?op))"
      using append_op_logged [of ?s ops base ?op env] c(1) CmdPut by auto
    then have "exact (append_op env ?s ?op)"
      unfolding exact_def using l(2) by (intro exI [of _ "ops @ [?op]"] exI [of _ base]) (simp add: append_op_def)
    then show ?thesis
      using p s1 CmdPut eq \<open>log_size (append_op env ?s ?op) = _\<close> by simp
  next
    case (CmdDelete key)
    let ?op = "LogDelete key"
    show ?thesis
    proof (cases "\<exists>i. probe_from_home (entries s) key = Found i")
      case False
      then have "kv_delete env s key = s" by (auto simp: kv_delete_def split: probe.splits)
      then show ?thesis using CmdDelete ex ready by simp
    next
      case True
      let ?s = "s\<lparr>entries := kv_clear (entries s) key\<rparr>"
      have d: "kv_delete env s key = append_op env ?s ?op"
        using True by (auto simp: kv_delete_def append_op_def)
      have "logged ?s ops base" using l(1) by (simp add: logged_def)
      moreover have "log_size ?s + int (length (op_bytes ?op)) \<le> threshold env" using room CmdDelete by simp
      ultimately have a: "logged (append_op env ?s ?op) (ops @ [?op]) base"
        "log_size (append_op env ?s ?op) = log_size ?s + int (length (op_bytes ?op))"
        using append_op_logged [of ?s ops base ?op env] c(1) CmdDelete by auto
      then have "exact (append_op env ?s ?op)"
        unfolding exact_def using l(2) by (intro exI [of _ "ops @ [?op]"] exI [of _ base]) (simp add: append_op_def)
      then show ?thesis using d a ready CmdDelete by simp
    qed
  qed (use c in simp)
qed

lemma run_exact:
  assumes "exact s" and "btree_ready s" and "btree_clock s + 2 * int (length cs) < 0x7FFFFFFD"
    and "\<forall>c \<in> set cs. cmd_ok c \<and> c \<noteq> CmdCheckpoint"
    and "log_size s + int (sum_list (map cmd_log cs)) \<le> threshold env"
  shows "\<exists>s'. kv_run junk env cs s = Some s' \<and> exact s' \<and> length (entries s') = length (entries s)"
  using assms
proof (induction cs arbitrary: s)
  case Nil
  then show ?case by simp
next
  case (Cons c cs)
  have "btree_clock s < 0x7FFFFFFD" "log_size s + int (cmd_log c) \<le> threshold env" "cmd_ok c" "c \<noteq> CmdCheckpoint"
    using Cons.prems by auto
  from exec_exact [OF Cons.prems(1,2) this(1,3,4,2), of junk] obtain s' where
    s': "kv_exec junk env c s = Some s'" "exact s'" "btree_ready s'" "btree_clock s' \<le> btree_clock s + 2"
    "log_size s' \<le> log_size s + int (cmd_log c)" "length (entries s') = length (entries s)" by blast
  have "\<exists>s''. kv_run junk env cs s' = Some s'' \<and> exact s'' \<and> length (entries s'') = length (entries s')"
    using s' Cons.prems by (intro Cons.IH) auto
  with s' show ?case by simp
qed

lemma exec_durable:
  assumes d: "durable s" and ready: "btree_ready s" "btree_clock s < 0x7FFFFFFD"
    and c: "cmd_ok c" "\<And>key. c \<noteq> CmdDelete key" and env: "tmp_ok env"
  shows "\<exists>s'. kv_exec junk env c s = Some s' \<and> durable s' \<and> btree_ready s' \<and>
    btree_clock s' \<le> btree_clock s + 2 \<and> length (entries s') = length (entries s)"
proof (cases c)
  case (CmdPut key v)
  from ready obtain s1 where
    p: "kv_put junk env s key v = Some (append_op env (s1\<lparr>entries := kv_put_internal (entries s) key v\<rparr>) (LogPut key v))"
    and s1: "s1\<lparr>btree_table := btree_table s\<rparr> = s" "btree_ready s1" "btree_clock s1 \<le> btree_clock s + 2"
    by (rule put_append_op [where junk = junk and env = env])
  note eq = same_but_btree [OF s1(1)]
  have "durable s1" using d eq by (simp add: durable_def)
  from append_put_durable [OF this _ _ env, of key v] c(1) eq
  have "durable (append_op env (s1\<lparr>entries := kv_put_internal (entries s) key v\<rparr>) (LogPut key v))"
    by (simp add: CmdPut)
  then show ?thesis using p s1 CmdPut eq by simp
next
  case CmdCheckpoint
  have "durable (kv_snapshot env s)" "entries (kv_snapshot env s) = entries s"
    "btree_ready (kv_snapshot env s)" "btree_clock (kv_snapshot env s) = btree_clock s"
    using d snapshot_durable [OF _ env, of s] ready
    by (simp_all add: kv_snapshot_def durable_def kv_snapshot_internal_def btree_ready_def btree_clock_def Let_def)
  then show ?thesis using CmdCheckpoint by simp
qed (use c in simp)

lemma run_durable:
  assumes "durable s" and "btree_ready s" and "btree_clock s + 2 * int (length cs) < 0x7FFFFFFD"
    and "\<forall>c \<in> set cs. cmd_ok c \<and> (\<forall>key. c \<noteq> CmdDelete key)" and "tmp_ok env"
  shows "\<exists>s'. kv_run junk env cs s = Some s' \<and> durable s' \<and> length (entries s') = length (entries s)"
  using assms
proof (induction cs arbitrary: s)
  case Nil
  then show ?case by simp
next
  case (Cons c cs)
  have "btree_clock s < 0x7FFFFFFD" "cmd_ok c" "\<And>key. c \<noteq> CmdDelete key"
    using Cons.prems by auto
  from exec_durable [OF Cons.prems(1,2) this Cons.prems(5), of junk] obtain s' where
    s': "kv_exec junk env c s = Some s'" "durable s'" "btree_ready s'" "btree_clock s' \<le> btree_clock s + 2"
    "length (entries s') = length (entries s)" by blast
  have "\<exists>s''. kv_run junk env cs s' = Some s'' \<and> durable s'' \<and> length (entries s'') = length (entries s')"
    using s' Cons.prems by (intro Cons.IH) auto
  with s' show ?case by simp
qed

lemma fresh_exact:
  assumes "entries s = replicate n free_entry" "log_open s" "snap_file s = None" "log_file s = Some []"
  shows "exact s" and "n < 2147483648 \<Longrightarrow> durable s"
proof -
  have l: "logged s [] (entries s)"
    using assms by (simp add: logged_def log_bytes_def load_snapshot_def)
  then show "exact s" unfolding exact_def by (intro exI [of _ "[]"] exI) auto
  assume "n < 2147483648"
  moreover have "live (replicate n free_entry) = []" by (auto simp: live_def filter_empty_conv free_entry_def)
  ultimately have "storable (entries s)" by (simp add: storable_def empty_reach assms(1))
  with l show "durable s" unfolding durable_def
    by (intro conjI exI [of _ "[]"] exI [of _ "entries s"]) (auto simp: assms(1) empty_reach)
qed

section \<open>Properties\<close>

text \<open>A restart: the same capacity, an empty table, the files as they were left.\<close>

definition restarted :: "kv_store \<Rightarrow> kv_store \<Rightarrow> bool" where
  "restarted s r \<longleftrightarrow> entries r = replicate (length (entries s)) free_entry \<and>
     snap_file r = snap_file s \<and> log_file r = log_file s"

text \<open>Crash recovery without checkpoints. From the first start, after any puts and deletes
  whose log stays below the checkpoint threshold, all of them have returned, and replaying the
  files into an empty table gives back exactly the table in memory, slot by slot, including what
  the deletes did to it.\<close>

theorem recovery_is_exact:
  assumes "kv_create junk n None None None = Some s" and "\<forall>c \<in> set cs. cmd_ok c \<and> c \<noteq> CmdCheckpoint"
    and "int (sum_list (map cmd_log cs)) \<le> threshold env" and "2 * length cs < 0x7FFFFFF0"
  shows "\<exists>s'. kv_run junk env cs s = Some s' \<and>
    (\<forall>r. restarted s' r \<longrightarrow> kv_recover r = Some (r\<lparr>entries := entries s'\<rparr>))"
proof -
  obtain s0 where c: "kv_create junk n None None None = Some s0" "entries s0 = replicate n free_entry"
    "btree_ready s0" "btree_clock s0 = 1" "table_rows (btree_table s0) = []"
    "log_open s0" "log_size s0 = 0" "snap_file s0 = None" "log_file s0 = Some []" by (rule kv_create_fresh)
  then have s: "s0 = s" using assms(1) by simp
  have "exact s" using fresh_exact(1) c s by blast
  from run_exact [OF this, of cs env junk] assms c s obtain s' where
    s': "kv_run junk env cs s = Some s'" "exact s'" by auto
  from s'(2) obtain ops base where l: "logged s' ops base" "fold op_apply ops base = entries s'"
    by (auto simp: exact_def)
  from logged_recovers [OF l(1)] l(2) s'(1) show ?thesis by (simp add: restarted_def kv_recover_def)
qed

theorem recovery_is_exact_witness:
  "\<exists>s s'. kv_create [] 4 None None None = Some s \<and>
     kv_run [] small_env [CmdPut ''ab'' \<lparr>val_data = [1], val_type = 1\<rparr>, CmdDelete ''ab''] s = Some s' \<and>
     (\<forall>r. restarted s' r \<longrightarrow> kv_recover r = Some (r\<lparr>entries := entries s'\<rparr>))"
proof -
  obtain s where s: "kv_create [] 4 None None None = Some s" by (rule kv_create_fresh)
  from recovery_is_exact [OF s, of "[CmdPut ''ab'' \<lparr>val_data = [1], val_type = 1\<rparr>, CmdDelete ''ab'']" small_env] s
  show ?thesis by (simp add: key_ok_def val_ok_def put_record_def delete_record_def small_env_def)
qed

text \<open>C1: Crash recovery with checkpoints. From the first start, after any puts and checkpoints
  (asked for, or triggered by the log size), all of them have returned, and what \<open>kv_recover\<close>
  reads from the snapshot and the log has the same value for every key as the store had.\<close>

theorem recovery_keeps_map:
  assumes "kv_create junk n None None None = Some s" and "n < 2147483648"
    and "\<forall>c \<in> set cs. cmd_ok c \<and> (\<forall>key. c \<noteq> CmdDelete key)"
    and "tmp_ok env" and "2 * length cs < 0x7FFFFFF0"
  shows "\<exists>s'. kv_run junk env cs s = Some s' \<and>
    (\<forall>r. restarted s' r \<longrightarrow> (\<exists>r'. kv_recover r = Some r' \<and> kv_reach (entries r') \<and>
       (\<forall>\<kappa>. kv_get r' \<kappa> = kv_get s' \<kappa>)))"
proof -
  obtain s0 where c: "kv_create junk n None None None = Some s0" "entries s0 = replicate n free_entry"
    "btree_ready s0" "btree_clock s0 = 1" "table_rows (btree_table s0) = []"
    "log_open s0" "log_size s0 = 0" "snap_file s0 = None" "log_file s0 = Some []" by (rule kv_create_fresh)
  then have s: "s0 = s" using assms(1) by simp
  have "durable s" using fresh_exact(2) c s assms(2) by blast
  from run_durable [OF this, of cs env junk] assms c s obtain s' where
    s': "kv_run junk env cs s = Some s'" "durable s'" by auto
  from s'(2) obtain ops base where l: "logged s' ops base" "kv_reach (fold op_apply ops base)"
    "same_map (fold op_apply ops base) (entries s')" by (auto simp: durable_def)
  from logged_recovers [OF l(1)] l(2,3) s'(1) show ?thesis
    by (simp add: restarted_def kv_recover_def kv_get_def same_map_def)
qed

theorem recovery_keeps_map_witness:
  "\<exists>s s'. kv_create [] 4 None None None = Some s \<and>
     kv_run [] (small_env\<lparr>threshold := 1\<rparr>) [CmdPut ''ab'' \<lparr>val_data = [1], val_type = 1\<rparr>, CmdCheckpoint] s = Some s' \<and>
     (\<forall>r. restarted s' r \<longrightarrow> (\<exists>r'. kv_recover r = Some r' \<and> kv_get r' ''ab'' = kv_get s' ''ab''))"
proof -
  obtain s where s: "kv_create [] 4 None None None = Some s" by (rule kv_create_fresh)
  from recovery_keeps_map [OF s, of "[CmdPut ''ab'' \<lparr>val_data = [1], val_type = 1\<rparr>, CmdCheckpoint]" "small_env\<lparr>threshold := 1\<rparr>"] s
  show ?thesis by (simp add: key_ok_def val_ok_def small_env_def) blast
qed

end
