(* ===== verification/TxnManager.thy ===== *)
theory TxnManager
  imports KVStore
begin

text \<open>
  \<open>src/transaction.c\<close>: the single-user transaction manager with its undo log. The manager
  \<open>g_txn_manager\<close> and the store are explicit states; every function returns the code's \<open>int\<close> with
  the new states. Lists stand for the linked lists, newest first, so \<open>op->next\<close> is the tail.
  Memory is not exhausted (\<open>malloc\<close> succeeds). The interface \<open>kv_backend\<close> states what undo needs
  of a store: that an insert, an update and a delete can each be taken back; it is interpreted
  on the store of \<open>KVStore\<close>.
\<close>

section \<open>Data\<close>

datatype txn_state = TXN_STATE_NONE | TXN_STATE_ACTIVE | TXN_STATE_COMMITTED | TXN_STATE_ABORTED

datatype txn_op_type =
    TXN_OP_INSERT | TXN_OP_DELETE | TXN_OP_UPDATE
  | TXN_OP_CREATE_TABLE | TXN_OP_DROP_TABLE | TXN_OP_CREATE_INDEX

record txn_operation =
  op_type :: txn_op_type
  op_table :: "string option"
  op_row_key :: "string option"
  old_value :: "bytes option"
  schema_json :: "string option"

record savepoint =
  sp_name :: string
  sp_operation_count :: int

record transaction =
  txn_id :: u64
  txn_state :: txn_state
  start_time :: int
  user :: string
  database :: string
  operations :: "txn_operation list"
  operation_count :: int
  savepoints :: "savepoint list"
  inserts :: int
  deletes :: int
  updates :: int

record txn_manager =
  current_txn :: "transaction option"
  next_txn_id :: u64
  auto_commit :: bool
  total_commits :: u64
  total_rollbacks :: u64
  total_transactions :: u64

section \<open>The manager\<close>

definition create_operation :: "txn_op_type \<Rightarrow> string option \<Rightarrow> string option \<Rightarrow> bytes option \<Rightarrow> txn_operation" where
  "create_operation t tbl key old =
     \<lparr>op_type = t, op_table = tbl, op_row_key = key,
      old_value = (case old of Some v \<Rightarrow> if length v > 0 then Some v else None | None \<Rightarrow> None),
      schema_json = None\<rparr>"

definition txn_manager_init :: "txn_manager \<Rightarrow> txn_manager" where
  "txn_manager_init m =
     \<lparr>current_txn = None, next_txn_id = 1, auto_commit = True,
      total_commits = 0, total_rollbacks = 0, total_transactions = 0\<rparr>"

definition txn_manager_destroy :: "txn_manager \<Rightarrow> txn_manager" where
  "txn_manager_destroy m =
     (case current_txn m of Some t \<Rightarrow> m\<lparr>current_txn := None\<rparr> | None \<Rightarrow> m)"

definition txn_is_auto_commit :: "txn_manager \<Rightarrow> bool" where
  "txn_is_auto_commit m = auto_commit m"

definition txn_set_auto_commit :: "bool \<Rightarrow> txn_manager \<Rightarrow> txn_manager" where
  "txn_set_auto_commit enabled m =
     (if current_txn m \<noteq> None \<and> \<not> enabled then m else m\<lparr>auto_commit := enabled\<rparr>)"

definition txn_begin :: "int \<Rightarrow> string option \<Rightarrow> string option \<Rightarrow> txn_manager \<Rightarrow> int \<times> txn_manager" where
  "txn_begin now usr db m =
     (if current_txn m \<noteq> None then (-1, m)
      else
        let txn = \<lparr>txn_id = next_txn_id m, txn_state = TXN_STATE_ACTIVE, start_time = now,
              user = (case usr of Some u \<Rightarrow> u | None \<Rightarrow> ''unknown''),
              database = (case db of Some d \<Rightarrow> d | None \<Rightarrow> ''public''),
              operations = [], operation_count = 0, savepoints = [],
              inserts = 0, deletes = 0, updates = 0\<rparr>
        in (0, m\<lparr>current_txn := Some txn, next_txn_id := next_txn_id m + 1,
                 total_transactions := total_transactions m + 1, auto_commit := False\<rparr>))"

definition txn_commit :: "txn_manager \<Rightarrow> int \<times> txn_manager" where
  "txn_commit m =
     (case current_txn m of
        None \<Rightarrow> (-1, m)
      | Some txn \<Rightarrow>
          if txn_state txn \<noteq> TXN_STATE_ACTIVE then (-1, m)
          else (0, m\<lparr>total_commits := total_commits m + 1, current_txn := None, auto_commit := True\<rparr>))"

definition txn_is_active :: "txn_manager \<Rightarrow> bool" where
  "txn_is_active m =
     (case current_txn m of None \<Rightarrow> False | Some t \<Rightarrow> txn_state t = TXN_STATE_ACTIVE)"

definition txn_get_state :: "txn_manager \<Rightarrow> txn_state" where
  "txn_get_state m = (case current_txn m of None \<Rightarrow> TXN_STATE_NONE | Some t \<Rightarrow> txn_state t)"

definition txn_get_id :: "txn_manager \<Rightarrow> u64" where
  "txn_get_id m = (case current_txn m of None \<Rightarrow> 0 | Some t \<Rightarrow> txn_id t)"

text \<open>\<open>snprintf\<close> into \<open>size\<close> bytes keeps \<open>size - 1\<close> characters.\<close>

definition txn_get_stats :: "nat \<Rightarrow> txn_manager \<Rightarrow> string" where
  "txn_get_stats size_bytes m = take (size_bytes - 1)
     (''Transactions: '' @ show_nat (unat (total_transactions m)) @ '' total, '' @
      show_nat (unat (total_commits m)) @ '' committed, '' @
      show_nat (unat (total_rollbacks m)) @ '' rolled back'' @ [CHR 0x0A] @
      ''Auto-commit: '' @ (if auto_commit m then ''ON'' else ''OFF'') @ [CHR 0x0A] @
      ''Active: '' @ (if current_txn m \<noteq> None then ''YES'' else ''NO'') @
      '' (ID: '' @ show_nat (unat (txn_get_id m)) @ '')'')"

section \<open>Undo\<close>

abbreviation row_value :: "bytes \<Rightarrow> kv_value" where
  "row_value bs \<equiv> \<lparr>val_data = bs, val_type = VAL_TYPE_ROW\<rparr>"

definition schema_key :: "string \<Rightarrow> string \<Rightarrow> string" where
  "schema_key db tbl = take 511 (''DB:'' @ db @ '':META:TBL:'' @ tbl)"

definition restore_old :: "bytes \<Rightarrow> kv_env \<Rightarrow> txn_operation \<Rightarrow> kv_store \<Rightarrow> kv_store option" where
  "restore_old junk env op store =
     (case (op_row_key op, old_value op) of
        (Some key, Some old) \<Rightarrow> kv_put junk env store key (row_value old)
      | _ \<Rightarrow> Some store)"

text \<open>One turn of the loop of \<open>txn_rollback\<close>.\<close>

definition undo_operation :: "bytes \<Rightarrow> kv_env \<Rightarrow> string \<Rightarrow> txn_operation \<Rightarrow> kv_store \<Rightarrow> kv_store option" where
  "undo_operation junk env db op store =
     (case op_type op of
        TXN_OP_INSERT \<Rightarrow>
          (case op_row_key op of Some key \<Rightarrow> Some (kv_delete env store key) | None \<Rightarrow> Some store)
      | TXN_OP_DELETE \<Rightarrow> restore_old junk env op store
      | TXN_OP_UPDATE \<Rightarrow> restore_old junk env op store
      | TXN_OP_CREATE_TABLE \<Rightarrow>
          (case op_table op of
             Some tbl \<Rightarrow> Some (kv_delete env store (schema_key db tbl))
           | None \<Rightarrow> Some store)
      | TXN_OP_DROP_TABLE \<Rightarrow>
          (case (op_table op, schema_json op) of
             (Some tbl, Some json) \<Rightarrow>
               kv_put junk env store (schema_key db tbl)
                 \<lparr>val_data = bytes_of json @ [0], val_type = VAL_TYPE_SCHEMA\<rparr>
           | _ \<Rightarrow> Some store)
      | TXN_OP_CREATE_INDEX \<Rightarrow> Some store)"

fun undo_all :: "bytes \<Rightarrow> kv_env \<Rightarrow> string \<Rightarrow> txn_operation list \<Rightarrow> kv_store \<Rightarrow> kv_store option" where
  "undo_all junk env db [] store = Some store"
| "undo_all junk env db (op # ops) store =
     (case undo_operation junk env db op store of
        None \<Rightarrow> None
      | Some store \<Rightarrow> undo_all junk env db ops store)"

text \<open>No case of the enumeration counts an undo error, so the result is 0.\<close>

definition txn_rollback :: "bytes \<Rightarrow> kv_env \<Rightarrow> txn_manager \<Rightarrow> kv_store \<Rightarrow> (int \<times> txn_manager \<times> kv_store) option" where
  "txn_rollback junk env m store =
     (case current_txn m of
        None \<Rightarrow> Some (-1, m, store)
      | Some txn \<Rightarrow>
          if txn_state txn \<noteq> TXN_STATE_ACTIVE then Some (-1, m, store)
          else
            (case undo_all junk env (database txn) (operations txn) store of
               None \<Rightarrow> None
             | Some store \<Rightarrow>
                 Some (0, m\<lparr>total_rollbacks := total_rollbacks m + 1, current_txn := None,
                            auto_commit := True\<rparr>, store)))"

section \<open>Savepoints\<close>

definition txn_savepoint :: "string option \<Rightarrow> txn_manager \<Rightarrow> int \<times> txn_manager" where
  "txn_savepoint name m =
     (case current_txn m of
        None \<Rightarrow> (-1, m)
      | Some txn \<Rightarrow>
          if txn_state txn \<noteq> TXN_STATE_ACTIVE then (-1, m)
          else
            (case name of
               None \<Rightarrow> (-1, m)
             | Some nm \<Rightarrow>
                 if length nm = 0 then (-1, m)
                 else if \<exists>sp \<in> set (savepoints txn). strcmp (sp_name sp) nm = 0 then (-1, m)
                 else
                   let sp = \<lparr>sp_name = nm, sp_operation_count = operation_count txn\<rparr>
                   in (0, m\<lparr>current_txn := Some (txn\<lparr>savepoints := sp # savepoints txn\<rparr>)\<rparr>)))"

text \<open>The undo of \<open>txn_rollback_to_savepoint\<close>: another key for schemas, and nothing for a
  dropped table or an index.\<close>

definition undo_operation_partial :: "bytes \<Rightarrow> kv_env \<Rightarrow> txn_operation \<Rightarrow> kv_store \<Rightarrow> kv_store option" where
  "undo_operation_partial junk env op store =
     (case op_type op of
        TXN_OP_INSERT \<Rightarrow>
          (case op_row_key op of Some key \<Rightarrow> Some (kv_delete env store key) | None \<Rightarrow> Some store)
      | TXN_OP_DELETE \<Rightarrow> restore_old junk env op store
      | TXN_OP_UPDATE \<Rightarrow> restore_old junk env op store
      | TXN_OP_CREATE_TABLE \<Rightarrow>
          (case op_table op of
             Some tbl \<Rightarrow> Some (kv_delete env store (take 255 (''__schema__'' @ tbl)))
           | None \<Rightarrow> Some store)
      | TXN_OP_DROP_TABLE \<Rightarrow> Some store
      | TXN_OP_CREATE_INDEX \<Rightarrow> Some store)"

fun undo_until :: "bytes \<Rightarrow> kv_env \<Rightarrow> int \<Rightarrow> txn_operation list \<Rightarrow> int \<Rightarrow> kv_store \<Rightarrow>
    (txn_operation list \<times> int \<times> kv_store) option" where
  "undo_until junk env target [] n store = Some ([], n, store)"
| "undo_until junk env target (op # ops) n store =
     (if n > target then
        (case undo_operation_partial junk env op store of
           None \<Rightarrow> None
         | Some store \<Rightarrow> undo_until junk env target ops (n - 1) store)
      else Some (op # ops, n, store))"

definition txn_rollback_to_savepoint ::
    "bytes \<Rightarrow> kv_env \<Rightarrow> string \<Rightarrow> txn_manager \<Rightarrow> kv_store \<Rightarrow> (int \<times> txn_manager \<times> kv_store) option" where
  "txn_rollback_to_savepoint junk env name m store =
     (case current_txn m of
        None \<Rightarrow> Some (-1, m, store)
      | Some txn \<Rightarrow>
          if txn_state txn \<noteq> TXN_STATE_ACTIVE then Some (-1, m, store)
          else
            (case dropWhile (\<lambda>sp. strcmp (sp_name sp) name \<noteq> 0) (savepoints txn) of
               [] \<Rightarrow> Some (-1, m, store)
             | sp # older \<Rightarrow>
                 (case undo_until junk env (sp_operation_count sp) (operations txn) (operation_count txn) store of
                    None \<Rightarrow> None
                  | Some (ops, n, store) \<Rightarrow>
                      Some (0, m\<lparr>current_txn := Some (txn\<lparr>operations := ops, operation_count := n,
                                  savepoints := sp # older\<rparr>)\<rparr>, store))))"

fun remove_savepoint :: "string \<Rightarrow> savepoint list \<Rightarrow> savepoint list option" where
  "remove_savepoint name [] = None"
| "remove_savepoint name (sp # sps) =
     (if strcmp (sp_name sp) name = 0 then Some sps
      else (case remove_savepoint name sps of None \<Rightarrow> None | Some r \<Rightarrow> Some (sp # r)))"

definition txn_release_savepoint :: "string \<Rightarrow> txn_manager \<Rightarrow> int \<times> txn_manager" where
  "txn_release_savepoint name m =
     (case current_txn m of
        None \<Rightarrow> (-1, m)
      | Some txn \<Rightarrow>
          if txn_state txn \<noteq> TXN_STATE_ACTIVE then (-1, m)
          else
            (case remove_savepoint name (savepoints txn) of
               None \<Rightarrow> (-1, m)
             | Some sps \<Rightarrow> (0, m\<lparr>current_txn := Some (txn\<lparr>savepoints := sps\<rparr>)\<rparr>)))"

section \<open>Logging\<close>

text \<open>The shape all six functions share: the guard, then the push.\<close>

definition log_operation :: "(transaction \<Rightarrow> transaction) \<Rightarrow> txn_operation \<Rightarrow> txn_manager \<Rightarrow> txn_manager" where
  "log_operation stat op m =
     (case current_txn m of
        None \<Rightarrow> m
      | Some txn \<Rightarrow>
          if txn_state txn \<noteq> TXN_STATE_ACTIVE then m
          else m\<lparr>current_txn := Some (stat (txn\<lparr>operations := op # operations txn,
                   operation_count := operation_count txn + 1\<rparr>))\<rparr>)"

definition txn_log_insert :: "string \<Rightarrow> string \<Rightarrow> txn_manager \<Rightarrow> txn_manager" where
  "txn_log_insert tbl key =
     log_operation (\<lambda>txn :: transaction. txn\<lparr>inserts := inserts txn + 1\<rparr>)
       (create_operation TXN_OP_INSERT (Some tbl) (Some key) None)"

definition txn_log_delete :: "string \<Rightarrow> string \<Rightarrow> bytes \<Rightarrow> txn_manager \<Rightarrow> txn_manager" where
  "txn_log_delete tbl key old =
     log_operation (\<lambda>txn :: transaction. txn\<lparr>deletes := deletes txn + 1\<rparr>)
       (create_operation TXN_OP_DELETE (Some tbl) (Some key) (Some old))"

definition txn_log_update :: "string \<Rightarrow> string \<Rightarrow> bytes \<Rightarrow> txn_manager \<Rightarrow> txn_manager" where
  "txn_log_update tbl key old =
     log_operation (\<lambda>txn :: transaction. txn\<lparr>updates := updates txn + 1\<rparr>)
       (create_operation TXN_OP_UPDATE (Some tbl) (Some key) (Some old))"

definition txn_log_create_table :: "string \<Rightarrow> string option \<Rightarrow> txn_manager \<Rightarrow> txn_manager" where
  "txn_log_create_table tbl json =
     log_operation (\<lambda>txn :: transaction. txn)
       ((create_operation TXN_OP_CREATE_TABLE (Some tbl) None None)\<lparr>schema_json := json\<rparr>)"

definition txn_log_drop_table :: "string \<Rightarrow> string option \<Rightarrow> string option \<Rightarrow> txn_manager \<Rightarrow> txn_manager" where
  "txn_log_drop_table tbl json rows =
     log_operation (\<lambda>txn :: transaction. txn)
       ((create_operation TXN_OP_DROP_TABLE (Some tbl) None None)\<lparr>schema_json := json,
          old_value := map_option bytes_of rows\<rparr>)"

definition txn_log_create_index :: "string \<Rightarrow> string \<Rightarrow> txn_manager \<Rightarrow> txn_manager" where
  "txn_log_create_index tbl col =
     log_operation (\<lambda>txn :: transaction. txn)
       (create_operation TXN_OP_CREATE_INDEX (Some tbl) (Some col) None)"

section \<open>The manager as a state machine\<close>

text \<open>Every call of the interface, on the manager and the store.\<close>

inductive txn_step :: "txn_manager \<times> kv_store \<Rightarrow> txn_manager \<times> kv_store \<Rightarrow> bool" where
  begin_txn: "txn_begin now usr db m = (r, m') \<Longrightarrow> txn_step (m, s) (m', s)"
| commit: "txn_commit m = (r, m') \<Longrightarrow> txn_step (m, s) (m', s)"
| rollback: "txn_rollback junk env m s = Some (r, m', s') \<Longrightarrow> txn_step (m, s) (m', s')"
| savepoint: "txn_savepoint nm m = (r, m') \<Longrightarrow> txn_step (m, s) (m', s)"
| rollback_to: "txn_rollback_to_savepoint junk env nm m s = Some (r, m', s') \<Longrightarrow> txn_step (m, s) (m', s')"
| release: "txn_release_savepoint nm m = (r, m') \<Longrightarrow> txn_step (m, s) (m', s)"
| log_insert: "txn_step (m, s) (txn_log_insert tbl key m, s)"
| log_delete: "txn_step (m, s) (txn_log_delete tbl key old m, s)"
| log_update: "txn_step (m, s) (txn_log_update tbl key old m, s)"
| log_create_table: "txn_step (m, s) (txn_log_create_table tbl json m, s)"
| log_drop_table: "txn_step (m, s) (txn_log_drop_table tbl json rows m, s)"
| log_create_index: "txn_step (m, s) (txn_log_create_index tbl col m, s)"
| set_auto_commit: "txn_step (m, s) (txn_set_auto_commit b m, s)"
| store_change: "txn_step (m, s) (m, s')"

inductive txn_reachable :: "txn_manager \<times> kv_store \<Rightarrow> bool" where
  init: "txn_reachable (txn_manager_init m, s)"
| step: "txn_reachable c \<Longrightarrow> txn_step c c' \<Longrightarrow> txn_reachable c'"

inductive_cases txn_stepE: "txn_step (m, s) (m', s')"

text \<open>The savepoints, newest first, mark depths of the undo log that never increase downwards.\<close>

definition txn_wf :: "transaction \<Rightarrow> bool" where
  "txn_wf t \<longleftrightarrow> txn_state t = TXN_STATE_ACTIVE \<and> operation_count t = int (length (operations t)) \<and>
     sorted_wrt (\<lambda>a b. sp_operation_count b \<le> sp_operation_count a) (savepoints t) \<and>
     (\<forall>sp \<in> set (savepoints t). 0 \<le> sp_operation_count sp \<and> sp_operation_count sp \<le> operation_count t) \<and>
     distinct (map sp_name (savepoints t)) \<and> [] \<notin> sp_name ` set (savepoints t)"

definition manager_wf :: "txn_manager \<Rightarrow> bool" where
  "manager_wf m \<longleftrightarrow>
     (case current_txn m of None \<Rightarrow> True | Some t \<Rightarrow> txn_wf t \<and> txn_id t = total_transactions m) \<and>
     next_txn_id m = total_transactions m + 1 \<and>
     total_transactions m = total_commits m + total_rollbacks m + (if current_txn m = None then 0 else 1)"

lemma log_operation_wf:
  assumes "manager_wf m" and "\<And>t. txn_wf t \<Longrightarrow> txn_wf (stat t) \<and> txn_id (stat t) = txn_id t"
  shows "manager_wf (log_operation stat op m)"
proof (cases "current_txn m")
  case None
  then show ?thesis using assms(1) by (simp add: log_operation_def)
next
  case (Some t)
  let ?t = "t\<lparr>operations := op # operations t, operation_count := operation_count t + 1\<rparr>"
  have "txn_wf t" "txn_id t = total_transactions m" using assms(1) Some by (auto simp: manager_wf_def)
  then have "txn_wf ?t" by (auto simp: txn_wf_def)
  with assms(2) [of ?t] \<open>txn_id t = _\<close> have "txn_wf (stat ?t) \<and> txn_id (stat ?t) = total_transactions m" by simp
  then show ?thesis using assms(1) Some by (simp add: log_operation_def manager_wf_def)
qed

lemma undo_until_spec:
  "undo_until junk env target ops n s = Some (ops', n', s') \<Longrightarrow> n = int (length ops) \<Longrightarrow> 0 \<le> target \<Longrightarrow>
   n' = int (length ops') \<and> (\<exists>k. ops' = drop k ops) \<and> n' = min n target"
proof (induction ops arbitrary: n s)
  case Nil
  then show ?case by simp
next
  case (Cons op ops)
  show ?case
  proof (cases "n > target")
    case True
    then obtain s2 where "undo_until junk env target ops (n - 1) s2 = Some (ops', n', s')"
      using Cons.prems(1) by (auto split: option.splits)
    moreover have "n - 1 = int (length ops)" using Cons.prems(2) by simp
    ultimately have ih: "n' = int (length ops') \<and> (\<exists>k. ops' = drop k ops) \<and> n' = min (n - 1) target"
      using Cons.IH Cons.prems(3) by blast
    then obtain k where "ops' = drop (Suc k) (op # ops)" by auto
    show ?thesis
    proof (intro conjI exI)
      show "ops' = drop (Suc k) (op # ops)" by fact
    qed (use ih True in \<open>auto simp: min_def\<close>)
  next
    case False
    then have "ops' = op # ops" "n' = n" using Cons.prems(1) by auto
    moreover have "drop 0 (op # ops) = op # ops" by simp
    ultimately show ?thesis using False Cons.prems(2) by (metis linorder_not_less min.absorb1)
  qed
qed

lemma manager_wf_current:
  assumes "manager_wf m" and "current_txn m = Some t" and "txn_wf t'" and "txn_id t' = txn_id t"
  shows "manager_wf (m\<lparr>current_txn := Some t'\<rparr>)"
  using assms by (simp add: manager_wf_def)

lemma manager_wf_end:
  assumes "manager_wf m" and "current_txn m = Some t"
  shows "manager_wf (m\<lparr>total_commits := total_commits m + 1, current_txn := None, auto_commit := True\<rparr>)"
    and "manager_wf (m\<lparr>total_rollbacks := total_rollbacks m + 1, current_txn := None, auto_commit := True\<rparr>)"
  using assms by (simp_all add: manager_wf_def)

lemma remove_savepoint_spec:
  "remove_savepoint name sps = Some r \<Longrightarrow> \<exists>as sp bs. sps = as @ sp # bs \<and> r = as @ bs \<and> sp_name sp = name"
proof (induction sps arbitrary: r)
  case Nil
  then show ?case by simp
next
  case (Cons sp sps)
  show ?case
  proof (cases "sp_name sp = name")
    case True
    then show ?thesis using Cons.prems by (intro exI [of _ "[]"] exI [of _ sp] exI [of _ sps]) auto
  next
    case False
    then obtain r' where "remove_savepoint name sps = Some r'" "r = sp # r'"
      using Cons.prems by (auto split: option.splits)
    with Cons.IH obtain as sp' bs where "sps = as @ sp' # bs" "r' = as @ bs" "sp_name sp' = name" by blast
    with \<open>r = sp # r'\<close> show ?thesis by (intro exI [of _ "sp # as"] exI [of _ sp'] exI [of _ bs]) auto
  qed
qed

lemma txn_wf_fewer:
  assumes "txn_wf t" and "savepoints t = as @ sp # bs"
  shows "txn_wf (t\<lparr>savepoints := as @ bs\<rparr>)"
  using assms by (auto simp: txn_wf_def sorted_wrt_append)

lemma txn_wf_cut:
  assumes "txn_wf t" and "savepoints t = as @ sp # bs" and "length ops = nat (sp_operation_count sp)"
  shows "txn_wf (t\<lparr>operations := ops, operation_count := sp_operation_count sp, savepoints := sp # bs\<rparr>)"
  using assms by (auto simp: txn_wf_def sorted_wrt_append)

lemma begin_wf: "manager_wf m \<Longrightarrow> manager_wf (snd (txn_begin now usr db m))"
proof (cases "current_txn m")
  case None
  then show "manager_wf m \<Longrightarrow> ?thesis" by (simp add: txn_begin_def manager_wf_def txn_wf_def Let_def)
next
  case (Some t)
  then show "manager_wf m \<Longrightarrow> ?thesis" by (simp add: txn_begin_def)
qed

lemma commit_wf: "manager_wf m \<Longrightarrow> manager_wf (snd (txn_commit m))"
  by (auto simp: txn_commit_def manager_wf_end split: option.split)

lemma rollback_wf: "manager_wf m \<Longrightarrow> txn_rollback junk env m s = Some (r, m', s') \<Longrightarrow> manager_wf m'"
  by (auto simp: txn_rollback_def manager_wf_end split: option.splits if_splits)

lemma savepoint_wf:
  assumes "manager_wf m"
  shows "manager_wf (snd (txn_savepoint nm m))"
proof -
  have "txn_wf (t\<lparr>savepoints := \<lparr>sp_name = n, sp_operation_count = operation_count t\<rparr> # savepoints t\<rparr>)"
    if "txn_wf t" "n \<noteq> []" "\<forall>sp \<in> set (savepoints t). sp_name sp \<noteq> n" for t n
    using that by (auto simp: txn_wf_def)
  with assms show ?thesis
    by (auto simp: txn_savepoint_def manager_wf_def Let_def split: option.splits)
qed

lemma rollback_to_wf:
  assumes "manager_wf m" and "txn_rollback_to_savepoint junk env nm m s = Some (r, m', s')"
  shows "manager_wf m'"
proof (cases "m' = m")
  case True
  then show ?thesis using assms(1) by simp
next
  case False
  then obtain t sp older ops n where t: "current_txn m = Some t"
    and sp: "dropWhile (\<lambda>sp. strcmp (sp_name sp) nm \<noteq> 0) (savepoints t) = sp # older"
    and u: "undo_until junk env (sp_operation_count sp) (operations t) (operation_count t) s = Some (ops, n, s')"
    and m': "m' = m\<lparr>current_txn := Some (t\<lparr>operations := ops, operation_count := n, savepoints := sp # older\<rparr>)\<rparr>"
    using assms(2) by (auto simp: txn_rollback_to_savepoint_def split: option.splits if_splits list.splits)
  have wf: "txn_wf t" using assms(1) t by (simp add: manager_wf_def)
  obtain as where sps: "savepoints t = as @ sp # older"
    using sp by (metis takeWhile_dropWhile_id)
  then have range: "0 \<le> sp_operation_count sp" "sp_operation_count sp \<le> operation_count t"
    using wf by (auto simp: txn_wf_def)
  have "n = sp_operation_count sp" "n = int (length ops)"
    using undo_until_spec [OF u] wf range by (auto simp: txn_wf_def)
  then have "txn_wf (t\<lparr>operations := ops, operation_count := n, savepoints := sp # older\<rparr>)"
    using txn_wf_cut [OF wf sps, of ops] by simp
  then show ?thesis using manager_wf_current [OF assms(1) t] m' by simp
qed

lemma release_wf:
  assumes "manager_wf m"
  shows "manager_wf (snd (txn_release_savepoint nm m))"
proof -
  have "txn_wf (t\<lparr>savepoints := r\<rparr>)" if "txn_wf t" "remove_savepoint nm (savepoints t) = Some r" for t r
    using remove_savepoint_spec [OF that(2)] txn_wf_fewer [OF that(1)] by auto
  with assms show ?thesis
    by (auto simp: txn_release_savepoint_def manager_wf_def split: option.splits)
qed

lemma txn_wf_statistics [simp]:
  "txn_wf (t\<lparr>inserts := n\<rparr>) = txn_wf t" "txn_wf (t\<lparr>deletes := n\<rparr>) = txn_wf t" "txn_wf (t\<lparr>updates := n\<rparr>) = txn_wf t"
  by (simp_all add: txn_wf_def)

lemma log_wf:
  assumes "manager_wf m"
  shows "manager_wf (txn_log_insert tbl key m)" "manager_wf (txn_log_delete tbl key old m)"
    "manager_wf (txn_log_update tbl key old m)" "manager_wf (txn_log_create_table tbl json m)"
    "manager_wf (txn_log_drop_table tbl json rows m)" "manager_wf (txn_log_create_index tbl col m)"
  unfolding txn_log_insert_def txn_log_delete_def txn_log_update_def txn_log_create_table_def
    txn_log_drop_table_def txn_log_create_index_def
  by (rule log_operation_wf [OF assms], simp)+

lemma txn_step_wf:
  assumes "txn_step c c'" and "manager_wf (fst c)"
  shows "manager_wf (fst c')"
  using assms
proof cases
  case (begin_txn now usr db m r m' s)
  then show ?thesis using begin_wf [of m now usr db] assms(2) by simp
next
  case (commit m r m' s)
  then show ?thesis using commit_wf [of m] assms(2) by simp
next
  case (savepoint nm m r m' s)
  then show ?thesis using savepoint_wf [of m nm] assms(2) by simp
next
  case (release nm m r m' s)
  then show ?thesis using release_wf [of m nm] assms(2) by simp
next
  case (set_auto_commit m s b)
  then show ?thesis using assms(2)
    by (cases "current_txn m") (simp_all add: txn_set_auto_commit_def manager_wf_def)
next
  case (rollback junk env m s r m' s')
  then show ?thesis using rollback_wf assms(2) by simp
next
  case (rollback_to junk env nm m s r m' s')
  then show ?thesis using rollback_to_wf assms(2) by simp
qed (use assms(2) in \<open>simp_all add: log_wf\<close>)

lemma txn_reachable_wf: "txn_reachable c \<Longrightarrow> manager_wf (fst c)"
proof (induction rule: txn_reachable.induct)
  case (init m s)
  show ?case by (simp add: txn_manager_init_def manager_wf_def)
next
  case (step c c')
  then show ?case by (blast intro: txn_step_wf)
qed

section \<open>What undo needs of a store\<close>

datatype undo = UndoDel string | UndoPut string kv_value

locale kv_backend =
  fixes put :: "'s \<Rightarrow> string \<Rightarrow> kv_value \<Rightarrow> 's"
    and del :: "'s \<Rightarrow> string \<Rightarrow> 's"
    and look :: "'s \<Rightarrow> string \<Rightarrow> kv_value option"
    and same :: "'s \<Rightarrow> 's \<Rightarrow> bool"
  assumes same_refl: "same s s"
    and same_trans: "same s t \<Longrightarrow> same t u \<Longrightarrow> same s u"
    and put_cong: "same s t \<Longrightarrow> same (put s k v) (put t k v)"
    and del_cong: "same s t \<Longrightarrow> same (del s k) (del t k)"
    and undo_insert: "look s k = None \<Longrightarrow> same (del (put s k v) k) s"
    and undo_update: "look s k = Some old \<Longrightarrow> same (put (put s k v) k old) s"
    and undo_delete: "look s k = Some old \<Longrightarrow> same (put (del s k) k old) s"
begin

fun apply_undo :: "undo \<Rightarrow> 's \<Rightarrow> 's" where
  "apply_undo (UndoDel k) s = del s k"
| "apply_undo (UndoPut k v) s = put s k v"

text \<open>\<open>history s us s'\<close>: row operations lead from \<open>s\<close> to \<open>s'\<close>; \<open>us\<close> takes them back, newest first.\<close>

inductive history :: "'s \<Rightarrow> undo list \<Rightarrow> 's \<Rightarrow> bool" where
  start: "history s [] s"
| inserted: "history s us t \<Longrightarrow> look t k = None \<Longrightarrow> history s (UndoDel k # us) (put t k v)"
| updated: "history s us t \<Longrightarrow> look t k = Some old \<Longrightarrow> history s (UndoPut k old # us) (put t k v)"
| deleted: "history s us t \<Longrightarrow> look t k = Some old \<Longrightarrow> history s (UndoPut k old # us) (del t k)"

lemma apply_undo_cong: "same s t \<Longrightarrow> same (apply_undo u s) (apply_undo u t)"
  by (cases u) (auto intro: put_cong del_cong)

lemma fold_undo_cong: "same s t \<Longrightarrow> same (fold apply_undo us s) (fold apply_undo us t)"
  by (induction us arbitrary: s t) (auto intro: apply_undo_cong)

theorem undo_history: "history s us t \<Longrightarrow> same (fold apply_undo us t) s"
proof (induction rule: history.induct)
  case (start s)
  show ?case by (simp add: same_refl)
next
  case (inserted s us t k v)
  then show ?case using fold_undo_cong [OF undo_insert] same_trans by (simp add: comp_def) blast
next
  case (updated s us t k old v)
  then show ?case using fold_undo_cong [OF undo_update] same_trans by (simp add: comp_def) blast
next
  case (deleted s us t k old)
  then show ?case using fold_undo_cong [OF undo_delete] same_trans by (simp add: comp_def) blast
qed

lemma history_append: "history t us u \<Longrightarrow> history s vs t \<Longrightarrow> history s (us @ vs) u"
  by (induction rule: history.induct) (auto intro: history.intros)

end

definition store_sim :: "kv_store \<Rightarrow> kv_store \<Rightarrow> bool" where
  "store_sim s t \<longleftrightarrow> kv_sim (entries s) (entries t)"

interpretation kv: kv_backend "kv_put_locked env" "kv_delete env" kv_get store_sim for env
proof
  fix s t u :: kv_store and k :: string and v old :: kv_value
  show "store_sim s s" by (simp add: store_sim_def)
  show "store_sim s t \<Longrightarrow> store_sim t u \<Longrightarrow> store_sim s u" unfolding store_sim_def by (rule kv_sim_trans)
  show "store_sim s t \<Longrightarrow> store_sim (kv_put_locked env s k v) (kv_put_locked env t k v)"
    by (simp add: store_sim_def kv_sim_put)
  show "store_sim s t \<Longrightarrow> store_sim (kv_delete env s k) (kv_delete env t k)"
    by (simp add: store_sim_def kv_sim_clear)
  show "kv_get s k = None \<Longrightarrow> store_sim (kv_delete env (kv_put_locked env s k v) k) s"
    by (simp add: store_sim_def kv_get_def kv_undo_insert)
  show "kv_get s k = Some old \<Longrightarrow> store_sim (kv_put_locked env (kv_put_locked env s k v) k old) s"
    by (simp add: store_sim_def kv_get_def kv_undo_update)
  show "kv_get s k = Some old \<Longrightarrow> store_sim (kv_put_locked env (kv_delete env s k) k old) s"
    by (simp add: store_sim_def kv_get_def kv_undo_delete)
qed

section \<open>Row operations inside a transaction\<close>

text \<open>What the header asks of the caller: each row change is made and logged with the value it
  replaced. \<open>None\<close> marks a change the undo log cannot take back: a key the B+ tree also stores,
  or an old value that is empty (\<open>create_operation\<close> drops it) or not of type \<open>ROW\<close> (the undo
  stores it back as \<open>ROW\<close>).\<close>

datatype row_op = RowInsert string string kv_value | RowUpdate string string kv_value | RowDelete string string

definition plain_key :: "string \<Rightarrow> bool" where
  "plain_key key \<longleftrightarrow> take 4 key \<noteq> ''TBL:''"

definition old_row :: "kv_store \<Rightarrow> string \<Rightarrow> bytes option" where
  "old_row s key =
     (case kv_get s key of
        Some v \<Rightarrow> if val_type v = VAL_TYPE_ROW \<and> val_data v \<noteq> [] \<and> plain_key key then Some (val_data v) else None
      | None \<Rightarrow> None)"

fun do_row :: "bytes \<Rightarrow> kv_env \<Rightarrow> row_op \<Rightarrow> txn_manager \<times> kv_store \<Rightarrow> (txn_manager \<times> kv_store) option" where
  "do_row junk env (RowInsert tbl key v) (m, s) =
     (if kv_get s key = None \<and> plain_key key
      then map_option (\<lambda>s. (txn_log_insert tbl key m, s)) (kv_put junk env s key v) else None)"
| "do_row junk env (RowUpdate tbl key v) (m, s) =
     (case old_row s key of
        Some old \<Rightarrow> map_option (\<lambda>s. (txn_log_update tbl key old m, s)) (kv_put junk env s key v)
      | None \<Rightarrow> None)"
| "do_row junk env (RowDelete tbl key) (m, s) =
     (case old_row s key of
        Some old \<Rightarrow> Some (txn_log_delete tbl key old m, kv_delete env s key)
      | None \<Rightarrow> None)"

fun do_rows :: "bytes \<Rightarrow> kv_env \<Rightarrow> row_op list \<Rightarrow> txn_manager \<times> kv_store \<Rightarrow> (txn_manager \<times> kv_store) option" where
  "do_rows junk env [] c = Some c"
| "do_rows junk env (r # rs) c =
     (case do_row junk env r c of None \<Rightarrow> None | Some c \<Rightarrow> do_rows junk env rs c)"

lemma plain_put: "plain_key key \<Longrightarrow> kv_put junk env s key v = Some (kv_put_locked env s key v)"
  by (simp add: kv_put_def kv_put_btree_def btree_id_def plain_key_def)

lemma old_row_D: "old_row s key = Some old \<Longrightarrow>
    kv_get s key = Some (row_value old) \<and> old \<noteq> [] \<and> plain_key key"
  by (auto simp: old_row_def split: option.splits if_splits)

text \<open>A logged operation whose undo, full or partial, is the step \<open>u\<close>.\<close>

definition undone_by :: "bytes \<Rightarrow> kv_env \<Rightarrow> txn_operation \<Rightarrow> undo \<Rightarrow> bool" where
  "undone_by junk env op u \<longleftrightarrow>
     (\<forall>db s. undo_operation junk env db op s = Some (kv.apply_undo env u s) \<and>
             undo_operation_partial junk env op s = Some (kv.apply_undo env u s))"

lemma undone_insert: "undone_by junk env (create_operation TXN_OP_INSERT tbl (Some key) None) (UndoDel key)"
  by (simp add: undone_by_def undo_operation_def undo_operation_partial_def create_operation_def)

lemma undone_restore:
  "plain_key key \<Longrightarrow> old \<noteq> [] \<Longrightarrow> t = TXN_OP_UPDATE \<or> t = TXN_OP_DELETE \<Longrightarrow>
   undone_by junk env (create_operation t tbl (Some key) (Some old)) (UndoPut key (row_value old))"
  by (auto simp: undone_by_def undo_operation_def undo_operation_partial_def create_operation_def
      restore_old_def plain_put)

lemma undo_all_fold:
  "list_all2 (undone_by junk env) ops us \<Longrightarrow>
   undo_all junk env db (ops @ rest) s = undo_all junk env db rest (fold (kv.apply_undo env) us s)"
  by (induction ops us arbitrary: s rule: list_all2_induct) (auto simp: undone_by_def)

lemma undo_until_fold:
  "list_all2 (undone_by junk env) ops us \<Longrightarrow> n = target + int (length ops) \<Longrightarrow>
   undo_until junk env target (ops @ rest) n s = undo_until junk env target rest target (fold (kv.apply_undo env) us s)"
  by (induction ops us arbitrary: s n rule: list_all2_induct) (auto simp: undone_by_def)

lemma undo_until_done: "undo_until junk env target rest target s = Some (rest, target, s)"
  by (cases rest) auto

text \<open>Row operations only push onto the log of the active transaction.\<close>

definition pushed :: "transaction \<Rightarrow> txn_operation list \<Rightarrow> transaction \<Rightarrow> bool" where
  "pushed t ops t' \<longleftrightarrow> operations t' = ops @ operations t \<and>
     operation_count t' = operation_count t + int (length ops) \<and> savepoints t' = savepoints t \<and>
     txn_state t' = txn_state t \<and> database t' = database t \<and> txn_id t' = txn_id t"

lemma do_row_pushes:
  assumes "do_row junk env r (m, s) = Some (m', s')" and "current_txn m = Some t" and "txn_state t = TXN_STATE_ACTIVE"
  shows "\<exists>op u t'. current_txn m' = Some t' \<and> pushed t [op] t' \<and> undone_by junk env op u \<and>
    (\<forall>s0 us. kv.history env s0 us s \<longrightarrow> kv.history env s0 (u # us) s')"
proof (cases r)
  case (RowInsert tbl key v)
  then have k: "kv_get s key = None" "plain_key key" "m' = txn_log_insert tbl key m" "s' = kv_put_locked env s key v"
    using assms(1) by (auto simp: plain_put split: if_splits)
  let ?op = "create_operation TXN_OP_INSERT (Some tbl) (Some key) None"
  have "\<exists>t'. current_txn m' = Some t' \<and> pushed t [?op] t'"
    using assms k by (simp add: txn_log_insert_def log_operation_def pushed_def)
  moreover have "undone_by junk env ?op (UndoDel key)" by (rule undone_insert)
  moreover have "\<forall>s0 us. kv.history env s0 us s \<longrightarrow> kv.history env s0 (UndoDel key # us) s'"
    using k by (auto intro: kv.history.intros)
  ultimately show ?thesis by blast
next
  case (RowUpdate tbl key v)
  then obtain old where o: "old_row s key = Some old" "m' = txn_log_update tbl key old m"
    "kv_put junk env s key v = Some s'"
    using assms(1) by (auto split: option.splits)
  note d = old_row_D [OF o(1)]
  have s': "s' = kv_put_locked env s key v" using o(3) d plain_put by simp
  let ?op = "create_operation TXN_OP_UPDATE (Some tbl) (Some key) (Some old)"
  have "\<exists>t'. current_txn m' = Some t' \<and> pushed t [?op] t'"
    using assms o by (simp add: txn_log_update_def log_operation_def pushed_def)
  moreover have "undone_by junk env ?op (UndoPut key (row_value old))" using d by (intro undone_restore) auto
  moreover have "\<forall>s0 us. kv.history env s0 us s \<longrightarrow> kv.history env s0 (UndoPut key (row_value old) # us) s'"
    using d s' by (auto intro: kv.history.intros)
  ultimately show ?thesis by blast
next
  case (RowDelete tbl key)
  then obtain old where o: "old_row s key = Some old" "m' = txn_log_delete tbl key old m" "s' = kv_delete env s key"
    using assms(1) by (auto split: option.splits)
  note d = old_row_D [OF o(1)]
  let ?op = "create_operation TXN_OP_DELETE (Some tbl) (Some key) (Some old)"
  have "\<exists>t'. current_txn m' = Some t' \<and> pushed t [?op] t'"
    using assms o by (simp add: txn_log_delete_def log_operation_def pushed_def)
  moreover have "undone_by junk env ?op (UndoPut key (row_value old))" using d by (intro undone_restore) auto
  moreover have "\<forall>s0 us. kv.history env s0 us s \<longrightarrow> kv.history env s0 (UndoPut key (row_value old) # us) s'"
    using d o by (auto intro: kv.history.intros)
  ultimately show ?thesis by blast
qed

lemma do_rows_pushes:
  assumes "do_rows junk env rs (m, s) = Some (m', s')" and "current_txn m = Some t" and "txn_state t = TXN_STATE_ACTIVE"
  shows "\<exists>ops us t'. current_txn m' = Some t' \<and> pushed t ops t' \<and> list_all2 (undone_by junk env) ops us \<and>
    kv.history env s us s'"
  using assms
proof (induction rs arbitrary: m s t)
  case Nil
  then have "current_txn m' = Some t" "pushed t [] t" "kv.history env s [] s'"
    by (auto simp: pushed_def intro: kv.history.start)
  then show ?case by (intro exI [of _ "[]"] exI [of _ t]) auto
next
  case (Cons r rs)
  then obtain m1 s1 where one: "do_row junk env r (m, s) = Some (m1, s1)" "do_rows junk env rs (m1, s1) = Some (m', s')"
    by (auto split: option.splits)
  from do_row_pushes [OF one(1) Cons.prems(2,3)] obtain op u t1 where
    p: "current_txn m1 = Some t1" "pushed t [op] t1" "undone_by junk env op u"
    "\<And>s0 us. kv.history env s0 us s \<Longrightarrow> kv.history env s0 (u # us) s1" by blast
  have "txn_state t1 = TXN_STATE_ACTIVE" using p(2) Cons.prems(3) by (simp add: pushed_def)
  from Cons.IH [OF one(2) p(1) this] obtain ops us t' where
    q: "current_txn m' = Some t'" "pushed t1 ops t'" "list_all2 (undone_by junk env) ops us" "kv.history env s1 us s'"
    by blast
  have "pushed t (ops @ [op]) t'" using p(2) q(2) by (simp add: pushed_def)
  moreover have "list_all2 (undone_by junk env) (ops @ [op]) (us @ [u])"
    using q(3) p(3) by (intro list_all2_appendI) auto
  moreover have "kv.history env s [u] s1" by (rule p(4) [OF kv.history.start])
  then have "kv.history env s (us @ [u]) s'" using kv.history_append [OF q(4)] by blast
  ultimately show ?case using q(1) by blast
qed

lemma store_sim_get: "store_sim s t \<Longrightarrow> kv_get s \<kappa> = kv_get t \<kappa>"
  by (simp add: store_sim_def kv_get_def kv_sim_lookup)

section \<open>Properties\<close>

text \<open>C29: In every state the interface can reach, the current transaction, if any, is active with
  the newest id; its operation count is the length of its undo log; its savepoints have distinct
  non-empty names and mark depths of that log that do not grow downwards; and every transaction
  begun is counted as committed, rolled back or running.\<close>

theorem txn_manager_invariant:
  assumes "txn_reachable (m, s)"
  shows "(\<forall>t. current_txn m = Some t \<longrightarrow> txn_wf t \<and> txn_id t = total_transactions m) \<and>
    txn_get_state m \<in> {TXN_STATE_NONE, TXN_STATE_ACTIVE} \<and>
    next_txn_id m = total_transactions m + 1 \<and>
    total_transactions m = total_commits m + total_rollbacks m + (if txn_is_active m then 1 else 0)"
proof -
  have wf: "manager_wf m" using txn_reachable_wf [OF assms] by simp
  show ?thesis
  proof (cases "current_txn m")
    case None
    then show ?thesis using wf by (simp add: manager_wf_def txn_get_state_def txn_is_active_def)
  next
    case (Some t)
    then have "txn_state t = TXN_STATE_ACTIVE" using wf by (simp add: manager_wf_def txn_wf_def)
    with Some wf show ?thesis by (simp add: manager_wf_def txn_get_state_def txn_is_active_def)
  qed
qed

definition idle_manager :: txn_manager where
  "idle_manager = \<lparr>current_txn = None, next_txn_id = 1, auto_commit = True,
     total_commits = 0, total_rollbacks = 0, total_transactions = 0\<rparr>"

theorem txn_manager_invariant_witness:
  "\<exists>s. txn_reachable (snd (txn_begin 0 None None idle_manager), s) \<and>
     txn_get_state (snd (txn_begin 0 None None idle_manager)) \<noteq> TXN_STATE_ABORTED"
proof -
  have "txn_reachable (idle_manager, s)" for s
    using txn_reachable.init [of idle_manager s] by (simp add: txn_manager_init_def idle_manager_def)
  from txn_reachable.step [OF this txn_step.begin_txn [OF prod.collapse [symmetric]]]
  have "txn_reachable (snd (txn_begin 0 None None idle_manager), s)" for s .
  from txn_manager_invariant [OF this] this show ?thesis by auto
qed

text \<open>C11: Rollback undoes the transaction. If a transaction begins and then makes any sequence of
  logged row inserts, updates and deletes, \<open>txn_rollback\<close> returns 0, ends the transaction and
  leaves a table whose occupied slots are exactly those at \<open>BEGIN\<close>, whatever the operations did
  to shared probe walks and whatever checkpoints the log took; every key has its old value.\<close>

theorem rollback_restores_store:
  assumes "txn_begin now usr db m = (0, m1)" and "do_rows junk env rs (m1, s) = Some (m2, s2)"
  shows "\<exists>m3 s3. txn_rollback junk env m2 s2 = Some (0, m3, s3) \<and> store_sim s3 s \<and>
    (\<forall>\<kappa>. kv_get s3 \<kappa> = kv_get s \<kappa>) \<and> \<not> txn_is_active m3 \<and> auto_commit m3"
proof -
  obtain t where t: "current_txn m1 = Some t" "txn_state t = TXN_STATE_ACTIVE" "operations t = []"
    using assms(1) by (auto simp: txn_begin_def Let_def split: if_splits)
  from do_rows_pushes [OF assms(2) t(1,2)] obtain ops us t' where
    p: "current_txn m2 = Some t'" "pushed t ops t'" "list_all2 (undone_by junk env) ops us" "kv.history env s us s2"
    by blast
  have "undo_all junk env (database t') (operations t') s2 = Some (fold (kv.apply_undo env) us s2)"
    using undo_all_fold [OF p(3), of "database t'" "[]" s2] p(2) t(3) by (simp add: pushed_def)
  moreover have "txn_state t' = TXN_STATE_ACTIVE" using p(2) t(2) by (simp add: pushed_def)
  ultimately have "txn_rollback junk env m2 s2 =
      Some (0, m2\<lparr>total_rollbacks := total_rollbacks m2 + 1, current_txn := None, auto_commit := True\<rparr>,
        fold (kv.apply_undo env) us s2)"
    using p(1) by (simp add: txn_rollback_def)
  with kv.undo_history [OF p(4)] show ?thesis by (auto simp: txn_is_active_def store_sim_get)
qed

lemma probe_Full_free: "0 < n \<Longrightarrow> probe_from_home (replicate n free_entry) key \<noteq> Full"
  by (simp add: probe_from_home_def kv_probe.simps home_def free_entry_def)

lemma fresh_row_store:
  obtains s where "kv_create [] 4 None None None = Some s" "kv_get s \<kappa> = None"
  by (rule kv_create_fresh [of "[]" 4]) (simp add: kv_get_def empty_lookup)

theorem rollback_restores_store_witness:
  "\<exists>s m2 s2 m3 s3. kv_create [] 4 None None None = Some s \<and>
     do_rows [] small_env [RowInsert ''t'' ''DB:d:1'' (row_value [9]), RowDelete ''t'' ''DB:d:1'']
       (snd (txn_begin 0 None None idle_manager), s) = Some (m2, s2) \<and>
     txn_rollback [] small_env m2 s2 = Some (0, m3, s3) \<and> kv_get s3 ''DB:d:1'' = None"
proof -
  let ?m = "snd (txn_begin 0 None None idle_manager)"
  obtain s where s: "kv_create [] 4 None None None = Some s" "entries s = replicate 4 free_entry"
    by (rule kv_create_fresh)
  then have none: "kv_get s ''DB:d:1'' = None" by (simp add: kv_get_def empty_lookup)
  let ?s1 = "kv_put_locked small_env s ''DB:d:1'' (row_value [9])"
  have "probe_from_home (replicate 4 free_entry) ''DB:d:1'' \<noteq> Full"
    by (simp add: probe_Full_free)
  then have "kv_get ?s1 ''DB:d:1'' = Some (row_value [9])"
    by (simp add: kv_get_def kv_put_lookup_same s(2))
  then have "do_rows [] small_env [RowInsert ''t'' ''DB:d:1'' (row_value [9]), RowDelete ''t'' ''DB:d:1''] (?m, s) =
    Some (txn_log_delete ''t'' ''DB:d:1'' [9] (txn_log_insert ''t'' ''DB:d:1'' ?m), kv_delete small_env ?s1 ''DB:d:1'')"
    using none by (simp add: plain_put plain_key_def old_row_def)
  moreover have "txn_begin 0 None None idle_manager = (0, ?m)"
    by (simp add: txn_begin_def idle_manager_def Let_def)
  ultimately show ?thesis using rollback_restores_store [of 0 None None idle_manager ?m] none s(1) by metis
qed

text \<open>Rollback to a savepoint. A savepoint with a new name is accepted; after any further
  logged row operations, rolling back to it returns 0, restores the table's occupied slots to
  those at the savepoint, and gives the transaction back the undo log, the count and the savepoints
  it had there, the savepoint itself included, so the transaction goes on.\<close>

theorem savepoint_restores_store:
  assumes "txn_reachable (m, s)" and "current_txn m = Some t" and "nm \<noteq> []" and "nm \<notin> sp_name ` set (savepoints t)"
    and "txn_savepoint (Some nm) m = (r, m1)" and "do_rows junk env rs (m1, s) = Some (m2, s2)"
  shows "r = 0 \<and> (\<exists>m3 s3 t1 t3. txn_rollback_to_savepoint junk env nm m2 s2 = Some (0, m3, s3) \<and>
    store_sim s3 s \<and> (\<forall>\<kappa>. kv_get s3 \<kappa> = kv_get s \<kappa>) \<and>
    current_txn m1 = Some t1 \<and> current_txn m3 = Some t3 \<and> txn_is_active m3 \<and>
    operations t3 = operations t1 \<and> operation_count t3 = operation_count t1 \<and> savepoints t3 = savepoints t1)"
proof -
  have "manager_wf m" using txn_reachable_wf [OF assms(1)] by simp
  then have active: "txn_state t = TXN_STATE_ACTIVE" using assms(2) by (simp add: manager_wf_def txn_wf_def)
  let ?sp = "\<lparr>sp_name = nm, sp_operation_count = operation_count t\<rparr>"
  let ?t1 = "t\<lparr>savepoints := ?sp # savepoints t\<rparr>"
  have fresh: "\<not> (\<exists>sp \<in> set (savepoints t). sp_name sp = nm)" using assms(4) by force
  have m1: "r = 0" "m1 = m\<lparr>current_txn := Some ?t1\<rparr>"
    using assms(2,3,5) active fresh by (auto simp: txn_savepoint_def)
  then have t1: "current_txn m1 = Some ?t1" "txn_state ?t1 = TXN_STATE_ACTIVE" using active by simp_all
  from do_rows_pushes [OF assms(6) t1] obtain ops us t' where
    p: "current_txn m2 = Some t'" "pushed ?t1 ops t'" "list_all2 (undone_by junk env) ops us" "kv.history env s us s2"
    by blast
  have "undo_until junk env (operation_count t) (operations t') (operation_count t') s2 =
      Some (operations t, operation_count t, fold (kv.apply_undo env) us s2)"
    using undo_until_fold [OF p(3), of "operation_count t'" "operation_count t" "operations t" s2] p(2)
    by (simp add: pushed_def undo_until_done)
  then have "txn_rollback_to_savepoint junk env nm m2 s2 =
      Some (0, m2\<lparr>current_txn := Some (t'\<lparr>operations := operations t, operation_count := operation_count t,
        savepoints := ?sp # savepoints t\<rparr>)\<rparr>, fold (kv.apply_undo env) us s2)"
    using p(1,2) active by (simp add: txn_rollback_to_savepoint_def pushed_def)
  moreover have "txn_state t' = TXN_STATE_ACTIVE" using p(2) active by (simp add: pushed_def)
  ultimately show ?thesis using kv.undo_history [OF p(4)] m1 t1 by (simp add: txn_is_active_def store_sim_get)
qed

theorem savepoint_restores_store_witness:
  "\<exists>s m1 m2 s2 m3 s3. kv_create [] 4 None None None = Some s \<and>
     txn_savepoint (Some ''a'') (snd (txn_begin 0 None None idle_manager)) = (0, m1) \<and>
     do_rows [] small_env [RowInsert ''t'' ''DB:d:1'' (row_value [9])] (m1, s) = Some (m2, s2) \<and>
     txn_rollback_to_savepoint [] small_env ''a'' m2 s2 = Some (0, m3, s3) \<and> kv_get s3 ''DB:d:1'' = None"
proof -
  let ?m = "snd (txn_begin 0 None None idle_manager)"
  obtain s where s: "kv_create [] 4 None None None = Some s" "kv_get s ''DB:d:1'' = None"
    by (rule fresh_row_store)
  have "txn_reachable (idle_manager, s)"
    using txn_reachable.init [of idle_manager s] by (simp add: txn_manager_init_def idle_manager_def)
  from txn_reachable.step [OF this txn_step.begin_txn [OF prod.collapse [symmetric]]]
  have reach: "txn_reachable (?m, s)" .
  obtain t where t: "current_txn ?m = Some t" "savepoints t = []" "txn_state t = TXN_STATE_ACTIVE"
    by (simp add: txn_begin_def idle_manager_def Let_def)
  obtain m1 where sp: "txn_savepoint (Some ''a'') ?m = (0, m1)"
    using t by (simp add: txn_savepoint_def)
  have "do_rows [] small_env [RowInsert ''t'' ''DB:d:1'' (row_value [9])] (m1, s) =
      Some (txn_log_insert ''t'' ''DB:d:1'' m1, kv_put_locked small_env s ''DB:d:1'' (row_value [9]))"
    using s by (simp add: plain_put plain_key_def)
  from savepoint_restores_store [OF reach t(1) _ _ sp this] s sp this t(2) show ?thesis by auto
qed

end
