(* ===== verification/LockTable.thy ===== *)
theory LockTable
  imports CStrings
begin

text \<open>
  The lock table of \<open>src/mvcc.c\<close>: 4096 hash chains of \<open>LockEntry\<close>s, the compatibility matrix, and
  one attempt of \<open>mvcc_acquire_lock\<close> (the body of its loop under the mutex), release of one lock
  and release of the locks a transaction remembers. A \<open>LockEntry\<close> pointer is a number that
  \<open>calloc\<close> has not given before, so a pointer to a freed entry is a number no entry has.
\<close>

section \<open>Modes\<close>

datatype lock_mode =
    MVCC_LOCK_NONE | MVCC_LOCK_SHARED | MVCC_LOCK_EXCLUSIVE | MVCC_LOCK_UPDATE
  | MVCC_LOCK_SHARE_ROW_EXCLUSIVE | MVCC_LOCK_ACCESS_EXCLUSIVE

datatype lock_granularity =
    MVCC_LOCK_GRANULARITY_ROW | MVCC_LOCK_GRANULARITY_PAGE
  | MVCC_LOCK_GRANULARITY_TABLE | MVCC_LOCK_GRANULARITY_DATABASE

text \<open>The enumeration's numbers, which \<open>>=\<close> compares.\<close>

fun mode_code :: "lock_mode \<Rightarrow> nat" where
  "mode_code MVCC_LOCK_NONE = 0"
| "mode_code MVCC_LOCK_SHARED = 1"
| "mode_code MVCC_LOCK_EXCLUSIVE = 2"
| "mode_code MVCC_LOCK_UPDATE = 3"
| "mode_code MVCC_LOCK_SHARE_ROW_EXCLUSIVE = 4"
| "mode_code MVCC_LOCK_ACCESS_EXCLUSIVE = 5"

lemma mode_code_inj: "mode_code a = mode_code b \<Longrightarrow> a = b"
  by (cases a; cases b) simp_all

instantiation lock_mode :: linorder
begin

definition less_eq_lock_mode :: "lock_mode \<Rightarrow> lock_mode \<Rightarrow> bool" where
  "less_eq_lock_mode a b \<longleftrightarrow> mode_code a \<le> mode_code b"

definition less_lock_mode :: "lock_mode \<Rightarrow> lock_mode \<Rightarrow> bool" where
  "less_lock_mode a b \<longleftrightarrow> mode_code a < mode_code b"

instance
  by standard (auto simp: less_eq_lock_mode_def less_lock_mode_def dest: mode_code_inj)

end

text \<open>The matrix, row by row.\<close>

definition compat :: "bool list list" where
  "compat =
     [[True, True,  True,  True,  True,  True],
      [True, True,  False, True,  False, False],
      [True, False, False, False, False, False],
      [True, True,  False, False, False, False],
      [True, False, False, False, False, False],
      [True, False, False, False, False, False]]"

definition locks_conflict :: "lock_mode \<Rightarrow> lock_mode \<Rightarrow> bool" where
  "locks_conflict held requested = (\<not> compat ! mode_code held ! mode_code requested)"

section \<open>The table\<close>

record lock_entry =
  lock_ref :: nat
  resource_id :: string
  granularity :: lock_granularity
  lock_mode :: lock_mode
  holder :: u64

record lock_table =
  buckets :: "nat \<Rightarrow> lock_entry list"
  total_locks :: int
  next_ref :: nat

definition empty_lock_table :: lock_table where
  "empty_lock_table = \<lparr>buckets = (\<lambda>_. []), total_locks = 0, next_ref = 0\<rparr>"

definition hash_string :: "string \<Rightarrow> u32" where
  "hash_string s = djb2 s"

definition bucket_of :: "string \<Rightarrow> nat" where
  "bucket_of resource = unat (hash_string resource) mod 4096"

definition find_lock_entry :: "lock_table \<Rightarrow> string \<Rightarrow> lock_entry option" where
  "find_lock_entry lt resource =
     find (\<lambda>e. strcmp (resource_id e) resource = 0) (buckets lt (bucket_of resource))"

section \<open>Operations\<close>

text \<open>An attempt grants, with the new entry for the transaction's list if one was made, or finds a
  conflict and has to wait.\<close>

datatype attempt = Granted lock_table "nat option" | Blocked

text \<open>\<open>existing->mode = mode\<close> on the entry found: the first of its resource.\<close>

fun set_mode_first :: "string \<Rightarrow> lock_mode \<Rightarrow> lock_entry list \<Rightarrow> lock_entry list" where
  "set_mode_first resource mode [] = []"
| "set_mode_first resource mode (e # es) =
     (if strcmp (resource_id e) resource = 0 then e\<lparr>lock_mode := mode\<rparr> # es
      else e # set_mode_first resource mode es)"

definition lock_attempt :: "lock_table \<Rightarrow> u64 \<Rightarrow> string \<Rightarrow> lock_mode \<Rightarrow> lock_granularity \<Rightarrow> attempt" where
  "lock_attempt lt txn resource mode gran =
     (let h = bucket_of resource;
          new = \<lparr>lock_ref = next_ref lt, resource_id = resource, granularity = gran,
                 lock_mode = mode, holder = txn\<rparr>
      in case find_lock_entry lt resource of
           None \<Rightarrow>
             Granted (lt\<lparr>buckets := (buckets lt)(h := new # buckets lt h),
                         total_locks := total_locks lt + 1, next_ref := next_ref lt + 1\<rparr>)
               (Some (next_ref lt))
         | Some existing \<Rightarrow>
             if holder existing = txn \<and> lock_mode existing \<ge> mode then Granted lt None
             else if holder existing = txn \<and> \<not> locks_conflict (lock_mode existing) mode
             then Granted (lt\<lparr>buckets := (buckets lt)(h := set_mode_first resource mode (buckets lt h))\<rparr>) None
             else if locks_conflict (lock_mode existing) mode then Blocked
             else
               Granted (lt\<lparr>buckets := (buckets lt)(h := buckets lt h @ [new]), next_ref := next_ref lt + 1\<rparr>)
                 (Some (next_ref lt)))"

fun remove_first :: "('a \<Rightarrow> bool) \<Rightarrow> 'a list \<Rightarrow> 'a list" where
  "remove_first P [] = []"
| "remove_first P (x # xs) = (if P x then xs else x # remove_first P xs)"

definition release_lock :: "lock_table \<Rightarrow> u64 \<Rightarrow> string \<Rightarrow> int \<times> lock_table" where
  "release_lock lt txn resource =
     (let h = bucket_of resource;
          mine = (\<lambda>e. strcmp (resource_id e) resource = 0 \<and> holder e = txn)
      in if \<exists>e \<in> set (buckets lt h). mine e
         then (0, lt\<lparr>buckets := (buckets lt)(h := remove_first mine (buckets lt h)),
                     total_locks := total_locks lt - 1\<rparr>)
         else (-1, lt))"

text \<open>Following a remembered pointer: the entry it points to, if it has not been freed.\<close>

definition deref_lock :: "lock_table \<Rightarrow> nat \<Rightarrow> lock_entry option" where
  "deref_lock lt r = find (\<lambda>e. lock_ref e = r) (concat (map (buckets lt) [0 ..< 4096]))"

text \<open>The loop of \<open>mvcc_release_all_locks\<close>. \<open>None\<close>: it reads \<open>resource_id\<close> of a freed entry.\<close>

fun release_refs :: "nat list \<Rightarrow> lock_table \<Rightarrow> lock_table option" where
  "release_refs [] lt = Some lt"
| "release_refs (r # rs) lt =
     (case deref_lock lt r of
        None \<Rightarrow> None
      | Some e \<Rightarrow>
          (let h = bucket_of (resource_id e) in
           if \<exists>x \<in> set (buckets lt h). lock_ref x = r
           then release_refs rs (lt\<lparr>buckets := (buckets lt)(h := remove_first (\<lambda>x. lock_ref x = r) (buckets lt h)),
                                    total_locks := total_locks lt - 1\<rparr>)
           else release_refs rs lt))"

definition has_lock :: "lock_table \<Rightarrow> u64 \<Rightarrow> string \<Rightarrow> lock_mode \<Rightarrow> bool" where
  "has_lock lt txn resource mode =
     (\<exists>e \<in> set (dropWhile (\<lambda>e. strcmp (resource_id e) resource \<noteq> 0) (buckets lt (bucket_of resource))).
        holder e = txn \<and> lock_mode e \<ge> mode)"

section \<open>The locks on one resource\<close>

definition locks_on :: "lock_table \<Rightarrow> string \<Rightarrow> lock_entry list" where
  "locks_on lt resource = filter (\<lambda>e. resource_id e = resource) (buckets lt (bucket_of resource))"

lemma find_hd: "find P xs = (case filter P xs of [] \<Rightarrow> None | x # _ \<Rightarrow> Some x)"
  by (induction xs) auto

lemma find_lock_entry_hd: "find_lock_entry lt r = (case locks_on lt r of [] \<Rightarrow> None | e # _ \<Rightarrow> Some e)"
  by (simp add: find_lock_entry_def find_hd locks_on_def)

lemma filter_set_mode_same:
  "filter (\<lambda>e. resource_id e = r) (set_mode_first r md es) =
    (case filter (\<lambda>e. resource_id e = r) es of [] \<Rightarrow> [] | e # xs \<Rightarrow> e\<lparr>lock_mode := md\<rparr> # xs)"
  by (induction es) auto

lemma filter_set_mode_other:
  "r' \<noteq> r \<Longrightarrow> filter (\<lambda>e. resource_id e = r') (set_mode_first r md es) = filter (\<lambda>e. resource_id e = r') es"
  by (induction es) auto

text \<open>What a granted attempt did to the locks of each resource.\<close>

lemma lock_attempt_locks:
  assumes "lock_attempt lt txn r md g = Granted lt' new"
  defines "e \<equiv> \<lparr>lock_ref = next_ref lt, resource_id = r, granularity = g, lock_mode = md, holder = txn\<rparr>"
  shows "(\<forall>r'. r' \<noteq> r \<longrightarrow> locks_on lt' r' = locks_on lt r') \<and>
    (locks_on lt r = [] \<and> locks_on lt' r = [e] \<and> new = Some (next_ref lt) \<and> next_ref lt' = next_ref lt + 1 \<or>
     (\<exists>x xs. locks_on lt r = x # xs \<and>
        (holder x = txn \<and> lock_mode x \<ge> md \<and> lt' = lt \<and> new = None \<or>
         holder x = txn \<and> \<not> locks_conflict (lock_mode x) md \<and> locks_on lt' r = x\<lparr>lock_mode := md\<rparr> # xs \<and> new = None \<and>
           next_ref lt' = next_ref lt \<or>
         \<not> locks_conflict (lock_mode x) md \<and> locks_on lt' r = x # xs @ [e] \<and> new = Some (next_ref lt) \<and>
           next_ref lt' = next_ref lt + 1)))"
proof (cases "locks_on lt r")
  case Nil
  then show ?thesis using assms(1)
    by (auto simp: lock_attempt_def find_lock_entry_hd locks_on_def e_def Let_def)
next
  case (Cons x xs)
  have f: "find_lock_entry lt r = Some x" using Cons by (simp add: find_lock_entry_hd)
  note L = Cons [unfolded locks_on_def]
  consider (held) "holder x = txn" "lock_mode x \<ge> md"
    | (upgrade) "holder x = txn" "\<not> locks_conflict (lock_mode x) md" "\<not> lock_mode x \<ge> md"
    | (append) "\<not> locks_conflict (lock_mode x) md" "holder x \<noteq> txn"
    using assms(1) f by (auto simp: lock_attempt_def Let_def split: if_splits)
  then show ?thesis
  proof cases
    case held
    then show ?thesis using assms(1) f Cons by (simp add: lock_attempt_def Let_def)
  next
    case upgrade
    then show ?thesis using assms(1) f Cons L
      by (auto simp: lock_attempt_def Let_def locks_on_def filter_set_mode_same filter_set_mode_other)
  next
    case append
    then show ?thesis using assms(1) f Cons L
      by (auto simp: lock_attempt_def Let_def locks_on_def e_def)
  qed
qed

section \<open>Exclusive locks\<close>

definition strong :: "lock_mode \<Rightarrow> bool" where
  "strong md \<longleftrightarrow> md \<in> {MVCC_LOCK_EXCLUSIVE, MVCC_LOCK_SHARE_ROW_EXCLUSIVE, MVCC_LOCK_ACCESS_EXCLUSIVE}"

text \<open>A lock in an exclusive mode is the only lock on its resource.\<close>

definition exclusive_alone :: "lock_entry list \<Rightarrow> bool" where
  "exclusive_alone L \<longleftrightarrow> (\<forall>e \<in> set L. lock_mode e \<noteq> MVCC_LOCK_NONE) \<and>
     ((\<exists>e \<in> set L. strong (lock_mode e)) \<longrightarrow> length L = 1)"

definition table_exclusive :: "lock_table \<Rightarrow> bool" where
  "table_exclusive lt \<longleftrightarrow> (\<forall>r. exclusive_alone (locks_on lt r))"

lemma no_conflict_weak:
  "\<not> locks_conflict held md \<Longrightarrow> held \<noteq> MVCC_LOCK_NONE \<Longrightarrow> md \<noteq> MVCC_LOCK_NONE \<Longrightarrow> \<not> strong held \<and> \<not> strong md"
  by (cases held; cases md) (simp_all add: locks_conflict_def compat_def strong_def)

lemma lock_attempt_exclusive:
  assumes "table_exclusive lt" and "md \<noteq> MVCC_LOCK_NONE" and "lock_attempt lt txn r md g = Granted lt' new"
  shows "table_exclusive lt'"
  unfolding table_exclusive_def
proof
  fix r'
  note l = lock_attempt_locks [OF assms(3)]
  show "exclusive_alone (locks_on lt' r')"
  proof (cases "r' = r")
    case False
    then have "locks_on lt' r' = locks_on lt r'" using l by blast
    then show ?thesis using assms(1) by (simp add: table_exclusive_def)
  next
    case True
    have ex: "exclusive_alone (locks_on lt r)" using assms(1) by (simp add: table_exclusive_def)
    show ?thesis
    proof (cases "locks_on lt r")
      case Nil
      then show ?thesis using l True assms(2) by (auto simp: exclusive_alone_def)
    next
      case (Cons x xs)
      have x: "lock_mode x \<noteq> MVCC_LOCK_NONE" using ex Cons by (simp add: exclusive_alone_def)
      show ?thesis
      proof (cases "locks_conflict (lock_mode x) md")
        case True
        then show ?thesis using l \<open>r' = r\<close> Cons ex by auto
      next
        case False
        note w = no_conflict_weak [OF False x assms(2)]
        have "\<not> strong (lock_mode e)" if "e \<in> set xs" for e
          using ex Cons that by (auto simp: exclusive_alone_def)
        then show ?thesis using l \<open>r' = r\<close> Cons ex w assms(2) by (auto simp: exclusive_alone_def)
      qed
    qed
  qed
qed

lemma set_remove_first: "set (remove_first P xs) \<subseteq> set xs"
  by (induction xs) auto

lemma filter_remove_first_shorter:
  "length (filter Q (remove_first P xs)) \<le> length (filter Q xs)" and
  "set (filter Q (remove_first P xs)) \<subseteq> set (filter Q xs)"
  by (induction xs) (auto simp: le_Suc_eq)

lemma exclusive_alone_smaller:
  assumes "exclusive_alone L" and "length L' \<le> length L" and "set L' \<subseteq> set L"
  shows "exclusive_alone L'"
proof -
  have "length L' = 1" if "e \<in> set L'" "strong (lock_mode e)" for e
  proof -
    have "length L = 1" using that assms(1,3) by (auto simp: exclusive_alone_def)
    moreover have "length L' \<noteq> 0" using that(1) by auto
    ultimately show ?thesis using assms(2) by linarith
  qed
  with assms(1,3) show ?thesis by (auto simp: exclusive_alone_def)
qed

lemma remove_exclusive:
  assumes "table_exclusive lt" and "buckets lt' = (buckets lt)(h := remove_first P (buckets lt h))"
  shows "table_exclusive lt'"
  unfolding table_exclusive_def
proof
  fix r
  have "exclusive_alone (locks_on lt r)" using assms(1) by (simp add: table_exclusive_def)
  then show "exclusive_alone (locks_on lt' r)"
    by (rule exclusive_alone_smaller)
      (auto simp: locks_on_def assms(2) filter_remove_first_shorter dest: set_remove_first [THEN subsetD])
qed

lemma release_exclusive: "table_exclusive lt \<Longrightarrow> table_exclusive (snd (release_lock lt txn r))"
  by (auto simp: release_lock_def Let_def intro: remove_exclusive)

lemma release_refs_exclusive: "release_refs rs lt = Some lt' \<Longrightarrow> table_exclusive lt \<Longrightarrow> table_exclusive lt'"
proof (induction rs arbitrary: lt)
  case (Cons r rs)
  then obtain e where "deref_lock lt r = Some e" by (auto split: option.splits)
  with Cons.prems show ?case
    by (auto simp: Let_def split: if_splits intro!: Cons.IH intro: remove_exclusive)
qed simp

section \<open>Entries and their owners\<close>

definition owner :: "lock_entry \<Rightarrow> nat \<times> u64 \<times> string" where
  "owner e = (lock_ref e, holder e, resource_id e)"

definition owners :: "lock_table \<Rightarrow> (nat \<times> u64 \<times> string) set" where
  "owners lt = (\<Union>h. owner ` set (buckets lt h))"

lemma mem_owners: "p \<in> owners lt \<longleftrightarrow> (\<exists>h. \<exists>e \<in> set (buckets lt h). p = owner e)"
  by (auto simp: owners_def)

lemma fst_owner [simp]: "fst (owner e) = lock_ref e"
  by (simp add: owner_def)

text \<open>Entries are in the chain of their resource, and no two have the same address.\<close>

definition lock_wf :: "lock_table \<Rightarrow> bool" where
  "lock_wf lt \<longleftrightarrow> (\<forall>h. distinct (map lock_ref (buckets lt h))) \<and>
     (\<forall>h. \<forall>e \<in> set (buckets lt h). bucket_of (resource_id e) = h \<and> lock_ref e < next_ref lt) \<and>
     (\<forall>h h'. \<forall>e \<in> set (buckets lt h). \<forall>e' \<in> set (buckets lt h'). lock_ref e = lock_ref e' \<longrightarrow> h = h')"

lemma bucket_of_less [simp]: "bucket_of r < 4096"
  by (simp add: bucket_of_def)

lemma empty_lock_table_wf: "lock_wf empty_lock_table" "table_exclusive empty_lock_table" "owners empty_lock_table = {}"
  by (simp_all add: lock_wf_def empty_lock_table_def table_exclusive_def locks_on_def exclusive_alone_def owners_def)

lemma lock_wf_ref: "lock_wf lt \<Longrightarrow> (r, t, res) \<in> owners lt \<Longrightarrow> r < next_ref lt"
  by (auto simp: owners_def owner_def lock_wf_def)

lemma lock_wf_unique:
  assumes "lock_wf lt" and "e \<in> set (buckets lt h)" and "e' \<in> set (buckets lt h')" and "lock_ref e = lock_ref e'"
  shows "e = e'"
proof -
  have "h = h'" using assms unfolding lock_wf_def by blast
  moreover have "distinct (map lock_ref (buckets lt h))" using assms(1) by (simp add: lock_wf_def)
  ultimately show ?thesis using assms(2-4) by (auto simp: distinct_map dest: inj_onD)
qed

lemma deref_lock_Some:
  assumes "lock_wf lt" and "e \<in> set (buckets lt h)"
  shows "deref_lock lt (lock_ref e) = Some e"
proof (cases "deref_lock lt (lock_ref e)")
  case None
  have "h = bucket_of (resource_id e)" using assms by (auto simp: lock_wf_def)
  then have "e \<in> set (concat (map (buckets lt) [0 ..< 4096]))" using assms(2) by auto
  with None show ?thesis unfolding deref_lock_def find_None_iff by blast
next
  case (Some e')
  then have "lock_ref e' = lock_ref e" "e' \<in> set (concat (map (buckets lt) [0 ..< 4096]))"
    unfolding deref_lock_def find_Some_iff by (metis, metis nth_mem)
  then obtain h' where "e' \<in> set (buckets lt h')" unfolding set_concat set_map by blast
  with lock_wf_unique [OF assms(1) this assms(2)] Some \<open>lock_ref e' = _\<close> show ?thesis by simp
qed

lemma deref_lock_owner:
  "lock_wf lt \<Longrightarrow> (r, t, res) \<in> owners lt \<Longrightarrow>
   \<exists>e h. deref_lock lt r = Some e \<and> owner e = (r, t, res) \<and> e \<in> set (buckets lt h) \<and> h = bucket_of res"
proof -
  assume wf: "lock_wf lt" and "(r, t, res) \<in> owners lt"
  then obtain h e where e: "e \<in> set (buckets lt h)" "owner e = (r, t, res)" by (auto simp: mem_owners)
  then have "lock_ref e = r" "resource_id e = res" by (auto simp: owner_def)
  moreover have "bucket_of (resource_id e) = h" using wf e(1) by (simp add: lock_wf_def)
  ultimately show ?thesis using deref_lock_Some [OF wf e(1)] e by blast
qed

lemma deref_lock_dangling:
  assumes "r \<notin> fst ` owners lt"
  shows "deref_lock lt r = None"
proof -
  have "lock_ref e \<noteq> r" if "e \<in> set (buckets lt h)" for e h
    using assms that by (force simp: owners_def owner_def)
  then show ?thesis unfolding deref_lock_def find_None_iff by auto
qed

lemma remove_first_ref:
  "distinct (map lock_ref es) \<Longrightarrow> set (remove_first (\<lambda>x. lock_ref x = r) es) = {e \<in> set es. lock_ref e \<noteq> r}"
  by (induction es) (auto simp: image_iff)

lemma distinct_remove_first: "distinct (map f es) \<Longrightarrow> distinct (map f (remove_first P es))"
  by (induction es) (auto dest: set_remove_first [THEN subsetD])

lemma lock_wf_remove:
  assumes "lock_wf lt" and "buckets lt' = (buckets lt)(h := remove_first P (buckets lt h))" and "next_ref lt' = next_ref lt"
  shows "lock_wf lt'"
proof -
  have sub: "e \<in> set (buckets lt k)" if "e \<in> set (buckets lt' k)" for e k
    using that assms(2) set_remove_first [of P "buckets lt h"] by (auto split: if_splits)
  have "distinct (map lock_ref (buckets lt' k))" for k
    using assms by (simp add: lock_wf_def distinct_remove_first)
  moreover have "bucket_of (resource_id e) = k \<and> lock_ref e < next_ref lt'" if "e \<in> set (buckets lt' k)" for e k
    using sub [OF that] assms(1,3) by (simp add: lock_wf_def)
  moreover have "k = k'" if "e \<in> set (buckets lt' k)" "e' \<in> set (buckets lt' k')" "lock_ref e = lock_ref e'" for e e' k k'
    using sub [OF that(1)] sub [OF that(2)] that(3) assms(1) unfolding lock_wf_def by blast
  ultimately show ?thesis unfolding lock_wf_def by blast
qed

lemma remove_ref_step:
  assumes "lock_wf lt" and "(r, t, res) \<in> owners lt"
  defines "lt' \<equiv> lt\<lparr>buckets := (buckets lt)(bucket_of res := remove_first (\<lambda>x. lock_ref x = r) (buckets lt (bucket_of res))),
    total_locks := total_locks lt - 1\<rparr>"
  shows "release_refs (r # rs) lt = release_refs rs lt'" "lock_wf lt'"
    "owners lt' = {p \<in> owners lt. fst p \<noteq> r}" "next_ref lt' = next_ref lt"
proof -
  obtain e where e: "deref_lock lt r = Some e" "owner e = (r, t, res)" "e \<in> set (buckets lt (bucket_of res))"
    using deref_lock_owner [OF assms(1,2)] by blast
  then have res: "resource_id e = res" "lock_ref e = r" by (auto simp: owner_def)
  show "release_refs (r # rs) lt = release_refs rs lt'"
    using e res by (auto simp: lt'_def Let_def)
  show "lock_wf lt'" by (rule lock_wf_remove [OF assms(1)]) (simp_all add: lt'_def)
  show "next_ref lt' = next_ref lt" by (simp add: lt'_def)
  have one: "x = e" if "x \<in> set (buckets lt h)" "lock_ref x = r" for x h
    using lock_wf_unique [OF assms(1) that(1) e(3)] that(2) res by simp
  have hb: "h = bucket_of res" if "e \<in> set (buckets lt h)" for h
    using that assms(1) res by (auto simp: lock_wf_def)
  have set': "set (buckets lt' h) = {x \<in> set (buckets lt h). lock_ref x \<noteq> r}" for h
  proof (cases "h = bucket_of res")
    case True
    have "distinct (map lock_ref (buckets lt h))" using assms(1) by (simp add: lock_wf_def)
    with True show ?thesis by (simp add: lt'_def remove_first_ref)
  next
    case False
    then show ?thesis using one hb by (auto simp: lt'_def)
  qed
  show "owners lt' = {p \<in> owners lt. fst p \<noteq> r}"
  proof (rule set_eqI)
    fix p
    have "p \<in> owners lt' \<longleftrightarrow> (\<exists>h. \<exists>x \<in> {x \<in> set (buckets lt h). lock_ref x \<noteq> r}. p = owner x)"
      by (simp only: mem_owners set')
    also have "\<dots> \<longleftrightarrow> (\<exists>h. \<exists>x \<in> set (buckets lt h). p = owner x) \<and> fst p \<noteq> r" by fastforce
    finally show "p \<in> owners lt' \<longleftrightarrow> p \<in> {p \<in> owners lt. fst p \<noteq> r}" by (simp only: mem_owners mem_Collect_eq)
  qed
qed

lemma release_refs_all:
  assumes "lock_wf lt" and "distinct rs" and "set rs \<subseteq> fst ` owners lt"
  shows "\<exists>lt'. release_refs rs lt = Some lt' \<and> lock_wf lt' \<and> owners lt' = {p \<in> owners lt. fst p \<notin> set rs} \<and>
    next_ref lt' = next_ref lt"
  using assms
proof (induction rs arbitrary: lt)
  case Nil
  then show ?case by simp
next
  case (Cons r rs)
  then obtain t res where o: "(r, t, res) \<in> owners lt" by auto
  let ?lt = "lt\<lparr>buckets := (buckets lt)(bucket_of res := remove_first (\<lambda>x. lock_ref x = r) (buckets lt (bucket_of res))),
    total_locks := total_locks lt - 1\<rparr>"
  note s = remove_ref_step [OF Cons.prems(1) o]
  have "set rs \<subseteq> fst ` owners ?lt"
  proof
    fix q assume q: "q \<in> set rs"
    then obtain p where "p \<in> owners lt" "fst p = q" using Cons.prems(3) by auto
    moreover have "q \<noteq> r" using q Cons.prems(2) by auto
    ultimately show "q \<in> fst ` owners ?lt" unfolding s(3) by force
  qed
  then obtain lt' where "release_refs rs ?lt = Some lt'" "lock_wf lt'"
    "owners lt' = {p \<in> owners ?lt. fst p \<notin> set rs}" "next_ref lt' = next_ref ?lt"
    using Cons.IH [OF s(2)] Cons.prems(2) by auto
  then show ?case unfolding s(1) s(3) by auto
qed

lemma release_refs_dangling:
  assumes "lock_wf lt" and "distinct rs" and "r \<in> set rs" and "r \<notin> fst ` owners lt"
  shows "release_refs rs lt = None"
  using assms
proof (induction rs arbitrary: lt)
  case (Cons q rs)
  show ?case
  proof (cases "q \<in> fst ` owners lt")
    case True
    then obtain t res where o: "(q, t, res) \<in> owners lt" by auto
    note s = remove_ref_step [OF Cons.prems(1) o]
    have "r \<in> set rs" using Cons.prems True by auto
    then show ?thesis unfolding s(1) using Cons.prems s(2,3) by (intro Cons.IH) auto
  next
    case False
    then show ?thesis by (simp add: deref_lock_dangling)
  qed
qed simp

text \<open>An attempt leaves the owners alone or adds one new entry for the transaction.\<close>

lemma owner_set_mode: "map owner (set_mode_first r md es) = map owner es"
  by (induction es) (auto simp: owner_def)

lemma lock_wf_owner:
  "lock_wf lt \<longleftrightarrow> (\<forall>h. distinct (map fst (map owner (buckets lt h)))) \<and>
     (\<forall>h. \<forall>(r, t, res) \<in> set (map owner (buckets lt h)). bucket_of res = h \<and> r < next_ref lt) \<and>
     (\<forall>h h'. \<forall>(r, t, res) \<in> set (map owner (buckets lt h)).
        \<forall>(r', t', res') \<in> set (map owner (buckets lt h')). r = r' \<longrightarrow> h = h')"
  by (simp add: lock_wf_def owner_def comp_def)

lemma owners_map: "owners lt = (\<Union>h. set (map owner (buckets lt h)))"
  by (simp add: owners_def)

lemma lock_attempt_owners:
  assumes "lock_wf lt" and "lock_attempt lt txn r md g = Granted lt' new"
  shows "lock_wf lt' \<and>
    (case new of None \<Rightarrow> owners lt' = owners lt | Some q \<Rightarrow> q = next_ref lt \<and> owners lt' = insert (q, txn, r) (owners lt))"
proof -
  let ?h = "bucket_of r"
  let ?e = "\<lparr>lock_ref = next_ref lt, resource_id = r, granularity = g, lock_mode = md, holder = txn\<rparr>"
  have fresh: "lock_ref e < next_ref lt" if "e \<in> set (buckets lt h)" for e h
    using that assms(1) by (auto simp: lock_wf_def)
  have add: "lock_wf lt'' \<and> owners lt'' = insert (next_ref lt, txn, r) (owners lt)"
    if b: "buckets lt'' = (buckets lt)(?h := es)" "next_ref lt'' = Suc (next_ref lt)"
      and es: "es = ?e # buckets lt ?h \<or> es = buckets lt ?h @ [?e]" for lt'' es
  proof
    have set: "set (buckets lt'' h) = (if h = ?h then insert ?e (set (buckets lt ?h)) else set (buckets lt h))" for h
      using es by (auto simp: b(1))
    have d: "distinct (map lock_ref (buckets lt h))" for h using assms(1) by (simp add: lock_wf_def)
    have "distinct (map lock_ref (buckets lt'' h))" for h
      using es d [of h] d [of ?h] fresh [of _ ?h] by (cases "h = ?h") (force simp: b(1))+
    moreover have "bucket_of (resource_id e) = h \<and> lock_ref e < next_ref lt''" if "e \<in> set (buckets lt'' h)" for e h
      using that assms(1) b(2) by (auto simp: set lock_wf_def less_Suc_eq split: if_splits)
    moreover have "h = h'" if "e \<in> set (buckets lt'' h)" "e' \<in> set (buckets lt'' h')" "lock_ref e = lock_ref e'" for e e' h h'
      using that fresh assms(1) unfolding lock_wf_def by (force simp: set split: if_splits)
    ultimately show "lock_wf lt''" unfolding lock_wf_def by blast
    have new: "owner ?e = (next_ref lt, txn, r)" by (simp add: owner_def)
    show "owners lt'' = insert (next_ref lt, txn, r) (owners lt)"
    proof (rule set_eqI)
      fix p
      show "p \<in> owners lt'' \<longleftrightarrow> p \<in> insert (next_ref lt, txn, r) (owners lt)"
        unfolding mem_owners set insert_iff new [symmetric] by (metis insert_iff)
    qed
  qed
  have keep: "lock_wf lt'' \<and> owners lt'' = owners lt"
    if "\<And>h. map owner (buckets lt'' h) = map owner (buckets lt h)" "next_ref lt'' = next_ref lt" for lt''
    using assms(1) unfolding lock_wf_owner owners_map that by simp
  show ?thesis
  proof (cases "find_lock_entry lt r")
    case None
    then show ?thesis using assms(2) add [of lt' "?e # buckets lt ?h"]
      by (auto simp: lock_attempt_def Let_def)
  next
    case (Some x)
    note att = assms(2) [unfolded lock_attempt_def Let_def Some option.case]
    show ?thesis
    proof (cases "holder x = txn \<and> lock_mode x \<ge> md")
      case True
      with att have "lt' = lt" "new = None" by (simp_all only: if_True simp_thms attempt.inject)
      then show ?thesis using assms(1) by simp
    next
      case no: False
      show ?thesis
      proof (cases "holder x = txn \<and> \<not> locks_conflict (lock_mode x) md")
        case True
        with att no have l: "lt\<lparr>buckets := (buckets lt)(?h := set_mode_first r md (buckets lt ?h))\<rparr> = lt'" "None = new"
          by (simp_all only: if_True if_False simp_thms attempt.inject)
        have "map owner (buckets lt' h) = map owner (buckets lt h)" for h
          by (simp add: owner_set_mode flip: l(1))
        moreover have "next_ref lt' = next_ref lt" by (simp flip: l(1))
        ultimately show ?thesis using keep [of lt'] by (simp flip: l(2))
      next
        case False
        with att no have l: "lt\<lparr>buckets := (buckets lt)(?h := buckets lt ?h @ [?e]), next_ref := next_ref lt + 1\<rparr> = lt'"
          "Some (next_ref lt) = new" by (simp_all split: if_splits)
        have "buckets lt' = (buckets lt)(?h := buckets lt ?h @ [?e])" "next_ref lt' = Suc (next_ref lt)"
          by (simp_all flip: l(1))
        then show ?thesis using add [of lt' "buckets lt ?h @ [?e]"] by (simp flip: l(2))
      qed
    qed
  qed
qed

end
