(* ===== verification/Mvcc.thy ===== *)
theory Mvcc
  imports LockTable
begin

text \<open>
  The MVCC manager of \<open>src/mvcc.c\<close>: transaction ids and timestamps, the 256 slots of active
  transactions, snapshots and visibility, row versions, read and write sets, savepoints, and the
  locks of \<open>LockTable\<close>. Mutexes make each step atomic. A \<open>TransactionDescriptor\<close> pointer is the
  slot it is registered in, found by its id. \<open>None\<close> is undefined behaviour: a read of a freed
  \<open>LockEntry\<close>, or the ninth savepoint in an array of eight. The enumerators of this file that
  \<open>transaction.h\<close> also declares carry the prefix \<open>MV_\<close>.
\<close>

section \<open>Data\<close>

datatype isolation_level =
    ISOLATION_READ_UNCOMMITTED | ISOLATION_READ_COMMITTED
  | ISOLATION_REPEATABLE_READ | ISOLATION_SERIALIZABLE

fun isolation_code :: "isolation_level \<Rightarrow> nat" where
  "isolation_code ISOLATION_READ_UNCOMMITTED = 0"
| "isolation_code ISOLATION_READ_COMMITTED = 1"
| "isolation_code ISOLATION_REPEATABLE_READ = 2"
| "isolation_code ISOLATION_SERIALIZABLE = 3"

datatype mv_state = MV_ACTIVE | MV_PREPARING | MV_COMMITTED | MV_ABORTED | MV_COMMITTING

abbreviation MAX_ACTIVE_TRANSACTIONS :: nat where "MAX_ACTIVE_TRANSACTIONS \<equiv> 256"
abbreviation INVALID_TXN_ID :: u64 where "INVALID_TXN_ID \<equiv> 0"

record snapshot =
  snap_xmin :: u64
  snap_xmax :: u64
  snap_active :: "u64 list"
  snapshot_ts :: u64

record write_entry =
  we_table :: string
  we_row :: u64
  we_old :: nat
  we_new :: nat

record mv_savepoint =
  mvs_name :: string
  write_set_mark :: nat
  read_set_mark :: nat

record txn_desc =
  td_id :: u64
  td_state :: mv_state
  td_isolation :: isolation_level
  start_ts :: u64
  commit_ts :: u64
  td_start_time :: int
  td_snapshot :: "snapshot option"
  write_set :: "write_entry list"
  read_set :: "(string \<times> u64) list option"
  held_locks :: "nat list"
  td_savepoints :: "mv_savepoint list"
  is_distributed :: bool
  coordinator_id :: "string option"
  user_name :: "string option"

record mvcc =
  next_id :: u64
  current_timestamp :: u64
  active_txns :: "txn_desc option list"
  active_count :: int
  commit_log :: "(u64 \<times> u64) list"
  locks :: lock_table
  commits :: u64
  aborts :: u64
  deadlocks :: u64
  lock_waits :: u64

definition mvcc_init :: mvcc where
  "mvcc_init = \<lparr>next_id = 1, current_timestamp = 0, active_txns = replicate MAX_ACTIVE_TRANSACTIONS None,
     active_count = 0, commit_log = [], locks = empty_lock_table,
     commits = 0, aborts = 0, deadlocks = 0, lock_waits = 0\<rparr>"

section \<open>Ids, timestamps, slots\<close>

definition generate_txn_id :: "mvcc \<Rightarrow> u64 \<times> mvcc" where
  "generate_txn_id m = (next_id m, m\<lparr>next_id := next_id m + 1\<rparr>)"

definition generate_timestamp :: "mvcc \<Rightarrow> u64 \<times> mvcc" where
  "generate_timestamp m = (let ts = current_timestamp m + 1 in (ts, m\<lparr>current_timestamp := ts\<rparr>))"

fun has_id :: "u64 \<Rightarrow> txn_desc option \<Rightarrow> bool" where
  "has_id t None = False"
| "has_id t (Some d) = (td_id d = t)"

definition mvcc_get_transaction :: "mvcc \<Rightarrow> u64 \<Rightarrow> txn_desc option" where
  "mvcc_get_transaction m t =
     (case first_idx (has_id t) (active_txns m) of None \<Rightarrow> None | Some i \<Rightarrow> active_txns m ! i)"

text \<open>A write through the descriptor pointer.\<close>

definition update_txn :: "u64 \<Rightarrow> (txn_desc \<Rightarrow> txn_desc) \<Rightarrow> mvcc \<Rightarrow> mvcc" where
  "update_txn t f m =
     (case first_idx (has_id t) (active_txns m) of
        None \<Rightarrow> m
      | Some i \<Rightarrow> m\<lparr>active_txns := (active_txns m)[i := map_option f (active_txns m ! i)]\<rparr>)"

definition unregister :: "u64 \<Rightarrow> mvcc \<Rightarrow> mvcc" where
  "unregister t m =
     (case first_idx (has_id t) (active_txns m) of
        None \<Rightarrow> m
      | Some i \<Rightarrow> m\<lparr>active_txns := (active_txns m)[i := None], active_count := active_count m - 1\<rparr>)"

definition register :: "txn_desc \<Rightarrow> mvcc \<Rightarrow> mvcc" where
  "register d m =
     (case first_idx (\<lambda>s. s = None) (active_txns m) of
        None \<Rightarrow> m
      | Some i \<Rightarrow> m\<lparr>active_txns := (active_txns m)[i := Some d], active_count := active_count m + 1\<rparr>)"

definition mvcc_get_state :: "mvcc \<Rightarrow> u64 \<Rightarrow> mv_state" where
  "mvcc_get_state m t = (case mvcc_get_transaction m t of Some d \<Rightarrow> td_state d | None \<Rightarrow> MV_ABORTED)"

definition mvcc_get_isolation :: "mvcc \<Rightarrow> u64 \<Rightarrow> isolation_level" where
  "mvcc_get_isolation m t =
     (case mvcc_get_transaction m t of Some d \<Rightarrow> td_isolation d | None \<Rightarrow> ISOLATION_READ_COMMITTED)"

definition mvcc_is_active :: "mvcc \<Rightarrow> u64 \<Rightarrow> bool" where
  "mvcc_is_active m t = (case mvcc_get_transaction m t of Some d \<Rightarrow> td_state d = MV_ACTIVE | None \<Rightarrow> False)"

section \<open>Snapshots and visibility\<close>

fun snapshot_scan :: "u64 \<Rightarrow> txn_desc option list \<Rightarrow> u64 \<Rightarrow> u64 list \<Rightarrow> u64 \<times> u64 list" where
  "snapshot_scan self [] xmin active = (xmin, active)"
| "snapshot_scan self (None # ds) xmin active = snapshot_scan self ds xmin active"
| "snapshot_scan self (Some d # ds) xmin active =
     (if td_state d = MV_ACTIVE \<and> td_id d \<noteq> self
      then snapshot_scan self ds (if td_id d < xmin then td_id d else xmin) (active @ [td_id d])
      else snapshot_scan self ds xmin active)"

definition mvcc_take_snapshot :: "mvcc \<Rightarrow> u64 \<Rightarrow> snapshot" where
  "mvcc_take_snapshot m self =
     (let (xmin, active) = snapshot_scan self (active_txns m) (next_id m) []
      in \<lparr>snap_xmin = xmin, snap_xmax = next_id m, snap_active = active, snapshot_ts = current_timestamp m\<rparr>)"

definition mvcc_is_visible :: "u64 \<Rightarrow> snapshot option \<Rightarrow> bool" where
  "mvcc_is_visible t snap =
     (case snap of
        None \<Rightarrow> True
      | Some s \<Rightarrow>
          if t < snap_xmin s then True
          else if t \<ge> snap_xmax s then False
          else if t \<in> set (snap_active s) then False
          else True)"

record tuple_header =
  tup_xmin :: u64
  tup_xmax :: u64
  hint_committed :: bool
  hint_aborted :: bool

definition mvcc_tuple_visible :: "mvcc \<Rightarrow> tuple_header option \<Rightarrow> u64 \<Rightarrow> bool" where
  "mvcc_tuple_visible m tuple reader_txn =
     (case tuple of
        None \<Rightarrow> False
      | Some tup \<Rightarrow>
          (case mvcc_get_transaction m reader_txn of
             None \<Rightarrow> False
           | Some reader \<Rightarrow>
               if tup_xmin tup = reader_txn then tup_xmax tup = 0 \<or> tup_xmax tup \<noteq> reader_txn
               else if hint_aborted tup then False
               else if \<not> hint_committed tup \<and>
                 (let state = mvcc_get_state m (tup_xmin tup)
                  in state = MV_ABORTED \<or>
                     state \<noteq> MV_COMMITTED \<and> isolation_code (td_isolation reader) > 0) then False
               else if td_snapshot reader \<noteq> None \<and> \<not> mvcc_is_visible (tup_xmin tup) (td_snapshot reader) then False
               else if tup_xmax tup \<noteq> 0 \<and>
                 (tup_xmax tup = reader_txn \<or>
                  mvcc_get_state m (tup_xmax tup) = MV_COMMITTED \<and>
                    (td_snapshot reader = None \<or> mvcc_is_visible (tup_xmax tup) (td_snapshot reader))) then False
               else True))"

record row_version =
  created_by :: u64
  deleted_by :: u64
  create_ts :: u64
  delete_ts :: u64
  version_data :: bytes

definition mvcc_version_visible :: "mvcc \<Rightarrow> row_version \<Rightarrow> u64 \<Rightarrow> bool" where
  "mvcc_version_visible m v reader_txn =
     (case mvcc_get_transaction m reader_txn of
        None \<Rightarrow> False
      | Some reader \<Rightarrow>
          if created_by v = reader_txn then deleted_by v = 0 \<or> deleted_by v \<noteq> reader_txn
          else if \<not> mvcc_is_visible (created_by v) (td_snapshot reader) then False
          else if deleted_by v \<noteq> 0 \<and> mvcc_is_visible (deleted_by v) (td_snapshot reader) then False
          else True)"

definition mvcc_create_version :: "mvcc \<Rightarrow> u64 \<Rightarrow> bytes \<Rightarrow> row_version \<times> mvcc" where
  "mvcc_create_version m t data =
     (let (ts, m) = generate_timestamp m
      in (\<lparr>created_by = t, deleted_by = 0, create_ts = ts, delete_ts = 0, version_data = data\<rparr>, m))"

definition mvcc_mark_deleted :: "mvcc \<Rightarrow> row_version \<Rightarrow> u64 \<Rightarrow> row_version \<times> mvcc" where
  "mvcc_mark_deleted m v t =
     (let (ts, m) = generate_timestamp m in (v\<lparr>deleted_by := t, delete_ts := ts\<rparr>, m))"

text \<open>A version chain is its versions from oldest to newest; the pointer passed is at \<open>i\<close>. The first
  loop goes to the newest, the second back along \<open>prev\<close>.\<close>

fun walk_back :: "mvcc \<Rightarrow> u64 \<Rightarrow> row_version list \<Rightarrow> row_version option" where
  "walk_back m reader [] = None"
| "walk_back m reader (v # older) =
     (if mvcc_version_visible m v reader then Some v else walk_back m reader older)"

definition mvcc_get_visible_version :: "mvcc \<Rightarrow> row_version list \<Rightarrow> u64 \<Rightarrow> row_version option" where
  "mvcc_get_visible_version m chain reader = walk_back m reader (rev chain)"

section \<open>Locks\<close>

text \<open>One turn of the loop of \<open>mvcc_acquire_lock\<close>; \<open>None\<close> is the wait.\<close>

definition acquire_attempt :: "u64 \<Rightarrow> string \<Rightarrow> lock_mode \<Rightarrow> lock_granularity \<Rightarrow> mvcc \<Rightarrow> mvcc option" where
  "acquire_attempt t resource mode gran m =
     (case lock_attempt (locks m) t resource mode gran of
        Blocked \<Rightarrow> None
      | Granted lt new \<Rightarrow>
          Some (case new of
                  None \<Rightarrow> m\<lparr>locks := lt\<rparr>
                | Some r \<Rightarrow> update_txn t (\<lambda>d :: txn_desc. d\<lparr>held_locks := held_locks d @ [r]\<rparr>) (m\<lparr>locks := lt\<rparr>)))"

text \<open>The whole loop: \<open>others\<close> lists, for every retry before the timeout, what the other threads did
  while this one slept.\<close>

fun acquire_loop :: "(mvcc \<Rightarrow> mvcc) list \<Rightarrow> u64 \<Rightarrow> string \<Rightarrow> lock_mode \<Rightarrow> lock_granularity \<Rightarrow> mvcc \<Rightarrow> int \<times> mvcc" where
  "acquire_loop [] t resource mode gran m =
     (case acquire_attempt t resource mode gran m of
        Some m \<Rightarrow> (0, m)
      | None \<Rightarrow> (-1, m\<lparr>lock_waits := lock_waits m + 1\<rparr>))"
| "acquire_loop (f # others) t resource mode gran m =
     (case acquire_attempt t resource mode gran m of
        Some m \<Rightarrow> (0, m)
      | None \<Rightarrow> acquire_loop others t resource mode gran (f m))"

definition mvcc_acquire_lock ::
    "(mvcc \<Rightarrow> mvcc) list \<Rightarrow> u64 \<Rightarrow> string option \<Rightarrow> lock_mode \<Rightarrow> lock_granularity \<Rightarrow> mvcc \<Rightarrow> int \<times> mvcc" where
  "mvcc_acquire_lock others t resource mode gran m =
     (case resource of
        None \<Rightarrow> (-1, m)
      | Some res \<Rightarrow>
          if mvcc_get_transaction m t = None then (-1, m)
          else acquire_loop others t res mode gran m)"

definition mvcc_release_lock :: "u64 \<Rightarrow> string option \<Rightarrow> mvcc \<Rightarrow> int \<times> mvcc" where
  "mvcc_release_lock t resource m =
     (case resource of
        None \<Rightarrow> (-1, m)
      | Some res \<Rightarrow> (let (r, lt) = release_lock (locks m) t res in (r, m\<lparr>locks := lt\<rparr>)))"

definition mvcc_release_all_locks :: "u64 \<Rightarrow> mvcc \<Rightarrow> (int \<times> mvcc) option" where
  "mvcc_release_all_locks t m =
     (case mvcc_get_transaction m t of
        None \<Rightarrow> Some (-1, m)
      | Some d \<Rightarrow>
          (case release_refs (held_locks d) (locks m) of
             None \<Rightarrow> None
           | Some lt \<Rightarrow> Some (0, update_txn t (\<lambda>d :: txn_desc. d\<lparr>held_locks := []\<rparr>) (m\<lparr>locks := lt\<rparr>))))"

definition mvcc_has_lock :: "u64 \<Rightarrow> string \<Rightarrow> lock_mode \<Rightarrow> mvcc \<Rightarrow> bool" where
  "mvcc_has_lock t resource mode m = has_lock (locks m) t resource mode"

definition mvcc_upgrade_lock :: "(mvcc \<Rightarrow> mvcc) list \<Rightarrow> u64 \<Rightarrow> string option \<Rightarrow> lock_mode \<Rightarrow> mvcc \<Rightarrow> int \<times> mvcc" where
  "mvcc_upgrade_lock others t resource mode m =
     mvcc_acquire_lock others t resource mode MVCC_LOCK_GRANULARITY_ROW m"

section \<open>Transactions\<close>

definition mvcc_begin_transaction :: "int \<Rightarrow> isolation_level \<Rightarrow> string option \<Rightarrow> mvcc \<Rightarrow> u64 \<times> mvcc" where
  "mvcc_begin_transaction now level usr m =
     (let (t, m) = generate_txn_id m;
          (ts, m) = generate_timestamp m;
          d = \<lparr>td_id = t, td_state = MV_ACTIVE, td_isolation = level, start_ts = ts, commit_ts = 0,
               td_start_time = now,
               td_snapshot = (if isolation_code level \<ge> 2 then Some (mvcc_take_snapshot m t) else None),
               write_set = [], read_set = (if level = ISOLATION_SERIALIZABLE then Some [] else None),
               held_locks = [], td_savepoints = [], is_distributed = False, coordinator_id = None,
               user_name = usr\<rparr>
      in (t, register d m))"

definition mvcc_abort_transaction :: "u64 \<Rightarrow> mvcc \<Rightarrow> (int \<times> mvcc) option" where
  "mvcc_abort_transaction t m =
     (case mvcc_get_transaction m t of
        None \<Rightarrow> Some (-1, m)
      | Some d \<Rightarrow>
          (case mvcc_release_all_locks t (update_txn t (\<lambda>d :: txn_desc. d\<lparr>td_state := MV_ABORTED\<rparr>) m) of
             None \<Rightarrow> None
           | Some (r, m) \<Rightarrow> Some (0, unregister t (m\<lparr>aborts := aborts m + 1\<rparr>))))"

text \<open>Both conflict checks of the source are loops and comments that find nothing.\<close>

definition mvcc_check_write_conflict :: "u64 \<Rightarrow> mvcc \<Rightarrow> bool" where
  "mvcc_check_write_conflict t m = (mvcc_get_transaction m t = None)"

definition mvcc_check_read_conflict :: "u64 \<Rightarrow> mvcc \<Rightarrow> bool" where
  "mvcc_check_read_conflict t m = (mvcc_get_transaction m t = None)"

definition mvcc_commit_transaction :: "u64 \<Rightarrow> mvcc \<Rightarrow> (int \<times> mvcc) option" where
  "mvcc_commit_transaction t m =
     (case mvcc_get_transaction m t of
        None \<Rightarrow> Some (-1, m)
      | Some d \<Rightarrow>
          if td_state d \<noteq> MV_ACTIVE then Some (-1, m)
          else if td_isolation d = ISOLATION_SERIALIZABLE \<and>
            (mvcc_check_write_conflict t m \<or> mvcc_check_read_conflict t m)
          then map_option (\<lambda>(r, m). (-1, m)) (mvcc_abort_transaction t m)
          else
            let m = update_txn t (\<lambda>d :: txn_desc. d\<lparr>td_state := MV_COMMITTING\<rparr>) m;
                (ts, m) = generate_timestamp m;
                m = update_txn t (\<lambda>d :: txn_desc. d\<lparr>commit_ts := ts\<rparr>) m;
                m = m\<lparr>commit_log := commit_log m @ [(t, ts)]\<rparr>
            in (case mvcc_release_all_locks t m of
                  None \<Rightarrow> None
                | Some (r, m) \<Rightarrow>
                    let m = update_txn t (\<lambda>d :: txn_desc. d\<lparr>td_state := MV_COMMITTED\<rparr>) m;
                        m = m\<lparr>commits := commits m + 1\<rparr>
                    in Some (0, unregister t m)))"

section \<open>Savepoints and tracking\<close>

definition mvcc_create_savepoint :: "u64 \<Rightarrow> string option \<Rightarrow> mvcc \<Rightarrow> (int \<times> mvcc) option" where
  "mvcc_create_savepoint t name m =
     (case (mvcc_get_transaction m t, name) of
        (Some d, Some nm) \<Rightarrow>
          if length (td_savepoints d) \<ge> 8 then None
          else
            let sp = \<lparr>mvs_name = nm, write_set_mark = length (write_set d),
                      read_set_mark = (case read_set d of None \<Rightarrow> 0 | Some rs \<Rightarrow> length rs)\<rparr>
            in Some (0, update_txn t (\<lambda>d :: txn_desc. d\<lparr>td_savepoints := td_savepoints d @ [sp]\<rparr>) m)
      | _ \<Rightarrow> Some (-1, m))"

text \<open>The search from the newest savepoint down.\<close>

definition last_savepoint :: "string \<Rightarrow> mv_savepoint list \<Rightarrow> nat option" where
  "last_savepoint name sps =
     (case first_idx (\<lambda>sp. strcmp (mvs_name sp) name = 0) (rev sps) of
        None \<Rightarrow> None
      | Some k \<Rightarrow> Some (length sps - 1 - k))"

definition mvcc_rollback_to_savepoint :: "u64 \<Rightarrow> string option \<Rightarrow> mvcc \<Rightarrow> int \<times> mvcc" where
  "mvcc_rollback_to_savepoint t name m =
     (case (mvcc_get_transaction m t, name) of
        (Some d, Some nm) \<Rightarrow>
          (case last_savepoint nm (td_savepoints d) of
             None \<Rightarrow> (-1, m)
           | Some i \<Rightarrow>
               (let sp = td_savepoints d ! i in
                (0, update_txn t
                      (\<lambda>d :: txn_desc. d\<lparr>write_set := take (write_set_mark sp) (write_set d),
                            read_set := map_option (take (read_set_mark sp)) (read_set d),
                            td_savepoints := take (i + 1) (td_savepoints d)\<rparr>) m)))
      | _ \<Rightarrow> (-1, m))"

definition mvcc_release_savepoint :: "u64 \<Rightarrow> string option \<Rightarrow> mvcc \<Rightarrow> int \<times> mvcc" where
  "mvcc_release_savepoint t name m =
     (case (mvcc_get_transaction m t, name) of
        (Some d, Some nm) \<Rightarrow>
          if \<exists>sp \<in> set (td_savepoints d). strcmp (mvs_name sp) nm = 0
          then (0, update_txn t
                     (\<lambda>d :: txn_desc. d\<lparr>td_savepoints := remove_first (\<lambda>sp. strcmp (mvs_name sp) nm = 0) (td_savepoints d)\<rparr>) m)
          else (-1, m)
      | _ \<Rightarrow> (-1, m))"

definition mvcc_track_write :: "u64 \<Rightarrow> string \<Rightarrow> u64 \<Rightarrow> nat \<Rightarrow> nat \<Rightarrow> mvcc \<Rightarrow> int \<times> mvcc" where
  "mvcc_track_write t tbl row old new m =
     (if mvcc_get_transaction m t = None then (-1, m)
      else (0, update_txn t
             (\<lambda>d :: txn_desc. d\<lparr>write_set := write_set d @ [\<lparr>we_table = tbl, we_row = row, we_old = old, we_new = new\<rparr>]\<rparr>) m))"

definition mvcc_track_read :: "u64 \<Rightarrow> string \<Rightarrow> u64 \<Rightarrow> mvcc \<Rightarrow> int \<times> mvcc" where
  "mvcc_track_read t tbl row m =
     (case mvcc_get_transaction m t of
        None \<Rightarrow> (-1, m)
      | Some d \<Rightarrow>
          if read_set d = None then (-1, m)
          else (0, update_txn t (\<lambda>d :: txn_desc. d\<lparr>read_set := map_option (\<lambda>rs. rs @ [(tbl, row)]) (read_set d)\<rparr>) m))"

section \<open>Deadlock victims, garbage collection, statistics\<close>

definition mvcc_check_deadlock :: "u64 \<Rightarrow> mvcc \<Rightarrow> bool" where
  "mvcc_check_deadlock t m = False"

fun choose_victim_loop :: "mvcc \<Rightarrow> u64 list \<Rightarrow> u64 \<Rightarrow> u64 \<Rightarrow> u64" where
  "choose_victim_loop m [] victim youngest = victim"
| "choose_victim_loop m (t # ts) victim youngest =
     (case mvcc_get_transaction m t of
        Some d \<Rightarrow> if start_ts d > youngest then choose_victim_loop m ts t (start_ts d)
                  else choose_victim_loop m ts victim youngest
      | None \<Rightarrow> choose_victim_loop m ts victim youngest)"

definition mvcc_choose_victim :: "mvcc \<Rightarrow> u64 list \<Rightarrow> u64" where
  "mvcc_choose_victim m cycle =
     (case cycle of [] \<Rightarrow> INVALID_TXN_ID | t # _ \<Rightarrow> choose_victim_loop m cycle t 0)"

fun oldest_loop :: "txn_desc option list \<Rightarrow> u64 \<Rightarrow> u64" where
  "oldest_loop [] oldest = oldest"
| "oldest_loop (None # ds) oldest = oldest_loop ds oldest"
| "oldest_loop (Some d # ds) oldest =
     oldest_loop ds (if td_state d = MV_ACTIVE \<and> td_id d < oldest then td_id d else oldest)"

text \<open>The function returns \<open>int\<close>: the id is cut to 32 bits.\<close>

definition mvcc_get_oldest_active_txn :: "mvcc \<Rightarrow> int" where
  "mvcc_get_oldest_active_txn m = int_of_u32 (unat (oldest_loop (active_txns m) (next_id m)) mod 4294967296)"

definition mvcc_vacuum_table :: "string option \<Rightarrow> mvcc \<Rightarrow> int" where
  "mvcc_vacuum_table name m = (case name of None \<Rightarrow> -1 | Some _ \<Rightarrow> 0)"

definition mvcc_get_stats :: "mvcc \<Rightarrow> u64 \<times> u64 \<times> u64 \<times> u64" where
  "mvcc_get_stats m = (commits m, aborts m, deadlocks m, lock_waits m)"

section \<open>Two-phase commit\<close>

definition mvcc_2pc_begin :: "int \<Rightarrow> string option \<Rightarrow> mvcc \<Rightarrow> u64 \<times> mvcc" where
  "mvcc_2pc_begin now coordinator m =
     (let (t, m) = mvcc_begin_transaction now ISOLATION_SERIALIZABLE None m
      in (t, update_txn t (\<lambda>d :: txn_desc. d\<lparr>is_distributed := True, coordinator_id := coordinator\<rparr>) m))"

definition mvcc_2pc_prepare :: "u64 \<Rightarrow> mvcc \<Rightarrow> int \<times> mvcc" where
  "mvcc_2pc_prepare t m =
     (if mvcc_get_transaction m t = None then (-1, m)
      else (0, update_txn t (\<lambda>d :: txn_desc. d\<lparr>td_state := MV_PREPARING\<rparr>) m))"

definition mvcc_2pc_commit :: "u64 \<Rightarrow> mvcc \<Rightarrow> (int \<times> mvcc) option" where
  "mvcc_2pc_commit t m = mvcc_commit_transaction t m"

definition mvcc_2pc_abort :: "u64 \<Rightarrow> mvcc \<Rightarrow> (int \<times> mvcc) option" where
  "mvcc_2pc_abort t m = mvcc_abort_transaction t m"

end
