(* ===== verification/MvccInvariant.thy ===== *)
theory MvccInvariant
  imports Mvcc
begin

text \<open>
  The MVCC manager as a state machine. Here its transactions lock strictly: a lock is not asked for in
  mode \<open>NONE\<close> and is given back by ending the transaction, and a transaction begins in one piece; the
  invariant ties the lock table to the transactions. \<open>MvccSystem\<close> drops these restrictions.
  \<open>mvcc_shutdown\<close> is left out.
\<close>

section \<open>Slots\<close>

definition registered :: "mvcc \<Rightarrow> txn_desc \<Rightarrow> bool" where
  "registered m d \<longleftrightarrow> Some d \<in> set (active_txns m)"

definition ids_distinct :: "txn_desc option list \<Rightarrow> bool" where
  "ids_distinct ds \<longleftrightarrow> (\<forall>i < length ds. \<forall>j < length ds. \<forall>d d'.
     ds ! i = Some d \<longrightarrow> ds ! j = Some d' \<longrightarrow> td_id d = td_id d' \<longrightarrow> i = j)"

lemma get_transaction_Some:
  assumes "mvcc_get_transaction m t = Some d"
  obtains i where "i < length (active_txns m)" "active_txns m ! i = Some d" "td_id d = t"
    "first_idx (has_id t) (active_txns m) = Some i"
proof -
  obtain i where i: "first_idx (has_id t) (active_txns m) = Some i" "active_txns m ! i = Some d"
    using assms by (auto simp: mvcc_get_transaction_def split: option.splits)
  with that show thesis using first_idx_SomeD [OF i(1)] by simp
qed

lemma get_transaction_registered: "mvcc_get_transaction m t = Some d \<Longrightarrow> registered m d \<and> td_id d = t"
  by (erule get_transaction_Some) (auto simp: registered_def in_set_conv_nth)

lemma registered_get:
  assumes "ids_distinct (active_txns m)" and "registered m d"
  shows "mvcc_get_transaction m (td_id d) = Some d"
proof -
  obtain j where j: "j < length (active_txns m)" "active_txns m ! j = Some d"
    using assms(2) by (auto simp: registered_def in_set_conv_nth)
  have "\<exists>i. first_idx (has_id (td_id d)) (active_txns m) = Some i"
    using j first_idx_None_nth [of "has_id (td_id d)" "active_txns m"]
    by (cases "first_idx (has_id (td_id d)) (active_txns m)") auto
  then obtain i where i: "first_idx (has_id (td_id d)) (active_txns m) = Some i" by blast
  note D = first_idx_SomeD [OF i]
  then obtain d' where "active_txns m ! i = Some d'" "td_id d' = td_id d"
    by (cases "active_txns m ! i") auto
  then have "i = j" using assms(1) D(1) j unfolding ids_distinct_def by blast
  then show ?thesis using i j by (simp add: mvcc_get_transaction_def)
qed

lemma update_txn_frame [simp]:
  "next_id (update_txn t f m) = next_id m" "locks (update_txn t f m) = locks m"
  "active_count (update_txn t f m) = active_count m" "current_timestamp (update_txn t f m) = current_timestamp m"
  "length (active_txns (update_txn t f m)) = length (active_txns m)"
  by (simp_all add: update_txn_def split: option.split)

lemma map_id_update:
  assumes "\<And>d. td_id (f d) = td_id d" and "j < length xs"
  shows "has_id t' (xs[i := map_option f (xs ! i)] ! j) = has_id t' (xs ! j)"
  using assms by (cases "xs ! i") (auto simp: nth_update)

lemma get_update_txn:
  assumes "\<And>d. td_id (f d) = td_id d"
  shows "mvcc_get_transaction (update_txn t f m) t' =
    (if t' = t then map_option f (mvcc_get_transaction m t) else mvcc_get_transaction m t')"
proof (cases "first_idx (has_id t) (active_txns m)")
  case None
  then show ?thesis by (simp add: update_txn_def mvcc_get_transaction_def)
next
  case (Some i)
  note D = first_idx_SomeD [OF Some]
  let ?xs = "(active_txns m)[i := map_option f (active_txns m ! i)]"
  have same: "first_idx (has_id t') ?xs = first_idx (has_id t') (active_txns m)" for t'
    by (rule first_idx_cong) (simp_all add: map_id_update assms)
  have "j \<noteq> i" if "first_idx (has_id t') (active_txns m) = Some j" "t' \<noteq> t" for j
    using first_idx_SomeD [OF that(1)] D(2) that(2) by (cases "active_txns m ! i") auto
  then show ?thesis using D Some same
    by (auto simp: update_txn_def mvcc_get_transaction_def split: option.split)
qed

lemma ids_distinct_update:
  assumes "\<And>d. td_id (f d) = td_id d" and "ids_distinct (active_txns m)"
  shows "ids_distinct (active_txns (update_txn t f m))"
proof (cases "first_idx (has_id t) (active_txns m)")
  case None
  then show ?thesis using assms(2) by (simp add: update_txn_def)
next
  case (Some i)
  let ?xs = "(active_txns m)[i := map_option f (active_txns m ! i)]"
  have old: "\<exists>d0. active_txns m ! k = Some d0 \<and> td_id d0 = td_id d"
    if "?xs ! k = Some d" "k < length (active_txns m)" for k d
    using that assms(1) by (auto simp: nth_update split: if_splits)
  have "ids_distinct ?xs"
    unfolding ids_distinct_def
  proof (intro allI impI)
    fix k j d d'
    assume a: "k < length ?xs" "j < length ?xs" "?xs ! k = Some d" "?xs ! j = Some d'" "td_id d = td_id d'"
    have "k < length (active_txns m)" "j < length (active_txns m)" using a(1,2) by simp_all
    then obtain d0 d1 where "active_txns m ! k = Some d0" "td_id d0 = td_id d"
      "active_txns m ! j = Some d1" "td_id d1 = td_id d'" using old [OF a(3)] old [OF a(4)] by blast
    then show "k = j" using assms(2) a unfolding ids_distinct_def by (metis length_list_update)
  qed
  with Some show ?thesis by (simp add: update_txn_def)
qed

lemma registered_update:
  assumes "registered (update_txn t f m) d"
  shows "registered m d \<or> (\<exists>d0. registered m d0 \<and> d = f d0)"
proof (cases "first_idx (has_id t) (active_txns m)")
  case None
  then show ?thesis using assms by (simp add: update_txn_def)
next
  case (Some i)
  then obtain k where k: "k < length (active_txns m)" "(active_txns m)[i := map_option f (active_txns m ! i)] ! k = Some d"
    using assms by (auto simp: registered_def update_txn_def in_set_conv_nth)
  then show ?thesis by (auto simp: nth_update registered_def in_set_conv_nth split: if_splits)
qed

lemma unregister_frame [simp]: "next_id (unregister t m) = next_id m" "locks (unregister t m) = locks m"
  "length (active_txns (unregister t m)) = length (active_txns m)"
  by (simp_all add: unregister_def split: option.split)

lemma get_unregister_other:
  assumes "t' \<noteq> t"
  shows "mvcc_get_transaction (unregister t m) t' = mvcc_get_transaction m t'"
proof (cases "first_idx (has_id t) (active_txns m)")
  case None
  then show ?thesis by (simp add: unregister_def)
next
  case (Some i)
  note D = first_idx_SomeD [OF Some]
  let ?xs = "(active_txns m)[i := None]"
  have "\<not> has_id t' (active_txns m ! i)" using D(2) assms by (cases "active_txns m ! i") auto
  then have same: "first_idx (has_id t') ?xs = first_idx (has_id t') (active_txns m)"
    by (intro first_idx_cong) (auto simp: nth_update)
  have "j \<noteq> i" if "first_idx (has_id t') (active_txns m) = Some j" for j
    using first_idx_SomeD [OF that] \<open>\<not> has_id t' (active_txns m ! i)\<close> by auto
  then show ?thesis using Some same
    by (auto simp: unregister_def mvcc_get_transaction_def split: option.split)
qed

lemma get_unregister_same:
  assumes "ids_distinct (active_txns m)"
  shows "mvcc_get_transaction (unregister t m) t = None"
proof (cases "mvcc_get_transaction (unregister t m) t")
  case (Some d)
  then obtain j where j: "j < length (active_txns m)" "active_txns (unregister t m) ! j = Some d" "td_id d = t"
    by (auto elim: get_transaction_Some)
  show ?thesis
  proof (cases "first_idx (has_id t) (active_txns m)")
    case None
    then show ?thesis using Some by (simp add: unregister_def mvcc_get_transaction_def)
  next
    case (Some i)
    note D = first_idx_SomeD [OF Some]
    then obtain d0 where "active_txns m ! i = Some d0" "td_id d0 = t" by (cases "active_txns m ! i") auto
    moreover have "(active_txns m)[i := None] ! j = Some d" using j(2) Some by (simp add: unregister_def)
    then have "j \<noteq> i" "active_txns m ! j = Some d" using j(1) by (auto simp: nth_update split: if_splits)
    ultimately show ?thesis using assms j D(1) unfolding ids_distinct_def by metis
  qed
qed

lemma ids_distinct_none: "ids_distinct ds \<Longrightarrow> ids_distinct (ds[i := None])"
  unfolding ids_distinct_def by (simp add: nth_update)

lemma unregister_slots: "active_txns (unregister t m) = active_txns m \<or> (\<exists>i. active_txns (unregister t m) = (active_txns m)[i := None])"
  by (auto simp: unregister_def split: option.split)

section \<open>The invariant\<close>

definition slots_used :: "txn_desc option list \<Rightarrow> int" where
  "slots_used ds = int (length (filter (\<lambda>s. s \<noteq> None) ds))"

lemma slots_used_simps [simp]:
  "slots_used [] = 0" "slots_used (d # ds) = (if d \<noteq> None then 1 else 0) + slots_used ds"
  by (simp_all add: slots_used_def)

lemma slots_used_update:
  "i < length ds \<Longrightarrow> slots_used (ds[i := s]) =
     slots_used ds - (if ds ! i \<noteq> None then 1 else 0) + (if s \<noteq> None then 1 else 0)"
proof (induction ds arbitrary: i)
  case (Cons d ds)
  show ?case
  proof (cases i)
    case (Suc j)
    with Cons show ?thesis by simp
  qed simp
qed simp

text \<open>Every lock in the table is remembered by its registered holder, and every remembered lock is
  in the table with that holder.\<close>

definition locks_linked :: "mvcc \<Rightarrow> bool" where
  "locks_linked m \<longleftrightarrow>
     (\<forall>r t res. (r, t, res) \<in> owners (locks m) \<longrightarrow>
        (\<exists>d. mvcc_get_transaction m t = Some d \<and> r \<in> set (held_locks d))) \<and>
     (\<forall>t d. mvcc_get_transaction m t = Some d \<longrightarrow> distinct (held_locks d) \<and>
        (\<forall>r \<in> set (held_locks d). \<exists>res. (r, t, res) \<in> owners (locks m)))"

text \<open>What every call keeps, and what strict locking keeps besides.\<close>

definition slots_wf :: "mvcc \<Rightarrow> bool" where
  "slots_wf m \<longleftrightarrow> length (active_txns m) = MAX_ACTIVE_TRANSACTIONS \<and> ids_distinct (active_txns m) \<and>
     (\<forall>d. registered m d \<longrightarrow> td_id d < next_id m) \<and> active_count m = slots_used (active_txns m)"

definition mvcc_wf :: "mvcc \<Rightarrow> bool" where
  "mvcc_wf m \<longleftrightarrow> length (active_txns m) = MAX_ACTIVE_TRANSACTIONS \<and> ids_distinct (active_txns m) \<and>
     (\<forall>d. registered m d \<longrightarrow> td_id d < next_id m) \<and>
     active_count m = slots_used (active_txns m) \<and>
     lock_wf (locks m) \<and> table_exclusive (locks m) \<and> locks_linked m"

lemma wf_slots: "mvcc_wf m \<Longrightarrow> slots_wf m"
  by (simp add: mvcc_wf_def slots_wf_def)

lemma get_cong: "active_txns m = active_txns m' \<Longrightarrow> mvcc_get_transaction m t = mvcc_get_transaction m' t"
  by (cases "first_idx (has_id t) (active_txns m')") (simp_all add: mvcc_get_transaction_def)

lemma link_owner: "locks_linked m \<Longrightarrow> (r, t, res) \<in> owners (locks m) \<Longrightarrow>
    \<exists>d. mvcc_get_transaction m t = Some d \<and> r \<in> set (held_locks d)"
  unfolding locks_linked_def by blast

lemma link_held: "locks_linked m \<Longrightarrow> mvcc_get_transaction m t = Some d \<Longrightarrow>
    distinct (held_locks d) \<and> (\<forall>r \<in> set (held_locks d). \<exists>res. (r, t, res) \<in> owners (locks m))"
  unfolding locks_linked_def by blast

lemma mvcc_wf_cong:
  assumes "active_txns m' = active_txns m" "next_id m' = next_id m" "locks m' = locks m" "active_count m' = active_count m"
  shows "mvcc_wf m' = mvcc_wf m"
  using assms get_cong [OF assms(1)] by (simp add: mvcc_wf_def locks_linked_def registered_def)

lemma get_id_less:
  assumes "slots_wf m" and "mvcc_get_transaction m t = Some d"
  shows "t < next_id m" "td_id d = t"
  using get_transaction_registered [OF assms(2)] assms(1) by (auto simp: slots_wf_def)

lemma update_slots:
  assumes "\<And>d. td_id (f d) = td_id d" and "slots_wf m"
  shows "length (active_txns (update_txn t f m)) = MAX_ACTIVE_TRANSACTIONS"
    "ids_distinct (active_txns (update_txn t f m))"
    "\<forall>d. registered (update_txn t f m) d \<longrightarrow> td_id d < next_id m"
    "slots_used (active_txns (update_txn t f m)) = active_count m"
proof -
  show "length (active_txns (update_txn t f m)) = MAX_ACTIVE_TRANSACTIONS" using assms(2) by (simp add: slots_wf_def)
  show "ids_distinct (active_txns (update_txn t f m))" using assms by (intro ids_distinct_update) (simp_all add: slots_wf_def)
  show "\<forall>d. registered (update_txn t f m) d \<longrightarrow> td_id d < next_id m"
    using registered_update [of t f m] assms unfolding slots_wf_def by metis
  show "slots_used (active_txns (update_txn t f m)) = active_count m"
  proof (cases "first_idx (has_id t) (active_txns m)")
    case None
    then show ?thesis using assms(2) by (simp add: update_txn_def slots_wf_def)
  next
    case (Some i)
    then show ?thesis using assms(2) first_idx_SomeD [OF Some]
      by (cases "active_txns m ! i") (auto simp: update_txn_def slots_wf_def slots_used_update)
  qed
qed

lemma wf_update:
  assumes "\<And>d. td_id (f d) = td_id d" and "\<And>d. held_locks (f d) = held_locks d" and "mvcc_wf m"
  shows "mvcc_wf (update_txn t f m)"
proof -
  have link: "locks_linked m" using assms(3) by (simp add: mvcc_wf_def)
  note get = get_update_txn [of f t m, OF assms(1)]
  have "locks_linked (update_txn t f m)"
    unfolding locks_linked_def
  proof (intro conjI allI impI)
    fix r t' res assume "(r, t', res) \<in> owners (locks (update_txn t f m))"
    then have "(r, t', res) \<in> owners (locks m)" by simp
    from link_owner [OF link this] obtain d where "mvcc_get_transaction m t' = Some d" "r \<in> set (held_locks d)" by blast
    then show "\<exists>d. mvcc_get_transaction (update_txn t f m) t' = Some d \<and> r \<in> set (held_locks d)"
      by (cases "t' = t") (simp_all add: get assms(2))
  next
    fix t' d' assume "mvcc_get_transaction (update_txn t f m) t' = Some d'"
    then obtain d where "mvcc_get_transaction m t' = Some d" "held_locks d' = held_locks d"
      by (cases "t' = t") (auto simp: get assms(2))
    with link_held [OF link this(1)] show "distinct (held_locks d')"
      "\<forall>r \<in> set (held_locks d'). \<exists>res. (r, t', res) \<in> owners (locks (update_txn t f m))" by simp_all
  qed
  with update_slots [OF assms(1) wf_slots [OF assms(3)]] assms(3) show ?thesis by (simp add: mvcc_wf_def)
qed

lemma owner_unique:
  assumes "lock_wf lt" and "(r, t, res) \<in> owners lt" and "(r, t', res') \<in> owners lt"
  shows "t' = t \<and> res' = res"
proof -
  obtain h e h' e' where "e \<in> set (buckets lt h)" "owner e = (r, t, res)" "e' \<in> set (buckets lt h')" "owner e' = (r, t', res')"
    using assms(2,3) by (auto simp: mem_owners)
  moreover from this have "e = e'" using lock_wf_unique [OF assms(1)] by (auto simp: owner_def)
  ultimately show ?thesis by auto
qed

text \<open>Ending a transaction: all its locks go, and only those.\<close>

lemma release_all_ok:
  assumes wf: "mvcc_wf m" and d: "mvcc_get_transaction m t = Some d"
  shows "\<exists>m'. mvcc_release_all_locks t m = Some (0, m') \<and> mvcc_wf m' \<and>
    (\<forall>t'. mvcc_get_transaction m' t' = (if t' = t then Some (d\<lparr>held_locks := []\<rparr>) else mvcc_get_transaction m t')) \<and>
    owners (locks m') = {p \<in> owners (locks m). fst (snd p) \<noteq> t} \<and> next_id m' = next_id m \<and>
    commit_log m' = commit_log m"
proof -
  let ?f = "\<lambda>d :: txn_desc. d\<lparr>held_locks := []\<rparr>"
  have link: "locks_linked m" and lw: "lock_wf (locks m)" using wf by (auto simp: mvcc_wf_def)
  have held: "distinct (held_locks d)" "\<And>r. r \<in> set (held_locks d) \<Longrightarrow> \<exists>res. (r, t, res) \<in> owners (locks m)"
    using link_held [OF link d] by auto
  then have "set (held_locks d) \<subseteq> fst ` owners (locks m)" by force
  from release_refs_all [OF lw held(1) this] obtain lt where lt: "release_refs (held_locks d) (locks m) = Some lt"
    "lock_wf lt" "owners lt = {p \<in> owners (locks m). fst p \<notin> set (held_locks d)}" by blast
  have mine: "r \<in> set (held_locks d) \<longleftrightarrow> t' = t" if "(r, t', res) \<in> owners (locks m)" for r t' res
  proof
    assume "r \<in> set (held_locks d)"
    from held(2) [OF this] owner_unique [OF lw _ that] show "t' = t" by blast
  next
    assume "t' = t"
    then show "r \<in> set (held_locks d)" using link_owner [OF link that] d by simp
  qed
  have own: "owners lt = {p \<in> owners (locks m). fst (snd p) \<noteq> t}"
    unfolding lt(3) using mine by auto
  let ?m = "update_txn t ?f (m\<lparr>locks := lt\<rparr>)"
  have get: "mvcc_get_transaction ?m t' = (if t' = t then Some (d\<lparr>held_locks := []\<rparr>) else mvcc_get_transaction m t')" for t'
  proof -
    have "mvcc_get_transaction (m\<lparr>locks := lt\<rparr>) t' = mvcc_get_transaction m t'" for t' by (rule get_cong) simp
    then show ?thesis using get_update_txn [of ?f t "m\<lparr>locks := lt\<rparr>" t'] d by simp
  qed
  have "locks_linked ?m"
    unfolding locks_linked_def
  proof (intro conjI allI impI ballI)
    fix r t' res assume "(r, t', res) \<in> owners (locks ?m)"
    then have "(r, t', res) \<in> owners (locks m)" "t' \<noteq> t" by (auto simp: own)
    then show "\<exists>d. mvcc_get_transaction ?m t' = Some d \<and> r \<in> set (held_locks d)"
      using link_owner [OF link] get by simp
  next
    fix t' d' assume g: "mvcc_get_transaction ?m t' = Some d'"
    show "distinct (held_locks d')" using g get link_held [OF link, of t'] by (auto split: if_splits)
    fix r assume r: "r \<in> set (held_locks d')"
    then have "t' \<noteq> t" "mvcc_get_transaction m t' = Some d'" using g get by (auto split: if_splits)
    then obtain res where "(r, t', res) \<in> owners (locks m)" using link_held [OF link] r by blast
    then show "\<exists>res. (r, t', res) \<in> owners (locks ?m)" using \<open>t' \<noteq> t\<close> by (auto simp: own)
  qed
  moreover have slots: "active_txns ?m = active_txns (update_txn t ?f m)"
    by (simp add: update_txn_def split: option.split)
  have "length (active_txns ?m) = MAX_ACTIVE_TRANSACTIONS" "ids_distinct (active_txns ?m)"
    "\<forall>d. registered ?m d \<longrightarrow> td_id d < next_id ?m" "active_count ?m = slots_used (active_txns ?m)"
    using update_slots [of ?f m t] wf_slots [OF wf] wf unfolding slots registered_def by simp_all
  moreover have "table_exclusive lt"
    using release_refs_exclusive [OF lt(1)] wf by (simp add: mvcc_wf_def)
  ultimately have "mvcc_wf ?m" using lt(2) by (simp add: mvcc_wf_def)
  moreover have "commit_log ?m = commit_log m" by (simp add: update_txn_def split: option.split)
  ultimately show ?thesis using d lt(1) get own
    by (intro exI [of _ ?m]) (simp add: mvcc_release_all_locks_def)
qed

lemma unregister_wf:
  assumes wf: "mvcc_wf m" and d: "mvcc_get_transaction m t = Some d" and free: "held_locks d = []"
  shows "mvcc_wf (unregister t m)"
proof -
  obtain i where i: "first_idx (has_id t) (active_txns m) = Some i" "i < length (active_txns m)" "active_txns m ! i = Some d"
    using d by (auto elim: get_transaction_Some)
  then have u: "unregister t m = m\<lparr>active_txns := (active_txns m)[i := None], active_count := active_count m - 1\<rparr>"
    by (simp add: unregister_def)
  have ids: "ids_distinct (active_txns m)" using wf by (simp add: mvcc_wf_def)
  have link: "locks_linked m" using wf by (simp add: mvcc_wf_def)
  have "locks_linked (unregister t m)"
    unfolding locks_linked_def
  proof (intro conjI allI impI)
    fix r t' res assume "(r, t', res) \<in> owners (locks (unregister t m))"
    then have "(r, t', res) \<in> owners (locks m)" by simp
    from link_owner [OF link this] obtain d' where
      d': "mvcc_get_transaction m t' = Some d'" "r \<in> set (held_locks d')" by blast
    then have "t' \<noteq> t" using d free by auto
    then show "\<exists>d. mvcc_get_transaction (unregister t m) t' = Some d \<and> r \<in> set (held_locks d)"
      using d' get_unregister_other by simp
  next
    fix t' d' assume g: "mvcc_get_transaction (unregister t m) t' = Some d'"
    then have "t' \<noteq> t" using get_unregister_same [OF ids] by auto
    then have "mvcc_get_transaction m t' = Some d'" using g get_unregister_other by simp
    then show "distinct (held_locks d')" "\<forall>r \<in> set (held_locks d'). \<exists>res. (r, t', res) \<in> owners (locks (unregister t m))"
      using link_held [OF link] by auto
  qed
  moreover have "registered m d'" if "registered (unregister t m) d'" for d'
    using that i(2) by (auto simp: registered_def u dest!: set_update_subset_insert [THEN subsetD])
  moreover have "ids_distinct (active_txns (unregister t m))" using ids_distinct_none [OF ids] by (simp add: u)
  moreover have "active_count (unregister t m) = slots_used (active_txns (unregister t m))"
    using wf i by (simp add: u slots_used_update mvcc_wf_def)
  ultimately show ?thesis using wf by (simp add: mvcc_wf_def)
qed

section \<open>Each operation keeps the invariant\<close>

lemma register_frame [simp]: "next_id (register d m) = next_id m" "locks (register d m) = locks m"
  by (simp_all add: register_def split: option.split)

lemma get_fresh:
  assumes "slots_wf m" and "next_id m \<le> t"
  shows "mvcc_get_transaction m t = None"
  using get_id_less [OF assms(1), of t] assms(2) by (cases "mvcc_get_transaction m t") auto

lemma get_register:
  assumes "mvcc_get_transaction m (td_id d) = None"
  shows "mvcc_get_transaction (register d m) t =
    (if t = td_id d then (if None \<in> set (active_txns m) then Some d else None) else mvcc_get_transaction m t)"
proof (cases "first_idx (\<lambda>s. s = None) (active_txns m)")
  case None
  then have "None \<notin> set (active_txns m)" by (auto simp: first_idx_None)
  with None assms show ?thesis by (simp add: register_def)
next
  case (Some i)
  note D = first_idx_SomeD [OF Some]
  have none: "\<not> has_id (td_id d) s" if "s \<in> set (active_txns m)" for s
  proof (cases "first_idx (has_id (td_id d)) (active_txns m)")
    case None
    then show ?thesis using that by (simp add: first_idx_None)
  next
    case (Some k)
    then have "active_txns m ! k \<noteq> None" using first_idx_SomeD(2) [OF Some] by (cases "active_txns m ! k") auto
    with Some assms show ?thesis by (simp add: mvcc_get_transaction_def)
  qed
  let ?xs = "(active_txns m)[i := Some d]"
  have mem: "None \<in> set (active_txns m)" using D(1,2) by (metis nth_mem)
  show ?thesis
  proof (cases "t = td_id d")
    case True
    have "first_idx (has_id t) ?xs = Some i"
      by (rule first_idx_unique) (use D(1) none True in \<open>auto simp: nth_update split: if_splits\<close>)
    then show ?thesis using True Some D(1) mem by (simp add: register_def mvcc_get_transaction_def)
  next
    case False
    then have same: "first_idx (has_id t) ?xs = first_idx (has_id t) (active_txns m)"
      using D(2) by (intro first_idx_cong) (auto simp: nth_update)
    have "j \<noteq> i" if "first_idx (has_id t) (active_txns m) = Some j" for j
      using first_idx_SomeD(2) [OF that] D(2) by auto
    then show ?thesis using False Some same
      by (auto simp: register_def mvcc_get_transaction_def split: option.split)
  qed
qed

lemma register_wf:
  assumes wf: "mvcc_wf m" and new: "mvcc_get_transaction m (td_id d) = None" "td_id d < next_id m" "held_locks d = []"
  shows "mvcc_wf (register d m)"
proof (cases "first_idx (\<lambda>s. s = None) (active_txns m)")
  case None
  then show ?thesis using wf by (simp add: register_def)
next
  case (Some i)
  note D = first_idx_SomeD [OF Some]
  have r: "register d m = m\<lparr>active_txns := (active_txns m)[i := Some d], active_count := active_count m + 1\<rparr>"
    using Some by (simp add: register_def)
  have ids: "ids_distinct (active_txns m)" and link: "locks_linked m" using wf by (auto simp: mvcc_wf_def)
  have "td_id d' \<noteq> td_id d" if "registered m d'" for d'
    using registered_get [OF ids that] new(1) by auto
  then have other: "td_id d' \<noteq> td_id d" if "active_txns m ! j = Some d'" "j < length (active_txns m)" for j d'
    using that by (auto simp: registered_def in_set_conv_nth)
  have "ids_distinct ((active_txns m)[i := Some d])"
    unfolding ids_distinct_def
  proof (intro allI impI)
    fix j k d1 d2
    assume a: "j < length ((active_txns m)[i := Some d])" "k < length ((active_txns m)[i := Some d])"
      "(active_txns m)[i := Some d] ! j = Some d1" "(active_txns m)[i := Some d] ! k = Some d2" "td_id d1 = td_id d2"
    then show "j = k" using ids other [of j d1] other [of k d2]
      unfolding ids_distinct_def by (auto simp: nth_update split: if_splits)
  qed
  moreover have "locks_linked (register d m)"
    unfolding locks_linked_def
  proof (intro conjI allI impI)
    fix q t res assume "(q, t, res) \<in> owners (locks (register d m))"
    then have "(q, t, res) \<in> owners (locks m)" by simp
    from link_owner [OF link this] show "\<exists>d'. mvcc_get_transaction (register d m) t = Some d' \<and> q \<in> set (held_locks d')"
      using new(1) by (auto simp: get_register)
  next
    fix t d' assume "mvcc_get_transaction (register d m) t = Some d'"
    then have "d' = d \<or> mvcc_get_transaction m t = Some d'" using new(1) by (auto simp: get_register split: if_splits)
    then show "distinct (held_locks d')" "\<forall>q \<in> set (held_locks d'). \<exists>res. (q, t, res) \<in> owners (locks (register d m))"
      using new(3) link_held [OF link] by auto
  qed
  moreover have "td_id d' < next_id m" if "registered (register d m) d'" for d'
    using that wf new(2) by (auto simp: r registered_def mvcc_wf_def dest!: set_update_subset_insert [THEN subsetD])
  moreover have "active_count (register d m) = slots_used (active_txns (register d m))"
    using wf D(1,2) by (simp add: r slots_used_update mvcc_wf_def)
  ultimately show ?thesis using wf by (simp add: mvcc_wf_def r)
qed

lemma mvcc_begin_wf:
  assumes wf: "mvcc_wf m" and room: "next_id m \<noteq> - 1"
  shows "mvcc_wf (snd (mvcc_begin_transaction now level usr m))"
proof -
  let ?m = "m\<lparr>next_id := next_id m + 1, current_timestamp := current_timestamp m + 1\<rparr>"
  have less: "next_id m < next_id m + 1" using room by (rule word_less_succ)
  have get: "mvcc_get_transaction ?m t = mvcc_get_transaction m t" for t by (rule get_cong) simp
  have "mvcc_wf ?m"
    using wf less get unfolding mvcc_wf_def locks_linked_def registered_def
    by (auto intro: order.strict_trans)
  moreover have "mvcc_get_transaction ?m (next_id m) = None" using get_fresh [OF wf_slots [OF wf]] get by simp
  ultimately have "mvcc_wf (register d ?m)" if "td_id d = next_id m" "held_locks d = []" for d
    using register_wf [of ?m d] that less by simp
  then show ?thesis
    by (simp add: mvcc_begin_transaction_def generate_txn_id_def generate_timestamp_def Let_def)
qed

lemma acquire_wf:
  assumes wf: "mvcc_wf m" and d: "mvcc_get_transaction m t = Some d" and md: "md \<noteq> MVCC_LOCK_NONE"
    and a: "acquire_attempt t res md g m = Some m'"
  shows "mvcc_wf m'"
proof -
  obtain lt new where l: "lock_attempt (locks m) t res md g = Granted lt new"
    and m': "m' = (case new of None \<Rightarrow> m\<lparr>locks := lt\<rparr>
      | Some r \<Rightarrow> update_txn t (\<lambda>d :: txn_desc. d\<lparr>held_locks := held_locks d @ [r]\<rparr>) (m\<lparr>locks := lt\<rparr>))"
    using a by (auto simp: acquire_attempt_def split: attempt.splits)
  have lw: "lock_wf (locks m)" and link: "locks_linked m" and ex: "table_exclusive (locks m)"
    using wf by (auto simp: mvcc_wf_def)
  note own = lock_attempt_owners [OF lw l]
  note ex' = lock_attempt_exclusive [OF ex md l]
  have get0: "mvcc_get_transaction (m\<lparr>locks := lt\<rparr>) t' = mvcc_get_transaction m t'" for t' by (rule get_cong) simp
  show ?thesis
  proof (cases new)
    case None
    then have "owners lt = owners (locks m)" using own by simp
    then show ?thesis using wf own ex' None get0 m'
      by (simp add: mvcc_wf_def locks_linked_def registered_def)
  next
    case (Some q)
    let ?f = "\<lambda>d :: txn_desc. d\<lparr>held_locks := held_locks d @ [q]\<rparr>"
    let ?m = "update_txn t ?f (m\<lparr>locks := lt\<rparr>)"
    have q: "q = next_ref (locks m)" "owners lt = insert (q, t, res) (owners (locks m))" using own Some by auto
    have get: "mvcc_get_transaction ?m t' = (if t' = t then Some (?f d) else mvcc_get_transaction m t')" for t'
      using get_update_txn [of ?f t "m\<lparr>locks := lt\<rparr>" t'] d get0 by simp
    have slots: "active_txns ?m = active_txns (update_txn t ?f m)"
      by (simp add: update_txn_def split: option.split)
    have "q \<notin> set (held_locks d)"
      using link_held [OF link d] lock_wf_ref [OF lw] q(1) by blast
    have "locks_linked ?m"
      unfolding locks_linked_def
    proof (intro conjI allI impI)
      fix r t' res' assume "(r, t', res') \<in> owners (locks ?m)"
      then have "(r, t', res') = (q, t, res) \<or> (r, t', res') \<in> owners (locks m)" by (simp add: q)
      then show "\<exists>d. mvcc_get_transaction ?m t' = Some d \<and> r \<in> set (held_locks d)"
        using link_owner [OF link, of r t' res'] d by (auto simp: get)
    next
      fix t' d' assume g: "mvcc_get_transaction ?m t' = Some d'"
      show "distinct (held_locks d')"
        using g get link_held [OF link] d \<open>q \<notin> set (held_locks d)\<close> by (auto split: if_splits)
      show "\<forall>r \<in> set (held_locks d'). \<exists>res. (r, t', res) \<in> owners (locks ?m)"
      proof (cases "t' = t")
        case True
        then have "held_locks d' = held_locks d @ [q]" using g get by auto
        then show ?thesis using True link_held [OF link d] q(2) by auto
      next
        case False
        then show ?thesis using g get link_held [OF link, of t'] q(2) by simp
      qed
    qed
    moreover have "length (active_txns ?m) = MAX_ACTIVE_TRANSACTIONS" "ids_distinct (active_txns ?m)"
      "\<forall>d. registered ?m d \<longrightarrow> td_id d < next_id ?m" "active_count ?m = slots_used (active_txns ?m)"
      using update_slots [of ?f m t] wf_slots [OF wf] wf unfolding slots registered_def by simp_all
    ultimately show ?thesis using own ex' Some m' by (simp add: mvcc_wf_def)
  qed
qed

lemma get_after_end:
  assumes wf: "mvcc_wf m1" and g: "\<And>t'. mvcc_get_transaction m1 t' = (if t' = t then Some d1 else mvcc_get_transaction m t')"
    and held: "held_locks d1 = []" and eq: "active_txns m2 = active_txns m1" "next_id m2 = next_id m1" "locks m2 = locks m1"
      "active_count m2 = active_count m1"
  shows "mvcc_wf (unregister t m2)"
    "mvcc_get_transaction (unregister t m2) t' = (if t' = t then None else mvcc_get_transaction m t')"
    "locks (unregister t m2) = locks m1" "next_id (unregister t m2) = next_id m1"
proof -
  have wf2: "mvcc_wf m2" using mvcc_wf_cong [of m2 m1] eq wf by simp
  have g2: "mvcc_get_transaction m2 t' = mvcc_get_transaction m1 t'" for t' by (rule get_cong) (simp add: eq)
  show "mvcc_wf (unregister t m2)" by (rule unregister_wf [OF wf2 _ held]) (simp add: g2 g)
  have "ids_distinct (active_txns m2)" using wf2 by (simp add: mvcc_wf_def)
  then show "mvcc_get_transaction (unregister t m2) t' = (if t' = t then None else mvcc_get_transaction m t')"
    using get_unregister_same get_unregister_other g2 g by simp
  show "locks (unregister t m2) = locks m1" "next_id (unregister t m2) = next_id m1" using eq by simp_all
qed

text \<open>What is left when transaction \<open>t\<close> has ended: its slot and its locks are gone, nothing else.\<close>

definition ended :: "u64 \<Rightarrow> mvcc \<Rightarrow> mvcc \<Rightarrow> bool" where
  "ended t m m' \<longleftrightarrow> mvcc_wf m' \<and> next_id m' = next_id m \<and>
     (\<forall>t'. mvcc_get_transaction m' t' = (if t' = t then None else mvcc_get_transaction m t')) \<and>
     owners (locks m') = {p \<in> owners (locks m). fst (snd p) \<noteq> t}"

lemma end_by_release:
  assumes wf: "mvcc_wf m0" and d: "mvcc_get_transaction m0 t = Some d0"
    and same: "\<And>t'. t' \<noteq> t \<Longrightarrow> mvcc_get_transaction m0 t' = mvcc_get_transaction m t'"
    and eq: "locks m0 = locks m" "next_id m0 = next_id m"
  shows "\<exists>m1. mvcc_release_all_locks t m0 = Some (0, m1) \<and>
    (\<forall>f m2. (\<forall>d. td_id (f d) = td_id d \<and> held_locks (f d) = held_locks d) \<longrightarrow>
       active_txns m2 = active_txns (update_txn t f m1) \<longrightarrow> next_id m2 = next_id m1 \<longrightarrow> locks m2 = locks m1 \<longrightarrow>
       active_count m2 = active_count m1 \<longrightarrow> ended t m (unregister t m2))"
proof -
  from release_all_ok [OF wf d] obtain m1 where m1: "mvcc_release_all_locks t m0 = Some (0, m1)" "mvcc_wf m1"
    "\<And>t'. mvcc_get_transaction m1 t' = (if t' = t then Some (d0\<lparr>held_locks := []\<rparr>) else mvcc_get_transaction m0 t')"
    "owners (locks m1) = {p \<in> owners (locks m0). fst (snd p) \<noteq> t}" "next_id m1 = next_id m0" by blast
  have "ended t m (unregister t m2)"
    if f: "\<forall>d. td_id (f d) = td_id d \<and> held_locks (f d) = held_locks d"
      and m2: "active_txns m2 = active_txns (update_txn t f m1)" "next_id m2 = next_id m1" "locks m2 = locks m1"
        "active_count m2 = active_count m1" for f m2
  proof -
    let ?u = "update_txn t f m1"
    have f1: "\<And>d. td_id (f d) = td_id d" and f2: "\<And>d. held_locks (f d) = held_locks d" using f by simp_all
    have wfu: "mvcc_wf ?u" by (rule wf_update [OF f1 f2 m1(2)])
    have gu: "mvcc_get_transaction ?u t' = (if t' = t then Some (f (d0\<lparr>held_locks := []\<rparr>)) else mvcc_get_transaction m t')" for t'
      using get_update_txn [of f t m1 t', OF f1] m1(3) same by simp
    have "active_count m2 = active_count ?u" "next_id m2 = next_id ?u" "locks m2 = locks ?u" using m2 by simp_all
    note E = get_after_end [OF wfu gu _ m2(1) this(2,3,1)]
    have "held_locks (f (d0\<lparr>held_locks := []\<rparr>)) = []" using f by simp
    from E [OF this] show ?thesis using m1(4,5) eq by (simp add: ended_def)
  qed
  with m1(1) show ?thesis by blast
qed

lemma abort_ended:
  assumes wf: "mvcc_wf m" and d: "mvcc_get_transaction m t = Some d"
  shows "\<exists>m'. mvcc_abort_transaction t m = Some (0, m') \<and> ended t m m'"
proof -
  let ?f = "\<lambda>d :: txn_desc. d\<lparr>td_state := MV_ABORTED\<rparr>"
  let ?m0 = "update_txn t ?f m"
  have g: "mvcc_get_transaction ?m0 t' = (if t' = t then Some (?f d) else mvcc_get_transaction m t')" for t'
    using get_update_txn [of ?f t m t'] d by simp
  have "mvcc_wf ?m0" by (rule wf_update [OF _ _ wf]) simp_all
  from end_by_release [OF this, of t "?f d" m] obtain m1 where m1: "mvcc_release_all_locks t ?m0 = Some (0, m1)"
    "\<And>f m2. (\<forall>d. td_id (f d) = td_id d \<and> held_locks (f d) = held_locks d) \<Longrightarrow>
       active_txns m2 = active_txns (update_txn t f m1) \<Longrightarrow> next_id m2 = next_id m1 \<Longrightarrow> locks m2 = locks m1 \<Longrightarrow>
       active_count m2 = active_count m1 \<Longrightarrow> ended t m (unregister t m2)"
    using g by auto
  have "update_txn t (\<lambda>d :: txn_desc. d) m1 = m1"
    by (auto simp: update_txn_def option.map_ident split: option.split)
  then have "ended t m (unregister t (m1\<lparr>aborts := aborts m1 + 1\<rparr>))"
    by (intro m1(2) [of "\<lambda>d. d"]) simp_all
  then show ?thesis using d m1(1) by (simp add: mvcc_abort_transaction_def)
qed

lemma commit_ended:
  assumes wf: "mvcc_wf m" and d: "mvcc_get_transaction m t = Some d" and act: "td_state d = MV_ACTIVE"
  shows "\<exists>m'. mvcc_commit_transaction t m = Some (0, m') \<and> ended t m m'"
proof -
  let ?f = "\<lambda>d :: txn_desc. d\<lparr>td_state := MV_COMMITTING\<rparr>"
  let ?a = "update_txn t ?f m"
  let ?ts = "current_timestamp ?a + 1"
  let ?b = "?a\<lparr>current_timestamp := ?ts\<rparr>"
  let ?g = "\<lambda>d :: txn_desc. d\<lparr>commit_ts := ?ts\<rparr>"
  let ?c = "update_txn t ?g ?b"
  let ?m0 = "?c\<lparr>commit_log := commit_log ?c @ [(t, ?ts)]\<rparr>"
  have ga: "mvcc_get_transaction ?a t' = (if t' = t then Some (?f d) else mvcc_get_transaction m t')" for t'
    using get_update_txn [of ?f t m t'] d by simp
  have gb: "mvcc_get_transaction ?b t' = mvcc_get_transaction ?a t'" for t' by (rule get_cong) simp
  have gc: "mvcc_get_transaction ?c t' = (if t' = t then Some (?g (?f d)) else mvcc_get_transaction m t')" for t'
    using get_update_txn [of ?g t ?b t'] ga gb by simp
  have g0: "mvcc_get_transaction ?m0 t' = mvcc_get_transaction ?c t'" for t' by (rule get_cong) simp
  have "mvcc_wf ?a" by (rule wf_update [OF _ _ wf]) simp_all
  then have "mvcc_wf ?b" using mvcc_wf_cong [of ?b ?a] by simp
  then have "mvcc_wf ?c" by (intro wf_update) simp_all
  then have "mvcc_wf ?m0" using mvcc_wf_cong [of ?m0 ?c] by simp
  from end_by_release [OF this, of t "?g (?f d)" m] obtain m1 where m1: "mvcc_release_all_locks t ?m0 = Some (0, m1)"
    "\<And>f m2. (\<forall>d. td_id (f d) = td_id d \<and> held_locks (f d) = held_locks d) \<Longrightarrow>
       active_txns m2 = active_txns (update_txn t f m1) \<Longrightarrow> next_id m2 = next_id m1 \<Longrightarrow> locks m2 = locks m1 \<Longrightarrow>
       active_count m2 = active_count m1 \<Longrightarrow> ended t m (unregister t m2)"
    using g0 gc by auto
  let ?h = "\<lambda>d :: txn_desc. d\<lparr>td_state := MV_COMMITTED\<rparr>"
  let ?m2 = "(update_txn t ?h m1)\<lparr>commits := commits (update_txn t ?h m1) + 1\<rparr>"
  have "ended t m (unregister t ?m2)" by (intro m1(2) [of ?h]) simp_all
  moreover have "mvcc_commit_transaction t m = Some (0, unregister t ?m2)"
    using d act m1(1)
    by (simp add: mvcc_commit_transaction_def mvcc_check_write_conflict_def mvcc_check_read_conflict_def
        generate_timestamp_def Let_def)
  ultimately show ?thesis by blast
qed

section \<open>The state machine\<close>

text \<open>The calls that neither begin a transaction nor ask for or give back a single lock.\<close>

inductive plain_call :: "mvcc \<Rightarrow> mvcc \<Rightarrow> bool" where
  commit: "mvcc_commit_transaction t m = Some (r, m') \<Longrightarrow> plain_call m m'"
| abort: "mvcc_abort_transaction t m = Some (r, m') \<Longrightarrow> plain_call m m'"
| timeout: "plain_call m (m\<lparr>lock_waits := lock_waits m + 1\<rparr>)"
| create_savepoint: "mvcc_create_savepoint t nm m = Some (r, m') \<Longrightarrow> plain_call m m'"
| rollback_to: "mvcc_rollback_to_savepoint t nm m = (r, m') \<Longrightarrow> plain_call m m'"
| release_savepoint: "mvcc_release_savepoint t nm m = (r, m') \<Longrightarrow> plain_call m m'"
| track_write: "mvcc_track_write t tbl row old new m = (r, m') \<Longrightarrow> plain_call m m'"
| track_read: "mvcc_track_read t tbl row m = (r, m') \<Longrightarrow> plain_call m m'"
| create_version: "mvcc_create_version m t data = (v, m') \<Longrightarrow> plain_call m m'"
| mark_deleted: "mvcc_mark_deleted m v t = (v', m') \<Longrightarrow> plain_call m m'"
| prepare_2pc: "mvcc_2pc_prepare t m = (r, m') \<Longrightarrow> plain_call m m'"

text \<open>Transactions that lock strictly: begun in one piece, they ask for locks that are locks
  (not in mode \<open>NONE\<close>) and give them back only by ending.\<close>

inductive strict_step :: "mvcc \<Rightarrow> mvcc \<Rightarrow> bool" where
  call: "plain_call m m' \<Longrightarrow> strict_step m m'"
| begin_txn: "next_id m \<noteq> - 1 \<Longrightarrow> mvcc_begin_transaction now level usr m = (t, m') \<Longrightarrow> strict_step m m'"
| acquire: "mvcc_get_transaction m t \<noteq> None \<Longrightarrow> md \<noteq> MVCC_LOCK_NONE \<Longrightarrow>
    acquire_attempt t res md g m = Some m' \<Longrightarrow> strict_step m m'"
| begin_2pc: "next_id m \<noteq> - 1 \<Longrightarrow> mvcc_2pc_begin now c m = (t, m') \<Longrightarrow> strict_step m m'"

text \<open>A step that only writes fields of one descriptor other than its id, snapshot and locks.\<close>

definition harmless :: "mvcc \<Rightarrow> mvcc \<Rightarrow> bool" where
  "harmless m m' \<longleftrightarrow> m' = m \<or> (\<exists>t f. m' = update_txn t f m \<and>
     (\<forall>d. td_id (f d) = td_id d \<and> held_locks (f d) = held_locks d \<and> td_snapshot (f d) = td_snapshot d))"

lemma harmless_update:
  "(\<And>d. td_id (f d) = td_id d \<and> held_locks (f d) = held_locks d \<and> td_snapshot (f d) = td_snapshot d) \<Longrightarrow>
   harmless m (update_txn t f m)"
  unfolding harmless_def by blast

lemma harmless_same: "harmless m m"
  by (simp add: harmless_def)

lemma harmless_ops:
  "mvcc_create_savepoint t nm m = Some (r, m') \<Longrightarrow> harmless m m'"
  "mvcc_rollback_to_savepoint t nm m = (r, m') \<Longrightarrow> harmless m m'"
  "mvcc_release_savepoint t nm m = (r, m') \<Longrightarrow> harmless m m'"
  "mvcc_track_write t tbl row old new m = (r, m') \<Longrightarrow> harmless m m'"
  "mvcc_track_read t tbl row m = (r, m') \<Longrightarrow> harmless m m'"
  "mvcc_2pc_prepare t m = (r, m') \<Longrightarrow> harmless m m'"
  by (auto simp: mvcc_create_savepoint_def mvcc_rollback_to_savepoint_def mvcc_release_savepoint_def
      mvcc_track_write_def mvcc_track_read_def mvcc_2pc_prepare_def Let_def harmless_same
      intro!: harmless_update split: option.splits if_splits)

lemma harmless_wf: "harmless m m' \<Longrightarrow> mvcc_wf m \<Longrightarrow> mvcc_wf m' \<and> next_id m' = next_id m"
  by (auto simp: harmless_def wf_update)

lemma harmless_get:
  assumes "harmless m m'" and "mvcc_get_transaction m' t = Some d'"
  shows "\<exists>d. mvcc_get_transaction m t = Some d \<and> td_snapshot d = td_snapshot d'"
proof -
  have "\<exists>d. mvcc_get_transaction m t = Some d \<and> td_snapshot d = td_snapshot d'"
    if f: "\<forall>d. td_id (f d) = td_id d \<and> held_locks (f d) = held_locks d \<and> td_snapshot (f d) = td_snapshot d"
      and m': "m' = update_txn q f m" for q f
  proof -
    have "td_id (f d) = td_id d" for d using f by simp
    from get_update_txn [of f q m t, OF this] assms(2) m' f show ?thesis by (auto split: if_splits)
  qed
  with assms show ?thesis by (auto simp: harmless_def)
qed

text \<open>A step from a well-formed state: well formed again, ids only grow, and a transaction known
  before keeps its snapshot as long as it is registered.\<close>

definition good_step :: "mvcc \<Rightarrow> mvcc \<Rightarrow> bool" where
  "good_step m m' \<longleftrightarrow> mvcc_wf m' \<and> next_id m \<le> next_id m' \<and>
     (\<forall>t d'. t < next_id m \<longrightarrow> mvcc_get_transaction m' t = Some d' \<longrightarrow>
        (\<exists>d. mvcc_get_transaction m t = Some d \<and> td_snapshot d = td_snapshot d'))"

lemma harmless_good: "harmless m m' \<Longrightarrow> mvcc_wf m \<Longrightarrow> good_step m m'"
  using harmless_wf [of m m'] harmless_get [of m m'] by (simp add: good_step_def)

lemma good_step_trans:
  assumes "good_step m m1" and "good_step m1 m2"
  shows "good_step m m2"
  unfolding good_step_def
proof (intro conjI allI impI)
  show "mvcc_wf m2" using assms(2) by (simp add: good_step_def)
  show "next_id m \<le> next_id m2" using assms by (auto simp: good_step_def)
  fix t d' assume t: "t < next_id m" and g: "mvcc_get_transaction m2 t = Some d'"
  have "t < next_id m1" using t assms(1) by (auto simp: good_step_def)
  then obtain d1 where "mvcc_get_transaction m1 t = Some d1" "td_snapshot d1 = td_snapshot d'"
    using assms(2) g unfolding good_step_def by blast
  then show "\<exists>d. mvcc_get_transaction m t = Some d \<and> td_snapshot d = td_snapshot d'"
    using assms(1) t unfolding good_step_def by fastforce
qed

lemma ended_good: "ended t m m' \<Longrightarrow> good_step m m'"
  by (auto simp: ended_def good_step_def split: if_splits)

lemma same_slots_good:
  assumes "mvcc_wf m" "active_txns m' = active_txns m" "next_id m' = next_id m" "locks m' = locks m" "active_count m' = active_count m"
  shows "good_step m m'"
  using assms(1) mvcc_wf_cong [OF assms(2-5)] get_cong [OF assms(2)] assms(3) by (auto simp: good_step_def)

lemma good_trans_harmless: "good_step m m1 \<Longrightarrow> harmless m1 m2 \<Longrightarrow> good_step m m2"
proof -
  assume a: "good_step m m1" and b: "harmless m1 m2"
  then have "mvcc_wf m1" by (simp add: good_step_def)
  from good_step_trans [OF a harmless_good [OF b this]] show ?thesis .
qed

lemma begin_good:
  assumes wf: "mvcc_wf m" and room: "next_id m \<noteq> - 1"
  shows "good_step m (snd (mvcc_begin_transaction now level usr m))"
proof -
  let ?m = "m\<lparr>next_id := next_id m + 1, current_timestamp := current_timestamp m + 1\<rparr>"
  let ?m' = "snd (mvcc_begin_transaction now level usr m)"
  obtain d where d: "?m' = register d ?m" "td_id d = next_id m"
    by (simp add: mvcc_begin_transaction_def generate_txn_id_def generate_timestamp_def Let_def)
  have get: "mvcc_get_transaction ?m t = mvcc_get_transaction m t" for t by (rule get_cong) simp
  have "mvcc_get_transaction ?m (td_id d) = None" using get_fresh [OF wf_slots [OF wf]] get d(2) by simp
  from get_register [OF this] have g: "mvcc_get_transaction ?m' t = mvcc_get_transaction m t" if "t < next_id m" for t
    using that d get by auto
  have "next_id m \<le> next_id ?m'" using word_less_succ [OF room] d by simp
  with mvcc_begin_wf [OF wf room, of now level usr] g show ?thesis by (auto simp: good_step_def)
qed

lemma acquire_good:
  assumes wf: "mvcc_wf m" and d: "mvcc_get_transaction m t \<noteq> None" and md: "md \<noteq> MVCC_LOCK_NONE"
    and a: "acquire_attempt t res md g m = Some m'"
  shows "good_step m m'"
proof -
  have wf': "mvcc_wf m'" using d acquire_wf [OF wf _ md a] by blast
  obtain lt new where m': "m' = (case new of None \<Rightarrow> m\<lparr>locks := lt\<rparr>
      | Some r \<Rightarrow> update_txn t (\<lambda>d :: txn_desc. d\<lparr>held_locks := held_locks d @ [r]\<rparr>) (m\<lparr>locks := lt\<rparr>))"
    using a by (auto simp: acquire_attempt_def split: attempt.splits)
  have get0: "mvcc_get_transaction (m\<lparr>locks := lt\<rparr>) t' = mvcc_get_transaction m t'" for t' by (rule get_cong) simp
  have "\<exists>d. mvcc_get_transaction m t' = Some d \<and> td_snapshot d = td_snapshot d'"
    if g: "mvcc_get_transaction m' t' = Some d'" for t' d'
  proof (cases new)
    case None
    then show ?thesis using g m' get0 by simp
  next
    case (Some r)
    then have "mvcc_get_transaction (update_txn t (\<lambda>d :: txn_desc. d\<lparr>held_locks := held_locks d @ [r]\<rparr>) (m\<lparr>locks := lt\<rparr>)) t' = Some d'"
      using g m' by simp
    then show ?thesis
      using get_update_txn [of "\<lambda>d :: txn_desc. d\<lparr>held_locks := held_locks d @ [r]\<rparr>" t "m\<lparr>locks := lt\<rparr>" t'] get0
      by (auto split: if_splits)
  qed
  moreover have "next_id m' = next_id m" using m' by (auto split: option.splits)
  ultimately show ?thesis using wf' by (simp add: good_step_def)
qed

lemma commit_good: "mvcc_wf m \<Longrightarrow> mvcc_commit_transaction t m = Some (r, m') \<Longrightarrow> good_step m m'"
proof -
  assume wf: "mvcc_wf m" and c: "mvcc_commit_transaction t m = Some (r, m')"
  show ?thesis
  proof (cases "mvcc_get_transaction m t")
    case None
    then show ?thesis using c harmless_good [OF harmless_same wf] by (simp add: mvcc_commit_transaction_def)
  next
    case (Some d)
    show ?thesis
    proof (cases "td_state d = MV_ACTIVE")
      case True
      from commit_ended [OF wf Some this] c show ?thesis using ended_good by auto
    next
      case False
      then show ?thesis using c Some harmless_good [OF harmless_same wf] by (simp add: mvcc_commit_transaction_def)
    qed
  qed
qed

lemma abort_good: "mvcc_wf m \<Longrightarrow> mvcc_abort_transaction t m = Some (r, m') \<Longrightarrow> good_step m m'"
proof -
  assume wf: "mvcc_wf m" and c: "mvcc_abort_transaction t m = Some (r, m')"
  show ?thesis
  proof (cases "mvcc_get_transaction m t")
    case None
    then show ?thesis using c harmless_good [OF harmless_same wf] by (simp add: mvcc_abort_transaction_def)
  next
    case (Some d)
    from abort_ended [OF wf this] c show ?thesis using ended_good by auto
  qed
qed

lemma plain_call_good:
  assumes "plain_call m m'" and wf: "mvcc_wf m"
  shows "good_step m m'"
  using assms(1)
proof cases
  case timeout
  then show ?thesis by (intro same_slots_good [OF wf]) simp_all
next
  case (create_version t data v)
  then show ?thesis
    by (intro same_slots_good [OF wf]) (auto simp: mvcc_create_version_def generate_timestamp_def Let_def)
next
  case (mark_deleted v t v')
  then show ?thesis
    by (intro same_slots_good [OF wf]) (auto simp: mvcc_mark_deleted_def generate_timestamp_def Let_def)
qed (erule commit_good [OF wf] abort_good [OF wf] | rule harmless_good [OF _ wf], erule harmless_ops)+

lemma strict_step_good:
  assumes "strict_step m m'" and wf: "mvcc_wf m"
  shows "good_step m m'"
  using assms(1)
proof cases
  case call
  then show ?thesis using wf by (rule plain_call_good)
next
  case (begin_txn now level usr t)
  then show ?thesis using begin_good [OF wf, of now level usr] by simp
next
  case (begin_2pc now c t)
  let ?b = "snd (mvcc_begin_transaction now ISOLATION_SERIALIZABLE None m)"
  let ?i = "fst (mvcc_begin_transaction now ISOLATION_SERIALIZABLE None m)"
  let ?f = "\<lambda>d :: txn_desc. d\<lparr>is_distributed := True, coordinator_id := c\<rparr>"
  have "m' = update_txn ?i ?f ?b" using begin_2pc by (auto simp: mvcc_2pc_begin_def split: prod.splits)
  moreover have "harmless ?b (update_txn ?i ?f ?b)" by (rule harmless_update) simp
  ultimately show ?thesis using good_trans_harmless begin_good [OF wf begin_2pc(1)] by blast
next
  case (acquire t md res g)
  then show ?thesis using acquire_good [OF wf] by blast
qed

inductive strict_reachable :: "mvcc \<Rightarrow> bool" where
  init: "strict_reachable mvcc_init"
| step: "strict_reachable m \<Longrightarrow> strict_step m m' \<Longrightarrow> strict_reachable m'"

lemma mvcc_init_wf: "mvcc_wf mvcc_init"
proof -
  have none: "first_idx (has_id t) (replicate n None) = None" for t n
    by (simp add: first_idx_None)
  have "slots_used (replicate n None) = 0" for n by (induction n) simp_all
  then show ?thesis
    by (simp add: mvcc_wf_def mvcc_init_def ids_distinct_def registered_def empty_lock_table_wf locks_linked_def
        mvcc_get_transaction_def none)
qed

lemma reachable_wf: "strict_reachable m \<Longrightarrow> mvcc_wf m"
proof (induction rule: strict_reachable.induct)
  case init
  show ?case by (rule mvcc_init_wf)
next
  case (step m m')
  then show ?case using strict_step_good by (simp add: good_step_def)
qed

lemma steps_good:
  assumes "strict_step\<^sup>*\<^sup>* m m'" and "mvcc_wf m"
  shows "good_step m m'"
  using assms
proof (induction rule: rtranclp_induct)
  case base
  then show ?case using harmless_good [OF harmless_same] by simp
next
  case (step m1 m2)
  then have a: "good_step m m1" by simp
  then have "good_step m1 m2" using strict_step_good [OF step(2)] by (simp add: good_step_def)
  with a show ?case by (rule good_step_trans)
qed

end
