(* ===== verification/MvccProperties.thy ===== *)
theory MvccProperties
  imports MvccInvariant
begin

text \<open>
  What the MVCC manager guarantees in its reachable states, and where it does not do what its
  comments promise.
\<close>

section \<open>Lemmas\<close>

lemma snapshot_scan_spec:
  "snapshot_scan self ds x acc = (x', acc') \<Longrightarrow>
     (\<forall>t. t \<in> set acc' \<longleftrightarrow> t \<in> set acc \<or>
        (\<exists>d. Some d \<in> set ds \<and> td_state d = MV_ACTIVE \<and> td_id d \<noteq> self \<and> td_id d = t)) \<and>
     x' \<le> x \<and> (\<forall>t \<in> set acc'. t \<in> set acc \<or> x' \<le> t) \<and>
     int (length acc') \<le> int (length acc) + slots_used ds"
proof (induction self ds x acc rule: snapshot_scan.induct)
  case (1 self x acc)
  then show ?case by simp
next
  case (2 self ds x acc)
  then show ?case by simp
next
  case (3 self d ds x acc)
  show ?case
  proof (cases "td_state d = MV_ACTIVE \<and> td_id d \<noteq> self")
    case True
    let ?x = "if td_id d < x then td_id d else x"
    have "snapshot_scan self ds ?x (acc @ [td_id d]) = (x', acc')" using 3(3) True by simp
    note IH = 3(1) [OF True this]
    have "?x \<le> x" "?x \<le> td_id d" by auto
    moreover have "x' \<le> ?x" using IH by blast
    ultimately have "x' \<le> x" "x' \<le> td_id d" using order_trans by blast+
    then show ?thesis using IH True by auto
  next
    case False
    then have "snapshot_scan self ds x acc = (x', acc')" using 3(3) by (simp only: snapshot_scan.simps if_False)
    note IH = 3(2) [OF False this]
    have "(\<exists>d'. Some d' \<in> set (Some d # ds) \<and> td_state d' = MV_ACTIVE \<and> td_id d' \<noteq> self \<and> td_id d' = t) \<longleftrightarrow>
      (\<exists>d'. Some d' \<in> set ds \<and> td_state d' = MV_ACTIVE \<and> td_id d' \<noteq> self \<and> td_id d' = t)" for t
      using False by auto
    moreover have "slots_used ds \<le> slots_used (Some d # ds)" by simp
    ultimately show ?thesis using IH by auto
  qed
qed

lemma take_snapshot_active:
  assumes "slots_wf m"
  shows "t \<in> set (snap_active (mvcc_take_snapshot m self)) \<longleftrightarrow>
      (\<exists>d. mvcc_get_transaction m t = Some d \<and> td_state d = MV_ACTIVE \<and> t \<noteq> self)"
    and "snap_xmin (mvcc_take_snapshot m self) \<le> next_id m"
    and "t \<in> set (snap_active (mvcc_take_snapshot m self)) \<Longrightarrow> snap_xmin (mvcc_take_snapshot m self) \<le> t"
    and "int (length (snap_active (mvcc_take_snapshot m self))) \<le> active_count m"
proof -
  obtain x acc where s: "snapshot_scan self (active_txns m) (next_id m) [] = (x, acc)" by fastforce
  then have snap: "snap_active (mvcc_take_snapshot m self) = acc" "snap_xmin (mvcc_take_snapshot m self) = x"
    by (simp_all add: mvcc_take_snapshot_def)
  note S = snapshot_scan_spec [OF s]
  have ids: "ids_distinct (active_txns m)" using assms by (simp add: slots_wf_def)
  have mem: "t \<in> set acc \<longleftrightarrow> (\<exists>d. registered m d \<and> td_state d = MV_ACTIVE \<and> td_id d \<noteq> self \<and> td_id d = t)"
    using S by (simp add: registered_def)
  show "t \<in> set (snap_active (mvcc_take_snapshot m self)) \<longleftrightarrow>
      (\<exists>d. mvcc_get_transaction m t = Some d \<and> td_state d = MV_ACTIVE \<and> t \<noteq> self)"
    unfolding snap mem using registered_get [OF ids] get_transaction_registered by metis
  show "snap_xmin (mvcc_take_snapshot m self) \<le> next_id m" using S by (simp add: snap)
  show "t \<in> set (snap_active (mvcc_take_snapshot m self)) \<Longrightarrow> snap_xmin (mvcc_take_snapshot m self) \<le> t"
    using S by (simp add: snap)
  show "int (length (snap_active (mvcc_take_snapshot m self))) \<le> active_count m"
    using S assms by (simp add: snap slots_wf_def)
qed

lemma visible_deps:
  assumes "mvcc_get_transaction m t = Some d" and "mvcc_get_transaction m' t = Some d'" and "td_snapshot d' = td_snapshot d"
  shows "mvcc_version_visible m' v t = mvcc_version_visible m v t"
  using assms by (simp add: mvcc_version_visible_def)

lemma locks_on_owner:
  assumes "e \<in> set (locks_on lt res)"
  shows "(lock_ref e, holder e, res) \<in> owners lt"
  using assms by (force simp: locks_on_def mem_owners owner_def)

lemma release_lock_dangles:
  assumes "lock_wf lt" and "release_lock lt t res = (0, lt')"
  shows "\<exists>r. (r, t, res) \<in> owners lt \<and> r \<notin> fst ` owners lt' \<and> lock_wf lt'"
proof -
  let ?h = "bucket_of res"
  let ?P = "\<lambda>e. strcmp (resource_id e) res = 0 \<and> holder e = t"
  have ex: "\<exists>e \<in> set (buckets lt ?h). ?P e"
    and lt': "lt' = lt\<lparr>buckets := (buckets lt)(?h := remove_first ?P (buckets lt ?h)), total_locks := total_locks lt - 1\<rparr>"
    using assms(2) by (auto simp: release_lock_def Let_def split: if_splits)
  have wf': "lock_wf lt'" by (rule lock_wf_remove [OF assms(1), of _ ?h ?P]) (simp_all add: lt')
  have "\<exists>e \<in> set es. ?P e \<and> (distinct (map lock_ref es) \<longrightarrow> lock_ref e \<notin> lock_ref ` set (remove_first ?P es))"
    if "\<exists>e \<in> set es. ?P e" for es
    using that
  proof (induction es)
    case (Cons x xs)
    show ?case
    proof (cases "?P x")
      case True
      then show ?thesis by auto
    next
      case False
      with Cons obtain e where "e \<in> set xs" "?P e"
        "distinct (map lock_ref xs) \<longrightarrow> lock_ref e \<notin> lock_ref ` set (remove_first ?P xs)" by auto
      with False show ?thesis by (intro bexI [of _ e]) (auto simp: image_iff)
    qed
  qed simp
  from this [OF ex] obtain e where e: "e \<in> set (buckets lt ?h)" "?P e" "lock_ref e \<notin> lock_ref ` set (buckets lt' ?h)"
    using assms(1) by (auto simp: lt' lock_wf_def)
  have "lock_ref e \<notin> fst ` owners lt'"
  proof
    assume "lock_ref e \<in> fst ` owners lt'"
    then obtain k x where x: "x \<in> set (buckets lt' k)" "lock_ref x = lock_ref e"
      unfolding image_iff Bex_def mem_owners by (metis fst_owner)
    then have "x \<in> set (buckets lt k)"
      by (auto simp: lt' dest: set_remove_first [THEN subsetD] split: if_splits)
    then have "x = e" using lock_wf_unique [OF assms(1) _ e(1)] x(2) by blast
    then have "k = ?h" using x(1) wf' e(2) by (auto simp: lock_wf_def)
    with e(3) x(1) \<open>x = e\<close> show False by simp
  qed
  moreover have "(lock_ref e, t, res) \<in> owners lt"
    using e(1,2) unfolding mem_owners by (intro exI [of _ ?h] bexI [of _ e]) (auto simp: owner_def)
  ultimately show ?thesis using wf' by blast
qed

text \<open>The first steps of every witness: two transactions.\<close>

definition two_txns :: mvcc where
  "two_txns = snd (mvcc_begin_transaction 0 ISOLATION_SERIALIZABLE None
     (snd (mvcc_begin_transaction 0 ISOLATION_READ_COMMITTED None mvcc_init)))"

lemma begin_reachable:
  "strict_reachable m \<Longrightarrow> next_id m \<noteq> - 1 \<Longrightarrow> strict_reachable (snd (mvcc_begin_transaction now level usr m))"
  by (rule strict_reachable.step [OF _ strict_step.begin_txn [OF _ prod.collapse [symmetric]]])

lemma begin_next_id: "next_id (snd (mvcc_begin_transaction now level usr m)) = next_id m + 1"
  by (simp add: mvcc_begin_transaction_def generate_txn_id_def generate_timestamp_def Let_def)

lemma begin_get:
  assumes "mvcc_wf m" and "None \<in> set (active_txns m)"
  shows "\<exists>d. mvcc_get_transaction (snd (mvcc_begin_transaction now level usr m)) (next_id m) = Some d \<and>
      td_state d = MV_ACTIVE \<and> td_isolation d = level \<and> (td_snapshot d = None \<longleftrightarrow> isolation_code level < 2)"
    and "t \<noteq> next_id m \<Longrightarrow> mvcc_get_transaction (snd (mvcc_begin_transaction now level usr m)) t = mvcc_get_transaction m t"
proof -
  let ?m = "m\<lparr>next_id := next_id m + 1, current_timestamp := current_timestamp m + 1\<rparr>"
  obtain d where d: "snd (mvcc_begin_transaction now level usr m) = register d ?m" "td_id d = next_id m"
    "td_state d = MV_ACTIVE" "td_isolation d = level" "td_snapshot d = None \<longleftrightarrow> isolation_code level < 2"
    by (simp add: mvcc_begin_transaction_def generate_txn_id_def generate_timestamp_def Let_def)
  have get: "mvcc_get_transaction ?m t = mvcc_get_transaction m t" for t by (rule get_cong) simp
  have "mvcc_get_transaction ?m (td_id d) = None" using get_fresh [OF wf_slots [OF assms(1)]] get d(2) by simp
  note G = get_register [OF this]
  show "\<exists>d. mvcc_get_transaction (snd (mvcc_begin_transaction now level usr m)) (next_id m) = Some d \<and>
      td_state d = MV_ACTIVE \<and> td_isolation d = level \<and> (td_snapshot d = None \<longleftrightarrow> isolation_code level < 2)"
    using G [of "next_id m"] d assms(2) by simp
  show "t \<noteq> next_id m \<Longrightarrow> mvcc_get_transaction (snd (mvcc_begin_transaction now level usr m)) t = mvcc_get_transaction m t"
    using G [of t] d get by simp
qed

lemma free_slot:
  assumes "mvcc_wf m" and "active_count m < 256"
  shows "None \<in> set (active_txns m)"
proof (rule ccontr)
  assume "None \<notin> set (active_txns m)"
  then have "\<forall>s \<in> set (active_txns m). s \<noteq> None" by metis
  then have "filter (\<lambda>s. s \<noteq> None) (active_txns m) = active_txns m" by (rule filter_True)
  with assms show False by (simp add: mvcc_wf_def slots_used_def)
qed

lemma begin_count:
  "None \<in> set (active_txns m) \<Longrightarrow> active_count (snd (mvcc_begin_transaction now level usr m)) = active_count m + 1"
  by (auto simp: mvcc_begin_transaction_def generate_txn_id_def generate_timestamp_def Let_def register_def
      first_idx_None split: option.split)

lemma two_txns:
  "strict_reachable two_txns" "\<exists>d. mvcc_get_transaction two_txns 1 = Some d \<and> td_state d = MV_ACTIVE \<and> td_snapshot d = None"
  "\<exists>d. mvcc_get_transaction two_txns 2 = Some d \<and> td_state d = MV_ACTIVE \<and> td_snapshot d \<noteq> None"
  "next_id two_txns = 3" "active_count two_txns = 2"
proof -
  let ?m = "snd (mvcc_begin_transaction 0 ISOLATION_READ_COMMITTED None mvcc_init)"
  have i: "strict_reachable mvcc_init" by (rule strict_reachable.init)
  have n: "next_id mvcc_init = 1" "active_count mvcc_init = 0" unfolding mvcc_init_def by simp_all
  have r: "strict_reachable ?m" by (rule begin_reachable [OF i]) (simp add: n)
  have n1: "next_id ?m = 2" by (simp add: begin_next_id n)
  show "strict_reachable two_txns" unfolding two_txns_def by (rule begin_reachable [OF r]) (simp add: n1)
  have f0: "None \<in> set (active_txns mvcc_init)" using free_slot [OF mvcc_init_wf] n by simp
  have c1: "active_count ?m = 1" using begin_count [OF f0] n by simp
  have f1: "None \<in> set (active_txns ?m)" using free_slot [OF reachable_wf [OF r]] c1 by simp
  note b0 = begin_get [OF mvcc_init_wf f0] and b1 = begin_get [OF reachable_wf [OF r] f1]
  show "\<exists>d. mvcc_get_transaction two_txns 1 = Some d \<and> td_state d = MV_ACTIVE \<and> td_snapshot d = None"
    using b0(1) [of 0 ISOLATION_READ_COMMITTED None] b1(2) [of 1] by (auto simp: two_txns_def n n1)
  show "\<exists>d. mvcc_get_transaction two_txns 2 = Some d \<and> td_state d = MV_ACTIVE \<and> td_snapshot d \<noteq> None"
    using b1(1) [of 0 ISOLATION_SERIALIZABLE None] by (auto simp: two_txns_def n1)
  show "next_id two_txns = 3" by (simp add: two_txns_def begin_next_id n)
  show "active_count two_txns = 2" using begin_count [OF f1] c1 by (simp add: two_txns_def)
qed

section \<open>Properties of locks\<close>

text \<open>The lock tables of any run: requests that are granted, whoever makes them and whatever others do
  while they wait, locks given back one by one, and the locks of a transaction that ends. With \<open>none\<close>
  a request may name the mode \<open>NONE\<close>, as the code allows.\<close>

inductive lock_run :: "bool \<Rightarrow> lock_table \<Rightarrow> bool" for none where
  lock_start: "lock_run none empty_lock_table"
| lock_granted: "lock_run none lt \<Longrightarrow> lock_attempt lt t res md g = Granted lt' new \<Longrightarrow>
    none \<or> md \<noteq> MVCC_LOCK_NONE \<Longrightarrow> lock_run none lt'"
| lock_released: "lock_run none lt \<Longrightarrow> release_lock lt t res = (r, lt') \<Longrightarrow> lock_run none lt'"
| locks_dropped: "lock_run none lt \<Longrightarrow> release_refs rs lt = Some lt' \<Longrightarrow> lock_run none lt'"

lemma lock_run_exclusive: "lock_run False lt \<Longrightarrow> table_exclusive lt"
proof (induction rule: lock_run.induct)
  case lock_start
  show ?case by (rule empty_lock_table_wf(2))
next
  case (lock_granted lt t res md g lt' new)
  then show ?case using lock_attempt_exclusive by blast
next
  case (lock_released lt t res r lt')
  then show ?case using release_exclusive [of lt t res] by simp
next
  case (locks_dropped lt rs lt')
  then show ?case using release_refs_exclusive by blast
qed

lemma exclusive_is_only:
  assumes "table_exclusive lt" and "e \<in> set (locks_on lt res)" and "strong (lock_mode e)"
  shows "locks_on lt res = [e]"
proof -
  have "length (locks_on lt res) = 1" using assms by (auto simp: table_exclusive_def exclusive_alone_def)
  then show ?thesis using assms(2) by (auto simp: length_Suc_conv)
qed

text \<open>Requests on an empty table: the first in mode \<open>NONE\<close>, two more for \<open>EXCLUSIVE\<close>.\<close>

definition queue_entry :: "nat \<Rightarrow> lock_mode \<Rightarrow> u64 \<Rightarrow> lock_entry" where
  "queue_entry r md t =
     \<lparr>lock_ref = r, resource_id = ''r'', granularity = MVCC_LOCK_GRANULARITY_ROW, lock_mode = md, holder = t\<rparr>"

lemma attempt_first:
  "locks_on lt ''r'' = [] \<Longrightarrow> \<exists>lt' new. lock_attempt lt t ''r'' md MVCC_LOCK_GRANULARITY_ROW = Granted lt' new \<and>
     locks_on lt' ''r'' = [queue_entry (next_ref lt) md t]"
proof -
  assume "locks_on lt ''r'' = []"
  then have "find_lock_entry lt ''r'' = None" "locks_on lt ''r'' = []" by (simp_all add: find_lock_entry_hd)
  then show ?thesis by (simp add: lock_attempt_def Let_def locks_on_def queue_entry_def)
qed

lemma attempt_behind_none:
  assumes "locks_on lt ''r'' = e # es" and "lock_mode e = MVCC_LOCK_NONE" and "holder e \<noteq> t"
  shows "\<exists>lt' new. lock_attempt lt t ''r'' md MVCC_LOCK_GRANULARITY_ROW = Granted lt' new \<and>
     locks_on lt' ''r'' = e # es @ [queue_entry (next_ref lt) md t]"
proof -
  have "find_lock_entry lt ''r'' = Some e" using assms(1) by (simp add: find_lock_entry_hd)
  moreover have "\<not> locks_conflict MVCC_LOCK_NONE md" by (cases md) (simp_all add: locks_conflict_def compat_def)
  ultimately show ?thesis using assms
    by (simp add: lock_attempt_def Let_def locks_on_def queue_entry_def)
qed

lemma filter_remove_only: "filter P es = [x] \<Longrightarrow> Q x \<Longrightarrow> filter P (remove_first (\<lambda>e. P e \<and> Q e) es) = []"
proof (induction es)
  case (Cons a es)
  then show ?case by (cases "P a") simp_all
qed simp

lemma release_only_lock:
  assumes "locks_on lt res = [e]" and "holder e = t" and "release_lock lt t res = (r, lt')"
  shows "locks_on lt' res = []"
proof -
  let ?P = "\<lambda>e. resource_id e = res" and ?b = "buckets lt (bucket_of res)"
  have here: "filter ?P ?b = [e]" using assms(1) by (simp add: locks_on_def)
  then have "e \<in> set (filter ?P ?b)" by simp
  then have "\<exists>e \<in> set ?b. strcmp (resource_id e) res = 0 \<and> holder e = t" using assms(2) by auto
  then have "lt' = lt\<lparr>buckets := (buckets lt)(bucket_of res := remove_first (\<lambda>e. ?P e \<and> holder e = t) ?b),
      total_locks := total_locks lt - 1\<rparr>"
    using assms(3) by (auto simp: release_lock_def Let_def)
  then show ?thesis using filter_remove_only [of ?P ?b e "\<lambda>e. holder e = t"] here assms(2) by (simp add: locks_on_def)
qed

text \<open>C25: On every lock table that requests and releases lead to, in any order and also with locks given
  back before the transaction ends, a lock in an exclusive mode (\<open>EXCLUSIVE\<close>, \<open>SHARE_ROW_EXCLUSIVE\<close> or
  \<open>ACCESS_EXCLUSIVE\<close>) is the only lock on its resource, although a request is only compared with the
  first lock of the chain - as long as no request names the mode \<open>NONE\<close>, which \<open>mvcc_acquire_lock\<close> does
  not refuse. One that does makes the comparison void: behind it two transactions get the same resource
  exclusively.\<close>

theorem exclusive_lock_is_alone:
  "(lock_run False lt \<and> e \<in> set (locks_on lt res) \<and> strong (lock_mode e) \<longrightarrow> locks_on lt res = [e]) \<and>
   (\<exists>lt a b. lock_run True lt \<and> {a, b} \<subseteq> set (locks_on lt ''r'') \<and> holder a \<noteq> holder b \<and>
      lock_mode a = MVCC_LOCK_EXCLUSIVE \<and> lock_mode b = MVCC_LOCK_EXCLUSIVE)"
proof (intro conjI impI)
  show "locks_on lt res = [e]" if "lock_run False lt \<and> e \<in> set (locks_on lt res) \<and> strong (lock_mode e)"
    using exclusive_is_only lock_run_exclusive that by blast
  let ?t0 = "empty_lock_table"
  have "locks_on ?t0 ''r'' = []" by (simp add: locks_on_def empty_lock_table_def)
  from attempt_first [OF this] obtain t1 n1 where
    t1: "lock_attempt ?t0 1 ''r'' MVCC_LOCK_NONE MVCC_LOCK_GRANULARITY_ROW = Granted t1 n1"
      "locks_on t1 ''r'' = [queue_entry (next_ref ?t0) MVCC_LOCK_NONE 1]" by blast
  from attempt_behind_none [OF t1(2), of 2 MVCC_LOCK_EXCLUSIVE] obtain t2 n2 where
    t2: "lock_attempt t1 2 ''r'' MVCC_LOCK_EXCLUSIVE MVCC_LOCK_GRANULARITY_ROW = Granted t2 n2"
      "locks_on t2 ''r'' = [queue_entry (next_ref ?t0) MVCC_LOCK_NONE 1, queue_entry (next_ref t1) MVCC_LOCK_EXCLUSIVE 2]"
    by (auto simp: queue_entry_def)
  from attempt_behind_none [OF t2(2), of 3 MVCC_LOCK_EXCLUSIVE] obtain t3 n3 where
    t3: "lock_attempt t2 3 ''r'' MVCC_LOCK_EXCLUSIVE MVCC_LOCK_GRANULARITY_ROW = Granted t3 n3"
      "locks_on t3 ''r'' = [queue_entry (next_ref ?t0) MVCC_LOCK_NONE 1, queue_entry (next_ref t1) MVCC_LOCK_EXCLUSIVE 2,
         queue_entry (next_ref t2) MVCC_LOCK_EXCLUSIVE 3]"
    by (auto simp: queue_entry_def)
  have "lock_run True t3"
    using lock_run.lock_granted [OF lock_run.lock_granted [OF lock_run.lock_granted [OF lock_run.lock_start t1(1)] t2(1)] t3(1)]
    by simp
  then show "\<exists>lt a b. lock_run True lt \<and> {a, b} \<subseteq> set (locks_on lt ''r'') \<and> holder a \<noteq> holder b \<and>
      lock_mode a = MVCC_LOCK_EXCLUSIVE \<and> lock_mode b = MVCC_LOCK_EXCLUSIVE"
    using t3(2) by (intro exI [of _ t3] exI [of _ "queue_entry (next_ref t1) MVCC_LOCK_EXCLUSIVE 2"]
        exI [of _ "queue_entry (next_ref t2) MVCC_LOCK_EXCLUSIVE 3"]) (simp add: queue_entry_def)
qed

text \<open>One transaction takes a lock exclusively, gives it back early, and another one takes it.\<close>

theorem exclusive_lock_is_alone_witness:
  "\<exists>lt e. lock_run False lt \<and> lock_mode e = MVCC_LOCK_EXCLUSIVE \<and> holder e = 2 \<and> locks_on lt ''r'' = [e]"
proof -
  have md: "False \<or> MVCC_LOCK_EXCLUSIVE \<noteq> MVCC_LOCK_NONE" by simp
  have l0: "locks_on empty_lock_table ''r'' = []" by (simp add: locks_on_def empty_lock_table_def)
  from attempt_first [OF l0] obtain t1 n1 where
    t1: "lock_attempt empty_lock_table 1 ''r'' MVCC_LOCK_EXCLUSIVE MVCC_LOCK_GRANULARITY_ROW = Granted t1 n1"
      "locks_on t1 ''r'' = [queue_entry (next_ref empty_lock_table) MVCC_LOCK_EXCLUSIVE 1]" by blast
  obtain r t2 where t2: "release_lock t1 1 ''r'' = (r, t2)" by fastforce
  note run1 = lock_run.lock_granted [OF lock_run.lock_start t1(1) md]
  note run2 = lock_run.lock_released [OF run1 t2]
  have l2: "locks_on t2 ''r'' = []" by (rule release_only_lock [OF t1(2) _ t2]) (simp add: queue_entry_def)
  from attempt_first [OF l2] obtain t3 n3 where
    t3: "lock_attempt t2 2 ''r'' MVCC_LOCK_EXCLUSIVE MVCC_LOCK_GRANULARITY_ROW = Granted t3 n3"
      "locks_on t3 ''r'' = [queue_entry (next_ref t2) MVCC_LOCK_EXCLUSIVE 2]" by blast
  let ?e = "queue_entry (next_ref t2) MVCC_LOCK_EXCLUSIVE 2"
  note run3 = lock_run.lock_granted [OF run2 t3(1) md]
  have "?e \<in> set (locks_on t3 ''r'')" "strong (lock_mode ?e)" using t3(2) by (simp_all add: queue_entry_def strong_def)
  then have "locks_on t3 ''r'' = [?e]" using exclusive_lock_is_alone [of t3 ?e "''r''"] run3 by blast
  then show ?thesis using run3 by (intro exI [of _ t3] exI [of _ ?e]) (simp add: queue_entry_def)
qed

text \<open>Under strict locking the holder is a registered transaction that remembers the lock.\<close>

lemma exclusive_lock_remembered:
  assumes "strict_reachable m" and "e \<in> set (locks_on (locks m) res)"
  shows "\<exists>d. mvcc_get_transaction m (holder e) = Some d \<and> lock_ref e \<in> set (held_locks d)"
  using link_owner [OF _ locks_on_owner [OF assms(2)]] reachable_wf [OF assms(1)] by (simp add: mvcc_wf_def)

definition one_lock :: "lock_mode \<Rightarrow> mvcc" where
  "one_lock md = snd (acquire_loop [] 1 ''r'' md MVCC_LOCK_GRANULARITY_ROW two_txns)"

lemma one_lock:
  assumes "md \<noteq> MVCC_LOCK_NONE"
  shows "strict_reachable (one_lock md)"
    "\<exists>e. locks_on (locks (one_lock md)) ''r'' = [e] \<and> lock_mode e = md \<and> holder e = 1"
    "\<exists>d. mvcc_get_transaction (one_lock md) 1 = Some d \<and> td_state d = MV_ACTIVE"
    "\<exists>d. mvcc_get_transaction (one_lock md) 2 = Some d \<and> td_state d = MV_ACTIVE"
proof -
  let ?t = "empty_lock_table"
  have l0: "locks two_txns = empty_lock_table"
    by (simp add: two_txns_def mvcc_begin_transaction_def generate_txn_id_def generate_timestamp_def Let_def mvcc_init_def)
  have "find_lock_entry empty_lock_table ''r'' = None"
    by (simp add: find_lock_entry_def empty_lock_table_def)
  then obtain lt where l: "lock_attempt empty_lock_table 1 ''r'' md MVCC_LOCK_GRANULARITY_ROW = Granted lt (Some 0)"
    by (simp add: lock_attempt_def Let_def empty_lock_table_def)
  let ?f = "\<lambda>d :: txn_desc. d\<lparr>held_locks := held_locks d @ [0]\<rparr>"
  have a: "acquire_attempt 1 ''r'' md MVCC_LOCK_GRANULARITY_ROW two_txns = Some (update_txn 1 ?f (two_txns\<lparr>locks := lt\<rparr>))"
    using l l0 by (simp add: acquire_attempt_def)
  then have o: "one_lock md = update_txn 1 ?f (two_txns\<lparr>locks := lt\<rparr>)" by (simp add: one_lock_def)
  have "mvcc_get_transaction two_txns 1 \<noteq> None" using two_txns(2) by auto
  from strict_reachable.step [OF two_txns(1) strict_step.acquire [OF this assms a]] o
  show "strict_reachable (one_lock md)" by simp
  have "locks_on empty_lock_table ''r'' = []" by (simp add: locks_on_def empty_lock_table_def)
  then show "\<exists>e. locks_on (locks (one_lock md)) ''r'' = [e] \<and> lock_mode e = md \<and> holder e = 1"
    using lock_attempt_locks [OF l] o by auto
  have g: "mvcc_get_transaction (one_lock md) t = (if t = 1 then map_option ?f (mvcc_get_transaction two_txns 1) else mvcc_get_transaction two_txns t)" for t
  proof -
    have "mvcc_get_transaction (two_txns\<lparr>locks := lt\<rparr>) t = mvcc_get_transaction two_txns t" for t by (rule get_cong) simp
    then show ?thesis using get_update_txn [of ?f 1 "two_txns\<lparr>locks := lt\<rparr>" t] o by simp
  qed
  show "\<exists>d. mvcc_get_transaction (one_lock md) 1 = Some d \<and> td_state d = MV_ACTIVE" using g [of 1] two_txns(2) by auto
  show "\<exists>d. mvcc_get_transaction (one_lock md) 2 = Some d \<and> td_state d = MV_ACTIVE" using g [of 2] two_txns(3) by auto
qed

text \<open>Two-phase locking, second phase. Committing an active registered transaction, or aborting
  any registered one, returns 0; afterwards the transaction is gone, no lock on any resource is
  held by it, and the locks and descriptors of all others are what they were.\<close>

theorem commit_and_abort_release_locks:
  assumes "strict_reachable m" and "mvcc_get_transaction m t = Some d"
  shows "(td_state d = MV_ACTIVE \<longrightarrow> (\<exists>m'. mvcc_commit_transaction t m = Some (0, m') \<and> mvcc_wf m' \<and>
      (\<forall>t'. mvcc_get_transaction m' t' = (if t' = t then None else mvcc_get_transaction m t')) \<and>
      owners (locks m') = {(r, t', res). (r, t', res) \<in> owners (locks m) \<and> t' \<noteq> t})) \<and>
    (\<exists>m'. mvcc_abort_transaction t m = Some (0, m') \<and> mvcc_wf m' \<and>
      (\<forall>t'. mvcc_get_transaction m' t' = (if t' = t then None else mvcc_get_transaction m t')) \<and>
      owners (locks m') = {(r, t', res). (r, t', res) \<in> owners (locks m) \<and> t' \<noteq> t})"
proof -
  have wf: "mvcc_wf m" by (rule reachable_wf [OF assms(1)])
  have set: "{p \<in> owners (locks m). fst (snd p) \<noteq> t} = {(r, t', res). (r, t', res) \<in> owners (locks m) \<and> t' \<noteq> t}"
    by auto
  show ?thesis
    using commit_ended [OF wf assms(2)] abort_ended [OF wf assms(2)] unfolding ended_def set by blast
qed

theorem commit_and_abort_release_locks_witness:
  "\<exists>m'. mvcc_commit_transaction 1 (one_lock MVCC_LOCK_EXCLUSIVE) = Some (0, m') \<and>
     (\<forall>r res. (r, 1, res) \<notin> owners (locks m'))"
proof -
  have md: "MVCC_LOCK_EXCLUSIVE \<noteq> MVCC_LOCK_NONE" by simp
  obtain d where d: "mvcc_get_transaction (one_lock MVCC_LOCK_EXCLUSIVE) 1 = Some d" "td_state d = MV_ACTIVE"
    using one_lock(3) [OF md] by blast
  from commit_and_abort_release_locks [OF one_lock(1) [OF md] d(1)] d(2) show ?thesis by auto
qed

text \<open>Releasing one lock early is not safe: \<open>mvcc_release_lock\<close> frees the entry but leaves the
  pointer in the transaction's list, so the commit or abort that follows reads freed memory.\<close>

theorem early_release_then_end_reads_freed_lock:
  assumes "strict_reachable m" and "mvcc_get_transaction m t = Some d" and "td_state d = MV_ACTIVE"
    and "mvcc_release_lock t (Some res) m = (0, m')"
  shows "mvcc_commit_transaction t m' = None \<and> mvcc_abort_transaction t m' = None"
proof -
  have wf: "mvcc_wf m" by (rule reachable_wf [OF assms(1)])
  obtain lt where rel: "release_lock (locks m) t res = (0, lt)" "m' = m\<lparr>locks := lt\<rparr>"
    using assms(4) by (auto simp: mvcc_release_lock_def split: prod.splits)
  have lw: "lock_wf (locks m)" and link: "locks_linked m" using wf by (auto simp: mvcc_wf_def)
  from release_lock_dangles [OF lw rel(1)] obtain r where r: "(r, t, res) \<in> owners (locks m)"
    "r \<notin> fst ` owners lt" "lock_wf lt" by blast
  have "r \<in> set (held_locks d)" using link_owner [OF link r(1)] assms(2) by simp
  moreover have "distinct (held_locks d)" using link_held [OF link assms(2)] by simp
  ultimately have none: "release_refs (held_locks d) lt = None" using release_refs_dangling [OF r(3)] r(2) by blast
  have rel_none: "mvcc_release_all_locks t x = None"
    if "\<exists>d'. mvcc_get_transaction x t = Some d' \<and> held_locks d' = held_locks d" "locks x = lt" for x
    using that none by (auto simp: mvcc_release_all_locks_def)
  have g: "mvcc_get_transaction m' t = Some d" using get_cong [of m' m t] rel(2) assms(2) by simp
  let ?f = "\<lambda>d :: txn_desc. d\<lparr>td_state := MV_ABORTED\<rparr>"
  have "mvcc_get_transaction (update_txn t ?f m') t = Some (?f d)" using get_update_txn [of ?f t m' t] g by simp
  then have "mvcc_release_all_locks t (update_txn t ?f m') = None" by (intro rel_none) (simp_all add: rel(2))
  then have ab: "mvcc_abort_transaction t m' = None" using g by (simp add: mvcc_abort_transaction_def)
  let ?g = "\<lambda>d :: txn_desc. d\<lparr>td_state := MV_COMMITTING\<rparr>"
  let ?a = "update_txn t ?g m'"
  let ?b = "?a\<lparr>current_timestamp := current_timestamp ?a + 1\<rparr>"
  let ?h = "\<lambda>d :: txn_desc. d\<lparr>commit_ts := current_timestamp ?a + 1\<rparr>"
  let ?c = "update_txn t ?h ?b"
  let ?e = "?c\<lparr>commit_log := commit_log ?c @ [(t, current_timestamp ?a + 1)]\<rparr>"
  have "mvcc_get_transaction ?a t = Some (?g d)" using get_update_txn [of ?g t m' t] g by simp
  then have "mvcc_get_transaction ?b t = Some (?g d)" using get_cong [of ?b ?a t] by simp
  then have "mvcc_get_transaction ?c t = Some (?h (?g d))" using get_update_txn [of ?h t ?b t] by simp
  then have "mvcc_get_transaction ?e t = Some (?h (?g d))" using get_cong [of ?e ?c t] by simp
  then have "mvcc_release_all_locks t ?e = None" by (intro rel_none) (simp_all add: rel(2))
  then show ?thesis using ab g assms(3)
    by (simp add: mvcc_commit_transaction_def mvcc_check_write_conflict_def mvcc_check_read_conflict_def
        generate_timestamp_def Let_def)
qed

theorem early_release_then_end_reads_freed_lock_witness:
  "\<exists>m'. mvcc_release_lock 1 (Some ''r'') (one_lock MVCC_LOCK_SHARED) = (0, m') \<and>
     mvcc_commit_transaction 1 m' = None"
proof -
  have md: "MVCC_LOCK_SHARED \<noteq> MVCC_LOCK_NONE" by simp
  obtain d where d: "mvcc_get_transaction (one_lock MVCC_LOCK_SHARED) 1 = Some d" "td_state d = MV_ACTIVE"
    using one_lock(3) [OF md] by blast
  obtain e where e: "locks_on (locks (one_lock MVCC_LOCK_SHARED)) ''r'' = [e]" "holder e = 1"
    using one_lock(2) [OF md] by blast
  then have "e \<in> set (locks_on (locks (one_lock MVCC_LOCK_SHARED)) ''r'')" by simp
  then have "e \<in> set (buckets (locks (one_lock MVCC_LOCK_SHARED)) (bucket_of ''r''))" "resource_id e = ''r''"
    unfolding locks_on_def by simp_all
  with e(2) have "\<exists>e\<in>set (buckets (locks (one_lock MVCC_LOCK_SHARED)) (bucket_of ''r'')). resource_id e = ''r'' \<and> holder e = 1"
    by blast
  then have "fst (release_lock (locks (one_lock MVCC_LOCK_SHARED)) 1 ''r'') = 0"
    by (simp only: release_lock_def Let_def strcmp_eq_0 if_True fst_conv)
  then obtain lt where "release_lock (locks (one_lock MVCC_LOCK_SHARED)) 1 ''r'' = (0, lt)"
    by (metis prod.collapse)
  then have rel: "mvcc_release_lock 1 (Some ''r'') (one_lock MVCC_LOCK_SHARED) = (0, (one_lock MVCC_LOCK_SHARED)\<lparr>locks := lt\<rparr>)"
    by (simp add: mvcc_release_lock_def)
  from early_release_then_end_reads_freed_lock [OF one_lock(1) [OF md] d rel] rel show ?thesis by blast
qed

text \<open>\<open>UPDATE\<close> counts as stronger than \<open>EXCLUSIVE\<close> although it is shared with readers: a
  transaction whose \<open>UPDATE\<close> lock is first on a resource is told that it has \<open>EXCLUSIVE\<close>, at once and
  with nothing changed, whoever else holds locks there, and \<open>mvcc_has_lock\<close> confirms it.\<close>

theorem update_lock_passes_for_exclusive:
  assumes "locks_on (locks m) res = e # others" and "holder e = t" and "lock_mode e = MVCC_LOCK_UPDATE"
    and "mvcc_get_transaction m t \<noteq> None"
  shows "mvcc_acquire_lock interference t (Some res) MVCC_LOCK_EXCLUSIVE g m = (0, m) \<and>
    mvcc_has_lock t res MVCC_LOCK_EXCLUSIVE m"
proof -
  have ge: "lock_mode e \<ge> MVCC_LOCK_EXCLUSIVE" using assms(3) by (simp add: less_eq_lock_mode_def)
  have "find_lock_entry (locks m) res = Some e" using assms(1) by (simp add: find_lock_entry_hd)
  then have "acquire_attempt t res MVCC_LOCK_EXCLUSIVE g m = Some m"
    using ge assms(2) by (simp add: acquire_attempt_def lock_attempt_def Let_def)
  then have acq: "acquire_loop interference t res MVCC_LOCK_EXCLUSIVE g m = (0, m)"
    by (cases interference) simp_all
  have "dropWhile (\<lambda>e. resource_id e \<noteq> res) es \<noteq> [] \<and> hd (dropWhile (\<lambda>e. resource_id e \<noteq> res) es) = e"
    if "filter (\<lambda>e. resource_id e = res) es = e # others" for es
    using that by (induction es) (auto split: if_splits)
  with assms(1) have "e \<in> set (dropWhile (\<lambda>e. resource_id e \<noteq> res) (buckets (locks m) (bucket_of res)))"
    unfolding locks_on_def by (metis hd_in_set)
  then have "has_lock (locks m) t res MVCC_LOCK_EXCLUSIVE" using ge assms(2) unfolding has_lock_def by auto
  with acq show ?thesis using assms(4) by (simp add: mvcc_acquire_lock_def mvcc_has_lock_def)
qed

theorem update_lock_passes_for_exclusive_witness:
  "\<exists>m. strict_reachable m \<and> mvcc_has_lock 2 ''r'' MVCC_LOCK_SHARED m \<and>
     mvcc_acquire_lock [] 1 (Some ''r'') MVCC_LOCK_EXCLUSIVE MVCC_LOCK_GRANULARITY_ROW m = (0, m)"
proof -
  let ?m = "one_lock MVCC_LOCK_UPDATE"
  have md: "MVCC_LOCK_UPDATE \<noteq> MVCC_LOCK_NONE" by simp
  obtain e where e: "locks_on (locks ?m) ''r'' = [e]" "lock_mode e = MVCC_LOCK_UPDATE" "holder e = 1"
    using one_lock(2) [OF md] by blast
  obtain d where d: "mvcc_get_transaction ?m 1 = Some d" using one_lock(3) [OF md] by blast
  have two: "mvcc_get_transaction ?m 2 \<noteq> None" using one_lock(4) [OF md] by auto
  have "find_lock_entry (locks ?m) ''r'' = Some e" using e(1) by (simp add: find_lock_entry_hd)
  then obtain lt r where l: "lock_attempt (locks ?m) 2 ''r'' MVCC_LOCK_SHARED MVCC_LOCK_GRANULARITY_ROW = Granted lt (Some r)"
    using e by (simp add: lock_attempt_def Let_def locks_conflict_def compat_def)
  let ?f = "\<lambda>d :: txn_desc. d\<lparr>held_locks := held_locks d @ [r]\<rparr>"
  let ?m' = "update_txn 2 ?f (?m\<lparr>locks := lt\<rparr>)"
  have "acquire_attempt 2 ''r'' MVCC_LOCK_SHARED MVCC_LOCK_GRANULARITY_ROW ?m = Some ?m'"
    using l by (simp add: acquire_attempt_def)
  from strict_reachable.step [OF one_lock(1) [OF md] strict_step.acquire [OF two _ this]]
  have reach: "strict_reachable ?m'" by simp
  obtain e2 where L: "locks_on (locks ?m') ''r'' = [e, e2]" "holder e2 = 2" "lock_mode e2 = MVCC_LOCK_SHARED"
    using lock_attempt_locks [OF l] e by auto
  have "mvcc_get_transaction (?m\<lparr>locks := lt\<rparr>) 1 = Some d" using get_cong [of "?m\<lparr>locks := lt\<rparr>" ?m 1] d by simp
  then have "mvcc_get_transaction ?m' 1 \<noteq> None" using get_update_txn [of ?f 2 "?m\<lparr>locks := lt\<rparr>" 1] by simp
  from update_lock_passes_for_exclusive [OF L(1) e(3,2) this]
  have acq: "mvcc_acquire_lock [] 1 (Some ''r'') MVCC_LOCK_EXCLUSIVE MVCC_LOCK_GRANULARITY_ROW ?m' = (0, ?m')" by blast
  have "set (filter P es) \<subseteq> set (dropWhile (\<lambda>x. \<not> P x) es)" for P and es :: "lock_entry list"
    by (induction es) auto
  then have "set (locks_on (locks ?m') ''r'') \<subseteq> set (dropWhile (\<lambda>e. strcmp (resource_id e) ''r'' \<noteq> 0) (buckets (locks ?m') (bucket_of ''r'')))"
    unfolding locks_on_def strcmp_eq_0 by blast
  then have "e2 \<in> set (dropWhile (\<lambda>e. strcmp (resource_id e) ''r'' \<noteq> 0) (buckets (locks ?m') (bucket_of ''r'')))"
    unfolding L(1) by simp
  then have "mvcc_has_lock 2 ''r'' MVCC_LOCK_SHARED ?m'"
    using L unfolding mvcc_has_lock_def has_lock_def by auto
  with reach acq show ?thesis by blast
qed

end
