(* ===== verification/MvccSystem.thy ===== *)
theory MvccSystem
  imports MvccProperties
begin

text \<open>
  The MVCC manager with all its callers. \<open>mvcc_begin_transaction\<close> takes three locks one after the
  other, for the id, the timestamp and the table of active transactions, and the snapshot is taken
  between the last two; so a beginning transaction is a descriptor that is not registered yet, and
  whatever the other threads do falls between its four steps. Locks may be asked for in any mode and
  given back early. Every other call is one step: a commit that is interrupted is told from one that
  is not by nothing a snapshot looks at, since its first write takes the state \<open>ACTIVE\<close> away.
\<close>

section \<open>Beginning in steps\<close>

datatype begin_phase = NeedsTimestamp | NeedsSnapshot | NeedsSlot

type_synonym beginning = "begin_phase \<times> txn_desc"
type_synonym mvcc_system = "mvcc \<times> beginning list"

definition new_txn :: "int \<Rightarrow> isolation_level \<Rightarrow> string option \<Rightarrow> u64 \<Rightarrow> txn_desc" where
  "new_txn now level usr t =
     \<lparr>td_id = t, td_state = MV_ACTIVE, td_isolation = level, start_ts = 0, commit_ts = 0, td_start_time = now,
      td_snapshot = None, write_set = [], read_set = (if level = ISOLATION_SERIALIZABLE then Some [] else None),
      held_locks = [], td_savepoints = [], is_distributed = False, coordinator_id = None, user_name = usr\<rparr>"

definition with_snapshot :: "mvcc \<Rightarrow> txn_desc \<Rightarrow> txn_desc" where
  "with_snapshot m d =
     d\<lparr>td_snapshot := (if isolation_code (td_isolation d) \<ge> 2 then Some (mvcc_take_snapshot m (td_id d)) else None)\<rparr>"

definition mark_distributed :: "string option \<Rightarrow> u64 \<Rightarrow> mvcc \<Rightarrow> mvcc" where
  "mark_distributed c t m = update_txn t (\<lambda>d :: txn_desc. d\<lparr>is_distributed := True, coordinator_id := c\<rparr>) m"

inductive mvcc_step :: "mvcc_system \<Rightarrow> mvcc_system \<Rightarrow> bool" where
  take_id: "next_id m \<noteq> - 1 \<Longrightarrow> generate_txn_id m = (t, m') \<Longrightarrow>
    mvcc_step (m, ps) (m', ps @ [(NeedsTimestamp, new_txn now level usr t)])"
| take_timestamp: "i < length ps \<Longrightarrow> ps ! i = (NeedsTimestamp, d) \<Longrightarrow> generate_timestamp m = (ts, m') \<Longrightarrow>
    mvcc_step (m, ps) (m', ps[i := (NeedsSnapshot, d\<lparr>start_ts := ts\<rparr>)])"
| take_snapshot: "i < length ps \<Longrightarrow> ps ! i = (NeedsSnapshot, d) \<Longrightarrow>
    mvcc_step (m, ps) (m, ps[i := (NeedsSlot, with_snapshot m d)])"
| take_slot: "i < length ps \<Longrightarrow> ps ! i = (NeedsSlot, d) \<Longrightarrow>
    mvcc_step (m, ps) (register d m, take i ps @ drop (Suc i) ps)"
| distributed: "mvcc_step (m, ps) (mark_distributed c t m, ps)"
| acquire: "mvcc_get_transaction m t \<noteq> None \<Longrightarrow> acquire_attempt t res md g m = Some m' \<Longrightarrow> mvcc_step (m, ps) (m', ps)"
| release: "mvcc_release_lock t res m = (r, m') \<Longrightarrow> mvcc_step (m, ps) (m', ps)"
| call: "plain_call m m' \<Longrightarrow> mvcc_step (m, ps) (m', ps)"

inductive mvcc_system_reachable :: "mvcc_system \<Rightarrow> bool" where
  mvcc_starts: "mvcc_system_reachable (mvcc_init, [])"
| mvcc_steps: "mvcc_system_reachable s \<Longrightarrow> mvcc_step s s' \<Longrightarrow> mvcc_system_reachable s'"

definition mvcc_reachable :: "mvcc \<Rightarrow> bool" where
  "mvcc_reachable m \<longleftrightarrow> (\<exists>ps. mvcc_system_reachable (m, ps))"

lemma system_steps: "mvcc_step\<^sup>*\<^sup>* s s' \<Longrightarrow> mvcc_system_reachable s \<Longrightarrow> mvcc_system_reachable s'"
  by (induction rule: rtranclp_induct) (auto intro: mvcc_steps)

text \<open>Run without interruption, the four steps are \<open>mvcc_begin_transaction\<close>.\<close>

lemma begin_in_steps:
  assumes "next_id m \<noteq> - 1" and "mvcc_begin_transaction now level usr m = (t, m')"
  shows "mvcc_step\<^sup>*\<^sup>* (m, ps) (m', ps)"
proof -
  let ?m1 = "m\<lparr>next_id := next_id m + 1\<rparr>" and ?n = "length ps"
  let ?m2 = "?m1\<lparr>current_timestamp := current_timestamp m + 1\<rparr>"
  let ?d0 = "new_txn now level usr (next_id m)"
  let ?d1 = "?d0\<lparr>start_ts := current_timestamp m + 1\<rparr>"
  let ?d2 = "with_snapshot ?m2 ?d1"
  have "mvcc_step (m, ps) (?m1, ps @ [(NeedsTimestamp, ?d0)])"
    by (rule take_id [OF assms(1)]) (simp add: generate_txn_id_def)
  moreover have "mvcc_step (?m1, ps @ [(NeedsTimestamp, ?d0)]) (?m2, ps @ [(NeedsSnapshot, ?d1)])"
    using take_timestamp [of ?n "ps @ [(NeedsTimestamp, ?d0)]" ?d0 ?m1] by (simp add: generate_timestamp_def Let_def)
  moreover have "mvcc_step (?m2, ps @ [(NeedsSnapshot, ?d1)]) (?m2, ps @ [(NeedsSlot, ?d2)])"
    using take_snapshot [of ?n "ps @ [(NeedsSnapshot, ?d1)]" ?d1 ?m2] by simp
  moreover have "mvcc_step (?m2, ps @ [(NeedsSlot, ?d2)]) (register ?d2 ?m2, ps)"
    using take_slot [of ?n "ps @ [(NeedsSlot, ?d2)]" ?d2 ?m2] by simp
  ultimately have "mvcc_step\<^sup>*\<^sup>* (m, ps) (register ?d2 ?m2, ps)"
    by (meson converse_rtranclp_into_rtranclp rtranclp.rtrancl_refl)
  moreover have "m' = register ?d2 ?m2"
    using assms(2) by (auto simp: mvcc_begin_transaction_def generate_txn_id_def generate_timestamp_def Let_def
        new_txn_def with_snapshot_def)
  ultimately show ?thesis by simp
qed

text \<open>So strict locking is a part of what the system does.\<close>

lemma strict_in_steps: "strict_step m m' \<Longrightarrow> mvcc_step\<^sup>*\<^sup>* (m, ps) (m', ps)"
proof (induction rule: strict_step.induct)
  case (begin_2pc m now c t m')
  obtain t1 m1 where b: "mvcc_begin_transaction now ISOLATION_SERIALIZABLE None m = (t1, m1)" by fastforce
  have "m' = mark_distributed c t1 m1" using begin_2pc(2) b by (auto simp: mvcc_2pc_begin_def mark_distributed_def)
  then have "mvcc_step (m1, ps) (m', ps)" using distributed by simp
  with begin_in_steps [OF begin_2pc(1) b, of ps] show ?case by (rule rtranclp.rtrancl_into_rtrancl)
qed (blast intro: begin_in_steps mvcc_step.acquire mvcc_step.call)+

lemma strict_is_reachable: "strict_reachable m \<Longrightarrow> mvcc_system_reachable (m, [])"
proof (induction rule: strict_reachable.induct)
  case init
  show ?case by (rule mvcc_starts)
next
  case (step m m')
  then show ?case using system_steps strict_in_steps by blast
qed

section \<open>The slots\<close>

text \<open>What a call does to the slots when it registers nobody: well-formed they stay, no id is taken,
  and whoever is registered afterwards was before, with the same snapshot.\<close>

definition keeps_slots :: "mvcc \<Rightarrow> mvcc \<Rightarrow> bool" where
  "keeps_slots m m' \<longleftrightarrow> (slots_wf m \<longrightarrow> slots_wf m' \<and> next_id m' = next_id m \<and>
     (\<forall>t d'. mvcc_get_transaction m' t = Some d' \<longrightarrow>
        (\<exists>d. mvcc_get_transaction m t = Some d \<and> td_snapshot d = td_snapshot d')))"

named_theorems keeps

lemma keeps_same [keeps]: "keeps_slots m m"
  by (simp add: keeps_slots_def)

lemma keeps_trans: "keeps_slots m m1 \<Longrightarrow> keeps_slots m1 m2 \<Longrightarrow> keeps_slots m m2"
  by (simp add: keeps_slots_def) (metis (no_types, lifting))

lemma keeps_frame [keeps]:
  assumes "active_txns m' = active_txns m" "next_id m' = next_id m" "active_count m' = active_count m"
  shows "keeps_slots m m'"
  using assms get_cong [OF assms(1)] by (simp add: keeps_slots_def slots_wf_def registered_def)

lemma keeps_update [keeps]:
  assumes "\<And>d. td_id (f d) = td_id d \<and> td_snapshot (f d) = td_snapshot d"
  shows "keeps_slots m (update_txn t f m)"
proof -
  have f: "td_id (f d) = td_id d" "td_snapshot (f d) = td_snapshot d" for d using assms by simp_all
  have "slots_wf (update_txn t f m)" if "slots_wf m"
    using update_slots [OF f(1) that, where t = t] by (simp add: slots_wf_def)
  moreover have "\<exists>d. mvcc_get_transaction m u = Some d \<and> td_snapshot d = td_snapshot d'"
    if "mvcc_get_transaction (update_txn t f m) u = Some d'" for u d'
    using that get_update_txn [OF f(1), of t m u] f(2) by (cases "mvcc_get_transaction m u") (auto split: if_splits)
  ultimately show ?thesis by (simp add: keeps_slots_def)
qed

lemma keeps_unregister [keeps]: "keeps_slots m (unregister t m)"
  unfolding keeps_slots_def
proof (intro impI conjI allI)
  assume wf: "slots_wf m"
  show "slots_wf (unregister t m)"
  proof (cases "first_idx (has_id t) (active_txns m)")
    case None
    then show ?thesis using wf by (simp add: unregister_def)
  next
    case (Some i)
    note D = first_idx_SomeD [OF Some]
    have u: "unregister t m = m\<lparr>active_txns := (active_txns m)[i := None], active_count := active_count m - 1\<rparr>"
      using Some by (simp add: unregister_def)
    have "active_txns m ! i \<noteq> None" using D(2) by (cases "active_txns m ! i") auto
    then show ?thesis using wf D ids_distinct_none [of "active_txns m" i]
      by (auto simp: u slots_wf_def registered_def slots_used_update dest!: set_update_subset_insert [THEN subsetD])
  qed
  show "next_id (unregister t m) = next_id m" by simp
  fix t' d' assume "mvcc_get_transaction (unregister t m) t' = Some d'"
  then show "\<exists>d. mvcc_get_transaction m t' = Some d \<and> td_snapshot d = td_snapshot d'"
    using get_unregister_same [of m t] get_unregister_other [of t' t m] wf
    by (cases "t' = t") (auto simp: slots_wf_def)
qed

lemma keeps_release_all [keeps]: "mvcc_release_all_locks t m = Some (r, m') \<Longrightarrow> keeps_slots m m'"
proof (cases "mvcc_get_transaction m t")
  case (Some d)
  let ?f = "\<lambda>d :: txn_desc. d\<lparr>held_locks := []\<rparr>"
  assume "mvcc_release_all_locks t m = Some (r, m')"
  then obtain lt where m': "m' = update_txn t ?f (m\<lparr>locks := lt\<rparr>)"
    using Some by (auto simp: mvcc_release_all_locks_def split: option.splits)
  have "keeps_slots m (m\<lparr>locks := lt\<rparr>)" by (rule keeps_frame) simp_all
  moreover have "keeps_slots (m\<lparr>locks := lt\<rparr>) m'" unfolding m' by (rule keeps_update) simp
  ultimately show ?thesis by (rule keeps_trans)
qed (simp add: mvcc_release_all_locks_def keeps_same)

lemma keeps_abort [keeps]: "mvcc_abort_transaction t m = Some (r, m') \<Longrightarrow> keeps_slots m m'"
proof (cases "mvcc_get_transaction m t")
  case (Some d)
  let ?m1 = "update_txn t (\<lambda>d :: txn_desc. d\<lparr>td_state := MV_ABORTED\<rparr>) m"
  assume "mvcc_abort_transaction t m = Some (r, m')"
  then obtain q m2 where m2: "mvcc_release_all_locks t ?m1 = Some (q, m2)" "m' = unregister t (m2\<lparr>aborts := aborts m2 + 1\<rparr>)"
    using Some by (auto simp: mvcc_abort_transaction_def split: option.splits)
  have "keeps_slots m ?m1" by (rule keeps_update) simp
  moreover have "keeps_slots ?m1 m2" by (rule keeps_release_all [OF m2(1)])
  moreover have "keeps_slots m2 (m2\<lparr>aborts := aborts m2 + 1\<rparr>)" by (rule keeps_frame) simp_all
  moreover have "keeps_slots (m2\<lparr>aborts := aborts m2 + 1\<rparr>) m'" unfolding m2(2) by (rule keeps_unregister)
  ultimately show ?thesis by (blast intro: keeps_trans)
qed (simp add: mvcc_abort_transaction_def keeps_same)

lemma keeps_commit [keeps]: "mvcc_commit_transaction t m = Some (r, m') \<Longrightarrow> keeps_slots m m'"
proof (cases "mvcc_get_transaction m t")
  case (Some d)
  assume c: "mvcc_commit_transaction t m = Some (r, m')"
  show ?thesis
  proof (cases "td_state d = MV_ACTIVE")
    case True
    let ?a = "update_txn t (\<lambda>d :: txn_desc. d\<lparr>td_state := MV_COMMITTING\<rparr>) m"
    let ?ts = "current_timestamp ?a + 1"
    let ?b = "?a\<lparr>current_timestamp := ?ts\<rparr>"
    let ?c = "update_txn t (\<lambda>d :: txn_desc. d\<lparr>commit_ts := ?ts\<rparr>) ?b"
    let ?e = "?c\<lparr>commit_log := commit_log ?c @ [(t, ?ts)]\<rparr>"
    obtain q n where n: "mvcc_release_all_locks t ?e = Some (q, n)"
      and m': "m' = unregister t ((update_txn t (\<lambda>d :: txn_desc. d\<lparr>td_state := MV_COMMITTED\<rparr>) n)
          \<lparr>commits := commits (update_txn t (\<lambda>d :: txn_desc. d\<lparr>td_state := MV_COMMITTED\<rparr>) n) + 1\<rparr>)"
      using c Some True by (auto simp: mvcc_commit_transaction_def mvcc_check_write_conflict_def
          mvcc_check_read_conflict_def generate_timestamp_def Let_def split: option.splits)
    let ?h = "update_txn t (\<lambda>d :: txn_desc. d\<lparr>td_state := MV_COMMITTED\<rparr>) n"
    let ?k = "?h\<lparr>commits := commits ?h + 1\<rparr>"
    have "keeps_slots m ?a" by (rule keeps_update) simp
    moreover have "keeps_slots ?a ?b" by (rule keeps_frame) simp_all
    moreover have "keeps_slots ?b ?c" by (rule keeps_update) simp
    moreover have "keeps_slots ?c ?e" by (rule keeps_frame) simp_all
    moreover have "keeps_slots ?e n" by (rule keeps_release_all [OF n])
    moreover have "keeps_slots n ?h" by (rule keeps_update) simp
    moreover have "keeps_slots ?h ?k" by (rule keeps_frame) simp_all
    moreover have "keeps_slots ?k m'" unfolding m' by (rule keeps_unregister)
    ultimately show ?thesis by (blast intro: keeps_trans)
  qed (use c Some in \<open>simp add: mvcc_commit_transaction_def keeps_same\<close>)
qed (simp add: mvcc_commit_transaction_def keeps_same)

lemma keeps_harmless [keeps]: "harmless m m' \<Longrightarrow> keeps_slots m m'"
  by (auto simp: harmless_def intro!: keeps_same keeps_update)

lemma keeps_acquire [keeps]: "acquire_attempt t res md g m = Some m' \<Longrightarrow> keeps_slots m m'"
proof -
  assume "acquire_attempt t res md g m = Some m'"
  then obtain lt new where m': "m' = (case new of None \<Rightarrow> m\<lparr>locks := lt\<rparr>
      | Some r \<Rightarrow> update_txn t (\<lambda>d :: txn_desc. d\<lparr>held_locks := held_locks d @ [r]\<rparr>) (m\<lparr>locks := lt\<rparr>))"
    by (auto simp: acquire_attempt_def split: attempt.splits)
  have "keeps_slots m (m\<lparr>locks := lt\<rparr>)" by (rule keeps_frame) simp_all
  moreover have "keeps_slots (m\<lparr>locks := lt\<rparr>) m'" unfolding m' by (cases new) (simp_all add: keeps_same keeps_update)
  ultimately show ?thesis by (rule keeps_trans)
qed

lemma keeps_release [keeps]: "mvcc_release_lock t res m = (r, m') \<Longrightarrow> keeps_slots m m'"
  by (auto simp: mvcc_release_lock_def intro!: keeps_same keeps_frame split: option.splits prod.splits)

lemma keeps_call [keeps]: "plain_call m m' \<Longrightarrow> keeps_slots m m'"
proof (induction rule: plain_call.induct)
  case (timeout m)
  show ?case by (rule keeps_frame) simp_all
next
  case (create_version m t data v m')
  then show ?case by (intro keeps_frame) (auto simp: mvcc_create_version_def generate_timestamp_def Let_def)
next
  case (mark_deleted m v t v' m')
  then show ?case by (intro keeps_frame) (auto simp: mvcc_mark_deleted_def generate_timestamp_def Let_def)
qed (blast intro: keeps_commit keeps_abort keeps_harmless harmless_ops)+

lemma slots_register:
  assumes wf: "slots_wf m" and new: "mvcc_get_transaction m (td_id d) = None" "td_id d < next_id m"
  shows "slots_wf (register d m)"
proof (cases "first_idx (\<lambda>s. s = None) (active_txns m)")
  case None
  then show ?thesis using wf by (simp add: register_def)
next
  case (Some i)
  note D = first_idx_SomeD [OF Some]
  have r: "register d m = m\<lparr>active_txns := (active_txns m)[i := Some d], active_count := active_count m + 1\<rparr>"
    using Some by (simp add: register_def)
  have ids: "ids_distinct (active_txns m)" using wf by (simp add: slots_wf_def)
  have "td_id d' \<noteq> td_id d" if "registered m d'" for d'
    using registered_get [OF ids that] new(1) by auto
  then have other: "td_id d' \<noteq> td_id d" if "active_txns m ! j = Some d'" "j < length (active_txns m)" for j d'
    using that by (auto simp: registered_def in_set_conv_nth)
  have "ids_distinct ((active_txns m)[i := Some d])"
    unfolding ids_distinct_def
  proof (intro allI impI)
    fix j k d1 d2
    assume a: "j < length ((active_txns m)[i := Some d])" "k < length ((active_txns m)[i := Some d])"
      "(active_txns m)[i := Some d] ! j = Some d1" "(active_txns m)[i := Some d] ! k = Some d2" "td_id d1 = td_id d2"
    then show "j = k" using ids other [of j d1] other [of k d2]
      unfolding ids_distinct_def by (auto simp: nth_update split: if_splits)
  qed
  then show ?thesis using wf new(2) D
    by (auto simp: r slots_wf_def registered_def slots_used_update dest!: set_update_subset_insert [THEN subsetD])
qed

section \<open>The invariant of the system\<close>

text \<open>An id handed out belongs to one beginning transaction, which is not registered.\<close>

definition system_wf :: "mvcc_system \<Rightarrow> bool" where
  "system_wf s \<longleftrightarrow> slots_wf (fst s) \<and> distinct (map (td_id \<circ> snd) (snd s)) \<and>
     (\<forall>p \<in> set (snd s). td_id (snd p) < next_id (fst s) \<and> mvcc_get_transaction (fst s) (td_id (snd p)) = None)"

text \<open>Transaction \<open>t\<close> has its snapshot, and this is \<open>snap\<close>, as long as it is there.\<close>

definition snapshot_fixed :: "u64 \<Rightarrow> snapshot option \<Rightarrow> mvcc_system \<Rightarrow> bool" where
  "snapshot_fixed t snap s \<longleftrightarrow> t < next_id (fst s) \<and>
     (\<forall>d. mvcc_get_transaction (fst s) t = Some d \<longrightarrow> td_snapshot d = snap) \<and>
     (\<forall>p \<in> set (snd s). td_id (snd p) = t \<longrightarrow> fst p = NeedsSlot \<and> td_snapshot (snd p) = snap)"

lemma keeps_system:
  assumes "keeps_slots m m'" and "system_wf (m, ps)"
  shows "system_wf (m', ps)" "snapshot_fixed t snap (m, ps) \<Longrightarrow> snapshot_fixed t snap (m', ps)"
proof -
  have k: "slots_wf m'" "next_id m' = next_id m"
    "\<And>t d'. mvcc_get_transaction m' t = Some d' \<Longrightarrow> \<exists>d. mvcc_get_transaction m t = Some d \<and> td_snapshot d = td_snapshot d'"
    using assms by (auto simp: keeps_slots_def system_wf_def)
  have "mvcc_get_transaction m' t = None" if "mvcc_get_transaction m t = None" for t
    using k(3) [of t] that by (cases "mvcc_get_transaction m' t") auto
  then show "system_wf (m', ps)" using assms(2) k(1,2) by (auto simp: system_wf_def)
  show "snapshot_fixed t snap (m, ps) \<Longrightarrow> snapshot_fixed t snap (m', ps)"
    using k(2,3) by (fastforce simp: snapshot_fixed_def)
qed

lemma map_id_list_update:
  "i < length ps \<Longrightarrow> td_id (snd p) = td_id (snd (ps ! i)) \<Longrightarrow> map (td_id \<circ> snd) (ps[i := p]) = map (td_id \<circ> snd) ps"
  by (metis comp_apply list_update_id map_update)

lemma id_taken:
  assumes "slots_wf m" and "next_id m \<noteq> - 1"
  shows "slots_wf (m\<lparr>next_id := next_id m + 1\<rparr>)" "mvcc_get_transaction (m\<lparr>next_id := next_id m + 1\<rparr>) t = mvcc_get_transaction m t"
  using assms word_less_succ [OF assms(2)] get_cong [of "m\<lparr>next_id := next_id m + 1\<rparr>" m t]
  by (auto simp: slots_wf_def registered_def intro: less_trans)

lemma removed_at: "i < length ps \<Longrightarrow> set ps = insert (ps ! i) (set (take i ps @ drop (Suc i) ps))"
  by (metis Un_insert_right id_take_nth_drop list.simps(15) set_append)

lemma removed_distinct:
  assumes "i < length ps" and "distinct (map f ps)"
  shows "distinct (map f (take i ps @ drop (Suc i) ps))" "f (ps ! i) \<notin> f ` set (take i ps @ drop (Suc i) ps)"
proof -
  have "distinct (map f (take i ps @ ps ! i # drop (Suc i) ps))" using assms id_take_nth_drop by metis
  then show "distinct (map f (take i ps @ drop (Suc i) ps))" "f (ps ! i) \<notin> f ` set (take i ps @ drop (Suc i) ps)"
    by auto
qed

lemma system_update:
  assumes wf: "system_wf (m, ps)" and i: "i < length ps" "ps ! i = (ph, d)" and d': "td_id d' = td_id d" and ph: "ph \<noteq> NeedsSlot"
  shows "system_wf (m, ps[i := (ph', d')])"
    "snapshot_fixed t snap (m, ps) \<Longrightarrow> snapshot_fixed t snap (m, ps[i := (ph', d')])"
proof -
  have mem: "(ph, d) \<in> set ps" using i nth_mem by metis
  have sub: "p \<in> set ps \<or> p = (ph', d')" if "p \<in> set (ps[i := (ph', d')])" for p
    using that set_update_subset_insert by fastforce
  have "map (td_id \<circ> snd) (ps[i := (ph', d')]) = map (td_id \<circ> snd) ps"
    by (rule map_id_list_update) (use i d' in simp_all)
  moreover have "td_id d < next_id m" "mvcc_get_transaction m (td_id d) = None"
    using wf mem by (auto simp: system_wf_def)
  ultimately show "system_wf (m, ps[i := (ph', d')])" using wf d' sub unfolding system_wf_def by fastforce
  assume f: "snapshot_fixed t snap (m, ps)"
  then have "td_id d \<noteq> t" using mem ph by (auto simp: snapshot_fixed_def)
  then show "snapshot_fixed t snap (m, ps[i := (ph', d')])" using f d' sub unfolding snapshot_fixed_def by fastforce
qed

lemma system_take_id:
  assumes wf: "system_wf (m, ps)" and room: "next_id m \<noteq> - 1" and d: "td_id d = next_id m"
  shows "system_wf (m\<lparr>next_id := next_id m + 1\<rparr>, ps @ [(ph, d)])"
    "snapshot_fixed t snap (m, ps) \<Longrightarrow> snapshot_fixed t snap (m\<lparr>next_id := next_id m + 1\<rparr>, ps @ [(ph, d)])"
proof -
  have sw: "slots_wf m" using wf by (simp add: system_wf_def)
  note I = id_taken [OF sw room] and less = word_less_succ [OF room]
  have "mvcc_get_transaction m (next_id m) = None" using get_fresh [OF sw] by simp
  moreover have "td_id (snd p) \<noteq> next_id m \<and> td_id (snd p) < next_id m + 1" if "p \<in> set ps" for p
    using wf that less by (auto simp: system_wf_def intro: less_trans)
  ultimately show "system_wf (m\<lparr>next_id := next_id m + 1\<rparr>, ps @ [(ph, d)])"
    using wf I d less by (auto simp: system_wf_def)
  assume f: "snapshot_fixed t snap (m, ps)"
  then have "t \<noteq> next_id m" "t < next_id m + 1" using less by (auto simp: snapshot_fixed_def intro: less_trans)
  then show "snapshot_fixed t snap (m\<lparr>next_id := next_id m + 1\<rparr>, ps @ [(ph, d)])"
    using f I(2) d by (auto simp: snapshot_fixed_def)
qed

lemma mvcc_step_keeps:
  assumes "mvcc_step s s'" and "system_wf s"
  shows "system_wf s' \<and> (\<forall>t snap. snapshot_fixed t snap s \<longrightarrow> snapshot_fixed t snap s')"
  using assms
proof (induction rule: mvcc_step.induct)
  case (take_id m t m' ps now level usr)
  have "m' = m\<lparr>next_id := next_id m + 1\<rparr>" "t = next_id m" using take_id(2) by (auto simp: generate_txn_id_def)
  then show ?case using system_take_id [OF take_id(3,1), of "new_txn now level usr t"] by (simp add: new_txn_def)
next
  case (take_timestamp i ps d m ts m')
  have m': "m' = m\<lparr>current_timestamp := current_timestamp m + 1\<rparr>"
    using take_timestamp(3) by (auto simp: generate_timestamp_def Let_def)
  have k: "keeps_slots m m'" unfolding m' by (rule keeps_frame) simp_all
  note S = keeps_system [OF k take_timestamp(4)]
  note U = system_update [where d' = "d\<lparr>start_ts := ts\<rparr>" and ph' = NeedsSnapshot, OF S(1) take_timestamp(1,2)]
  show ?case using U S(2) by simp
next
  case (take_snapshot i ps d m)
  note U = system_update [where d' = "with_snapshot m d" and ph' = NeedsSlot, OF take_snapshot(3,1,2)]
  have "td_id (with_snapshot m d) = td_id d" by (simp add: with_snapshot_def)
  then show ?case using U by simp
next
  case (take_slot i ps d m)
  let ?qs = "take i ps @ drop (Suc i) ps"
  have wf: "slots_wf m" "distinct (map (td_id \<circ> snd) ps)"
    "\<And>p. p \<in> set ps \<Longrightarrow> td_id (snd p) < next_id m \<and> mvcc_get_transaction m (td_id (snd p)) = None"
    using take_slot(3) by (simp_all add: system_wf_def)
  have mem: "(NeedsSlot, d) \<in> set ps" using take_slot(1,2) nth_mem by metis
  have d: "mvcc_get_transaction m (td_id d) = None" "td_id d < next_id m" using wf(3) [OF mem] by simp_all
  note R = removed_distinct [OF take_slot(1) wf(2)]
  have sub: "set ?qs \<subseteq> set ps" using removed_at [OF take_slot(1)] by blast
  have "td_id (snd p) \<noteq> td_id d" if "p \<in> set ?qs" for p using R(2) that take_slot(2) by force
  then have "system_wf (register d m, ?qs)"
    using slots_register [OF wf(1) d] get_register [OF d(1)] wf(3) sub R(1) by (auto simp: system_wf_def)
  moreover have "snapshot_fixed t snap (register d m, ?qs)" if "snapshot_fixed t snap (m, ps)" for t snap
    using that mem sub get_register [OF d(1), of t] by (auto simp: snapshot_fixed_def split: if_splits)
  ultimately show ?case by blast
next
  case (distributed m ps c t)
  have "keeps_slots m (mark_distributed c t m)" unfolding mark_distributed_def by (rule keeps_update) simp
  then show ?case using keeps_system distributed by blast
next
  case (acquire m t res md g m' ps)
  then show ?case using keeps_system [OF keeps_acquire] by blast
next
  case (release t res m r m' ps)
  then show ?case using keeps_system [OF keeps_release] by blast
next
  case (call m m' ps)
  then show ?case using keeps_system [OF keeps_call] by blast
qed

lemma steps_keep: "mvcc_step\<^sup>*\<^sup>* s s' \<Longrightarrow> system_wf s \<Longrightarrow> system_wf s' \<and> (snapshot_fixed t snap s \<longrightarrow> snapshot_fixed t snap s')"
  by (induction rule: rtranclp_induct) (auto dest: mvcc_step_keeps)

lemma system_reachable_wf: "mvcc_system_reachable s \<Longrightarrow> system_wf s"
proof (induction rule: mvcc_system_reachable.induct)
  case mvcc_starts
  show ?case using wf_slots [OF mvcc_init_wf] by (simp add: system_wf_def)
next
  case (mvcc_steps s s')
  then show ?case using mvcc_step_keeps by blast
qed

lemma mvcc_reachable_wf: "mvcc_reachable m \<Longrightarrow> slots_wf m"
  using system_reachable_wf by (fastforce simp: mvcc_reachable_def system_wf_def)

lemma strict_mvcc_reachable: "strict_reachable m \<Longrightarrow> mvcc_reachable m"
  using strict_is_reachable by (auto simp: mvcc_reachable_def)

end
