(* ===== verification/MvccSnapshots.thy ===== *)
theory MvccSnapshots
  imports MvccSystem
begin

text \<open>
  Visibility in the reachable states of the MVCC manager: what a snapshot sees, that a transaction
  with a snapshot reads the same versions until it ends, and the cases in which visibility is not
  what the isolation level promises. Two-phase commit and savepoints are at the end.
\<close>

section \<open>Lemmas\<close>

lemma visible_in_snapshot:
  assumes "slots_wf m"
  shows "mvcc_is_visible t (Some (mvcc_take_snapshot m self)) \<longleftrightarrow>
    t < next_id m \<and> \<not> (\<exists>d. mvcc_get_transaction m t = Some d \<and> td_state d = MV_ACTIVE \<and> t \<noteq> self)"
proof -
  let ?s = "mvcc_take_snapshot m self"
  note A = take_snapshot_active [OF assms, where self = self]
  have x: "snap_xmax ?s = next_id m" by (simp add: mvcc_take_snapshot_def split: prod.split)
  show ?thesis
  proof (cases "t < snap_xmin ?s")
    case True
    then have "t < next_id m" using A(2) by (rule less_le_trans)
    moreover have "t \<notin> set (snap_active ?s)" using A(3) True by fastforce
    ultimately show ?thesis using True A(1) by (simp add: mvcc_is_visible_def)
  next
    case False
    then show ?thesis using A(1) by (auto simp: mvcc_is_visible_def x)
  qed
qed

lemma begin_result: "mvcc_begin_transaction now level usr m = (t, m') \<Longrightarrow> t = next_id m \<and> next_id m' = next_id m + 1"
  by (auto simp: mvcc_begin_transaction_def generate_txn_id_def generate_timestamp_def Let_def)

text \<open>A transaction that has begun and is still registered, whatever ran in between: its snapshot is
  the one taken when it began.\<close>

lemma snapshot_since_begin:
  assumes wf: "mvcc_wf m0" and ids: "next_id m0 \<noteq> - 1"
    and b: "mvcc_begin_transaction now level usr m0 = (t, m)"
    and s: "strict_step\<^sup>*\<^sup>* m m'" and d': "mvcc_get_transaction m' t = Some d'"
  shows "td_snapshot d' = (if isolation_code level \<ge> 2
      then Some (mvcc_take_snapshot (m0\<lparr>next_id := next_id m0 + 1, current_timestamp := current_timestamp m0 + 1\<rparr>) t)
      else None)"
    and "\<exists>d. mvcc_get_transaction m t = Some d \<and> td_snapshot d = td_snapshot d'"
proof -
  let ?m = "m0\<lparr>next_id := next_id m0 + 1, current_timestamp := current_timestamp m0 + 1\<rparr>"
  note tm = begin_result [OF b]
  have wfm: "mvcc_wf m" using begin_good [OF wf ids, of now level usr] b by (simp add: good_step_def)
  have "t < next_id m" using word_less_succ [OF ids] tm by simp
  with steps_good [OF s wfm] d' obtain d where d: "mvcc_get_transaction m t = Some d" "td_snapshot d = td_snapshot d'"
    unfolding good_step_def by blast
  then show "\<exists>d. mvcc_get_transaction m t = Some d \<and> td_snapshot d = td_snapshot d'" by blast
  obtain dn where dn: "m = register dn ?m" "td_id dn = t"
    "td_snapshot dn = (if isolation_code level \<ge> 2 then Some (mvcc_take_snapshot ?m t) else None)"
    using b by (auto simp: mvcc_begin_transaction_def generate_txn_id_def generate_timestamp_def Let_def)
  have none: "mvcc_get_transaction ?m (td_id dn) = None"
    using get_fresh [OF wf_slots [OF wf]] get_cong [of ?m m0] dn(2) tm by simp
  show "td_snapshot d' = (if isolation_code level \<ge> 2 then Some (mvcc_take_snapshot ?m t) else None)"
    using get_register [OF none, of t] d dn none by (auto split: if_splits)
qed

lemma walk_back_unseen:
  assumes "\<forall>v \<in> set newer. \<not> mvcc_version_visible m v t"
  shows "mvcc_get_visible_version m (chain @ newer) t = mvcc_get_visible_version m chain t"
proof -
  have "walk_back m t (vs @ ws) = walk_back m t ws" if "\<forall>v \<in> set vs. \<not> mvcc_version_visible m v t" for vs ws
    using that by (induction vs) simp_all
  from this [of "rev newer" "rev chain"] assms show ?thesis by (simp add: mvcc_get_visible_version_def)
qed

lemma walk_back_cong:
  assumes "\<And>v. mvcc_version_visible m' v t = mvcc_version_visible m v t"
  shows "mvcc_get_visible_version m' chain t = mvcc_get_visible_version m chain t"
proof -
  have "walk_back m' t vs = walk_back m t vs" for vs by (induction vs) (simp_all add: assms)
  then show ?thesis by (simp add: mvcc_get_visible_version_def)
qed

lemma begin_empty:
  assumes "mvcc_wf m" and "active_count m < 256" and "next_id m \<noteq> - 1"
  shows "mvcc_begin_transaction now level usr m = (next_id m, snd (mvcc_begin_transaction now level usr m))"
    and "\<exists>d. mvcc_get_transaction (snd (mvcc_begin_transaction now level usr m)) (next_id m) = Some d"
proof -
  show "mvcc_begin_transaction now level usr m = (next_id m, snd (mvcc_begin_transaction now level usr m))"
    by (simp add: mvcc_begin_transaction_def generate_txn_id_def generate_timestamp_def Let_def)
  show "\<exists>d. mvcc_get_transaction (snd (mvcc_begin_transaction now level usr m)) (next_id m) = Some d"
    using begin_get(1) [OF assms(1) free_slot [OF assms(1,2)]] by blast
qed

lemma init_get: "mvcc_get_transaction mvcc_init t = None"
proof -
  have "first_idx (has_id t) (active_txns mvcc_init) = None" by (simp add: mvcc_init_def first_idx_None)
  then show ?thesis by (simp add: mvcc_get_transaction_def)
qed

text \<open>The state between the two begins of \<open>two_txns\<close>.\<close>

definition one_txn :: mvcc where
  "one_txn = snd (mvcc_begin_transaction 0 ISOLATION_READ_COMMITTED None mvcc_init)"

lemma one_txn:
  "strict_reachable one_txn" "next_id one_txn = 2" "active_count one_txn = 1" "None \<in> set (active_txns one_txn)"
  "mvcc_is_active one_txn 1" "t \<noteq> 1 \<Longrightarrow> mvcc_get_transaction one_txn t = None"
  "mvcc_begin_transaction 0 ISOLATION_SERIALIZABLE None one_txn = (2, two_txns)"
proof -
  have n: "next_id mvcc_init = 1" "active_count mvcc_init = 0" unfolding mvcc_init_def by simp_all
  have f0: "None \<in> set (active_txns mvcc_init)" using free_slot [OF mvcc_init_wf] n by simp
  show r: "strict_reachable one_txn" unfolding one_txn_def by (rule begin_reachable [OF strict_reachable.init]) (simp add: n)
  show n1: "next_id one_txn = 2" by (simp add: one_txn_def begin_next_id n)
  show c1: "active_count one_txn = 1" using begin_count [OF f0] n by (simp add: one_txn_def)
  show "None \<in> set (active_txns one_txn)" using free_slot [OF reachable_wf [OF r]] c1 by simp
  note b0 = begin_get [OF mvcc_init_wf f0]
  show "mvcc_is_active one_txn 1" using b0(1) [of 0 ISOLATION_READ_COMMITTED None] by (auto simp: one_txn_def n mvcc_is_active_def)
  show "t \<noteq> 1 \<Longrightarrow> mvcc_get_transaction one_txn t = None" using b0(2) [of t] by (simp add: one_txn_def n init_get)
  show "mvcc_begin_transaction 0 ISOLATION_SERIALIZABLE None one_txn = (2, two_txns)"
    using begin_empty(1) [OF reachable_wf [OF r], of 0 ISOLATION_SERIALIZABLE None] c1 n1 by (simp add: two_txns_def one_txn_def)
qed

lemma two_txns_only: "t \<noteq> 1 \<Longrightarrow> t \<noteq> 2 \<Longrightarrow> mvcc_get_transaction two_txns t = None"
  using begin_get(2) [OF reachable_wf [OF one_txn(1)] one_txn(4), of t] one_txn(2,6) by (simp add: two_txns_def one_txn_def)

section \<open>Snapshots\<close>

text \<open>C27: A snapshot taken in a reachable state sees exactly the transactions that have an id below
  the next one and are not active at that moment (the taker counts as finished), and the list of
  active ids never outgrows the array of \<open>active_count\<close> entries allocated for it.\<close>

theorem snapshot_sees_exactly_the_finished:
  assumes "mvcc_reachable m"
  shows "(mvcc_is_visible t (Some (mvcc_take_snapshot m self)) \<longleftrightarrow>
      t < next_id m \<and> (t = self \<or> \<not> mvcc_is_active m t)) \<and>
    int (length (snap_active (mvcc_take_snapshot m self))) \<le> active_count m"
  using visible_in_snapshot [OF mvcc_reachable_wf [OF assms], of t self] take_snapshot_active(4) [OF mvcc_reachable_wf [OF assms]]
  by (auto simp: mvcc_is_active_def split: option.splits)

theorem snapshot_sees_exactly_the_finished_witness:
  "mvcc_is_visible 0 (Some (mvcc_take_snapshot two_txns 2)) \<and>
   \<not> mvcc_is_visible 1 (Some (mvcc_take_snapshot two_txns 2)) \<and>
   mvcc_is_visible 2 (Some (mvcc_take_snapshot two_txns 2)) \<and>
   \<not> mvcc_is_visible 3 (Some (mvcc_take_snapshot two_txns 2))"
proof -
  note S = snapshot_sees_exactly_the_finished [OF strict_mvcc_reachable [OF two_txns(1)], where self = 2, THEN conjunct1]
  have "mvcc_get_transaction two_txns 0 = None" using two_txns_only [of 0] by simp
  then have i0: "\<not> mvcc_is_active two_txns 0" by (simp add: mvcc_is_active_def)
  have i1: "mvcc_is_active two_txns 1" using two_txns(2) by (auto simp: mvcc_is_active_def)
  have lt: "(0::u64) < 3" "(2::u64) < 3" "\<not> (3::u64) < 3" "(1::u64) \<noteq> 2" by simp_all
  from S [of 0] S [of 1] S [of 2] S [of 3] i0 i1 lt show ?thesis by (simp only: two_txns(4)) blast
qed

text \<open>What a snapshot of \<open>t\<close> taken in the state \<open>m\<close> counts as done: everything with an id below the next
  one that is not registered as active.\<close>

definition counts_as_done :: "mvcc \<Rightarrow> u64 \<Rightarrow> u64 \<Rightarrow> bool" where
  "counts_as_done m t x \<longleftrightarrow> x < next_id m \<and> (x = t \<or> \<not> mvcc_is_active m x)"

lemma visible_counts:
  "slots_wf m \<Longrightarrow> mvcc_is_visible x (Some (mvcc_take_snapshot m t)) \<longleftrightarrow> counts_as_done m t x"
  using visible_in_snapshot [of m x t] by (auto simp: counts_as_done_def mvcc_is_active_def split: option.splits)

lemma fixed_by_snapshot:
  assumes wf: "system_wf (m, ps)" and i: "i < length ps" "ps ! i = (NeedsSnapshot, d)"
  shows "system_wf (m, ps[i := (NeedsSlot, with_snapshot m d)])"
    "snapshot_fixed (td_id d) (td_snapshot (with_snapshot m d)) (m, ps[i := (NeedsSlot, with_snapshot m d)])"
proof -
  let ?d = "with_snapshot m d"
  have same: "td_id ?d = td_id d" by (simp add: with_snapshot_def)
  show "system_wf (m, ps[i := (NeedsSlot, ?d)])" by (rule system_update(1) [OF wf i same]) simp
  have mem: "(NeedsSnapshot, d) \<in> set ps" using i nth_mem by metis
  have only: "j = i" if "j < length ps" "td_id (snd (ps ! j)) = td_id d" for j
  proof -
    have "map (td_id \<circ> snd) ps ! j = map (td_id \<circ> snd) ps ! i" using that i by simp
    moreover have "distinct (map (td_id \<circ> snd) ps)" using wf by (simp add: system_wf_def)
    ultimately show ?thesis
      using nth_eq_iff_index_eq [of "map (td_id \<circ> snd) ps" j i] that(1) i(1) by (simp only: length_map)
  qed
  have "fst p = NeedsSlot \<and> td_snapshot (snd p) = td_snapshot ?d"
    if p: "p \<in> set (ps[i := (NeedsSlot, ?d)])" "td_id (snd p) = td_id d" for p
  proof -
    obtain j where j: "j < length ps" "ps[i := (NeedsSlot, ?d)] ! j = p" using p(1) by (auto simp: in_set_conv_nth)
    show ?thesis
    proof (cases "j = i")
      case True
      then show ?thesis using j(2) i(1) by auto
    next
      case False
      then have "ps ! j = p" using j(2) by simp
      then show ?thesis using only [of j] p(2) j(1) False by simp
    qed
  qed
  moreover have "td_id d < next_id m" "mvcc_get_transaction m (td_id d) = None" using wf mem by (auto simp: system_wf_def)
  ultimately show "snapshot_fixed (td_id d) (td_snapshot ?d) (m, ps[i := (NeedsSlot, ?d)])"
    by (simp add: snapshot_fixed_def)
qed

text \<open>C24: At \<open>REPEATABLE READ\<close> and \<open>SERIALIZABLE\<close> what a transaction sees is fixed at the moment it takes
  its snapshot, whatever all transactions do from then on, interleaved in any way. A version it did
  not write is visible exactly when its writer counted as done at that moment and its deleter did not;
  so at any two moments of its life a version is equally visible, and a version chain that has grown
  by versions of writers that did not count as done yields the version it yielded before. What counts
  as done is every writer with an id that is not registered as active. That covers the finished ones,
  and also those that hold an id and are not registered yet, for \<open>mvcc_begin_transaction\<close> takes
  separate locks for the two: the work of these is read although it is not committed.\<close>

theorem repeatable_read:
  assumes "mvcc_system_reachable (m, ps)" and "i < length ps" and "ps ! i = (NeedsSnapshot, d)"
    and "isolation_code (td_isolation d) \<ge> 2"
    and "mvcc_step\<^sup>*\<^sup>* (m, ps[i := (NeedsSlot, with_snapshot m d)]) (m1, ps1)" and "mvcc_get_transaction m1 (td_id d) \<noteq> None"
    and "mvcc_step\<^sup>*\<^sup>* (m1, ps1) (m2, ps2)" and "mvcc_get_transaction m2 (td_id d) \<noteq> None"
  shows "let t = td_id d in
    (created_by v \<noteq> t \<longrightarrow> mvcc_version_visible m1 v t = (counts_as_done m t (created_by v) \<and>
       (deleted_by v = 0 \<or> \<not> counts_as_done m t (deleted_by v)))) \<and>
    mvcc_version_visible m2 v t = mvcc_version_visible m1 v t \<and>
    ((\<forall>w \<in> set newer. created_by w \<noteq> t \<and> \<not> counts_as_done m t (created_by w)) \<longrightarrow>
       mvcc_get_visible_version m2 (chain @ newer) t = mvcc_get_visible_version m1 chain t) \<and>
    (\<forall>p \<in> set ps. counts_as_done m t (td_id (snd p)))"
proof -
  let ?t = "td_id d" and ?snap = "Some (mvcc_take_snapshot m (td_id d))"
  have wf: "system_wf (m, ps)" by (rule system_reachable_wf [OF assms(1)])
  then have sw: "slots_wf m" by (simp add: system_wf_def)
  have "td_snapshot (with_snapshot m d) = ?snap" using assms(4) by (simp add: with_snapshot_def)
  with fixed_by_snapshot [OF wf assms(2,3)]
  have f: "system_wf (m, ps[i := (NeedsSlot, with_snapshot m d)])"
      "snapshot_fixed ?t ?snap (m, ps[i := (NeedsSlot, with_snapshot m d)])" by simp_all
  have f1: "system_wf (m1, ps1)" "snapshot_fixed ?t ?snap (m1, ps1)" using steps_keep [OF assms(5) f(1)] f(2) by blast+
  have f2: "snapshot_fixed ?t ?snap (m2, ps2)" using steps_keep [OF assms(7) f1(1)] f1(2) by blast
  obtain d1 d2 where g1: "mvcc_get_transaction m1 ?t = Some d1" "td_snapshot d1 = ?snap"
      and g2: "mvcc_get_transaction m2 ?t = Some d2" "td_snapshot d2 = ?snap"
    using assms(6,8) f1(2) f2 by (auto simp: snapshot_fixed_def)
  have see: "mvcc_version_visible m1 w ?t = (counts_as_done m ?t (created_by w) \<and>
      (deleted_by w = 0 \<or> \<not> counts_as_done m ?t (deleted_by w)))" if "created_by w \<noteq> ?t" for w
    using that by (auto simp: mvcc_version_visible_def g1 visible_counts [OF sw])
  have same: "mvcc_version_visible m2 w ?t = mvcc_version_visible m1 w ?t" for w
    by (rule visible_deps [OF g1(1) g2(1)]) (simp add: g1 g2)
  have "mvcc_get_visible_version m2 (chain @ newer) ?t = mvcc_get_visible_version m1 chain ?t"
    if "\<forall>w \<in> set newer. created_by w \<noteq> ?t \<and> \<not> counts_as_done m ?t (created_by w)"
    using walk_back_unseen [of newer m1 ?t chain] walk_back_cong [of m2 ?t m1, OF same] see that by simp
  moreover have "counts_as_done m ?t (td_id (snd p))" if "p \<in> set ps" for p
    using wf that by (auto simp: system_wf_def counts_as_done_def mvcc_is_active_def)
  ultimately show ?thesis using see same unfolding Let_def by blast
qed

text \<open>Transaction 2 takes its snapshot while 1 is registered and 3 holds an id only; 2 then registers and
  1 commits. A version of 1 stays unseen, one of 3 is seen.\<close>

theorem repeatable_read_witness:
  "\<exists>m ps i d m1 ps1 m2. mvcc_system_reachable (m, ps) \<and> ps ! i = (NeedsSnapshot, d) \<and> td_id d = 2 \<and>
     mvcc_step\<^sup>*\<^sup>* (m, ps[i := (NeedsSlot, with_snapshot m d)]) (m1, ps1) \<and>
     mvcc_commit_transaction 1 m1 = Some (0, m2) \<and>
     (let v = \<lparr>created_by = 1, deleted_by = 0, create_ts = 9, delete_ts = 0, version_data = []\<rparr>;
          w = v\<lparr>created_by := 3\<rparr>
      in \<not> mvcc_version_visible m1 v 2 \<and> \<not> mvcc_version_visible m2 v 2 \<and> mvcc_version_visible m2 w 2)"
proof -
  let ?m1 = "one_txn\<lparr>next_id := 3\<rparr>" and ?begun = "new_txn 0 ISOLATION_SERIALIZABLE None 2"
  let ?m2 = "?m1\<lparr>current_timestamp := current_timestamp one_txn + 1\<rparr>"
  define m e where "m = ?m2\<lparr>next_id := 4\<rparr>" and "e = new_txn 0 ISOLATION_SERIALIZABLE None 3"
  define d where "d = ?begun\<lparr>start_ts := current_timestamp one_txn + 1\<rparr>"
  define sn where "sn = with_snapshot m d"
  let ?ps = "[(NeedsSnapshot, d), (NeedsTimestamp, e)]" and ?r = "register sn m"
  have st0: "mvcc_system_reachable (one_txn, [])" by (rule strict_is_reachable [OF one_txn(1)])
  have "mvcc_step (one_txn, []) (?m1, [] @ [(NeedsTimestamp, ?begun)])"
    by (rule take_id) (simp_all add: generate_txn_id_def one_txn(2))
  moreover have "mvcc_step (?m1, [(NeedsTimestamp, ?begun)]) (?m2, [(NeedsSnapshot, d)])"
    using take_timestamp [of 0 "[(NeedsTimestamp, ?begun)]" ?begun ?m1] by (simp add: generate_timestamp_def Let_def d_def)
  moreover have "mvcc_step (?m2, [(NeedsSnapshot, d)]) (m, [(NeedsSnapshot, d)] @ [(NeedsTimestamp, e)])"
    unfolding e_def by (rule take_id) (simp_all add: generate_txn_id_def m_def)
  ultimately have reach: "mvcc_system_reachable (m, ?ps)"
    using st0 mvcc_steps by (metis append_Cons append_Nil)
  then have sw: "slots_wf m" using system_reachable_wf by (fastforce simp: system_wf_def)
  have run: "mvcc_step\<^sup>*\<^sup>* (m, ?ps[0 := (NeedsSlot, sn)]) (?r, [(NeedsTimestamp, e)])"
    using take_slot [of 0 "?ps[0 := (NeedsSlot, sn)]" sn m] by auto
  have id: "td_id d = 2" "td_id sn = 2" "isolation_code (td_isolation d) \<ge> 2" "held_locks sn = []"
    by (simp_all add: new_txn_def with_snapshot_def d_def sn_def)
  have m: "active_txns m = active_txns one_txn" "next_id m = 4" "locks m = locks one_txn" by (simp_all add: m_def)
  have get: "mvcc_get_transaction m x = mvcc_get_transaction one_txn x" for x by (rule get_cong) (simp add: m)
  have free: "None \<in> set (active_txns m)" using one_txn(4) m by simp
  have none: "mvcc_get_transaction m (td_id sn) = None" using id(2) get one_txn(6) by simp
  from get_register [OF none] id(2) free
  have g: "mvcc_get_transaction ?r x = (if x = 2 then Some sn else mvcc_get_transaction one_txn x)" for x by (simp add: get)
  obtain d1 where d1: "mvcc_get_transaction one_txn 1 = Some d1" "td_state d1 = MV_ACTIVE"
    using one_txn(5) by (auto simp: mvcc_is_active_def split: option.splits)
  have "mvcc_wf one_txn" by (rule reachable_wf [OF one_txn(1)])
  then have "mvcc_wf m" using sw get m(3) by (simp add: mvcc_wf_def slots_wf_def locks_linked_def)
  then have wf_r: "mvcc_wf ?r" using none id(2,4) m(2) by (intro register_wf) simp_all
  have "mvcc_get_transaction ?r 1 = Some d1" using g d1 by simp
  from commit_ended [OF wf_r this d1(2)] obtain m2 where
    c: "mvcc_commit_transaction 1 ?r = Some (0, m2)" and en: "ended 1 ?r m2" by blast
  have c2: "mvcc_step\<^sup>*\<^sup>* (?r, [(NeedsTimestamp, e)]) (m2, [(NeedsTimestamp, e)])"
    using mvcc_step.call [OF plain_call.commit [OF c]] by blast
  have g1: "mvcc_get_transaction ?r (td_id d) \<noteq> None" using g id by simp
  have g2: "mvcc_get_transaction m2 (td_id d) \<noteq> None" using en g id by (simp add: ended_def)
  have i: "0 < length ?ps" "?ps ! 0 = (NeedsSnapshot, d)" by simp_all
  note R = repeatable_read [OF reach i id(3) run [unfolded sn_def] g1 [unfolded sn_def] c2 [unfolded sn_def] g2,
      unfolded Let_def id(1), folded sn_def]
  let ?v = "\<lparr>created_by = 1, deleted_by = 0, create_ts = 9, delete_ts = 0, version_data = []\<rparr>"
  let ?w = "?v\<lparr>created_by := 3\<rparr>"
  have seen: "\<not> counts_as_done m 2 1" "counts_as_done m 2 3"
    using get [of 1] get [of 3] d1 one_txn(6) m(2) by (simp_all add: counts_as_done_def mvcc_is_active_def)
  have "\<not> mvcc_version_visible ?r ?v 2" "\<not> mvcc_version_visible m2 ?v 2" using R [of ?v] seen(1) by simp_all
  moreover have "mvcc_version_visible m2 ?w 2" using R [of ?w] seen(2) by simp
  ultimately show ?thesis using reach id(1) run c unfolding Let_def
    by (intro exI [of _ m] exI [of _ ?ps] exI [of _ 0] exI [of _ d] exI [of _ ?r] exI [of _ "[(NeedsTimestamp, e)]"] exI [of _ m2])
      (simp add: sn_def)
qed

section \<open>What the isolation levels do not give\<close>

text \<open>At \<open>READ COMMITTED\<close> and below no snapshot is taken, and without a snapshot every
  transaction counts as visible: as long as the reader is registered, it sees every version it did
  not write itself unless somebody, committed or not, has marked it deleted. Versions of active
  transactions are read dirty.\<close>

theorem read_committed_reads_dirty:
  assumes "strict_reachable m0" and "next_id m0 \<noteq> - 1" and "level = ISOLATION_READ_COMMITTED"
    and "mvcc_begin_transaction now level usr m0 = (t, m)"
    and "strict_step\<^sup>*\<^sup>* m m'" and "mvcc_get_transaction m' t \<noteq> None" and "created_by v \<noteq> t"
  shows "mvcc_version_visible m' v t \<longleftrightarrow> deleted_by v = 0"
proof -
  obtain d' where d': "mvcc_get_transaction m' t = Some d'" using assms(6) by blast
  have "td_snapshot d' = None"
    using snapshot_since_begin(1) [OF reachable_wf [OF assms(1)] assms(2,4,5) d'] assms(3) by simp
  with d' assms(7) show ?thesis by (simp add: mvcc_version_visible_def mvcc_is_visible_def)
qed

theorem read_committed_reads_dirty_witness:
  "mvcc_is_active two_txns 2 \<and>
   mvcc_version_visible two_txns
     \<lparr>created_by = 2, deleted_by = 0, create_ts = 9, delete_ts = 0, version_data = []\<rparr> 1"
proof -
  have n: "next_id mvcc_init = 1" unfolding mvcc_init_def by simp
  have ids: "next_id mvcc_init \<noteq> - 1" "next_id one_txn \<noteq> - 1" by (simp_all add: n one_txn(2))
  have b: "mvcc_begin_transaction 0 ISOLATION_READ_COMMITTED None mvcc_init = (1, one_txn)"
    using begin_empty(1) [OF mvcc_init_wf _ ids(1), of 0 ISOLATION_READ_COMMITTED None]
    unfolding one_txn_def n by (simp add: mvcc_init_def)
  have st: "strict_step\<^sup>*\<^sup>* one_txn two_txns" using strict_step.begin_txn [OF ids(2) one_txn(7)] by blast
  have "mvcc_get_transaction two_txns 1 \<noteq> None" using two_txns(2) by auto
  from read_committed_reads_dirty [OF strict_reachable.init ids(1) refl b st this,
      of "\<lparr>created_by = 2, deleted_by = 0, create_ts = 9, delete_ts = 0, version_data = []\<rparr>"]
  show ?thesis using two_txns(3) by (auto simp: mvcc_is_active_def)
qed

text \<open>\<open>mvcc_tuple_visible\<close> asks for the state of the writer, but a finished transaction is no
  longer registered and \<open>mvcc_get_state\<close> answers \<open>ABORTED\<close> for it. So after a successful commit a
  tuple of that transaction is invisible to every other reader at every isolation level until a hint
  bit is set, and a tuple it deleted stays as visible as if it had not been deleted.\<close>

theorem committed_work_is_taken_for_aborted:
  assumes "strict_reachable m" and "mvcc_commit_transaction t m = Some (0, m')" and "reader \<noteq> t"
  shows "(tup_xmin tup = t \<and> \<not> hint_committed tup \<longrightarrow> \<not> mvcc_tuple_visible m' (Some tup) reader) \<and>
    (tup_xmax tup = t \<and> tup_xmin tup \<noteq> reader \<longrightarrow>
       mvcc_tuple_visible m' (Some tup) reader = mvcc_tuple_visible m' (Some (tup\<lparr>tup_xmax := 0\<rparr>)) reader)"
proof -
  obtain d where d: "mvcc_get_transaction m t = Some d" "td_state d = MV_ACTIVE"
    using assms(2) by (auto simp: mvcc_commit_transaction_def split: option.splits if_splits)
  from commit_ended [OF reachable_wf [OF assms(1)] d] assms(2) have "ended t m m'" by auto
  then have "mvcc_get_transaction m' t = None" by (simp add: ended_def)
  then have st: "mvcc_get_state m' t = MV_ABORTED" by (simp add: mvcc_get_state_def)
  show ?thesis
  proof (cases "mvcc_get_transaction m' reader")
    case None
    then show ?thesis by (simp add: mvcc_tuple_visible_def)
  next
    case (Some r)
    have a: "\<not> mvcc_tuple_visible m' (Some tup) reader" if "tup_xmin tup = t" "\<not> hint_committed tup"
      using that st Some assms(3) by (simp add: mvcc_tuple_visible_def)
    have b: "mvcc_tuple_visible m' (Some tup) reader = mvcc_tuple_visible m' (Some (tup\<lparr>tup_xmax := 0\<rparr>)) reader"
      if "tup_xmax tup = t" "tup_xmin tup \<noteq> reader"
      using that st Some assms(3) by (simp add: mvcc_tuple_visible_def)
    from a b show ?thesis by blast
  qed
qed

theorem committed_work_is_taken_for_aborted_witness:
  "\<exists>m'. mvcc_commit_transaction 1 two_txns = Some (0, m') \<and> mvcc_is_active m' 2 \<and>
     \<not> mvcc_tuple_visible m' (Some \<lparr>tup_xmin = 1, tup_xmax = 0, hint_committed = False, hint_aborted = False\<rparr>) 2"
proof -
  obtain d where d: "mvcc_get_transaction two_txns 1 = Some d" "td_state d = MV_ACTIVE" using two_txns(2) by blast
  from commit_ended [OF reachable_wf [OF two_txns(1)] d] obtain m' where
    c: "mvcc_commit_transaction 1 two_txns = Some (0, m')" and e: "ended 1 two_txns m'" by auto
  have g2: "mvcc_is_active m' 2" using e two_txns(3) by (auto simp: ended_def mvcc_is_active_def)
  have "(2::u64) \<noteq> 1" by simp
  from committed_work_is_taken_for_aborted [OF two_txns(1) c this,
      of "\<lparr>tup_xmin = 1, tup_xmax = 0, hint_committed = False, hint_aborted = False\<rparr>"] c g2
  show ?thesis by (intro exI [of _ m']) (simp only: tuple_header.simps, blast)
qed

section \<open>Two-phase commit and savepoints\<close>

text \<open>Two-phase commit cannot succeed: preparing a registered transaction puts it in the state
  \<open>PREPARING\<close>, the commit that must follow accepts only \<open>ACTIVE\<close>, and it returns -1 and changes
  nothing, so the locks stay. Meanwhile snapshots leave the prepared transaction out of their active
  list and treat its uncommitted versions as visible.\<close>

theorem prepared_transaction_cannot_commit:
  assumes "strict_reachable m" and "mvcc_get_transaction m t \<noteq> None"
  shows "\<exists>m'. mvcc_2pc_prepare t m = (0, m') \<and> mvcc_2pc_commit t m' = Some (-1, m') \<and>
    mvcc_is_visible t (Some (mvcc_take_snapshot m' self))"
proof -
  obtain d where d: "mvcc_get_transaction m t = Some d" using assms(2) by blast
  let ?f = "\<lambda>d :: txn_desc. d\<lparr>td_state := MV_PREPARING\<rparr>"
  let ?m = "update_txn t ?f m"
  note wf = reachable_wf [OF assms(1)]
  have wf': "mvcc_wf ?m" by (rule wf_update [OF _ _ wf]) simp_all
  have g: "mvcc_get_transaction ?m t = Some (?f d)" using get_update_txn [of ?f t m t] d by simp
  have "t < next_id ?m" using get_id_less(1) [OF wf_slots [OF wf] d] by simp
  then have "mvcc_is_visible t (Some (mvcc_take_snapshot ?m self))" using visible_in_snapshot [OF wf_slots [OF wf'], of t self] g by simp
  moreover have "mvcc_2pc_prepare t m = (0, ?m)" using d by (simp add: mvcc_2pc_prepare_def)
  moreover have "mvcc_2pc_commit t ?m = Some (-1, ?m)" using g by (simp add: mvcc_2pc_commit_def mvcc_commit_transaction_def)
  ultimately show ?thesis by blast
qed

theorem prepared_transaction_cannot_commit_witness:
  "\<exists>m'. mvcc_2pc_prepare 2 two_txns = (0, m') \<and> mvcc_2pc_commit 2 m' = Some (-1, m') \<and>
    mvcc_is_visible 2 (Some (mvcc_take_snapshot m' 1))"
proof -
  have "mvcc_get_transaction two_txns 2 \<noteq> None" using two_txns(3) by auto
  from prepared_transaction_cannot_commit [OF two_txns(1) this, of 1] show ?thesis .
qed

text \<open>What a transaction tracks after a savepoint.\<close>

fun track :: "u64 \<Rightarrow> write_entry + string \<times> u64 \<Rightarrow> mvcc \<Rightarrow> mvcc" where
  "track t (Inl w) m = snd (mvcc_track_write t (we_table w) (we_row w) (we_old w) (we_new w) m)"
| "track t (Inr (tbl, row)) m = snd (mvcc_track_read t tbl row m)"

text \<open>The descriptor differs from \<open>d\<close> in longer write and read sets only.\<close>

definition grown :: "txn_desc \<Rightarrow> txn_desc \<Rightarrow> bool" where
  "grown d d' \<longleftrightarrow> (\<exists>ws rs. d' = d\<lparr>write_set := write_set d @ ws, read_set := map_option (\<lambda>r. r @ rs) (read_set d)\<rparr>)"

lemma grown_refl: "grown d d"
  unfolding grown_def by (intro exI [of _ "[]"]) (simp add: option.map_ident)

lemma grown_write: "grown d d' \<Longrightarrow> grown d (d'\<lparr>write_set := write_set d' @ ws\<rparr>)"
proof -
  assume "grown d d'"
  then obtain xs rs where "d' = d\<lparr>write_set := write_set d @ xs, read_set := map_option (\<lambda>r. r @ rs) (read_set d)\<rparr>"
    unfolding grown_def by blast
  then show ?thesis unfolding grown_def by (intro exI [of _ "xs @ ws"] exI [of _ rs]) simp
qed

lemma grown_read: "grown d d' \<Longrightarrow> grown d (d'\<lparr>read_set := map_option (\<lambda>r. r @ rs) (read_set d')\<rparr>)"
proof -
  assume "grown d d'"
  then obtain ws xs where "d' = d\<lparr>write_set := write_set d @ ws, read_set := map_option (\<lambda>r. r @ xs) (read_set d)\<rparr>"
    unfolding grown_def by blast
  then show ?thesis unfolding grown_def
    by (intro exI [of _ ws] exI [of _ "xs @ rs"]) (simp add: option.map_comp comp_def)
qed

lemma track_grown:
  assumes "mvcc_get_transaction m t = Some d'" and "grown d d'"
  shows "\<exists>d''. mvcc_get_transaction (track t op m) t = Some d'' \<and> grown d d''"
proof (cases op)
  case (Inl w)
  let ?f = "\<lambda>d :: txn_desc. d\<lparr>write_set := write_set d @ [\<lparr>we_table = we_table w, we_row = we_row w, we_old = we_old w, we_new = we_new w\<rparr>]\<rparr>"
  have "track t op m = update_txn t ?f m" using Inl assms(1) by (simp add: mvcc_track_write_def)
  moreover have "mvcc_get_transaction (update_txn t ?f m) t = Some (?f d')" using get_update_txn [of ?f t m t] assms(1) by simp
  ultimately show ?thesis using grown_write [OF assms(2)] by simp
next
  case (Inr x)
  then obtain tbl row where op: "op = Inr (tbl, row)" by (cases x) simp
  let ?f = "\<lambda>d :: txn_desc. d\<lparr>read_set := map_option (\<lambda>rs. rs @ [(tbl, row)]) (read_set d)\<rparr>"
  have "track t op m = (if read_set d' = None then m else update_txn t ?f m)" using op assms(1) by (simp add: mvcc_track_read_def)
  moreover have "mvcc_get_transaction (update_txn t ?f m) t = Some (?f d')" using get_update_txn [of ?f t m t] assms(1) by simp
  ultimately show ?thesis using grown_read [OF assms(2)] assms by simp
qed

lemma tracks_grown:
  "mvcc_get_transaction m t = Some d' \<Longrightarrow> grown d d' \<Longrightarrow>
   \<exists>d''. mvcc_get_transaction (fold (track t) ops m) t = Some d'' \<and> grown d d''"
proof (induction ops arbitrary: m d')
  case (Cons op ops)
  from track_grown [OF Cons(2,3)] obtain d2 where "mvcc_get_transaction (track t op m) t = Some d2" "grown d d2" by blast
  from Cons(1) [OF this] show ?case by simp
qed auto

text \<open>A savepoint brings back the write set and the read set: after creating it (with fewer than
  eight before it), tracking any writes and reads and rolling back to it, both sets are those of the
  moment of its creation and the savepoint itself is still there.\<close>

theorem mvcc_savepoint_restores_sets:
  assumes "mvcc_get_transaction m t = Some d" and "length (td_savepoints d) < 8"
  shows "\<exists>m1 m2 d2. mvcc_create_savepoint t (Some nm) m = Some (0, m1) \<and>
    mvcc_rollback_to_savepoint t (Some nm) (fold (track t) ops m1) = (0, m2) \<and>
    mvcc_get_transaction m2 t = Some d2 \<and> write_set d2 = write_set d \<and> read_set d2 = read_set d \<and>
    map mvs_name (td_savepoints d2) = map mvs_name (td_savepoints d) @ [nm]"
proof -
  let ?sp = "\<lparr>mvs_name = nm, write_set_mark = length (write_set d),
      read_set_mark = (case read_set d of None \<Rightarrow> 0 | Some rs \<Rightarrow> length rs)\<rparr>"
  let ?f = "\<lambda>d :: txn_desc. d\<lparr>td_savepoints := td_savepoints d @ [?sp]\<rparr>"
  let ?m1 = "update_txn t ?f m"
  have c: "mvcc_create_savepoint t (Some nm) m = Some (0, ?m1)" using assms by (simp add: mvcc_create_savepoint_def)
  have "mvcc_get_transaction ?m1 t = Some (?f d)" using get_update_txn [of ?f t m t] assms(1) by simp
  from tracks_grown [OF this grown_refl] obtain d' where
    d': "mvcc_get_transaction (fold (track t) ops ?m1) t = Some d'" "grown (?f d) d'" by blast
  then obtain ws rs where d'_eq: "d' = (?f d)\<lparr>write_set := write_set d @ ws, read_set := map_option (\<lambda>r. r @ rs) (read_set d)\<rparr>"
    by (auto simp: grown_def)
  have last: "last_savepoint nm (td_savepoints d') = Some (length (td_savepoints d))"
    by (simp add: d'_eq last_savepoint_def strcmp_eq_0)
  let ?n = "case read_set d of None \<Rightarrow> 0 | Some rs \<Rightarrow> length rs"
  let ?g = "\<lambda>x :: txn_desc. x\<lparr>write_set := take (length (write_set d)) (write_set x),
      read_set := map_option (take ?n) (read_set x), td_savepoints := take (length (td_savepoints d) + 1) (td_savepoints x)\<rparr>"
  let ?m2 = "update_txn t ?g (fold (track t) ops ?m1)"
  have "mvcc_rollback_to_savepoint t (Some nm) (fold (track t) ops ?m1) = (0, ?m2)"
    using d'(1) last by (simp add: mvcc_rollback_to_savepoint_def d'_eq)
  moreover have "mvcc_get_transaction ?m2 t = Some (?g d')"
    using get_update_txn [of ?g t "fold (track t) ops ?m1" t] d'(1) by simp
  moreover have "write_set (?g d') = write_set d" "read_set (?g d') = read_set d"
    "map mvs_name (td_savepoints (?g d')) = map mvs_name (td_savepoints d) @ [nm]"
    by (cases "read_set d"; simp add: d'_eq)+
  ultimately show ?thesis using c by blast
qed

theorem mvcc_savepoint_restores_sets_witness:
  "\<exists>m0 m1 m2 d2. mvcc_get_transaction m0 2 \<noteq> None \<and> mvcc_create_savepoint 2 (Some ''s'') m0 = Some (0, m1) \<and>
    mvcc_rollback_to_savepoint 2 (Some ''s'')
      (fold (track 2) [Inl \<lparr>we_table = ''t'', we_row = 7, we_old = 0, we_new = 1\<rparr>, Inr (''t'', 7)] m1) = (0, m2) \<and>
    mvcc_get_transaction m2 2 = Some d2 \<and> write_set d2 = []"
proof -
  obtain d :: txn_desc where d: "td_id d = 2" "td_savepoints d = []" "write_set d = []"
    by (rule that [of "\<lparr>td_id = 2, td_state = MV_ACTIVE, td_isolation = ISOLATION_SERIALIZABLE, start_ts = 1,
      commit_ts = 0, td_start_time = 0, td_snapshot = None, write_set = [], read_set = Some [], held_locks = [],
      td_savepoints = [], is_distributed = False, coordinator_id = None, user_name = None\<rparr>"]) simp_all
  have none: "mvcc_get_transaction mvcc_init (td_id d) = None" by (rule init_get)
  have "None \<in> set (active_txns mvcc_init)"
    by (rule free_slot [OF mvcc_init_wf]) (simp add: mvcc_init_def)
  then have g: "mvcc_get_transaction (register d mvcc_init) 2 = Some d" using get_register [OF none, of 2] d by simp
  have "length (td_savepoints d) < 8" by (simp add: d)
  from mvcc_savepoint_restores_sets [OF g this, of "''s''"
      "[Inl \<lparr>we_table = ''t'', we_row = 7, we_old = 0, we_new = 1\<rparr>, Inr (''t'', 7)]"] g d(3)
  show ?thesis by (metis option.distinct(1))
qed

end
