(* ===== verification/SlottedPage.thy ===== *)
theory SlottedPage
  imports Prelude
begin

text \<open>
  The slotted pages of \<open>src/storage_engine.c\<close> (lines 51 to 219): records of any length in a page of
  4096 bytes, addressed by slot numbers. The page is the bytes of the C struct (5120 of them, the
  slot directory has 256 fixed places) and every field is read and written at its offset, because
  records are placed over the unused part of the directory. Below, the operations against a map from
  slots to records, with the invariant under which no write leaves the free space.
\<close>

section \<open>The page as bytes\<close>

abbreviation PAGE_SIZE_SE :: nat where "PAGE_SIZE_SE \<equiv> 4096"
abbreviation SIZEOF_SLOTTED_PAGE :: nat where "SIZEOF_SLOTTED_PAGE \<equiv> 5120"
abbreviation MAX_SLOT_COUNT :: nat where "MAX_SLOT_COUNT \<equiv> 256"
abbreviation PAGE_FLAG_LEAF :: nat where "PAGE_FLAG_LEAF \<equiv> 2"

definition get16 :: "nat \<Rightarrow> bytes \<Rightarrow> nat" where
  "get16 off p = le_decode (window off 2 p)"

text \<open>A store to a \<open>uint16_t\<close> keeps the low 16 bits.\<close>

definition set16 :: "nat \<Rightarrow> nat \<Rightarrow> bytes \<Rightarrow> bytes" where
  "set16 off v p = blit off (le_encode 2 v) p"

definition slot_count :: "bytes \<Rightarrow> nat" where "slot_count p = get16 4 p"
definition free_space_end :: "bytes \<Rightarrow> nat" where "free_space_end p = get16 8 p"
definition page_flags :: "bytes \<Rightarrow> nat" where "page_flags p = get16 10 p"
definition slot_offset :: "nat \<Rightarrow> bytes \<Rightarrow> nat" where "slot_offset i p = get16 (16 + 4 * i) p"
definition slot_length :: "nat \<Rightarrow> bytes \<Rightarrow> nat" where "slot_length i p = get16 (18 + 4 * i) p"

text \<open>Subtraction in a \<open>uint16_t\<close>.\<close>

definition sub16 :: "nat \<Rightarrow> nat \<Rightarrow> nat" where
  "sub16 a b = nat ((int a - int b) mod 65536)"

section \<open>Operations\<close>

definition slotted_page_init :: "u32 \<Rightarrow> bytes" where
  "slotted_page_init pid =
     (let p = replicate SIZEOF_SLOTTED_PAGE 0;
          p = blit 0 (le_encode 4 (unat pid)) p;
          p = set16 4 0 p;
          p = set16 6 16 p;
          p = set16 8 PAGE_SIZE_SE p;
          p = set16 10 PAGE_FLAG_LEAF p
      in blit 12 (le_encode 4 0) p)"

text \<open>The last subtraction is in \<open>size_t\<close> and would wrap below a full page.\<close>

definition slotted_page_free_space :: "bytes \<Rightarrow> nat" where
  "slotted_page_free_space p =
     (let header_size = 16 + slot_count p * 4
      in if free_space_end p \<le> header_size then 0
         else nat ((int (free_space_end p) - int header_size - 4) mod 18446744073709551616))"

text \<open>Slots \<open>i - 1\<close> down to 0. The buffer \<open>temp\<close> is not initialised in C; only bytes written before
  are copied back.\<close>

fun compact_loop :: "nat \<Rightarrow> nat \<Rightarrow> bytes \<Rightarrow> bytes \<Rightarrow> nat \<times> bytes \<times> bytes" where
  "compact_loop 0 write_pos temp p = (write_pos, temp, p)"
| "compact_loop (Suc i) write_pos temp p =
     (if slot_length i p > 0
      then let wp = sub16 write_pos (slot_length i p)
           in compact_loop i wp (blit wp (window (slot_offset i p) (slot_length i p) p) temp)
                (set16 (16 + 4 * i) wp p)
      else compact_loop i write_pos temp p)"

definition slotted_page_compact :: "bytes \<Rightarrow> bytes" where
  "slotted_page_compact p =
     (if slot_count p = 0 then p
      else
        let (write_pos, temp, p) = compact_loop (slot_count p) PAGE_SIZE_SE (replicate PAGE_SIZE_SE 0) p
        in set16 8 write_pos (blit write_pos (window write_pos (PAGE_SIZE_SE - write_pos) temp) p))"

definition find_slot :: "bytes \<Rightarrow> nat" where
  "find_slot p =
     (case first_idx (\<lambda>i. slot_length i p = 0) [0..<slot_count p] of Some i \<Rightarrow> i | None \<Rightarrow> slot_count p)"

definition slotted_page_insert :: "bytes \<Rightarrow> bytes \<Rightarrow> int \<times> nat option \<times> bytes" where
  "slotted_page_insert p data =
     (if data = [] then (-1, None, p)
      else
        let needed = length data + 4;
            p = (if slotted_page_free_space p < needed then slotted_page_compact p else p)
        in if slotted_page_free_space p < needed then (-1, None, p)
           else
             let slot = find_slot p
             in if slot \<ge> MAX_SLOT_COUNT then (-1, None, p)
                else
                  let off = sub16 (free_space_end p) (length data);
                      p = blit off data p;
                      p = set16 (16 + 4 * slot) off p;
                      p = set16 (18 + 4 * slot) (length data) p;
                      p = (if slot \<ge> slot_count p
                           then set16 6 (16 + (slot + 1) * 4) (set16 4 (slot + 1) p) else p)
                  in (0, Some slot, set16 8 off p))"

definition slotted_page_get :: "bytes \<Rightarrow> nat \<Rightarrow> bytes option" where
  "slotted_page_get p slot =
     (if slot \<ge> slot_count p then None
      else if slot_length slot p = 0 then None
      else Some (window (slot_offset slot p) (slot_length slot p) p))"

definition slotted_page_delete :: "bytes \<Rightarrow> nat \<Rightarrow> int \<times> bytes" where
  "slotted_page_delete p slot =
     (if slot \<ge> slot_count p then (-1, p)
      else if slot_length slot p = 0 then (-1, p)
      else (0, set16 (18 + 4 * slot) 0 p))"

definition slotted_page_update :: "bytes \<Rightarrow> nat \<Rightarrow> bytes \<Rightarrow> int \<times> bytes" where
  "slotted_page_update p slot data =
     (if slot \<ge> slot_count p then (-1, p)
      else if slot_length slot p = 0 then (-1, p)
      else if length data \<le> slot_length slot p
      then (0, set16 (18 + 4 * slot) (length data) (blit (slot_offset slot p) data p))
      else
        let p = snd (slotted_page_delete p slot);
            p = (if slotted_page_free_space p < length data then slotted_page_compact p else p)
        in if slotted_page_free_space p < length data then (-1, p)
           else
             let off = sub16 (free_space_end p) (length data);
                 p = blit off data p;
                 p = set16 (16 + 4 * slot) off p;
                 p = set16 (18 + 4 * slot) (length data) p
             in (0, set16 8 off p))"

section \<open>Fields after a write\<close>

lemma get16_bound: "get16 off p < 65536"
proof -
  have "length (window off 2 p) \<le> 2" by simp
  then have "256 ^ length (window off 2 p) \<le> (256 :: nat) ^ 2" by (rule power_increasing) simp
  with le_decode_bound [of "window off 2 p"] show ?thesis by (simp add: get16_def)
qed

lemma length_set16 [simp]: "off + 2 \<le> length p \<Longrightarrow> length (set16 off v p) = length p"
  by (simp add: set16_def)

lemma get16_set16_same: "off + 2 \<le> length p \<Longrightarrow> v < 65536 \<Longrightarrow> get16 off (set16 off v p) = v"
  using window_blit_same [of off "le_encode 2 v" p] by (simp add: get16_def set16_def le_decode_encode)

lemma get16_blit_other:
  "off + length bs \<le> length p \<Longrightarrow> o2 + 2 \<le> off \<or> off + length bs \<le> o2 \<Longrightarrow> get16 o2 (blit off bs p) = get16 o2 p"
  by (simp add: get16_def window_blit_disjoint)

lemma get16_set16_other:
  "off + 2 \<le> length p \<Longrightarrow> o2 + 2 \<le> off \<or> off + 2 \<le> o2 \<Longrightarrow> get16 o2 (set16 off v p) = get16 o2 p"
  by (simp add: set16_def get16_blit_other)

lemma window_set16_other:
  "off + 2 \<le> length p \<Longrightarrow> o2 + n \<le> off \<or> off + 2 \<le> o2 \<Longrightarrow> window o2 n (set16 off v p) = window o2 n p"
  by (simp add: set16_def window_blit_disjoint)

lemma sub16_exact: "b \<le> a \<Longrightarrow> a < 65536 \<Longrightarrow> sub16 a b = a - b"
  by (simp add: sub16_def)

lemmas field_defs = slot_count_def free_space_end_def page_flags_def slot_offset_def slot_length_def

lemma field_bounds: "slot_count p < 65536" "free_space_end p < 65536" "slot_offset i p < 65536" "slot_length i p < 65536"
  by (simp_all add: field_defs get16_bound)

section \<open>Well-formed pages\<close>

text \<open>A live slot has a non-zero length. Records lie between the free space and the end of the page,
  apart from each other; four bytes above the directory are always free.\<close>

definition live_slot :: "bytes \<Rightarrow> nat \<Rightarrow> bool" where
  "live_slot p i \<longleftrightarrow> i < slot_count p \<and> slot_length i p > 0"

definition apart :: "bytes \<Rightarrow> nat \<Rightarrow> nat \<Rightarrow> bool" where
  "apart p i j \<longleftrightarrow> slot_offset i p + slot_length i p \<le> slot_offset j p \<or>
     slot_offset j p + slot_length j p \<le> slot_offset i p"

definition page_wf :: "bytes \<Rightarrow> bool" where
  "page_wf p \<longleftrightarrow> length p = SIZEOF_SLOTTED_PAGE \<and> slot_count p \<le> MAX_SLOT_COUNT \<and>
     20 + 4 * slot_count p \<le> free_space_end p \<and> free_space_end p \<le> PAGE_SIZE_SE \<and>
     (\<forall>i. live_slot p i \<longrightarrow> free_space_end p \<le> slot_offset i p \<and> slot_offset i p + slot_length i p \<le> PAGE_SIZE_SE) \<and>
     (\<forall>i j. live_slot p i \<longrightarrow> live_slot p j \<longrightarrow> i \<noteq> j \<longrightarrow> apart p i j) \<and>
     (slot_count p = 0 \<longrightarrow> free_space_end p = PAGE_SIZE_SE)"

text \<open>What the page means: the records by slot; and the bytes they take.\<close>

definition page_map :: "bytes \<Rightarrow> nat \<Rightarrow> bytes option" where
  "page_map p = slotted_page_get p"

definition page_used :: "bytes \<Rightarrow> nat" where
  "page_used p = (\<Sum>i < slot_count p. slot_length i p)"

lemma page_map_live: "page_map p i = (if live_slot p i then Some (window (slot_offset i p) (slot_length i p) p) else None)"
  by (auto simp: page_map_def slotted_page_get_def live_slot_def)

lemma page_wfD:
  assumes "page_wf p"
  shows "length p = SIZEOF_SLOTTED_PAGE" "slot_count p \<le> MAX_SLOT_COUNT" "20 + 4 * slot_count p \<le> free_space_end p"
    "free_space_end p \<le> PAGE_SIZE_SE"
    "live_slot p i \<Longrightarrow> free_space_end p \<le> slot_offset i p"
    "live_slot p i \<Longrightarrow> slot_offset i p + slot_length i p \<le> PAGE_SIZE_SE"
    "live_slot p i \<Longrightarrow> live_slot p j \<Longrightarrow> i \<noteq> j \<Longrightarrow> apart p i j"
    "slot_count p = 0 \<Longrightarrow> free_space_end p = PAGE_SIZE_SE"
  using assms by (auto simp: page_wf_def)

text \<open>Records that do not overlap fit where they are.\<close>

lemma page_used_bound:
  assumes "page_wf p"
  shows "page_used p \<le> PAGE_SIZE_SE - free_space_end p"
proof -
  let ?I = "{i. live_slot p i}"
  let ?A = "\<lambda>i. {slot_offset i p ..< slot_offset i p + slot_length i p}"
  have fin: "finite ?I" by (rule finite_subset [of _ "{..<slot_count p}"]) (auto simp: live_slot_def)
  have "page_used p = (\<Sum>i \<in> ?I. slot_length i p)"
    unfolding page_used_def by (rule sum.mono_neutral_right) (auto simp: live_slot_def)
  also have "\<dots> = (\<Sum>i \<in> ?I. card (?A i))" by simp
  also have "\<dots> = card (\<Union>i \<in> ?I. ?A i)"
  proof (rule card_UN_disjoint [symmetric])
    show "\<forall>i \<in> ?I. \<forall>j \<in> ?I. i \<noteq> j \<longrightarrow> ?A i \<inter> ?A j = {}"
      using page_wfD(7) [OF assms] by (fastforce simp: apart_def)
  qed (use fin in auto)
  also have "\<dots> \<le> card {free_space_end p ..< PAGE_SIZE_SE}"
    by (rule card_mono) (use page_wfD(5,6) [OF assms] in fastforce)+
  finally show ?thesis by simp
qed

lemma free_space_wf: "page_wf p \<Longrightarrow> slotted_page_free_space p = free_space_end p - (20 + 4 * slot_count p)"
proof -
  assume wf: "page_wf p"
  have "int (free_space_end p) - int (16 + slot_count p * 4) - 4 = int (free_space_end p - (20 + 4 * slot_count p))"
    using page_wfD(3) [OF wf] by simp
  moreover have "free_space_end p - (20 + 4 * slot_count p) < 18446744073709551616" using field_bounds(2) [of p] by simp
  ultimately show ?thesis using page_wfD(3) [OF wf] by (simp add: slotted_page_free_space_def Let_def)
qed

section \<open>Compaction\<close>

text \<open>The loop has moved the records of slots \<open>i\<close> and above: they are in \<open>temp\<close>, packed from
  \<open>write_pos\<close> to the end of the page, those of higher slots higher, and nothing else has changed.\<close>

definition compacting :: "bytes \<Rightarrow> nat \<Rightarrow> nat \<Rightarrow> bytes \<Rightarrow> bytes \<Rightarrow> bool" where
  "compacting p0 i wp temp p \<longleftrightarrow>
     length p = length p0 \<and> length temp = PAGE_SIZE_SE \<and>
     wp + (\<Sum>j \<in> {i..<slot_count p0}. slot_length j p0) = PAGE_SIZE_SE \<and>
     take 16 p = take 16 p0 \<and> drop (16 + 4 * slot_count p0) p = drop (16 + 4 * slot_count p0) p0 \<and>
     (\<forall>j < slot_count p0. slot_length j p = slot_length j p0) \<and>
     (\<forall>j < i. slot_offset j p = slot_offset j p0) \<and>
     (\<forall>j. i \<le> j \<longrightarrow> live_slot p0 j \<longrightarrow> wp \<le> slot_offset j p \<and> slot_offset j p + slot_length j p0 \<le> PAGE_SIZE_SE \<and>
        window (slot_offset j p) (slot_length j p0) temp = window (slot_offset j p0) (slot_length j p0) p0) \<and>
     (\<forall>j k. i \<le> j \<longrightarrow> j < k \<longrightarrow> live_slot p0 j \<longrightarrow> live_slot p0 k \<longrightarrow>
        slot_offset j p + slot_length j p0 \<le> slot_offset k p)"

lemma window_of_drop: "h \<le> off \<Longrightarrow> drop h p = drop h q \<Longrightarrow> window off n p = window off n q"
  by (metis window_def drop_drop le_add_diff_inverse2)

lemma get16_take: "off + 2 \<le> h \<Longrightarrow> take h p = take h q \<Longrightarrow> get16 off p = get16 off q"
proof -
  assume a: "off + 2 \<le> h" and t: "take h p = take h q"
  have "window off 2 x = take 2 (drop off (take h x))" for x :: bytes
    using a by (simp add: window_def drop_take min_def)
  then show ?thesis using t by (simp add: get16_def)
qed

lemma take_set16: "h \<le> off \<Longrightarrow> off + 2 \<le> length p \<Longrightarrow> take h (set16 off v p) = take h p"
  by (simp add: set16_def blit_def)

lemma drop_set16: "off + 2 \<le> h \<Longrightarrow> off + 2 \<le> length p \<Longrightarrow> drop h (set16 off v p) = drop h p"
proof -
  assume a: "off + 2 \<le> h" "off + 2 \<le> length p"
  then have "Suc (Suc (h - 2)) = h" by simp
  with a show ?thesis by (simp add: set16_def blit_def)
qed

lemma compact_step:
  assumes wf: "page_wf p0" and inv: "compacting p0 (Suc i) wp temp p" and i: "Suc i \<le> slot_count p0"
    and live: "slot_length i p0 > 0"
  shows "compacting p0 i (wp - slot_length i p0)
      (blit (wp - slot_length i p0) (window (slot_offset i p) (slot_length i p) p) temp)
      (set16 (16 + 4 * i) (wp - slot_length i p0) p)"
    and "slot_length i p = slot_length i p0" and "slot_length i p0 \<le> wp" and "wp \<le> PAGE_SIZE_SE"
proof -
  let ?n = "slot_count p0" and ?l = "slot_length i p0"
  let ?w = "wp - ?l"
  let ?rec = "window (slot_offset i p) (slot_length i p) p"
  let ?t = "blit ?w ?rec temp" and ?p = "set16 (16 + 4 * i) ?w p"
  note D = page_wfD [OF wf]
  have lp: "length p = 5120" and lt: "length temp = 4096"
    and sum: "wp + (\<Sum>j \<in> {Suc i..<?n}. slot_length j p0) = 4096"
    and hd: "take 16 p = take 16 p0" and tl: "drop (16 + 4 * ?n) p = drop (16 + 4 * ?n) p0"
    and len: "\<And>j. j < ?n \<Longrightarrow> slot_length j p = slot_length j p0"
    and off: "\<And>j. j < Suc i \<Longrightarrow> slot_offset j p = slot_offset j p0"
    and moved: "\<And>j. Suc i \<le> j \<Longrightarrow> live_slot p0 j \<Longrightarrow> wp \<le> slot_offset j p \<and> slot_offset j p + slot_length j p0 \<le> 4096 \<and>
        window (slot_offset j p) (slot_length j p0) temp = window (slot_offset j p0) (slot_length j p0) p0"
    and ord: "\<And>j k. Suc i \<le> j \<Longrightarrow> j < k \<Longrightarrow> live_slot p0 j \<Longrightarrow> live_slot p0 k \<Longrightarrow>
        slot_offset j p + slot_length j p0 \<le> slot_offset k p"
    using inv D(1) unfolding compacting_def by auto
  have li: "live_slot p0 i" using live i by (simp add: live_slot_def)
  show leni: "slot_length i p = ?l" using len [of i] i by simp
  have split: "(\<Sum>j \<in> {i..<?n}. slot_length j p0) = ?l + (\<Sum>j \<in> {Suc i..<?n}. slot_length j p0)"
    using i by (simp add: sum.atLeast_Suc_lessThan)
  have "(\<Sum>j \<in> {i..<?n}. slot_length j p0) \<le> page_used p0"
    unfolding page_used_def by (rule sum_mono2) auto
  then have lw: "?l \<le> wp" using page_used_bound [OF wf] sum split by linarith
  then show "?l \<le> wp" .
  show w4: "wp \<le> 4096" using sum by simp
  have n: "?n \<le> 256" using D(2) .
  have rec: "?rec = window (slot_offset i p0) ?l p0"
  proof -
    have "16 + 4 * ?n \<le> slot_offset i p0" using D(3) D(5) [OF li] by simp
    then show ?thesis using off [of i] window_of_drop [OF _ tl] by (simp add: leni)
  qed
  have lrec: "length ?rec = ?l" using D(6) [OF li] D(1) by (simp add: rec)
  have fld: "slot_length j ?p = slot_length j p" if "j < ?n" for j
    unfolding slot_length_def by (rule get16_set16_other) (use i n lp that in auto)
  have ofs: "slot_offset j ?p = (if j = i then ?w else slot_offset j p)" for j
    unfolding slot_offset_def using get16_set16_same [of "16 + 4 * i" p ?w] i n lp w4
      get16_set16_other [of "16 + 4 * i" p "16 + 4 * j" ?w] by (cases "j < i") auto
  have win: "window o1 m ?t = window o1 m temp" if "wp \<le> o1" for o1 m
    using window_blit_after [of ?w ?rec o1 temp m] that lw w4 lrec lt by simp
  have winw: "window ?w ?l ?t = ?rec"
    using window_blit_same [of ?w ?rec temp] lrec lw w4 lt by simp
  have ge: "?w \<le> slot_offset j ?p \<and> slot_offset j ?p + slot_length j p0 \<le> 4096 \<and>
        window (slot_offset j ?p) (slot_length j p0) ?t = window (slot_offset j p0) (slot_length j p0) p0"
    if j: "i \<le> j" "live_slot p0 j" for j
  proof (cases "j = i")
    case True
    then show ?thesis using ofs winw rec lw w4 by simp
  next
    case False
    then have "Suc i \<le> j" using j by simp
    from moved [OF this j(2)] show ?thesis using ofs [of j] win False by auto
  qed
  have or: "slot_offset j ?p + slot_length j p0 \<le> slot_offset k ?p"
    if j: "i \<le> j" "j < k" "live_slot p0 j" "live_slot p0 k" for j k
  proof (cases "j = i")
    case True
    then have "wp \<le> slot_offset k p" using moved [of k] j by simp
    then show ?thesis using True ofs [of j] ofs [of k] j(2) lw by simp
  next
    case False
    then have "Suc i \<le> j" using j by simp
    from ord [OF this j(2-4)] show ?thesis using ofs [of j] ofs [of k] False j by simp
  qed
  have l1: "length ?p = length p0" "length ?t = 4096" using i n lp lt lw w4 lrec D(1) by simp_all
  have l2: "?w + (\<Sum>j \<in> {i..<?n}. slot_length j p0) = 4096" using sum split lw by simp
  have l3: "take 16 ?p = take 16 p0" using take_set16 [of 16 "16 + 4 * i" p] i n lp hd by simp
  have l4: "drop (16 + 4 * ?n) ?p = drop (16 + 4 * ?n) p0" using drop_set16 [of "16 + 4 * i" "16 + 4 * ?n" p] i n lp tl by simp
  have l5: "\<forall>j < ?n. slot_length j ?p = slot_length j p0" using fld len by simp
  have l6: "\<forall>j < i. slot_offset j ?p = slot_offset j p0" using ofs off by simp
  show "compacting p0 i ?w ?t ?p"
    unfolding compacting_def using l1 l2 l3 l4 l5 l6 ge or by blast
qed

lemma compact_skip:
  assumes "compacting p0 (Suc i) wp temp p" and "Suc i \<le> slot_count p0" and "slot_length i p0 = 0"
  shows "compacting p0 i wp temp p"
proof -
  have dead: "\<not> live_slot p0 i" using assms(3) by (simp add: live_slot_def)
  have eq: "i \<le> j \<longleftrightarrow> Suc i \<le> j" if "live_slot p0 j" for j using that dead by (metis Suc_leD le_antisym not_less_eq_eq)
  have sum: "(\<Sum>j \<in> {i..<slot_count p0}. slot_length j p0) = (\<Sum>j \<in> {Suc i..<slot_count p0}. slot_length j p0)"
    using assms(2,3) by (simp add: sum.atLeast_Suc_lessThan)
  show ?thesis using assms(1) eq unfolding compacting_def sum by (metis less_SucI)
qed

lemma compact_loop_inv:
  assumes "page_wf p0"
  shows "compacting p0 i wp temp p \<Longrightarrow> i \<le> slot_count p0 \<Longrightarrow> compact_loop i wp temp p = (wp', temp', p') \<Longrightarrow>
    compacting p0 0 wp' temp' p'"
proof (induction i arbitrary: wp temp p)
  case 0
  then show ?case by simp
next
  case (Suc i)
  have len: "slot_length i p = slot_length i p0" using Suc.prems(1,2) by (simp add: compacting_def)
  show ?case
  proof (cases "slot_length i p0 > 0")
    case True
    note S = compact_step [OF assms Suc.prems(1,2) True]
    have "sub16 wp (slot_length i p) = wp - slot_length i p0" using S(2-4) by (simp add: sub16_exact)
    then have "compact_loop i (wp - slot_length i p0) (blit (wp - slot_length i p0) (window (slot_offset i p) (slot_length i p) p) temp)
        (set16 (16 + 4 * i) (wp - slot_length i p0) p) = (wp', temp', p')"
      using Suc.prems(3) True len by (simp add: Let_def)
    from Suc.IH [OF S(1) _ this] Suc.prems(2) show ?thesis by simp
  next
    case False
    then have "compact_loop i wp temp p = (wp', temp', p')" using Suc.prems(3) len by simp
    moreover have "compacting p0 i wp temp p" using compact_skip [OF Suc.prems(1,2)] False by simp
    ultimately show ?thesis using Suc.IH Suc.prems(2) by simp
  qed
qed

lemma live_sum: "(\<Sum>j \<in> {0..<slot_count p}. slot_length j p) = page_used p"
  by (simp add: page_used_def atLeast0LessThan)

text \<open>Compaction keeps every record in its slot and turns all dead bytes into free space.\<close>

lemma compact_ok:
  assumes wf: "page_wf p0" and ne: "slot_count p0 \<noteq> 0"
  shows "page_wf (slotted_page_compact p0) \<and> page_map (slotted_page_compact p0) = page_map p0 \<and>
    slot_count (slotted_page_compact p0) = slot_count p0 \<and>
    free_space_end (slotted_page_compact p0) = PAGE_SIZE_SE - page_used p0 \<and>
    (\<forall>i < slot_count p0. slot_length i (slotted_page_compact p0) = slot_length i p0)"
proof -
  let ?n = "slot_count p0"
  note D = page_wfD [OF wf]
  obtain wp temp p where run: "compact_loop ?n 4096 (replicate 4096 0) p0 = (wp, temp, p)" by (metis prod_cases3)
  have "compacting p0 ?n 4096 (replicate 4096 0) p0" by (simp add: compacting_def live_slot_def)
  from compact_loop_inv [OF wf this _ run] have C: "compacting p0 0 wp temp p" by simp
  have lp: "length p = 5120" and lt: "length temp = 4096" and sum: "wp + page_used p0 = 4096"
    and hd: "take 16 p = take 16 p0"
    and len: "\<And>j. j < ?n \<Longrightarrow> slot_length j p = slot_length j p0"
    and moved: "\<And>j. live_slot p0 j \<Longrightarrow> wp \<le> slot_offset j p \<and> slot_offset j p + slot_length j p0 \<le> 4096 \<and>
        window (slot_offset j p) (slot_length j p0) temp = window (slot_offset j p0) (slot_length j p0) p0"
    and ord: "\<And>j k. j < k \<Longrightarrow> live_slot p0 j \<Longrightarrow> live_slot p0 k \<Longrightarrow>
        slot_offset j p + slot_length j p0 \<le> slot_offset k p"
    using C D(1) live_sum [of p0] unfolding compacting_def by auto
  have wge: "20 + 4 * ?n \<le> wp" "wp \<le> 4096" using page_used_bound [OF wf] sum D(3,4) by simp_all
  let ?b = "blit wp (window wp (4096 - wp) temp) p"
  let ?q = "set16 8 wp ?b"
  have q: "slotted_page_compact p0 = ?q" using ne run by (simp add: slotted_page_compact_def)
  have lw: "length (window wp (4096 - wp) temp) = 4096 - wp" using lt by simp
  have lb: "length ?b = 5120" using lw lp wge by simp
  have low: "get16 o2 ?q = get16 o2 p" if "o2 + 2 \<le> wp" "o2 + 2 \<le> 8 \<or> 10 \<le> o2" for o2
    using get16_set16_other [of 8 ?b o2 wp] get16_blit_other [of wp "window wp (4096 - wp) temp" p o2] lb lw that wge lp by simp
  have cnt: "slot_count ?q = ?n"
    using low [of 4] wge get16_take [OF _ hd, of 4] by (simp add: slot_count_def)
  have fe: "free_space_end ?q = wp" using get16_set16_same [of 8 ?b wp] lb wge by (simp add: free_space_end_def)
  have sl: "slot_length i ?q = slot_length i p0" if "i < ?n" for i
    using low [of "18 + 4 * i"] that wge len [OF that] by (simp add: slot_length_def)
  have so: "slot_offset i ?q = slot_offset i p" if "i < ?n" for i
    using low [of "16 + 4 * i"] that wge by (simp add: slot_offset_def)
  have live: "live_slot ?q i \<longleftrightarrow> live_slot p0 i" for i using sl cnt by (auto simp: live_slot_def)
  have inb: "i < ?n" if "live_slot p0 i" for i using that by (simp add: live_slot_def)
  have rec: "window (slot_offset i ?q) (slot_length i ?q) ?q = window (slot_offset i p0) (slot_length i p0) p0"
    if i: "live_slot p0 i" for i
  proof -
    note M = moved [OF i]
    have "window (slot_offset i p) (slot_length i p0) ?q = window (slot_offset i p) (slot_length i p0) ?b"
      by (rule window_set16_other) (use M wge lb in auto)
    also have "\<dots> = window (slot_offset i p) (slot_length i p0) temp"
    proof (rule nth_equalityI)
      show "length (window (slot_offset i p) (slot_length i p0) ?b) = length (window (slot_offset i p) (slot_length i p0) temp)"
      proof -
        have "slot_offset i p + slot_length i p0 \<le> 4096" using M by blast
        then show ?thesis unfolding length_window lb lt by simp
      qed
      fix k assume "k < length (window (slot_offset i p) (slot_length i p0) ?b)"
      then have k: "k < slot_length i p0" "slot_offset i p + k < 4096" using M by auto
      have "?b ! (slot_offset i p + k) = window wp (4096 - wp) temp ! (slot_offset i p + k - wp)"
        using nth_blit [of wp "window wp (4096 - wp) temp" p "slot_offset i p + k"] k M lw lp wge by auto
      also have "\<dots> = temp ! (slot_offset i p + k)"
        using window_nth [of "slot_offset i p + k - wp" "4096 - wp" wp temp] k M lt wge by auto
      finally show "window (slot_offset i p) (slot_length i p0) ?b ! k = window (slot_offset i p) (slot_length i p0) temp ! k"
        using k lb lt by (simp add: window_nth)
    qed
    finally show ?thesis using so [OF inb [OF i]] sl [OF inb [OF i]] M by simp
  qed
  have ap: "apart ?q i j" if "live_slot p0 i" "live_slot p0 j" "i \<noteq> j" for i j
    using ord [of i j] ord [of j i] that so sl inb by (cases "i < j") (auto simp: apart_def)
  have rng: "wp \<le> slot_offset i ?q \<and> slot_offset i ?q + slot_length i ?q \<le> 4096" if "live_slot p0 i" for i
    using moved [OF that] so sl inb that by simp
  have "length ?q = 5120" using lb by simp
  then have "page_wf ?q" unfolding page_wf_def live cnt fe using D(2) wge rng ap ne by blast
  moreover have "page_map ?q = page_map p0" by (rule ext) (use rec live in \<open>simp add: page_map_live\<close>)
  ultimately show ?thesis using cnt fe sl sum unfolding q by simp
qed

section \<open>Placing a record\<close>

text \<open>The common tail of insertion and update: the record below the free space, then the slot.\<close>

lemma place_ok:
  assumes wf: "page_wf p" and data: "data \<noteq> []" and slot: "slot \<le> slot_count p" "slot < MAX_SLOT_COUNT"
    and dead: "\<not> live_slot p slot"
    and room: "20 + 4 * slot_count p + (if slot = slot_count p then 4 else 0) + length data \<le> free_space_end p"
    and p2: "p2 = set16 (18 + 4 * slot) (length data) (set16 (16 + 4 * slot) (free_space_end p - length data)
        (blit (free_space_end p - length data) data p))"
    and q: "q = set16 8 (free_space_end p - length data)
        (if slot = slot_count p then set16 6 x (set16 4 (slot + 1) p2) else p2)"
  shows "page_wf q \<and> page_map q = (page_map p)(slot \<mapsto> data) \<and> slot_count q = max (slot_count p) (slot + 1)"
proof -
  let ?off = "free_space_end p - length data" and ?n = "slot_count p"
  note D = page_wfD [OF wf]
  let ?b = "blit ?off data p"
  let ?p1 = "set16 (16 + 4 * slot) ?off ?b"
  have le: "?off + length data = free_space_end p" "?off \<le> 4096" "length data \<le> 4096" using room D(4) by auto
  have lb: "length ?b = 5120" using le D(1,4) by simp
  have l1: "length ?p1 = 5120" using lb slot by simp
  have l2: "length p2 = 5120" using p2 l1 slot by simp
  have lq: "length q = 5120" using q l2 by simp
  have ofl: "20 + 4 * ?n \<le> ?off" "slot = ?n \<Longrightarrow> 24 + 4 * ?n \<le> ?off" using room by auto
  have slo: "20 + 4 * slot \<le> ?off" using ofl slot(1) by simp
  have h2: "get16 o2 p2 = get16 o2 p" if "o2 + 2 \<le> 16" for o2
    using that get16_set16_other [of "18 + 4 * slot" ?p1 o2 "length data"] get16_set16_other [of "16 + 4 * slot" ?b o2 ?off]
      get16_blit_other [of ?off data p o2] l1 lb slot le slo D(1,4) unfolding p2 by simp
  have cnt: "slot_count q = max ?n (slot + 1)"
  proof (cases "slot = ?n")
    case True
    then have "get16 4 q = slot + 1"
      unfolding q using get16_set16_other [of 8 "set16 6 x (set16 4 (slot + 1) p2)" 4 ?off]
        get16_set16_other [of 6 "set16 4 (slot + 1) p2" 4 x] get16_set16_same [of 4 p2 "slot + 1"] l2 slot by simp
    then show ?thesis using True by (simp add: slot_count_def)
  next
    case False
    then have "get16 4 q = get16 4 p" unfolding q using get16_set16_other [of 8 p2 4 ?off] h2 [of 4] l2 by simp
    then show ?thesis using False slot by (simp add: slot_count_def)
  qed
  have fe: "free_space_end q = ?off"
    unfolding free_space_end_def [of q] unfolding q by (rule get16_set16_same) (use l2 le in auto)
  have hi: "get16 o2 q = get16 o2 p2" "window o2 m q = window o2 m p2" if "16 \<le> o2" for o2 m
    using that l2 unfolding q by (auto simp: get16_set16_other window_set16_other)
  have sl: "slot_length slot q = length data"
    unfolding slot_length_def by (subst hi) (use get16_set16_same [of "18 + 4 * slot" ?p1 "length data"] l1 slot le p2 in auto)
  have so: "slot_offset slot q = ?off"
    unfolding slot_offset_def
    by (subst hi) (use get16_set16_other [of "18 + 4 * slot" ?p1 "16 + 4 * slot" "length data"]
        get16_set16_same [of "16 + 4 * slot" ?b ?off] l1 lb slot le p2 in auto)
  have fld: "get16 o2 q = get16 o2 p" if "16 \<le> o2" "o2 + 2 \<le> ?off" "o2 + 2 \<le> 16 + 4 * slot \<or> 20 + 4 * slot \<le> o2" for o2
    using that hi [of o2] get16_set16_other [of "18 + 4 * slot" ?p1 o2 "length data"] get16_set16_other [of "16 + 4 * slot" ?b o2 ?off]
      get16_blit_other [of ?off data p o2] l1 lb slot le D(1,4) unfolding p2 by auto
  have other: "slot_offset i q = slot_offset i p \<and> slot_length i q = slot_length i p" if "i < ?n" "i \<noteq> slot" for i
    unfolding slot_offset_def slot_length_def using that ofl by (intro conjI fld) auto
  have live: "live_slot q i \<longleftrightarrow> i = slot \<or> live_slot p i" for i
    using cnt sl other [of i] data slot dead by (cases "i = slot") (auto simp: live_slot_def less_max_iff_disj less_Suc_eq)
  have win: "window o2 m q = window o2 m ?b" if "20 + 4 * slot \<le> o2" for o2 m
    using that hi(2) [of o2 m] window_set16_other [of "18 + 4 * slot" ?p1 o2 m "length data"]
      window_set16_other [of "16 + 4 * slot" ?b o2 m ?off] l1 lb slot unfolding p2 by simp
  have recs: "window ?off (length data) q = data"
    using win [OF slo] window_blit_same [of ?off data p] le D(1,4) by simp
  have reco: "window (slot_offset i p) m q = window (slot_offset i p) m p" if "live_slot p i" for i m
    using that win [of "slot_offset i p" m] window_blit_after [of ?off data "slot_offset i p" p m] D(5) [OF that] le slo D(1,4) by simp
  have old: "i < ?n" "i \<noteq> slot" if "live_slot p i" for i using that dead by (auto simp: live_slot_def)
  have map: "page_map q i = ((page_map p)(slot \<mapsto> data)) i" for i
  proof (cases "i = slot")
    case True
    then show ?thesis using live so sl recs by (simp add: page_map_live)
  next
    case False
    then show ?thesis using live [of i] other [of i] old [of i] reco [of i] by (simp add: page_map_live)
  qed
  have rng: "?off \<le> slot_offset i q \<and> slot_offset i q + slot_length i q \<le> 4096" if "live_slot q i" for i
    using that live [of i] so sl le D(4) other [of i] old [of i] D(5,6) [of i] by (cases "i = slot") auto
  have ap: "apart q i j" if ij: "live_slot q i" "live_slot q j" "i \<noteq> j" for i j
  proof -
    have above: "slot_offset slot q + slot_length slot q \<le> slot_offset k q" if "live_slot p k" for k
      using so sl le(1) other [OF old [OF that]] D(5) [OF that] by simp
    consider "i = slot" "live_slot p j" | "j = slot" "live_slot p i" | "live_slot p i" "live_slot p j"
      using ij live [of i] live [of j] by blast
    then show ?thesis
    proof cases
      case 1
      then show ?thesis using above [of j] unfolding apart_def by blast
    next
      case 2
      then show ?thesis using above [of i] unfolding apart_def by blast
    next
      case 3
      then show ?thesis using D(7) [of i j] ij(3) other [OF old [of i]] other [OF old [of j]] by (simp add: apart_def)
    qed
  qed
  have "max ?n (slot + 1) \<le> 256" "20 + 4 * max ?n (slot + 1) \<le> ?off"
    using slot D(2) ofl by (cases "slot = ?n"; simp add: max_def)+
  with lq le(2) fe cnt have b: "length q = 5120 \<and> slot_count q \<le> 256 \<and> 20 + 4 * slot_count q \<le> free_space_end q \<and>
      free_space_end q \<le> 4096" by simp
  have "page_wf q" unfolding page_wf_def
    by (intro conjI allI impI) (use b rng ap fe cnt in simp_all)
  with map cnt show ?thesis by blast
qed

lemma compact_wf:
  assumes "page_wf p"
  shows "page_wf (slotted_page_compact p)" "page_map (slotted_page_compact p) = page_map p"
    "slot_count (slotted_page_compact p) = slot_count p"
    "free_space_end (slotted_page_compact p) = PAGE_SIZE_SE - page_used p"
    "i < slot_count p \<Longrightarrow> slot_length i (slotted_page_compact p) = slot_length i p"
proof -
  let ?q = "slotted_page_compact p"
  have "page_wf ?q \<and> page_map ?q = page_map p \<and> slot_count ?q = slot_count p \<and>
      free_space_end ?q = PAGE_SIZE_SE - page_used p \<and> (\<forall>i < slot_count p. slot_length i ?q = slot_length i p)"
  proof (cases "slot_count p = 0")
    case True
    then show ?thesis using assms page_wfD(8) [OF assms] by (simp add: slotted_page_compact_def page_used_def)
  next
    case False
    from compact_ok [OF assms this] show ?thesis .
  qed
  then show "page_wf ?q" "page_map ?q = page_map p" "slot_count ?q = slot_count p"
    "free_space_end ?q = PAGE_SIZE_SE - page_used p" "i < slot_count p \<Longrightarrow> slot_length i ?q = slot_length i p" by auto
qed

text \<open>Overwriting a record with a shorter one, or with nothing.\<close>

lemma shrink_ok:
  assumes wf: "page_wf p" and live: "live_slot p slot" and le: "length data \<le> slot_length slot p"
    and q: "q = set16 (18 + 4 * slot) (length data) (blit (slot_offset slot p) data p)"
  shows "page_wf q \<and> page_map q = (page_map p)(slot := if data = [] then None else Some data) \<and>
    slot_count q = slot_count p \<and> free_space_end q = free_space_end p \<and>
    (\<forall>i. i \<noteq> slot \<longrightarrow> i < slot_count p \<longrightarrow> slot_length i q = slot_length i p) \<and> slot_length slot q = length data"
proof -
  note D = page_wfD [OF wf]
  let ?o = "slot_offset slot p"
  let ?b = "blit ?o data p"
  have inb: "slot < slot_count p" using live by (simp add: live_slot_def)
  have o: "20 + 4 * slot_count p \<le> ?o" "?o + length data \<le> 4096" using D(3) D(5,6) [of slot] live le by auto
  have lb: "length ?b = 5120" using o D(1) by simp
  have lq: "length q = 5120" using lb inb D(2) by (simp add: q)
  have fld: "get16 o2 q = get16 o2 p" if "o2 + 2 \<le> 18 + 4 * slot \<or> 20 + 4 * slot \<le> o2" "o2 + 2 \<le> ?o" for o2
    using that get16_set16_other [of "18 + 4 * slot" ?b o2 "length data"] get16_blit_other [of ?o data p o2] lb inb D(1,2) o
    unfolding q by auto
  have cnt: "slot_count q = slot_count p" and fe: "free_space_end q = free_space_end p"
    unfolding slot_count_def free_space_end_def by (rule fld; use o in simp)+
  have so: "slot_offset i q = slot_offset i p" if "i < slot_count p" for i
    unfolding slot_offset_def [of i q] slot_offset_def [of i p] by (rule fld) (use that o in auto)
  have sl: "slot_length i q = slot_length i p" if "i < slot_count p" "i \<noteq> slot" for i
    unfolding slot_length_def [of i q] slot_length_def [of i p] by (rule fld) (use that o in auto)
  have sls: "slot_length slot q = length data"
    unfolding slot_length_def q by (rule get16_set16_same) (use lb inb D(2) o in auto)
  have live': "live_slot q i \<longleftrightarrow> live_slot p i \<and> (i = slot \<longrightarrow> data \<noteq> [])" for i
    using sl [of i] sls cnt inb live by (cases "i = slot") (auto simp: live_slot_def)
  have lei: "slot_length i q \<le> slot_length i p" if "live_slot p i" for i
    using that sl [of i] sls le by (cases "i = slot") (auto simp: live_slot_def)
  have win: "window o2 m q = window o2 m ?b" if "20 + 4 * slot_count p \<le> o2" for o2 m
    unfolding q by (rule window_set16_other) (use that lb inb D(2) in auto)
  have reco: "window (slot_offset i p) (slot_length i p) q = window (slot_offset i p) (slot_length i p) p"
    if i: "live_slot p i" "i \<noteq> slot" for i
  proof -
    have "apart p i slot" using D(7) i live by blast
    then have "window (slot_offset i p) (slot_length i p) ?b = window (slot_offset i p) (slot_length i p) p"
      using window_blit_disjoint [of ?o data p "slot_offset i p" "slot_length i p"] o D(1) le unfolding apart_def by auto
    then show ?thesis using win [of "slot_offset i p"] D(3) D(5) [of i] i by simp
  qed
  have recs: "window ?o (length data) q = data" using win [OF o(1)] window_blit_same [of ?o data p] o D(1) by simp
  have inbl: "i < slot_count p" if "live_slot p i" for i using that by (simp add: live_slot_def)
  have map: "page_map q i = ((page_map p)(slot := if data = [] then None else Some data)) i" for i
  proof (cases "i = slot")
    case True
    then show ?thesis using live' live recs so [OF inb] sls by (simp add: page_map_live)
  next
    case False
    then show ?thesis using live' [of i] reco [of i] so [OF inbl] sl [OF inbl] by (simp add: page_map_live)
  qed
  have ap: "apart q i j" if ij: "live_slot q i" "live_slot q j" "i \<noteq> j" for i j
  proof -
    have l: "live_slot p i" "live_slot p j" using ij live' by blast+
    show ?thesis using D(7) [OF l ij(3)] so [OF inbl [OF l(1)]] so [OF inbl [OF l(2)]] lei [OF l(1)] lei [OF l(2)]
      unfolding apart_def by auto
  qed
  have rng: "free_space_end p \<le> slot_offset i q \<and> slot_offset i q + slot_length i q \<le> 4096" if "live_slot q i" for i
  proof -
    have l: "live_slot p i" using that live' by blast
    then show ?thesis using D(5,6) [of i] so [OF inbl [OF l]] lei [OF l] by simp
  qed
  have "page_wf q" unfolding page_wf_def cnt fe by (intro conjI allI impI) (use lq D(2-4,8) rng ap in auto)
  moreover have "page_map q = (page_map p)(slot := if data = [] then None else Some data)" by (rule ext) (rule map)
  ultimately show ?thesis using cnt fe sl sls by blast
qed

lemma blit_nil: "off \<le> length p \<Longrightarrow> blit off [] p = p"
  by (simp add: blit_def)

lemma init_ok: "page_wf (slotted_page_init pid)" "page_map (slotted_page_init pid) = Map.empty"
  "slot_count (slotted_page_init pid) = 0" "free_space_end (slotted_page_init pid) = PAGE_SIZE_SE"
proof -
  let ?z = "blit 0 (le_encode 4 (unat pid)) (replicate 5120 0)"
  let ?p = "set16 10 2 (set16 8 4096 (set16 6 16 (set16 4 0 ?z)))"
  have q: "slotted_page_init pid = blit 12 (le_encode 4 0) ?p" by (simp add: slotted_page_init_def Let_def)
  have l: "length ?z = 5120" by simp
  show c: "slot_count (slotted_page_init pid) = 0"
    unfolding q slot_count_def using l by (simp add: get16_blit_other get16_set16_other get16_set16_same)
  show f: "free_space_end (slotted_page_init pid) = 4096"
    unfolding q free_space_end_def using l by (simp add: get16_blit_other get16_set16_other get16_set16_same)
  have "length (slotted_page_init pid) = 5120" unfolding q using l by simp
  then show "page_wf (slotted_page_init pid)" using c f by (simp add: page_wf_def live_slot_def)
  show "page_map (slotted_page_init pid) = Map.empty" by (rule ext) (simp add: page_map_live live_slot_def c)
qed

lemma find_slot_spec:
  assumes "page_wf p"
  shows "find_slot p \<le> slot_count p" "\<not> live_slot p (find_slot p)"
    "find_slot p < MAX_SLOT_COUNT \<longleftrightarrow> (\<exists>i < MAX_SLOT_COUNT. page_map p i = None)"
proof -
  have A: "find_slot p \<le> slot_count p \<and> \<not> live_slot p (find_slot p) \<and> (\<forall>i < find_slot p. live_slot p i)"
  proof (cases "first_idx (\<lambda>i. slot_length i p = 0) [0..<slot_count p]")
    case None
    then have "find_slot p = slot_count p" by (simp add: find_slot_def)
    moreover have "\<forall>i < slot_count p. slot_length i p \<noteq> 0" using None by (simp add: first_idx_None)
    ultimately show ?thesis by (simp add: live_slot_def)
  next
    case (Some k)
    from first_idx_SomeD [OF this] have "k < slot_count p" "slot_length k p = 0" "\<And>j. j < k \<Longrightarrow> slot_length j p \<noteq> 0"
      by auto
    then show ?thesis using Some by (auto simp: find_slot_def live_slot_def)
  qed
  then show "find_slot p \<le> slot_count p" "\<not> live_slot p (find_slot p)" by auto
  show "find_slot p < MAX_SLOT_COUNT \<longleftrightarrow> (\<exists>i < MAX_SLOT_COUNT. page_map p i = None)"
  proof
    assume "find_slot p < MAX_SLOT_COUNT"
    then show "\<exists>i < MAX_SLOT_COUNT. page_map p i = None" using A by (intro exI [of _ "find_slot p"]) (simp add: page_map_live)
  next
    assume "\<exists>i < MAX_SLOT_COUNT. page_map p i = None"
    then obtain i where "i < MAX_SLOT_COUNT" "\<not> live_slot p i" by (auto simp: page_map_live split: if_splits)
    with A show "find_slot p < MAX_SLOT_COUNT" by (meson linorder_not_less order_le_less_trans)
  qed
qed

text \<open>The check before a record is placed: compaction is tried once, and afterwards there is room
  exactly when the records, the directory and the new bytes fit the page.\<close>

lemma make_room:
  assumes wf: "page_wf p" and p1: "p1 = (if slotted_page_free_space p < n then slotted_page_compact p else p)"
  shows "page_wf p1" "page_map p1 = page_map p" "slot_count p1 = slot_count p"
    "slotted_page_free_space p1 < n \<longleftrightarrow> PAGE_SIZE_SE < page_used p + 20 + 4 * slot_count p + n"
    "i < slot_count p \<Longrightarrow> slot_length i p1 = slot_length i p"
proof -
  note C = compact_wf [OF wf]
  have f: "slotted_page_free_space p = free_space_end p - (20 + 4 * slot_count p)" by (rule free_space_wf [OF wf])
  have fc: "slotted_page_free_space (slotted_page_compact p) = 4096 - page_used p - (20 + 4 * slot_count p)"
    using free_space_wf [OF C(1)] C(3,4) by simp
  show "page_wf p1" "page_map p1 = page_map p" "slot_count p1 = slot_count p"
    "i < slot_count p \<Longrightarrow> slot_length i p1 = slot_length i p" using p1 wf C by auto
  have b: "page_used p \<le> 4096 - free_space_end p" "free_space_end p \<le> 4096" "20 + 4 * slot_count p \<le> free_space_end p"
    using page_used_bound [OF wf] page_wfD(3,4) [OF wf] by auto
  show "slotted_page_free_space p1 < n \<longleftrightarrow> 4096 < page_used p + 20 + 4 * slot_count p + n"
    using p1 f fc b by (auto split: if_splits)
qed


lemma insert_ok:
  assumes wf: "page_wf p" and data: "data \<noteq> []"
  shows "\<exists>r slot q. slotted_page_insert p data = (r, slot, q) \<and> page_wf q \<and>
    (if page_used p + 4 * slot_count p + length data + 24 \<le> PAGE_SIZE_SE \<and> (\<exists>i < MAX_SLOT_COUNT. page_map p i = None)
     then r = 0 \<and> (\<exists>i. slot = Some i \<and> page_map p i = None \<and> page_map q = (page_map p)(i \<mapsto> data))
     else r = -1 \<and> slot = None \<and> page_map q = page_map p)"
proof -
  let ?n = "length data + 4"
  define p1 where "p1 = (if slotted_page_free_space p < ?n then slotted_page_compact p else p)"
  note R = make_room [OF wf p1_def]
  note F = find_slot_spec [OF R(1)]
  have used: "page_used p + 4 * slot_count p + length data + 24 \<le> 4096 \<longleftrightarrow> \<not> slotted_page_free_space p1 < ?n"
    unfolding R(4) by linarith
  show ?thesis
  proof (cases "\<not> slotted_page_free_space p1 < ?n \<and> find_slot p1 < 256")
    case True
    let ?slot = "find_slot p1" and ?off = "free_space_end p1 - length data"
    let ?p2 = "set16 (18 + 4 * ?slot) (length data) (set16 (16 + 4 * ?slot) ?off (blit ?off data p1))"
    let ?q = "set16 8 ?off (if ?slot = slot_count p1 then set16 6 (16 + (?slot + 1) * 4) (set16 4 (?slot + 1) ?p2) else ?p2)"
    have room: "24 + 4 * slot_count p1 + length data \<le> free_space_end p1"
      using True free_space_wf [OF R(1)] page_wfD(3) [OF R(1)] by linarith
    have r: "20 + 4 * slot_count p1 + (if ?slot = slot_count p1 then 4 else 0) + length data \<le> free_space_end p1"
      using room by simp
    from place_ok [OF R(1) data F(1) conjunct2 [OF True] F(2) r refl refl]
    have P: "page_wf ?q" "page_map ?q = (page_map p)(?slot \<mapsto> data)" unfolding R(2) by blast+
    have s16: "sub16 (free_space_end p1) (length data) = ?off" using room field_bounds(2) by (intro sub16_exact) auto
    have l: "length ?p2 = 5120"
      using page_wfD(1-4) [OF R(1)] room F(1) by simp
    have cnt: "slot_count ?p2 = slot_count p1"
      using page_wfD(1-4) [OF R(1)] room F(1) by (simp add: slot_count_def get16_set16_other get16_blit_other)
    have "slotted_page_insert p data = (0, Some ?slot, ?q)"
      using data True cnt F(1) unfolding slotted_page_insert_def Let_def p1_def [symmetric] s16 by simp
    moreover have "page_map p ?slot = None" using F(2) by (simp add: R(2) [symmetric] page_map_live)
    moreover have "\<exists>i < MAX_SLOT_COUNT. page_map p i = None" using True F(3) R(2) by simp
    ultimately show ?thesis using P True used by auto
  next
    case False
    then have "slotted_page_insert p data = (-1, None, p1)"
      using data by (auto simp: slotted_page_insert_def Let_def p1_def [symmetric])
    moreover have "\<not> (page_used p + 4 * slot_count p + length data + 24 \<le> 4096 \<and> (\<exists>i < MAX_SLOT_COUNT. page_map p i = None))"
      using False used F(3) R(2) by auto
    ultimately show ?thesis using R(1,2) by auto
  qed
qed

section \<open>Properties\<close>

text \<open>C30: Insertion into a well-formed page. It succeeds exactly when some slot number below 256 has
  no record and the page can hold the records present, the directory, the new record and eight more
  bytes, compaction included. Then the record is stored under a slot that had none and every other
  slot keeps its record, wherever compaction has moved it; otherwise no record changes. The page
  stays well formed, so no write ever touches the header, the directory or another record.\<close>

theorem slotted_page_insert_correct:
  assumes wf: "page_wf p" and data: "data \<noteq> []"
  shows "\<exists>r slot q. slotted_page_insert p data = (r, slot, q) \<and> page_wf q \<and>
    (if page_used p + 4 * slot_count p + length data + 24 \<le> PAGE_SIZE_SE \<and> (\<exists>i < MAX_SLOT_COUNT. page_map p i = None)
     then r = 0 \<and> (\<exists>i. slot = Some i \<and> page_map p i = None \<and> page_map q = (page_map p)(i \<mapsto> data))
     else r = -1 \<and> slot = None \<and> page_map q = page_map p)"
  by (rule insert_ok [OF assms])

theorem slotted_page_insert_correct_witness:
  "\<exists>slot q. slotted_page_insert (slotted_page_init 7) [1, 2, 3] = (0, Some slot, q) \<and> page_map q slot = Some [1, 2, 3]"
proof -
  have d: "[1, 2, 3 :: byte] \<noteq> []" by simp
  have "page_used (slotted_page_init 7) = 0" by (simp add: page_used_def init_ok)
  then have "page_used (slotted_page_init 7) + 4 * slot_count (slotted_page_init 7) + length [1, 2, 3 :: byte] + 24 \<le> 4096 \<and>
      (\<exists>i < MAX_SLOT_COUNT. page_map (slotted_page_init 7) i = None)"
    by (simp add: init_ok) (intro exI [of _ 0], simp)
  with slotted_page_insert_correct [OF init_ok(1) d, of 7] show ?thesis by (smt (verit) fun_upd_same)
qed

lemma used_after_delete:
  assumes "slot_count q = slot_count p" "slot < slot_count p" "slot_length slot q = 0"
    and "\<forall>i. i \<noteq> slot \<longrightarrow> i < slot_count p \<longrightarrow> slot_length i q = slot_length i p"
  shows "page_used q + slot_length slot p = page_used p"
proof -
  let ?I = "{..<slot_count p}"
  have "page_used p = slot_length slot p + (\<Sum>i \<in> ?I - {slot}. slot_length i p)"
    unfolding page_used_def by (rule sum.remove) (use assms(2) in auto)
  moreover have "page_used q = slot_length slot q + (\<Sum>i \<in> ?I - {slot}. slot_length i q)"
    unfolding page_used_def assms(1) by (rule sum.remove) (use assms(2) in auto)
  moreover have "(\<Sum>i \<in> ?I - {slot}. slot_length i q) = (\<Sum>i \<in> ?I - {slot}. slot_length i p)"
    by (rule sum.cong) (use assms(4) in auto)
  ultimately show ?thesis using assms(3) by simp
qed

text \<open>Update of a slot that has a record. A record no longer than the old one replaces it in place
  (an empty one deletes it). A longer one replaces it if it fits the page, compaction included. If it
  does not fit, the call fails with -1 but the old record is gone: it was deleted before the space was
  checked. In every case the other records stay and the page is well formed.\<close>

theorem slotted_page_update_correct:
  assumes wf: "page_wf p" and old: "page_map p slot = Some rec"
  shows "\<exists>r q. slotted_page_update p slot data = (r, q) \<and> page_wf q \<and>
    (if length data \<le> length rec \<or>
        page_used p - length rec + 4 * slot_count p + length data + 20 \<le> PAGE_SIZE_SE
     then r = 0 \<and> page_map q = (page_map p)(slot := if data = [] then None else Some data)
     else r = -1 \<and> page_map q = (page_map p)(slot := None))"
proof -
  have live: "live_slot p slot" and rec: "rec = window (slot_offset slot p) (slot_length slot p) p"
    using old by (auto simp: page_map_live split: if_splits)
  note D = page_wfD [OF wf]
  have lrec: "length rec = slot_length slot p" using D(1) D(6) [OF live] by (simp add: rec)
  have inb: "slot < slot_count p" "slot_length slot p \<noteq> 0" using live by (auto simp: live_slot_def)
  show ?thesis
  proof (cases "length data \<le> slot_length slot p")
    case True
    from shrink_ok [OF wf live True refl] inb True lrec show ?thesis by (simp add: slotted_page_update_def)
  next
    case False
    then have ne: "data \<noteq> []" by auto
    define p0 where "p0 = set16 (18 + 4 * slot) 0 p"
    have "slot_offset slot p \<le> length p" using D(1) D(6) [OF live] by simp
    from shrink_ok [OF wf live, of "[]" p0] blit_nil [OF this]
    have P0: "page_wf p0" "page_map p0 = (page_map p)(slot := None)" "slot_count p0 = slot_count p"
      "\<forall>i. i \<noteq> slot \<longrightarrow> i < slot_count p \<longrightarrow> slot_length i p0 = slot_length i p" "slot_length slot p0 = 0"
      by (auto simp: p0_def)
    have used0: "page_used p0 = page_used p - slot_length slot p"
      using used_after_delete [OF P0(3) inb(1) P0(5,4)] by simp
    define p1 where "p1 = (if slotted_page_free_space p0 < length data then slotted_page_compact p0 else p0)"
    note R = make_room [OF P0(1) p1_def]
    have fits: "slotted_page_free_space p1 < length data \<longleftrightarrow> 4096 < page_used p - length rec + 20 + 4 * slot_count p + length data"
      using R(4) used0 P0(3) lrec by simp
    have eval: "slotted_page_update p slot data =
       (if slotted_page_free_space p1 < length data then (-1, p1)
        else let off = sub16 (free_space_end p1) (length data)
             in (0, set16 8 off (set16 (18 + 4 * slot) (length data) (set16 (16 + 4 * slot) off (blit off data p1)))))"
      using inb False by (simp add: slotted_page_update_def slotted_page_delete_def Let_def p0_def [symmetric] p1_def [symmetric])
    show ?thesis
    proof (cases "slotted_page_free_space p1 < length data")
      case True
      then show ?thesis using eval False lrec fits R(1,2) P0(2) by auto
    next
      case room: False
      let ?off = "free_space_end p1 - length data"
      let ?q = "set16 8 ?off (set16 (18 + 4 * slot) (length data) (set16 (16 + 4 * slot) ?off (blit ?off data p1)))"
      have sc: "slot_count p1 = slot_count p" using R(3) P0(3) by simp
      have fe: "20 + 4 * slot_count p1 + length data \<le> free_space_end p1"
        using room free_space_wf [OF R(1)] page_wfD(3) [OF R(1)] by linarith
      have s1: "slot \<le> slot_count p1" "slot < 256" "slot \<noteq> slot_count p1" using inb D(2) sc by auto
      have dead: "\<not> live_slot p1 slot" using R(5) [of slot] P0(3,5) inb by (simp add: live_slot_def)
      have r: "20 + 4 * slot_count p1 + (if slot = slot_count p1 then 4 else 0) + length data \<le> free_space_end p1"
        using fe s1(3) by simp
      have q: "?q = set16 8 ?off (if slot = slot_count p1 then set16 6 x (set16 4 (slot + 1) p2) else
          set16 (18 + 4 * slot) (length data) (set16 (16 + 4 * slot) ?off (blit ?off data p1)))" for x p2
        using s1(3) by simp
      from place_ok [OF R(1) ne s1(1,2) dead r refl q]
      have P: "page_wf ?q" "page_map ?q = (page_map p)(slot \<mapsto> data)" unfolding R(2) P0(2) by auto
      have s16: "sub16 (free_space_end p1) (length data) = ?off" using fe field_bounds(2) by (intro sub16_exact) auto
      have "slotted_page_update p slot data = (0, ?q)" using eval room by (simp add: s16 Let_def)
      then show ?thesis using P ne room fits by auto
    qed
  qed
qed

theorem slotted_page_update_correct_witness:
  "\<exists>slot q q'. slotted_page_insert (slotted_page_init 7) [1, 2, 3] = (0, Some slot, q) \<and>
     slotted_page_update q slot [4, 5] = (0, q') \<and> page_map q' slot = Some [4, 5]"
proof -
  have d: "[1, 2, 3 :: byte] \<noteq> []" by simp
  have "page_used (slotted_page_init 7) = 0" by (simp add: page_used_def init_ok)
  then have "page_used (slotted_page_init 7) + 4 * slot_count (slotted_page_init 7) + length [1, 2, 3 :: byte] + 24 \<le> 4096 \<and>
      (\<exists>i < MAX_SLOT_COUNT. page_map (slotted_page_init 7) i = None)"
    by (simp add: init_ok) (intro exI [of _ 0], simp)
  with insert_ok [OF init_ok(1) d, of 7] obtain slot q where
    q: "slotted_page_insert (slotted_page_init 7) [1, 2, 3] = (0, Some slot, q)" "page_wf q" "page_map q slot = Some [1, 2, 3]"
    by (smt (verit) fun_upd_same)
  from slotted_page_update_correct [OF q(2,3), of "[4, 5]"] obtain q' where
    "slotted_page_update q slot [4, 5] = (0, q')" "page_map q' slot = Some [4, 5]" by auto
  with q(1) show ?thesis by blast
qed

end
