(* ===== verification/Compression.thy ===== *)
theory Compression
  imports SlottedPage
begin

text \<open>
  The two codecs of \<open>src/storage_engine.c\<close> (lines 225 to 380) and the compression of a slotted page
  (lines 386 to 431). A compressor returns the bytes it wrote, \<open>[]\<close> for the result 0; a decompressor
  the bytes it produced. The decoder of the LZ4 format leaves bytes of the output buffer as they were
  when an offset points before its start, so that buffer is an argument.
\<close>

section \<open>Run lengths\<close>

text \<open>The inner loop that extends a run, at most to 255.\<close>

fun count_run :: "byte \<Rightarrow> bytes \<Rightarrow> nat \<Rightarrow> nat" where
  "count_run c [] n = n"
| "count_run c (b # bs) n = (if b = c \<and> n < 255 then count_run c bs (n + 1) else n)"

lemma count_run_bounds: "n \<le> count_run c bs n" "count_run c bs n \<le> n + length bs"
  by (induction c bs n rule: count_run.induct) auto

function rle_loop :: "nat \<Rightarrow> nat \<Rightarrow> bytes \<Rightarrow> bytes" where
  "rle_loop cap dst_pos [] = []"
| "rle_loop cap dst_pos (b # bs) =
     (if dst_pos + 2 \<le> cap
      then let n = count_run b bs 1
           in word_of_nat n # b # rle_loop cap (dst_pos + 2) (drop n (b # bs))
      else [])"
  by pat_completeness auto
termination
proof (relation "measure (\<lambda>(cap, dst_pos, bs). length bs)")
  fix cap dst_pos :: nat and b :: byte and bs n assume "n = count_run b bs 1"
  then have "1 \<le> n" using count_run_bounds(1) by simp
  then show "((cap, dst_pos + 2, drop n (b # bs)), cap, dst_pos, b # bs) \<in> measure (\<lambda>(cap, dst_pos, bs). length bs)"
    by (cases n) simp_all
qed simp

definition compress_rle :: "bytes \<Rightarrow> nat \<Rightarrow> bytes" where
  "compress_rle src dst_capacity =
     (if src = [] then [] else if dst_capacity < 4 then []
      else le_encode 4 (length src) @ rle_loop dst_capacity 4 src)"

fun unrle_loop :: "nat \<Rightarrow> bytes \<Rightarrow> bytes \<Rightarrow> bytes" where
  "unrle_loop orig_size (count # value # rest) dst =
     (if length dst < orig_size
      then unrle_loop orig_size rest (dst @ replicate (min (unat count) (orig_size - length dst)) value)
      else dst)"
| "unrle_loop orig_size _ dst = dst"

definition decompress_rle :: "bytes \<Rightarrow> nat \<Rightarrow> bytes" where
  "decompress_rle src dst_capacity =
     (if length src < 4 then []
      else let orig_size = le_decode (take 4 src)
           in if orig_size > dst_capacity then [] else unrle_loop orig_size (drop 4 src) [])"

lemma count_run_replicate:
  assumes "count_run c bs n = m" and "n \<le> 255"
  shows "m \<le> 255" and "take (m - n) bs = replicate (m - n) c"
  using assms
proof (induction c bs n rule: count_run.induct)
  case (1 c n)
  { case 1 then show ?case by simp next case 2 then show ?case by simp }
next
  case (2 c b bs n)
  { case 1 then show ?case using 2(1) by (auto split: if_splits) }
  { case 2
    show ?case
    proof (cases "b = c \<and> n < 255")
      case True
      have "count_run c bs (n + 1) = m" using 2 True by simp
      then have "m - n = Suc (m - (n + 1))" using count_run_bounds(1) [of "n + 1" c bs] by simp
      then show ?thesis using "2.IH"(2) [OF True] \<open>count_run c bs (n + 1) = m\<close> True by simp
    next
      case False
      then have "m = n" using 2 by (simp only: count_run.simps if_False)
      then show ?thesis by simp
    qed }
qed

text \<open>What the encoder has written decodes to a prefix of the input, to all of it when the output
  buffer has two bytes for every input byte.\<close>

lemma unrle_rle:
  "\<exists>k. unrle_loop n (rle_loop cap p src) dst = dst @ take k src \<and> (p + 2 * length src \<le> cap \<longrightarrow> k = length src)"
  if "length dst + length src \<le> n"
  using that
proof (induction cap p src arbitrary: dst rule: rle_loop.induct)
  case (1 cap p)
  then show ?case by (intro exI [of _ 0]) simp
next
  case (2 cap p b bs)
  let ?m = "count_run b bs 1"
  have m: "1 \<le> ?m" "?m \<le> Suc (length bs)" using count_run_bounds [where n = 1 and c = b and bs = bs] by simp_all
  have m255: "?m \<le> 255" and run: "take (?m - 1) bs = replicate (?m - 1) b"
    using count_run_replicate [where c = b and bs = bs and n = 1, OF refl] by simp_all
  have head: "take ?m (b # bs) = replicate ?m b"
    using run m(1) by (cases ?m) auto
  show ?case
  proof (cases "p + 2 \<le> cap")
    case True
    have u: "unat (word_of_nat ?m :: byte) = ?m" using m255 by (simp add: unat_of_nat)
    have "length dst < n" using "2.prems" by simp
    moreover have "min ?m (n - length dst) = ?m" using "2.prems" m by simp
    ultimately have step: "unrle_loop n (rle_loop cap p (b # bs)) dst =
        unrle_loop n (rle_loop cap (p + 2) (drop ?m (b # bs))) (dst @ replicate ?m b)"
      using True u by (simp add: Let_def)
    have "length (dst @ replicate ?m b) + length (drop ?m (b # bs)) \<le> n" using "2.prems" m by simp
    from "2.IH" [OF True refl this] obtain k where
      k: "unrle_loop n (rle_loop cap (p + 2) (drop ?m (b # bs))) (dst @ replicate ?m b) =
          (dst @ replicate ?m b) @ take k (drop ?m (b # bs))"
        "p + 2 + 2 * length (drop ?m (b # bs)) \<le> cap \<longrightarrow> k = length (drop ?m (b # bs))" by blast
    have "take (?m + k) (b # bs) = replicate ?m b @ take k (drop ?m (b # bs))" by (simp only: take_add head)
    then have "unrle_loop n (rle_loop cap p (b # bs)) dst = dst @ take (?m + k) (b # bs)" using step k(1) by simp
    moreover have "p + 2 * length (b # bs) \<le> cap \<longrightarrow> ?m + k = length (b # bs)" using k(2) m by auto
    ultimately show ?thesis by blast
  next
    case False
    then show ?thesis by (intro exI [of _ 0]) simp
  qed
qed

section \<open>The LZ4-style format\<close>

function match_length :: "bytes \<Rightarrow> nat \<Rightarrow> nat \<Rightarrow> nat \<Rightarrow> nat" where
  "match_length src pos i n =
     (if pos + n < length src \<and> i + n < pos \<and> src ! (i + n) = src ! (pos + n) \<and> n < 255
      then match_length src pos i (n + 1) else n)"
  by pat_completeness auto
termination by (relation "measure (\<lambda>(src, pos, i, n). 255 - n)") auto

declare match_length.simps [simp del]

definition better_match :: "bytes \<Rightarrow> nat \<Rightarrow> nat \<Rightarrow> nat \<times> nat \<Rightarrow> nat \<times> nat" where
  "better_match src pos i best =
     (let m = match_length src pos i 0 in if m \<ge> 4 \<and> m > fst best then (m, pos - i) else best)"

text \<open>The best match in the last 255 bytes: its length and its distance.\<close>

definition best_match :: "bytes \<Rightarrow> nat \<Rightarrow> nat \<times> nat" where
  "best_match src pos =
     fold (better_match src pos) [(if pos > 255 then pos - 255 else 0) ..< pos] (0, 0)"

function lz4_loop :: "bytes \<Rightarrow> nat \<Rightarrow> nat \<Rightarrow> nat \<Rightarrow> bytes" where
  "lz4_loop src dst_capacity src_pos dst_pos =
     (if src_pos < length src \<and> dst_pos < dst_capacity - 1
      then
        let (len, off) = best_match src src_pos
        in if len \<ge> 4
           then if dst_pos + 3 > dst_capacity then []
                else (0x80 OR word_of_nat (if len > 15 then 15 else len)) # word_of_nat off #
                  (if len > 15 then word_of_nat (len - 15) # lz4_loop src dst_capacity (src_pos + len) (dst_pos + 3)
                   else lz4_loop src dst_capacity (src_pos + len) (dst_pos + 2))
           else if dst_pos + 2 > dst_capacity then []
                else 0 # (src ! src_pos) # lz4_loop src dst_capacity (src_pos + 1) (dst_pos + 2)
      else [])"
  by pat_completeness auto
termination by (relation "measure (\<lambda>(src, cap, src_pos, dst_pos). length src - src_pos)") auto

declare lz4_loop.simps [simp del]

definition compress_lz4 :: "bytes \<Rightarrow> nat \<Rightarrow> bytes" where
  "compress_lz4 src dst_capacity =
     (if src = [] then [] else if dst_capacity < 4 then []
      else le_encode 4 (length src) @ lz4_loop src dst_capacity 0 4)"

fun unlz4_copy :: "nat \<Rightarrow> bytes \<Rightarrow> nat \<Rightarrow> nat \<Rightarrow> bytes \<Rightarrow> bytes" where
  "unlz4_copy orig_size buf off 0 dst = dst"
| "unlz4_copy orig_size buf off (Suc n) dst =
     (if length dst < orig_size
      then unlz4_copy orig_size buf off n
             (dst @ [if length dst \<ge> off \<and> off > 0 then dst ! (length dst - off) else buf ! length dst])
      else dst)"

fun unlz4_loop :: "nat \<Rightarrow> bytes \<Rightarrow> bytes \<Rightarrow> bytes \<Rightarrow> bytes" where
  "unlz4_loop orig_size buf [] dst = dst"
| "unlz4_loop orig_size buf [t] dst = dst"
| "unlz4_loop orig_size buf (t # b # rest) dst =
     (if length dst < orig_size
      then
        if t AND 0x80 \<noteq> 0
        then
          (case rest of
             x # rest' \<Rightarrow>
               if t AND 0x0F = 15
               then unlz4_loop orig_size buf rest' (unlz4_copy orig_size buf (unat b) (unat ((t AND 0x0F) + x)) dst)
               else unlz4_loop orig_size buf rest (unlz4_copy orig_size buf (unat b) (unat (t AND 0x0F)) dst)
           | [] \<Rightarrow> unlz4_copy orig_size buf (unat b) (unat (t AND 0x0F)) dst)
        else unlz4_loop orig_size buf rest (dst @ [b])
      else dst)"

definition decompress_lz4 :: "bytes \<Rightarrow> nat \<Rightarrow> bytes \<Rightarrow> bytes" where
  "decompress_lz4 src dst_capacity buf =
     (if length src < 4 then []
      else let orig_size = le_decode (take 4 src)
           in if orig_size > dst_capacity then [] else unlz4_loop orig_size buf (drop 4 src) [])"

section \<open>Matches\<close>

lemma match_length_spec:
  assumes "pos \<le> length src" and "i \<le> pos" and "pos + n \<le> length src" and "i + n \<le> pos" and "n \<le> 255"
    and "\<forall>k < n. src ! (i + k) = src ! (pos + k)" and "match_length src pos i n = m"
  shows "pos + m \<le> length src \<and> i + m \<le> pos \<and> m \<le> 255 \<and> (\<forall>k < m. src ! (i + k) = src ! (pos + k))"
  using assms
proof (induction src pos i n rule: match_length.induct)
  case (1 src pos i n)
  show ?case
  proof (cases "pos + n < length src \<and> i + n < pos \<and> src ! (i + n) = src ! (pos + n) \<and> n < 255")
    case True
    have "\<forall>k < n + 1. src ! (i + k) = src ! (pos + k)" using True 1(7) by (auto simp: less_Suc_eq)
    moreover have "match_length src pos i (n + 1) = m" using 1(8) True match_length.simps [of src pos i n] by simp
    ultimately show ?thesis using 1(1) [OF True] 1(2,3) True by simp
  next
    case False
    then have "m = n" using 1(8) match_length.simps [of src pos i n] by auto
    then show ?thesis using 1 by simp
  qed
qed

definition good_match :: "bytes \<Rightarrow> nat \<Rightarrow> nat \<times> nat \<Rightarrow> bool" where
  "good_match src pos best \<longleftrightarrow>
     fst best = 0 \<or> 4 \<le> fst best \<and> fst best \<le> 255 \<and> 0 < snd best \<and> snd best \<le> 255 \<and> snd best \<le> pos \<and>
       fst best \<le> snd best \<and> pos + fst best \<le> length src \<and>
       (\<forall>k < fst best. src ! (pos - snd best + k) = src ! (pos + k))"

lemma best_match_good:
  assumes "pos \<le> length src"
  shows "good_match src pos (best_match src pos)"
proof -
  have H: "good_match src pos (fold (better_match src pos) is best)"
    if "good_match src pos best" "\<forall>i \<in> set is. i < pos \<and> pos - i \<le> 255" for "is" best
    using that
  proof (induction "is" arbitrary: best)
    case (Cons i "is")
    have "good_match src pos (better_match src pos i best)"
    proof (cases "match_length src pos i 0 \<ge> 4 \<and> match_length src pos i 0 > fst best")
      case True
      let ?m = "match_length src pos i 0"
      have i: "i < pos" "pos - i \<le> 255" using Cons.prems(2) by auto
      have M: "pos + ?m \<le> length src \<and> i + ?m \<le> pos \<and> ?m \<le> 255 \<and> (\<forall>k < ?m. src ! (i + k) = src ! (pos + k))"
        by (rule match_length_spec [OF assms _ _ _ _ _ refl]) (use i assms in auto)
      then have "?m \<le> pos - i" by linarith
      then show ?thesis using M True i by (simp add: better_match_def Let_def good_match_def)
    next
      case False
      then have "better_match src pos i best = best" by (auto simp: better_match_def Let_def)
      then show ?thesis using Cons.prems(1) by simp
    qed
    then show ?case using Cons by simp
  qed simp
  have "\<forall>i \<in> set [(if pos > 255 then pos - 255 else 0) ..< pos]. i < pos \<and> pos - i \<le> 255" by auto
  moreover have "good_match src pos (0, 0)" by (simp add: good_match_def)
  ultimately show ?thesis unfolding best_match_def by (intro H)
qed

text \<open>Copying an earlier match of the output appends the next bytes of the input.\<close>

lemma unlz4_copy_match:
  assumes "0 < off" and "off \<le> pos" and "pos + n \<le> length src" and "n \<le> m" and "m \<le> off"
    and "\<forall>k < m. src ! (pos0 - off + k) = src ! (pos0 + k)" and "pos + n = pos0 + m" and "pos0 \<le> pos" and "off \<le> pos0"
  shows "unlz4_copy (length src) buf off n (take pos src) = take (pos + n) src"
  using assms
proof (induction n arbitrary: pos)
  case 0
  then show ?case by simp
next
  case (Suc n)
  have lt: "pos < length src" "length (take pos src) = pos" using Suc.prems by simp_all
  let ?k = "pos - pos0"
  have k: "?k < m" using Suc.prems by simp
  have e: "pos0 - off + ?k = pos - off" "pos0 + ?k = pos" using Suc.prems by simp_all
  have "src ! (pos0 - off + ?k) = src ! (pos0 + ?k)" using Suc.prems(6) k by blast
  then have "take pos src ! (pos - off) = src ! pos" unfolding e using Suc.prems by simp
  then have "take pos src @ [take pos src ! (pos - off)] = take (Suc pos) src" using lt by (simp add: take_Suc_conv_app_nth)
  moreover have "unlz4_copy (length src) buf off n (take (Suc pos) src) = take (Suc pos + n) src"
    by (rule Suc.IH) (use Suc.prems in auto)
  ultimately show ?case using Suc.prems lt by simp
qed

lemma match_token:
  assumes "m < 16"
  shows "(0x80 OR word_of_nat m :: byte) AND 0x80 \<noteq> 0" "(0x80 OR word_of_nat m :: byte) AND 0x0F = word_of_nat m"
proof -
  have "m \<in> {0, 1, 2, 3, 4, 5, 6, 7, 8, 9, 10, 11, 12, 13, 14, 15}" using assms by simp arith
  then show "(0x80 OR word_of_nat m :: byte) AND 0x80 \<noteq> 0" "(0x80 OR word_of_nat m :: byte) AND 0x0F = word_of_nat m" by auto
qed

lemma unlz4_full: "orig_size \<le> length dst \<Longrightarrow> unlz4_loop orig_size buf bs dst = dst"
  by (cases "(orig_size, buf, bs, dst)" rule: unlz4_loop.cases) simp_all

lemma unlz4_short_match:
  assumes "length dst < orig_size" and "t AND 0x80 \<noteq> 0" and "t AND 0x0F \<noteq> 15"
  shows "unlz4_loop orig_size buf (t # b # rest) dst =
    unlz4_loop orig_size buf rest (unlz4_copy orig_size buf (unat b) (unat (t AND 0x0F)) dst)"
  using assms by (cases rest) simp_all

lemma unlz4_long_match:
  assumes "length dst < orig_size" and "t AND 0x80 \<noteq> 0" and "t AND 0x0F = 15"
  shows "unlz4_loop orig_size buf (t # b # x # rest) dst =
    unlz4_loop orig_size buf rest (unlz4_copy orig_size buf (unat b) (unat (15 + x)) dst)"
  using assms by simp

text \<open>The lengths of the matches the encoder takes, when its buffer is large enough. If none is exactly
  15 bytes, and the encoder stopped because the input was used up, the decoder gives the input back,
  whatever follows in its source.\<close>

function lz4_matches :: "bytes \<Rightarrow> nat \<Rightarrow> nat list" where
  "lz4_matches src pos =
     (if pos < length src
      then let len = fst (best_match src pos)
           in if len \<ge> 4 then len # lz4_matches src (pos + len) else lz4_matches src (pos + 1)
      else [])"
  by pat_completeness auto
termination by (relation "measure (\<lambda>(src, pos). length src - pos)") auto

declare lz4_matches.simps [simp del]

definition no_match_of_15 :: "bytes \<Rightarrow> bool" where
  "no_match_of_15 src \<longleftrightarrow> 15 \<notin> set (lz4_matches src 0)"

lemma unlz4_lz4:
  "15 \<notin> set (lz4_matches src pos) \<Longrightarrow> pos \<le> length src \<Longrightarrow> n + length (lz4_loop src cap pos n) + 2 < cap \<Longrightarrow>
    unlz4_loop (length src) buf (lz4_loop src cap pos n @ rest) (take pos src) = src"
proof (induction src cap pos n arbitrary: rest rule: lz4_loop.induct)
  case (1 src cap pos n)
  show ?case
  proof (cases "pos < length src")
    case False
    then show ?thesis using 1(5) by (simp add: unlz4_full)
  next
    case True
    then have go: "pos < length src \<and> n < cap - 1" using 1(6) by simp
    obtain len off where best: "best_match src pos = (len, off)" by fastforce
    have next_matches: "lz4_matches src pos = (if len \<ge> 4 then len # lz4_matches src (pos + len) else lz4_matches src (pos + 1))"
      using lz4_matches.simps [of src pos] True best by simp
    have good: "good_match src pos (len, off)" using best_match_good [of pos src] best True by simp
    have lt: "length (take pos src) < length src" using True by simp
    note step = lz4_loop.simps [of src cap pos n]
    show ?thesis
    proof (cases "len \<ge> 4")
      case True
      then have n15: "len \<noteq> 15" "15 \<notin> set (lz4_matches src (pos + len))" using 1(4) next_matches by auto
      from True have G: "len \<le> 255" "0 < off" "off \<le> 255" "off \<le> pos" "len \<le> off" "pos + len \<le> length src"
        "\<forall>k < len. src ! (pos - off + k) = src ! (pos + k)" using good by (auto simp: good_match_def)
      have room: "\<not> n + 3 > cap" using 1(6) step go best True by (auto split: if_splits)
      have off: "unat (word_of_nat off :: byte) = off" using G(3) by (simp add: unat_of_nat)
      have copy: "unlz4_copy (length src) buf off len (take pos src) = take (pos + len) src"
        by (rule unlz4_copy_match [OF G(2,4,6) order_refl G(5,7) refl order_refl G(4)])
      show ?thesis
      proof (cases "len > 15")
        case long: True
        let ?more = "lz4_loop src cap (pos + len) (n + 3)"
        have out: "lz4_loop src cap pos n = (0x80 OR word_of_nat 15) # word_of_nat off # word_of_nat (len - 15) # ?more"
          using step go best True room long by simp
        have "(15 :: byte) + word_of_nat (len - 15) = word_of_nat len" using long by (simp add: of_nat_diff)
        then have len: "unat (15 + (word_of_nat (len - 15) :: byte)) = len" using G(1) by (simp add: unat_of_nat)
        have "unlz4_loop (length src) buf (?more @ rest) (take (pos + len) src) = src"
          by (rule 1(1) [OF go best [symmetric] refl True room long n15(2)]) (use G(6) 1(6) out in auto)
        then show ?thesis unfolding out
          using unlz4_long_match [OF lt match_token(1) [of 15], of buf "word_of_nat off" "word_of_nat (len - 15)" "?more @ rest"]
            match_token(2) [of 15] off len copy by simp
      next
        case short: False
        let ?more = "lz4_loop src cap (pos + len) (n + 2)"
        have out: "lz4_loop src cap pos n = (0x80 OR word_of_nat len) # word_of_nat off # ?more"
          using step go best True room short n15(1) by simp
        have l16: "len < 16" using short by simp
        have len: "unat (word_of_nat len :: byte) = len" using G(1) by (simp add: unat_of_nat)
        then have "(0x80 OR word_of_nat len :: byte) AND 0x0F \<noteq> 15" using match_token(2) [OF l16] n15(1) by auto
        note U = unlz4_short_match [OF lt match_token(1) [OF l16] this, of buf "word_of_nat off" "?more @ rest"]
        have "unlz4_loop (length src) buf (?more @ rest) (take (pos + len) src) = src"
          by (rule 1(2) [OF go best [symmetric] refl True room short n15(2)]) (use G(6) 1(6) out in auto)
        then show ?thesis unfolding out using U match_token(2) [OF l16] off len copy by simp
      qed
    next
      case False
      let ?more = "lz4_loop src cap (pos + 1) (n + 2)"
      have room: "\<not> n + 2 > cap" using 1(6) step go best False by (auto split: if_splits)
      have out: "lz4_loop src cap pos n = 0 # (src ! pos) # ?more" using step go best False room by simp
      have "15 \<notin> set (lz4_matches src (pos + 1))" using 1(4) next_matches False by simp
      then have "unlz4_loop (length src) buf (?more @ rest) (take (pos + 1) src) = src"
        by (rule 1(3) [OF go best [symmetric] refl False room]) (use go 1(6) out in auto)
      then show ?thesis unfolding out using lt go by (simp add: take_Suc_conv_app_nth)
    qed
  qed
qed

lemma decompress_compress_lz4:
  assumes "no_match_of_15 src" and "length src < 4294967296" and "length src \<le> dcap"
    and "c = le_encode 4 (length src) @ lz4_loop src cap 0 4" and "length c + 2 < cap"
  shows "decompress_lz4 (c @ rest) dcap buf = src"
proof -
  have "unlz4_loop (length src) buf (lz4_loop src cap 0 4 @ rest) (take 0 src) = src"
    by (rule unlz4_lz4) (use assms(1,4,5) in \<open>auto simp: no_match_of_15_def\<close>)
  then show ?thesis using assms(2-4) by (simp add: decompress_lz4_def Let_def le_decode_encode)
qed

section \<open>Compressed pages\<close>

definition set_flags :: "u16 \<Rightarrow> bytes \<Rightarrow> bytes" where
  "set_flags w p = set16 10 (unat w) p"

definition slotted_page_is_compressed :: "bytes \<Rightarrow> bool" where
  "slotted_page_is_compressed p \<longleftrightarrow> (word_of_nat (page_flags p) :: u16) AND 1 \<noteq> 0"

definition page_data_size :: "bytes \<Rightarrow> nat" where
  "page_data_size p = nat ((int PAGE_SIZE_SE - int (free_space_end p)) mod 18446744073709551616)"

definition slotted_page_compress :: "bytes \<Rightarrow> int \<times> bytes" where
  "slotted_page_compress p =
     (if slotted_page_is_compressed p then (0, p)
      else
        let data_start = free_space_end p;
            data_size = page_data_size p
        in if data_size < 512 then (0, p)
           else
             let compressed = compress_lz4 (window data_start data_size p) PAGE_SIZE_SE
             in if length compressed > 0 \<and> length compressed < data_size - 64
                then (1, set_flags (word_of_nat (page_flags p) OR 1) (blit data_start compressed p))
                else (0, p))"

definition slotted_page_decompress :: "bytes \<Rightarrow> bytes \<Rightarrow> int \<times> bytes" where
  "slotted_page_decompress buf p =
     (if \<not> slotted_page_is_compressed p then (0, p)
      else
        let data_start = free_space_end p;
            data_size = page_data_size p;
            decompressed = decompress_lz4 (window data_start data_size p) PAGE_SIZE_SE buf
        in if length decompressed > 0
           then (1, set_flags (word_of_nat (page_flags p) AND NOT 1) (blit data_start decompressed p))
           else (-1, p))"

lemma set_clear_flag: "w AND 1 = 0 \<Longrightarrow> (w OR 1) AND NOT 1 = (w :: u16)" "(w OR 1) AND 1 \<noteq> (0 :: u16)"
proof -
  assume "w AND 1 = 0"
  moreover have "w = (w AND 1) OR (w AND NOT 1)" by (simp add: bit.conj_disj_distrib [symmetric])
  ultimately have "w AND NOT 1 = w" by simp
  then show "(w OR 1) AND NOT 1 = w" by (simp add: bit.conj_disj_distrib2)
next
  show "(w OR 1) AND 1 \<noteq> (0 :: u16)" by (simp add: bit.conj_disj_distrib2)
qed

lemma set_flags_fields:
  assumes "length p = SIZEOF_SLOTTED_PAGE"
  shows "page_flags (set_flags w p) = unat w" "free_space_end (set_flags w p) = free_space_end p"
    "12 \<le> off \<Longrightarrow> window off n (set_flags w p) = window off n p"
proof -
  have "unat w < 65536" using unsigned_less [where 'a = nat and w = w] by simp
  then show "page_flags (set_flags w p) = unat w" using assms by (simp add: page_flags_def set_flags_def get16_set16_same)
  show "free_space_end (set_flags w p) = free_space_end p"
    using assms by (simp add: free_space_end_def set_flags_def get16_set16_other)
  show "12 \<le> off \<Longrightarrow> window off n (set_flags w p) = window off n p"
    using assms by (simp add: set_flags_def window_set16_other)
qed

lemma free_space_end_blit:
  "10 \<le> off \<Longrightarrow> off + length bs \<le> length p \<Longrightarrow> free_space_end (blit off bs p) = free_space_end p"
  by (simp add: free_space_end_def get16_blit_other)

lemma blit_blit_cover: "length as \<le> length bs \<Longrightarrow> off + length bs \<le> length p \<Longrightarrow> blit off bs (blit off as p) = blit off bs p"
  by (simp add: blit_def add.commute)

lemma window_blit_prefix:
  "length bs \<le> n \<Longrightarrow> off + n \<le> length p \<Longrightarrow> window off n (blit off bs p) = bs @ drop (length bs) (window off n p)"
  by (simp add: window_def blit_def drop_take add.commute)

lemma blit_window: "off + n \<le> length p \<Longrightarrow> blit off (window off n p) p = p"
  by (simp add: blit_def window_def min_def) (metis append_take_drop_id drop_drop add.commute)

lemma set16_blit_swap:
  assumes "o1 + 2 \<le> o2" and "o2 + length bs \<le> length p"
  shows "blit o2 bs (set16 o1 v p) = set16 o1 v (blit o2 bs p)"
proof (rule nth_equalityI)
  show "length (blit o2 bs (set16 o1 v p)) = length (set16 o1 v (blit o2 bs p))" using assms by simp
  fix i assume "i < length (blit o2 bs (set16 o1 v p))"
  then have "i < length p" using assms by simp
  then show "blit o2 bs (set16 o1 v p) ! i = set16 o1 v (blit o2 bs p) ! i"
    using assms by (simp add: set16_def nth_blit)
qed

lemma set16_set16: "o1 + 2 \<le> length p \<Longrightarrow> set16 o1 v (set16 o1 u p) = set16 o1 v p"
  by (simp add: set16_def blit_blit_cover)

lemma set16_get16: "o1 + 2 \<le> length p \<Longrightarrow> set16 o1 (get16 o1 p) p = p"
proof -
  assume a: "o1 + 2 \<le> length p"
  have "le_encode (length (window o1 2 p)) (le_decode (window o1 2 p)) = window o1 2 p" by (rule le_encode_decode)
  moreover have "length (window o1 2 p) = 2" using a by simp
  ultimately have "le_encode 2 (get16 o1 p) = window o1 2 p" by (simp add: get16_def)
  then show ?thesis using a by (simp add: set16_def blit_window)
qed

section \<open>Properties\<close>

text \<open>Run-length round trip. What \<open>compress_rle\<close> writes, whatever the capacity of its buffer (at
  least 4), \<open>decompress_rle\<close> expands to a prefix of the input, and to exactly the input when the
  capacity is 4 plus twice its length. A smaller buffer can lose the end of the data: the compressor
  stops early without an error.\<close>

theorem rle_roundtrip:
  assumes "src \<noteq> []" and "length src < 4294967296" and "cap \<ge> 4" and "length src \<le> cap2"
  shows "\<exists>k. decompress_rle (compress_rle src cap) cap2 = take k src \<and>
    (4 + 2 * length src \<le> cap \<longrightarrow> decompress_rle (compress_rle src cap) cap2 = src)"
proof -
  have "le_decode (le_encode 4 (length src)) = length src" using assms(2) by (simp add: le_decode_encode)
  then have "decompress_rle (compress_rle src cap) cap2 = unrle_loop (length src) (rle_loop cap 4 src) []"
    using assms by (simp add: compress_rle_def decompress_rle_def)
  moreover obtain k where "unrle_loop (length src) (rle_loop cap 4 src) [] = [] @ take k src"
    "4 + 2 * length src \<le> cap \<longrightarrow> k = length src"
    using unrle_rle [of "[]" src "length src" cap 4] by auto
  ultimately show ?thesis by (intro exI [of _ k]) auto
qed

theorem rle_roundtrip_witness:
  "decompress_rle (compress_rle [7, 7, 7, 1] 12) 4 = [7, 7, 7, 1]"
  using rle_roundtrip [of "[7, 7, 7, 1]" 12 4] by auto

text \<open>A page that \<open>slotted_page_compress\<close> has compressed, \<open>slotted_page_decompress\<close> restores bit for
  bit, unless the encoder met a match of exactly 15 bytes. The compressor never accepts an output cut
  off at the end of its buffer, and the decoder stops in time although it is given the old bytes
  behind the compressed data too.\<close>

theorem slotted_page_compress_roundtrip:
  assumes wf: "page_wf p" and c: "slotted_page_compress p = (1, q)"
    and no15: "no_match_of_15 (window (free_space_end p) (PAGE_SIZE_SE - free_space_end p) p)"
  shows "slotted_page_decompress buf q = (1, p)"
proof -
  note D = page_wfD [OF wf]
  let ?s = "free_space_end p" and ?f = "word_of_nat (page_flags p) :: u16"
  let ?n = "4096 - ?s"
  let ?src = "window ?s ?n p"
  let ?c = "le_encode 4 (length ?src) @ lz4_loop ?src 4096 0 4"
  have size: "page_data_size p = ?n" using D(4) by (simp add: page_data_size_def)
  have len: "length ?src = ?n" using D(1,4) by simp
  have un: "\<not> slotted_page_is_compressed p" and n: "512 \<le> ?n"
    using c size by (auto simp: slotted_page_compress_def Let_def split: if_splits)
  have "0 < length ?src" using len n by linarith
  then have ne: "?src \<noteq> []" by (rule length_greater_0_conv [THEN iffD1])
  have comp: "compress_lz4 ?src 4096 = ?c" using ne by (simp add: compress_lz4_def)
  have lc: "length ?c < ?n - 64" and q: "q = set_flags (?f OR 1) (blit ?s ?c p)"
    using c un n by (auto simp: slotted_page_compress_def Let_def size comp split: if_splits)
  let ?b = "blit ?s ?c p"
  have s20: "20 \<le> ?s" using D(3) by simp
  have lb: "length ?b = 5120" using lc D(1,4) by simp
  note F = set_flags_fields [OF lb, where w = "?f OR 1"]
  have cnt: "free_space_end q = ?s"
    using F(2) free_space_end_blit [of ?s ?c p] lc s20 D(1,4) unfolding q by simp
  have flags: "page_flags q = unat (?f OR 1)" unfolding q by (rule F(1))
  have win: "window ?s ?n q = ?c @ drop (length ?c) ?src"
  proof -
    have "window ?s ?n q = window ?s ?n ?b" unfolding q by (rule F(3)) (use s20 in simp)
    also have "\<dots> = ?c @ drop (length ?c) ?src" by (rule window_blit_prefix) (use lc D(1,4) in auto)
    finally show ?thesis .
  qed
  have dec: "decompress_lz4 (window ?s ?n q) 4096 buf = ?src"
    unfolding win by (rule decompress_compress_lz4 [OF no15 _ _ refl]) (use lc len in simp_all)
  have size_q: "page_data_size q = ?n" using size cnt by (simp add: page_data_size_def)
  have comp_q: "slotted_page_is_compressed q" using set_clear_flag(2) by (simp add: slotted_page_is_compressed_def flags)
  have f0: "?f AND 1 = 0" using un by (simp add: slotted_page_is_compressed_def)
  have "slotted_page_decompress buf q = (1, set_flags (word_of_nat (page_flags q) AND NOT 1) (blit ?s ?src q))"
    using comp_q ne by (simp add: slotted_page_decompress_def Let_def cnt size_q dec)
  also have "word_of_nat (page_flags q) AND NOT 1 = ?f" using set_clear_flag(1) [OF f0] by (simp add: flags)
  also have "blit ?s ?src q = set16 10 (unat (?f OR 1)) (blit ?s ?src ?b)"
    unfolding q set_flags_def using s20 lb len D(4) by (intro set16_blit_swap) auto
  also have "blit ?s ?src ?b = p" using blit_blit_cover [of ?c ?src ?s p] blit_window [of ?s ?n p] lc len D(1,4) by simp
  also have "set_flags ?f (set16 10 (unat (?f OR 1)) p) = set16 10 (page_flags p) p"
    using D(1) field_bounds(1) get16_bound [of 10 p] by (simp add: set_flags_def set16_set16 unat_of_nat page_flags_def)
  also have "\<dots> = p" using set16_get16 [of 10 p] D(1) by (simp add: page_flags_def)
  finally show ?thesis .
qed

text \<open>A page of zeros: from the fourth byte on every position matches all that came before.\<close>

lemma match_length_replicate:
  "pos \<le> n \<Longrightarrow> i + k \<le> pos \<Longrightarrow> pos + k \<le> n \<Longrightarrow> k \<le> 255 \<Longrightarrow>
   match_length (replicate n c) pos i k = min (pos - i) (min (n - pos) 255)"
proof (induction "replicate n c" pos i k rule: match_length.induct)
  case (1 pos i k)
  show ?case
  proof (cases "pos + k < n \<and> i + k < pos \<and> k < 255")
    case True
    then show ?thesis using 1 match_length.simps [of "replicate n c" pos i k] by simp
  next
    case False
    then show ?thesis using 1(2-5) match_length.simps [of "replicate n c" pos i k] by auto
  qed
qed

lemma best_match_replicate:
  assumes "0 < pos" and "pos \<le> n"
  shows "best_match (replicate n c) pos =
    (let m = min (min pos 255) (n - pos) in if m \<ge> 4 then (m, min pos 255) else (0, 0))"
proof -
  let ?s = "if pos > 255 then pos - 255 else 0" and ?m = "min (min pos 255) (n - pos)"
  let ?first = "better_match (replicate n c) pos ?s (0, 0)"
  have s: "?s < pos" "pos - ?s = min pos 255" using assms by auto
  have ml: "match_length (replicate n c) pos i 0 = min (pos - i) (min (n - pos) 255)" if "i \<le> pos" for i
    using match_length_replicate [of pos n i 0 c] that assms by simp
  have first: "?first = (if ?m \<ge> 4 then (?m, min pos 255) else (0, 0))"
    using ml [of ?s] s by (auto simp: better_match_def Let_def min_def split: if_splits)
  have rest: "fold (better_match (replicate n c) pos) is best = best"
    if "\<forall>i \<in> set is. ?s < i \<and> i \<le> pos" "fst best = ?m \<or> ?m < 4" for "is" best
    using that
  proof (induction "is")
    case (Cons i "is")
    have "match_length (replicate n c) pos i 0 \<le> ?m" using ml [of i] Cons.prems(1) s by (auto simp: min_def)
    then have "better_match (replicate n c) pos i best = best" using Cons.prems(2) by (auto simp: better_match_def Let_def)
    then show ?case using Cons by simp
  qed simp
  have "[?s ..< pos] = ?s # [Suc ?s ..< pos]" using s(1) by (rule upt_conv_Cons)
  then have unfold: "best_match (replicate n c) pos = fold (better_match (replicate n c) pos) [Suc ?s ..< pos] ?first"
    unfolding best_match_def by (simp only: fold_simps)
  have "\<forall>i \<in> set [Suc ?s ..< pos]. ?s < i \<and> i \<le> pos" by auto
  moreover have "fst ?first = ?m \<or> ?m < 4" unfolding first by (cases "?m \<ge> 4") (simp_all only: if_True if_False fst_conv, auto)
  ultimately have "best_match (replicate n c) pos = ?first" unfolding unfold by (rule rest)
  then show ?thesis unfolding first Let_def .
qed

definition zero_page :: bytes where
  "zero_page = set16 18 512 (set16 16 3584 (set16 4 1 (set16 8 3584 (slotted_page_init 0))))"

lemma zero_page:
  "page_wf zero_page" "free_space_end zero_page = 3584" "window 3584 512 zero_page = replicate 512 0"
  "\<not> slotted_page_is_compressed zero_page"
proof -
  have l0: "length (slotted_page_init 0) = 5120" using page_wfD(1) [OF init_ok(1)] .
  have fields: "get16 4 zero_page = 1" "get16 8 zero_page = 3584" "get16 16 zero_page = 3584" "get16 18 zero_page = 512"
    using l0 by (simp_all add: zero_page_def get16_set16_other get16_set16_same)
  have len: "length zero_page = 5120" using l0 by (simp add: zero_page_def)
  show "free_space_end zero_page = 3584" using fields by (simp add: free_space_end_def)
  have "live_slot zero_page i \<longleftrightarrow> i = 0" for i
    using fields by (auto simp: live_slot_def slot_count_def slot_length_def)
  then show "page_wf zero_page"
    using fields len by (auto simp: page_wf_def slot_count_def free_space_end_def slot_offset_def slot_length_def)
  have "window 3584 512 zero_page = window 3584 512 (slotted_page_init 0)"
    using l0 by (simp add: zero_page_def window_set16_other)
  also have "\<dots> = window 3584 512 (replicate 5120 0)"
    by (simp add: slotted_page_init_def Let_def window_set16_other window_blit_disjoint)
  finally show "window 3584 512 zero_page = replicate 512 0" by (simp add: window_def)
  have "page_flags zero_page = page_flags (slotted_page_init 0)"
    using l0 by (simp add: page_flags_def zero_page_def get16_set16_other)
  also have "\<dots> = 2" by (simp add: page_flags_def slotted_page_init_def Let_def get16_blit_other get16_set16_same)
  finally show "\<not> slotted_page_is_compressed zero_page" by (simp add: slotted_page_is_compressed_def)
qed

theorem slotted_page_compress_roundtrip_witness:
  "\<exists>p q. slotted_page_compress p = (1, q) \<and> slotted_page_decompress [] q = (1, p)"
proof -
  let ?z = "replicate 512 0 :: bytes"
  have z: "length ?z = 512" "?z \<noteq> []" by simp_all
  have b0: "best_match ?z 0 = (0, 0)" by (simp add: best_match_def)
  note b = best_match_replicate [of _ 512 0, simplified Let_def]
  have run: "lz4_loop ?z 4096 0 4 = [0, 0, 0, 0, 0, 0, 0, 0, 0x84, 4, 0x88, 8, 0x8F, 16, 1, 0x8F, 32, 17, 0x8F, 64, 49, 0x8F, 128, 113, 0x8F, 255, 240, 0, 0]"
    by (simp add: lz4_loop.simps [of ?z] b0 b z)
  have no15: "no_match_of_15 ?z"
    by (simp add: no_match_of_15_def lz4_matches.simps [of ?z] b0 b z)
  let ?q = "set_flags (word_of_nat (page_flags zero_page) OR 1) (blit 3584 (compress_lz4 ?z 4096) zero_page)"
  have l33: "length (compress_lz4 ?z 4096) = 33" by (simp add: compress_lz4_def run z)
  then have "compress_lz4 ?z 4096 \<noteq> []" by (metis list.size(3) zero_neq_numeral)
  with l33 have c: "slotted_page_compress zero_page = (1, ?q)"
    using zero_page(2-4) by (simp add: slotted_page_compress_def page_data_size_def Let_def)
  have "no_match_of_15 (window (free_space_end zero_page) (4096 - free_space_end zero_page) zero_page)"
    using no15 zero_page(2,3) by simp
  from slotted_page_compress_roundtrip [OF zero_page(1) c this] c show ?thesis by blast
qed

section \<open>A match of fifteen bytes\<close>

lemma match_length_differ: "src ! i \<noteq> src ! pos \<Longrightarrow> match_length src pos i 0 = 0"
  by (simp add: match_length.simps)

lemma match_length_full:
  "n \<le> m \<Longrightarrow> i + m = pos \<Longrightarrow> pos + m \<le> length src \<Longrightarrow> m \<le> 255 \<Longrightarrow> \<forall>k < m. src ! (i + k) = src ! (pos + k) \<Longrightarrow>
   match_length src pos i n = m"
proof (induction rule: inc_induct)
  case base
  then show ?case by (simp add: match_length.simps [of src pos i m])
next
  case (step n)
  then show ?case by (simp add: match_length.simps [of src pos i n])
qed

lemma better_match_keeps: "match_length src pos i 0 < 4 \<Longrightarrow> better_match src pos i best = best"
  by (simp add: better_match_def Let_def)

lemma fold_better_match_keeps:
  "\<forall>i \<in> set is. match_length src pos i 0 < 4 \<Longrightarrow> fold (better_match src pos) is best = best"
  by (induction "is") (simp_all add: better_match_keeps)

text \<open>Fifteen different bytes, the same again, and one more byte: what the two loops do.\<close>

lemma repeated_15_matches:
  assumes xs: "distinct xs" "length xs = 15"
  shows "pos < 15 \<Longrightarrow> best_match (xs @ xs @ [b]) pos = (0, 0)"
    and "best_match (xs @ xs @ [b]) 15 = (15, 15)"
    and "best_match (xs @ xs @ [b]) 30 = (0, 0)"
proof -
  let ?s = "xs @ xs @ [b]"
  have low: "?s ! i = xs ! i" if "i < 15" for i using that xs by (simp add: nth_append)
  have high: "?s ! (15 + i) = xs ! i" if "i < 15" for i using that xs by (simp add: nth_append)
  have ne: "xs ! i \<noteq> xs ! j" if "i < j" "j < 15" for i j using that xs by (simp add: nth_eq_iff_index_eq)
  show "best_match ?s pos = (0, 0)" if "pos < 15"
    unfolding best_match_def using that ne [of _ pos]
    by (intro fold_better_match_keeps) (auto simp: match_length_differ low)
  show "best_match ?s 30 = (0, 0)"
    unfolding best_match_def
  proof (intro fold_better_match_keeps ballI)
    fix i assume i: "i \<in> set [(if 30 > (255 :: nat) then 30 - 255 else 0)..<30]"
    have "30 + match_length ?s 30 i 0 \<le> length ?s"
      using match_length_spec [of 30 ?s i 0, OF _ _ _ _ _ _ refl] i xs by simp
    then show "match_length ?s 30 i 0 < 4" using xs by simp
  qed
  have "match_length ?s 15 0 0 = 15"
    using xs low high by (intro match_length_full) auto
  then have first: "better_match ?s 15 0 (0, 0) = (15, 15)" by (simp add: better_match_def)
  have "?s ! 15 = xs ! 0" using high [of 0] by simp
  then have "match_length ?s 15 i 0 = 0" if "0 < i" "i < 15" for i
    using that low [of i] ne [of 0 i] by (intro match_length_differ) auto
  then have rest: "fold (better_match ?s 15) [1..<15] (15, 15) = (15, 15)"
    by (intro fold_better_match_keeps) auto
  have "[0..<15] = 0 # [1..<(15 :: nat)]" by (simp add: upt_conv_Cons)
  then show "best_match ?s 15 = (15, 15)" unfolding best_match_def using first rest by simp
qed

lemma repeated_15_encoded:
  assumes "distinct xs" "length xs = 15"
  shows "lz4_loop (xs @ xs @ [b]) 4096 0 4 = concat (map (\<lambda>x. [0, x]) xs) @ [0x8F, 15, 0, b]"
proof -
  let ?s = "xs @ xs @ [b]"
  note m = repeated_15_matches [OF assms, where b = b]
  have "lz4_loop ?s 4096 pos (4 + 2 * pos) = concat (map (\<lambda>x. [0, x]) (drop pos xs)) @ [0x8F, 15, 0, b]"
    if "pos \<le> 15" for pos
    using that
  proof (induction rule: inc_induct)
    case base
    have "?s ! 30 = b" using assms(2) by (simp add: nth_append)
    then show ?case using assms(2) m(2,3)
      by (simp add: lz4_loop.simps [of ?s 4096 15] lz4_loop.simps [of ?s 4096 30] lz4_loop.simps [of ?s 4096 31])
  next
    case (step n)
    have "drop n xs = xs ! n # drop (Suc n) xs" using step.hyps assms(2) by (simp add: Cons_nth_drop_Suc)
    moreover have "?s ! n = xs ! n" using step.hyps assms(2) by (simp add: nth_append)
    ultimately show ?case using step m(1) [where pos = n] assms(2) by (simp add: lz4_loop.simps [of ?s 4096 n])
  qed
  from this [of 0] show ?thesis by simp
qed

lemma unlz4_literals:
  "length dst + length ys \<le> n \<Longrightarrow>
   unlz4_loop n buf (concat (map (\<lambda>x. [0, x]) ys) @ rest) dst = unlz4_loop n buf rest (dst @ ys)"
  by (induction ys arbitrary: dst) simp_all

text \<open>A match of exactly 15 bytes does not survive. The encoder writes a length byte only above 15,
  the decoder reads one from 15 on. For any 15 different bytes followed by themselves and any byte
  \<open>b\<close>, decoding what was encoded gives the 30 bytes without \<open>b\<close>.\<close>

theorem lz4_match_of_15_is_lost:
  assumes "distinct xs" and "length xs = 15"
  shows "decompress_lz4 (compress_lz4 (xs @ xs @ [b]) 4096) 4096 buf = xs @ xs"
proof -
  let ?s = "xs @ xs @ [b]"
  have "unlz4_loop 31 buf [0x8F, 15, 0, b] xs = unlz4_loop 31 buf [b] (unlz4_copy 31 buf 15 15 xs)"
    using unlz4_long_match [of xs 31 "0x8F" buf 15 0 "[b]"] assms by simp
  moreover have "unlz4_copy (length ?s) buf 15 15 (take 15 ?s) = take (15 + 15) ?s"
    by (rule unlz4_copy_match [where m = 15 and ?pos0.0 = 15]) (use assms in \<open>auto simp: nth_append\<close>)
  ultimately have "unlz4_loop 31 buf [0x8F, 15, 0, b] xs = xs @ xs" using assms by simp
  then have "unlz4_loop 31 buf (lz4_loop ?s 4096 0 4) [] = xs @ xs"
    using repeated_15_encoded [OF assms, of b] unlz4_literals [of "[]" xs 31] assms by simp
  moreover have "le_decode (le_encode 4 31) = 31" by (rule le_decode_encode) simp
  ultimately show ?thesis using assms
    by (simp add: compress_lz4_def decompress_lz4_def)
qed

theorem lz4_match_of_15_is_lost_witness:
  "let xs = [65, 66, 67, 68, 69, 70, 71, 72, 73, 74, 75, 76, 77, 78, 79]
   in decompress_lz4 (compress_lz4 (xs @ xs @ [80]) 4096) 4096 [] = xs @ xs"
  unfolding Let_def by (rule lz4_match_of_15_is_lost) simp_all

end
