(* ===== verification/Crc32.thy ===== *)
theory Crc32
  imports Prelude
begin

text \<open>
  The CRC-32 of \<open>src/storage_engine.c\<close> (lines 25 to 45): the table the code builds once, the loop over
  the data that uses it, and the bit-at-a-time definition of the checksum it stands for.
\<close>

section \<open>The code\<close>

definition crc_step :: "u32 \<Rightarrow> u32" where
  "crc_step crc = drop_bit 1 crc XOR (if crc AND 1 \<noteq> 0 then 0xEDB88320 else 0)"

definition init_crc32_table :: "u32 list" where
  "init_crc32_table = map (\<lambda>i. (crc_step ^^ 8) (word_of_nat i)) [0..<256]"

definition compute_crc32 :: "bytes \<Rightarrow> u32" where
  "compute_crc32 bs =
     foldl (\<lambda>crc b. drop_bit 8 crc XOR init_crc32_table ! unat ((crc XOR ucast b) AND 0xFF)) 0xFFFFFFFF bs
       XOR 0xFFFFFFFF"

section \<open>Bit at a time\<close>

definition crc32_byte :: "u32 \<Rightarrow> byte \<Rightarrow> u32" where
  "crc32_byte crc b = (crc_step ^^ 8) (crc XOR ucast b)"

definition crc32_bitwise :: "bytes \<Rightarrow> u32" where
  "crc32_bitwise bs = foldl crc32_byte 0xFFFFFFFF bs XOR 0xFFFFFFFF"

lemma and_one_bit: "(x :: u32) AND 1 \<noteq> 0 \<longleftrightarrow> bit x 0"
  by (simp add: and_one_eq odd_iff_mod_2_eq_one bit_0)

lemma crc_step_xor: "crc_step (x XOR y) = crc_step x XOR crc_step y"
  unfolding crc_step_def and_one_bit
  by (rule bit_word_eqI) (auto simp: bit_simps)

lemma funpow_crc_step_xor: "(crc_step ^^ n) (x XOR y) = (crc_step ^^ n) x XOR (crc_step ^^ n) y"
  by (induction n) (simp_all add: crc_step_xor)

text \<open>Zero low bits are shifted out.\<close>

lemma funpow_crc_step_shift: "(\<And>i. i < n \<Longrightarrow> \<not> bit x i) \<Longrightarrow> (crc_step ^^ n) x = drop_bit n x"
proof (induction n)
  case (Suc n)
  have low: "\<not> bit (drop_bit n x) 0" using Suc.prems [of n] by (simp add: bit_drop_bit_eq)
  have "(crc_step ^^ Suc n) x = crc_step (drop_bit n x)" using Suc by simp
  also have "\<dots> = drop_bit 1 (drop_bit n x)" using low by (simp add: crc_step_def and_one_bit)
  finally show ?case by (simp add: drop_bit_drop_bit)
qed simp

lemma crc_byte_split: "(crc_step ^^ 8) x = drop_bit 8 x XOR (crc_step ^^ 8) (x AND 0xFF)"
proof -
  have mask: "bit (0xFF :: u32) i \<longleftrightarrow> i < 8" for i
    using bit_mask_iff [where 'a = "u32", of 8 i] by (auto simp: mask_eq_exp_minus_1)
  define hi where "hi = x AND NOT 0xFF"
  have x: "x = hi XOR (x AND 0xFF)"
    unfolding hi_def by (rule bit_word_eqI) (auto simp: bit_simps)
  have "(crc_step ^^ 8) hi = drop_bit 8 hi"
    by (rule funpow_crc_step_shift) (simp only: hi_def bit_and_iff bit_not_iff mask, simp)
  also have "\<dots> = drop_bit 8 x"
    unfolding hi_def
    by (rule bit_word_eqI) (simp only: bit_drop_bit_eq bit_and_iff bit_not_iff mask o_def, auto dest: bit_imp_le_length)
  finally show ?thesis by (subst x) (simp only: funpow_crc_step_xor)
qed

lemma crc_table_nth: "(x :: u32) AND 0xFF = y \<Longrightarrow> init_crc32_table ! unat y = (crc_step ^^ 8) y"
proof -
  assume y: "x AND 0xFF = y"
  have "y = x mod 256" unfolding y [symmetric] using take_bit_eq_mask [of 8 x] take_bit_eq_mod [of 8 x]
    by (simp add: mask_eq_exp_minus_1)
  then have "unat y < 256" by (simp add: unat_mod_distrib)
  then show ?thesis by (simp add: init_crc32_table_def)
qed

lemma crc_loop_step:
  "drop_bit 8 crc XOR init_crc32_table ! unat ((crc XOR ucast b) AND 0xFF) = crc32_byte crc b"
proof -
  have "drop_bit 8 (crc XOR ucast b) = drop_bit 8 crc"
    by (rule bit_word_eqI) (auto simp: bit_simps bit_imp_le_length dest: bit_imp_le_length)
  then show ?thesis by (simp only: crc32_byte_def crc_table_nth [OF refl] crc_byte_split [of "crc XOR ucast b"])
qed

lemma crc32_eq_bitwise: "compute_crc32 bs = crc32_bitwise bs"
  by (simp only: compute_crc32_def crc32_bitwise_def crc_loop_step)

section \<open>Damage\<close>

lemma xor_cancel_left: "(x :: u32) XOR y = x XOR z \<longleftrightarrow> y = z"
  by (metis xor.left_neutral xor.assoc xor_self_eq)

lemma xor_cancel_right: "(y :: u32) XOR x = z XOR x \<longleftrightarrow> y = z"
  by (simp add: xor.commute [of _ x] xor_cancel_left)

lemma ucast_byte_inject: "(ucast (b :: byte) :: u32) = ucast b' \<longleftrightarrow> b = b'"
proof
  assume e: "(ucast b :: u32) = ucast b'"
  have "ucast (ucast c :: u32) = c" for c :: byte
    by (rule bit_word_eqI) (simp add: bit_simps)
  then show "b = b'" using e by metis
qed simp

lemma inj_crc_step: "inj crc_step"
proof (rule injI)
  fix x y :: u32 assume e: "crc_step x = crc_step y"
  have top: "bit (crc_step z) 31 \<longleftrightarrow> bit z 0" for z
    using bit_imp_le_length [of z 32] by (auto simp: crc_step_def and_one_bit bit_simps)
  have low: "bit x 0 = bit y 0" using top [of x] top [of y] e by simp
  then have "drop_bit 1 x = drop_bit 1 y" using e
    by (simp add: crc_step_def and_one_bit xor_cancel_right split: if_splits)
  then have "bit (drop_bit 1 x) i = bit (drop_bit 1 y) i" for i by simp
  then have "bit x (Suc i) = bit y (Suc i)" for i by (simp only: bit_drop_bit_eq o_def plus_1_eq_Suc)
  then have "bit x i = bit y i" for i using low by (cases i) simp_all
  then show "x = y" by (rule bit_eqI)
qed

lemma inj_crc_steps: "inj (crc_step ^^ n)"
  by (induction n) (simp_all add: inj_def inj_eq [OF inj_crc_step])

lemma crc32_byte_inject:
  "crc32_byte c b = crc32_byte c b' \<longleftrightarrow> b = b'"
  "crc32_byte c b = crc32_byte c' b \<longleftrightarrow> c = c'"
  by (simp_all add: crc32_byte_def inj_eq [OF inj_crc_steps] xor_cancel_left xor_cancel_right ucast_byte_inject)

text \<open>Up to four bytes enter the register as one integer.\<close>

lemma xor_low_byte:
  fixes b :: byte and w :: u32
  shows "(ucast b :: u32) XOR push_bit 8 w = ucast b + push_bit 8 w"
proof -
  have "\<not> bit b n" if "8 \<le> n" for n using bit_imp_le_length [of b n] that by auto
  then have "(ucast b :: u32) AND push_bit 8 w = 0"
    by (intro bit_word_eqI) (auto simp: bit_simps)
  then show ?thesis by (simp add: disjunctive_xor_eq_or disjunctive_add_eq_or disjunctive_add_eq_xor)
qed

lemma crc32_bytes:
  "length bs \<le> 4 \<Longrightarrow> foldl crc32_byte c bs = (crc_step ^^ (8 * length bs)) (c XOR word_of_nat (le_decode bs))"
proof (induction bs arbitrary: c)
  case (Cons b bs)
  let ?w = "word_of_nat (le_decode bs) :: u32"
  have "le_decode bs < 256 ^ length bs" by (rule le_decode_bound)
  also have "\<dots> \<le> 256 ^ 3" by (rule power_increasing) (use Cons.prems in simp_all)
  finally have small: "le_decode bs < 16777216" by simp
  have "n < 24" if "bit (le_decode bs) n" for n
    using that small bit_take_bit_iff [of 24 "le_decode bs" n] by (simp add: take_bit_nat_eq_self)
  then have "drop_bit 8 (push_bit 8 ?w) = ?w"
    by (intro bit_word_eqI) (auto simp: bit_simps)
  moreover have "(crc_step ^^ 8) (push_bit 8 ?w) = drop_bit 8 (push_bit 8 ?w)"
    by (rule funpow_crc_step_shift) (simp add: bit_simps)
  ultimately have w: "?w = (crc_step ^^ 8) (push_bit 8 ?w)" by simp
  have all: "ucast b XOR push_bit 8 ?w = word_of_nat (le_decode (b # bs))"
    unfolding xor_low_byte by (simp add: push_bit_eq_mult mult.commute)
  have "crc32_byte c b XOR ?w = (crc_step ^^ 8) (c XOR word_of_nat (le_decode (b # bs)))"
    by (subst w) (simp only: crc32_byte_def funpow_crc_step_xor [symmetric] xor.assoc all)
  then have "foldl crc32_byte c (b # bs) =
      (crc_step ^^ (8 * length bs + 8)) (c XOR word_of_nat (le_decode (b # bs)))"
    using Cons.IH [of "crc32_byte c b"] Cons.prems by (simp add: funpow_add del: le_decode.simps)
  then show ?case by (simp only: length_Cons mult_Suc_right add.commute)
qed simp

lemma crc32_bytes_inject:
  assumes "length bs = length bs'" and "length bs \<le> 4"
  shows "foldl crc32_byte c bs = foldl crc32_byte c bs' \<longleftrightarrow> bs = bs'"
proof -
  have small: "le_decode xs < 4294967296" if "length xs \<le> 4" for xs
    using le_decode_bound [of xs] power_increasing [OF that, of "256 :: nat"] by simp
  have "le_decode bs = le_decode bs' \<longleftrightarrow> bs = bs'"
    by (metis assms(1) le_encode_decode)
  moreover have "(word_of_nat (le_decode bs) :: u32) = word_of_nat (le_decode bs') \<longleftrightarrow> le_decode bs = le_decode bs'"
    using small [of bs] small [of bs'] assms by (simp add: word_of_nat_eq_iff take_bit_nat_eq_self)
  ultimately show ?thesis
    using crc32_bytes [OF assms(2), of c] crc32_bytes [of bs' c] assms
    by (simp add: inj_eq [OF inj_crc_steps] xor_cancel_left)
qed

lemma crc32_rest_inject: "foldl crc32_byte c bs = foldl crc32_byte c' bs \<longleftrightarrow> c = c'"
  by (induction bs arbitrary: c c') (simp_all add: crc32_byte_inject)

text \<open>The table-driven loop computes the CRC-32 of the reflected polynomial 0xEDB88320, one bit at a
  time, for every input.\<close>

theorem crc32_table_is_bitwise: "compute_crc32 bs = crc32_bitwise bs"
  by (rule crc32_eq_bitwise)

text \<open>The checksum notices every damage confined to four consecutive bytes: two inputs that agree
  before and after a stretch of up to four bytes have the same checksum only if they are equal.\<close>

theorem crc32_detects_damage:
  assumes "length bs = length bs'" and "length bs \<le> 4" and "bs \<noteq> bs'"
  shows "compute_crc32 (pre @ bs @ post) \<noteq> compute_crc32 (pre @ bs' @ post)"
  using crc32_bytes_inject [OF assms(1,2)] assms(3)
  by (simp add: crc32_eq_bitwise crc32_bitwise_def xor_cancel_right crc32_rest_inject)

theorem crc32_detects_damage_witness:
  "compute_crc32 ([1] @ [2, 3] @ [4]) \<noteq> compute_crc32 ([1] @ [2, 7] @ [4])"
  by (rule crc32_detects_damage) simp_all

end
