(* ===== verification/MemTable.thy ===== *)
theory MemTable
  imports CStrings
begin

text \<open>
  The in-memory table of the LSM tree (\<open>src/storage_engine.c\<close>, lines 619 to 795): an AVL tree of
  entries ordered by \<open>strcmp\<close> of their keys, with the height stored in each node. \<open>now\<close> is what
  \<open>time(NULL)\<close> returns. The rotations dereference a child that the invariant guarantees; on a tree
  without it they are left as the identity.
\<close>

section \<open>Data\<close>

record lsm_entry =
  lsm_key :: string
  lsm_value :: bytes
  lsm_timestamp :: nat
  lsm_deleted :: bool

datatype mem_node = MNull | MNode lsm_entry mem_node mem_node int

record memtable =
  mt_root :: mem_node
  mt_size :: nat
  mt_count :: nat

abbreviation SIZEOF_LSM_ENTRY :: nat where "SIZEOF_LSM_ENTRY \<equiv> 40"

section \<open>Rotations\<close>

fun avl_height :: "mem_node \<Rightarrow> int" where
  "avl_height MNull = 0"
| "avl_height (MNode e l r h) = h"

fun avl_balance :: "mem_node \<Rightarrow> int" where
  "avl_balance MNull = 0"
| "avl_balance (MNode e l r h) = avl_height l - avl_height r"

text \<open>The expression the code repeats wherever a child has changed.\<close>

definition with_height :: "lsm_entry \<Rightarrow> mem_node \<Rightarrow> mem_node \<Rightarrow> mem_node" where
  "with_height e l r = MNode e l r (1 + (if avl_height l > avl_height r then avl_height l else avl_height r))"

fun avl_rotate_right :: "mem_node \<Rightarrow> mem_node" where
  "avl_rotate_right (MNode ey (MNode ex xl t2 hx) r hy) = with_height ex xl (with_height ey t2 r)"
| "avl_rotate_right t = t"

fun avl_rotate_left :: "mem_node \<Rightarrow> mem_node" where
  "avl_rotate_left (MNode ex l (MNode ey t2 yr hy) hx) = with_height ey (with_height ex l t2) yr"
| "avl_rotate_left t = t"

fun node_key :: "mem_node \<Rightarrow> string" where
  "node_key MNull = []"
| "node_key (MNode e l r h) = lsm_key e"

section \<open>Operations\<close>

definition memtable_node_create :: "nat \<Rightarrow> string \<Rightarrow> bytes \<Rightarrow> bool \<Rightarrow> mem_node" where
  "memtable_node_create now key val del =
     MNode \<lparr>lsm_key = key, lsm_value = val, lsm_timestamp = now, lsm_deleted = del\<rparr> MNull MNull 1"

text \<open>The four cases after the height of a node has been updated. The keys of the children are read
  only when the balance says that the child exists.\<close>

definition rebalance :: "string \<Rightarrow> lsm_entry \<Rightarrow> mem_node \<Rightarrow> mem_node \<Rightarrow> mem_node" where
  "rebalance key e l r =
     (let node = with_height e l r;
          balance = avl_balance node
      in if balance > 1 \<and> strcmp key (node_key l) < 0 then avl_rotate_right node
         else if balance < -1 \<and> strcmp key (node_key r) > 0 then avl_rotate_left node
         else if balance > 1 \<and> strcmp key (node_key l) > 0
         then (case node of MNode e l r h \<Rightarrow> avl_rotate_right (MNode e (avl_rotate_left l) r h) | MNull \<Rightarrow> node)
         else if balance < -1 \<and> strcmp key (node_key r) < 0
         then (case node of MNode e l r h \<Rightarrow> avl_rotate_left (MNode e l (avl_rotate_right r) h) | MNull \<Rightarrow> node)
         else node)"

fun memtable_insert_node :: "nat \<Rightarrow> string \<Rightarrow> bytes \<Rightarrow> bool \<Rightarrow> mem_node \<Rightarrow> mem_node" where
  "memtable_insert_node now key val del MNull = memtable_node_create now key val del"
| "memtable_insert_node now key val del (MNode e l r h) =
     (let cmp = strcmp key (lsm_key e)
      in if cmp < 0 then rebalance key e (memtable_insert_node now key val del l) r
         else if cmp > 0 then rebalance key e l (memtable_insert_node now key val del r)
         else MNode (e\<lparr>lsm_value := val, lsm_timestamp := now, lsm_deleted := del\<rparr>) l r h)"

fun memtable_find_node :: "mem_node \<Rightarrow> string \<Rightarrow> lsm_entry option" where
  "memtable_find_node MNull key = None"
| "memtable_find_node (MNode e l r h) key =
     (let cmp = strcmp key (lsm_key e)
      in if cmp < 0 then memtable_find_node l key
         else if cmp > 0 then memtable_find_node r key
         else Some e)"

definition memtable_create :: memtable where
  "memtable_create = \<lparr>mt_root = MNull, mt_size = 0, mt_count = 0\<rparr>"

definition memtable_put :: "nat \<Rightarrow> memtable \<Rightarrow> string \<Rightarrow> bytes \<Rightarrow> memtable" where
  "memtable_put now mt key val =
     mt\<lparr>mt_root := memtable_insert_node now key val False (mt_root mt),
        mt_size := mt_size mt + length val + length key + SIZEOF_LSM_ENTRY,
        mt_count := mt_count mt + 1\<rparr>"

definition memtable_get :: "memtable \<Rightarrow> string \<Rightarrow> lsm_entry option" where
  "memtable_get mt key = memtable_find_node (mt_root mt) key"

text \<open>A tombstone; neither the size nor the count is updated.\<close>

definition memtable_delete :: "nat \<Rightarrow> memtable \<Rightarrow> string \<Rightarrow> memtable" where
  "memtable_delete now mt key = mt\<lparr>mt_root := memtable_insert_node now key [0] True (mt_root mt)\<rparr>"

section \<open>Sorted lists of entries\<close>

fun inorder :: "mem_node \<Rightarrow> lsm_entry list" where
  "inorder MNull = []"
| "inorder (MNode e l r h) = inorder l @ e # inorder r"

definition sorted_entries :: "lsm_entry list \<Rightarrow> bool" where
  "sorted_entries es \<longleftrightarrow> sorted_wrt (\<lambda>a b. lsm_key a < lsm_key b) es"

definition lookup_entry :: "string \<Rightarrow> lsm_entry list \<Rightarrow> lsm_entry option" where
  "lookup_entry key es = List.find (\<lambda>e. lsm_key e = key) es"

fun upd_entry :: "lsm_entry \<Rightarrow> lsm_entry list \<Rightarrow> lsm_entry list" where
  "upd_entry e [] = [e]"
| "upd_entry e (x # xs) =
     (if lsm_key e < lsm_key x then e # x # xs
      else if lsm_key x < lsm_key e then x # upd_entry e xs
      else e # xs)"

lemma sorted_entries_simps [simp]:
  "sorted_entries []"
  "sorted_entries (x # xs) \<longleftrightarrow> (\<forall>y \<in> set xs. lsm_key x < lsm_key y) \<and> sorted_entries xs"
  "sorted_entries (xs @ ys) \<longleftrightarrow> sorted_entries xs \<and> sorted_entries ys \<and> (\<forall>x \<in> set xs. \<forall>y \<in> set ys. lsm_key x < lsm_key y)"
  by (auto simp: sorted_entries_def sorted_wrt_append)

lemma upd_entry_append:
  "sorted_entries (xs @ x # ys) \<Longrightarrow> lsm_key e < lsm_key x \<Longrightarrow> upd_entry e (xs @ x # ys) = upd_entry e xs @ x # ys"
  "sorted_entries (xs @ x # ys) \<Longrightarrow> lsm_key x < lsm_key e \<Longrightarrow> upd_entry e (xs @ x # ys) = xs @ x # upd_entry e ys"
  "sorted_entries (xs @ x # ys) \<Longrightarrow> lsm_key x = lsm_key e \<Longrightarrow> upd_entry e (xs @ x # ys) = xs @ e # ys"
  by (induction xs) (auto dest: order.strict_trans)

lemma set_upd_entry: "y \<in> set (upd_entry e xs) \<Longrightarrow> y = e \<or> y \<in> set xs"
  by (induction xs) (auto split: if_splits)

lemma sorted_upd_entry: "sorted_entries xs \<Longrightarrow> sorted_entries (upd_entry e xs)"
proof (induction xs)
  case (Cons x xs)
  then show ?case using set_upd_entry [of _ e xs] by (auto dest: order.strict_trans antisym_conv3)
qed simp

lemma lookup_upd_entry:
  "sorted_entries xs \<Longrightarrow> lookup_entry k (upd_entry e xs) = (if k = lsm_key e then Some e else lookup_entry k xs)"
  by (induction xs) (auto simp: lookup_entry_def dest: antisym_conv3)

lemma lookup_entry_append:
  assumes "sorted_entries (xs @ x # ys)"
  shows "lookup_entry k (xs @ x # ys) =
    (if k < lsm_key x then lookup_entry k xs else if lsm_key x < k then lookup_entry k ys else Some x)"
proof -
  have none: "lookup_entry k zs = None" if "\<forall>z \<in> set zs. lsm_key z \<noteq> k" for zs
    using that by (simp add: lookup_entry_def find_None_iff)
  have app: "lookup_entry k (xs @ zs) = (case lookup_entry k xs of Some e \<Rightarrow> Some e | None \<Rightarrow> lookup_entry k zs)" for zs
    by (induction xs) (auto simp: lookup_entry_def)
  consider "k < lsm_key x" | "lsm_key x < k" | "k = lsm_key x" by (metis antisym_conv3)
  then show ?thesis
  proof cases
    case 1
    then have "lookup_entry k (x # ys) = None" using assms by (intro none) (auto dest: order.strict_trans)
    then show ?thesis using 1 by (auto simp: app split: option.splits)
  next
    case 2
    then have "lookup_entry k xs = None" using assms by (intro none) (auto dest: order.strict_trans)
    moreover have "lookup_entry k (x # ys) = lookup_entry k ys" using 2 by (auto simp: lookup_entry_def)
    moreover have "\<not> k < lsm_key x" using 2 by auto
    ultimately show ?thesis using 2 by (simp add: app)
  next
    case 3
    then have "lookup_entry k xs = None" using assms by (intro none) auto
    moreover have "lookup_entry k (x # ys) = Some x" using 3 by (simp add: lookup_entry_def)
    ultimately show ?thesis unfolding app using 3 by simp
  qed
qed

section \<open>The tree as a sorted list\<close>

lemma inorder_with_height [simp]: "inorder (with_height e l r) = inorder l @ e # inorder r"
  by (simp add: with_height_def)

lemma inorder_rotate [simp]: "inorder (avl_rotate_right t) = inorder t" "inorder (avl_rotate_left t) = inorder t"
  by (cases t rule: avl_rotate_right.cases; simp) (cases t rule: avl_rotate_left.cases; simp)

lemma inorder_rebalance: "inorder (rebalance key e l r) = inorder l @ e # inorder r"
  by (simp add: rebalance_def Let_def with_height_def)

lemma inorder_insert:
  "sorted_entries (inorder t) \<Longrightarrow> inorder (memtable_insert_node now key val del t) =
     upd_entry \<lparr>lsm_key = key, lsm_value = val, lsm_timestamp = now, lsm_deleted = del\<rparr> (inorder t)"
proof (induction t)
  case (MNode e l r h)
  consider "key < lsm_key e" | "lsm_key e < key" | "key = lsm_key e" by (metis antisym_conv3)
  then show ?case
    by cases (use MNode in \<open>auto simp: Let_def inorder_rebalance upd_entry_append\<close>)
qed (simp add: memtable_node_create_def)

lemma find_node_lookup: "sorted_entries (inorder t) \<Longrightarrow> memtable_find_node t k = lookup_entry k (inorder t)"
  by (induction t) (simp_all add: lookup_entry_append Let_def, simp add: lookup_entry_def)

section \<open>Balance\<close>

fun avl :: "mem_node \<Rightarrow> bool" where
  "avl MNull = True"
| "avl (MNode e l r h) \<longleftrightarrow> h = 1 + max (avl_height l) (avl_height r) \<and>
     \<bar>avl_height l - avl_height r\<bar> \<le> 1 \<and> avl l \<and> avl r"

lemma avl_height_nonneg: "avl t \<Longrightarrow> 0 \<le> avl_height t \<and> (avl_height t = 0 \<longleftrightarrow> t = MNull)"
  by (induction t) auto

lemma avl_with_height: "avl l \<Longrightarrow> avl r \<Longrightarrow> \<bar>avl_height l - avl_height r\<bar> \<le> 1 \<Longrightarrow> avl (with_height e l r)"
  by (simp add: with_height_def max_def)

lemma height_with_height [simp]: "avl_height (with_height e l r) = 1 + max (avl_height l) (avl_height r)"
  by (simp add: with_height_def max_def)

text \<open>The side of the root an insertion made higher.\<close>

definition leans :: "string \<Rightarrow> mem_node \<Rightarrow> bool" where
  "leans key t \<longleftrightarrow> (\<exists>e a b h. t = MNode e a b h \<and>
     (key < lsm_key e \<and> avl_height a = avl_height b + 1 \<or> lsm_key e < key \<and> avl_height b = avl_height a + 1))"

lemma rebalance_left:
  assumes "avl l'" "avl r" "avl_height l' = avl_height r + 2" "leans key l'"
  shows "avl (rebalance key e l' r) \<and> avl_height (rebalance key e l' r) = avl_height r + 2"
proof -
  obtain x a b h where l': "l' = MNode x a b h"
    and c: "key < lsm_key x \<and> avl_height a = avl_height b + 1 \<or> lsm_key x < key \<and> avl_height b = avl_height a + 1"
    using assms(4) by (auto simp: leans_def)
  have h: "h = avl_height r + 2" "h = 1 + max (avl_height a) (avl_height b)" "avl a" "avl b" using assms(1,3) l' by auto
  show ?thesis
  proof (cases "key < lsm_key x")
    case True
    then have "avl_height a = avl_height r + 1" "avl_height b = avl_height r" using c h by auto
    then show ?thesis using True h assms(2) l' by (simp add: rebalance_def Let_def with_height_def max_def)
  next
    case False
    then have k: "lsm_key x < key" "avl_height b = avl_height r + 1" "avl_height a = avl_height r" using c h by auto
    then have "b \<noteq> MNull" using avl_height_nonneg [OF assms(2)] by auto
    then obtain y b1 b2 hb where b: "b = MNode y b1 b2 hb" by (cases b) auto
    then have "hb = 1 + max (avl_height b1) (avl_height b2)" "\<bar>avl_height b1 - avl_height b2\<bar> \<le> 1" "avl b1" "avl b2"
      using h(4) by auto
    moreover have "\<not> key < lsm_key x" using k(1) by auto
    ultimately show ?thesis using k h assms(2) l' b
      by (auto simp: rebalance_def Let_def with_height_def max_def split: if_splits)
  qed
qed

lemma rebalance_right:
  assumes "avl l" "avl r'" "avl_height r' = avl_height l + 2" "leans key r'"
  shows "avl (rebalance key e l r') \<and> avl_height (rebalance key e l r') = avl_height l + 2"
proof -
  obtain x a b h where r': "r' = MNode x a b h"
    and c: "key < lsm_key x \<and> avl_height a = avl_height b + 1 \<or> lsm_key x < key \<and> avl_height b = avl_height a + 1"
    using assms(4) by (auto simp: leans_def)
  have h: "h = avl_height l + 2" "h = 1 + max (avl_height a) (avl_height b)" "avl a" "avl b" using assms(2,3) r' by auto
  show ?thesis
  proof (cases "lsm_key x < key")
    case True
    then have "avl_height b = avl_height l + 1" "avl_height a = avl_height l" using c h by auto
    then show ?thesis using True h assms(1) r' by (simp add: rebalance_def Let_def with_height_def max_def)
  next
    case False
    then have k: "key < lsm_key x" "avl_height a = avl_height l + 1" "avl_height b = avl_height l" using c h by auto
    then have "a \<noteq> MNull" using avl_height_nonneg [OF assms(1)] by auto
    then obtain y a1 a2 ha where a: "a = MNode y a1 a2 ha" by (cases a) auto
    then have "ha = 1 + max (avl_height a1) (avl_height a2)" "\<bar>avl_height a1 - avl_height a2\<bar> \<le> 1" "avl a1" "avl a2"
      using h(3) by auto
    moreover have "\<not> lsm_key x < key" using k(1) by auto
    ultimately show ?thesis using k h assms(1) r' a
      by (auto simp: rebalance_def Let_def with_height_def max_def split: if_splits)
  qed
qed

lemma rebalance_none:
  "\<bar>avl_height l - avl_height r\<bar> \<le> 1 \<Longrightarrow> rebalance key e l r = with_height e l r"
proof -
  assume "\<bar>avl_height l - avl_height r\<bar> \<le> 1"
  moreover have "avl_balance (with_height e l r) = avl_height l - avl_height r" by (simp add: with_height_def)
  ultimately have "\<not> avl_balance (with_height e l r) > 1" "\<not> avl_balance (with_height e l r) < -1" by auto
  then show ?thesis unfolding rebalance_def Let_def by (simp only: simp_thms if_False)
qed

lemma avl_insert:
  "avl t \<Longrightarrow> avl (memtable_insert_node now key val del t) \<and>
     (avl_height (memtable_insert_node now key val del t) = avl_height t \<or>
      avl_height (memtable_insert_node now key val del t) = avl_height t + 1 \<and>
        (t = MNull \<or> leans key (memtable_insert_node now key val del t)))"
proof (induction t)
  case MNull
  show ?case by (simp add: memtable_node_create_def)
next
  case (MNode e l r h)
  let ?i = "memtable_insert_node now key val del"
  have inv: "avl l" "avl r" "h = 1 + max (avl_height l) (avl_height r)" "\<bar>avl_height l - avl_height r\<bar> \<le> 1"
    using MNode.prems by auto
  consider "key < lsm_key e" | "lsm_key e < key" | "key = lsm_key e" by (metis antisym_conv3)
  then show ?case
  proof cases
    case 1
    then have eq: "?i (MNode e l r h) = rebalance key e (?i l) r" by (simp add: Let_def)
    note IH = MNode.IH(1) [OF inv(1)]
    show ?thesis
    proof (cases "avl_height (?i l) = avl_height r + 2")
      case True
      then have "avl_height l = avl_height r + 1" "leans key (?i l)"
        using IH inv(4) avl_height_nonneg [OF inv(2)] by auto
      then show ?thesis unfolding eq using rebalance_left [of "?i l" r key e] IH inv True by auto
    next
      case False
      then have b: "\<bar>avl_height (?i l) - avl_height r\<bar> \<le> 1" using IH inv(4) by auto
      have "avl (with_height e (?i l) r)" using avl_with_height [OF _ inv(2) b] IH by blast
      moreover have "1 + max (avl_height (?i l)) (avl_height r) = h \<or>
          1 + max (avl_height (?i l)) (avl_height r) = h + 1 \<and> avl_height (?i l) = avl_height r + 1"
        using IH b unfolding inv(3) by linarith
      moreover have "leans key (with_height e (?i l) r)" if "avl_height (?i l) = avl_height r + 1"
        using that 1 unfolding leans_def with_height_def by blast
      ultimately show ?thesis unfolding eq rebalance_none [OF b] height_with_height avl_height.simps by blast
    qed
  next
    case 2
    then have eq: "?i (MNode e l r h) = rebalance key e l (?i r)" by (auto simp: Let_def)
    note IH = MNode.IH(2) [OF inv(2)]
    show ?thesis
    proof (cases "avl_height (?i r) = avl_height l + 2")
      case True
      then have "avl_height r = avl_height l + 1" "leans key (?i r)"
        using IH inv(4) avl_height_nonneg [OF inv(1)] by auto
      then show ?thesis unfolding eq using rebalance_right [of l "?i r" key e] IH inv True by auto
    next
      case False
      then have b: "\<bar>avl_height l - avl_height (?i r)\<bar> \<le> 1" using IH inv(4) by auto
      have "avl (with_height e l (?i r))" using avl_with_height [OF inv(1) _ b] IH by blast
      moreover have "1 + max (avl_height l) (avl_height (?i r)) = h \<or>
          1 + max (avl_height l) (avl_height (?i r)) = h + 1 \<and> avl_height (?i r) = avl_height l + 1"
        using IH b unfolding inv(3) by linarith
      moreover have "leans key (with_height e l (?i r))" if "avl_height (?i r) = avl_height l + 1"
        using that 2 unfolding leans_def with_height_def by blast
      ultimately show ?thesis unfolding eq rebalance_none [OF b] height_with_height avl_height.simps by blast
    qed
  next
    case 3
    then show ?thesis using inv by (simp add: Let_def)
  qed
qed

text \<open>A balanced tree of height \<open>h\<close> has at least \<open>2 ^ (h div 2) - 1\<close> entries.\<close>

lemma avl_size: "avl t \<Longrightarrow> 2 ^ (nat (avl_height t) div 2) \<le> length (inorder t) + 1"
proof (induction t)
  case (MNode e l r h)
  have inv: "avl l" "avl r" "h = 1 + max (avl_height l) (avl_height r)" "\<bar>avl_height l - avl_height r\<bar> \<le> 1"
    using MNode.prems by auto
  have n: "0 \<le> avl_height l" "0 \<le> avl_height r" using avl_height_nonneg inv by blast+
  let ?k = "nat h div 2"
  show ?case
  proof (cases "h \<ge> 2")
    case True
    have k: "?k - 1 = (nat h - 2) div 2" "0 < ?k" using True by auto
    have "?k - 1 \<le> nat (avl_height l) div 2"
      unfolding k(1) by (rule div_le_mono) (use inv(3,4) in auto)
    then have "2 ^ (?k - 1) \<le> (2 :: nat) ^ (nat (avl_height l) div 2)" by (rule power_increasing) simp
    also have "\<dots> \<le> length (inorder l) + 1" using MNode.IH(1) inv(1) by simp
    finally have L: "2 ^ (?k - 1) \<le> length (inorder l) + 1" .
    have "?k - 1 \<le> nat (avl_height r) div 2"
      unfolding k(1) by (rule div_le_mono) (use inv(3,4) in auto)
    then have "2 ^ (?k - 1) \<le> (2 :: nat) ^ (nat (avl_height r) div 2)" by (rule power_increasing) simp
    also have "\<dots> \<le> length (inorder r) + 1" using MNode.IH(2) inv(2) by simp
    finally have R: "2 ^ (?k - 1) \<le> length (inorder r) + 1" .
    have "(2 :: nat) ^ ?k = 2 * 2 ^ (?k - 1)" using k(2) by (metis Suc_diff_1 power_Suc)
    then show ?thesis using L R by simp
  next
    case False
    then have "nat h div 2 = 0" by auto
    then show ?thesis by simp
  qed
qed simp

section \<open>Properties\<close>

text \<open>What every operation maintains.\<close>

definition memtable_wf :: "memtable \<Rightarrow> bool" where
  "memtable_wf mt \<longleftrightarrow> avl (mt_root mt) \<and> sorted_entries (inorder (mt_root mt))"

lemma insert_node_wf:
  assumes "memtable_wf mt"
  shows "avl (memtable_insert_node now key val del (mt_root mt))"
    "sorted_entries (inorder (memtable_insert_node now key val del (mt_root mt)))"
    "memtable_find_node (memtable_insert_node now key val del (mt_root mt)) k =
      (if k = key then Some \<lparr>lsm_key = key, lsm_value = val, lsm_timestamp = now, lsm_deleted = del\<rparr>
       else memtable_find_node (mt_root mt) k)"
proof -
  have a: "avl (mt_root mt)" and s: "sorted_entries (inorder (mt_root mt))" using assms by (auto simp: memtable_wf_def)
  show "avl (memtable_insert_node now key val del (mt_root mt))" using avl_insert [OF a] by blast
  show s': "sorted_entries (inorder (memtable_insert_node now key val del (mt_root mt)))"
    unfolding inorder_insert [OF s] by (rule sorted_upd_entry [OF s])
  show "memtable_find_node (memtable_insert_node now key val del (mt_root mt)) k =
      (if k = key then Some \<lparr>lsm_key = key, lsm_value = val, lsm_timestamp = now, lsm_deleted = del\<rparr>
       else memtable_find_node (mt_root mt) k)"
    unfolding find_node_lookup [OF s'] find_node_lookup [OF s] unfolding inorder_insert [OF s] lookup_upd_entry [OF s] by simp
qed

lemma memtable_put_ok:
  assumes "memtable_wf mt"
  shows "memtable_wf (memtable_put now mt key val)"
    "memtable_get (memtable_put now mt key val) k =
      (if k = key then Some \<lparr>lsm_key = key, lsm_value = val, lsm_timestamp = now, lsm_deleted = False\<rparr> else memtable_get mt k)"
  using insert_node_wf [OF assms, of now key val False]
  by (simp_all add: memtable_put_def memtable_get_def memtable_wf_def)

lemma memtable_delete_ok:
  assumes "memtable_wf mt"
  shows "memtable_wf (memtable_delete now mt key)"
    "memtable_get (memtable_delete now mt key) k =
      (if k = key then Some \<lparr>lsm_key = key, lsm_value = [0], lsm_timestamp = now, lsm_deleted = True\<rparr> else memtable_get mt k)"
  using insert_node_wf [OF assms, of now key "[0]" True]
  by (simp_all add: memtable_delete_def memtable_get_def memtable_wf_def)

lemma memtable_create_ok: "memtable_wf memtable_create" "memtable_get memtable_create k = None"
  by (simp_all add: memtable_create_def memtable_wf_def memtable_get_def)

text \<open>The memtable is a search tree in balance. On a tree whose stored heights are right, whose
  siblings differ by at most one in height and whose keys are in \<open>strcmp\<close> order, an insertion keeps
  all three, although the code chooses the rotation by comparing keys and not heights; exactly the
  inserted key gets the new entry (a tombstone included) and every other key keeps its own; and a
  lookup visits at most \<open>h\<close> nodes with \<open>2 ^ (h div 2)\<close> no more than the number of entries plus one.\<close>

theorem memtable_insert_correct:
  assumes "avl t" and "sorted_entries (inorder t)"
  shows "avl (memtable_insert_node now key val del t) \<and>
    sorted_entries (inorder (memtable_insert_node now key val del t)) \<and>
    memtable_find_node (memtable_insert_node now key val del t) k =
      (if k = key then Some \<lparr>lsm_key = key, lsm_value = val, lsm_timestamp = now, lsm_deleted = del\<rparr>
       else memtable_find_node t k) \<and>
    2 ^ (nat (avl_height (memtable_insert_node now key val del t)) div 2) \<le>
      length (inorder (memtable_insert_node now key val del t)) + 1"
proof -
  have "memtable_wf \<lparr>mt_root = t, mt_size = 0, mt_count = 0\<rparr>" using assms by (simp add: memtable_wf_def)
  note W = insert_node_wf [OF this, of now key val del]
  show ?thesis using W avl_size [OF W(1)] by simp
qed

theorem memtable_insert_correct_witness:
  "let t = memtable_insert_node 5 ''b'' [2] False (memtable_insert_node 5 ''a'' [1] False MNull)
   in avl (memtable_insert_node 6 ''c'' [3] True t) \<and>
      memtable_find_node (memtable_insert_node 6 ''c'' [3] True t) ''a'' =
        Some \<lparr>lsm_key = ''a'', lsm_value = [1], lsm_timestamp = 5, lsm_deleted = False\<rparr>"
proof -
  let ?t = "memtable_insert_node 5 ''b'' [2] False (memtable_insert_node 5 ''a'' [1] False MNull)"
  have t: "?t = MNode \<lparr>lsm_key = ''a'', lsm_value = [1], lsm_timestamp = 5, lsm_deleted = False\<rparr> MNull
      (MNode \<lparr>lsm_key = ''b'', lsm_value = [2], lsm_timestamp = 5, lsm_deleted = False\<rparr> MNull MNull 1) 2"
    by (simp add: memtable_node_create_def rebalance_def Let_def with_height_def)
  have a: "avl ?t" and s: "sorted_entries (inorder ?t)" unfolding t by simp_all
  have f: "memtable_find_node ?t ''a'' = Some \<lparr>lsm_key = ''a'', lsm_value = [1], lsm_timestamp = 5, lsm_deleted = False\<rparr>"
    unfolding t by simp
  have "''a'' \<noteq> ''c''" by simp
  then show ?thesis using memtable_insert_correct [OF a s, of 6 "''c''" "[3]" True "''a''"] f by (simp only: Let_def if_False simp_thms)
qed

end
