(* ===== verification/Bloom.thy ===== *)
theory Bloom
  imports CStrings
begin

text \<open>
  The Bloom filter of \<open>src/storage_engine.c\<close> (lines 801 to 846), and as a locale what a reader of
  SSTables needs of any such filter: adding a key keeps every key that was in.
\<close>

section \<open>The interface\<close>

locale membership_filter =
  fixes valid :: "'f \<Rightarrow> bool"
    and add :: "string \<Rightarrow> 'f \<Rightarrow> 'f"
    and may :: "'f \<Rightarrow> string \<Rightarrow> bool"
  assumes valid_add: "valid f \<Longrightarrow> valid (add k f)"
    and may_added: "valid f \<Longrightarrow> may (add k f) k"
    and may_kept: "valid f \<Longrightarrow> may f k \<Longrightarrow> may (add k' f) k"
begin

lemma valid_fold: "valid f \<Longrightarrow> valid (fold add ks f)"
  by (induction ks arbitrary: f) (auto simp: valid_add)

lemma may_fold: "valid f \<Longrightarrow> may f k \<Longrightarrow> may (fold add ks f) k"
  by (induction ks arbitrary: f) (auto simp: valid_add may_kept)

lemma no_false_negative: "valid f \<Longrightarrow> k \<in> set ks \<Longrightarrow> may (fold add ks f) k"
  by (induction ks arbitrary: f) (auto simp: valid_add may_added may_fold)

end

section \<open>The code\<close>

definition bloom_hash1 :: "string \<Rightarrow> u64" where
  "bloom_hash1 key = djb2 key"

definition bloom_hash2 :: "string \<Rightarrow> u64" where
  "bloom_hash2 key =
     foldl (\<lambda>h c. word_of_int (char_int c) + push_bit 6 h + push_bit 16 h - h) 0 key"

text \<open>The bit of probe \<open>i\<close>: its byte and its position in it.\<close>

definition bloom_index :: "nat \<Rightarrow> string \<Rightarrow> nat \<Rightarrow> nat" where
  "bloom_index size_bytes key i =
     unat ((bloom_hash1 key + word_of_nat i * bloom_hash2 key) mod (word_of_nat (size_bytes * 8)))"

definition set_bit_at :: "bytes \<Rightarrow> nat \<Rightarrow> bytes" where
  "set_bit_at f idx = f[idx div 8 := f ! (idx div 8) OR push_bit (idx mod 8) 1]"

definition bit_at :: "bytes \<Rightarrow> nat \<Rightarrow> bool" where
  "bit_at f idx \<longleftrightarrow> f ! (idx div 8) AND push_bit (idx mod 8) 1 \<noteq> 0"

definition bloom_add :: "nat \<Rightarrow> string \<Rightarrow> bytes \<Rightarrow> bytes" where
  "bloom_add size_bytes key filter0 =
     foldl (\<lambda>f i. set_bit_at f (bloom_index size_bytes key i)) filter0 [0, 1, 2, 3]"

definition bloom_may_contain :: "nat \<Rightarrow> bytes \<Rightarrow> string \<Rightarrow> bool" where
  "bloom_may_contain size_bytes filter0 key =
     list_all (\<lambda>i. bit_at filter0 (bloom_index size_bytes key i)) [0, 1, 2, 3]"

section \<open>Bits stay set\<close>

lemma length_set_bit_at [simp]: "length (set_bit_at f idx) = length f"
  by (simp add: set_bit_at_def)

lemma bit_at_bit: "bit_at f idx \<longleftrightarrow> bit (f ! (idx div 8)) (idx mod 8)"
proof -
  let ?b = "f ! (idx div 8)" and ?j = "idx mod 8"
  have "?b AND push_bit ?j 1 = (if bit ?b ?j then push_bit ?j 1 else 0)"
    by (rule bit_eqI) (auto simp: bit_simps)
  moreover have "push_bit ?j (1 :: byte) \<noteq> 0"
  proof
    assume "push_bit ?j (1 :: byte) = 0"
    then have "\<not> bit (push_bit ?j (1 :: byte)) ?j" by simp
    then show False by (simp add: bit_simps)
  qed
  ultimately show ?thesis by (simp add: bit_at_def)
qed

lemma bit_at_set_same: "idx div 8 < length f \<Longrightarrow> bit_at (set_bit_at f idx) idx"
  by (simp add: bit_at_bit set_bit_at_def bit_simps)

lemma bit_at_set_other: "bit_at f j \<Longrightarrow> bit_at (set_bit_at f idx) j"
proof -
  assume a: "bit_at f j"
  show ?thesis
  proof (cases "idx div 8 = j div 8 \<and> idx div 8 < length f")
    case True
    then show ?thesis using a by (simp add: bit_at_bit set_bit_at_def bit_or_iff)
  next
    case False
    then have "set_bit_at f idx ! (j div 8) = f ! (j div 8)"
      by (cases "idx div 8 = j div 8") (simp_all add: set_bit_at_def list_update_beyond)
    then show ?thesis using a by (simp add: bit_at_bit)
  qed
qed

lemma bloom_index_less:
  assumes "0 < size_bytes" and "size_bytes < 2305843009213693952"
  shows "bloom_index size_bytes key i div 8 < size_bytes"
proof -
  let ?m = "word_of_nat (size_bytes * 8) :: u64"
  have m: "unat ?m = size_bytes * 8" using assms(2) unfolding unat_of_nat by simp
  have "bloom_index size_bytes key i < size_bytes * 8"
    using assms(1) m by (simp add: bloom_index_def unat_mod_distrib)
  then show ?thesis by (simp add: less_mult_imp_div_less)
qed

lemma length_bloom_add [simp]: "length (bloom_add n key f) = length f"
  by (simp add: bloom_add_def)

lemma bloom_add_contains:
  assumes "length f = n" and "0 < n" and "n < 2305843009213693952"
  shows "bloom_may_contain n (bloom_add n key f) key"
proof -
  have "bloom_index n key i div 8 < length f" for i using bloom_index_less [OF assms(2,3)] assms(1) by simp
  then show ?thesis
    by (simp add: bloom_may_contain_def bloom_add_def bit_at_set_same bit_at_set_other)
qed

lemma bloom_add_keeps: "bloom_may_contain n f k \<Longrightarrow> bloom_may_contain n (bloom_add n key f) k"
  by (simp add: bloom_may_contain_def bloom_add_def bit_at_set_other)

text \<open>The filter of an SSTable has 1024 bytes.\<close>

interpretation bloom: membership_filter "\<lambda>f. length f = 1024" "bloom_add 1024" "bloom_may_contain 1024"
  by unfold_locales (simp_all add: bloom_add_contains bloom_add_keeps)

end
