(* ===== verification/Lsm.thy ===== *)
theory Lsm
  imports MemTable Bloom KVLog
begin

text \<open>
  The LSM tree of \<open>src/storage_engine.c\<close> (lines 852 to 1159): puts go to a log and the memtable, a
  memtable of a megabyte is written to a new SSTable file, and a lookup asks the memtable and then the
  SSTables from the newest to the oldest. The files are a map from names to bytes; \<open>can_open\<close> says
  which \<open>fopen\<close> calls for writing succeed. A read past the end of a file that the code does not check
  is \<open>None\<close>.
\<close>

section \<open>Data\<close>

abbreviation MEMTABLE_SIZE :: nat where "MEMTABLE_SIZE \<equiv> 1048576"
abbreviation LSM_LEVEL_COUNT :: nat where "LSM_LEVEL_COUNT \<equiv> 4"

record sstable =
  sst_filename :: string
  sst_entry_count :: nat
  sst_file_size :: nat
  sst_bloom_filter :: "bytes option"
  sst_bloom_size :: nat

record lsm_tree =
  lsm_memtable :: memtable
  lsm_immutable :: "memtable option"
  lsm_levels :: "sstable list list"
  lsm_base_path :: string
  lsm_next_id :: nat
  lsm_wal_open :: bool
  lsm_disk :: "string \<Rightarrow> bytes option"

definition wal_path :: "string \<Rightarrow> string" where
  "wal_path base = take 511 (base @ ''/wal.log'')"

text \<open>\<open>snprintf\<close> into 512 bytes, then \<open>strncpy\<close> into 256.\<close>

definition sstable_name :: "string \<Rightarrow> nat \<Rightarrow> string" where
  "sstable_name base n = take 255 (take 511 (base @ ''/level0_'' @ show_nat n @ ''.sst''))"

section \<open>SSTables\<close>

definition sstable_create :: "string \<Rightarrow> sstable" where
  "sstable_create name =
     \<lparr>sst_filename = take 255 name, sst_entry_count = 0, sst_file_size = 0,
      sst_bloom_filter = Some (replicate 1024 0), sst_bloom_size = 1024\<rparr>"

definition sstable_entry_bytes :: "lsm_entry \<Rightarrow> bytes" where
  "sstable_entry_bytes e =
     le_encode 4 (length (lsm_key e)) @ bytes_of (lsm_key e) @ [if lsm_deleted e then 1 else 0] @
     le_encode 8 (length (lsm_value e)) @ lsm_value e"

fun sstable_write_node :: "mem_node \<Rightarrow> bytes \<times> sstable \<Rightarrow> bytes \<times> sstable" where
  "sstable_write_node MNull c = c"
| "sstable_write_node (MNode e l r h) c =
     (let (out, sst) = sstable_write_node l c;
          sst = sst\<lparr>sst_bloom_filter := map_option (bloom_add (sst_bloom_size sst) (lsm_key e)) (sst_bloom_filter sst),
                    sst_entry_count := sst_entry_count sst + 1\<rparr>
      in sstable_write_node r (out @ sstable_entry_bytes e, sst))"

definition sstable_write ::
    "(string \<Rightarrow> bool) \<Rightarrow> sstable \<Rightarrow> memtable \<Rightarrow> (string \<Rightarrow> bytes option) \<Rightarrow> (sstable \<times> (string \<Rightarrow> bytes option)) option" where
  "sstable_write can_open sst mt disk =
     (if \<not> can_open (sst_filename sst) then None
      else let (out, sst) = sstable_write_node (mt_root mt) ([], sst)
           in Some (sst\<lparr>sst_file_size := length out\<rparr>, disk(sst_filename sst \<mapsto> out)))"

text \<open>The loop of \<open>sstable_get\<close>: \<open>Some None\<close> when the file ends, the value and its tombstone flag when
  the key is met.\<close>

function sstable_scan :: "bytes \<Rightarrow> string \<Rightarrow> (bytes \<times> bool) option option" where
  "sstable_scan bs key =
     (case get_le 4 bs of
        None \<Rightarrow> Some None
      | Some (klen, r1) \<Rightarrow>
          (case get_bytes klen r1 of
             None \<Rightarrow> None
           | Some (k, r2) \<Rightarrow>
               (case get_bytes 1 r2 of
                  None \<Rightarrow> None
                | Some (d, r3) \<Rightarrow>
                    (case get_le 8 r3 of
                       None \<Rightarrow> None
                     | Some (vlen, r4) \<Rightarrow>
                         if strcmp (c_string k) key = 0
                         then (case get_bytes vlen r4 of
                                 None \<Rightarrow> None
                               | Some (v, _) \<Rightarrow> Some (Some (v, d \<noteq> [0])))
                         else sstable_scan (drop vlen r4) key))))"
  by pat_completeness auto
termination
  by (relation "measure (\<lambda>(bs, key). length bs)")
    (auto simp: get_le_def get_bytes_def split: if_splits)

declare sstable_scan.simps [simp del]

definition sstable_get :: "(string \<Rightarrow> bytes option) \<Rightarrow> sstable \<Rightarrow> string \<Rightarrow> (bytes \<times> bool) option option" where
  "sstable_get disk sst key =
     (case disk (sst_filename sst) of None \<Rightarrow> Some None | Some bs \<Rightarrow> sstable_scan bs key)"

section \<open>The tree\<close>

definition lsm_create :: "(string \<Rightarrow> bool) \<Rightarrow> (string \<Rightarrow> bytes option) \<Rightarrow> string \<Rightarrow> lsm_tree" where
  "lsm_create can_open disk base =
     (let w = wal_path base
      in \<lparr>lsm_memtable = memtable_create, lsm_immutable = None,
          lsm_levels = replicate LSM_LEVEL_COUNT [], lsm_base_path = base, lsm_next_id = 1,
          lsm_wal_open = can_open w,
          lsm_disk = (if can_open w then disk(w \<mapsto> (case disk w of Some bs \<Rightarrow> bs | None \<Rightarrow> [])) else disk)\<rparr>)"

text \<open>Compaction is announced and does nothing.\<close>

definition lsm_compact :: "lsm_tree \<Rightarrow> nat \<Rightarrow> lsm_tree" where
  "lsm_compact t level = t"

definition lsm_flush_memtable :: "(string \<Rightarrow> bool) \<Rightarrow> lsm_tree \<Rightarrow> int \<times> lsm_tree" where
  "lsm_flush_memtable can_open t =
     (if mt_count (lsm_memtable t) = 0 then (0, t)
      else
        let sst = sstable_create (take 511 (lsm_base_path t @ ''/level0_'' @ show_nat (lsm_next_id t) @ ''.sst''));
            t = t\<lparr>lsm_next_id := (lsm_next_id t + 1) mod 18446744073709551616\<rparr>
        in (case sstable_write can_open sst (lsm_memtable t) (lsm_disk t) of
              None \<Rightarrow> (-1, t)
            | Some (sst, disk) \<Rightarrow>
                let level0 = hd (lsm_levels t) @ [sst];
                    w = wal_path (lsm_base_path t);
                    t = t\<lparr>lsm_levels := level0 # tl (lsm_levels t), lsm_memtable := memtable_create,
                          lsm_disk := disk\<rparr>;
                    t = (if lsm_wal_open t
                         then (if can_open w then t\<lparr>lsm_disk := (lsm_disk t)(w \<mapsto> [])\<rparr>
                               else t\<lparr>lsm_wal_open := False\<rparr>)
                         else t)
                in (0, if length level0 \<ge> 4 then lsm_compact t 0 else t)))"

definition wal_record :: "string \<Rightarrow> bytes \<Rightarrow> bytes" where
  "wal_record key val = le_encode 4 (length key) @ bytes_of key @ le_encode 8 (length val) @ val"

definition lsm_put :: "(string \<Rightarrow> bool) \<Rightarrow> nat \<Rightarrow> lsm_tree \<Rightarrow> string \<Rightarrow> bytes \<Rightarrow> lsm_tree" where
  "lsm_put can_open now t key val =
     (let w = wal_path (lsm_base_path t);
          t = (if lsm_wal_open t
               then t\<lparr>lsm_disk := (lsm_disk t)(w \<mapsto> (case lsm_disk t w of Some bs \<Rightarrow> bs | None \<Rightarrow> []) @ wal_record key val)\<rparr>
               else t);
          t = t\<lparr>lsm_memtable := memtable_put now (lsm_memtable t) key val\<rparr>
      in if mt_size (lsm_memtable t) \<ge> MEMTABLE_SIZE then snd (lsm_flush_memtable can_open t) else t)"

definition lsm_delete :: "nat \<Rightarrow> lsm_tree \<Rightarrow> string \<Rightarrow> lsm_tree" where
  "lsm_delete now t key = t\<lparr>lsm_memtable := memtable_delete now (lsm_memtable t) key\<rparr>"

text \<open>\<open>lsm_get\<close>: the outer \<open>None\<close> is undefined behaviour, the inner one the result -1.\<close>

fun search_tables :: "(string \<Rightarrow> bytes option) \<Rightarrow> string \<Rightarrow> sstable list \<Rightarrow> (bytes \<times> bool) option option" where
  "search_tables disk key [] = Some None"
| "search_tables disk key (sst # ssts) =
     (if (case sst_bloom_filter sst of
            Some f \<Rightarrow> \<not> bloom_may_contain (sst_bloom_size sst) f key
          | None \<Rightarrow> False)
      then search_tables disk key ssts
      else
        (case sstable_get disk sst key of
           None \<Rightarrow> None
         | Some None \<Rightarrow> search_tables disk key ssts
         | Some (Some r) \<Rightarrow> Some (Some r)))"

definition visible_value :: "bytes \<times> bool \<Rightarrow> bytes option" where
  "visible_value r = (if snd r then None else Some (fst r))"

definition lsm_get :: "lsm_tree \<Rightarrow> string \<Rightarrow> bytes option option" where
  "lsm_get t key =
     (case memtable_get (lsm_memtable t) key of
        Some e \<Rightarrow> Some (visible_value (lsm_value e, lsm_deleted e))
      | None \<Rightarrow>
          (case (case lsm_immutable t of None \<Rightarrow> None | Some mt \<Rightarrow> memtable_get mt key) of
             Some e \<Rightarrow> Some (visible_value (lsm_value e, lsm_deleted e))
           | None \<Rightarrow>
               map_option (\<lambda>r. Option.bind r visible_value)
                 (search_tables (lsm_disk t) key (concat (map rev (lsm_levels t))))))"

text \<open>Closing flushes a memtable with a positive count and gives the disk back.\<close>

definition lsm_close :: "(string \<Rightarrow> bool) \<Rightarrow> lsm_tree \<Rightarrow> string \<Rightarrow> bytes option" where
  "lsm_close can_open t =
     lsm_disk (if mt_count (lsm_memtable t) > 0 then snd (lsm_flush_memtable can_open t) else t)"

end
