(* ===== verification/LsmMap.thy ===== *)
theory LsmMap
  imports Lsm
begin

text \<open>
  The LSM tree as a map. An SSTable file holds the entries of a memtable in key order; scanning it is
  looking the key up in that list; and a tree answers from its memtable and then from the lists of its
  tables, the newest first. Commands keep that view in step with a map from keys to values.
\<close>

section \<open>File names\<close>

lemma length_show_nat: "n < 10 ^ k \<Longrightarrow> 0 < k \<Longrightarrow> length (show_nat n) \<le> k"
proof (induction k arbitrary: n)
  case (Suc k)
  show ?case
  proof (cases "n < 10")
    case False
    then have "0 < k" using Suc.prems by (cases k) auto
    moreover have "n div 10 < 10 ^ k" using Suc.prems by (simp add: less_mult_imp_div_less mult.commute)
    ultimately show ?thesis using Suc.IH [of "n div 10"] False by (simp add: show_nat.simps [of n])
  qed (simp add: show_nat.simps [of n])
qed simp

lemma show_nat_inject: "show_nat m = show_nat n \<longleftrightarrow> m = n"
  by (metis digits_val_show_nat of_nat_eq_iff)

lemma sstable_name_whole:
  assumes "length base \<le> 200" and "n < 18446744073709551616"
  shows "sstable_name base n = base @ ''/level0_'' @ show_nat n @ ''.sst''"
proof -
  have "length (show_nat n) \<le> 20" by (rule length_show_nat) (use assms(2) in simp_all)
  then show ?thesis using assms(1) by (simp add: sstable_name_def)
qed

lemma sstable_name_inject:
  assumes "length base \<le> 200" and "m < 18446744073709551616" and "n < 18446744073709551616"
  shows "sstable_name base m = sstable_name base n \<longleftrightarrow> m = n"
  using assms by (simp add: sstable_name_whole show_nat_inject)

lemma wal_path_other:
  assumes "length base \<le> 200" and "n < 18446744073709551616"
  shows "wal_path base \<noteq> sstable_name base n"
  using assms by (simp add: sstable_name_whole wal_path_def)

section \<open>A table file\<close>

definition lsm_entry_ok :: "lsm_entry \<Rightarrow> bool" where
  "lsm_entry_ok e \<longleftrightarrow> key_ok (lsm_key e) \<and> length (lsm_value e) < 18446744073709551616"

definition table_bytes :: "lsm_entry list \<Rightarrow> bytes" where
  "table_bytes es = concat (map sstable_entry_bytes es)"

definition entry_result :: "lsm_entry \<Rightarrow> bytes \<times> bool" where
  "entry_result e = (lsm_value e, lsm_deleted e)"

lemma sstable_write_node_inorder:
  "sstable_write_node t (out, sst) =
     (out @ table_bytes (inorder t),
      sst\<lparr>sst_bloom_filter := map_option (fold (bloom_add (sst_bloom_size sst)) (map lsm_key (inorder t))) (sst_bloom_filter sst),
          sst_entry_count := sst_entry_count sst + length (inorder t)\<rparr>)"
proof (induction t arbitrary: out sst)
  case MNull
  then show ?case by (simp add: table_bytes_def option.map_id0 [unfolded id_def])
next
  case (MNode e l r h)
  show ?case
    by (simp add: MNode.IH Let_def table_bytes_def option.map_comp comp_def)
qed

lemma sstable_scan_entry:
  assumes "lsm_entry_ok e"
  shows "sstable_scan (sstable_entry_bytes e @ rest) key =
    (if lsm_key e = key then Some (Some (entry_result e)) else sstable_scan rest key)"
proof -
  have k: "length (lsm_key e) < 256 ^ 4" "CHR 0x00 \<notin> set (lsm_key e)" and v: "length (lsm_value e) < 256 ^ 8"
    using assms by (simp_all add: lsm_entry_ok_def key_ok_def)
  have "get_bytes (Suc 0) ((if lsm_deleted e then 1 else 0) # bs) = Some ([if lsm_deleted e then 1 else 0], bs)" for bs
    by (simp add: get_bytes_def)
  then show ?thesis
    by (subst sstable_scan.simps)
      (simp add: sstable_entry_bytes_def get_le_append [OF k(1)] get_le_append [OF v] get_bytes_append_eq
        c_string_bytes_of [OF k(2)] entry_result_def)
qed

lemma sstable_scan_table:
  "\<forall>e \<in> set es. lsm_entry_ok e \<Longrightarrow> sstable_scan (table_bytes es) key = Some (map_option entry_result (lookup_entry key es))"
proof (induction es)
  case Nil
  then show ?case by (simp add: table_bytes_def lookup_entry_def sstable_scan.simps [of "[]"] get_le_short)
next
  case (Cons e es)
  then show ?case using sstable_scan_entry [of e "table_bytes es" key] by (simp add: table_bytes_def lookup_entry_def)
qed

definition table_ok :: "(string \<Rightarrow> bytes option) \<Rightarrow> sstable \<Rightarrow> lsm_entry list \<Rightarrow> bool" where
  "table_ok disk sst es \<longleftrightarrow>
     disk (sst_filename sst) = Some (table_bytes es) \<and> (\<forall>e \<in> set es. lsm_entry_ok e) \<and>
     sst_bloom_filter sst = Some (fold (bloom_add 1024) (map lsm_key es) (replicate 1024 0)) \<and>
     sst_bloom_size sst = 1024"

fun first_hit :: "string \<Rightarrow> lsm_entry list list \<Rightarrow> (bytes \<times> bool) option" where
  "first_hit key [] = None"
| "first_hit key (es # ess) =
     (case lookup_entry key es of Some e \<Rightarrow> Some (entry_result e) | None \<Rightarrow> first_hit key ess)"

lemma lookup_entry_None: "lookup_entry key es = None \<longleftrightarrow> key \<notin> lsm_key ` set es"
  by (auto simp: lookup_entry_def find_None_iff)

text \<open>The Bloom filter never hides a table that has the key.\<close>

lemma filtered_table_has_no_key:
  assumes "table_ok disk sst es" and "sst_bloom_filter sst = Some f"
    and "\<not> bloom_may_contain (sst_bloom_size sst) f key"
  shows "lookup_entry key es = None"
proof (rule ccontr)
  assume "lookup_entry key es \<noteq> None"
  then have "key \<in> set (map lsm_key es)" by (simp add: lookup_entry_None)
  from bloom.no_false_negative [OF _ this, of "replicate 1024 0"] show False
    using assms by (simp add: table_ok_def)
qed

lemma search_tables_first_hit:
  "list_all2 (table_ok disk) ssts ess \<Longrightarrow> search_tables disk key ssts = Some (first_hit key ess)"
proof (induction rule: list_all2_induct)
  case (Cons sst ssts es ess)
  have "sstable_get disk sst key = Some (map_option entry_result (lookup_entry key es))"
    using Cons.hyps by (simp add: table_ok_def sstable_get_def sstable_scan_table)
  moreover obtain f where "sst_bloom_filter sst = Some f" using Cons.hyps by (simp add: table_ok_def)
  ultimately show ?case
    using filtered_table_has_no_key [OF Cons.hyps(1)] Cons.IH
    by (cases "lookup_entry key es") auto
qed simp

section \<open>The tree\<close>

definition lsm_inv :: "string \<Rightarrow> lsm_tree \<Rightarrow> lsm_entry list list \<Rightarrow> bool" where
  "lsm_inv base t ess \<longleftrightarrow>
     memtable_wf (lsm_memtable t) \<and> (\<forall>e \<in> set (inorder (mt_root (lsm_memtable t))). lsm_entry_ok e) \<and>
     lsm_immutable t = None \<and> lsm_base_path t = base \<and> length base \<le> 200 \<and>
     (\<exists>l0. lsm_levels t = l0 # replicate 3 [] \<and> list_all2 (table_ok (lsm_disk t)) l0 ess \<and>
       (\<forall>sst \<in> set l0. \<exists>n < lsm_next_id t. sst_filename sst = sstable_name base n))"

definition lsm_view :: "memtable \<Rightarrow> lsm_entry list list \<Rightarrow> string \<Rightarrow> bytes option" where
  "lsm_view mt ess key = Option.bind (first_hit key (inorder (mt_root mt) # rev ess)) visible_value"

lemma lsm_get_view:
  assumes "lsm_inv base t ess"
  shows "lsm_get t key = Some (lsm_view (lsm_memtable t) ess key)"
proof -
  obtain l0 where l0: "lsm_levels t = l0 # replicate 3 []" "list_all2 (table_ok (lsm_disk t)) l0 ess"
    using assms by (auto simp: lsm_inv_def)
  have "search_tables (lsm_disk t) key (concat (map rev (lsm_levels t))) = Some (first_hit key (rev ess))"
    using l0 by (simp add: search_tables_first_hit)
  moreover have "memtable_get (lsm_memtable t) key = lookup_entry key (inorder (mt_root (lsm_memtable t)))"
    using assms by (simp add: lsm_inv_def memtable_wf_def memtable_get_def find_node_lookup)
  ultimately show ?thesis using assms
    by (simp add: lsm_get_def lsm_view_def lsm_inv_def entry_result_def split: option.split)
qed

text \<open>A change of the disk that leaves the table files alone.\<close>

lemma table_ok_cong: "disk' (sst_filename sst) = disk (sst_filename sst) \<Longrightarrow> table_ok disk' sst es = table_ok disk sst es"
  by (simp add: table_ok_def)

lemma tables_ok_cong:
  assumes "list_all2 (table_ok disk) ssts ess" and "\<And>sst. sst \<in> set ssts \<Longrightarrow> disk' (sst_filename sst) = disk (sst_filename sst)"
  shows "list_all2 (table_ok disk') ssts ess"
  by (rule list.rel_mono_strong [OF assms(1)]) (simp add: assms(2) table_ok_def)

lemma other_file:
  assumes "\<forall>sst \<in> set ssts. \<exists>n < i. sst_filename sst = sstable_name base n" and "sst \<in> set ssts"
    and "length base \<le> 200" and "i < 18446744073709551616"
  shows "sst_filename sst \<noteq> wal_path base" and "sst_filename sst \<noteq> sstable_name base i"
proof -
  obtain n where "n < i" "sst_filename sst = sstable_name base n" using assms(1,2) by blast
  then show "sst_filename sst \<noteq> wal_path base" "sst_filename sst \<noteq> sstable_name base i"
    using wal_path_other [OF assms(3), of n] sstable_name_inject [OF assms(3), of n i] assms(4) by auto
qed

lemma inv_parts:
  assumes "lsm_inv base t ess"
  shows "memtable_wf (lsm_memtable t)" "\<forall>e \<in> set (inorder (mt_root (lsm_memtable t))). lsm_entry_ok e"
    "lsm_immutable t = None" "lsm_base_path t = base" "length base \<le> 200"
    "lsm_levels t = hd (lsm_levels t) # replicate 3 []" "list_all2 (table_ok (lsm_disk t)) (hd (lsm_levels t)) ess"
    "\<forall>sst \<in> set (hd (lsm_levels t)). \<exists>n < lsm_next_id t. sst_filename sst = sstable_name base n"
  using assms unfolding lsm_inv_def by (elim conjE exE, simp)+

lemma lsm_create_inv:
  "length base \<le> 200 \<Longrightarrow> lsm_inv base (lsm_create co d base) []"
  by (simp add: lsm_inv_def lsm_create_def memtable_create_ok memtable_create_def memtable_wf_def Let_def numeral_eq_Suc)

section \<open>Flushing\<close>

text \<open>The table a flush writes.\<close>

definition flushed_table :: "string \<Rightarrow> nat \<Rightarrow> memtable \<Rightarrow> sstable" where
  "flushed_table base n mt =
     \<lparr>sst_filename = sstable_name base n, sst_entry_count = length (inorder (mt_root mt)),
      sst_file_size = length (table_bytes (inorder (mt_root mt))),
      sst_bloom_filter = Some (fold (bloom_add 1024) (map lsm_key (inorder (mt_root mt))) (replicate 1024 0)),
      sst_bloom_size = 1024\<rparr>"

lemma sstable_write_flushed:
  "sstable_write can_open (sstable_create (take 511 (base @ ''/level0_'' @ show_nat n @ ''.sst''))) mt disk =
     (if can_open (sstable_name base n)
      then Some (flushed_table base n mt, disk(sstable_name base n \<mapsto> table_bytes (inorder (mt_root mt))))
      else None)"
  by (simp add: sstable_write_def sstable_create_def sstable_write_node_inorder flushed_table_def sstable_name_def)

lemma flush_cases:
  fixes t :: lsm_tree and can_open :: "string \<Rightarrow> bool"
  defines "mt \<equiv> lsm_memtable t" and "base \<equiv> lsm_base_path t" and "n \<equiv> lsm_next_id t"
  defines "t' \<equiv> snd (lsm_flush_memtable can_open t)"
  shows "t' = t \<or> t' = t\<lparr>lsm_next_id := (n + 1) mod 18446744073709551616\<rparr> \<or>
    lsm_memtable t' = memtable_create \<and> lsm_immutable t' = lsm_immutable t \<and> lsm_base_path t' = base \<and>
    lsm_next_id t' = (n + 1) mod 18446744073709551616 \<and>
    lsm_levels t' = (hd (lsm_levels t) @ [flushed_table base n mt]) # tl (lsm_levels t) \<and>
    (\<forall>name. name \<noteq> wal_path base \<longrightarrow>
       lsm_disk t' name = ((lsm_disk t)(sstable_name base n \<mapsto> table_bytes (inorder (mt_root mt)))) name)"
  unfolding t'_def lsm_flush_memtable_def Let_def sstable_write_flushed mt_def base_def n_def lsm_compact_def
  by (cases "mt_count (lsm_memtable t) = 0"; cases "can_open (sstable_name (lsm_base_path t) (lsm_next_id t))";
      cases "lsm_wal_open t"; cases "can_open (wal_path (lsm_base_path t))") simp_all

lemma flush_inv:
  assumes inv: "lsm_inv base t ess" and i: "lsm_next_id t < 18446744073709551615"
  shows "\<exists>ess'. lsm_inv base (snd (lsm_flush_memtable can_open t)) ess' \<and>
    lsm_view (lsm_memtable (snd (lsm_flush_memtable can_open t))) ess' = lsm_view (lsm_memtable t) ess \<and>
    lsm_next_id (snd (lsm_flush_memtable can_open t)) \<le> lsm_next_id t + 1"
proof -
  let ?t = "snd (lsm_flush_memtable can_open t)" and ?es = "inorder (mt_root (lsm_memtable t))"
  let ?n = "lsm_next_id t"
  note parts = inv_parts [OF inv]
  have nx: "(?n + 1) mod 18446744073709551616 = ?n + 1" using i by simp
  have more: "\<forall>sst \<in> set (hd (lsm_levels t)). \<exists>n < ?n + 1. sst_filename sst = sstable_name base n"
    using parts(8) less_SucI by (metis Suc_eq_plus1)
  consider (same) "?t = t" | (failed) "?t = t\<lparr>lsm_next_id := ?n + 1\<rparr>" |
    (written) "lsm_memtable ?t = memtable_create" "lsm_immutable ?t = None" "lsm_base_path ?t = base"
      "lsm_next_id ?t = ?n + 1"
      "lsm_levels ?t = (hd (lsm_levels t) @ [flushed_table base ?n (lsm_memtable t)]) # tl (lsm_levels t)"
      "\<And>name. name \<noteq> wal_path base \<Longrightarrow>
         lsm_disk ?t name = ((lsm_disk t)(sstable_name base ?n \<mapsto> table_bytes ?es)) name"
    using flush_cases [of can_open t] parts(3,4) nx by auto
  then show ?thesis
  proof cases
    case same
    then show ?thesis using inv by auto
  next
    case failed
    have "lsm_inv base ?t ess" unfolding failed lsm_inv_def
      by (intro conjI exI [of _ "hd (lsm_levels t)"]) (use parts more in simp_all)
    then show ?thesis using failed by auto
  next
    case written
    have old: "sst_filename sst \<noteq> wal_path base" "sst_filename sst \<noteq> sstable_name base ?n"
      if "sst \<in> set (hd (lsm_levels t))" for sst
      using other_file [OF parts(8) that parts(5)] i by auto
    have tables: "list_all2 (table_ok (lsm_disk ?t)) (hd (lsm_levels t)) ess"
      by (rule tables_ok_cong [OF parts(7)]) (simp add: written(6) old)
    have new: "table_ok (lsm_disk ?t) (flushed_table base ?n (lsm_memtable t)) ?es"
      using parts(2) wal_path_other [OF parts(5), of ?n] i
      by (simp add: table_ok_def flushed_table_def written(6))
    have "lsm_inv base ?t (ess @ [?es])"
      unfolding lsm_inv_def
      using written parts(5) tables new more
      by (subst written(5), subst parts(6))
        (auto simp: memtable_create_ok, auto simp: memtable_create_def flushed_table_def list_all2_appendI)
    moreover have "lsm_view (lsm_memtable ?t) (ess @ [?es]) = lsm_view (lsm_memtable t) ess"
      by (rule ext) (simp add: lsm_view_def written(1) memtable_create_def lookup_entry_def)
    ultimately show ?thesis using written(4) by auto
  qed
qed

section \<open>Commands\<close>

lemma first_hit_lookup: "first_hit key (es # ess) = (case lookup_entry key es of Some e \<Rightarrow> Some (entry_result e) | None \<Rightarrow> first_hit key ess)"
  by simp

text \<open>A memtable whose lookups are those of the old one, but for one key.\<close>

lemma lsm_view_upd:
  assumes "memtable_wf mt" and "memtable_wf mt'"
    and "\<And>k. memtable_get mt' k = (if k = key then Some e else memtable_get mt k)"
  shows "lsm_view mt' ess k = (if k = key then visible_value (entry_result e) else lsm_view mt ess k)"
proof -
  have "lookup_entry k (inorder (mt_root mt')) = (if k = key then Some e else lookup_entry k (inorder (mt_root mt)))" for k
    using assms by (simp add: memtable_wf_def memtable_get_def flip: find_node_lookup)
  then show ?thesis by (simp add: lsm_view_def)
qed

lemma put_entries_ok:
  assumes "memtable_wf mt" and "\<forall>e \<in> set (inorder (mt_root mt)). lsm_entry_ok e"
    and "key_ok key" and "length v < 18446744073709551616"
  shows "\<forall>e \<in> set (inorder (memtable_insert_node now key v del (mt_root mt))). lsm_entry_ok e"
proof
  fix e assume "e \<in> set (inorder (memtable_insert_node now key v del (mt_root mt)))"
  then have "e = \<lparr>lsm_key = key, lsm_value = v, lsm_timestamp = now, lsm_deleted = del\<rparr> \<or> e \<in> set (inorder (mt_root mt))"
    using assms(1) set_upd_entry by (simp add: memtable_wf_def inorder_insert)
  then show "lsm_entry_ok e" using assms by (auto simp: lsm_entry_ok_def)
qed

lemma put_step:
  assumes inv: "lsm_inv base t ess" and i: "lsm_next_id t < 18446744073709551615"
    and ok: "key_ok key" "length v < 18446744073709551616"
  shows "\<exists>ess'. lsm_inv base (lsm_put can_open now t key v) ess' \<and>
    lsm_view (lsm_memtable (lsm_put can_open now t key v)) ess' = (lsm_view (lsm_memtable t) ess)(key := Some v) \<and>
    lsm_next_id (lsm_put can_open now t key v) \<le> lsm_next_id t + 1"
proof -
  note parts = inv_parts [OF inv]
  let ?mt = "memtable_put now (lsm_memtable t) key v"
  define d where "d = (if lsm_wal_open t
     then (lsm_disk t)(wal_path base \<mapsto> (case lsm_disk t (wal_path base) of Some bs \<Rightarrow> bs | None \<Rightarrow> []) @ wal_record key v)
     else lsm_disk t)"
  let ?u = "t\<lparr>lsm_disk := d, lsm_memtable := ?mt\<rparr>"
  have put: "lsm_put can_open now t key v =
    (if mt_size ?mt \<ge> MEMTABLE_SIZE then snd (lsm_flush_memtable can_open ?u) else ?u)"
    using parts(4) by (simp add: lsm_put_def d_def Let_def)
  have other: "sst_filename sst \<noteq> wal_path base" if "sst \<in> set (hd (lsm_levels t))" for sst
    using other_file [OF parts(8) that parts(5)] i by simp
  have tables: "list_all2 (table_ok d) (hd (lsm_levels t)) ess"
    by (rule tables_ok_cong [OF parts(7)]) (simp add: d_def other)
  have wf: "memtable_wf ?mt" by (rule memtable_put_ok [OF parts(1)])
  have entries: "\<forall>e \<in> set (inorder (mt_root ?mt)). lsm_entry_ok e"
    using put_entries_ok [OF parts(1,2) ok] by (simp add: memtable_put_def)
  have u: "lsm_inv base ?u ess"
    unfolding lsm_inv_def by (intro conjI exI [of _ "hd (lsm_levels t)"]) (use parts tables wf entries in simp_all)
  have "lsm_view ?mt ess k = ((lsm_view (lsm_memtable t) ess)(key := Some v)) k" for k
    using lsm_view_upd [OF parts(1) wf memtable_put_ok(2) [OF parts(1)]] by (simp add: entry_result_def visible_value_def)
  then have view: "lsm_view ?mt ess = (lsm_view (lsm_memtable t) ess)(key := Some v)" by blast
  show ?thesis
  proof (cases "mt_size ?mt \<ge> MEMTABLE_SIZE")
    case True
    from flush_inv [OF u, of can_open] i view show ?thesis by (simp add: put True)
  next
    case False
    with u view show ?thesis by (auto simp: put)
  qed
qed

lemma delete_step:
  assumes inv: "lsm_inv base t ess" and ok: "key_ok key"
  shows "lsm_inv base (lsm_delete now t key) ess \<and>
    lsm_view (lsm_memtable (lsm_delete now t key)) ess = (lsm_view (lsm_memtable t) ess)(key := None)"
proof
  note parts = inv_parts [OF inv]
  let ?mt = "memtable_delete now (lsm_memtable t) key"
  have wf: "memtable_wf ?mt" by (rule memtable_delete_ok [OF parts(1)])
  have entries: "\<forall>e \<in> set (inorder (mt_root ?mt)). lsm_entry_ok e"
    using put_entries_ok [OF parts(1,2) ok, of "[0]"] by (simp add: memtable_delete_def)
  show "lsm_inv base (lsm_delete now t key) ess"
    unfolding lsm_inv_def by (intro conjI exI [of _ "hd (lsm_levels t)"]) (use parts wf entries in \<open>simp_all add: lsm_delete_def\<close>)
  show "lsm_view (lsm_memtable (lsm_delete now t key)) ess = (lsm_view (lsm_memtable t) ess)(key := None)"
  proof
    fix k
    show "lsm_view (lsm_memtable (lsm_delete now t key)) ess k = ((lsm_view (lsm_memtable t) ess)(key := None)) k"
      using lsm_view_upd [OF parts(1) wf memtable_delete_ok(2) [OF parts(1)]]
      by (simp add: entry_result_def visible_value_def lsm_delete_def)
  qed
qed

datatype lsm_cmd =
    LPut "string \<Rightarrow> bool" nat string bytes
  | LDelete nat string
  | LFlush "string \<Rightarrow> bool"

fun lsm_exec :: "lsm_cmd \<Rightarrow> lsm_tree \<Rightarrow> lsm_tree" where
  "lsm_exec (LPut can_open now key v) t = lsm_put can_open now t key v"
| "lsm_exec (LDelete now key) t = lsm_delete now t key"
| "lsm_exec (LFlush can_open) t = snd (lsm_flush_memtable can_open t)"

fun lsm_cmd_ok :: "lsm_cmd \<Rightarrow> bool" where
  "lsm_cmd_ok (LPut can_open now key v) \<longleftrightarrow> key_ok key \<and> length v < 18446744073709551616"
| "lsm_cmd_ok (LDelete now key) \<longleftrightarrow> key_ok key"
| "lsm_cmd_ok (LFlush can_open) \<longleftrightarrow> True"

fun map_exec :: "lsm_cmd \<Rightarrow> (string \<Rightarrow> bytes option) \<Rightarrow> (string \<Rightarrow> bytes option)" where
  "map_exec (LPut can_open now key v) m = m(key \<mapsto> v)"
| "map_exec (LDelete now key) m = m(key := None)"
| "map_exec (LFlush can_open) m = m"

lemma exec_step:
  assumes "lsm_inv base t ess" and "lsm_next_id t < 18446744073709551615" and "lsm_cmd_ok c"
  shows "\<exists>ess'. lsm_inv base (lsm_exec c t) ess' \<and>
    lsm_view (lsm_memtable (lsm_exec c t)) ess' = map_exec c (lsm_view (lsm_memtable t) ess) \<and>
    lsm_next_id (lsm_exec c t) \<le> lsm_next_id t + 1"
proof (cases c)
  case (LPut can_open now key v)
  with assms show ?thesis using put_step [OF assms(1,2)] by simp
next
  case (LDelete now key)
  with assms show ?thesis using delete_step [OF assms(1), of key now] by (auto simp: lsm_delete_def)
next
  case (LFlush can_open)
  with assms show ?thesis using flush_inv [OF assms(1,2)] by simp
qed

lemma exec_steps:
  assumes "lsm_inv base t ess" and "lsm_next_id t + length cs < 18446744073709551616"
    and "\<forall>c \<in> set cs. lsm_cmd_ok c"
  shows "\<exists>ess'. lsm_inv base (fold lsm_exec cs t) ess' \<and>
    lsm_view (lsm_memtable (fold lsm_exec cs t)) ess' = fold map_exec cs (lsm_view (lsm_memtable t) ess)"
  using assms
proof (induction cs arbitrary: t ess)
  case (Cons c cs)
  obtain ess' where s: "lsm_inv base (lsm_exec c t) ess'"
      "lsm_view (lsm_memtable (lsm_exec c t)) ess' = map_exec c (lsm_view (lsm_memtable t) ess)"
      "lsm_next_id (lsm_exec c t) \<le> lsm_next_id t + 1"
    using exec_step [OF Cons.prems(1), of c] Cons.prems(2,3) by auto
  show ?case using Cons.IH [OF s(1)] s(2,3) Cons.prems(2,3) by simp
qed auto

text \<open>C31: The LSM tree is a map. After any puts, deletions and flushes of a new tree (on any disk, with
  any \<open>fopen\<close>s failing), \<open>lsm_get\<close> gives the value last put for the key, and -1 for a key deleted since
  or never put: through the memtable, its tombstones, the SSTable files and their Bloom filters, whatever
  was on the disk before. Keys have no NUL; keys and values fit their length fields.\<close>

theorem lsm_refines_map:
  assumes "length base \<le> 200" and "length cs < 18446744073709551615" and "\<forall>c \<in> set cs. lsm_cmd_ok c"
  shows "lsm_get (fold lsm_exec cs (lsm_create can_open disk base)) key =
    Some (fold map_exec cs (\<lambda>k. None) key)"
proof -
  let ?t = "lsm_create can_open disk base"
  have "lsm_next_id ?t = 1" "lsm_view (lsm_memtable ?t) [] = (\<lambda>k. None)"
    by (auto simp: lsm_create_def Let_def lsm_view_def memtable_create_def lookup_entry_def)
  then obtain ess where "lsm_inv base (fold lsm_exec cs ?t) ess"
      "lsm_view (lsm_memtable (fold lsm_exec cs ?t)) ess = fold map_exec cs (\<lambda>k. None)"
    using exec_steps [OF lsm_create_inv [OF assms(1), where co = can_open and d = disk], where cs = cs]
      assms(2,3) by auto
  then show ?thesis by (simp add: lsm_get_view)
qed

theorem lsm_refines_map_witness:
  "lsm_get (fold lsm_exec
     [LPut (\<lambda>_. True) 1 ''a'' [1, 2], LPut (\<lambda>_. True) 2 ''b'' [3], LFlush (\<lambda>_. True), LDelete 3 ''a'',
      LPut (\<lambda>_. True) 4 ''b'' [4], LFlush (\<lambda>_. False)]
     (lsm_create (\<lambda>_. True) (\<lambda>_. Some [9]) ''/db'')) ''b'' = Some (Some [4])"
  by (subst lsm_refines_map) (simp_all add: key_ok_def)

end
