(* ===== verification/StorageEngine.thy ===== *)
theory StorageEngine
  imports LsmMap
begin

text \<open>
  The rest of \<open>src/storage_engine.c\<close>: variable-length records (lines 437 to 513), the columnar store
  (518 to 612) and the manager that sends puts and lookups to one of three engines (1165 to 1272).
  Signed overflow and reads past an allocation are \<open>None\<close>.
\<close>

section \<open>Variable-length records\<close>

record var_record =
  vr_record_length :: u16
  vr_field_count :: u16
  vr_txn_id :: u32
  vr_null_bitmap :: bytes
  vr_var_offsets :: "u16 list"
  vr_data :: bytes

definition var_record_create :: "nat \<Rightarrow> var_record" where
  "var_record_create field_count =
     \<lparr>vr_record_length = 0, vr_field_count = word_of_nat field_count, vr_txn_id = 0,
      vr_null_bitmap = replicate ((field_count + 7) div 8) 0, vr_var_offsets = replicate field_count 0,
      vr_data = replicate 256 0\<rparr>"

definition var_record_set_null :: "var_record \<Rightarrow> int \<Rightarrow> int \<times> var_record" where
  "var_record_set_null r field_idx =
     (if field_idx < 0 \<or> field_idx \<ge> int (unat (vr_field_count r)) then (-1, r)
      else let byte_idx = nat field_idx div 8; bit_idx = nat field_idx mod 8
           in (0, r\<lparr>vr_null_bitmap := (vr_null_bitmap r)[byte_idx := vr_null_bitmap r ! byte_idx OR push_bit bit_idx 1]\<rparr>))"

definition var_record_is_null :: "var_record \<Rightarrow> int \<Rightarrow> bool" where
  "var_record_is_null r field_idx =
     (if field_idx < 0 \<or> field_idx \<ge> int (unat (vr_field_count r)) then True
      else vr_null_bitmap r ! (nat field_idx div 8) AND push_bit (nat field_idx mod 8) 1 \<noteq> 0)"

text \<open>The header, the bitmap and the offsets; the fields themselves are not written.\<close>

definition var_record_serialize :: "var_record \<Rightarrow> nat \<Rightarrow> bytes" where
  "var_record_serialize r capacity =
     (let n = unat (vr_field_count r);
          bitmap_size = (n + 7) div 8; offsets_size = n * 2
      in if 8 + bitmap_size + offsets_size > capacity then []
         else le_encode 2 (unat (vr_record_length r)) @ le_encode 2 n @ le_encode 4 (unat (vr_txn_id r)) @
              take bitmap_size (vr_null_bitmap r) @
              concat (map (\<lambda>x. le_encode 2 (unat x)) (take n (vr_var_offsets r))))"

section \<open>Columns\<close>

datatype column_type = COL_TYPE_INT32 | COL_TYPE_INT64 | COL_TYPE_FLOAT | COL_TYPE_DOUBLE | COL_TYPE_STRING | COL_TYPE_BOOL

abbreviation MAX_COLUMN_COUNT :: nat where "MAX_COLUMN_COUNT \<equiv> 64"

record column_chunk =
  col_name :: string
  col_type :: column_type
  col_row_count :: u32
  col_null_count :: u32
  col_int_min :: int
  col_int_max :: int
  col_null_bitmap :: bytes
  col_data :: bytes

record column_store =
  cs_table_name :: string
  cs_allocated :: nat
  cs_row_count :: nat
  cs_columns :: "column_chunk list"

definition column_store_create :: "string \<Rightarrow> nat \<Rightarrow> column_store" where
  "column_store_create table_name column_count =
     \<lparr>cs_table_name = take 127 table_name, cs_allocated = column_count, cs_row_count = 0, cs_columns = []\<rparr>"

text \<open>Only the fixed maximum is checked, not what was allocated.\<close>

definition column_store_add_column :: "column_store \<Rightarrow> string \<Rightarrow> column_type \<Rightarrow> (int \<times> column_store) option" where
  "column_store_add_column store name type =
     (if length (cs_columns store) \<ge> MAX_COLUMN_COUNT then Some (-1, store)
      else if length (cs_columns store) \<ge> cs_allocated store then None
      else Some (int (length (cs_columns store)),
             store\<lparr>cs_columns := cs_columns store @
               [\<lparr>col_name = take 63 name, col_type = type, col_row_count = 0, col_null_count = 0,
                 col_int_min = 9223372036854775807, col_int_max = - 9223372036854775808,
                 col_null_bitmap = replicate 128 0, col_data = replicate 8192 0\<rparr>]\<rparr>))"

text \<open>An element as the type of the column reads it, and the loop of the sum.\<close>

definition column_element :: "column_chunk \<Rightarrow> nat \<Rightarrow> int option" where
  "column_element chunk i =
     (if col_type chunk = COL_TYPE_INT32
      then map_option (\<lambda>(n, _). sint (word_of_nat n :: u32)) (get_le 4 (drop (4 * i) (col_data chunk)))
      else map_option (\<lambda>(n, _). sint (word_of_nat n :: u64)) (get_le 8 (drop (8 * i) (col_data chunk))))"

fun sum_loop :: "column_chunk \<Rightarrow> nat list \<Rightarrow> int \<Rightarrow> int option" where
  "sum_loop chunk [] acc = Some acc"
| "sum_loop chunk (i # is) acc =
     (if i div 8 \<ge> length (col_null_bitmap chunk) then None
      else if col_null_bitmap chunk ! (i div 8) AND push_bit (i mod 8) 1 \<noteq> 0 then sum_loop chunk is acc
      else (case column_element chunk i of
              None \<Rightarrow> None
            | Some x \<Rightarrow>
                if acc + x < - 9223372036854775808 \<or> acc + x > 9223372036854775807 then None
                else sum_loop chunk is (acc + x)))"

definition column_sum_int :: "column_chunk \<Rightarrow> int option" where
  "column_sum_int chunk =
     (if col_type chunk \<noteq> COL_TYPE_INT32 \<and> col_type chunk \<noteq> COL_TYPE_INT64 then Some 0
      else sum_loop chunk [0..<unat (col_row_count chunk)] 0)"

definition column_count_non_null :: "column_chunk \<Rightarrow> u32" where
  "column_count_non_null chunk = col_row_count chunk - col_null_count chunk"

definition column_min_int :: "column_chunk \<Rightarrow> int" where "column_min_int chunk = col_int_min chunk"

definition column_max_int :: "column_chunk \<Rightarrow> int" where "column_max_int chunk = col_int_max chunk"

section \<open>The manager\<close>

datatype engine_type = ENGINE_ROW_STORE | ENGINE_COLUMN_STORE | ENGINE_LSM_TREE
datatype compression_type = COMPRESS_NONE | COMPRESS_LZ4 | COMPRESS_RLE
datatype engine_state = RowEngine | ColumnEngine column_store | LsmEngine lsm_tree

text \<open>The type of an engine is the constructor of its state.\<close>

record storage_engine =
  se_engine :: engine_state
  se_compression :: compression_type
  se_reads :: u64
  se_writes :: u64
  se_bytes_written :: u64

definition storage_engine_create ::
    "(string \<Rightarrow> bool) \<Rightarrow> (string \<Rightarrow> bytes option) \<Rightarrow> engine_type \<Rightarrow> string \<Rightarrow> storage_engine" where
  "storage_engine_create can_open disk type base =
     \<lparr>se_engine = (case type of
          ENGINE_ROW_STORE \<Rightarrow> RowEngine
        | ENGINE_COLUMN_STORE \<Rightarrow> ColumnEngine (column_store_create ''default'' MAX_COLUMN_COUNT)
        | ENGINE_LSM_TREE \<Rightarrow> LsmEngine (lsm_create can_open disk base)),
      se_compression = COMPRESS_NONE, se_reads = 0, se_writes = 0, se_bytes_written = 0\<rparr>"

definition storage_engine_put ::
    "(string \<Rightarrow> bool) \<Rightarrow> nat \<Rightarrow> storage_engine \<Rightarrow> string \<Rightarrow> bytes \<Rightarrow> int \<times> storage_engine" where
  "storage_engine_put can_open now e key val =
     (let e = e\<lparr>se_writes := se_writes e + 1, se_bytes_written := se_bytes_written e + word_of_nat (length val)\<rparr>
      in (0, case se_engine e of
               LsmEngine t \<Rightarrow> e\<lparr>se_engine := LsmEngine (lsm_put can_open now t key val)\<rparr>
             | _ \<Rightarrow> e))"

text \<open>The result, and the value where the out parameters are written: the row and column engines return
  0 and leave them as they were.\<close>

definition storage_engine_get :: "storage_engine \<Rightarrow> string \<Rightarrow> (int \<times> bytes option \<times> storage_engine) option" where
  "storage_engine_get e key =
     (let e = e\<lparr>se_reads := se_reads e + 1\<rparr>
      in case se_engine e of
           LsmEngine t \<Rightarrow>
             map_option (\<lambda>r. case r of Some v \<Rightarrow> (0, Some v, e) | None \<Rightarrow> (-1, None, e)) (lsm_get t key)
         | _ \<Rightarrow> Some (0, None, e))"

definition storage_engine_delete :: "nat \<Rightarrow> storage_engine \<Rightarrow> string \<Rightarrow> int \<times> storage_engine" where
  "storage_engine_delete now e key =
     (case se_engine e of
        LsmEngine t \<Rightarrow> (0, e\<lparr>se_engine := LsmEngine (lsm_delete now t key)\<rparr>)
      | _ \<Rightarrow> (0, e))"

definition storage_engine_set_compression :: "storage_engine \<Rightarrow> compression_type \<Rightarrow> storage_engine" where
  "storage_engine_set_compression e c = e\<lparr>se_compression := c\<rparr>"

section \<open>Facts\<close>

lemma set_null_is_null:
  assumes "0 \<le> i" and "i < int (unat (vr_field_count r))" and "nat i div 8 < length (vr_null_bitmap r)"
  shows "var_record_is_null (snd (var_record_set_null r i)) i"
proof -
  have "bit (push_bit (nat i mod 8) (1 :: byte)) (nat i mod 8)" by (simp add: bit_simps)
  then have "bit ((x OR push_bit (nat i mod 8) 1) AND push_bit (nat i mod 8) (1 :: byte)) (nat i mod 8)" for x
    by (simp add: bit_simps)
  then have "(x OR push_bit (nat i mod 8) 1) AND push_bit (nat i mod 8) (1 :: byte) \<noteq> 0" for x by force
  then show ?thesis using assms by (simp add: var_record_is_null_def var_record_set_null_def Let_def)
qed

lemma length_serialize:
  assumes "length (vr_null_bitmap r) = (unat (vr_field_count r) + 7) div 8" and "length (vr_var_offsets r) = unat (vr_field_count r)"
    and "8 + length (vr_null_bitmap r) + 2 * unat (vr_field_count r) \<le> capacity"
  shows "length (var_record_serialize r capacity) = 8 + length (vr_null_bitmap r) + 2 * unat (vr_field_count r)"
proof -
  have "length (concat (map (\<lambda>x. le_encode 2 (unat x)) xs)) = 2 * length xs" for xs :: "u16 list"
    by (induction xs) simp_all
  then show ?thesis using assms by (simp add: var_record_serialize_def Let_def)
qed

end
