(* ===== verification/SkipIndex.thy ===== *)
theory SkipIndex
  imports CStrings
begin

text \<open>
  The skip-list indexes of \<open>src/storage.c\<close> (lines 54 to 226) that \<open>CREATE INDEX\<close> and the range scans of
  the executor use. The nodes live in a heap, a list indexed by address with the header at 0; the
  levels of new nodes come from \<open>rand()\<close>, a sequence of coins and a position in it. Reading a forward
  pointer that was not allocated is \<open>None\<close>, and so is a walk that never ends.
\<close>

section \<open>Nodes\<close>

record skip_node =
  sk_value :: string
  sk_pk :: string
  sk_forward :: "nat option list"

record skip_list =
  sk_table :: string
  sk_column :: string
  sk_level :: nat
  sk_heap :: "skip_node list"

definition create_skip_node :: "nat \<Rightarrow> string \<Rightarrow> string \<Rightarrow> skip_node" where
  "create_skip_node level val pk = \<lparr>sk_value = val, sk_pk = pk, sk_forward = replicate (level + 1) None\<rparr>"

definition new_skip_list :: "nat \<Rightarrow> string \<Rightarrow> string \<Rightarrow> skip_list" where
  "new_skip_list max_level table col =
     \<lparr>sk_table = table, sk_column = col, sk_level = 0, sk_heap = [create_skip_node max_level [] []]\<rparr>"

definition kv_create_index :: "nat \<Rightarrow> skip_list list \<Rightarrow> string \<Rightarrow> string \<Rightarrow> skip_list list" where
  "kv_create_index max_level indexes table col = new_skip_list max_level table col # indexes"

definition forward_at :: "skip_node list \<Rightarrow> nat \<Rightarrow> nat \<Rightarrow> nat option option" where
  "forward_at h x i =
     (if x < length h \<and> i < length (sk_forward (h ! x)) then Some (sk_forward (h ! x) ! i) else None)"

definition set_forward :: "nat \<Rightarrow> nat \<Rightarrow> nat option \<Rightarrow> skip_node list \<Rightarrow> skip_node list" where
  "set_forward x i n h = h[x := (h ! x)\<lparr>sk_forward := (sk_forward (h ! x))[i := n]\<rparr>]"

section \<open>Searching\<close>

text \<open>The inner \<open>while\<close> at level \<open>i\<close>.\<close>

partial_function (option) skip_walk :: "skip_node list \<Rightarrow> string \<Rightarrow> nat \<Rightarrow> nat \<Rightarrow> nat option" where
  "skip_walk h v i x =
     (case forward_at h x i of
        None \<Rightarrow> None
      | Some None \<Rightarrow> Some x
      | Some (Some y) \<Rightarrow> if strcmp (sk_value (h ! y)) v < 0 then skip_walk h v i y else Some x)"

text \<open>The outer loop over levels \<open>n - 1\<close> down to 0: where it ends, and the array \<open>update\<close>.\<close>

fun skip_descend :: "skip_node list \<Rightarrow> string \<Rightarrow> nat \<Rightarrow> nat \<Rightarrow> (nat \<times> nat list) option" where
  "skip_descend h v 0 x = Some (x, [])"
| "skip_descend h v (Suc i) x =
     (case skip_walk h v i x of
        None \<Rightarrow> None
      | Some y \<Rightarrow>
          (case skip_descend h v i y of
             None \<Rightarrow> None
           | Some (z, update) \<Rightarrow> Some (z, update @ [y])))"

definition find_index :: "skip_list list \<Rightarrow> string \<Rightarrow> string \<Rightarrow> skip_list option" where
  "find_index indexes table col = List.find (\<lambda>ix. sk_table ix = table \<and> sk_column ix = col) indexes"

definition kv_has_index :: "skip_list list \<Rightarrow> string \<Rightarrow> string \<Rightarrow> bool" where
  "kv_has_index indexes table col \<longleftrightarrow> find_index indexes table col \<noteq> None"

text \<open>The first node whose value is not below \<open>val\<close>; the inner \<open>None\<close> is \<open>NULL\<close>.\<close>

definition range_start :: "skip_list \<Rightarrow> string \<Rightarrow> nat option option" where
  "range_start ix val =
     (case skip_descend (sk_heap ix) val (sk_level ix + 1) 0 of
        None \<Rightarrow> None
      | Some (x, _) \<Rightarrow> forward_at (sk_heap ix) x 0)"

definition kv_search_index_range :: "skip_list list \<Rightarrow> string \<Rightarrow> string \<Rightarrow> string \<Rightarrow> nat option option" where
  "kv_search_index_range indexes table col val =
     (case find_index indexes table col of None \<Rightarrow> Some None | Some ix \<Rightarrow> range_start ix val)"

definition kv_search_index :: "skip_list list \<Rightarrow> string \<Rightarrow> string \<Rightarrow> string \<Rightarrow> string option option" where
  "kv_search_index indexes table col val =
     (case find_index indexes table col of
        None \<Rightarrow> Some None
      | Some ix \<Rightarrow>
          (case range_start ix val of
             None \<Rightarrow> None
           | Some None \<Rightarrow> Some None
           | Some (Some x) \<Rightarrow>
               let n = sk_heap ix ! x
               in Some (if strcmp (sk_value n) val = 0 then Some (sk_pk n) else None)))"

text \<open>The scan calls back with key, value and context until the callback says stop or the list ends.\<close>

partial_function (option) scan_loop ::
    "skip_node list \<Rightarrow> string \<Rightarrow> bool \<Rightarrow> (string \<Rightarrow> string \<Rightarrow> 'c \<Rightarrow> bool \<times> 'c) \<Rightarrow> nat option \<Rightarrow> 'c \<Rightarrow> 'c option" where
  "scan_loop h start inclusive cb node ctx =
     (case node of
        None \<Rightarrow> Some ctx
      | Some x \<Rightarrow>
          (case forward_at h x 0 of
             None \<Rightarrow> None
           | Some next \<Rightarrow>
               if \<not> inclusive \<and> strcmp (sk_value (h ! x)) start = 0
               then scan_loop h start inclusive cb next ctx
               else (case cb (sk_pk (h ! x)) (sk_value (h ! x)) ctx of
                       (go, ctx) \<Rightarrow> if go then scan_loop h start inclusive cb next ctx else Some ctx)))"

definition kv_scan_index_range ::
    "skip_list list \<Rightarrow> string \<Rightarrow> string \<Rightarrow> string \<Rightarrow> bool \<Rightarrow> (string \<Rightarrow> string \<Rightarrow> 'c \<Rightarrow> bool \<times> 'c) \<Rightarrow> 'c \<Rightarrow> 'c option" where
  "kv_scan_index_range indexes table col start inclusive cb ctx =
     (case find_index indexes table col of
        None \<Rightarrow> Some ctx
      | Some ix \<Rightarrow>
          (case range_start ix start of
             None \<Rightarrow> None
           | Some node \<Rightarrow> scan_loop (sk_heap ix) start inclusive cb node ctx))"

section \<open>Inserting\<close>

text \<open>\<open>while (rand() % 2 && lvl < MAX_LEVEL) lvl++\<close>: the level, and the position after the coins drawn.\<close>

function random_level :: "(nat \<Rightarrow> bool) \<Rightarrow> nat \<Rightarrow> nat \<Rightarrow> nat \<Rightarrow> nat \<times> nat" where
  "random_level coin max_level pos lvl =
     (if coin pos \<and> lvl < max_level then random_level coin max_level (pos + 1) (lvl + 1) else (lvl, pos + 1))"
  by pat_completeness auto
termination by (relation "measure (\<lambda>(coin, max_level, pos, lvl). max_level - lvl)") auto

declare random_level.simps [simp del]

fun link_levels :: "nat \<Rightarrow> nat list \<Rightarrow> nat list \<Rightarrow> skip_node list \<Rightarrow> skip_node list option" where
  "link_levels x update [] h = Some h"
| "link_levels x update (i # is) h =
     (case forward_at h (update ! i) i of
        None \<Rightarrow> None
      | Some n \<Rightarrow> link_levels x update is (set_forward (update ! i) i (Some x) (set_forward x i n h)))"

definition kv_add_to_index ::
    "(nat \<Rightarrow> bool) \<Rightarrow> nat \<Rightarrow> nat \<Rightarrow> skip_list \<Rightarrow> string \<Rightarrow> string \<Rightarrow> (nat \<times> skip_list) option" where
  "kv_add_to_index coin max_level pos ix val pk =
     (case skip_descend (sk_heap ix) val (sk_level ix + 1) 0 of
        None \<Rightarrow> None
      | Some (_, update) \<Rightarrow>
          let (lvl, pos) = random_level coin max_level pos 0;
              update = update @ replicate (lvl - sk_level ix) 0;
              ix = ix\<lparr>sk_level := max (sk_level ix) lvl\<rparr>;
              x = length (sk_heap ix)
          in map_option (\<lambda>h. (pos, ix\<lparr>sk_heap := h\<rparr>))
               (link_levels x update [0..<lvl + 1] (sk_heap ix @ [create_skip_node lvl val pk])))"

text \<open>\<open>kv_update_indexes\<close>: \<open>strtok\<close> skips empty fields; the name of a field ends at its first colon.\<close>

fun strtok_all :: "char \<Rightarrow> string \<Rightarrow> string \<Rightarrow> string list" where
  "strtok_all d tok [] = (if tok = [] then [] else [tok])"
| "strtok_all d tok (c # cs) =
     (if c = d then (if tok = [] then strtok_all d [] cs else tok # strtok_all d [] cs)
      else strtok_all d (tok @ [c]) cs)"

definition field_value :: "string \<Rightarrow> string \<Rightarrow> string option" where
  "field_value col tok =
     (let name = takeWhile (\<lambda>c. c \<noteq> CHR '':'') tok
      in if length name < length tok \<and> name = col then Some (drop (length name + 1) tok) else None)"

fun add_fields ::
    "(nat \<Rightarrow> bool) \<Rightarrow> nat \<Rightarrow> string \<Rightarrow> string list \<Rightarrow> nat \<times> skip_list \<Rightarrow> (nat \<times> skip_list) option" where
  "add_fields coin max_level pk [] st = Some st"
| "add_fields coin max_level pk (tok # toks) (pos, ix) =
     (case field_value (sk_column ix) tok of
        None \<Rightarrow> add_fields coin max_level pk toks (pos, ix)
      | Some val \<Rightarrow>
          (case kv_add_to_index coin max_level pos ix val pk of
             None \<Rightarrow> None
           | Some st \<Rightarrow> add_fields coin max_level pk toks st))"

fun kv_update_indexes ::
    "(nat \<Rightarrow> bool) \<Rightarrow> nat \<Rightarrow> nat \<Rightarrow> skip_list list \<Rightarrow> string \<Rightarrow> string \<Rightarrow> string \<Rightarrow> (nat \<times> skip_list list) option" where
  "kv_update_indexes coin max_level pos [] table pk row_str = Some (pos, [])"
| "kv_update_indexes coin max_level pos (ix # ixs) table pk row_str =
     (case (if sk_table ix = table
            then add_fields coin max_level pk (strtok_all CHR '';'' [] row_str) (pos, ix)
            else Some (pos, ix)) of
        None \<Rightarrow> None
      | Some (pos, ix) \<Rightarrow>
          map_option (\<lambda>(pos, ixs). (pos, ix # ixs)) (kv_update_indexes coin max_level pos ixs table pk row_str))"

declare skip_walk.simps [code]
declare scan_loop.simps [code]

end
