(* ===== verification/SkipIndexMap.thy ===== *)
theory SkipIndexMap
  imports SkipIndex
begin

text \<open>
  The skip list is a sorted list. \<open>links h i x ys\<close> says that following level \<open>i\<close> from \<open>x\<close> visits \<open>ys\<close>;
  the invariant has one such list per level, each inside the one below, sorted by value. A search
  ends at the last node below the value, an insertion puts one node at that place of every level.
\<close>

section \<open>Paths\<close>

fun links :: "skip_node list \<Rightarrow> nat \<Rightarrow> nat \<Rightarrow> nat list \<Rightarrow> bool" where
  "links h i x [] \<longleftrightarrow> forward_at h x i = Some None"
| "links h i x (y # ys) \<longleftrightarrow> forward_at h x i = Some (Some y) \<and> y < length h \<and> links h i y ys"

fun hops :: "skip_node list \<Rightarrow> nat \<Rightarrow> nat \<Rightarrow> nat list \<Rightarrow> bool" where
  "hops h i x [] \<longleftrightarrow> True"
| "hops h i x (y # ys) \<longleftrightarrow> forward_at h x i = Some (Some y) \<and> y < length h \<and> hops h i y ys"

lemma links_append: "links h i x (us @ ws) \<longleftrightarrow> hops h i x us \<and> links h i (last (x # us)) ws"
  by (induction us arbitrary: x) auto

lemma links_frame:
  "links h i x ys \<Longrightarrow> length h \<le> length h' \<Longrightarrow> \<forall>a \<in> set (x # ys). forward_at h' a i = forward_at h a i \<Longrightarrow>
   links h' i x ys"
  by (induction ys arbitrary: x) auto

lemma hops_frame:
  "hops h i x ys \<Longrightarrow> length h \<le> length h' \<Longrightarrow> \<forall>a \<in> set (butlast (x # ys)). forward_at h' a i = forward_at h a i \<Longrightarrow>
   hops h' i x ys"
  by (induction ys arbitrary: x) (auto split: if_splits)

lemma links_bound: "links h i x ys \<Longrightarrow> y \<in> set ys \<Longrightarrow> y < length h"
  by (induction ys arbitrary: x) auto

lemma links_forward: "links h i x ys \<Longrightarrow> y \<in> set (x # ys) \<Longrightarrow> forward_at h y i \<noteq> None"
  by (induction ys arbitrary: x) auto

definition below :: "skip_node list \<Rightarrow> string \<Rightarrow> nat \<Rightarrow> bool" where
  "below h v a \<longleftrightarrow> sk_value (h ! a) < v"

lemma skip_walk_links:
  "links h i x ys \<Longrightarrow> skip_walk h v i x = Some (last (x # takeWhile (below h v) ys))"
  by (induction ys arbitrary: x) (simp_all add: skip_walk.simps below_def)

section \<open>The invariant\<close>

definition values_sorted :: "skip_node list \<Rightarrow> nat list \<Rightarrow> bool" where
  "values_sorted h ys \<longleftrightarrow> sorted (map (\<lambda>a. sk_value (h ! a)) ys)"

definition skip_inv :: "nat \<Rightarrow> skip_list \<Rightarrow> (nat \<Rightarrow> nat list) \<Rightarrow> bool" where
  "skip_inv m ix L \<longleftrightarrow>
     sk_heap ix \<noteq> [] \<and> sk_level ix \<le> m \<and>
     (\<forall>i \<le> m. links (sk_heap ix) i 0 (L i) \<and> values_sorted (sk_heap ix) (L i) \<and> distinct (0 # L i)) \<and>
     (\<forall>i < m. set (L (Suc i)) \<subseteq> set (L i)) \<and>
     (\<forall>i. sk_level ix < i \<longrightarrow> i \<le> m \<longrightarrow> L i = [])"

definition pred_at :: "skip_node list \<Rightarrow> string \<Rightarrow> nat list \<Rightarrow> nat" where
  "pred_at h v ys = last (0 # takeWhile (below h v) ys)"

lemma takeWhile_below_sorted:
  "values_sorted h (us @ x # ws) \<Longrightarrow> below h v x \<Longrightarrow>
   takeWhile (below h v) (us @ x # ws) = us @ x # takeWhile (below h v) ws"
  by (induction us) (auto simp: values_sorted_def below_def)

lemma dropWhile_not_below:
  "values_sorted h ys \<Longrightarrow> a \<in> set (dropWhile (below h v) ys) \<Longrightarrow> \<not> below h v a"
proof (induction ys)
  case (Cons y ys)
  show ?case
  proof (cases "below h v y")
    case True
    then show ?thesis using Cons by (simp add: values_sorted_def)
  next
    case False
    then have "v \<le> sk_value (h ! y)" by (simp add: below_def)
    moreover have "a = y \<or> sk_value (h ! y) \<le> sk_value (h ! a)" using Cons.prems False by (auto simp: values_sorted_def)
    ultimately show ?thesis by (auto simp: below_def)
  qed
qed simp

text \<open>Where the walk at one level may start: the header, or a node of that level below the value.\<close>

lemma skip_walk_from:
  assumes "links h i 0 ys" and "values_sorted h ys" and "x = 0 \<or> x \<in> set ys \<and> below h v x"
  shows "skip_walk h v i x = Some (pred_at h v ys)"
proof (cases "x = 0")
  case True
  then show ?thesis using skip_walk_links [OF assms(1)] by (simp add: pred_at_def)
next
  case False
  then obtain us ws where ys: "ys = us @ x # ws" using assms(3) by (meson split_list)
  then have "links h i 0 ((us @ [x]) @ ws)" using assms(1) by simp
  then have "links h i x ws" unfolding links_append by simp
  from skip_walk_links [OF this] show ?thesis
    using takeWhile_below_sorted [of h us x ws v] assms(2,3) False ys by (auto simp: pred_at_def)
qed

lemma pred_at_cases: "pred_at h v ys = 0 \<or> pred_at h v ys \<in> set ys \<and> below h v (pred_at h v ys)"
proof (cases "takeWhile (below h v) ys = []")
  case False
  then have "pred_at h v ys \<in> set (takeWhile (below h v) ys)" by (simp add: pred_at_def)
  then show ?thesis using set_takeWhileD by metis
qed (simp add: pred_at_def)

lemma skip_descend_pred:
  assumes "skip_inv m ix L" and "n \<le> m + 1" and "x = 0 \<or> n \<noteq> 0 \<and> x \<in> set (L (n - 1)) \<and> below (sk_heap ix) v x"
  shows "skip_descend (sk_heap ix) v n x =
    Some (if n = 0 then x else pred_at (sk_heap ix) v (L 0), map (\<lambda>i. pred_at (sk_heap ix) v (L i)) [0..<n])"
  using assms(2,3)
proof (induction n arbitrary: x)
  case (Suc i)
  let ?h = "sk_heap ix" and ?p = "\<lambda>i. pred_at (sk_heap ix) v (L i)"
  have i: "links ?h i 0 (L i)" "values_sorted ?h (L i)" using assms(1) Suc.prems(1) by (auto simp: skip_inv_def)
  have walk: "skip_walk ?h v i x = Some (?p i)" by (rule skip_walk_from [OF i]) (use Suc.prems in simp)
  have "set (L i) \<subseteq> set (L (i - 1))" if "i \<noteq> 0"
    using that assms(1) Suc.prems(1) by (cases i) (auto simp: skip_inv_def)
  then have "?p i = 0 \<or> i \<noteq> 0 \<and> ?p i \<in> set (L (i - 1)) \<and> below ?h v (?p i) \<or> i = 0"
    using pred_at_cases [of ?h v "L i"] by blast
  then have "skip_descend ?h v i (?p i) = Some (if i = 0 then ?p i else ?p 0, map ?p [0..<i])"
    using Suc.IH [of "?p i"] Suc.prems(1) by (cases "i = 0") auto
  then show ?case by (simp add: walk)
qed simp

section \<open>Insertion\<close>

lemma length_set_forward [simp]: "length (set_forward x i n h) = length h"
  by (simp add: set_forward_def)

lemma forward_at_set:
  "forward_at h x i \<noteq> None \<Longrightarrow>
   forward_at (set_forward x i n h) y j = (if y = x \<and> j = i then Some n else forward_at h y j)"
  by (auto simp: forward_at_def set_forward_def nth_list_update split: if_splits)

lemma node_set_forward:
  "sk_value (set_forward x i n h ! a) = sk_value (h ! a)" "sk_pk (set_forward x i n h ! a) = sk_pk (h ! a)"
proof -
  have "set_forward x i n h ! a = (if a = x \<and> x < length h then (h ! x)\<lparr>sk_forward := (sk_forward (h ! x))[i := n]\<rparr> else h ! a)"
    by (cases "x < length h") (auto simp: set_forward_def nth_list_update list_update_beyond)
  then show "sk_value (set_forward x i n h ! a) = sk_value (h ! a)" "sk_pk (set_forward x i n h ! a) = sk_pk (h ! a)"
    by simp_all
qed

lemma link_levels_ok:
  assumes "distinct is" and "\<forall>i \<in> set is. forward_at h (update ! i) i \<noteq> None \<and> forward_at h x i \<noteq> None \<and> update ! i \<noteq> x"
  shows "\<exists>h'. link_levels x update is h = Some h' \<and> length h' = length h \<and>
    (\<forall>a. sk_value (h' ! a) = sk_value (h ! a) \<and> sk_pk (h' ! a) = sk_pk (h ! a)) \<and>
    (\<forall>a i. forward_at h' a i =
       (if i \<in> set is \<and> a = update ! i then Some (Some x)
        else if i \<in> set is \<and> a = x then forward_at h (update ! i) i else forward_at h a i))"
  using assms
proof (induction "is" arbitrary: h)
  case (Cons i "is")
  obtain n where n: "forward_at h (update ! i) i = Some n" using Cons.prems(2) by auto
  let ?h = "set_forward (update ! i) i (Some x) (set_forward x i n h)"
  have fwd: "forward_at ?h a j = (if a = update ! i \<and> j = i then Some (Some x) else if a = x \<and> j = i then Some n else forward_at h a j)" for a j
    using Cons.prems(2) by (simp add: forward_at_set)
  have "\<forall>j \<in> set is. forward_at ?h (update ! j) j \<noteq> None \<and> forward_at ?h x j \<noteq> None \<and> update ! j \<noteq> x"
    using Cons.prems by (auto simp: fwd)
  then obtain h' where h': "link_levels x update is ?h = Some h'" "length h' = length ?h"
      "\<forall>a. sk_value (h' ! a) = sk_value (?h ! a) \<and> sk_pk (h' ! a) = sk_pk (?h ! a)"
      "\<forall>a j. forward_at h' a j =
        (if j \<in> set is \<and> a = update ! j then Some (Some x)
         else if j \<in> set is \<and> a = x then forward_at ?h (update ! j) j else forward_at ?h a j)"
    using Cons.IH [of ?h] Cons.prems(1) by auto
  have "forward_at h' a j = (if j \<in> set (i # is) \<and> a = update ! j then Some (Some x)
      else if j \<in> set (i # is) \<and> a = x then forward_at h (update ! j) j else forward_at h a j)" for a j
    using h'(4) fwd n Cons.prems(1) by auto
  then show ?case using h'(1-3) n by (auto simp: node_set_forward)
qed simp

lemma random_level_bound: "lvl \<le> m \<Longrightarrow> fst (random_level coin m pos lvl) \<le> m"
  by (induction coin m pos lvl rule: random_level.induct) (subst random_level.simps, auto)

text \<open>One level before and after.\<close>

lemma links_insert:
  assumes "links h i 0 ys" and "distinct (0 # ys)" and "length h' = length h + 1" and "length h \<noteq> 0"
    and new: "forward_at h' (length h) i = forward_at h (pred_at h v ys) i"
    and pred: "forward_at h' (pred_at h v ys) i = Some (Some (length h))"
    and other: "\<And>a. a \<noteq> pred_at h v ys \<Longrightarrow> a < length h \<Longrightarrow> forward_at h' a i = forward_at h a i"
  shows "links h' i 0 (takeWhile (below h v) ys @ length h # dropWhile (below h v) ys)"
proof -
  let ?t = "takeWhile (below h v) ys" and ?d = "dropWhile (below h v) ys" and ?p = "pred_at h v ys"
  have split: "hops h i 0 ?t" "links h i ?p ?d"
    using assms(1) links_append [of h i 0 ?t ?d] by (simp_all add: pred_at_def)
  have p: "?p = last (0 # ?t)" by (simp add: pred_at_def)
  have dist: "distinct ((0 # ?t) @ ?d)" using assms(2) by (simp only: append_Cons takeWhile_dropWhile_id)
  have bound: "a < length h" if "a \<in> set (0 # ys)" for a using that links_bound [OF assms(1)] assms(4) by auto
  have ne: "0 # ?t \<noteq> []" by simp
  have "distinct (butlast (0 # ?t) @ [last (0 # ?t)])" unfolding append_butlast_last_id [OF ne] using dist by (simp only: distinct_append)
  then have tn: "?p \<notin> set (butlast (0 # ?t))" by (simp add: p)
  have dn: "?p \<notin> set ?d" using dist last_in_set [OF ne] unfolding p distinct_append by blast
  have "hops h' i 0 ?t"
  proof (rule hops_frame [OF split(1)])
    show "\<forall>a \<in> set (butlast (0 # ?t)). forward_at h' a i = forward_at h a i"
    proof
      fix a assume a: "a \<in> set (butlast (0 # ?t))"
      then have "a \<in> set (0 # ys)" using in_set_butlastD [OF a] set_takeWhileD by fastforce
      then have "a < length h" by (rule bound)
      moreover have "a \<noteq> ?p" using a tn by blast
      ultimately show "forward_at h' a i = forward_at h a i" by (intro other)
    qed
  qed (simp add: assms(3))
  moreover have "links h' i (length h) ?d"
  proof (cases ?d)
    case Nil
    then show ?thesis unfolding Nil using new split(2) unfolding Nil by simp
  next
    case (Cons d ds)
    have "links h' i d ds"
    proof (rule links_frame)
      show "links h i d ds" using split(2) Cons by simp
      show "\<forall>a \<in> set (d # ds). forward_at h' a i = forward_at h a i"
        using other bound dn set_dropWhileD [of _ "below h v" ys] unfolding Cons by (metis list.set_intros(2))
    qed (simp add: assms(3))
    then show ?thesis using new split(2) assms(3) unfolding Cons by simp
  qed
  ultimately show ?thesis using pred assms(3) p by (simp only: links_append) simp
qed

section \<open>Adding an entry\<close>

definition entries :: "skip_list \<Rightarrow> nat list \<Rightarrow> (string \<times> string) list" where
  "entries ix ys = map (\<lambda>a. (sk_value (sk_heap ix ! a), sk_pk (sk_heap ix ! a))) ys"

definition put_at :: "skip_node list \<Rightarrow> string \<Rightarrow> nat list \<Rightarrow> nat list" where
  "put_at h v ys = takeWhile (below h v) ys @ length h # dropWhile (below h v) ys"

lemma set_put_at: "set (put_at h v ys) = insert (length h) (set ys)"
proof -
  have "set (takeWhile (below h v) ys @ dropWhile (below h v) ys) = set ys" by simp
  then show ?thesis unfolding put_at_def by (metis Un_insert_right list.simps(15) set_append)
qed

lemma distinct_between: "us @ ws = ys \<Longrightarrow> distinct ys \<Longrightarrow> n \<notin> set ys \<Longrightarrow> distinct (us @ n # ws)"
  by auto

lemma insort_key_takeWhile:
  "sorted (map f xs) \<Longrightarrow> insort_key f x xs = takeWhile (\<lambda>y. f y < f x) xs @ x # dropWhile (\<lambda>y. f y < f x) xs"
  by (induction xs) (auto simp: not_less)

lemma takeWhile_map_eq: "takeWhile P (map f xs) = map f (takeWhile (\<lambda>x. P (f x)) xs)"
  by (induction xs) auto

lemma dropWhile_map_eq: "dropWhile P (map f xs) = map f (dropWhile (\<lambda>x. P (f x)) xs)"
  by (induction xs) auto

text \<open>The nodes of a list, renamed and with the new node in place, as entries.\<close>

lemma put_at_entries:
  assumes ys: "values_sorted h ys" "\<forall>a \<in> set ys. a < length h"
    and old: "\<And>a. a < length h \<Longrightarrow> sk_value (h' ! a) = sk_value (h ! a) \<and> sk_pk (h' ! a) = sk_pk (h ! a)"
    and new: "sk_value (h' ! length h) = v" "sk_pk (h' ! length h) = pk"
  shows "map (\<lambda>a. (sk_value (h' ! a), sk_pk (h' ! a))) (put_at h v ys) =
      insort_key fst (v, pk) (map (\<lambda>a. (sk_value (h ! a), sk_pk (h ! a))) ys)"
    and "values_sorted h' (put_at h v ys)"
proof -
  let ?e = "\<lambda>a. (sk_value (h ! a), sk_pk (h ! a))" and ?e' = "\<lambda>a. (sk_value (h' ! a), sk_pk (h' ! a))"
  have e: "?e' a = ?e a" if "a \<in> set ys" for a using that ys(2) old by simp
  have t: "map ?e' (takeWhile (below h v) ys) = map ?e (takeWhile (below h v) ys)"
    using e set_takeWhileD [of _ "below h v" ys] by (intro map_cong) auto
  have d: "map ?e' (dropWhile (below h v) ys) = map ?e (dropWhile (below h v) ys)"
    using e set_dropWhileD [of _ "below h v" ys] by (intro map_cong) auto
  have b: "below h v = (\<lambda>a. sk_value (h ! a) < v)" by (simp add: fun_eq_iff below_def)
  have s: "sorted (map fst (map ?e ys))" using ys(1) by (simp add: values_sorted_def comp_def)
  have "insort_key fst (v, pk) (map ?e ys) = map ?e (takeWhile (below h v) ys) @ (v, pk) # map ?e (dropWhile (below h v) ys)"
    unfolding insort_key_takeWhile [OF s] takeWhile_map_eq dropWhile_map_eq by (simp add: b)
  then show main: "map ?e' (put_at h v ys) = insort_key fst (v, pk) (map ?e ys)"
    unfolding put_at_def map_append list.map new t d by simp
  have "sorted (map fst (map ?e' (put_at h v ys)))" unfolding main using s by (simp add: sorted_insort_key)
  then show "values_sorted h' (put_at h v ys)" by (simp add: values_sorted_def comp_def)
qed

lemma skip_invD:
  assumes "skip_inv m ix L"
  shows "sk_heap ix \<noteq> []" "sk_level ix \<le> m"
    "i \<le> m \<Longrightarrow> links (sk_heap ix) i 0 (L i)" "i \<le> m \<Longrightarrow> values_sorted (sk_heap ix) (L i)"
    "i \<le> m \<Longrightarrow> distinct (0 # L i)" "i < m \<Longrightarrow> set (L (Suc i)) \<subseteq> set (L i)"
    "sk_level ix < i \<Longrightarrow> i \<le> m \<Longrightarrow> L i = []"
    "i \<le> m \<Longrightarrow> a \<in> set (L i) \<Longrightarrow> a < length (sk_heap ix)"
  using assms links_bound by (auto simp: skip_inv_def)

lemma add_to_index_ok:
  assumes inv: "skip_inv m ix L"
  shows "\<exists>pos' ix' L'. kv_add_to_index coin m pos ix val pk = Some (pos', ix') \<and> skip_inv m ix' L' \<and>
    entries ix' (L' 0) = insort_key fst (val, pk) (entries ix (L 0)) \<and>
    sk_table ix' = sk_table ix \<and> sk_column ix' = sk_column ix"
proof -
  note I = skip_invD [OF inv]
  obtain lvl pos' where r: "random_level coin m pos 0 = (lvl, pos')" by fastforce
  then have lvl: "lvl \<le> m" using random_level_bound [of 0 m coin pos] by simp
  define h where "h = sk_heap ix"
  define g where "g = h @ [create_skip_node lvl val pk]"
  define up where "up = map (\<lambda>i. pred_at h val (L i)) [0..<sk_level ix + 1] @ replicate (lvl - sk_level ix) 0"
  have upi: "up ! i = pred_at h val (L i)" if "i \<le> lvl" for i
  proof (cases "i \<le> sk_level ix")
    case False
    then have "L i = []" using I(7) that lvl by simp
    then show ?thesis using False that by (simp add: up_def nth_append pred_at_def)
  qed (simp add: up_def nth_append del: upt_Suc)
  have pb: "pred_at h val (L i) \<in> set (0 # L i)" if "i \<le> m" for i using pred_at_cases [of h val "L i"] by auto
  have pl: "pred_at h val (L i) < length h" if "i \<le> m" for i
    using pb [OF that] I(1) I(8) [OF that] by (auto simp: h_def)
  have old: "forward_at g a i = forward_at h a i" if "a < length h" for a i
    using that by (simp add: forward_at_def g_def nth_append)
  have newf: "forward_at g (length h) i = (if i \<le> lvl then Some None else None)" for i
    by (simp add: forward_at_def g_def create_skip_node_def nth_append del: replicate_Suc)
  have "\<forall>i \<in> set [0..<lvl + 1]. forward_at g (up ! i) i \<noteq> None \<and> forward_at g (length h) i \<noteq> None \<and> up ! i \<noteq> length h"
  proof
    fix i assume "i \<in> set [0..<lvl + 1]"
    then have i: "i \<le> lvl" "i \<le> m" using lvl by auto
    have "forward_at h (pred_at h val (L i)) i \<noteq> None"
      using links_forward [OF I(3) [OF i(2)]] pb [OF i(2)] by (simp add: h_def)
    then show "forward_at g (up ! i) i \<noteq> None \<and> forward_at g (length h) i \<noteq> None \<and> up ! i \<noteq> length h"
      using pl [OF i(2)] i by (simp add: upi old newf)
  qed
  from link_levels_ok [OF distinct_upt this] obtain h' where
    h': "link_levels (length h) up [0..<lvl + 1] g = Some h'" "length h' = length g"
      "\<And>a. sk_value (h' ! a) = sk_value (g ! a) \<and> sk_pk (h' ! a) = sk_pk (g ! a)"
      and fwd: "\<And>a i. forward_at h' a i =
         (if i \<in> set [0..<lvl + 1] \<and> a = up ! i then Some (Some (length h))
          else if i \<in> set [0..<lvl + 1] \<and> a = length h then forward_at g (up ! i) i else forward_at g a i)"
    by blast
  have "i \<in> set [0..<lvl + 1] \<longleftrightarrow> i \<le> lvl" for i by auto
  note fwd = fwd [unfolded this]
  have node: "sk_value (h' ! length h) = val" "sk_pk (h' ! length h) = pk"
      "a < length h \<Longrightarrow> sk_value (h' ! a) = sk_value (h ! a) \<and> sk_pk (h' ! a) = sk_pk (h ! a)" for a
    using h'(3) by (simp_all add: g_def create_skip_node_def nth_append)
  define L' where "L' = (\<lambda>i. if i \<le> lvl then put_at h val (L i) else L i)"
  let ?ix = "ix\<lparr>sk_level := max (sk_level ix) lvl, sk_heap := h'\<rparr>"
  have add: "kv_add_to_index coin m pos ix val pk = Some (pos', ?ix)"
    using skip_descend_pred [OF inv, of "sk_level ix + 1" 0 val] I(2) h'(1)
    by (simp add: kv_add_to_index_def r up_def g_def h_def del: upt_Suc)
  have lev: "links h' i 0 (L' i)" "values_sorted h' (L' i)" "distinct (0 # L' i)" if i: "i \<le> m" for i
  proof -
    have b: "\<forall>a \<in> set (L i). a < length h" using I(8) [OF i] by (simp add: h_def)
    have l: "links h i 0 (L i)" "values_sorted h (L i)" "distinct (0 # L i)" using I(3-5) [OF i] by (simp_all add: h_def)
    have len: "length h' = length h + 1" using h'(2) by (simp add: g_def)
    have h0: "length h \<noteq> 0" using I(1) by (simp add: h_def)
    have "links h' i 0 (L' i) \<and> values_sorted h' (L' i) \<and> distinct (0 # L' i)"
    proof (cases "i \<le> lvl")
      case True
      have v: "values_sorted h' (L' i)"
        using put_at_entries(2) [OF l(2) b node(3) node(1,2)] True by (simp add: L'_def)
      have "distinct (put_at h val (L i))"
        unfolding put_at_def by (rule distinct_between [OF takeWhile_dropWhile_id]) (use l(3) b in auto)
      then have d: "distinct (0 # L' i)" using l(3) h0 True by (simp add: L'_def set_put_at)
      have "links h' i 0 (takeWhile (below h val) (L i) @ length h # dropWhile (below h val) (L i))"
        by (rule links_insert [OF l(1,3) len h0]) (use True upi [OF True] pl [OF i] old in \<open>auto simp: fwd\<close>)
      then show ?thesis using True v d by (simp add: L'_def put_at_def)
    next
      case False
      then have L: "L' i = L i" by (simp add: L'_def)
      have m: "map (\<lambda>a. sk_value (h' ! a)) (L i) = map (\<lambda>a. sk_value (h ! a)) (L i)"
        by (rule map_cong) (use b node(3) in auto)
      have v: "values_sorted h' (L' i)" using l(2) unfolding L values_sorted_def m .
      have "\<forall>a \<in> set (0 # L i). forward_at h' a i = forward_at h a i"
        using b h0 False by (auto simp: fwd old)
      then show ?thesis using links_frame [OF l(1), of h'] len v l(3) L by simp
    qed
    then show "links h' i 0 (L' i)" "values_sorted h' (L' i)" "distinct (0 # L' i)" by blast+
  qed
  have sub: "set (L' (Suc i)) \<subseteq> set (L' i)" if "i < m" for i
    using I(6) [OF that] by (auto simp: L'_def set_put_at)
  have "skip_inv m ?ix L'"
    unfolding skip_inv_def using lev sub I(2) lvl h'(2) I(7) by (auto simp: g_def L'_def)
  moreover have "entries ?ix (L' 0) = insort_key fst (val, pk) (entries ix (L 0))"
    unfolding entries_def L'_def using put_at_entries(1) [OF _ _ node(3) node(1,2)] I(4,8) [of 0]
    by (simp add: h_def)
  ultimately show ?thesis using add by auto
qed

section \<open>Searching and scanning\<close>

definition index_ok :: "nat \<Rightarrow> skip_list \<Rightarrow> (string \<times> string) list \<Rightarrow> bool" where
  "index_ok m ix es \<longleftrightarrow> (\<exists>L. skip_inv m ix L \<and> entries ix (L 0) = es)"

lemma new_index_ok: "index_ok m (new_skip_list m t c) []"
  unfolding index_ok_def
  by (rule exI [of _ "\<lambda>_. []"])
    (simp add: skip_inv_def new_skip_list_def create_skip_node_def forward_at_def values_sorted_def entries_def
      del: replicate_Suc)

lemma sorted_filter_dropWhile:
  "sorted (map f xs) \<Longrightarrow> dropWhile (\<lambda>x. f x < v) xs = filter (\<lambda>x. v \<le> f x) xs"
proof (induction xs)
  case (Cons x xs)
  show ?case
  proof (cases "f x < v")
    case False
    then have "\<forall>y \<in> set (x # xs). v \<le> f y" using Cons.prems by auto
    then show ?thesis using False by simp
  qed (use Cons in \<open>auto simp: not_less\<close>)
qed simp

lemma links_first: "links h i x ys \<Longrightarrow> forward_at h x i = Some (case ys of [] \<Rightarrow> None | y # _ \<Rightarrow> Some y)"
  by (cases ys) simp_all

text \<open>The nodes from the first one not below the value on.\<close>

lemma index_rest:
  assumes "skip_inv m ix L"
  shows "\<exists>x. range_start ix v = Some (case dropWhile (below (sk_heap ix) v) (L 0) of [] \<Rightarrow> None | y # _ \<Rightarrow> Some y) \<and>
      links (sk_heap ix) 0 x (dropWhile (below (sk_heap ix) v) (L 0))"
    and "entries ix (dropWhile (below (sk_heap ix) v) (L 0)) = filter (\<lambda>e. v \<le> fst e) (entries ix (L 0))"
proof -
  let ?h = "sk_heap ix" and ?d = "dropWhile (below (sk_heap ix) v) (L 0)"
  note I = skip_invD [OF assms]
  have "links ?h 0 0 (takeWhile (below ?h v) (L 0) @ ?d)" using I(3) [of 0] by simp
  then have l: "links ?h 0 (pred_at ?h v (L 0)) ?d" unfolding links_append by (simp add: pred_at_def)
  then have "forward_at ?h (pred_at ?h v (L 0)) 0 = Some (case ?d of [] \<Rightarrow> None | y # _ \<Rightarrow> Some y)"
    by (rule links_first)
  then have "range_start ix v = Some (case ?d of [] \<Rightarrow> None | y # _ \<Rightarrow> Some y)"
    using skip_descend_pred [OF assms, of "sk_level ix + 1" 0 v] I(2) by (simp add: range_start_def del: upt_Suc)
  with l show "\<exists>x. range_start ix v = Some (case ?d of [] \<Rightarrow> None | y # _ \<Rightarrow> Some y) \<and> links ?h 0 x ?d" by blast
  have b: "below ?h v = (\<lambda>a. sk_value (?h ! a) < v)" by (simp add: fun_eq_iff below_def)
  have s: "sorted (map fst (entries ix (L 0)))" using I(4) [of 0] by (simp add: entries_def values_sorted_def comp_def)
  show "entries ix ?d = filter (\<lambda>e. v \<le> fst e) (entries ix (L 0))"
    unfolding sorted_filter_dropWhile [OF s, symmetric] unfolding entries_def dropWhile_map_eq b by simp
qed

fun scan_list :: "(string \<Rightarrow> string \<Rightarrow> 'c \<Rightarrow> bool \<times> 'c) \<Rightarrow> (string \<times> string) list \<Rightarrow> 'c \<Rightarrow> 'c" where
  "scan_list cb [] ctx = ctx"
| "scan_list cb ((v, pk) # es) ctx = (case cb pk v ctx of (go, ctx) \<Rightarrow> if go then scan_list cb es ctx else ctx)"

lemma scan_loop_links:
  "links (sk_heap ix) 0 x ys \<Longrightarrow>
   scan_loop (sk_heap ix) start incl cb (case ys of [] \<Rightarrow> None | y # _ \<Rightarrow> Some y) ctx =
     Some (scan_list cb (filter (\<lambda>e. incl \<or> fst e \<noteq> start) (entries ix ys)) ctx)"
proof (induction ys arbitrary: x ctx)
  case Nil
  then show ?case by (simp add: scan_loop.simps entries_def)
next
  case (Cons y ys)
  have l: "links (sk_heap ix) 0 y ys" using Cons.prems by simp
  note f = links_first [OF this]
  let ?n = "sk_heap ix ! y"
  obtain go ctx' where cb: "cb (sk_pk ?n) (sk_value ?n) ctx = (go, ctx')" by fastforce
  show ?case
    using f Cons.IH [OF l] cb
    by (cases "incl \<or> sk_value ?n \<noteq> start") (auto simp: scan_loop.simps [of _ _ _ _ "Some y"] entries_def)
qed

lemma index_scan:
  assumes "index_ok m ix es" and "find_index ixs t c = Some ix"
  shows "kv_scan_index_range ixs t c start incl cb ctx =
    Some (scan_list cb (filter (\<lambda>e. if incl then start \<le> fst e else start < fst e) es) ctx)"
proof -
  obtain L where L: "skip_inv m ix L" "entries ix (L 0) = es" using assms(1) by (auto simp: index_ok_def)
  obtain x where x: "range_start ix start = Some (case dropWhile (below (sk_heap ix) start) (L 0) of [] \<Rightarrow> None | y # _ \<Rightarrow> Some y)"
      "links (sk_heap ix) 0 x (dropWhile (below (sk_heap ix) start) (L 0))"
    using index_rest(1) [OF L(1), of start] by blast
  have e: "filter (\<lambda>e. incl \<or> fst e \<noteq> start) (filter (\<lambda>e. start \<le> fst e) es) =
      filter (\<lambda>e. if incl then start \<le> fst e else start < fst e) es"
    unfolding filter_filter by (rule filter_cong) auto
  show ?thesis
    unfolding kv_scan_index_range_def assms(2) option.case x(1) scan_loop_links [OF x(2)] index_rest(2) [OF L(1), of start] L(2) e ..
qed

lemma find_filter_head:
  "sorted (map fst es) \<Longrightarrow>
   List.find (\<lambda>e. fst e = v) es = (case filter (\<lambda>e. v \<le> fst e) es of [] \<Rightarrow> None | e # _ \<Rightarrow> if fst e = v then Some e else None)"
proof (induction es)
  case (Cons e es)
  show ?case
  proof (cases v "fst e" rule: linorder_cases)
    case less
    have "fst e \<le> fst e'" if "e' \<in> set es" for e' using that Cons.prems by simp
    then have "\<not> (\<exists>e'. e' \<in> set es \<and> fst e' = v)" using less leD by blast
    then have "List.find (\<lambda>e. fst e = v) es = None" unfolding find_None_iff .
    then show ?thesis using less by (simp add: less_imp_le)
  next
    case equal
    then show ?thesis by simp
  next
    case greater
    then have "\<not> v \<le> fst e" "fst e \<noteq> v" by (simp_all add: not_le)
    then show ?thesis using Cons by simp
  qed
qed simp

lemma index_search:
  assumes "index_ok m ix es" and "find_index ixs t c = Some ix"
  shows "kv_search_index ixs t c v = Some (map_option snd (List.find (\<lambda>e. fst e = v) es))"
proof -
  obtain L where L: "skip_inv m ix L" "entries ix (L 0) = es" using assms(1) by (auto simp: index_ok_def)
  define d where "d = dropWhile (below (sk_heap ix) v) (L 0)"
  have s: "sorted (map fst es)" using skip_invD(4) [OF L(1), of 0] L(2)
    by (auto simp: entries_def values_sorted_def comp_def)
  have start: "range_start ix v = Some (case d of [] \<Rightarrow> None | y # _ \<Rightarrow> Some y)"
    using index_rest(1) [OF L(1), of v] unfolding d_def by blast
  have "filter (\<lambda>e. v \<le> fst e) es = entries ix d" using index_rest(2) [OF L(1), of v] L(2) unfolding d_def by simp
  note f = find_filter_head [OF s, of v, unfolded this]
  show ?thesis
    unfolding kv_search_index_def assms(2) option.case start f
    by (cases d) (simp_all add: entries_def Let_def)
qed

section \<open>Tables with indexes\<close>

text \<open>What a row contributes to an index on \<open>col\<close>, and what a list of insertions does.\<close>

definition row_values :: "string \<Rightarrow> string \<Rightarrow> string list" where
  "row_values col row_str = List.map_filter (field_value col) (strtok_all CHR '';'' [] row_str)"

definition index_pairs :: "string \<Rightarrow> string \<Rightarrow> (string \<times> string \<times> string) list \<Rightarrow> (string \<times> string) list" where
  "index_pairs t c rows =
     concat (map (\<lambda>(t', pk, row). if t' = t then map (\<lambda>v. (v, pk)) (row_values c row) else []) rows)"

fun insert_rows ::
    "(nat \<Rightarrow> bool) \<Rightarrow> nat \<Rightarrow> (string \<times> string \<times> string) list \<Rightarrow> nat \<times> skip_list list \<Rightarrow> (nat \<times> skip_list list) option" where
  "insert_rows coin m [] st = Some st"
| "insert_rows coin m ((t, pk, row) # rows) (pos, ixs) =
     (case kv_update_indexes coin m pos ixs t pk row of None \<Rightarrow> None | Some st \<Rightarrow> insert_rows coin m rows st)"

abbreviation insert_pairs :: "(string \<times> string) list \<Rightarrow> (string \<times> string) list \<Rightarrow> (string \<times> string) list" where
  "insert_pairs ps es \<equiv> fold (insort_key fst) ps es"

text \<open>An index together with what it holds.\<close>

definition holds_pairs :: "nat \<Rightarrow> skip_list \<Rightarrow> string \<times> string \<times> (string \<times> string) list \<Rightarrow> bool" where
  "holds_pairs m ix s \<longleftrightarrow> index_ok m ix (snd (snd s)) \<and> sk_table ix = fst s \<and> sk_column ix = fst (snd s)"

lemma add_fields_ok:
  "holds_pairs m ix (t, c, es) \<Longrightarrow>
   \<exists>pos' ix'. add_fields coin m pk toks (pos, ix) = Some (pos', ix') \<and>
     holds_pairs m ix' (t, c, insert_pairs (map (\<lambda>v. (v, pk)) (List.map_filter (field_value c) toks)) es)"
proof (induction toks arbitrary: pos ix es)
  case Nil
  then show ?case by (simp add: map_filter_def)
next
  case (Cons tok toks)
  have c: "sk_column ix = c" using Cons.prems by (simp add: holds_pairs_def)
  show ?case
  proof (cases "field_value c tok")
    case None
    then show ?thesis using Cons.IH [OF Cons.prems] c by (simp add: map_filter_def)
  next
    case (Some v)
    obtain L where L: "skip_inv m ix L" "entries ix (L 0) = es"
      using Cons.prems by (auto simp: holds_pairs_def index_ok_def)
    obtain pos1 ix1 L1 where a: "kv_add_to_index coin m pos ix v pk = Some (pos1, ix1)" "skip_inv m ix1 L1"
        "entries ix1 (L1 0) = insort_key fst (v, pk) es" "sk_table ix1 = sk_table ix" "sk_column ix1 = sk_column ix"
      using add_to_index_ok [OF L(1), of coin pos v pk] L(2) by auto
    then have "holds_pairs m ix1 (t, c, insort_key fst (v, pk) es)"
      using Cons.prems by (auto simp: holds_pairs_def index_ok_def)
    from Cons.IH [OF this, of pos1] show ?thesis using Some c a(1) by (simp add: map_filter_def)
  qed
qed

lemma update_indexes_ok:
  "list_all2 (holds_pairs m) ixs ss \<Longrightarrow>
   \<exists>pos' ixs'. kv_update_indexes coin m pos ixs table pk row = Some (pos', ixs') \<and>
     list_all2 (holds_pairs m) ixs'
       (map (\<lambda>(t, c, es). (t, c, if t = table then insert_pairs (map (\<lambda>v. (v, pk)) (row_values c row)) es else es)) ss)"
proof (induction arbitrary: pos rule: list_all2_induct)
  case (Cons ix ixs s ss)
  obtain t c es where s: "s = (t, c, es)" by (cases s) auto
  have t: "sk_table ix = t" using Cons.hyps(1) by (simp add: holds_pairs_def s)
  have "\<exists>pos1 ix1. (if t = table then add_fields coin m pk (strtok_all CHR '';'' [] row) (pos, ix) else Some (pos, ix)) = Some (pos1, ix1) \<and>
      holds_pairs m ix1 (t, c, if t = table then insert_pairs (map (\<lambda>v. (v, pk)) (row_values c row)) es else es)"
    using add_fields_ok [of m ix t c es coin pk "strtok_all CHR '';'' [] row" pos] Cons.hyps(1)
    by (cases "t = table") (simp_all add: s row_values_def)
  then obtain pos1 ix1 where 1: "(if t = table then add_fields coin m pk (strtok_all CHR '';'' [] row) (pos, ix) else Some (pos, ix)) = Some (pos1, ix1)"
      "holds_pairs m ix1 (t, c, if t = table then insert_pairs (map (\<lambda>v. (v, pk)) (row_values c row)) es else es)" by blast
  obtain pos2 ixs2 where "kv_update_indexes coin m pos1 ixs table pk row = Some (pos2, ixs2)"
      "list_all2 (holds_pairs m) ixs2
        (map (\<lambda>(t, c, es). (t, c, if t = table then insert_pairs (map (\<lambda>v. (v, pk)) (row_values c row)) es else es)) ss)"
    using Cons.IH [of pos1] by blast
  then show ?case using 1 t by (simp add: s)
qed simp

lemma insert_rows_ok:
  "list_all2 (holds_pairs m) ixs ss \<Longrightarrow>
   \<exists>pos' ixs'. insert_rows coin m rows (pos, ixs) = Some (pos', ixs') \<and>
     list_all2 (holds_pairs m) ixs' (map (\<lambda>(t, c, es). (t, c, insert_pairs (index_pairs t c rows) es)) ss)"
proof (induction rows arbitrary: pos ixs ss)
  case Nil
  have "map (\<lambda>(t, c, es). (t, c, insert_pairs (index_pairs t c []) es)) ss = ss"
    by (rule map_idI) (auto simp: index_pairs_def)
  then show ?case using Nil by simp
next
  case (Cons r rows)
  obtain table pk row where r: "r = (table, pk, row)" by (cases r) auto
  let ?f = "\<lambda>(t, c, es). (t, c, if t = table then insert_pairs (map (\<lambda>v. (v, pk)) (row_values c row)) es else es)"
  obtain pos1 ixs1 where 1: "kv_update_indexes coin m pos ixs table pk row = Some (pos1, ixs1)"
      "list_all2 (holds_pairs m) ixs1 (map ?f ss)"
    using update_indexes_ok [OF Cons.prems, of coin pos table pk row] by blast
  have m: "map (\<lambda>(t, c, es). (t, c, insert_pairs (index_pairs t c rows) es)) (map ?f ss) =
      map (\<lambda>(t, c, es). (t, c, insert_pairs (index_pairs t c (r # rows)) es)) ss"
    by (auto simp: r index_pairs_def)
  obtain pos2 ixs2 where "insert_rows coin m rows (pos1, ixs1) = Some (pos2, ixs2)"
      "list_all2 (holds_pairs m) ixs2 (map (\<lambda>(t, c, es). (t, c, insert_pairs (index_pairs t c (r # rows)) es)) ss)"
    using Cons.IH [OF 1(2), of pos1] unfolding m by blast
  then show ?case using 1(1) by (simp add: r)
qed

lemma find_holds_pairs:
  assumes "list_all2 (holds_pairs m) ixs (map (\<lambda>(t, c, es). (t, c, g t c)) ss)" and "(t, c) \<in> set (map (\<lambda>(t, c, es). (t, c)) ss)"
  shows "\<exists>ix. find_index ixs t c = Some ix \<and> index_ok m ix (g t c)"
  using assms
proof (induction ss arbitrary: ixs)
  case (Cons s ss)
  obtain t' c' es' where s: "s = (t', c', es')" by (cases s) auto
  obtain ix ixs' where ixs: "ixs = ix # ixs'" "holds_pairs m ix (t', c', g t' c')"
      "list_all2 (holds_pairs m) ixs' (map (\<lambda>(t, c, es). (t, c, g t c)) ss)"
    using Cons.prems(1) by (auto simp: s list_all2_Cons2)
  show ?case
  proof (cases "t' = t \<and> c' = c")
    case True
    then show ?thesis using ixs by (auto simp: holds_pairs_def find_index_def)
  next
    case False
    then have "(t, c) \<in> set (map (\<lambda>(t, c, es). (t, c)) ss)" using Cons.prems(2) by (auto simp: s)
    from Cons.IH [OF ixs(3) this] show ?thesis using False ixs by (auto simp: holds_pairs_def find_index_def)
  qed
qed simp

definition create_indexes :: "nat \<Rightarrow> (string \<times> string) list \<Rightarrow> skip_list list" where
  "create_indexes m schema = foldl (\<lambda>ixs (t, c). kv_create_index m ixs t c) [] schema"

lemma create_indexes_ok:
  "list_all2 (holds_pairs m) (create_indexes m schema) (map (\<lambda>(t, c). (t, c, [])) (rev schema))"
proof (induction schema rule: rev_induct)
  case (snoc s schema)
  obtain t c where "s = (t, c)" by (cases s) auto
  then show ?case using snoc new_index_ok [of m t c]
    by (simp add: create_indexes_def kv_create_index_def holds_pairs_def) (simp add: new_skip_list_def)
qed (simp add: create_indexes_def)

text \<open>C32: A skip-list index is a sorted multiset. Create any indexes and insert any rows: whatever
  \<open>rand()\<close> returns, no forward pointer is followed out of its array, every walk ends, a range scan calls
  back exactly with the entries from its start value on (after it, when not inclusive), in \<open>strcmp\<close>
  order, the latest first among equal values, until the callback stops it; and a point search returns
  the key of the latest row with the value.\<close>

theorem skip_index_is_sorted_list:
  assumes "(t, c) \<in> set schema"
  shows "let es = sort_key fst (rev (index_pairs t c rows)) in
    \<exists>pos' ixs. insert_rows coin m rows (pos, create_indexes m schema) = Some (pos', ixs) \<and>
    kv_scan_index_range ixs t c start incl cb ctx =
      Some (scan_list cb (filter (\<lambda>e. if incl then start \<le> fst e else start < fst e) es) ctx) \<and>
    kv_search_index ixs t c v = Some (map_option snd (List.find (\<lambda>e. fst e = v) es))"
proof -
  define es where "es = sort_key fst (rev (index_pairs t c rows))"
  then have es: "es = insert_pairs (index_pairs t c rows) []"
    unfolding sort_key_def by (simp add: foldr_conv_fold)
  let ?ss = "map (\<lambda>(t, c). (t, c, [] :: (string \<times> string) list)) (rev schema)"
  obtain pos' ixs where r: "insert_rows coin m rows (pos, create_indexes m schema) = Some (pos', ixs)"
      "list_all2 (holds_pairs m) ixs (map (\<lambda>(t, c, es). (t, c, insert_pairs (index_pairs t c rows) es)) ?ss)"
    using insert_rows_ok [OF create_indexes_ok, where coin = coin and rows = rows and pos = pos] by blast
  have m: "map (\<lambda>(t, c, es). (t, c, insert_pairs (index_pairs t c rows) es)) ?ss =
      map (\<lambda>(t, c, es). (t, c, insert_pairs (index_pairs t c rows) [])) ?ss"
    by (rule map_cong) auto
  have "(t, c) \<in> set (map (\<lambda>(t, c, es). (t, c)) ?ss)" using assms(1) by force
  from find_holds_pairs [OF r(2) [unfolded m] this] obtain ix where
    ix: "find_index ixs t c = Some ix" "index_ok m ix es" unfolding es by blast
  show ?thesis unfolding Let_def es_def [symmetric]
    by (rule exI [of _ pos'], rule exI [of _ ixs]) (intro conjI r(1) index_scan [OF ix(2,1)] index_search [OF ix(2,1)])
qed

theorem skip_index_is_sorted_list_witness:
  "\<exists>pos' ixs. insert_rows (\<lambda>n. n mod 3 = 0) 6 [(''t'', ''p1'', ''id:1;n:bob''), (''t'', ''p2'', ''n:al'')]
      (0, create_indexes 6 [(''t'', ''n''), (''u'', ''n'')]) = Some (pos', ixs) \<and>
    kv_scan_index_range ixs ''t'' ''n'' ''al'' False (\<lambda>pk v c. (True, c @ [pk])) [] = Some [''p1''] \<and>
    kv_search_index ixs ''t'' ''n'' ''al'' = Some (Some ''p2'')"
proof -
  have pairs: "index_pairs ''t'' ''n'' [(''t'', ''p1'', ''id:1;n:bob''), (''t'', ''p2'', ''n:al'')] = [(''bob'', ''p1''), (''al'', ''p2'')]"
    by code_simp
  have "(''t'', ''n'') \<in> set [(''t'', ''n''), (''u'', ''n'')]" by simp
  from skip_index_is_sorted_list [OF this, where coin = "\<lambda>n. n mod 3 = 0" and m = 6 and pos = 0 and start = "''al''" and incl = False
      and rows = "[(''t'', ''p1'', ''id:1;n:bob''), (''t'', ''p2'', ''n:al'')]" and cb = "\<lambda>pk v c. (True, c @ [pk])" and ctx = "[]" and v = "''al''"]
  show ?thesis unfolding pairs Let_def by simp
qed

end
