(* ===== verification/IndexManager.thy ===== *)
theory IndexManager
  imports CStrings
begin

text \<open>
  The index catalogue of \<open>src/index.c\<close>: creating, finding and dropping index definitions, the composite
  keys and their comparison, and the statistics that insertions and deletions keep. The B+ tree behind
  it is a stub in the code (a search finds nothing), so an index is its definition and its statistics.
  The manager is initialised. \<open>index_create\<close> stores a column count above eight unchecked: building a
  key then reads outside the column array, which is \<open>None\<close>; the choice of an index is modelled for at
  most eight columns.
\<close>

section \<open>Data\<close>

abbreviation MAX_INDEX_COLUMNS :: nat where "MAX_INDEX_COLUMNS \<equiv> 8"
abbreviation MAX_INDEX_NAME_LEN :: nat where "MAX_INDEX_NAME_LEN \<equiv> 128"
abbreviation MAX_INDEX_KEY_SIZE :: nat where "MAX_INDEX_KEY_SIZE \<equiv> 256"

datatype index_type = INDEX_TYPE_BTREE | INDEX_TYPE_HASH | INDEX_TYPE_FULLTEXT | INDEX_TYPE_SPATIAL
datatype index_state = INDEX_STATE_BUILDING | INDEX_STATE_VALID | INDEX_STATE_INVALID | INDEX_STATE_DROPPED

record index_column =
  col_column_name :: string
  col_column_pos :: int
  col_descending :: bool
  col_key_prefix_len :: int

record index_stats =
  st_total_entries :: u64
  st_distinct_keys :: u64
  st_leaf_pages :: u64
  st_min_value :: "bytes option"
  st_max_value :: "bytes option"
  st_seek_count :: u64
  st_scan_count :: u64
  st_update_count :: u64

record index_def =
  idx_name :: string
  idx_table_name :: string
  idx_index_id :: u32
  idx_type :: index_type
  idx_state :: index_state
  idx_is_unique :: bool
  idx_is_primary :: bool
  idx_columns :: "index_column list"
  idx_column_count :: nat
  idx_index_file :: string
  idx_stats :: index_stats

record index_manager =
  im_indexes :: "index_def list"
  im_next_id :: u32
  im_total_indexes :: nat

definition index_manager_init :: "u32 \<Rightarrow> index_manager" where
  "index_manager_init next_id = \<lparr>im_indexes = [], im_next_id = next_id, im_total_indexes = 0\<rparr>"

section \<open>The catalogue\<close>

definition index_get :: "index_manager \<Rightarrow> string \<Rightarrow> string \<Rightarrow> index_def option" where
  "index_get im table name =
     List.find (\<lambda>ix. idx_table_name ix = table \<and> idx_name ix = name \<and> idx_state ix = INDEX_STATE_VALID) (im_indexes im)"

definition index_get_all :: "index_manager \<Rightarrow> string \<Rightarrow> index_def list" where
  "index_get_all im table = filter (\<lambda>ix. idx_table_name ix = table \<and> idx_state ix = INDEX_STATE_VALID) (im_indexes im)"

definition new_stats :: index_stats where
  "new_stats = \<lparr>st_total_entries = 0, st_distinct_keys = 0, st_leaf_pages = 0, st_min_value = None,
     st_max_value = None, st_seek_count = 0, st_scan_count = 0, st_update_count = 0\<rparr>"

text \<open>The name is cut to its array; the column count is stored as given although eight columns fit.\<close>

definition index_create ::
    "index_manager \<Rightarrow> string \<Rightarrow> string \<Rightarrow> index_column list \<Rightarrow> index_type \<Rightarrow> bool \<Rightarrow> index_manager \<times> index_def option" where
  "index_create im table name columns type unique =
     (if columns = [] then (im, None)
      else if index_get im table name \<noteq> None then (im, None)
      else
        let id' = im_next_id im + 1;
            ix = \<lparr>idx_name = take (MAX_INDEX_NAME_LEN - 1) name, idx_table_name = table, idx_index_id = id',
                  idx_type = type, idx_state = INDEX_STATE_VALID, idx_is_unique = unique, idx_is_primary = False,
                  idx_columns = take MAX_INDEX_COLUMNS columns, idx_column_count = length columns,
                  idx_index_file = take 255 (table @ ''_'' @ name @ ''.idx''), idx_stats = new_stats\<rparr>
        in (im\<lparr>im_indexes := im_indexes im @ [ix], im_next_id := id', im_total_indexes := im_total_indexes im + 1\<rparr>, Some ix))"

text \<open>Dropping frees the names of all \<open>column_count\<close> columns, which reads past the array when there are
  more than eight (\<open>None\<close>), and compacts the array of definitions.\<close>

definition index_drop :: "index_manager \<Rightarrow> string \<Rightarrow> string \<Rightarrow> (int \<times> index_manager) option" where
  "index_drop im table name =
     (case first_idx (\<lambda>ix. idx_table_name ix = table \<and> idx_name ix = name) (im_indexes im) of
        None \<Rightarrow> Some (-1, im)
      | Some i \<Rightarrow>
          if MAX_INDEX_COLUMNS < idx_column_count (im_indexes im ! i) then None
          else Some (0, im\<lparr>im_indexes := take i (im_indexes im) @ drop (Suc i) (im_indexes im)\<rparr>))"

text \<open>\<open>while (1)\<close>: look for any index of the table, drop it by its name; ends when none is left. The
  outer \<open>None\<close> is a loop that does not end, the inner one the read past the columns.\<close>

partial_function (option) drop_all_loop :: "string \<Rightarrow> int \<Rightarrow> index_manager \<Rightarrow> (int \<times> index_manager) option option" where
  "drop_all_loop table dropped im =
     (case List.find (\<lambda>ix. idx_table_name ix = table) (im_indexes im) of
        None \<Rightarrow> Some (Some (dropped, im))
      | Some ix \<Rightarrow>
          (case index_drop im table (idx_name ix) of
             None \<Rightarrow> Some None
           | Some r \<Rightarrow> drop_all_loop table (if fst r = 0 then dropped + 1 else dropped) (snd r)))"

declare drop_all_loop.simps [code]

definition index_drop_all :: "index_manager \<Rightarrow> string \<Rightarrow> (int \<times> index_manager) option option" where
  "index_drop_all im table = drop_all_loop table 0 im"

section \<open>Composite keys\<close>

text \<open>One column of a key: \<open>Some None\<close> when the key would not fit (-1), \<open>None\<close> for a write past the
  buffer, which the markers are not checked for.\<close>

definition key_part :: "int \<Rightarrow> nat \<Rightarrow> string option \<Rightarrow> bytes option option" where
  "key_part prefix_len offset val =
     (if offset \<ge> MAX_INDEX_KEY_SIZE then None
      else
        (case val of
           None \<Rightarrow> Some (Some [0])
         | Some v \<Rightarrow>
             let max_len = (if prefix_len \<le> 0 then 255 else prefix_len);
                 val_len = (if int (length v) > max_len then nat max_len else length v)
             in if offset + 1 + val_len + 2 > MAX_INDEX_KEY_SIZE then Some None
                else Some (Some ([1, word_of_nat val_len] @ bytes_of (take val_len v)))))"

fun key_parts :: "index_column list \<Rightarrow> string option list \<Rightarrow> bytes \<Rightarrow> bytes option option" where
  "key_parts (c # cs) (v # vs) key =
     (case key_part (col_key_prefix_len c) (length key) v of
        None \<Rightarrow> None
      | Some None \<Rightarrow> Some None
      | Some (Some p) \<Rightarrow> key_parts cs vs (key @ p))"
| "key_parts _ _ key = Some (Some key)"

definition index_build_key :: "index_def \<Rightarrow> string option list \<Rightarrow> bytes option option" where
  "index_build_key ix vals =
     (if idx_column_count ix > length (idx_columns ix) \<or> length vals < idx_column_count ix then None
      else key_parts (take (idx_column_count ix) (idx_columns ix)) vals [])"

fun memcmp :: "bytes \<Rightarrow> bytes \<Rightarrow> int" where
  "memcmp (a # as) (b # bs) = (if a < b then -1 else if b < a then 1 else memcmp as bs)"
| "memcmp _ _ = 0"

definition index_key_compare :: "bytes \<Rightarrow> bytes \<Rightarrow> int" where
  "index_key_compare k1 k2 =
     (let n = min (length k1) (length k2);
          cmp = memcmp (take n k1) (take n k2)
      in if cmp \<noteq> 0 then cmp else if length k1 < length k2 then -1 else if length k1 > length k2 then 1 else 0)"

section \<open>Entries and statistics\<close>

text \<open>The bounds are kept as C strings: a comparison sees them up to their first NUL.\<close>

definition c_bytes :: "bytes \<Rightarrow> bytes" where
  "c_bytes bs = takeWhile (\<lambda>b. b \<noteq> 0) bs"

definition index_btree_insert :: "index_def \<Rightarrow> bytes \<Rightarrow> int \<times> index_def" where
  "index_btree_insert ix key =
     (if key = [] then (-1, ix)
      else
        let s = idx_stats ix;
            lower = (case st_min_value s of None \<Rightarrow> True | Some m \<Rightarrow> index_key_compare key (c_bytes m) < 0);
            upper = (case st_max_value s of None \<Rightarrow> True | Some m \<Rightarrow> index_key_compare key (c_bytes m) > 0)
        in (0, ix\<lparr>idx_stats := s\<lparr>st_total_entries := st_total_entries s + 1, st_update_count := st_update_count s + 1,
              st_min_value := (if lower then Some key else st_min_value s),
              st_max_value := (if upper then Some key else st_max_value s)\<rparr>\<rparr>))"

definition index_btree_delete :: "index_def \<Rightarrow> bytes \<Rightarrow> int \<times> index_def" where
  "index_btree_delete ix key =
     (if key = [] then (-1, ix)
      else
        let s = idx_stats ix
        in (0, ix\<lparr>idx_stats := s\<lparr>st_total_entries := (if st_total_entries s > 0 then st_total_entries s - 1 else st_total_entries s),
              st_update_count := st_update_count s + 1\<rparr>\<rparr>))"

definition index_update :: "index_def \<Rightarrow> bytes \<Rightarrow> bytes \<Rightarrow> int \<times> index_def" where
  "index_update ix old_key new_key =
     (case index_btree_delete ix old_key of
        (rc, ix) \<Rightarrow> if rc \<noteq> 0 then (rc, ix) else index_btree_insert ix new_key)"

text \<open>The lookup is a stub: it counts a seek and finds nothing.\<close>

definition index_lookup :: "index_def \<Rightarrow> bytes \<Rightarrow> int \<times> nat \<times> index_def" where
  "index_lookup ix key = (0, 0, ix\<lparr>idx_stats := (idx_stats ix)\<lparr>st_seek_count := st_seek_count (idx_stats ix) + 1\<rparr>\<rparr>)"

text \<open>Rebuilding only clears counters; the bounds stay.\<close>

definition index_rebuild :: "index_manager \<Rightarrow> string \<Rightarrow> string \<Rightarrow> int \<times> index_manager" where
  "index_rebuild im table name =
     (case first_idx (\<lambda>ix. idx_table_name ix = table \<and> idx_name ix = name \<and> idx_state ix = INDEX_STATE_VALID) (im_indexes im) of
        None \<Rightarrow> (-1, im)
      | Some i \<Rightarrow>
          let ix = im_indexes im ! i
          in (0, im\<lparr>im_indexes := (im_indexes im)[i := ix\<lparr>idx_state := INDEX_STATE_VALID,
                idx_stats := (idx_stats ix)\<lparr>st_total_entries := 0, st_distinct_keys := 0, st_leaf_pages := 0\<rparr>\<rparr>]\<rparr>))"

section \<open>Cursors\<close>

text \<open>No code sets the current node of a cursor, so it stays \<open>NULL\<close> and is left out.\<close>

record index_cursor =
  cur_start_key :: bytes
  cur_end_key :: bytes
  cur_include_start :: bool
  cur_include_end :: bool
  cur_at_end :: bool
  cur_forward :: bool
  cur_rows_scanned :: u64

definition index_scan_range :: "index_def \<Rightarrow> bytes \<Rightarrow> bytes \<Rightarrow> bool \<Rightarrow> bool \<Rightarrow> index_cursor \<times> index_def" where
  "index_scan_range ix start_key end_key include_start include_end =
     (\<lparr>cur_start_key = start_key, cur_end_key = end_key, cur_include_start = include_start,
       cur_include_end = include_end, cur_at_end = False, cur_forward = True, cur_rows_scanned = 0\<rparr>,
      ix\<lparr>idx_stats := (idx_stats ix)\<lparr>st_scan_count := st_scan_count (idx_stats ix) + 1\<rparr>\<rparr>)"

definition index_scan_full :: "index_def \<Rightarrow> bool \<Rightarrow> index_cursor \<times> index_def" where
  "index_scan_full ix forward = index_scan_range ix [] [] True True"

definition index_cursor_next :: "index_cursor \<Rightarrow> bool \<times> index_cursor" where
  "index_cursor_next c =
     (False, if cur_at_end c then c else c\<lparr>cur_rows_scanned := cur_rows_scanned c + 1, cur_at_end := True\<rparr>)"

definition index_cursor_prev :: "index_cursor \<Rightarrow> bool \<times> index_cursor" where
  "index_cursor_prev c =
     (False, if cur_at_end c then c else c\<lparr>cur_rows_scanned := cur_rows_scanned c + 1, cur_at_end := True\<rparr>)"

section \<open>Choosing an index\<close>

definition index_generate_name :: "string \<Rightarrow> string list \<Rightarrow> string" where
  "index_generate_name table columns = ''idx_'' @ table @ concat (map (\<lambda>c. CHR ''_'' # c) (take 3 columns))"

fun leading_matches :: "index_column list \<Rightarrow> string list \<Rightarrow> nat" where
  "leading_matches (c # cs) (n # ns) = (if col_column_name c = n then Suc (leading_matches cs ns) else 0)"
| "leading_matches _ _ = 0"

fun best_loop :: "index_def list \<Rightarrow> string list \<Rightarrow> bool \<Rightarrow> index_def option \<times> nat \<Rightarrow> index_def option \<times> nat" where
  "best_loop [] columns need_unique best = best"
| "best_loop (ix # ixs) columns need_unique (best, best_score) =
     (if need_unique \<and> \<not> idx_is_unique ix then best_loop ixs columns need_unique (best, best_score)
      else
        let score = leading_matches (take (idx_column_count ix) (idx_columns ix)) columns
        in best_loop ixs columns need_unique (if score > best_score then (Some ix, score) else (best, best_score)))"

definition index_find_best :: "index_manager \<Rightarrow> string \<Rightarrow> string list \<Rightarrow> bool \<Rightarrow> index_def option" where
  "index_find_best im table columns need_unique =
     (if columns = [] then None else fst (best_loop (index_get_all im table) columns need_unique (None, 0)))"

definition index_is_covering :: "index_def \<Rightarrow> string list \<Rightarrow> bool" where
  "index_is_covering ix needed \<longleftrightarrow>
     needed \<noteq> [] \<and> list_all (\<lambda>n. n \<in> set (map col_column_name (take (idx_column_count ix) (idx_columns ix)))) needed"

definition index_column_is_indexed :: "index_manager \<Rightarrow> string \<Rightarrow> string \<Rightarrow> bool" where
  "index_column_is_indexed im table column \<longleftrightarrow>
     list_ex (\<lambda>ix. column \<in> set (map col_column_name (take (idx_column_count ix) (idx_columns ix)))) (index_get_all im table)"

definition index_get_primary :: "index_manager \<Rightarrow> string \<Rightarrow> index_def option" where
  "index_get_primary im table = List.find idx_is_primary (index_get_all im table)"

section \<open>Dropping all\<close>

lemma remove_nth_filter:
  assumes "i < length xs"
  shows "filter P (take i xs @ drop (Suc i) xs) = filter P xs \<or> P (xs ! i)"
    and "length (filter P xs) = length (filter P (take i xs @ drop (Suc i) xs)) + (if P (xs ! i) then 1 else 0)"
proof -
  define us where "us = take i xs"
  define ws where "ws = drop (Suc i) xs"
  define x where "x = xs ! i"
  have xs: "xs = us @ x # ws" unfolding us_def ws_def x_def using assms by (rule id_take_nth_drop)
  have "filter P (us @ ws) = filter P (us @ x # ws) \<or> P x"
    "length (filter P (us @ x # ws)) = length (filter P (us @ ws)) + (if P x then 1 else 0)" by simp_all
  then show "filter P (take i xs @ drop (Suc i) xs) = filter P xs \<or> P (xs ! i)"
    "length (filter P xs) = length (filter P (take i xs @ drop (Suc i) xs)) + (if P (xs ! i) then 1 else 0)"
    unfolding us_def [symmetric] ws_def [symmetric] x_def [symmetric] unfolding xs [symmetric] .
qed

abbreviation of_table :: "string \<Rightarrow> index_def \<Rightarrow> bool" where
  "of_table table ix \<equiv> idx_table_name ix = table"

lemma first_with_name:
  assumes "List.find (of_table table) xs = Some ix"
  shows "\<exists>i. first_idx (\<lambda>x. of_table table x \<and> idx_name x = idx_name ix) xs = Some i \<and> i < length xs \<and> xs ! i = ix"
  using assms by (induction xs) (auto simp: first_idx.simps split: if_splits)

lemma drop_all_loop_ok:
  "drop_all_loop table d im =
     Some (if \<exists>ix \<in> set (im_indexes im). of_table table ix \<and> MAX_INDEX_COLUMNS < idx_column_count ix then None
           else Some (d + int (length (filter (of_table table) (im_indexes im))),
             im\<lparr>im_indexes := filter (\<lambda>x. \<not> of_table table x) (im_indexes im)\<rparr>))"
proof (induction n \<equiv> "length (filter (of_table table) (im_indexes im))" arbitrary: d im)
  case 0
  then have none: "\<forall>x \<in> set (im_indexes im). \<not> of_table table x" by (simp add: filter_empty_conv)
  then have "List.find (of_table table) (im_indexes im) = None" unfolding find_None_iff by blast
  moreover have "filter (\<lambda>x. \<not> of_table table x) (im_indexes im) = im_indexes im" using none by simp
  ultimately show ?case using 0 none by (subst drop_all_loop.simps) auto
next
  case (Suc n)
  let ?xs = "im_indexes im"
  have "filter (of_table table) ?xs \<noteq> []" using Suc.hyps(2) by auto
  then have "\<exists>x. x \<in> set ?xs \<and> of_table table x" by (auto simp: filter_empty_conv)
  then have "List.find (of_table table) ?xs \<noteq> None" unfolding find_None_iff by blast
  then obtain ix where ix: "List.find (of_table table) ?xs = Some ix" by blast
  then have mem: "ix \<in> set ?xs" "of_table table ix" by (auto simp: find_Some_iff)
  obtain i where i: "first_idx (\<lambda>x. of_table table x \<and> idx_name x = idx_name ix) ?xs = Some i" "i < length ?xs" "?xs ! i = ix"
    using first_with_name [OF ix] by blast
  show ?case
  proof (cases "MAX_INDEX_COLUMNS < idx_column_count ix")
    case True
    then show ?thesis using ix i mem by (subst drop_all_loop.simps) (auto simp: index_drop_def)
  next
    case False
    let ?ys = "take i ?xs @ drop (Suc i) ?xs"
    have d: "index_drop im table (idx_name ix) = Some (0, im\<lparr>im_indexes := ?ys\<rparr>)" using i False by (simp add: index_drop_def)
    have xs: "?xs = take i ?xs @ ix # drop (Suc i) ?xs" using i id_take_nth_drop by metis
    have others: "filter (\<lambda>x. \<not> of_table table x) ?ys = filter (\<lambda>x. \<not> of_table table x) ?xs"
      and len: "length (filter (of_table table) ?xs) = Suc (length (filter (of_table table) ?ys))"
      using remove_nth_filter [OF i(2), of "\<lambda>x. \<not> of_table table x"] remove_nth_filter(2) [OF i(2), of "of_table table"]
        mem(2) i(3) by simp_all
    have wide: "(\<exists>y \<in> set ?ys. of_table table y \<and> MAX_INDEX_COLUMNS < idx_column_count y) \<longleftrightarrow>
        (\<exists>y \<in> set ?xs. of_table table y \<and> MAX_INDEX_COLUMNS < idx_column_count y)"
      using False by (subst (2) xs) auto
    have "n = length (filter (of_table table) (im_indexes (im\<lparr>im_indexes := ?ys\<rparr>)))" using Suc.hyps(2) len by simp
    from Suc.hyps(1) [OF this, of "d + 1"] show ?thesis
      unfolding drop_all_loop.simps [of table d im] using ix d others len wide by simp
  qed
qed

text \<open>C33: The endless loop of \<open>index_drop_all\<close> ends for every catalogue. When no index of the table was
  created with more than eight columns, it drops each of them once, whatever their states and names,
  returns their number and leaves the indexes of every other table as they were, in their order; when
  one was, it ends by reading past the column array of that index.\<close>

theorem index_drop_all_returns:
  "index_drop_all im table =
     Some (if \<exists>ix \<in> set (im_indexes im). idx_table_name ix = table \<and> MAX_INDEX_COLUMNS < idx_column_count ix then None
           else Some (int (length (filter (\<lambda>ix. idx_table_name ix = table) (im_indexes im))),
             im\<lparr>im_indexes := filter (\<lambda>ix. idx_table_name ix \<noteq> table) (im_indexes im)\<rparr>))"
  by (simp add: index_drop_all_def drop_all_loop_ok)

section \<open>Keys\<close>

text \<open>What of a value enters the key.\<close>

definition key_value :: "index_column \<Rightarrow> string option \<Rightarrow> string option" where
  "key_value c v = map_option (take (if col_key_prefix_len c \<le> 0 then 255 else nat (col_key_prefix_len c))) v"

definition part_bytes :: "string option \<Rightarrow> bytes" where
  "part_bytes v = (case v of None \<Rightarrow> [0] | Some s \<Rightarrow> [1, word_of_nat (length s)] @ bytes_of s)"

definition short :: "string option \<Rightarrow> bool" where
  "short v \<longleftrightarrow> (case v of None \<Rightarrow> True | Some s \<Rightarrow> length s < 256)"

lemma key_part_bytes:
  assumes "key_part (col_key_prefix_len c) offset v = Some (Some p)"
  shows "p = part_bytes (key_value c v)" and "short (key_value c v)"
proof -
  have "p = part_bytes (key_value c v) \<and> short (key_value c v)"
  proof (cases v)
    case (Some s)
    let ?n = "if col_key_prefix_len c \<le> 0 then 255 else col_key_prefix_len c"
    let ?l = "if int (length s) > ?n then nat ?n else length s"
    have len: "length (take (nat ?n) s) = ?l" by auto
    have "nat ?n = (if col_key_prefix_len c \<le> 0 then 255 else nat (col_key_prefix_len c))" by simp
    moreover have "take ?l s = take (nat ?n) s" by auto
    moreover have "p = [1, word_of_nat ?l] @ bytes_of (take ?l s)" "?l < 256"
      using assms Some by (auto simp: key_part_def Let_def split: if_splits)
    ultimately show ?thesis using Some len by (simp add: part_bytes_def key_value_def short_def)
  qed (use assms in \<open>auto simp: key_part_def key_value_def part_bytes_def short_def split: if_splits\<close>)
  then show "p = part_bytes (key_value c v)" "short (key_value c v)" by auto
qed

lemma bytes_of_inject [simp]: "bytes_of s = bytes_of t \<longleftrightarrow> s = t"
  by (metis string_of_bytes_of)

lemma part_bytes_append:
  assumes "short v" "short w"
  shows "part_bytes v @ r = part_bytes w @ r' \<longleftrightarrow> v = w \<and> r = r'"
proof (cases v; cases w)
  fix s t assume v: "v = Some s" "w = Some t"
  have "(word_of_nat (length s) :: byte) = word_of_nat (length t) \<longleftrightarrow> length s = length t"
    using assms v by (simp add: short_def word_of_nat_eq_iff take_bit_nat_eq_self)
  then show ?thesis using v by (auto simp: part_bytes_def append_eq_append_conv)
qed (simp_all add: part_bytes_def)

lemma key_parts_bytes:
  "key_parts cs vs key = Some (Some k) \<Longrightarrow> length cs \<le> length vs \<Longrightarrow>
   k = key @ concat (map part_bytes (map2 key_value cs vs)) \<and> list_all short (map2 key_value cs vs)"
proof (induction cs vs key rule: key_parts.induct)
  case (1 c cs v vs key)
  then show ?case using key_part_bytes [of c "length key" v] by (auto split: option.splits)
qed simp_all

lemma concat_parts_inject:
  "list_all short xs \<Longrightarrow> list_all short ys \<Longrightarrow> length xs = length ys \<Longrightarrow>
   concat (map part_bytes xs) = concat (map part_bytes ys) \<longleftrightarrow> xs = ys"
proof (induction xs arbitrary: ys)
  case (Cons x xs)
  then obtain y ys' where "ys = y # ys'" by (cases ys) auto
  then show ?case using Cons by (simp add: part_bytes_append)
qed simp

definition key_columns :: "index_def \<Rightarrow> string option list \<Rightarrow> string option list" where
  "key_columns ix vals = map2 key_value (take (idx_column_count ix) (idx_columns ix)) vals"

text \<open>Composite keys identify rows: two rows get the same key exactly when each indexed column,
  cut to its prefix length, is the same in both, NULL being different from every string.\<close>

theorem index_keys_identify:
  assumes "index_build_key ix vs = Some (Some k)" and "index_build_key ix ws = Some (Some k')"
  shows "k = k' \<longleftrightarrow> key_columns ix vs = key_columns ix ws"
proof -
  let ?cs = "take (idx_column_count ix) (idx_columns ix)"
  have n: "idx_column_count ix \<le> length vs" "idx_column_count ix \<le> length ws"
    and b: "key_parts ?cs vs [] = Some (Some k)" "key_parts ?cs ws [] = Some (Some k')"
    using assms by (auto simp: index_build_key_def split: if_splits)
  have "k = concat (map part_bytes (key_columns ix vs))" "list_all short (key_columns ix vs)"
    using key_parts_bytes [OF b(1)] n by (simp_all add: key_columns_def)
  moreover have "k' = concat (map part_bytes (key_columns ix ws))" "list_all short (key_columns ix ws)"
    using key_parts_bytes [OF b(2)] n by (simp_all add: key_columns_def)
  moreover have "length (key_columns ix vs) = length (key_columns ix ws)" using n by (simp add: key_columns_def)
  ultimately show ?thesis by (simp add: concat_parts_inject)
qed

theorem index_keys_identify_witness:
  "let c = \<lparr>col_column_name = ''n'', col_column_pos = 0, col_descending = False, col_key_prefix_len = 2\<rparr>;
       ix = the (snd (index_create (index_manager_init 0) ''t'' ''i'' [c, c] INDEX_TYPE_BTREE False))
   in (index_build_key ix [Some ''abc'', None] = index_build_key ix [Some ''abd'', None]) =
      (key_columns ix [Some ''abc'', None] = key_columns ix [Some ''abd'', None])"
proof -
  define c where "c = \<lparr>col_column_name = ''n'', col_column_pos = 0, col_descending = False, col_key_prefix_len = 2\<rparr>"
  define ix where "ix = the (snd (index_create (index_manager_init 0) ''t'' ''i'' [c, c] INDEX_TYPE_BTREE False))"
  have ix: "idx_columns ix = [c, c]" "idx_column_count ix = 2" "col_key_prefix_len c = 2"
    by (simp_all add: ix_def c_def index_create_def index_get_def index_manager_init_def Let_def)
  have k: "index_build_key ix [Some ''abc'', None] = Some (Some [1, 2, 97, 98, 0])"
    "index_build_key ix [Some ''abd'', None] = Some (Some [1, 2, 97, 98, 0])"
    by (simp_all add: index_build_key_def ix key_part_def bytes_of_def byte_of_char_def)
  show ?thesis unfolding Let_def c_def [symmetric] ix_def [symmetric]
    using index_keys_identify [OF k] by (simp add: k)
qed

section \<open>The order of keys\<close>

lemma memcmp_first: "a < b \<Longrightarrow> memcmp (x # a # as) (x # b # bs) = -1"
  by simp

text \<open>Keys sort by length first. In an index on one column a shorter value comes before every longer
  one, whatever their characters, since the length byte is compared before the bytes of the value.\<close>

theorem index_key_order_is_by_length:
  assumes "index_build_key ix [Some v] = Some (Some k)" and "index_build_key ix [Some w] = Some (Some k')"
    and "idx_column_count ix = 1" and "col_key_prefix_len (idx_columns ix ! 0) \<le> 0" and "length v < length w"
  shows "index_key_compare k k' < 0"
proof -
  have col: "0 < length (idx_columns ix)" using assms(1,3) by (auto simp: index_build_key_def split: if_splits)
  then obtain c cs where cs: "idx_columns ix = c # cs" by (cases "idx_columns ix") auto
  have *: "k = part_bytes (Some v) \<and> length v < 254" if "index_build_key ix [Some v] = Some (Some k)" for v k
  proof -
    have "key_part (col_key_prefix_len c) 0 (Some v) = Some (Some k)"
      using that assms(3) by (auto simp: index_build_key_def cs split: option.splits if_splits)
    then show ?thesis using assms(4) by (auto simp: key_part_def cs Let_def part_bytes_def split: if_splits)
  qed
  have k: "k = part_bytes (Some v)" "k' = part_bytes (Some w)" "length v < 254" "length w < 254"
    using * [OF assms(1)] * [OF assms(2)] by auto
  have "(word_of_nat (length v) :: byte) < word_of_nat (length w)"
    using k assms(5) by (simp add: word_less_nat_alt unat_of_nat)
  then show ?thesis using k(1,2) assms(5)
    by (simp add: index_key_compare_def part_bytes_def Let_def)
qed

theorem index_key_order_is_by_length_witness:
  "let c = \<lparr>col_column_name = ''n'', col_column_pos = 0, col_descending = False, col_key_prefix_len = 0\<rparr>;
       ix = the (snd (index_create (index_manager_init 0) ''t'' ''i'' [c] INDEX_TYPE_BTREE False))
   in index_build_key ix [Some ''b''] = Some (Some [1, 1, 98]) \<and> index_build_key ix [Some ''aa''] = Some (Some [1, 2, 97, 97]) \<and>
      index_key_compare [1, 1, 98] [1, 2, 97, 97] < 0"
proof -
  define c where "c = \<lparr>col_column_name = ''n'', col_column_pos = 0, col_descending = False, col_key_prefix_len = 0\<rparr>"
  define ix where "ix = the (snd (index_create (index_manager_init 0) ''t'' ''i'' [c] INDEX_TYPE_BTREE False))"
  have ix: "idx_columns ix = [c]" "idx_column_count ix = 1" "col_key_prefix_len c = 0"
    by (simp_all add: ix_def c_def index_create_def index_get_def index_manager_init_def Let_def)
  have k: "index_build_key ix [Some ''b''] = Some (Some [1, 1, 98])"
    "index_build_key ix [Some ''aa''] = Some (Some [1, 2, 97, 97])"
    by (simp_all add: index_build_key_def ix key_part_def bytes_of_def byte_of_char_def)
  show ?thesis unfolding Let_def c_def [symmetric] ix_def [symmetric]
    using index_key_order_is_by_length [OF k] k ix by simp
qed

end
