(* ===== verification/Cluster.thy ===== *)
theory Cluster
  imports CStrings
begin

text \<open>
  One node of the cluster of \<open>src/cluster.c\<close>: its table of nodes with their health, the Raft state with
  the handlers of votes, heartbeats and log entries, the partition table and its rebalancing. Sending
  and receiving are not modelled; what comes back from a node is an argument. Election deadlines
  (\<open>time(NULL)\<close> plus a random delay) are arguments too. Callbacks and log messages are left out.
\<close>

section \<open>State\<close>

datatype node_role = NODE_ROLE_FOLLOWER | NODE_ROLE_CANDIDATE | NODE_ROLE_LEADER

datatype node_status = NODE_STATUS_UNKNOWN | NODE_STATUS_HEALTHY | NODE_STATUS_DEGRADED
  | NODE_STATUS_UNREACHABLE | NODE_STATUS_DEAD

record cluster_node =
  cn_id :: u32
  cn_status :: node_status
  cn_last_heartbeat :: int
  cn_partitions :: "u32 list"

record raft_entry =
  re_index :: u64
  re_term :: u64
  re_command :: bytes
  re_committed :: bool

record partition_info =
  pi_id :: u32
  pi_primary :: u32
  pi_replicas :: "u32 list"
  pi_range_start :: "string option"
  pi_range_end :: "string option"

record cluster_state =
  cs_self :: u32
  cs_nodes :: "cluster_node list"
  cs_role :: node_role
  cs_leader :: u32
  cs_term :: u64
  cs_voted_for :: u32
  cs_commit_index :: u64
  cs_last_applied :: u64
  cs_log :: "raft_entry list"
  cs_next_index :: "u64 list"
  cs_match_index :: "u64 list"
  cs_deadline :: int
  cs_votes :: nat
  cs_election :: bool
  cs_partitions :: "partition_info list"
  cs_replication_factor :: nat
  cs_node_timeout :: int
  cs_auto_rebalance :: bool
  cs_rebalance_threshold :: int
  cs_elections :: nat
  cs_rebalances :: nat

definition cluster_init :: "u32 \<Rightarrow> int \<Rightarrow> nat \<Rightarrow> int \<Rightarrow> bool \<Rightarrow> int \<Rightarrow> cluster_state" where
  "cluster_init self deadline replication timeout rebalance threshold =
     \<lparr>cs_self = self,
      cs_nodes = [\<lparr>cn_id = self, cn_status = NODE_STATUS_HEALTHY, cn_last_heartbeat = 0, cn_partitions = []\<rparr>],
      cs_role = NODE_ROLE_FOLLOWER, cs_leader = 0, cs_term = 0, cs_voted_for = 0, cs_commit_index = 0,
      cs_last_applied = 0, cs_log = [], cs_next_index = [], cs_match_index = [], cs_deadline = deadline,
      cs_votes = 0, cs_election = False, cs_partitions = [],
      cs_replication_factor = (if replication = 0 then 2 else replication),
      cs_node_timeout = (if timeout \<le> 0 then 10000 else timeout), cs_auto_rebalance = rebalance,
      cs_rebalance_threshold = threshold, cs_elections = 0, cs_rebalances = 0\<rparr>"

section \<open>Messages\<close>

record vote_request =
  vr_sender :: u32
  vr_term :: u64
  vr_last_log_index :: u64
  vr_last_log_term :: u64

record append_request =
  ar_sender :: u32
  ar_term :: u64
  ar_prev_log_index :: u64
  ar_prev_log_term :: u64
  ar_leader_commit :: u64

record heartbeat =
  hb_term :: u64
  hb_commit_index :: u64
  hb_leader :: u32

section \<open>Elections\<close>

definition last_log_index :: "cluster_state \<Rightarrow> u64" where
  "last_log_index cs = (if cs_log cs = [] then 0 else re_index (last (cs_log cs)))"

definition last_log_term :: "cluster_state \<Rightarrow> u64" where
  "last_log_term cs = (if cs_log cs = [] then 0 else re_term (last (cs_log cs)))"

definition begin_election :: "cluster_state \<Rightarrow> cluster_state \<times> vote_request" where
  "begin_election cs =
     (let cs = cs\<lparr>cs_role := NODE_ROLE_CANDIDATE, cs_term := cs_term cs + 1, cs_voted_for := cs_self cs,
                  cs_votes := 1, cs_election := True, cs_elections := cs_elections cs + 1\<rparr>
      in (cs, \<lparr>vr_sender = cs_self cs, vr_term = cs_term cs, vr_last_log_index = last_log_index cs,
               vr_last_log_term = last_log_term cs\<rparr>))"

definition majority :: "cluster_state \<Rightarrow> nat" where
  "majority cs = length (cs_nodes cs) div 2 + 1"

text \<open>Whether the loop asks a node, and what it does with the flag of a reply.\<close>

definition asks :: "cluster_state \<Rightarrow> cluster_node \<Rightarrow> bool" where
  "asks cs n \<longleftrightarrow> cn_id n \<noteq> cs_self cs \<and> cn_status n \<noteq> NODE_STATUS_DEAD"

definition count_reply :: "bool option \<Rightarrow> cluster_state \<Rightarrow> cluster_state" where
  "count_reply reply cs = (if reply = Some True then cs\<lparr>cs_votes := cs_votes cs + 1\<rparr> else cs)"

text \<open>Heartbeats: \<open>replies\<close> says of each node asked whether it could be connected to (\<open>None\<close> if not) and
  whether it acknowledged.\<close>

definition heartbeat_node :: "(u32 \<Rightarrow> bool option) \<Rightarrow> int \<Rightarrow> cluster_node \<Rightarrow> cluster_node" where
  "heartbeat_node replies now n =
     (case replies (cn_id n) of
        Some True \<Rightarrow> n\<lparr>cn_last_heartbeat := now, cn_status := NODE_STATUS_HEALTHY\<rparr>
      | Some False \<Rightarrow> n
      | None \<Rightarrow> if cn_status n = NODE_STATUS_HEALTHY then n\<lparr>cn_status := NODE_STATUS_DEGRADED\<rparr> else n)"

definition heartbeat_send_all :: "(u32 \<Rightarrow> bool option) \<Rightarrow> int \<Rightarrow> cluster_state \<Rightarrow> cluster_state" where
  "heartbeat_send_all replies now cs =
     (if cs_role cs \<noteq> NODE_ROLE_LEADER then cs
      else cs\<lparr>cs_nodes := map (\<lambda>n. if asks cs n then heartbeat_node replies now n else n) (cs_nodes cs)\<rparr>)"

text \<open>The end of an election. The winner sends heartbeats at once (\<open>acks\<close>, \<open>now\<close>).\<close>

definition finish_election :: "nat \<Rightarrow> int \<Rightarrow> (u32 \<Rightarrow> bool option) \<Rightarrow> int \<Rightarrow> cluster_state \<Rightarrow> cluster_state" where
  "finish_election needed deadline acks now cs =
     (if cs_votes cs \<ge> needed
      then (heartbeat_send_all acks now (cs\<lparr>cs_role := NODE_ROLE_LEADER, cs_leader := cs_self cs,
              cs_next_index := replicate (length (cs_nodes cs)) (word_of_nat (length (cs_log cs)) + 1),
              cs_match_index := replicate (length (cs_nodes cs)) 0\<rparr>))\<lparr>cs_election := False\<rparr>
      else cs\<lparr>cs_role := NODE_ROLE_FOLLOWER, cs_deadline := deadline, cs_election := False\<rparr>)"

text \<open>The whole election when nothing else touches the node meanwhile: \<open>replies\<close> has the flag each node
  asked answers with, \<open>None\<close> for no connection or no answer.\<close>

definition raft_start_election :: "(u32 \<Rightarrow> bool option) \<Rightarrow> int \<Rightarrow> (u32 \<Rightarrow> bool option) \<Rightarrow> int \<Rightarrow> cluster_state \<Rightarrow> cluster_state" where
  "raft_start_election replies deadline acks now cs =
     (let (cs, request) = begin_election cs;
          needed = majority cs
      in finish_election needed deadline acks now
           (fold (\<lambda>n cs. if asks cs n then count_reply (replies (cn_id n)) cs else cs) (cs_nodes cs) cs))"

definition raft_handle_vote_request :: "int \<Rightarrow> vote_request \<Rightarrow> cluster_state \<Rightarrow> (bool \<times> u64) \<times> cluster_state" where
  "raft_handle_vote_request deadline request cs =
     (if vr_term request < cs_term cs then ((False, cs_term cs), cs)
      else
        let cs = (if vr_term request > cs_term cs
                  then cs\<lparr>cs_term := vr_term request, cs_role := NODE_ROLE_FOLLOWER, cs_voted_for := 0\<rparr>
                  else cs)
        in if (cs_voted_for cs = 0 \<or> cs_voted_for cs = vr_sender request) \<and>
              (vr_last_log_term request > last_log_term cs \<or>
               vr_last_log_term request = last_log_term cs \<and> vr_last_log_index request \<ge> last_log_index cs)
           then ((True, cs_term cs), cs\<lparr>cs_voted_for := vr_sender request, cs_deadline := deadline\<rparr>)
           else ((False, cs_term cs), cs))"

section \<open>Leader messages\<close>

definition heartbeat_message :: "cluster_state \<Rightarrow> heartbeat" where
  "heartbeat_message cs = \<lparr>hb_term = cs_term cs, hb_commit_index = cs_commit_index cs, hb_leader = cs_self cs\<rparr>"

definition heartbeat_handle :: "int \<Rightarrow> heartbeat \<Rightarrow> cluster_state \<Rightarrow> cluster_state" where
  "heartbeat_handle deadline msg cs =
     (let cs = (if hb_term msg > cs_term cs
                then cs\<lparr>cs_term := hb_term msg, cs_role := NODE_ROLE_FOLLOWER, cs_voted_for := 0\<rparr>
                else cs)
      in if hb_term msg \<ge> cs_term cs
         then cs\<lparr>cs_leader := hb_leader msg, cs_deadline := deadline,
                 cs_commit_index := (if hb_commit_index msg > cs_commit_index cs then hb_commit_index msg else cs_commit_index cs)\<rparr>
         else cs)"

definition raft_handle_append_entries :: "int \<Rightarrow> append_request \<Rightarrow> cluster_state \<Rightarrow> bool \<times> cluster_state" where
  "raft_handle_append_entries deadline request cs =
     (if ar_term request < cs_term cs then (False, cs)
      else
        let cs = cs\<lparr>cs_term := ar_term request, cs_role := NODE_ROLE_FOLLOWER, cs_leader := ar_sender request,
                    cs_deadline := deadline\<rparr>;
            prev = ar_prev_log_index request;
            log_count = word_of_nat (length (cs_log cs))
        in if prev > 0 \<and> (prev > log_count \<or> re_term (cs_log cs ! (unat prev - 1)) \<noteq> ar_prev_log_term request)
           then (False, cs)
           else (True,
             if ar_leader_commit request > cs_commit_index cs
             then cs\<lparr>cs_commit_index := (if ar_leader_commit request < log_count then ar_leader_commit request else log_count)\<rparr>
             else cs))"

definition raft_append_log :: "bytes \<Rightarrow> cluster_state \<Rightarrow> int \<times> cluster_state" where
  "raft_append_log command cs =
     (if cs_role cs \<noteq> NODE_ROLE_LEADER then (-1, cs)
      else
        let i = word_of_nat (length (cs_log cs)) + 1
        in (sint (i :: u64), cs\<lparr>cs_log := cs_log cs @
              [\<lparr>re_index = i, re_term = cs_term cs, re_command = command, re_committed = False\<rparr>]\<rparr>))"

text \<open>Commits up to \<open>index\<close>, at most to the end of the log; \<open>commit_index\<close> becomes \<open>index\<close> in any case.\<close>

function commit_loop :: "u64 \<Rightarrow> cluster_state \<Rightarrow> cluster_state" where
  "commit_loop index cs =
     (if cs_last_applied cs < index \<and> unat (cs_last_applied cs) < length (cs_log cs)
      then let i = unat (cs_last_applied cs)
           in commit_loop index (cs\<lparr>cs_last_applied := cs_last_applied cs + 1,
                cs_log := (cs_log cs)[i := (cs_log cs ! i)\<lparr>re_committed := True\<rparr>]\<rparr>)
      else cs)"
  by pat_completeness auto
termination
proof (relation "measure (\<lambda>(index, cs). length (cs_log cs) - unat (cs_last_applied cs))")
  fix index :: u64 and cs :: cluster_state and i
  assume a: "cs_last_applied cs < index \<and> unat (cs_last_applied cs) < length (cs_log cs)"
  then have "cs_last_applied cs \<noteq> - 1" by auto
  then have "unat (cs_last_applied cs) < unat (cs_last_applied cs + 1)"
    using word_less_succ by (simp add: word_less_nat_alt)
  with a show "((index, cs\<lparr>cs_last_applied := cs_last_applied cs + 1, cs_log := (cs_log cs)[i := (cs_log cs ! i)\<lparr>re_committed := True\<rparr>]\<rparr>), index, cs)
      \<in> measure (\<lambda>(index, cs). length (cs_log cs) - unat (cs_last_applied cs))"
    by (simp add: diff_less_mono2)
qed simp

declare commit_loop.simps [simp del]

definition raft_commit_to :: "u64 \<Rightarrow> cluster_state \<Rightarrow> cluster_state" where
  "raft_commit_to index cs = (commit_loop index cs)\<lparr>cs_commit_index := index\<rparr>"

section \<open>Nodes and their health\<close>

definition cluster_get_node :: "cluster_state \<Rightarrow> u32 \<Rightarrow> nat option" where
  "cluster_get_node cs node = first_idx (\<lambda>n. cn_id n = node) (cs_nodes cs)"

definition cluster_get_leader :: "cluster_state \<Rightarrow> nat option" where
  "cluster_get_leader cs = cluster_get_node cs (cs_leader cs)"

definition cluster_is_leader :: "cluster_state \<Rightarrow> bool" where
  "cluster_is_leader cs \<longleftrightarrow> cs_role cs = NODE_ROLE_LEADER"

definition cluster_get_healthy_nodes :: "cluster_state \<Rightarrow> nat \<Rightarrow> cluster_node list" where
  "cluster_get_healthy_nodes cs max_nodes = take max_nodes (filter (\<lambda>n. cn_status n = NODE_STATUS_HEALTHY) (cs_nodes cs))"

definition cluster_health_summary :: "cluster_state \<Rightarrow> nat \<times> nat" where
  "cluster_health_summary cs =
     (length (filter (\<lambda>n. cn_status n = NODE_STATUS_HEALTHY) (cs_nodes cs)), length (cs_nodes cs))"

section \<open>Partitions\<close>

definition partition_init :: "nat \<Rightarrow> bool \<Rightarrow> cluster_state \<Rightarrow> cluster_state" where
  "partition_init num by_range cs =
     (let bound = (\<lambda>i. [char_of (65 + i * (256 div num) div 10)])
      in cs\<lparr>cs_partitions := map (\<lambda>i. \<lparr>pi_id = word_of_nat i, pi_primary = 0, pi_replicas = [],
             pi_range_start = (if by_range then Some (bound i) else None),
             pi_range_end = (if by_range then Some (bound (i + 1)) else None)\<rparr>) [0..<num]\<rparr>)"

definition partition_for_key :: "cluster_state \<Rightarrow> string \<Rightarrow> nat" where
  "partition_for_key cs key =
     (if cs_partitions cs = [] then 0 else unat (djb2 key :: u32) mod length (cs_partitions cs))"

text \<open>No range, or none that matches: the last partition, as a \<open>uint32_t\<close>.\<close>

definition partition_for_range :: "cluster_state \<Rightarrow> string \<Rightarrow> u32" where
  "partition_for_range cs val =
     (case List.find (\<lambda>p. case (pi_range_start p, pi_range_end p) of
             (Some s, Some e) \<Rightarrow> strcmp val s \<ge> 0 \<and> strcmp val e < 0
           | _ \<Rightarrow> False) (cs_partitions cs) of
        Some p \<Rightarrow> pi_id p
      | None \<Rightarrow> word_of_nat (length (cs_partitions cs)) - 1)"

definition partition_get_owner :: "cluster_state \<Rightarrow> nat \<Rightarrow> u32" where
  "partition_get_owner cs p = (if p \<ge> length (cs_partitions cs) then 0 else pi_primary (cs_partitions cs ! p))"

definition partition_assign :: "u32 \<Rightarrow> u32 \<Rightarrow> bool \<Rightarrow> cluster_state \<Rightarrow> cluster_state" where
  "partition_assign part node is_primary cs =
     (if unat part \<ge> length (cs_partitions cs) then cs
      else
        let p = cs_partitions cs ! unat part;
            p = (if is_primary then p\<lparr>pi_primary := node\<rparr>
                 else if length (pi_replicas p) < cs_replication_factor cs then p\<lparr>pi_replicas := pi_replicas p @ [node]\<rparr>
                 else p);
            cs = cs\<lparr>cs_partitions := (cs_partitions cs)[unat part := p]\<rparr>
        in (case cluster_get_node cs node of
              None \<Rightarrow> cs
            | Some i \<Rightarrow>
                let n = cs_nodes cs ! i
                in cs\<lparr>cs_nodes := (cs_nodes cs)[i := n\<lparr>cn_partitions := cn_partitions n @ [part]\<rparr>]\<rparr>))"

definition partition_set_range :: "nat \<Rightarrow> string option \<Rightarrow> string option \<Rightarrow> cluster_state \<Rightarrow> cluster_state" where
  "partition_set_range p start stop cs =
     (if p \<ge> length (cs_partitions cs) then cs
      else cs\<lparr>cs_partitions := (cs_partitions cs)[p := (cs_partitions cs ! p)\<lparr>pi_range_start := start, pi_range_end := stop\<rparr>]\<rparr>)"

section \<open>Rebalancing\<close>

abbreviation alive :: "cluster_node \<Rightarrow> bool" where "alive n \<equiv> cn_status n \<noteq> NODE_STATUS_DEAD"
abbreviation load :: "cluster_node \<Rightarrow> nat" where "load n \<equiv> length (cn_partitions n)"

text \<open>The two folds of \<open>rebalance_needed\<close>; with no live node the code divides by zero (\<open>None\<close>).\<close>

definition rebalance_needed :: "cluster_state \<Rightarrow> bool option" where
  "rebalance_needed cs =
     (if length (cs_nodes cs) \<le> 1 then Some False
      else
        let loads = map (\<lambda>n. int (load n)) (filter alive (cs_nodes cs));
            lo = foldl (\<lambda>m l. if l < m then l else m) 2147483647 loads;
            hi = foldl (\<lambda>m l. if l > m then l else m) 0 loads
        in if lo = 0 then Some True
           else if hi = 0 then None
           else Some ((hi - lo) * 100 div hi > cs_rebalance_threshold cs))"

text \<open>One turn of the \<open>while\<close>: the last partition of node \<open>i\<close> goes to node \<open>j\<close>.\<close>

definition move_partition :: "nat \<Rightarrow> nat \<Rightarrow> cluster_state \<Rightarrow> cluster_state" where
  "move_partition i j cs =
     (let source = cs_nodes cs ! i;
          part = last (cn_partitions source);
          cs = cs\<lparr>cs_nodes := (cs_nodes cs)[i := source\<lparr>cn_partitions := butlast (cn_partitions source)\<rparr>]\<rparr>
      in partition_assign part (cn_id (cs_nodes cs ! j)) True cs)"

partial_function (option) drain_node :: "nat \<Rightarrow> nat \<Rightarrow> nat \<Rightarrow> cluster_state \<Rightarrow> (nat \<times> cluster_state) option" where
  "drain_node target i moved cs =
     (if load (cs_nodes cs ! i) > target + 1
      then (case first_idx (\<lambda>n. alive n \<and> load n < target) (cs_nodes cs) of
              None \<Rightarrow> drain_node target i moved cs
            | Some j \<Rightarrow> drain_node target i (moved + 1) (move_partition i j cs))
      else Some (moved, cs))"

declare drain_node.simps [code]

fun drain_nodes :: "nat \<Rightarrow> nat list \<Rightarrow> nat \<times> cluster_state \<Rightarrow> (nat \<times> cluster_state) option" where
  "drain_nodes target [] st = Some st"
| "drain_nodes target (i # is) (moved, cs) =
     (if \<not> alive (cs_nodes cs ! i) then drain_nodes target is (moved, cs)
      else (case drain_node target i moved cs of
              None \<Rightarrow> None
            | Some st \<Rightarrow> drain_nodes target is st))"

definition rebalance_partitions :: "cluster_state \<Rightarrow> (nat \<times> cluster_state) option" where
  "rebalance_partitions cs =
     (if cs_role cs \<noteq> NODE_ROLE_LEADER then Some (0, cs)
      else
        let cs = cs\<lparr>cs_rebalances := cs_rebalances cs + 1\<rparr>;
            live = length (filter alive (cs_nodes cs))
        in if live = 0 then Some (0, cs)
           else drain_nodes (length (cs_partitions cs) div live) [0..<length (cs_nodes cs)] (0, cs))"

text \<open>Partitions of a node that left: a replica is promoted; a partition id outside the table is \<open>None\<close>.\<close>

fun promote_replicas :: "u32 list \<Rightarrow> cluster_state \<Rightarrow> cluster_state option" where
  "promote_replicas [] cs = Some cs"
| "promote_replicas (part # parts) cs =
     (if unat part \<ge> length (cs_partitions cs) then None
      else
        let p = cs_partitions cs ! unat part
        in promote_replicas parts
             (case pi_replicas p of
                [] \<Rightarrow> cs
              | r # rs \<Rightarrow> cs\<lparr>cs_partitions := (cs_partitions cs)[unat part := p\<lparr>pi_primary := r, pi_replicas := rs\<rparr>]\<rparr>))"

definition rebalance_on_leave :: "cluster_node \<Rightarrow> cluster_state \<Rightarrow> cluster_state option" where
  "rebalance_on_leave node cs =
     (if cs_role cs \<noteq> NODE_ROLE_LEADER then Some cs
      else (case promote_replicas (cn_partitions node) cs of
              None \<Rightarrow> None
            | Some cs \<Rightarrow> map_option snd (rebalance_partitions cs)))"

definition cluster_add_node :: "int \<Rightarrow> u32 \<Rightarrow> cluster_state \<Rightarrow> cluster_state option" where
  "cluster_add_node now new_id cs =
     (let cs = cs\<lparr>cs_nodes := cs_nodes cs @
            [\<lparr>cn_id = new_id, cn_status = NODE_STATUS_HEALTHY, cn_last_heartbeat = now, cn_partitions = []\<rparr>]\<rparr>
      in if cs_auto_rebalance cs \<and> cs_role cs = NODE_ROLE_LEADER then map_option snd (rebalance_partitions cs)
         else Some cs)"

definition cluster_remove_node :: "u32 \<Rightarrow> cluster_state \<Rightarrow> int \<times> cluster_state" where
  "cluster_remove_node node cs =
     (case cluster_get_node cs node of
        None \<Rightarrow> (-1, cs)
      | Some i \<Rightarrow> (0, cs\<lparr>cs_nodes := take i (cs_nodes cs) @ drop (Suc i) (cs_nodes cs)\<rparr>))"

text \<open>The health check of node \<open>i\<close>; the divisions are of non-negative numbers.\<close>

definition check_node :: "int \<Rightarrow> nat \<Rightarrow> cluster_state \<Rightarrow> cluster_state option" where
  "check_node now i cs =
     (let n = cs_nodes cs ! i;
          timeout_sec = cs_node_timeout cs div 1000;
          elapsed = now - cn_last_heartbeat n;
          set_status = (\<lambda>s. cs\<lparr>cs_nodes := (cs_nodes cs)[i := n\<lparr>cn_status := s\<rparr>]\<rparr>)
      in if cn_id n = cs_self cs then Some cs
         else if elapsed > timeout_sec * 2 \<and> alive n
         then (let cs = set_status NODE_STATUS_DEAD
               in if cs_auto_rebalance cs \<and> cs_role cs = NODE_ROLE_LEADER then rebalance_on_leave (cs_nodes cs ! i) cs
                  else Some cs)
         else if elapsed > timeout_sec \<and> cn_status n = NODE_STATUS_HEALTHY then Some (set_status NODE_STATUS_DEGRADED)
         else if elapsed \<le> timeout_sec div 2 \<and> cn_status n = NODE_STATUS_DEGRADED then Some (set_status NODE_STATUS_HEALTHY)
         else Some cs)"

fun check_nodes :: "int \<Rightarrow> nat list \<Rightarrow> cluster_state \<Rightarrow> cluster_state option" where
  "check_nodes now [] cs = Some cs"
| "check_nodes now (i # is) cs = (case check_node now i cs of None \<Rightarrow> None | Some cs \<Rightarrow> check_nodes now is cs)"

definition health_check_nodes :: "int \<Rightarrow> cluster_state \<Rightarrow> cluster_state option" where
  "health_check_nodes now cs = check_nodes now [0..<length (cs_nodes cs)] cs"

text \<open>One turn of the heartbeat thread (without its sleep): heartbeats of a leader, the health check, and
  an election when the deadline of a follower has passed.\<close>

definition heartbeat_tick ::
    "int \<Rightarrow> (u32 \<Rightarrow> bool option) \<Rightarrow> (u32 \<Rightarrow> bool option) \<Rightarrow> int \<Rightarrow> (u32 \<Rightarrow> bool option) \<Rightarrow> cluster_state \<Rightarrow> cluster_state option" where
  "heartbeat_tick now acks replies deadline winner_acks cs =
     (case health_check_nodes now (if cs_role cs = NODE_ROLE_LEADER then heartbeat_send_all acks now cs else cs) of
        None \<Rightarrow> None
      | Some cs \<Rightarrow>
          Some (if cs_role cs = NODE_ROLE_FOLLOWER \<and> now > cs_deadline cs
                then raft_start_election replies deadline winner_acks now cs else cs))"

section \<open>Replication\<close>

datatype replication_mode = REPL_MODE_ASYNC | REPL_MODE_SYNC | REPL_MODE_SYNC_ALL

text \<open>\<open>replies\<close> as for heartbeats. The data itself is not stored anywhere by the receiver
  (\<open>handle_replication\<close> is a stub).\<close>

definition replicate_data ::
    "(u32 \<Rightarrow> bool option) \<Rightarrow> int \<Rightarrow> u32 \<Rightarrow> replication_mode \<Rightarrow> cluster_state \<Rightarrow> int" where
  "replicate_data replies min_sync part mode cs =
     (if cs_role cs \<noteq> NODE_ROLE_LEADER then - 1
      else
        case List.find (\<lambda>p. pi_id p = part) (cs_partitions cs) of
          None \<Rightarrow> - 1
        | Some p \<Rightarrow>
            let needed = (case mode of
                  REPL_MODE_ASYNC \<Rightarrow> 0
                | REPL_MODE_SYNC \<Rightarrow> if min_sync = 0 then int (length (pi_replicas p)) div 2 else min_sync
                | REPL_MODE_SYNC_ALL \<Rightarrow> int (length (pi_replicas p)));
                counts = (\<lambda>r. case cluster_get_node cs r of
                    None \<Rightarrow> False
                  | Some i \<Rightarrow> alive (cs_nodes cs ! i) \<and>
                      (if mode = REPL_MODE_ASYNC then replies r \<noteq> None else replies r = Some True));
                acks = int (length (filter counts (pi_replicas p)))
            in if mode \<noteq> REPL_MODE_ASYNC \<and> acks < needed then - 1 else acks)"

section \<open>A rebalancing that never ends\<close>

lemma drain_node_stuck:
  assumes "target + 1 < load (cs_nodes cs ! i)" and "first_idx (\<lambda>n. alive n \<and> load n < target) (cs_nodes cs) = None"
  shows "drain_node target i moved cs = None"
proof (rule ccontr)
  assume "drain_node target i moved cs \<noteq> None"
  then obtain st where st: "drain_node target i moved cs = Some st" by blast
  let ?P = "\<lambda>target i moved cs (st :: nat \<times> cluster_state).
    \<not> (target + 1 < load (cs_nodes cs ! i) \<and> first_idx (\<lambda>n. alive n \<and> load n < target) (cs_nodes cs) = None)"
  have "?P target i moved cs st"
    by (rule drain_node.raw_induct [where P = ?P, OF _ st]) (force split: if_split_asm option.split_asm)
  with assms show False by blast
qed

lemma drain_nodes_stuck:
  assumes "\<forall>n \<in> set (cs_nodes cs). alive n \<longrightarrow> target \<le> load n"
    and "\<exists>i \<in> set is. alive (cs_nodes cs ! i) \<and> target + 1 < load (cs_nodes cs ! i)"
  shows "drain_nodes target is (moved, cs) = None"
  using assms(2)
proof (induction "is")
  case (Cons i "is")
  have none: "first_idx (\<lambda>n. alive n \<and> load n < target) (cs_nodes cs) = None"
    using assms(1) by (auto simp: first_idx_None)
  show ?case
  proof (cases "alive (cs_nodes cs ! i) \<and> target + 1 < load (cs_nodes cs ! i)")
    case True
    then show ?thesis using drain_node_stuck [OF _ none] by simp
  next
    case False
    then have "drain_nodes target is (moved, cs) = None" using Cons by auto
    then show ?thesis using False by (auto simp: drain_node.simps [of target i moved cs])
  qed
qed simp

text \<open>Rebalancing can hang. When the leader finds a live node with more than one partition above the
  average but no live node below the average, \<open>rebalance_partitions\<close> never returns: the inner search
  moves nothing and the \<open>while\<close> around it repeats for ever.\<close>

theorem rebalance_can_hang:
  assumes "cs_role cs = NODE_ROLE_LEADER"
    and "target = length (cs_partitions cs) div length (filter (\<lambda>n. cn_status n \<noteq> NODE_STATUS_DEAD) (cs_nodes cs))"
    and "\<forall>n \<in> set (cs_nodes cs). cn_status n \<noteq> NODE_STATUS_DEAD \<longrightarrow> target \<le> length (cn_partitions n)"
    and "n \<in> set (cs_nodes cs)" and "cn_status n \<noteq> NODE_STATUS_DEAD" and "target + 1 < length (cn_partitions n)"
  shows "rebalance_partitions cs = None"
proof -
  let ?cs = "cs\<lparr>cs_rebalances := cs_rebalances cs + 1\<rparr>"
  obtain i where i: "i < length (cs_nodes cs)" "cs_nodes cs ! i = n" using assms(4) by (auto simp: in_set_conv_nth)
  have "filter alive (cs_nodes cs) \<noteq> []" using assms(4,5) by (auto simp: filter_empty_conv)
  moreover have "drain_nodes target [0..<length (cs_nodes cs)] (0, ?cs) = None"
    by (rule drain_nodes_stuck) (use assms i in auto)
  ultimately show ?thesis using assms(1,2) by (simp add: rebalance_partitions_def Let_def)
qed

theorem rebalance_can_hang_witness:
  "rebalance_partitions
     ((partition_init 5 False (cluster_init 1 0 0 0 False 20))\<lparr>cs_role := NODE_ROLE_LEADER,
        cs_nodes := [\<lparr>cn_id = 1, cn_status = NODE_STATUS_HEALTHY, cn_last_heartbeat = 0, cn_partitions = [0, 1, 2]\<rparr>,
          \<lparr>cn_id = 2, cn_status = NODE_STATUS_HEALTHY, cn_last_heartbeat = 0, cn_partitions = [3]\<rparr>,
          \<lparr>cn_id = 3, cn_status = NODE_STATUS_HEALTHY, cn_last_heartbeat = 0, cn_partitions = [4]\<rparr>]\<rparr>) = None"
  by (rule rebalance_can_hang [where target = 1 and
        n = "\<lparr>cn_id = 1, cn_status = NODE_STATUS_HEALTHY, cn_last_heartbeat = 0, cn_partitions = [0, 1, 2]\<rparr>"])
    (simp_all add: partition_init_def)

end
