(* ===== verification/RaftElection.thy ===== *)
theory RaftElection
  imports Cluster
begin

text \<open>
  Elections in a cluster of nodes running \<open>src/cluster.c\<close>. Each node is the state of \<open>Cluster\<close>; an
  election is the loop of \<open>raft_start_election\<close>, one event per node it asks, so that the events of other
  nodes fall between. Messages may be lost or handled late. The candidate does not read the flag of the
  vote response: it takes the payload for the whole response and reads the flag behind its end, so what
  it counts is whatever byte lies there, the argument of \<open>Answered\<close>. With \<open>exact\<close> that byte happens to be
  the flag that was sent; with \<open>atomic\<close> no node handles a message while its own election runs. The code
  ensures neither of the two. Nothing under \<open>src/\<close> listens and calls the handlers of the messages; here
  they run for every message that is sent to a node.
\<close>

section \<open>The system\<close>

text \<open>A running election: its request, the majority it needs and the next node to ask.\<close>

record raft_sys =
  rs_node :: "u32 \<Rightarrow> cluster_state"
  rs_running :: "u32 \<Rightarrow> (vote_request \<times> nat \<times> nat) option"
  rs_requests :: "vote_request list"
  rs_beats :: "heartbeat list"

text \<open>Lost on the way there, lost on the way back, or answered, with the byte read for the flag.\<close>

datatype delivery = NotDelivered | ReplyLost | Answered bool

datatype raft_event =
    StartElection u32
  | Ask u32 delivery int
  | FinishElection u32 int "u32 \<Rightarrow> bool option" int
  | LateRequest vote_request u32 int
  | SendHeartbeat u32 "u32 \<Rightarrow> bool option" int
  | Heartbeat heartbeat u32 int
  | Append heartbeat u64 u64 u64 u32 int

fun event_node :: "raft_event \<Rightarrow> u32" where
  "event_node (StartElection i) = i"
| "event_node (Ask i d dl) = i"
| "event_node (FinishElection i dl acks now) = i"
| "event_node (LateRequest r j dl) = j"
| "event_node (SendHeartbeat i acks now) = i"
| "event_node (Heartbeat h j dl) = j"
| "event_node (Append h pi pt c j dl) = j"

definition set_node :: "u32 \<Rightarrow> cluster_state \<Rightarrow> raft_sys \<Rightarrow> raft_sys" where
  "set_node i cs s = s\<lparr>rs_node := (rs_node s)(i := cs)\<rparr>"

definition set_running :: "u32 \<Rightarrow> (vote_request \<times> nat \<times> nat) option \<Rightarrow> raft_sys \<Rightarrow> raft_sys" where
  "set_running i r s = s\<lparr>rs_running := (rs_running s)(i := r)\<rparr>"

definition free_to_handle :: "bool \<Rightarrow> raft_sys \<Rightarrow> u32 \<Rightarrow> bool" where
  "free_to_handle atomic s j \<longleftrightarrow> (atomic \<longrightarrow> rs_running s j = None)"

lemma free_to_handle_iff: "free_to_handle True s j \<longleftrightarrow> rs_running s j = None"
  by (simp add: free_to_handle_def)

fun raft_exec :: "bool \<Rightarrow> bool \<Rightarrow> raft_event \<Rightarrow> raft_sys \<Rightarrow> raft_sys option" where
  "raft_exec atomic exact (StartElection i) s =
     (let cs = rs_node s i
      in if rs_running s i \<noteq> None \<or> cs_role cs \<noteq> NODE_ROLE_FOLLOWER \<or> cs_term cs = - 1 then None
         else
           let (cs, r) = begin_election cs
           in Some (set_running i (Some (r, majority cs, 0)) (set_node i cs (s\<lparr>rs_requests := r # rs_requests s\<rparr>))))"
| "raft_exec atomic exact (Ask i d deadline) s =
     (case rs_running s i of
        None \<Rightarrow> None
      | Some (r, needed, k) \<Rightarrow>
          let cs = rs_node s i
          in if k \<ge> length (cs_nodes cs) then None
             else
               let n = cs_nodes cs ! k;
                   j = cn_id n;
                   s = set_running i (Some (r, needed, k + 1)) s
               in if \<not> asks cs n \<or> d = NotDelivered then Some s
                  else if \<not> free_to_handle atomic s j then None
                  else
                    let ((granted, _), cj) = raft_handle_vote_request deadline r (rs_node s j);
                        s = set_node j cj s
                    in (case d of
                          Answered flag \<Rightarrow>
                            if exact \<and> flag \<noteq> granted then None
                            else Some (set_node i (count_reply (Some flag) (rs_node s i)) s)
                        | _ \<Rightarrow> Some s))"
| "raft_exec atomic exact (FinishElection i deadline acks now) s =
     (case rs_running s i of
        None \<Rightarrow> None
      | Some (r, needed, k) \<Rightarrow>
          if k < length (cs_nodes (rs_node s i)) then None
          else Some (set_running i None (set_node i (finish_election needed deadline acks now (rs_node s i)) s)))"
| "raft_exec atomic exact (LateRequest r j deadline) s =
     (if r \<notin> set (rs_requests s) \<or> \<not> free_to_handle atomic s j then None
      else Some (set_node j (snd (raft_handle_vote_request deadline r (rs_node s j))) s))"
| "raft_exec atomic exact (SendHeartbeat i acks now) s =
     (if cs_role (rs_node s i) \<noteq> NODE_ROLE_LEADER \<or> rs_running s i \<noteq> None then None
      else Some (set_node i (heartbeat_send_all acks now (rs_node s i))
             (s\<lparr>rs_beats := heartbeat_message (rs_node s i) # rs_beats s\<rparr>)))"
| "raft_exec atomic exact (Heartbeat h j deadline) s =
     (if h \<notin> set (rs_beats s) \<or> \<not> free_to_handle atomic s j then None
      else Some (set_node j (heartbeat_handle deadline h (rs_node s j)) s))"
| "raft_exec atomic exact (Append h prev_index prev_term commit j deadline) s =
     (if h \<notin> set (rs_beats s) \<or> \<not> free_to_handle atomic s j then None
      else Some (set_node j (snd (raft_handle_append_entries deadline
             \<lparr>ar_sender = hb_leader h, ar_term = hb_term h, ar_prev_log_index = prev_index,
              ar_prev_log_term = prev_term, ar_leader_commit = commit\<rparr> (rs_node s j))) s))"

text \<open>Start: followers of term 0 that have not voted, each knowing the members in some order. The health
  of the nodes and the logs are arbitrary.\<close>

definition raft_init :: "u32 set \<Rightarrow> raft_sys \<Rightarrow> bool" where
  "raft_init M s \<longleftrightarrow>
     0 \<notin> M \<and> rs_requests s = [] \<and> rs_beats s = [] \<and>
     (\<forall>i \<in> M. rs_running s i = None \<and> cs_self (rs_node s i) = i \<and> cs_role (rs_node s i) = NODE_ROLE_FOLLOWER \<and>
        cs_term (rs_node s i) = 0 \<and> cs_voted_for (rs_node s i) = 0 \<and>
        distinct (map cn_id (cs_nodes (rs_node s i))) \<and> set (map cn_id (cs_nodes (rs_node s i))) = M)"

inductive raft_reach :: "bool \<Rightarrow> bool \<Rightarrow> u32 set \<Rightarrow> raft_sys \<Rightarrow> bool" for atomic exact M where
  init: "raft_init M s \<Longrightarrow> raft_reach atomic exact M s"
| step: "raft_reach atomic exact M s \<Longrightarrow> event_node e \<in> M \<Longrightarrow> raft_exec atomic exact e s = Some s' \<Longrightarrow> raft_reach atomic exact M s'"

fun raft_run :: "bool \<Rightarrow> bool \<Rightarrow> raft_event list \<Rightarrow> raft_sys \<Rightarrow> raft_sys option" where
  "raft_run atomic exact [] s = Some s"
| "raft_run atomic exact (e # es) s = (case raft_exec atomic exact e s of None \<Rightarrow> None | Some s \<Rightarrow> raft_run atomic exact es s)"

lemma raft_run_reach:
  "raft_reach atomic exact M s \<Longrightarrow> \<forall>e \<in> set es. event_node e \<in> M \<Longrightarrow> raft_run atomic exact es s = Some s' \<Longrightarrow> raft_reach atomic exact M s'"
  by (induction es arbitrary: s) (auto split: option.splits intro: raft_reach.step)

section \<open>Three nodes\<close>

definition three_nodes :: raft_sys where
  "three_nodes =
     (let node = (\<lambda>i. \<lparr>cn_id = i, cn_status = NODE_STATUS_HEALTHY, cn_last_heartbeat = 0, cn_partitions = []\<rparr>)
      in \<lparr>rs_node = (\<lambda>i. (cluster_init i 0 2 0 False 20)\<lparr>cs_nodes := [node 1, node 2, node 3]\<rparr>),
          rs_running = (\<lambda>_. None), rs_requests = [], rs_beats = []\<rparr>)"

lemma three_nodes_init: "raft_init {1, 2, 3} three_nodes"
  by (auto simp: raft_init_def three_nodes_def cluster_init_def)

definition clash_events :: "raft_event list" where
  "clash_events =
     [StartElection 1, Ask 1 (Answered False) 0, Ask 1 (Answered True) 0, Ask 1 NotDelivered 0,
      StartElection 3, Ask 3 NotDelivered 0, Ask 3 NotDelivered 0, Ask 3 NotDelivered 0, FinishElection 3 0 (\<lambda>_. None) 0,
      StartElection 3, Ask 3 (Answered True) 0, Ask 3 NotDelivered 0, Ask 3 NotDelivered 0, FinishElection 3 0 (\<lambda>_. None) 0,
      FinishElection 1 0 (\<lambda>_. None) 0]"

lemma clash: "map_option (\<lambda>s. (cs_role (rs_node s 1), cs_term (rs_node s 1), cs_role (rs_node s 3), cs_term (rs_node s 3)))
   (raft_run False True clash_events three_nodes) = Some (NODE_ROLE_LEADER, 2, NODE_ROLE_LEADER, 2)"
  by code_simp

text \<open>One election after the other in which node 2 refuses its second vote of the term, and node 3 reads
  a byte that is not zero.\<close>

definition overread_events :: "raft_event list" where
  "overread_events =
     [StartElection 1, Ask 1 NotDelivered 0, Ask 1 (Answered True) 0, Ask 1 NotDelivered 0, FinishElection 1 0 (\<lambda>_. None) 0,
      StartElection 3, Ask 3 NotDelivered 0, Ask 3 (Answered True) 0, Ask 3 NotDelivered 0, FinishElection 3 0 (\<lambda>_. None) 0]"

lemma overread: "map_option (\<lambda>s. (cs_role (rs_node s 1), cs_term (rs_node s 1), cs_role (rs_node s 3), cs_term (rs_node s 3)))
   (raft_run True False overread_events three_nodes) = Some (NODE_ROLE_LEADER, 1, NODE_ROLE_LEADER, 1)"
  by code_simp

section \<open>What one message does to a node\<close>

lemma begin_election_simps:
  "begin_election cs = (cs', r) \<Longrightarrow>
   cs_self cs' = cs_self cs \<and> cs_nodes cs' = cs_nodes cs \<and> cs_role cs' = NODE_ROLE_CANDIDATE \<and>
   cs_term cs' = cs_term cs + 1 \<and> cs_voted_for cs' = cs_self cs \<and> cs_votes cs' = 1 \<and>
   vr_sender r = cs_self cs \<and> vr_term r = cs_term cs + 1"
  by (auto simp: begin_election_def Let_def)

text \<open>Terms never fall; in the same term a vote once cast stays, and only a follower of an older term
  changes its term.\<close>

definition keeps_vote :: "cluster_state \<Rightarrow> cluster_state \<Rightarrow> bool" where
  "keeps_vote cs cs' \<longleftrightarrow>
     cs_self cs' = cs_self cs \<and> map cn_id (cs_nodes cs') = map cn_id (cs_nodes cs) \<and> cs_votes cs' = cs_votes cs \<and>
     cs_term cs \<le> cs_term cs' \<and>
     (cs_term cs' = cs_term cs \<longrightarrow> cs_voted_for cs \<noteq> 0 \<longrightarrow> cs_voted_for cs' = cs_voted_for cs) \<and>
     (cs_role cs' = NODE_ROLE_LEADER \<longrightarrow> cs_role cs = NODE_ROLE_LEADER \<and> cs_term cs' = cs_term cs)"

lemma keeps_vote_request: "keeps_vote cs (snd (raft_handle_vote_request dl r cs))"
  by (auto simp: keeps_vote_def raft_handle_vote_request_def Let_def)

lemma vote_granted:
  "fst (fst (raft_handle_vote_request dl r cs)) \<Longrightarrow>
   cs_term (snd (raft_handle_vote_request dl r cs)) = vr_term r \<and> cs_voted_for (snd (raft_handle_vote_request dl r cs)) = vr_sender r \<and>
   cs_term cs \<le> vr_term r \<and> (cs_term cs = vr_term r \<longrightarrow> cs_voted_for cs = 0 \<or> cs_voted_for cs = vr_sender r)"
  by (auto simp: raft_handle_vote_request_def Let_def split: if_splits)

lemma keeps_vote_heartbeat: "keeps_vote cs (heartbeat_handle dl h cs)"
  by (auto simp: keeps_vote_def heartbeat_handle_def Let_def)

lemma keeps_vote_append: "keeps_vote cs (snd (raft_handle_append_entries dl r cs))"
  by (auto simp: keeps_vote_def raft_handle_append_entries_def Let_def)

lemma keeps_vote_send: "keeps_vote cs (heartbeat_send_all acks now cs)"
  by (simp add: keeps_vote_def heartbeat_send_all_def heartbeat_node_def split: option.split bool.split)

section \<open>The invariant\<close>

text \<open>\<open>V\<close> records who voted for whom in which term.\<close>

definition voters :: "(u64 \<times> u32 \<times> u32) set \<Rightarrow> u64 \<Rightarrow> u32 \<Rightarrow> u32 set" where
  "voters V t c = {v. (t, v, c) \<in> V}"

definition members_ok :: "u32 set \<Rightarrow> raft_sys \<Rightarrow> bool" where
  "members_ok M s \<longleftrightarrow> 0 \<notin> M \<and> finite M \<and>
     (\<forall>i \<in> M. cs_self (rs_node s i) = i \<and> distinct (map cn_id (cs_nodes (rs_node s i))) \<and>
        set (map cn_id (cs_nodes (rs_node s i))) = M)"

definition votes_ok :: "u32 set \<Rightarrow> raft_sys \<Rightarrow> (u64 \<times> u32 \<times> u32) set \<Rightarrow> bool" where
  "votes_ok M s V \<longleftrightarrow>
     (\<forall>t v c. (t, v, c) \<in> V \<longrightarrow> v \<in> M \<and> c \<in> M \<and> t \<le> cs_term (rs_node s v) \<and>
        (t = cs_term (rs_node s v) \<longrightarrow> cs_voted_for (rs_node s v) = c)) \<and>
     (\<forall>t v c c'. (t, v, c) \<in> V \<longrightarrow> (t, v, c') \<in> V \<longrightarrow> c = c')"

definition election_ok :: "u32 set \<Rightarrow> (u64 \<times> u32 \<times> u32) set \<Rightarrow> cluster_state \<Rightarrow> vote_request \<Rightarrow> nat \<Rightarrow> nat \<Rightarrow> bool" where
  "election_ok M V cs r needed k \<longleftrightarrow>
     vr_sender r = cs_self cs \<and> vr_term r = cs_term cs \<and> needed = card M div 2 + 1 \<and>
     cs_votes cs \<le> card (voters V (vr_term r) (cs_self cs) \<inter> insert (cs_self cs) (set (map cn_id (take k (cs_nodes cs)))))"

definition raft_inv :: "u32 set \<Rightarrow> raft_sys \<Rightarrow> (u64 \<times> u32 \<times> u32) set \<Rightarrow> bool" where
  "raft_inv M s V \<longleftrightarrow> members_ok M s \<and> votes_ok M s V \<and> (\<forall>r \<in> set (rs_requests s). vr_sender r \<in> M) \<and>
     (\<forall>i \<in> M. (\<forall>r needed k. rs_running s i = Some (r, needed, k) \<longrightarrow> election_ok M V (rs_node s i) r needed k) \<and>
        (cs_role (rs_node s i) = NODE_ROLE_LEADER \<longrightarrow> card M div 2 + 1 \<le> card (voters V (cs_term (rs_node s i)) i)))"

lemma voters_subset: "votes_ok M s V \<Longrightarrow> voters V t c \<subseteq> M"
  by (auto simp: votes_ok_def voters_def)

lemma voters_mono: "V \<subseteq> W \<Longrightarrow> voters V t c \<subseteq> voters W t c"
  by (auto simp: voters_def)

lemma card_voters_mono:
  "V \<subseteq> W \<Longrightarrow> finite M \<Longrightarrow> votes_ok M s W \<Longrightarrow> card (voters V t c \<inter> X) \<le> card (voters W t c \<inter> X)"
  by (intro card_mono) (use voters_mono [of V W t c] voters_subset [of M s W t c] in \<open>auto intro: finite_subset\<close>)

lemma election_ok_mono:
  "election_ok M V cs r needed k \<Longrightarrow> V \<subseteq> W \<Longrightarrow> finite M \<Longrightarrow> votes_ok M s W \<Longrightarrow> election_ok M W cs r needed k"
  unfolding election_ok_def using card_voters_mono le_trans by blast

text \<open>A node that is not running an election handles a message; a vote it grants is recorded.\<close>

lemma inv_handle:
  assumes inv: "raft_inv M s V" and j: "j \<in> M" "rs_running s j = None" and k: "keeps_vote (rs_node s j) cj"
    and W: "W = V \<or> (\<exists>c \<in> M. W = insert (cs_term cj, j, c) V \<and> cs_voted_for cj = c \<and>
      (cs_term (rs_node s j) = cs_term cj \<longrightarrow> cs_voted_for (rs_node s j) = 0 \<or> cs_voted_for (rs_node s j) = c))"
  shows "raft_inv M (set_node j cj s) W"
proof -
  have I: "members_ok M s" "votes_ok M s V" "\<forall>r \<in> set (rs_requests s). vr_sender r \<in> M"
    "\<And>i r n k. i \<in> M \<Longrightarrow> rs_running s i = Some (r, n, k) \<Longrightarrow> election_ok M V (rs_node s i) r n k"
    "\<And>i. i \<in> M \<Longrightarrow> cs_role (rs_node s i) = NODE_ROLE_LEADER \<Longrightarrow> card M div 2 + 1 \<le> card (voters V (cs_term (rs_node s i)) i)"
    using inv by (auto simp: raft_inv_def)
  have fin: "finite M" "0 \<notin> M" using I(1) by (auto simp: members_ok_def)
  have VW: "V \<subseteq> W" using W by auto
  have old: "v \<in> M \<and> c \<in> M \<and> t \<le> cs_term (rs_node s v) \<and> (t = cs_term (rs_node s v) \<longrightarrow> cs_voted_for (rs_node s v) = c)"
    if "(t, v, c) \<in> V" for t v c using I(2) that unfolding votes_ok_def by blast
  have mem: "members_ok M (set_node j cj s)"
    using I(1) k by (simp add: members_ok_def set_node_def keeps_vote_def del: set_map)
  have votes: "votes_ok M (set_node j cj s) W"
    unfolding votes_ok_def
  proof (intro conjI allI impI)
    fix t v c assume a: "(t, v, c) \<in> W"
    have V: "v \<in> M \<and> c \<in> M \<and> t \<le> cs_term (rs_node (set_node j cj s) v) \<and>
        (t = cs_term (rs_node (set_node j cj s) v) \<longrightarrow> cs_voted_for (rs_node (set_node j cj s) v) = c)" if "(t, v, c) \<in> V"
      using old [OF that] k fin(2) by (auto simp: set_node_def keeps_vote_def)
    have N: "v \<in> M \<and> c \<in> M \<and> t \<le> cs_term (rs_node (set_node j cj s) v) \<and>
        (t = cs_term (rs_node (set_node j cj s) v) \<longrightarrow> cs_voted_for (rs_node (set_node j cj s) v) = c)" if "(t, v, c) \<notin> V"
      using that a W j(1) by (auto simp: set_node_def)
    show "v \<in> M" "c \<in> M" "t \<le> cs_term (rs_node (set_node j cj s) v)" using V N by blast+
    show "cs_voted_for (rs_node (set_node j cj s) v) = c" if "t = cs_term (rs_node (set_node j cj s) v)" using V N that by blast
  next
    fix t v c c' assume a: "(t, v, c) \<in> W" "(t, v, c') \<in> W"
    have fresh: "d = c" if "(cs_term cj, j, d) \<in> V" "cs_voted_for cj = c" for d c
    proof -
      have "cs_term cj = cs_term (rs_node s j)" using old [OF that(1)] k by (auto simp: keeps_vote_def)
      then show ?thesis using old [OF that(1)] k that(2) fin(2) by (auto simp: keeps_vote_def)
    qed
    from a W I(2) fresh show "c = c'" unfolding votes_ok_def by blast
  qed
  have "election_ok M W (rs_node (set_node j cj s) i) r n k"
    if "i \<in> M" "rs_running (set_node j cj s) i = Some (r, n, k)" for i r n k
    using I(4) [OF that(1), of r n k] election_ok_mono [OF _ VW fin(1) votes] that(2) j(2)
    by (cases "i = j") (auto simp: set_node_def)
  moreover have "card M div 2 + 1 \<le> card (voters W (cs_term (rs_node (set_node j cj s) i)) i)"
    if "i \<in> M" "cs_role (rs_node (set_node j cj s) i) = NODE_ROLE_LEADER" for i
  proof -
    have "cs_role (rs_node s i) = NODE_ROLE_LEADER" "cs_term (rs_node (set_node j cj s) i) = cs_term (rs_node s i)"
      using that k by (cases "i = j"; auto simp: set_node_def keeps_vote_def)+
    moreover from I(5) [OF that(1) this(1)] card_voters_mono [OF VW fin(1) votes, of "cs_term (rs_node s i)" i UNIV]
    have "card M div 2 + 1 \<le> card (voters W (cs_term (rs_node s i)) i)" by simp
    ultimately show ?thesis by simp
  qed
  ultimately show ?thesis using mem votes I(3) by (auto simp: raft_inv_def set_node_def)
qed

section \<open>Every event keeps the invariant\<close>

lemma raft_invD:
  assumes "raft_inv M s V"
  shows "members_ok M s" "votes_ok M s V" "\<forall>r \<in> set (rs_requests s). vr_sender r \<in> M" "finite M" "0 \<notin> M"
    "i \<in> M \<Longrightarrow> rs_running s i = Some (r, n, k) \<Longrightarrow> election_ok M V (rs_node s i) r n k"
    "i \<in> M \<Longrightarrow> cs_role (rs_node s i) = NODE_ROLE_LEADER \<Longrightarrow> card M div 2 + 1 \<le> card (voters V (cs_term (rs_node s i)) i)"
    "i \<in> M \<Longrightarrow> cs_self (rs_node s i) = i" "i \<in> M \<Longrightarrow> distinct (map cn_id (cs_nodes (rs_node s i)))"
    "i \<in> M \<Longrightarrow> set (map cn_id (cs_nodes (rs_node s i))) = M" "i \<in> M \<Longrightarrow> length (cs_nodes (rs_node s i)) = card M"
proof -
  have m: "members_ok M s" using assms by (simp add: raft_inv_def)
  then have "card (set (map cn_id (cs_nodes (rs_node s i)))) = length (map cn_id (cs_nodes (rs_node s i)))" if "i \<in> M"
    using that distinct_card unfolding members_ok_def by blast
  then show "i \<in> M \<Longrightarrow> length (cs_nodes (rs_node s i)) = card M" using m unfolding members_ok_def by simp
qed (use assms in \<open>auto simp: raft_inv_def members_ok_def\<close>)

lemma inv_vote_request:
  assumes inv: "raft_inv M s V" and j: "j \<in> M" "rs_running s j = None" and r: "vr_sender r \<in> M"
    and h: "raft_handle_vote_request dl r (rs_node s j) = ((granted, t), cj)"
  shows "raft_inv M (set_node j cj s) (if granted then insert (vr_term r, j, vr_sender r) V else V)"
proof (rule inv_handle [OF inv j])
  show "keeps_vote (rs_node s j) cj" using keeps_vote_request [of "rs_node s j" dl r] h by simp
  show "(if granted then insert (vr_term r, j, vr_sender r) V else V) = V \<or>
    (\<exists>c \<in> M. (if granted then insert (vr_term r, j, vr_sender r) V else V) = insert (cs_term cj, j, c) V \<and> cs_voted_for cj = c \<and>
      (cs_term (rs_node s j) = cs_term cj \<longrightarrow> cs_voted_for (rs_node s j) = 0 \<or> cs_voted_for (rs_node s j) = c))"
    using vote_granted [of dl r "rs_node s j"] h r by (cases granted) auto
qed

lemma inv_start:
  assumes inv: "raft_inv M s V" and i: "i \<in> M" and t: "cs_term (rs_node s i) \<noteq> - 1"
    and b: "begin_election (rs_node s i) = (cs, r)"
  shows "raft_inv M (set_running i (Some (r, majority cs, 0)) (set_node i cs (s\<lparr>rs_requests := r # rs_requests s\<rparr>)))
    (insert (cs_term cs, i, i) V)"
proof -
  let ?s = "set_running i (Some (r, majority cs, 0)) (set_node i cs (s\<lparr>rs_requests := r # rs_requests s\<rparr>))"
  let ?W = "insert (cs_term cs, i, i) V"
  note I = raft_invD [OF inv]
  note B = begin_election_simps [OF b]
  have self: "cs_self cs = i" using B I(8) [OF i] by simp
  have up: "cs_term (rs_node s i) < cs_term cs" using B word_less_succ [OF t] by simp
  have node: "rs_node ?s v = (if v = i then cs else rs_node s v)" for v by (simp add: set_running_def set_node_def)
  have run: "rs_running ?s v = (if v = i then Some (r, majority cs, 0) else rs_running s v)" for v
    by (simp add: set_running_def set_node_def)
  have old: "v \<in> M \<and> c \<in> M \<and> t \<le> cs_term (rs_node s v) \<and> (t = cs_term (rs_node s v) \<longrightarrow> cs_voted_for (rs_node s v) = c)"
    if "(t, v, c) \<in> V" for t v c using I(2) that unfolding votes_ok_def by blast
  have fresh: "(cs_term cs, i, c) \<notin> V" for c using old [of "cs_term cs" i c] up by auto
  have mem: "members_ok M ?s" using I(1) B by (auto simp: members_ok_def node)
  have votes: "votes_ok M ?s ?W"
    unfolding votes_ok_def
  proof (intro conjI allI impI)
    fix t v c assume "(t, v, c) \<in> ?W"
    then have "v \<in> M \<and> c \<in> M \<and> t \<le> cs_term (rs_node ?s v) \<and> (t = cs_term (rs_node ?s v) \<longrightarrow> cs_voted_for (rs_node ?s v) = c)"
      using old [of t v c] up B self i by (auto simp: node)
    then show "v \<in> M" "c \<in> M" "t \<le> cs_term (rs_node ?s v)" "t = cs_term (rs_node ?s v) \<Longrightarrow> cs_voted_for (rs_node ?s v) = c"
      by blast+
  next
    fix t v c c' assume "(t, v, c) \<in> ?W" "(t, v, c') \<in> ?W"
    then show "c = c'" using fresh I(2) unfolding votes_ok_def by blast
  qed
  have sub: "V \<subseteq> ?W" by blast
  have "i \<in> voters ?W (cs_term cs) i" by (simp add: voters_def)
  then have "voters ?W (cs_term cs) i \<inter> insert i {} = {i}" by blast
  then have mine: "election_ok M ?W cs r (majority cs) 0"
    using B self I(11) [OF i] by (simp add: election_ok_def majority_def)
  have "election_ok M ?W (rs_node ?s v) q n k" if "v \<in> M" "rs_running ?s v = Some (q, n, k)" for v q n k
    using that mine I(6) [of v q n k] election_ok_mono [OF _ sub I(4) votes] by (auto simp: node run split: if_splits)
  moreover have "card M div 2 + 1 \<le> card (voters ?W (cs_term (rs_node ?s v)) v)"
    if "v \<in> M" "cs_role (rs_node ?s v) = NODE_ROLE_LEADER" for v
  proof -
    have v: "v \<noteq> i" "cs_role (rs_node s v) = NODE_ROLE_LEADER" using that B by (auto simp: node split: if_splits)
    from I(7) [OF that(1) v(2)] card_voters_mono [OF sub I(4) votes, of "cs_term (rs_node s v)" v UNIV]
    show ?thesis using v by (simp add: node)
  qed
  moreover have "\<forall>q \<in> set (rs_requests ?s). vr_sender q \<in> M" using I(3) B I(8) [OF i] i by (simp add: set_running_def set_node_def)
  ultimately show ?thesis using mem votes by (simp add: raft_inv_def)
qed

text \<open>The asking node moves on, with a vote more or not.\<close>

lemma inv_count:
  assumes inv: "raft_inv M s V" and i: "i \<in> M"
    and e: "election_ok M V (rs_node s i\<lparr>cs_votes := n\<rparr>) r needed k"
  shows "raft_inv M (set_running i (Some (r, needed, k)) (set_node i (rs_node s i\<lparr>cs_votes := n\<rparr>) s)) V"
proof -
  note I = raft_invD [OF inv]
  let ?s = "set_running i (Some (r, needed, k)) (set_node i (rs_node s i\<lparr>cs_votes := n\<rparr>) s)"
  have node: "rs_node ?s v = (if v = i then rs_node s i\<lparr>cs_votes := n\<rparr> else rs_node s v)"
    "rs_running ?s v = (if v = i then Some (r, needed, k) else rs_running s v)" "rs_requests ?s = rs_requests s" for v
    by (simp_all add: set_running_def set_node_def)
  have "members_ok M ?s" using I(1) by (auto simp: members_ok_def node)
  moreover have "votes_ok M ?s V" using I(2) by (auto simp: votes_ok_def node)
  moreover have "election_ok M V (rs_node ?s v) q m l" if "v \<in> M" "rs_running ?s v = Some (q, m, l)" for v q m l
    using that e I(6) [of v q m l] by (auto simp: node split: if_splits)
  moreover have "card M div 2 + 1 \<le> card (voters V (cs_term (rs_node ?s v)) v)"
    if "v \<in> M" "cs_role (rs_node ?s v) = NODE_ROLE_LEADER" for v
    using that I(7) [of v] i by (auto simp: node split: if_splits)
  ultimately show ?thesis using I(3) by (simp add: raft_inv_def node)
qed

lemma inv_finish:
  assumes inv: "raft_inv M s V" and i: "i \<in> M" and run: "rs_running s i = Some (r, needed, k)"
  shows "raft_inv M (set_running i None (set_node i (finish_election needed dl acks now (rs_node s i)) s)) V"
proof -
  note I = raft_invD [OF inv]
  let ?cs = "finish_election needed dl acks now (rs_node s i)"
  let ?s = "set_running i None (set_node i ?cs s)"
  have cs: "cs_self ?cs = cs_self (rs_node s i)" "map cn_id (cs_nodes ?cs) = map cn_id (cs_nodes (rs_node s i))" "cs_term ?cs = cs_term (rs_node s i)"
    "cs_voted_for ?cs = cs_voted_for (rs_node s i)"
    "cs_role ?cs = NODE_ROLE_LEADER \<Longrightarrow> needed \<le> cs_votes (rs_node s i)"
    by (simp_all add: finish_election_def heartbeat_send_all_def heartbeat_node_def split: if_splits option.split bool.split)
  have node: "rs_node ?s v = (if v = i then ?cs else rs_node s v)"
    "rs_running ?s v = (if v = i then None else rs_running s v)" "rs_requests ?s = rs_requests s" for v
    by (simp_all add: set_running_def set_node_def)
  have E: "election_ok M V (rs_node s i) r needed k" using I(6) [OF i run] .
  have "card (voters V (cs_term (rs_node s i)) i \<inter> X) \<le> card (voters V (cs_term (rs_node s i)) i)" for X
    using voters_subset [OF I(2)] I(4) by (intro card_mono) (auto intro: finite_subset)
  then have won: "card M div 2 + 1 \<le> card (voters V (cs_term ?cs) i)" if "cs_role ?cs = NODE_ROLE_LEADER"
    using cs(5) [OF that] E I(8) [OF i] le_trans unfolding election_ok_def cs(3) by metis
  have "members_ok M ?s" using I(1) cs(1,2) by (simp add: members_ok_def node del: set_map)
  moreover have "votes_ok M ?s V" using I(2) cs by (auto simp: votes_ok_def node)
  moreover have "election_ok M V (rs_node ?s v) q m l" if "v \<in> M" "rs_running ?s v = Some (q, m, l)" for v q m l
    using that I(6) [of v q m l] by (auto simp: node split: if_splits)
  moreover have "card M div 2 + 1 \<le> card (voters V (cs_term (rs_node ?s v)) v)"
    if "v \<in> M" "cs_role (rs_node ?s v) = NODE_ROLE_LEADER" for v
    using that I(7) [of v] won by (auto simp: node split: if_splits)
  ultimately show ?thesis using I(3) by (simp add: raft_inv_def node)
qed

lemma set_node_same [simp]: "set_node i (rs_node s i) s = s"
  by (simp add: set_node_def)

lemma set_running_same: "rs_running s i = r \<Longrightarrow> set_running i r s = s"
  by (auto simp: set_running_def)

lemma rs_simps [simp]:
  "rs_node (set_node i cs s) v = (if v = i then cs else rs_node s v)" "rs_running (set_node i cs s) = rs_running s"
  "rs_requests (set_node i cs s) = rs_requests s" "rs_node (set_running i r s) = rs_node s"
  "rs_running (set_running i r s) v = (if v = i then r else rs_running s v)" "rs_requests (set_running i r s) = rs_requests s"
  by (simp_all add: set_node_def set_running_def)

lemma election_ok_next:
  assumes "election_ok M V cs r needed k" and "k < length (cs_nodes cs)" and "finite M" and "votes_ok M s V"
  shows "election_ok M V cs r needed (k + 1)"
proof -
  have "set (take k (cs_nodes cs)) \<subseteq> set (take (k + 1) (cs_nodes cs))" by (rule set_take_subset_set_take) simp
  then have "card (voters V (vr_term r) (cs_self cs) \<inter> insert (cs_self cs) (set (map cn_id (take k (cs_nodes cs))))) \<le>
      card (voters V (vr_term r) (cs_self cs) \<inter> insert (cs_self cs) (set (map cn_id (take (k + 1) (cs_nodes cs)))))"
    using voters_subset [OF assms(4)] assms(3) by (intro card_mono) (auto intro: finite_subset)
  then show ?thesis using assms(1) le_trans unfolding election_ok_def by blast
qed

lemma election_ok_counted:
  assumes E: "election_ok M V cs r needed k" and k: "k < length (cs_nodes cs)" and j: "j = cn_id (cs_nodes cs ! k)"
    and ne: "j \<noteq> cs_self cs" and d: "distinct (map cn_id (cs_nodes cs))" and M: "finite M" "votes_ok M s (insert (vr_term r, j, vr_sender r) V)"
  shows "election_ok M (insert (vr_term r, j, vr_sender r) V) (cs\<lparr>cs_votes := cs_votes cs + 1\<rparr>) r needed (k + 1)"
proof -
  let ?W = "insert (vr_term r, j, vr_sender r) V" and ?i = "cs_self cs"
  let ?A = "voters V (vr_term r) ?i \<inter> insert ?i (set (map cn_id (take k (cs_nodes cs))))"
  let ?B = "voters ?W (vr_term r) ?i \<inter> insert ?i (set (map cn_id (take (k + 1) (cs_nodes cs))))"
  have r: "vr_sender r = ?i" using E by (simp add: election_ok_def)
  have "j \<notin> set (map cn_id (take k (cs_nodes cs)))"
    using d k j by (auto simp: in_set_conv_nth distinct_conv_nth)
  then have "j \<notin> ?A" using ne by auto
  moreover have "insert j ?A \<subseteq> ?B" using j k r by (auto simp: voters_def take_Suc_conv_app_nth)
  moreover have "finite ?B" using voters_subset [OF M(2)] M(1) by (auto intro: finite_subset)
  ultimately have "card ?A + 1 \<le> card ?B" using card_mono [of ?B "insert j ?A"] finite_subset [of ?A ?B] by auto
  moreover have "cs_votes cs \<le> card ?A" "vr_term r = cs_term cs" "needed = card M div 2 + 1"
    using E unfolding election_ok_def by blast+
  ultimately have "cs_votes cs + 1 \<le> card ?B" "vr_term r = cs_term cs" "needed = card M div 2 + 1" by linarith+
  then show ?thesis using r unfolding election_ok_def by simp
qed

lemma inv_ask:
  assumes inv: "raft_inv M s V" and i: "i \<in> M" and ex: "raft_exec True True (Ask i d dl) s = Some s'"
  shows "\<exists>W. raft_inv M s' W"
proof -
  note I = raft_invD [OF inv]
  let ?cs = "rs_node s i"
  obtain r needed k where run: "rs_running s i = Some (r, needed, k)" using ex by (auto split: option.splits)
  have k: "k < length (cs_nodes ?cs)" using ex run by (auto simp: Let_def split: if_splits)
  let ?n = "cs_nodes ?cs ! k" and ?s = "set_running i (Some (r, needed, k + 1)) s"
  have E: "election_ok M V ?cs r needed k" using I(6) [OF i run] .
  have "raft_inv M (set_running i (Some (r, needed, k + 1)) (set_node i (?cs\<lparr>cs_votes := cs_votes ?cs\<rparr>) s)) V"
    by (rule inv_count [OF inv i]) (use election_ok_next [OF E k I(4) I(2)] in simp)
  then have inv1: "raft_inv M ?s V" by simp
  show ?thesis
  proof (cases "\<not> asks ?cs ?n \<or> d = NotDelivered")
    case True
    then show ?thesis using ex run k inv1 by (auto simp: Let_def)
  next
    case False
    obtain granted t cj where h: "raft_handle_vote_request dl r (rs_node s (cn_id ?n)) = ((granted, t), cj)" by (metis surj_pair)
    have ne: "cn_id ?n \<noteq> i" using False I(8) [OF i] by (simp add: asks_def)
    have "cn_id ?n \<in> set (map cn_id (cs_nodes ?cs))" using k by simp
    then have j: "cn_id ?n \<in> M" using I(10) [OF i] by simp
    have free: "rs_running s (cn_id ?n) = None"
    proof (rule ccontr)
      assume "rs_running s (cn_id ?n) \<noteq> None"
      then have "\<not> free_to_handle True ?s (cn_id ?n)" using ne by (simp add: free_to_handle_def)
      then show False using ex run k False by (simp add: Let_def)
    qed
    have s': "s' = (if d = Answered granted then set_node i (count_reply (Some granted) ?cs) (set_node (cn_id ?n) cj ?s) else set_node (cn_id ?n) cj ?s)"
      using ex run k False free ne ne [symmetric] h by (cases d) (auto simp: Let_def free_to_handle_def split: if_splits)
    let ?W = "if granted then insert (vr_term r, cn_id ?n, vr_sender r) V else V"
    have r: "vr_sender r = i" using E I(8) [OF i] by (simp add: election_ok_def)
    have inv2: "raft_inv M (set_node (cn_id ?n) cj ?s) ?W"
      by (rule inv_vote_request [OF inv1 j]) (use free ne h r i in simp_all)
    show ?thesis
    proof (cases "d = Answered granted \<and> granted")
      case True
      note I2 = raft_invD [OF inv2]
      have "election_ok M ?W (?cs\<lparr>cs_votes := cs_votes ?cs + 1\<rparr>) r needed (k + 1)"
        using election_ok_counted [OF E k refl _ I(9) [OF i] I(4), of "set_node (cn_id ?n) cj ?s"] I2(2) True ne I(8) [OF i] by simp
      from inv_count [OF inv2 i, of "cs_votes ?cs + 1" r needed "k + 1"] this ne True
      have "raft_inv M (set_running i (Some (r, needed, k + 1)) (set_node i (?cs\<lparr>cs_votes := cs_votes ?cs + 1\<rparr>) (set_node (cn_id ?n) cj ?s))) ?W"
        by auto
      then show ?thesis using s' True by (auto simp: count_reply_def set_running_same)
    next
      case False
      then have "s' = set_node (cn_id ?n) cj ?s" using s' ne
        by (auto simp: count_reply_def) (metis rs_simps(1) rs_simps(4) set_node_same)
      then show ?thesis using inv2 by blast
    qed
  qed
qed

lemma inv_event:
  assumes inv: "raft_inv M s V" and e: "event_node e \<in> M" and ex: "raft_exec True True e s = Some s'"
  shows "\<exists>W. raft_inv M s' W"
proof (cases e)
  case (StartElection i)
  obtain cs r where b: "begin_election (rs_node s i) = (cs, r)" by fastforce
  then have s': "s' = set_running i (Some (r, majority cs, 0)) (set_node i cs (s\<lparr>rs_requests := r # rs_requests s\<rparr>))"
    "cs_term (rs_node s i) \<noteq> - 1"
    using ex StartElection by (auto simp: Let_def split: if_splits)
  show ?thesis unfolding s'(1) using inv_start [OF inv _ s'(2) b] e StartElection by auto
next
  case (Ask i d dl)
  then show ?thesis using inv_ask [OF inv] e ex by simp
next
  case (FinishElection i dl acks now)
  then obtain r needed k where "rs_running s i = Some (r, needed, k)"
      "s' = set_running i None (set_node i (finish_election needed dl acks now (rs_node s i)) s)"
    using ex by (auto split: option.splits if_splits)
  moreover have "i \<in> M" using e FinishElection by simp
  ultimately show ?thesis using inv_finish [OF inv] by blast
next
  case (LateRequest r j dl)
  then have r: "vr_sender r \<in> M" "rs_running s j = None" "s' = set_node j (snd (raft_handle_vote_request dl r (rs_node s j))) s" "j \<in> M"
    using ex e raft_invD(3) [OF inv] by (simp_all add: free_to_handle_iff del: not_None_eq split: if_splits)
  obtain granted t cj where "raft_handle_vote_request dl r (rs_node s j) = ((granted, t), cj)" by (metis surj_pair)
  from inv_vote_request [OF inv r(4,2,1) this] show ?thesis using r(3) \<open>raft_handle_vote_request dl r (rs_node s j) = _\<close> by auto
next
  case (SendHeartbeat i acks now)
  let ?s = "s\<lparr>rs_beats := heartbeat_message (rs_node s i) # rs_beats s\<rparr>"
  have s': "rs_running s i = None" "s' = set_node i (heartbeat_send_all acks now (rs_node ?s i)) ?s" "i \<in> M"
    using ex e SendHeartbeat by (simp_all del: not_None_eq split: if_splits)
  have "raft_inv M ?s V" using inv by (simp add: raft_inv_def members_ok_def votes_ok_def)
  from inv_handle [OF this s'(3) _ keeps_vote_send] show ?thesis using s' by auto
next
  case (Heartbeat h j dl)
  then have "rs_running s j = None" "s' = set_node j (heartbeat_handle dl h (rs_node s j)) s" "j \<in> M"
    using ex e by (auto simp: free_to_handle_iff simp del: not_None_eq split: if_splits)
  then show ?thesis using inv_handle [OF inv _ _ keeps_vote_heartbeat] by blast
next
  case (Append h prev pt c j dl)
  then have "rs_running s j = None" "j \<in> M" "s' = set_node j (snd (raft_handle_append_entries dl
        \<lparr>ar_sender = hb_leader h, ar_term = hb_term h, ar_prev_log_index = prev, ar_prev_log_term = pt, ar_leader_commit = c\<rparr> (rs_node s j))) s"
    using ex e by (auto simp: free_to_handle_iff simp del: not_None_eq split: if_splits)
  then show ?thesis using inv_handle [OF inv _ _ keeps_vote_append] by blast
qed

lemma inv_init: "raft_init M s \<Longrightarrow> raft_inv M s {}"
  by (cases "M = {}")
    (auto simp: raft_init_def raft_inv_def members_ok_def votes_ok_def intro: finite_subset [OF _ finite_set])

lemma raft_reach_inv: "raft_reach True True M s \<Longrightarrow> \<exists>V. raft_inv M s V"
  by (induction rule: raft_reach.induct) (blast intro: inv_init, blast dest: inv_event)

lemma one_leader:
  assumes inv: "raft_inv M s V" and ij: "i \<in> M" "j \<in> M"
    and "cs_role (rs_node s i) = NODE_ROLE_LEADER" "cs_role (rs_node s j) = NODE_ROLE_LEADER"
    and "cs_term (rs_node s i) = cs_term (rs_node s j)"
  shows "i = j"
proof (rule ccontr)
  assume "i \<noteq> j"
  note I = raft_invD [OF inv]
  let ?A = "voters V (cs_term (rs_node s i)) i" and ?B = "voters V (cs_term (rs_node s i)) j"
  have "?A \<inter> ?B = {}" using I(2) \<open>i \<noteq> j\<close> unfolding votes_ok_def voters_def by blast
  moreover have "?A \<union> ?B \<subseteq> M" "finite (?A \<union> ?B)"
    using voters_subset [OF I(2)] I(4) by (auto intro: finite_subset)
  ultimately have "card ?A + card ?B \<le> card M"
    using card_Un_disjoint [of ?A ?B] card_mono [OF I(4), of "?A \<union> ?B"] by auto
  moreover have "card M div 2 + 1 \<le> card ?A" using I(7) [OF ij(1) assms(4)] .
  moreover have "card M div 2 + 1 \<le> card ?B" using I(7) [OF ij(2) assms(5)] assms(6) by simp
  ultimately show False by linarith
qed

lemma one_leader_reach:
  "raft_reach True True M s \<Longrightarrow> i \<in> M \<Longrightarrow> j \<in> M \<Longrightarrow> cs_role (rs_node s i) = NODE_ROLE_LEADER \<Longrightarrow>
   cs_role (rs_node s j) = NODE_ROLE_LEADER \<Longrightarrow> cs_term (rs_node s i) = cs_term (rs_node s j) \<Longrightarrow> i = j"
  using raft_reach_inv one_leader by blast

definition election_events :: "raft_event list" where
  "election_events = [StartElection 1, Ask 1 (Answered False) 0, Ask 1 (Answered True) 0, Ask 1 ReplyLost 0, FinishElection 1 0 (\<lambda>_. None) 0, SendHeartbeat 1 (\<lambda>_. None) 0]"

text \<open>Two nodes that lead the same term.\<close>

definition two_leaders :: "raft_sys \<Rightarrow> bool" where
  "two_leaders s \<longleftrightarrow> cs_role (rs_node s 1) = NODE_ROLE_LEADER \<and> cs_role (rs_node s 3) = NODE_ROLE_LEADER \<and>
     cs_term (rs_node s 1) = cs_term (rs_node s 3)"

lemma run_three_nodes:
  assumes "map_option (\<lambda>s. (cs_role (rs_node s 1), cs_term (rs_node s 1), cs_role (rs_node s 3), cs_term (rs_node s 3)))
      (raft_run atomic exact es three_nodes) = Some (NODE_ROLE_LEADER, t, NODE_ROLE_LEADER, t)"
    and "\<forall>e \<in> set es. event_node e \<in> {1, 2, 3}"
  shows "\<exists>s. raft_reach atomic exact {1, 2, 3} s \<and> two_leaders s"
proof -
  obtain s where s: "raft_run atomic exact es three_nodes = Some s" "two_leaders s"
    using assms(1) by (auto simp: two_leaders_def)
  then show ?thesis using raft_run_reach [OF raft_reach.init [OF three_nodes_init] assms(2) s(1)] by blast
qed



end
