(* ===== verification/Lexer.thy ===== *)
theory Lexer
  imports CStrings
begin

text \<open>
  \<open>src/lexer.c\<close>: SQL text to tokens. A token type is the integer C gives the enumerator. \<open>ctype.h\<close> is
  that of the C locale, where bytes above 127 belong to no class. Growing the token array and the
  message about an unexpected character are left out.
\<close>

section \<open>Tokens\<close>

type_synonym token_type = nat

abbreviation (input) TOKEN_EOF :: token_type where "TOKEN_EOF \<equiv> 0"
abbreviation (input) TOKEN_IDENTIFIER :: token_type where "TOKEN_IDENTIFIER \<equiv> 1"
abbreviation (input) TOKEN_STRING :: token_type where "TOKEN_STRING \<equiv> 2"
abbreviation (input) TOKEN_INT_LITERAL :: token_type where "TOKEN_INT_LITERAL \<equiv> 3"
abbreviation (input) TOKEN_FLOAT_LITERAL :: token_type where "TOKEN_FLOAT_LITERAL \<equiv> 4"
abbreviation (input) TOKEN_KW_TABLE :: token_type where "TOKEN_KW_TABLE \<equiv> 5"
abbreviation (input) TOKEN_KW_BANAO :: token_type where "TOKEN_KW_BANAO \<equiv> 6"
abbreviation (input) TOKEN_KW_INSERT :: token_type where "TOKEN_KW_INSERT \<equiv> 7"
abbreviation (input) TOKEN_KW_KARO :: token_type where "TOKEN_KW_KARO \<equiv> 8"
abbreviation (input) TOKEN_KW_SELECT :: token_type where "TOKEN_KW_SELECT \<equiv> 9"
abbreviation (input) TOKEN_KW_JAHAN :: token_type where "TOKEN_KW_JAHAN \<equiv> 10"
abbreviation (input) TOKEN_KW_RAKHO :: token_type where "TOKEN_KW_RAKHO \<equiv> 11"
abbreviation (input) TOKEN_KW_DHUNDO :: token_type where "TOKEN_KW_DHUNDO \<equiv> 12"
abbreviation (input) TOKEN_KW_NIKALO :: token_type where "TOKEN_KW_NIKALO \<equiv> 13"
abbreviation (input) TOKEN_KW_FROM :: token_type where "TOKEN_KW_FROM \<equiv> 14"
abbreviation (input) TOKEN_KW_VALUES :: token_type where "TOKEN_KW_VALUES \<equiv> 15"
abbreviation (input) TOKEN_KW_INT :: token_type where "TOKEN_KW_INT \<equiv> 16"
abbreviation (input) TOKEN_KW_FLOAT :: token_type where "TOKEN_KW_FLOAT \<equiv> 17"
abbreviation (input) TOKEN_KW_STRING_TYPE :: token_type where "TOKEN_KW_STRING_TYPE \<equiv> 18"
abbreviation (input) TOKEN_KW_TEXT_TYPE :: token_type where "TOKEN_KW_TEXT_TYPE \<equiv> 19"
abbreviation (input) TOKEN_KW_BOOL_TYPE :: token_type where "TOKEN_KW_BOOL_TYPE \<equiv> 20"
abbreviation (input) TOKEN_KW_AUTO :: token_type where "TOKEN_KW_AUTO \<equiv> 21"
abbreviation (input) TOKEN_KW_PRIMARY :: token_type where "TOKEN_KW_PRIMARY \<equiv> 22"
abbreviation (input) TOKEN_KW_KEY :: token_type where "TOKEN_KW_KEY \<equiv> 23"
abbreviation (input) TOKEN_KW_GIRAO :: token_type where "TOKEN_KW_GIRAO \<equiv> 24"
abbreviation (input) TOKEN_KW_MANGWAO :: token_type where "TOKEN_KW_MANGWAO \<equiv> 25"
abbreviation (input) TOKEN_KW_HATAO :: token_type where "TOKEN_KW_HATAO \<equiv> 26"
abbreviation (input) TOKEN_KW_CHECKPOINT :: token_type where "TOKEN_KW_CHECKPOINT \<equiv> 27"
abbreviation (input) TOKEN_KW_UPDATE :: token_type where "TOKEN_KW_UPDATE \<equiv> 28"
abbreviation (input) TOKEN_KW_SET :: token_type where "TOKEN_KW_SET \<equiv> 29"
abbreviation (input) TOKEN_KW_INDEX :: token_type where "TOKEN_KW_INDEX \<equiv> 30"
abbreviation (input) TOKEN_KW_ON :: token_type where "TOKEN_KW_ON \<equiv> 31"
abbreviation (input) TOKEN_KW_CREATE :: token_type where "TOKEN_KW_CREATE \<equiv> 32"
abbreviation (input) TOKEN_KW_USER :: token_type where "TOKEN_KW_USER \<equiv> 33"
abbreviation (input) TOKEN_KW_PASSWORD :: token_type where "TOKEN_KW_PASSWORD \<equiv> 34"
abbreviation (input) TOKEN_KW_DATABASE :: token_type where "TOKEN_KW_DATABASE \<equiv> 35"
abbreviation (input) TOKEN_KW_show :: token_type where "TOKEN_KW_show \<equiv> 36"
abbreviation (input) TOKEN_KW_TABLES :: token_type where "TOKEN_KW_TABLES \<equiv> 37"
abbreviation (input) TOKEN_KW_USE :: token_type where "TOKEN_KW_USE \<equiv> 38"
abbreviation (input) TOKEN_KW_AND :: token_type where "TOKEN_KW_AND \<equiv> 39"
abbreviation (input) TOKEN_KW_OR :: token_type where "TOKEN_KW_OR \<equiv> 40"
abbreviation (input) TOKEN_KW_GROUP :: token_type where "TOKEN_KW_GROUP \<equiv> 41"
abbreviation (input) TOKEN_KW_BY :: token_type where "TOKEN_KW_BY \<equiv> 42"
abbreviation (input) TOKEN_KW_COUNT :: token_type where "TOKEN_KW_COUNT \<equiv> 43"
abbreviation (input) TOKEN_KW_SUM :: token_type where "TOKEN_KW_SUM \<equiv> 44"
abbreviation (input) TOKEN_KW_AVG :: token_type where "TOKEN_KW_AVG \<equiv> 45"
abbreviation (input) TOKEN_KW_MIN :: token_type where "TOKEN_KW_MIN \<equiv> 46"
abbreviation (input) TOKEN_KW_MAX :: token_type where "TOKEN_KW_MAX \<equiv> 47"
abbreviation (input) TOKEN_KW_BEGIN :: token_type where "TOKEN_KW_BEGIN \<equiv> 48"
abbreviation (input) TOKEN_KW_COMMIT :: token_type where "TOKEN_KW_COMMIT \<equiv> 49"
abbreviation (input) TOKEN_KW_ROLLBACK :: token_type where "TOKEN_KW_ROLLBACK \<equiv> 50"
abbreviation (input) TOKEN_KW_SAVEPOINT :: token_type where "TOKEN_KW_SAVEPOINT \<equiv> 51"
abbreviation (input) TOKEN_KW_RELEASE :: token_type where "TOKEN_KW_RELEASE \<equiv> 52"
abbreviation (input) TOKEN_KW_TRANSACTION :: token_type where "TOKEN_KW_TRANSACTION \<equiv> 53"
abbreviation (input) TOKEN_KW_START :: token_type where "TOKEN_KW_START \<equiv> 54"
abbreviation (input) TOKEN_KW_TO :: token_type where "TOKEN_KW_TO \<equiv> 55"
abbreviation (input) TOKEN_KW_INTO :: token_type where "TOKEN_KW_INTO \<equiv> 56"
abbreviation (input) TOKEN_KW_ISOLATION :: token_type where "TOKEN_KW_ISOLATION \<equiv> 57"
abbreviation (input) TOKEN_KW_LEVEL :: token_type where "TOKEN_KW_LEVEL \<equiv> 58"
abbreviation (input) TOKEN_KW_READ :: token_type where "TOKEN_KW_READ \<equiv> 59"
abbreviation (input) TOKEN_KW_WRITE :: token_type where "TOKEN_KW_WRITE \<equiv> 60"
abbreviation (input) TOKEN_KW_UNCOMMITTED :: token_type where "TOKEN_KW_UNCOMMITTED \<equiv> 61"
abbreviation (input) TOKEN_KW_COMMITTED :: token_type where "TOKEN_KW_COMMITTED \<equiv> 62"
abbreviation (input) TOKEN_KW_REPEATABLE :: token_type where "TOKEN_KW_REPEATABLE \<equiv> 63"
abbreviation (input) TOKEN_KW_SERIALIZABLE :: token_type where "TOKEN_KW_SERIALIZABLE \<equiv> 64"
abbreviation (input) TOKEN_KW_PREPARE :: token_type where "TOKEN_KW_PREPARE \<equiv> 65"
abbreviation (input) TOKEN_KW_EXECUTE :: token_type where "TOKEN_KW_EXECUTE \<equiv> 66"
abbreviation (input) TOKEN_KW_DEALLOCATE :: token_type where "TOKEN_KW_DEALLOCATE \<equiv> 67"
abbreviation (input) TOKEN_KW_AS :: token_type where "TOKEN_KW_AS \<equiv> 68"
abbreviation (input) TOKEN_KW_USING :: token_type where "TOKEN_KW_USING \<equiv> 69"
abbreviation (input) TOKEN_KW_JOIN :: token_type where "TOKEN_KW_JOIN \<equiv> 70"
abbreviation (input) TOKEN_KW_INNER :: token_type where "TOKEN_KW_INNER \<equiv> 71"
abbreviation (input) TOKEN_KW_LEFT :: token_type where "TOKEN_KW_LEFT \<equiv> 72"
abbreviation (input) TOKEN_KW_RIGHT :: token_type where "TOKEN_KW_RIGHT \<equiv> 73"
abbreviation (input) TOKEN_KW_FULL :: token_type where "TOKEN_KW_FULL \<equiv> 74"
abbreviation (input) TOKEN_KW_OUTER :: token_type where "TOKEN_KW_OUTER \<equiv> 75"
abbreviation (input) TOKEN_KW_CROSS :: token_type where "TOKEN_KW_CROSS \<equiv> 76"
abbreviation (input) TOKEN_KW_NATURAL :: token_type where "TOKEN_KW_NATURAL \<equiv> 77"
abbreviation (input) TOKEN_KW_EXPLAIN :: token_type where "TOKEN_KW_EXPLAIN \<equiv> 78"
abbreviation (input) TOKEN_KW_ANALYZE :: token_type where "TOKEN_KW_ANALYZE \<equiv> 79"
abbreviation (input) TOKEN_KW_ORDER :: token_type where "TOKEN_KW_ORDER \<equiv> 80"
abbreviation (input) TOKEN_KW_ASC :: token_type where "TOKEN_KW_ASC \<equiv> 81"
abbreviation (input) TOKEN_KW_DESC :: token_type where "TOKEN_KW_DESC \<equiv> 82"
abbreviation (input) TOKEN_KW_LIMIT :: token_type where "TOKEN_KW_LIMIT \<equiv> 83"
abbreviation (input) TOKEN_KW_OFFSET :: token_type where "TOKEN_KW_OFFSET \<equiv> 84"
abbreviation (input) TOKEN_KW_WHERE :: token_type where "TOKEN_KW_WHERE \<equiv> 85"
abbreviation (input) TOKEN_KW_ALTER :: token_type where "TOKEN_KW_ALTER \<equiv> 86"
abbreviation (input) TOKEN_KW_ADD :: token_type where "TOKEN_KW_ADD \<equiv> 87"
abbreviation (input) TOKEN_KW_COLUMN :: token_type where "TOKEN_KW_COLUMN \<equiv> 88"
abbreviation (input) TOKEN_KW_RENAME :: token_type where "TOKEN_KW_RENAME \<equiv> 89"
abbreviation (input) TOKEN_KW_MODIFY :: token_type where "TOKEN_KW_MODIFY \<equiv> 90"
abbreviation (input) TOKEN_KW_CONSTRAINT :: token_type where "TOKEN_KW_CONSTRAINT \<equiv> 91"
abbreviation (input) TOKEN_KW_FOREIGN :: token_type where "TOKEN_KW_FOREIGN \<equiv> 92"
abbreviation (input) TOKEN_KW_REFERENCES :: token_type where "TOKEN_KW_REFERENCES \<equiv> 93"
abbreviation (input) TOKEN_KW_CASCADE :: token_type where "TOKEN_KW_CASCADE \<equiv> 94"
abbreviation (input) TOKEN_KW_RESTRICT :: token_type where "TOKEN_KW_RESTRICT \<equiv> 95"
abbreviation (input) TOKEN_KW_NULL :: token_type where "TOKEN_KW_NULL \<equiv> 96"
abbreviation (input) TOKEN_KW_NOT :: token_type where "TOKEN_KW_NOT \<equiv> 97"
abbreviation (input) TOKEN_KW_DEFAULT :: token_type where "TOKEN_KW_DEFAULT \<equiv> 98"
abbreviation (input) TOKEN_KW_UNIQUE :: token_type where "TOKEN_KW_UNIQUE \<equiv> 99"
abbreviation (input) TOKEN_KW_BACKUP :: token_type where "TOKEN_KW_BACKUP \<equiv> 100"
abbreviation (input) TOKEN_KW_RESTORE :: token_type where "TOKEN_KW_RESTORE \<equiv> 101"
abbreviation (input) TOKEN_KW_EXPORT :: token_type where "TOKEN_KW_EXPORT \<equiv> 102"
abbreviation (input) TOKEN_KW_IMPORT :: token_type where "TOKEN_KW_IMPORT \<equiv> 103"
abbreviation (input) TOKEN_KW_COLLECTION :: token_type where "TOKEN_KW_COLLECTION \<equiv> 104"
abbreviation (input) TOKEN_KW_DOCUMENT :: token_type where "TOKEN_KW_DOCUMENT \<equiv> 105"
abbreviation (input) TOKEN_KW_FIND :: token_type where "TOKEN_KW_FIND \<equiv> 106"
abbreviation (input) TOKEN_KW_UPSERT :: token_type where "TOKEN_KW_UPSERT \<equiv> 107"
abbreviation (input) TOKEN_KW_AGGREGATE :: token_type where "TOKEN_KW_AGGREGATE \<equiv> 108"
abbreviation (input) TOKEN_KW_MATCH :: token_type where "TOKEN_KW_MATCH \<equiv> 109"
abbreviation (input) TOKEN_KW_PROJECT :: token_type where "TOKEN_KW_PROJECT \<equiv> 110"
abbreviation (input) TOKEN_KW_UNWIND :: token_type where "TOKEN_KW_UNWIND \<equiv> 111"
abbreviation (input) TOKEN_KW_LOOKUP :: token_type where "TOKEN_KW_LOOKUP \<equiv> 112"
abbreviation (input) TOKEN_KW_SORT :: token_type where "TOKEN_KW_SORT \<equiv> 113"
abbreviation (input) TOKEN_KW_FORMAT :: token_type where "TOKEN_KW_FORMAT \<equiv> 114"
abbreviation (input) TOKEN_KW_DROP :: token_type where "TOKEN_KW_DROP \<equiv> 115"
abbreviation (input) TOKEN_KW_DELETE :: token_type where "TOKEN_KW_DELETE \<equiv> 116"
abbreviation (input) TOKEN_KW_HAVING :: token_type where "TOKEN_KW_HAVING \<equiv> 117"
abbreviation (input) TOKEN_KW_DISTINCT :: token_type where "TOKEN_KW_DISTINCT \<equiv> 118"
abbreviation (input) TOKEN_KW_LIKE :: token_type where "TOKEN_KW_LIKE \<equiv> 119"
abbreviation (input) TOKEN_KW_IN :: token_type where "TOKEN_KW_IN \<equiv> 120"
abbreviation (input) TOKEN_KW_BETWEEN :: token_type where "TOKEN_KW_BETWEEN \<equiv> 121"
abbreviation (input) TOKEN_KW_EXISTS :: token_type where "TOKEN_KW_EXISTS \<equiv> 122"
abbreviation (input) TOKEN_KW_TRUE :: token_type where "TOKEN_KW_TRUE \<equiv> 123"
abbreviation (input) TOKEN_KW_FALSE :: token_type where "TOKEN_KW_FALSE \<equiv> 124"
abbreviation (input) TOKEN_KW_CASE :: token_type where "TOKEN_KW_CASE \<equiv> 125"
abbreviation (input) TOKEN_KW_WHEN :: token_type where "TOKEN_KW_WHEN \<equiv> 126"
abbreviation (input) TOKEN_KW_THEN :: token_type where "TOKEN_KW_THEN \<equiv> 127"
abbreviation (input) TOKEN_KW_ELSE :: token_type where "TOKEN_KW_ELSE \<equiv> 128"
abbreviation (input) TOKEN_KW_END :: token_type where "TOKEN_KW_END \<equiv> 129"
abbreviation (input) TOKEN_KW_CLUSTER :: token_type where "TOKEN_KW_CLUSTER \<equiv> 130"
abbreviation (input) TOKEN_KW_NODES :: token_type where "TOKEN_KW_NODES \<equiv> 131"
abbreviation (input) TOKEN_KW_REPLICATE :: token_type where "TOKEN_KW_REPLICATE \<equiv> 132"
abbreviation (input) TOKEN_KW_PARTITION :: token_type where "TOKEN_KW_PARTITION \<equiv> 133"
abbreviation (input) TOKEN_KW_SYNC :: token_type where "TOKEN_KW_SYNC \<equiv> 134"
abbreviation (input) TOKEN_KW_HELP :: token_type where "TOKEN_KW_HELP \<equiv> 135"
abbreviation (input) TOKEN_KW_QUIT :: token_type where "TOKEN_KW_QUIT \<equiv> 136"
abbreviation (input) TOKEN_KW_EXIT :: token_type where "TOKEN_KW_EXIT \<equiv> 137"
abbreviation (input) TOKEN_KW_STATUS :: token_type where "TOKEN_KW_STATUS \<equiv> 138"
abbreviation (input) TOKEN_LPAREN :: token_type where "TOKEN_LPAREN \<equiv> 139"
abbreviation (input) TOKEN_RPAREN :: token_type where "TOKEN_RPAREN \<equiv> 140"
abbreviation (input) TOKEN_COMMA :: token_type where "TOKEN_COMMA \<equiv> 141"
abbreviation (input) TOKEN_EQUALS :: token_type where "TOKEN_EQUALS \<equiv> 142"
abbreviation (input) TOKEN_GT :: token_type where "TOKEN_GT \<equiv> 143"
abbreviation (input) TOKEN_LT :: token_type where "TOKEN_LT \<equiv> 144"
abbreviation (input) TOKEN_SEMICOLON :: token_type where "TOKEN_SEMICOLON \<equiv> 145"
abbreviation (input) TOKEN_LBRACE :: token_type where "TOKEN_LBRACE \<equiv> 146"
abbreviation (input) TOKEN_RBRACE :: token_type where "TOKEN_RBRACE \<equiv> 147"
abbreviation (input) TOKEN_LBRACKET :: token_type where "TOKEN_LBRACKET \<equiv> 148"
abbreviation (input) TOKEN_RBRACKET :: token_type where "TOKEN_RBRACKET \<equiv> 149"
abbreviation (input) TOKEN_COLON :: token_type where "TOKEN_COLON \<equiv> 150"
abbreviation (input) TOKEN_STAR :: token_type where "TOKEN_STAR \<equiv> 151"

record token =
  tk_type :: token_type
  tk_value :: "string option"
  tk_line :: nat

section \<open>Keywords\<close>

definition to_lower :: "char \<Rightarrow> char" where
  "to_lower c = (if 65 \<le> (of_char c :: nat) \<and> (of_char c :: nat) \<le> 90 then char_of ((of_char c :: nat) + 32) else c)"

definition strcasecmp_eq :: "string \<Rightarrow> string \<Rightarrow> bool" where
  "strcasecmp_eq s t \<longleftrightarrow> map to_lower s = map to_lower t"

text \<open>The comparisons of \<open>check_keyword\<close> in their order; the first that holds decides.\<close>

definition keyword_table :: "(string \<times> token_type) list" where
  "keyword_table =
    [(''TABLE'', TOKEN_KW_TABLE), (''BANAO'', TOKEN_KW_BANAO), (''INSERT'', TOKEN_KW_INSERT),
     (''DAALO'', TOKEN_KW_INSERT), (''DALO'', TOKEN_KW_INSERT), (''KARO'', TOKEN_KW_KARO),
     (''SELECT'', TOKEN_KW_SELECT), (''CHUNO'', TOKEN_KW_SELECT), (''DIKHAO'', TOKEN_KW_SELECT),
     (''JAHAN'', TOKEN_KW_JAHAN), (''RAKHO'', TOKEN_KW_RAKHO), (''DHUNDO'', TOKEN_KW_DHUNDO),
     (''DHUNDHO'', TOKEN_KW_DHUNDO), (''NIKALO'', TOKEN_KW_NIKALO), (''MANGWAO'', TOKEN_KW_MANGWAO),
     (''LAAO'', TOKEN_KW_MANGWAO), (''HATAO'', TOKEN_KW_HATAO), (''CHECKPOINT'', TOKEN_KW_CHECKPOINT),
     (''FROM'', TOKEN_KW_FROM), (''SE'', TOKEN_KW_FROM), (''VALUES'', TOKEN_KW_VALUES), (''MAAN'', TOKEN_KW_VALUES),
     (''INT'', TOKEN_KW_INT), (''INTEGER'', TOKEN_KW_INT), (''FLOAT'', TOKEN_KW_FLOAT),
     (''DOUBLE'', TOKEN_KW_FLOAT), (''STRING'', TOKEN_KW_STRING_TYPE), (''VARCHAR'', TOKEN_KW_STRING_TYPE),
     (''CHAR'', TOKEN_KW_STRING_TYPE), (''TEXT'', TOKEN_KW_TEXT_TYPE), (''BOOL'', TOKEN_KW_BOOL_TYPE),
     (''BOOLEAN'', TOKEN_KW_BOOL_TYPE), (''AUTO'', TOKEN_KW_AUTO), (''PRIMARY'', TOKEN_KW_PRIMARY),
     (''PK'', TOKEN_KW_PRIMARY), (''KEY'', TOKEN_KW_KEY), (''GIRAO'', TOKEN_KW_GIRAO), (''MITAO'', TOKEN_KW_GIRAO),
     (''INDEX'', TOKEN_KW_INDEX), (''ON'', TOKEN_KW_ON), (''CREATE'', TOKEN_KW_CREATE), (''USER'', TOKEN_KW_USER),
     (''PASSWORD'', TOKEN_KW_PASSWORD), (''DATABASE'', TOKEN_KW_DATABASE), (''DATABASES'', TOKEN_KW_DATABASE),
     (''SHOW'', TOKEN_KW_show), (''DEKHO'', TOKEN_KW_show), (''TABLES'', TOKEN_KW_TABLES),
     (''TABLED'', TOKEN_KW_TABLES), (''USE'', TOKEN_KW_USE), (''ISTEMAAL'', TOKEN_KW_USE),
     (''DELETE'', TOKEN_KW_DELETE), (''DROP'', TOKEN_KW_DROP), (''WHERE'', TOKEN_KW_JAHAN),
     (''UPDATE'', TOKEN_KW_UPDATE), (''BADLO'', TOKEN_KW_UPDATE), (''SET'', TOKEN_KW_SET),
     (''RAKHO_YEH'', TOKEN_KW_SET), (''AND'', TOKEN_KW_AND), (''AUR'', TOKEN_KW_AND), (''OR'', TOKEN_KW_OR),
     (''YA'', TOKEN_KW_OR), (''GROUP'', TOKEN_KW_GROUP), (''SAMOOH'', TOKEN_KW_GROUP), (''BY'', TOKEN_KW_BY),
     (''DWARA'', TOKEN_KW_BY), (''COUNT'', TOKEN_KW_COUNT), (''GINO'', TOKEN_KW_COUNT), (''SUM'', TOKEN_KW_SUM),
     (''JODO'', TOKEN_KW_SUM), (''AVG'', TOKEN_KW_AVG), (''AUSAAT'', TOKEN_KW_AVG), (''MAX'', TOKEN_KW_MAX),
     (''SABSE_BADA'', TOKEN_KW_MAX), (''MIN'', TOKEN_KW_MIN), (''SABSE_CHOTA'', TOKEN_KW_MIN),
     (''FROM'', TOKEN_KW_FROM), (''BEGIN'', TOKEN_KW_BEGIN), (''SHURU'', TOKEN_KW_BEGIN),
     (''COMMIT'', TOKEN_KW_COMMIT), (''PUKKA'', TOKEN_KW_COMMIT), (''ROLLBACK'', TOKEN_KW_ROLLBACK),
     (''WAPAS'', TOKEN_KW_ROLLBACK), (''SAVEPOINT'', TOKEN_KW_SAVEPOINT), (''NISHAAN'', TOKEN_KW_SAVEPOINT),
     (''RELEASE'', TOKEN_KW_RELEASE), (''TRANSACTION'', TOKEN_KW_TRANSACTION), (''START'', TOKEN_KW_START),
     (''TO'', TOKEN_KW_TO), (''INTO'', TOKEN_KW_INTO), (''MEIN'', TOKEN_KW_INTO),
     (''ISOLATION'', TOKEN_KW_ISOLATION), (''LEVEL'', TOKEN_KW_LEVEL), (''READ'', TOKEN_KW_READ),
     (''PADHO'', TOKEN_KW_READ), (''WRITE'', TOKEN_KW_WRITE), (''LIKHO'', TOKEN_KW_WRITE),
     (''UNCOMMITTED'', TOKEN_KW_UNCOMMITTED), (''COMMITTED'', TOKEN_KW_COMMITTED),
     (''REPEATABLE'', TOKEN_KW_REPEATABLE), (''SERIALIZABLE'', TOKEN_KW_SERIALIZABLE),
     (''PREPARE'', TOKEN_KW_PREPARE), (''TAYYAR'', TOKEN_KW_PREPARE), (''EXECUTE'', TOKEN_KW_EXECUTE),
     (''CHALAO'', TOKEN_KW_EXECUTE), (''DEALLOCATE'', TOKEN_KW_DEALLOCATE), (''HATAO_TAYYAR'', TOKEN_KW_DEALLOCATE),
     (''AS'', TOKEN_KW_AS), (''JAISE'', TOKEN_KW_AS), (''USING'', TOKEN_KW_USING), (''ISTEMAL'', TOKEN_KW_USING),
     (''JOIN'', TOKEN_KW_JOIN), (''MILAO'', TOKEN_KW_JOIN), (''INNER'', TOKEN_KW_INNER), (''LEFT'', TOKEN_KW_LEFT),
     (''BAAYA'', TOKEN_KW_LEFT), (''RIGHT'', TOKEN_KW_RIGHT), (''DAAYA'', TOKEN_KW_RIGHT),
     (''FULL'', TOKEN_KW_FULL), (''POORA'', TOKEN_KW_FULL), (''OUTER'', TOKEN_KW_OUTER),
     (''BAHAR'', TOKEN_KW_OUTER), (''CROSS'', TOKEN_KW_CROSS), (''NATURAL'', TOKEN_KW_NATURAL),
     (''KUDRATI'', TOKEN_KW_NATURAL), (''EXPLAIN'', TOKEN_KW_EXPLAIN), (''SAMJHAO'', TOKEN_KW_EXPLAIN),
     (''ANALYZE'', TOKEN_KW_ANALYZE), (''ORDER'', TOKEN_KW_ORDER), (''KRAM'', TOKEN_KW_ORDER),
     (''ASC'', TOKEN_KW_ASC), (''CHADHTE'', TOKEN_KW_ASC), (''DESC'', TOKEN_KW_DESC), (''UTARTE'', TOKEN_KW_DESC),
     (''LIMIT'', TOKEN_KW_LIMIT), (''SEEMA'', TOKEN_KW_LIMIT), (''OFFSET'', TOKEN_KW_OFFSET),
     (''PAAR'', TOKEN_KW_OFFSET), (''WHERE'', TOKEN_KW_WHERE), (''ALTER'', TOKEN_KW_ALTER),
     (''BADLO_TABLE'', TOKEN_KW_ALTER), (''ADD'', TOKEN_KW_ADD), (''JODO_COLUMN'', TOKEN_KW_ADD),
     (''COLUMN'', TOKEN_KW_COLUMN), (''STAMBH'', TOKEN_KW_COLUMN), (''RENAME'', TOKEN_KW_RENAME),
     (''NAAM_BADLO'', TOKEN_KW_RENAME), (''MODIFY'', TOKEN_KW_MODIFY), (''SUDHAR'', TOKEN_KW_MODIFY),
     (''CONSTRAINT'', TOKEN_KW_CONSTRAINT), (''NIYAM'', TOKEN_KW_CONSTRAINT), (''FOREIGN'', TOKEN_KW_FOREIGN),
     (''VIDESHI'', TOKEN_KW_FOREIGN), (''REFERENCES'', TOKEN_KW_REFERENCES), (''SANDARBH'', TOKEN_KW_REFERENCES),
     (''CASCADE'', TOKEN_KW_CASCADE), (''JHARNA'', TOKEN_KW_CASCADE), (''RESTRICT'', TOKEN_KW_RESTRICT),
     (''ROKO'', TOKEN_KW_RESTRICT), (''NULL'', TOKEN_KW_NULL), (''KHALI'', TOKEN_KW_NULL), (''NOT'', TOKEN_KW_NOT),
     (''NAHI'', TOKEN_KW_NOT), (''DEFAULT'', TOKEN_KW_DEFAULT), (''MOOL'', TOKEN_KW_DEFAULT),
     (''UNIQUE'', TOKEN_KW_UNIQUE), (''ANOKHA'', TOKEN_KW_UNIQUE), (''BACKUP'', TOKEN_KW_BACKUP),
     (''SURAKSHA'', TOKEN_KW_BACKUP), (''RESTORE'', TOKEN_KW_RESTORE), (''WAPAS_LAO'', TOKEN_KW_RESTORE),
     (''EXPORT'', TOKEN_KW_EXPORT), (''BHEJO'', TOKEN_KW_EXPORT), (''IMPORT'', TOKEN_KW_IMPORT),
     (''LAAO'', TOKEN_KW_IMPORT), (''COLLECTION'', TOKEN_KW_COLLECTION), (''SANGRAH'', TOKEN_KW_COLLECTION),
     (''DOCUMENT'', TOKEN_KW_DOCUMENT), (''DASTAVEZ'', TOKEN_KW_DOCUMENT), (''FIND'', TOKEN_KW_FIND),
     (''KHOJO'', TOKEN_KW_FIND), (''UPSERT'', TOKEN_KW_UPSERT), (''DAL_YA_BADLO'', TOKEN_KW_UPSERT),
     (''AGGREGATE'', TOKEN_KW_AGGREGATE), (''IKATHA'', TOKEN_KW_AGGREGATE), (''MATCH'', TOKEN_KW_MATCH),
     (''MILA'', TOKEN_KW_MATCH), (''PROJECT'', TOKEN_KW_PROJECT), (''PRADARSHI'', TOKEN_KW_PROJECT),
     (''UNWIND'', TOKEN_KW_UNWIND), (''KHOLO'', TOKEN_KW_UNWIND), (''LOOKUP'', TOKEN_KW_LOOKUP),
     (''DEKHO_MILA'', TOKEN_KW_LOOKUP), (''SORT'', TOKEN_KW_SORT), (''KRAM_SE'', TOKEN_KW_SORT),
     (''FORMAT'', TOKEN_KW_FORMAT), (''ROOP'', TOKEN_KW_FORMAT), (''DROP'', TOKEN_KW_DROP),
     (''HAVING'', TOKEN_KW_HAVING), (''RAKHTE'', TOKEN_KW_HAVING), (''JISME'', TOKEN_KW_HAVING),
     (''DISTINCT'', TOKEN_KW_DISTINCT), (''ALAG'', TOKEN_KW_DISTINCT), (''MUKHTALIF'', TOKEN_KW_DISTINCT),
     (''LIKE'', TOKEN_KW_LIKE), (''JAISA'', TOKEN_KW_LIKE), (''IN'', TOKEN_KW_IN), (''ANDAR'', TOKEN_KW_IN),
     (''BETWEEN'', TOKEN_KW_BETWEEN), (''BEECH'', TOKEN_KW_BETWEEN), (''EXISTS'', TOKEN_KW_EXISTS),
     (''MAUJOOD'', TOKEN_KW_EXISTS), (''TRUE'', TOKEN_KW_TRUE), (''SACH'', TOKEN_KW_TRUE),
     (''HAAN'', TOKEN_KW_TRUE), (''FALSE'', TOKEN_KW_FALSE), (''JHOOTH'', TOKEN_KW_FALSE), (''NA'', TOKEN_KW_FALSE),
     (''CASE'', TOKEN_KW_CASE), (''MAAMLA'', TOKEN_KW_CASE), (''WHEN'', TOKEN_KW_WHEN), (''JAB'', TOKEN_KW_WHEN),
     (''THEN'', TOKEN_KW_THEN), (''PHIR'', TOKEN_KW_THEN), (''TAB'', TOKEN_KW_THEN), (''ELSE'', TOKEN_KW_ELSE),
     (''WARNA'', TOKEN_KW_ELSE), (''END'', TOKEN_KW_END), (''KHATAM'', TOKEN_KW_END),
     (''CLUSTER'', TOKEN_KW_CLUSTER), (''JHAAD'', TOKEN_KW_CLUSTER), (''NODES'', TOKEN_KW_NODES),
     (''GRANTHI'', TOKEN_KW_NODES), (''REPLICATE'', TOKEN_KW_REPLICATE), (''NAKAL'', TOKEN_KW_REPLICATE),
     (''PARTITION'', TOKEN_KW_PARTITION), (''VIBHAJAN'', TOKEN_KW_PARTITION), (''SYNC'', TOKEN_KW_SYNC),
     (''MILAO_SAATH'', TOKEN_KW_SYNC), (''HELP'', TOKEN_KW_HELP), (''MADAD'', TOKEN_KW_HELP),
     (''QUIT'', TOKEN_KW_QUIT), (''NIKLO'', TOKEN_KW_QUIT), (''BAHAR'', TOKEN_KW_QUIT), (''EXIT'', TOKEN_KW_EXIT),
     (''KHATAM_KARO'', TOKEN_KW_EXIT), (''STATUS'', TOKEN_KW_STATUS), (''HALAT'', TOKEN_KW_STATUS),
     (''STHITI'', TOKEN_KW_STATUS)]"

definition check_keyword :: "string \<Rightarrow> token_type" where
  "check_keyword str =
     (case List.find (\<lambda>(k, t). strcasecmp_eq str k) keyword_table of Some (k, t) \<Rightarrow> t | None \<Rightarrow> TOKEN_IDENTIFIER)"

section \<open>The lexer\<close>

definition is_alpha :: "char \<Rightarrow> bool" where
  "is_alpha c \<longleftrightarrow> (let n = (of_char c :: nat) in 65 \<le> n \<and> n \<le> 90 \<or> 97 \<le> n \<and> n \<le> 122)"

definition is_word_char :: "char \<Rightarrow> bool" where
  "is_word_char c \<longleftrightarrow> is_alpha c \<or> is_digit c \<or> c = CHR ''_''"

definition is_number_char :: "char \<Rightarrow> bool" where
  "is_number_char c \<longleftrightarrow> is_digit c \<or> c = CHR ''.''"

definition symbol_type :: "char \<Rightarrow> token_type option" where
  "symbol_type = map_of
     [(CHR ''('', TOKEN_LPAREN), (CHR '')'', TOKEN_RPAREN), (CHR 0x7B, TOKEN_LBRACE), (CHR 0x7D, TOKEN_RBRACE),
      (CHR ''['', TOKEN_LBRACKET), (CHR '']'', TOKEN_RBRACKET), (CHR '','', TOKEN_COMMA), (CHR '';'', TOKEN_SEMICOLON),
      (CHR ''='', TOKEN_EQUALS), (CHR '':'', TOKEN_COLON), (CHR ''>'', TOKEN_GT), (CHR ''<'', TOKEN_LT), (CHR ''*'', TOKEN_STAR)]"

abbreviation "newline \<equiv> CHR 0x0A"
abbreviation "backslash \<equiv> CHR 0x5C"
abbreviation "double_quote \<equiv> CHR 0x22"
abbreviation "single_quote \<equiv> CHR 0x27"

text \<open>The first pass over a string literal, after its quote: the length \<open>malloc\<close> gets.\<close>

function string_len :: "char \<Rightarrow> string \<Rightarrow> nat" where
  "string_len q [] = 0"
| "string_len q (c # cs) =
     (if c = q then 0
      else if c = backslash \<and> cs \<noteq> [] then Suc (string_len q (tl cs))
      else Suc (string_len q cs))"
  by pat_completeness auto
termination by (relation "measure (length \<circ> snd)") auto

definition escape_char :: "char \<Rightarrow> char" where
  "escape_char c = (if c = CHR ''n'' then newline else if c = CHR ''t'' then CHR 0x09 else c)"

text \<open>The second pass: the characters stored, and the input from the closing quote on.\<close>

function string_body :: "char \<Rightarrow> string \<Rightarrow> string \<times> string" where
  "string_body q [] = ([], [])"
| "string_body q (c # cs) =
     (if c = q then ([], c # cs)
      else if c = backslash \<and> cs \<noteq> []
      then (case string_body q (tl cs) of (s, rest) \<Rightarrow> (escape_char (hd cs) # s, rest))
      else (case string_body q cs of (s, rest) \<Rightarrow> (c # s, rest)))"
  by pat_completeness auto
termination by (relation "measure (length \<circ> snd)") auto

lemma length_string_body: "length (snd (string_body q cs)) \<le> length cs"
  by (induction q cs rule: string_body.induct) (auto split: prod.split)

text \<open>The second pass fills the buffer of the first exactly.\<close>

lemma string_body_len: "length (fst (string_body q cs)) = string_len q cs"
  by (induction q cs rule: string_body.induct) (auto split: prod.split)

definition make_token :: "token_type \<Rightarrow> string option \<Rightarrow> nat \<Rightarrow> token" where
  "make_token t v line = \<lparr>tk_type = t, tk_value = v, tk_line = line\<rparr>"

definition word_token :: "string \<Rightarrow> nat \<Rightarrow> token" where
  "word_token w line =
     (let t = check_keyword w in make_token t (if t = TOKEN_IDENTIFIER then Some w else None) line)"

definition number_token :: "string \<Rightarrow> nat \<Rightarrow> token" where
  "number_token num line = make_token (if CHR ''.'' \<in> set num then TOKEN_FLOAT_LITERAL else TOKEN_INT_LITERAL) (Some num) line"

function lex_loop :: "nat \<Rightarrow> string \<Rightarrow> token list" where
  "lex_loop line [] = [make_token TOKEN_EOF None line]"
| "lex_loop line (c # cs) =
     (if is_space c then lex_loop (if c = newline then Suc line else line) cs
      else
        case symbol_type c of
          Some t \<Rightarrow> make_token t (Some [c]) line # lex_loop line cs
        | None \<Rightarrow>
            if c = double_quote \<or> c = single_quote
            then (case string_body c cs of
                    (s, rest) \<Rightarrow> make_token TOKEN_STRING (Some s) line # lex_loop line (drop 1 rest))
            else if is_digit c
            then number_token (takeWhile is_number_char (c # cs)) line # lex_loop line (dropWhile is_number_char cs)
            else if is_alpha c \<or> c = CHR ''_''
            then word_token (takeWhile is_word_char (c # cs)) line # lex_loop line (dropWhile is_word_char cs)
            else lex_loop line cs)"
  by pat_completeness auto
termination
proof (relation "measure (length \<circ> snd)", goal_cases)
  case (3 line c cs x y)
  then have "length y \<le> length cs" using length_string_body [of c cs] by (metis snd_conv)
  then show ?case by simp
qed (auto simp: length_dropWhile_le le_imp_less_Suc)

definition tokenize :: "string \<Rightarrow> token list" where
  "tokenize input = lex_loop 1 input"

section \<open>What the parser relies on\<close>

text \<open>Types that carry their text, and the shape of every token.\<close>

definition has_text :: "token_type \<Rightarrow> bool" where
  "has_text t \<longleftrightarrow> t \<in> {TOKEN_IDENTIFIER, TOKEN_STRING, TOKEN_INT_LITERAL, TOKEN_FLOAT_LITERAL} \<or> TOKEN_LPAREN \<le> t"

definition wf_tokens :: "token list \<Rightarrow> bool" where
  "wf_tokens ts \<longleftrightarrow>
     ts \<noteq> [] \<and> tk_type (last ts) = TOKEN_EOF \<and>
     (\<forall>t \<in> set (butlast ts). tk_type t \<noteq> TOKEN_EOF) \<and>
     (\<forall>t \<in> set ts. tk_type t \<le> TOKEN_STAR \<and> (tk_value t \<noteq> None \<longleftrightarrow> has_text (tk_type t)))"

definition token_ok :: "token \<Rightarrow> bool" where
  "token_ok t \<longleftrightarrow> tk_type t \<noteq> TOKEN_EOF \<and> tk_type t \<le> TOKEN_STAR \<and> (tk_value t \<noteq> None \<longleftrightarrow> has_text (tk_type t))"

lemma wf_tokens_Cons: "token_ok t \<Longrightarrow> wf_tokens ts \<Longrightarrow> wf_tokens (t # ts)"
  by (auto simp: wf_tokens_def token_ok_def)

lemma keyword_table_types: "list_all (\<lambda>(k, t). 5 \<le> t \<and> t < TOKEN_LPAREN) keyword_table"
  by (simp add: keyword_table_def)

lemma check_keyword_types: "check_keyword w = TOKEN_IDENTIFIER \<or> 5 \<le> check_keyword w \<and> check_keyword w < TOKEN_LPAREN"
proof (cases "List.find (\<lambda>(k, t). strcasecmp_eq w k) keyword_table")
  case (Some p)
  then have "p \<in> set keyword_table" unfolding find_Some_iff by (metis nth_mem)
  then show ?thesis using keyword_table_types Some by (auto simp: check_keyword_def list_all_iff split: prod.split)
qed (simp add: check_keyword_def)

lemma word_token_ok: "token_ok (word_token w line)"
  using check_keyword_types [of w] by (auto simp: word_token_def token_ok_def has_text_def Let_def make_token_def)

lemma number_token_ok: "token_ok (number_token w line)"
  by (simp add: number_token_def token_ok_def has_text_def make_token_def)

lemma symbol_type_ok: "symbol_type c = Some t \<Longrightarrow> TOKEN_LPAREN \<le> t \<and> t \<le> TOKEN_STAR"
  by (auto simp: symbol_type_def split: if_splits)

lemma wf_lex_loop: "wf_tokens (lex_loop line cs)"
proof (induction line cs rule: lex_loop.induct)
  case (1 line)
  show ?case by (simp add: wf_tokens_def has_text_def make_token_def)
next
  case (2 line c cs)
  have "token_ok (make_token t (Some [c]) line)" if "symbol_type c = Some t" for t
    using symbol_type_ok [OF that] by (simp add: token_ok_def has_text_def make_token_def)
  moreover have "token_ok (make_token TOKEN_STRING (Some s) line)" for s
    by (simp add: token_ok_def has_text_def make_token_def)
  moreover obtain str rest where "string_body c cs = (str, rest)" by fastforce
  ultimately show ?case
    using 2 word_token_ok number_token_ok
    by (cases "is_space c"; cases "symbol_type c"; cases "c = double_quote \<or> c = single_quote"; cases "is_digit c";
        cases "is_alpha c \<or> c = CHR ''_''") (simp_all del: takeWhile.simps add: wf_tokens_Cons)
qed

lemma wf_tokenize: "wf_tokens (tokenize input)"
  by (simp add: tokenize_def wf_lex_loop)

end
