(* ===== verification/Parser.thy ===== *)
theory Parser
  imports Lexer
begin

text \<open>
  The recursive-descent parser of \<open>src/parser.c\<close>. A parser reads the token array at an index; \<open>longjmp\<close>
  and a \<open>NULL\<close> result are \<open>ParseError\<close>, a call of \<open>exit\<close> is \<open>Exits\<close>, and reading a missing text,
  overrunning a buffer or reading past the array is \<open>Crash\<close>. Loops and recursion carry fuel;
  \<open>ParserTotal\<close> shows that what \<open>parse\<close> supplies is enough. The text of a consumed token is copied at once.
\<close>

section \<open>Syntax trees\<close>

text \<open>An item of the column list is the code of its aggregate function (0 for none) and the column.\<close>

datatype (plugins only: code size) sql_expr =
    EXPR_BINARY sql_expr string sql_expr
  | EXPR_IDENTIFIER string
  | EXPR_LITERAL string
  | EXPR_SUBQUERY sql_select
and sql_select =
    Select (sel_table: string) (sel_columns: "(nat \<times> string) list") (sel_where: "sql_expr option")
      (sel_group_by: "string option") (sel_order: "(string \<times> bool) list") (sel_limit: int) (sel_offset: int)

record column_def =
  cd_name :: string
  cd_type :: string
  cd_is_pk :: bool

text \<open>The arguments follow the fields of the union in the source that the code sets.\<close>

datatype (plugins only: code) ast_node =
    NODE_CMD_CREATE_TABLE string "column_def list"
  | NODE_CMD_INSERT string "string list list"
  | NODE_CMD_SELECT sql_select
  | NODE_CMD_DELETE string "sql_expr option"
  | NODE_CMD_UPDATE string "(string \<times> string) list" "sql_expr option"
  | NODE_CMD_DROP_TABLE string
  | NODE_CMD_DOC_INSERT string string
  | NODE_CMD_DOC_GET string "string option"
  | NODE_CMD_DOC_REMOVE string string
  | NODE_CMD_CHECKPOINT
  | NODE_CMD_CREATE_INDEX string string
  | NODE_CMD_CREATE_USER string string
  | NODE_CMD_CREATE_DB string
  | NODE_CMD_SHOW_TABLES
  | NODE_CMD_USE_DB string
  | NODE_CMD_DROP_DB string
  | NODE_CMD_SHOW_DBS
  | NODE_CMD_BEGIN
  | NODE_CMD_COMMIT
  | NODE_CMD_ROLLBACK
  | NODE_CMD_SAVEPOINT string
  | NODE_CMD_RELEASE_SAVEPOINT string
  | NODE_CMD_ROLLBACK_TO string
  | NODE_CMD_ADD_COLUMN string string string bool bool "string option"
  | NODE_CMD_DROP_COLUMN string string
  | NODE_CMD_RENAME_COLUMN string string string
  | NODE_CMD_MODIFY_COLUMN string string string
  | NODE_CMD_ADD_CONSTRAINT string string string string string nat nat
  | NODE_CMD_DROP_CONSTRAINT string string
  | NODE_CMD_BACKUP string "string option" nat
  | NODE_CMD_RESTORE string "string option"
  | NODE_CMD_EXPORT string string nat
  | NODE_CMD_IMPORT string string
  | NODE_CMD_DOC_UPSERT string string
  | NODE_CMD_DOC_AGGREGATE string "string list"
  | NODE_CMD_CREATE_COLLECTION string

section \<open>Parsers\<close>

datatype 'a outcome = Done 'a nat | ParseError | Exits | Crash | NoFuel

type_synonym 'a parser = "token list \<Rightarrow> nat \<Rightarrow> 'a outcome"

definition ret :: "'a \<Rightarrow> 'a parser" where
  "ret x ts i = Done x i"

definition pbind :: "'a parser \<Rightarrow> ('a \<Rightarrow> 'b parser) \<Rightarrow> 'b parser" where
  "pbind p f ts i =
     (case p ts i of
        Done x j \<Rightarrow> f x ts j
      | ParseError \<Rightarrow> ParseError
      | Exits \<Rightarrow> Exits
      | Crash \<Rightarrow> Crash
      | NoFuel \<Rightarrow> NoFuel)"

abbreviation pthen :: "'a parser \<Rightarrow> 'b parser \<Rightarrow> 'b parser" where
  "pthen p q \<equiv> pbind p (\<lambda>_. q)"

definition fail_with :: "'a outcome \<Rightarrow> 'a parser" where
  "fail_with r ts i = r"

text \<open>Past the end the last token, \<open>EOF\<close>, is read again.\<close>

definition current_token :: "token list \<Rightarrow> nat \<Rightarrow> token" where
  "current_token ts i = (if i < length ts then ts ! i else last ts)"

definition cur :: "token parser" where
  "cur ts i = Done (current_token ts i) i"

definition advance :: "unit parser" where
  "advance ts i = Done () (if i < length ts then Suc i else i)"

definition branch :: "token_type \<Rightarrow> 'a parser \<Rightarrow> 'a parser \<Rightarrow> 'a parser" where
  "branch t p q ts i = (if tk_type (current_token ts i) = t then p ts i else q ts i)"

definition match :: "token_type \<Rightarrow> bool parser" where
  "match t = branch t (pthen advance (ret True)) (ret False)"

definition consume :: "token_type \<Rightarrow> token parser" where
  "consume t = branch t (pbind cur (\<lambda>tok. pthen advance (ret tok))) (fail_with ParseError)"

abbreviation skip_if :: "token_type \<Rightarrow> unit parser" where
  "skip_if t \<equiv> pthen (match t) (ret ())"

text \<open>\<open>strdup(token->value)\<close> reads through \<open>NULL\<close> when the token has no text.\<close>

definition strdup :: "string option \<Rightarrow> string parser" where
  "strdup v = (case v of None \<Rightarrow> fail_with Crash | Some s \<Rightarrow> ret s)"

definition text_of :: "token parser \<Rightarrow> string parser" where
  "text_of p = pbind p (\<lambda>tok. strdup (tk_value tok))"

abbreviation consume_text :: "token_type \<Rightarrow> string parser" where
  "consume_text t \<equiv> text_of (consume t)"

text \<open>A loop that reads an item and goes on after a comma.\<close>

fun comma_list :: "nat \<Rightarrow> 'a parser \<Rightarrow> 'a list parser" where
  "comma_list 0 p = fail_with NoFuel"
| "comma_list (Suc n) p =
     pbind p (\<lambda>x. pbind (match TOKEN_COMMA) (\<lambda>more.
       if more then pbind (comma_list n p) (\<lambda>xs. ret (x # xs)) else ret [x]))"

text \<open>A branch on the first of several types.\<close>

fun consume_one_of :: "token_type list \<Rightarrow> token outcome \<Rightarrow> token parser" where
  "consume_one_of [] r = fail_with r"
| "consume_one_of (t # ts) r = branch t (consume t) (consume_one_of ts r)"

text \<open>\<open>atoi\<close> of the C library: the value as a 64-bit \<open>long\<close>, clamped, then cut to 32 bits.\<close>

definition atoi_int :: "string \<Rightarrow> int" where
  "atoi_int s = sint (word_of_int (max (- (2 ^ 63)) (min (2 ^ 63 - 1) (atoi s))) :: u32)"

section \<open>Users, databases, indexes\<close>

definition parse_create_user :: "ast_node parser" where
  "parse_create_user =
     pthen (consume TOKEN_KW_USER) (pthen (skip_if TOKEN_KW_BANAO)
     (pbind (consume_text TOKEN_IDENTIFIER) (\<lambda>usr. pthen (consume TOKEN_KW_PASSWORD)
     (pbind (consume_text TOKEN_STRING) (\<lambda>pw. pthen (consume TOKEN_SEMICOLON)
     (ret (NODE_CMD_CREATE_USER usr pw)))))))"

definition parse_create_db :: "ast_node parser" where
  "parse_create_db =
     pthen (consume TOKEN_KW_DATABASE) (pthen (skip_if TOKEN_KW_BANAO)
     (pbind (consume_text TOKEN_IDENTIFIER) (\<lambda>db. pthen (consume TOKEN_SEMICOLON) (ret (NODE_CMD_CREATE_DB db)))))"

definition parse_drop_db :: "ast_node parser" where
  "parse_drop_db =
     pthen (skip_if TOKEN_KW_DATABASE) (pthen (skip_if TOKEN_KW_HATAO)
     (pbind (consume_text TOKEN_IDENTIFIER) (\<lambda>db. pthen (consume TOKEN_SEMICOLON) (ret (NODE_CMD_DROP_DB db)))))"

definition parse_show_dbs :: "ast_node parser" where
  "parse_show_dbs =
     pthen (skip_if TOKEN_KW_show) (pthen (consume TOKEN_KW_DATABASE)
     (pthen (consume TOKEN_SEMICOLON) (ret NODE_CMD_SHOW_DBS)))"

definition parse_show_tables :: "ast_node parser" where
  "parse_show_tables =
     pthen (consume TOKEN_KW_show) (pthen (consume TOKEN_KW_TABLES)
     (pthen (consume TOKEN_SEMICOLON) (ret NODE_CMD_SHOW_TABLES)))"

definition parse_create_index :: "ast_node parser" where
  "parse_create_index =
     pthen (consume TOKEN_KW_INDEX) (pthen (consume TOKEN_KW_ON)
     (pbind (consume_text TOKEN_IDENTIFIER) (\<lambda>tbl. pthen (consume TOKEN_LPAREN)
     (pbind (consume_text TOKEN_IDENTIFIER) (\<lambda>col. pthen (consume TOKEN_RPAREN)
     (pthen (consume TOKEN_SEMICOLON) (ret (NODE_CMD_CREATE_INDEX tbl col))))))))"

section \<open>CREATE TABLE and INSERT\<close>

abbreviation column_types :: "token_type list" where
  "column_types \<equiv> [TOKEN_KW_INT, TOKEN_KW_FLOAT, TOKEN_KW_STRING_TYPE, TOKEN_KW_TEXT_TYPE, TOKEN_KW_BOOL_TYPE]"

definition type_str :: "token_type \<Rightarrow> string" where
  "type_str t =
     (if t = TOKEN_KW_INT then ''INT''
      else if t = TOKEN_KW_FLOAT then ''FLOAT''
      else if t = TOKEN_KW_STRING_TYPE then ''STRING''
      else if t = TOKEN_KW_TEXT_TYPE then ''TEXT''
      else if t = TOKEN_KW_BOOL_TYPE then ''BOOL''
      else ''UNKNOWN'')"

definition parse_column :: "column_def parser" where
  "parse_column =
     pbind (consume_text TOKEN_IDENTIFIER) (\<lambda>name.
     pbind (consume_one_of column_types ParseError) (\<lambda>tok.
     pbind (match TOKEN_KW_PRIMARY) (\<lambda>pk.
     pthen (if pk then skip_if TOKEN_KW_KEY else ret ())
     (ret \<lparr>cd_name = name, cd_type = type_str (tk_type tok), cd_is_pk = pk\<rparr>))))"

definition parse_create_table :: "nat \<Rightarrow> ast_node parser" where
  "parse_create_table n =
     pthen (skip_if TOKEN_KW_TABLE) (pthen (skip_if TOKEN_KW_BANAO)
     (pbind (consume_text TOKEN_IDENTIFIER) (\<lambda>name. pthen (consume TOKEN_LPAREN)
     (pbind (comma_list n parse_column) (\<lambda>cols. pthen (consume TOKEN_RPAREN)
     (pthen (consume TOKEN_SEMICOLON) (ret (NODE_CMD_CREATE_TABLE name cols))))))))"

definition parse_value :: "string parser" where
  "parse_value =
     pbind (consume_one_of [TOKEN_STRING, TOKEN_INT_LITERAL, TOKEN_FLOAT_LITERAL, TOKEN_KW_AUTO, TOKEN_IDENTIFIER] ParseError)
       (\<lambda>tok. if tk_type tok = TOKEN_KW_AUTO then ret ''AUTO'' else strdup (tk_value tok))"

definition parse_row :: "nat \<Rightarrow> string list parser" where
  "parse_row n =
     pthen (consume TOKEN_LPAREN) (pbind (comma_list n parse_value) (\<lambda>vs. pthen (consume TOKEN_RPAREN) (ret vs)))"

definition parse_insert :: "nat \<Rightarrow> ast_node parser" where
  "parse_insert n =
     pthen (consume TOKEN_KW_INSERT) (pthen (branch TOKEN_KW_KARO (skip_if TOKEN_KW_KARO) (skip_if TOKEN_KW_INTO))
     (pbind (consume_text TOKEN_IDENTIFIER) (\<lambda>name. pthen (consume TOKEN_KW_VALUES)
     (pbind (comma_list n (parse_row n)) (\<lambda>rows. pthen (consume TOKEN_SEMICOLON)
     (ret (NODE_CMD_INSERT name rows)))))))"

section \<open>SELECT and conditions\<close>

definition parse_func :: "nat parser" where
  "parse_func =
     (let f = (\<lambda>t k. pthen (consume t) (pthen (consume TOKEN_LPAREN) (ret k)))
      in branch TOKEN_KW_COUNT (f TOKEN_KW_COUNT 1)
        (branch TOKEN_KW_SUM (f TOKEN_KW_SUM 2)
        (branch TOKEN_KW_AVG (f TOKEN_KW_AVG 3)
        (branch TOKEN_KW_MAX (f TOKEN_KW_MAX 4)
        (branch TOKEN_KW_MIN (f TOKEN_KW_MIN 5) (ret 0))))))"

definition parse_select_item :: "(nat \<times> string) parser" where
  "parse_select_item =
     pbind parse_func (\<lambda>func.
     pbind (if func = 1
            then branch TOKEN_STAR (pthen (consume TOKEN_STAR) (ret ''*'')) (consume_text TOKEN_IDENTIFIER)
            else consume_text TOKEN_IDENTIFIER) (\<lambda>col.
     pthen (if func > 0 then pthen (consume TOKEN_RPAREN) (ret ()) else ret ()) (ret (func, col))))"

definition parse_select_list :: "nat \<Rightarrow> (nat \<times> string) list parser" where
  "parse_select_list n =
     branch TOKEN_STAR (pthen (consume TOKEN_STAR) (ret [(0, ''*'')])) (comma_list n parse_select_item)"

definition parse_group :: "string option parser" where
  "parse_group =
     pbind (match TOKEN_KW_GROUP) (\<lambda>b.
       if b then pthen (consume TOKEN_KW_BY) (pbind (consume_text TOKEN_IDENTIFIER) (\<lambda>g. ret (Some g))) else ret None)"

definition parse_order_item :: "(string \<times> bool) parser" where
  "parse_order_item =
     pbind (consume_text TOKEN_IDENTIFIER) (\<lambda>col. pbind (match TOKEN_KW_DESC) (\<lambda>desc.
       if desc then ret (col, True) else pthen (match TOKEN_KW_ASC) (ret (col, False))))"

definition parse_order :: "nat \<Rightarrow> (string \<times> bool) list parser" where
  "parse_order n =
     pbind (match TOKEN_KW_ORDER) (\<lambda>b.
       if b then pthen (consume TOKEN_KW_BY) (comma_list n parse_order_item) else ret [])"

definition parse_limit :: "(int \<times> int) parser" where
  "parse_limit =
     pbind (match TOKEN_KW_LIMIT) (\<lambda>b.
       if b
       then pbind (consume_text TOKEN_INT_LITERAL) (\<lambda>lim. pbind (match TOKEN_KW_OFFSET) (\<lambda>b.
              if b then pbind (consume_text TOKEN_INT_LITERAL) (\<lambda>off. ret (atoi_int lim, atoi_int off))
              else ret (atoi_int lim, 0)))
       else ret (-1, 0))"

text \<open>The look at the token after a parenthesis is not checked against the length of the array.\<close>

definition peek_type :: "token_type parser" where
  "peek_type ts i = (if Suc i < length ts then Done (tk_type (ts ! Suc i)) i else Crash)"

fun parse_select :: "nat \<Rightarrow> bool \<Rightarrow> sql_select parser"
  and parse_expression :: "nat \<Rightarrow> sql_expr parser"
  and parse_logical_or :: "nat \<Rightarrow> sql_expr parser"
  and or_loop :: "nat \<Rightarrow> sql_expr \<Rightarrow> sql_expr parser"
  and parse_logical_and :: "nat \<Rightarrow> sql_expr parser"
  and and_loop :: "nat \<Rightarrow> sql_expr \<Rightarrow> sql_expr parser"
  and parse_comparison :: "nat \<Rightarrow> sql_expr parser"
where
  "parse_select 0 is_subquery = fail_with NoFuel"
| "parse_select (Suc n) is_subquery =
     pthen (consume TOKEN_KW_SELECT) (pthen (skip_if TOKEN_KW_KARO)
     (pbind (parse_select_list n) (\<lambda>cols. pthen (consume TOKEN_KW_FROM)
     (pbind (consume_text TOKEN_IDENTIFIER) (\<lambda>tbl.
     pbind (match TOKEN_KW_JAHAN) (\<lambda>b.
     pbind (if b then pbind (parse_expression n) (\<lambda>e. ret (Some e)) else ret None) (\<lambda>where_clause.
     pbind parse_group (\<lambda>group_by.
     pbind (parse_order n) (\<lambda>order_by.
     pbind parse_limit (\<lambda>(lim, off).
     pthen (if is_subquery then ret () else pthen (consume TOKEN_SEMICOLON) (ret ()))
     (ret (Select tbl cols where_clause group_by order_by lim off))))))))))))"
| "parse_expression 0 = fail_with NoFuel"
| "parse_expression (Suc n) = parse_logical_or n"
| "parse_logical_or 0 = fail_with NoFuel"
| "parse_logical_or (Suc n) = pbind (parse_logical_and n) (or_loop n)"
| "or_loop 0 left = fail_with NoFuel"
| "or_loop (Suc n) left =
     branch TOKEN_KW_OR
       (pthen (consume TOKEN_KW_OR) (pbind (parse_logical_and n) (\<lambda>right. or_loop n (EXPR_BINARY left ''OR'' right))))
       (ret left)"
| "parse_logical_and 0 = fail_with NoFuel"
| "parse_logical_and (Suc n) = pbind (parse_comparison n) (and_loop n)"
| "and_loop 0 left = fail_with NoFuel"
| "and_loop (Suc n) left =
     branch TOKEN_KW_AND
       (pthen (consume TOKEN_KW_AND) (pbind (parse_comparison n) (\<lambda>right. and_loop n (EXPR_BINARY left ''AND'' right))))
       (ret left)"
| "parse_comparison 0 = fail_with NoFuel"
| "parse_comparison (Suc n) =
     pbind (match TOKEN_LPAREN) (\<lambda>paren.
       if paren then pbind (parse_expression n) (\<lambda>e. pthen (consume TOKEN_RPAREN) (ret e))
       else
         pbind (consume_text TOKEN_IDENTIFIER) (\<lambda>left.
         pbind (text_of (consume_one_of [TOKEN_EQUALS, TOKEN_GT, TOKEN_LT] Exits)) (\<lambda>op.
         branch TOKEN_LPAREN
           (pbind peek_type (\<lambda>t.
              if t = TOKEN_KW_SELECT
              then pthen (consume TOKEN_LPAREN) (pbind (parse_select n True) (\<lambda>q. pthen (consume TOKEN_RPAREN)
                     (ret (EXPR_BINARY (EXPR_IDENTIFIER left) op (EXPR_SUBQUERY q)))))
              else fail_with Exits))
           (pbind (text_of (consume_one_of [TOKEN_INT_LITERAL, TOKEN_STRING, TOKEN_FLOAT_LITERAL] Exits)) (\<lambda>v.
              ret (EXPR_BINARY (EXPR_IDENTIFIER left) op (EXPR_LITERAL v)))))))"

definition parse_where :: "nat \<Rightarrow> token_type list \<Rightarrow> sql_expr option parser" where
  "parse_where n kws =
     pbind cur (\<lambda>tok. if tk_type tok \<in> set kws
       then pthen advance (pbind (parse_expression n) (\<lambda>e. ret (Some e))) else ret None)"

definition parse_delete :: "nat \<Rightarrow> ast_node parser" where
  "parse_delete n =
     pthen (consume TOKEN_KW_NIKALO) (pthen (match TOKEN_KW_FROM)
     (pbind (consume_text TOKEN_IDENTIFIER) (\<lambda>tbl. pbind (parse_where n [TOKEN_KW_JAHAN]) (\<lambda>w.
     pthen (consume TOKEN_SEMICOLON) (ret (NODE_CMD_DELETE tbl w))))))"

definition parse_assignment :: "(string \<times> string) parser" where
  "parse_assignment =
     pbind (consume_text TOKEN_IDENTIFIER) (\<lambda>col. pthen (consume TOKEN_EQUALS)
     (pbind (text_of (consume_one_of [TOKEN_STRING, TOKEN_INT_LITERAL, TOKEN_FLOAT_LITERAL, TOKEN_IDENTIFIER] ParseError))
       (\<lambda>v. ret (col, v))))"

definition parse_update :: "nat \<Rightarrow> ast_node parser" where
  "parse_update n =
     pthen (consume TOKEN_KW_UPDATE) (pbind (consume_text TOKEN_IDENTIFIER) (\<lambda>tbl.
     pthen (consume TOKEN_KW_SET) (pbind (comma_list n parse_assignment) (\<lambda>sets.
     pbind (parse_where n [TOKEN_KW_JAHAN, TOKEN_KW_WHERE]) (\<lambda>w. pthen (consume TOKEN_SEMICOLON)
     (ret (NODE_CMD_UPDATE tbl sets w)))))))"

definition parse_drop_table :: "ast_node parser" where
  "parse_drop_table =
     pthen (branch TOKEN_KW_TABLE
              (pthen (consume TOKEN_KW_TABLE) (branch TOKEN_KW_GIRAO (skip_if TOKEN_KW_GIRAO) (skip_if TOKEN_KW_DROP)))
              (pthen (branch TOKEN_KW_DROP (consume TOKEN_KW_DROP) (consume TOKEN_KW_GIRAO))
                (pthen (consume TOKEN_KW_TABLE) (ret ()))))
     (pbind (consume_text TOKEN_IDENTIFIER) (\<lambda>name. pthen (consume TOKEN_SEMICOLON) (ret (NODE_CMD_DROP_TABLE name))))"

section \<open>Documents\<close>

text \<open>\<open>strcat\<close> into a buffer of \<open>cap\<close> bytes.\<close>

definition strcat :: "nat \<Rightarrow> string \<Rightarrow> string option \<Rightarrow> string parser" where
  "strcat cap buf v =
     (case v of
        None \<Rightarrow> fail_with Crash
      | Some s \<Rightarrow> if length buf + length s < cap then ret (buf @ s) else fail_with Crash)"

definition append_token :: "nat \<Rightarrow> string \<Rightarrow> string parser" where
  "append_token cap buf =
     pbind cur (\<lambda>tok. pbind (strcat cap buf (tk_value tok)) (\<lambda>buf. strcat cap buf (Some '' '')))"

fun copy_object :: "nat \<Rightarrow> nat \<Rightarrow> string \<Rightarrow> string parser" where
  "copy_object 0 cap buf = fail_with NoFuel"
| "copy_object (Suc n) cap buf =
     branch TOKEN_RBRACE (ret buf) (branch TOKEN_EOF (ret buf)
       (pbind (append_token cap buf) (\<lambda>buf. pthen advance (copy_object n cap buf))))"

definition next_depth :: "token \<Rightarrow> nat \<Rightarrow> nat" where
  "next_depth tok depth =
     (let depth = (if tk_type tok = TOKEN_LBRACE then depth + 1 else depth)
      in if tk_type tok = TOKEN_RBRACE then depth - 1 else depth)"

fun copy_nested :: "nat \<Rightarrow> nat \<Rightarrow> nat \<Rightarrow> string \<Rightarrow> string parser" where
  "copy_nested 0 cap depth buf = fail_with NoFuel"
| "copy_nested (Suc n) cap depth buf =
     (if depth = 0 then ret buf
      else branch TOKEN_EOF (ret buf)
        (pbind cur (\<lambda>tok.
           pbind (if next_depth tok depth > 0 then append_token cap buf else ret buf) (\<lambda>buf.
           pthen advance (copy_nested n cap (next_depth tok depth) buf)))))"

definition parse_object :: "nat \<Rightarrow> nat \<Rightarrow> string parser" where
  "parse_object n cap =
     pthen (consume TOKEN_LBRACE) (pbind (copy_nested n cap 1 [CHR 0x7B]) (\<lambda>buf. strcat cap buf (Some [CHR 0x7D])))"

definition parse_doc_insert :: "nat \<Rightarrow> ast_node parser" where
  "parse_doc_insert n =
     pthen (consume TOKEN_KW_RAKHO) (pbind (consume_text TOKEN_IDENTIFIER) (\<lambda>col.
     pbind (branch TOKEN_LBRACE
       (pthen (consume TOKEN_LBRACE) (pbind (copy_object n 1024 [CHR 0x7B]) (\<lambda>buf.
          pthen (consume TOKEN_RBRACE) (strcat 1024 buf (Some [CHR 0x7D])))))
       (consume_text TOKEN_STRING)) (\<lambda>json.
     pthen (consume TOKEN_SEMICOLON) (ret (NODE_CMD_DOC_INSERT col json)))))"

definition some_text :: "token_type \<Rightarrow> string option parser" where
  "some_text t = pbind (consume_text t) (\<lambda>v. ret (Some v))"

definition parse_id :: "string option parser" where
  "parse_id = branch TOKEN_STRING (some_text TOKEN_STRING) (branch TOKEN_INT_LITERAL (some_text TOKEN_INT_LITERAL) (ret None))"

definition parse_doc_get :: "ast_node parser" where
  "parse_doc_get =
     pthen (consume TOKEN_KW_MANGWAO) (pbind (consume_text TOKEN_IDENTIFIER) (\<lambda>col.
     pbind parse_id (\<lambda>doc_id. pthen (consume TOKEN_SEMICOLON) (ret (NODE_CMD_DOC_GET col doc_id)))))"

definition parse_dhundo :: "ast_node parser" where
  "parse_dhundo =
     pthen (consume TOKEN_KW_DHUNDO) (pbind (consume_text TOKEN_IDENTIFIER) (\<lambda>col.
     pbind (match TOKEN_KW_JAHAN) (\<lambda>filter.
     pbind (if filter
            then pthen (consume TOKEN_IDENTIFIER) (pthen (consume TOKEN_EQUALS)
                   (branch TOKEN_INT_LITERAL (some_text TOKEN_INT_LITERAL)
                     (branch TOKEN_STRING (some_text TOKEN_STRING) (some_text TOKEN_IDENTIFIER))))
            else parse_id) (\<lambda>doc_id.
     pthen (consume TOKEN_SEMICOLON) (ret (NODE_CMD_DOC_GET col doc_id))))))"

definition parse_doc_remove :: "ast_node parser" where
  "parse_doc_remove =
     pthen (consume TOKEN_KW_HATAO) (pbind (consume_text TOKEN_IDENTIFIER) (\<lambda>col.
     pbind (text_of (consume_one_of [TOKEN_STRING, TOKEN_INT_LITERAL] ParseError)) (\<lambda>doc_id.
     pthen (consume TOKEN_SEMICOLON) (ret (NODE_CMD_DOC_REMOVE col doc_id)))))"

definition parse_create_collection :: "ast_node parser" where
  "parse_create_collection =
     pthen (consume TOKEN_KW_COLLECTION) (pbind (consume_text TOKEN_IDENTIFIER) (\<lambda>name.
     pthen (consume TOKEN_SEMICOLON) (ret (NODE_CMD_CREATE_COLLECTION name))))"

definition parse_find :: "nat \<Rightarrow> ast_node parser" where
  "parse_find n =
     pthen (consume TOKEN_KW_FIND) (pbind (consume_text TOKEN_IDENTIFIER) (\<lambda>col.
     pbind (branch TOKEN_LBRACE (pbind (parse_object n 1024) (\<lambda>b. ret (Some b))) (ret None)) (\<lambda>q.
     pthen (consume TOKEN_SEMICOLON) (ret (NODE_CMD_DOC_GET col q)))))"

definition parse_upsert :: "nat \<Rightarrow> ast_node parser" where
  "parse_upsert n =
     pthen (consume TOKEN_KW_UPSERT) (pbind (consume_text TOKEN_IDENTIFIER) (\<lambda>col.
     pbind (branch TOKEN_LBRACE (parse_object n 2048) (consume_text TOKEN_STRING)) (\<lambda>json.
     pthen (consume TOKEN_SEMICOLON) (ret (NODE_CMD_DOC_UPSERT col json)))))"

text \<open>The loop over the stages moves on only past objects and commas.\<close>

fun stage_loop :: "nat \<Rightarrow> string list parser" where
  "stage_loop 0 = fail_with NoFuel"
| "stage_loop (Suc n) =
     branch TOKEN_RBRACKET (ret []) (branch TOKEN_EOF (ret [])
       (pbind (branch TOKEN_LBRACE (pbind (parse_object n 1024) (\<lambda>b. ret [b])) (ret [])) (\<lambda>stage.
        pthen (skip_if TOKEN_COMMA) (pbind (stage_loop n) (\<lambda>stages. ret (stage @ stages))))))"

definition parse_aggregate :: "nat \<Rightarrow> ast_node parser" where
  "parse_aggregate n =
     pthen (consume TOKEN_KW_AGGREGATE) (pbind (consume_text TOKEN_IDENTIFIER) (\<lambda>col.
     pbind (branch TOKEN_LBRACKET
       (pthen (consume TOKEN_LBRACKET) (pbind (stage_loop n) (\<lambda>stages. pthen (consume TOKEN_RBRACKET) (ret stages))))
       (ret [])) (\<lambda>stages.
     pthen (consume TOKEN_SEMICOLON) (ret (NODE_CMD_DOC_AGGREGATE col stages)))))"

section \<open>Transactions\<close>

definition parse_checkpoint :: "ast_node parser" where
  "parse_checkpoint = pthen (consume TOKEN_KW_CHECKPOINT) (pthen (consume TOKEN_SEMICOLON) (ret NODE_CMD_CHECKPOINT))"

definition parse_begin :: "ast_node parser" where
  "parse_begin =
     pthen (branch TOKEN_KW_BEGIN (pthen (consume TOKEN_KW_BEGIN) (ret ()))
              (branch TOKEN_KW_START (pthen (consume TOKEN_KW_START) (pthen (consume TOKEN_KW_TRANSACTION) (ret ()))) (ret ())))
     (pthen (skip_if TOKEN_KW_TRANSACTION) (pthen (skip_if TOKEN_SEMICOLON) (ret NODE_CMD_BEGIN)))"

definition parse_commit :: "ast_node parser" where
  "parse_commit =
     pthen (consume TOKEN_KW_COMMIT) (pthen (skip_if TOKEN_KW_TRANSACTION) (pthen (skip_if TOKEN_SEMICOLON) (ret NODE_CMD_COMMIT)))"

definition parse_rollback :: "ast_node parser" where
  "parse_rollback =
     pthen (consume TOKEN_KW_ROLLBACK)
     (branch TOKEN_KW_TO
        (pthen advance (pthen (skip_if TOKEN_KW_SAVEPOINT) (pbind (consume_text TOKEN_IDENTIFIER) (\<lambda>name.
           pthen (skip_if TOKEN_SEMICOLON) (ret (NODE_CMD_ROLLBACK_TO name))))))
        (pthen (skip_if TOKEN_KW_TRANSACTION) (pthen (skip_if TOKEN_SEMICOLON) (ret NODE_CMD_ROLLBACK))))"

definition parse_savepoint :: "ast_node parser" where
  "parse_savepoint =
     pthen (consume TOKEN_KW_SAVEPOINT) (pbind (consume_text TOKEN_IDENTIFIER) (\<lambda>name.
     pthen (skip_if TOKEN_SEMICOLON) (ret (NODE_CMD_SAVEPOINT name))))"

definition parse_release_savepoint :: "ast_node parser" where
  "parse_release_savepoint =
     pthen (consume TOKEN_KW_RELEASE) (pthen (skip_if TOKEN_KW_SAVEPOINT) (pbind (consume_text TOKEN_IDENTIFIER) (\<lambda>name.
     pthen (skip_if TOKEN_SEMICOLON) (ret (NODE_CMD_RELEASE_SAVEPOINT name)))))"

text \<open>\<open>USE\<close> copies the text before it checks the type.\<close>

definition parse_use_db :: "ast_node parser" where
  "parse_use_db =
     pthen (consume TOKEN_KW_USE) (pthen (skip_if TOKEN_KW_DATABASE) (pbind (text_of cur) (\<lambda>name.
     pthen (consume TOKEN_IDENTIFIER) (pthen (skip_if TOKEN_SEMICOLON) (ret (NODE_CMD_USE_DB name))))))"

section \<open>ALTER TABLE\<close>

fun constraint_loop :: "nat \<Rightarrow> bool \<Rightarrow> bool \<Rightarrow> string option \<Rightarrow> (bool \<times> bool \<times> string option) parser" where
  "constraint_loop 0 nullable uniq default_value = fail_with NoFuel"
| "constraint_loop (Suc n) nullable uniq default_value =
     branch TOKEN_KW_NOT
       (pthen (consume TOKEN_KW_NOT) (pthen (consume TOKEN_KW_NULL) (constraint_loop n False uniq default_value)))
     (branch TOKEN_KW_DEFAULT
       (pthen (consume TOKEN_KW_DEFAULT) (pbind cur (\<lambda>d.
          if tk_type d \<in> {TOKEN_STRING, TOKEN_INT_LITERAL, TOKEN_FLOAT_LITERAL}
          then pbind (strdup (tk_value d)) (\<lambda>v. pthen advance (constraint_loop n nullable uniq (Some v)))
          else constraint_loop n nullable uniq default_value)))
     (branch TOKEN_KW_UNIQUE
       (pthen (consume TOKEN_KW_UNIQUE) (constraint_loop n nullable True default_value))
       (ret (nullable, uniq, default_value))))"

definition fk_action :: "nat \<Rightarrow> nat parser" where
  "fk_action old =
     branch TOKEN_KW_CASCADE (pthen advance (ret 1)) (branch TOKEN_KW_RESTRICT (pthen advance (ret 2)) (ret old))"

fun fk_loop :: "nat \<Rightarrow> nat \<Rightarrow> nat \<Rightarrow> (nat \<times> nat) parser" where
  "fk_loop 0 on_delete on_update = fail_with NoFuel"
| "fk_loop (Suc n) on_delete on_update =
     branch TOKEN_KW_ON
       (pthen advance
         (branch TOKEN_KW_DELETE (pthen advance (pbind (fk_action on_delete) (\<lambda>a. fk_loop n a on_update)))
         (branch TOKEN_KW_UPDATE (pthen advance (pbind (fk_action on_update) (\<lambda>a. fk_loop n on_delete a)))
         (fk_loop n on_delete on_update))))
       (ret (on_delete, on_update))"

definition parse_add_column :: "nat \<Rightarrow> string \<Rightarrow> ast_node parser" where
  "parse_add_column n tbl =
     pthen (skip_if TOKEN_KW_COLUMN) (pbind (consume_text TOKEN_IDENTIFIER) (\<lambda>col.
     pbind (text_of (consume_one_of column_types ParseError)) (\<lambda>ty.
     pbind (constraint_loop n True False None) (\<lambda>(nullable, uniq, default_value).
     pthen (consume TOKEN_SEMICOLON) (ret (NODE_CMD_ADD_COLUMN tbl col ty nullable uniq default_value))))))"

definition parse_add_constraint :: "nat \<Rightarrow> string \<Rightarrow> ast_node parser" where
  "parse_add_constraint n tbl =
     pthen (consume TOKEN_KW_CONSTRAINT) (pbind (consume_text TOKEN_IDENTIFIER) (\<lambda>name.
     pthen (consume TOKEN_KW_FOREIGN) (pthen (consume TOKEN_KW_KEY) (pthen (consume TOKEN_LPAREN)
     (pbind (consume_text TOKEN_IDENTIFIER) (\<lambda>col. pthen (consume TOKEN_RPAREN) (pthen (consume TOKEN_KW_REFERENCES)
     (pbind (consume_text TOKEN_IDENTIFIER) (\<lambda>ref_table. pthen (consume TOKEN_LPAREN)
     (pbind (consume_text TOKEN_IDENTIFIER) (\<lambda>ref_col. pthen (consume TOKEN_RPAREN)
     (pbind (fk_loop n 0 0) (\<lambda>(on_delete, on_update). pthen (consume TOKEN_SEMICOLON)
     (ret (NODE_CMD_ADD_CONSTRAINT tbl name col ref_table ref_col on_delete on_update)))))))))))))))"

text \<open>Where the node stays \<open>NULL\<close> the statement is in error whether or not the semicolon follows.\<close>

definition parse_alter_table :: "nat \<Rightarrow> ast_node parser" where
  "parse_alter_table n =
     pthen (branch TOKEN_KW_ALTER (pthen (consume TOKEN_KW_ALTER) (pthen (consume TOKEN_KW_TABLE) (ret ()))) (ret ()))
     (pbind (consume_text TOKEN_IDENTIFIER) (\<lambda>tbl.
      branch TOKEN_KW_ADD
        (pthen (consume TOKEN_KW_ADD)
          (branch TOKEN_KW_COLUMN (parse_add_column n tbl)
          (branch TOKEN_IDENTIFIER (parse_add_column n tbl)
          (branch TOKEN_KW_CONSTRAINT (parse_add_constraint n tbl) (fail_with ParseError)))))
     (branch TOKEN_KW_DROP
        (pthen (consume TOKEN_KW_DROP)
          (branch TOKEN_KW_COLUMN
             (pthen (consume TOKEN_KW_COLUMN) (pbind (consume_text TOKEN_IDENTIFIER) (\<lambda>col.
                pthen (consume TOKEN_SEMICOLON) (ret (NODE_CMD_DROP_COLUMN tbl col)))))
          (branch TOKEN_KW_CONSTRAINT
             (pthen (consume TOKEN_KW_CONSTRAINT) (pbind (consume_text TOKEN_IDENTIFIER) (\<lambda>name.
                pthen (consume TOKEN_SEMICOLON) (ret (NODE_CMD_DROP_CONSTRAINT tbl name)))))
             (fail_with ParseError))))
     (branch TOKEN_KW_RENAME
        (pthen (consume TOKEN_KW_RENAME) (pthen (consume TOKEN_KW_COLUMN) (pbind (consume_text TOKEN_IDENTIFIER) (\<lambda>old.
           pthen (consume TOKEN_KW_TO) (pbind (consume_text TOKEN_IDENTIFIER) (\<lambda>new.
           pthen (consume TOKEN_SEMICOLON) (ret (NODE_CMD_RENAME_COLUMN tbl old new))))))))
     (branch TOKEN_KW_MODIFY
        (pthen (consume TOKEN_KW_MODIFY) (pthen (skip_if TOKEN_KW_COLUMN) (pbind (consume_text TOKEN_IDENTIFIER) (\<lambda>col.
           pbind (text_of (consume_one_of column_types ParseError)) (\<lambda>ty.
           pthen (consume TOKEN_SEMICOLON) (ret (NODE_CMD_MODIFY_COLUMN tbl col ty)))))))
        (fail_with ParseError))))))"

section \<open>Backup\<close>

definition parse_db_name :: "string option parser" where
  "parse_db_name =
     branch TOKEN_KW_DATABASE (pthen advance (branch TOKEN_IDENTIFIER (some_text TOKEN_IDENTIFIER) (ret None))) (ret None)"

definition parse_backup :: "ast_node parser" where
  "parse_backup =
     pthen (consume TOKEN_KW_BACKUP) (pbind parse_db_name (\<lambda>db. pthen (consume TOKEN_KW_TO)
     (pbind (consume_text TOKEN_STRING) (\<lambda>path.
     pbind (branch TOKEN_KW_FORMAT
       (pthen advance (pbind (consume_text TOKEN_IDENTIFIER) (\<lambda>fmt.
          ret (if strcasecmp_eq fmt ''SQL'' then 1 else if strcasecmp_eq fmt ''JSON'' then 2
               else if strcasecmp_eq fmt ''CSV'' then 3 else 0))))
       (ret 0)) (\<lambda>fmt.
     pthen (consume TOKEN_SEMICOLON) (ret (NODE_CMD_BACKUP path db fmt)))))))"

definition parse_restore :: "ast_node parser" where
  "parse_restore =
     pthen (consume TOKEN_KW_RESTORE) (pbind parse_db_name (\<lambda>db. pthen (consume TOKEN_KW_FROM)
     (pbind (consume_text TOKEN_STRING) (\<lambda>path. pthen (consume TOKEN_SEMICOLON) (ret (NODE_CMD_RESTORE path db))))))"

definition parse_export :: "ast_node parser" where
  "parse_export =
     pthen (consume TOKEN_KW_EXPORT) (pthen (consume TOKEN_KW_TABLE) (pbind (consume_text TOKEN_IDENTIFIER) (\<lambda>tbl.
     pthen (consume TOKEN_KW_TO) (pbind (consume_text TOKEN_STRING) (\<lambda>path.
     pbind (branch TOKEN_KW_FORMAT
       (pthen advance (pbind (consume_text TOKEN_IDENTIFIER) (\<lambda>fmt. ret (if strcasecmp_eq fmt ''JSON'' then 2 else 3))))
       (ret 3)) (\<lambda>fmt.
     pthen (consume TOKEN_SEMICOLON) (ret (NODE_CMD_EXPORT tbl path fmt))))))))"

definition parse_import :: "ast_node parser" where
  "parse_import =
     pthen (consume TOKEN_KW_IMPORT) (pthen (consume TOKEN_KW_TABLE) (pbind (consume_text TOKEN_IDENTIFIER) (\<lambda>tbl.
     pthen (consume TOKEN_KW_FROM) (pbind (consume_text TOKEN_STRING) (\<lambda>path.
     pthen (consume TOKEN_SEMICOLON) (ret (NODE_CMD_IMPORT tbl path)))))))"

section \<open>Statements\<close>

definition next_is :: "token_type \<Rightarrow> 'a parser \<Rightarrow> 'a parser \<Rightarrow> 'a parser" where
  "next_is t p q ts i = (if Suc i < length ts \<and> tk_type (ts ! Suc i) = t then p ts i else q ts i)"

definition parse_create :: "nat \<Rightarrow> ast_node parser" where
  "parse_create n =
     branch TOKEN_KW_INDEX parse_create_index
     (branch TOKEN_KW_USER parse_create_user
     (branch TOKEN_KW_DATABASE parse_create_db
     (branch TOKEN_KW_COLLECTION parse_create_collection
     (branch TOKEN_KW_TABLE (parse_create_table n) (fail_with ParseError)))))"

definition parse_drop :: "ast_node parser" where
  "parse_drop = branch TOKEN_KW_DATABASE parse_drop_db parse_drop_table"

text \<open>The dispatch on the first token, in the order of the code.\<close>

fun dispatch :: "(token_type \<times> 'a parser) list \<Rightarrow> 'a parser \<Rightarrow> 'a parser" where
  "dispatch [] q = q"
| "dispatch ((t, p) # ps) q = branch t p (dispatch ps q)"

definition statement_table :: "nat \<Rightarrow> (token_type \<times> ast_node parser) list" where
  "statement_table n =
     [(TOKEN_KW_USE, parse_use_db),
      (TOKEN_KW_CREATE, pthen (consume TOKEN_KW_CREATE) (parse_create n)),
      (TOKEN_KW_BANAO, pthen (consume TOKEN_KW_BANAO) (parse_create n)),
      (TOKEN_KW_show, next_is TOKEN_KW_DATABASE (pthen (consume TOKEN_KW_show) parse_show_dbs) parse_show_tables),
      (TOKEN_KW_KEY, fail_with ParseError),
      (TOKEN_KW_USER, parse_create_user),
      (TOKEN_KW_DATABASE, next_is TOKEN_KW_HATAO (pthen (consume TOKEN_KW_DATABASE) parse_drop_db)
         (next_is TOKEN_KW_GIRAO (pthen (consume TOKEN_KW_DATABASE) parse_drop_db) parse_create_db)),
      (TOKEN_KW_TABLE, next_is TOKEN_KW_GIRAO parse_drop_table (parse_create_table n)),
      (TOKEN_KW_INSERT, parse_insert n),
      (TOKEN_KW_SELECT, pbind (parse_select n False) (\<lambda>s. ret (NODE_CMD_SELECT s))),
      (TOKEN_KW_DHUNDO, parse_dhundo),
      (TOKEN_KW_RAKHO, parse_doc_insert n),
      (TOKEN_KW_MANGWAO, parse_doc_get),
      (TOKEN_KW_HATAO, parse_doc_remove),
      (TOKEN_KW_NIKALO, parse_delete n),
      (TOKEN_KW_UPDATE, parse_update n),
      (TOKEN_KW_DROP, pthen (consume TOKEN_KW_DROP) parse_drop),
      (TOKEN_KW_GIRAO, pthen (consume TOKEN_KW_GIRAO) parse_drop),
      (TOKEN_KW_DELETE, pthen (consume TOKEN_KW_DELETE) (branch TOKEN_KW_DATABASE parse_drop_db (fail_with ParseError))),
      (TOKEN_KW_CHECKPOINT, parse_checkpoint),
      (TOKEN_KW_INDEX, parse_create_index),
      (TOKEN_KW_BEGIN, parse_begin),
      (TOKEN_KW_START, parse_begin),
      (TOKEN_KW_COMMIT, parse_commit),
      (TOKEN_KW_ROLLBACK, parse_rollback),
      (TOKEN_KW_SAVEPOINT, parse_savepoint),
      (TOKEN_KW_RELEASE, parse_release_savepoint),
      (TOKEN_KW_ALTER, parse_alter_table n),
      (TOKEN_KW_BACKUP, parse_backup),
      (TOKEN_KW_RESTORE, parse_restore),
      (TOKEN_KW_EXPORT, parse_export),
      (TOKEN_KW_IMPORT, parse_import),
      (TOKEN_KW_FIND, parse_find n),
      (TOKEN_KW_UPSERT, parse_upsert n),
      (TOKEN_KW_AGGREGATE, parse_aggregate n),
      (TOKEN_IDENTIFIER, pbind (text_of cur) (\<lambda>v.
         if strcasecmp_eq v ''CREATE''
         then pthen (consume TOKEN_IDENTIFIER) (branch TOKEN_KW_INDEX parse_create_index (fail_with ParseError))
         else fail_with ParseError))]"

definition parse_statement :: "nat \<Rightarrow> ast_node parser" where
  "parse_statement n = dispatch (statement_table n) (fail_with ParseError)"

definition enough_fuel :: "token list \<Rightarrow> nat" where
  "enough_fuel ts = 6 * length ts + 10"

definition parse :: "token list \<Rightarrow> ast_node outcome" where
  "parse ts = parse_statement (enough_fuel ts) ts 0"

end
