(* ===== verification/ParserTotal.thy ===== *)
theory ParserTotal
  imports Parser
begin

text \<open>
  How parsing ends. \<open>pspec c e b k p Q\<close>: started at a position with at most \<open>b\<close> tokens left, \<open>p\<close> has
  fuel enough, stays inside the array, moves on by at least \<open>k\<close> tokens and gives a result with \<open>Q\<close>, or
  reports an error; it calls \<open>exit\<close> only if \<open>e\<close> and crashes only if \<open>c\<close>.
\<close>

section \<open>Rules\<close>

definition token_wf :: "token \<Rightarrow> bool" where
  "token_wf t \<longleftrightarrow> (tk_value t \<noteq> None \<longleftrightarrow> has_text (tk_type t))"

definition pspec :: "bool \<Rightarrow> bool \<Rightarrow> nat \<Rightarrow> nat \<Rightarrow> 'a parser \<Rightarrow> ('a \<Rightarrow> bool) \<Rightarrow> bool" where
  "pspec c e b k p Q \<longleftrightarrow>
     (\<forall>ts i. wf_tokens ts \<longrightarrow> i < length ts \<longrightarrow> length ts - i \<le> b \<longrightarrow>
        (case p ts i of
           Done x j \<Rightarrow> i + k \<le> j \<and> j < length ts \<and> Q x
         | ParseError \<Rightarrow> True
         | Exits \<Rightarrow> e
         | Crash \<Rightarrow> c
         | NoFuel \<Rightarrow> False))"

named_theorems pspec_rules

lemma pspecI:
  "(\<And>ts i. wf_tokens ts \<Longrightarrow> i < length ts \<Longrightarrow> length ts - i \<le> b \<Longrightarrow>
     case p ts i of Done x j \<Rightarrow> i + k \<le> j \<and> j < length ts \<and> Q x | ParseError \<Rightarrow> True | Exits \<Rightarrow> e | Crash \<Rightarrow> c | NoFuel \<Rightarrow> False)
   \<Longrightarrow> pspec c e b k p Q"
  by (simp add: pspec_def)

lemma pspecD:
  "pspec c e b k p Q \<Longrightarrow> wf_tokens ts \<Longrightarrow> i < length ts \<Longrightarrow> length ts - i \<le> b \<Longrightarrow>
     case p ts i of Done x j \<Rightarrow> i + k \<le> j \<and> j < length ts \<and> Q x | ParseError \<Rightarrow> True | Exits \<Rightarrow> e | Crash \<Rightarrow> c | NoFuel \<Rightarrow> False"
  by (simp add: pspec_def)

lemma pspec_0: "pspec c e 0 k p Q"
  by (simp add: pspec_def)

lemma pspec_mono:
  "pspec c e b k p Q \<Longrightarrow> b' \<le> b \<Longrightarrow> k' \<le> k \<Longrightarrow> (\<And>x. Q x \<Longrightarrow> Q' x) \<Longrightarrow> pspec c e b' k' p Q'"
proof (rule pspecI)
  fix ts i assume p: "pspec c e b k p Q" "b' \<le> b" "k' \<le> k" "\<And>x. Q x \<Longrightarrow> Q' x"
    and a: "wf_tokens ts" "i < length ts" "length ts - i \<le> b'"
  from a(3) p(2) have "length ts - i \<le> b" by linarith
  from pspecD [OF p(1) a(1,2) this] p(3,4)
  show "case p ts i of Done x j \<Rightarrow> i + k' \<le> j \<and> j < length ts \<and> Q' x | ParseError \<Rightarrow> True | Exits \<Rightarrow> e | Crash \<Rightarrow> c | NoFuel \<Rightarrow> False"
    by (cases "p ts i") auto
qed

lemma pspec_any: "pspec c e b k p Q \<Longrightarrow> pspec c e b 0 p (\<lambda>_. True)"
  by (rule pspec_mono) auto

lemma pspec_ret [pspec_rules]: "Q x \<Longrightarrow> pspec c e b 0 (ret x) Q"
  by (simp add: pspec_def ret_def)

lemma pspec_ret_any: "pspec c e b 0 (ret x) (\<lambda>_. True)"
  by (rule pspec_ret) simp

lemma pspec_error [pspec_rules]: "pspec c e b k (fail_with ParseError) Q" "pspec c True b k (fail_with Exits) Q"
  "pspec True e b k (fail_with Crash) Q"
  by (simp_all add: pspec_def fail_with_def)

lemma pspec_bind:
  assumes p: "pspec c e b k p P" and f: "\<And>x. P x \<Longrightarrow> pspec c e (b - k) l (f x) Q" and m: "m \<le> k + l"
  shows "pspec c e b m (pbind p f) Q"
proof (rule pspecI)
  fix ts i assume a: "wf_tokens ts" "i < length ts" "length ts - i \<le> b"
  note p' = pspecD [OF p a]
  show "case pbind p f ts i of Done x j \<Rightarrow> i + m \<le> j \<and> j < length ts \<and> Q x | ParseError \<Rightarrow> True | Exits \<Rightarrow> e | Crash \<Rightarrow> c | NoFuel \<Rightarrow> False"
  proof (cases "p ts i")
    case (Done x j)
    then have j: "i + k \<le> j" "j < length ts" "P x" using p' by auto
    then have "length ts - j \<le> b - k" using a by linarith
    from pspecD [OF f [OF j(3)] a(1) j(2) this] show ?thesis using Done j(1) m by (auto simp: pbind_def split: outcome.split)
  qed (use p' in \<open>auto simp: pbind_def\<close>)
qed

lemma wf_current:
  assumes "wf_tokens ts" and "i < length ts"
  shows "token_wf (current_token ts i)" and "tk_type (current_token ts i) \<noteq> TOKEN_EOF \<longleftrightarrow> Suc i < length ts"
proof -
  have "ts ! i \<in> set ts" using assms by simp
  then show "token_wf (current_token ts i)" using assms by (simp add: token_wf_def current_token_def wf_tokens_def)
  show "tk_type (current_token ts i) \<noteq> TOKEN_EOF \<longleftrightarrow> Suc i < length ts"
  proof (cases "Suc i < length ts")
    case True
    then have "ts ! i \<in> set (butlast ts)" by (metis Suc_lessD in_set_conv_nth length_butlast less_diff_conv add.commute nth_butlast plus_1_eq_Suc)
    then show ?thesis using assms True by (simp add: current_token_def wf_tokens_def)
  next
    case False
    then have "ts ! i = last ts" using assms by (metis One_nat_def Suc_lessI diff_Suc_1 last_conv_nth list.size(3) not_less_zero)
    then show ?thesis using assms False by (simp add: current_token_def wf_tokens_def)
  qed
qed

lemma pspec_cur [pspec_rules]: "pspec c e b 0 cur token_wf"
  by (rule pspecI) (simp add: cur_def wf_current)

lemma pspec_branch [pspec_rules]: "pspec c e b k p Q \<Longrightarrow> pspec c e b k q Q \<Longrightarrow> pspec c e b k (branch t p q) Q"
  by (simp add: pspec_def branch_def)

lemma pspec_branch_eof: "pspec c e b k p Q \<Longrightarrow> (\<And>ts i. Suc i < length ts \<Longrightarrow> wf_tokens ts \<Longrightarrow> length ts - i \<le> b \<Longrightarrow>
     case q ts i of Done x j \<Rightarrow> i + k \<le> j \<and> j < length ts \<and> Q x | ParseError \<Rightarrow> True | Exits \<Rightarrow> e | Crash \<Rightarrow> c | NoFuel \<Rightarrow> False)
   \<Longrightarrow> pspec c e b k (branch TOKEN_EOF p q) Q"
  unfolding pspec_def branch_def using wf_current(2) by auto

lemma pspec_branch_advance [pspec_rules]:
  assumes "t \<noteq> TOKEN_EOF" and r: "pspec c e (b - 1) l r Q" and q: "pspec c e b k q Q" and "k \<le> l + 1"
  shows "pspec c e b k (branch t (pthen advance r) q) Q"
proof (rule pspecI)
  fix ts i assume a: "wf_tokens ts" "i < length ts" "length ts - i \<le> b"
  show "case branch t (pthen advance r) q ts i of Done x j \<Rightarrow> i + k \<le> j \<and> j < length ts \<and> Q x | ParseError \<Rightarrow> True | Exits \<Rightarrow> e | Crash \<Rightarrow> c | NoFuel \<Rightarrow> False"
  proof (cases "tk_type (current_token ts i) = t")
    case True
    then have "Suc i < length ts" using wf_current(2) [OF a(1,2)] assms(1) by simp
    moreover have "length ts - Suc i \<le> b - 1" using a(3) by linarith
    ultimately show ?thesis using pspecD [OF r a(1), of "Suc i"] True a assms(4) by (auto simp: branch_def pbind_def advance_def split: outcome.split)
  next
    case False
    then show ?thesis using pspecD [OF q a] by (simp add: branch_def)
  qed
qed

lemma pspec_match [pspec_rules]: "t \<noteq> TOKEN_EOF \<Longrightarrow> pspec c e b 0 (match t) (\<lambda>_. True)"
  unfolding match_def by (rule pspec_branch_advance [where l = 0]) (auto intro: pspec_rules)

lemma pspec_bind_match:
  assumes "t \<noteq> TOKEN_EOF" and "pspec c e (b - 1) l (f True) Q" and "pspec c e b k (f False) Q" and "k \<le> l + 1"
  shows "pspec c e b k (pbind (match t) f) Q"
proof -
  have "pbind (match t) f = branch t (pthen advance (f True)) (f False)"
    by (rule ext, rule ext) (simp add: pbind_def match_def branch_def advance_def ret_def)
  then show ?thesis using pspec_branch_advance assms by metis
qed

lemma pspec_consume [pspec_rules]:
  assumes "t \<noteq> TOKEN_EOF"
  shows "pspec c e b 1 (consume t) (\<lambda>tok. tk_type tok = t \<and> token_wf tok)"
proof (rule pspecI)
  fix ts i assume a: "wf_tokens ts" "i < length ts"
  show "case consume t ts i of Done x j \<Rightarrow> i + 1 \<le> j \<and> j < length ts \<and> tk_type x = t \<and> token_wf x | ParseError \<Rightarrow> True | Exits \<Rightarrow> e | Crash \<Rightarrow> c | NoFuel \<Rightarrow> False"
    using wf_current [OF a] assms a
    by (auto simp: consume_def branch_def pbind_def cur_def advance_def ret_def fail_with_def)
qed

lemma pspec_strdup: "token_wf tok \<Longrightarrow> has_text (tk_type tok) \<Longrightarrow> pspec c e b 0 (strdup (tk_value tok)) (\<lambda>_. True)"
  by (cases "tk_value tok") (auto simp: strdup_def token_wf_def intro: pspec_rules)

lemma pspec_strdup_crash [pspec_rules]: "pspec True e b 0 (strdup v) (\<lambda>_. True)"
  by (simp add: strdup_def pspec_def fail_with_def ret_def split: option.split)

lemma pspec_consume_text [pspec_rules]:
  "t \<noteq> TOKEN_EOF \<Longrightarrow> has_text t \<Longrightarrow> pspec c e b 1 (consume_text t) (\<lambda>_. True)"
  unfolding text_of_def by (rule pspec_bind [OF pspec_consume]) (auto intro: pspec_strdup)

lemma pspec_one_of:
  assumes "TOKEN_EOF \<notin> set l" and "r = ParseError \<or> r = Exits \<and> e"
  shows "pspec c e b 1 (consume_one_of l r) (\<lambda>tok. tk_type tok \<in> set l \<and> token_wf tok)"
  using assms(1)
proof (induction l)
  case Nil
  then show ?case using assms(2) by (auto intro: pspec_rules)
next
  case (Cons t l)
  have "pspec c e b 1 (consume t) (\<lambda>tok. tk_type tok \<in> set (t # l) \<and> token_wf tok)"
    by (rule pspec_mono [OF pspec_consume]) (use Cons in auto)
  moreover have "pspec c e b 1 (consume_one_of l r) (\<lambda>tok. tk_type tok \<in> set (t # l) \<and> token_wf tok)"
    by (rule pspec_mono [OF Cons.IH]) (use Cons in auto)
  ultimately show ?case unfolding consume_one_of.simps by (rule pspec_branch)
qed

lemma pspec_text_one_of [pspec_rules]:
  "TOKEN_EOF \<notin> set l \<Longrightarrow> list_all has_text l \<Longrightarrow> r = ParseError \<or> r = Exits \<and> e \<Longrightarrow>
   pspec c e b 1 (text_of (consume_one_of l r)) (\<lambda>_. True)"
  unfolding text_of_def by (rule pspec_bind [OF pspec_one_of]) (auto intro: pspec_strdup simp: list_all_iff)

lemma pspec_comma_list [pspec_rules]:
  "pspec c e b 1 p Q \<Longrightarrow> b \<le> n \<Longrightarrow> pspec c e b 1 (comma_list n p) (\<lambda>_. True)"
proof (induction n arbitrary: b)
  case 0
  then show ?case by (simp add: pspec_0)
next
  case (Suc n)
  have "pspec c e (b - 1 - 1) 1 p Q" by (rule pspec_mono [OF Suc.prems(1)]) simp_all
  then have "pspec c e (b - 1 - 1) 1 (comma_list n p) (\<lambda>_. True)" by (rule Suc.IH) (use Suc.prems(2) in linarith)
  then have *: "pspec c e (b - 1 - 1) 0 (pbind (comma_list n p) (\<lambda>xs. ret (x # xs))) (\<lambda>_. True)" for x
    by (rule pspec_bind [OF _ pspec_ret]) simp_all
  have "pspec c e (b - 1) 0 (pbind (match TOKEN_COMMA) (\<lambda>more. if more then pbind (comma_list n p) (\<lambda>xs. ret (x # xs)) else ret [x])) (\<lambda>_. True)" for x
    by (rule pspec_bind_match [where l = 0]) (use * in \<open>simp_all add: pspec_ret\<close>)
  then show ?case unfolding comma_list.simps by (rule pspec_bind [OF Suc.prems(1)]) simp
qed

lemma has_text_simps [simp]:
  "has_text TOKEN_IDENTIFIER" "has_text TOKEN_STRING" "has_text TOKEN_INT_LITERAL" "has_text TOKEN_FLOAT_LITERAL"
  "has_text TOKEN_EQUALS" "has_text TOKEN_GT" "has_text TOKEN_LT"
  by (simp_all add: has_text_def)


section \<open>Statements without conditions\<close>

text \<open>Stepping through a statement: \<open>psteps\<close> has the parts, \<open>pspec_bind0\<close> puts them in sequence.\<close>

lemma pspec_bind0:
  "pspec c e b k p P \<Longrightarrow> (\<And>x. P x \<Longrightarrow> pspec c e (b - k) 0 (f x) (\<lambda>_. True)) \<Longrightarrow> pspec c e b 0 (pbind p f) (\<lambda>_. True)"
  by (erule pspec_bind [where l = 0]) auto

lemma pspec_skip_if: "t \<noteq> TOKEN_EOF \<Longrightarrow> pspec c e b 0 (skip_if t) (\<lambda>_. True)"
  by (rule pspec_bind0 [OF pspec_match]) (auto intro: pspec_ret)

lemma pspec_some_text: "t \<noteq> TOKEN_EOF \<Longrightarrow> has_text t \<Longrightarrow> pspec c e b 1 (some_text t) (\<lambda>_. True)"
  unfolding some_text_def by (rule pspec_bind [where k = 1 and l = 0, OF pspec_consume_text]) (auto intro: pspec_ret)

lemmas psteps = pspec_skip_if pspec_match pspec_consume pspec_consume_text pspec_text_one_of pspec_some_text
  pspec_comma_list pspec_error pspec_ret pspec_cur

lemma if_ok:
  "(P \<Longrightarrow> pspec c e b k p (\<lambda>_. True)) \<Longrightarrow> (\<not> P \<Longrightarrow> pspec c e b k q (\<lambda>_. True)) \<Longrightarrow> pspec c e b k (if P then p else q) (\<lambda>_. True)"
  by simp

lemma create_user_ok: "pspec c e b 0 parse_create_user (\<lambda>_. True)"
  unfolding parse_create_user_def by (rule psteps pspec_bind0 | (simp add: has_text_def; fail))+

lemma create_db_ok: "pspec c e b 0 parse_create_db (\<lambda>_. True)"
  unfolding parse_create_db_def by (rule psteps pspec_bind0 | (simp add: has_text_def; fail))+

lemma drop_db_ok: "pspec c e b 0 parse_drop_db (\<lambda>_. True)"
  unfolding parse_drop_db_def by (rule psteps pspec_bind0 | (simp add: has_text_def; fail))+

lemma show_ok: "pspec c e b 0 parse_show_dbs (\<lambda>_. True)" "pspec c e b 0 parse_show_tables (\<lambda>_. True)"
  unfolding parse_show_dbs_def parse_show_tables_def by (rule psteps pspec_bind0 | (simp add: has_text_def; fail))+

lemma create_index_ok: "pspec c e b 0 parse_create_index (\<lambda>_. True)"
  unfolding parse_create_index_def by (rule psteps pspec_bind0 | (simp add: has_text_def; fail))+

lemma column_ok: "pspec c e b 1 parse_column (\<lambda>_. True)"
  unfolding parse_column_def
  by (rule pspec_bind [where l = 0, OF pspec_consume_text] | rule pspec_one_of pspec_skip_if pspec_match pspec_ret pspec_bind0 if_ok | (simp add: has_text_def; fail))+

lemma create_table_ok: "b \<le> n \<Longrightarrow> pspec c e b 0 (parse_create_table n) (\<lambda>_. True)"
  unfolding parse_create_table_def by (rule psteps column_ok pspec_bind0 | (simp add: has_text_def; fail))+

lemma pspec_bind1:
  "pspec c e b 1 p P \<Longrightarrow> (\<And>x. P x \<Longrightarrow> pspec c e (b - 1) 0 (f x) (\<lambda>_. True)) \<Longrightarrow> pspec c e b 1 (pbind p f) (\<lambda>_. True)"
  by (erule pspec_bind [where l = 0]) auto

lemma value_ok: "pspec c e b 1 parse_value (\<lambda>_. True)"
  unfolding parse_value_def
  by (rule pspec_bind1 [OF pspec_one_of]) (auto intro!: pspec_ret pspec_strdup if_ok simp: has_text_def)

lemma row_ok: "b \<le> n \<Longrightarrow> pspec c e b 1 (parse_row n) (\<lambda>_. True)"
  unfolding parse_row_def
  by (rule pspec_bind1 [OF pspec_consume]) (rule psteps value_ok pspec_bind0 | (simp; fail))+

lemma insert_statement_ok: "b \<le> n \<Longrightarrow> pspec c e b 0 (parse_insert n) (\<lambda>_. True)"
  unfolding parse_insert_def by (rule psteps row_ok pspec_branch pspec_bind0 | (simp add: has_text_def; fail))+

section \<open>SELECT and conditions\<close>

lemma func_ok: "pspec c e b 0 parse_func (\<lambda>_. True)"
  unfolding parse_func_def Let_def by (rule psteps pspec_branch pspec_bind0 | (simp; fail))+

lemma select_item_ok: "pspec c e b 1 parse_select_item (\<lambda>_. True)"
proof -
  let ?col = "\<lambda>func. if func = 1 then branch TOKEN_STAR (pthen (consume TOKEN_STAR) (ret ''*'')) (consume_text TOKEN_IDENTIFIER)
            else consume_text TOKEN_IDENTIFIER"
  have "pspec c e b 1 (?col func) (\<lambda>_. True)" for func b
    by (rule if_ok pspec_branch psteps pspec_bind1 | (simp add: has_text_def; fail))+
  then have "pspec c e (b - 0) 1 (pbind (?col func) (\<lambda>col.
      pthen (if func > 0 then pthen (consume TOKEN_RPAREN) (ret ()) else ret ()) (ret (func, col)))) (\<lambda>_. True)" for func :: nat
    by (rule pspec_bind1) (rule if_ok psteps pspec_bind0 | (simp; fail))+
  then show ?thesis unfolding parse_select_item_def by (rule pspec_bind [OF func_ok]) simp
qed

lemma select_list_ok: "b \<le> n \<Longrightarrow> pspec c e b 1 (parse_select_list n) (\<lambda>_. True)"
  unfolding parse_select_list_def by (rule pspec_branch psteps select_item_ok pspec_bind1 | (simp; fail))+

lemma group_ok: "pspec c e b 0 parse_group (\<lambda>_. True)"
  unfolding parse_group_def by (rule if_ok psteps pspec_bind0 | (simp add: has_text_def; fail))+

lemma order_item_ok: "pspec c e b 1 parse_order_item (\<lambda>_. True)"
  unfolding parse_order_item_def
  by (rule pspec_bind1 [OF pspec_consume_text]) (rule if_ok psteps pspec_bind0 | (simp add: has_text_def; fail))+

lemma order_ok: "b \<le> n \<Longrightarrow> pspec c e b 0 (parse_order n) (\<lambda>_. True)"
  unfolding parse_order_def
  by (rule pspec_bind0 [OF pspec_match], simp, rule if_ok, rule pspec_bind0 [OF pspec_consume], simp,
      rule pspec_any [OF pspec_comma_list [OF order_item_ok]], simp, rule pspec_ret, simp)

lemma limit_ok: "pspec c e b 0 parse_limit (\<lambda>_. True)"
  unfolding parse_limit_def by (rule if_ok psteps pspec_bind0 | (simp add: has_text_def; fail))+

definition grammar_ok :: "bool \<Rightarrow> nat \<Rightarrow> nat \<Rightarrow> bool" where
  "grammar_ok c n b \<longleftrightarrow>
     (4 * b + 1 \<le> n \<longrightarrow> (\<forall>sub. pspec c True b 1 (parse_select n sub) (\<lambda>_. True))) \<and>
     (4 * b + 4 \<le> n \<longrightarrow> pspec c True b 1 (parse_expression n) (\<lambda>_. True)) \<and>
     (4 * b + 3 \<le> n \<longrightarrow> pspec c True b 1 (parse_logical_or n) (\<lambda>_. True)) \<and>
     (4 * b + 1 \<le> n \<longrightarrow> (\<forall>left. pspec c True b 0 (or_loop n left) (\<lambda>_. True))) \<and>
     (4 * b + 2 \<le> n \<longrightarrow> pspec c True b 1 (parse_logical_and n) (\<lambda>_. True)) \<and>
     (4 * b + 1 \<le> n \<longrightarrow> (\<forall>left. pspec c True b 0 (and_loop n left) (\<lambda>_. True))) \<and>
     (4 * b + 1 \<le> n \<longrightarrow> pspec c True b 1 (parse_comparison n) (\<lambda>_. True))"

lemma grammar_okD:
  assumes "grammar_ok c n b"
  shows "4 * b + 1 \<le> n \<Longrightarrow> pspec c True b 1 (parse_select n sub) (\<lambda>_. True)"
    "4 * b + 4 \<le> n \<Longrightarrow> pspec c True b 1 (parse_expression n) (\<lambda>_. True)"
    "4 * b + 3 \<le> n \<Longrightarrow> pspec c True b 1 (parse_logical_or n) (\<lambda>_. True)"
    "4 * b + 1 \<le> n \<Longrightarrow> pspec c True b 0 (or_loop n left) (\<lambda>_. True)"
    "4 * b + 2 \<le> n \<Longrightarrow> pspec c True b 1 (parse_logical_and n) (\<lambda>_. True)"
    "4 * b + 1 \<le> n \<Longrightarrow> pspec c True b 0 (and_loop n left) (\<lambda>_. True)"
    "4 * b + 1 \<le> n \<Longrightarrow> pspec c True b 1 (parse_comparison n) (\<lambda>_. True)"
  using assms unfolding grammar_ok_def by blast+

lemma pspec_branch_peek:
  assumes "t \<noteq> TOKEN_EOF" and f: "\<And>u. pspec c e b k (f u) Q" and q: "pspec c e b k q Q"
  shows "pspec c e b k (branch t (pbind peek_type f) q) Q"
proof (rule pspecI)
  fix ts i assume a: "wf_tokens ts" "i < length ts" "length ts - i \<le> b"
  show "case branch t (pbind peek_type f) q ts i of Done x j \<Rightarrow> i + k \<le> j \<and> j < length ts \<and> Q x | ParseError \<Rightarrow> True | Exits \<Rightarrow> e | Crash \<Rightarrow> c | NoFuel \<Rightarrow> False"
    using wf_current(2) [OF a(1,2)] assms(1) pspecD [OF f a] pspecD [OF q a]
    by (auto simp: branch_def pbind_def peek_type_def)
qed

lemma case_prod_ok: "(\<And>u v. pspec c e b k (f u v) Q) \<Longrightarrow> pspec c e b k (case x of (u, v) \<Rightarrow> f u v) Q"
  by (cases x) simp

lemma comparison_step:
  assumes IH: "\<And>b. grammar_ok c n b" and n: "4 * b \<le> n"
  shows "pspec c True b 1 (parse_comparison (Suc n)) (\<lambda>_. True)"
proof (cases b)
  case (Suc b')
  have E: "pspec c True (b - 1) 1 (parse_expression n) (\<lambda>_. True)"
    by (rule grammar_okD(2) [OF IH]) (use n Suc in linarith)
  have S: "pspec c True m 1 (parse_select n True) (\<lambda>_. True)" if "m \<le> b - 1" for m
    by (rule grammar_okD(1) [OF IH]) (use n Suc that in linarith)
  show ?thesis
    unfolding parse_comparison.simps
    by (rule pspec_bind_match [where l = 1], simp, rule if_ok, rule pspec_bind1 [OF E])
      (rule if_ok pspec_bind1 [OF pspec_consume_text] pspec_branch_peek S psteps pspec_bind0 | (simp add: has_text_def; fail))+
qed (simp add: pspec_0)

lemma select_step:
  assumes IH: "\<And>b. grammar_ok c n b" and n: "4 * b \<le> n"
  shows "pspec c True b 1 (parse_select (Suc n) sub) (\<lambda>_. True)"
proof (cases b)
  case (Suc b')
  have E: "pspec c True m 1 (parse_expression n) (\<lambda>_. True)" if "m \<le> b - 1" for m
    by (rule grammar_okD(2) [OF IH]) (use n Suc that in linarith)
  have L: "pspec c True m 1 (parse_select_list n) (\<lambda>_. True)" "pspec c True m 0 (parse_order n) (\<lambda>_. True)" if "m \<le> b - 1" for m
    by (intro select_list_ok order_ok; use n that in linarith)+
  show ?thesis
    unfolding parse_select.simps
    by (rule pspec_bind1 [OF pspec_consume], simp)
      (rule case_prod_ok if_ok psteps pspec_any [OF E] pspec_any [OF L(1)] L(2) group_ok limit_ok | rule pspec_bind0 | (simp add: has_text_def; fail))+
qed (simp add: pspec_0)

lemma grammar_step:
  assumes IH: "\<And>b. grammar_ok c n b"
  shows "grammar_ok c (Suc n) b"
proof (cases b)
  case (Suc b')
  note G = grammar_okD [OF IH]
  have "pspec c True b 1 (parse_expression (Suc n)) (\<lambda>_. True)" if "4 * b + 4 \<le> Suc n"
    unfolding parse_expression.simps by (rule G(3)) (use that in linarith)
  moreover have "pspec c True b 1 (parse_logical_or (Suc n)) (\<lambda>_. True)" if "4 * b + 3 \<le> Suc n"
    unfolding parse_logical_or.simps by (rule pspec_bind1, rule G(5)) (use that Suc G(4) in auto)
  moreover have "pspec c True b 1 (parse_logical_and (Suc n)) (\<lambda>_. True)" if "4 * b + 2 \<le> Suc n"
    unfolding parse_logical_and.simps by (rule pspec_bind1, rule G(7)) (use that Suc G(6) in auto)
  moreover have "pspec c True b 0 (or_loop (Suc n) left) (\<lambda>_. True)" if "4 * b + 1 \<le> Suc n" for left
    unfolding or_loop.simps
    by (rule pspec_branch, rule pspec_bind0 [OF pspec_consume], simp, rule pspec_bind0, rule G(5))
      (use that Suc G(4) in \<open>auto intro: pspec_ret\<close>)
  moreover have "pspec c True b 0 (and_loop (Suc n) left) (\<lambda>_. True)" if "4 * b + 1 \<le> Suc n" for left
    unfolding and_loop.simps
    by (rule pspec_branch, rule pspec_bind0 [OF pspec_consume], simp, rule pspec_bind0, rule G(7))
      (use that Suc G(6) in \<open>auto intro: pspec_ret\<close>)
  ultimately show ?thesis
    unfolding grammar_ok_def using comparison_step [OF IH, of b] select_step [OF IH, of b] by simp
qed (simp add: grammar_ok_def pspec_0)

lemma grammar: "grammar_ok c n b"
proof (induction n arbitrary: b)
  case 0
  then show ?case by (simp add: grammar_ok_def)
qed (rule grammar_step)

lemma select_ok: "4 * b + 1 \<le> n \<Longrightarrow> pspec c True b 1 (parse_select n sub) (\<lambda>_. True)"
  by (rule grammar_okD(1) [OF grammar])

lemma where_ok:
  assumes "TOKEN_EOF \<notin> set kws" and "4 * b \<le> n"
  shows "pspec c True b 0 (parse_where n kws) (\<lambda>_. True)"
proof (rule pspecI)
  fix ts i assume a: "wf_tokens ts" "i < length ts" "length ts - i \<le> b"
  let ?t = "tk_type (current_token ts i)"
  have "pspec c True (b - 1) 1 (parse_expression n) (\<lambda>_. True)"
    by (rule grammar_okD(2) [OF grammar]) (use a assms(2) in linarith)
  then have e: "pspec c True (b - 1) 1 (pbind (parse_expression n) (\<lambda>e. ret (Some e))) (\<lambda>_. True)"
    by (rule pspec_bind1) (rule pspec_ret, simp)
  have nz: "?t \<noteq> TOKEN_EOF" if "?t \<in> set kws" using that assms(1) by metis
  have "pspec c True b 0 (if ?t \<in> set kws then branch ?t (pthen advance (pbind (parse_expression n) (\<lambda>e. ret (Some e)))) (ret None)
      else ret None) (\<lambda>_. True)"
    by (intro if_ok pspec_branch_advance [OF nz e] pspec_ret) simp_all
  from pspecD [OF this a]
  show "case parse_where n kws ts i of Done x j \<Rightarrow> i + 0 \<le> j \<and> j < length ts \<and> True | ParseError \<Rightarrow> True | Exits \<Rightarrow> True | Crash \<Rightarrow> c | NoFuel \<Rightarrow> False"
    by (cases "?t \<in> set kws") (simp_all add: parse_where_def pbind_def [of cur] cur_def branch_def)
qed

lemma delete_ok: "4 * b \<le> n \<Longrightarrow> pspec c True b 0 (parse_delete n) (\<lambda>_. True)"
  unfolding parse_delete_def by (rule psteps where_ok pspec_bind0 | (simp add: has_text_def; fail))+

lemma assignment_ok: "pspec c e b 1 parse_assignment (\<lambda>_. True)"
  unfolding parse_assignment_def
  by (rule pspec_bind1 [OF pspec_consume_text]) (rule psteps pspec_bind0 | (simp add: has_text_def; fail))+

lemma update_ok: "4 * b \<le> n \<Longrightarrow> pspec c True b 0 (parse_update n) (\<lambda>_. True)"
  unfolding parse_update_def by (rule psteps where_ok assignment_ok pspec_bind0 | (simp add: has_text_def; fail))+

lemma consume_either:
  assumes "t \<noteq> TOKEN_EOF" and "u \<noteq> TOKEN_EOF"
  shows "pspec c e b 1 (branch t (consume t) (consume u)) (\<lambda>_. True)"
  by (rule pspec_branch; rule pspec_mono [OF pspec_consume le_refl le_refl]) (use assms in auto)

lemma drop_table_ok: "pspec c e b 0 parse_drop_table (\<lambda>_. True)"
  unfolding parse_drop_table_def by (rule consume_either psteps pspec_branch pspec_bind0 | (simp add: has_text_def; fail))+

section \<open>The other statements\<close>

lemma id_ok: "pspec c e b 0 parse_id (\<lambda>_. True)"
  unfolding parse_id_def by (rule pspec_branch pspec_any [OF pspec_some_text] pspec_ret | (simp add: has_text_def; fail))+

lemma doc_get_ok: "pspec c e b 0 parse_doc_get (\<lambda>_. True)"
  unfolding parse_doc_get_def by (rule psteps id_ok pspec_bind0 | (simp add: has_text_def; fail))+

lemma dhundo_ok: "pspec c e b 0 parse_dhundo (\<lambda>_. True)"
  unfolding parse_dhundo_def
  by (rule if_ok pspec_any [OF pspec_some_text] psteps id_ok pspec_branch pspec_bind0 | (simp add: has_text_def; fail))+

lemma doc_remove_ok: "pspec c e b 0 parse_doc_remove (\<lambda>_. True)"
  unfolding parse_doc_remove_def by (rule psteps pspec_bind0 | (simp add: has_text_def; fail))+

lemma create_collection_ok: "pspec c e b 0 parse_create_collection (\<lambda>_. True)"
  unfolding parse_create_collection_def by (rule psteps pspec_bind0 | (simp add: has_text_def; fail))+

lemma transaction_ok:
  "pspec c e b 0 parse_checkpoint (\<lambda>_. True)" "pspec c e b 0 parse_begin (\<lambda>_. True)" "pspec c e b 0 parse_commit (\<lambda>_. True)"
  "pspec c e b 0 parse_savepoint (\<lambda>_. True)" "pspec c e b 0 parse_release_savepoint (\<lambda>_. True)"
  unfolding parse_checkpoint_def parse_begin_def parse_commit_def parse_savepoint_def parse_release_savepoint_def
  by (rule psteps pspec_branch pspec_bind0 | (simp add: has_text_def; fail))+

lemma rollback_ok: "pspec c e b 0 parse_rollback (\<lambda>_. True)"
  unfolding parse_rollback_def
  by (rule psteps pspec_branch_advance [where l = 0] pspec_bind0 | (simp add: has_text_def; fail))+

lemma db_name_ok: "pspec c e b 0 parse_db_name (\<lambda>_. True)"
  unfolding parse_db_name_def
  by (rule pspec_branch_advance [where l = 0] pspec_branch pspec_any [OF pspec_some_text] pspec_ret | (simp add: has_text_def; fail))+

lemma backup_ok:
  "pspec c e b 0 parse_backup (\<lambda>_. True)" "pspec c e b 0 parse_restore (\<lambda>_. True)"
  "pspec c e b 0 parse_export (\<lambda>_. True)" "pspec c e b 0 parse_import (\<lambda>_. True)"
  unfolding parse_backup_def parse_restore_def parse_export_def parse_import_def
  by (rule psteps db_name_ok pspec_branch_advance [where l = 0 and Q = "\<lambda>_. True"] pspec_bind0 | (simp add: has_text_def; fail))+

section \<open>Statements that can crash\<close>

lemma pspec_branch_step:
  assumes r: "pspec True e b 0 r Q" and f: "\<And>x. pspec True e (b - 1) 0 (f x) Q"
    and q: "\<And>ts i. q ts i = Crash \<or> (\<exists>x. q ts i = pthen advance (f x) ts i)"
  shows "pspec True e b 0 (branch TOKEN_EOF r q) Q"
proof (rule pspecI)
  fix ts i assume a: "wf_tokens ts" "i < length ts" "length ts - i \<le> b"
  show "case branch TOKEN_EOF r q ts i of Done x j \<Rightarrow> i + 0 \<le> j \<and> j < length ts \<and> Q x | ParseError \<Rightarrow> True | Exits \<Rightarrow> e | Crash \<Rightarrow> True | NoFuel \<Rightarrow> False"
  proof (cases "Suc i < length ts")
    case True
    then have n: "tk_type (current_token ts i) \<noteq> TOKEN_EOF" using wf_current(2) [OF a(1,2)] by simp
    show ?thesis
    proof (cases "q ts i = Crash")
      case False
      then obtain x where "q ts i = f x ts (Suc i)" using q [of ts i] a(2) by (auto simp: pbind_def advance_def)
      moreover have "length ts - Suc i \<le> b - 1" using a(3) by linarith
      ultimately show ?thesis using pspecD [OF f a(1) True, of x] n by (auto simp: branch_def split: outcome.split)
    qed (use n in \<open>simp add: branch_def\<close>)
  next
    case False
    then have "tk_type (current_token ts i) = TOKEN_EOF" using wf_current(2) [OF a(1,2)] by metis
    then show ?thesis using pspecD [OF r a] by (simp add: branch_def)
  qed
qed

lemma append_token_cases:
  "append_token cap buf ts i = Crash \<or> (\<exists>buf'. append_token cap buf ts i = Done buf' i)"
  by (auto simp: append_token_def pbind_def cur_def strcat_def ret_def fail_with_def split: option.split)

lemma copy_object_ok: "b \<le> n \<Longrightarrow> pspec True e b 0 (copy_object n cap buf) (\<lambda>_. True)"
proof (induction n arbitrary: b buf)
  case (Suc n)
  have IH: "pspec True e (b - 1) 0 (copy_object n cap buf') (\<lambda>_. True)" for buf' by (rule Suc.IH) (use Suc.prems in linarith)
  show ?case
    unfolding copy_object.simps
  proof (rule pspec_branch [OF pspec_ret_any], rule pspec_branch_step [OF pspec_ret_any IH])
    fix ts i
    show "pbind (append_token cap buf) (\<lambda>buf. pthen advance (copy_object n cap buf)) ts i = Crash \<or>
      (\<exists>x. pbind (append_token cap buf) (\<lambda>buf. pthen advance (copy_object n cap buf)) ts i = pthen advance (copy_object n cap x) ts i)"
      using append_token_cases [of cap buf ts i] by (auto simp: pbind_def [of "append_token cap buf"])
  qed
qed (simp add: pspec_0)

lemma copy_nested_ok: "b \<le> n \<Longrightarrow> pspec True e b 0 (copy_nested n cap depth buf) (\<lambda>_. True)"
proof (induction n arbitrary: b depth buf)
  case (Suc n)
  have IH: "pspec True e (b - 1) 0 (copy_nested n cap (fst x) (snd x)) (\<lambda>_. True)" for x
    by (rule Suc.IH) (use Suc.prems in linarith)
  show ?case
    unfolding copy_nested.simps
  proof (rule if_ok, rule pspec_ret_any, rule pspec_branch_step [OF pspec_ret_any IH])
    fix ts i
    let ?d = "next_depth (current_token ts i) depth"
    let ?q = "\<lambda>tok. pbind (if next_depth tok depth > 0 then append_token cap buf else ret buf) (\<lambda>buf.
       pthen advance (copy_nested n cap (next_depth tok depth) buf))"
    have "pbind cur ?q ts i = ?q (current_token ts i) ts i" by (simp only: pbind_def [of cur] cur_def outcome.case)
    moreover have "?q (current_token ts i) ts i = Crash \<or>
        (\<exists>buf'. ?q (current_token ts i) ts i = pthen advance (copy_nested n cap ?d buf') ts i)"
    proof (cases "?d > 0")
      case True
      then show ?thesis using append_token_cases [of cap buf ts i]
        by (elim disjE exE) (simp_all only: pbind_def [of "append_token cap buf"] if_True outcome.case, blast+)
    next
      case False
      then show ?thesis by (simp only: pbind_def [of "ret buf"] ret_def if_False outcome.case) blast
    qed
    ultimately have "pbind cur ?q ts i = Crash \<or> (\<exists>buf'. pbind cur ?q ts i = pthen advance (copy_nested n cap ?d buf') ts i)"
      by (simp only:)
    then show "pbind cur ?q ts i = Crash \<or>
        (\<exists>x. pbind cur ?q ts i = pthen advance (copy_nested n cap (fst x) (snd x)) ts i)"
    proof (elim disjE exE)
      fix buf' assume q: "pbind cur ?q ts i = pthen advance (copy_nested n cap ?d buf') ts i"
      show ?thesis by (rule disjI2, rule exI [of _ "(?d, buf')"]) (simp only: q fst_conv snd_conv)
    qed (rule disjI1)
  qed
qed (simp add: pspec_0)

lemma strcat_ok: "pspec True e b 0 (strcat cap buf v) (\<lambda>_. True)"
  by (auto simp: strcat_def pspec_def ret_def fail_with_def split: option.split)

lemma object_ok: "b \<le> n \<Longrightarrow> pspec True e b 1 (parse_object n cap) (\<lambda>_. True)"
  unfolding parse_object_def
  by (rule pspec_bind1 [OF pspec_consume]) (rule copy_nested_ok strcat_ok pspec_bind0 | (simp; fail))+

lemma doc_insert_ok: "b \<le> n \<Longrightarrow> pspec True e b 0 (parse_doc_insert n) (\<lambda>_. True)"
  unfolding parse_doc_insert_def
  by (rule psteps pspec_any [OF pspec_consume_text] copy_object_ok strcat_ok pspec_branch pspec_bind0 | (simp add: has_text_def; fail))+

lemma find_ok: "b \<le> n \<Longrightarrow> pspec True e b 0 (parse_find n) (\<lambda>_. True)"
  unfolding parse_find_def by (rule psteps pspec_any [OF object_ok] pspec_branch pspec_bind0 | (simp add: has_text_def; fail))+

lemma upsert_ok: "b \<le> n \<Longrightarrow> pspec True e b 0 (parse_upsert n) (\<lambda>_. True)"
  unfolding parse_upsert_def
  by (rule psteps pspec_any [OF object_ok] pspec_any [OF pspec_consume_text] pspec_branch pspec_bind0 | (simp add: has_text_def; fail))+

lemma use_db_ok: "pspec True e b 0 parse_use_db (\<lambda>_. True)"
  unfolding parse_use_db_def text_of_def by (rule psteps pspec_strdup_crash pspec_bind0 | (simp; fail))+

lemma constraint_loop_ok: "b \<le> n \<Longrightarrow> pspec True e b 0 (constraint_loop n nullable uniq default_value) (\<lambda>_. True)"
proof (induction n arbitrary: b nullable uniq default_value)
  case (Suc n)
  have IH: "pspec True e m 0 (constraint_loop n nullable uniq default_value) (\<lambda>_. True)" if "m \<le> b - 1" for m nullable uniq default_value
    by (rule Suc.IH) (use Suc.prems that in linarith)
  have D: "pspec True e (b - 1) 0 (pbind cur (\<lambda>d.
      if tk_type d \<in> {TOKEN_STRING, TOKEN_INT_LITERAL, TOKEN_FLOAT_LITERAL}
      then pbind (strdup (tk_value d)) (\<lambda>v. pthen advance (constraint_loop n nullable uniq (Some v)))
      else constraint_loop n nullable uniq default_value)) (\<lambda>_. True)" (is "pspec _ _ _ _ ?p _")
  proof (rule pspecI)
    fix ts i assume a: "wf_tokens ts" "i < length ts" "length ts - i \<le> b - 1"
    note L = pspecD [OF IH [OF order_refl] a(1)]
    show "case ?p ts i of Done x j \<Rightarrow> i + 0 \<le> j \<and> j < length ts \<and> True | ParseError \<Rightarrow> True | Exits \<Rightarrow> e | Crash \<Rightarrow> True | NoFuel \<Rightarrow> False"
    proof (cases "tk_type (current_token ts i) \<in> {TOKEN_STRING, TOKEN_INT_LITERAL, TOKEN_FLOAT_LITERAL} \<and> tk_value (current_token ts i) \<noteq> None")
      case True
      then obtain v where v: "tk_value (current_token ts i) = Some v" by blast
      have "Suc i < length ts" using wf_current(2) [OF a(1,2)] True by auto
      moreover from this have "?p ts i = constraint_loop n nullable uniq (Some v) ts (Suc i)"
        using True v by (simp add: pbind_def cur_def strdup_def ret_def advance_def)
      moreover have "length ts - Suc i \<le> b - 1" using a(3) by linarith
      ultimately show ?thesis using L [of "Suc i" nullable uniq "Some v"]
        by (cases "constraint_loop n nullable uniq (Some v) ts (Suc i)") auto
    next
      case False
      then show ?thesis using L [OF a(2,3), of nullable uniq default_value] by (auto simp: pbind_def cur_def strdup_def fail_with_def)
    qed
  qed
  show ?case
    unfolding constraint_loop.simps by (rule pspec_branch D IH psteps pspec_bind0 | (simp; fail))+
qed (simp add: pspec_0)

lemma fk_action_ok: "pspec c e b 0 (fk_action old) (\<lambda>_. True)"
  unfolding fk_action_def by (rule pspec_branch_advance [where l = 0] pspec_ret_any | (simp; fail))+

lemma fk_loop_ok: "b \<le> n \<Longrightarrow> pspec c e b 0 (fk_loop n on_delete on_update) (\<lambda>_. True)"
proof (induction n arbitrary: b on_delete on_update)
  case (Suc n)
  have IH: "pspec c e m 0 (fk_loop n on_delete on_update) (\<lambda>_. True)" if "m \<le> b - 1" for m on_delete on_update
    by (rule Suc.IH) (use Suc.prems that in linarith)
  show ?case
    unfolding fk_loop.simps
    by (rule pspec_branch_advance [where l = 0] IH fk_action_ok pspec_ret_any pspec_bind0 | (simp; fail))+
qed (simp add: pspec_0)

lemma add_column_ok: "b \<le> n \<Longrightarrow> pspec True e b 0 (parse_add_column n tbl) (\<lambda>_. True)"
  unfolding parse_add_column_def text_of_def [of "consume_one_of _ _"]
  by (rule psteps constraint_loop_ok case_prod_ok pspec_strdup_crash pspec_one_of pspec_bind0 | (simp add: has_text_def; fail))+

lemma add_constraint_ok: "b \<le> n \<Longrightarrow> pspec c e b 0 (parse_add_constraint n tbl) (\<lambda>_. True)"
  unfolding parse_add_constraint_def
  by (rule psteps fk_loop_ok case_prod_ok pspec_bind0 | (simp add: has_text_def; fail))+

lemma alter_table_ok: "b \<le> n \<Longrightarrow> pspec True e b 0 (parse_alter_table n) (\<lambda>_. True)"
  unfolding parse_alter_table_def text_of_def [of "consume_one_of _ _"]
  by (rule psteps add_column_ok add_constraint_ok pspec_branch pspec_strdup_crash pspec_one_of pspec_bind0 | (simp add: has_text_def; fail))+

section \<open>How parsing ends\<close>

text \<open>The loop of \<open>AGGREGATE\<close> may run for ever, but it never calls \<open>exit\<close>.\<close>

definition no_exit :: "'a parser \<Rightarrow> bool" where
  "no_exit p \<longleftrightarrow> (\<forall>ts i. p ts i \<noteq> Exits)"

lemma no_exit_bind: "no_exit p \<Longrightarrow> (\<And>x. no_exit (f x)) \<Longrightarrow> no_exit (pbind p f)"
  by (auto simp: no_exit_def pbind_def split: outcome.split)

lemma no_exit_branch: "no_exit p \<Longrightarrow> no_exit q \<Longrightarrow> no_exit (branch t p q)"
  by (simp add: no_exit_def branch_def)

lemma no_exit_basic:
  "no_exit (ret x)" "no_exit cur" "no_exit advance" "no_exit (fail_with NoFuel)" "no_exit (fail_with ParseError)"
  "no_exit (fail_with Crash)"
  by (simp_all add: no_exit_def ret_def cur_def advance_def fail_with_def)

lemma no_exit_token: "no_exit (match t)" "no_exit (consume t)"
  unfolding match_def consume_def by (intro no_exit_branch no_exit_bind no_exit_basic)+

lemma no_exit_text: "no_exit (strdup v)" "no_exit (strcat cap buf v)"
  unfolding strdup_def strcat_def by (auto intro: no_exit_basic split: option.split)

lemmas no_exits = no_exit_bind no_exit_branch no_exit_basic no_exit_token no_exit_text

lemma no_exit_if: "no_exit p \<Longrightarrow> no_exit q \<Longrightarrow> no_exit (if b then p else q)"
  by simp

lemma no_exit_copy_nested: "no_exit (copy_nested n cap depth buf)"
  by (induction n arbitrary: depth buf) (auto simp: append_token_def intro!: no_exits no_exit_if)

lemma no_exit_stage_loop: "no_exit (stage_loop n)"
  by (induction n) (auto simp: parse_object_def intro!: no_exits no_exit_copy_nested)

lemma no_exit_aggregate: "no_exit (parse_aggregate n)"
  unfolding parse_aggregate_def text_of_def by (intro no_exits no_exit_stage_loop)

lemma dispatch_cases:
  "dispatch ps q ts i = (case map_of ps (tk_type (current_token ts i)) of Some p \<Rightarrow> p ts i | None \<Rightarrow> q ts i)"
  by (induction ps q rule: dispatch.induct) (auto simp: branch_def)

lemma pspec_next_is: "pspec c e b k p Q \<Longrightarrow> pspec c e b k q Q \<Longrightarrow> pspec c e b k (next_is t p q) Q"
  by (simp add: pspec_def next_is_def)

lemma create_ok: "b \<le> n \<Longrightarrow> pspec c e b 0 (parse_create n) (\<lambda>_. True)"
  unfolding parse_create_def
  by (intro pspec_branch create_index_ok create_user_ok create_db_ok create_collection_ok create_table_ok pspec_error)

lemma drop_ok: "pspec c e b 0 parse_drop (\<lambda>_. True)"
  unfolding parse_drop_def by (intro pspec_branch drop_db_ok drop_table_ok)

abbreviation may_crash :: "token_type set" where
  "may_crash \<equiv> {TOKEN_KW_USE, TOKEN_KW_ALTER, TOKEN_KW_RAKHO, TOKEN_KW_FIND, TOKEN_KW_UPSERT, TOKEN_KW_AGGREGATE}"

abbreviation may_exit :: "token_type set" where
  "may_exit \<equiv> {TOKEN_KW_SELECT, TOKEN_KW_NIKALO, TOKEN_KW_UPDATE}"

lemma identifier_ok: "pspec c e b 0 (branch TOKEN_IDENTIFIER (pbind (text_of cur) (\<lambda>v.
     if strcasecmp_eq v ''CREATE''
     then pthen (consume TOKEN_IDENTIFIER) (branch TOKEN_KW_INDEX parse_create_index (fail_with ParseError))
     else fail_with ParseError)) (fail_with ParseError)) (\<lambda>_. True)" (is "pspec _ _ _ _ (branch _ (pbind _ ?f) _) _")
proof -
  have f: "pspec c e b 0 (?f v) (\<lambda>_. True)" for v
    by (rule if_ok pspec_bind0 pspec_consume pspec_branch create_index_ok pspec_error | (simp; fail))+
  show ?thesis
  proof (rule pspecI)
    fix ts i assume a: "wf_tokens ts" "i < length ts" "length ts - i \<le> b"
    show "case branch TOKEN_IDENTIFIER (pbind (text_of cur) ?f) (fail_with ParseError) ts i of
        Done x j \<Rightarrow> i + 0 \<le> j \<and> j < length ts \<and> True | ParseError \<Rightarrow> True | Exits \<Rightarrow> e | Crash \<Rightarrow> c | NoFuel \<Rightarrow> False"
    proof (cases "tk_type (current_token ts i) = TOKEN_IDENTIFIER")
      case True
      then obtain v where "tk_value (current_token ts i) = Some v"
        using wf_current(1) [OF a(1,2)] by (auto simp: token_wf_def has_text_def)
      then have t: "text_of cur ts i = Done v i"
        by (simp add: text_of_def pbind_def cur_def strdup_def ret_def)
      have "pbind (text_of cur) ?f ts i = ?f v ts i"
        by (simp only: pbind_def [of "text_of cur"] t outcome.case)
      then have "branch TOKEN_IDENTIFIER (pbind (text_of cur) ?f) (fail_with ParseError) ts i = ?f v ts i"
        using True by (simp add: branch_def)
      then show ?thesis using pspecD [OF f [of v] a] by simp
    qed (simp add: branch_def fail_with_def)
  qed
qed

text \<open>What every statement but \<open>AGGREGATE\<close> satisfies, read off the table of the dispatch.\<close>

lemma statement_table_ok:
  assumes "4 * b + 1 \<le> n" and "t \<noteq> TOKEN_KW_AGGREGATE" and "t \<noteq> TOKEN_IDENTIFIER"
    and "c \<longleftrightarrow> t \<in> may_crash" and "e \<longleftrightarrow> t \<in> may_exit" and "map_of (statement_table n) t = Some p"
  shows "pspec c e b 0 p (\<lambda>_. True)"
proof -
  have n: "b \<le> n" "4 * b \<le> n" using assms(1) by simp_all
  have s: "pspec c' True b 0 (pbind (parse_select n False) (\<lambda>s. ret (NODE_CMD_SELECT s))) (\<lambda>_. True)" for c'
    by (rule pspec_any [OF pspec_bind0 [OF pspec_any [OF select_ok [OF assms(1)]] pspec_ret_any]])
  note b = use_db_ok create_ok drop_ok show_ok create_user_ok create_db_ok drop_db_ok drop_table_ok create_table_ok insert_statement_ok
    dhundo_ok doc_insert_ok doc_get_ok doc_remove_ok delete_ok update_ok transaction_ok create_index_ok rollback_ok
    alter_table_ok backup_ok find_ok upsert_ok pspec_error s
  show ?thesis
    using assms(2-)
    by (auto simp: statement_table_def split: if_splits intro!: pspec_next_is pspec_branch b n
        pspec_bind0 [OF pspec_any [OF pspec_consume]])
qed

lemma statement_identifier:
  "tk_type (current_token ts i) = TOKEN_IDENTIFIER \<Longrightarrow>
   parse_statement n ts i = branch TOKEN_IDENTIFIER (pbind (text_of cur) (\<lambda>v.
     if strcasecmp_eq v ''CREATE''
     then pthen (consume TOKEN_IDENTIFIER) (branch TOKEN_KW_INDEX parse_create_index (fail_with ParseError))
     else fail_with ParseError)) (fail_with ParseError) ts i"
  by (simp add: parse_statement_def dispatch_cases statement_table_def branch_def)

lemma statement_aggregate:
  "tk_type (current_token ts i) = TOKEN_KW_AGGREGATE \<Longrightarrow> parse_statement n ts i = parse_aggregate n ts i"
  by (simp add: parse_statement_def dispatch_cases statement_table_def branch_def)

lemma statement_ok:
  assumes "wf_tokens ts" and "t = tk_type (hd ts)" and "t \<noteq> TOKEN_KW_AGGREGATE"
  shows "case parse ts of Done x j \<Rightarrow> j < length ts | ParseError \<Rightarrow> True | Exits \<Rightarrow> t \<in> may_exit | Crash \<Rightarrow> t \<in> may_crash | NoFuel \<Rightarrow> False"
proof -
  have ts: "0 < length ts" "length ts - 0 \<le> length ts" using assms(1) by (auto simp: wf_tokens_def)
  have t: "tk_type (current_token ts 0) = t" using ts assms(2) by (simp add: current_token_def hd_conv_nth)
  have n: "4 * length ts + 1 \<le> enough_fuel ts" by (simp add: enough_fuel_def)
  show ?thesis
  proof (cases "t = TOKEN_IDENTIFIER")
    case True
    show ?thesis
      unfolding parse_def statement_identifier [OF t [unfolded True]]
      using pspecD [OF identifier_ok assms(1) ts, of False False] by (auto split: outcome.split)
  next
    case False
    show ?thesis
    proof (cases "map_of (statement_table (enough_fuel ts)) t")
      case None
      then show ?thesis by (simp add: parse_def parse_statement_def dispatch_cases t fail_with_def)
    next
      case (Some p)
      from pspecD [OF statement_table_ok [OF n assms(3) False refl refl Some] assms(1) ts]
      show ?thesis by (cases "p ts 0") (auto simp: parse_def parse_statement_def dispatch_cases t Some)
    qed
  qed
qed

section \<open>Properties\<close>

text \<open>C23: whatever the bytes of a request, parsing it ends with a tree or a reported error, inside the token
  array, unless its first token is one of few: only \<open>AGGREGATE\<close> can loop for ever, only \<open>USE\<close>, \<open>ALTER\<close>,
  \<open>RAKHO\<close>, \<open>FIND\<close>, \<open>UPSERT\<close> and \<open>AGGREGATE\<close> can crash, and only \<open>SELECT\<close>, \<open>NIKALO\<close> and \<open>UPDATE\<close> can call
  \<open>exit\<close>.\<close>

theorem parse_outcomes:
  "let ts = tokenize input; t = tk_type (hd ts) in
   case parse ts of
     Done x j \<Rightarrow> j < length ts \<or> t = TOKEN_KW_AGGREGATE
   | ParseError \<Rightarrow> True
   | Exits \<Rightarrow> t \<in> {TOKEN_KW_SELECT, TOKEN_KW_NIKALO, TOKEN_KW_UPDATE}
   | Crash \<Rightarrow> t \<in> {TOKEN_KW_USE, TOKEN_KW_ALTER, TOKEN_KW_RAKHO, TOKEN_KW_FIND, TOKEN_KW_UPSERT, TOKEN_KW_AGGREGATE}
   | NoFuel \<Rightarrow> t = TOKEN_KW_AGGREGATE"
proof (cases "tk_type (hd (tokenize input)) = TOKEN_KW_AGGREGATE")
  case True
  then have "parse (tokenize input) = parse_aggregate (enough_fuel (tokenize input)) (tokenize input) 0"
    unfolding parse_def using wf_tokenize [of input]
    by (intro statement_aggregate) (simp add: current_token_def hd_conv_nth wf_tokens_def)
  then show ?thesis
    using True no_exit_aggregate by (auto simp: Let_def no_exit_def split: outcome.split)
next
  case False
  show ?thesis
    using statement_ok [OF wf_tokenize refl False] False
    by (cases "parse (tokenize input)") (auto simp: Let_def)
qed

end
