(* ===== verification/ParserErrors.thy ===== *)
theory ParserErrors
  imports ParserTotal
begin

text \<open>
  The requests that take the parser of \<open>src/parser.c\<close> out of its contract: a malformed condition ends the
  process, a column type in \<open>ALTER TABLE\<close> is copied from a token without text, and a stray token
  among the stages of \<open>AGGREGATE\<close> keeps the loop where it is.
\<close>

section \<open>Steps on tokens of a known type\<close>

lemma current_token_nth: "i < length ts \<Longrightarrow> current_token ts i = ts ! i"
  by (simp add: current_token_def)

lemma branch_at:
  "i < length ts \<Longrightarrow> branch t p q ts i = (if tk_type (ts ! i) = t then p ts i else q ts i)"
  by (simp add: branch_def current_token_nth)

lemma match_at:
  "i < length ts \<Longrightarrow> match t ts i = (if tk_type (ts ! i) = t then Done True (Suc i) else Done False i)"
  by (simp add: match_def branch_at pbind_def advance_def ret_def)

lemma consume_at:
  "i < length ts \<Longrightarrow> consume t ts i = (if tk_type (ts ! i) = t then Done (ts ! i) (Suc i) else ParseError)"
  by (simp add: consume_def branch_at pbind_def advance_def ret_def cur_def current_token_nth fail_with_def)

lemma consume_one_of_at:
  "i < length ts \<Longrightarrow> consume_one_of tys r ts i = (if tk_type (ts ! i) \<in> set tys then Done (ts ! i) (Suc i) else r)"
  by (induction tys r rule: consume_one_of.induct) (auto simp: fail_with_def branch_at consume_at)

lemma wf_text:
  "wf_tokens ts \<Longrightarrow> i < length ts \<Longrightarrow> has_text (tk_type (ts ! i)) \<Longrightarrow> \<exists>v. tk_value (ts ! i) = Some v"
  "wf_tokens ts \<Longrightarrow> i < length ts \<Longrightarrow> \<not> has_text (tk_type (ts ! i)) \<Longrightarrow> tk_value (ts ! i) = None"
  using nth_mem [of i ts] by (auto simp: wf_tokens_def)

lemma consume_text_at:
  assumes "wf_tokens ts" and "i < length ts" and "has_text t"
  shows "consume_text t ts i =
     (if tk_type (ts ! i) = t then Done (the (tk_value (ts ! i))) (Suc i) else ParseError)"
  using wf_text(1) [OF assms(1,2)] assms(2,3)
  by (auto simp: text_of_def pbind_def consume_at strdup_def ret_def)

lemma text_of_one_of_at:
  assumes "wf_tokens ts" and "i < length ts" and "t = tk_type (ts ! i)" and "t \<in> set tys"
  shows "text_of (consume_one_of tys r) ts i =
     (if has_text t then Done (the (tk_value (ts ! i))) (Suc i) else Crash)"
  using wf_text [OF assms(1,2)] assms(2-)
  by (auto simp: text_of_def pbind_def consume_one_of_at strdup_def ret_def fail_with_def)

lemma pbind_Done: "p ts i = Done x j \<Longrightarrow> pbind p f ts i = f x ts j"
  by (simp add: pbind_def)

lemma pbind_stop:
  "p ts i = Crash \<Longrightarrow> pbind p f ts i = Crash" "p ts i = NoFuel \<Longrightarrow> pbind p f ts i = NoFuel"
  "p ts i = Exits \<Longrightarrow> pbind p f ts i = Exits" "p ts i = ParseError \<Longrightarrow> pbind p f ts i = ParseError"
  by (simp_all add: pbind_def)

lemma statement_at:
  "0 < length ts \<Longrightarrow> map_of (statement_table n) (tk_type (ts ! 0)) = Some p \<Longrightarrow> parse_statement n ts 0 = p ts 0"
  by (simp add: parse_statement_def dispatch_cases current_token_nth)

lemma pbind_match:
  "i < length ts \<Longrightarrow> pbind (match t) f ts i = (if tk_type (ts ! i) = t then f True ts (Suc i) else f False ts i)"
  by (simp add: pbind_def match_at)

lemma two: "Suc (Suc 0) = 2"
  by simp

lemmas at_simps = pbind_match branch_at match_at consume_at consume_one_of_at

section \<open>Properties\<close>

text \<open>Adding a column with \<open>ALTER TABLE\<close> never succeeds: once the type is read, the parser copies the text of
  a keyword token, which has none, whatever follows.\<close>

theorem alter_add_column_crashes:
  assumes "wf_tokens ts" and "6 < length ts"
    and "map tk_type (take 6 ts) = [TOKEN_KW_ALTER, TOKEN_KW_TABLE, TOKEN_IDENTIFIER, TOKEN_KW_ADD, TOKEN_KW_COLUMN, TOKEN_IDENTIFIER]"
    and "tk_type (ts ! 6) \<in> {TOKEN_KW_INT, TOKEN_KW_FLOAT, TOKEN_KW_STRING_TYPE, TOKEN_KW_TEXT_TYPE, TOKEN_KW_BOOL_TYPE}"
  shows "parse ts = Crash"
proof -
  have t: "tk_type (ts ! k) = [TOKEN_KW_ALTER, TOKEN_KW_TABLE, TOKEN_IDENTIFIER, TOKEN_KW_ADD, TOKEN_KW_COLUMN, TOKEN_IDENTIFIER] ! k"
    if "k < 6" for k
    using arg_cong [OF assms(3), of "\<lambda>xs. xs ! k"] that assms(2) by simp
  have ty: "tk_type (ts ! 0) = TOKEN_KW_ALTER" "tk_type (ts ! 1) = TOKEN_KW_TABLE" "tk_type (ts ! 2) = TOKEN_IDENTIFIER"
    "tk_type (ts ! 3) = TOKEN_KW_ADD" "tk_type (ts ! 4) = TOKEN_KW_COLUMN" "tk_type (ts ! 5) = TOKEN_IDENTIFIER"
    using t [of 0] t [of 1] t [of 2] t [of 3] t [of 4] t [of 5] by simp_all
  have ne: "ts \<noteq> []" using assms(2) by auto
  have six: "text_of (consume_one_of column_types ParseError) ts 6 = Crash"
    using text_of_one_of_at [OF assms(1,2) refl, of column_types ParseError] assms(4) by (auto simp: has_text_def)
  have "parse_add_column n tbl ts 4 = Crash" for n tbl
    unfolding parse_add_column_def using assms(1,2) ty
    by (simp add: pbind_Done at_simps consume_text_at pbind_stop(1) [where p = "text_of _"] six ret_def has_text_def del: consume_one_of.simps)
  then have "parse_alter_table n ts 0 = Crash" for n
    unfolding parse_alter_table_def using assms(1,2) ty ne
    by (simp add: pbind_Done at_simps consume_text_at ret_def has_text_def two)
  then show ?thesis using ty assms(2) ne by (simp add: parse_def statement_at statement_table_def)
qed

theorem alter_add_column_crashes_witness: "let ts = [make_token TOKEN_KW_ALTER None 1, make_token TOKEN_KW_TABLE None 1,
      make_token TOKEN_IDENTIFIER (Some ''t'') 1, make_token TOKEN_KW_ADD None 1, make_token TOKEN_KW_COLUMN None 1,
      make_token TOKEN_IDENTIFIER (Some ''c'') 1, make_token TOKEN_KW_INT None 1, make_token TOKEN_SEMICOLON (Some '';'') 1,
      make_token TOKEN_EOF None 1]
    in parse ts = Crash"
  unfolding Let_def by (rule alter_add_column_crashes; code_simp)

text \<open>More fuel changes no answer but that of running out.\<close>

definition more_fuel :: "'a parser \<Rightarrow> 'a parser \<Rightarrow> bool" where
  "more_fuel p q \<longleftrightarrow> (\<forall>ts i. p ts i = NoFuel \<or> p ts i = q ts i)"

lemma more_fuel_refl [simp]: "more_fuel p p"
  by (simp add: more_fuel_def)

lemma more_fuel_none [simp]: "more_fuel (fail_with NoFuel) p"
  by (simp add: more_fuel_def fail_with_def)

lemma more_fuel_bind: "more_fuel p q \<Longrightarrow> (\<And>x. more_fuel (f x) (g x)) \<Longrightarrow> more_fuel (pbind p f) (pbind q g)"
proof -
  assume p: "more_fuel p q" and f: "\<And>x. more_fuel (f x) (g x)"
  have "pbind p f ts i = NoFuel \<or> pbind p f ts i = pbind q g ts i" for ts i
  proof (cases "p ts i")
    case (Done x j)
    then have "q ts i = Done x j" using p by (metis more_fuel_def outcome.distinct(7))
    then show ?thesis using Done f by (simp add: pbind_def more_fuel_def)
  qed (use p in \<open>auto simp: pbind_def more_fuel_def dest!: spec [of _ ts] spec [of _ i] split: outcome.split\<close>)
  then show ?thesis by (simp add: more_fuel_def)
qed

lemma more_fuel_branch: "more_fuel p q \<Longrightarrow> more_fuel p' q' \<Longrightarrow> more_fuel (branch t p p') (branch t q q')"
  by (simp add: more_fuel_def branch_def)

lemma more_fuel_nested: "n \<le> m \<Longrightarrow> more_fuel (copy_nested n cap depth buf) (copy_nested m cap depth buf)"
proof (induction n arbitrary: m depth buf)
  case (Suc n)
  then obtain k where m: "m = Suc k" "n \<le> k" by (cases m) auto
  show ?case using Suc.IH [OF m(2)] by (auto simp: m(1) intro!: more_fuel_branch more_fuel_bind)
qed simp

text \<open>One pass of the loop over the stages: an object, if there is one, and a comma, if there is one.\<close>

definition stage_step :: "nat \<Rightarrow> string list parser" where
  "stage_step n =
     pbind (branch TOKEN_LBRACE (pbind (parse_object n 1024) (\<lambda>b. ret [b])) (ret [])) (\<lambda>stage.
       pthen (skip_if TOKEN_COMMA) (ret stage))"

lemma more_fuel_step: "n \<le> m \<Longrightarrow> more_fuel (stage_step n) (stage_step m)"
  unfolding stage_step_def parse_object_def by (intro more_fuel_bind more_fuel_branch more_fuel_nested more_fuel_refl)

lemma stage_loop_pass:
  assumes "tk_type (current_token ts i) \<notin> {TOKEN_RBRACKET, TOKEN_EOF}"
  shows "stage_loop (Suc n) ts i = pbind (stage_step n) (\<lambda>stage. pbind (stage_loop n) (\<lambda>stages. ret (stage @ stages))) ts i"
  using assms by (simp add: stage_step_def branch_def pbind_def ret_def split: outcome.split)

text \<open>The positions that the loop reaches from one position, pass by pass.\<close>

inductive stages :: "token list \<Rightarrow> nat \<Rightarrow> nat \<Rightarrow> bool" for ts where
  no_stage: "stages ts i i"
| one_stage: "tk_type (current_token ts i) \<notin> {TOKEN_RBRACKET, TOKEN_EOF} \<Longrightarrow> stage_step n ts i = Done b j \<Longrightarrow>
    stages ts j k \<Longrightarrow> stages ts i k"

lemma stray_stays:
  assumes "tk_type (current_token ts k) \<notin> {TOKEN_RBRACKET, TOKEN_EOF, TOKEN_LBRACE, TOKEN_COMMA}"
  shows "stage_loop n ts k = NoFuel"
proof (induction n)
  case (Suc n)
  have "stage_step n ts k = Done [] k"
    using assms by (simp add: stage_step_def pbind_def branch_def match_def ret_def)
  then show ?case using Suc assms stage_loop_pass [of ts k n] by (simp add: pbind_def del: stage_loop.simps)
qed (simp add: fail_with_def)

lemma stages_then_stray:
  assumes "stages ts i k" and "tk_type (current_token ts k) \<notin> {TOKEN_RBRACKET, TOKEN_EOF, TOKEN_LBRACE, TOKEN_COMMA}"
  shows "stage_loop n ts i = NoFuel"
  using assms
proof (induction arbitrary: n rule: stages.induct)
  case (no_stage i)
  then show ?case by (rule stray_stays)
next
  case (one_stage i m b j k)
  show ?case
  proof (cases n)
    case (Suc l)
    have "stage_step l ts i = NoFuel \<or> stage_step l ts i = Done b j"
      using more_fuel_step [of l m] more_fuel_step [of m l] one_stage.hyps(2)
      unfolding more_fuel_def by (metis nat_le_linear outcome.distinct(7))
    then show ?thesis
      using Suc one_stage stage_loop_pass [OF one_stage.hyps(1)] by (auto simp: pbind_def simp del: stage_loop.simps)
  qed (simp add: fail_with_def)
qed

text \<open>C37: A token among the stages of \<open>AGGREGATE\<close> that is no brace, comma, closing bracket or the end is
  never consumed, whether it is the first or comes after any number of stages and commas: however long
  the parser is left to run, it does not answer.\<close>

theorem aggregate_stage_hangs:
  assumes "wf_tokens ts" and "3 < length ts"
    and "map tk_type (take 3 ts) = [TOKEN_KW_AGGREGATE, TOKEN_IDENTIFIER, TOKEN_LBRACKET]"
    and "stages ts 3 k"
    and "tk_type (current_token ts k) \<notin> {TOKEN_RBRACKET, TOKEN_EOF, TOKEN_LBRACE, TOKEN_COMMA}"
  shows "parse_statement n ts 0 = NoFuel"
proof -
  have t: "tk_type (ts ! k) = [TOKEN_KW_AGGREGATE, TOKEN_IDENTIFIER, TOKEN_LBRACKET] ! k" if "k < 3" for k
    using arg_cong [OF assms(3), of "\<lambda>xs. xs ! k"] that assms(2) by simp
  have ty: "tk_type (ts ! 0) = TOKEN_KW_AGGREGATE" "tk_type (ts ! 1) = TOKEN_IDENTIFIER" "tk_type (ts ! 2) = TOKEN_LBRACKET"
    using t [of 0] t [of 1] t [of 2] by simp_all
  have ne: "ts \<noteq> []" using assms(2) by auto
  have "parse_aggregate n ts 0 = NoFuel"
    unfolding parse_aggregate_def using assms(1,2) ty ne stages_then_stray [OF assms(4,5)]
    by (simp add: pbind_Done at_simps consume_text_at pbind_stop(2) ret_def has_text_def two del: stage_loop.simps)
  then show ?thesis using ty ne by (simp add: statement_at statement_table_def)
qed

text \<open>A stray word after one stage and a comma.\<close>

theorem aggregate_stage_hangs_witness: "let ts = [make_token TOKEN_KW_AGGREGATE None 1,
      make_token TOKEN_IDENTIFIER (Some ''c'') 1, make_token TOKEN_LBRACKET (Some ''['') 1,
      make_token TOKEN_LBRACE (Some ''{'') 1, make_token TOKEN_IDENTIFIER (Some ''a'') 1,
      make_token TOKEN_RBRACE (Some ''}'') 1, make_token TOKEN_COMMA (Some '','') 1,
      make_token TOKEN_IDENTIFIER (Some ''x'') 1, make_token TOKEN_EOF None 1]
    in \<forall>n. parse_statement n ts 0 = NoFuel"
proof -
  define ts where "ts = [make_token TOKEN_KW_AGGREGATE None 1,
      make_token TOKEN_IDENTIFIER (Some ''c'') 1, make_token TOKEN_LBRACKET (Some ''['') 1,
      make_token TOKEN_LBRACE (Some ''{'') 1, make_token TOKEN_IDENTIFIER (Some ''a'') 1,
      make_token TOKEN_RBRACE (Some ''}'') 1, make_token TOKEN_COMMA (Some '','') 1,
      make_token TOKEN_IDENTIFIER (Some ''x'') 1, make_token TOKEN_EOF None 1]"
  have "stage_step 3 ts 3 = Done [''{a }''] 7" unfolding ts_def by code_simp
  then have "stages ts 3 7"
    by (intro stages.one_stage [where n = 3, OF _ _ stages.no_stage]) (simp_all add: ts_def current_token_def make_token_def)
  then have "parse_statement n ts 0 = NoFuel" for n
    by (rule aggregate_stage_hangs [rotated 3]) (unfold ts_def, code_simp+)
  then show ?thesis by (simp add: ts_def)
qed

text \<open>In a condition, a column name that is not followed by \<open>=\<close>, \<open>>\<close> or \<open><\<close> ends the process.\<close>

theorem malformed_condition_exits:
  assumes "wf_tokens ts" and "i + 1 < length ts" and "0 < n"
    and "tk_type (ts ! i) = TOKEN_IDENTIFIER" and "tk_type (ts ! (i + 1)) \<notin> {TOKEN_EQUALS, TOKEN_GT, TOKEN_LT}"
  shows "parse_comparison n ts i = Exits"
proof -
  obtain m where n: "n = Suc m" using assms(3) by (cases n) auto
  have "text_of (consume_one_of [TOKEN_EQUALS, TOKEN_GT, TOKEN_LT] Exits) ts (Suc i) = Exits"
    using assms(2,5) by (simp add: text_of_def pbind_stop(3) consume_one_of_at del: consume_one_of.simps)
  then show ?thesis
    using assms(1,2,4) Suc_lessD [of i "length ts"]
    by (simp add: n pbind_Done at_simps consume_text_at has_text_def pbind_stop(3) [where p = "text_of _"] del: consume_one_of.simps)
qed

theorem malformed_condition_exits_witness:
  "let ts = [make_token TOKEN_IDENTIFIER (Some ''age'') 1, make_token TOKEN_SEMICOLON (Some '';'') 1, make_token TOKEN_EOF None 1]
   in parse_comparison 3 ts 0 = Exits"
  unfolding Let_def by (rule malformed_condition_exits; code_simp)

end
