(* ===== verification/SqlGrammar.thy ===== *)
theory SqlGrammar
  imports ParserTotal
begin

text \<open>
  The grammar of \<open>SELECT\<close> as derivations over spans of the token array, without look-ahead, priorities or
  loops, and the proof that the recursive-descent parser accepts it exactly: \<open>cmp_g ts i e j\<close> says that
  the tokens from \<open>i\<close> up to \<open>j\<close> are a comparison with tree \<open>e\<close>, and so on.
\<close>

section \<open>The grammar\<close>

definition tok_at :: "token list \<Rightarrow> token_type \<Rightarrow> nat \<Rightarrow> bool" where
  "tok_at ts t i \<longleftrightarrow> i < length ts \<and> tk_type (ts ! i) = t"

abbreviation lexeme :: "token list \<Rightarrow> nat \<Rightarrow> string" where
  "lexeme ts i \<equiv> the (tk_value (ts ! i))"

inductive items :: "token list \<Rightarrow> (nat \<Rightarrow> 'a \<Rightarrow> nat \<Rightarrow> bool) \<Rightarrow> nat \<Rightarrow> 'a list \<Rightarrow> nat \<Rightarrow> bool" for ts R where
  items_one: "R i x j \<Longrightarrow> items ts R i [x] j"
| items_more: "R i x j \<Longrightarrow> tok_at ts TOKEN_COMMA j \<Longrightarrow> items ts R (Suc j) xs k \<Longrightarrow> items ts R i (x # xs) k"

definition aggregates :: "(token_type \<times> nat) list" where
  "aggregates = [(TOKEN_KW_COUNT, 1), (TOKEN_KW_SUM, 2), (TOKEN_KW_AVG, 3), (TOKEN_KW_MAX, 4), (TOKEN_KW_MIN, 5)]"

inductive item_g :: "token list \<Rightarrow> nat \<Rightarrow> nat \<times> string \<Rightarrow> nat \<Rightarrow> bool" for ts where
  item_column: "tok_at ts TOKEN_IDENTIFIER i \<Longrightarrow> item_g ts i (0, lexeme ts i) (Suc i)"
| item_star: "tok_at ts TOKEN_KW_COUNT i \<Longrightarrow> tok_at ts TOKEN_LPAREN (Suc i) \<Longrightarrow> tok_at ts TOKEN_STAR (Suc (Suc i)) \<Longrightarrow>
    tok_at ts TOKEN_RPAREN (Suc (Suc (Suc i))) \<Longrightarrow> item_g ts i (1, ''*'') (Suc (Suc (Suc (Suc i))))"
| item_func: "(f, k) \<in> set aggregates \<Longrightarrow> tok_at ts f i \<Longrightarrow> tok_at ts TOKEN_LPAREN (Suc i) \<Longrightarrow> tok_at ts TOKEN_IDENTIFIER (Suc (Suc i)) \<Longrightarrow>
    tok_at ts TOKEN_RPAREN (Suc (Suc (Suc i))) \<Longrightarrow> item_g ts i (k, lexeme ts (Suc (Suc i))) (Suc (Suc (Suc (Suc i))))"

inductive columns_g :: "token list \<Rightarrow> nat \<Rightarrow> (nat \<times> string) list \<Rightarrow> nat \<Rightarrow> bool" for ts where
  columns_star: "tok_at ts TOKEN_STAR i \<Longrightarrow> columns_g ts i [(0, ''*'')] (Suc i)"
| columns_items: "items ts (item_g ts) i xs j \<Longrightarrow> columns_g ts i xs j"

inductive group_g :: "token list \<Rightarrow> nat \<Rightarrow> string option \<Rightarrow> nat \<Rightarrow> bool" for ts where
  group_none: "group_g ts i None i"
| group_by: "tok_at ts TOKEN_KW_GROUP i \<Longrightarrow> tok_at ts TOKEN_KW_BY (Suc i) \<Longrightarrow> tok_at ts TOKEN_IDENTIFIER (Suc (Suc i)) \<Longrightarrow>
    group_g ts i (Some (lexeme ts (Suc (Suc i)))) (Suc (Suc (Suc i)))"

inductive order_item_g :: "token list \<Rightarrow> nat \<Rightarrow> string \<times> bool \<Rightarrow> nat \<Rightarrow> bool" for ts where
  order_plain: "tok_at ts TOKEN_IDENTIFIER i \<Longrightarrow> order_item_g ts i (lexeme ts i, False) (Suc i)"
| order_asc: "tok_at ts TOKEN_IDENTIFIER i \<Longrightarrow> tok_at ts TOKEN_KW_ASC (Suc i) \<Longrightarrow> order_item_g ts i (lexeme ts i, False) (Suc (Suc i))"
| order_desc: "tok_at ts TOKEN_IDENTIFIER i \<Longrightarrow> tok_at ts TOKEN_KW_DESC (Suc i) \<Longrightarrow> order_item_g ts i (lexeme ts i, True) (Suc (Suc i))"

inductive order_g :: "token list \<Rightarrow> nat \<Rightarrow> (string \<times> bool) list \<Rightarrow> nat \<Rightarrow> bool" for ts where
  order_none: "order_g ts i [] i"
| order_by: "tok_at ts TOKEN_KW_ORDER i \<Longrightarrow> tok_at ts TOKEN_KW_BY (Suc i) \<Longrightarrow> items ts (order_item_g ts) (Suc (Suc i)) xs j \<Longrightarrow> order_g ts i xs j"

inductive limit_g :: "token list \<Rightarrow> nat \<Rightarrow> int \<times> int \<Rightarrow> nat \<Rightarrow> bool" for ts where
  limit_none: "limit_g ts i (-1, 0) i"
| limit_only: "tok_at ts TOKEN_KW_LIMIT i \<Longrightarrow> tok_at ts TOKEN_INT_LITERAL (Suc i) \<Longrightarrow>
    limit_g ts i (atoi_int (lexeme ts (Suc i)), 0) (Suc (Suc i))"
| limit_offset: "tok_at ts TOKEN_KW_LIMIT i \<Longrightarrow> tok_at ts TOKEN_INT_LITERAL (Suc i) \<Longrightarrow> tok_at ts TOKEN_KW_OFFSET (Suc (Suc i)) \<Longrightarrow>
    tok_at ts TOKEN_INT_LITERAL (Suc (Suc (Suc i))) \<Longrightarrow>
    limit_g ts i (atoi_int (lexeme ts (Suc i)), atoi_int (lexeme ts (Suc (Suc (Suc i))))) (Suc (Suc (Suc (Suc i))))"

text \<open>\<open>KARO\<close> after \<open>SELECT\<close> says nothing; \<open>AND\<close> and \<open>OR\<close> associate to the left.\<close>

inductive select_g :: "token list \<Rightarrow> nat \<Rightarrow> sql_select \<Rightarrow> nat \<Rightarrow> bool"
  and where_g :: "token list \<Rightarrow> nat \<Rightarrow> sql_expr option \<Rightarrow> nat \<Rightarrow> bool"
  and or_g :: "token list \<Rightarrow> nat \<Rightarrow> sql_expr \<Rightarrow> nat \<Rightarrow> bool"
  and and_g :: "token list \<Rightarrow> nat \<Rightarrow> sql_expr \<Rightarrow> nat \<Rightarrow> bool"
  and cmp_g :: "token list \<Rightarrow> nat \<Rightarrow> sql_expr \<Rightarrow> nat \<Rightarrow> bool"
  for ts
where
  select_all: "tok_at ts TOKEN_KW_SELECT i \<Longrightarrow> i1 = Suc i \<or> tok_at ts TOKEN_KW_KARO (Suc i) \<and> i1 = Suc (Suc i) \<Longrightarrow>
    columns_g ts i1 cols i2 \<Longrightarrow> tok_at ts TOKEN_KW_FROM i2 \<Longrightarrow> tok_at ts TOKEN_IDENTIFIER (Suc i2) \<Longrightarrow>
    where_g ts (Suc (Suc i2)) w i3 \<Longrightarrow> group_g ts i3 g i4 \<Longrightarrow> order_g ts i4 os i5 \<Longrightarrow> limit_g ts i5 (lim, off) j \<Longrightarrow>
    select_g ts i (Select (lexeme ts (Suc i2)) cols w g os lim off) j"
| where_none: "where_g ts i None i"
| where_some: "tok_at ts TOKEN_KW_JAHAN i \<Longrightarrow> or_g ts (Suc i) e j \<Longrightarrow> where_g ts i (Some e) j"
| or_and: "and_g ts i e j \<Longrightarrow> or_g ts i e j"
| or_or: "or_g ts i l j \<Longrightarrow> tok_at ts TOKEN_KW_OR j \<Longrightarrow> and_g ts (Suc j) r k \<Longrightarrow> or_g ts i (EXPR_BINARY l ''OR'' r) k"
| and_cmp: "cmp_g ts i e j \<Longrightarrow> and_g ts i e j"
| and_and: "and_g ts i l j \<Longrightarrow> tok_at ts TOKEN_KW_AND j \<Longrightarrow> cmp_g ts (Suc j) r k \<Longrightarrow> and_g ts i (EXPR_BINARY l ''AND'' r) k"
| cmp_paren: "tok_at ts TOKEN_LPAREN i \<Longrightarrow> or_g ts (Suc i) e j \<Longrightarrow> tok_at ts TOKEN_RPAREN j \<Longrightarrow> cmp_g ts i e (Suc j)"
| cmp_literal: "tok_at ts TOKEN_IDENTIFIER i \<Longrightarrow> tok_at ts t (Suc i) \<Longrightarrow> t \<in> {TOKEN_EQUALS, TOKEN_GT, TOKEN_LT} \<Longrightarrow>
    tok_at ts u (Suc (Suc i)) \<Longrightarrow> u \<in> {TOKEN_INT_LITERAL, TOKEN_STRING, TOKEN_FLOAT_LITERAL} \<Longrightarrow>
    cmp_g ts i (EXPR_BINARY (EXPR_IDENTIFIER (lexeme ts i)) (lexeme ts (Suc i)) (EXPR_LITERAL (lexeme ts (Suc (Suc i))))) (Suc (Suc (Suc i)))"
| cmp_subquery: "tok_at ts TOKEN_IDENTIFIER i \<Longrightarrow> tok_at ts t (Suc i) \<Longrightarrow> t \<in> {TOKEN_EQUALS, TOKEN_GT, TOKEN_LT} \<Longrightarrow>
    tok_at ts TOKEN_LPAREN (Suc (Suc i)) \<Longrightarrow> select_g ts (Suc (Suc (Suc i))) s j \<Longrightarrow> tok_at ts TOKEN_RPAREN j \<Longrightarrow>
    cmp_g ts i (EXPR_BINARY (EXPR_IDENTIFIER (lexeme ts i)) (lexeme ts (Suc i)) (EXPR_SUBQUERY s)) (Suc j)"

lemmas grammar_intros = select_g_where_g_or_g_and_g_cmp_g.intros

text \<open>The type of an identifier stays \<open>1\<close> in what follows.\<close>

declare One_nat_def [simp del]

section \<open>When the basic parsers succeed\<close>

lemma at_current: "wf_tokens ts \<Longrightarrow> t \<noteq> TOKEN_EOF \<Longrightarrow> tk_type (current_token ts i) = t \<longleftrightarrow> tok_at ts t i"
  by (auto simp: current_token_def tok_at_def wf_tokens_def)

lemma pbind_Done_iff: "pbind p f ts i = Done y k \<longleftrightarrow> (\<exists>x j. p ts i = Done x j \<and> f x ts j = Done y k)"
  by (cases "p ts i") (auto simp: pbind_def)

lemma ret_Done_iff: "ret x ts i = Done y k \<longleftrightarrow> y = x \<and> k = i"
  by (auto simp: ret_def)

lemma fail_Done_iff: "fail_with ParseError ts i \<noteq> Done y k" "fail_with Exits ts i \<noteq> Done y k"
    "fail_with NoFuel ts i \<noteq> Done y k" "fail_with Crash ts i \<noteq> Done y k"
  by (auto simp: fail_with_def)

lemma branch_iff:
  "wf_tokens ts \<Longrightarrow> t \<noteq> TOKEN_EOF \<Longrightarrow> branch t p q ts i = (if tok_at ts t i then p ts i else q ts i)"
  by (simp add: branch_def at_current)

lemma advance_at: "tok_at ts t i \<Longrightarrow> advance ts i = Done () (Suc i)"
  by (simp add: advance_def tok_at_def)

lemma match_iff:
  "wf_tokens ts \<Longrightarrow> t \<noteq> TOKEN_EOF \<Longrightarrow> match t ts i = (if tok_at ts t i then Done True (Suc i) else Done False i)"
  by (simp add: match_def branch_iff pbind_def advance_at ret_def)

lemma consume_iff:
  "wf_tokens ts \<Longrightarrow> t \<noteq> TOKEN_EOF \<Longrightarrow> consume t ts i = (if tok_at ts t i then Done (ts ! i) (Suc i) else ParseError)"
  by (auto simp: consume_def branch_iff pbind_def advance_at ret_def cur_def current_token_def fail_with_def tok_at_def)

lemma consume_one_of_iff:
  "wf_tokens ts \<Longrightarrow> TOKEN_EOF \<notin> set tys \<Longrightarrow>
   consume_one_of tys r ts i = (if i < length ts \<and> tk_type (ts ! i) \<in> set tys then Done (ts ! i) (Suc i) else r)"
  by (induction tys r rule: consume_one_of.induct) (auto simp: fail_with_def branch_iff consume_iff tok_at_def)

lemma strdup_text:
  assumes "wf_tokens ts" and "tok_at ts t i" and "has_text t"
  shows "strdup (tk_value (ts ! i)) = ret (lexeme ts i)"
proof -
  obtain v where "tk_value (ts ! i) = Some v"
    using assms by (auto simp: wf_tokens_def tok_at_def simp del: not_None_eq dest!: bspec [OF _ nth_mem])
  then show ?thesis by (simp add: strdup_def)
qed

lemma consume_text_iff:
  assumes "wf_tokens ts" and "t \<noteq> TOKEN_EOF" and "has_text t"
  shows "consume_text t ts i = (if tok_at ts t i then Done (lexeme ts i) (Suc i) else ParseError)"
  using strdup_text [OF assms(1) _ assms(3)] assms(1,2)
  by (cases "tok_at ts t i") (auto simp: text_of_def pbind_def consume_iff ret_def)

lemma text_one_of_iff:
  assumes "wf_tokens ts" and "TOKEN_EOF \<notin> set tys" and "\<forall>t\<in>set tys. has_text t"
  shows "text_of (consume_one_of tys r) ts i =
     (if \<exists>t\<in>set tys. tok_at ts t i then Done (lexeme ts i) (Suc i)
      else pbind (\<lambda>_ _. r) (\<lambda>tok. strdup (tk_value tok)) ts i)"
proof (cases "\<exists>t\<in>set tys. tok_at ts t i")
  case True
  then obtain t where t: "t \<in> set tys" "tok_at ts t i" by blast
  with strdup_text [OF assms(1) t(2)] assms(2,3) show ?thesis
    by (auto simp: text_of_def pbind_def consume_one_of_iff assms(1) ret_def tok_at_def)
next
  case False
  then show ?thesis using assms by (auto simp: text_of_def pbind_def consume_one_of_iff tok_at_def)
qed

lemma text_one_of_Done:
  assumes "wf_tokens ts" and "TOKEN_EOF \<notin> set tys" and "\<forall>t\<in>set tys. has_text t" and "r = ParseError \<or> r = Exits"
  shows "text_of (consume_one_of tys r) ts i = Done x j \<longleftrightarrow> (\<exists>t\<in>set tys. tok_at ts t i) \<and> x = lexeme ts i \<and> j = Suc i"
  using assms(4) by (auto simp: text_one_of_iff [OF assms(1-3)] pbind_def)

lemma consume_Done: "wf_tokens ts \<Longrightarrow> t \<noteq> TOKEN_EOF \<Longrightarrow> consume t ts i = Done x j \<longleftrightarrow> tok_at ts t i \<and> x = ts ! i \<and> j = Suc i"
  by (auto simp: consume_iff)

lemma consume_text_Done:
  "wf_tokens ts \<Longrightarrow> t \<noteq> TOKEN_EOF \<Longrightarrow> has_text t \<Longrightarrow>
   consume_text t ts i = Done x j \<longleftrightarrow> tok_at ts t i \<and> x = lexeme ts i \<and> j = Suc i"
  by (auto simp: consume_text_iff)

lemma match_Done:
  "wf_tokens ts \<Longrightarrow> t \<noteq> TOKEN_EOF \<Longrightarrow>
   match t ts i = Done b j \<longleftrightarrow> (b \<and> tok_at ts t i \<and> j = Suc i) \<or> (\<not> b \<and> \<not> tok_at ts t i \<and> j = i)"
  by (auto simp: match_iff)

lemma branch_Done:
  "wf_tokens ts \<Longrightarrow> t \<noteq> TOKEN_EOF \<Longrightarrow>
   branch t p q ts i = Done x j \<longleftrightarrow> (tok_at ts t i \<and> p ts i = Done x j) \<or> (\<not> tok_at ts t i \<and> q ts i = Done x j)"
  by (simp add: branch_iff)

lemmas Done_iffs = pbind_Done_iff ret_Done_iff fail_Done_iff consume_Done consume_text_Done match_Done branch_Done text_one_of_Done

section \<open>Soundness: what the parser accepts is in the grammar\<close>

lemma comma_list_sound:
  assumes "wf_tokens ts" and "\<And>i x j. p ts i = Done x j \<Longrightarrow> R i x j"
  shows "comma_list n p ts i = Done xs j \<Longrightarrow> items ts R i xs j"
proof (induction n arbitrary: i xs j)
  case (Suc n)
  from Suc.prems obtain x i1 where x: "p ts i = Done x i1" and
    rest: "tok_at ts TOKEN_COMMA i1 \<and> (\<exists>ys. comma_list n p ts (Suc i1) = Done ys j \<and> xs = x # ys) \<or>
      \<not> tok_at ts TOKEN_COMMA i1 \<and> xs = [x] \<and> j = i1"
    by (auto simp: Done_iffs assms(1) split: if_splits)
  from rest show ?case
    using assms(2) [OF x] Suc.IH by (auto intro: items.intros)
qed (simp add: Done_iffs)

lemma item_sound: "wf_tokens ts \<Longrightarrow> parse_select_item ts i = Done x j \<Longrightarrow> item_g ts i x j"
  by (auto simp: parse_select_item_def parse_func_def Done_iffs aggregates_def split: if_splits intro: item_g.intros)


lemma columns_sound: "wf_tokens ts \<Longrightarrow> parse_select_list n ts i = Done x j \<Longrightarrow> columns_g ts i x j"
  by (auto simp: parse_select_list_def Done_iffs intro: columns_g.intros comma_list_sound item_sound)

lemma group_sound: "wf_tokens ts \<Longrightarrow> parse_group ts i = Done x j \<Longrightarrow> group_g ts i x j"
  by (auto simp: parse_group_def Done_iffs intro: group_g.intros)

lemma order_item_sound: "wf_tokens ts \<Longrightarrow> parse_order_item ts i = Done x j \<Longrightarrow> order_item_g ts i x j"
  by (auto simp: parse_order_item_def Done_iffs intro: order_item_g.intros)

lemma order_sound: "wf_tokens ts \<Longrightarrow> parse_order n ts i = Done x j \<Longrightarrow> order_g ts i x j"
  by (auto simp: parse_order_def Done_iffs
      intro: order_none order_by [OF _ _ comma_list_sound [where p = parse_order_item and R = "order_item_g ts"]] order_item_sound)

lemma limit_sound: "wf_tokens ts \<Longrightarrow> parse_limit ts i = Done x j \<Longrightarrow> limit_g ts i x j"
  by (auto simp: parse_limit_def Done_iffs intro: limit_g.intros split: if_splits)

definition sound_at :: "token list \<Rightarrow> nat \<Rightarrow> bool" where
  "sound_at ts n \<longleftrightarrow>
     (\<forall>sub i s j. parse_select n sub ts i = Done s j \<longrightarrow>
        (\<exists>k. select_g ts i s k \<and> (if sub then j = k else tok_at ts TOKEN_SEMICOLON k \<and> j = Suc k))) \<and>
     (\<forall>i e j. parse_expression n ts i = Done e j \<longrightarrow> or_g ts i e j) \<and>
     (\<forall>i e j. parse_logical_or n ts i = Done e j \<longrightarrow> or_g ts i e j) \<and>
     (\<forall>h i l e j. or_g ts h l i \<longrightarrow> or_loop n l ts i = Done e j \<longrightarrow> or_g ts h e j) \<and>
     (\<forall>i e j. parse_logical_and n ts i = Done e j \<longrightarrow> and_g ts i e j) \<and>
     (\<forall>h i l e j. and_g ts h l i \<longrightarrow> and_loop n l ts i = Done e j \<longrightarrow> and_g ts h e j) \<and>
     (\<forall>i e j. parse_comparison n ts i = Done e j \<longrightarrow> cmp_g ts i e j)"

lemma sound_atD:
  assumes "sound_at ts n"
  shows "parse_select n sub ts i = Done s j \<Longrightarrow>
      \<exists>k. select_g ts i s k \<and> (if sub then j = k else tok_at ts TOKEN_SEMICOLON k \<and> j = Suc k)"
    and "parse_expression n ts i = Done e j \<Longrightarrow> or_g ts i e j"
    and "parse_logical_or n ts i = Done e j \<Longrightarrow> or_g ts i e j"
    and "or_g ts h l i \<Longrightarrow> or_loop n l ts i = Done e j \<Longrightarrow> or_g ts h e j"
    and "parse_logical_and n ts i = Done e j \<Longrightarrow> and_g ts i e j"
    and "and_g ts h l i \<Longrightarrow> and_loop n l ts i = Done e j \<Longrightarrow> and_g ts h e j"
    and "parse_comparison n ts i = Done e j \<Longrightarrow> cmp_g ts i e j"
  using assms by (simp_all add: sound_at_def)

lemma comparison_sound:
  assumes "wf_tokens ts" and "sound_at ts n" and "parse_comparison (Suc n) ts i = Done e j"
  shows "cmp_g ts i e j"
proof (cases "tok_at ts TOKEN_LPAREN i")
  case True
  then obtain k where "parse_expression n ts (Suc i) = Done e k" "tok_at ts TOKEN_RPAREN k" "j = Suc k"
    using assms(3) by (auto simp: Done_iffs assms(1) simp del: parse_expression.simps)
  with True show ?thesis by (auto intro: cmp_paren sound_atD(2) [OF assms(2)])
next
  case False
  have peek: "peek_type ts k = Done t k' \<Longrightarrow> t = TOKEN_KW_SELECT \<Longrightarrow> tok_at ts TOKEN_KW_SELECT (Suc k) \<and> k' = k" for k t k'
    by (auto simp: peek_type_def tok_at_def split: if_splits)
  from False assms(3) show ?thesis
    by (auto simp: Done_iffs assms(1) split: if_splits dest!: peek sound_atD(1) [OF assms(2)]
        intro: grammar_intros simp del: parse_select.simps consume_one_of.simps)
qed


lemma select_sound:
  assumes "wf_tokens ts" and "sound_at ts n" and "parse_select (Suc n) sub ts i = Done s j"
  shows "\<exists>k. select_g ts i s k \<and> (if sub then j = k else tok_at ts TOKEN_SEMICOLON k \<and> j = Suc k)"
proof -
  note simps = Done_iffs assms(1)
  from assms(3) obtain u i1 i2 where h: "tok_at ts TOKEN_KW_SELECT i" "skip_if TOKEN_KW_KARO ts (Suc i) = Done u i1"
    and "pbind (parse_select_list n) (\<lambda>cols. pthen (consume TOKEN_KW_FROM)
     (pbind (consume_text TOKEN_IDENTIFIER) (\<lambda>tbl.
     pbind (match TOKEN_KW_JAHAN) (\<lambda>b.
     pbind (if b then pbind (parse_expression n) (\<lambda>e. ret (Some e)) else ret None) (\<lambda>where_clause.
     pbind parse_group (\<lambda>group_by.
     pbind (parse_order n) (\<lambda>order_by.
     pbind parse_limit (\<lambda>(lim, off).
     pthen (if sub then ret () else pthen (consume TOKEN_SEMICOLON) (ret ()))
     (ret (Select tbl cols where_clause group_by order_by lim off)))))))))) ts i1 = Done s j"
    by (auto simp: pbind_Done_iff [of "consume _"] pbind_Done_iff [of "skip_if _"] consume_Done assms(1))
  then obtain cols i2 b w i3 i4 g i5 os i6 lo i7 where
    c: "parse_select_list n ts i1 = Done cols i2" "tok_at ts TOKEN_KW_FROM i2" "tok_at ts TOKEN_IDENTIFIER (Suc i2)"
    and w: "match TOKEN_KW_JAHAN ts (Suc (Suc i2)) = Done b i3"
      "(if b then pbind (parse_expression n) (\<lambda>e. ret (Some e)) else ret None) ts i3 = Done w i4"
    and t: "parse_group ts i4 = Done g i5" "parse_order n ts i5 = Done os i6" "parse_limit ts i6 = Done lo i7"
    and f: "(if sub then ret () else pthen (consume TOKEN_SEMICOLON) (ret ())) ts i7 = Done () j"
      "s = Select (lexeme ts (Suc i2)) cols w g os (fst lo) (snd lo)"
    by (auto simp: pbind_Done_iff consume_Done consume_text_Done ret_Done_iff assms(1) split: prod.splits if_splits)
  have karo: "i1 = Suc (Suc i) \<and> tok_at ts TOKEN_KW_KARO (Suc i) \<or> i1 = Suc i"
    using h(2) by (auto simp: simps)
  have wg: "where_g ts (Suc (Suc i2)) w i4"
    using w by (auto simp: simps split: if_splits intro: grammar_intros sound_atD(2) [OF assms(2)])
  have "select_g ts i (Select (lexeme ts (Suc i2)) cols w g os (fst lo) (snd lo)) i7"
    by (rule select_all [OF h(1) _ columns_sound [OF assms(1) c(1)] c(2,3) wg group_sound [OF assms(1) t(1)]
          order_sound [OF assms(1) t(2)]]) (use karo limit_sound [OF assms(1) t(3)] in auto)
  then show ?thesis using f by (auto simp: simps split: if_splits)
qed

lemma sound_at: "wf_tokens ts \<Longrightarrow> sound_at ts n"
proof (induction n)
  case 0
  show ?case by (simp add: sound_at_def fail_Done_iff)
next
  case (Suc n)
  note IH = sound_atD [OF Suc.IH [OF Suc.prems]]
  note simps = Done_iffs Suc.prems
  have or_step: "or_g ts h e j" if "or_g ts h l i" "or_loop (Suc n) l ts i = Done e j" for h l i e j
    using that by (auto simp: simps intro: or_or IH(4,5) simp del: parse_logical_and.simps or_loop.simps(1))
  have and_step: "and_g ts h e j" if "and_g ts h l i" "and_loop (Suc n) l ts i = Done e j" for h l i e j
    using that by (auto simp: simps intro: and_and IH(6,7) simp del: parse_comparison.simps and_loop.simps(1))
  have or_all: "or_g ts i e j" if "parse_logical_or (Suc n) ts i = Done e j" for i e j
    using that by (auto simp: simps intro: IH(4) or_and IH(5))
  have and_all: "and_g ts i e j" if "parse_logical_and (Suc n) ts i = Done e j" for i e j
    using that by (auto simp: simps intro: IH(6) and_cmp IH(7))
  have expression: "or_g ts i e j" if "parse_expression (Suc n) ts i = Done e j" for i e j
    using that IH(3) by simp
  show ?case
    unfolding sound_at_def
    by (intro conjI allI impI)
      (erule select_sound [OF Suc.prems Suc.IH [OF Suc.prems]] | erule expression | erule or_all | erule (1) or_step
        | erule and_all | erule (1) and_step | erule comparison_sound [OF Suc.prems Suc.IH [OF Suc.prems]])+
qed

section \<open>Completeness: what is in the grammar is accepted, given the fuel\<close>

definition gives :: "'a outcome \<Rightarrow> 'a \<Rightarrow> nat \<Rightarrow> bool" where
  "gives r x j \<longleftrightarrow> r = NoFuel \<or> r = Done x j"

lemma gives_bind: "gives (p ts i) x j \<Longrightarrow> gives (f x ts j) y k \<Longrightarrow> gives (pbind p f ts i) y k"
  by (auto simp: gives_def pbind_def)

lemma gives_Done: "r = Done x j \<Longrightarrow> gives r x j"
  by (simp add: gives_def)

lemma tok_at_unique: "tok_at ts t i \<Longrightarrow> tok_at ts u i \<Longrightarrow> u = t"
  by (simp add: tok_at_def)

lemma tok_at_other: "tok_at ts t i \<Longrightarrow> u \<noteq> t \<Longrightarrow> \<not> tok_at ts u i"
  by (simp add: tok_at_def)

lemmas iffs = pbind_def ret_def consume_iff consume_text_iff match_iff branch_iff

text \<open>What can follow a query, its limit, its order and its grouping.\<close>

definition ends :: "token list \<Rightarrow> nat \<Rightarrow> bool" where
  "ends ts j \<longleftrightarrow> tok_at ts TOKEN_SEMICOLON j \<or> tok_at ts TOKEN_RPAREN j"

lemma item_complete: "wf_tokens ts \<Longrightarrow> item_g ts i x j \<Longrightarrow> parse_select_item ts i = Done x j"
  by (erule item_g.cases)
    (auto simp: parse_select_item_def parse_func_def iffs aggregates_def tok_at_other)

lemma comma_list_complete:
  assumes "wf_tokens ts" and "\<And>i x j. R i x j \<Longrightarrow> tok_at ts TOKEN_COMMA j \<or> j = l \<Longrightarrow> p ts i = Done x j"
    and "items ts R i xs l" and "\<not> tok_at ts TOKEN_COMMA l"
  shows "gives (comma_list n p ts i) xs l"
  using assms(3,2,4)
proof (induction arbitrary: n)
  case (items_one i x j)
  show ?case
  proof (cases n)
    case (Suc m)
    then show ?thesis using items_one.prems(2) items_one.prems(1) [OF items_one.hyps(1)]
      by (simp add: gives_def iffs assms(1))
  qed (simp add: gives_def fail_with_def)
next
  case (items_more i x j xs k)
  show ?case
  proof (cases n)
    case (Suc m)
    have p: "p ts i = Done x j" using items_more.prems(1) [OF items_more.hyps(1)] items_more.hyps(2) by blast
    have "gives (comma_list m p ts (Suc j)) xs k" using items_more.IH items_more.prems by blast
    then show ?thesis using Suc p items_more.hyps(2) by (auto simp: gives_def iffs assms(1))
  qed (simp add: gives_def fail_with_def)
qed

lemma columns_complete:
  assumes "wf_tokens ts" and "columns_g ts i xs j" and "tok_at ts TOKEN_KW_FROM j"
  shows "gives (parse_select_list n ts i) xs j"
  using assms(2)
proof cases
  case columns_star
  then show ?thesis using assms(1) by (simp add: parse_select_list_def iffs gives_def)
next
  case columns_items
  have "\<not> tok_at ts TOKEN_STAR i"
    using columns_items by cases (auto elim!: item_g.cases simp: aggregates_def tok_at_other)
  moreover have "gives (comma_list n parse_select_item ts i) xs j"
    by (rule comma_list_complete [OF assms(1) _ columns_items]) (use assms in \<open>auto simp: item_complete tok_at_other\<close>)
  ultimately show ?thesis using assms(1) by (simp add: parse_select_list_def branch_iff)
qed

lemma columns_first: "columns_g ts i xs j \<Longrightarrow> \<not> tok_at ts TOKEN_KW_KARO i"
proof (induction rule: columns_g.induct)
  case (columns_items i xs j)
  then show ?case by cases (auto elim!: item_g.cases simp: aggregates_def tok_at_other)
qed (simp add: tok_at_other)

lemma limit_complete: "wf_tokens ts \<Longrightarrow> limit_g ts i x j \<Longrightarrow> ends ts j \<Longrightarrow> parse_limit ts i = Done x j"
  by (erule limit_g.cases) (auto simp: parse_limit_def iffs ends_def tok_at_other)

lemma limit_first: "limit_g ts i x j \<Longrightarrow> ends ts j \<Longrightarrow> ends ts i \<or> tok_at ts TOKEN_KW_LIMIT i"
  by (auto elim: limit_g.cases)

lemma order_item_complete:
  "wf_tokens ts \<Longrightarrow> order_item_g ts i x j \<Longrightarrow> \<not> tok_at ts TOKEN_KW_ASC j \<Longrightarrow> \<not> tok_at ts TOKEN_KW_DESC j \<Longrightarrow>
   parse_order_item ts i = Done x j"
  by (erule order_item_g.cases) (auto simp: parse_order_item_def iffs tok_at_other)

lemma order_complete:
  assumes "wf_tokens ts" and "order_g ts i xs j" and "ends ts j \<or> tok_at ts TOKEN_KW_LIMIT j"
  shows "gives (parse_order n ts i) xs j"
  using assms(2)
proof cases
  case order_none
  then show ?thesis using assms by (auto simp: parse_order_def iffs gives_def ends_def tok_at_other)
next
  case order_by
  have "gives (comma_list n parse_order_item ts (Suc (Suc i))) xs j"
    by (rule comma_list_complete [OF assms(1) _ order_by(3)])
      (use assms in \<open>auto simp: ends_def tok_at_other intro!: order_item_complete\<close>)
  then show ?thesis using order_by(1,2) assms(1) by (simp add: parse_order_def iffs)
qed

lemma order_first:
  "order_g ts i xs j \<Longrightarrow> ends ts j \<or> tok_at ts TOKEN_KW_LIMIT j \<Longrightarrow>
   ends ts i \<or> tok_at ts TOKEN_KW_LIMIT i \<or> tok_at ts TOKEN_KW_ORDER i"
  by (auto elim: order_g.cases)

lemma group_complete:
  "wf_tokens ts \<Longrightarrow> group_g ts i x j \<Longrightarrow> ends ts j \<or> tok_at ts TOKEN_KW_LIMIT j \<or> tok_at ts TOKEN_KW_ORDER j \<Longrightarrow>
   parse_group ts i = Done x j"
  by (erule group_g.cases) (auto simp: parse_group_def iffs ends_def tok_at_other)

lemma group_first:
  "group_g ts i x j \<Longrightarrow> ends ts j \<or> tok_at ts TOKEN_KW_LIMIT j \<or> tok_at ts TOKEN_KW_ORDER j \<Longrightarrow>
   ends ts i \<or> (\<exists>t \<in> {TOKEN_KW_LIMIT, TOKEN_KW_ORDER, TOKEN_KW_GROUP}. tok_at ts t i)"
  by (auto elim: group_g.cases)

text \<open>A chain read so far is where the loop goes on from.\<close>

definition reaches :: "'a outcome \<Rightarrow> (nat \<Rightarrow> 'a outcome) \<Rightarrow> bool" where
  "reaches r loop \<longleftrightarrow> r = NoFuel \<or> (\<exists>m. r = loop m)"

lemma and_loop_stops: "wf_tokens ts \<Longrightarrow> \<not> tok_at ts TOKEN_KW_AND j \<Longrightarrow> gives (and_loop m e ts j) e j"
  by (cases m) (auto simp: gives_def fail_with_def iffs)

lemma or_loop_stops: "wf_tokens ts \<Longrightarrow> \<not> tok_at ts TOKEN_KW_OR j \<Longrightarrow> gives (or_loop m e ts j) e j"
  by (cases m) (auto simp: gives_def fail_with_def iffs)

lemma and_chain_ends:
  "wf_tokens ts \<Longrightarrow> reaches r (\<lambda>m. and_loop m e ts j) \<Longrightarrow> \<not> tok_at ts TOKEN_KW_AND j \<Longrightarrow> gives r e j"
  using and_loop_stops unfolding reaches_def gives_def by metis

lemma or_chain_ends:
  "wf_tokens ts \<Longrightarrow> reaches r (\<lambda>m. or_loop m e ts j) \<Longrightarrow> \<not> tok_at ts TOKEN_KW_OR j \<Longrightarrow> gives r e j"
  using or_loop_stops unfolding reaches_def gives_def by metis

lemma and_loop_step:
  assumes "wf_tokens ts" and "tok_at ts TOKEN_KW_AND j" and "\<And>n. gives (parse_comparison n ts (Suc j)) r k"
  shows "reaches (and_loop m l ts j) (\<lambda>m. and_loop m (EXPR_BINARY l ''AND'' r) ts k)"
proof (cases m)
  case (Suc n)
  then show ?thesis using assms(1,2) assms(3) [of n] by (auto simp: reaches_def gives_def iffs)
qed (simp add: reaches_def fail_with_def)

lemma or_loop_step:
  assumes "wf_tokens ts" and "tok_at ts TOKEN_KW_OR j" and "\<And>n. gives (parse_logical_and n ts (Suc j)) r k"
  shows "reaches (or_loop m l ts j) (\<lambda>m. or_loop m (EXPR_BINARY l ''OR'' r) ts k)"
proof (cases m)
  case (Suc n)
  then show ?thesis using assms(1,2) assms(3) [of n] by (auto simp: reaches_def gives_def iffs)
qed (simp add: reaches_def fail_with_def)

lemma reaches_trans: "reaches r f \<Longrightarrow> (\<And>m. reaches (f m) g) \<Longrightarrow> reaches r g"
  by (auto simp: reaches_def)

lemma and_starts:
  assumes "\<And>n. gives (parse_comparison n ts i) e j"
  shows "reaches (parse_logical_and n ts i) (\<lambda>m. and_loop m e ts j)"
proof (cases n)
  case (Suc m)
  then show ?thesis using assms [of m] by (auto simp: reaches_def gives_def pbind_def)
qed (simp add: reaches_def fail_with_def)

lemma or_starts:
  assumes "\<And>n. gives (parse_logical_and n ts i) e j"
  shows "reaches (parse_logical_or n ts i) (\<lambda>m. or_loop m e ts j)"
proof (cases n)
  case (Suc m)
  then show ?thesis using assms [of m] by (auto simp: reaches_def gives_def pbind_def)
qed (simp add: reaches_def fail_with_def)

lemma expression_gives:
  assumes "\<And>n. gives (parse_logical_or n ts i) e j"
  shows "gives (parse_expression n ts i) e j"
  using assms by (cases n) (auto simp: gives_def fail_with_def)

lemma paren_complete:
  assumes "wf_tokens ts" and "tok_at ts TOKEN_LPAREN i" and "\<And>n. gives (parse_expression n ts (Suc i)) e j"
    and "tok_at ts TOKEN_RPAREN j"
  shows "gives (parse_comparison n ts i) e (Suc j)"
proof (cases n)
  case (Suc m)
  then show ?thesis using assms(1,2,4) assms(3) [of m] by (auto simp: gives_def iffs)
qed (simp add: gives_def fail_with_def)

lemma operator_complete:
  assumes "wf_tokens ts" and "tok_at ts t i" and "t \<in> set tys" and "TOKEN_EOF \<notin> set tys" and "\<forall>t\<in>set tys. has_text t"
  shows "text_of (consume_one_of tys r) ts i = Done (lexeme ts i) (Suc i)"
  using assms(2,3) by (auto simp: text_one_of_iff [OF assms(1,4,5)])

lemma literal_complete:
  assumes "wf_tokens ts" and "tok_at ts TOKEN_IDENTIFIER i" and "tok_at ts t (Suc i)" and "t \<in> {TOKEN_EQUALS, TOKEN_GT, TOKEN_LT}"
    and "tok_at ts u (Suc (Suc i))" and "u \<in> {TOKEN_INT_LITERAL, TOKEN_STRING, TOKEN_FLOAT_LITERAL}"
  shows "gives (parse_comparison n ts i)
     (EXPR_BINARY (EXPR_IDENTIFIER (lexeme ts i)) (lexeme ts (Suc i)) (EXPR_LITERAL (lexeme ts (Suc (Suc i))))) (Suc (Suc (Suc i)))"
proof (cases n)
  case (Suc m)
  have op: "text_of (consume_one_of [TOKEN_EQUALS, TOKEN_GT, TOKEN_LT] Exits) ts (Suc i) = Done (lexeme ts (Suc i)) (Suc (Suc i))"
    by (rule operator_complete [OF assms(1,3)]) (use assms(4) in auto)
  have v: "text_of (consume_one_of [TOKEN_INT_LITERAL, TOKEN_STRING, TOKEN_FLOAT_LITERAL] Exits) ts (Suc (Suc i)) =
      Done (lexeme ts (Suc (Suc i))) (Suc (Suc (Suc i)))"
    by (rule operator_complete [OF assms(1,5)]) (use assms(6) in auto)
  have "\<not> tok_at ts TOKEN_LPAREN i" "\<not> tok_at ts TOKEN_LPAREN (Suc (Suc i))"
    using assms(2,5,6) by (auto simp: tok_at_other)
  then show ?thesis
    using assms(1,2) Suc by (simp add: gives_def iffs op v del: consume_one_of.simps)
qed (simp add: gives_def fail_with_def)

lemma subquery_complete:
  assumes "wf_tokens ts" and "tok_at ts TOKEN_IDENTIFIER i" and "tok_at ts t (Suc i)" and "t \<in> {TOKEN_EQUALS, TOKEN_GT, TOKEN_LT}"
    and "tok_at ts TOKEN_LPAREN (Suc (Suc i))" and "tok_at ts TOKEN_KW_SELECT (Suc (Suc (Suc i)))"
    and "\<And>n. gives (parse_select n True ts (Suc (Suc (Suc i)))) s j" and "tok_at ts TOKEN_RPAREN j"
  shows "gives (parse_comparison n ts i)
     (EXPR_BINARY (EXPR_IDENTIFIER (lexeme ts i)) (lexeme ts (Suc i)) (EXPR_SUBQUERY s)) (Suc j)"
proof (cases n)
  case (Suc m)
  have op: "text_of (consume_one_of [TOKEN_EQUALS, TOKEN_GT, TOKEN_LT] Exits) ts (Suc i) = Done (lexeme ts (Suc i)) (Suc (Suc i))"
    by (rule operator_complete [OF assms(1,3)]) (use assms(4) in auto)
  have peek: "peek_type ts (Suc (Suc i)) = Done TOKEN_KW_SELECT (Suc (Suc i))"
    using assms(6) by (simp add: peek_type_def tok_at_def)
  have "\<not> tok_at ts TOKEN_LPAREN i" using assms(2) by (simp add: tok_at_other)
  then show ?thesis
    using assms(1,2,5,8) assms(7) [of m] Suc
    by (auto simp: gives_def iffs op peek simp del: consume_one_of.simps)
qed (simp add: gives_def fail_with_def)

abbreviation parse_condition :: "nat \<Rightarrow> bool \<Rightarrow> sql_expr option parser" where
  "parse_condition n b \<equiv> (if b then pbind (parse_expression n) (\<lambda>e. ret (Some e)) else ret None)"

lemma select_complete:
  assumes wf: "wf_tokens ts" and head: "tok_at ts TOKEN_KW_SELECT i"
    and karo: "i1 = Suc i \<or> tok_at ts TOKEN_KW_KARO (Suc i) \<and> i1 = Suc (Suc i)"
    and cols: "columns_g ts i1 cols i2" and table: "tok_at ts TOKEN_KW_FROM i2" "tok_at ts TOKEN_IDENTIFIER (Suc i2)"
    and w: "match TOKEN_KW_JAHAN ts (Suc (Suc i2)) = Done b i3" "\<And>n. gives (parse_condition n b ts i3) w i4"
    and g: "group_g ts i4 g i5" and os: "order_g ts i5 os i6" and lim: "limit_g ts i6 (lim, off) j"
    and end_: "tok_at ts (if sub then TOKEN_RPAREN else TOKEN_SEMICOLON) j"
  shows "gives (parse_select n sub ts i) (Select (lexeme ts (Suc i2)) cols w g os lim off) (if sub then j else Suc j)"
proof (cases n)
  case (Suc m)
  have e: "ends ts j" using end_ by (auto simp: ends_def split: if_splits)
  note f1 = limit_first [OF lim e] note f2 = order_first [OF os f1]
  have k: "skip_if TOKEN_KW_KARO ts (Suc i) = Done () i1"
    using karo columns_first [OF cols] by (auto simp: iffs wf)
  have "gives (consume TOKEN_KW_SELECT ts i) (ts ! i) (Suc i)" "gives (skip_if TOKEN_KW_KARO ts (Suc i)) () i1"
    "gives (consume TOKEN_KW_FROM ts i2) (ts ! i2) (Suc i2)"
    "gives (consume_text TOKEN_IDENTIFIER ts (Suc i2)) (lexeme ts (Suc i2)) (Suc (Suc i2))"
    "gives (match TOKEN_KW_JAHAN ts (Suc (Suc i2))) b i3"
    "gives (parse_group ts i4) g i5" "gives (parse_limit ts i6) (lim, off) j"
    using head table k w(1) group_complete [OF wf g f2] limit_complete [OF wf lim e]
    by (simp_all add: gives_Done consume_iff consume_text_iff wf iffs)
  moreover have "gives ((if sub then ret () else pthen (consume TOKEN_SEMICOLON) (ret ())) ts j) () (if sub then j else Suc j)"
    using end_ by (cases sub) (simp_all add: gives_Done wf iffs)
  note steps = calculation this columns_complete [OF wf cols table(1), of m] order_complete [OF wf os f1, of m] w(2)
  show ?thesis
    unfolding Suc parse_select.simps
    by (rule gives_bind, rule steps)+ (simp only: prod.case, rule gives_bind, rule steps, simp add: gives_def ret_def)
qed (simp add: gives_def fail_with_def)


definition follows :: "token list \<Rightarrow> nat \<Rightarrow> bool" where
  "follows ts j \<longleftrightarrow> ends ts j \<or> (\<exists>t \<in> {TOKEN_KW_LIMIT, TOKEN_KW_ORDER, TOKEN_KW_GROUP}. tok_at ts t j)"

lemma follows_not:
  "follows ts j \<Longrightarrow> \<not> tok_at ts TOKEN_KW_AND j \<and> \<not> tok_at ts TOKEN_KW_OR j \<and> \<not> tok_at ts TOKEN_KW_JAHAN j"
  by (auto simp: follows_def ends_def tok_at_other)

lemma tail_first:
  "group_g ts i3 g i4 \<Longrightarrow> order_g ts i4 os i5 \<Longrightarrow> limit_g ts i5 lo j \<Longrightarrow> ends ts j \<Longrightarrow> follows ts i3"
  using group_first order_first limit_first unfolding follows_def by blast

lemma grammar_complete:
  assumes wf: "wf_tokens ts"
  shows "select_g ts i s j \<Longrightarrow> tok_at ts TOKEN_KW_SELECT i \<and>
      (\<forall>n sub. tok_at ts (if sub then TOKEN_RPAREN else TOKEN_SEMICOLON) j \<longrightarrow>
         gives (parse_select n sub ts i) s (if sub then j else Suc j))"
    and "where_g ts i w j \<Longrightarrow> follows ts j \<longrightarrow>
      (\<exists>b k. match TOKEN_KW_JAHAN ts i = Done b k \<and> (\<forall>n. gives (parse_condition n b ts k) w j))"
    and "or_g ts i e j \<Longrightarrow> \<not> tok_at ts TOKEN_KW_AND j \<longrightarrow> (\<forall>n. reaches (parse_logical_or n ts i) (\<lambda>m. or_loop m e ts j))"
    and "and_g ts i e j \<Longrightarrow> \<forall>n. reaches (parse_logical_and n ts i) (\<lambda>m. and_loop m e ts j)"
    and "cmp_g ts i e j \<Longrightarrow> \<forall>n. gives (parse_comparison n ts i) e j"
proof (induction rule: select_g_where_g_or_g_and_g_cmp_g.inducts)
  case (select_all i i1 cols i2 w i3 g i4 os i5 lim off j)
  have "gives (parse_select n sub ts i) (Select (lexeme ts (Suc i2)) cols w g os lim off) (if sub then j else Suc j)"
    if "tok_at ts (if sub then TOKEN_RPAREN else TOKEN_SEMICOLON) j" for n sub
  proof -
    have "ends ts j" using that by (auto simp: ends_def split: if_splits)
    then have "follows ts i3" using tail_first select_all by blast
    then obtain b k where "match TOKEN_KW_JAHAN ts (Suc (Suc i2)) = Done b k" "\<And>n. gives (parse_condition n b ts k) w i3"
      using select_all by blast
    from select_complete [OF wf select_all(1-5) this] that select_all show ?thesis by blast
  qed
  then show ?case using select_all by blast
next
  case (where_none i)
  then show ?case using follows_not by (auto simp: iffs wf gives_def)
next
  case (where_some i e j)
  have "gives (parse_condition n True ts (Suc i)) (Some e) j" if "follows ts j" for n
  proof -
    have "gives (parse_expression n ts (Suc i)) e j"
      by (rule expression_gives) (use where_some follows_not [OF that] or_chain_ends [OF wf] in blast)
    then show ?thesis by (auto simp: gives_def pbind_def ret_def)
  qed
  then show ?case using where_some by (auto simp: match_iff wf)
next
  case (or_and i e j)
  then show ?case using or_starts and_chain_ends [OF wf] by blast
next
  case (or_or i l j r k)
  have "\<not> tok_at ts TOKEN_KW_AND j" using or_or by (simp add: tok_at_other)
  then show ?case
    using or_or reaches_trans or_loop_step [OF wf or_or(3)] and_chain_ends [OF wf] by meson
next
  case (and_cmp i e j)
  then show ?case using and_starts by blast
next
  case (and_and i l j r k)
  then show ?case using reaches_trans and_loop_step [OF wf and_and(3)] by meson
next
  case (cmp_paren i e j)
  have "gives (parse_expression n ts (Suc i)) e j" for n
    by (rule expression_gives) (use cmp_paren or_chain_ends [OF wf] in \<open>auto simp: tok_at_other\<close>)
  then show ?case using paren_complete [OF wf] cmp_paren by blast
next
  case (cmp_literal i t u)
  then show ?case using literal_complete [OF wf] by blast
next
  case (cmp_subquery i t s j)
  have "gives (parse_select n True ts (Suc (Suc (Suc i)))) s j" for n
    using cmp_subquery by (metis (full_types))
  then show ?case using subquery_complete [OF wf] cmp_subquery by blast
qed

section \<open>No other statement gives a query\<close>

definition no_query :: "ast_node parser \<Rightarrow> bool" where
  "no_query p \<longleftrightarrow> (\<forall>ts i s j. p ts i \<noteq> Done (NODE_CMD_SELECT s) j)"

lemma no_query_bind: "(\<And>x. no_query (f x)) \<Longrightarrow> no_query (pbind p f)"
  by (simp add: no_query_def pbind_Done_iff)

lemma no_query_branch: "no_query p \<Longrightarrow> no_query q \<Longrightarrow> no_query (branch t p q)" "no_query p \<Longrightarrow> no_query q \<Longrightarrow> no_query (next_is t p q)"
  by (simp_all add: no_query_def branch_def next_is_def)

lemma no_query_case: "(\<And>x y. no_query (f x y)) \<Longrightarrow> no_query (case z of (x, y) \<Rightarrow> f x y)"
  "no_query p \<Longrightarrow> no_query q \<Longrightarrow> no_query (if b then p else q)"
  by (simp_all split: prod.split)

lemma no_query_ret: "\<forall>s. x \<noteq> NODE_CMD_SELECT s \<Longrightarrow> no_query (ret x)" "no_query (fail_with ParseError)"
  by (simp_all add: no_query_def ret_def fail_with_def)

lemmas no_queries = no_query_bind no_query_branch no_query_case no_query_ret

lemma no_query_statements:
  "no_query parse_use_db" "no_query (parse_create n)" "no_query parse_show_dbs" "no_query parse_show_tables"
  "no_query parse_create_user" "no_query parse_create_db" "no_query parse_drop_db" "no_query parse_drop_table"
  "no_query (parse_create_table n)" "no_query (parse_insert n)" "no_query parse_dhundo" "no_query (parse_doc_insert n)"
  "no_query parse_doc_get" "no_query parse_doc_remove" "no_query (parse_delete n)" "no_query (parse_update n)"
  "no_query parse_drop" "no_query parse_checkpoint" "no_query parse_create_index" "no_query parse_begin" "no_query parse_commit"
  "no_query parse_rollback" "no_query parse_savepoint" "no_query parse_release_savepoint" "no_query (parse_alter_table n)"
  "no_query parse_backup" "no_query parse_restore" "no_query parse_export" "no_query parse_import" "no_query (parse_find n)"
  "no_query (parse_upsert n)" "no_query (parse_aggregate n)"
  unfolding parse_use_db_def parse_create_def parse_create_collection_def parse_show_dbs_def parse_show_tables_def parse_create_user_def
    parse_create_db_def parse_drop_db_def parse_drop_table_def parse_create_table_def parse_insert_def parse_dhundo_def
    parse_doc_insert_def parse_doc_get_def parse_doc_remove_def parse_delete_def parse_update_def parse_drop_def parse_checkpoint_def
    parse_create_index_def parse_begin_def parse_commit_def parse_rollback_def parse_savepoint_def parse_release_savepoint_def
    parse_alter_table_def parse_add_column_def parse_add_constraint_def parse_backup_def parse_restore_def parse_export_def
    parse_import_def parse_find_def parse_upsert_def parse_aggregate_def
  by (intro no_queries; simp)+

lemma statement_query:
  assumes "map_of (statement_table n) t = Some p" and "t \<noteq> TOKEN_KW_SELECT"
  shows "no_query p"
  using assms by (auto simp: statement_table_def split: if_splits intro!: no_queries no_query_statements)

lemma parse_query_head:
  assumes "wf_tokens ts" and "parse ts = Done (NODE_CMD_SELECT s) j"
  shows "tok_at ts TOKEN_KW_SELECT 0"
proof (rule ccontr)
  assume "\<not> ?thesis"
  then have t: "tk_type (current_token ts 0) \<noteq> TOKEN_KW_SELECT" using assms(1) by (simp add: at_current)
  show False
    using assms(2) statement_query [OF _ t]
    by (auto simp: parse_def parse_statement_def dispatch_cases no_query_def fail_with_def split: option.splits)
qed

lemma parse_select_statement:
  assumes "wf_tokens ts" and "tok_at ts TOKEN_KW_SELECT 0"
  shows "parse ts = pbind (parse_select (enough_fuel ts) False) (\<lambda>s. ret (NODE_CMD_SELECT s)) ts 0"
proof -
  have "tk_type (current_token ts 0) = TOKEN_KW_SELECT" using assms by (simp add: at_current)
  then show ?thesis by (simp add: parse_def parse_statement_def dispatch_cases statement_table_def branch_def)
qed

lemma query_grammar:
  assumes "wf_tokens ts"
  shows "parse ts = Done (NODE_CMD_SELECT s) j \<longleftrightarrow> (\<exists>k. select_g ts 0 s k \<and> tok_at ts TOKEN_SEMICOLON k \<and> j = Suc k)"
proof
  assume p: "parse ts = Done (NODE_CMD_SELECT s) j"
  with parse_select_statement [OF assms parse_query_head [OF assms p]]
  have "pbind (parse_select (enough_fuel ts) False) (\<lambda>s. ret (NODE_CMD_SELECT s)) ts 0 = Done (NODE_CMD_SELECT s) j" by simp
  then have "parse_select (enough_fuel ts) False ts 0 = Done s j" by (auto simp: pbind_Done_iff ret_Done_iff)
  then show "\<exists>k. select_g ts 0 s k \<and> tok_at ts TOKEN_SEMICOLON k \<and> j = Suc k"
    using sound_atD(1) [OF sound_at [OF assms]] by fastforce
next
  assume "\<exists>k. select_g ts 0 s k \<and> tok_at ts TOKEN_SEMICOLON k \<and> j = Suc k"
  then obtain k where k: "select_g ts 0 s k" "tok_at ts TOKEN_SEMICOLON k" "j = Suc k" by blast
  note c = grammar_complete(1) [OF assms k(1)]
  have head: "tok_at ts TOKEN_KW_SELECT 0" using c by blast
  have g: "gives (parse_select (enough_fuel ts) False ts 0) s (Suc k)"
    using conjunct2 [OF c, rule_format, of False] k(2) by simp
  have "parse_select (enough_fuel ts) False ts 0 \<noteq> NoFuel"
    using pspecD [OF select_ok [of "length ts"] assms, of "enough_fuel ts" 0 True False] assms
    by (auto simp: enough_fuel_def wf_tokens_def)
  with g show "parse ts = Done (NODE_CMD_SELECT s) j"
    using parse_select_statement [OF assms head] k(3) by (simp add: gives_def pbind_def ret_def)
qed

section \<open>Properties\<close>

text \<open>C6: for every input, the parser answers with a query exactly when the tokens of the input begin with a
  \<open>SELECT\<close> of the grammar and its semicolon, and the answer is the tree of the derivation; the loops, the
  look-ahead and the recursion of the code implement the grammar.\<close>

theorem parse_select_iff_grammar:
  "let ts = tokenize input in
   parse ts = Done (NODE_CMD_SELECT s) j \<longleftrightarrow> (\<exists>k. select_g ts 0 s k \<and> tok_at ts TOKEN_SEMICOLON k \<and> j = Suc k)"
  using query_grammar [OF wf_tokenize] by (simp add: Let_def)

declare One_nat_def [simp]

end
