(* ===== verification/LexerRoundtrip.thy ===== *)
theory LexerRoundtrip
  imports Lexer
begin

text \<open>
  Writing tokens back as SQL text and reading the text again: \<open>tokenize\<close> of \<open>src/lexer.c\<close> gives the
  tokens that were written, all on line 1.
\<close>

section \<open>Text of a token\<close>

definition keyword_text :: "token_type \<Rightarrow> string" where
  "keyword_text t =
     (case List.find (\<lambda>(k, u). u = t \<and> check_keyword k = t) keyword_table of Some (k, u) \<Rightarrow> k | None \<Rightarrow> [])"

definition escape_text :: "string \<Rightarrow> string" where
  "escape_text s = concat (map (\<lambda>c. if c = double_quote \<or> c = backslash then [backslash, c] else [c]) s)"

definition token_text :: "token \<Rightarrow> string" where
  "token_text t =
     (case tk_value t of
        None \<Rightarrow> keyword_text (tk_type t)
      | Some v \<Rightarrow> if tk_type t = TOKEN_STRING then double_quote # escape_text v @ [double_quote] else v)"

definition render :: "token list \<Rightarrow> string" where
  "render ts = concat (map (\<lambda>t. token_text t @ '' '') ts)"

definition printable_text :: "token_type \<Rightarrow> string \<Rightarrow> bool" where
  "printable_text t v \<longleftrightarrow>
     t = TOKEN_STRING \<or>
     t = TOKEN_IDENTIFIER \<and> v \<noteq> [] \<and> (is_alpha (hd v) \<or> hd v = CHR ''_'') \<and> list_all is_word_char v \<and>
       check_keyword v = TOKEN_IDENTIFIER \<or>
     t \<in> {TOKEN_INT_LITERAL, TOKEN_FLOAT_LITERAL} \<and> v \<noteq> [] \<and> is_digit (hd v) \<and> list_all is_number_char v \<and>
       (t = TOKEN_FLOAT_LITERAL \<longleftrightarrow> CHR ''.'' \<in> set v) \<or>
     length v = 1 \<and> symbol_type (hd v) = Some t"

definition printable :: "token \<Rightarrow> bool" where
  "printable t \<longleftrightarrow>
     (case tk_value t of
        None \<Rightarrow> List.find (\<lambda>(k, u). u = tk_type t \<and> check_keyword k = tk_type t) keyword_table \<noteq> None
      | Some v \<Rightarrow> printable_text (tk_type t) v)"

section \<open>Characters\<close>

definition specials :: "char set" where
  "specials = set [CHR '' '', CHR 0x09, CHR 0x0A, CHR 0x0B, CHR 0x0C, CHR 0x0D, CHR ''('', CHR '')'', CHR 0x7B, CHR 0x7D,
     CHR ''['', CHR '']'', CHR '','', CHR '';'', CHR ''='', CHR '':'', CHR ''>'', CHR ''<'', CHR ''*'', double_quote, single_quote]"

lemma special_chars: "\<forall>c \<in> specials. \<not> is_alpha c \<and> c \<noteq> CHR ''_'' \<and> \<not> is_digit c"
  by (simp add: specials_def is_alpha_def is_digit_def)

lemma not_special:
  assumes "c \<notin> specials"
  shows "\<not> is_space c" "symbol_type c = None" "c \<noteq> double_quote" "c \<noteq> single_quote"
  using assms by (simp_all add: specials_def is_space_def symbol_type_def map_of_eq_None_iff)

lemma word_char_class:
  assumes "is_alpha c \<or> c = CHR ''_''"
  shows "\<not> is_space c" "symbol_type c = None" "c \<noteq> double_quote" "c \<noteq> single_quote" "\<not> is_digit c" "is_word_char c"
proof -
  have "c \<notin> specials" using assms special_chars by blast
  then show "\<not> is_space c" "symbol_type c = None" "c \<noteq> double_quote" "c \<noteq> single_quote" by (simp_all add: not_special)
  show "\<not> is_digit c" "is_word_char c" using assms by (auto simp: is_alpha_def is_digit_def is_word_char_def Let_def)
qed

lemma digit_class:
  assumes "is_digit c"
  shows "\<not> is_space c" "symbol_type c = None" "c \<noteq> double_quote" "c \<noteq> single_quote" "is_number_char c"
proof -
  have "c \<notin> specials" using assms special_chars by blast
  then show "\<not> is_space c" "symbol_type c = None" "c \<noteq> double_quote" "c \<noteq> single_quote" by (simp_all add: not_special)
  show "is_number_char c" using assms by (simp add: is_number_char_def)
qed

lemma symbol_class: "symbol_type c = Some t \<Longrightarrow> \<not> is_space c"
proof -
  have "\<forall>c \<in> {CHR '' '', CHR 0x09, CHR 0x0A, CHR 0x0B, CHR 0x0C, CHR 0x0D}. symbol_type c = None"
    by (simp add: symbol_type_def)
  then show "symbol_type c = Some t \<Longrightarrow> \<not> is_space c" by (auto simp: is_space_def)
qed

lemma blank_class: "is_space CHR '' ''" "\<not> is_word_char CHR '' ''" "\<not> is_number_char CHR '' ''" "CHR '' '' \<noteq> newline"
  by (simp_all add: is_space_def is_word_char_def is_number_char_def is_alpha_def is_digit_def)

lemma takeWhile_stop: "list_all P w \<Longrightarrow> \<not> P c \<Longrightarrow> takeWhile P (w @ c # rest) = w"
  by (induction w) auto

lemma dropWhile_stop: "list_all P w \<Longrightarrow> \<not> P c \<Longrightarrow> dropWhile P (w @ c # rest) = c # rest"
  by (induction w) auto

section \<open>One token\<close>

lemma lex_blank: "lex_loop l (CHR '' '' # rest) = lex_loop l rest"
  by (simp add: blank_class)

lemma lex_word:
  assumes "w \<noteq> []" and "is_alpha (hd w) \<or> hd w = CHR ''_''" and "list_all is_word_char w"
  shows "lex_loop l (w @ CHR '' '' # rest) = word_token w l # lex_loop l rest"
proof -
  obtain c cs where w: "w = c # cs" using assms(1) by (cases w) auto
  with assms have c: "is_alpha c \<or> c = CHR ''_''" and cs: "list_all is_word_char cs" by auto
  show ?thesis
    using c by (simp add: w word_char_class [OF c] takeWhile_stop [OF cs] dropWhile_stop [OF cs] blank_class)
qed

lemma lex_number:
  assumes "w \<noteq> []" and "is_digit (hd w)" and "list_all is_number_char w"
  shows "lex_loop l (w @ CHR '' '' # rest) = number_token w l # lex_loop l rest"
proof -
  obtain c cs where w: "w = c # cs" using assms(1) by (cases w) auto
  with assms have c: "is_digit c" and cs: "list_all is_number_char cs" by auto
  show ?thesis
    using c by (simp add: w digit_class [OF c] takeWhile_stop [OF cs] dropWhile_stop [OF cs] blank_class)
qed

lemma lex_symbol: "symbol_type c = Some t \<Longrightarrow> lex_loop l (c # rest) = make_token t (Some [c]) l # lex_loop l rest"
  by (simp add: symbol_class)

lemma string_body_escape:
  "string_body double_quote (escape_text s @ double_quote # rest) = (s, double_quote # rest)"
  by (induction s) (auto simp: escape_text_def escape_char_def)

lemma lex_string:
  "lex_loop l (double_quote # escape_text s @ double_quote # rest) = make_token TOKEN_STRING (Some s) l # lex_loop l rest"
  by (simp add: string_body_escape is_space_def symbol_type_def)

text \<open>Evaluating \<open>check_keyword\<close> on a concrete word.\<close>

lemma strcasecmp_Cons:
  "strcasecmp_eq (a # as) (b # bs) = (to_lower a = to_lower b \<and> strcasecmp_eq as bs)"
  "strcasecmp_eq [] [] = True" "strcasecmp_eq [] (b # bs) = False" "strcasecmp_eq (a # as) [] = False"
  by (simp_all add: strcasecmp_eq_def)

lemma to_lower_letters:
  "to_lower CHR ''A'' = CHR ''a''" "to_lower CHR ''B'' = CHR ''b''" "to_lower CHR ''C'' = CHR ''c''" "to_lower CHR ''D'' = CHR ''d''"
  "to_lower CHR ''E'' = CHR ''e''" "to_lower CHR ''F'' = CHR ''f''" "to_lower CHR ''G'' = CHR ''g''" "to_lower CHR ''H'' = CHR ''h''"
  "to_lower CHR ''I'' = CHR ''i''" "to_lower CHR ''J'' = CHR ''j''" "to_lower CHR ''K'' = CHR ''k''" "to_lower CHR ''L'' = CHR ''l''"
  "to_lower CHR ''M'' = CHR ''m''" "to_lower CHR ''N'' = CHR ''n''" "to_lower CHR ''O'' = CHR ''o''" "to_lower CHR ''P'' = CHR ''p''"
  "to_lower CHR ''Q'' = CHR ''q''" "to_lower CHR ''R'' = CHR ''r''" "to_lower CHR ''S'' = CHR ''s''" "to_lower CHR ''T'' = CHR ''t''"
  "to_lower CHR ''U'' = CHR ''u''" "to_lower CHR ''V'' = CHR ''v''" "to_lower CHR ''W'' = CHR ''w''" "to_lower CHR ''X'' = CHR ''x''"
  "to_lower CHR ''Y'' = CHR ''y''" "to_lower CHR ''Z'' = CHR ''z''" "to_lower CHR ''a'' = CHR ''a''" "to_lower CHR ''b'' = CHR ''b''"
  "to_lower CHR ''c'' = CHR ''c''" "to_lower CHR ''d'' = CHR ''d''" "to_lower CHR ''e'' = CHR ''e''" "to_lower CHR ''f'' = CHR ''f''"
  "to_lower CHR ''g'' = CHR ''g''" "to_lower CHR ''h'' = CHR ''h''" "to_lower CHR ''i'' = CHR ''i''" "to_lower CHR ''j'' = CHR ''j''"
  "to_lower CHR ''k'' = CHR ''k''" "to_lower CHR ''l'' = CHR ''l''" "to_lower CHR ''m'' = CHR ''m''" "to_lower CHR ''n'' = CHR ''n''"
  "to_lower CHR ''o'' = CHR ''o''" "to_lower CHR ''p'' = CHR ''p''" "to_lower CHR ''q'' = CHR ''q''" "to_lower CHR ''r'' = CHR ''r''"
  "to_lower CHR ''s'' = CHR ''s''" "to_lower CHR ''t'' = CHR ''t''" "to_lower CHR ''u'' = CHR ''u''" "to_lower CHR ''v'' = CHR ''v''"
  "to_lower CHR ''w'' = CHR ''w''" "to_lower CHR ''x'' = CHR ''x''" "to_lower CHR ''y'' = CHR ''y''" "to_lower CHR ''z'' = CHR ''z''"
  "to_lower CHR ''_'' = CHR ''_''"
  by code_simp+

lemmas keyword_eval = List.find.simps strcasecmp_Cons to_lower_letters prod.case char.inject if_False if_True simp_thms option.case

section \<open>Keywords\<close>

lemma keyword_words: "list_all (\<lambda>(k, t). k \<noteq> [] \<and> (is_alpha (hd k) \<or> hd k = CHR ''_'') \<and> list_all is_word_char k) keyword_table"
  by (simp add: keyword_table_def is_word_char_def is_alpha_def is_digit_def)

lemma keyword_text_ok:
  assumes "List.find (\<lambda>(k, u). u = t \<and> check_keyword k = t) keyword_table \<noteq> None"
  shows "keyword_text t \<noteq> []" "is_alpha (hd (keyword_text t)) \<or> hd (keyword_text t) = CHR ''_''"
    "list_all is_word_char (keyword_text t)" "check_keyword (keyword_text t) = t" "t \<noteq> TOKEN_IDENTIFIER"
proof -
  obtain k u where f: "List.find (\<lambda>(k, u). u = t \<and> check_keyword k = t) keyword_table = Some (k, u)" using assms by auto
  then have "(k, u) \<in> set keyword_table" "u = t" "check_keyword k = t"
    unfolding find_Some_iff by (metis nth_mem, auto)
  with f keyword_words keyword_table_types
  show "keyword_text t \<noteq> []" "is_alpha (hd (keyword_text t)) \<or> hd (keyword_text t) = CHR ''_''"
    "list_all is_word_char (keyword_text t)" "check_keyword (keyword_text t) = t" "t \<noteq> TOKEN_IDENTIFIER"
    by (auto simp: keyword_text_def list_all_iff)
qed

section \<open>Token sequences\<close>

definition on_line :: "nat \<Rightarrow> token \<Rightarrow> token" where
  "on_line l t = t\<lparr>tk_line := l\<rparr>"

lemma on_line_eq: "tk_type t = u \<Longrightarrow> tk_value t = v \<Longrightarrow> make_token u v l = on_line l t"
  by (simp add: make_token_def on_line_def)

lemma lex_token:
  assumes "printable t"
  shows "lex_loop l (token_text t @ CHR '' '' # rest) = on_line l t # lex_loop l rest"
proof (cases "tk_value t")
  case None
  with assms have f: "List.find (\<lambda>(k, u). u = tk_type t \<and> check_keyword k = tk_type t) keyword_table \<noteq> None"
    by (simp add: printable_def)
  note k = keyword_text_ok [OF f]
  show ?thesis
    using lex_word [OF k(1-3), of l rest] k(4,5) None
    by (simp add: token_text_def word_token_def on_line_eq)
next
  case (Some v)
  with assms consider
      "tk_type t = TOKEN_STRING"
    | "tk_type t = TOKEN_IDENTIFIER" "v \<noteq> []" "is_alpha (hd v) \<or> hd v = CHR ''_''" "list_all is_word_char v"
        "check_keyword v = TOKEN_IDENTIFIER"
    | "tk_type t = (if CHR ''.'' \<in> set v then TOKEN_FLOAT_LITERAL else TOKEN_INT_LITERAL)" "v \<noteq> []" "is_digit (hd v)"
        "list_all is_number_char v"
    | "length v = 1" "symbol_type (hd v) = Some (tk_type t)"
    by (auto simp: printable_def printable_text_def)
  then show ?thesis
  proof cases
    case 1
    then show ?thesis
      using Some lex_string [of l v "CHR '' '' # rest"] by (simp add: token_text_def lex_blank on_line_eq del: lex_loop.simps)
  next
    case 2
    then show ?thesis
      using Some lex_word [OF 2(2-4), of l rest] by (simp add: token_text_def word_token_def on_line_eq)
  next
    case 3
    then show ?thesis
      using Some lex_number [OF 3(2-4), of l rest] by (simp add: token_text_def number_token_def on_line_eq split: if_splits)
  next
    case 4
    then obtain c where v: "v = [c]" by (cases v) auto
    with 4 have c: "symbol_type c = Some (tk_type t)" by simp
    then have "tk_type t \<noteq> TOKEN_STRING" using symbol_type_ok by fastforce
    then show ?thesis
      using Some v lex_symbol [OF c, of l "CHR '' '' # rest"] by (simp add: token_text_def lex_blank on_line_eq del: lex_loop.simps)
  qed
qed

lemma lex_render: "list_all printable ts \<Longrightarrow> lex_loop l (render ts) = map (on_line l) ts @ [make_token TOKEN_EOF None l]"
proof (induction ts)
  case (Cons t ts)
  then show ?case using lex_token [of t l "render ts"] by (simp add: render_def del: lex_loop.simps)
qed (simp add: render_def)

section \<open>What the lexer produces can be written\<close>

lemma check_keyword_printable:
  assumes "check_keyword w \<noteq> TOKEN_IDENTIFIER"
  shows "List.find (\<lambda>(k, u). u = check_keyword w \<and> check_keyword k = check_keyword w) keyword_table \<noteq> None"
proof -
  obtain k t where f: "List.find (\<lambda>(k, t). strcasecmp_eq w k) keyword_table = Some (k, t)"
    using assms by (auto simp: check_keyword_def split: option.splits)
  then have kt: "(k, t) \<in> set keyword_table" "strcasecmp_eq w k" unfolding find_Some_iff by (metis nth_mem, auto)
  have "strcasecmp_eq w x = strcasecmp_eq k x" for x using kt(2) by (auto simp: strcasecmp_eq_def)
  then have "check_keyword k = check_keyword w" by (simp add: check_keyword_def)
  moreover have "check_keyword w = t" using f by (simp add: check_keyword_def)
  ultimately show ?thesis using kt(1) by (auto simp: find_None_iff simp del: not_None_eq)
qed

lemma word_token_printable:
  assumes "w \<noteq> []" and "is_alpha (hd w) \<or> hd w = CHR ''_''" and "list_all is_word_char w"
  shows "printable (word_token w l)"
  using assms check_keyword_printable [of w]
  by (auto simp: word_token_def printable_def printable_text_def Let_def make_token_def simp del: not_None_eq)

lemma number_token_printable:
  assumes "w \<noteq> []" and "is_digit (hd w)" and "list_all is_number_char w"
  shows "printable (number_token w l)"
  using assms by (auto simp: number_token_def printable_def printable_text_def make_token_def)

lemma list_all_takeWhile: "list_all P (takeWhile P xs)"
  by (induction xs) auto

lemma lex_printable: "list_all printable (butlast (lex_loop l cs))"
proof (induction l cs rule: lex_loop.induct)
  case (2 l c cs)
  have ne: "lex_loop l' xs \<noteq> []" for l' xs using wf_lex_loop [of l' xs] by (simp add: wf_tokens_def)
  have w: "is_alpha c \<or> c = CHR ''_'' \<Longrightarrow> printable (word_token (takeWhile is_word_char (c # cs)) l)"
    by (rule word_token_printable) (auto simp: word_char_class list_all_takeWhile)
  have n: "is_digit c \<Longrightarrow> printable (number_token (takeWhile is_number_char (c # cs)) l)"
    by (rule number_token_printable) (auto simp: digit_class list_all_takeWhile)
  have s: "symbol_type c = Some t \<Longrightarrow> printable (make_token t (Some [c]) l)" for t
    by (simp add: printable_def printable_text_def make_token_def)
  have str: "printable (make_token TOKEN_STRING (Some x) l)" for x
    by (simp add: printable_def printable_text_def make_token_def)
  obtain x rest where "string_body c cs = (x, rest)" by fastforce
  then show ?case
    using 2 w n s str ne
    by (cases "is_space c"; cases "symbol_type c"; cases "c = double_quote \<or> c = single_quote"; cases "is_digit c";
        cases "is_alpha c \<or> c = CHR ''_''") (simp_all del: takeWhile.simps)
qed simp

section \<open>Properties\<close>

text \<open>C35: whatever the input, writing out its tokens and reading that text again gives the same tokens, only
  their lines forgotten: nothing a token carries is lost or changed by the lexer, string escapes, keywords
  with several spellings and numbers included.\<close>

theorem tokenize_render_tokenize:
  "tokenize (render (butlast (tokenize input))) = map (on_line 1) (tokenize input)"
proof -
  have wf: "wf_tokens (tokenize input)" by (rule wf_tokenize)
  let ?e = "last (tokenize input)"
  have ne: "tokenize input \<noteq> []" and eof: "tk_type ?e = TOKEN_EOF" using wf by (auto simp: wf_tokens_def)
  have "\<forall>t \<in> set (tokenize input). (tk_value t \<noteq> None) = has_text (tk_type t)" using wf unfolding wf_tokens_def by blast
  then have "(tk_value ?e \<noteq> None) = has_text (tk_type ?e)" using last_in_set [OF ne] by (rule bspec)
  then have "tk_value ?e = None" by (simp add: eof has_text_def)
  then have "on_line 1 ?e = make_token TOKEN_EOF None 1" using eof on_line_eq by metis
  moreover have "map (on_line 1) (tokenize input) = map (on_line 1) (butlast (tokenize input)) @ [on_line 1 ?e]"
    using arg_cong [OF append_butlast_last_id [OF ne], of "map (on_line 1)"] by simp
  moreover have "list_all printable (butlast (tokenize input))" by (simp add: tokenize_def lex_printable)
  ultimately show ?thesis using lex_render [of "butlast (tokenize input)" 1] by (simp add: tokenize_def)
qed

text \<open>C36: every token array ends with its only \<open>EOF\<close>, every type is one of the enumeration, and a token
  carries text exactly when it is an identifier, a literal or a symbol: keywords have none.\<close>

theorem tokenize_typed:
  "let ts = tokenize input in
   (\<exists>us e. ts = us @ [e] \<and> tk_type e = TOKEN_EOF \<and> TOKEN_EOF \<notin> tk_type ` set us) \<and>
   list_all (\<lambda>t. tk_type t \<le> TOKEN_STAR \<and> (tk_value t = None) = (\<not> has_text (tk_type t))) ts"
proof -
  have wf: "wf_tokens (tokenize input)" by (rule wf_tokenize)
  then have "tokenize input = butlast (tokenize input) @ [last (tokenize input)]" by (simp add: wf_tokens_def)
  moreover have "tk_type (last (tokenize input)) = TOKEN_EOF" "TOKEN_EOF \<notin> tk_type ` set (butlast (tokenize input))"
    using wf by (auto simp: wf_tokens_def)
  moreover have "list_all (\<lambda>t. tk_type t \<le> TOKEN_STAR \<and> (tk_value t = None) = (\<not> has_text (tk_type t))) (tokenize input)"
    using wf by (auto simp: wf_tokens_def list_all_iff)
  ultimately show ?thesis unfolding Let_def by blast
qed

lemma string_body_rest:
  "(\<exists>pre. cs = pre @ snd (string_body q cs)) \<and> (snd (string_body q cs) = [] \<or> hd (snd (string_body q cs)) = q)"
proof (induction q cs rule: string_body.induct)
  case (2 q c cs)
  show ?case
  proof (cases "c = q")
    case False
    show ?thesis
    proof (cases "c = backslash \<and> cs \<noteq> []")
      case True
      with 2(1) [OF False True] obtain pre where "tl cs = pre @ snd (string_body q (tl cs))"
        "snd (string_body q (tl cs)) = [] \<or> hd (snd (string_body q (tl cs))) = q" by blast
      moreover from this(1) have "c # cs = (c # hd cs # pre) @ snd (string_body q (tl cs))"
        using True by (metis append_Cons list.collapse)
      moreover have "snd (string_body q (c # cs)) = snd (string_body q (tl cs))" using False True by (simp add: split_beta)
      ultimately show ?thesis by metis
    next
      case b: False
      with 2(2) [OF False b] obtain pre where "cs = pre @ snd (string_body q cs)"
        "snd (string_body q cs) = [] \<or> hd (snd (string_body q cs)) = q" by blast
      moreover from this(1) have "c # cs = (c # pre) @ snd (string_body q cs)" by simp
      moreover have "snd (string_body q (c # cs)) = snd (string_body q cs)" using False b by (auto simp: split_beta)
      ultimately show ?thesis by metis
    qed
  qed auto
qed simp

text \<open>the two passes over a string literal agree: the second writes exactly the number of characters the
  first counted for \<open>malloc\<close>, and stops inside the input, at the closing quote or the end.\<close>

theorem string_literal_fits:
  "let (s, rest) = string_body q cs in
   length s = string_len q cs \<and> (\<exists>pre. cs = pre @ rest) \<and> (rest = [] \<or> hd rest = q)"
  using string_body_len [of q cs] string_body_rest [of cs q] by (auto simp: split_beta)

end
