(* ===== verification/SqlRoundtrip.thy ===== *)
theory SqlRoundtrip
  imports SqlGrammar LexerRoundtrip
begin

text \<open>
  Queries written as SQL text and read back by lexer and parser together: \<open>src/lexer.c\<close> and
  \<open>src/parser.c\<close> invert the printer below on every tree it can print.
\<close>

section \<open>Printing\<close>

abbreviation kw :: "token_type \<Rightarrow> token" where "kw t \<equiv> make_token t None 1"
abbreviation sym :: "token_type \<Rightarrow> string \<Rightarrow> token" where "sym t s \<equiv> make_token t (Some s) 1"
abbreviation ident :: "string \<Rightarrow> token" where "ident c \<equiv> make_token TOKEN_IDENTIFIER (Some c) 1"
abbreviation number :: "int \<Rightarrow> token" where "number k \<equiv> make_token TOKEN_INT_LITERAL (Some (show_int k)) 1"
abbreviation lpar :: token where "lpar \<equiv> sym TOKEN_LPAREN ''(''"
abbreviation rpar :: token where "rpar \<equiv> sym TOKEN_RPAREN '')''"
abbreviation star :: token where "star \<equiv> sym TOKEN_STAR ''*''"
abbreviation comma :: token where "comma \<equiv> sym TOKEN_COMMA '',''"

fun commas :: "token list list \<Rightarrow> token list" where
  "commas [] = []"
| "commas [us] = us"
| "commas (us # uss) = us @ comma # commas uss"

definition aggregate_token :: "nat \<Rightarrow> token_type" where
  "aggregate_token k = (case List.find (\<lambda>(t, n). n = k) aggregates of Some (t, n) \<Rightarrow> t | None \<Rightarrow> TOKEN_EOF)"

definition item_tokens :: "nat \<times> string \<Rightarrow> token list" where
  "item_tokens = (\<lambda>(k, c).
     if k = 0 then [ident c]
     else [kw (aggregate_token k), lpar, if c = ''*'' then star else ident c, rpar])"

definition column_tokens :: "(nat \<times> string) list \<Rightarrow> token list" where
  "column_tokens cols = (if cols = [(0, ''*'')] then [star] else commas (map item_tokens cols))"

definition group_tokens :: "string option \<Rightarrow> token list" where
  "group_tokens g = (case g of None \<Rightarrow> [] | Some c \<Rightarrow> [kw TOKEN_KW_GROUP, kw TOKEN_KW_BY, ident c])"

definition order_item_tokens :: "string \<times> bool \<Rightarrow> token list" where
  "order_item_tokens = (\<lambda>(c, desc). if desc then [ident c, kw TOKEN_KW_DESC] else [ident c])"

definition order_tokens :: "(string \<times> bool) list \<Rightarrow> token list" where
  "order_tokens os =
     (if os = [] then []
      else kw TOKEN_KW_ORDER # kw TOKEN_KW_BY # commas (map order_item_tokens os))"

definition limit_tokens :: "int \<Rightarrow> int \<Rightarrow> token list" where
  "limit_tokens lim off =
     (if lim = -1 then []
      else [kw TOKEN_KW_LIMIT, number lim] @ (if off = 0 then [] else [kw TOKEN_KW_OFFSET, number off]))"

abbreviation parens :: "bool \<Rightarrow> token list \<Rightarrow> token list" where
  "parens b us \<equiv> (if b then lpar # us @ [rpar] else us)"

text \<open>The level says what can stand there: 0 a comparison, 1 a conjunction, 2 a disjunction.\<close>

fun expr_tokens :: "nat \<Rightarrow> sql_expr \<Rightarrow> token list" and query_tokens :: "sql_select \<Rightarrow> token list" where
  "expr_tokens p (EXPR_BINARY l opr r) =
     (if opr = ''OR'' then parens (p < 2) (expr_tokens 2 l @ kw TOKEN_KW_OR # expr_tokens 1 r)
      else if opr = ''AND'' then parens (p < 1) (expr_tokens 1 l @ kw TOKEN_KW_AND # expr_tokens 0 r)
      else expr_tokens 0 l @ sym (the (symbol_type (hd opr))) opr # expr_tokens 0 r)"
| "expr_tokens p (EXPR_IDENTIFIER c) = [ident c]"
| "expr_tokens p (EXPR_LITERAL v) = [make_token TOKEN_STRING (Some v) 1]"
| "expr_tokens p (EXPR_SUBQUERY q) = lpar # query_tokens q @ [rpar]"
| "query_tokens (Select tbl cols w g os lim off) =
     kw TOKEN_KW_SELECT # column_tokens cols @ kw TOKEN_KW_FROM # ident tbl #
       (case w of None \<Rightarrow> [] | Some e \<Rightarrow> kw TOKEN_KW_JAHAN # expr_tokens 2 e) @
       group_tokens g @ order_tokens os @ limit_tokens lim off"

definition print_query :: "sql_select \<Rightarrow> string" where
  "print_query q = render (query_tokens q @ [sym TOKEN_SEMICOLON '';''])"

section \<open>Queries that can be printed\<close>

definition is_name :: "string \<Rightarrow> bool" where
  "is_name v \<longleftrightarrow> printable_text TOKEN_IDENTIFIER v"

definition item_ok :: "nat \<times> string \<Rightarrow> bool" where
  "item_ok = (\<lambda>(k, c). k \<le> 5 \<and> is_name c \<or> k = 1 \<and> c = ''*'')"

definition columns_ok :: "(nat \<times> string) list \<Rightarrow> bool" where
  "columns_ok cols \<longleftrightarrow> cols = [(0, ''*'')] \<or> cols \<noteq> [] \<and> list_all item_ok cols"

definition limit_ok :: "int \<Rightarrow> int \<Rightarrow> bool" where
  "limit_ok lim off \<longleftrightarrow> lim = -1 \<and> off = 0 \<or> 0 \<le> lim \<and> lim < 2 ^ 31 \<and> 0 \<le> off \<and> off < 2 ^ 31"

fun expr_ok :: "sql_expr \<Rightarrow> bool" and operand_ok :: "sql_expr \<Rightarrow> bool" and query_ok :: "sql_select \<Rightarrow> bool" where
  "expr_ok (EXPR_BINARY l opr r) =
     (if opr = ''OR'' \<or> opr = ''AND'' then expr_ok l \<and> expr_ok r
      else opr \<in> {''='', ''>'', ''<''} \<and> (case l of EXPR_IDENTIFIER c \<Rightarrow> is_name c | _ \<Rightarrow> False) \<and> operand_ok r)"
| "expr_ok _ = False"
| "operand_ok (EXPR_LITERAL v) = True"
| "operand_ok (EXPR_SUBQUERY q) = query_ok q"
| "operand_ok _ = False"
| "query_ok (Select tbl cols w g os lim off) \<longleftrightarrow>
     is_name tbl \<and> columns_ok cols \<and> (case w of None \<Rightarrow> True | Some e \<Rightarrow> expr_ok e) \<and>
     (case g of None \<Rightarrow> True | Some c \<Rightarrow> is_name c) \<and> list_all (is_name \<circ> fst) os \<and> limit_ok lim off"

section \<open>Spans of the token array\<close>

fun span :: "token list \<Rightarrow> nat \<Rightarrow> token list \<Rightarrow> bool" where
  "span ts i [] = True"
| "span ts i (u # us) = (i < length ts \<and> ts ! i = u \<and> span ts (Suc i) us)"

lemma span_append [simp]: "span ts i (us @ vs) \<longleftrightarrow> span ts i us \<and> span ts (i + length us) vs"
  by (induction us arbitrary: i) auto

lemma span_all: "span (us @ ts @ vs) (length us) ts"
proof (induction ts arbitrary: us)
  case (Cons t ts)
  from Cons [of "us @ [t]"] show ?case by simp
qed simp

lemma span_tok [simp]: "ts ! i = make_token t v l \<Longrightarrow> i < length ts \<Longrightarrow> tok_at ts u i \<longleftrightarrow> u = t"
  by (auto simp: tok_at_def make_token_def)

lemma tk_value_make_token [simp]: "tk_value (make_token t v l) = v"
  by (simp add: make_token_def)

lemma items_span:
  assumes "\<And>x i. x \<in> set xs \<Longrightarrow> span ts i (f x) \<Longrightarrow> R i x (i + length (f x))" and "xs \<noteq> []" and "span ts i (commas (map f xs))"
  shows "items ts R i xs (i + length (commas (map f xs)))"
  using assms
proof (induction xs arbitrary: i)
  case (Cons x xs)
  show ?case
  proof (cases xs)
    case Nil
    then show ?thesis using Cons.prems by (auto intro: items_one)
  next
    case (Cons y ys)
    then have c: "commas (map f (x # xs)) = f x @ comma # commas (map f xs)" by simp
    have "R i x (i + length (f x))" using Cons.prems(1) Cons.prems(3) c by simp
    moreover have "tok_at ts TOKEN_COMMA (i + length (f x))" using Cons.prems(3) c by simp
    moreover have "items ts R (Suc (i + length (f x))) xs (Suc (i + length (f x)) + length (commas (map f xs)))"
      using Cons.IH [of "Suc (i + length (f x))"] Cons.prems c Cons by simp
    ultimately have "items ts R i (x # xs) (Suc (i + length (f x)) + length (commas (map f xs)))" by (rule items_more)
    then show ?thesis unfolding c by (simp add: add.assoc)
  qed
qed simp

section \<open>The printed parts are derivations\<close>

lemma aggregate_token_cases:
  assumes "k \<noteq> 0" and "k \<le> 5"
  shows "(aggregate_token k, k) \<in> set aggregates" and "aggregate_token 1 = TOKEN_KW_COUNT"
proof -
  have "k \<in> {1, 2, 3, 4, 5}" using assms by auto
  then show "(aggregate_token k, k) \<in> set aggregates" by (auto simp: aggregate_token_def aggregates_def)
  show "aggregate_token 1 = TOKEN_KW_COUNT" by (simp add: aggregate_token_def aggregates_def)
qed

lemma item_span:
  assumes "item_ok x" and "span ts i (item_tokens x)"
  shows "item_g ts i x (i + length (item_tokens x))"
proof -
  obtain k c where x: "x = (k, c)" by fastforce
  have star_name: "\<not> is_name ''*''"
    by (simp add: is_name_def printable_text_def is_word_char_def is_alpha_def is_digit_def symbol_type_def)
  show ?thesis
  proof (cases "k = 0")
    case True
    then have l: "lexeme ts i = c" "tok_at ts TOKEN_IDENTIFIER i" using assms(2) x by (simp_all add: item_tokens_def)
    show ?thesis using item_column [OF l(2)] l(1) True x by (simp add: item_tokens_def)
  next
    case False
    then have k: "k \<le> 5" using assms(1) x by (auto simp: item_ok_def)
    note a = aggregate_token_cases [OF False k]
    show ?thesis
    proof (cases "c = ''*''")
      case True
      then have "k = 1" using assms(1) x star_name by (auto simp: item_ok_def)
      then show ?thesis using True x assms(2) a(2) item_star [of ts i] by (simp add: item_tokens_def)
    next
      case c: False
      then show ?thesis using False x assms(2) item_func [OF a(1), of ts i] by (simp add: item_tokens_def)
    qed
  qed
qed

lemma columns_span:
  assumes "columns_ok cols" and "span ts i (column_tokens cols)"
  shows "columns_g ts i cols (i + length (column_tokens cols))"
proof (cases "cols = [(0, ''*'')]")
  case True
  then show ?thesis using assms(2) columns_star [of ts i] by (simp add: column_tokens_def)
next
  case False
  then have "cols \<noteq> []" "\<And>x. x \<in> set cols \<Longrightarrow> item_ok x" using assms(1) by (auto simp: columns_ok_def list_all_iff)
  then show ?thesis using assms(2) False by (auto simp: column_tokens_def intro!: columns_items items_span item_span)
qed

lemma group_span: "span ts i (group_tokens g) \<Longrightarrow> group_g ts i g (i + length (group_tokens g))"
  using group_by [of ts i] by (cases g) (auto simp: group_tokens_def group_none)

lemma order_span:
  assumes "span ts i (order_tokens os)"
  shows "order_g ts i os (i + length (order_tokens os))"
proof (cases "os = []")
  case False
  have item: "order_item_g ts j x (j + length (order_item_tokens x))" if "span ts j (order_item_tokens x)" for j x
    using that order_plain [of ts j] order_desc [of ts j] by (cases x) (auto simp: order_item_tokens_def split: if_splits)
  have "items ts (order_item_g ts) (Suc (Suc i)) os (Suc (Suc i) + length (commas (map order_item_tokens os)))"
    by (rule items_span) (use assms False item in \<open>simp_all add: order_tokens_def\<close>)
  then show ?thesis using assms False order_by [of ts i] by (simp add: order_tokens_def)
qed (simp add: order_tokens_def order_none)

lemma atoi_int_show: "0 \<le> k \<Longrightarrow> k < 2 ^ 31 \<Longrightarrow> atoi_int (show_int k) = k"
  by (simp add: atoi_int_def atoi_show_int sint_uint uint_word_of_int signed_take_bit_int_eq_self)

lemma limit_span:
  assumes "limit_ok lim off" and "span ts i (limit_tokens lim off)"
  shows "limit_g ts i (lim, off) (i + length (limit_tokens lim off))"
proof (cases "lim = -1")
  case True
  then show ?thesis using assms(1) limit_none [of ts i] by (simp add: limit_tokens_def limit_ok_def)
next
  case False
  then have "0 \<le> lim" "lim < 2 ^ 31" "0 \<le> off" "off < 2 ^ 31" using assms(1) by (auto simp: limit_ok_def)
  then show ?thesis
    using False assms(2) limit_only [of ts i] limit_offset [of ts i]
    by (cases "off = 0") (simp_all add: limit_tokens_def atoi_int_show)
qed

section \<open>The printed query is a derivation\<close>

abbreviation level_g :: "token list \<Rightarrow> nat \<Rightarrow> nat \<Rightarrow> sql_expr \<Rightarrow> nat \<Rightarrow> bool" where
  "level_g ts p i e j \<equiv> (if p = 0 then cmp_g ts i e j else if p = 1 then and_g ts i e j else or_g ts i e j)"

lemma level_cmp: "cmp_g ts i e j \<Longrightarrow> level_g ts p i e j"
  by (auto intro: and_cmp or_and)

lemma parens_or:
  assumes "span ts i (parens (p < 2) us)" and "\<And>k. span ts k us \<Longrightarrow> or_g ts k e (k + length us)"
  shows "level_g ts p i e (i + length (parens (p < 2) us))"
proof (cases "p < 2")
  case True
  then have "cmp_g ts i e (Suc (Suc i + length us))"
    using assms(1) assms(2) [of "Suc i"] by (intro cmp_paren) auto
  then show ?thesis using True level_cmp [of ts i e _ p] by simp
next
  case False
  then show ?thesis using assms(1) assms(2) [of i] by simp
qed

lemma parens_and:
  assumes "span ts i (parens (p < 1) us)" and "\<And>k. span ts k us \<Longrightarrow> and_g ts k e (k + length us)"
  shows "level_g ts p i e (i + length (parens (p < 1) us))"
proof (cases "p = 0")
  case True
  then have "cmp_g ts i e (Suc (Suc i + length us))"
    using assms(1) assms(2) [of "Suc i"] by (intro cmp_paren [OF _ or_and]) auto
  then show ?thesis using True by simp
next
  case False
  then show ?thesis using assms(1) assms(2) [of i] by (auto intro: or_and)
qed

lemma operator_symbols:
  assumes "opr \<in> {''='', ''>'', ''<''}"
  shows "the (symbol_type (hd opr)) \<in> {TOKEN_EQUALS, TOKEN_GT, TOKEN_LT}" and "symbol_type (hd opr) \<noteq> None" and "length opr = 1"
  using assms by (auto simp: symbol_type_def)

definition prints_expr :: "sql_expr \<Rightarrow> bool" where
  "prints_expr e \<longleftrightarrow>
     (expr_ok e \<longrightarrow> (\<forall>ts p i. span ts i (expr_tokens p e) \<longrightarrow> level_g ts p i e (i + length (expr_tokens p e)))) \<and>
     (\<forall>q. e = EXPR_SUBQUERY q \<longrightarrow> query_ok q \<longrightarrow>
        (\<forall>ts i. span ts i (query_tokens q) \<longrightarrow> select_g ts i q (i + length (query_tokens q))))"

lemma prints_comparison:
  assumes "opr \<in> {''='', ''>'', ''<''}" and "operand_ok r" and "prints_expr r"
    and "span ts i (expr_tokens p (EXPR_BINARY (EXPR_IDENTIFIER c) opr r))"
  shows "level_g ts p i (EXPR_BINARY (EXPR_IDENTIFIER c) opr r) (i + length (expr_tokens p (EXPR_BINARY (EXPR_IDENTIFIER c) opr r)))"
proof -
  have op: "opr \<noteq> ''OR''" "opr \<noteq> ''AND''" using assms(1) by auto
  note sy = operator_symbols [OF assms(1)]
  consider v where "r = EXPR_LITERAL v" | q where "r = EXPR_SUBQUERY q" "query_ok q"
    using assms(2) by (cases r) auto
  then have "cmp_g ts i (EXPR_BINARY (EXPR_IDENTIFIER c) opr r) (i + length (expr_tokens p (EXPR_BINARY (EXPR_IDENTIFIER c) opr r)))"
  proof cases
    case 1
    then show ?thesis
      using assms(4) op sy(1) cmp_literal [of ts i "the (symbol_type (hd opr))" TOKEN_STRING] by simp
  next
    case 2
    have s: "span ts (Suc (Suc (Suc i))) (query_tokens q)" using assms(4) op 2 by simp
    then have "select_g ts (Suc (Suc (Suc i))) q (Suc (Suc (Suc i)) + length (query_tokens q))"
      using assms(3) 2 unfolding prints_expr_def by blast
    then show ?thesis
      using assms(4) op sy(1) 2 cmp_subquery [of ts i "the (symbol_type (hd opr))" q] by simp
  qed
  then show ?thesis by (rule level_cmp)
qed


lemma prints_binary:
  assumes "prints_expr l" and "prints_expr r"
  shows "prints_expr (EXPR_BINARY l opr r)"
proof -
  have "level_g ts p i (EXPR_BINARY l opr r) (i + length (expr_tokens p (EXPR_BINARY l opr r)))"
    if ok: "expr_ok (EXPR_BINARY l opr r)" and sp: "span ts i (expr_tokens p (EXPR_BINARY l opr r))" for ts p i
  proof -
    have lg: "level_g ts q k l (k + length (expr_tokens q l))" if "expr_ok l" "span ts k (expr_tokens q l)" for q k
      using assms(1) that unfolding prints_expr_def by blast
    have rg: "level_g ts q k r (k + length (expr_tokens q r))" if "expr_ok r" "span ts k (expr_tokens q r)" for q k
      using assms(2) that unfolding prints_expr_def by blast
    consider "opr = ''OR''" "expr_ok l" "expr_ok r" | "opr = ''AND''" "expr_ok l" "expr_ok r"
      | c where "opr \<in> {''='', ''>'', ''<''}" "l = EXPR_IDENTIFIER c" "operand_ok r"
      using ok by (auto split: if_splits sql_expr.splits)
    then show ?thesis
    proof cases
      case 1
      let ?us = "expr_tokens 2 l @ kw TOKEN_KW_OR # expr_tokens 1 r"
      have "or_g ts k (EXPR_BINARY l opr r) (k + length ?us)" if "span ts k ?us" for k
        using that 1 lg [of k 2] rg [of "Suc (k + length (expr_tokens 2 l))" 1] or_or [of ts k l "k + length (expr_tokens 2 l)" r]
        by (simp add: add.assoc)
      note or_g = this
      have e: "expr_tokens p (EXPR_BINARY l opr r) = parens (p < 2) ?us" using 1(1) by simp
      show ?thesis unfolding e by (rule parens_or [OF _ or_g]) (use sp e in simp_all)
    next
      case 2
      let ?us = "expr_tokens 1 l @ kw TOKEN_KW_AND # expr_tokens 0 r"
      have "and_g ts k (EXPR_BINARY l opr r) (k + length ?us)" if "span ts k ?us" for k
        using that 2 lg [of k 1] rg [of "Suc (k + length (expr_tokens 1 l))" 0] and_and [of ts k l "k + length (expr_tokens 1 l)" r]
        by (simp add: add.assoc)
      note and_g = this
      have e: "expr_tokens p (EXPR_BINARY l opr r) = parens (p < 1) ?us" using 2(1) by simp
      show ?thesis unfolding e by (rule parens_and [OF _ and_g]) (use sp e in simp_all)
    next
      case (3 c)
      then show ?thesis using prints_comparison [OF 3(1,3) assms(2)] sp by blast
    qed
  qed
  then show ?thesis unfolding prints_expr_def by blast
qed

lemma prints_select:
  assumes "\<And>e. w = Some e \<Longrightarrow> prints_expr e" and ok: "query_ok (Select tbl cols w g os lim off)"
    and sp: "span ts i (query_tokens (Select tbl cols w g os lim off))"
  shows "select_g ts i (Select tbl cols w g os lim off) (i + length (query_tokens (Select tbl cols w g os lim off)))"
proof -
  let ?i1 = "Suc i" let ?i2 = "?i1 + length (column_tokens cols)"
  let ?w = "case w of None \<Rightarrow> [] | Some e \<Rightarrow> kw TOKEN_KW_JAHAN # expr_tokens 2 e"
  let ?i3 = "Suc (Suc ?i2) + length ?w" let ?i4 = "?i3 + length (group_tokens g)" let ?i5 = "?i4 + length (order_tokens os)"
  have heads: "tok_at ts TOKEN_KW_SELECT i" "tok_at ts TOKEN_KW_FROM ?i2" "tok_at ts TOKEN_IDENTIFIER (Suc ?i2)" "lexeme ts (Suc ?i2) = tbl"
    and spans: "span ts ?i1 (column_tokens cols)" "span ts (Suc (Suc ?i2)) ?w" "span ts ?i3 (group_tokens g)"
      "span ts ?i4 (order_tokens os)" "span ts ?i5 (limit_tokens lim off)"
    using sp by (simp_all add: add.assoc)
  have c: "columns_g ts ?i1 cols ?i2" by (rule columns_span) (use ok spans in simp_all)
  have l: "limit_g ts ?i5 (lim, off) (?i5 + length (limit_tokens lim off))" by (rule limit_span) (use ok spans in simp_all)
  have w: "where_g ts (Suc (Suc ?i2)) w ?i3"
  proof (cases w)
    case (Some e)
    then have "span ts (Suc (Suc (Suc ?i2))) (expr_tokens 2 e)" "expr_ok e" using spans(2) ok by simp_all
    with assms(1) [OF Some] have "level_g ts 2 (Suc (Suc (Suc ?i2))) e (Suc (Suc (Suc ?i2)) + length (expr_tokens 2 e))"
      unfolding prints_expr_def by blast
    then show ?thesis using Some spans(2) where_some [of ts "Suc (Suc ?i2)" e] by simp
  qed (simp add: where_none)
  from select_all [OF heads(1) disjI1 [OF refl] c heads(2,3) w group_span [OF spans(3)] order_span [OF spans(4)] l]
  show ?thesis using heads(4) by (simp add: add.assoc)
qed

lemma prints_all: "prints_expr e"
    "query_ok q \<longrightarrow> (\<forall>ts i. span ts i (query_tokens q) \<longrightarrow> select_g ts i q (i + length (query_tokens q)))"
proof (induction e and q rule: sql_expr.induct sql_select.induct)
  case (EXPR_BINARY l opr r)
  then show ?case by (rule prints_binary)
next
  case (Select tbl cols w g os lim off)
  then have "prints_expr e" if "w = Some e" for e using that by simp
  then show ?case using prints_select by blast
qed (simp_all add: prints_expr_def)

section \<open>The printed tokens survive the text\<close>

declare One_nat_def [simp del]

lemma query_keywords:
  "check_keyword ''SELECT'' = TOKEN_KW_SELECT"
  "check_keyword ''FROM'' = TOKEN_KW_FROM"
  "check_keyword ''WHERE'' = TOKEN_KW_JAHAN"
  "check_keyword ''GROUP'' = TOKEN_KW_GROUP"
  "check_keyword ''BY'' = TOKEN_KW_BY"
  "check_keyword ''ORDER'' = TOKEN_KW_ORDER"
  "check_keyword ''DESC'' = TOKEN_KW_DESC"
  "check_keyword ''LIMIT'' = TOKEN_KW_LIMIT"
  "check_keyword ''OFFSET'' = TOKEN_KW_OFFSET"
  "check_keyword ''AND'' = TOKEN_KW_AND"
  "check_keyword ''OR'' = TOKEN_KW_OR"
  "check_keyword ''COUNT'' = TOKEN_KW_COUNT"
  "check_keyword ''SUM'' = TOKEN_KW_SUM"
  "check_keyword ''AVG'' = TOKEN_KW_AVG"
  "check_keyword ''MAX'' = TOKEN_KW_MAX"
  "check_keyword ''MIN'' = TOKEN_KW_MIN"
  unfolding check_keyword_def keyword_table_def by (simp_all only: keyword_eval)

lemma keyword_printable: "check_keyword w = t \<Longrightarrow> t \<noteq> TOKEN_IDENTIFIER \<Longrightarrow> printable (kw t)"
  using check_keyword_printable [of w] by (simp add: printable_def make_token_def)

lemmas keywords_printable = query_keywords [THEN keyword_printable, simplified]

lemma ident_printable: "is_name c \<Longrightarrow> printable (ident c)"
  by (simp add: printable_def make_token_def is_name_def)

lemma string_printable: "printable (make_token TOKEN_STRING (Some v) 1)"
  by (simp add: printable_def make_token_def printable_text_def)

lemma symbols_printable: "printable lpar" "printable rpar" "printable star" "printable comma" "printable (sym TOKEN_SEMICOLON '';'')"
  by (simp_all add: printable_def make_token_def printable_text_def symbol_type_def)

lemma operator_printable: "opr \<in> {''='', ''>'', ''<''} \<Longrightarrow> printable (sym (the (symbol_type (hd opr))) opr)"
  using operator_symbols [of opr] by (auto simp: printable_def make_token_def printable_text_def)

lemma number_printable: "0 \<le> k \<Longrightarrow> printable (number k)"
proof -
  assume "0 \<le> k"
  then have d: "\<forall>c \<in> set (show_int k). is_digit c" using show_nat_digits by (simp add: show_int_def)
  moreover have ne: "show_int k \<noteq> []" by (simp add: show_int_def)
  moreover have "is_digit (hd (show_int k))" using d ne by simp
  moreover have "CHR ''.'' \<notin> set (show_int k)" using d by (auto simp: is_digit_def)
  moreover have "list_all is_number_char (show_int k)" using d by (simp add: list_all_iff is_number_char_def)
  ultimately show ?thesis by (simp add: printable_def make_token_def printable_text_def)
qed

lemmas printables = keywords_printable ident_printable string_printable symbols_printable operator_printable number_printable

lemma commas_printable: "list_all (list_all printable) uss \<Longrightarrow> list_all printable (commas uss)"
  by (induction uss rule: commas.induct) (simp_all add: printables)

lemma item_printable: "item_ok x \<Longrightarrow> list_all printable (item_tokens x)"
proof -
  obtain k c where x: "x = (k, c)" by fastforce
  assume "item_ok x"
  then have k: "k \<in> {0, 1, 2, 3, 4, 5}" and c: "is_name c \<or> c = ''*''" and z: "k = 0 \<Longrightarrow> is_name c"
    using x by (auto simp: item_ok_def)
  then show ?thesis using x
    by (auto simp: item_tokens_def aggregate_token_def aggregates_def printables)
qed

lemma column_printable: "columns_ok cols \<Longrightarrow> list_all printable (column_tokens cols)"
proof -
  have "list_all item_ok cols \<Longrightarrow> list_all printable (commas (map item_tokens cols))"
    using item_printable by (intro commas_printable) (auto simp: list_all_iff)
  then show "columns_ok cols \<Longrightarrow> list_all printable (column_tokens cols)"
    by (auto simp: column_tokens_def columns_ok_def printables)
qed

lemma tail_printable:
  "(case g of None \<Rightarrow> True | Some c \<Rightarrow> is_name c) \<Longrightarrow> list_all printable (group_tokens g)"
  "list_all (is_name \<circ> fst) os \<Longrightarrow> list_all printable (order_tokens os)"
  "limit_ok lim off \<Longrightarrow> list_all printable (limit_tokens lim off)"
proof -
  show "(case g of None \<Rightarrow> True | Some c \<Rightarrow> is_name c) \<Longrightarrow> list_all printable (group_tokens g)"
    by (auto simp: group_tokens_def printables split: option.splits)
  have "list_all (is_name \<circ> fst) os \<Longrightarrow> list_all (list_all printable) (map order_item_tokens os)"
    by (auto simp: list_all_iff order_item_tokens_def printables)
  then show "list_all (is_name \<circ> fst) os \<Longrightarrow> list_all printable (order_tokens os)"
    using commas_printable by (simp add: order_tokens_def printables)
  show "limit_ok lim off \<Longrightarrow> list_all printable (limit_tokens lim off)"
    by (auto simp: limit_ok_def limit_tokens_def printables)
qed

lemma query_printable:
  "expr_ok e \<Longrightarrow> list_all printable (expr_tokens p e)"
  "operand_ok e \<Longrightarrow> list_all printable (expr_tokens p e)"
  "query_ok q \<Longrightarrow> list_all printable (query_tokens q)"
proof (induction e and e and q arbitrary: p and p rule: expr_ok_operand_ok_query_ok.induct)
  case (1 l opr r)
  show ?case
  proof (cases "opr = ''OR'' \<or> opr = ''AND''")
    case True
    then show ?thesis using 1 by (auto simp: printables)
  next
    case False
    then obtain c where "l = EXPR_IDENTIFIER c" "is_name c" "operand_ok r" "opr \<in> {''='', ''>'', ''<''}"
      using 1(4) by (auto split: sql_expr.splits)
    then show ?thesis using False 1(3) by (simp add: printables)
  qed
next
  case (6 tbl cols w g os lim off)
  then show ?case
    using tail_printable(1) [of g] by (cases w) (simp_all add: printables column_printable tail_printable)
qed (simp_all add: printables)

lemma on_line_make_token [simp]: "on_line l (make_token t v k) = make_token t v l"
  by (simp add: on_line_def make_token_def)

lemma lines_commas: "map (on_line 1) (commas uss) = commas (map (map (on_line 1)) uss)"
  by (induction uss rule: commas.induct) simp_all

lemma lines_parts:
  "map (on_line 1) (column_tokens cols) = column_tokens cols" "map (on_line 1) (group_tokens g) = group_tokens g"
  "map (on_line 1) (order_tokens os) = order_tokens os" "map (on_line 1) (limit_tokens lim off) = limit_tokens lim off"
  by (auto simp: column_tokens_def item_tokens_def group_tokens_def order_tokens_def order_item_tokens_def limit_tokens_def
      lines_commas comp_def split: option.splits intro!: arg_cong [of _ _ commas])

lemma lines_query: "map (on_line 1) (expr_tokens p e) = expr_tokens p e" "map (on_line 1) (query_tokens q) = query_tokens q"
  by (induction p e and q rule: expr_tokens_query_tokens.induct) (auto simp: lines_parts split: option.splits)

text \<open>C7: writing a query as SQL text and reading the text with lexer and parser gives the query back:
  precedence and parentheses of conditions, nested queries, every kind of column, escapes in strings,
  ordering, limit and offset included.\<close>

theorem parse_print_query:
  assumes "query_ok q"
  shows "parse (tokenize (print_query q)) = Done (NODE_CMD_SELECT q) (Suc (length (query_tokens q)))"
proof -
  let ?us = "query_tokens q @ [sym TOKEN_SEMICOLON '';'']"
  let ?ts = "?us @ [make_token TOKEN_EOF None 1]"
  have p: "list_all printable ?us" using query_printable(3) [OF assms] by (simp add: printables)
  have "map (on_line 1) ?us = ?us" by (simp add: lines_query)
  then have ts: "tokenize (print_query q) = ?ts"
    using lex_render [OF p, of 1] by (simp add: print_query_def tokenize_def)
  have wf: "wf_tokens ?ts" using wf_tokenize [of "print_query q"] unfolding ts .
  have "span ?ts 0 ?us" using span_all [of "[]" ?us] by simp
  then have "span ?ts 0 (query_tokens q)" "tok_at ?ts TOKEN_SEMICOLON (length (query_tokens q))" by simp_all
  moreover from this have "select_g ?ts 0 q (length (query_tokens q))" using prints_all(2) assms by fastforce
  ultimately show ?thesis unfolding ts using query_grammar [OF wf, of q] by blast
qed

lemma names: "is_name ''t''" "is_name ''a''"
proof -
  have "check_keyword ''t'' = TOKEN_IDENTIFIER" "check_keyword ''a'' = TOKEN_IDENTIFIER"
    unfolding check_keyword_def keyword_table_def by (simp_all only: keyword_eval)
  then show "is_name ''t''" "is_name ''a''"
    by (simp_all add: is_name_def printable_text_def is_alpha_def is_word_char_def)
qed

theorem parse_print_query_witness:
  "let q = Select ''t'' [(1, ''*''), (0, ''a'')]
         (Some (EXPR_BINARY (EXPR_BINARY (EXPR_IDENTIFIER ''a'') ''='' (EXPR_LITERAL ''it's''))
            ''AND'' (EXPR_BINARY (EXPR_BINARY (EXPR_IDENTIFIER ''a'') ''>'' (EXPR_LITERAL ''1''))
               ''OR'' (EXPR_BINARY (EXPR_IDENTIFIER ''a'') ''<'' (EXPR_SUBQUERY (Select ''t'' [(4, ''a'')] None None [] (-1) 0))))))
         (Some ''a'') [(''a'', True)] 10 5
   in parse (tokenize (print_query q)) = Done (NODE_CMD_SELECT q) 43"
proof -
  let ?q = "Select ''t'' [(1, ''*''), (0, ''a'')]
         (Some (EXPR_BINARY (EXPR_BINARY (EXPR_IDENTIFIER ''a'') ''='' (EXPR_LITERAL ''it's''))
            ''AND'' (EXPR_BINARY (EXPR_BINARY (EXPR_IDENTIFIER ''a'') ''>'' (EXPR_LITERAL ''1''))
               ''OR'' (EXPR_BINARY (EXPR_IDENTIFIER ''a'') ''<'' (EXPR_SUBQUERY (Select ''t'' [(4, ''a'')] None None [] (-1) 0))))))
         (Some ''a'') [(''a'', True)] 10 5"
  have "query_ok ?q" by (simp add: names columns_ok_def item_ok_def limit_ok_def)
  moreover have "Suc (length (query_tokens ?q)) = 43"
    by (simp add: column_tokens_def item_tokens_def group_tokens_def order_tokens_def order_item_tokens_def limit_tokens_def)
  ultimately show ?thesis using parse_print_query [of ?q] unfolding Let_def by (simp only:)
qed

declare One_nat_def [simp]

end
