(* ===== verification/CDouble.thy ===== *)
theory CDouble
  imports Complex_Main Lexer
begin

text \<open>
  The C type \<open>double\<close> as the code uses it: \<open>atof\<close>, comparison, addition, division by an
  \<open>int\<close>, and \<open>%.2f\<close>. A finite double is its sign and its exact magnitude, a rational; the
  result of an operation is the exact one rounded to the nearest double, ties to even
  (\<open>round_double\<close>). A NaN keeps its sign, which \<open>printf\<close> shows; adding opposite infinities
  gives the negative NaN of the x86-64 targets.
\<close>

datatype double = Fin bool rat | Inf bool | NaN bool

section \<open>Rounding\<close>

function ilog2 :: "int \<Rightarrow> int" where
  "ilog2 n = (if n < 2 then 0 else 1 + ilog2 (n div 2))"
  by pat_completeness auto
termination by (relation "measure nat") auto

declare ilog2.simps [simp del]

definition pow_int :: "rat \<Rightarrow> int \<Rightarrow> rat" where
  "pow_int b e = (if 0 \<le> e then b ^ nat e else 1 / b ^ nat (- e))"

text \<open>The \<open>e\<close> with \<open>2^e \<le> q < 2^(e+1)\<close>, for positive \<open>q\<close>.\<close>

definition floor_log2 :: "rat \<Rightarrow> int" where
  "floor_log2 q =
     (let (n, d) = quotient_of q; g = ilog2 n - ilog2 d
      in if pow_int 2 g \<le> q then g else g - 1)"

definition round_half_even :: "rat \<Rightarrow> int" where
  "round_half_even q =
     (let f = \<lfloor>q\<rfloor>; r = q - of_int f
      in if r < 1 / 2 then f else if 1 / 2 < r then f + 1 else if even f then f else f + 1)"

text \<open>53 significant bits, the exponents of the subnormals, and the threshold above which the
  result is infinite.\<close>

definition round_double :: "bool \<Rightarrow> rat \<Rightarrow> double" where
  "round_double neg q =
     (if q = 0 then Fin neg 0
      else
        let u = pow_int 2 (max (floor_log2 q - 52) (-1074));
            r = of_int (round_half_even (q / u)) * u
        in if r < 2 ^ 1024 then Fin neg r else Inf neg)"

section \<open>Arithmetic and comparison\<close>

definition signed_val :: "bool \<Rightarrow> rat \<Rightarrow> rat" where
  "signed_val neg q = (if neg then - q else q)"

definition of_signed :: "rat \<Rightarrow> double" where
  "of_signed q = round_double (q < 0) \<bar>q\<bar>"

fun double_add :: "double \<Rightarrow> double \<Rightarrow> double" where
  "double_add (NaN s) b = NaN s"
| "double_add (Inf s) (NaN t) = NaN t"
| "double_add (Fin s p) (NaN t) = NaN t"
| "double_add (Inf s) (Inf t) = (if s = t then Inf s else NaN True)"
| "double_add (Inf s) (Fin t q) = Inf s"
| "double_add (Fin s p) (Inf t) = Inf t"
| "double_add (Fin s p) (Fin t q) =
     (if p = 0 \<and> q = 0 then Fin (s \<and> t) 0 else of_signed (signed_val s p + signed_val t q))"

text \<open>Division by a positive \<open>int\<close>.\<close>

fun double_div_int :: "double \<Rightarrow> int \<Rightarrow> double" where
  "double_div_int (NaN s) n = NaN s"
| "double_div_int (Inf s) n = Inf s"
| "double_div_int (Fin s p) n = round_double s (p / of_int n)"

fun double_less :: "double \<Rightarrow> double \<Rightarrow> bool" where
  "double_less (NaN s) b = False"
| "double_less (Inf s) (NaN t) = False"
| "double_less (Fin s p) (NaN t) = False"
| "double_less (Inf s) (Inf t) = (s \<and> \<not> t)"
| "double_less (Inf s) (Fin t q) = s"
| "double_less (Fin s p) (Inf t) = (\<not> t)"
| "double_less (Fin s p) (Fin t q) = (signed_val s p < signed_val t q)"

fun double_eq :: "double \<Rightarrow> double \<Rightarrow> bool" where
  "double_eq (Inf s) (Inf t) = (s = t)"
| "double_eq (Fin s p) (Fin t q) = (signed_val s p = signed_val t q)"
| "double_eq a b = False"

section \<open>atof\<close>

definition digit_of :: "int \<Rightarrow> char \<Rightarrow> int option" where
  "digit_of base c =
     (let n = (of_char (to_lower c) :: int);
          v = (if 48 \<le> n \<and> n \<le> 57 then n - 48 else if 97 \<le> n \<and> n \<le> 102 then n - 87 else 99)
      in if v < base then Some v else None)"

text \<open>Digits: their value after \<open>acc\<close>, their number, and the rest.\<close>

fun read_digits :: "int \<Rightarrow> int \<Rightarrow> int \<Rightarrow> string \<Rightarrow> int \<times> int \<times> string" where
  "read_digits base acc k [] = (acc, k, [])"
| "read_digits base acc k (c # cs) =
     (case digit_of base c of
        None \<Rightarrow> (acc, k, c # cs)
      | Some v \<Rightarrow> read_digits base (base * acc + v) (k + 1) cs)"

text \<open>Digits with an optional point: the value of all digits, how many follow the point, how many there are.\<close>

definition read_mantissa :: "int \<Rightarrow> string \<Rightarrow> int \<times> int \<times> int \<times> string" where
  "read_mantissa base s =
     (let (m, k, r) = read_digits base 0 0 s
      in case r of
           c # cs \<Rightarrow> if c = CHR ''.'' then (let (m', j, r') = read_digits base m 0 cs in (m', j, k + j, r')) else (m, 0, k, r)
         | [] \<Rightarrow> (m, 0, k, r))"

text \<open>An exponent: its letter, an optional sign and at least one digit; otherwise nothing is read.\<close>

definition read_exponent :: "char \<Rightarrow> string \<Rightarrow> int" where
  "read_exponent letter s =
     (case s of
        [] \<Rightarrow> 0
      | c # cs \<Rightarrow>
          if to_lower c \<noteq> letter then 0
          else (let (neg, ds) = (case cs of
                       [] \<Rightarrow> (False, [])
                     | d # ds \<Rightarrow> if d = CHR ''-'' then (True, ds) else if d = CHR ''+'' then (False, ds) else (False, d # ds));
                    (v, k, r) = read_digits 10 0 0 ds
                in if neg then - v else v))"

definition has_word :: "string \<Rightarrow> string \<Rightarrow> bool" where
  "has_word w s \<longleftrightarrow> map to_lower (take (length w) s) = w"

definition atof_unsigned :: "bool \<Rightarrow> string \<Rightarrow> double" where
  "atof_unsigned neg s =
     (if has_word ''inf'' s then Inf neg
      else if has_word ''nan'' s then NaN neg
      else
        let (hm, hj, hk, hr) = read_mantissa 16 (drop 2 s);
            (m, j, k, r) = read_mantissa 10 s
        in if has_word ''0x'' s \<and> 0 < hk
           then round_double neg (of_int hm * pow_int 2 (read_exponent CHR ''p'' hr - 4 * hj))
           else if k = 0 then Fin False 0
           else round_double neg (of_int m * pow_int 10 (read_exponent CHR ''e'' r - j)))"

definition atof :: "string \<Rightarrow> double" where
  "atof s =
     (case dropWhile is_space s of
        [] \<Rightarrow> Fin False 0
      | c # cs \<Rightarrow> if c = CHR ''-'' then atof_unsigned True cs
                 else if c = CHR ''+'' then atof_unsigned False cs
                 else atof_unsigned False (c # cs))"

section \<open>Printing with two decimals\<close>

definition show_2f :: "double \<Rightarrow> string" where
  "show_2f d =
     (case d of
        NaN s \<Rightarrow> (if s then ''-nan'' else ''nan'')
      | Inf s \<Rightarrow> (if s then ''-inf'' else ''inf'')
      | Fin s q \<Rightarrow>
          (let n = nat (round_half_even (q * 100))
           in (if s then ''-'' else []) @ show_nat (n div 100) @ ''.'' @
              [digit_char (n div 10 mod 10), digit_char (n mod 10)]))"

section \<open>Integers are exact up to 2 to the 53\<close>

lemma ilog2_bounds: "0 < n \<Longrightarrow> 0 \<le> ilog2 n \<and> 2 ^ nat (ilog2 n) \<le> n \<and> n < 2 ^ Suc (nat (ilog2 n))"
proof (induction n rule: ilog2.induct)
  case (1 n)
  show ?case
  proof (cases "n < 2")
    case True
    then show ?thesis using 1(2) by (simp add: ilog2.simps [of n])
  next
    case False
    then have ih: "0 \<le> ilog2 (n div 2)" "2 ^ nat (ilog2 (n div 2)) \<le> n div 2" "n div 2 < 2 ^ Suc (nat (ilog2 (n div 2)))"
      using 1 by auto
    have "ilog2 n = 1 + ilog2 (n div 2)" using False by (simp add: ilog2.simps [of n])
    moreover have "nat (1 + ilog2 (n div 2)) = Suc (nat (ilog2 (n div 2)))" using ih(1) by simp
    moreover have "2 * p \<le> n \<and> n < 4 * p" if "p \<le> n div 2" "n div 2 < 2 * p" for p :: int using that by arith
    ultimately show ?thesis using ih by simp
  qed
qed

lemma ilog2_unique:
  assumes "2 ^ k \<le> n" and "n < 2 ^ Suc k"
  shows "ilog2 n = int k"
proof -
  have "0 < n" using assms(1) by (rule less_le_trans [rotated]) simp
  note b = ilog2_bounds [OF this]
  have "(2 :: int) ^ k < 2 ^ Suc (nat (ilog2 n))" "(2 :: int) ^ nat (ilog2 n) < 2 ^ Suc k"
    using b assms by linarith+
  then have "k < Suc (nat (ilog2 n))" "nat (ilog2 n) < Suc k" by (simp_all only: power_strict_increasing_iff one_less_numeral_iff semiring_norm)
  then have "nat (ilog2 n) = k" by simp
  then show ?thesis using b by auto
qed

lemma floor_log2_int:
  assumes "0 < m"
  shows "floor_log2 (of_int m) = ilog2 m"
proof -
  have q: "quotient_of (of_int m) = (m, 1)"
    using quotient_of_int [of m] by (simp add: Rat.of_int_def)
  have "(2 :: rat) ^ nat (ilog2 m) = of_int (2 ^ nat (ilog2 m))" by simp
  also have "\<dots> \<le> of_int m" using ilog2_bounds [OF assms] by (simp only: of_int_le_iff)
  finally have "pow_int 2 (ilog2 m) \<le> (of_int m :: rat)"
    using ilog2_bounds [OF assms] by (simp add: pow_int_def)
  then show ?thesis using q by (simp add: floor_log2_def ilog2.simps [of 1])
qed

lemma round_half_even_int [simp]: "round_half_even (of_int i) = i"
  by (simp add: round_half_even_def)

lemma pow_int_pos [simp]: "0 < b \<Longrightarrow> 0 < pow_int b e"
  by (simp add: pow_int_def)

lemma round_double_exact:
  assumes "q \<noteq> 0" and "q = of_int i * pow_int 2 (max (floor_log2 q - 52) (-1074))" and "q < 2 ^ 1024"
  shows "round_double neg q = Fin neg q"
proof -
  let ?u = "pow_int 2 (max (floor_log2 q - 52) (-1074))"
  have "q / ?u = of_int i" using assms(2) pow_int_pos [of 2] by (metis less_numeral_extra(3) nonzero_mult_div_cancel_right zero_less_numeral)
  then show ?thesis using assms by (simp add: round_double_def Let_def)
qed

lemma round_double_int:
  assumes "0 \<le> m" and "m \<le> 2 ^ 53"
  shows "round_double neg (of_int m) = Fin neg (of_int m)"
proof (cases "m = 0")
  case True
  then show ?thesis by (simp add: round_double_def)
next
  case False
  then have b: "0 \<le> ilog2 m" "2 ^ nat (ilog2 m) \<le> m" using ilog2_bounds assms by auto
  have "(2 :: int) ^ nat (ilog2 m) < 2 ^ 54" using b(2) assms(2) by (rule le_less_trans [OF order_trans]) simp
  then have l: "nat (ilog2 m) < 54" by (rule power_less_imp_less_exp [rotated]) simp
  have fl: "floor_log2 (of_int m) = ilog2 m" using False assms by (simp add: floor_log2_int)
  have small: "(of_int m :: rat) < 2 ^ 1024"
  proof -
    have "(of_int m :: rat) \<le> of_int (2 ^ 53)" using assms by (simp only: of_int_le_iff)
    also have "\<dots> < 2 ^ 1024" by simp
    finally show ?thesis .
  qed
  show ?thesis
  proof (cases "ilog2 m = 53")
    case True
    then have "m = 2 ^ 53" using b assms by simp
    then have "(of_int m :: rat) = of_int (2 ^ 52) * pow_int 2 (max (floor_log2 (of_int m) - 52) (-1074))"
      using True by (subst fl) (simp add: pow_int_def)
    with False small show ?thesis by (intro round_double_exact [where i = "2 ^ 52"]) auto
  next
    case n: False
    let ?k = "nat (52 - ilog2 m)"
    have "max (floor_log2 (of_int m) - 52) (-1074) = - int ?k" using l n b by (simp add: fl)
    then have "(of_int m :: rat) = of_int (m * 2 ^ ?k) * pow_int 2 (max (floor_log2 (of_int m) - 52) (-1074))"
      by (simp add: pow_int_def)
    with False small show ?thesis by (intro round_double_exact [where i = "m * 2 ^ ?k"]) auto
  qed
qed

lemma lower_digit: "is_digit c \<Longrightarrow> to_lower c = c"
  by (simp add: is_digit_def to_lower_def)

lemma digit_of_digit: "is_digit c \<Longrightarrow> digit_of 10 c = Some (of_char c - 48)"
  using of_nat_of_char [of c, where 'a = int]
  by (auto simp: digit_of_def lower_digit is_digit_def Let_def)

lemma read_digits_all:
  "\<forall>c \<in> set s. is_digit c \<Longrightarrow> read_digits 10 acc k s = (digits_val acc s, k + int (length s), [])"
  by (induction s arbitrary: acc k) (simp_all add: digit_of_digit)

lemma atof_show_nat:
  assumes "int n \<le> 2 ^ 53"
  shows "atof_unsigned neg (show_nat n) = Fin neg (of_int (int n))"
proof -
  have d: "\<forall>c \<in> set (show_nat n). is_digit c" by (rule show_nat_digits)
  have no: "\<not> has_word (a # b # w) (show_nat n)" if "\<not> is_digit b" for a b w
  proof (cases "show_nat n")
    case Nil
    then show ?thesis by (simp add: has_word_def)
  next
    case (Cons x xs)
    then have x: "\<And>c. c \<in> set xs \<Longrightarrow> is_digit c" using d by auto
    show ?thesis
    proof (cases xs)
      case (Cons y ys)
      then have "to_lower y = y" "is_digit y" using x by (auto intro: lower_digit)
      then show ?thesis using \<open>show_nat n = x # xs\<close> Cons that by (auto simp: has_word_def)
    qed (use \<open>show_nat n = x # xs\<close> in \<open>simp add: has_word_def\<close>)
  qed
  have letters: "\<not> is_digit CHR ''n''" "\<not> is_digit CHR ''a''" "\<not> is_digit CHR ''x''" by (simp_all add: is_digit_def)
  have m: "read_mantissa 10 (show_nat n) = (int n, 0, int (length (show_nat n)), [])"
    by (simp add: read_mantissa_def read_digits_all [OF d] digits_val_show_nat)
  have "pow_int 10 (read_exponent CHR ''e'' []) = 1"
    by (simp add: pow_int_def read_exponent_def)
  then show ?thesis
    using m no letters round_double_int [OF _ assms]
    by (simp add: atof_unsigned_def split: prod.split)
qed

lemma atof_show_int:
  assumes "\<bar>i\<bar> \<le> 2 ^ 53"
  shows "atof (show_int i) = Fin (i < 0) (of_int \<bar>i\<bar>)"
proof (cases "i < 0")
  case True
  have "atof_unsigned True (show_nat (nat (- i))) = Fin True (of_int (int (nat (- i))))"
    by (rule atof_show_nat) (use assms True in auto)
  then show ?thesis using True by (simp add: atof_def show_int_def is_space_def)
next
  case False
  obtain c cs where s: "show_nat (nat i) = c # cs" by (cases "show_nat (nat i)") auto
  have "is_digit c" using show_nat_digits [of "nat i"] s by auto
  then have c: "\<not> is_space c" "c \<noteq> CHR ''-''" "c \<noteq> CHR ''+''"
    by (auto simp: digit_not_space) (simp_all add: is_digit_def)
  have "atof_unsigned False (show_nat (nat i)) = Fin False (of_int (int (nat i)))"
    by (rule atof_show_nat) (use assms False in auto)
  then show ?thesis using False s c by (simp add: atof_def show_int_def)
qed

text \<open>A numeric comparison of two printed integers is the comparison of the integers.\<close>

lemma atof_compare:
  assumes "\<bar>i\<bar> \<le> 2 ^ 53" and "\<bar>j\<bar> \<le> 2 ^ 53"
  shows "double_less (atof (show_int i)) (atof (show_int j)) \<longleftrightarrow> i < j"
    and "double_eq (atof (show_int i)) (atof (show_int j)) \<longleftrightarrow> i = j"
proof -
  have v: "signed_val (k < 0) (of_int \<bar>k\<bar>) = of_int k" for k by (simp add: signed_val_def)
  note e = atof_show_int [OF assms(1)] atof_show_int [OF assms(2)]
  show "double_less (atof (show_int i)) (atof (show_int j)) \<longleftrightarrow> i < j"
    unfolding e double_less.simps v by simp
  show "double_eq (atof (show_int i)) (atof (show_int j)) \<longleftrightarrow> i = j"
    unfolding e double_eq.simps v by simp
qed

text \<open>One past the bound the distinction is lost.\<close>

lemma floor_log2_2_53: "floor_log2 9007199254740993 = 53"
  using floor_log2_int [of 9007199254740993] ilog2_unique [of 53 9007199254740993] by simp

lemma atof_inexact: "atof ''9007199254740993'' = atof ''9007199254740992''"
proof -
  have "floor_log2 9007199254740992 = 53"
    using floor_log2_int [of 9007199254740992] ilog2_unique [of 53 9007199254740992] by simp
  note l = this floor_log2_2_53
  have f: "\<lfloor>9007199254740993 / (2 :: rat)\<rfloor> = 4503599627370496" by (rule floor_unique) simp_all
  have "round_double False 9007199254740993 = round_double False 9007199254740992"
    unfolding round_double_def l by (simp add: pow_int_def round_half_even_def f)
  then show ?thesis
    by (simp add: atof_def atof_unsigned_def has_word_def is_space_def read_mantissa_def digit_of_def to_lower_def
        Let_def pow_int_def read_exponent_def)
qed

end
