(* ===== verification/ResultSet.thy ===== *)
theory ResultSet
  imports CDouble "HOL-Library.Multiset"
begin

text \<open>
  The result sets of \<open>src/query_result.c\<close>. The linked list of rows is a list; \<open>row_count\<close> is its
  length and \<open>rows_tail\<close> its last element. A name, a type or a value may be the null pointer,
  \<open>None\<close>; reading through it, or before an array, makes the result of a function \<open>None\<close>.
  \<open>printf\<close> shows a null string as \<open>(null)\<close>, as glibc does. \<open>qsort\<close> is an argument: the C
  standard does not say how it orders elements that compare equal.
\<close>

type_synonym result_row = "string option list"

record result_set =
  rs_names :: "string option list"
  rs_types :: "string option list"
  rs_rows :: "result_row list"
  rs_memory :: nat

record sort_spec =
  column_index :: int
  column_name :: string
  descending :: bool
  is_numeric :: bool

abbreviation RESULT_MAX_COLUMNS :: nat where "RESULT_MAX_COLUMNS \<equiv> 64"
abbreviation sizeof_ResultSet :: nat where "sizeof_ResultSet \<equiv> 72"
abbreviation sizeof_ResultRow :: nat where "sizeof_ResultRow \<equiv> 24"

definition column_count :: "result_set \<Rightarrow> nat" where
  "column_count rs = length (rs_names rs)"

section \<open>Creation, columns, rows\<close>

definition is_numeric_string :: "string option \<Rightarrow> bool" where
  "is_numeric_string s =
     (case s of
        None \<Rightarrow> False
      | Some [] \<Rightarrow> False
      | Some (c # cs) \<Rightarrow>
          let r = (if c = CHR ''-'' \<or> c = CHR ''+'' then cs else c # cs)
          in length (filter (\<lambda>c. c = CHR ''.'') r) \<le> 1 \<and> (\<forall>c \<in> set r. c = CHR ''.'' \<or> is_digit c))"

definition result_set_create :: "int \<Rightarrow> result_set" where
  "result_set_create n =
     (let nulls = (if 0 < n \<and> n \<le> int RESULT_MAX_COLUMNS then replicate (nat n) None else [])
      in \<lparr>rs_names = nulls, rs_types = nulls, rs_rows = [], rs_memory = sizeof_ResultSet\<rparr>)"

definition result_set_clear :: "result_set \<Rightarrow> result_set" where
  "result_set_clear rs = rs\<lparr>rs_rows := []\<rparr>"

definition result_set_add_column :: "result_set \<Rightarrow> string option \<Rightarrow> string option \<Rightarrow> int \<times> result_set" where
  "result_set_add_column rs name type =
     (if RESULT_MAX_COLUMNS \<le> column_count rs then (-1, rs)
      else (int (column_count rs), rs\<lparr>rs_names := rs_names rs @ [name], rs_types := rs_types rs @ [type]\<rparr>))"

definition result_set_set_columns ::
    "result_set \<Rightarrow> string option list \<Rightarrow> string option list option \<Rightarrow> int \<times> result_set" where
  "result_set_set_columns rs names types =
     (if RESULT_MAX_COLUMNS < length names then (-1, rs)
      else (0, rs\<lparr>rs_names := names,
                  rs_types := (case types of Some ts \<Rightarrow> ts | None \<Rightarrow> replicate (length names) (Some ''TEXT''))\<rparr>))"

definition result_set_add_row :: "result_set \<Rightarrow> string option list \<Rightarrow> int \<times> result_set" where
  "result_set_add_row rs values =
     (if values = [] then (-1, rs)
      else (0, rs\<lparr>rs_rows := rs_rows rs @ [values],
                  rs_memory := rs_memory rs + sizeof_ResultRow + length values * 8\<rparr>))"

definition result_set_new_row :: "result_set \<Rightarrow> result_set" where
  "result_set_new_row rs = rs\<lparr>rs_rows := rs_rows rs @ [replicate (column_count rs) None]\<rparr>"

definition result_set_row_count :: "result_set option \<Rightarrow> int" where
  "result_set_row_count rs = (case rs of None \<Rightarrow> 0 | Some rs \<Rightarrow> int (length (rs_rows rs)))"

definition result_set_get_row :: "result_set \<Rightarrow> int \<Rightarrow> result_row option" where
  "result_set_get_row rs index =
     (if index < 0 \<or> int (length (rs_rows rs)) \<le> index then None else Some (rs_rows rs ! nat index))"

definition result_set_get_value :: "result_set \<Rightarrow> int \<Rightarrow> int \<Rightarrow> string option" where
  "result_set_get_value rs row_idx col =
     (case result_set_get_row rs row_idx of
        None \<Rightarrow> None
      | Some row \<Rightarrow> if col < 0 \<or> int (length row) \<le> col then None else row ! nat col)"

section \<open>ORDER BY\<close>

definition or_empty :: "string option \<Rightarrow> string" where
  "or_empty v = (case v of None \<Rightarrow> [] | Some s \<Rightarrow> s)"

definition double_cmp :: "double \<Rightarrow> double \<Rightarrow> int" where
  "double_cmp a b = (if double_less b a then 1 else 0) - (if double_less a b then 1 else 0)"

definition compare_values :: "sort_spec \<Rightarrow> string option \<Rightarrow> string option \<Rightarrow> int" where
  "compare_values spec va vb =
     (if is_numeric spec \<and> is_numeric_string va \<and> is_numeric_string vb
      then double_cmp (atof (or_empty va)) (atof (or_empty vb))
      else strcmp (or_empty va) (or_empty vb))"

fun compare_rows :: "sort_spec list \<Rightarrow> result_row \<Rightarrow> result_row \<Rightarrow> int option" where
  "compare_rows [] ra rb = Some 0"
| "compare_rows (spec # specs) ra rb =
     (let col = column_index spec in
      if int (length ra) \<le> col \<or> int (length rb) \<le> col then compare_rows specs ra rb
      else if col < 0 then None
      else
        let cmp = compare_values spec (ra ! nat col) (rb ! nat col)
        in if cmp \<noteq> 0 then Some (if descending spec then - cmp else cmp) else compare_rows specs ra rb)"

type_synonym qsort_fun = "(result_row \<Rightarrow> result_row \<Rightarrow> int) \<Rightarrow> result_row list \<Rightarrow> result_row list"

text \<open>The sort is undefined when some comparison of two of its rows is.\<close>

definition result_set_sort_multi :: "qsort_fun \<Rightarrow> result_set \<Rightarrow> sort_spec list \<Rightarrow> (int \<times> result_set) option" where
  "result_set_sort_multi qsort rs specs =
     (if specs = [] \<or> length (rs_rows rs) < 2 then Some (0, rs)
      else if \<exists>a \<in> set (rs_rows rs). \<exists>b \<in> set (rs_rows rs). compare_rows specs a b = None then None
      else Some (0, rs\<lparr>rs_rows := qsort (\<lambda>a b. the (compare_rows specs a b)) (rs_rows rs)\<rparr>))"

text \<open>The first column of that name; a null name before it is read by \<open>strcasecmp\<close>.\<close>

fun column_named :: "string \<Rightarrow> string option list \<Rightarrow> int \<Rightarrow> int option" where
  "column_named col [] j = Some (-1)"
| "column_named col (None # names) j = None"
| "column_named col (Some n # names) j =
     (if strcasecmp_eq n col then Some j else column_named col names (j + 1))"

definition type_in :: "string list \<Rightarrow> string option \<Rightarrow> bool" where
  "type_in types t = (case t of None \<Rightarrow> False | Some t \<Rightarrow> \<exists>u \<in> set types. strcasecmp_eq t u)"

definition result_set_sort :: "qsort_fun \<Rightarrow> result_set \<Rightarrow> string option \<Rightarrow> bool \<Rightarrow> (int \<times> result_set) option" where
  "result_set_sort qsort rs column desc =
     (case column of
        None \<Rightarrow> Some (0, rs)
      | Some col \<Rightarrow>
          if length (rs_rows rs) < 2 then Some (0, rs)
          else (case column_named col (rs_names rs) 0 of
                  None \<Rightarrow> None
                | Some j \<Rightarrow>
                    if j < 0 then Some (-1, rs)
                    else result_set_sort_multi qsort rs
                      [\<lparr>column_index = j, column_name = col, descending = desc,
                        is_numeric = type_in [''INT'', ''FLOAT''] (rs_types rs ! nat j)\<rparr>]))"

fun parse_order_by ::
    "(string \<times> bool) list \<Rightarrow> string option list \<Rightarrow> string option list option \<Rightarrow> sort_spec list option" where
  "parse_order_by [] names types = Some []"
| "parse_order_by ((col, desc) # cols) names types =
     (case column_named col names 0 of
        None \<Rightarrow> None
      | Some j \<Rightarrow>
          map_option (\<lambda>specs.
            \<lparr>column_index = j, column_name = col, descending = desc,
             is_numeric = (0 \<le> j \<and> (case types of None \<Rightarrow> False | Some ts \<Rightarrow> type_in [''INT'', ''FLOAT''] (ts ! nat j)))\<rparr> # specs)
            (parse_order_by cols names types))"

section \<open>LIMIT and OFFSET\<close>

fun skip_rows :: "int \<Rightarrow> int \<Rightarrow> result_row list \<Rightarrow> result_row list" where
  "skip_rows skipped offset [] = []"
| "skip_rows skipped offset (row # rows) =
     (if skipped < offset then skip_rows (skipped + 1) offset rows else row # rows)"

fun keep_rows :: "int \<Rightarrow> int \<Rightarrow> result_row list \<Rightarrow> result_row list" where
  "keep_rows kept limit [] = []"
| "keep_rows kept limit (row # rows) = (if kept < limit then row # keep_rows (kept + 1) limit rows else [])"

definition result_set_limit :: "result_set \<Rightarrow> int \<Rightarrow> int \<Rightarrow> result_set" where
  "result_set_limit rs limit offset =
     (if limit \<le> 0 \<and> offset \<le> 0 then rs
      else
        let rows = skip_rows 0 offset (rs_rows rs)
        in rs\<lparr>rs_rows := (if 0 < limit then keep_rows 0 limit rows else rows)\<rparr>)"

fun slice_loop :: "int \<Rightarrow> int \<Rightarrow> int \<Rightarrow> int \<Rightarrow> result_row list \<Rightarrow> result_set \<Rightarrow> result_set" where
  "slice_loop limit offset index added [] rs = rs"
| "slice_loop limit offset index added (row # rows) rs =
     (if offset \<le> index then
        (if limit \<le> 0 \<or> added < limit
         then slice_loop limit offset (index + 1) (added + 1) rows (snd (result_set_add_row rs row))
         else rs)
      else slice_loop limit offset (index + 1) added rows rs)"

definition result_set_slice :: "result_set \<Rightarrow> int \<Rightarrow> int \<Rightarrow> result_set" where
  "result_set_slice rs limit offset =
     (let slice = result_set_create (int (column_count rs));
          slice = snd (result_set_set_columns slice (rs_names rs) (Some (rs_types rs)))
      in slice_loop limit offset 0 0 (rs_rows rs) slice)"

section \<open>Printing\<close>

definition printf_s :: "string option \<Rightarrow> string" where
  "printf_s s = (case s of None \<Rightarrow> ''(null)'' | Some t \<Rightarrow> t)"

definition cell_or :: "string \<Rightarrow> result_row \<Rightarrow> nat \<Rightarrow> string" where
  "cell_or d row i = (if i < length row then (case row ! i of None \<Rightarrow> d | Some v \<Rightarrow> v) else d)"

definition csv_cell :: "string \<Rightarrow> string" where
  "csv_cell val =
     (if CHR '','' \<in> set val \<or> CHR 0x22 \<in> set val \<or> CHR 0x0A \<in> set val
      then [CHR 0x22] @ concat (map (\<lambda>c. if c = CHR 0x22 then [CHR 0x22, CHR 0x22] else [c]) val) @ [CHR 0x22]
      else val)"

text \<open>Each cell is followed by a comma or, the last one, by the end of the line.\<close>

fun csv_line :: "string list \<Rightarrow> string" where
  "csv_line [] = []"
| "csv_line [v] = v @ [CHR 0x0A]"
| "csv_line (v # vs) = v @ '','' @ csv_line vs"

definition result_set_print_csv :: "result_set \<Rightarrow> string" where
  "result_set_print_csv rs =
     csv_line (map printf_s (rs_names rs)) @
     concat (map (\<lambda>row. csv_line (map (\<lambda>i. csv_cell (cell_or [] row i)) [0..<column_count rs])) (rs_rows rs))"

definition quoted :: "string \<Rightarrow> string" where
  "quoted s = [CHR 0x22] @ s @ [CHR 0x22]"

fun separated :: "string \<Rightarrow> string list \<Rightarrow> string" where
  "separated sep [] = []"
| "separated sep [s] = s"
| "separated sep (s # ss) = s @ sep @ separated sep ss"

definition json_object :: "result_set \<Rightarrow> result_row \<Rightarrow> string" where
  "json_object rs row =
     separated '', '' (map (\<lambda>i. quoted (printf_s (rs_names rs ! i)) @ '': '' @ quoted (cell_or ''null'' row i)) [0..<column_count rs])"

definition result_set_print_json :: "result_set \<Rightarrow> string" where
  "result_set_print_json rs =
     ''['' @ [CHR 0x0A] @
     concat (map (\<lambda>k. ''  {'' @ json_object rs (rs_rows rs ! k) @ ''}'' @
                     (if k + 1 < length (rs_rows rs) then '','' else []) @ [CHR 0x0A]) [0..<length (rs_rows rs)]) @
     '']'' @ [CHR 0x0A]"

text \<open>\<open>%-*s\<close> and \<open>%-*.*s\<close>.\<close>

definition cell_pad :: "nat \<Rightarrow> string \<Rightarrow> string" where
  "cell_pad w s = s @ replicate (w - length s) CHR '' ''"

definition column_width :: "result_set \<Rightarrow> nat \<Rightarrow> nat option" where
  "column_width rs i =
     map_option (\<lambda>name. min 40 (foldl (\<lambda>w row. if i < length row then max w (length (cell_or ''NULL'' row i)) else w)
                                   (length name) (rs_rows rs)))
       (rs_names rs ! i)"

definition rule_line :: "nat list \<Rightarrow> string" where
  "rule_line ws = ''+'' @ concat (map (\<lambda>w. replicate (w + 2) CHR ''-'' @ ''+'') ws) @ [CHR 0x0A]"

definition cell_line :: "(nat \<times> string) list \<Rightarrow> string" where
  "cell_line cs = ''|'' @ concat (map (\<lambda>(w, s). '' '' @ cell_pad w s @ '' |'') cs) @ [CHR 0x0A]"

definition result_set_print_table :: "result_set \<Rightarrow> string option" where
  "result_set_print_table rs =
     (if \<exists>i \<in> set [0..<column_count rs]. column_width rs i = None then None
      else
        let ws = map (\<lambda>i. the (column_width rs i)) [0..<column_count rs]
        in Some (rule_line ws @ cell_line (zip ws (map printf_s (rs_names rs))) @ rule_line ws @
             concat (map (\<lambda>row. cell_line (map (\<lambda>i. (ws ! i, take (ws ! i) (cell_or ''NULL'' row i))) [0..<column_count rs]))
               (rs_rows rs)) @
             rule_line ws @ show_nat (length (rs_rows rs)) @ '' row(s) in set'' @ [CHR 0x0A]))"

section \<open>LIMIT and slices\<close>

lemma nat_step: "nat (b - (a + 1)) = nat (b - a) - Suc 0" "nat (b - (1 + a)) = nat (b - a) - Suc 0" for a b :: int
  by arith+

lemma skip_rows_drop: "skip_rows skipped offset rows = drop (nat (offset - skipped)) rows"
  by (induction skipped offset rows rule: skip_rows.induct) (auto simp: drop_Cons' nat_step)

lemma keep_rows_take: "keep_rows kept limit rows = take (nat (limit - kept)) rows"
  by (induction kept limit rows rule: keep_rows.induct) (auto simp: take_Cons' nat_step)

lemma limit_rows:
  "rs_rows (result_set_limit rs limit offset) =
     (if 0 < limit then take (nat limit) (drop (nat offset) (rs_rows rs)) else drop (nat offset) (rs_rows rs))"
  by (simp add: result_set_limit_def skip_rows_drop keep_rows_take Let_def)

lemma slice_loop_rows:
  assumes "[] \<notin> set rows"
  shows "rs_rows (slice_loop limit offset index added rows rs) =
    rs_rows rs @ (let rest = drop (nat (offset - index)) rows in if 0 < limit then take (nat (limit - added)) rest else rest)"
  using assms
proof (induction limit offset index added rows rs rule: slice_loop.induct)
  case (1 limit offset index added rs)
  then show ?case by simp
next
  case (2 limit offset index added row rows rs)
  show ?case
  proof (cases "offset \<le> index")
    case True
    then show ?thesis
      using 2 by (cases "limit \<le> 0 \<or> added < limit") (auto simp: result_set_add_row_def take_Cons' nat_step Let_def)
  next
    case False
    then have "nat (offset - index) = Suc (nat (offset - (index + 1)))" by simp
    then show ?thesis using 2 False by simp
  qed
qed

text \<open>The copying slice and the destructive LIMIT agree: both leave \<open>limit\<close> rows from
  \<open>offset\<close> on, all of them when the limit is not positive.\<close>

theorem slice_agrees_with_limit:
  assumes "[] \<notin> set (rs_rows rs)"
  shows "rs_rows (result_set_slice rs limit offset) = rs_rows (result_set_limit rs limit offset) \<and>
    rs_rows (result_set_limit rs limit offset) =
      (if 0 < limit then take (nat limit) else id) (drop (nat offset) (rs_rows rs))"
proof -
  have "rs_rows (snd (result_set_set_columns (result_set_create n) ns ts)) = []" for n ns ts
    by (simp add: result_set_set_columns_def result_set_create_def Let_def)
  then show ?thesis using assms
    by (simp add: result_set_slice_def slice_loop_rows limit_rows Let_def)
qed

definition small_set :: result_set where
  "small_set = \<lparr>rs_names = [Some ''a'', Some ''b''], rs_types = [Some ''INT'', None],
     rs_rows = [[Some ''1'', Some ''x''], [Some ''2'', None], [Some ''10'', Some ''q,r'']], rs_memory = 100\<rparr>"

theorem slice_agrees_with_limit_witness:
  "rs_rows (result_set_slice small_set 1 1) = [[Some ''2'', None]]"
  using slice_agrees_with_limit [of small_set 1 1] by (simp add: small_set_def)

section \<open>CSV\<close>

text \<open>A reader of CSV with quoted cells; the mode is the start of a cell, inside a plain or a quoted
  one, or after a quote.\<close>

datatype csv_mode = Start | Plain | Quoted | AfterQuote

fun csv_parse :: "csv_mode \<Rightarrow> string \<Rightarrow> string list \<Rightarrow> string \<Rightarrow> string list list" where
  "csv_parse m cur row [] = (if m = Start \<and> row = [] then [] else [row @ [cur]])"
| "csv_parse m cur row (c # cs) =
     (if m = Quoted then (if c = CHR 0x22 then csv_parse AfterQuote cur row cs else csv_parse Quoted (cur @ [c]) row cs)
      else if c = CHR 0x22 \<and> m = Start then csv_parse Quoted cur row cs
      else if c = CHR 0x22 \<and> m = AfterQuote then csv_parse Quoted (cur @ [c]) row cs
      else if c = CHR '','' then csv_parse Start [] (row @ [cur]) cs
      else if c = CHR 0x0A then (row @ [cur]) # csv_parse Start [] [] cs
      else csv_parse Plain (cur @ [c]) row cs)"

lemma csv_quoted:
  "csv_parse Quoted cur row (concat (map (\<lambda>c. if c = CHR 0x22 then [CHR 0x22, CHR 0x22] else [c]) v) @ CHR 0x22 # rest) =
   csv_parse AfterQuote (cur @ v) row rest"
  by (induction v arbitrary: cur) auto

definition csv_special :: "char set" where
  "csv_special = {CHR '','', CHR 0x22, CHR 0x0A}"

lemma csv_plain:
  assumes "set v \<inter> csv_special = {}" and "c = CHR '','' \<or> c = CHR 0x0A" and "m = Start \<or> m = Plain"
  shows "csv_parse m cur row (v @ c # rest) =
    (if c = CHR '','' then csv_parse Start [] (row @ [cur @ v]) rest else (row @ [cur @ v]) # csv_parse Start [] [] rest)"
  using assms
proof (induction v arbitrary: cur m)
  case Nil
  then show ?case by auto
next
  case (Cons d v)
  have d: "d \<noteq> CHR '',''" "d \<noteq> CHR 0x22" "d \<noteq> CHR 0x0A" using Cons.prems(1) by (auto simp: csv_special_def)
  have "csv_parse m cur row ((d # v) @ c # rest) = csv_parse Plain (cur @ [d]) row (v @ c # rest)"
    using d Cons.prems(3) by auto
  also have "\<dots> = (if c = CHR '','' then csv_parse Start [] (row @ [(cur @ [d]) @ v]) rest
      else (row @ [(cur @ [d]) @ v]) # csv_parse Start [] [] rest)"
    by (rule Cons.IH) (use Cons.prems in auto)
  finally show ?case by simp
qed

lemma csv_cell_read:
  assumes "c = CHR '','' \<or> c = CHR 0x0A"
  shows "csv_parse Start [] row (csv_cell v @ c # rest) =
    (if c = CHR '','' then csv_parse Start [] (row @ [v]) rest else (row @ [v]) # csv_parse Start [] [] rest)"
proof (cases "set v \<inter> csv_special = {}")
  case True
  then show ?thesis
    using csv_plain [OF True assms, of Start "[]"] by (auto simp: csv_cell_def csv_special_def)
next
  case False
  then have cell: "csv_cell v = CHR 0x22 #
      concat (map (\<lambda>c. if c = CHR 0x22 then [CHR 0x22, CHR 0x22] else [c]) v) @ [CHR 0x22]"
    by (auto simp: csv_cell_def csv_special_def)
  show ?thesis using assms by (auto simp: cell csv_quoted)
qed

lemma csv_line_read:
  assumes "vs \<noteq> []" and "list_all2 (\<lambda>p v. p = csv_cell v) ps vs"
  shows "csv_parse Start [] row (csv_line ps @ rest) = (row @ vs) # csv_parse Start [] [] rest"
  using assms
proof (induction ps arbitrary: vs row rule: csv_line.induct)
  case 1
  then show ?case by simp
next
  case (2 p)
  then obtain v where "vs = [v]" "p = csv_cell v" by (auto simp: list_all2_Cons1)
  then show ?case using csv_cell_read [of "CHR 0x0A" row v rest] by simp
next
  case (3 p q ps)
  then obtain v ws where vs: "vs = v # ws" "p = csv_cell v" "list_all2 (\<lambda>p v. p = csv_cell v) (q # ps) ws"
    by (auto simp: list_all2_Cons1)
  then have "ws \<noteq> []" by auto
  from 3(1) [OF this vs(3)] show ?case using vs csv_cell_read [of "CHR '',''" row v "csv_line (q # ps) @ rest"] by simp
qed

text \<open>Reading a printed CSV result gives back the header and every cell, whatever commas, quotes
  and line ends the values contain; a null value reads back as the empty string.\<close>

theorem csv_roundtrip:
  assumes "rs_names rs = map Some names" and "names \<noteq> []" and "\<forall>n \<in> set names. set n \<inter> csv_special = {}"
  shows "csv_parse Start [] [] (result_set_print_csv rs) =
    names # map (\<lambda>row. map (cell_or [] row) [0..<length names]) (rs_rows rs)"
proof -
  let ?cells = "\<lambda>row. map (cell_or [] row) [0..<length names]"
  have line: "csv_parse Start [] [] (csv_line (map (\<lambda>i. csv_cell (cell_or [] row i)) [0..<length names]) @ rest) =
      ?cells row # csv_parse Start [] [] rest" for row rest
    using assms(2) by (subst csv_line_read [where vs = "?cells row"]) (auto simp: list_all2_conv_all_nth)
  have body: "csv_parse Start [] [] (concat (map (\<lambda>row. csv_line (map (\<lambda>i. csv_cell (cell_or [] row i)) [0..<length names])) rows))
      = map ?cells rows" for rows
    by (induction rows) (simp_all add: line)
  have "csv_cell n = n" if "set n \<inter> csv_special = {}" for n using that by (auto simp: csv_cell_def csv_special_def)
  then have "list_all2 (\<lambda>p v. p = csv_cell v) (map printf_s (map Some names)) names"
    using assms(3) by (auto simp: list_all2_conv_all_nth printf_s_def)
  from csv_line_read [OF assms(2) this, of "[]"] show ?thesis
    by (simp add: result_set_print_csv_def column_count_def assms(1) body)
qed

theorem csv_roundtrip_witness:
  "csv_parse Start [] [] (result_set_print_csv small_set) =
     [[''a'', ''b''], [''1'', ''x''], [''2'', []], [''10'', ''q,r'']]"
  using csv_roundtrip [of small_set "[''a'', ''b'']"]
  by (simp add: small_set_def csv_special_def cell_or_def upt_rec)

section \<open>Sorting\<close>

text \<open>A comparison that \<open>qsort\<close> may be given, and what it then promises.\<close>

definition consistent :: "('a \<Rightarrow> 'a \<Rightarrow> int) \<Rightarrow> 'a set \<Rightarrow> bool" where
  "consistent cmp A \<longleftrightarrow> (\<forall>a \<in> A. \<forall>b \<in> A. cmp b a = - cmp a b) \<and>
     (\<forall>a \<in> A. \<forall>b \<in> A. \<forall>c \<in> A. cmp a b \<le> 0 \<and> cmp b c \<le> 0 \<longrightarrow> cmp a c \<le> 0)"

definition qsort_ok :: "qsort_fun \<Rightarrow> bool" where
  "qsort_ok qsort \<longleftrightarrow> (\<forall>cmp rows. mset (qsort cmp rows) = mset rows \<and>
     (consistent cmp (set rows) \<longrightarrow> sorted_wrt (\<lambda>a b. cmp a b \<le> 0) (qsort cmp rows)))"

lemma consistentI:
  assumes "\<And>a b. a \<in> A \<Longrightarrow> b \<in> A \<Longrightarrow> cmp b a = - cmp a b"
    and "\<And>a b c. a \<in> A \<Longrightarrow> b \<in> A \<Longrightarrow> c \<in> A \<Longrightarrow> cmp a b \<le> 0 \<Longrightarrow> cmp b c \<le> 0 \<Longrightarrow> cmp a c \<le> 0"
  shows "consistent cmp A"
  using assms unfolding consistent_def by blast

lemma consistent_swap: "consistent cmp A \<Longrightarrow> a \<in> A \<Longrightarrow> b \<in> A \<Longrightarrow> cmp b a = - cmp a b"
  unfolding consistent_def by blast

lemma consistent_trans:
  "consistent cmp A \<Longrightarrow> a \<in> A \<Longrightarrow> b \<in> A \<Longrightarrow> c \<in> A \<Longrightarrow> cmp a b \<le> 0 \<Longrightarrow> cmp b c \<le> 0 \<Longrightarrow> cmp a c \<le> 0"
  unfolding consistent_def by blast

lemma consistent_neg:
  assumes "consistent cmp A"
  shows "consistent (\<lambda>a b. - cmp a b) A"
proof (rule consistentI)
  fix a b assume "a \<in> A" "b \<in> A"
  then show "- cmp b a = - (- cmp a b)" using consistent_swap [OF assms] by metis
next
  fix a b c assume m: "a \<in> A" "b \<in> A" "c \<in> A" and "- cmp a b \<le> 0" "- cmp b c \<le> 0"
  then have "cmp b a \<le> 0" "cmp c b \<le> 0" using consistent_swap [OF assms] by metis+
  then have "cmp c a \<le> 0" by (rule consistent_trans [OF assms m(3,2,1), rotated])
  then show "- cmp a c \<le> 0" using consistent_swap [OF assms m(1,3)] by linarith
qed

lemma consistent_lex:
  assumes "consistent f A" and "consistent g A"
  shows "consistent (\<lambda>a b. if f a b \<noteq> 0 then f a b else g a b) A" (is "consistent ?h A")
proof (rule consistentI)
  fix a b assume m: "a \<in> A" "b \<in> A"
  show "?h b a = - ?h a b" using consistent_swap [OF assms(1) m] consistent_swap [OF assms(2) m] by simp
next
  fix a b c assume m: "a \<in> A" "b \<in> A" "c \<in> A" and le: "?h a b \<le> 0" "?h b c \<le> 0"
  have f: "f a b \<le> 0" "f b c \<le> 0" using le by (auto split: if_splits)
  show "?h a c \<le> 0"
  proof (cases "f a c = 0")
    case True
    then have ca: "f c a \<le> 0" using consistent_swap [OF assms(1) m(1,3)] by linarith
    have "f c b \<le> 0" by (rule consistent_trans [OF assms(1) m(3,1,2) ca f(1)])
    moreover have "f b a \<le> 0" by (rule consistent_trans [OF assms(1) m(2,3,1) f(2) ca])
    ultimately have "f a b = 0" "f b c = 0"
      using f consistent_swap [OF assms(1) m(1,2)] consistent_swap [OF assms(1) m(2,3)] by linarith+
    then show ?thesis using True le consistent_trans [OF assms(2) m] by simp
  next
    case False
    then show ?thesis using consistent_trans [OF assms(1) m f] by simp
  qed
qed

lemma double_cmp_swap: "double_cmp b a = - double_cmp a b"
  by (simp add: double_cmp_def)

lemma double_le_trans:
  assumes "\<not> double_less b a" and "\<not> double_less c b" and "\<forall>s. b \<noteq> NaN s"
  shows "\<not> double_less c a"
  using assms by (cases a; cases b; cases c) auto

lemma double_less_asym: "double_less a b \<Longrightarrow> \<not> double_less b a"
  by (cases a; cases b) auto

lemma numeric_not_nan:
  assumes "is_numeric_string (Some s)"
  shows "atof s \<noteq> NaN b"
proof -
  have no: "atof_unsigned neg t \<noteq> NaN b" if "\<forall>c \<in> set t. c = CHR ''.'' \<or> is_digit c" for neg t
  proof -
    have "\<not> has_word ''nan'' t"
    proof (cases t)
      case (Cons c cs)
      have c: "c = CHR ''.'' \<or> is_digit c" using that Cons by simp
      then have "to_lower c = c" by (elim disjE) (simp_all add: lower_digit, simp add: to_lower_def)
      moreover have "c \<noteq> CHR ''n''" using c by (auto simp: is_digit_def)
      ultimately have "to_lower c \<noteq> CHR ''n''" by simp
      then show ?thesis using Cons by (simp add: has_word_def)
    qed (simp add: has_word_def)
    then show ?thesis by (simp add: atof_unsigned_def round_double_def Let_def split: prod.split)
  qed
  obtain c cs where s: "s = c # cs" using assms by (cases s) (simp_all add: is_numeric_string_def)
  have a: "\<forall>d \<in> set (if c = CHR ''-'' \<or> c = CHR ''+'' then cs else s). d = CHR ''.'' \<or> is_digit d"
    using assms s by (simp add: is_numeric_string_def Let_def)
  have sp: "\<not> is_space c"
  proof (cases "c = CHR ''-'' \<or> c = CHR ''+''")
    case True
    then show ?thesis by (auto simp: is_space_def)
  next
    case False
    then have "c = CHR ''.'' \<or> is_digit c" using a s by simp
    then show ?thesis by (auto simp: digit_not_space) (simp add: is_space_def)
  qed
  have "atof s = atof_unsigned (c = CHR ''-'') (if c = CHR ''-'' \<or> c = CHR ''+'' then cs else s)"
    using s sp by (simp add: atof_def)
  then show ?thesis using no [OF a] by simp
qed

lemma strcmp_swap: "strcmp t s = - strcmp s t"
  by (induction s t rule: strcmp.induct) auto

lemma strcmp_le: "strcmp s t \<le> 0 \<longleftrightarrow> s \<le> t"
  using strcmp_greater [of s t] by (simp add: not_less [symmetric] del: strcmp_greater)

lemma compare_values_consistent:
  assumes "is_numeric spec \<Longrightarrow> \<forall>v \<in> A. is_numeric_string v"
  shows "consistent (compare_values spec) A"
proof (cases "is_numeric spec")
  case True
  then have num: "is_numeric_string v" "\<exists>s. v = Some s" if "v \<in> A" for v
    using assms that by (auto simp: is_numeric_string_def split: option.splits)
  have cv: "compare_values spec u v = double_cmp (atof (or_empty u)) (atof (or_empty v))" if "u \<in> A" "v \<in> A" for u v
    using True num that by (simp add: compare_values_def)
  have le: "double_cmp x y \<le> 0 \<longleftrightarrow> \<not> double_less y x" for x y
    using double_less_asym [of x y] by (auto simp: double_cmp_def)
  show ?thesis
  proof (rule consistentI)
    fix u v assume m: "u \<in> A" "v \<in> A"
    show "compare_values spec v u = - compare_values spec u v"
      unfolding cv [OF m] cv [OF m(2,1)] by (rule double_cmp_swap)
  next
    fix u v w assume m: "u \<in> A" "v \<in> A" "w \<in> A"
      and c: "compare_values spec u v \<le> 0" "compare_values spec v w \<le> 0"
    have "\<forall>s. atof (or_empty v) \<noteq> NaN s" using num [OF m(2)] numeric_not_nan by (auto simp: or_empty_def)
    then show "compare_values spec u w \<le> 0"
      using c unfolding cv [OF m(1,2)] cv [OF m(2,3)] cv [OF m(1,3)] le by (rule double_le_trans [rotated 2])
  qed
next
  case False
  then have cv: "compare_values spec u v = strcmp (or_empty u) (or_empty v)" for u v by (simp add: compare_values_def)
  show ?thesis
  proof (rule consistentI)
    fix u v show "compare_values spec v u = - compare_values spec u v" unfolding cv by (rule strcmp_swap)
  next
    fix u v w assume "compare_values spec u v \<le> 0" "compare_values spec v w \<le> 0"
    then show "compare_values spec u w \<le> 0" unfolding cv strcmp_le by (rule order_trans)
  qed
qed

text \<open>What ORDER BY needs of the rows: every sort column is there, and a numeric one holds numbers.\<close>

definition sortable :: "sort_spec list \<Rightarrow> result_row set \<Rightarrow> bool" where
  "sortable specs A \<longleftrightarrow> (\<forall>spec \<in> set specs. \<forall>row \<in> A.
     0 \<le> column_index spec \<and> column_index spec < int (length row) \<and>
     (is_numeric spec \<longrightarrow> is_numeric_string (row ! nat (column_index spec))))"

lemma compare_rows_consistent:
  assumes "sortable specs A"
  shows "(\<forall>a \<in> A. \<forall>b \<in> A. compare_rows specs a b \<noteq> None) \<and> consistent (\<lambda>a b. the (compare_rows specs a b)) A"
  using assms
proof (induction specs)
  case Nil
  then show ?case by (simp add: consistent_def)
next
  case (Cons spec specs)
  let ?i = "nat (column_index spec)" and ?g = "\<lambda>a b. the (compare_rows specs a b)"
  let ?f = "\<lambda>a b. if descending spec then - compare_values spec (a ! ?i) (b ! ?i) else compare_values spec (a ! ?i) (b ! ?i)"
  have ih: "\<forall>a \<in> A. \<forall>b \<in> A. compare_rows specs a b \<noteq> None" "consistent ?g A"
    using Cons by (auto simp: sortable_def)
  have ok: "0 \<le> column_index spec" "column_index spec < int (length a)" if "a \<in> A" for a
    using Cons.prems that by (auto simp: sortable_def)
  have eq: "compare_rows (spec # specs) a b = Some (if ?f a b \<noteq> 0 then ?f a b else ?g a b)" if "a \<in> A" "b \<in> A" for a b
    using ok [OF that(1)] ok [OF that(2)] ih(1) that by (auto simp: Let_def)
  have "consistent (compare_values spec) ((\<lambda>a. a ! ?i) ` A)"
    by (rule compare_values_consistent) (use Cons.prems in \<open>auto simp: sortable_def\<close>)
  then have f0: "consistent (\<lambda>a b. compare_values spec (a ! ?i) (b ! ?i)) A"
    by (intro consistentI) (auto intro: consistent_swap consistent_trans)
  have "consistent ?f A" using f0 consistent_neg [OF f0] by (cases "descending spec") simp_all
  from consistent_lex [OF this ih(2)] have l: "consistent (\<lambda>a b. if ?f a b \<noteq> 0 then ?f a b else ?g a b) A" .
  have "consistent (\<lambda>a b. the (compare_rows (spec # specs) a b)) A"
  proof (rule consistentI)
    fix a b assume m: "a \<in> A" "b \<in> A"
    show "the (compare_rows (spec # specs) b a) = - the (compare_rows (spec # specs) a b)"
      unfolding eq [OF m] eq [OF m(2,1)] option.sel by (rule consistent_swap [OF l m])
  next
    fix a b c assume m: "a \<in> A" "b \<in> A" "c \<in> A"
      and c: "the (compare_rows (spec # specs) a b) \<le> 0" "the (compare_rows (spec # specs) b c) \<le> 0"
    show "the (compare_rows (spec # specs) a c) \<le> 0"
      using c unfolding eq [OF m(1,2)] eq [OF m(2,3)] eq [OF m(1,3)] option.sel by (rule consistent_trans [OF l m])
  qed
  then show ?case using eq by auto
qed

text \<open>ORDER BY over several columns gives a permutation of the rows in which every row is at most
  each later one, compared by the first sort column that differs.\<close>

theorem sort_multi_correct:
  assumes "qsort_ok qsort" and "sortable specs (set (rs_rows rs))"
  shows "\<exists>rs'. result_set_sort_multi qsort rs specs = Some (0, rs') \<and>
    mset (rs_rows rs') = mset (rs_rows rs) \<and>
    sorted_wrt (\<lambda>a b. \<exists>c \<le> 0. compare_rows specs a b = Some c) (rs_rows rs')"
proof -
  let ?cmp = "\<lambda>a b. the (compare_rows specs a b)" and ?rows = "rs_rows rs"
  note c = compare_rows_consistent [OF assms(2)]
  have small: "sorted_wrt (\<lambda>a b. \<exists>c \<le> 0. compare_rows specs a b = Some c) ?rows" if "specs = [] \<or> length ?rows < 2"
  proof (cases "specs = []")
    case True
    then show ?thesis by (auto simp: sorted_wrt_iff_nth_less)
  next
    case False
    then have "length ?rows < 2" using that by simp
    then show ?thesis by (cases ?rows; cases "tl ?rows") auto
  qed
  show ?thesis
  proof (cases "specs = [] \<or> length ?rows < 2")
    case True
    then show ?thesis using small by (auto simp: result_set_sort_multi_def)
  next
    case False
    have m: "mset (qsort ?cmp ?rows) = mset ?rows" and s: "sorted_wrt (\<lambda>a b. ?cmp a b \<le> 0) (qsort ?cmp ?rows)"
      using assms(1) c by (auto simp: qsort_ok_def)
    have "set (qsort ?cmp ?rows) = set ?rows" using m by (metis set_mset_mset)
    with s c have "sorted_wrt (\<lambda>a b. \<exists>c \<le> 0. compare_rows specs a b = Some c) (qsort ?cmp ?rows)"
      by (intro sorted_wrt_mono_rel [OF _ s]) (metis option.collapse)
    with False m c show ?thesis by (auto simp: result_set_sort_multi_def)
  qed
qed

text \<open>A stable sort that keeps the promise, as glibc's merge sort does.\<close>

fun insert_by :: "('a \<Rightarrow> 'a \<Rightarrow> int) \<Rightarrow> 'a \<Rightarrow> 'a list \<Rightarrow> 'a list" where
  "insert_by cmp x [] = [x]"
| "insert_by cmp x (y # ys) = (if cmp x y \<le> 0 then x # y # ys else y # insert_by cmp x ys)"

definition stable_qsort :: "('a \<Rightarrow> 'a \<Rightarrow> int) \<Rightarrow> 'a list \<Rightarrow> 'a list" where
  "stable_qsort cmp xs = foldr (insert_by cmp) xs []"

lemma mset_insert_by: "mset (insert_by cmp x xs) = add_mset x (mset xs)"
  by (induction xs) auto

lemma mset_stable_qsort: "mset (stable_qsort cmp xs) = mset xs"
  by (induction xs) (simp_all add: stable_qsort_def mset_insert_by)

lemma set_insert_by: "set (insert_by cmp x xs) = insert x (set xs)"
  by (induction xs) auto

lemma sorted_insert_by:
  assumes "consistent cmp A" and "insert x (set xs) \<subseteq> A" and "sorted_wrt (\<lambda>a b. cmp a b \<le> 0) xs"
  shows "sorted_wrt (\<lambda>a b. cmp a b \<le> 0) (insert_by cmp x xs)"
  using assms(2,3)
proof (induction xs)
  case Nil
  then show ?case by simp
next
  case (Cons y ys)
  have A: "x \<in> A" "y \<in> A" "\<And>z. z \<in> set ys \<Longrightarrow> z \<in> A" using Cons.prems(1) by auto
  show ?case
  proof (cases "cmp x y \<le> 0")
    case True
    have "cmp x z \<le> 0" if "z \<in> set ys" for z
      by (rule consistent_trans [OF assms(1) A(1,2)]) (use A that True Cons.prems(2) in auto)
    then show ?thesis using True Cons.prems(2) by auto
  next
    case False
    have "cmp y x \<le> 0" using consistent_swap [OF assms(1) A(1,2)] False by simp
    then show ?thesis using False Cons by (auto simp: set_insert_by)
  qed
qed

lemma stable_qsort_ok: "qsort_ok stable_qsort"
  unfolding qsort_ok_def
proof (intro allI conjI impI)
  fix cmp :: "result_row \<Rightarrow> result_row \<Rightarrow> int" and rows
  show "mset (stable_qsort cmp rows) = mset rows" by (rule mset_stable_qsort)
  assume c: "consistent cmp (set rows)"
  have s: "set (stable_qsort cmp xs) = set xs" for xs using mset_stable_qsort [of cmp xs] by (metis set_mset_mset)
  have "sorted_wrt (\<lambda>a b. cmp a b \<le> 0) (stable_qsort cmp xs)" if "set xs \<subseteq> set rows" for xs
    using that
  proof (induction xs)
    case Nil
    then show ?case by (simp add: stable_qsort_def)
  next
    case (Cons x xs)
    have "stable_qsort cmp (x # xs) = insert_by cmp x (stable_qsort cmp xs)" by (simp add: stable_qsort_def)
    then show ?case using Cons sorted_insert_by [OF c, of x "stable_qsort cmp xs"] by (auto simp: s)
  qed
  then show "sorted_wrt (\<lambda>a b. cmp a b \<le> 0) (stable_qsort cmp rows)" by blast
qed

theorem sort_multi_correct_witness:
  "\<exists>rs'. result_set_sort_multi stable_qsort small_set
       [\<lparr>column_index = 1, column_name = ''b'', descending = True, is_numeric = False\<rparr>] = Some (0, rs') \<and>
     mset (rs_rows rs') = mset (rs_rows small_set)"
  using sort_multi_correct [OF stable_qsort_ok, of
      "[\<lparr>column_index = 1, column_name = ''b'', descending = True, is_numeric = False\<rparr>]" small_set]
  by (force simp: sortable_def small_set_def)

section \<open>ORDER BY an INT column\<close>

lemma show_int_numeric: "is_numeric_string (Some (show_int i))"
proof -
  have d: "filter (\<lambda>c. c = CHR ''.'') (show_nat n) = []" "\<forall>c \<in> set (show_nat n). is_digit c" for n
    using show_nat_digits [of n] by (auto simp: filter_empty_conv is_digit_def)
  obtain c cs where "show_nat (nat i) = c # cs" by (cases "show_nat (nat i)") auto
  with d [of "nat i"] d [of "nat (- i)"] show ?thesis
    by (auto simp: show_int_def is_numeric_string_def Let_def is_digit_def split: list.split)
qed

lemma double_cmp_ints:
  assumes "\<bar>i\<bar> \<le> 2 ^ 53" and "\<bar>j\<bar> \<le> 2 ^ 53"
  shows "double_cmp (atof (show_int i)) (atof (show_int j)) \<le> 0 \<longleftrightarrow> i \<le> j"
  using atof_compare(1) [OF assms] atof_compare(1) [OF assms(2,1)] by (simp add: double_cmp_def)

text \<open>Sorting by an INT column puts its integers in order, ascending or descending, while they
  are at most 2 to the 53 in absolute value.\<close>

theorem sort_by_int_column:
  assumes "qsort_ok qsort" and "column_named col (rs_names rs) 0 = Some (int j)"
    and "j < length (rs_types rs)" and "rs_types rs ! j = Some ''INT''"
    and "\<forall>row \<in> set (rs_rows rs). j < length row \<and> row ! j = Some (show_int (key row)) \<and> \<bar>key row\<bar> \<le> 2 ^ 53"
    and "2 \<le> length (rs_rows rs)"
  shows "\<exists>rs'. result_set_sort qsort rs (Some col) desc = Some (0, rs') \<and> mset (rs_rows rs') = mset (rs_rows rs) \<and>
    sorted (if desc then rev (map key (rs_rows rs')) else map key (rs_rows rs'))"
proof -
  let ?spec = "\<lparr>column_index = int j, column_name = col, descending = desc, is_numeric = True\<rparr>"
  have num: "type_in [''INT'', ''FLOAT''] (rs_types rs ! j)" using assms(4) by (simp add: type_in_def strcasecmp_eq_def)
  have "sortable [?spec] (set (rs_rows rs))" using assms(5) by (auto simp: sortable_def show_int_numeric)
  from sort_multi_correct [OF assms(1) this] obtain rs' where rs': "result_set_sort_multi qsort rs [?spec] = Some (0, rs')"
    "mset (rs_rows rs') = mset (rs_rows rs)"
    "sorted_wrt (\<lambda>a b. \<exists>c \<le> 0. compare_rows [?spec] a b = Some c) (rs_rows rs')" by blast
  have set: "set (rs_rows rs') = set (rs_rows rs)" using rs'(2) by (metis set_mset_mset)
  have cmp: "compare_rows [?spec] a b =
      Some (let c = double_cmp (atof (show_int (key a))) (atof (show_int (key b))) in if desc then - c else c)"
    if "a \<in> set (rs_rows rs)" "b \<in> set (rs_rows rs)" for a b
  proof -
    have "j < length a" "j < length b" "a ! j = Some (show_int (key a))" "b ! j = Some (show_int (key b))"
      using assms(5) that by auto
    then show ?thesis by (auto simp: compare_values_def or_empty_def show_int_numeric Let_def)
  qed
  have le: "if desc then key b \<le> key a else key a \<le> key b"
    if "a \<in> set (rs_rows rs')" "b \<in> set (rs_rows rs')" "\<exists>c \<le> 0. compare_rows [?spec] a b = Some c" for a b
  proof -
    have m: "a \<in> set (rs_rows rs)" "b \<in> set (rs_rows rs)" using that set by auto
    then have k: "\<bar>key a\<bar> \<le> 2 ^ 53" "\<bar>key b\<bar> \<le> 2 ^ 53" using assms(5) by auto
    show ?thesis using that(3) double_cmp_ints [OF k] double_cmp_ints [OF k(2,1)]
      double_cmp_swap [of "atof (show_int (key b))" "atof (show_int (key a))"] cmp [OF m]
      by (auto simp: Let_def split: if_splits)
  qed
  have "sorted_wrt (\<lambda>a b. if desc then key b \<le> key a else key a \<le> key b) (rs_rows rs')"
    by (rule sorted_wrt_mono_rel [OF le rs'(3)])
  then have "sorted (if desc then rev (map key (rs_rows rs')) else map key (rs_rows rs'))"
    by (cases desc) (simp_all add: sorted_wrt_map sorted_wrt_rev)
  moreover have "result_set_sort qsort rs (Some col) desc = Some (0, rs')"
    using assms(2,6) num rs'(1) by (simp add: result_set_sort_def)
  ultimately show ?thesis using rs'(2) by blast
qed

theorem sort_by_int_column_witness:
  "\<exists>rs'. result_set_sort stable_qsort small_set (Some ''A'') True = Some (0, rs') \<and>
     mset (rs_rows rs') = mset (rs_rows small_set)"
proof -
  let ?key = "\<lambda>row :: result_row. atoi (or_empty (row ! 0))"
  have s: "show_int 1 = ''1''" "show_int 2 = ''2''" "show_int 10 = ''10''"
    by (simp_all add: show_int_def show_nat.simps digit_char_def char_of_def bit_0)
  have a: "atoi ''1'' = 1" "atoi ''2'' = 2" "atoi ''10'' = 10"
    by (simp_all add: atoi_def is_space_def is_digit_def)
  show ?thesis
    using sort_by_int_column [OF stable_qsort_ok, of "''A''" small_set 0 ?key True]
    by (auto simp: small_set_def s a or_empty_def strcasecmp_eq_def to_lower_def char_of_def bit_0)
qed

text \<open>Numbers and other texts in one numeric column are not ordered: 9 is before 10, 10 before
  \<open>1a\<close>, and \<open>1a\<close> before 9.\<close>

theorem mixed_column_is_not_ordered:
  assumes "is_numeric spec"
  shows "compare_values spec (Some ''9'') (Some ''10'') < 0 \<and> compare_values spec (Some ''10'') (Some ''1a'') < 0 \<and>
    compare_values spec (Some ''1a'') (Some ''9'') < 0"
proof -
  have s: "show_int 9 = ''9''" "show_int 10 = ''10''" by (simp_all add: show_int_def show_nat.simps digit_char_def char_of_def bit_0)
  have n: "is_numeric_string (Some ''9'')" "is_numeric_string (Some ''10'')" "\<not> is_numeric_string (Some ''1a'')"
    by (simp_all add: is_numeric_string_def is_digit_def)
  have "compare_values spec (Some ''9'') (Some ''10'') = double_cmp (atof (show_int 9)) (atof (show_int 10))"
    using assms n by (simp add: compare_values_def or_empty_def s)
  moreover have "\<dots> < 0" using atof_compare(1) [of 9 10] atof_compare(1) [of 10 9] by (simp add: double_cmp_def)
  ultimately show ?thesis using n by (simp add: compare_values_def or_empty_def less_char_def)
qed

end
