(* ===== verification/QueryCache.thy ===== *)
theory QueryCache
  imports ResultSet
begin

text \<open>
  The query cache of \<open>src/query_result.c\<close>, a global guarded by a mutex. The array of entries is
  the list of the first \<open>count\<close>; the time is an argument. \<open>None\<close> from \<open>query_cache_put\<close> means that
  its eviction loop does not end.
\<close>

record cache_entry =
  query_hash :: string
  query_text :: string
  cached :: result_set
  created_at :: int
  hit_count :: int
  valid :: bool

record query_cache =
  qc_entries :: "cache_entry list"
  qc_capacity :: nat
  total_memory :: u64
  max_memory :: u64
  hits :: u64
  misses :: u64
  evictions :: u64
  cache_initialized :: bool

abbreviation RESULT_CACHE_SIZE :: nat where "RESULT_CACHE_SIZE \<equiv> 256"
abbreviation RESULT_CACHE_TTL :: int where "RESULT_CACHE_TTL \<equiv> 300"

definition result_memory :: "result_set \<Rightarrow> u64" where
  "result_memory rs = word_of_nat (rs_memory rs)"

section \<open>Hashing\<close>

definition result_hash_query :: "string \<Rightarrow> u32" where
  "result_hash_query query =
     foldl (\<lambda>hash c. (push_bit 5 hash + hash) + word_of_int (char_int (to_lower c))) 5381 query"

definition hex_digit :: "nat \<Rightarrow> char" where
  "hex_digit n = char_of (if n < 10 then 48 + n else 87 + n)"

definition result_hash_query_str :: "string \<Rightarrow> string" where
  "result_hash_query_str query =
     map (\<lambda>i. hex_digit (unat (result_hash_query query) div 16 ^ i mod 16)) [7, 6, 5, 4, 3, 2, 1, 0]"

section \<open>Operations\<close>

definition query_cache_init :: "u64 \<Rightarrow> query_cache \<Rightarrow> query_cache" where
  "query_cache_init max_mem c =
     (if cache_initialized c then c
      else \<lparr>qc_entries = [], qc_capacity = RESULT_CACHE_SIZE, total_memory = 0,
            max_memory = (if 0 < max_mem then max_mem else 64 * 1024 * 1024),
            hits = 0, misses = 0, evictions = 0, cache_initialized = True\<rparr>)"

definition query_cache_shutdown :: "query_cache \<Rightarrow> query_cache" where
  "query_cache_shutdown c =
     (if \<not> cache_initialized c then c
      else \<lparr>qc_entries = [], qc_capacity = 0, total_memory = 0, max_memory = 0,
            hits = 0, misses = 0, evictions = 0, cache_initialized = False\<rparr>)"

fun oldest_index :: "cache_entry list \<Rightarrow> nat \<Rightarrow> nat \<Rightarrow> int \<Rightarrow> nat" where
  "oldest_index [] i oldest_idx oldest_time = oldest_idx"
| "oldest_index (e # es) i oldest_idx oldest_time =
     (if created_at e < oldest_time then oldest_index es (i + 1) i (created_at e)
      else oldest_index es (i + 1) oldest_idx oldest_time)"

definition evict_oldest_entry :: "query_cache \<Rightarrow> query_cache" where
  "evict_oldest_entry c =
     (case qc_entries c of
        [] \<Rightarrow> c
      | e # es \<Rightarrow>
          let i = oldest_index es 1 0 (created_at e)
          in c\<lparr>total_memory := total_memory c - result_memory (cached (qc_entries c ! i)),
               qc_entries := take i (qc_entries c) @ drop (i + 1) (qc_entries c),
               evictions := evictions c + 1\<rparr>)"

definition must_evict :: "u64 \<Rightarrow> query_cache \<Rightarrow> bool" where
  "must_evict mem c \<longleftrightarrow> qc_capacity c \<le> length (qc_entries c) \<or> max_memory c < total_memory c + mem"

partial_function (option) evict_loop :: "u64 \<Rightarrow> query_cache \<Rightarrow> query_cache option" where
  "evict_loop mem c = (if must_evict mem c then evict_loop mem (evict_oldest_entry c) else Some c)"

declare evict_loop.simps [code]

fun update_entry :: "string \<Rightarrow> (cache_entry \<Rightarrow> cache_entry) \<Rightarrow> cache_entry list \<Rightarrow> cache_entry list option" where
  "update_entry h f [] = None"
| "update_entry h f (e # es) =
     (if query_hash e = h then Some (f e # es) else map_option (Cons e) (update_entry h f es))"

definition query_cache_put :: "int \<Rightarrow> string \<Rightarrow> result_set \<Rightarrow> query_cache \<Rightarrow> (int \<times> query_cache) option" where
  "query_cache_put now query result c =
     (if \<not> cache_initialized c then Some (-1, c)
      else
        let hash = result_hash_query_str query
        in case update_entry hash (\<lambda>e. e\<lparr>cached := result, created_at := now\<rparr>) (qc_entries c) of
             Some es \<Rightarrow> Some (0, c\<lparr>qc_entries := es\<rparr>)
           | None \<Rightarrow>
               (case evict_loop (result_memory result) c of
                  None \<Rightarrow> None
                | Some c \<Rightarrow>
                    Some (0, c\<lparr>qc_entries := qc_entries c @
                                 [\<lparr>query_hash = hash, query_text = query, cached = result, created_at = now,
                                   hit_count = 0, valid = True\<rparr>],
                               total_memory := total_memory c + result_memory result\<rparr>)))"

text \<open>The loop of \<open>query_cache_get\<close>: the entries after it, and the result.\<close>

fun get_loop :: "int \<Rightarrow> string \<Rightarrow> cache_entry list \<Rightarrow> cache_entry list \<times> result_set option" where
  "get_loop now h [] = ([], None)"
| "get_loop now h (e # es) =
     (if query_hash e = h then
        if now - created_at e > RESULT_CACHE_TTL then (e\<lparr>valid := False\<rparr> # es, None)
        else if valid e then (e\<lparr>hit_count := hit_count e + 1\<rparr> # es, Some (cached e))
        else (let (es, r) = get_loop now h es in (e # es, r))
      else (let (es, r) = get_loop now h es in (e # es, r)))"

definition query_cache_get :: "int \<Rightarrow> string \<Rightarrow> query_cache \<Rightarrow> result_set option \<times> query_cache" where
  "query_cache_get now query c =
     (if \<not> cache_initialized c then (None, c)
      else
        let (es, r) = get_loop now (result_hash_query_str query) (qc_entries c)
        in (r, case r of
                 None \<Rightarrow> c\<lparr>qc_entries := es, misses := misses c + 1\<rparr>
               | Some _ \<Rightarrow> c\<lparr>qc_entries := es, hits := hits c + 1\<rparr>))"

fun strcasestr :: "string \<Rightarrow> string \<Rightarrow> bool" where
  "strcasestr [] needle = (needle = [])"
| "strcasestr (c # cs) needle =
     (map to_lower (take (length needle) (c # cs)) = map to_lower needle \<or> strcasestr cs needle)"

definition query_cache_invalidate :: "string \<Rightarrow> query_cache \<Rightarrow> query_cache" where
  "query_cache_invalidate table_name c =
     (if \<not> cache_initialized c then c
      else c\<lparr>qc_entries := map (\<lambda>e. if strcasestr (query_text e) table_name then e\<lparr>valid := False\<rparr> else e) (qc_entries c)\<rparr>)"

definition query_cache_clear :: "query_cache \<Rightarrow> query_cache" where
  "query_cache_clear c =
     (if \<not> cache_initialized c then c else c\<lparr>qc_entries := [], total_memory := 0\<rparr>)"

definition query_cache_stats :: "query_cache \<Rightarrow> u64 \<times> u64 \<times> u64" where
  "query_cache_stats c = (hits c, misses c, evictions c)"

section \<open>The invariant\<close>

text \<open>At most one entry per hash, and room within the capacity.\<close>

definition cache_wf :: "query_cache \<Rightarrow> bool" where
  "cache_wf c \<longleftrightarrow> cache_initialized c \<and> distinct (map query_hash (qc_entries c)) \<and>
     length (qc_entries c) \<le> qc_capacity c"

lemma update_entry_None: "update_entry h f es = None \<longleftrightarrow> h \<notin> query_hash ` set es"
  by (induction es) auto

lemma update_entry_hashes:
  assumes "\<And>e. query_hash (f e) = query_hash e" and "update_entry h f es = Some es'"
  shows "map query_hash es' = map query_hash es"
  using assms(2) by (induction es arbitrary: es') (auto simp: assms(1) split: if_splits)

lemma oldest_index_bound: "j < i \<Longrightarrow> oldest_index es i j t < i + length es"
proof (induction es arbitrary: i j t)
  case Nil
  then show ?case by simp
next
  case (Cons e es)
  then show ?case using Cons.IH [of i "i + 1" "created_at e"] Cons.IH [of j "i + 1" t] by auto
qed

lemma find_append: "List.find P (xs @ ys) = (case List.find P xs of None \<Rightarrow> List.find P ys | Some x \<Rightarrow> Some x)"
  by (induction xs) auto

lemma find_hash_None: "List.find (\<lambda>e. query_hash e = h) es = None \<longleftrightarrow> h \<notin> query_hash ` set es"
  by (induction es) auto

lemma evict_oldest:
  assumes "qc_entries c \<noteq> []"
  obtains xs e ys where "qc_entries c = xs @ e # ys" "qc_entries (evict_oldest_entry c) = xs @ ys"
    "total_memory (evict_oldest_entry c) = total_memory c - result_memory (cached e)"
    "qc_capacity (evict_oldest_entry c) = qc_capacity c" "max_memory (evict_oldest_entry c) = max_memory c"
    "cache_initialized (evict_oldest_entry c) = cache_initialized c"
proof -
  obtain e es where es: "qc_entries c = e # es" using assms by (cases "qc_entries c") auto
  define i where "i = oldest_index es 1 0 (created_at e)"
  have i: "i < length (qc_entries c)" unfolding i_def es using oldest_index_bound [of 0 1 es "created_at e"] by simp
  have "evict_oldest_entry c = c\<lparr>total_memory := total_memory c - result_memory (cached (qc_entries c ! i)),
      qc_entries := take i (qc_entries c) @ drop (i + 1) (qc_entries c), evictions := evictions c + 1\<rparr>"
    by (simp add: evict_oldest_entry_def es i_def Let_def)
  then show thesis
    using that [of "take i (qc_entries c)" "qc_entries c ! i" "drop (i + 1) (qc_entries c)"] id_take_nth_drop [OF i] by simp
qed

lemma evict_wf: "cache_wf c \<Longrightarrow> cache_wf (evict_oldest_entry c)"
proof (cases "qc_entries c = []")
  case False
  assume wf: "cache_wf c"
  obtain xs e ys where "qc_entries c = xs @ e # ys" "qc_entries (evict_oldest_entry c) = xs @ ys"
    "qc_capacity (evict_oldest_entry c) = qc_capacity c"
    "cache_initialized (evict_oldest_entry c) = cache_initialized c"
    using evict_oldest [OF False] by metis
  then show ?thesis using wf by (auto simp: cache_wf_def)
qed (simp add: evict_oldest_entry_def)

lemma evict_sub: "set (qc_entries (evict_oldest_entry c)) \<subseteq> set (qc_entries c)"
proof (cases "qc_entries c = []")
  case False
  obtain xs e ys where "qc_entries c = xs @ e # ys" "qc_entries (evict_oldest_entry c) = xs @ ys"
    by (rule evict_oldest [OF False])
  then show ?thesis by auto
qed (simp add: evict_oldest_entry_def)

lemma evict_loop_keeps:
  assumes "evict_loop mem c = Some c'" and "Q c" and "\<And>c. Q c \<Longrightarrow> Q (evict_oldest_entry c)"
  shows "Q c' \<and> \<not> must_evict mem c'"
proof -
  have "Q c \<longrightarrow> Q c' \<and> \<not> must_evict mem c'" if "evict_loop mem c = Some c'" for c c'
    using that
  proof (rule evict_loop.raw_induct [rotated])
    fix loop mem c c'
    assume "\<And>mem c c'. loop mem c = Some c' \<Longrightarrow> Q c \<longrightarrow> Q c' \<and> \<not> must_evict mem c'"
      and "(if must_evict mem c then loop mem (evict_oldest_entry c) else Some c) = Some c'"
    then show "Q c \<longrightarrow> Q c' \<and> \<not> must_evict mem c'" using assms(3) by (cases "must_evict mem c") auto
  qed
  then show ?thesis using assms(1,2) by blast
qed

lemma evict_loop_wf:
  assumes "evict_loop mem c = Some c'" and "cache_wf c"
  shows "cache_wf c'" and "set (qc_entries c') \<subseteq> set (qc_entries c)" and "\<not> must_evict mem c'"
proof -
  have step: "cache_wf (evict_oldest_entry d) \<and> set (qc_entries (evict_oldest_entry d)) \<subseteq> set (qc_entries c)"
    if "cache_wf d \<and> set (qc_entries d) \<subseteq> set (qc_entries c)" for d
    using that evict_wf [of d] evict_sub [of d] by blast
  have "(cache_wf c' \<and> set (qc_entries c') \<subseteq> set (qc_entries c)) \<and> \<not> must_evict mem c'"
    by (rule evict_loop_keeps [where Q = "\<lambda>d. cache_wf d \<and> set (qc_entries d) \<subseteq> set (qc_entries c)"])
      (use assms step in auto)
  then show "cache_wf c'" "set (qc_entries c') \<subseteq> set (qc_entries c)" "\<not> must_evict mem c'" by auto
qed

section \<open>What a lookup gives after a put\<close>

definition entry_for :: "string \<Rightarrow> query_cache \<Rightarrow> cache_entry option" where
  "entry_for query c = List.find (\<lambda>e. query_hash e = result_hash_query_str query) (qc_entries c)"

lemma get_loop_find:
  assumes "distinct (map query_hash es)"
  shows "snd (get_loop now h es) =
    (case List.find (\<lambda>e. query_hash e = h) es of
       None \<Rightarrow> None
     | Some e \<Rightarrow> if valid e \<and> now - created_at e \<le> RESULT_CACHE_TTL then Some (cached e) else None)"
  using assms
proof (induction es)
  case Nil
  then show ?case by simp
next
  case (Cons e es)
  have "List.find (\<lambda>e. query_hash e = h) es = None" if "query_hash e = h"
    using Cons.prems that by (simp add: find_hash_None)
  with Cons show ?case by (auto simp: case_prod_unfold Let_def)
qed

lemma cache_get_entry:
  assumes "cache_wf c"
  shows "fst (query_cache_get now query c) =
    (case entry_for query c of
       None \<Rightarrow> None
     | Some e \<Rightarrow> if valid e \<and> now - created_at e \<le> RESULT_CACHE_TTL then Some (cached e) else None)"
  using get_loop_find [of "qc_entries c" now] assms
  by (simp add: query_cache_get_def entry_for_def cache_wf_def case_prod_unfold Let_def)

lemma update_entry_find:
  assumes "update_entry h f es = Some es'" and "\<And>e. query_hash (f e) = query_hash e"
  shows "List.find (\<lambda>e. query_hash e = h) es' = map_option f (List.find (\<lambda>e. query_hash e = h) es)"
  using assms(1) by (induction es arbitrary: es') (auto simp: assms(2) split: if_splits)

lemma put_entry:
  assumes "cache_wf c" and "query_cache_put now query result c = Some (r, c')"
  shows "cache_wf c' \<and> entry_for query c' = Some (case entry_for query c of
       Some e \<Rightarrow> e\<lparr>cached := result, created_at := now\<rparr>
     | None \<Rightarrow> \<lparr>query_hash = result_hash_query_str query, query_text = query, cached = result, created_at = now,
               hit_count = 0, valid = True\<rparr>)"
proof -
  let ?h = "result_hash_query_str query" and ?f = "\<lambda>e :: cache_entry. e\<lparr>cached := result, created_at := now\<rparr>"
  have init: "cache_initialized c" using assms(1) by (simp add: cache_wf_def)
  show ?thesis
  proof (cases "update_entry ?h ?f (qc_entries c)")
    case None
    then have h: "?h \<notin> query_hash ` set (qc_entries c)" by (simp add: update_entry_None)
    then have "entry_for query c = None" by (simp add: entry_for_def find_hash_None)
    obtain d where d: "evict_loop (result_memory result) c = Some d"
      "c' = d\<lparr>qc_entries := qc_entries d @ [\<lparr>query_hash = ?h, query_text = query, cached = result, created_at = now,
              hit_count = 0, valid = True\<rparr>], total_memory := total_memory d + result_memory result\<rparr>"
      using assms(2) None init by (auto simp: query_cache_put_def Let_def split: option.splits)
    note w = evict_loop_wf [OF d(1) assms(1)]
    have "?h \<notin> query_hash ` set (qc_entries d)" using h w(2) by auto
    moreover have "List.find (\<lambda>e. query_hash e = ?h) (qc_entries d) = None" using calculation by (simp add: find_hash_None)
    ultimately show ?thesis using w(1,3) \<open>entry_for query c = None\<close>
      by (auto simp: d(2) cache_wf_def must_evict_def entry_for_def find_append)
  next
    case (Some es)
    then have c': "c' = c\<lparr>qc_entries := es\<rparr>" using assms(2) init by (simp add: query_cache_put_def)
    have f: "query_hash (?f e) = query_hash e" for e by simp
    have "map query_hash es = map query_hash (qc_entries c)" by (rule update_entry_hashes [OF f Some])
    then have "cache_wf c'" using assms(1) by (auto simp: c' cache_wf_def dest: arg_cong [of _ _ length])
    moreover have "entry_for query c \<noteq> None"
      using Some update_entry_None [of ?h ?f "qc_entries c"] by (simp add: entry_for_def find_hash_None)
    ultimately show ?thesis using update_entry_find [OF Some f] by (auto simp: c' entry_for_def)
  qed
qed

text \<open>When a put returns, a lookup of the query within the next 300 seconds, or of any text with the
  same hash, gives the cached result, unless an entry for the hash was already there and had been
  marked invalid: then no lookup ever gives it.\<close>

theorem query_cache_put_then_get:
  assumes "cache_wf c" and "query_cache_put now query result c = Some (r, c')"
    and "result_hash_query_str query' = result_hash_query_str query"
  shows "fst (query_cache_get later query' c') =
    (if (\<exists>e. entry_for query c = Some e \<and> \<not> valid e) \<or> later - now > RESULT_CACHE_TTL then None else Some result)"
proof -
  have "entry_for query' c' = entry_for query c'" by (simp add: entry_for_def assms(3))
  then show ?thesis using put_entry [OF assms(1,2)] cache_get_entry [of c' later query']
    by (auto split: option.splits)
qed

text \<open>Queries that differ only in the case of letters, inside string literals too, have one hash.\<close>

lemma hash_ignores_case:
  assumes "map to_lower q = map to_lower q'"
  shows "result_hash_query_str q = result_hash_query_str q'"
proof -
  have "result_hash_query q = foldl (\<lambda>hash c. (push_bit 5 hash + hash) + word_of_int (char_int c)) 5381 (map to_lower q)" for q
    by (simp add: result_hash_query_def foldl_map)
  then show ?thesis using assms by (simp add: result_hash_query_str_def)
qed

definition empty_cache :: query_cache where
  "empty_cache = query_cache_init 1000
     \<lparr>qc_entries = [], qc_capacity = 0, total_memory = 0, max_memory = 0, hits = 0, misses = 0, evictions = 0,
      cache_initialized = False\<rparr>"

lemma put_empty: "\<exists>c. query_cache_put 5 q small_set empty_cache = Some (0, c)"
proof -
  have "\<not> must_evict (result_memory small_set) empty_cache"
    by (simp add: must_evict_def empty_cache_def query_cache_init_def result_memory_def small_set_def)
  then have "evict_loop (result_memory small_set) empty_cache = Some empty_cache"
    by (subst evict_loop.simps) simp
  then show ?thesis by (simp add: query_cache_put_def empty_cache_def query_cache_init_def)
qed

theorem query_cache_put_then_get_witness:
  "\<exists>c. query_cache_put 5 ''x = 'BOB' '' small_set empty_cache = Some (0, c) \<and>
     fst (query_cache_get 200 ''x = 'bob' '' c) = Some small_set"
proof -
  obtain c where c: "query_cache_put 5 ''x = 'BOB' '' small_set empty_cache = Some (0, c)" using put_empty by blast
  have "result_hash_query_str ''x = 'bob' '' = result_hash_query_str ''x = 'BOB' ''"
    by (rule hash_ignores_case) (simp add: to_lower_def char_of_def bit_0)
  moreover have "cache_wf empty_cache" "entry_for q empty_cache = None" for q
    by (simp_all add: cache_wf_def empty_cache_def query_cache_init_def entry_for_def)
  ultimately show ?thesis using query_cache_put_then_get [OF _ c, of "''x = 'bob' ''" 200] c by auto
qed

section \<open>Results larger than the cache\<close>

definition accounted :: "query_cache \<Rightarrow> bool" where
  "accounted c \<longleftrightarrow> total_memory c = sum_list (map (\<lambda>e. result_memory (cached e)) (qc_entries c))"

lemma evict_accounted: "accounted c \<Longrightarrow> accounted (evict_oldest_entry c)"
proof (cases "qc_entries c = []")
  case False
  assume a: "accounted c"
  obtain xs e ys where "qc_entries c = xs @ e # ys" "qc_entries (evict_oldest_entry c) = xs @ ys"
    "total_memory (evict_oldest_entry c) = total_memory c - result_memory (cached e)"
    by (rule evict_oldest [OF False])
  then show ?thesis using a by (simp add: accounted_def)
qed (simp add: evict_oldest_entry_def)

definition cached_bytes :: "query_cache \<Rightarrow> nat" where
  "cached_bytes c = sum_list (map (\<lambda>e. unat (result_memory (cached e))) (qc_entries c))"

lemma accounted_unat:
  assumes "accounted c" and "cached_bytes c + unat mem < 2 ^ 64"
  shows "unat (total_memory c + mem) = cached_bytes c + unat mem"
proof -
  have "unat (sum_list (map f es)) = sum_list (map (\<lambda>e. unat (f e)) es)"
    if "sum_list (map (\<lambda>e. unat (f e)) es) < 2 ^ 64" for f :: "cache_entry \<Rightarrow> u64" and es
    using that by (induction es) (simp_all add: unat_word_ariths)
  then have "unat (total_memory c) = cached_bytes c" using assms by (simp add: accounted_def cached_bytes_def)
  then show ?thesis using assms(2) by (simp add: unat_word_ariths)
qed

text \<open>A result larger than the memory the cache may use is never cached: when its query is not in
  the cache, the eviction loop of the put empties the cache and then goes on for ever, under the
  mutex.\<close>

theorem oversized_put_hangs:
  assumes "cache_initialized c" and "accounted c" and "entry_for query c = None"
    and "max_memory c < result_memory result"
    and "cached_bytes c + unat (result_memory result) < 2 ^ 64"
  shows "query_cache_put now query result c = None"
proof -
  let ?mem = "result_memory result"
  let ?Q = "\<lambda>d. accounted d \<and> cached_bytes d + unat ?mem < 2 ^ 64 \<and> max_memory d = max_memory c"
  have step: "?Q (evict_oldest_entry d)" if "?Q d" for d
  proof (cases "qc_entries d = []")
    case True
    then show ?thesis using that by (simp add: evict_oldest_entry_def)
  next
    case False
    obtain xs e ys where "qc_entries d = xs @ e # ys" "qc_entries (evict_oldest_entry d) = xs @ ys"
      "max_memory (evict_oldest_entry d) = max_memory d"
      by (rule evict_oldest [OF False])
    then show ?thesis using that evict_accounted [of d] by (simp add: cached_bytes_def)
  qed
  have "evict_loop ?mem c = None"
  proof (rule ccontr)
    assume "evict_loop ?mem c \<noteq> None"
    then obtain d where "evict_loop ?mem c = Some d" by auto
    then have d: "?Q d \<and> \<not> must_evict ?mem d"
      by (rule evict_loop_keeps [where Q = ?Q]) (use assms step in auto)
    then have "unat (total_memory d + ?mem) \<ge> unat ?mem" using accounted_unat [of d ?mem] by simp
    moreover have "total_memory d + ?mem \<le> max_memory c" using d by (auto simp: must_evict_def)
    ultimately show False using assms(4) by (simp add: word_le_nat_alt word_less_nat_alt)
  qed
  moreover have "update_entry (result_hash_query_str query) f (qc_entries c) = None" for f
    using assms(3) by (simp add: update_entry_None entry_for_def find_hash_None)
  ultimately show ?thesis using assms(1) by (simp add: query_cache_put_def)
qed

theorem oversized_put_hangs_witness:
  "query_cache_put 0 ''SELECT'' (small_set\<lparr>rs_memory := 1001\<rparr>) empty_cache = None"
  by (rule oversized_put_hangs)
    (simp_all add: empty_cache_def query_cache_init_def accounted_def cached_bytes_def entry_for_def result_memory_def)

text \<open>Replacing a cached result does not adjust the total, so the next eviction can make it wrap
  around: a small result that is replaced by a larger one and evicted leaves a total near 2 to
  the 64.\<close>

theorem replaced_result_breaks_total:
  assumes "cache_initialized c" and "qc_entries c = [e]" and "query_hash e = result_hash_query_str query"
    and "accounted c" and "result_memory (cached e) < result_memory result"
    and "query_cache_put now query result c = Some (0, c')"
  shows "\<not> accounted c' \<and> qc_entries (evict_oldest_entry c') = [] \<and>
    total_memory (evict_oldest_entry c') = - (result_memory result - result_memory (cached e)) \<and>
    total_memory (evict_oldest_entry c') \<noteq> 0"
proof -
  have c': "c' = c\<lparr>qc_entries := [e\<lparr>cached := result, created_at := now\<rparr>]\<rparr>"
    using assms by (simp add: query_cache_put_def)
  then show ?thesis using assms(2,4,5) by (auto simp: accounted_def evict_oldest_entry_def)
qed

end
