(* ===== verification/SystemCatalog.thy ===== *)
theory SystemCatalog
  imports KVStore "HOL-Library.Monad_Syntax"
begin

text \<open>
  \<open>src/system.c\<close> and \<open>src/auth.c\<close>: the databases, tables and users that live in the
  key-value store under keys built with \<open>sprintf\<close>. A key that does not fit its buffer is
  undefined behaviour, \<open>None\<close>. What is printed to the client is the string it is, escape
  codes of \<open>src/include/colors.h\<close> included.
\<close>

section \<open>Text\<close>

definition ansi :: "string \<Rightarrow> string" where
  "ansi code = CHR 0x1B # ''['' @ code @ ''m''"

abbreviation ANSI_RED :: string where "ANSI_RED \<equiv> ansi ''31''"
abbreviation ANSI_GREEN :: string where "ANSI_GREEN \<equiv> ansi ''32''"
abbreviation ANSI_YELLOW :: string where "ANSI_YELLOW \<equiv> ansi ''33''"
abbreviation ANSI_CYAN :: string where "ANSI_CYAN \<equiv> ansi ''36''"
abbreviation ANSI_BOLD :: string where "ANSI_BOLD \<equiv> ansi ''1''"
abbreviation ANSI_RESET :: string where "ANSI_RESET \<equiv> ansi ''0''"

abbreviation end_line :: string where "end_line \<equiv> [CHR 0x0A]"

text \<open>\<open>%-ns\<close>, and \<open>sprintf\<close> into \<open>n\<close> bytes.\<close>

definition pad_right :: "nat \<Rightarrow> string \<Rightarrow> string" where
  "pad_right n s = s @ replicate (n - length s) CHR '' ''"

definition sprintf_buf :: "nat \<Rightarrow> string \<Rightarrow> string option" where
  "sprintf_buf n s = (if length s < n then Some s else None)"

text \<open>\<open>strncmp(s, p, strlen(p)) == 0\<close>.\<close>

definition has_prefix :: "string \<Rightarrow> string \<Rightarrow> bool" where
  "has_prefix p s \<longleftrightarrow> take (length p) s = p"

lemma sprintf_buf_Some [simp]: "sprintf_buf n s = Some t \<longleftrightarrow> length s < n \<and> t = s"
  by (auto simp: sprintf_buf_def)

lemma sprintf_buf_None [simp]: "sprintf_buf n s = None \<longleftrightarrow> n \<le> length s"
  by (auto simp: sprintf_buf_def)

lemma has_prefix_append [simp]: "has_prefix p (p @ s)"
  by (simp add: has_prefix_def)

section \<open>Values\<close>

text \<open>An \<open>int\<close> stored as its four bytes, and read back through a cast of \<open>data\<close>.\<close>

definition int_value :: "int \<Rightarrow> kv_value" where
  "int_value i = \<lparr>val_data = le_encode 4 (unat (word_of_int i :: u32)), val_type = VAL_TYPE_ROW\<rparr>"

definition read_int :: "kv_value \<Rightarrow> int option" where
  "read_int v = map_option (\<lambda>(n, rest). int_of_u32 n) (get_le 4 (val_data v))"

lemma read_int_value:
  assumes "- (2 ^ 31) \<le> i" and "i < 2 ^ 31"
  shows "read_int (int_value i) = Some i"
proof -
  define n where "n = unat (word_of_int i :: u32)"
  have n: "int n = i mod 2 ^ 32" by (simp add: n_def uint_word_of_int flip: uint_nat)
  have "int_of_u32 n = i"
  proof (cases "0 \<le> i")
    case True
    then have "i mod 2 ^ 32 = i" using assms by (intro mod_pos_pos_trivial) auto
    then show ?thesis using n assms True by (simp add: int_of_u32_def)
  next
    case False
    then have "i mod 2 ^ 32 = i + 2 ^ 32"
      using assms by (subst mod_add_self2 [symmetric], intro mod_pos_pos_trivial) auto
    then show ?thesis using n assms False by (simp add: int_of_u32_def)
  qed
  moreover have "n < 256 ^ 4" using n pos_mod_bound [of "2 ^ 32" i] by simp
  ultimately show ?thesis by (simp add: read_int_def int_value_def get_le_def le_decode_encode flip: n_def)
qed

section \<open>Key generators\<close>

definition sys_generate_key_table :: "string \<Rightarrow> string \<Rightarrow> string \<Rightarrow> string option" where
  "sys_generate_key_table db tbl pk = sprintf_buf 512 (''DB:'' @ db @ '':TBL:'' @ tbl @ '':'' @ pk)"

definition sys_generate_key_schema :: "string \<Rightarrow> string \<Rightarrow> string option" where
  "sys_generate_key_schema db tbl = sprintf_buf 512 (''DB:'' @ db @ '':META:TBL:'' @ tbl)"

definition sys_generate_key_seq :: "string \<Rightarrow> string \<Rightarrow> string option" where
  "sys_generate_key_seq db tbl = sprintf_buf 512 (''DB:'' @ db @ '':SEQ:'' @ tbl)"

section \<open>Databases\<close>

definition sys_db_exists :: "kv_store \<Rightarrow> string \<Rightarrow> bool option" where
  "sys_db_exists s dbname =
     do { key \<leftarrow> sprintf_buf 256 (''SYS:DB:'' @ dbname);
          Some (kv_get s key \<noteq> None) }"

definition sys_create_db :: "bytes \<Rightarrow> kv_env \<Rightarrow> kv_store \<Rightarrow> string \<Rightarrow> (int \<times> kv_store) option" where
  "sys_create_db junk env s dbname =
     do { key \<leftarrow> sprintf_buf 256 (''SYS:DB:'' @ dbname);
          if kv_get s key \<noteq> None then Some (0, s)
          else do { s \<leftarrow> kv_put junk env s key (int_value 1); Some (1, s) } }"

definition sys_init :: "bytes \<Rightarrow> kv_env \<Rightarrow> kv_store \<Rightarrow> kv_store option" where
  "sys_init junk env s =
     do { b \<leftarrow> sys_db_exists s ''public'';
          if b then Some s
          else do { (r, s) \<leftarrow> sys_create_db junk env s ''public''; Some s } }"

definition drop_db_scan_callback :: "string \<Rightarrow> string \<Rightarrow> kv_value \<Rightarrow> string list \<Rightarrow> string list" where
  "drop_db_scan_callback pre key v keys = (if has_prefix pre key then keys @ [key] else keys)"

definition sys_drop_db :: "kv_env \<Rightarrow> kv_store \<Rightarrow> string \<Rightarrow> (int \<times> kv_store) option" where
  "sys_drop_db env s dbname =
     do { b \<leftarrow> sys_db_exists s dbname;
          if \<not> b then Some (0, s)
          else if dbname = ''public'' then Some (-1, s)
          else do {
            pre \<leftarrow> sprintf_buf 256 (''DB:'' @ dbname @ '':'');
            let keys = kv_iterate (drop_db_scan_callback pre) (entries s) [];
            let s = foldl (kv_delete env) s keys;
            sysKey \<leftarrow> sprintf_buf 256 (''SYS:DB:'' @ dbname);
            Some (1, kv_delete env s sysKey) } }"

definition show_db_callback :: "string \<Rightarrow> kv_value \<Rightarrow> string \<times> nat \<Rightarrow> string \<times> nat" where
  "show_db_callback key v c =
     (if has_prefix ''SYS:DB:'' key
      then (fst c @ ANSI_CYAN @ ''  | '' @ ANSI_YELLOW @ pad_right 20 (drop 7 key) @ ANSI_CYAN @ '' |'' @ end_line @ ANSI_RESET,
            snd c + 1)
      else c)"

definition sys_show_dbs :: "kv_store \<Rightarrow> string" where
  "sys_show_dbs s =
     (let head = end_line @ ''  '' @ ANSI_BOLD @ ''Available Databases'' @ ANSI_RESET @ end_line @
            ANSI_CYAN @ ''  +----------------------+'' @ end_line @
            ''  | Name                 |'' @ end_line @
            ''  +----------------------+'' @ end_line @ ANSI_RESET;
          (lines, n) = kv_iterate show_db_callback (entries s) ([], 0)
      in head @ lines @
         (if n = 0 then ANSI_RED @ ''  | (No databases)       |'' @ end_line @ ANSI_RESET else []) @
         ANSI_CYAN @ ''  +----------------------+'' @ end_line @ ANSI_RESET @ end_line)"

definition show_table_callback :: "string \<Rightarrow> string \<Rightarrow> kv_value \<Rightarrow> string \<times> nat \<Rightarrow> string \<times> nat" where
  "show_table_callback pre key v c =
     (if has_prefix pre key
      then (fst c @ ANSI_CYAN @ ''  | '' @ ANSI_YELLOW @ pad_right 15 (drop (length pre) key) @ ANSI_CYAN @ '' | '' @
              ANSI_GREEN @ ''Table'' @ ANSI_CYAN @ ''  |'' @ end_line @ ANSI_RESET,
            snd c + 1)
      else c)"

definition sys_show_tables :: "kv_store \<Rightarrow> string \<Rightarrow> string option" where
  "sys_show_tables s current_db =
     do { pre \<leftarrow> sprintf_buf 256 (''DB:'' @ current_db @ '':META:TBL:'');
          let head = end_line @ ''  '' @ ANSI_BOLD @ ''List of relations in '' @ [CHR 0x27] @ current_db @ [CHR 0x27] @
                ANSI_RESET @ end_line @
                ANSI_CYAN @ ''  +-----------------+--------+'' @ end_line @
                ''  | Name            | Type   |'' @ end_line @
                ''  +-----------------+--------+'' @ end_line @ ANSI_RESET;
          let (lines, n) = kv_iterate (show_table_callback pre) (entries s) ([], 0 :: nat);
          Some (head @ lines @
            (if n = 0 then ANSI_RED @ ''  | (No tables)     |        |'' @ end_line @ ANSI_RESET else []) @
            ANSI_CYAN @ ''  +-----------------+--------+'' @ end_line @ ANSI_RESET @ end_line) }"

section \<open>Users\<close>

record user_info =
  username :: string
  is_admin :: bool

definition hash_password :: "string \<Rightarrow> u64" where
  "hash_password str = djb2 str"

definition auth_create_user ::
    "bytes \<Rightarrow> kv_env \<Rightarrow> kv_store \<Rightarrow> string \<Rightarrow> string \<Rightarrow> (int \<times> kv_store) option" where
  "auth_create_user junk env s name password =
     do { key \<leftarrow> sprintf_buf 64 (''SYS:USER:'' @ name);
          if kv_get s key \<noteq> None then Some (0, s)
          else do {
            let phash = hash_password password;
            s \<leftarrow> kv_put junk env s key \<lparr>val_data = le_encode 8 (unat phash), val_type = VAL_TYPE_ROW\<rparr>;
            Some (1, s) } }"

definition auth_init :: "bytes \<Rightarrow> kv_env \<Rightarrow> kv_store \<Rightarrow> kv_store option" where
  "auth_init junk env s =
     (if kv_get s ''SYS:USER:admin'' = None
      then do { (r, s) \<leftarrow> auth_create_user junk env s ''admin'' ''admin''; Some s }
      else Some s)"

text \<open>The result and what is written to \<open>user_out\<close>, which the callers pass.\<close>

definition auth_verify_user :: "kv_store \<Rightarrow> string \<Rightarrow> string \<Rightarrow> user_info option option" where
  "auth_verify_user s name password =
     do { key \<leftarrow> sprintf_buf 64 (''SYS:USER:'' @ name);
          case kv_get s key of
            None \<Rightarrow> Some None
          | Some v \<Rightarrow>
              do { (stored_hash, rest) \<leftarrow> get_le 8 (val_data v);
                   if word_of_nat stored_hash = hash_password password
                   then Some (Some \<lparr>username = take 31 name, is_admin = (strcmp name ''admin'' = 0)\<rparr>)
                   else Some None } }"

section \<open>Dropping a database\<close>

lemma drop_db_keys:
  "kv_iterate (drop_db_scan_callback pre) es acc = acc @ filter (has_prefix pre) (map entry_key (live es))"
  by (induction es arbitrary: acc) (simp_all add: drop_db_scan_callback_def live_def)

text \<open>A deletion never brings a key back.\<close>

lemma kv_clear_lookup_sub: "kv_lookup (kv_clear es k) \<kappa> = None \<or> kv_lookup (kv_clear es k) \<kappa> = kv_lookup es \<kappa>"
  by (simp add: kv_clear_lookup split: probe.split)

lemma kv_get_delete: "kv_get (kv_delete env s k) \<kappa> = kv_lookup (kv_clear (entries s) k) \<kappa>"
  by (simp add: kv_get_def)

lemma kv_get_delete_None: "kv_get s \<kappa> = None \<or> \<kappa> = k \<Longrightarrow> kv_get (kv_delete env s k) \<kappa> = None"
  using kv_clear_lookup_sub [of "entries s" k \<kappa>] kv_clear_lookup_same [of "entries s" k]
  by (auto simp: kv_get_delete) (simp add: kv_get_def)

lemma delete_all_None:
  "kv_get s \<kappa> = None \<or> \<kappa> \<in> set keys \<Longrightarrow> kv_get (foldl (kv_delete env) s keys) \<kappa> = None"
  by (induction keys arbitrary: s) (auto simp: kv_get_delete_None)

lemma kv_get_live: "kv_get s \<kappa> \<noteq> None \<Longrightarrow> \<kappa> \<in> set (map entry_key (live (entries s)))"
proof -
  assume "kv_get s \<kappa> \<noteq> None"
  then obtain i where "probe_from_home (entries s) \<kappa> = Found i"
    by (auto simp: kv_get_def kv_lookup_def split: probe.splits)
  note probe_Found(1-3) [OF this]
  then have "entries s ! i \<in> set (live (entries s))" by (simp add: live_def)
  with \<open>entry_key (entries s ! i) = \<kappa>\<close> show ?thesis by (metis image_eqI set_map)
qed

text \<open>The keys a DROP DATABASE deletes.\<close>

definition of_database :: "string \<Rightarrow> string \<Rightarrow> bool" where
  "of_database db key \<longleftrightarrow> has_prefix (''DB:'' @ db @ '':'') key \<or> key = ''SYS:DB:'' @ db"

text \<open>What deletions of keys in \<open>D\<close> do to the slots: they stay, or lose an entry with such a key.\<close>

definition slot_kept :: "(string \<Rightarrow> bool) \<Rightarrow> kv_entry \<Rightarrow> kv_entry \<Rightarrow> bool" where
  "slot_kept D e e' \<longleftrightarrow> e' = e \<or> D (entry_key e) \<and> e' = e\<lparr>occupied := False\<rparr>"

lemma slots_kept_delete:
  assumes "D k"
  shows "list_all2 (slot_kept D) (entries s) (entries (kv_delete env s k))"
  using probe_Found [of "entries s" k] assms
  by (auto simp: list_all2_conv_all_nth slot_kept_def kv_clear_def nth_list_update split: probe.split)

lemma slots_kept_trans:
  "list_all2 (slot_kept D) es fs \<Longrightarrow> list_all2 (slot_kept D) fs gs \<Longrightarrow> list_all2 (slot_kept D) es gs"
  by (rule list_all2_trans [of "slot_kept D" "slot_kept D"]) (auto simp: slot_kept_def)

lemma slots_kept_all:
  "\<forall>k \<in> set keys. D k \<Longrightarrow> list_all2 (slot_kept D) (entries s) (entries (foldl (kv_delete env) s keys))"
proof (induction keys arbitrary: s)
  case Nil
  then show ?case by (simp add: list_all2_conv_all_nth slot_kept_def)
next
  case (Cons k keys)
  have "list_all2 (slot_kept D) (entries (kv_delete env s k)) (entries (foldl (kv_delete env) (kv_delete env s k) keys))"
    by (rule Cons.IH) (use Cons.prems in simp)
  moreover have "list_all2 (slot_kept D) (entries s) (entries (kv_delete env s k))"
    by (rule slots_kept_delete) (use Cons.prems in simp)
  ultimately show ?case unfolding foldl_Cons by (blast intro: slots_kept_trans)
qed

lemma live_kept:
  "list_all2 (slot_kept D) es fs \<Longrightarrow> filter (\<lambda>e. \<not> D (entry_key e)) (live fs) = filter (\<lambda>e. \<not> D (entry_key e)) (live es)"
  unfolding live_def by (induction rule: list_all2_induct) (auto simp: slot_kept_def)

text \<open>A lookup reads the slots on the path of its key only.\<close>

lemma lookup_same_on_path:
  assumes "length fs = length es" and "\<forall>i \<in> path es key. fs ! i = es ! i"
  shows "kv_lookup fs key = kv_lookup es key"
proof (cases "es = []")
  case False
  have at: "slot_at fs key j = slot_at es key j" for j using assms(1) by (simp add: slot_at_def home_def)
  have "stops fs key (slot_at es key j) = stops es key (slot_at es key j)" if "j \<in> path_offsets es key" for j
    using assms(2) that by (simp add: stops_def path_def)
  then have stops: "\<forall>j \<le> k. stops fs key (slot_at fs key j) = stops es key (slot_at es key j)" if "k \<in> path_offsets es key" for k
    using that by (auto simp: at path_offsets_def)
  have same: "probe_from_home fs key = probe_from_home es key"
    using probe_from_home_cases [OF False, of key]
  proof (elim disjE bexE conjE)
    fix k assume k: "k \<in> path_offsets es key" "stops es key (slot_at es key k)"
      "probe_from_home es key = outcome es (slot_at es key k)"
    have "k \<in> path_offsets fs key" "stops fs key (slot_at fs key k)"
      using stops [OF k(1)] k(1,2) assms(1) by (auto simp: path_offsets_def)
    from probe_at [OF _ this] have "probe_from_home fs key = outcome fs (slot_at es key k)"
      using False assms(1) at by (cases fs) auto
    moreover have "fs ! slot_at es key k = es ! slot_at es key k" using assms(2) k(1) by (simp add: path_def)
    ultimately show ?thesis using k(3) by (simp add: outcome_def)
  next
    assume none: "\<forall>k < length es. \<not> stops es key (slot_at es key k)" and full: "probe_from_home es key = Full"
    have "\<not> stops fs key (slot_at fs key k)" if "k < length es" for k
      using none that stops [of k] by (auto simp: path_offsets_def)
    moreover have "fs \<noteq> []" using False assms(1) by (cases fs) auto
    ultimately show ?thesis using probe_full [of fs key] full assms(1) by auto
  qed
  have "fs ! i = es ! i" if "probe_from_home es key = Found i" for i
    using that found_on_path assms(2) by blast
  then show ?thesis by (auto simp: kv_lookup_def same split: probe.split)
qed (use assms(1) in simp)

lemma lookup_kept:
  assumes "list_all2 (slot_kept D) es fs" and "\<forall>i \<in> path es key. occupied (es ! i) \<longrightarrow> \<not> D (entry_key (es ! i))"
  shows "kv_lookup fs key = kv_lookup es key"
proof (rule lookup_same_on_path)
  show "length fs = length es" using assms(1) by (simp add: list_all2_lengthD)
  show "\<forall>i \<in> path es key. fs ! i = es ! i"
  proof
    fix i assume i: "i \<in> path es key"
    then have "i < length es" by (auto simp: path_def path_offsets_def slot_at_def intro!: mod_less_divisor)
    then have "slot_kept D (es ! i) (fs ! i)" using assms(1) by (simp add: list_all2_conv_all_nth)
    then show "fs ! i = es ! i" using assms(2) i by (auto simp: slot_kept_def)
  qed
qed

definition drop_demo :: "kv_entry list" where
  "drop_demo = [\<lparr>entry_key = ''DB:d:TBL:t:1'', entry_val = int_value 7, occupied = True\<rparr>,
     \<lparr>entry_key = ''DB:e:TBL:t:1'', entry_val = int_value 8, occupied = True\<rparr>,
     \<lparr>entry_key = ''SYS:DB:d'', entry_val = int_value 1, occupied = True\<rparr>]"

text \<open>C38: DROP DATABASE returns 1 only for a database that exists and is not \<open>public\<close>. It then leaves
  no key of the database and no registry entry that a lookup finds. It deletes nothing else: the
  entries with other keys are the ones before, with their values and in their order, so a scan sees
  them as before; a lookup of another key gives what it gave before when no key that was deleted lies
  on its probe path, and in any case the old value or nothing.\<close>

theorem sys_drop_db_correct:
  assumes "sys_drop_db env s dbname = Some (1, s')"
  shows "dbname \<noteq> ''public'' \<and> kv_get s (''SYS:DB:'' @ dbname) \<noteq> None \<and>
    kv_get s' (''SYS:DB:'' @ dbname) = None \<and>
    (\<forall>\<kappa>. has_prefix (''DB:'' @ dbname @ '':'') \<kappa> \<longrightarrow> kv_get s' \<kappa> = None) \<and>
    filter (\<lambda>e. \<not> of_database dbname (entry_key e)) (live (entries s')) =
      filter (\<lambda>e. \<not> of_database dbname (entry_key e)) (live (entries s)) \<and>
    (\<forall>\<kappa>. (\<forall>i \<in> path (entries s) \<kappa>. occupied (entries s ! i) \<longrightarrow> \<not> of_database dbname (entry_key (entries s ! i))) \<longrightarrow>
      kv_get s' \<kappa> = kv_get s \<kappa>) \<and>
    (\<forall>\<kappa>. kv_get s' \<kappa> = None \<or> kv_get s' \<kappa> = kv_get s \<kappa>)"
proof -
  let ?pre = "''DB:'' @ dbname @ '':''" and ?sys = "''SYS:DB:'' @ dbname"
  let ?keys = "filter (has_prefix ?pre) (map entry_key (live (entries s)))"
  let ?t = "foldl (kv_delete env) s ?keys"
  have ex: "dbname \<noteq> ''public''" "kv_get s ?sys \<noteq> None" and s': "s' = kv_delete env ?t ?sys"
    using assms by (auto simp: sys_drop_db_def sys_db_exists_def drop_db_keys split: bind_splits if_splits)
  have pre: "kv_get ?t \<kappa> = None" if "has_prefix ?pre \<kappa>" for \<kappa>
    using that kv_get_live [of s \<kappa>] by (cases "kv_get s \<kappa> = None") (auto intro: delete_all_None)
  have sub: "kv_get (kv_delete env u k) \<kappa> = None \<or> kv_get (kv_delete env u k) \<kappa> = kv_get u \<kappa>" for u k \<kappa>
    using kv_clear_lookup_sub [of "entries u" k \<kappa>] by (simp add: kv_get_delete) (simp add: kv_get_def)
  have "kv_get (foldl (kv_delete env) u ks) \<kappa> = None \<or> kv_get (foldl (kv_delete env) u ks) \<kappa> = kv_get u \<kappa>" for u ks \<kappa>
  proof (induction ks arbitrary: u)
    case (Cons k ks)
    then show ?case using sub [of u k \<kappa>] by (metis foldl_Cons)
  qed simp
  then have all: "kv_get s' \<kappa> = None \<or> kv_get s' \<kappa> = kv_get s \<kappa>" for \<kappa> using sub [of ?t ?sys \<kappa>] s' by metis
  have "list_all2 (slot_kept (of_database dbname)) (entries s) (entries ?t)"
    by (rule slots_kept_all) (auto simp: of_database_def)
  from slots_kept_trans [OF this slots_kept_delete [of _ ?sys]]
  have kept: "list_all2 (slot_kept (of_database dbname)) (entries s) (entries s')"
    unfolding s' by (simp add: of_database_def)
  have same: "kv_get s' \<kappa> = kv_get s \<kappa>"
    if "\<forall>i \<in> path (entries s) \<kappa>. occupied (entries s ! i) \<longrightarrow> \<not> of_database dbname (entry_key (entries s ! i))" for \<kappa>
    using lookup_kept [OF kept that] by (simp add: kv_get_def)
  have gone: "kv_get s' ?sys = None" "\<forall>\<kappa>. has_prefix ?pre \<kappa> \<longrightarrow> kv_get s' \<kappa> = None"
    unfolding s' using pre by (blast intro: kv_get_delete_None)+
  show ?thesis using ex gone live_kept [OF kept] same all by blast
qed

theorem sys_drop_db_correct_witness:
  "\<forall>env st. \<exists>s'. sys_drop_db env (st\<lparr>entries := drop_demo\<rparr>) ''d'' = Some (1, s') \<and>
     kv_get s' ''DB:d:TBL:t:1'' = None \<and> kv_get s' ''SYS:DB:d'' = None \<and>
     \<lparr>entry_key = ''DB:e:TBL:t:1'', entry_val = int_value 8, occupied = True\<rparr> \<in> set (live (entries s'))"
proof (intro allI)
  fix env and st :: kv_store
  let ?e = "\<lparr>entry_key = ''DB:e:TBL:t:1'', entry_val = int_value 8, occupied = True\<rparr>"
  have "kv_get (st\<lparr>entries := drop_demo\<rparr>) ''SYS:DB:d'' = Some (int_value 1)"
    using kv_lookup_reach [OF full_table_reach [of drop_demo], of "''SYS:DB:d''" "int_value 1"]
    by (simp add: kv_get_def) (simp add: drop_demo_def has_entry_def)
  then obtain s' where s': "sys_drop_db env (st\<lparr>entries := drop_demo\<rparr>) ''d'' = Some (1, s')"
    by (simp add: sys_drop_db_def sys_db_exists_def sprintf_buf_def Let_def)
  from sys_drop_db_correct [OF this] have "kv_get s' ''DB:d:TBL:t:1'' = None" "kv_get s' ''SYS:DB:d'' = None"
    and f: "filter (\<lambda>e. \<not> of_database ''d'' (entry_key e)) (live (entries s')) =
      filter (\<lambda>e. \<not> of_database ''d'' (entry_key e)) (live drop_demo)"
    by (simp_all add: has_prefix_def)
  moreover have "?e \<in> set (filter (\<lambda>e. \<not> of_database ''d'' (entry_key e)) (live drop_demo))"
    by (simp add: drop_demo_def live_def of_database_def has_prefix_def)
  then have "?e \<in> set (live (entries s'))" unfolding f [symmetric] by simp
  ultimately show "\<exists>s'. sys_drop_db env (st\<lparr>entries := drop_demo\<rparr>) ''d'' = Some (1, s') \<and>
      kv_get s' ''DB:d:TBL:t:1'' = None \<and> kv_get s' ''SYS:DB:d'' = None \<and> ?e \<in> set (live (entries s'))"
    using s' by blast
qed

text \<open>When the probe path of \<open>\<kappa>\<close> crosses the slot of \<open>k\<close>, deleting both in this order leaves
  \<open>\<kappa>\<close> in its slot, and the next put of \<open>k\<close> makes it readable again.\<close>

theorem deleted_key_reappears:
  assumes "probe_from_home (entries s) k = Found i" and "kv_get s \<kappa> = Some v" and "\<kappa> \<noteq> k"
    and "i \<in> path (entries s) \<kappa>"
  shows "kv_get (foldl (kv_delete env) s [k, \<kappa>]) \<kappa> = None \<and>
    kv_get (kv_put_locked env (foldl (kv_delete env) s [k, \<kappa>]) k w) \<kappa> = Some v"
proof -
  let ?es = "entries s" and ?e = "\<lparr>entry_key = k, entry_val = w, occupied = True\<rparr>"
  note k = probe_Found [OF assms(1)]
  let ?c = "kv_clear ?es k"
  have c: "?c = ?es[i := (?es ! i)\<lparr>occupied := False\<rparr>]" using assms(1) by (simp add: kv_clear_def)
  obtain j where j: "j \<in> path_offsets ?es \<kappa>" "i = slot_at ?es \<kappa> j" using assms(4) by (auto simp: path_def)
  have "probe_from_home ?c \<kappa> = Free i"
    unfolding c j(2) by (subst probe_update_same) (use j in \<open>auto simp: path_offsets_def\<close>)
  then have cc: "kv_clear ?c \<kappa> = ?c" by (simp add: kv_clear_def)
  obtain m where m: "m < length ?es" "i = slot_at ?es k m" "\<forall>j < m. \<not> stops ?es k (slot_at ?es k j)" using k(4) by auto
  have "probe_from_home ?c k = Free i"
    unfolding c m(2) by (subst probe_update_same) (use m in auto)
  then have put: "kv_put_internal ?c k w = ?es[i := ?e]" by (simp add: kv_put_internal_def c)
  have same: "probe_from_home (?es[i := ?e]) \<kappa> = probe_from_home ?es \<kappa>"
    by (rule probe_overwrite) (use k in auto)
  obtain n where n: "probe_from_home ?es \<kappa> = Found n" "entry_val (?es ! n) = v"
    using assms(2) by (auto simp: kv_get_def kv_lookup_def split: probe.splits)
  then have "n \<noteq> i" using probe_Found(3) [OF n(1)] k(3) assms(3) by auto
  then have "kv_lookup (?es[i := ?e]) \<kappa> = Some v" using n same by (simp add: kv_lookup_def)
  moreover have "entries (kv_delete env (kv_delete env s k) \<kappa>) = ?c"
    using cc by simp
  moreover have "kv_lookup ?c \<kappa> = None" using \<open>probe_from_home ?c \<kappa> = Free i\<close> by (simp add: kv_lookup_def)
  ultimately show ?thesis by (simp add: kv_get_def put)
qed

section \<open>Logging in\<close>

lemma fresh_not_full:
  assumes "0 < n"
  shows "probe_from_home (replicate n free_entry) key \<noteq> Full"
proof -
  let ?es = "replicate n free_entry"
  have ne: "?es \<noteq> []" using assms by simp
  have "stops ?es key (slot_at ?es key 0)" using home_less [OF ne, of key] ne
    by (simp add: stops_def free_entry_def)
  then show ?thesis using probe_from_home_cases [OF ne, of key] assms by (auto simp: outcome_def split: if_splits)
qed

text \<open>A user created on a table with room can log in with exactly the passwords that hash like
  the chosen one, under the name cut to 31 characters, and is an administrator only as \<open>admin\<close>.\<close>

theorem auth_verify_created:
  assumes "kv_get s (''SYS:USER:'' @ name) = None" and "length name < 55"
    and "probe_from_home (entries s) (''SYS:USER:'' @ name) \<noteq> Full"
  shows "\<exists>s'. auth_create_user junk env s name password = Some (1, s') \<and>
    (\<forall>p. auth_verify_user s' name p =
       Some (if hash_password p = hash_password password
             then Some \<lparr>username = take 31 name, is_admin = (name = ''admin'')\<rparr> else None))"
proof -
  let ?key = "''SYS:USER:'' @ name" and ?n = "unat (hash_password password)"
  let ?v = "\<lparr>val_data = le_encode 8 ?n, val_type = VAL_TYPE_ROW\<rparr>"
  have put: "kv_put junk env s ?key ?v = Some (kv_put_locked env s ?key ?v)"
    by (simp add: kv_put_def kv_put_btree_def btree_id_def)
  have got: "kv_get (kv_put_locked env s ?key ?v) ?key = Some ?v"
    using assms(3) by (simp add: kv_get_def kv_put_lookup_same)
  have "?n < 256 ^ 8" using unsigned_less [of "hash_password password", where 'a = nat] by simp
  then have "get_le 8 (le_encode 8 ?n) = Some (?n, [])" by (simp add: get_le_def le_decode_encode)
  with put got assms show ?thesis
    by (auto simp: auth_create_user_def auth_verify_user_def sprintf_buf_def)
qed

theorem auth_verify_created_witness:
  "\<exists>s s'. kv_create [] 4 None None None = Some s \<and>
     auth_create_user [] small_env s ''bob'' ''ab'' = Some (1, s') \<and>
     auth_verify_user s' ''bob'' ''bA'' = Some (Some \<lparr>username = ''bob'', is_admin = False\<rparr>)"
proof -
  obtain s where s: "kv_create [] 4 None None None = Some s" "entries s = replicate 4 free_entry"
    by (rule kv_create_fresh)
  have none: "kv_get s (''SYS:USER:'' @ ''bob'') = None" using s(2) by (simp add: kv_get_def empty_lookup)
  have "probe_from_home (entries s) (''SYS:USER:'' @ ''bob'') \<noteq> Full" using s(2) fresh_not_full [of 4] by simp
  from auth_verify_created [OF none _ this, of "[]" small_env "''ab''"] s(1)
  show ?thesis by (auto simp: hash_password_def djb2_def djb2_step_def char_int_def of_char_def push_bit_eq_mult)
qed

end
