(* ===== verification/QueryScan.thy ===== *)
theory QueryScan
  imports SystemCatalog ResultSet SkipIndex RowFormat Parser
begin

text \<open>
  The part of \<open>src/executor.c\<close> that reads: conditions, the callback every scan calls on a row,
  grouping, scalar subqueries. A table is its schema string under \<open>DB:d:META:TBL:t\<close> and its
  rows under \<open>DB:d:TBL:t:pk\<close>. \<open>None\<close> is undefined behaviour: reading an array out of range, an
  uninitialised pointer or the wrong member of the AST union, or a buffer that is too small.
  The null value that a failed subquery puts in a condition is left as the subquery node: every
  reader treats the two alike.
\<close>

section \<open>Pointers and schemas\<close>

text \<open>A pointer of \<open>ScanContext\<close> that may never have been set.\<close>

datatype 'a cptr = Garbage | Null | Array 'a

text \<open>The C string at the data of a value.\<close>

definition c_str :: "kv_value \<Rightarrow> string option" where
  "c_str v = (if 0 \<in> set (val_data v) then Some (c_string (val_data v)) else None)"

definition schema_count :: "string \<Rightarrow> nat" where
  "schema_count schema = length (filter (\<lambda>c. c = CHR '';'') schema)"

definition before_colon :: "string \<Rightarrow> string" where
  "before_colon p = takeWhile (\<lambda>c. c \<noteq> CHR '':'') p"

definition after_colon :: "string \<Rightarrow> string option" where
  "after_colon p = (if CHR '':'' \<in> set p then Some (drop (length (before_colon p) + 1) p) else None)"

definition pair_type :: "string \<Rightarrow> string" where
  "pair_type p = (case after_colon p of None \<Rightarrow> ''STRING'' | Some t \<Rightarrow> before_colon t)"

definition schema_pairs :: "string \<Rightarrow> string list" where
  "schema_pairs schema = take (schema_count schema) (strtok_all CHR '';'' [] schema)"

text \<open>Arrays of \<open>cols\<close> strings of which the loop sets as many as there are pairs.\<close>

definition filled :: "nat \<Rightarrow> string list \<Rightarrow> string option list" where
  "filled cols xs = map Some xs @ replicate (cols - length xs) None"

definition schema_names :: "string \<Rightarrow> string option list" where
  "schema_names schema = filled (schema_count schema) (map before_colon (schema_pairs schema))"

definition schema_types :: "string \<Rightarrow> string option list" where
  "schema_types schema = filled (schema_count schema) (map pair_type (schema_pairs schema))"

fun find_col :: "string option list \<Rightarrow> string \<Rightarrow> int \<Rightarrow> int option" where
  "find_col [] col j = Some (-1)"
| "find_col (None # names) col j = None"
| "find_col (Some n # names) col j = (if strcmp n col = 0 then Some j else find_col names col (j + 1))"

section \<open>The scan context\<close>

record group_bucket =
  bk_key :: string
  bk_count :: int
  bk_sum :: double
  bk_min :: double
  bk_max :: double

text \<open>What a scan is told: the table, the condition, the schema, the projection (index, name and
  function of each item), and how to deliver the rows.\<close>

record scan_ctx =
  sc_db :: string
  sc_table :: string
  sc_where :: "sql_expr option"
  sc_names :: "string option list cptr"
  sc_types :: "string option list cptr"
  sc_col_count :: nat
  sc_proj :: "(int \<times> string \<times> nat) list"
  sc_capture :: bool
  sc_group :: "int option"
  sc_buffer :: bool
  sc_stop :: "string option"

text \<open>What it collects.\<close>

record scan_acc =
  sa_out :: string
  sa_found :: nat
  sa_captured :: "string option"
  sa_groups :: "group_bucket list"
  sa_result :: "result_set option"

section \<open>Conditions\<close>

definition get_col_index :: "scan_ctx \<Rightarrow> string \<Rightarrow> int option" where
  "get_col_index ctx colName =
     (case sc_names ctx of Garbage \<Rightarrow> None | Null \<Rightarrow> Some (-1) | Array names \<Rightarrow> find_col names colName 0)"

text \<open>\<open>data.literal.value\<close> of a node of any type.\<close>

definition literal_value :: "sql_expr \<Rightarrow> string option" where
  "literal_value e = (case e of EXPR_IDENTIFIER s \<Rightarrow> Some s | EXPR_LITERAL s \<Rightarrow> Some s | _ \<Rightarrow> None)"

definition numeric_type :: "string \<Rightarrow> bool" where
  "numeric_type t \<longleftrightarrow> strcasecmp_eq t ''INT'' \<or> strcasecmp_eq t ''FLOAT'' \<or> strcasecmp_eq t ''INTEGER'' \<or> strcasecmp_eq t ''DOUBLE''"

definition column_is_numeric :: "scan_ctx \<Rightarrow> nat \<Rightarrow> bool option" where
  "column_is_numeric ctx i =
     (case sc_types ctx of
        Garbage \<Rightarrow> None
      | Null \<Rightarrow> Some False
      | Array ts \<Rightarrow> (if i < length ts then map_option numeric_type (ts ! i) else None))"

definition compare_cell :: "bool \<Rightarrow> string \<Rightarrow> string \<Rightarrow> string \<Rightarrow> bool" where
  "compare_cell numeric op cell rightVal =
     (if numeric then
        (let lv = atof cell; rv = atof rightVal
         in if op = ''='' then double_eq lv rv
            else if op = ''>'' then double_less rv lv
            else if op = ''<'' then double_less lv rv else False)
      else
        (let cmp = strcmp cell rightVal
         in if op = ''='' then cmp = 0
            else if op = ''>'' then cmp > 0
            else if op = ''<'' then cmp < 0 else False))"

definition compare_column :: "scan_ctx \<Rightarrow> sql_expr \<Rightarrow> string \<Rightarrow> sql_expr \<Rightarrow> string list \<Rightarrow> bool option" where
  "compare_column ctx left op right row =
     do { colName \<leftarrow> literal_value left;
          colIdx \<leftarrow> get_col_index ctx colName;
          if colIdx = -1 \<or> int (length row) \<le> colIdx then Some False
          else (case right of
                  EXPR_LITERAL rightVal \<Rightarrow>
                    do { numeric \<leftarrow> column_is_numeric ctx (nat colIdx);
                         Some (compare_cell numeric op (row ! nat colIdx) rightVal) }
                | _ \<Rightarrow> Some False) }"

fun evaluate_condition :: "scan_ctx \<Rightarrow> sql_expr \<Rightarrow> string list \<Rightarrow> bool option" where
  "evaluate_condition ctx (EXPR_BINARY left op right) row =
     (if op = ''AND'' then
        (case evaluate_condition ctx left row of
           None \<Rightarrow> None | Some b \<Rightarrow> if b then evaluate_condition ctx right row else Some False)
      else if op = ''OR'' then
        (case evaluate_condition ctx left row of
           None \<Rightarrow> None | Some b \<Rightarrow> if b then Some True else evaluate_condition ctx right row)
      else compare_column ctx left op right row)"
| "evaluate_condition ctx (EXPR_IDENTIFIER s) row = Some True"
| "evaluate_condition ctx (EXPR_LITERAL s) row = Some True"
| "evaluate_condition ctx (EXPR_SUBQUERY q) row = Some True"

definition where_holds :: "scan_ctx \<Rightarrow> string list \<Rightarrow> bool option" where
  "where_holds ctx row = (case sc_where ctx of None \<Rightarrow> Some True | Some e \<Rightarrow> evaluate_condition ctx e row)"

section \<open>Cells and groups\<close>

definition white :: string where "white = ansi ''37''"
definition bar :: string where "bar = ANSI_CYAN @ ''| '' @ ANSI_RESET"

definition print_cell :: "string \<Rightarrow> string" where
  "print_cell str =
     (let buf = map (\<lambda>c. if c = CHR 0x0A then CHR '' '' else c) (take 15 str);
          buf = (if 15 < length str then take 12 buf @ ''...'' else buf)
      in white @ pad_right 15 buf @ '' '' @ bar)"

text \<open>The value of the last aggregated column, if there is one that the schema has.\<close>

fun aggregate_value ::
    "scan_ctx \<Rightarrow> (int \<times> string \<times> nat) list \<Rightarrow> string list \<Rightarrow> double option \<Rightarrow> double option option" where
  "aggregate_value ctx [] row v = Some v"
| "aggregate_value ctx ((idx, name, func) # ps) row v =
     (if 2 \<le> func \<and> idx < int (sc_col_count ctx)
      then (if 0 \<le> idx \<and> idx < int (length row)
            then aggregate_value ctx ps row (Some (atof (row ! nat idx))) else None)
      else aggregate_value ctx ps row v)"

definition new_bucket :: "string \<Rightarrow> group_bucket" where
  "new_bucket groupKey =
     \<lparr>bk_key = groupKey, bk_count = 0, bk_sum = Fin False 0, bk_min = Fin False 999999999, bk_max = Fin True 999999999\<rparr>"

definition add_to_bucket :: "double option \<Rightarrow> group_bucket \<Rightarrow> group_bucket" where
  "add_to_bucket v b =
     (let b = b\<lparr>bk_count := bk_count b + 1\<rparr> in
      case v of
        None \<Rightarrow> b
      | Some val \<Rightarrow>
          b\<lparr>bk_sum := double_add (bk_sum b) val,
            bk_min := (if double_less val (bk_min b) then val else bk_min b),
            bk_max := (if double_less (bk_max b) val then val else bk_max b)\<rparr>)"

fun change_bucket :: "string \<Rightarrow> (group_bucket \<Rightarrow> group_bucket) \<Rightarrow> group_bucket list \<Rightarrow> group_bucket list option" where
  "change_bucket groupKey f [] = None"
| "change_bucket groupKey f (b # bs) =
     (if strcmp (bk_key b) groupKey = 0 then Some (f b # bs) else map_option (Cons b) (change_bucket groupKey f bs))"

definition update_bucket :: "scan_ctx \<Rightarrow> string \<Rightarrow> string list \<Rightarrow> group_bucket list \<Rightarrow> group_bucket list option" where
  "update_bucket ctx groupKey row groups =
     do { v \<leftarrow> aggregate_value ctx (sc_proj ctx) row None;
          Some (case change_bucket groupKey (add_to_bucket v) groups of
                  Some groups \<Rightarrow> groups
                | None \<Rightarrow> add_to_bucket v (new_bucket groupKey) # groups) }"

definition group_cell :: "scan_ctx \<Rightarrow> group_bucket \<Rightarrow> int \<times> string \<times> nat \<Rightarrow> string option" where
  "group_cell ctx b p =
     (case p of (idx, name, func) \<Rightarrow>
        if func = 1 then map_option print_cell (sprintf_buf 64 (show_int (bk_count b)))
        else if func = 2 then map_option print_cell (sprintf_buf 64 (show_2f (bk_sum b)))
        else if func = 3 then
          map_option print_cell (sprintf_buf 64 (if bk_count b > 0 then show_2f (double_div_int (bk_sum b) (bk_count b)) else ''0''))
        else if func = 4 then map_option print_cell (sprintf_buf 64 (show_2f (bk_max b)))
        else if func = 5 then map_option print_cell (sprintf_buf 64 (show_2f (bk_min b)))
        else Some (print_cell (if sc_group ctx = Some idx then bk_key b else ''...'')))"

fun concat_options :: "string option list \<Rightarrow> string option" where
  "concat_options [] = Some []"
| "concat_options (None # xs) = None"
| "concat_options (Some s # xs) = map_option (\<lambda>t. s @ t) (concat_options xs)"

definition print_groups :: "scan_ctx \<Rightarrow> group_bucket list \<Rightarrow> string option" where
  "print_groups ctx groups =
     concat_options (map (\<lambda>b.
       map_option (\<lambda>cells. ''  '' @ bar @ cells @ end_line) (concat_options (map (group_cell ctx b) (sc_proj ctx)))) groups)"

section \<open>The scan callback\<close>

definition row_prefix :: "scan_ctx \<Rightarrow> string" where
  "row_prefix ctx = ''DB:'' @ sc_db ctx @ '':TBL:'' @ sc_table ctx @ '':''"

text \<open>The cells a row delivers: the projected ones, or all of them.\<close>

definition out_cell :: "string list \<Rightarrow> int \<Rightarrow> string option" where
  "out_cell row idx = (if idx < int (length row) then (if idx < 0 then None else Some (row ! nat idx)) else Some ''NULL'')"

fun all_some :: "'a option list \<Rightarrow> 'a list option" where
  "all_some [] = Some []"
| "all_some (None # xs) = None"
| "all_some (Some x # xs) = map_option (Cons x) (all_some xs)"

definition out_cells :: "scan_ctx \<Rightarrow> string list \<Rightarrow> string list option" where
  "out_cells ctx row =
     (if sc_proj ctx = [] then Some row else all_some (map (\<lambda>(idx, name, func). out_cell row idx) (sc_proj ctx)))"

definition deliver_row :: "scan_ctx \<Rightarrow> string list \<Rightarrow> scan_acc \<Rightarrow> scan_acc option" where
  "deliver_row ctx row acc =
     (if sc_capture ctx then
        (let acc = acc\<lparr>sa_found := sa_found acc + 1\<rparr>;
             target = (case sc_proj ctx of [] \<Rightarrow> 0 | (idx, _) # _ \<Rightarrow> idx)
         in if target < int (length row)
            then (if target < 0 then None else Some (acc\<lparr>sa_captured := Some (row ! nat target)\<rparr>))
            else Some acc)
      else
        case sc_group ctx of
          Some g \<Rightarrow>
            map_option (\<lambda>groups. acc\<lparr>sa_groups := groups\<rparr>)
              (update_bucket ctx (if 0 \<le> g \<and> g < int (length row) then row ! nat g else ''ALL'') row (sa_groups acc))
        | None \<Rightarrow>
            do { cells \<leftarrow> out_cells ctx row;
                 Some (case (sc_buffer ctx, sa_result acc) of
                   (True, Some rs) \<Rightarrow> acc\<lparr>sa_result := Some (snd (result_set_add_row rs (map Some cells)))\<rparr>
                 | _ \<Rightarrow> acc\<lparr>sa_out := sa_out acc @ ''  '' @ bar @ concat (map print_cell cells) @ end_line\<rparr>) })"

definition scan_callback :: "scan_ctx \<Rightarrow> string \<Rightarrow> kv_value \<Rightarrow> scan_acc option \<Rightarrow> scan_acc option" where
  "scan_callback ctx key val acc =
     do { acc \<leftarrow> acc;
          if sc_capture ctx \<and> sa_found acc > 0 then Some acc
          else do {
            pre \<leftarrow> sprintf_buf 256 (row_prefix ctx);
            if \<not> has_prefix pre key then Some acc
            else (case row_deserialize (Some (val_data val)) (length (val_data val)) of
                    OutOfBounds \<Rightarrow> None
                  | RowNull \<Rightarrow> Some acc
                  | Columns row \<Rightarrow>
                      do { b \<leftarrow> where_holds ctx row;
                           if b then deliver_row ctx row acc else Some acc }) } }"

definition index_scan_callback ::
    "scan_ctx \<Rightarrow> kv_store \<Rightarrow> string \<Rightarrow> string \<Rightarrow> scan_acc option \<Rightarrow> bool \<times> scan_acc option" where
  "index_scan_callback ctx store pk val acc =
     (if (case sc_stop ctx of Some stop \<Rightarrow> strcmp val stop \<noteq> 0 | None \<Rightarrow> False) then (False, acc)
      else (True, case kv_get store pk of Some v \<Rightarrow> scan_callback ctx pk v acc | None \<Rightarrow> acc))"

definition empty_acc :: scan_acc where
  "empty_acc = \<lparr>sa_out = [], sa_found = 0, sa_captured = None, sa_groups = [], sa_result = None\<rparr>"

definition full_scan :: "scan_ctx \<Rightarrow> kv_store \<Rightarrow> scan_acc \<Rightarrow> scan_acc option" where
  "full_scan ctx store acc = kv_iterate (scan_callback ctx) (entries store) (Some acc)"

section \<open>Scalar subqueries\<close>

text \<open>The inner result is \<open>NULL\<close> when there is no schema. The types are never set.\<close>

definition subquery_scan ::
    "kv_store \<Rightarrow> string \<Rightarrow> string \<Rightarrow> (nat \<times> string) list \<Rightarrow> sql_expr option \<Rightarrow> string option option" where
  "subquery_scan store db tbl cols where_clause =
     do { key \<leftarrow> sys_generate_key_schema db tbl;
          case kv_get store key of
            None \<Rightarrow> Some None
          | Some v \<Rightarrow>
              if val_type v \<noteq> VAL_TYPE_SCHEMA then Some None
              else do {
                schema \<leftarrow> c_str v;
                idx \<leftarrow> (case cols of [] \<Rightarrow> Some 0 | (func, col) # _ \<Rightarrow> find_col (schema_names schema) col 0);
                acc \<leftarrow> full_scan
                  \<lparr>sc_db = db, sc_table = tbl, sc_where = where_clause, sc_names = Array (schema_names schema),
                   sc_types = Garbage, sc_col_count = schema_count schema, sc_proj = [(idx, [], 0)],
                   sc_capture = True, sc_group = None, sc_buffer = False, sc_stop = None\<rparr> store empty_acc;
                Some (Some (case sa_captured acc of None \<Rightarrow> ''NULL'' | Some s \<Rightarrow> s)) } }"

fun resolve_WHERE_clause :: "kv_store \<Rightarrow> string \<Rightarrow> sql_expr \<Rightarrow> sql_expr option"
  and execute_scalar_subquery :: "kv_store \<Rightarrow> string \<Rightarrow> sql_select \<Rightarrow> string option option"
where
  "resolve_WHERE_clause store db (EXPR_BINARY left op (EXPR_SUBQUERY q)) =
     do { v \<leftarrow> execute_scalar_subquery store db q;
          Some (EXPR_BINARY left op (case v of Some s \<Rightarrow> EXPR_LITERAL s | None \<Rightarrow> EXPR_SUBQUERY q)) }"
| "resolve_WHERE_clause store db (EXPR_BINARY left op (EXPR_BINARY l o2 r)) =
     Some (EXPR_BINARY left op (EXPR_BINARY l o2 r))"
| "resolve_WHERE_clause store db (EXPR_BINARY left op (EXPR_IDENTIFIER s)) = Some (EXPR_BINARY left op (EXPR_IDENTIFIER s))"
| "resolve_WHERE_clause store db (EXPR_BINARY left op (EXPR_LITERAL s)) = Some (EXPR_BINARY left op (EXPR_LITERAL s))"
| "resolve_WHERE_clause store db (EXPR_IDENTIFIER s) = Some (EXPR_IDENTIFIER s)"
| "resolve_WHERE_clause store db (EXPR_LITERAL s) = Some (EXPR_LITERAL s)"
| "resolve_WHERE_clause store db (EXPR_SUBQUERY q) = Some (EXPR_SUBQUERY q)"
| "execute_scalar_subquery store db (Select tbl cols None g ord lm off) = subquery_scan store db tbl cols None"
| "execute_scalar_subquery store db (Select tbl cols (Some e) g ord lm off) =
     do { e \<leftarrow> resolve_WHERE_clause store db e; subquery_scan store db tbl cols (Some e) }"

end
