(* ===== verification/Executor.thy ===== *)
theory Executor
  imports QueryScan TxnManager
begin

text \<open>
  The statements of \<open>src/executor.c\<close> on the state of a session: the store, the skip-list indexes,
  the transaction manager, the session and the text sent to the client. What a statement needs
  from outside is \<open>exec_env\<close>: the bytes \<open>malloc\<close> gives, the coins of the skip lists, the clock,
  \<open>qsort\<close>, and the files of the store. Messages of the server log are left out. The statements
  that call \<open>src/backup.c\<close> and \<open>src/nosql.c\<close> are the argument \<open>other\<close> of \<open>execute_query\<close>.
\<close>

record session_ctx =
  current_db :: string
  current_user :: string

record db_state =
  ds_store :: kv_store
  ds_indexes :: "skip_list list"
  ds_coins :: nat
  ds_txn :: txn_manager
  ds_session :: session_ctx
  ds_out :: string

record exec_env =
  ee_junk :: bytes
  ee_kv :: kv_env
  ee_malloc :: "nat \<Rightarrow> bytes"
  ee_coin :: "nat \<Rightarrow> bool"
  ee_max_level :: nat
  ee_now :: int
  ee_qsort :: qsort_fun

definition emit :: "string \<Rightarrow> db_state \<Rightarrow> db_state" where
  "emit t s = s\<lparr>ds_out := ds_out s @ t\<rparr>"

definition say :: "string list \<Rightarrow> db_state \<Rightarrow> db_state" where
  "say ts = emit (concat ts @ end_line)"

definition st_put :: "exec_env \<Rightarrow> string \<Rightarrow> kv_value \<Rightarrow> db_state \<Rightarrow> db_state option" where
  "st_put env key v s =
     map_option (\<lambda>st. s\<lparr>ds_store := st\<rparr>) (kv_put (ee_junk env) (ee_kv env) (ds_store s) key v)"

definition st_delete :: "exec_env \<Rightarrow> string \<Rightarrow> db_state \<Rightarrow> db_state" where
  "st_delete env key s = s\<lparr>ds_store := kv_delete (ee_kv env) (ds_store s) key\<rparr>"

text \<open>The macros \<open>TXN_LOG_...\<close> log when a transaction is active.\<close>

definition txn_log :: "(txn_manager \<Rightarrow> txn_manager) \<Rightarrow> db_state \<Rightarrow> db_state" where
  "txn_log f s = (if txn_is_active (ds_txn s) then s\<lparr>ds_txn := f (ds_txn s)\<rparr> else s)"

definition here :: "db_state \<Rightarrow> string" where
  "here s = current_db (ds_session s)"

definition in_quotes :: "string \<Rightarrow> string" where
  "in_quotes s = [CHR 0x27] @ s @ [CHR 0x27]"

section \<open>CREATE TABLE and DROP TABLE\<close>

definition column_schema :: "column_def \<Rightarrow> string" where
  "column_schema c = cd_name c @ '':'' @ cd_type c @ (if cd_is_pk c then '':PK'' else []) @ '';''"

definition execute_create_table :: "exec_env \<Rightarrow> string \<Rightarrow> column_def list \<Rightarrow> db_state \<Rightarrow> db_state option" where
  "execute_create_table env tbl cols s =
     do { key \<leftarrow> sys_generate_key_schema (here s) tbl;
          if kv_get (ds_store s) key \<noteq> None
          then Some (say [''Error: Table '', in_quotes tbl, '' already exists.''] s)
          else do {
            schema \<leftarrow> sprintf_buf 1024 (concat (map column_schema cols));
            s \<leftarrow> st_put env key \<lparr>val_data = bytes_of schema @ [0], val_type = VAL_TYPE_SCHEMA\<rparr> s;
            let s = txn_log (txn_log_create_table tbl (Some schema)) s;
            seqKey \<leftarrow> sys_generate_key_seq (here s) tbl;
            s \<leftarrow> st_put env seqKey (int_value 0) s;
            Some (say [''Table '', in_quotes tbl, '' created.''] s) } }"

definition execute_drop_table :: "exec_env \<Rightarrow> string \<Rightarrow> db_state \<Rightarrow> db_state option" where
  "execute_drop_table env tbl s =
     do { metaKey \<leftarrow> sys_generate_key_schema (here s) tbl;
          case kv_get (ds_store s) metaKey of
            None \<Rightarrow> Some (say [''Error: Table '', in_quotes tbl, '' does not exist.''] s)
          | Some v \<Rightarrow>
              do { s \<leftarrow> (if txn_is_active (ds_txn s)
                         then map_option (\<lambda>json. txn_log (txn_log_drop_table tbl (Some json) None) s) (c_str v)
                         else Some s);
                   let s = st_delete env metaKey s;
                   seqKey \<leftarrow> sys_generate_key_seq (here s) tbl;
                   let s = st_delete env seqKey s;
                   Some (say [''Table '', in_quotes tbl, '' dropped (Metadata removed).''] s) } }"

section \<open>INSERT\<close>

text \<open>\<open>strstr(s, t) != NULL\<close>.\<close>

fun strstr :: "string \<Rightarrow> string \<Rightarrow> bool" where
  "strstr [] t = (t = [])"
| "strstr (c # cs) t = (take (length t) (c # cs) = t \<or> strstr cs t)"

definition pk_index :: "string \<Rightarrow> nat" where
  "pk_index schema =
     (case first_idx (\<lambda>p. strstr p '':PK'') (strtok_all CHR '';'' [] schema) of None \<Rightarrow> 0 | Some i \<Rightarrow> i)"

text \<open>The schema string of a value that is a schema.\<close>

definition schema_of :: "kv_value option \<Rightarrow> string option option" where
  "schema_of v =
     (case v of
        None \<Rightarrow> Some None
      | Some v \<Rightarrow> if val_type v = VAL_TYPE_SCHEMA then map_option Some (c_str v) else Some None)"

definition all_digits :: "string \<Rightarrow> bool" where
  "all_digits s \<longleftrightarrow> (\<forall>c \<in> set s. is_digit c)"

definition stored_int :: "db_state \<Rightarrow> string \<Rightarrow> int option option" where
  "stored_int s key =
     (case kv_get (ds_store s) key of None \<Rightarrow> Some None | Some v \<Rightarrow> map_option Some (read_int v))"

text \<open>\<open>AUTO\<close>: the next number, stored and printed.\<close>

definition next_sequence :: "exec_env \<Rightarrow> string \<Rightarrow> db_state \<Rightarrow> (string \<times> db_state) option" where
  "next_sequence env tbl s =
     do { seqKey \<leftarrow> sys_generate_key_seq (here s) tbl;
          v \<leftarrow> stored_int s seqKey;
          let seq = (case v of None \<Rightarrow> 1 | Some n \<Rightarrow> n + 1);
          if seq \<ge> 2 ^ 31 then None
          else do { s \<leftarrow> st_put env seqKey (int_value seq) s; Some (show_int seq, s) } }"

text \<open>An explicit identifier, which moves the sequence up when it is a larger number.\<close>

definition explicit_id :: "exec_env \<Rightarrow> string \<Rightarrow> string \<Rightarrow> db_state \<Rightarrow> (string \<times> db_state) option" where
  "explicit_id env tbl pk s =
     do { finalId \<leftarrow> sprintf_buf 64 pk;
          if all_digits finalId then
            do { seqKey \<leftarrow> sys_generate_key_seq (here s) tbl;
                 v \<leftarrow> stored_int s seqKey;
                 let currentSeq = (case v of None \<Rightarrow> 0 | Some n \<Rightarrow> n);
                 let insertedId = atoi_int finalId;
                 if insertedId > currentSeq
                 then do { s \<leftarrow> st_put env seqKey (int_value insertedId) s; Some (finalId, s) }
                 else Some (finalId, s) }
          else Some (finalId, s) }"

text \<open>The string given to \<open>kv_update_indexes\<close>: a field for each column that has a value.\<close>

fun index_string :: "string list \<Rightarrow> string list \<Rightarrow> string" where
  "index_string (p # ps) (v # vs) =
     (if CHR '':'' \<in> set p then before_colon p @ '':'' @ v @ '';'' else []) @ index_string ps vs"
| "index_string _ _ = []"

definition update_indexes :: "exec_env \<Rightarrow> string \<Rightarrow> string \<Rightarrow> string \<Rightarrow> string list \<Rightarrow> db_state \<Rightarrow> db_state option" where
  "update_indexes env tbl key schema vals s =
     do { indexStr \<leftarrow> sprintf_buf 2048 (index_string (strtok_all CHR '';'' [] schema) vals);
          (pos, ixs) \<leftarrow> kv_update_indexes (ee_coin env) (ee_max_level env) (ds_coins s) (ds_indexes s) tbl key indexStr;
          Some (s\<lparr>ds_indexes := ixs, ds_coins := pos\<rparr>) }"

text \<open>One row; the number of rows inserted so far goes in and out.\<close>

definition insert_row ::
    "exec_env \<Rightarrow> string \<Rightarrow> string option \<Rightarrow> nat \<Rightarrow> string list \<Rightarrow> nat \<times> db_state \<Rightarrow> (nat \<times> db_state) option" where
  "insert_row env tbl schema pkIdx vals st =
     (case st of (n, s) \<Rightarrow>
        if length vals \<le> pkIdx
        then Some (n, say [''Error: PK value missing in row '', show_nat (n + 1)] s)
        else do {
          (finalId, s) \<leftarrow> (if vals ! pkIdx = ''AUTO'' then next_sequence env tbl s else explicit_id env tbl (vals ! pkIdx) s);
          let vals = vals[pkIdx := finalId];
          key \<leftarrow> sys_generate_key_table (here s) tbl finalId;
          if kv_get (ds_store s) key \<noteq> None
          then Some (n, say [''Warning: Duplicate entry for Primary Key '', in_quotes finalId, '' (Skipped).''] s)
          else do {
            let (rowBin, rowSize) = row_serialize (ee_malloc env) vals;
            s \<leftarrow> st_put env key \<lparr>val_data = rowBin, val_type = VAL_TYPE_ROW\<rparr> s;
            let s = txn_log (txn_log_insert tbl key) s;
            s \<leftarrow> (case schema of None \<Rightarrow> Some s | Some sch \<Rightarrow> update_indexes env tbl key sch vals s);
            Some (n + 1, s) } })"

fun insert_rows ::
    "exec_env \<Rightarrow> string \<Rightarrow> string option \<Rightarrow> nat \<Rightarrow> string list list \<Rightarrow> nat \<times> db_state \<Rightarrow> (nat \<times> db_state) option" where
  "insert_rows env tbl schema pkIdx [] st = Some st"
| "insert_rows env tbl schema pkIdx (vals # rows) st =
     do { st \<leftarrow> insert_row env tbl schema pkIdx vals st; insert_rows env tbl schema pkIdx rows st }"

definition execute_insert :: "exec_env \<Rightarrow> string \<Rightarrow> string list list \<Rightarrow> db_state \<Rightarrow> db_state option" where
  "execute_insert env tbl rows s =
     (if rows = [] then Some s
      else do {
        metaKey \<leftarrow> sys_generate_key_schema (here s) tbl;
        schema \<leftarrow> schema_of (kv_get (ds_store s) metaKey);
        let pkIdx = (case schema of None \<Rightarrow> 0 | Some sch \<Rightarrow> pk_index sch);
        (n, s) \<leftarrow> insert_rows env tbl schema pkIdx rows (0, s);
        Some (say [''Inserted '', show_nat n, '' row(s) into '', in_quotes tbl, ''.''] s) })"

section \<open>DELETE and UPDATE\<close>

definition execute_delete :: "exec_env \<Rightarrow> string \<Rightarrow> sql_expr option \<Rightarrow> db_state \<Rightarrow> db_state option" where
  "execute_delete env tbl where_clause s =
     (let fallback = say [''Generic Delete requires ID currently (e.g. id=1).''] s in
      case where_clause of
        Some (EXPR_BINARY left op right) \<Rightarrow>
          if op \<noteq> ''='' then Some fallback
          else do {
            col \<leftarrow> literal_value left;
            if col \<noteq> ''id'' then Some fallback
            else do {
              pk \<leftarrow> literal_value right;
              key \<leftarrow> sys_generate_key_table (here s) tbl pk;
              let s = (case kv_get (ds_store s) key of
                         None \<Rightarrow> s
                       | Some old \<Rightarrow> txn_log (txn_log_delete tbl key (val_data old)) s);
              let s = st_delete env key s;
              Some (say [''Deleted key: '', key] s) } }
      | _ \<Rightarrow> Some fallback)"

text \<open>The first 64 columns that have a type.\<close>

definition update_columns :: "string \<Rightarrow> string list" where
  "update_columns schema =
     take 64 (map before_colon (filter (\<lambda>p. CHR '':'' \<in> set p) (strtok_all CHR '';'' [] schema)))"

text \<open>Each assignment goes to the first column of its name, when the row has it.\<close>

fun apply_set :: "string list \<Rightarrow> (string \<times> string) list \<Rightarrow> string list \<Rightarrow> string list" where
  "apply_set cols [] row = row"
| "apply_set cols ((c, v) # sets) row =
     apply_set cols sets
       (case first_idx (\<lambda>n. strcasecmp_eq c n) cols of
          None \<Rightarrow> row
        | Some j \<Rightarrow> if j < length row then row[j := v] else row)"

text \<open>The identifier of a condition \<open>id = x\<close>; \<open>None\<close> otherwise.\<close>

definition id_condition :: "sql_expr option \<Rightarrow> string option" where
  "id_condition where_clause =
     (case where_clause of
        Some (EXPR_BINARY left op (EXPR_LITERAL v)) \<Rightarrow>
          (case literal_value left of
             Some col \<Rightarrow> if op = ''='' \<and> strcasecmp_eq col ''id'' then Some v else None
           | None \<Rightarrow> None)
      | _ \<Rightarrow> None)"

definition update_by_id ::
    "exec_env \<Rightarrow> string \<Rightarrow> string list \<Rightarrow> (string \<times> string) list \<Rightarrow> string \<Rightarrow> db_state \<Rightarrow> db_state option" where
  "update_by_id env tbl cols sets pk s =
     do { key \<leftarrow> sys_generate_key_table (here s) tbl pk;
          case kv_get (ds_store s) key of
            None \<Rightarrow> Some (say [''Error: Row with id='', pk, '' not found.''] s)
          | Some v \<Rightarrow>
              (case row_deserialize (Some (val_data v)) (length (val_data v)) of
                 OutOfBounds \<Rightarrow> None
               | RowNull \<Rightarrow> Some (say [''Error: Could not deserialize row data.''] s)
               | Columns row \<Rightarrow>
                   do { let s = txn_log (txn_log_update tbl key (val_data v)) s;
                        let (new_row, new_size) = row_serialize (ee_malloc env) (apply_set cols sets row);
                        s \<leftarrow> st_put env key \<lparr>val_data = new_row, val_type = VAL_TYPE_ROW\<rparr> s;
                        Some (say [''Updated 1 row in '', in_quotes tbl, ''.''] s) }) }"

definition execute_update ::
    "exec_env \<Rightarrow> string \<Rightarrow> (string \<times> string) list \<Rightarrow> sql_expr option \<Rightarrow> db_state \<Rightarrow> db_state option" where
  "execute_update env tbl sets where_clause s =
     do { metaKey \<leftarrow> sys_generate_key_schema (here s) tbl;
          case kv_get (ds_store s) metaKey of
            None \<Rightarrow> Some (say [''Error: Table '', in_quotes tbl, '' does not exist.''] s)
          | Some v \<Rightarrow>
              do { schema \<leftarrow> c_str v;
                   let cols = update_columns schema;
                   case List.find (\<lambda>(c, x). \<not> (\<exists>n \<in> set cols. strcasecmp_eq c n)) sets of
                     Some (c, x) \<Rightarrow>
                       Some (say [''Error: Column '', in_quotes c, '' does not exist in table '', in_quotes tbl, ''.''] s)
                   | None \<Rightarrow>
                       (case id_condition where_clause of
                          Some pk \<Rightarrow> update_by_id env tbl cols sets pk s
                        | None \<Rightarrow>
                            Some (say [''UPDATE without id=X condition not fully implemented. '',
                              ''Use: UPDATE table SET col=val WHERE id=X;''] s)) } }"

section \<open>SELECT\<close>

datatype plan = FullTableScan | PrimaryKeyLookup string | IndexScan string string string

text \<open>A garbage column name is read only when there is a literal to compare it with.\<close>

definition select_plan :: "skip_list list \<Rightarrow> string \<Rightarrow> sql_expr option \<Rightarrow> plan option" where
  "select_plan ixs tbl where_clause =
     (case where_clause of
        Some (EXPR_BINARY left op (EXPR_LITERAL v)) \<Rightarrow>
          do { col \<leftarrow> literal_value left;
               Some (if col = ''id'' \<and> op = ''='' then PrimaryKeyLookup v
                     else if kv_has_index ixs tbl col \<and> (op = ''='' \<or> op = ''>'') then IndexScan col op v
                     else FullTableScan) }
      | _ \<Rightarrow> Some FullTableScan)"

definition plan_line :: "plan \<Rightarrow> string" where
  "plan_line p =
     ''Execution Plan: '' @
     (case p of
        PrimaryKeyLookup v \<Rightarrow> ''PRIMARY KEY INDEX LOOKUP''
      | IndexScan col op v \<Rightarrow> ''INDEX SCAN ON '' @ col @ '' '' @ op @ '' '' @ v
      | FullTableScan \<Rightarrow> ''FULL TABLE SCAN'') @ end_line"

text \<open>The projection: no item means all columns; an unknown column has index 999.\<close>

definition project_item :: "string option list \<Rightarrow> nat \<times> string \<Rightarrow> (int \<times> string \<times> nat) option" where
  "project_item names item =
     (case item of (func, col) \<Rightarrow>
        if col = ''*'' \<and> func = 1 then Some (0, ''COUNT(*)'', func)
        else map_option (\<lambda>j. (if j = -1 then 999 else j, col, func)) (find_col names col 0))"

definition projection :: "string option list \<Rightarrow> (nat \<times> string) list \<Rightarrow> (int \<times> string \<times> nat) list option" where
  "projection names cols =
     (case cols of
        [] \<Rightarrow> Some []
      | (func, col) # _ \<Rightarrow>
          if col = ''*'' \<and> func = 0 then Some [] else all_some (map (project_item names) cols))"

text \<open>The group column, with the message for an unknown one.\<close>

definition grouping ::
    "string option list \<Rightarrow> (int \<times> string \<times> nat) list \<Rightarrow> string option \<Rightarrow> (int option \<times> string) option" where
  "grouping names proj group_by =
     (case group_by of
        None \<Rightarrow> Some (if \<exists>(idx, name, func) \<in> set proj. func > 0 then Some (-1) else None, [])
      | Some g \<Rightarrow>
          map_option (\<lambda>j. if j = -1 then (None, ''Error: Unknown Group By column '' @ in_quotes g @ end_line) else (Some j, []))
            (find_col names g 0))"

text \<open>The names and types of the columns of the result.\<close>

definition result_columns ::
    "string option list \<Rightarrow> string option list \<Rightarrow> (int \<times> string \<times> nat) list \<Rightarrow> (string \<times> string) list option" where
  "result_columns names types proj =
     (let col_type = (\<lambda>idx :: int. if idx < int (length types) then types ! nat idx else Some ''STRING'')
      in if proj \<noteq> [] then all_some (map (\<lambda>(idx, name, func). map_option (\<lambda>t. (name, t)) (col_type idx)) proj)
         else all_some (map (\<lambda>i. Option.bind (names ! i) (\<lambda>n. map_option (\<lambda>t. (n, t)) (types ! i))) [0..<length names]))"

definition new_result :: "(string \<times> string) list \<Rightarrow> result_set" where
  "new_result cols =
     foldl (\<lambda>rs (n, t). snd (result_set_add_column rs (Some n) (Some t))) (result_set_create (int (length cols))) cols"

definition order_line :: "(string \<times> bool) list \<Rightarrow> string" where
  "order_line ord =
     (if ord = [] then []
      else ''ORDER BY: '' @ separated '', '' (map (\<lambda>(c, desc). c @ '' '' @ (if desc then ''DESC'' else ''ASC'')) ord) @ end_line)"

definition limit_line :: "int \<Rightarrow> int \<Rightarrow> string" where
  "limit_line limit offset =
     (if limit > 0
      then ''LIMIT: '' @ show_int limit @ (if offset > 0 then '' OFFSET: '' @ show_int offset else []) @ end_line
      else [])"

definition table_rule :: "nat \<Rightarrow> string" where
  "table_rule n = ''  '' @ ANSI_YELLOW @ ''+'' @ concat (replicate n ''----------------+'') @ ANSI_RESET @ end_line"

definition table_header :: "string list \<Rightarrow> string" where
  "table_header names =
     end_line @ table_rule (length names) @ ''  '' @ bar @
     concat (map (\<lambda>n. ansi ''1;33'' @ pad_right 15 n @ '' '' @ bar) names) @ end_line @ table_rule (length names)"

definition order_specs :: "result_set \<Rightarrow> (string \<times> bool) list \<Rightarrow> sort_spec list option" where
  "order_specs rs ord =
     all_some (map (\<lambda>(col, desc).
       map_option (\<lambda>j. \<lparr>column_index = j, column_name = col, descending = desc,
           is_numeric = (0 \<le> j \<and> type_in [''INT'', ''FLOAT'', ''INTEGER''] (rs_types rs ! nat j))\<rparr>)
         (column_named col (rs_names rs) 0)) ord)"

definition print_result :: "result_set \<Rightarrow> string" where
  "print_result rs =
     table_header (map printf_s (rs_names rs)) @
     concat (map (\<lambda>row. ''  '' @ bar @ concat (map (\<lambda>i. print_cell (cell_or ''NULL'' row i)) [0..<column_count rs]) @ end_line)
       (rs_rows rs)) @
     table_rule (column_count rs) @ show_nat (length (rs_rows rs)) @ '' row(s) in set'' @ end_line @ end_line"

text \<open>The buffered rows: ORDER BY, then LIMIT and OFFSET, then the table.\<close>

definition finish_buffered :: "qsort_fun \<Rightarrow> (string \<times> bool) list \<Rightarrow> int \<Rightarrow> int \<Rightarrow> result_set \<Rightarrow> string option" where
  "finish_buffered qsort ord limit offset rs =
     do { rs \<leftarrow> (if ord = [] then Some rs
                else do { specs \<leftarrow> order_specs rs ord; (r, rs) \<leftarrow> result_set_sort_multi qsort rs specs; Some rs });
          Some (print_result (if limit > 0 \<or> offset > 0 then result_set_limit rs limit offset else rs)) }"

definition run_plan :: "scan_ctx \<Rightarrow> db_state \<Rightarrow> plan \<Rightarrow> scan_acc \<Rightarrow> scan_acc option" where
  "run_plan ctx s p acc =
     (case p of
        PrimaryKeyLookup v \<Rightarrow>
          do { pk_key \<leftarrow> sys_generate_key_table (sc_db ctx) (sc_table ctx) v;
               case kv_get (ds_store s) pk_key of
                 Some val \<Rightarrow> scan_callback ctx pk_key val (Some acc)
               | None \<Rightarrow>
                   Some (if sc_buffer ctx then acc
                         else acc\<lparr>sa_out := sa_out acc @ ''  | '' @ ANSI_RED @ ''No data found   '' @ ANSI_RESET @ ''|'' @ end_line\<rparr>) }
      | IndexScan col op v \<Rightarrow>
          Option.bind
            (kv_scan_index_range (ds_indexes s) (sc_table ctx) col v (op = ''='')
               (index_scan_callback (ctx\<lparr>sc_stop := (if op = ''='' then Some v else None)\<rparr>) (ds_store s)) (Some acc))
            (\<lambda>acc. acc)
      | FullTableScan \<Rightarrow> full_scan ctx (ds_store s) acc)"

text \<open>What the schema gives: names, types, projection, group column and a message.\<close>

definition select_columns ::
    "sql_select \<Rightarrow> kv_value \<Rightarrow>
     (string option list cptr \<times> string option list cptr \<times> nat \<times> (int \<times> string \<times> nat) list \<times> int option \<times> string) option" where
  "select_columns q v =
     (if val_type v \<noteq> VAL_TYPE_SCHEMA then Some (Null, Null, 0, [], None, [])
      else do {
        schema \<leftarrow> c_str v;
        let names = schema_names schema;
        let types = schema_types schema;
        proj \<leftarrow> projection names (sel_columns q);
        (grp, msg) \<leftarrow> grouping names proj (sel_group_by q);
        Some (Array names, Array types, schema_count schema, proj, grp, msg) })"

definition array_of :: "'a list cptr \<Rightarrow> 'a list" where
  "array_of p = (case p of Array xs \<Rightarrow> xs | _ \<Rightarrow> [])"

text \<open>Printing without buffering: the header before the scan, the groups and the footer after it.\<close>

definition print_names :: "string option list cptr \<Rightarrow> (int \<times> string \<times> nat) list \<Rightarrow> string list option" where
  "print_names names proj =
     (if proj \<noteq> [] then Some (map (\<lambda>(idx, name, func). name) proj) else all_some (array_of names))"

definition select_direct :: "scan_ctx \<Rightarrow> db_state \<Rightarrow> plan \<Rightarrow> string option" where
  "select_direct ctx s p =
     do { heads \<leftarrow> print_names (sc_names ctx) (sc_proj ctx);
          let head = (if sc_names ctx = Null then [] else table_header heads);
          acc \<leftarrow> run_plan ctx s p empty_acc;
          groups \<leftarrow> (if sc_group ctx = None then Some [] else print_groups ctx (sa_groups acc));
          let foot = (if sc_names ctx = Null then [] else table_rule (length heads) @ end_line);
          Some (head @ sa_out acc @ groups @ foot) }"

definition select_buffered :: "exec_env \<Rightarrow> scan_ctx \<Rightarrow> sql_select \<Rightarrow> db_state \<Rightarrow> plan \<Rightarrow> string option" where
  "select_buffered env ctx q s p =
     do { cols \<leftarrow> result_columns (array_of (sc_names ctx)) (array_of (sc_types ctx)) (sc_proj ctx);
          acc \<leftarrow> run_plan ctx s p (empty_acc\<lparr>sa_result := Some (new_result cols)\<rparr>);
          rs \<leftarrow> sa_result acc;
          finish_buffered (ee_qsort env) (sel_order q) (sel_limit q) (sel_offset q) rs }"

definition execute_select :: "exec_env \<Rightarrow> sql_select \<Rightarrow> db_state \<Rightarrow> db_state option" where
  "execute_select env q s =
     do { where_clause \<leftarrow> (case sel_where q of
              None \<Rightarrow> Some None
            | Some e \<Rightarrow> map_option Some (resolve_WHERE_clause (ds_store s) (here s) e));
          let buffering = (sel_order q \<noteq> [] \<or> sel_limit q > 0);
          p \<leftarrow> select_plan (ds_indexes s) (sel_table q) where_clause;
          key \<leftarrow> sys_generate_key_schema (here s) (sel_table q);
          case kv_get (ds_store s) key of
            None \<Rightarrow> Some (say [''Error: Table '', in_quotes (sel_table q), '' does not exist.''] s)
          | Some v \<Rightarrow>
              do { (names, types, n, proj, grp, msg) \<leftarrow> select_columns q v;
                   let ctx = \<lparr>sc_db = here s, sc_table = sel_table q, sc_where = where_clause, sc_names = names,
                         sc_types = types, sc_col_count = n, sc_proj = proj, sc_capture = False, sc_group = grp,
                         sc_buffer = buffering, sc_stop = None\<rparr>;
                   body \<leftarrow> (if buffering then select_buffered env ctx q s p else select_direct ctx s p);
                   Some (emit (msg @ plan_line p @ order_line (sel_order q) @ limit_line (sel_limit q) (sel_offset q) @ body) s) } }"

end
