(* ===== verification/Statements.thy ===== *)
theory Statements
  imports Executor
begin

text \<open>
  The other statements of \<open>src/executor.c\<close>: users and databases, documents, transactions, schema
  changes, indexes and checkpoints; and \<open>execute_query\<close>, which chooses by the type of the node.
\<close>

section \<open>Users and databases\<close>

definition execute_create_user :: "exec_env \<Rightarrow> string \<Rightarrow> string \<Rightarrow> db_state \<Rightarrow> db_state option" where
  "execute_create_user env usr pw s =
     do { (r, st) \<leftarrow> auth_create_user (ee_junk env) (ee_kv env) (ds_store s) usr pw;
          let s = s\<lparr>ds_store := st\<rparr>;
          Some (if r \<noteq> 0 then say [''User '', in_quotes usr, '' created.''] s
                else say [''Error: User '', in_quotes usr, '' already exists.''] s) }"

definition execute_create_db :: "exec_env \<Rightarrow> string \<Rightarrow> db_state \<Rightarrow> db_state option" where
  "execute_create_db env db s =
     do { (r, st) \<leftarrow> sys_create_db (ee_junk env) (ee_kv env) (ds_store s) db;
          let s = s\<lparr>ds_store := st\<rparr>;
          Some (if r \<noteq> 0 then say [''Database '', in_quotes db, '' created.''] s
                else say [''Error: Database '', in_quotes db, '' already exists.''] s) }"

definition execute_show_tables :: "db_state \<Rightarrow> db_state option" where
  "execute_show_tables s = map_option (\<lambda>t. emit t s) (sys_show_tables (ds_store s) (here s))"

definition execute_show_dbs :: "db_state \<Rightarrow> db_state" where
  "execute_show_dbs s = emit (sys_show_dbs (ds_store s)) s"

text \<open>The dash of the second message is its three UTF-8 bytes.\<close>

definition execute_drop_db :: "exec_env \<Rightarrow> string \<Rightarrow> db_state \<Rightarrow> db_state option" where
  "execute_drop_db env db s =
     (if db = ''public''
      then Some (emit (ANSI_RED @ ''Error: Cannot drop the default database '' @ in_quotes ''public'' @ ''.'' @ end_line @ ANSI_RESET) s)
      else if db = here s
      then Some (emit (ANSI_RED @ ''Error: Cannot drop database '' @ in_quotes db @ '' '' @ [CHR 0xE2, CHR 0x80, CHR 0x94] @
                  '' you are currently using it. Switch first with USE <other_db>.'' @ end_line @ ANSI_RESET) s)
      else do {
        (r, st) \<leftarrow> sys_drop_db (ee_kv env) (ds_store s) db;
        let s = s\<lparr>ds_store := st\<rparr>;
        Some (if r = 1 then emit (ANSI_GREEN @ ''Database '' @ in_quotes db @ '' dropped successfully.'' @ end_line @ ANSI_RESET) s
              else if r = 0 then say [''Error: Database '', in_quotes db, '' does not exist.''] s
              else emit (ANSI_RED @ ''Error: Cannot drop database '' @ in_quotes db @ ''.'' @ end_line @ ANSI_RESET) s) })"

definition switch_db :: "string \<Rightarrow> db_state \<Rightarrow> db_state option" where
  "switch_db db s =
     map_option (\<lambda>db. emit (ANSI_GREEN @ ''Switched to database '' @ in_quotes db @ ''.'' @ end_line @ ANSI_RESET)
                        (s\<lparr>ds_session := (ds_session s)\<lparr>current_db := db\<rparr>\<rparr>))
       (sprintf_buf 64 db)"

definition execute_use_db :: "string \<Rightarrow> db_state \<Rightarrow> db_state option" where
  "execute_use_db db s =
     (if db = ''public'' then switch_db db s
      else do {
        b \<leftarrow> sys_db_exists (ds_store s) db;
        if b then switch_db db s
        else Some (say [''Error: Database '', in_quotes db, '' does not exist.''] s) })"

section \<open>Documents\<close>

definition execute_doc_insert :: "exec_env \<Rightarrow> string \<Rightarrow> string \<Rightarrow> db_state \<Rightarrow> db_state option" where
  "execute_doc_insert env coll json s =
     do { seqKeyBuf \<leftarrow> sprintf_buf 256 (''DB:'' @ here s @ '':DOC_SEQ:'' @ coll);
          v \<leftarrow> stored_int s seqKeyBuf;
          let next_id = (case v of None \<Rightarrow> 1 | Some n \<Rightarrow> n + 1);
          if next_id \<ge> 2 ^ 31 then None
          else do {
            s \<leftarrow> st_put env seqKeyBuf (int_value next_id) s;
            key \<leftarrow> sprintf_buf 256 (''DB:'' @ here s @ '':DOC:'' @ coll @ '':'' @ show_int next_id);
            s \<leftarrow> st_put env key \<lparr>val_data = bytes_of json @ [0], val_type = VAL_TYPE_JSON\<rparr> s;
            Some (say [''Document saved (ID: '', show_int next_id, '') key: '', key] s) } }"

definition doc_scan_callback :: "string \<Rightarrow> string \<Rightarrow> string \<Rightarrow> kv_value \<Rightarrow> string option \<Rightarrow> string option" where
  "doc_scan_callback db coll key val out =
     do { out \<leftarrow> out;
          pre \<leftarrow> sprintf_buf 256 (''DB:'' @ db @ '':DOC:'' @ coll @ '':'');
          if has_prefix pre key \<and> val_type val = VAL_TYPE_JSON
          then map_option (\<lambda>json. out @ ANSI_CYAN @ ''- Key: '' @ ANSI_RESET @ key @ end_line @ ''  '' @
                 ANSI_YELLOW @ ''Val: '' @ ANSI_RESET @ json @ end_line) (c_str val)
          else Some out }"

definition execute_doc_get :: "string \<Rightarrow> string option \<Rightarrow> db_state \<Rightarrow> db_state option" where
  "execute_doc_get coll doc_id s =
     (case doc_id of
        Some i \<Rightarrow>
          do { key \<leftarrow> sprintf_buf 256 (''DB:'' @ here s @ '':DOC:'' @ coll @ '':'' @ i);
               let missing = emit (ANSI_RED @ ''Document not found.'' @ end_line @ ANSI_RESET) s;
               case kv_get (ds_store s) key of
                 None \<Rightarrow> Some missing
               | Some v \<Rightarrow>
                   if val_type v \<noteq> VAL_TYPE_JSON then Some missing
                   else do {
                     json \<leftarrow> c_str v;
                     Some (emit (ANSI_GREEN @ ''Document Found:'' @ end_line @ ANSI_RESET @
                       ANSI_CYAN @ ''Key: '' @ ANSI_RESET @ key @ end_line @
                       ANSI_YELLOW @ ''Body: '' @ ANSI_RESET @ json @ end_line) s) } }
      | None \<Rightarrow>
          do { docs \<leftarrow> kv_iterate (doc_scan_callback (here s) coll) (entries (ds_store s)) (Some []);
               Some (emit (ANSI_BOLD @ end_line @ ''Collection: '' @ coll @ '' (DB: '' @ here s @ '')'' @ end_line @ ANSI_RESET @
                 docs @ end_line) s) })"

definition execute_doc_remove :: "exec_env \<Rightarrow> string \<Rightarrow> string \<Rightarrow> db_state \<Rightarrow> db_state option" where
  "execute_doc_remove env coll doc_id s =
     do { key \<leftarrow> sprintf_buf 256 (''DB:'' @ here s @ '':DOC:'' @ coll @ '':'' @ doc_id);
          Some (if kv_get (ds_store s) key \<noteq> None then say [''Document removed: '', key] (st_delete env key s)
                else say [''Error: Document not found.''] s) }"

section \<open>Checkpoints and indexes\<close>

definition st_snapshot :: "exec_env \<Rightarrow> db_state \<Rightarrow> db_state" where
  "st_snapshot env s = s\<lparr>ds_store := kv_snapshot (ee_kv env) (ds_store s)\<rparr>"

definition execute_checkpoint :: "exec_env \<Rightarrow> db_state \<Rightarrow> db_state" where
  "execute_checkpoint env s =
     say [''Checkpoint Complete. Log Truncated.''] (st_snapshot env (say [''Initiating Checkpoint...''] s))"

definition execute_create_index :: "exec_env \<Rightarrow> string \<Rightarrow> string \<Rightarrow> db_state \<Rightarrow> db_state option" where
  "execute_create_index env tbl col s =
     do { let s = say [''Index created on '', tbl, ''('', col, '') [Optimized]''] s;
          table_full \<leftarrow> sprintf_buf 256 (''DB:'' @ here s @ '':TBL:'' @ tbl);
          Some (s\<lparr>ds_indexes := kv_create_index (ee_max_level env) (ds_indexes s) table_full col\<rparr>) }"

section \<open>Transactions\<close>

definition execute_begin :: "exec_env \<Rightarrow> db_state \<Rightarrow> db_state" where
  "execute_begin env s =
     (let (r, m) = txn_begin (ee_now env) (Some (current_user (ds_session s))) (Some (here s)) (ds_txn s);
          s = s\<lparr>ds_txn := m\<rparr>
      in if r = 0
         then emit (ANSI_GREEN @ ''Transaction started (ID: '' @ show_nat (unat (txn_get_id m)) @ '').'' @ end_line @ ANSI_RESET) s
         else emit (ANSI_RED @ ''Error: Could not start transaction. Another transaction may already be active.'' @ end_line @
                ANSI_RESET) s)"

definition execute_commit :: "exec_env \<Rightarrow> db_state \<Rightarrow> db_state" where
  "execute_commit env s =
     (let id = txn_get_id (ds_txn s); (r, m) = txn_commit (ds_txn s); s = s\<lparr>ds_txn := m\<rparr>
      in if r = 0
         then st_snapshot env (emit (ANSI_GREEN @ ''Transaction '' @ show_nat (unat id) @ '' committed successfully.'' @ end_line @
                ANSI_RESET) s)
         else emit (ANSI_RED @ ''Error: No active transaction to commit.'' @ end_line @ ANSI_RESET) s)"

definition execute_rollback :: "exec_env \<Rightarrow> db_state \<Rightarrow> db_state option" where
  "execute_rollback env s =
     (let id = txn_get_id (ds_txn s)
      in do { (r, m, st) \<leftarrow> txn_rollback (ee_junk env) (ee_kv env) (ds_txn s) (ds_store s);
              let s = s\<lparr>ds_txn := m, ds_store := st\<rparr>;
              Some (if r = 0
                    then emit (ANSI_YELLOW @ ''Transaction '' @ show_nat (unat id) @ '' rolled back.'' @ end_line @ ANSI_RESET) s
                    else emit (ANSI_RED @ ''Error: No active transaction to rollback.'' @ end_line @ ANSI_RESET) s) })"

definition execute_rollback_to :: "exec_env \<Rightarrow> string \<Rightarrow> db_state \<Rightarrow> db_state option" where
  "execute_rollback_to env sp s =
     do { (r, m, st) \<leftarrow> txn_rollback_to_savepoint (ee_junk env) (ee_kv env) sp (ds_txn s) (ds_store s);
          let s = s\<lparr>ds_txn := m, ds_store := st\<rparr>;
          Some (if r = 0
                then emit (ANSI_YELLOW @ ''Rolled back to savepoint '' @ in_quotes sp @ ''.'' @ end_line @ ANSI_RESET) s
                else emit (ANSI_RED @ ''Error: Savepoint '' @ in_quotes sp @ '' not found.'' @ end_line @ ANSI_RESET) s) }"

definition execute_savepoint :: "string \<Rightarrow> db_state \<Rightarrow> db_state" where
  "execute_savepoint sp s =
     (let (r, m) = txn_savepoint (Some sp) (ds_txn s); s = s\<lparr>ds_txn := m\<rparr>
      in if r = 0 then emit (ANSI_GREEN @ ''Savepoint '' @ in_quotes sp @ '' created.'' @ end_line @ ANSI_RESET) s
         else emit (ANSI_RED @ ''Error: Could not create savepoint. Ensure a transaction is active.'' @ end_line @ ANSI_RESET) s)"

definition execute_release_savepoint :: "string \<Rightarrow> db_state \<Rightarrow> db_state" where
  "execute_release_savepoint sp s =
     (let (r, m) = txn_release_savepoint sp (ds_txn s); s = s\<lparr>ds_txn := m\<rparr>
      in if r = 0 then emit (ANSI_GREEN @ ''Savepoint '' @ in_quotes sp @ '' released.'' @ end_line @ ANSI_RESET) s
         else emit (ANSI_RED @ ''Error: Savepoint '' @ in_quotes sp @ '' not found.'' @ end_line @ ANSI_RESET) s)"

section \<open>ALTER TABLE\<close>

definition alter_message :: "ast_node \<Rightarrow> string \<Rightarrow> string" where
  "alter_message node table =
     (case node of
        NODE_CMD_ADD_COLUMN t col ty nullable uniq def \<Rightarrow>
          ''Added column '' @ in_quotes col @ '' ('' @ ty @ '') to table '' @ in_quotes table @ ''.''
      | NODE_CMD_DROP_COLUMN t col \<Rightarrow> ''Dropped column '' @ in_quotes col @ '' from table '' @ in_quotes table @ ''.''
      | NODE_CMD_RENAME_COLUMN t col new \<Rightarrow>
          ''Renamed column '' @ in_quotes col @ '' to '' @ in_quotes new @ '' in table '' @ in_quotes table @ ''.''
      | NODE_CMD_MODIFY_COLUMN t col ty \<Rightarrow>
          ''Modified column '' @ in_quotes col @ '' to type '' @ in_quotes ty @ '' in table '' @ in_quotes table @ ''.''
      | NODE_CMD_ADD_CONSTRAINT t name col ref_table ref_col on_delete on_update \<Rightarrow>
          ''Added constraint '' @ in_quotes name @ '' to table '' @ in_quotes table @ '': FOREIGN KEY ('' @ col @
          '') REFERENCES '' @ ref_table @ ''('' @ ref_col @ '').''
      | NODE_CMD_DROP_CONSTRAINT t name \<Rightarrow>
          ''Dropped constraint '' @ in_quotes name @ '' from table '' @ in_quotes table @ ''.''
      | _ \<Rightarrow> [])"

definition execute_alter_table :: "ast_node \<Rightarrow> string \<Rightarrow> db_state \<Rightarrow> db_state" where
  "execute_alter_table node table s =
     (let metaKey = take 255 (''DB:'' @ here s @ '':TBL:'' @ table @ '':META'')
      in if kv_get (ds_store s) metaKey = None
         then emit (ANSI_RED @ ''Error: Table '' @ in_quotes table @ '' does not exist.'' @ end_line @ ANSI_RESET) s
         else emit (ANSI_GREEN @ alter_message node table @ end_line @ ANSI_RESET) s)"

section \<open>Dispatch\<close>

definition execute_query ::
    "(ast_node \<Rightarrow> db_state \<Rightarrow> db_state option) \<Rightarrow> exec_env \<Rightarrow> ast_node \<Rightarrow> db_state \<Rightarrow> db_state option" where
  "execute_query other env node s =
     (case node of
        NODE_CMD_CREATE_TABLE tbl cols \<Rightarrow> execute_create_table env tbl cols s
      | NODE_CMD_CREATE_INDEX tbl col \<Rightarrow> execute_create_index env tbl col s
      | NODE_CMD_DROP_TABLE tbl \<Rightarrow> execute_drop_table env tbl s
      | NODE_CMD_CHECKPOINT \<Rightarrow> Some (execute_checkpoint env s)
      | NODE_CMD_INSERT tbl rows \<Rightarrow> execute_insert env tbl rows s
      | NODE_CMD_SELECT q \<Rightarrow> execute_select env q s
      | NODE_CMD_DOC_INSERT coll json \<Rightarrow> execute_doc_insert env coll json s
      | NODE_CMD_DOC_GET coll i \<Rightarrow> execute_doc_get coll i s
      | NODE_CMD_DOC_REMOVE coll i \<Rightarrow> execute_doc_remove env coll i s
      | NODE_CMD_DELETE tbl where_clause \<Rightarrow> execute_delete env tbl where_clause s
      | NODE_CMD_UPDATE tbl sets where_clause \<Rightarrow> execute_update env tbl sets where_clause s
      | NODE_CMD_CREATE_USER usr pw \<Rightarrow> execute_create_user env usr pw s
      | NODE_CMD_CREATE_DB db \<Rightarrow> execute_create_db env db s
      | NODE_CMD_SHOW_TABLES \<Rightarrow> execute_show_tables s
      | NODE_CMD_USE_DB db \<Rightarrow> execute_use_db db s
      | NODE_CMD_DROP_DB db \<Rightarrow> execute_drop_db env db s
      | NODE_CMD_SHOW_DBS \<Rightarrow> Some (execute_show_dbs s)
      | NODE_CMD_BEGIN \<Rightarrow> Some (execute_begin env s)
      | NODE_CMD_COMMIT \<Rightarrow> Some (execute_commit env s)
      | NODE_CMD_ROLLBACK \<Rightarrow> execute_rollback env s
      | NODE_CMD_ROLLBACK_TO sp \<Rightarrow> execute_rollback_to env sp s
      | NODE_CMD_SAVEPOINT sp \<Rightarrow> Some (execute_savepoint sp s)
      | NODE_CMD_RELEASE_SAVEPOINT sp \<Rightarrow> Some (execute_release_savepoint sp s)
      | NODE_CMD_ADD_COLUMN tbl _ _ _ _ _ \<Rightarrow> Some (execute_alter_table node tbl s)
      | NODE_CMD_DROP_COLUMN tbl _ \<Rightarrow> Some (execute_alter_table node tbl s)
      | NODE_CMD_RENAME_COLUMN tbl _ _ \<Rightarrow> Some (execute_alter_table node tbl s)
      | NODE_CMD_MODIFY_COLUMN tbl _ _ \<Rightarrow> Some (execute_alter_table node tbl s)
      | NODE_CMD_ADD_CONSTRAINT tbl _ _ _ _ _ _ \<Rightarrow> Some (execute_alter_table node tbl s)
      | NODE_CMD_DROP_CONSTRAINT tbl _ \<Rightarrow> Some (execute_alter_table node tbl s)
      | _ \<Rightarrow> other node s)"

end
