(* ===== verification/SchemaText.thy ===== *)
theory SchemaText
  imports Statements
begin

text \<open>
  The schema string of a table: what \<open>CREATE TABLE\<close> writes is what \<open>SELECT\<close>, \<open>INSERT\<close> and \<open>UPDATE\<close>
  read back. And the keys: which strings are keys of which table.
\<close>

section \<open>Strings with separators\<close>

lemma colon_split:
  assumes "CHR '':'' \<notin> set a" and "CHR '':'' \<notin> set b"
  shows "a @ CHR '':'' # x = b @ CHR '':'' # y \<longleftrightarrow> a = b \<and> x = y"
  using assms
proof (induction a arbitrary: b)
  case Nil
  then show ?case by (cases b) auto
next
  case (Cons c a)
  then show ?case by (cases b) auto
qed

lemma strtok_all_field:
  assumes "d \<notin> set f"
  shows "strtok_all d tok (f @ d # rest) =
    (if tok @ f = [] then strtok_all d [] rest else (tok @ f) # strtok_all d [] rest)"
  using assms by (induction f arbitrary: tok) auto

lemma strtok_all_fields:
  assumes "\<forall>f \<in> set fs. d \<notin> set f \<and> f \<noteq> []"
  shows "strtok_all d [] (concat (map (\<lambda>f. f @ [d]) fs)) = fs"
  using assms by (induction fs) (simp_all add: strtok_all_field)

section \<open>The schema that CREATE TABLE writes\<close>

definition clean :: "string \<Rightarrow> bool" where
  "clean s \<longleftrightarrow> CHR '':'' \<notin> set s \<and> CHR '';'' \<notin> set s"

definition schema_string :: "column_def list \<Rightarrow> string" where
  "schema_string cols = concat (map column_schema cols)"

definition column_text :: "column_def \<Rightarrow> string" where
  "column_text c = cd_name c @ '':'' @ cd_type c @ (if cd_is_pk c then '':PK'' else [])"

definition columns_clean :: "column_def list \<Rightarrow> bool" where
  "columns_clean cols \<longleftrightarrow> (\<forall>c \<in> set cols. clean (cd_name c) \<and> clean (cd_type c) \<and> \<not> has_prefix ''PK'' (cd_type c))"

lemma column_schema_text: "column_schema c = column_text c @ [CHR '';'']"
  by (simp add: column_schema_def column_text_def)

lemma column_text_sep: "clean (cd_name c) \<Longrightarrow> clean (cd_type c) \<Longrightarrow> CHR '';'' \<notin> set (column_text c) \<and> column_text c \<noteq> []"
  by (auto simp: column_text_def clean_def)

lemma schema_tokens: "columns_clean cols \<Longrightarrow> strtok_all CHR '';'' [] (schema_string cols) = map column_text cols"
  using strtok_all_fields [of "map column_text cols" "CHR '';''"] column_text_sep
  by (simp add: schema_string_def columns_clean_def comp_def column_schema_text [abs_def])

lemma schema_string_count: "columns_clean cols \<Longrightarrow> schema_count (schema_string cols) = length cols"
proof (induction cols)
  case Nil
  then show ?case by (simp add: schema_count_def schema_string_def)
next
  case (Cons c cols)
  then have "filter (\<lambda>x. x = CHR '';'') (column_text c) = []"
    using column_text_sep [of c] by (auto simp: columns_clean_def filter_empty_conv)
  with Cons show ?case
    by (simp add: schema_count_def schema_string_def column_schema_text columns_clean_def)
qed

lemma before_colon_append: "CHR '':'' \<notin> set a \<Longrightarrow> before_colon (a @ CHR '':'' # b) = a"
  unfolding before_colon_def by (subst takeWhile_append2) auto

lemma before_colon_text: "clean (cd_name c) \<Longrightarrow> before_colon (column_text c) = cd_name c"
  using before_colon_append [of "cd_name c"] by (simp add: column_text_def clean_def)

lemma pair_type_text:
  assumes "clean (cd_name c)" and "clean (cd_type c)"
  shows "pair_type (column_text c) = cd_type c"
proof -
  have "after_colon (column_text c) = Some (cd_type c @ (if cd_is_pk c then '':PK'' else []))"
    using before_colon_text [OF assms(1)] by (simp add: after_colon_def) (simp add: column_text_def)
  moreover have "before_colon (cd_type c @ (if cd_is_pk c then '':PK'' else [])) = cd_type c"
    using assms(2) before_colon_append [of "cd_type c" "''PK''"]
    by (auto simp: clean_def) (simp add: before_colon_def takeWhile_eq_all_conv, metis)
  ultimately show ?thesis by (simp add: pair_type_def)
qed

lemma strstr_skip: "c \<noteq> CHR '':'' \<Longrightarrow> strstr (c # s) (CHR '':'' # t) = strstr s (CHR '':'' # t)"
  by simp

lemma strstr_clean_append: "CHR '':'' \<notin> set a \<Longrightarrow> strstr (a @ s) (CHR '':'' # t) = strstr s (CHR '':'' # t)"
  by (induction a) auto

lemma strstr_clean: "CHR '':'' \<notin> set a \<Longrightarrow> \<not> strstr a (CHR '':'' # t)"
  using strstr_clean_append [of a "[]"] by simp

lemma strstr_text:
  assumes "clean (cd_name c)" and "clean (cd_type c)" and "\<not> has_prefix ''PK'' (cd_type c)"
  shows "strstr (column_text c) '':PK'' = cd_is_pk c"
proof -
  have 1: "strstr (column_text c) '':PK'' = strstr (CHR '':'' # cd_type c @ (if cd_is_pk c then '':PK'' else [])) '':PK''"
    using assms(1) strstr_clean_append [of "cd_name c"] by (simp add: column_text_def clean_def del: strstr.simps)
  have no: "take 2 (cd_type c @ (if cd_is_pk c then '':PK'' else [])) \<noteq> ''PK''"
  proof -
    have "take 2 (cd_type c) \<noteq> ''PK''" using assms(3) by (simp add: has_prefix_def numeral_2_eq_2)
    then show ?thesis by (cases "cd_type c"; cases "tl (cd_type c)") (auto simp: numeral_2_eq_2)
  qed
  then have "strstr (column_text c) '':PK'' = strstr (cd_type c @ (if cd_is_pk c then '':PK'' else [])) '':PK''"
    unfolding 1 by (simp add: numeral_3_eq_3 numeral_2_eq_2)
  also have "\<dots> = strstr (if cd_is_pk c then '':PK'' else []) '':PK''"
    using assms(2) strstr_clean_append [of "cd_type c"] by (simp add: clean_def del: strstr.simps)
  finally show ?thesis by simp
qed

lemma schema_roundtrip_facts:
  assumes "columns_clean cols"
  shows "schema_names (schema_string cols) = map (\<lambda>c. Some (cd_name c)) cols"
    and "schema_types (schema_string cols) = map (\<lambda>c. Some (cd_type c)) cols"
    and "pk_index (schema_string cols) = (case first_idx cd_is_pk cols of None \<Rightarrow> 0 | Some i \<Rightarrow> i)"
    and "update_columns (schema_string cols) = take 64 (map cd_name cols)"
proof -
  note toks = schema_tokens [OF assms]
  have c: "before_colon (column_text c) = cd_name c" "pair_type (column_text c) = cd_type c"
    "strstr (column_text c) '':PK'' = cd_is_pk c" "CHR '':'' \<in> set (column_text c)" if "c \<in> set cols" for c
    using that assms before_colon_text pair_type_text strstr_text by (auto simp: columns_clean_def column_text_def)
  have pairs: "schema_pairs (schema_string cols) = map column_text cols"
    by (simp add: schema_pairs_def toks schema_string_count [OF assms])
  have "first_idx (\<lambda>p. strstr p '':PK'') (map column_text cols) = first_idx cd_is_pk cols"
    by (rule first_idx_cong) (auto simp: c(3))
  moreover have "filter (\<lambda>p. CHR '':'' \<in> set p) (map column_text cols) = map column_text cols"
    using c(4) by (auto simp: filter_id_conv)
  moreover have u: "map before_colon (map column_text cols) = map cd_name cols" using c(1) by simp
  ultimately show "update_columns (schema_string cols) = take 64 (map cd_name cols)"
    by (simp only: update_columns_def toks)
  show "pk_index (schema_string cols) = (case first_idx cd_is_pk cols of None \<Rightarrow> 0 | Some i \<Rightarrow> i)"
    using \<open>first_idx _ _ = first_idx _ _\<close> by (simp add: pk_index_def toks)
  show "schema_names (schema_string cols) = map (\<lambda>c. Some (cd_name c)) cols"
    and "schema_types (schema_string cols) = map (\<lambda>c. Some (cd_type c)) cols"
    using c(1,2) schema_string_count [OF assms]
    by (simp_all add: schema_names_def schema_types_def filled_def pairs)
qed

text \<open>C19: The schema written by CREATE TABLE reads back as the columns it was made of: SELECT gets the
  names and types, INSERT the position of the first primary key (the first column when there is
  none), UPDATE the first 64 names.\<close>

theorem schema_roundtrip:
  assumes "columns_clean cols"
  shows "schema_names (schema_string cols) = map (\<lambda>c. Some (cd_name c)) cols \<and>
    schema_types (schema_string cols) = map (\<lambda>c. Some (cd_type c)) cols \<and>
    pk_index (schema_string cols) = (case first_idx cd_is_pk cols of None \<Rightarrow> 0 | Some i \<Rightarrow> i) \<and>
    update_columns (schema_string cols) = take 64 (map cd_name cols)"
  by (simp only: schema_roundtrip_facts [OF assms] simp_thms)

theorem schema_roundtrip_witness:
  "schema_names ''id:INT:PK;name:STRING;'' = [Some ''id'', Some ''name'']"
  using schema_roundtrip [of "[\<lparr>cd_name = ''id'', cd_type = ''INT'', cd_is_pk = True\<rparr>,
      \<lparr>cd_name = ''name'', cd_type = ''STRING'', cd_is_pk = False\<rparr>]"]
  by (simp add: columns_clean_def clean_def has_prefix_def schema_string_def column_schema_def)

end
