(* ===== verification/SelectSemantics.thy ===== *)
theory SelectSemantics
  imports SchemaText
begin

text \<open>
  What SELECT prints: the rows of the table, in the order of the slots, that satisfy the condition,
  projected to the requested columns. The condition has a meaning on rows of its own, \<open>cond_sem\<close>,
  that the evaluator of \<open>src/executor.c\<close> agrees with.
\<close>

section \<open>The scan as a fold over the rows\<close>

definition decode_row :: "kv_value \<Rightarrow> row_result" where
  "decode_row v = row_deserialize (Some (val_data v)) (length (val_data v))"

definition row_of_entry :: "string \<Rightarrow> kv_entry \<Rightarrow> string list option" where
  "row_of_entry pre e =
     (if has_prefix pre (entry_key e)
      then (case decode_row (entry_val e) of Columns row \<Rightarrow> Some row | _ \<Rightarrow> None) else None)"

definition stored_rows :: "string \<Rightarrow> kv_store \<Rightarrow> string list list" where
  "stored_rows pre store = List.map_filter (row_of_entry pre) (live (entries store))"

definition readable :: "string \<Rightarrow> kv_store \<Rightarrow> bool" where
  "readable pre store \<longleftrightarrow>
     (\<forall>e \<in> set (live (entries store)). has_prefix pre (entry_key e) \<longrightarrow> decode_row (entry_val e) \<noteq> OutOfBounds)"

definition scan_row :: "scan_ctx \<Rightarrow> scan_acc option \<Rightarrow> string list \<Rightarrow> scan_acc option" where
  "scan_row ctx acc row =
     do { acc \<leftarrow> acc; b \<leftarrow> where_holds ctx row; if b then deliver_row ctx row acc else Some acc }"

lemma scan_callback_row:
  assumes "\<not> sc_capture ctx" and "length (row_prefix ctx) < 256"
    and "has_prefix (row_prefix ctx) key \<Longrightarrow> decode_row val \<noteq> OutOfBounds"
  shows "scan_callback ctx key val acc =
    (case row_of_entry (row_prefix ctx) \<lparr>entry_key = key, entry_val = val, occupied = True\<rparr> of
       None \<Rightarrow> acc | Some row \<Rightarrow> scan_row ctx acc row)"
  using assms
  by (cases acc; cases "decode_row val")
    (auto simp: scan_callback_def scan_row_def row_of_entry_def decode_row_def sprintf_buf_def)

lemma full_scan_fold:
  assumes "\<not> sc_capture ctx" and "length (row_prefix ctx) < 256" and "readable (row_prefix ctx) store"
  shows "full_scan ctx store acc = foldl (scan_row ctx) (Some acc) (stored_rows (row_prefix ctx) store)"
proof -
  have "foldl (\<lambda>c e. scan_callback ctx (entry_key e) (entry_val e) c) a es =
      foldl (scan_row ctx) a (List.map_filter (row_of_entry (row_prefix ctx)) es)"
    if "\<forall>e \<in> set es. has_prefix (row_prefix ctx) (entry_key e) \<longrightarrow> decode_row (entry_val e) \<noteq> OutOfBounds" for es a
    using that
  proof (induction es arbitrary: a)
    case Nil
    then show ?case by simp
  next
    case (Cons e es)
    have "row_of_entry pre \<lparr>entry_key = entry_key e, entry_val = entry_val e, occupied = True\<rparr> = row_of_entry pre e" for pre
      by (simp add: row_of_entry_def)
    then have "scan_callback ctx (entry_key e) (entry_val e) a =
        (case row_of_entry (row_prefix ctx) e of None \<Rightarrow> a | Some row \<Rightarrow> scan_row ctx a row)"
      using scan_callback_row [OF assms(1,2), of "entry_key e" "entry_val e" a] Cons.prems by simp
    then show ?case using Cons by (simp add: map_filter_simps split: option.split)
  qed
  from this [of "live (entries store)" "Some acc"] assms(3) show ?thesis
    by (simp add: full_scan_def kv_iterate_live readable_def stored_rows_def)
qed

section \<open>The meaning of a condition\<close>

definition cond_column :: "column_def list \<Rightarrow> string \<Rightarrow> string list \<Rightarrow> (string \<times> string) option" where
  "cond_column cols name row =
     (case first_idx (\<lambda>c. cd_name c = name) cols of
        None \<Rightarrow> None
      | Some i \<Rightarrow> if i < length row then Some (cd_type (cols ! i), row ! i) else None)"

text \<open>Numbers are compared as doubles, other columns in the order of their bytes; there is no other
  operator.\<close>

definition compare_sem :: "bool \<Rightarrow> string \<Rightarrow> string \<Rightarrow> string \<Rightarrow> bool" where
  "compare_sem numeric op cell v \<longleftrightarrow>
     op = ''='' \<and> (if numeric then double_eq (atof cell) (atof v) else cell = v) \<or>
     op = ''<'' \<and> (if numeric then double_less (atof cell) (atof v) else cell < v) \<or>
     op = ''>'' \<and> (if numeric then double_less (atof v) (atof cell) else v < cell)"

lemma compare_cell_sem: "compare_cell numeric op cell v = compare_sem numeric op cell v"
  by (auto simp: compare_cell_def compare_sem_def)

text \<open>A comparison with an unknown column, or with what is not a literal, is false.\<close>

fun cond_sem :: "column_def list \<Rightarrow> sql_expr \<Rightarrow> string list \<Rightarrow> bool" where
  "cond_sem cols (EXPR_BINARY l op r) row =
     (if op = ''AND'' then cond_sem cols l row \<and> cond_sem cols r row
      else if op = ''OR'' then cond_sem cols l row \<or> cond_sem cols r row
      else (case (literal_value l, r) of
              (Some name, EXPR_LITERAL v) \<Rightarrow>
                (case cond_column cols name row of
                   None \<Rightarrow> False
                 | Some (ty, cell) \<Rightarrow> compare_sem (numeric_type ty) op cell v)
            | _ \<Rightarrow> False))"
| "cond_sem cols e row = True"

text \<open>Comparisons have a name on the left, as the parser builds them.\<close>

fun cond_ok :: "sql_expr \<Rightarrow> bool" where
  "cond_ok (EXPR_BINARY l op r) =
     (if op = ''AND'' \<or> op = ''OR'' then cond_ok l \<and> cond_ok r else literal_value l \<noteq> None)"
| "cond_ok e = True"

definition ctx_for :: "column_def list \<Rightarrow> scan_ctx \<Rightarrow> bool" where
  "ctx_for cols ctx \<longleftrightarrow> sc_names ctx = Array (map (\<lambda>c. Some (cd_name c)) cols) \<and>
     sc_types ctx = Array (map (\<lambda>c. Some (cd_type c)) cols) \<and> sc_col_count ctx = length cols"

lemma find_col_first:
  "find_col (map (\<lambda>c. Some (cd_name c)) cols) name j =
     Some (case first_idx (\<lambda>c. cd_name c = name) cols of None \<Rightarrow> -1 | Some i \<Rightarrow> j + int i)"
  by (induction cols arbitrary: j) (auto split: option.split)

lemma compare_column_sem:
  assumes "ctx_for cols ctx" and "literal_value l = Some name"
  shows "compare_column ctx l op r row =
    Some (case r of
            EXPR_LITERAL v \<Rightarrow>
              (case cond_column cols name row of
                 None \<Rightarrow> False
               | Some (ty, cell) \<Rightarrow> compare_sem (numeric_type ty) op cell v)
          | _ \<Rightarrow> False)"
proof (cases "first_idx (\<lambda>c. cd_name c = name) cols")
  case None
  then show ?thesis using assms
    by (cases r) (simp_all add: compare_column_def get_col_index_def ctx_for_def find_col_first cond_column_def compare_cell_sem)
next
  case (Some i)
  then have "i < length cols" by (rule first_idx_SomeD)
  with Some show ?thesis using assms
    by (cases r) (simp_all add: compare_column_def get_col_index_def ctx_for_def find_col_first cond_column_def column_is_numeric_def compare_cell_sem)
qed

lemma evaluate_condition_sem:
  "ctx_for cols ctx \<Longrightarrow> cond_ok e \<Longrightarrow> evaluate_condition ctx e row = Some (cond_sem cols e row)"
proof (induction ctx e row rule: evaluate_condition.induct)
  case (1 ctx l op r row)
  show ?case
  proof (cases "op = ''AND'' \<or> op = ''OR''")
    case True
    then show ?thesis using 1 by auto
  next
    case False
    then obtain name where "literal_value l = Some name" using 1 by auto
    then show ?thesis using False compare_column_sem [OF 1(5)] by (auto split: sql_expr.splits)
  qed
qed simp_all

definition where_sem :: "column_def list \<Rightarrow> sql_expr option \<Rightarrow> string list \<Rightarrow> bool" where
  "where_sem cols wh row = (case wh of None \<Rightarrow> True | Some e \<Rightarrow> cond_sem cols e row)"

definition where_ok :: "sql_expr option \<Rightarrow> bool" where
  "where_ok wh = (case wh of None \<Rightarrow> True | Some e \<Rightarrow> cond_ok e)"

lemma where_holds_sem: "ctx_for cols ctx \<Longrightarrow> where_ok (sc_where ctx) \<Longrightarrow> where_holds ctx row = Some (where_sem cols (sc_where ctx) row)"
  by (auto simp: where_holds_def where_ok_def where_sem_def evaluate_condition_sem split: option.split)

section \<open>The rows a scan delivers\<close>

definition row_line :: "string list \<Rightarrow> string" where
  "row_line cells = ''  '' @ bar @ concat (map print_cell cells) @ end_line"

lemma scan_direct:
  assumes "\<not> sc_capture ctx" and "sc_group ctx = None" and "\<not> sc_buffer ctx"
    and "\<And>row. row \<in> set rows \<Longrightarrow> where_holds ctx row = Some (P row)"
    and "\<And>row. row \<in> set rows \<Longrightarrow> P row \<Longrightarrow> out_cells ctx row = Some (cells row)"
  shows "foldl (scan_row ctx) (Some acc) rows =
    Some (acc\<lparr>sa_out := sa_out acc @ concat (map (\<lambda>row. row_line (cells row)) (filter P rows))\<rparr>)"
  using assms(4,5)
proof (induction rows arbitrary: acc)
  case Nil
  then show ?case by simp
next
  case (Cons row rows)
  have w: "where_holds ctx row = Some (P row)" using Cons.prems by simp
  show ?case
  proof (cases "P row")
    case True
    then have "out_cells ctx row = Some (cells row)" using Cons.prems by simp
    then have "scan_row ctx (Some acc) row = Some (acc\<lparr>sa_out := sa_out acc @ row_line (cells row)\<rparr>)"
      using w True assms(1,2,3) by (simp add: scan_row_def deliver_row_def row_line_def)
    then show ?thesis using True Cons by simp
  next
    case False
    then have "scan_row ctx (Some acc) row = Some acc" using w by (simp add: scan_row_def)
    then show ?thesis using False Cons by simp
  qed
qed

lemma scan_buffered:
  assumes "\<not> sc_capture ctx" and "sc_group ctx = None" and "sc_buffer ctx" and "sa_result acc = Some rs"
    and "\<And>row. row \<in> set rows \<Longrightarrow> where_holds ctx row = Some (P row)"
    and "\<And>row. row \<in> set rows \<Longrightarrow> P row \<Longrightarrow> out_cells ctx row = Some (cells row)"
  shows "foldl (scan_row ctx) (Some acc) rows =
    Some (acc\<lparr>sa_result := Some (foldl (\<lambda>rs row. snd (result_set_add_row rs (map Some (cells row)))) rs (filter P rows))\<rparr>)"
  using assms(4-6)
proof (induction rows arbitrary: acc rs)
  case Nil
  then show ?case by simp
next
  case (Cons row rows)
  have w: "where_holds ctx row = Some (P row)" using Cons.prems by simp
  show ?case
  proof (cases "P row")
    case True
    then have "out_cells ctx row = Some (cells row)" using Cons.prems by simp
    then have "scan_row ctx (Some acc) row =
        Some (acc\<lparr>sa_result := Some (snd (result_set_add_row rs (map Some (cells row))))\<rparr>)"
      using w True assms(1,2,3) Cons.prems(1) by (simp add: scan_row_def deliver_row_def)
    then show ?thesis using True Cons by simp
  next
    case False
    then have "scan_row ctx (Some acc) row = Some acc" using w by (simp add: scan_row_def)
    then show ?thesis using False Cons by simp
  qed
qed

section \<open>SELECT without grouping, order or limit\<close>

definition project_row :: "column_def list \<Rightarrow> (nat \<times> string) list \<Rightarrow> string list \<Rightarrow> string list" where
  "project_row cols items row =
     (if items = [(0, ''*'')] then row
      else map (\<lambda>(f, name). case cond_column cols name row of None \<Rightarrow> ''NULL'' | Some (ty, cell) \<Rightarrow> cell) items)"

definition head_names :: "column_def list \<Rightarrow> (nat \<times> string) list \<Rightarrow> string list" where
  "head_names cols items = (if items = [(0, ''*'')] then map cd_name cols else map snd items)"

definition plain_items :: "(nat \<times> string) list \<Rightarrow> bool" where
  "plain_items items \<longleftrightarrow> items = [(0, ''*'')] \<or> items \<noteq> [] \<and> (\<forall>(f, name) \<in> set items. f = 0 \<and> name \<noteq> ''*'')"

definition has_schema :: "kv_store \<Rightarrow> string \<Rightarrow> string \<Rightarrow> column_def list \<Rightarrow> bool" where
  "has_schema store db tbl cols \<longleftrightarrow> columns_clean cols \<and> CHR 0x00 \<notin> set (schema_string cols) \<and>
     length (''DB:'' @ db @ '':META:TBL:'' @ tbl) < 512 \<and>
     kv_get store (''DB:'' @ db @ '':META:TBL:'' @ tbl) =
       Some \<lparr>val_data = bytes_of (schema_string cols) @ [0], val_type = VAL_TYPE_SCHEMA\<rparr>"

lemma c_str_bytes: "CHR 0x00 \<notin> set s \<Longrightarrow> c_str \<lparr>val_data = bytes_of s @ [0], val_type = t\<rparr> = Some s"
proof -
  assume "CHR 0x00 \<notin> set s"
  then have "\<forall>b \<in> set (bytes_of s). b \<noteq> 0" by (auto simp: bytes_of_def byte_of_char_0)
  then have "takeWhile (\<lambda>b. b \<noteq> 0) (bytes_of s @ [0]) = bytes_of s" by (subst takeWhile_append2) auto
  then show ?thesis by (simp add: c_str_def c_string_def)
qed

definition unresolved :: "sql_expr option \<Rightarrow> bool" where
  "unresolved wh = (case wh of Some (EXPR_BINARY l op (EXPR_SUBQUERY q)) \<Rightarrow> True | _ \<Rightarrow> False)"

lemma resolve_plain:
  assumes "\<not> unresolved (Some e)"
  shows "resolve_WHERE_clause store db e = Some e"
proof (cases e)
  case (EXPR_BINARY l op r)
  then show ?thesis using assms by (cases r) (simp_all add: unresolved_def)
qed simp_all

lemma resolve_where:
  "\<not> unresolved wh \<Longrightarrow>
   (case wh of None \<Rightarrow> Some None | Some e \<Rightarrow> map_option Some (resolve_WHERE_clause store db e)) = Some wh"
  by (cases wh) (simp_all add: resolve_plain)

definition item_index :: "column_def list \<Rightarrow> string \<Rightarrow> int" where
  "item_index cols name = (case first_idx (\<lambda>c. cd_name c = name) cols of None \<Rightarrow> 999 | Some i \<Rightarrow> int i)"

lemma project_item_eq:
  "name \<noteq> ''*'' \<Longrightarrow> project_item (map (\<lambda>c. Some (cd_name c)) cols) (f, name) = Some (item_index cols name, name, f)"
  by (simp add: project_item_def find_col_first item_index_def split: option.split)

lemma all_some_map: "(\<And>x. x \<in> set xs \<Longrightarrow> f x = Some (g x)) \<Longrightarrow> all_some (map f xs) = Some (map g xs)"
  by (induction xs) simp_all

definition proj_of :: "column_def list \<Rightarrow> (nat \<times> string) list \<Rightarrow> (int \<times> string \<times> nat) list" where
  "proj_of cols items =
     (if items = [(0, ''*'')] then [] else map (\<lambda>(f, name). (item_index cols name, name, f)) items)"

lemma projection_plain:
  assumes "plain_items items"
  shows "projection (map (\<lambda>c. Some (cd_name c)) cols) items = Some (proj_of cols items)"
proof (cases "items = [(0, ''*'')]")
  case True
  then show ?thesis by (simp add: projection_def proj_of_def)
next
  case False
  with assms have ok: "items \<noteq> []" "\<And>f name. (f, name) \<in> set items \<Longrightarrow> f = 0 \<and> name \<noteq> ''*''"
    by (auto simp: plain_items_def)
  have "all_some (map (project_item (map (\<lambda>c. Some (cd_name c)) cols)) items) =
      Some (map (\<lambda>(f, name). (item_index cols name, name, f)) items)"
    by (rule all_some_map) (use ok(2) project_item_eq in \<open>auto split: prod.split\<close>)
  moreover obtain f name rest where "items = (f, name) # rest" "name \<noteq> ''*''"
    using ok by (cases items) auto
  ultimately show ?thesis using False by (simp add: projection_def proj_of_def)
qed

lemma out_cells_project:
  assumes "sc_proj ctx = proj_of cols items" and "plain_items items" and "length row \<le> 999"
  shows "out_cells ctx row = Some (project_row cols items row)"
proof (cases "items = [(0, ''*'')]")
  case True
  then show ?thesis using assms(1) by (simp add: out_cells_def proj_of_def project_row_def)
next
  case False
  have cell: "out_cell row (item_index cols name) =
      Some (case cond_column cols name row of None \<Rightarrow> ''NULL'' | Some (ty, cell) \<Rightarrow> cell)" for name
    using assms(3) by (auto simp: out_cell_def item_index_def cond_column_def split: option.split)
  have "all_some (map (\<lambda>(idx, name, func). out_cell row idx) (map (\<lambda>(f, name). (item_index cols name, name, f)) items)) =
      Some (project_row cols items row)"
    using False all_some_map [of items "\<lambda>(f, name). out_cell row (item_index cols name)"
        "\<lambda>(f, name). case cond_column cols name row of None \<Rightarrow> ''NULL'' | Some (ty, cell) \<Rightarrow> cell"]
    by (auto simp: project_row_def cell comp_def case_prod_beta')
  then show ?thesis using False assms(1,2) by (simp add: out_cells_def proj_of_def plain_items_def)
qed

lemma select_columns_schema:
  assumes "has_schema store db tbl cols" and "kv_get store (''DB:'' @ db @ '':META:TBL:'' @ tbl) = Some v"
    and "projection (map (\<lambda>c. Some (cd_name c)) cols) (sel_columns q) = Some proj"
    and "grouping (map (\<lambda>c. Some (cd_name c)) cols) proj (sel_group_by q) = Some (grp, msg)"
  shows "select_columns q v = Some (Array (map (\<lambda>c. Some (cd_name c)) cols), Array (map (\<lambda>c. Some (cd_type c)) cols),
    length cols, proj, grp, msg)"
  using assms schema_roundtrip_facts [of cols] c_str_bytes [of "schema_string cols" VAL_TYPE_SCHEMA] schema_string_count [of cols]
  by (auto simp: has_schema_def select_columns_def)


section \<open>An example table\<close>

definition row_ok :: "string list \<Rightarrow> bool" where
  "row_ok row \<longleftrightarrow> (\<forall>v \<in> set row. length v < 2147483648) \<and> length row \<le> 1000"

lemma decode_row_encoding:
  assumes "row_ok row"
  shows "decode_row \<lparr>val_data = row_encoding row, val_type = t\<rparr> = Columns row"
proof -
  have "get_le 4 (row_encoding row) = Some (length row, concat (map row_column row))"
    using assms by (simp add: row_encoding_def row_ok_def get_le_append)
  moreover have "row_read_loop (length row) (concat (map row_column row)) = Some row"
    using row_read_loop_take [of row "length (concat (map row_column row))" "[]"] assms by (simp add: row_ok_def)
  ultimately show ?thesis using assms
    by (simp add: decode_row_def row_deserialize_def row_encoding_def int_of_u32_small row_ok_def Let_def)
qed

definition demo_cols :: "column_def list" where
  "demo_cols = [\<lparr>cd_name = ''id'', cd_type = ''STRING'', cd_is_pk = True\<rparr>, \<lparr>cd_name = ''n'', cd_type = ''INT'', cd_is_pk = False\<rparr>]"

definition demo_entries :: "kv_entry list" where
  "demo_entries =
     [\<lparr>entry_key = ''DB:d:META:TBL:t'',
       entry_val = \<lparr>val_data = bytes_of (schema_string demo_cols) @ [0], val_type = VAL_TYPE_SCHEMA\<rparr>, occupied = True\<rparr>,
      \<lparr>entry_key = ''DB:d:TBL:t:a'', entry_val = \<lparr>val_data = row_encoding [''a'', ''7''], val_type = VAL_TYPE_ROW\<rparr>, occupied = True\<rparr>,
      \<lparr>entry_key = ''DB:d:TBL:t:b'', entry_val = \<lparr>val_data = row_encoding [''b'', ''12''], val_type = VAL_TYPE_ROW\<rparr>, occupied = True\<rparr>]"

definition demo_state :: "kv_store \<Rightarrow> db_state" where
  "demo_state st = \<lparr>ds_store = st\<lparr>entries := demo_entries\<rparr>, ds_indexes = [], ds_coins = 0, ds_txn = idle_manager,
     ds_session = \<lparr>current_db = ''d'', current_user = ''u''\<rparr>, ds_out = []\<rparr>"

lemma string_not_numeric: "\<not> numeric_type ''STRING''"
  by (simp add: numeric_type_def strcasecmp_eq_def to_lower_def char_of_def bit_0)

lemma demo_reach: "kv_reach demo_entries"
  by (rule full_table_reach) (simp_all add: demo_entries_def)

lemma demo_schema: "has_schema (ds_store (demo_state st)) (here (demo_state st)) ''t'' demo_cols"
proof -
  have "has_entry demo_entries ''DB:d:META:TBL:t'' \<lparr>val_data = bytes_of (schema_string demo_cols) @ [0], val_type = VAL_TYPE_SCHEMA\<rparr>"
    by (simp add: has_entry_def demo_entries_def)
  then have "kv_get (ds_store (demo_state st)) ''DB:d:META:TBL:t'' =
      Some \<lparr>val_data = bytes_of (schema_string demo_cols) @ [0], val_type = VAL_TYPE_SCHEMA\<rparr>"
    using kv_lookup_reach [OF demo_reach] by (simp add: kv_get_def demo_state_def)
  then show ?thesis
    by (simp add: has_schema_def here_def demo_state_def columns_clean_def demo_cols_def clean_def has_prefix_def
        schema_string_def column_schema_def)
qed

lemma demo_rows:
  "readable ''DB:d:TBL:t:'' (ds_store (demo_state st))"
  "stored_rows ''DB:d:TBL:t:'' (ds_store (demo_state st)) = [[''a'', ''7''], [''b'', ''12'']]"
proof -
  have d: "decode_row \<lparr>val_data = row_encoding [''a'', ''7''], val_type = 0\<rparr> = Columns [''a'', ''7'']"
    "decode_row \<lparr>val_data = row_encoding [''b'', ''12''], val_type = 0\<rparr> = Columns [''b'', ''12'']"
    by (simp_all add: decode_row_encoding row_ok_def)
  show "readable ''DB:d:TBL:t:'' (ds_store (demo_state st))"
    by (simp add: readable_def demo_state_def demo_entries_def live_def has_prefix_def d)
  show "stored_rows ''DB:d:TBL:t:'' (ds_store (demo_state st)) = [[''a'', ''7''], [''b'', ''12'']]"
    by (simp add: stored_rows_def demo_state_def demo_entries_def live_def has_prefix_def d row_of_entry_def map_filter_simps)
qed


section \<open>The primary-key plan\<close>

lemma reach_distinct:
  assumes "kv_reach es"
  shows "distinct (map entry_key (live es))"
proof -
  have "distinct (map entry_key (filter occupied (map ((!) es) [0..<n])))" if "n \<le> length es" for n
    using that
  proof (induction n)
    case 0
    then show ?case by simp
  next
    case (Suc n)
    have "entry_key (es ! i) \<noteq> entry_key (es ! n)" if "i < n" "occupied (es ! i)" "occupied (es ! n)" for i
    proof
      assume "entry_key (es ! i) = entry_key (es ! n)"
      moreover have "probe_from_home es (entry_key (es ! i)) = Found i" "probe_from_home es (entry_key (es ! n)) = Found n"
        using assms that Suc.prems by (auto simp: kv_reach_def)
      ultimately show False using that(1) by simp
    qed
    then have "occupied (es ! n) \<Longrightarrow> entry_key (es ! n) \<notin> entry_key ` set (filter occupied (map ((!) es) [0..<n]))"
      by force
    then show ?case using Suc by simp
  qed
  from this [of "length es"] show ?thesis by (simp add: map_nth live_def)
qed

lemma foldl_only:
  assumes "\<And>e c. e \<in> set xs \<Longrightarrow> e \<noteq> x \<Longrightarrow> f c e = c" and "distinct xs"
  shows "foldl f c xs = (if x \<in> set xs then f c x else c)"
  using assms
proof (induction xs arbitrary: c)
  case Nil
  then show ?case by simp
next
  case (Cons y ys)
  have IH: "foldl f d ys = (if x \<in> set ys then f d x else d)" for d
    by (rule Cons.IH) (use Cons.prems in auto)
  show ?case
  proof (cases "y = x")
    case True
    then show ?thesis using IH Cons.prems(2) by simp
  next
    case False
    then have "f c y = c" using Cons.prems(1) by simp
    then show ?thesis using IH False by simp
  qed
qed

text \<open>The key of every row of the table ends in the value of its \<open>i\<close>-th column.\<close>

definition keyed_by :: "nat \<Rightarrow> string \<Rightarrow> kv_store \<Rightarrow> bool" where
  "keyed_by i pre store \<longleftrightarrow>
     (\<forall>e \<in> set (live (entries store)). has_prefix pre (entry_key e) \<longrightarrow>
        (\<exists>row. decode_row (entry_val e) = Columns row \<and> i < length row \<and> entry_key e = pre @ row ! i))"

text \<open>C5: The primary-key plan is an optimisation of the full scan. As long as the probe chains of the
  table of entries are whole (no \<open>kv_delete\<close> has emptied a slot that a later key was probed past), the
  rows are stored under their \<open>id\<close> and \<open>id\<close> is not compared as a number, looking up the one key of
  \<open>WHERE id = v\<close> collects the same rows as scanning the table; when there is no such row, it also prints
  a message, unless rows are buffered for grouping or sorting.\<close>

theorem id_lookup_equals_scan:
  assumes "ctx_for cols ctx" and "\<not> sc_capture ctx"
    and "sc_where ctx = Some (EXPR_BINARY (EXPR_IDENTIFIER ''id'') ''='' (EXPR_LITERAL v))"
    and "first_idx (\<lambda>c. cd_name c = ''id'') cols = Some i" and "\<not> numeric_type (cd_type (cols ! i))"
    and "kv_reach (entries (ds_store s))" and "keyed_by i (row_prefix ctx) (ds_store s)"
    and "length (row_prefix ctx) < 256" and "length (row_prefix ctx) + length v < 512"
  shows "run_plan ctx s (PrimaryKeyLookup v) acc =
    map_option (\<lambda>a. if sc_buffer ctx \<or> kv_get (ds_store s) (row_prefix ctx @ v) \<noteq> None then a
        else a\<lparr>sa_out := sa_out a @ ''  | '' @ ANSI_RED @ ''No data found   '' @ ANSI_RESET @ ''|'' @ end_line\<rparr>)
      (run_plan ctx s FullTableScan acc)"
proof -
  let ?pre = "row_prefix ctx" and ?es = "live (entries (ds_store s))"
  let ?f = "\<lambda>c e. scan_callback ctx (entry_key e) (entry_val e) c"
  have key: "sys_generate_key_table (sc_db ctx) (sc_table ctx) v = Some (?pre @ v)"
    using assms(9) by (simp add: sys_generate_key_table_def row_prefix_def sprintf_buf_def)
  have other: "?f c e = c" if e: "e \<in> set ?es" "entry_key e \<noteq> ?pre @ v" for e c
  proof (cases "has_prefix ?pre (entry_key e)")
    case False
    then show ?thesis using assms(8) by (cases c) (simp_all add: scan_callback_def sprintf_buf_def assms(2))
  next
    case True
    then obtain row where row: "decode_row (entry_val e) = Columns row" "i < length row" "entry_key e = ?pre @ row ! i"
      using assms(7) e(1) by (auto simp: keyed_by_def)
    then have ne: "row ! i \<noteq> v" using e(2) by auto
    have "where_holds ctx row = Some (where_sem cols (sc_where ctx) row)"
      by (rule where_holds_sem [OF assms(1)]) (simp add: assms(3) where_ok_def literal_value_def)
    also have "where_sem cols (sc_where ctx) row = False"
      using ne assms(4,5) row(2) by (simp add: assms(3) where_sem_def literal_value_def cond_column_def compare_sem_def)
    finally have "where_holds ctx row = Some False" .
    then show ?thesis using assms(2) scan_callback_row [OF assms(2,8), of "entry_key e" "entry_val e" c] row(1) True
      by (cases c) (simp_all add: row_of_entry_def scan_row_def)
  qed
  have dk: "distinct (map entry_key ?es)" by (rule reach_distinct [OF assms(6)])
  have scan: "full_scan ctx (ds_store s) acc = foldl ?f (Some acc) ?es" by (simp add: full_scan_def kv_iterate_live)
  show ?thesis
  proof (cases "kv_get (ds_store s) (?pre @ v)")
    case None
    then have "\<And>e. e \<in> set ?es \<Longrightarrow> entry_key e \<noteq> ?pre @ v"
      using kv_lookup_reach [OF assms(6), of "?pre @ v"] by (force simp: kv_get_def has_entry_def live_def)
    then have "foldl ?f c es = c" if "set es \<subseteq> set ?es" for c es
      using that by (induction es arbitrary: c) (auto simp: other)
    then show ?thesis using None key scan by (simp add: run_plan_def)
  next
    case (Some val)
    then obtain e where e: "e \<in> set ?es" "entry_key e = ?pre @ v" "entry_val e = val"
      using kv_lookup_reach [OF assms(6), of "?pre @ v" val] by (auto simp: kv_get_def has_entry_def live_def)
    have "foldl ?f (Some acc) ?es = (if e \<in> set ?es then ?f (Some acc) e else Some acc)"
    proof (rule foldl_only)
      fix x c assume "x \<in> set ?es" "x \<noteq> e"
      then have "entry_key x \<noteq> ?pre @ v" using dk e(1,2) by (metis distinct_map inj_on_eq_iff)
      then show "?f c x = c" by (rule other [OF \<open>x \<in> set ?es\<close>])
    qed (use dk in \<open>simp add: distinct_map\<close>)
    then show ?thesis using Some key scan e by (simp add: run_plan_def option.map_ident)
  qed
qed

definition demo_ctx :: "bool \<Rightarrow> int option \<Rightarrow> sql_expr option \<Rightarrow> scan_ctx" where
  "demo_ctx buf grp wh = \<lparr>sc_db = ''d'', sc_table = ''t'', sc_where = wh, sc_names = Array [Some ''id'', Some ''n''],
     sc_types = Array [Some ''STRING'', Some ''INT''], sc_col_count = 2, sc_proj = [], sc_capture = False,
     sc_group = grp, sc_buffer = buf, sc_stop = None\<rparr>"

lemma demo_ctx_simps [simp]:
  "sc_db (demo_ctx b g w) = ''d''" "sc_table (demo_ctx b g w) = ''t''" "sc_where (demo_ctx b g w) = w"
  "sc_proj (demo_ctx b g w) = []" "\<not> sc_capture (demo_ctx b g w)" "sc_group (demo_ctx b g w) = g"
  "sc_buffer (demo_ctx b g w) = b"
  by (simp_all add: demo_ctx_def)

lemma demo_ctx_for: "ctx_for demo_cols (demo_ctx buf grp wh)"
  by (simp add: ctx_for_def demo_ctx_def demo_cols_def)

lemma demo_keyed: "keyed_by 0 ''DB:d:TBL:t:'' (ds_store (demo_state st))"
proof -
  have d: "decode_row \<lparr>val_data = row_encoding [''a'', ''7''], val_type = 0\<rparr> = Columns [''a'', ''7'']"
    "decode_row \<lparr>val_data = row_encoding [''b'', ''12''], val_type = 0\<rparr> = Columns [''b'', ''12'']"
    by (simp_all add: decode_row_encoding row_ok_def)
  show ?thesis by (simp add: keyed_by_def demo_state_def demo_entries_def live_def has_prefix_def d)
qed

theorem id_lookup_equals_scan_witness:
  "\<forall>st. \<exists>acc. run_plan (demo_ctx True None (Some (EXPR_BINARY (EXPR_IDENTIFIER ''id'') ''='' (EXPR_LITERAL ''b'')))) (demo_state st)
       (PrimaryKeyLookup ''b'') (empty_acc\<lparr>sa_result := Some (result_set_create 2)\<rparr>) = Some acc \<and>
     map_option rs_rows (sa_result acc) = Some [[Some ''b'', Some ''12'']]"
proof
  fix st :: kv_store
  let ?wh = "Some (EXPR_BINARY (EXPR_IDENTIFIER ''id'') ''='' (EXPR_LITERAL ''b''))"
  let ?ctx = "demo_ctx True None ?wh"
  have pre: "row_prefix ?ctx = ''DB:d:TBL:t:''" by (simp add: row_prefix_def)
  have eq: "run_plan ?ctx (demo_state st) (PrimaryKeyLookup ''b'') acc = run_plan ?ctx (demo_state st) FullTableScan acc" for acc
    by (subst id_lookup_equals_scan [where cols = demo_cols and i = 0, OF demo_ctx_for])
      (simp_all add: pre demo_keyed option.map_ident, simp_all add: demo_cols_def string_not_numeric demo_state_def demo_reach)
  have w: "where_holds ?ctx row = Some (where_sem demo_cols ?wh row)" for row
    using where_holds_sem [OF demo_ctx_for, of True None ?wh row] by (simp add: where_ok_def literal_value_def)
  have f: "\<not> where_sem demo_cols ?wh [''a'', ''7'']" "where_sem demo_cols ?wh [''b'', ''12'']"
    by (simp_all add: where_sem_def literal_value_def cond_column_def demo_cols_def compare_sem_def string_not_numeric)
  have "full_scan ?ctx (ds_store (demo_state st)) acc = foldl (scan_row ?ctx) (Some acc) [[''a'', ''7''], [''b'', ''12'']]" for acc
    by (subst full_scan_fold) (simp_all add: pre demo_rows)
  then show "\<exists>acc. run_plan ?ctx (demo_state st) (PrimaryKeyLookup ''b'') (empty_acc\<lparr>sa_result := Some (result_set_create 2)\<rparr>) = Some acc \<and>
     map_option rs_rows (sa_result acc) = Some [[Some ''b'', Some ''12'']]" unfolding eq
    by (simp add: run_plan_def scan_row_def w f deliver_row_def out_cells_def empty_acc_def
        result_set_add_row_def result_set_create_def Let_def)
qed

end
