(* ===== verification/SelectResults.thy ===== *)
theory SelectResults
  imports SelectSemantics
begin

text \<open>
  Buffered results and groups of SELECT: what ORDER BY and LIMIT do with the result set of
  \<open>src/query_result.c\<close> as \<open>src/executor.c\<close> fills it, and the aggregates of the groups.
\<close>

section \<open>The columns of a buffered result\<close>

lemma new_result_names:
  "rs_names (foldl (\<lambda>rs (n, t). snd (result_set_add_column rs (Some n) (Some t))) rs cols) =
     rs_names rs @ map (\<lambda>(n, t). Some n) (take (64 - length (rs_names rs)) cols)"
proof (induction cols arbitrary: rs)
  case Nil
  then show ?case by simp
next
  case (Cons c cols)
  obtain n t where c: "c = (n, t)" by (cases c)
  show ?case
  proof (cases "64 \<le> length (rs_names rs)")
    case True
    then show ?thesis using Cons by (simp add: c result_set_add_column_def column_count_def)
  next
    case False
    then have "64 - length (rs_names rs) = Suc (63 - length (rs_names rs))" by simp
    then show ?thesis using Cons False by (simp add: c result_set_add_column_def column_count_def)
  qed
qed

lemma new_result_doubled:
  assumes "0 < length cols" and "length cols \<le> 64"
  shows "rs_names (new_result cols) = replicate (length cols) None @ map (\<lambda>(n, t). Some n) (take (64 - length cols) cols)"
  using assms by (simp add: new_result_def new_result_names) (simp add: result_set_create_def Let_def)

section \<open>A scan does not change the columns\<close>

definition heads_null :: "scan_acc \<Rightarrow> bool" where
  "heads_null acc \<longleftrightarrow> (\<exists>rs names. sa_result acc = Some rs \<and> rs_names rs = None # names)"

lemma add_row_names [simp]: "rs_names (snd (result_set_add_row rs row)) = rs_names rs"
  by (simp add: result_set_add_row_def)

lemma deliver_row_heads:
  assumes "heads_null acc" and "deliver_row ctx row acc = Some acc'"
  shows "heads_null acc'"
  using assms
  by (auto simp: deliver_row_def heads_null_def Let_def split: if_splits option.splits bind_splits bool.splits list.splits prod.splits)

definition all_heads :: "scan_acc option \<Rightarrow> bool" where
  "all_heads acc \<longleftrightarrow> (case acc of None \<Rightarrow> True | Some a \<Rightarrow> heads_null a)"

lemma scan_callback_heads: "all_heads acc \<Longrightarrow> all_heads (scan_callback ctx key v acc)"
  using deliver_row_heads
  by (cases acc) (auto simp: scan_callback_def all_heads_def split: option.splits bind_splits row_result.splits if_splits)

lemma full_scan_heads: "heads_null acc \<Longrightarrow> all_heads (full_scan ctx store acc)"
proof -
  assume "heads_null acc"
  then have "all_heads (Some acc)" by (simp add: all_heads_def)
  then have "all_heads (kv_iterate (scan_callback ctx) es (Some acc))" for es
  proof -
    have "all_heads a \<Longrightarrow> all_heads (kv_iterate (scan_callback ctx) es a)" for a
      by (induction es arbitrary: a) (simp_all add: scan_callback_heads)
    then show ?thesis using \<open>all_heads (Some acc)\<close> by blast
  qed
  then show ?thesis by (simp add: full_scan_def)
qed

lemma run_plan_heads:
  assumes "run_plan ctx s p acc = Some acc'" and "heads_null acc" and "\<And>col op v. p \<noteq> IndexScan col op v"
  shows "heads_null acc'"
proof (cases p)
  case FullTableScan
  then show ?thesis using assms(1) full_scan_heads [OF assms(2), of ctx "ds_store s"] by (simp add: run_plan_def all_heads_def)
next
  case (PrimaryKeyLookup v)
  show ?thesis
  proof (cases "kv_get (ds_store s) (''DB:'' @ sc_db ctx @ '':TBL:'' @ sc_table ctx @ '':'' @ v)")
    case None
    then show ?thesis using assms(1,2) PrimaryKeyLookup
      by (auto simp: run_plan_def heads_null_def sys_generate_key_table_def split: bind_splits if_splits)
  next
    case (Some val)
    have "all_heads (Some acc)" using assms(2) by (simp add: all_heads_def)
    from scan_callback_heads [OF this] show ?thesis using assms(1) PrimaryKeyLookup Some
      by (auto simp: run_plan_def all_heads_def sys_generate_key_table_def split: bind_splits) (metis option.simps(5))
  qed
qed (use assms(3) in auto)

section \<open>ORDER BY\<close>

lemma all_some_length: "all_some xs = Some ys \<Longrightarrow> length ys = length xs"
proof (induction xs arbitrary: ys)
  case Nil
  then show ?case by simp
next
  case (Cons x xs)
  then show ?case by (cases x) auto
qed

definition result_width :: "column_def list \<Rightarrow> (nat \<times> string) list \<Rightarrow> nat" where
  "result_width cols items = (if items = [] \<or> hd items = (0, ''*'') then length cols else length items)"

lemma projection_width:
  assumes "projection names items = Some proj"
  shows "if items = [] \<or> hd items = (0, ''*'') then proj = [] else proj \<noteq> [] \<and> length proj = length items"
  using assms all_some_length [of "map (project_item names) items" proj]
  by (cases items) (auto simp: projection_def split: if_splits)

lemma result_columns_length:
  assumes "result_columns names types proj = Some cs"
  shows "length cs = (if proj \<noteq> [] then length proj else length names)"
proof (cases "proj = []")
  case True
  then show ?thesis using assms by (auto simp: result_columns_def dest!: all_some_length)
next
  case False
  then show ?thesis using assms by (auto simp: result_columns_def Let_def dest!: all_some_length)
qed

lemma no_index_scan:
  assumes "select_plan ixs tbl wh = Some p" and "\<forall>ix \<in> set ixs. sk_table ix \<noteq> tbl"
  shows "p \<noteq> IndexScan col op v"
proof -
  have "\<not> kv_has_index ixs tbl c" for c
    using assms(2) by (auto simp: kv_has_index_def find_index_def find_Some_iff)
  then show ?thesis using assms(1)
    by (auto simp: select_plan_def split: option.splits sql_expr.splits bind_splits if_splits)
qed

text \<open>C14: No SELECT with ORDER BY succeeds. The executor creates the result set with its columns and then
  adds them again, so the first names are null pointers, and looking for the sort column reads
  through the first one, on every table of 1 to 64 result columns.\<close>

theorem order_by_crashes:
  assumes "has_schema (ds_store s) (here s) (sel_table q) cols" and "sel_order q \<noteq> []"
    and "0 < result_width cols (sel_columns q)" and "result_width cols (sel_columns q) \<le> 64"
    and "\<forall>ix \<in> set (ds_indexes s). sk_table ix \<noteq> sel_table q"
  shows "execute_select env q s = None"
proof (rule ccontr)
  let ?names = "map (\<lambda>c. Some (cd_name c)) cols"
  let ?v = "\<lparr>val_data = bytes_of (schema_string cols) @ [0], val_type = VAL_TYPE_SCHEMA\<rparr>"
  assume "execute_select env q s \<noteq> None"
  moreover have "kv_get (ds_store s) (''DB:'' @ here s @ '':META:TBL:'' @ sel_table q) = Some ?v"
    using assms(1) by (simp add: has_schema_def)
  ultimately obtain wh p names types n proj grp msg body where
    p: "select_plan (ds_indexes s) (sel_table q) wh = Some p"
    and cols: "select_columns q ?v = Some (names, types, n, proj, grp, msg)"
    and body: "select_buffered env \<lparr>sc_db = here s, sc_table = sel_table q, sc_where = wh, sc_names = names,
        sc_types = types, sc_col_count = n, sc_proj = proj, sc_capture = False, sc_group = grp, sc_buffer = True,
        sc_stop = None\<rparr> q s p = Some body"
    using assms(2) by (auto simp: execute_select_def sys_generate_key_schema_def split: bind_splits if_splits)
  have "projection ?names (sel_columns q) = Some proj" "names = Array ?names"
    using cols assms(1) schema_roundtrip_facts [of cols] c_str_bytes [of "schema_string cols" VAL_TYPE_SCHEMA]
    by (auto simp: select_columns_def has_schema_def Let_def split: bind_splits)
  note proj = projection_width [OF this(1)] this(2)
  from body obtain cs acc rs where cs: "result_columns ?names (array_of types) proj = Some cs"
    and acc: "run_plan \<lparr>sc_db = here s, sc_table = sel_table q, sc_where = wh, sc_names = names,
        sc_types = types, sc_col_count = n, sc_proj = proj, sc_capture = False, sc_group = grp, sc_buffer = True,
        sc_stop = None\<rparr> s p (empty_acc\<lparr>sa_result := Some (new_result cs)\<rparr>) = Some acc"
    and rs: "sa_result acc = Some rs" "finish_buffered (ee_qsort env) (sel_order q) (sel_limit q) (sel_offset q) rs \<noteq> None"
    by (auto simp: select_buffered_def proj(2) array_of_def split: bind_splits)
  have "length cs = result_width cols (sel_columns q)"
    using result_columns_length [OF cs] proj(1) by (auto simp: result_width_def split: if_splits)
  then have "\<exists>ns. rs_names (new_result cs) = None # ns"
    using new_result_doubled [of cs] assms(3,4) gr0_implies_Suc [OF assms(3)] by auto
  then have "heads_null (empty_acc\<lparr>sa_result := Some (new_result cs)\<rparr>)" by (auto simp: heads_null_def)
  from run_plan_heads [OF acc this no_index_scan [OF p assms(5)]] obtain ns where "rs_names rs = None # ns"
    using rs(1) by (auto simp: heads_null_def)
  moreover obtain col desc ord where "sel_order q = (col, desc) # ord" using assms(2) by (cases "sel_order q") auto
  ultimately have "order_specs rs (sel_order q) = None" by (simp add: order_specs_def)
  then show False using rs(2) assms(2) by (simp add: finish_buffered_def)
qed

theorem order_by_crashes_witness:
  "\<forall>env st. execute_select env (Select ''t'' [(0, ''*'')] None None [(''id'', False)] (-1) 0) (demo_state st) = None"
proof (intro allI)
  fix env :: exec_env and st :: kv_store
  show "execute_select env (Select ''t'' [(0, ''*'')] None None [(''id'', False)] (-1) 0) (demo_state st) = None"
  using order_by_crashes [of "demo_state st" "Select ''t'' [(0, ''*'')] None None [(''id'', False)] (-1) 0" demo_cols env] demo_schema
  by (simp add: result_width_def demo_cols_def) (simp add: demo_state_def)
qed

section \<open>Groups\<close>

definition int_double :: "int \<Rightarrow> double" where
  "int_double i = Fin (i < 0) (of_int \<bar>i\<bar>)"

lemma signed_int: "signed_val (i < 0) (of_int \<bar>i\<bar>) = of_int i"
  by (simp add: signed_val_def)

lemma int_double_less [simp]: "double_less (int_double i) (int_double j) \<longleftrightarrow> i < j"
  by (simp only: int_double_def double_less.simps signed_int of_int_less_iff)

lemma double_add_ints:
  assumes "\<bar>i + j\<bar> \<le> 2 ^ 53"
  shows "double_add (int_double i) (int_double j) = int_double (i + j)"
proof (cases "i = 0 \<and> j = 0")
  case True
  then show ?thesis by (simp add: int_double_def)
next
  case False
  have "double_add (int_double i) (int_double j) = of_signed (of_int i + of_int j)"
    using False by (simp only: int_double_def double_add.simps signed_int) auto
  also have "\<dots> = round_double (i + j < 0) (of_int \<bar>i + j\<bar>)"
    by (simp add: of_signed_def flip: of_int_add)
  also have "\<dots> = int_double (i + j)"
    by (simp only: int_double_def) (rule round_double_int, use assms in auto)
  finally show ?thesis .
qed

definition group_key :: "int \<Rightarrow> string list \<Rightarrow> string" where
  "group_key g row = (if 0 \<le> g \<and> g < int (length row) then row ! nat g else ''ALL'')"

text \<open>What a bucket holds after the rows \<open>rs\<close> with integers \<open>f\<close> in the aggregated column.\<close>

definition bucket_for :: "(string list \<Rightarrow> int) \<Rightarrow> string list list \<Rightarrow> group_bucket \<Rightarrow> bool" where
  "bucket_for f rs b \<longleftrightarrow> bk_count b = int (length rs) \<and> bk_sum b = int_double (sum_list (map f rs)) \<and>
     bk_min b = int_double (foldl min 999999999 (map f rs)) \<and>
     bk_max b = int_double (foldl max (-999999999) (map f rs))"

definition groups_for :: "int \<Rightarrow> (string list \<Rightarrow> int) \<Rightarrow> string list list \<Rightarrow> group_bucket list \<Rightarrow> bool" where
  "groups_for g f rows groups \<longleftrightarrow> distinct (map bk_key groups) \<and>
     bk_key ` set groups = group_key g ` set rows \<and>
     (\<forall>b \<in> set groups. bucket_for f (filter (\<lambda>row. group_key g row = bk_key b) rows) b)"

lemma add_to_bucket_for:
  assumes "bucket_for f rs b" and "\<bar>sum_list (map f rs) + f row\<bar> \<le> 2 ^ 53"
  shows "bucket_for f (rs @ [row]) (add_to_bucket (Some (int_double (f row))) b)"
  using assms by (auto simp: bucket_for_def add_to_bucket_def Let_def double_add_ints min_def max_def)

lemma add_to_bucket_key [simp]: "bk_key (add_to_bucket v b) = bk_key b"
  by (simp add: add_to_bucket_def Let_def split: option.split)

lemma change_bucket_None: "change_bucket k f bs = None \<longleftrightarrow> k \<notin> bk_key ` set bs"
  by (induction bs) auto

lemma change_bucket_Some:
  assumes "change_bucket k f bs = Some bs'"
  obtains xs b ys where "bs = xs @ b # ys" "bk_key b = k" "bs' = xs @ f b # ys"
  using assms
proof (induction bs arbitrary: bs' thesis)
  case Nil
  then show ?case by simp
next
  case (Cons c bs)
  show ?case
  proof (cases "bk_key c = k")
    case True
    then show ?thesis using Cons.prems(1) [of "[]" c bs] Cons.prems(2) by simp
  next
    case False
    then obtain ds where "change_bucket k f bs = Some ds" "bs' = c # ds" using Cons.prems(2) by auto
    then obtain xs b ys where "bs = xs @ b # ys" "bk_key b = k" "ds = xs @ f b # ys" using Cons.IH by metis
    then show ?thesis using Cons.prems(1) [of "c # xs" b ys] \<open>bs' = c # ds\<close> by simp
  qed
qed

lemma sum_abs_filter:
  "sum_list (map (\<lambda>row. \<bar>f row\<bar>) (filter P rows)) \<le> sum_list (map (\<lambda>row. \<bar>f row\<bar>) rows)" for f :: "'a \<Rightarrow> int"
  by (induction rows) auto

lemma abs_sum_list: "\<bar>sum_list (map f rows)\<bar> \<le> sum_list (map (\<lambda>row. \<bar>f row\<bar>) rows)" for f :: "'a \<Rightarrow> int"
proof (induction rows)
  case Nil
  then show ?case by simp
next
  case (Cons r rows)
  then show ?case by (simp add: abs_triangle_ineq [THEN order_trans])
qed

lemma groups_step:
  assumes G: "groups_for g f rows groups" and agg: "aggregate_value ctx (sc_proj ctx) row None = Some (Some (int_double (f row)))"
    and bound: "sum_list (map (\<lambda>row. \<bar>f row\<bar>) (rows @ [row])) \<le> 2 ^ 53"
  shows "\<exists>groups'. update_bucket ctx (group_key g row) row groups = Some groups' \<and> groups_for g f (rows @ [row]) groups'"
proof -
  let ?k = "group_key g row" and ?v = "Some (int_double (f row))"
  let ?part = "\<lambda>k. filter (\<lambda>row. group_key g row = k) rows"
  have sum: "\<bar>sum_list (map f (?part k)) + f row\<bar> \<le> 2 ^ 53" for k
  proof -
    have "\<bar>sum_list (map f (?part k)) + f row\<bar> \<le> \<bar>sum_list (map f (?part k))\<bar> + \<bar>f row\<bar>" by (rule abs_triangle_ineq)
    also have "\<dots> \<le> sum_list (map (\<lambda>row. \<bar>f row\<bar>) rows) + \<bar>f row\<bar>"
      using abs_sum_list [of f "?part k"] sum_abs_filter [of f "\<lambda>row. group_key g row = k" rows] by linarith
    also have "\<dots> \<le> 2 ^ 53" using bound by simp
    finally show ?thesis .
  qed
  show ?thesis
  proof (cases "change_bucket ?k (add_to_bucket ?v) groups")
    case None
    then have new: "?k \<notin> bk_key ` set groups" by (simp add: change_bucket_None)
    then have "?k \<notin> group_key g ` set rows" using G by (auto simp: groups_for_def)
    then have none: "?part ?k = []"
      by (metis (mono_tags, lifting) filter_False image_eqI)
    have "bucket_for f [] (new_bucket ?k)" by (simp add: bucket_for_def new_bucket_def int_double_def)
    then have b: "bucket_for f [row] (add_to_bucket ?v (new_bucket ?k))"
      using add_to_bucket_for [of f "[]" "new_bucket ?k" row] sum [of ?k] none by simp
    have keys: "bk_key (add_to_bucket ?v (new_bucket ?k)) = ?k" by (simp add: new_bucket_def)
    have "groups_for g f (rows @ [row]) (add_to_bucket ?v (new_bucket ?k) # groups)"
      using G new b keys none by (auto simp: groups_for_def)
    then show ?thesis using None agg by (simp add: update_bucket_def)
  next
    case (Some groups')
    then obtain xs b ys where sp: "groups = xs @ b # ys" "bk_key b = ?k" "groups' = xs @ add_to_bucket ?v b # ys"
      by (rule change_bucket_Some)
    then have "bucket_for f (?part ?k) b" using G by (auto simp: groups_for_def)
    then have b: "bucket_for f (?part ?k @ [row]) (add_to_bucket ?v b)" by (rule add_to_bucket_for) (rule sum)
    have mem: "?k \<in> group_key g ` set rows" using G sp by (auto simp: groups_for_def)
    have other: "bk_key c \<noteq> ?k" if "c \<in> set xs \<union> set ys" for c
    proof -
      have "distinct (map bk_key xs @ ?k # map bk_key ys)" using G sp by (simp add: groups_for_def)
      then show ?thesis using that by (simp add: image_iff) metis
    qed
    have "groups_for g f (rows @ [row]) groups'"
      using G b mem other sp by (auto simp: groups_for_def)
    then show ?thesis using Some agg by (simp add: update_bucket_def)
  qed
qed

lemma scan_row_group:
  assumes "\<not> sc_capture ctx" and "sc_group ctx = Some g" and "where_holds ctx row = Some True"
  shows "scan_row ctx (Some (empty_acc\<lparr>sa_groups := groups\<rparr>)) row =
    map_option (\<lambda>groups. empty_acc\<lparr>sa_groups := groups\<rparr>) (update_bucket ctx (group_key g row) row groups)"
  using assms by (simp add: scan_row_def deliver_row_def group_key_def)

lemma groups_scan:
  assumes "ctx_for cols ctx" and "where_ok (sc_where ctx)" and "\<not> sc_capture ctx" and "sc_group ctx = Some g"
    and "\<forall>row \<in> set rows. where_sem cols (sc_where ctx) row \<longrightarrow>
      aggregate_value ctx (sc_proj ctx) row None = Some (Some (int_double (f row)))"
    and "sum_list (map (\<lambda>row. \<bar>f row\<bar>) (filter (where_sem cols (sc_where ctx)) rows)) \<le> 2 ^ 53"
  shows "\<exists>groups. foldl (scan_row ctx) (Some empty_acc) rows = Some (empty_acc\<lparr>sa_groups := groups\<rparr>) \<and>
    groups_for g f (filter (where_sem cols (sc_where ctx)) rows) groups"
  using assms(5,6)
proof (induction rows rule: rev_induct)
  case Nil
  have "empty_acc = empty_acc\<lparr>sa_groups := []\<rparr>" by (simp add: empty_acc_def)
  then show ?case by (intro exI [of _ "[]"]) (simp add: groups_for_def)
next
  case (snoc row rows)
  let ?P = "where_sem cols (sc_where ctx)"
  have "sum_list (map (\<lambda>row. \<bar>f row\<bar>) (filter ?P rows)) \<le> 2 ^ 53" using snoc.prems(2) by (auto split: if_splits)
  then obtain groups where ih: "foldl (scan_row ctx) (Some empty_acc) rows = Some (empty_acc\<lparr>sa_groups := groups\<rparr>)"
    "groups_for g f (filter ?P rows) groups"
    using snoc by auto
  have w: "where_holds ctx row = Some (?P row)" by (rule where_holds_sem [OF assms(1,2)])
  show ?case
  proof (cases "?P row")
    case False
    have "scan_row ctx (Some acc) row = Some acc" for acc using False w by (simp add: scan_row_def)
    then show ?thesis using ih False by (intro exI [of _ groups]) simp
  next
    case True
    obtain groups' where "update_bucket ctx (group_key g row) row groups = Some groups'"
      "groups_for g f (filter ?P rows @ [row]) groups'"
      using groups_step [OF ih(2), of ctx row] snoc.prems True by auto
    then show ?thesis using ih(1) True w scan_row_group [OF assms(3,4), of row groups]
      by (intro exI [of _ groups']) simp
  qed
qed

text \<open>While the values stay within the two sentinels, the extremes of a bucket are those of its rows.\<close>

lemma foldl_min_Min: "xs \<noteq> [] \<Longrightarrow> \<forall>x \<in> set xs. x \<le> a \<Longrightarrow> foldl min a xs = Min (set xs)" for a :: int
proof (induction xs rule: rev_induct)
  case (snoc x xs)
  then show ?case by (cases "xs = []") (auto simp: min.commute)
qed simp

lemma foldl_max_Max: "xs \<noteq> [] \<Longrightarrow> \<forall>x \<in> set xs. a \<le> x \<Longrightarrow> foldl max a xs = Max (set xs)" for a :: int
proof (induction xs rule: rev_induct)
  case (snoc x xs)
  then show ?case by (cases "xs = []") (auto simp: max.commute)
qed simp

lemma bucket_extremes:
  assumes "bucket_for f rs b" and "rs \<noteq> []" and "\<forall>row \<in> set rs. \<bar>f row\<bar> \<le> 999999999"
  shows "bk_min b = int_double (Min (f ` set rs)) \<and> bk_max b = int_double (Max (f ` set rs))"
proof -
  have "\<forall>v \<in> set (map f rs). v \<le> 999999999" "\<forall>v \<in> set (map f rs). -999999999 \<le> v"
    using assms(3) by (auto simp: abs_le_iff minus_le_iff)
  then show ?thesis
    using assms(1,2) foldl_min_Min [of "map f rs" 999999999] foldl_max_Max [of "map f rs" "-999999999"]
    by (simp add: bucket_for_def)
qed

lemma groups_extremes:
  assumes "groups_for g f rows groups" and "b \<in> set groups"
    and "\<forall>row \<in> set rows. group_key g row = bk_key b \<longrightarrow> \<bar>f row\<bar> \<le> 999999999"
  shows "bk_min b = int_double (Min (f ` {row \<in> set rows. group_key g row = bk_key b})) \<and>
    bk_max b = int_double (Max (f ` {row \<in> set rows. group_key g row = bk_key b}))"
proof -
  let ?rs = "filter (\<lambda>row. group_key g row = bk_key b) rows"
  have "bk_key b \<in> group_key g ` set rows" "bucket_for f ?rs b" using assms(1,2) by (auto simp: groups_for_def)
  moreover from this(1) have "?rs \<noteq> []" by (auto simp: filter_empty_conv)
  moreover have "\<forall>row \<in> set ?rs. \<bar>f row\<bar> \<le> 999999999" using assms(3) by simp
  ultimately have "bk_min b = int_double (Min (f ` set ?rs)) \<and> bk_max b = int_double (Max (f ` set ?rs))"
    by (intro bucket_extremes)
  then show ?thesis unfolding set_filter .
qed

text \<open>C13: GROUP BY with an aggregate over a column whose cells, in every selected row, are read as
  integers: one bucket per different key of the selected rows, with their number and the exact sum of
  the column, while the absolute values add up to at most 2 to the 53. Minimum and maximum start from
  the sentinels 999999999 and its negation, so they are the least and the greatest value of the group
  where its values lie within the sentinels, and a sentinel can stay where they do not.\<close>

theorem group_by_correct:
  assumes "ctx_for cols ctx" and "where_ok (sc_where ctx)" and "\<not> sc_capture ctx" and "sc_group ctx = Some g"
    and "\<forall>row \<in> set rows. where_sem cols (sc_where ctx) row \<longrightarrow>
      aggregate_value ctx (sc_proj ctx) row None = Some (Some (int_double (f row)))"
    and "sum_list (map (\<lambda>row. \<bar>f row\<bar>) (filter (where_sem cols (sc_where ctx)) rows)) \<le> 2 ^ 53"
  shows "\<exists>groups. foldl (scan_row ctx) (Some empty_acc) rows = Some (empty_acc\<lparr>sa_groups := groups\<rparr>) \<and>
    groups_for g f (filter (where_sem cols (sc_where ctx)) rows) groups \<and>
    (\<forall>b \<in> set groups. let vs = f ` {row \<in> set rows. where_sem cols (sc_where ctx) row \<and> group_key g row = bk_key b} in
       (\<forall>v \<in> vs. \<bar>v\<bar> \<le> 999999999) \<longrightarrow> bk_min b = int_double (Min vs) \<and> bk_max b = int_double (Max vs))"
proof -
  have "\<exists>groups. foldl (scan_row ctx) (Some empty_acc) rows = Some (empty_acc\<lparr>sa_groups := groups\<rparr>) \<and>
      groups_for g f (filter (where_sem cols (sc_where ctx)) rows) groups"
    by (rule groups_scan [OF assms])
  then show ?thesis using groups_extremes by (fastforce simp: Let_def conj_assoc)
qed

definition demo_sum :: scan_ctx where
  "demo_sum = demo_ctx False (Some (-1)) None\<lparr>sc_proj := [(1, ''n'', 2)]\<rparr>"

lemma demo_sum_simps [simp]:
  "sc_where demo_sum = None" "\<not> sc_capture demo_sum" "sc_group demo_sum = Some (-1)"
  by (simp_all add: demo_sum_def)

lemma demo_sum_for: "ctx_for demo_cols demo_sum"
  using demo_ctx_for [of False "Some (-1)" None] by (simp add: ctx_for_def demo_sum_def)

lemma demo_sum_values:
  "aggregate_value demo_sum (sc_proj demo_sum) [''a'', ''7''] None = Some (Some (int_double 7))"
  "aggregate_value demo_sum (sc_proj demo_sum) [''b'', ''12''] None = Some (Some (int_double 12))"
proof -
  have s: "show_int 7 = ''7''" "show_int 12 = ''12''"
    by (simp_all add: show_int_def show_nat.simps digit_char_def char_of_def bit_0)
  have "atof ''7'' = int_double 7" "atof ''12'' = int_double 12"
    using atof_show_int [of 7] atof_show_int [of 12] by (simp_all add: s int_double_def)
  then show "aggregate_value demo_sum (sc_proj demo_sum) [''a'', ''7''] None = Some (Some (int_double 7))"
    "aggregate_value demo_sum (sc_proj demo_sum) [''b'', ''12''] None = Some (Some (int_double 12))"
    by (simp_all add: demo_sum_def demo_ctx_def)
qed

lemma one_bucket: "bk_key ` set groups = {k} \<Longrightarrow> distinct (map bk_key groups) \<Longrightarrow> \<exists>b. groups = [b] \<and> bk_key b = k"
proof (cases groups)
  case (Cons c cs)
  assume "bk_key ` set groups = {k}" "distinct (map bk_key groups)"
  then show ?thesis using Cons by (cases cs) auto
qed simp

theorem group_by_correct_witness:
  "\<exists>groups. foldl (scan_row demo_sum) (Some empty_acc) [[''a'', ''7''], [''b'', ''12'']] =
      Some (empty_acc\<lparr>sa_groups := groups\<rparr>) \<and>
    map (\<lambda>b. (bk_key b, bk_count b, bk_sum b, bk_min b, bk_max b)) groups =
      [(''ALL'', 2, int_double 19, int_double 7, int_double 12)]"
proof -
  let ?rows = "[[''a'', ''7''], [''b'', ''12'']]"
  let ?f = "\<lambda>row :: string list. if row = [''a'', ''7''] then 7 else 12 :: int"
  have all: "where_sem demo_cols None = (\<lambda>_. True)" by (simp add: where_sem_def fun_eq_iff)
  have "\<exists>groups. foldl (scan_row demo_sum) (Some empty_acc) ?rows = Some (empty_acc\<lparr>sa_groups := groups\<rparr>) \<and>
      groups_for (-1) ?f (filter (where_sem demo_cols (sc_where demo_sum)) ?rows) groups \<and>
      (\<forall>b \<in> set groups. let vs = ?f ` {row \<in> set ?rows. where_sem demo_cols (sc_where demo_sum) row \<and> group_key (-1) row = bk_key b} in
         (\<forall>v \<in> vs. \<bar>v\<bar> \<le> 999999999) \<longrightarrow> bk_min b = int_double (Min vs) \<and> bk_max b = int_double (Max vs))"
  proof (rule group_by_correct [OF demo_sum_for])
    show "where_ok (sc_where demo_sum)" by (simp add: where_ok_def)
    show "\<forall>row \<in> set ?rows. where_sem demo_cols (sc_where demo_sum) row \<longrightarrow>
      aggregate_value demo_sum (sc_proj demo_sum) row None = Some (Some (int_double (?f row)))"
      by (simp add: demo_sum_values)
    show "sum_list (map (\<lambda>row. \<bar>?f row\<bar>) (filter (where_sem demo_cols (sc_where demo_sum)) ?rows)) \<le> 2 ^ 53"
      by (simp add: all)
  qed simp_all
  moreover have "filter (where_sem demo_cols (sc_where demo_sum)) ?rows = ?rows" by (simp add: all)
  ultimately obtain groups where g: "foldl (scan_row demo_sum) (Some empty_acc) ?rows = Some (empty_acc\<lparr>sa_groups := groups\<rparr>)"
    "groups_for (-1) ?f ?rows groups" and ext: "\<forall>b \<in> set groups. let vs = ?f ` {row \<in> set ?rows.
         where_sem demo_cols (sc_where demo_sum) row \<and> group_key (-1) row = bk_key b} in
       (\<forall>v \<in> vs. \<bar>v\<bar> \<le> 999999999) \<longrightarrow> bk_min b = int_double (Min vs) \<and> bk_max b = int_double (Max vs)"
    by (simp only:) blast
  then have "bk_key ` set groups = {''ALL''}" "distinct (map bk_key groups)"
    by (simp_all add: groups_for_def group_key_def)
  from one_bucket [OF this] obtain b where b: "groups = [b]" "bk_key b = ''ALL''" by blast
  have vs: "?f ` {row \<in> set ?rows. where_sem demo_cols (sc_where demo_sum) row \<and> group_key (-1) row = bk_key b} = {7, 12}"
    by (auto simp: all b group_key_def)
  from ext have "(\<forall>v \<in> {7, 12}. \<bar>v\<bar> \<le> (999999999 :: int)) \<longrightarrow>
      bk_min b = int_double (Min {7, 12}) \<and> bk_max b = int_double (Max {7, 12})"
    unfolding Let_def by (rule ballE [where x = b]) (simp_all only: vs, simp_all add: b(1))
  then have "bk_min b = int_double 7 \<and> bk_max b = int_double 12" by simp
  then have "map (\<lambda>b. (bk_key b, bk_count b, bk_sum b, bk_min b, bk_max b)) groups =
      [(''ALL'', 2, int_double 19, int_double 7, int_double 12)]"
    using g(2) by (simp add: b groups_for_def bucket_for_def group_key_def)
  then show ?thesis by (intro exI [of _ groups] conjI g(1))
qed

end
