(* ===== verification/Prepared.thy ===== *)
theory Prepared
  imports Executor LexerRoundtrip
begin

text \<open>
  Prepared statements, \<open>src/prepared.c\<close>: the statements of a session, their parameters and the
  substitution of the parameters in the query text, and the checks against injection. The server runs
  the substituted text as a new query. The clock is an argument.
\<close>

section \<open>Reading and writing numbers\<close>

definition to_upper :: "char \<Rightarrow> char" where
  "to_upper c = (if 97 \<le> (of_char c :: nat) \<and> (of_char c :: nat) \<le> 122 then char_of ((of_char c :: nat) - 32) else c)"

text \<open>What \<open>strtod\<close> leaves unread; its value is \<open>atof\<close>.\<close>

definition exponent_rest :: "char \<Rightarrow> string \<Rightarrow> string" where
  "exponent_rest letter s =
     (case s of
        [] \<Rightarrow> []
      | c # cs \<Rightarrow>
          if to_lower c \<noteq> letter then s
          else (let ds = (case cs of d # ds \<Rightarrow> if d = CHR ''-'' \<or> d = CHR ''+'' then ds else cs | [] \<Rightarrow> []);
                    (v, k, r) = read_digits 10 0 0 ds
                in if k = 0 then s else r))"

definition nan_rest :: "string \<Rightarrow> string" where
  "nan_rest s =
     (case s of
        c # cs \<Rightarrow>
          if c = CHR ''(''
          then (case dropWhile is_word_char cs of d # ds \<Rightarrow> if d = CHR '')'' then ds else s | [] \<Rightarrow> s)
          else s
      | [] \<Rightarrow> [])"

definition strtod_rest :: "string \<Rightarrow> string" where
  "strtod_rest p =
     (let s = (case p of c # cs \<Rightarrow> if c = CHR ''-'' then cs else p | [] \<Rightarrow> []);
          (hm, hj, hk, hr) = read_mantissa 16 (drop 2 s);
          (m, j, k, r) = read_mantissa 10 s
      in if has_word ''infinity'' s then drop 8 s
         else if has_word ''inf'' s then drop 3 s
         else if has_word ''nan'' s then nan_rest (drop 3 s)
         else if has_word ''0x'' s \<and> 0 < hk then exponent_rest CHR ''p'' hr
         else if k = 0 then p
         else exponent_rest CHR ''e'' r)"

text \<open>\<open>strtoll\<close> in base 10 on a text that begins with a digit or a minus sign.\<close>

definition clamp64 :: "int \<Rightarrow> int" where
  "clamp64 i = max (- (2 ^ 63)) (min (2 ^ 63 - 1) i)"

definition strtoll :: "string \<Rightarrow> int \<times> string" where
  "strtoll p =
     (let (neg, ds) = (case p of c # cs \<Rightarrow> if c = CHR ''-'' then (True, cs) else (False, p) | [] \<Rightarrow> (False, []))
      in if ds = [] \<or> \<not> is_digit (hd ds) then (0, p)
         else (clamp64 (if neg then - digits_val 0 ds else digits_val 0 ds), dropWhile is_digit ds))"

text \<open>\<open>printf\<close> with \<open>%g\<close>: six significant digits, no trailing zeros.\<close>

function ilog10 :: "int \<Rightarrow> int" where
  "ilog10 n = (if n < 10 then 0 else 1 + ilog10 (n div 10))"
  by pat_completeness auto
termination by (relation "measure nat") auto

declare ilog10.simps [simp del]

definition floor_log10 :: "rat \<Rightarrow> int" where
  "floor_log10 q =
     (let (n, d) = quotient_of q; g = ilog10 n - ilog10 d in if pow_int 10 g \<le> q then g else g - 1)"

definition strip_zeros :: "string \<Rightarrow> string" where
  "strip_zeros s = rev (dropWhile (\<lambda>c. c = CHR ''0'') (rev s))"

definition with_fraction :: "string \<Rightarrow> string \<Rightarrow> string" where
  "with_fraction int_part ds = (let f = strip_zeros ds in if f = [] then int_part else int_part @ ''.'' @ f)"

definition show_exponent :: "int \<Rightarrow> string" where
  "show_exponent e =
     (let ds = show_nat (nat \<bar>e\<bar>)
      in ''e'' @ (if e < 0 then ''-'' else ''+'') @ (if length ds < 2 then ''0'' else []) @ ds)"

definition show_g :: "double \<Rightarrow> string" where
  "show_g d =
     (case d of
        NaN s \<Rightarrow> (if s then ''-nan'' else ''nan'')
      | Inf s \<Rightarrow> (if s then ''-inf'' else ''inf'')
      | Fin s q \<Rightarrow>
          (if s then ''-'' else []) @
          (if q = 0 then ''0''
           else
             let x = floor_log10 q;
                 n = round_half_even (q * pow_int 10 (5 - x));
                 (n, x) = (if n = 1000000 then (100000, x + 1) else (n, x));
                 ds = show_nat (nat n)
             in if x < -4 \<or> 6 \<le> x then with_fraction (take 1 ds) (drop 1 ds) @ show_exponent x
                else if 0 \<le> x then with_fraction (take (nat x + 1) ds) (drop (nat x + 1) ds)
                else with_fraction ''0'' (replicate (nat (- x) - 1) CHR ''0'' @ ds)))"

section \<open>Parameters\<close>

text \<open>A string parameter has its data and the length it was bound with.\<close>

datatype parameter =
    PARAM_NULL
  | PARAM_INT int
  | PARAM_FLOAT double
  | PARAM_STRING string nat
  | PARAM_BOOL bool
  | PARAM_BLOB bytes

definition stmt_bind_string :: "string \<Rightarrow> nat \<Rightarrow> parameter" where
  "stmt_bind_string s len = PARAM_STRING (take len s) len"

text \<open>\<open>%.*s\<close> with the length cast to \<open>int\<close>: a negative precision prints everything.\<close>

definition with_precision :: "nat \<Rightarrow> string \<Rightarrow> string" where
  "with_precision len s =
     (let k = len mod 2 ^ 32 in if k < 2 ^ 31 then take k s else s)"

definition param_to_string :: "parameter \<Rightarrow> string" where
  "param_to_string p =
     take 4095
       (case p of
          PARAM_INT i \<Rightarrow> show_int i
        | PARAM_FLOAT d \<Rightarrow> show_g d
        | PARAM_STRING s len \<Rightarrow> [single_quote] @ with_precision len s @ [single_quote]
        | PARAM_BOOL b \<Rightarrow> if b then ''TRUE'' else ''FALSE''
        | _ \<Rightarrow> ''NULL'')"

section \<open>Checks against injection\<close>

definition dangerous :: "string list" where
  "dangerous =
     [[single_quote, CHR '';''], [double_quote, CHR ''-'', CHR ''-''], ''/*'', ''*/'', ''@@'', ''@variable'',
      ''EXEC '', ''EXECUTE '', ''xp_'', ''sp_'', ''0x'',
      ''UNION '', ''SELECT '', ''INSERT '', ''UPDATE '', ''DELETE '',
      ''DROP '', ''CREATE '', ''ALTER '', ''GRANT '', ''REVOKE '']"

definition stmt_validate_param :: "parameter \<Rightarrow> bool" where
  "stmt_validate_param p =
     (case p of PARAM_STRING s len \<Rightarrow> \<not> (\<exists>d \<in> set dangerous. strstr (map to_upper s) d) | _ \<Rightarrow> True)"

definition stmt_escape_string :: "string \<Rightarrow> string" where
  "stmt_escape_string s =
     concat (map (\<lambda>c.
       if c = single_quote then [single_quote, single_quote]
       else if c = backslash then [backslash, backslash]
       else if c = CHR 0x00 then [backslash, CHR ''0'']
       else if c = newline then [backslash, CHR ''n'']
       else if c = CHR 0x0D then [backslash, CHR ''r'']
       else [c]) s)"

definition stmt_is_safe_identifier :: "string \<Rightarrow> bool" where
  "stmt_is_safe_identifier s \<longleftrightarrow>
     s \<noteq> [] \<and> (is_alpha (hd s) \<or> hd s = CHR ''_'') \<and>
     (\<forall>c \<in> set (tl s). is_alpha c \<or> is_digit c \<or> c = CHR ''_'') \<and> length s \<le> 128"

section \<open>The USING clause\<close>

text \<open>One value. Anything unknown leaves the parameter as it was.\<close>

definition using_value :: "parameter \<Rightarrow> string \<Rightarrow> parameter \<times> string" where
  "using_value old p =
     (case p of
        [] \<Rightarrow> (old, [])
      | c # cs \<Rightarrow>
          if c = single_quote \<or> c = double_quote then
            (let s = takeWhile (\<lambda>d. d \<noteq> c) cs
             in (stmt_bind_string s (length s), drop (length s + 1) cs))
          else if c = CHR ''-'' \<or> is_digit c then
            (if CHR ''.'' \<in> set p then (PARAM_FLOAT (atof p), strtod_rest p)
             else (let (v, r) = strtoll p in (PARAM_INT v, r)))
          else if has_word ''null'' p then (PARAM_NULL, drop 4 p)
          else if has_word ''true'' p then (PARAM_BOOL True, drop 4 p)
          else if has_word ''false'' p then (PARAM_BOOL False, drop 5 p)
          else (old, dropWhile (\<lambda>d. d \<noteq> CHR '','' \<and> d \<noteq> CHR '')'') p))"

text \<open>The caller's array before the call goes in; the parameters counted come out.\<close>

fun using_loop :: "parameter list \<Rightarrow> string \<Rightarrow> parameter list" where
  "using_loop [] p = []"
| "using_loop (old # slots) p =
     (let q = dropWhile is_space p
      in if p = [] \<or> hd p = CHR '')'' \<or> q = [] \<or> hd q = CHR '')'' then []
         else (let (v, r) = using_value old q
               in v # using_loop slots (dropWhile (\<lambda>c. is_space c \<or> c = CHR '','') r)))"

definition parse_using_clause :: "parameter list \<Rightarrow> string \<Rightarrow> parameter list" where
  "parse_using_clause slots s = using_loop slots (dropWhile (\<lambda>c. is_space c \<or> c = CHR ''('') s)"

section \<open>Placeholders\<close>

text \<open>The positions of the question marks outside strings, at most \<open>n\<close>.\<close>

definition is_quote :: "char \<Rightarrow> bool" where
  "is_quote c \<longleftrightarrow> c = single_quote \<or> c = double_quote"

definition quote_state :: "char option \<Rightarrow> char option \<Rightarrow> char \<Rightarrow> char option" where
  "quote_state prev quote c =
     (if is_quote c \<and> prev \<noteq> Some backslash
      then (case quote of None \<Rightarrow> Some c | Some q \<Rightarrow> if c = q then None else Some q)
      else quote)"

fun find_loop :: "char option \<Rightarrow> char option \<Rightarrow> nat \<Rightarrow> nat \<Rightarrow> string \<Rightarrow> nat list" where
  "find_loop prev quote pos n [] = []"
| "find_loop prev quote pos n (c # cs) =
     (if n = 0 then []
      else
        let quote = quote_state prev quote c
        in if quote = None \<and> c = CHR ''?''
           then pos # find_loop (Some c) quote (pos + 1) (n - 1) cs
           else find_loop (Some c) quote (pos + 1) n cs)"

definition find_parameters :: "string \<Rightarrow> nat list" where
  "find_parameters query = find_loop None None 0 32 query"

text \<open>Each position that is the next one is replaced by the next text.\<close>

fun substitute_loop :: "nat \<Rightarrow> (nat \<times> string) list \<Rightarrow> string \<Rightarrow> string" where
  "substitute_loop pos ps [] = []"
| "substitute_loop pos ps (c # cs) =
     (case ps of
        (k, s) # qs \<Rightarrow> if pos = k then s @ substitute_loop (pos + 1) qs cs else c # substitute_loop (pos + 1) ps cs
      | [] \<Rightarrow> c # substitute_loop (pos + 1) [] cs)"

definition substitute_parameters :: "string \<Rightarrow> nat list \<Rightarrow> parameter list \<Rightarrow> string" where
  "substitute_parameters template positions params =
     substitute_loop 0 (zip positions (map param_to_string params)) template"

section \<open>Statements of a session\<close>

datatype stmt_state = STMT_STATE_INVALID | STMT_STATE_PREPARED | STMT_STATE_EXECUTING | STMT_STATE_COMPLETE

record prepared_statement =
  ps_name :: string
  query_template :: string
  parsed_ast :: "ast_node option"
  param_positions :: "nat list"
  ps_state :: stmt_state
  stmt_id :: u32
  prepare_time :: int
  last_execute_time :: int
  execution_count :: nat
  prepared_by :: "string option"

record stmt_store =
  statements :: "prepared_statement list"
  total_prepares :: nat
  total_executes :: nat

abbreviation "MAX_PREPARED_STMTS \<equiv> 256 :: nat"

definition stmt_store_create :: stmt_store where
  "stmt_store_create = \<lparr>statements = [], total_prepares = 0, total_executes = 0\<rparr>"

definition stmt_find :: "stmt_store \<Rightarrow> string \<Rightarrow> prepared_statement option" where
  "stmt_find store name = List.find (\<lambda>s. strcmp (ps_name s) name = 0) (statements store)"

definition stmt_find_by_id :: "stmt_store \<Rightarrow> u32 \<Rightarrow> prepared_statement option" where
  "stmt_find_by_id store i = List.find (\<lambda>s. stmt_id s = i) (statements store)"

text \<open>The query parsed with a 0 in the place of each parameter; a syntax error leaves no tree.\<close>

definition pre_parse :: "string \<Rightarrow> nat list \<Rightarrow> ast_node option outcome" where
  "pre_parse query positions =
     (case parse (tokenize (foldl (\<lambda>q k. q[k := CHR ''0'']) query positions)) of
        Done node i \<Rightarrow> Done (Some node) i
      | ParseError \<Rightarrow> Done None 0
      | Exits \<Rightarrow> Exits | Crash \<Rightarrow> Crash | NoFuel \<Rightarrow> NoFuel)"

text \<open>The counter of statement identifiers and the store go in and out; the third part is the statement.\<close>

definition stmt_prepare ::
    "int \<Rightarrow> u32 \<Rightarrow> stmt_store \<Rightarrow> string \<Rightarrow> string \<Rightarrow> string option \<Rightarrow>
     (u32 \<times> stmt_store \<times> prepared_statement option) outcome" where
  "stmt_prepare now next_id store name query prep_user =
     (if stmt_find store name \<noteq> None \<or> MAX_PREPARED_STMTS \<le> length (statements store)
      then Done (next_id, store, None) 0
      else
        let positions = find_parameters query
        in case pre_parse query positions of
             Done ast i \<Rightarrow>
               (let stmt = \<lparr>ps_name = take 63 name, query_template = query, parsed_ast = ast, param_positions = positions,
                      ps_state = STMT_STATE_PREPARED, stmt_id = next_id + 1, prepare_time = now * 1000,
                      last_execute_time = 0, execution_count = 0, prepared_by = prep_user\<rparr>
                in Done (next_id + 1,
                         store\<lparr>statements := statements store @ [stmt], total_prepares := total_prepares store + 1\<rparr>,
                         Some stmt) 0)
           | ParseError \<Rightarrow> ParseError | Exits \<Rightarrow> Exits | Crash \<Rightarrow> Crash | NoFuel \<Rightarrow> NoFuel)"

fun update_statement :: "string \<Rightarrow> (prepared_statement \<Rightarrow> prepared_statement) \<Rightarrow> prepared_statement list \<Rightarrow> prepared_statement list" where
  "update_statement name f [] = []"
| "update_statement name f (s # ss) =
     (if strcmp (ps_name s) name = 0 then f s # ss else s # update_statement name f ss)"

definition stmt_execute ::
    "int \<Rightarrow> stmt_store \<Rightarrow> string \<Rightarrow> parameter list \<Rightarrow> int \<times> string option \<times> stmt_store" where
  "stmt_execute now store name params =
     (case stmt_find store name of
        None \<Rightarrow> (-1, None, store)
      | Some stmt \<Rightarrow>
          if length params \<noteq> length (param_positions stmt) then (-1, None, store)
          else if \<exists>p \<in> set params. \<not> stmt_validate_param p then (-1, None, store)
          else
            (0, Some (substitute_parameters (query_template stmt) (param_positions stmt) params),
             store\<lparr>statements := update_statement name
                     (\<lambda>s. s\<lparr>ps_state := STMT_STATE_COMPLETE, execution_count := execution_count s + 1,
                            last_execute_time := now * 1000\<rparr>) (statements store),
                   total_executes := total_executes store + 1\<rparr>))"

fun remove_statement :: "string \<Rightarrow> prepared_statement list \<Rightarrow> prepared_statement list option" where
  "remove_statement name [] = None"
| "remove_statement name (s # ss) =
     (if strcmp (ps_name s) name = 0 then Some ss else map_option (Cons s) (remove_statement name ss))"

definition stmt_deallocate :: "stmt_store \<Rightarrow> string \<Rightarrow> int \<times> stmt_store" where
  "stmt_deallocate store name =
     (case remove_statement name (statements store) of
        None \<Rightarrow> (-1, store) | Some ss \<Rightarrow> (0, store\<lparr>statements := ss\<rparr>))"

definition stmt_deallocate_all :: "stmt_store \<Rightarrow> int \<times> stmt_store" where
  "stmt_deallocate_all store = (int (length (statements store)), store\<lparr>statements := []\<rparr>)"

section \<open>The placeholders of a text without quotes\<close>

text \<open>Each question mark replaced by the next text.\<close>

fun fill :: "string \<Rightarrow> string list \<Rightarrow> string" where
  "fill [] ps = []"
| "fill (c # cs) ps =
     (if c = CHR ''?'' then (case ps of [] \<Rightarrow> c # fill cs [] | p # qs \<Rightarrow> p @ fill cs qs) else c # fill cs ps)"

definition no_quotes :: "string \<Rightarrow> bool" where
  "no_quotes s \<longleftrightarrow> (\<forall>c \<in> set s. \<not> is_quote c)"

lemma no_quotes_simps [simp]:
  "no_quotes []" "no_quotes (c # cs) \<longleftrightarrow> \<not> is_quote c \<and> no_quotes cs" "no_quotes (xs @ ys) \<longleftrightarrow> no_quotes xs \<and> no_quotes ys"
  by (auto simp: no_quotes_def)

lemma quote_state_plain: "\<not> is_quote c \<Longrightarrow> quote_state prev q c = q"
  by (simp add: quote_state_def)

lemma fill_none [simp]: "fill t [] = t"
  by (induction t) auto

lemma substitute_none [simp]: "substitute_loop pos [] t = t"
  by (induction t arbitrary: pos) auto

lemma find_loop_bound: "\<forall>k \<in> set (find_loop prev quote pos n t). pos \<le> k"
proof (induction t arbitrary: prev quote pos n)
  case (Cons c t)
  then have "\<forall>k \<in> set (find_loop p q (Suc pos) m t). pos \<le> k" for p q m using Suc_leD by blast
  then show ?case by (simp add: Let_def)
qed simp

lemma find_loop_length:
  "no_quotes t \<Longrightarrow> length (find_loop prev None pos n t) = min n (length (filter (\<lambda>c. c = CHR ''?'') t))"
  by (induction t arbitrary: prev pos n) (auto simp: quote_state_plain Let_def)

lemma substitute_fill:
  assumes "no_quotes t" and "length ps \<le> n"
  shows "substitute_loop pos (zip (find_loop prev None pos n t) ps) t = fill t ps"
  using assms
proof (induction t arbitrary: prev pos n ps)
  case Nil
  then show ?case by simp
next
  case (Cons c t)
  show ?case
  proof (cases "ps = []")
    case True
    then show ?thesis by simp
  next
    case False
    then obtain p qs where ps: "ps = p # qs" by (cases ps) auto
    then have n: "n \<noteq> 0" using Cons.prems by auto
    show ?thesis
    proof (cases "c = CHR ''?''")
      case True
      then show ?thesis using Cons n by (simp add: ps quote_state_plain)
    next
      case False
      have IH: "substitute_loop (pos + 1) (zip (find_loop (Some c) None (pos + 1) n t) ps) t = fill t ps"
        using Cons by simp
      have "\<forall>k \<in> set (find_loop (Some c) None (pos + 1) n t). pos \<noteq> k" using find_loop_bound [of "Some c" None "pos + 1" n t] by auto
      then have "substitute_loop pos (zip (find_loop (Some c) None (pos + 1) n t) ps) (c # t) =
          c # substitute_loop (pos + 1) (zip (find_loop (Some c) None (pos + 1) n t) ps) t"
        by (cases "find_loop (Some c) None (pos + 1) n t") (auto simp: ps)
      then show ?thesis using IH False n Cons.prems by (simp add: quote_state_plain)
    qed
  qed
qed

section \<open>Reading the substituted text\<close>

definition stops_word :: "string \<Rightarrow> bool" where
  "stops_word s \<longleftrightarrow> s = [] \<or> \<not> is_word_char (hd s) \<and> \<not> is_number_char (hd s)"

lemma takeWhile_stops: "s = [] \<or> \<not> P (hd s) \<Longrightarrow> takeWhile P (x @ s) = takeWhile P x"
  by (induction x) (auto simp: neq_Nil_conv takeWhile_eq_Nil_iff)

lemma dropWhile_stops: "s = [] \<or> \<not> P (hd s) \<Longrightarrow> dropWhile P (x @ s) = dropWhile P x @ s"
  by (induction x) (auto simp: dropWhile_eq_self_iff)

lemma no_quotes_dropWhile: "no_quotes x \<Longrightarrow> no_quotes (dropWhile P x)"
  by (auto simp: no_quotes_def dest: set_dropWhileD)

text \<open>A text without quotes that is followed by the end of a word gives tokens of its own.\<close>

lemma lex_prefix:
  "no_quotes x \<Longrightarrow> \<exists>ts l'. \<forall>s. stops_word s \<longrightarrow> lex_loop l (x @ s) = ts @ lex_loop l' s"
proof (induction "length x" arbitrary: x l rule: less_induct)
  case less
  show ?case
  proof (cases x)
    case Nil
    then show ?thesis by (intro exI [of _ "[]"] exI [of _ l]) simp
  next
    case (Cons c cs)
    have q: "c \<noteq> double_quote" "c \<noteq> single_quote" using less.prems Cons by (auto simp: is_quote_def)
    have IH: "\<exists>ts l'. \<forall>s. stops_word s \<longrightarrow> lex_loop m (y @ s) = ts @ lex_loop l' s" if "length y \<le> length cs" "no_quotes y" for y m
      using less.hyps [of y m] that Cons by simp
    have cs: "no_quotes cs" using less.prems Cons by simp
    have step: "\<exists>ts l'. \<forall>s. stops_word s \<longrightarrow> lex_loop l (x @ s) = ts @ lex_loop l' s"
      if "length y \<le> length cs" "no_quotes y" "\<And>s. stops_word s \<Longrightarrow> lex_loop l (x @ s) = us @ lex_loop m (y @ s)" for us y m
    proof -
      from IH [OF that(1,2), of m] obtain ts l' where "\<forall>s. stops_word s \<longrightarrow> lex_loop m (y @ s) = ts @ lex_loop l' s" by blast
      then have "\<forall>s. stops_word s \<longrightarrow> lex_loop l (x @ s) = (us @ ts) @ lex_loop l' s" using that(3) by simp
      then show ?thesis by blast
    qed
    consider "is_space c" | t where "\<not> is_space c" "symbol_type c = Some t" | "\<not> is_space c" "symbol_type c = None" "is_digit c"
      | "\<not> is_space c" "symbol_type c = None" "\<not> is_digit c" "is_alpha c \<or> c = CHR ''_''"
      | "\<not> is_space c" "symbol_type c = None" "\<not> is_digit c" "\<not> (is_alpha c \<or> c = CHR ''_'')"
      by fastforce
    then show ?thesis
    proof cases
      case 1
      show ?thesis by (rule step [of cs "[]" "if c = newline then Suc l else l"]) (use 1 cs Cons in auto)
    next
      case 2
      show ?thesis by (rule step [of cs "[make_token t (Some [c]) l]" l]) (use 2 cs Cons in auto)
    next
      case 3
      show ?thesis
      proof (rule step [of "dropWhile is_number_char cs" "[number_token (takeWhile is_number_char (c # cs)) l]" l])
        fix s assume "stops_word s"
        then have "s = [] \<or> \<not> is_number_char (hd s)" by (auto simp: stops_word_def)
        then show "lex_loop l (x @ s) = [number_token (takeWhile is_number_char (c # cs)) l] @ lex_loop l (dropWhile is_number_char cs @ s)"
          using 3 q by (simp add: Cons dropWhile_stops takeWhile_stops del: takeWhile.simps)
             (simp add: takeWhile_stops)
      qed (simp_all add: length_dropWhile_le no_quotes_dropWhile cs)
    next
      case 4
      show ?thesis
      proof (rule step [of "dropWhile is_word_char cs" "[word_token (takeWhile is_word_char (c # cs)) l]" l])
        fix s assume "stops_word s"
        then have "s = [] \<or> \<not> is_word_char (hd s)" by (auto simp: stops_word_def)
        then show "lex_loop l (x @ s) = [word_token (takeWhile is_word_char (c # cs)) l] @ lex_loop l (dropWhile is_word_char cs @ s)"
          using 4 q by (simp add: Cons dropWhile_stops takeWhile_stops del: takeWhile.simps)
             (simp add: takeWhile_stops)
      qed (simp_all add: length_dropWhile_le no_quotes_dropWhile cs)
    next
      case 5
      show ?thesis by (rule step [of cs "[]" l]) (use 5 q cs Cons in auto)
    qed
  qed
qed

section \<open>String parameters are literals\<close>

definition bind_value :: "string \<Rightarrow> parameter" where
  "bind_value v = stmt_bind_string v (length v)"

definition safe_value :: "string \<Rightarrow> bool" where
  "safe_value v \<longleftrightarrow> single_quote \<notin> set v \<and> backslash \<notin> set v \<and> length v \<le> 4093"

lemma string_body_safe:
  "single_quote \<notin> set v \<Longrightarrow> backslash \<notin> set v \<Longrightarrow>
   string_body single_quote (v @ single_quote # s) = (v, single_quote # s)"
  by (induction v) auto

lemma lex_quoted:
  assumes "single_quote \<notin> set v" and "backslash \<notin> set v"
  shows "lex_loop l (single_quote # v @ single_quote # s) = make_token TOKEN_STRING (Some v) l # lex_loop l s"
  by (simp add: string_body_safe [OF assms] is_space_def symbol_type_def)

lemma param_to_string_safe: "safe_value v \<Longrightarrow> param_to_string (bind_value v) = single_quote # v @ [single_quote]"
proof -
  assume v: "safe_value v"
  then have "take 4095 (single_quote # v @ [single_quote]) = single_quote # v @ [single_quote]"
    by (intro take_all) (simp add: safe_value_def)
  then show ?thesis using v
    by (simp add: safe_value_def param_to_string_def bind_value_def stmt_bind_string_def with_precision_def del: take_Cons_numeral)
qed

lemma stops_quote: "stops_word (single_quote # s)"
  by (simp add: stops_word_def is_word_char_def is_number_char_def is_alpha_def is_digit_def)

text \<open>Runs of tokens with a string literal after each but the last.\<close>

fun weave :: "(token list \<times> nat) list \<Rightarrow> string list \<Rightarrow> token list" where
  "weave [] vs = []"
| "weave ((ts, l) # ps) [] = ts"
| "weave ((ts, l) # ps) (v # vs) = ts @ make_token TOKEN_STRING (Some v) l # weave ps vs"

lemma fill_plain: "CHR ''?'' \<notin> set x \<Longrightarrow> fill (x @ t) ps = x @ fill t ps"
  by (induction x) auto

lemma lex_fill:
  "no_quotes t \<Longrightarrow> \<exists>ps. \<forall>vs. length vs = length (filter (\<lambda>c. c = CHR ''?'') t) \<and> list_all safe_value vs \<longrightarrow>
     lex_loop l (fill t (map (\<lambda>v. single_quote # v @ [single_quote]) vs)) = weave ps vs"
proof (induction "length (filter (\<lambda>c. c = CHR ''?'') t)" arbitrary: t l)
  case 0
  then show ?case by (intro exI [of _ "[(lex_loop l t, 0)]"]) auto
next
  case (Suc n)
  then have "filter (\<lambda>c. c = CHR ''?'') t \<noteq> []" by auto
  then have "CHR ''?'' \<in> set t" by (auto simp: filter_empty_conv)
  then obtain x u where t: "t = x @ CHR ''?'' # u" "CHR ''?'' \<notin> set x" by (metis split_list_first)
  have nq: "no_quotes x" "no_quotes u" using Suc.prems t by simp_all
  have "filter (\<lambda>c. c = CHR ''?'') x = []" using t(2) by (auto simp: filter_empty_conv)
  then have n: "length (filter (\<lambda>c. c = CHR ''?'') u) = n" using Suc.hyps(2) t(1) by simp
  obtain ts m where x: "\<forall>s. stops_word s \<longrightarrow> lex_loop l (x @ s) = ts @ lex_loop m s" using lex_prefix [OF nq(1)] by blast
  obtain ps where u: "\<forall>vs. length vs = n \<and> list_all safe_value vs \<longrightarrow>
      lex_loop m (fill u (map (\<lambda>v. single_quote # v @ [single_quote]) vs)) = weave ps vs"
    using Suc.hyps(1) [OF n [symmetric] nq(2), of m] n by auto
  show ?case
  proof (intro exI [of _ "(ts, m) # ps"] allI impI)
    fix vs assume vs: "length vs = length (filter (\<lambda>c. c = CHR ''?'') t) \<and> list_all safe_value vs"
    then obtain v ws where w: "vs = v # ws" "length ws = n" "safe_value v" "list_all safe_value ws"
      using Suc.hyps(2) by (cases vs) auto
    let ?s = "fill u (map (\<lambda>v. single_quote # v @ [single_quote]) ws)"
    have "lex_loop m (single_quote # v @ single_quote # ?s) = make_token TOKEN_STRING (Some v) m # weave ps ws"
      using w u by (subst lex_quoted) (auto simp: safe_value_def)
    then show "lex_loop l (fill t (map (\<lambda>v. single_quote # v @ [single_quote]) vs)) = weave ((ts, m) # ps) vs"
      using x [rule_format, OF stops_quote] by (simp add: w(1) t fill_plain del: lex_loop.simps)
  qed
qed


definition demo_stmt :: "string \<Rightarrow> prepared_statement" where
  "demo_stmt query = \<lparr>ps_name = ''s'', query_template = query, parsed_ast = None, param_positions = find_parameters query,
     ps_state = STMT_STATE_PREPARED, stmt_id = 1, prepare_time = 0, last_execute_time = 0, execution_count = 0,
     prepared_by = None\<rparr>"

definition demo_stmts :: "string \<Rightarrow> stmt_store" where
  "demo_stmts query = \<lparr>statements = [demo_stmt query], total_prepares = 1, total_executes = 0\<rparr>"

lemma demo_stmts_find: "stmt_find (demo_stmts query) ''s'' = Some (demo_stmt query)"
  by (simp add: stmt_find_def demo_stmts_def demo_stmt_def)

lemma demo_stmt_simps [simp]:
  "query_template (demo_stmt query) = query" "param_positions (demo_stmt query) = find_parameters query"
  by (simp_all add: demo_stmt_def)

lemmas upper_eval = to_upper_def char_of_def bit_0

lemma validate_short: "stmt_validate_param (bind_value ''ab'')" "stmt_validate_param (bind_value ''cd'')"
  by (simp_all add: stmt_validate_param_def bind_value_def stmt_bind_string_def dangerous_def upper_eval)


text \<open>A single quote in a string parameter ends the literal, and what follows in the value is read as
  SQL: the checks against injection do not look for quotes, and the value is not escaped.\<close>

theorem quote_ends_the_literal:
  assumes "stmt_find store name = Some stmt" and "query_template stmt = x @ CHR ''?'' # y"
    and "param_positions stmt = find_parameters (query_template stmt)"
    and "no_quotes x" and "no_quotes y" and "CHR ''?'' \<notin> set x" and "CHR ''?'' \<notin> set y"
    and "single_quote \<notin> set a" and "backslash \<notin> set a" and "v = a @ single_quote # b" and "length v \<le> 4093"
    and "stmt_validate_param (bind_value v)"
  shows "\<exists>ts l store' res. stmt_execute now store name [bind_value v] = (0, Some res, store') \<and>
    tokenize res = ts @ make_token TOKEN_STRING (Some a) l # lex_loop l (b @ single_quote # y)"
proof -
  let ?t = "x @ CHR ''?'' # y"
  have nq: "no_quotes ?t" using assms(4,5) by (simp add: is_quote_def)
  have "filter (\<lambda>c. c = CHR ''?'') x = []" "filter (\<lambda>c. c = CHR ''?'') y = []"
    using assms(6,7) by (auto simp: filter_empty_conv)
  then have n: "length (find_parameters ?t) = 1" using find_loop_length [OF nq] by (simp add: find_parameters_def)
  have "take 4095 (single_quote # v @ [single_quote]) = single_quote # v @ [single_quote]"
    using assms(11) by (intro take_all) simp
  then have v: "param_to_string (bind_value v) = single_quote # v @ [single_quote]"
    using assms(11) by (simp add: param_to_string_def bind_value_def stmt_bind_string_def with_precision_def del: take_Cons_numeral)
  have sub: "substitute_parameters ?t (find_parameters ?t) [bind_value v] = x @ single_quote # v @ single_quote # y"
    using substitute_fill [OF nq, of "[single_quote # v @ [single_quote]]" 32] fill_plain [OF assms(6)]
    by (simp add: substitute_parameters_def find_parameters_def v)
  obtain ts l where ts: "\<forall>s. stops_word s \<longrightarrow> lex_loop 1 (x @ s) = ts @ lex_loop l s" using lex_prefix [OF assms(4)] by blast
  have "lex_loop l (single_quote # v @ single_quote # y) =
      make_token TOKEN_STRING (Some a) l # lex_loop l (b @ single_quote # y)"
    unfolding assms(10) using lex_quoted [OF assms(8,9), of l "b @ single_quote # y"] by (simp del: lex_loop.simps)
  then have "tokenize (x @ single_quote # v @ single_quote # y) =
      ts @ make_token TOKEN_STRING (Some a) l # lex_loop l (b @ single_quote # y)"
    using ts stops_quote by (simp add: tokenize_def del: lex_loop.simps)
  then show ?thesis using assms(1,2,3,12) n sub by (simp add: stmt_execute_def) blast
qed

theorem quote_ends_the_literal_witness:
  "\<exists>ts l store' res. stmt_execute 0 (demo_stmts ''n = ?;'') ''s''
       [bind_value (''x'' @ single_quote # '' OR n > '' @ [single_quote])] = (0, Some res, store') \<and>
     tokenize res = ts @ make_token TOKEN_STRING (Some ''x'') l # lex_loop l ('' OR n > '' @ [single_quote, single_quote, CHR '';''])"
proof -
  let ?v = "''x'' @ single_quote # '' OR n > '' @ [single_quote]"
  have ok: "stmt_validate_param (bind_value ?v)"
    by (simp add: stmt_validate_param_def bind_value_def stmt_bind_string_def dangerous_def upper_eval)
  have "\<exists>ts l store' res. stmt_execute 0 (demo_stmts ''n = ?;'') ''s'' [bind_value ?v] = (0, Some res, store') \<and>
     tokenize res = ts @ make_token TOKEN_STRING (Some ''x'') l # lex_loop l (('' OR n > '' @ [single_quote]) @ single_quote # '';'')"
    by (rule quote_ends_the_literal [OF demo_stmts_find _ _ _ _ _ _ _ _ _ _ ok, where x = "''n = ''"])
      (simp_all add: is_quote_def)
  then show ?thesis by (simp only: append_assoc append_Cons append_Nil)
qed

end
