(* ===== verification/StmtCache.thy ===== *)
theory StmtCache
  imports Prepared
begin

text \<open>
  The normalised text of a query and the global statement cache of \<open>src/prepared.c\<close>, a table of
  1024 slots indexed by a hash. The plans of an entry are not used by the code and left out.
\<close>

section \<open>Normalisation\<close>

text \<open>The inner loop over a string: what follows the closing quote.\<close>

fun skip_string :: "char \<Rightarrow> char \<Rightarrow> string \<Rightarrow> string" where
  "skip_string prev q [] = []"
| "skip_string prev q (c # cs) = (if c = q \<and> prev \<noteq> backslash then cs else skip_string c q cs)"

lemma length_skip_string: "length (skip_string prev q cs) \<le> length cs"
  by (induction prev q cs rule: skip_string.induct) auto

definition number_part :: "char \<Rightarrow> bool" where
  "number_part c \<longleftrightarrow> is_digit c \<or> c = CHR ''.'' \<or> c = CHR ''-''"

definition starts_number :: "char \<Rightarrow> string \<Rightarrow> bool" where
  "starts_number c cs \<longleftrightarrow> is_digit c \<or> c = CHR ''-'' \<and> cs \<noteq> [] \<and> is_digit (hd cs)"

text \<open>The previous character, the quote of the string the loop takes itself to be in, whether a blank
  was written last, the output and the rest.\<close>

function norm_loop :: "char option \<Rightarrow> char option \<Rightarrow> bool \<Rightarrow> string \<Rightarrow> string \<Rightarrow> string" where
  "norm_loop prev q sp out [] = out"
| "norm_loop prev q sp out (c # cs) =
     (if is_quote c \<and> prev \<noteq> Some backslash \<and> q = None
      then norm_loop (Some c) (Some c) sp (out @ ''?S'') (skip_string c c cs)
      else if is_quote c \<and> prev \<noteq> Some backslash \<and> q = Some c then norm_loop (Some c) None sp out cs
      else if q \<noteq> None then norm_loop (Some c) q sp out cs
      else if starts_number c cs
      then norm_loop (Some (last (c # takeWhile number_part cs))) None sp (out @ ''?N'') (dropWhile number_part cs)
      else if is_space c
      then (if \<not> sp \<and> out \<noteq> [] then norm_loop (Some c) None True (out @ '' '') cs else norm_loop (Some c) None sp out cs)
      else norm_loop (Some c) None False (out @ [to_upper c]) cs)"
  by pat_completeness auto
termination
  by (relation "measure (\<lambda>(p, q, sp, out, cs). length cs)")
    (auto simp: length_skip_string le_imp_less_Suc length_dropWhile_le)

declare norm_loop.simps(2) [simp del]

lemma norm_steps:
  "is_quote c \<Longrightarrow> p \<noteq> Some backslash \<Longrightarrow>
     norm_loop p None sp out (c # cs) = norm_loop (Some c) (Some c) sp (out @ ''?S'') (skip_string c c cs)"
  "\<not> is_quote c \<Longrightarrow> norm_loop p (Some q) sp out (c # cs) = norm_loop (Some c) (Some q) sp out cs"
  "\<not> is_quote c \<Longrightarrow> starts_number c cs \<Longrightarrow>
     norm_loop p None sp out (c # cs) =
     norm_loop (Some (last (c # takeWhile number_part cs))) None sp (out @ ''?N'') (dropWhile number_part cs)"
  "\<not> is_quote c \<Longrightarrow> \<not> starts_number c cs \<Longrightarrow> is_space c \<Longrightarrow>
     norm_loop p None sp out (c # cs) =
     norm_loop (Some c) None (sp \<or> out \<noteq> []) (if \<not> sp \<and> out \<noteq> [] then out @ '' '' else out) cs"
  "\<not> is_quote c \<Longrightarrow> \<not> starts_number c cs \<Longrightarrow> \<not> is_space c \<Longrightarrow>
     norm_loop p None sp out (c # cs) = norm_loop (Some c) None False (out @ [to_upper c]) cs"
  by (simp_all add: norm_loop.simps(2))

definition normalized_text :: "string \<Rightarrow> string" where
  "normalized_text query = norm_loop None None False [] query"

definition trim_blanks :: "string \<Rightarrow> string" where
  "trim_blanks s = rev (dropWhile (\<lambda>c. c = CHR '' '') (rev s))"

text \<open>The buffer has one byte more than the query.\<close>

definition stmt_normalize_query :: "string \<Rightarrow> string option" where
  "stmt_normalize_query query =
     (let t = normalized_text query
      in if length t \<le> length query + 1 \<and> length (trim_blanks t) \<le> length query then Some (trim_blanks t) else None)"

definition stmt_hash_string :: "string \<Rightarrow> u32" where
  "stmt_hash_string s = djb2 s"

definition hex_upper :: "nat \<Rightarrow> char" where
  "hex_upper n = char_of (if n < 10 then 48 + n else 55 + n)"

definition stmt_compute_hash :: "string \<Rightarrow> string" where
  "stmt_compute_hash normalized =
     (let h = unat (stmt_hash_string normalized) in map (\<lambda>i. hex_upper (h div 16 ^ i mod 16)) (rev [0..<8]))"

section \<open>The cache\<close>

record stmt_cache_entry =
  ce_hash :: string
  ce_normalized :: "string option"
  ce_ast :: "ast_node option"
  ce_hits :: nat
  ce_access :: int
  ce_memory :: nat

record stmt_cache =
  cache_slots :: "stmt_cache_entry option list"
  cache_count :: int
  cache_hits :: nat
  cache_misses :: nat
  cache_memory :: nat

abbreviation "STMT_CACHE_SIZE \<equiv> 1024 :: nat"

definition prepared_init :: stmt_cache where
  "prepared_init = \<lparr>cache_slots = replicate STMT_CACHE_SIZE None, cache_count = 0, cache_hits = 0, cache_misses = 0, cache_memory = 0\<rparr>"

definition slot_of :: "stmt_cache \<Rightarrow> string \<Rightarrow> nat" where
  "slot_of c h = unat (stmt_hash_string h) mod length (cache_slots c)"

definition cache_get :: "int \<Rightarrow> string \<Rightarrow> stmt_cache \<Rightarrow> stmt_cache_entry option \<times> stmt_cache" where
  "cache_get now h c =
     (let miss = (None, c\<lparr>cache_misses := cache_misses c + 1\<rparr>)
      in case cache_slots c ! slot_of c h of
           None \<Rightarrow> miss
         | Some e \<Rightarrow>
             if strcmp (ce_hash e) h = 0
             then (let e = e\<lparr>ce_hits := ce_hits e + 1, ce_access := now\<rparr>
                   in (Some e, c\<lparr>cache_slots := (cache_slots c)[slot_of c h := Some e], cache_hits := cache_hits c + 1\<rparr>))
             else miss)"

definition cache_put :: "int \<Rightarrow> string \<Rightarrow> string option \<Rightarrow> ast_node option \<Rightarrow> stmt_cache \<Rightarrow> stmt_cache" where
  "cache_put now h normalized ast c =
     (let c = (case cache_slots c ! slot_of c h of
                 None \<Rightarrow> c
               | Some e \<Rightarrow> c\<lparr>cache_memory := cache_memory c - ce_memory e, cache_count := cache_count c - 1\<rparr>);
          size = length h + (case normalized of None \<Rightarrow> 0 | Some s \<Rightarrow> length s) + 128
      in c\<lparr>cache_slots := (cache_slots c)[slot_of c h := Some \<lparr>ce_hash = h, ce_normalized = normalized, ce_ast = ast,
             ce_hits = 0, ce_access = now, ce_memory = size\<rparr>],
           cache_memory := cache_memory c + size, cache_count := cache_count c + 1\<rparr>)"

text \<open>The entries whose normalised text contains the name, one after the other.\<close>

definition names_table :: "string \<Rightarrow> stmt_cache_entry option \<Rightarrow> bool" where
  "names_table tbl slot =
     (case slot of None \<Rightarrow> False | Some e \<Rightarrow> (case ce_normalized e of None \<Rightarrow> False | Some s \<Rightarrow> strstr s tbl))"

definition slot_memory :: "stmt_cache_entry option \<Rightarrow> nat" where
  "slot_memory slot = (case slot of None \<Rightarrow> 0 | Some e \<Rightarrow> ce_memory e)"

definition invalidate_slot :: "string \<Rightarrow> stmt_cache \<Rightarrow> nat \<Rightarrow> stmt_cache" where
  "invalidate_slot tbl c i =
     (if names_table tbl (cache_slots c ! i)
      then c\<lparr>cache_slots := (cache_slots c)[i := None], cache_memory := cache_memory c - slot_memory (cache_slots c ! i),
             cache_count := cache_count c - 1\<rparr>
      else c)"

definition cache_invalidate :: "string \<Rightarrow> stmt_cache \<Rightarrow> stmt_cache" where
  "cache_invalidate tbl c = foldl (invalidate_slot tbl) c [0..<length (cache_slots c)]"

definition cache_stats :: "stmt_cache \<Rightarrow> nat \<times> nat \<times> nat" where
  "cache_stats c = (cache_hits c, cache_misses c, cache_memory c)"

section \<open>The invariant of the counters\<close>

definition used_slots :: "stmt_cache_entry option list \<Rightarrow> nat" where
  "used_slots ss = length (filter (\<lambda>s. s \<noteq> None) ss)"

definition stmt_cache_wf :: "stmt_cache \<Rightarrow> bool" where
  "stmt_cache_wf c \<longleftrightarrow> cache_slots c \<noteq> [] \<and> cache_count c = int (used_slots (cache_slots c)) \<and>
     cache_memory c = sum_list (map slot_memory (cache_slots c)) \<and>
     (\<forall>i < length (cache_slots c). \<forall>e. cache_slots c ! i = Some e \<longrightarrow> slot_of c (ce_hash e) = i)"

inductive cache_reachable :: "stmt_cache \<Rightarrow> bool" where
  reach_init: "cache_reachable prepared_init"
| reach_get: "cache_reachable c \<Longrightarrow> cache_reachable (snd (cache_get now h c))"
| reach_put: "cache_reachable c \<Longrightarrow> cache_reachable (cache_put now h normalized ast c)"
| reach_invalidate: "cache_reachable c \<Longrightarrow> cache_reachable (cache_invalidate tbl c)"

lemma memory_update:
  fixes f :: "'a \<Rightarrow> nat"
  shows "i < length ss \<Longrightarrow> sum_list (map f (ss[i := s])) + f (ss ! i) = sum_list (map f ss) + f s"
proof (induction ss arbitrary: i)
  case (Cons x ss)
  then show ?case by (cases i) (auto simp: algebra_simps)
qed simp

lemma used_slots_sum: "used_slots ss = sum_list (map (\<lambda>s. if s = None then 0 else 1) ss)"
  by (induction ss) (auto simp: used_slots_def)

lemma slot_memory_le: "i < length ss \<Longrightarrow> slot_memory (ss ! i) \<le> sum_list (map slot_memory ss)"
  by (intro member_le_sum_list) auto

lemma slot_of_bound: "stmt_cache_wf c \<Longrightarrow> slot_of c h < length (cache_slots c)"
  by (simp add: stmt_cache_wf_def slot_of_def)

lemma slot_of_length: "length (cache_slots c) = length (cache_slots d) \<Longrightarrow> slot_of c h = slot_of d h"
  by (simp add: slot_of_def)

lemma wf_init: "stmt_cache_wf prepared_init"
  by (simp add: stmt_cache_wf_def prepared_init_def used_slots_def slot_memory_def)

lemma wf_replace:
  assumes "stmt_cache_wf c" and "i < length (cache_slots c)" and "cache_slots d = (cache_slots c)[i := s]"
    and "cache_count d = cache_count c - (if cache_slots c ! i = None then 0 else 1) + (if s = None then 0 else 1)"
    and "cache_memory d = cache_memory c - slot_memory (cache_slots c ! i) + slot_memory s"
    and "\<And>e. s = Some e \<Longrightarrow> slot_of c (ce_hash e) = i"
  shows "stmt_cache_wf d"
proof -
  have len: "length (cache_slots d) = length (cache_slots c)" using assms(3) by simp
  have "cache_count d = int (used_slots (cache_slots d))"
    using memory_update [OF assms(2), of "\<lambda>s. if s = None then 0 else 1" s] assms(1,3,4)
    by (auto simp: stmt_cache_wf_def used_slots_sum split: if_splits)
  moreover have "cache_memory d = sum_list (map slot_memory (cache_slots d))"
    using memory_update [OF assms(2), of slot_memory s] slot_memory_le [OF assms(2)] assms(1,3,5)
    by (auto simp: stmt_cache_wf_def)
  moreover have "\<forall>j < length (cache_slots d). \<forall>e. cache_slots d ! j = Some e \<longrightarrow> slot_of d (ce_hash e) = j"
    using assms(1,2,3,6) len by (auto simp: stmt_cache_wf_def nth_list_update slot_of_length [OF len] split: if_splits)
  ultimately show ?thesis using assms(1,2) len by (auto simp: stmt_cache_wf_def)
qed

lemma wf_get: "stmt_cache_wf c \<Longrightarrow> stmt_cache_wf (snd (cache_get now h c))"
proof -
  assume wf: "stmt_cache_wf c"
  let ?i = "slot_of c h"
  have miss: "stmt_cache_wf (c\<lparr>cache_misses := n\<rparr>)" for n using wf by (simp add: stmt_cache_wf_def slot_of_def)
  show ?thesis
  proof (cases "cache_slots c ! ?i")
    case None
    then show ?thesis using miss by (simp add: cache_get_def Let_def)
  next
    case (Some e)
    show ?thesis
    proof (cases "strcmp (ce_hash e) h = 0")
      case False
      then show ?thesis using miss Some by (simp add: cache_get_def Let_def)
    next
      case True
      have "slot_memory (cache_slots c ! ?i) \<le> sum_list (map slot_memory (cache_slots c))"
        by (rule slot_memory_le [OF slot_of_bound [OF wf]])
      then have mem: "cache_memory c - slot_memory (cache_slots c ! ?i) + ce_memory e = cache_memory c"
        using wf Some by (simp add: stmt_cache_wf_def slot_memory_def)
      show ?thesis
        by (rule wf_replace [OF wf slot_of_bound [OF wf, of h], where s = "Some (e\<lparr>ce_hits := ce_hits e + 1, ce_access := now\<rparr>)"])
          (use True Some mem in \<open>simp_all add: cache_get_def Let_def slot_memory_def\<close>)
    qed
  qed
qed

lemma wf_put:
  assumes wf: "stmt_cache_wf c"
  shows "stmt_cache_wf (cache_put now h normalized ast c)"
  by (rule wf_replace [OF wf slot_of_bound [OF wf, of h], where s = "Some \<lparr>ce_hash = h, ce_normalized = normalized, ce_ast = ast,
        ce_hits = 0, ce_access = now, ce_memory = length h + (case normalized of None \<Rightarrow> 0 | Some s \<Rightarrow> length s) + 128\<rparr>"])
    (auto simp: cache_put_def Let_def slot_memory_def slot_of_def split: option.split)

lemma wf_invalidate: "stmt_cache_wf c \<Longrightarrow> stmt_cache_wf (cache_invalidate tbl c)"
proof -
  assume wf: "stmt_cache_wf c"
  have "stmt_cache_wf (foldl (invalidate_slot tbl) d ks) \<and> length (cache_slots (foldl (invalidate_slot tbl) d ks)) = length (cache_slots d)"
    if "stmt_cache_wf d" "\<forall>i \<in> set ks. i < length (cache_slots d)" for d ks
    using that
  proof (induction ks arbitrary: d)
    case (Cons i ks)
    have "stmt_cache_wf (invalidate_slot tbl d i)"
    proof (cases "names_table tbl (cache_slots d ! i)")
      case True
      then have "cache_slots d ! i \<noteq> None" by (auto simp: names_table_def split: option.splits)
      then show ?thesis
        using Cons.prems True by (intro wf_replace [of d i "invalidate_slot tbl d i" None]) (simp_all add: invalidate_slot_def slot_memory_def)
    qed (use Cons.prems in \<open>simp add: invalidate_slot_def\<close>)
    moreover have "length (cache_slots (invalidate_slot tbl d i)) = length (cache_slots d)" by (simp add: invalidate_slot_def)
    ultimately show ?case using Cons by simp
  qed simp
  from this [OF wf, of "[0..<length (cache_slots c)]"] show ?thesis by (simp add: cache_invalidate_def)
qed

text \<open>C39: In every state the calls can reach, the counters of the statement cache are those of its
  slots, and each entry is in the slot of its hash.\<close>

theorem stmt_cache_invariant:
  assumes "cache_reachable c"
  shows "cache_count c = int (used_slots (cache_slots c)) \<and> cache_memory c = sum_list (map slot_memory (cache_slots c)) \<and>
    (\<forall>i < length (cache_slots c). \<forall>e. cache_slots c ! i = Some e \<longrightarrow> slot_of c (ce_hash e) = i)"
proof -
  have "stmt_cache_wf c"
    using assms by (induction rule: cache_reachable.induct) (simp_all add: wf_init wf_get wf_put wf_invalidate)
  then show ?thesis by (simp add: stmt_cache_wf_def)
qed

theorem stmt_cache_invariant_witness:
  "let c = cache_invalidate ''T'' (cache_put 0 ''h'' (Some ''T'') None prepared_init) in
   cache_count c = int (used_slots (cache_slots c)) \<and> cache_memory c = sum_list (map slot_memory (cache_slots c))"
  using stmt_cache_invariant [OF reach_invalidate [OF reach_put [OF reach_init]], of "''T''" 0 "''h''" "Some ''T''" None]
  by (simp only: Let_def simp_thms)

section \<open>What normalisation loses\<close>

text \<open>The flag that the loop is in a string stays set after the first string, so nothing is written up
  to the next quote.\<close>

lemma norm_loop_stuck: "no_quotes s \<Longrightarrow> norm_loop p (Some q) sp out s = out"
  by (induction s arbitrary: p) (simp_all add: norm_steps)

lemma skip_string_end: "q \<notin> set v \<Longrightarrow> backslash \<notin> set v \<Longrightarrow> prev \<noteq> backslash \<Longrightarrow> skip_string prev q (v @ q # s) = s"
proof (induction v arbitrary: prev)
  case (Cons a v)
  then have "q \<noteq> a" "backslash \<noteq> a" "q \<notin> set v" "backslash \<notin> set v" by simp_all
  then show ?case using Cons.IH [of a] by (simp only: append_Cons skip_string.simps simp_thms if_False eq_commute [of a])
next
  case Nil
  then show ?case by (simp only: append_Nil skip_string.simps simp_thms if_True)
qed

lemma norm_loop_string:
  assumes "q \<notin> set v" and "backslash \<notin> set v" and "is_quote q" and "p \<noteq> Some backslash" and "no_quotes s"
  shows "norm_loop p None sp out (q # v @ q # s) = out @ ''?S''"
proof -
  have "q \<noteq> backslash" using assms(3) by (auto simp: is_quote_def)
  then have "skip_string q q (v @ q # s) = s" by (rule skip_string_end [OF assms(1,2)])
  then show ?thesis
    by (simp only: norm_steps(1) [OF assms(3,4)] norm_loop_stuck [OF assms(5)])
qed

lemma norm_loop_prefix:
  "no_quotes x \<Longrightarrow> backslash \<notin> set x \<Longrightarrow> p \<noteq> Some backslash \<Longrightarrow>
   \<exists>p' sp' out'. p' \<noteq> Some backslash \<and>
     (\<forall>q s. is_quote q \<longrightarrow> norm_loop p None sp out (x @ q # s) = norm_loop p' None sp' out' (q # s))"
proof (induction "length x" arbitrary: x p sp out rule: less_induct)
  case less
  show ?case
  proof (cases x)
    case Nil
    then show ?thesis using less.prems(3) by (intro exI [of _ p] exI [of _ sp] exI [of _ out]) simp
  next
    case (Cons c cs)
    have step: ?thesis
      if "length y \<le> length cs" and "no_quotes y" and "backslash \<notin> set y" and "p1 \<noteq> Some backslash"
        and "\<And>q s. is_quote q \<Longrightarrow> norm_loop p None sp out (x @ q # s) = norm_loop p1 None sp1 out1 (y @ q # s)" for y p1 sp1 out1
    proof -
      note prems = that
      obtain p' sp' out' where "p' \<noteq> Some backslash"
        "\<forall>q s. is_quote q \<longrightarrow> norm_loop p1 None sp1 out1 (y @ q # s) = norm_loop p' None sp' out' (q # s)"
        using less.hyps [of y p1 sp1 out1] prems(1,2,3,4) Cons by auto
      then show ?thesis using prems(5) by (intro exI [of _ p'] exI [of _ sp'] exI [of _ out']) auto
    qed
    have c: "\<not> is_quote c" "c \<noteq> backslash" "no_quotes cs" "backslash \<notin> set cs" using less.prems Cons by auto
    have q: "\<not> number_part q" "\<not> is_digit q" if "is_quote q" for q
      using that by (auto simp: is_quote_def number_part_def is_digit_def)
    have num: "starts_number c (cs @ a # s) \<longleftrightarrow> starts_number c cs" if "is_quote a" for a s
      using q [OF that] by (cases cs) (auto simp: starts_number_def)
    show ?thesis
    proof (cases "starts_number c cs")
      case True
      let ?t = "takeWhile number_part cs" and ?d = "dropWhile number_part cs"
      have "backslash \<notin> set ?t" using c(4) by (auto dest: set_takeWhileD)
      then have "last (c # ?t) \<noteq> backslash" using c(2) last_in_set [of "c # ?t"] by (metis list.distinct(1) set_ConsD)
      moreover have "no_quotes ?d" "backslash \<notin> set ?d" using c by (auto simp: no_quotes_dropWhile dest: set_dropWhileD)
      moreover have "norm_loop p None sp out (x @ a # s) = norm_loop (Some (last (c # ?t))) None sp (out @ ''?N'') (?d @ a # s)"
        if a: "is_quote a" for a s
        using norm_steps(3) [OF c(1), of "cs @ a # s" p sp out] True num [OF a, of s] q(1) [OF a]
        by (simp add: Cons takeWhile_stops dropWhile_stops)
      ultimately show ?thesis by (intro step [of ?d "Some (last (c # ?t))" sp "out @ ''?N''"]) (simp_all add: length_dropWhile_le)
    next
      case False
      show ?thesis
      proof (cases "is_space c")
        case True
        have "norm_loop p None sp out (x @ a # s) =
            norm_loop (Some c) None (sp \<or> out \<noteq> []) (if \<not> sp \<and> out \<noteq> [] then out @ '' '' else out) (cs @ a # s)" if "is_quote a" for a s
          using norm_steps(4) [OF c(1), of "cs @ a # s" p sp out] num [OF that, of s] False True by (simp add: Cons)
        then show ?thesis by (intro step [of cs "Some c"]) (use c in simp_all)
      next
        case sp: False
        have "norm_loop p None sp out (x @ a # s) = norm_loop (Some c) None False (out @ [to_upper c]) (cs @ a # s)" if "is_quote a" for a s
          using norm_steps(5) [OF c(1), of "cs @ a # s" p sp out] num [OF that, of s] False sp by (simp add: Cons)
        then show ?thesis by (intro step [of cs "Some c"]) (use c in simp_all)
      qed
    qed
  qed
qed

text \<open>Two queries that agree up to their first string literal get the same normalised text when no
  other quote follows, whatever conditions come after it.\<close>

theorem normalisation_forgets_the_rest:
  assumes "no_quotes x" and "backslash \<notin> set x" and "single_quote \<notin> set v" and "backslash \<notin> set v"
    and "single_quote \<notin> set w" and "backslash \<notin> set w" and "no_quotes s" and "no_quotes t"
  shows "normalized_text (x @ single_quote # v @ single_quote # s) = normalized_text (x @ single_quote # w @ single_quote # t)"
proof -
  have q: "is_quote single_quote" by (simp add: is_quote_def)
  obtain p sp out where p: "p \<noteq> Some backslash"
    "\<forall>q s. is_quote q \<longrightarrow> norm_loop None None False [] (x @ q # s) = norm_loop p None sp out (q # s)"
    using norm_loop_prefix [OF assms(1,2), of None False "[]"] by (auto simp del: norm_loop.simps)
  show ?thesis unfolding normalized_text_def
    using p(2) [rule_format, OF q] norm_loop_string [OF assms(3,4) q p(1) assms(7)] norm_loop_string [OF assms(5,6) q p(1) assms(8)]
    by simp
qed

theorem normalisation_forgets_the_rest_witness:
  "normalized_text ([CHR ''a'', CHR ''=''] @ single_quote # ''x'' @ single_quote # '' and b>2'') =
   normalized_text ([CHR ''a'', CHR ''=''] @ single_quote # ''y'' @ single_quote # [])"
  by (rule normalisation_forgets_the_rest) (auto simp: is_quote_def)

text \<open>The buffer is too small for some queries: a digit becomes two characters.\<close>

lemma normalize_overflow: "stmt_normalize_query ''1'' = None"
  by (simp add: stmt_normalize_query_def normalized_text_def trim_blanks_def is_quote_def is_digit_def starts_number_def
      norm_loop.simps(2) number_part_def)

end
