(* ===== verification/Sha256.thy ===== *)
theory Sha256
  imports CStrings
begin

text \<open>
  The password hashing of \<open>src/security.c\<close>: SHA-256, PBKDF2 over HMAC with it, and the hexadecimal
  texts in which salts and digests are stored. \<open>None\<close> is a write past the message buffer. The
  reference definitions follow FIPS 180-4, RFC 2104 and RFC 8018.
\<close>

section \<open>SHA-256\<close>

definition sha256_k :: "u32 list" where
  "sha256_k =
    [0x428a2f98, 0x71374491, 0xb5c0fbcf, 0xe9b5dba5, 0x3956c25b, 0x59f111f1, 0x923f82a4, 0xab1c5ed5,
     0xd807aa98, 0x12835b01, 0x243185be, 0x550c7dc3, 0x72be5d74, 0x80deb1fe, 0x9bdc06a7, 0xc19bf174,
     0xe49b69c1, 0xefbe4786, 0x0fc19dc6, 0x240ca1cc, 0x2de92c6f, 0x4a7484aa, 0x5cb0a9dc, 0x76f988da,
     0x983e5152, 0xa831c66d, 0xb00327c8, 0xbf597fc7, 0xc6e00bf3, 0xd5a79147, 0x06ca6351, 0x14292967,
     0x27b70a85, 0x2e1b2138, 0x4d2c6dfc, 0x53380d13, 0x650a7354, 0x766a0abb, 0x81c2c92e, 0x92722c85,
     0xa2bfe8a1, 0xa81a664b, 0xc24b8b70, 0xc76c51a3, 0xd192e819, 0xd6990624, 0xf40e3585, 0x106aa070,
     0x19a4c116, 0x1e376c08, 0x2748774c, 0x34b0bcb5, 0x391c0cb3, 0x4ed8aa4a, 0x5b9cca4f, 0x682e6ff3,
     0x748f82ee, 0x78a5636f, 0x84c87814, 0x8cc70208, 0x90befffa, 0xa4506ceb, 0xbef9a3f7, 0xc67178f2]"

definition ROTR :: "u32 \<Rightarrow> nat \<Rightarrow> u32" where
  "ROTR x n = drop_bit n x OR push_bit (32 - n) x"

definition CH :: "u32 \<Rightarrow> u32 \<Rightarrow> u32 \<Rightarrow> u32" where
  "CH x y z = (x AND y) XOR (NOT x AND z)"

definition MAJ :: "u32 \<Rightarrow> u32 \<Rightarrow> u32 \<Rightarrow> u32" where
  "MAJ x y z = (x AND y) XOR (x AND z) XOR (y AND z)"

definition EP0 :: "u32 \<Rightarrow> u32" where
  "EP0 x = ROTR x 2 XOR ROTR x 13 XOR ROTR x 22"

definition EP1 :: "u32 \<Rightarrow> u32" where
  "EP1 x = ROTR x 6 XOR ROTR x 11 XOR ROTR x 25"

definition SIG0 :: "u32 \<Rightarrow> u32" where
  "SIG0 x = ROTR x 7 XOR ROTR x 18 XOR drop_bit 3 x"

definition SIG1 :: "u32 \<Rightarrow> u32" where
  "SIG1 x = ROTR x 17 XOR ROTR x 19 XOR drop_bit 10 x"

definition be_word :: "byte \<Rightarrow> byte \<Rightarrow> byte \<Rightarrow> byte \<Rightarrow> u32" where
  "be_word b0 b1 b2 b3 = push_bit 24 (ucast b0) OR push_bit 16 (ucast b1) OR push_bit 8 (ucast b2) OR ucast b3"

definition block_word :: "bytes \<Rightarrow> nat \<Rightarrow> u32" where
  "block_word block i = be_word (block ! (4 * i)) (block ! (4 * i + 1)) (block ! (4 * i + 2)) (block ! (4 * i + 3))"

definition schedule_step :: "u32 list \<Rightarrow> nat \<Rightarrow> u32 list" where
  "schedule_step m i = m @ [SIG1 (m ! (i - 2)) + m ! (i - 7) + SIG0 (m ! (i - 15)) + m ! (i - 16)]"

definition schedule :: "bytes \<Rightarrow> u32 list" where
  "schedule block = foldl schedule_step (map (block_word block) [0..<16]) [16..<64]"

type_synonym sha_state = "u32 \<times> u32 \<times> u32 \<times> u32 \<times> u32 \<times> u32 \<times> u32 \<times> u32"

definition sha_round :: "u32 list \<Rightarrow> sha_state \<Rightarrow> nat \<Rightarrow> sha_state" where
  "sha_round m s i =
     (case s of (a, b, c, d, e, f, g, h) \<Rightarrow>
        let t1 = h + EP1 e + CH e f g + sha256_k ! i + m ! i;
            t2 = EP0 a + MAJ a b c
        in (t1 + t2, a, b, c, d + t1, e, f, g))"

definition add_state :: "sha_state \<Rightarrow> sha_state \<Rightarrow> sha_state" where
  "add_state s t =
     (case s of (a, b, c, d, e, f, g, h) \<Rightarrow> case t of (a', b', c', d', e', f', g', h') \<Rightarrow>
        (a + a', b + b', c + c', d + d', e + e', f + f', g + g', h + h'))"

definition sha256_transform :: "sha_state \<Rightarrow> bytes \<Rightarrow> sha_state" where
  "sha256_transform state block = add_state state (foldl (sha_round (schedule block)) state [0..<64])"

definition sha256_init :: sha_state where
  "sha256_init = (0x6a09e667, 0xbb67ae85, 0x3c6ef372, 0xa54ff53a, 0x510e527f, 0x9b05688c, 0x1f83d9ab, 0x5be0cd19)"

definition word_bytes :: "u32 \<Rightarrow> bytes" where
  "word_bytes w = map (\<lambda>k. ucast (drop_bit k w)) [24, 16, 8, 0]"

definition state_bytes :: "sha_state \<Rightarrow> bytes" where
  "state_bytes s =
     (case s of (a, b, c, d, e, f, g, h) \<Rightarrow> concat (map word_bytes [a, b, c, d, e, f, g, h]))"

text \<open>The full blocks; what remains has fewer than 64 bytes.\<close>

function full_blocks :: "sha_state \<Rightarrow> bytes \<Rightarrow> sha_state \<times> bytes" where
  "full_blocks state data =
     (if 64 \<le> length data then full_blocks (sha256_transform state (take 64 data)) (drop 64 data) else (state, data))"
  by pat_completeness auto
termination by (relation "measure (\<lambda>(state, data). length data)") auto

declare full_blocks.simps [simp del]

text \<open>The length in bits, a 64-bit integer, most significant byte first.\<close>

definition bit_length_bytes :: "nat \<Rightarrow> bytes" where
  "bit_length_bytes len = (let bits = word_of_nat (len * 8) :: u64 in map (\<lambda>i. ucast (drop_bit (i * 8) bits)) (rev [0..<8]))"

definition sha256 :: "bytes \<Rightarrow> bytes" where
  "sha256 data =
     (let (state, rest) = full_blocks sha256_init data;
          block = rest @ [0x80] @ replicate (63 - length rest) 0;
          (state, block) = (if 56 \<le> length rest then (sha256_transform state block, replicate 64 0) else (state, block))
      in state_bytes (sha256_transform state (take 56 block @ bit_length_bytes (length data))))"

section \<open>Key stretching\<close>

definition xor_bytes :: "bytes \<Rightarrow> bytes \<Rightarrow> bytes" where
  "xor_bytes xs ys = map2 (XOR) xs ys"

definition hmac_key :: "bytes \<Rightarrow> bytes" where
  "hmac_key password =
     (let key = (if 64 < length password then sha256 password else password)
      in key @ replicate (64 - length key) 0)"

definition ipad_of :: "bytes \<Rightarrow> bytes" where
  "ipad_of password = map (\<lambda>b. b XOR 0x36) (hmac_key password)"

definition opad_of :: "bytes \<Rightarrow> bytes" where
  "opad_of password = map (\<lambda>b. b XOR 0x5c) (hmac_key password)"

text \<open>The body of the inner loop; the first argument counts the iterations left.\<close>

fun stretch_loop :: "nat \<Rightarrow> bytes \<Rightarrow> bytes \<Rightarrow> bytes \<Rightarrow> bytes" where
  "stretch_loop 0 password u t = t"
| "stretch_loop (Suc n) password u t =
     (let inner = sha256 (ipad_of password @ u);
          u = sha256 (opad_of password @ inner)
      in stretch_loop n password u (xor_bytes t u))"

definition pbkdf2_block :: "bytes \<Rightarrow> bytes \<Rightarrow> nat \<Rightarrow> nat \<Rightarrow> bytes" where
  "pbkdf2_block password salt iterations block_num =
     (let inner = sha256 (ipad_of password @ salt @ word_bytes (word_of_nat block_num));
          u = sha256 (opad_of password @ inner)
      in stretch_loop (iterations - 1) password u u)"

text \<open>The buffer has \<open>password_len + salt_len + 4 + 64\<close> bytes and every block writes 96 of it.\<close>

definition pbkdf2_sha256 :: "bytes \<Rightarrow> bytes \<Rightarrow> nat \<Rightarrow> nat \<Rightarrow> bytes option" where
  "pbkdf2_sha256 password salt iterations output_len =
     (let blocks = (output_len + 31) div 32
      in if 0 < blocks \<and> length password + length salt + 4 + 64 < 96 then None
         else Some (concat (map (\<lambda>i. take (if i = blocks then output_len - (blocks - 1) * 32 else 32)
                                       (pbkdf2_block password salt iterations i)) [1..<blocks + 1])))"

section \<open>Hexadecimal texts\<close>

definition hex_char :: "byte \<Rightarrow> char" where
  "hex_char n = ''0123456789abcdef'' ! unat n"

definition bytes_to_hex :: "bytes \<Rightarrow> string" where
  "bytes_to_hex bs = concat (map (\<lambda>b. [hex_char (drop_bit 4 b AND 0x0F), hex_char (b AND 0x0F)]) bs)"

definition hex_val :: "char \<Rightarrow> byte" where
  "hex_val c = (if 97 \<le> char_int c then word_of_int (char_int c - 97 + 10) else word_of_int (char_int c - 48))"

text \<open>A character of a field behind its terminator is zero.\<close>

definition field_char :: "string \<Rightarrow> nat \<Rightarrow> char" where
  "field_char s i = (if i < length s then s ! i else CHR 0x00)"

definition hex_to_bytes :: "string \<Rightarrow> nat \<Rightarrow> bytes" where
  "hex_to_bytes hex len =
     map (\<lambda>i. push_bit 4 (hex_val (field_char hex (2 * i))) OR hex_val (field_char hex (2 * i + 1))) [0..<len]"

section \<open>Passwords\<close>

definition SECURITY_SALT_LENGTH :: nat where
  "SECURITY_SALT_LENGTH = 16"

text \<open>The random bytes are an argument, as is the number of iterations, 2 to the configured cost.\<close>

definition security_hash_password :: "nat \<Rightarrow> bytes \<Rightarrow> string \<Rightarrow> (string \<times> string) option" where
  "security_hash_password cost random password =
     (let salt = take SECURITY_SALT_LENGTH random
      in map_option (\<lambda>hash. (bytes_to_hex salt, bytes_to_hex hash))
           (pbkdf2_sha256 (bytes_of password) salt (2 ^ cost) 32))"

definition security_verify_password :: "nat \<Rightarrow> string \<Rightarrow> string \<Rightarrow> string \<Rightarrow> bool option" where
  "security_verify_password cost password salt_hex stored_hash =
     map_option (\<lambda>hash. \<forall>i \<in> set [0..<64]. field_char (bytes_to_hex hash) i = field_char stored_hash i)
       (pbkdf2_sha256 (bytes_of password) (hex_to_bytes salt_hex SECURITY_SALT_LENGTH) (2 ^ cost) 32)"

section \<open>The standards\<close>

text \<open>FIPS 180-4: the padded message, its blocks, the message schedule.\<close>

definition fips_pad :: "bytes \<Rightarrow> bytes" where
  "fips_pad bs = bs @ [0x80] @ replicate (nat ((55 - int (length bs)) mod 64)) 0 @ bit_length_bytes (length bs)"

function blocks_of :: "bytes \<Rightarrow> bytes list" where
  "blocks_of bs = (if length bs < 64 then [] else take 64 bs # blocks_of (drop 64 bs))"
  by pat_completeness auto
termination by (relation "measure length") auto

declare blocks_of.simps [simp del]

function fips_word :: "bytes \<Rightarrow> nat \<Rightarrow> u32" where
  "fips_word block t =
     (if t < 16 then block_word block t
      else SIG1 (fips_word block (t - 2)) + fips_word block (t - 7) + SIG0 (fips_word block (t - 15)) + fips_word block (t - 16))"
  by pat_completeness auto
termination by (relation "measure snd") auto

declare fips_word.simps [simp del]

definition fips_compress :: "sha_state \<Rightarrow> bytes \<Rightarrow> sha_state" where
  "fips_compress state block = add_state state (foldl (sha_round (map (fips_word block) [0..<64])) state [0..<64])"

definition fips_sha256 :: "bytes \<Rightarrow> bytes" where
  "fips_sha256 bs = state_bytes (foldl fips_compress sha256_init (blocks_of (fips_pad bs)))"

lemma schedule_fips: "schedule block = map (fips_word block) [0..<64]"
proof -
  have "foldl schedule_step (map (block_word block) [0..<16]) [16..<16 + n] = map (fips_word block) [0..<16 + n]" for n
  proof (induction n)
    case 0
    show ?case by (simp add: fips_word.simps)
  next
    case (Suc n)
    let ?m = "map (fips_word block) [0..<16 + n]"
    have "schedule_step ?m (16 + n) = ?m @ [fips_word block (16 + n)]"
      by (simp add: schedule_step_def fips_word.simps [of block "16 + n"])
    moreover have "[16..<16 + Suc n] = [16..<16 + n] @ [16 + n]" "[0..<16 + Suc n] = [0..<16 + n] @ [16 + n]"
      by (simp_all only: add_Suc_right upt_Suc_append le_add1 zero_le)
    ultimately show ?case using Suc by (simp only: foldl_append foldl_Cons foldl_Nil map_append list.map)
  qed
  from this [of 48] show ?thesis by (simp add: schedule_def)
qed

lemma transform_fips: "sha256_transform state block = fips_compress state block"
  by (simp add: sha256_transform_def fips_compress_def schedule_fips)

lemma full_blocks_spec:
  "full_blocks state data = (foldl fips_compress state (blocks_of data), drop (64 * (length data div 64)) data)"
proof (induction state data rule: full_blocks.induct)
  case (1 state data)
  show ?case
  proof (cases "64 \<le> length data")
    case True
    have "64 * (length data div 64) = 64 + 64 * ((length data - 64) div 64)"
      using True by (simp add: le_div_geq)
    then show ?thesis using 1 [OF True] True
      by (simp add: full_blocks.simps [of state data] blocks_of.simps [of data] transform_fips add.commute)
  qed (simp add: full_blocks.simps [of state data] blocks_of.simps [of data])
qed

lemma blocks_of_append: "64 dvd length xs \<Longrightarrow> blocks_of (xs @ ys) = blocks_of xs @ blocks_of ys"
proof (induction xs rule: blocks_of.induct)
  case (1 xs)
  show ?case
  proof (cases "length xs < 64")
    case True
    then have "xs = []" using 1(2) by (auto dest: dvd_imp_le)
    then show ?thesis by (simp add: blocks_of.simps [of "[]"])
  next
    case False
    then have "64 dvd length (drop 64 xs)" using 1(2) by (simp add: dvd_diff_nat)
    then show ?thesis using 1(1) [OF False] False
      by (simp add: blocks_of.simps [of "xs @ ys"] blocks_of.simps [of xs])
  qed
qed

lemma blocks_of_one: "length xs = 64 \<Longrightarrow> blocks_of xs = [xs]"
  by (simp add: blocks_of.simps [of xs] blocks_of.simps [of "[]"])

lemma blocks_of_rest: "blocks_of (xs @ ys) = blocks_of xs @ blocks_of (drop (64 * (length xs div 64)) xs @ ys)"
proof -
  let ?k = "64 * (length xs div 64)"
  have k: "?k \<le> length xs" by (rule times_div_less_eq_dividend)
  have "blocks_of (xs @ ys) = blocks_of (take ?k xs) @ blocks_of (drop ?k xs @ ys)"
    using k blocks_of_append [of "take ?k xs" "drop ?k xs @ ys"] by (simp flip: append_assoc)
  moreover have "blocks_of xs = blocks_of (take ?k xs) @ blocks_of (drop ?k xs)"
    using k blocks_of_append [of "take ?k xs" "drop ?k xs"] by simp
  moreover have "blocks_of (drop ?k xs) = []"
    by (simp add: blocks_of.simps minus_mult_div_eq_mod)
  ultimately show ?thesis by simp
qed

lemma length_bit_length: "length (bit_length_bytes n) = 8"
  by (simp add: bit_length_bytes_def Let_def)

lemma pad_count: "r < 64 \<Longrightarrow> nat ((55 - int r) mod 64) = (if 56 \<le> r then (63 - r) + 56 else 55 - r)"
  using mod_add_self2 [of "55 - int r" 64] by (auto simp: mod_pos_pos_trivial)

lemma sha256_fips: "sha256 data = fips_sha256 data"
proof -
  let ?r = "drop (64 * (length data div 64)) data"
  let ?z = "\<lambda>n. replicate n 0 :: bytes"
  have r: "length ?r = length data mod 64" by (simp add: minus_mult_div_eq_mod)
  have pad: "fips_pad data = data @ [0x80] @ ?z (nat ((55 - int (length ?r)) mod 64)) @ bit_length_bytes (length data)"
    unfolding r fips_pad_def by (simp add: zmod_int mod_diff_right_eq)
  have lt: "length ?r < 64" using r by simp
  have "blocks_of (fips_pad data) = blocks_of data @
      (if 56 \<le> length ?r then [?r @ [0x80] @ ?z (63 - length ?r), take 56 (?z 64) @ bit_length_bytes (length data)]
       else [take 56 (?r @ [0x80] @ ?z (63 - length ?r)) @ bit_length_bytes (length data)])"
  proof (cases "56 \<le> length ?r")
    case True
    have n: "nat ((55 - int (length ?r)) mod 64) = (63 - length ?r) + 56"
      using pad_count [OF lt] True by simp
    have "blocks_of (?r @ [0x80] @ ?z (nat ((55 - int (length ?r)) mod 64)) @ bit_length_bytes (length data)) =
        blocks_of ((?r @ [0x80] @ ?z (63 - length ?r)) @ (?z 56 @ bit_length_bytes (length data)))"
      unfolding n replicate_add by (simp only: append_assoc)
    also have "\<dots> = [?r @ [0x80] @ ?z (63 - length ?r)] @ [?z 56 @ bit_length_bytes (length data)]"
    proof -
      have l: "length (?r @ [0x80] @ ?z (63 - length ?r)) = 64" using lt by (simp del: length_drop)
      have m: "length (?z 56 @ bit_length_bytes (length data)) = 64" by (simp add: length_bit_length)
      show ?thesis
        by (subst blocks_of_append) (simp_all only: l blocks_of_one [OF l] blocks_of_one [OF m] dvd_refl)
    qed
    finally show ?thesis using True unfolding pad by (subst blocks_of_rest) (simp del: length_drop)
  next
    case False
    have n: "nat ((55 - int (length ?r)) mod 64) = 55 - length ?r"
      using pad_count [OF lt] False by simp
    have t: "take 56 (?r @ [0x80] @ ?z (63 - length ?r)) = ?r @ [0x80] @ ?z (55 - length ?r)"
      using False by (simp add: take_Cons' del: length_drop)
    have "blocks_of (?r @ [0x80] @ ?z (55 - length ?r) @ bit_length_bytes (length data)) =
        [?r @ [0x80] @ ?z (55 - length ?r) @ bit_length_bytes (length data)]"
      using False by (intro blocks_of_one) (simp add: length_bit_length del: length_drop)
    then show ?thesis using False unfolding pad n by (subst blocks_of_rest) (simp only: t if_False append_assoc)
  qed
  then show ?thesis
    by (auto simp: sha256_def fips_sha256_def full_blocks_spec Let_def transform_fips simp del: length_drop)
qed

text \<open>RFC 2104 and RFC 8018.\<close>

definition hmac_sha256 :: "bytes \<Rightarrow> bytes \<Rightarrow> bytes" where
  "hmac_sha256 key message =
     (let k = (if 64 < length key then fips_sha256 key else key); k = k @ replicate (64 - length k) 0
      in fips_sha256 (map (\<lambda>b. b XOR 0x5c) k @ fips_sha256 (map (\<lambda>b. b XOR 0x36) k @ message)))"

definition pbkdf2_spec_block :: "bytes \<Rightarrow> bytes \<Rightarrow> nat \<Rightarrow> nat \<Rightarrow> bytes" where
  "pbkdf2_spec_block password salt iterations i =
     (let u = hmac_sha256 password (salt @ word_bytes (word_of_nat i))
      in foldl xor_bytes u (map (\<lambda>n. (hmac_sha256 password ^^ n) u) [1..<iterations]))"

definition pbkdf2_spec :: "bytes \<Rightarrow> bytes \<Rightarrow> nat \<Rightarrow> nat \<Rightarrow> bytes" where
  "pbkdf2_spec password salt iterations len =
     take len (concat (map (pbkdf2_spec_block password salt iterations) [1..<(len + 31) div 32 + 1]))"

lemma hmac_code: "sha256 (opad_of password @ sha256 (ipad_of password @ message)) = hmac_sha256 password message"
  by (simp add: sha256_fips hmac_sha256_def opad_of_def ipad_of_def hmac_key_def Let_def)

lemma stretch_loop_spec:
  "stretch_loop n password u t = foldl xor_bytes t (map (\<lambda>k. (hmac_sha256 password ^^ k) u) [1..<n + 1])"
proof (induction n arbitrary: u t)
  case (Suc n)
  have "[1..<Suc n + 1] = 1 # map Suc [1..<n + 1]" by (simp add: map_Suc_upt upt_conv_Cons del: upt_Suc)
  then show ?case using Suc by (simp add: Let_def hmac_code o_def funpow_swap1 del: upt_Suc)
qed simp

lemma block_spec: "pbkdf2_block password salt iterations i = pbkdf2_spec_block password salt iterations i"
  by (cases iterations) (simp_all add: pbkdf2_block_def pbkdf2_spec_block_def Let_def hmac_code stretch_loop_spec del: upt_Suc)

lemma length_fips_sha256: "length (fips_sha256 bs) = 32"
  by (simp add: fips_sha256_def state_bytes_def word_bytes_def split: prod.split)

lemma length_hmac: "length (hmac_sha256 key m) = 32"
  by (simp add: hmac_sha256_def Let_def length_fips_sha256)

lemma length_spec_block: "length (pbkdf2_spec_block password salt iterations i) = 32"
proof -
  have "length u = 32 \<Longrightarrow> \<forall>v \<in> set vs. length v = 32 \<Longrightarrow> length (foldl xor_bytes u vs) = 32" for u vs
    by (induction vs arbitrary: u) (simp_all add: xor_bytes_def)
  moreover have "length ((hmac_sha256 password ^^ n) u) = 32" if "length u = 32" for n u
    using that by (cases n) (simp_all add: length_hmac)
  ultimately show ?thesis by (simp add: pbkdf2_spec_block_def Let_def length_hmac)
qed

lemma length_blocks: "(\<And>i. length (f i) = 32) \<Longrightarrow> length (concat (map f is)) = 32 * length is"
  by (induction "is") simp_all

lemma pbkdf2_sha256_spec:
  "pbkdf2_sha256 password salt iterations len =
     (if len = 0 \<or> 28 \<le> length password + length salt then Some (pbkdf2_spec password salt iterations len) else None)"
proof (cases "len = 0")
  case False
  let ?b = "(len + 31) div 32" and ?T = "pbkdf2_spec_block password salt iterations"
  have b: "0 < ?b" "(?b - 1) * 32 < len" "len \<le> ?b * 32" using False by auto
  have upt: "[1..<?b + 1] = [1..<?b] @ [?b]" using b(1) by simp
  have "concat (map (\<lambda>i. take (if i = ?b then len - (?b - 1) * 32 else 32) (?T i)) [1..<?b + 1]) =
      concat (map ?T [1..<?b]) @ take (len - (?b - 1) * 32) (?T ?b)"
  proof -
    have "map (\<lambda>i. take (if i = ?b then len - (?b - 1) * 32 else 32) (?T i)) [1..<?b] = map ?T [1..<?b]"
      by (rule map_cong [OF refl]) (simp add: length_spec_block)
    then show ?thesis unfolding upt map_append concat_append by (simp only:) simp
  qed
  also have "\<dots> = take len (concat (map ?T [1..<?b + 1]))"
    unfolding upt using b by (simp add: length_blocks length_spec_block mult.commute)
  finally show ?thesis using b(1) False by (simp add: pbkdf2_sha256_def Let_def block_spec pbkdf2_spec_def del: upt_Suc)
qed (simp add: pbkdf2_sha256_def pbkdf2_spec_def)

text \<open>C8: The digest of the code is SHA-256 and its key stretching PBKDF2 with HMAC-SHA-256 as the standards
  define them, unless the password and the salt together are shorter than 28 bytes; then the stretching
  writes past its buffer.\<close>

theorem pbkdf2_is_standard:
  "sha256 data = fips_sha256 data \<and>
   pbkdf2_sha256 password salt iterations len =
     (if len = 0 \<or> 28 \<le> length password + length salt then Some (pbkdf2_spec password salt iterations len) else None)"
  using sha256_fips pbkdf2_sha256_spec by blast

section \<open>Salts and digests as texts\<close>

lemma nibbles: "n < 16 \<Longrightarrow> hex_val (hex_char (word_of_nat n)) = word_of_nat n"
proof -
  have "\<forall>n \<in> set [0..<16]. hex_val (hex_char (word_of_nat n)) = word_of_nat n" by code_simp
  then show "n < 16 \<Longrightarrow> ?thesis" by simp
qed

lemma hex_nibble: "unat b < 16 \<Longrightarrow> hex_val (hex_char b) = b"
  using nibbles [of "unat b"] by simp

lemma length_bytes_to_hex: "length (bytes_to_hex bs) = 2 * length bs"
  by (induction bs) (simp_all add: bytes_to_hex_def)

lemma bytes_to_hex_nth:
  "i < length bs \<Longrightarrow> field_char (bytes_to_hex bs) (2 * i) = hex_char (drop_bit 4 (bs ! i) AND 0x0F) \<and>
     field_char (bytes_to_hex bs) (2 * i + 1) = hex_char (bs ! i AND 0x0F)"
proof (induction bs arbitrary: i)
  case (Cons b bs)
  have step: "field_char (bytes_to_hex (b # bs)) (Suc (Suc j)) = field_char (bytes_to_hex bs) j" for j
    by (simp add: bytes_to_hex_def field_char_def)
  show ?case
  proof (cases i)
    case (Suc k)
    then show ?thesis using Cons step [of "2 * k"] step [of "2 * k + 1"] by simp
  qed (simp add: bytes_to_hex_def field_char_def)
qed simp

lemma byte_from_nibbles: "push_bit 4 (drop_bit 4 b AND 0x0F) OR (b AND 0x0F) = (b :: byte)"
proof -
  have mask: "bit (0x0F :: byte) i \<longleftrightarrow> i < 4" for i
    using bit_mask_iff [where 'a = byte, of 4 i] by (auto simp: mask_eq_exp_minus_1)
  show ?thesis
    by (rule bit_word_eqI) (simp only: bit_or_iff bit_and_iff bit_push_bit_iff bit_drop_bit_eq mask, auto)
qed

lemma nibble_less: "unat ((b :: byte) AND 0x0F) < 16"
proof -
  have "b AND 0x0F \<le> 0x0F" by (rule word_and_le1)
  then show ?thesis by (simp add: word_le_nat_alt)
qed

lemma hex_roundtrip: "hex_to_bytes (bytes_to_hex bs) (length bs) = bs"
proof (rule nth_equalityI)
  fix i assume "i < length (hex_to_bytes (bytes_to_hex bs) (length bs))"
  then have i: "i < length bs" by (simp add: hex_to_bytes_def)
  have hi: "unat (drop_bit 4 (bs ! i) AND 0x0F) < 16" and lo: "unat (bs ! i AND 0x0F) < 16" by (rule nibble_less)+
  have "hex_to_bytes (bytes_to_hex bs) (length bs) ! i =
      push_bit 4 (hex_val (field_char (bytes_to_hex bs) (2 * i))) OR hex_val (field_char (bytes_to_hex bs) (2 * i + 1))"
    using i by (simp add: hex_to_bytes_def)
  also have "\<dots> = bs ! i"
    by (simp only: bytes_to_hex_nth [OF i] hex_nibble [OF hi] hex_nibble [OF lo] byte_from_nibbles)
  finally show "hex_to_bytes (bytes_to_hex bs) (length bs) ! i = bs ! i" .
qed (simp add: hex_to_bytes_def)

lemma bytes_to_hex_inject: "length xs = length ys \<Longrightarrow> bytes_to_hex xs = bytes_to_hex ys \<longleftrightarrow> xs = ys"
proof
  assume "length xs = length ys" and eq: "bytes_to_hex xs = bytes_to_hex ys"
  then have "hex_to_bytes (bytes_to_hex xs) (length xs) = hex_to_bytes (bytes_to_hex ys) (length ys)" by (simp only:)
  then show "xs = ys" by (simp only: hex_roundtrip)
qed (simp only:)

lemma field_char_eq:
  "length s = length t \<Longrightarrow> (\<forall>i \<in> set [0..<length t]. field_char s i = field_char t i) \<longleftrightarrow> s = t"
proof
  assume len: "length s = length t" and eq: "\<forall>i \<in> set [0..<length t]. field_char s i = field_char t i"
  show "s = t"
  proof (rule nth_equalityI [OF len])
    fix i assume "i < length s"
    then show "s ! i = t ! i" using eq [rule_format, of i] len by (simp add: field_char_def)
  qed
qed simp

lemma length_pbkdf2_spec: "length (pbkdf2_spec password salt iterations 32) = 32"
  by (simp add: pbkdf2_spec_def length_spec_block del: upt_Suc) (simp add: length_spec_block)

text \<open>C17: The stored salt and digest of a password let in exactly the passwords with the same PBKDF2
  digest under that salt; a password of fewer than 12 bytes makes the code write past its buffer.\<close>

theorem stored_password_accepts:
  assumes "length salt = 16" and "security_hash_password cost salt p = Some (salt_hex, hash_hex)"
  shows "security_verify_password cost q salt_hex hash_hex =
    (if length q < 12 then None
     else Some (pbkdf2_spec (bytes_of q) salt (2 ^ cost) 32 = pbkdf2_spec (bytes_of p) salt (2 ^ cost) 32))"
proof -
  have texts: "salt_hex = bytes_to_hex salt" "hash_hex = bytes_to_hex (pbkdf2_spec (bytes_of p) salt (2 ^ cost) 32)"
    using assms by (auto simp: security_hash_password_def SECURITY_SALT_LENGTH_def Let_def pbkdf2_sha256_spec split: if_splits)
  have salt: "hex_to_bytes salt_hex 16 = salt" using hex_roundtrip [of salt] assms(1) texts(1) by simp
  have eq: "(\<forall>i \<in> set [0..<64]. field_char (bytes_to_hex d) i = field_char (bytes_to_hex e) i) \<longleftrightarrow> d = e"
    if "length d = 32" "length e = 32" for d e
    using field_char_eq [of "bytes_to_hex d" "bytes_to_hex e"] that bytes_to_hex_inject [of d e]
    by (simp add: length_bytes_to_hex)
  show ?thesis
    using assms(1)
    by (simp only: security_verify_password_def SECURITY_SALT_LENGTH_def salt texts(2))
       (simp add: pbkdf2_sha256_spec eq [OF length_pbkdf2_spec length_pbkdf2_spec] del: set_upt)
qed

theorem stored_password_accepts_witness:
  "\<exists>s h. security_hash_password 12 (replicate 16 7) ''correct horse'' = Some (s, h) \<and>
     security_verify_password 12 ''correct horse'' s h = Some True \<and> security_verify_password 12 ''short'' s h = None"
proof -
  obtain s h where h: "security_hash_password 12 (replicate 16 7) ''correct horse'' = Some (s, h)"
    by (simp add: security_hash_password_def SECURITY_SALT_LENGTH_def Let_def pbkdf2_sha256_spec)
  show ?thesis
    by (intro exI [of _ s] exI [of _ h] conjI h; subst stored_password_accepts [OF _ h]; simp)
qed

end
