(* ===== verification/Security.thy ===== *)
theory Security
  imports Sha256
begin

text \<open>
  \<open>src/security.c\<close>: users with roles, permissions, the lockout after failed logins, sessions, and the
  table of the commands a permission is needed for. The users and roles are lists; the sessions are
  the array of the code with its counter, because the server keeps pointers into it. The clock and the
  random bytes are arguments; \<open>None\<close> is the buffer overrun of the password hashing. Error messages are
  the \<open>Inl\<close> values. The audit log is not modelled.
\<close>

section \<open>Permissions\<close>

abbreviation "PERM_NONE \<equiv> 0 :: u32"
abbreviation "PERM_CREATE_DB \<equiv> push_bit 0 1 :: u32"
abbreviation "PERM_DROP_DB \<equiv> push_bit 1 1 :: u32"
abbreviation "PERM_USE_DB \<equiv> push_bit 2 1 :: u32"
abbreviation "PERM_CREATE_TABLE \<equiv> push_bit 3 1 :: u32"
abbreviation "PERM_DROP_TABLE \<equiv> push_bit 4 1 :: u32"
abbreviation "PERM_ALTER_TABLE \<equiv> push_bit 5 1 :: u32"
abbreviation "PERM_SELECT \<equiv> push_bit 6 1 :: u32"
abbreviation "PERM_INSERT \<equiv> push_bit 7 1 :: u32"
abbreviation "PERM_UPDATE \<equiv> push_bit 8 1 :: u32"
abbreviation "PERM_DELETE \<equiv> push_bit 9 1 :: u32"
abbreviation "PERM_CREATE_USER \<equiv> push_bit 10 1 :: u32"
abbreviation "PERM_DROP_USER \<equiv> push_bit 11 1 :: u32"
abbreviation "PERM_GRANT \<equiv> push_bit 12 1 :: u32"
abbreviation "PERM_REVOKE \<equiv> push_bit 13 1 :: u32"
abbreviation "PERM_SHUTDOWN \<equiv> push_bit 14 1 :: u32"
abbreviation "PERM_RELOAD_CONFIG \<equiv> push_bit 15 1 :: u32"
abbreviation "PERM_VIEW_STATS \<equiv> push_bit 16 1 :: u32"
abbreviation "PERM_BACKUP \<equiv> push_bit 17 1 :: u32"
abbreviation "PERM_RESTORE \<equiv> push_bit 18 1 :: u32"
abbreviation "PERM_TRANSACTION \<equiv> push_bit 19 1 :: u32"
abbreviation "PERM_ALL \<equiv> 0xFFFFFFFF :: u32"

definition permission_names :: "(u32 \<times> string) list" where
  "permission_names =
    [(PERM_CREATE_DB, ''CREATE_DATABASE''), (PERM_DROP_DB, ''DROP_DATABASE''), (PERM_USE_DB, ''USE_DATABASE''),
     (PERM_CREATE_TABLE, ''CREATE_TABLE''), (PERM_DROP_TABLE, ''DROP_TABLE''), (PERM_ALTER_TABLE, ''ALTER_TABLE''),
     (PERM_SELECT, ''SELECT''), (PERM_INSERT, ''INSERT''), (PERM_UPDATE, ''UPDATE''), (PERM_DELETE, ''DELETE''),
     (PERM_CREATE_USER, ''CREATE_USER''), (PERM_DROP_USER, ''DROP_USER''), (PERM_GRANT, ''GRANT''),
     (PERM_REVOKE, ''REVOKE''), (PERM_SHUTDOWN, ''SHUTDOWN''), (PERM_RELOAD_CONFIG, ''RELOAD_CONFIG''),
     (PERM_VIEW_STATS, ''VIEW_STATS''), (PERM_BACKUP, ''BACKUP''), (PERM_RESTORE, ''RESTORE''),
     (PERM_TRANSACTION, ''TRANSACTION'')]"

definition security_permission_name :: "u32 \<Rightarrow> string" where
  "security_permission_name p = (case map_of permission_names p of Some n \<Rightarrow> n | None \<Rightarrow> ''UNKNOWN'')"

text \<open>\<open>strncat\<close> cuts at the end of the buffer; \<open>strncpy\<close> of \<open>ALL\<close> into fewer than four bytes does not
  terminate the text.\<close>

definition security_permissions_to_string :: "u32 \<Rightarrow> nat \<Rightarrow> string option" where
  "security_permissions_to_string perms len =
     (if len = 0 then None
      else if perms = PERM_ALL then (if len < 4 then None else Some ''ALL'')
      else
        let names = map security_permission_name (filter (\<lambda>p. perms AND p \<noteq> 0) (map fst permission_names))
        in Some (take (len - 1) (case names of [] \<Rightarrow> [] | n # ns \<Rightarrow> n @ concat (map (\<lambda>m. '', '' @ m) ns))))"

section \<open>State\<close>

datatype user_status = USER_STATUS_ACTIVE | USER_STATUS_LOCKED | USER_STATUS_DISABLED | USER_STATUS_PENDING

record sec_role =
  r_name :: string
  r_permissions :: u32
  r_system :: bool
  r_description :: string

record sec_user =
  u_id :: u32
  u_name :: string
  u_hash :: string
  u_salt :: string
  u_roles :: "string list"
  u_status :: user_status
  u_created :: int
  u_last_login :: int
  u_failed :: int
  u_lockout :: int
  u_super :: bool
  u_must_change :: bool

record sec_session =
  ss_token :: string
  ss_user_id :: u32
  ss_user :: string
  ss_permissions :: u32
  ss_created :: int
  ss_activity :: int
  ss_expires :: int
  ss_ip :: string
  ss_port :: int
  ss_db :: string
  ss_authenticated :: bool
  ss_super :: bool

record security =
  sc_users :: "sec_user list"
  sc_roles :: "sec_role list"
  sc_sessions :: "sec_session list"
  sc_count :: nat
  sc_cost :: nat
  sc_timeout :: int
  sc_max_failed :: int
  sc_lockout :: int
  sc_min_length :: int
  sc_upper :: bool
  sc_lower :: bool
  sc_digit :: bool
  sc_special :: bool
  sc_file :: "(sec_user list \<times> sec_role list) option"

abbreviation "SECURITY_MAX_USERS \<equiv> 256 :: nat"
abbreviation "SECURITY_MAX_ROLES \<equiv> 32 :: nat"
abbreviation "SECURITY_MAX_SESSIONS \<equiv> 1024 :: nat"

definition zero_session :: sec_session where
  "zero_session = \<lparr>ss_token = [], ss_user_id = 0, ss_user = [], ss_permissions = 0, ss_created = 0, ss_activity = 0,
     ss_expires = 0, ss_ip = [], ss_port = 0, ss_db = [], ss_authenticated = False, ss_super = False\<rparr>"

text \<open>The file holds the users and the roles; writing it succeeds.\<close>

definition security_save :: "security \<Rightarrow> security" where
  "security_save sc = sc\<lparr>sc_file := Some (sc_users sc, sc_roles sc)\<rparr>"

definition security_load :: "security \<Rightarrow> int \<times> security" where
  "security_load sc =
     (case sc_file sc of None \<Rightarrow> (-1, sc) | Some (us, rs) \<Rightarrow> (0, sc\<lparr>sc_users := us, sc_roles := rs\<rparr>))"

section \<open>Roles\<close>

definition security_find_role :: "security \<Rightarrow> string \<Rightarrow> sec_role option" where
  "security_find_role sc name = List.find (\<lambda>r. r_name r = name) (sc_roles sc)"

definition security_create_role :: "string \<Rightarrow> u32 \<Rightarrow> string \<Rightarrow> security \<Rightarrow> int \<times> security" where
  "security_create_role name perms description sc =
     (if SECURITY_MAX_ROLES \<le> length (sc_roles sc) \<or> security_find_role sc name \<noteq> None then (-1, sc)
      else (0, sc\<lparr>sc_roles := sc_roles sc @ [\<lparr>r_name = take 31 name, r_permissions = perms, r_system = False,
                                              r_description = take 127 description\<rparr>]\<rparr>))"

definition security_delete_role :: "string \<Rightarrow> security \<Rightarrow> int \<times> security" where
  "security_delete_role name sc =
     (case first_idx (\<lambda>r. r_name r = name) (sc_roles sc) of
        None \<Rightarrow> (-1, sc)
      | Some i \<Rightarrow>
          if r_system (sc_roles sc ! i) then (-1, sc)
          else (0, sc\<lparr>sc_roles := take i (sc_roles sc) @ drop (i + 1) (sc_roles sc)\<rparr>))"

definition predefined_roles :: "(string \<times> u32 \<times> string) list" where
  "predefined_roles =
    [(''superadmin'', PERM_ALL, ''Full system access''),
     (''admin'', PERM_ALL AND NOT (PERM_SHUTDOWN OR PERM_RESTORE), ''Database administration''),
     (''developer'', PERM_CREATE_DB OR PERM_USE_DB OR PERM_CREATE_TABLE OR PERM_DROP_TABLE OR PERM_ALTER_TABLE OR
        PERM_SELECT OR PERM_INSERT OR PERM_UPDATE OR PERM_DELETE OR PERM_TRANSACTION OR PERM_VIEW_STATS,
        ''Application development''),
     (''analyst'', PERM_USE_DB OR PERM_SELECT OR PERM_INSERT OR PERM_VIEW_STATS, ''Data analysis''),
     (''readonly'', PERM_USE_DB OR PERM_SELECT, ''Read-only access''),
     (''guest'', PERM_USE_DB, ''Guest access'')]"

text \<open>Each creation is followed by marking the role at its own index.\<close>

definition init_role :: "security \<Rightarrow> nat \<times> string \<times> u32 \<times> string \<Rightarrow> security" where
  "init_role sc spec =
     (case spec of (i, name, perms, description) \<Rightarrow>
        let (_, sc) = security_create_role name perms description sc
        in sc\<lparr>sc_roles := (sc_roles sc)[i := (sc_roles sc ! i)\<lparr>r_system := True\<rparr>]\<rparr>)"

definition security_init_roles :: "security \<Rightarrow> security" where
  "security_init_roles sc = foldl init_role sc (enumerate 0 predefined_roles)"

section \<open>Users\<close>

definition user_index :: "security \<Rightarrow> string \<Rightarrow> nat option" where
  "user_index sc name = first_idx (\<lambda>u. u_name u = name) (sc_users sc)"

definition security_find_user :: "security \<Rightarrow> string \<Rightarrow> sec_user option" where
  "security_find_user sc name = map_option (\<lambda>i. sc_users sc ! i) (user_index sc name)"

definition set_user :: "nat \<Rightarrow> sec_user \<Rightarrow> security \<Rightarrow> security" where
  "set_user i u sc = sc\<lparr>sc_users := (sc_users sc)[i := u]\<rparr>"

definition is_upper_char :: "char \<Rightarrow> bool" where
  "is_upper_char c \<longleftrightarrow> (let n = (of_char c :: nat) in 65 \<le> n \<and> n \<le> 90)"

definition is_lower_char :: "char \<Rightarrow> bool" where
  "is_lower_char c \<longleftrightarrow> (let n = (of_char c :: nat) in 97 \<le> n \<and> n \<le> 122)"

definition security_validate_password :: "security \<Rightarrow> string \<Rightarrow> string option" where
  "security_validate_password sc pw =
     (if int (length pw) < sc_min_length sc
      then Some (''Password must be at least '' @ show_int (sc_min_length sc) @ '' characters'')
      else if sc_upper sc \<and> \<not> list_ex is_upper_char pw then Some ''Password must contain uppercase letter''
      else if sc_lower sc \<and> \<not> list_ex is_lower_char pw then Some ''Password must contain lowercase letter''
      else if sc_digit sc \<and> \<not> list_ex is_digit pw then Some ''Password must contain a digit''
      else if sc_special sc \<and> \<not> list_ex (\<lambda>c. \<not> is_upper_char c \<and> \<not> is_lower_char c \<and> \<not> is_digit c) pw
      then Some ''Password must contain special character''
      else None)"

definition new_user :: "int \<Rightarrow> string \<Rightarrow> string \<Rightarrow> string \<Rightarrow> string \<Rightarrow> security \<Rightarrow> sec_user" where
  "new_user now salt_hex hash_hex name role sc =
     \<lparr>u_id = word_of_nat (length (sc_users sc) + 1), u_name = take 63 name, u_hash = hash_hex, u_salt = salt_hex,
      u_roles = [if security_find_role sc role \<noteq> None then take 31 role else ''guest''],
      u_status = USER_STATUS_ACTIVE, u_created = now, u_last_login = 0, u_failed = 0, u_lockout = 0,
      u_super = (role = ''superadmin''), u_must_change = False\<rparr>"

definition security_create_user ::
    "int \<Rightarrow> bytes \<Rightarrow> string \<Rightarrow> string \<Rightarrow> string \<Rightarrow> security \<Rightarrow> ((string + u32) \<times> security) option" where
  "security_create_user now salt name pw role sc =
     (if security_find_user sc name \<noteq> None then Some (Inl (''User '' @ [CHR 0x27] @ name @ [CHR 0x27] @ '' already exists''), sc)
      else case security_validate_password sc pw of
        Some e \<Rightarrow> Some (Inl e, sc)
      | None \<Rightarrow>
          if SECURITY_MAX_USERS \<le> length (sc_users sc) then Some (Inl ''Maximum users reached'', sc)
          else map_option (\<lambda>(salt_hex, hash_hex).
            let u = new_user now salt_hex hash_hex name role sc
            in (Inr (u_id u), security_save (sc\<lparr>sc_users := sc_users sc @ [u]\<rparr>)))
            (security_hash_password (sc_cost sc) salt pw))"

definition super_count :: "sec_user list \<Rightarrow> nat" where
  "super_count us = length (filter u_super us)"

definition security_delete_user :: "string \<Rightarrow> security \<Rightarrow> int \<times> security" where
  "security_delete_user name sc =
     (case user_index sc name of
        None \<Rightarrow> (-1, sc)
      | Some i \<Rightarrow>
          if u_super (sc_users sc ! i) \<and> super_count (sc_users sc) \<le> 1 then (-1, sc)
          else (0, security_save (sc\<lparr>sc_users := take i (sc_users sc) @ drop (i + 1) (sc_users sc)\<rparr>)))"

definition security_change_password :: "bytes \<Rightarrow> string \<Rightarrow> string \<Rightarrow> security \<Rightarrow> (int \<times> security) option" where
  "security_change_password salt name pw sc =
     (case user_index sc name of
        None \<Rightarrow> Some (-1, sc)
      | Some i \<Rightarrow>
          if security_validate_password sc pw \<noteq> None then Some (-1, sc)
          else map_option (\<lambda>(salt_hex, hash_hex).
            (0, security_save (set_user i ((sc_users sc ! i)\<lparr>u_salt := salt_hex, u_hash := hash_hex, u_must_change := False\<rparr>) sc)))
            (security_hash_password (sc_cost sc) salt pw))"

definition security_lock_user :: "int \<Rightarrow> string \<Rightarrow> security \<Rightarrow> int \<times> security" where
  "security_lock_user now name sc =
     (case user_index sc name of
        None \<Rightarrow> (-1, sc)
      | Some i \<Rightarrow> (0, set_user i ((sc_users sc ! i)\<lparr>u_status := USER_STATUS_LOCKED, u_lockout := now + sc_lockout sc\<rparr>) sc))"

definition security_unlock_user :: "string \<Rightarrow> security \<Rightarrow> int \<times> security" where
  "security_unlock_user name sc =
     (case user_index sc name of
        None \<Rightarrow> (-1, sc)
      | Some i \<Rightarrow> (0, set_user i ((sc_users sc ! i)\<lparr>u_status := USER_STATUS_ACTIVE, u_failed := 0, u_lockout := 0\<rparr>) sc))"

definition security_grant_role :: "string \<Rightarrow> string \<Rightarrow> security \<Rightarrow> int \<times> security" where
  "security_grant_role name role sc =
     (case user_index sc name of
        None \<Rightarrow> (-1, sc)
      | Some i \<Rightarrow>
          let u = sc_users sc ! i
          in if security_find_role sc role = None then (-1, sc)
             else if role \<in> set (u_roles u) then (0, sc)
             else if 8 \<le> length (u_roles u) then (-1, sc)
             else (0, set_user i (u\<lparr>u_roles := u_roles u @ [take 31 role]\<rparr>) sc))"

definition security_revoke_role :: "string \<Rightarrow> string \<Rightarrow> security \<Rightarrow> int \<times> security" where
  "security_revoke_role name role sc =
     (case user_index sc name of
        None \<Rightarrow> (-1, sc)
      | Some i \<Rightarrow>
          let u = sc_users sc ! i
          in if role \<in> set (u_roles u) then (0, set_user i (u\<lparr>u_roles := remove1 role (u_roles u)\<rparr>) sc) else (-1, sc))"

definition role_permissions :: "security \<Rightarrow> string \<Rightarrow> u32" where
  "role_permissions sc role = (case security_find_role sc role of None \<Rightarrow> PERM_NONE | Some r \<Rightarrow> r_permissions r)"

definition security_get_user_permissions :: "security \<Rightarrow> string \<Rightarrow> u32" where
  "security_get_user_permissions sc name =
     (case security_find_user sc name of
        None \<Rightarrow> PERM_NONE
      | Some u \<Rightarrow>
          if u_super u then PERM_ALL
          else foldl (\<lambda>perms role. perms OR role_permissions sc role) PERM_NONE (u_roles u))"

definition security_user_has_permission :: "security \<Rightarrow> string \<Rightarrow> u32 \<Rightarrow> bool" where
  "security_user_has_permission sc name perm \<longleftrightarrow> security_get_user_permissions sc name AND perm = perm"

section \<open>Sessions\<close>

definition live_sessions :: "security \<Rightarrow> sec_session list" where
  "live_sessions sc = take (sc_count sc) (sc_sessions sc)"

text \<open>\<open>memmove\<close> of what follows the index; the last element stays where it was.\<close>

definition close_gap :: "nat \<Rightarrow> nat \<Rightarrow> 'a list \<Rightarrow> 'a list" where
  "close_gap i n xs = take i xs @ take (n - i - 1) (drop (i + 1) xs) @ drop (n - 1) xs"

definition remove_session :: "nat \<Rightarrow> security \<Rightarrow> security" where
  "remove_session i sc =
     sc\<lparr>sc_sessions := close_gap i (sc_count sc) (sc_sessions sc), sc_count := sc_count sc - 1\<rparr>"

definition session_index :: "security \<Rightarrow> string \<Rightarrow> nat option" where
  "session_index sc token = first_idx (\<lambda>ss. ss_token ss = token) (live_sessions sc)"

definition security_find_session :: "security \<Rightarrow> string \<Rightarrow> sec_session option" where
  "security_find_session sc token = map_option (\<lambda>i. sc_sessions sc ! i) (session_index sc token)"

definition security_logout :: "string \<Rightarrow> security \<Rightarrow> security" where
  "security_logout token sc =
     (case session_index sc token of None \<Rightarrow> sc | Some i \<Rightarrow> remove_session i sc)"

fun cleanup_loop :: "int \<Rightarrow> nat \<Rightarrow> security \<Rightarrow> nat \<times> security" where
  "cleanup_loop now 0 sc = (0, sc)"
| "cleanup_loop now (Suc i) sc =
     (if ss_expires (sc_sessions sc ! i) < now
      then (let (n, sc) = cleanup_loop now i (remove_session i sc) in (n + 1, sc))
      else cleanup_loop now i sc)"

definition security_cleanup_sessions :: "int \<Rightarrow> security \<Rightarrow> nat \<times> security" where
  "security_cleanup_sessions now sc = cleanup_loop now (sc_count sc) sc"

definition security_validate_session :: "int \<Rightarrow> string \<Rightarrow> security \<Rightarrow> bool \<times> security" where
  "security_validate_session now token sc =
     (case security_find_session sc token of
        None \<Rightarrow> (False, sc)
      | Some ss \<Rightarrow>
          if \<not> ss_authenticated ss then (False, sc)
          else if ss_expires ss < now then (False, security_logout token sc)
          else (True, sc))"

definition set_session :: "nat \<Rightarrow> sec_session \<Rightarrow> security \<Rightarrow> security" where
  "set_session i ss sc = sc\<lparr>sc_sessions := (sc_sessions sc)[i := ss]\<rparr>"

definition security_touch_session :: "int \<Rightarrow> string \<Rightarrow> security \<Rightarrow> security" where
  "security_touch_session now token sc =
     (case session_index sc token of
        None \<Rightarrow> sc
      | Some i \<Rightarrow> set_session i ((sc_sessions sc ! i)\<lparr>ss_activity := now, ss_expires := now + sc_timeout sc\<rparr>) sc)"

definition security_session_has_permission :: "sec_session \<Rightarrow> u32 \<Rightarrow> bool" where
  "security_session_has_permission ss perm \<longleftrightarrow>
     ss_authenticated ss \<and> (ss_super ss \<or> ss_permissions ss AND perm = perm)"

definition security_generate_token :: "bytes \<Rightarrow> string" where
  "security_generate_token random = bytes_to_hex (take 32 random)"

section \<open>Login\<close>

text \<open>A lockout that has run out is lifted before the password is looked at.\<close>

definition lift_lockout :: "sec_user \<Rightarrow> sec_user" where
  "lift_lockout u = u\<lparr>u_status := USER_STATUS_ACTIVE, u_failed := 0\<rparr>"

definition failed_login :: "int \<Rightarrow> nat \<Rightarrow> string \<Rightarrow> security \<Rightarrow> string \<times> security" where
  "failed_login now i name sc =
     (let u = sc_users sc ! i; u = u\<lparr>u_failed := u_failed u + 1\<rparr>; sc = set_user i u sc
      in if sc_max_failed sc \<le> u_failed u
         then (''Account locked due to failed attempts'', snd (security_lock_user now name sc))
         else (''Invalid password. '' @ show_int (sc_max_failed sc - u_failed u) @ '' attempts remaining'', sc))"

definition open_session ::
    "int \<Rightarrow> bytes \<Rightarrow> nat \<Rightarrow> string \<Rightarrow> string \<Rightarrow> int \<Rightarrow> security \<Rightarrow> nat \<times> security" where
  "open_session now random i name ip port sc =
     (let u = sc_users sc ! i; k = sc_count sc;
          ss = \<lparr>ss_token = security_generate_token random, ss_user_id = u_id u, ss_user = take 63 name,
                ss_permissions = security_get_user_permissions sc name, ss_created = now, ss_activity = now,
                ss_expires = now + sc_timeout sc, ss_ip = take 63 ip, ss_port = port, ss_db = ''public'',
                ss_authenticated = True, ss_super = u_super u\<rparr>
      in (k, set_user i (u\<lparr>u_failed := 0, u_last_login := now\<rparr>) (set_session k ss (sc\<lparr>sc_count := k + 1\<rparr>))))"

definition room_for_session :: "int \<Rightarrow> security \<Rightarrow> security" where
  "room_for_session now sc =
     (if SECURITY_MAX_SESSIONS \<le> sc_count sc then snd (security_cleanup_sessions now sc) else sc)"

definition check_password ::
    "int \<Rightarrow> bytes \<Rightarrow> nat \<Rightarrow> string \<Rightarrow> string \<Rightarrow> string \<Rightarrow> int \<Rightarrow> security \<Rightarrow> ((string + nat) \<times> security) option" where
  "check_password now random i name pw ip port sc =
     (let u = sc_users sc ! i
      in if u_status u \<noteq> USER_STATUS_ACTIVE then Some (Inl ''Account is disabled'', sc)
         else map_option (\<lambda>ok.
           if \<not> ok then (let (e, sc) = failed_login now i name sc in (Inl e, sc))
           else
             let sc = room_for_session now sc
             in if SECURITY_MAX_SESSIONS \<le> sc_count sc then (Inl ''Maximum sessions reached'', sc)
                else (let (k, sc) = open_session now random i name ip port sc in (Inr k, sc)))
           (security_verify_password (sc_cost sc) pw (u_salt u) (u_hash u)))"

definition security_login ::
    "int \<Rightarrow> bytes \<Rightarrow> string \<Rightarrow> string \<Rightarrow> string \<Rightarrow> int \<Rightarrow> security \<Rightarrow> ((string + nat) \<times> security) option" where
  "security_login now random name pw ip port sc =
     (case user_index sc name of
        None \<Rightarrow> Some (Inl ''Invalid username or password'', sc)
      | Some i \<Rightarrow>
          let u = sc_users sc ! i
          in if u_status u = USER_STATUS_LOCKED \<and> now < u_lockout u
             then Some (Inl (''Account locked. Try again in '' @ show_int (u_lockout u - now) @ '' seconds''), sc)
             else check_password now random i name pw ip port
                    (if u_status u = USER_STATUS_LOCKED then set_user i (lift_lockout u) sc else sc))"

section \<open>Commands\<close>

text \<open>The permission a command needs; the commands not named need none.\<close>

definition command_permissions :: "(string \<times> u32) list" where
  "command_permissions =
    [(''SELECT'', PERM_SELECT), (''DIKHAO'', PERM_SELECT), (''INSERT'', PERM_INSERT), (''DALO'', PERM_INSERT),
     (''UPDATE'', PERM_UPDATE), (''BADLO'', PERM_UPDATE), (''DELETE'', PERM_DELETE), (''HATAO'', PERM_DELETE),
     (''CREATE TABLE'', PERM_CREATE_TABLE), (''BANAO'', PERM_CREATE_TABLE), (''TABLE'', PERM_CREATE_TABLE),
     (''CREATE'', PERM_CREATE_TABLE), (''DROP TABLE'', PERM_DROP_TABLE), (''GIRAO'', PERM_DROP_TABLE),
     (''CREATE DATABASE'', PERM_CREATE_DB), (''DROP DATABASE'', PERM_DROP_DB), (''BEGIN'', PERM_TRANSACTION),
     (''COMMIT'', PERM_TRANSACTION), (''ROLLBACK'', PERM_TRANSACTION), (''GRANT'', PERM_GRANT),
     (''REVOKE'', PERM_REVOKE), (''SHOW'', PERM_SELECT), (''DEKHO'', PERM_SELECT)]"

definition security_authorize_command :: "sec_session \<Rightarrow> string \<Rightarrow> bool" where
  "security_authorize_command ss cmd \<longleftrightarrow>
     ss_super ss \<or>
     security_session_has_permission ss (case map_of command_permissions cmd of Some p \<Rightarrow> p | None \<Rightarrow> PERM_NONE)"

section \<open>Start\<close>

text \<open>The configuration, the predefined roles, then the file of the last run or the default user.\<close>

definition security_init ::
    "int \<Rightarrow> bytes \<Rightarrow> (sec_user list \<times> sec_role list) option \<Rightarrow> security option" where
  "security_init now salt file =
     (let sc = security_init_roles \<lparr>sc_users = [], sc_roles = [], sc_sessions = replicate SECURITY_MAX_SESSIONS zero_session,
            sc_count = 0, sc_cost = 12, sc_timeout = 3600, sc_max_failed = 5, sc_lockout = 300, sc_min_length = 8,
            sc_upper = True, sc_lower = True, sc_digit = True, sc_special = False, sc_file = file\<rparr>;
          (rc, sc) = security_load sc
      in if rc = 0 then Some sc
         else map_option (\<lambda>(r, sc).
           case r of
             Inl e \<Rightarrow> sc
           | Inr uid \<Rightarrow> let i = unat uid - 1 in set_user i ((sc_users sc ! i)\<lparr>u_super := True\<rparr>) sc)
           (security_create_user now salt ''admin'' ''Admin@123'' ''superadmin'' sc))"

section \<open>Encryption\<close>

definition aes_sbox :: "byte list" where
  "aes_sbox =
    [0x63, 0x7c, 0x77, 0x7b, 0xf2, 0x6b, 0x6f, 0xc5, 0x30, 0x01, 0x67, 0x2b, 0xfe, 0xd7, 0xab, 0x76,
     0xca, 0x82, 0xc9, 0x7d, 0xfa, 0x59, 0x47, 0xf0, 0xad, 0xd4, 0xa2, 0xaf, 0x9c, 0xa4, 0x72, 0xc0,
     0xb7, 0xfd, 0x93, 0x26, 0x36, 0x3f, 0xf7, 0xcc, 0x34, 0xa5, 0xe5, 0xf1, 0x71, 0xd8, 0x31, 0x15,
     0x04, 0xc7, 0x23, 0xc3, 0x18, 0x96, 0x05, 0x9a, 0x07, 0x12, 0x80, 0xe2, 0xeb, 0x27, 0xb2, 0x75,
     0x09, 0x83, 0x2c, 0x1a, 0x1b, 0x6e, 0x5a, 0xa0, 0x52, 0x3b, 0xd6, 0xb3, 0x29, 0xe3, 0x2f, 0x84,
     0x53, 0xd1, 0x00, 0xed, 0x20, 0xfc, 0xb1, 0x5b, 0x6a, 0xcb, 0xbe, 0x39, 0x4a, 0x4c, 0x58, 0xcf,
     0xd0, 0xef, 0xaa, 0xfb, 0x43, 0x4d, 0x33, 0x85, 0x45, 0xf9, 0x02, 0x7f, 0x50, 0x3c, 0x9f, 0xa8,
     0x51, 0xa3, 0x40, 0x8f, 0x92, 0x9d, 0x38, 0xf5, 0xbc, 0xb6, 0xda, 0x21, 0x10, 0xff, 0xf3, 0xd2,
     0xcd, 0x0c, 0x13, 0xec, 0x5f, 0x97, 0x44, 0x17, 0xc4, 0xa7, 0x7e, 0x3d, 0x64, 0x5d, 0x19, 0x73,
     0x60, 0x81, 0x4f, 0xdc, 0x22, 0x2a, 0x90, 0x88, 0x46, 0xee, 0xb8, 0x14, 0xde, 0x5e, 0x0b, 0xdb,
     0xe0, 0x32, 0x3a, 0x0a, 0x49, 0x06, 0x24, 0x5c, 0xc2, 0xd3, 0xac, 0x62, 0x91, 0x95, 0xe4, 0x79,
     0xe7, 0xc8, 0x37, 0x6d, 0x8d, 0xd5, 0x4e, 0xa9, 0x6c, 0x56, 0xf4, 0xea, 0x65, 0x7a, 0xae, 0x08,
     0xba, 0x78, 0x25, 0x2e, 0x1c, 0xa6, 0xb4, 0xc6, 0xe8, 0xdd, 0x74, 0x1f, 0x4b, 0xbd, 0x8b, 0x8a,
     0x70, 0x3e, 0xb5, 0x66, 0x48, 0x03, 0xf6, 0x0e, 0x61, 0x35, 0x57, 0xb9, 0x86, 0xc1, 0x1d, 0x9e,
     0xe1, 0xf8, 0x98, 0x11, 0x69, 0xd9, 0x8e, 0x94, 0x9b, 0x1e, 0x87, 0xe9, 0xce, 0x55, 0x28, 0xdf,
     0x8c, 0xa1, 0x89, 0x0d, 0xbf, 0xe6, 0x42, 0x68, 0x41, 0x99, 0x2d, 0x0f, 0xb0, 0x54, 0xbb, 0x16]"

definition aes_block :: "bytes \<Rightarrow> bytes \<Rightarrow> bytes \<Rightarrow> bytes" where
  "aes_block key chain block =
     map (\<lambda>j. aes_sbox ! unat ((block ! j XOR chain ! j) XOR key ! (j mod 32))) [0..<16]"

fun aes_blocks :: "bytes \<Rightarrow> bytes \<Rightarrow> nat \<Rightarrow> bytes \<Rightarrow> bytes" where
  "aes_blocks key chain 0 padded = []"
| "aes_blocks key chain (Suc n) padded =
     (let c = aes_block key chain (take 16 padded) in c @ aes_blocks key c n (drop 16 padded))"

text \<open>The length that is returned is the length of the result.\<close>

definition security_aes_encrypt :: "bytes \<Rightarrow> bytes \<Rightarrow> bytes \<Rightarrow> bytes" where
  "security_aes_encrypt plaintext key iv =
     (let n = (length plaintext + 15) div 16
      in aes_blocks key iv n (plaintext @ replicate (16 * n - length plaintext) 0))"

definition security_aes_decrypt :: "bytes \<Rightarrow> bytes \<Rightarrow> bytes \<Rightarrow> int" where
  "security_aes_decrypt ciphertext key iv = -1"

text \<open>Only the first 16 of the 32 bytes of the key are used.\<close>

lemma aes_key_half: "take 16 key = take 16 key' \<Longrightarrow> security_aes_encrypt p key iv = security_aes_encrypt p key' iv"
proof -
  assume key: "take 16 key = take 16 key'"
  have "key ! j = key' ! j" if "j < 16" for j
    using arg_cong [OF key, of "\<lambda>k. k ! j"] that by simp
  then have block: "aes_block key chain block = aes_block key' chain block" for chain block
    by (simp add: aes_block_def)
  have "aes_blocks key chain n padded = aes_blocks key' chain n padded" for chain n padded
    by (induction n arbitrary: chain padded) (simp_all add: block Let_def)
  then show ?thesis by (simp add: security_aes_encrypt_def)
qed

end
