(* ===== verification/Server.thy ===== *)
theory Server
  imports Security Prepared Statements
begin

text \<open>
  The server, \<open>src/server.c\<close>: the trackers of client addresses, the connection of a client, login and
  logout, the commands and the way a query takes to the executor. A connection keeps the index into the
  session array that the pointer \<open>conn->session\<close> is. What is sent is a list of \<open>reply\<close> values in place of
  the formatted texts. The model is of a node that is not a master, where queries are executed locally.
  \<open>None\<close> is undefined behaviour, the end of the process or a call that does not return. The quota of
  the session memory is never drawn on by the code and not modelled.
\<close>

section \<open>Addresses\<close>

record ip_tracker =
  it_ip :: string
  it_failed :: int
  it_lockout :: int
  it_queries :: int
  it_minute :: int
  it_activity :: int

abbreviation "MAX_CLIENTS \<equiv> 256 :: nat"
abbreviation "MAX_LOGIN_ATTEMPTS \<equiv> 5 :: int"
abbreviation "LOGIN_LOCKOUT_SECONDS \<equiv> 300 :: int"
abbreviation "MAX_QUERIES_PER_MINUTE \<equiv> 1000 :: int"

definition find_or_create_ip_tracker :: "int \<Rightarrow> string \<Rightarrow> ip_tracker list \<Rightarrow> nat option \<times> ip_tracker list" where
  "find_or_create_ip_tracker now ip ts =
     (case first_idx (\<lambda>t. it_ip t = ip) ts of
        Some i \<Rightarrow> (Some i, ts)
      | None \<Rightarrow>
          if length ts < MAX_CLIENTS
          then (Some (length ts),
                ts @ [\<lparr>it_ip = take 63 ip, it_failed = 0, it_lockout = 0, it_queries = 0, it_minute = now, it_activity = now\<rparr>])
          else (None, ts))"

definition is_ip_blacklisted :: "string list \<Rightarrow> string \<Rightarrow> bool" where
  "is_ip_blacklisted blacklist ip \<longleftrightarrow> list_ex (\<lambda>b. b = ip) blacklist"

definition is_ip_locked_out :: "int \<Rightarrow> ip_tracker \<Rightarrow> bool \<times> ip_tracker" where
  "is_ip_locked_out now t =
     (if 0 < it_lockout t \<and> now < it_lockout t then (True, t)
      else if 0 < it_lockout t \<and> it_lockout t \<le> now then (False, t\<lparr>it_failed := 0, it_lockout := 0\<rparr>)
      else (False, t))"

definition check_rate_limit :: "int \<Rightarrow> ip_tracker \<Rightarrow> bool \<times> ip_tracker" where
  "check_rate_limit now t =
     (let t = (if 60 \<le> now - it_minute t then t\<lparr>it_queries := 0, it_minute := now\<rparr> else t);
          t = t\<lparr>it_queries := it_queries t + 1, it_activity := now\<rparr>
      in (it_queries t \<le> MAX_QUERIES_PER_MINUTE, t))"

definition record_failed_login :: "int \<Rightarrow> ip_tracker \<Rightarrow> ip_tracker" where
  "record_failed_login now t =
     (let t = t\<lparr>it_failed := it_failed t + 1\<rparr>
      in if MAX_LOGIN_ATTEMPTS \<le> it_failed t then t\<lparr>it_lockout := now + LOGIN_LOCKOUT_SECONDS\<rparr> else t)"

definition record_successful_login :: "ip_tracker \<Rightarrow> ip_tracker" where
  "record_successful_login t = t\<lparr>it_failed := 0, it_lockout := 0\<rparr>"

section \<open>State\<close>

datatype reply =
    R_auth_required
  | R_permission_denied
  | R_denied string
  | R_parse_error
  | R_result string
  | R_prepared string nat
  | R_prepare_failed
  | R_prepare_syntax
  | R_executing string
  | R_execute_failed string
  | R_deallocated_all int
  | R_deallocated string
  | R_not_found string
  | R_explain string
  | R_explain_failed
  | R_explain_syntax
  | R_locked_out int
  | R_logged_in string bool string string
  | R_login_failed string "int option"
  | R_logged_out
  | R_help
  | R_not_authenticated
  | R_whoami string bool string string int
  | R_status
  | R_cluster_status
  | R_cluster_nodes
  | R_users string
  | R_user_syntax
  | R_user_created string string
  | R_user_failed string
  | R_rate_limit
  | R_goodbye

record connection =
  cn_ip :: string
  cn_port :: int
  cn_session :: "nat option"
  cn_token :: string
  cn_auth :: bool
  cn_ctx :: session_ctx
  cn_queries :: nat
  cn_stmts :: stmt_store
  cn_tracker :: "nat option"

record server =
  sv_security :: security
  sv_trackers :: "ip_tracker list"
  sv_db :: db_state
  sv_stmt_id :: u32

text \<open>What comes from outside the server: the executor's environment, the statements and the explanations
  of components that are not modelled, random bytes, the stack content read as parameters.\<close>

record server_env =
  se_exec :: exec_env
  se_other :: "ast_node \<Rightarrow> db_state \<Rightarrow> db_state option"
  se_explain :: "ast_node \<Rightarrow> bool \<Rightarrow> string option"
  se_random :: bytes
  se_params :: "parameter list"

abbreviation now_of :: "server_env \<Rightarrow> int" where
  "now_of env \<equiv> ee_now (se_exec env)"

type_synonym turn = "server \<times> connection \<times> reply list"

text \<open>The session a connection points to.\<close>

definition session_of :: "server \<Rightarrow> connection \<Rightarrow> sec_session option" where
  "session_of sv c = map_option (\<lambda>k. sc_sessions (sv_security sv) ! k) (cn_session c)"

definition may :: "server \<Rightarrow> connection \<Rightarrow> u32 \<Rightarrow> bool" where
  "may sv c perm \<longleftrightarrow> (case session_of sv c of None \<Rightarrow> False | Some ss \<Rightarrow> security_session_has_permission ss perm)"

definition with_tracker :: "(ip_tracker \<Rightarrow> ip_tracker) \<Rightarrow> connection \<Rightarrow> server \<Rightarrow> server" where
  "with_tracker f c sv =
     (case cn_tracker c of None \<Rightarrow> sv | Some i \<Rightarrow> sv\<lparr>sv_trackers := (sv_trackers sv)[i := f (sv_trackers sv ! i)]\<rparr>)"

definition accept_client :: "int \<Rightarrow> string \<Rightarrow> int \<Rightarrow> server \<Rightarrow> connection \<times> server" where
  "accept_client now ip port sv =
     (let (t, ts) = find_or_create_ip_tracker now ip (sv_trackers sv)
      in (\<lparr>cn_ip = ip, cn_port = port, cn_session = None, cn_token = [], cn_auth = False,
           cn_ctx = \<lparr>current_db = ''public'', current_user = ''guest''\<rparr>, cn_queries = 0, cn_stmts = stmt_store_create,
           cn_tracker = t\<rparr>,
          sv\<lparr>sv_trackers := ts\<rparr>))"

section \<open>Login and logout\<close>

definition handle_login :: "server_env \<Rightarrow> string \<Rightarrow> string \<Rightarrow> server \<Rightarrow> connection \<Rightarrow> turn option" where
  "handle_login env name pw sv c =
     (let now = now_of env;
          locked = (case cn_tracker c of None \<Rightarrow> False | Some i \<Rightarrow> fst (is_ip_locked_out now (sv_trackers sv ! i)));
          sv = with_tracker (\<lambda>t. snd (is_ip_locked_out now t)) c sv
      in if locked
         then Some (sv, c, [R_locked_out (it_lockout (sv_trackers sv ! the (cn_tracker c)) - now)])
         else map_option (\<lambda>(r, sc).
           let sv = sv\<lparr>sv_security := sc\<rparr>
           in case r of
                Inr k \<Rightarrow>
                  let ss = sc_sessions sc ! k;
                      c = c\<lparr>cn_session := Some k, cn_token := take 64 (ss_token ss), cn_auth := True,
                            cn_ctx := (cn_ctx c)\<lparr>current_user := take 63 (ss_user ss)\<rparr>\<rparr>
                  in (with_tracker record_successful_login c sv, c,
                      [R_logged_in name (ss_super ss) (current_db (cn_ctx c)) (take 8 (cn_token c))])
              | Inl e \<Rightarrow>
                  let sv = with_tracker (record_failed_login now) c sv
                  in (sv, c, [R_login_failed e (map_option (\<lambda>i. it_failed (sv_trackers sv ! i)) (cn_tracker c))]))
           (security_login now (se_random env) name pw (cn_ip c) (cn_port c) (sv_security sv)))"

definition handle_logout :: "server \<Rightarrow> connection \<Rightarrow> turn" where
  "handle_logout sv c =
     (if cn_auth c \<and> cn_session c \<noteq> None
      then (sv\<lparr>sv_security := security_logout (cn_token c) (sv_security sv)\<rparr>,
            c\<lparr>cn_session := None, cn_auth := False, cn_token := [], cn_ctx := (cn_ctx c)\<lparr>current_user := ''guest''\<rparr>\<rparr>,
            [R_logged_out])
      else (sv, c, []))"

text \<open>The end of a connection; its flag is the only one looked at.\<close>

definition disconnect :: "server \<Rightarrow> connection \<Rightarrow> server" where
  "disconnect sv c = (if cn_auth c then sv\<lparr>sv_security := security_logout (cn_token c) (sv_security sv)\<rparr> else sv)"

section \<open>Commands\<close>

definition handle_whoami :: "server \<Rightarrow> connection \<Rightarrow> reply list option" where
  "handle_whoami sv c =
     (if \<not> cn_auth c then Some [R_not_authenticated]
      else map_option (\<lambda>ss. [R_whoami (ss_user ss) (ss_super ss) (current_db (cn_ctx c)) (cn_ip c) (cn_port c)]) (session_of sv c))"

text \<open>The list of the users goes to a buffer of 4096 bytes; a line that begins behind its end is written
  out of bounds.\<close>

definition pad_to :: "nat \<Rightarrow> string \<Rightarrow> string" where
  "pad_to n s = s @ replicate (n - length s) CHR '' ''"

definition users_header :: string where
  "users_header =
     [newline] @ [CHR 0x1B] @ ''[1;36m========== Users =========='' @ [CHR 0x1B] @ ''[0m'' @ [newline] @
     '' '' @ pad_to 15 ''USERNAME'' @ '' '' @ pad_to 15 ''ROLE'' @ '' '' @ pad_to 10 ''STATUS'' @ [newline] @
     ''----------------------------'' @ [newline]"

definition user_line :: "sec_user \<Rightarrow> string" where
  "user_line u =
     '' '' @ pad_to 15 (u_name u) @ '' '' @ pad_to 15 (case u_roles u of [] \<Rightarrow> ''-'' | r # _ \<Rightarrow> r) @ '' '' @
     (if u_status u = USER_STATUS_ACTIVE then ''Active'' else ''Locked'') @ [newline]"

fun users_text :: "string \<Rightarrow> sec_user list \<Rightarrow> string option" where
  "users_text t [] = Some (take 4095 t)"
| "users_text t (u # us) = (if 4096 < length t then None else users_text (t @ user_line u) us)"

definition handle_show_users :: "server \<Rightarrow> connection \<Rightarrow> reply list option" where
  "handle_show_users sv c =
     (if \<not> cn_auth c \<or> \<not> may sv c PERM_VIEW_STATS then Some [R_permission_denied]
      else map_option (\<lambda>t. [R_users t]) (users_text users_header (sc_users (sv_security sv))))"

text \<open>\<open>strcasestr\<close> as the text from the match on.\<close>

definition casestr :: "string \<Rightarrow> string \<Rightarrow> string option" where
  "casestr s w = text_from (\<lambda>t. strcasecmp_eq (take (length w) t) w) s"

definition word_of_text :: "nat \<Rightarrow> string \<Rightarrow> string" where
  "word_of_text n s = take n (takeWhile (\<lambda>c. \<not> is_space c) s)"

definition skip_spaces :: "string \<Rightarrow> string" where
  "skip_spaces s = dropWhile is_space s"

definition user_password :: "string \<Rightarrow> string" where
  "user_password p =
     (case casestr p ''PASSWORD'' of
        Some q \<Rightarrow>
          (let q = skip_spaces (drop 8 q)
           in case q of
                c # cs \<Rightarrow>
                  if c = single_quote \<or> c = double_quote then take 63 (takeWhile (\<lambda>d. d \<noteq> c) cs)
                  else take 63 (takeWhile (\<lambda>d. \<not> is_space d \<and> d \<noteq> CHR '';'') q)
              | [] \<Rightarrow> [])
      | None \<Rightarrow> word_of_text 63 (skip_spaces p))"

definition user_role :: "string \<Rightarrow> string" where
  "user_role args =
     (case casestr args ''ROLE'' of
        Some q \<Rightarrow>
          (let r = (if q \<noteq> args then take 31 (takeWhile (\<lambda>d. \<not> is_space d \<and> d \<noteq> CHR '';'') (skip_spaces (drop 4 q))) else [])
           in if r = [] then ''guest'' else r)
      | None \<Rightarrow> ''guest'')"

definition handle_create_user :: "server_env \<Rightarrow> string \<Rightarrow> server \<Rightarrow> connection \<Rightarrow> turn option" where
  "handle_create_user env args sv c =
     (if \<not> cn_auth c \<or> \<not> may sv c PERM_CREATE_USER then Some (sv, c, [R_permission_denied])
      else
        let p = skip_spaces args; name = word_of_text 63 p; p = drop (length name) p;
            pw = user_password p; role = user_role args
        in if name = [] \<or> pw = [] then Some (sv, c, [R_user_syntax])
           else map_option (\<lambda>(r, sc).
             (sv\<lparr>sv_security := sc\<rparr>, c,
              [case r of Inr uid \<Rightarrow> R_user_created name role | Inl e \<Rightarrow> R_user_failed e]))
             (security_create_user (now_of env) (se_random env) name pw role (sv_security sv)))"

section \<open>Queries\<close>

text \<open>Comparing with a token that has no text reads a null pointer.\<close>

definition token_text :: "token list \<Rightarrow> nat \<Rightarrow> string option" where
  "token_text ts i = tk_value (ts ! i)"

definition is_word :: "string \<Rightarrow> string list \<Rightarrow> bool" where
  "is_word s ws \<longleftrightarrow> list_ex (strcasecmp_eq s) ws"

text \<open>The position of \<open>AS\<close> from the third token on; the outer \<open>None\<close> is a token without text before it.\<close>

fun find_as :: "token list \<Rightarrow> nat \<Rightarrow> nat option option" where
  "find_as [] i = Some None"
| "find_as (t # ts) i =
     (case tk_value t of
        None \<Rightarrow> None
      | Some s \<Rightarrow> if is_word s [''AS'', ''JAISE''] then Some (Some i) else find_as ts (i + 1))"

definition prepare_command :: "server_env \<Rightarrow> string \<Rightarrow> token list \<Rightarrow> server \<Rightarrow> connection \<Rightarrow> turn option" where
  "prepare_command env query ts sv c =
     (if length ts < 4 then Some (sv, c, [])
      else case find_as (drop 2 ts) 2 of
        None \<Rightarrow> None
      | Some None \<Rightarrow> Some (sv, c, [R_prepare_syntax])
      | Some (Some k) \<Rightarrow>
          if length ts \<le> k + 1 then Some (sv, c, [R_prepare_syntax])
          else case token_text ts (k + 1) of
            None \<Rightarrow> None
          | Some w \<Rightarrow>
              (case str_from query w of
                 None \<Rightarrow> Some (sv, c, [])
               | Some template \<Rightarrow>
                   (case token_text ts 1 of
                      None \<Rightarrow> Some (sv, c, [R_prepare_failed])
                    | Some name \<Rightarrow>
                        (case stmt_prepare (now_of env) (sv_stmt_id sv) (cn_stmts c) name template (Some (current_user (cn_ctx c))) of
                           Done (i, store, stmt) _ \<Rightarrow>
                             Some (sv\<lparr>sv_stmt_id := i\<rparr>, c\<lparr>cn_stmts := store\<rparr>,
                               [case stmt of None \<Rightarrow> R_prepare_failed | Some st \<Rightarrow> R_prepared name (length (param_positions st))])
                         | _ \<Rightarrow> None))))"

definition using_params :: "server_env \<Rightarrow> string \<Rightarrow> parameter list" where
  "using_params env query =
     (case (case casestr query ''USING'' of None \<Rightarrow> casestr query ''ISTEMAL'' | Some q \<Rightarrow> Some q) of
        None \<Rightarrow> []
      | Some q \<Rightarrow> (case str_from q ''('' of None \<Rightarrow> [] | Some p \<Rightarrow> parse_using_clause (se_params env) p))"

definition deallocate_command :: "token list \<Rightarrow> server \<Rightarrow> connection \<Rightarrow> turn option" where
  "deallocate_command ts sv c =
     (if length ts < 2 then Some (sv, c, [])
      else case token_text ts 1 of
        None \<Rightarrow> None
      | Some name \<Rightarrow>
          if strcasecmp_eq name ''ALL''
          then (let (n, store) = stmt_deallocate_all (cn_stmts c) in Some (sv, c\<lparr>cn_stmts := store\<rparr>, [R_deallocated_all n]))
          else (let (rc, store) = stmt_deallocate (cn_stmts c) name
                in Some (sv, c\<lparr>cn_stmts := store\<rparr>, [if rc = 0 then R_deallocated name else R_not_found name])))"

text \<open>The query behind the first tokens; the inner \<open>None\<close> is a token that is not found in it.\<close>

fun behind_tokens :: "token list \<Rightarrow> string option \<Rightarrow> string option option" where
  "behind_tokens [] q = Some q"
| "behind_tokens (t # ts) q =
     (case (tk_value t, q) of
        (Some w, Some s) \<Rightarrow> behind_tokens ts (map_option (\<lambda>r. skip_spaces (drop (length w) r)) (str_from s w))
      | _ \<Rightarrow> None)"

definition explain_command :: "server_env \<Rightarrow> string \<Rightarrow> token list \<Rightarrow> reply list option" where
  "explain_command env query ts =
     (case (if length ts < 2 then Some False else map_option (\<lambda>w. strcasecmp_eq w ''ANALYZE'') (token_text ts 1)) of
        None \<Rightarrow> None
      | Some analyze \<Rightarrow>
          let n = (if analyze then 2 else 1)
          in if length ts \<le> n then Some [R_explain_syntax]
             else case behind_tokens (take n ts) (Some query) of
               None \<Rightarrow> None
             | Some q \<Rightarrow>
                 if q = None \<or> q = Some [] then Some [R_explain_syntax]
                 else (case parse (tokenize (the q)) of
                         Done node _ \<Rightarrow> Some (case se_explain env node analyze of None \<Rightarrow> [] | Some t \<Rightarrow> [R_explain t])
                       | ParseError \<Rightarrow> Some [R_explain_failed]
                       | _ \<Rightarrow> None))"

definition run_statement :: "server_env \<Rightarrow> token list \<Rightarrow> server \<Rightarrow> connection \<Rightarrow> turn option" where
  "run_statement env ts sv c =
     (case parse ts of
        Done node _ \<Rightarrow>
          map_option (\<lambda>db. (sv\<lparr>sv_db := db\<rparr>, c\<lparr>cn_ctx := ds_session db\<rparr>, if ds_out db = [] then [] else [R_result (ds_out db)]))
            (execute_query (se_other env) (se_exec env) node ((sv_db sv)\<lparr>ds_session := cn_ctx c, ds_out := []\<rparr>))
      | ParseError \<Rightarrow> Some (sv, c, [R_parse_error])
      | _ \<Rightarrow> None)"

definition authorized :: "server \<Rightarrow> connection \<Rightarrow> string \<Rightarrow> bool" where
  "authorized sv c cmd \<longleftrightarrow> (case session_of sv c of None \<Rightarrow> False | Some ss \<Rightarrow> security_authorize_command ss cmd)"

text \<open>The first argument bounds the recursion of the C stack: \<open>EXECUTE\<close> runs the resolved text as a query.\<close>

fun execute_client_query :: "nat \<Rightarrow> server_env \<Rightarrow> string \<Rightarrow> server \<Rightarrow> connection \<Rightarrow> turn option" where
  "execute_client_query 0 env query sv c = None"
| "execute_client_query (Suc n) env query sv c =
     (if \<not> cn_auth c then Some (sv, c, [R_auth_required])
      else
        let sv = sv\<lparr>sv_security := security_touch_session (now_of env) (cn_token c) (sv_security sv)\<rparr>;
            c = c\<lparr>cn_queries := cn_queries c + 1\<rparr>;
            ts = tokenize query
        in case token_text ts 0 of
             None \<Rightarrow> run_statement env ts sv c
           | Some cmd \<Rightarrow>
               if is_word cmd [''PREPARE'', ''TAYYAR''] then prepare_command env query ts sv c
               else if is_word cmd [''EXECUTE'', ''CHALAO''] then
                 (if length ts < 2 then Some (sv, c, [])
                  else case token_text ts 1 of
                    None \<Rightarrow> None
                  | Some name \<Rightarrow>
                      (case stmt_execute (now_of env) (cn_stmts c) name (using_params env query) of
                         (_, None, store) \<Rightarrow> Some (sv, c\<lparr>cn_stmts := store\<rparr>, [R_execute_failed name])
                       | (_, Some query, store) \<Rightarrow>
                           map_option (\<lambda>(sv, c, rs). (sv, c, R_executing query # rs))
                             (execute_client_query n env query sv (c\<lparr>cn_stmts := store\<rparr>))))
               else if is_word cmd [''DEALLOCATE'', ''HATAO_TAYYAR''] then deallocate_command ts sv c
               else if is_word cmd [''EXPLAIN'', ''SAMJHAO'']
               then map_option (\<lambda>rs. (sv, c, rs)) (explain_command env query ts)
               else if \<not> authorized sv c cmd then Some (sv, c, [R_denied cmd])
               else run_statement env ts sv c)"

section \<open>The command line\<close>

text \<open>\<open>%ns\<close> of \<open>sscanf\<close>: the word and the rest.\<close>

definition scan_word :: "nat \<Rightarrow> string \<Rightarrow> string \<times> string" where
  "scan_word n s = (let s = skip_spaces s; w = word_of_text n s in (w, drop (length w) s))"

definition upper_word :: "string \<Rightarrow> string" where
  "upper_word s = map to_upper s"

definition first_line :: "string \<Rightarrow> string" where
  "first_line s = takeWhile (\<lambda>c. c \<noteq> CHR 0x0D \<and> c \<noteq> newline) s"

text \<open>The command with its first argument, in the order of the code. The arguments of \<open>CREATE USER\<close> are
  read from the twelfth byte of the buffer on, which can lie behind the end of the line. The flag is
  False when the loop of \<open>client_handler\<close> ends.\<close>

definition client_command ::
    "nat \<Rightarrow> server_env \<Rightarrow> string \<Rightarrow> string \<Rightarrow> string \<Rightarrow> string \<Rightarrow> string \<Rightarrow> server \<Rightarrow> connection \<Rightarrow> (bool \<times> turn) option" where
  "client_command depth env input line cmd arg1 arg2 sv c =
     (let go = map_option (\<lambda>t :: turn. (True, t))
      in if cmd \<in> {''EXIT'', ''QUIT'', ''NIKLO'', ''BAHAR'', ''KHATAM_KARO''} then Some (False, sv, c, [R_goodbye])
         else if cmd = ''LOGIN'' then go (handle_login env arg1 arg2 sv c)
         else if cmd = ''LOGOUT'' then Some (True, handle_logout sv c)
         else if cmd \<in> {''HELP'', ''?'', ''MADAD''} then Some (True, sv, c, [R_help])
         else if cmd = ''WHOAMI'' then go (map_option (\<lambda>rs. (sv, c, rs)) (handle_whoami sv c))
         else if cmd \<in> {''STATUS'', ''HALAT'', ''STHITI''} then Some (True, sv, c, [R_status])
         else if cmd \<in> {''CLUSTER'', ''JHAAD''} then Some (True, sv, c, [R_cluster_status])
         else if cmd \<in> {''NODES'', ''GRANTHI''} then Some (True, sv, c, [R_cluster_nodes])
         else if cmd = ''SHOW'' \<and> strcasecmp_eq arg1 ''USERS''
         then go (map_option (\<lambda>rs. (sv, c, rs)) (handle_show_users sv c))
         else if cmd \<in> {''SHOW'', ''DEKHO''} \<and> (strcasecmp_eq arg1 ''DATABASES'' \<or> strcasecmp_eq arg1 ''DATABASE'')
         then (if cn_auth c then go (execute_client_query depth env (take 255 (line @ '';'')) sv c)
               else Some (True, sv, c, [R_auth_required]))
         else if cmd = ''CREATE'' \<and> strcasecmp_eq arg1 ''USER''
         then (let rest = take 255 (takeWhile (\<lambda>d. d \<noteq> newline) (drop 12 (if 12 \<le> length line then line else input)))
               in if rest = [] then Some (True, sv, c, []) else go (handle_create_user env rest sv c))
         else go (execute_client_query depth env line sv c))"

text \<open>One turn on the text received, up to its first zero byte.\<close>

definition client_turn :: "nat \<Rightarrow> server_env \<Rightarrow> string \<Rightarrow> server \<Rightarrow> connection \<Rightarrow> (bool \<times> turn) option" where
  "client_turn depth env input sv c =
     (let line = first_line input; now = now_of env;
          (cmd, r) = scan_word 31 line; (arg1, r) = scan_word 127 r; (arg2, r) = scan_word 127 r;
          ok = (case cn_tracker c of None \<Rightarrow> True | Some i \<Rightarrow> fst (check_rate_limit now (sv_trackers sv ! i)))
      in if line = [] then Some (True, sv, c, [])
         else
           let sv = with_tracker (\<lambda>t. snd (check_rate_limit now t)) c sv
           in if \<not> ok then Some (True, sv, c, [R_rate_limit])
              else client_command depth env input line (upper_word cmd) arg1 arg2 sv c)"

end
