(* ===== verification/AccessControl.thy ===== *)
theory AccessControl
  imports Security
begin

text \<open>
  What \<open>src/security.c\<close> guarantees: the invariant of its state under all its operations, the lockout of
  a user after failed logins, and the expiry of sessions.
\<close>

section \<open>Sessions\<close>

lemma take_exact: "length xs = n \<Longrightarrow> take n (xs @ ys) = xs"
  by simp

lemma live_remove:
  assumes "i < sc_count sc" and "sc_count sc \<le> length (sc_sessions sc)"
  shows "live_sessions (remove_session i sc) = take i (live_sessions sc) @ drop (i + 1) (live_sessions sc)"
    and "length (sc_sessions (remove_session i sc)) = length (sc_sessions sc)"
proof -
  let ?n = "sc_count sc" and ?a = "sc_sessions sc"
  have "take (?n - 1) (close_gap i ?n ?a) = take i ?a @ take (?n - i - 1) (drop (i + 1) ?a)"
  proof -
    have "length (take i ?a @ take (?n - i - 1) (drop (i + 1) ?a)) = ?n - 1" using assms by simp
    then show ?thesis unfolding close_gap_def append_assoc [symmetric] by (rule take_exact)
  qed
  also have "\<dots> = take i (take ?n ?a) @ drop (i + 1) (take ?n ?a)"
    using assms by (simp add: min_def drop_take)
  finally show "live_sessions (remove_session i sc) = take i (live_sessions sc) @ drop (i + 1) (live_sessions sc)"
    by (simp add: live_sessions_def remove_session_def)
  show "length (sc_sessions (remove_session i sc)) = length ?a"
    using assms by (auto simp: remove_session_def close_gap_def min_def)
qed

lemma cleanup_loop_spec:
  assumes "k \<le> sc_count sc" and "sc_count sc \<le> length (sc_sessions sc)" and "cleanup_loop now k sc = (n, sc')"
  shows "live_sessions sc' = filter (\<lambda>ss. now \<le> ss_expires ss) (take k (live_sessions sc)) @ drop k (live_sessions sc)
    \<and> n + sc_count sc' = sc_count sc \<and> length (sc_sessions sc') = length (sc_sessions sc) \<and> sc_users sc' = sc_users sc
    \<and> sc_roles sc' = sc_roles sc \<and> sc_file sc' = sc_file sc"
  using assms
proof (induction k arbitrary: sc n sc')
  case (Suc k)
  let ?l = "live_sessions sc"
  have k: "k < length ?l" "?l ! k = sc_sessions sc ! k" using Suc.prems by (simp_all add: live_sessions_def)
  have split: "take (Suc k) ?l = take k ?l @ [?l ! k]" using k(1) by (simp add: take_Suc_conv_app_nth)
  show ?case
  proof (cases "ss_expires (sc_sessions sc ! k) < now")
    case True
    let ?sc = "remove_session k sc"
    obtain m where m: "cleanup_loop now k ?sc = (m, sc')" "n = m + 1"
      using Suc.prems(3) True by (auto split: prod.splits)
    have live: "live_sessions ?sc = take k ?l @ drop (Suc k) ?l" "length (sc_sessions ?sc) = length (sc_sessions sc)"
      using live_remove [of k sc] Suc.prems by simp_all
    have count: "sc_count ?sc = sc_count sc - 1" by (simp add: remove_session_def)
    from Suc.IH [OF _ _ m(1)] Suc.prems True k live count m(2) show ?thesis
      by (auto simp: split remove_session_def)
  next
    case False
    from Suc.IH [of sc n sc'] Suc.prems False k show ?thesis
      by (simp add: split flip: Cons_nth_drop_Suc)
  qed
qed simp

text \<open>Cleaning up removes exactly the sessions that have expired, keeps the others in their order and
  returns how many it removed.\<close>

theorem cleanup_removes_exactly_the_expired:
  assumes "sc_count sc \<le> length (sc_sessions sc)"
  shows "case security_cleanup_sessions now sc of (n, sc') \<Rightarrow>
    live_sessions sc' = filter (\<lambda>ss. now \<le> ss_expires ss) (live_sessions sc) \<and>
    n = length (filter (\<lambda>ss. ss_expires ss < now) (live_sessions sc))"
proof -
  obtain n sc' where run: "cleanup_loop now (sc_count sc) sc = (n, sc')" by (cases "cleanup_loop now (sc_count sc) sc")
  from cleanup_loop_spec [OF le_refl assms run]
  have live: "live_sessions sc' = filter (\<lambda>ss. now \<le> ss_expires ss) (live_sessions sc)" and n: "n + sc_count sc' = sc_count sc"
    and len: "length (sc_sessions sc') = length (sc_sessions sc)"
    by (simp_all add: live_sessions_def)
  have "length (live_sessions sc') = sc_count sc'" "length (live_sessions sc) = sc_count sc"
    using assms n len by (simp_all add: live_sessions_def)
  then have "n = length (live_sessions sc) - length (filter (\<lambda>ss. now \<le> ss_expires ss) (live_sessions sc))"
    using n live by simp
  also have "\<dots> = length (filter (\<lambda>ss. ss_expires ss < now) (live_sessions sc))"
    using sum_length_filter_compl [of "\<lambda>ss. now \<le> ss_expires ss" "live_sessions sc"] by (simp add: not_le)
  finally show ?thesis using run live by (simp add: security_cleanup_sessions_def)
qed

section \<open>The invariant\<close>

definition roles_ok :: "sec_role list \<Rightarrow> bool" where
  "roles_ok rs \<longleftrightarrow> length rs \<le> SECURITY_MAX_ROLES \<and>
     map (\<lambda>r. (r_name r, r_permissions r, r_system r)) (take 6 rs) = map (\<lambda>(n, p, d). (n, p, True)) predefined_roles"

definition users_ok :: "sec_user list \<Rightarrow> bool" where
  "users_ok us \<longleftrightarrow> length us \<le> SECURITY_MAX_USERS \<and> 0 < super_count us \<and> (\<forall>u \<in> set us. length (u_roles u) \<le> 8)"

definition security_wf :: "security \<Rightarrow> bool" where
  "security_wf sc \<longleftrightarrow> users_ok (sc_users sc) \<and> roles_ok (sc_roles sc) \<and>
     length (sc_sessions sc) = SECURITY_MAX_SESSIONS \<and> sc_count sc \<le> SECURITY_MAX_SESSIONS \<and>
     (\<forall>ss \<in> set (live_sessions sc). ss_authenticated ss) \<and>
     (case sc_file sc of None \<Rightarrow> True | Some (us, rs) \<Rightarrow> users_ok us \<and> roles_ok rs)"

text \<open>Any calls in any order, and a restart with the file that was written last.\<close>

inductive sec_reachable :: "security \<Rightarrow> bool" where
  sec_start: "users_ok us \<Longrightarrow> roles_ok rs \<Longrightarrow> security_init now salt (Some (us, rs)) = Some sc \<Longrightarrow> sec_reachable sc"
| sec_restart: "sec_reachable sc \<Longrightarrow> sc_file sc = Some f \<Longrightarrow> security_init now salt (Some f) = Some sc' \<Longrightarrow> sec_reachable sc'"
| sec_save: "sec_reachable sc \<Longrightarrow> sec_reachable (security_save sc)"
| sec_create_user: "sec_reachable sc \<Longrightarrow> security_create_user now salt name pw role sc = Some (r, sc') \<Longrightarrow> sec_reachable sc'"
| sec_delete_user: "sec_reachable sc \<Longrightarrow> sec_reachable (snd (security_delete_user name sc))"
| sec_change_password: "sec_reachable sc \<Longrightarrow> security_change_password salt name pw sc = Some (rc, sc') \<Longrightarrow> sec_reachable sc'"
| sec_lock_user: "sec_reachable sc \<Longrightarrow> sec_reachable (snd (security_lock_user now name sc))"
| sec_unlock_user: "sec_reachable sc \<Longrightarrow> sec_reachable (snd (security_unlock_user name sc))"
| sec_create_role: "sec_reachable sc \<Longrightarrow> sec_reachable (snd (security_create_role role perms description sc))"
| sec_delete_role: "sec_reachable sc \<Longrightarrow> sec_reachable (snd (security_delete_role role sc))"
| sec_grant_role: "sec_reachable sc \<Longrightarrow> sec_reachable (snd (security_grant_role name role sc))"
| sec_revoke_role: "sec_reachable sc \<Longrightarrow> sec_reachable (snd (security_revoke_role name role sc))"
| sec_login: "sec_reachable sc \<Longrightarrow> security_login now random name pw ip port sc = Some (r, sc') \<Longrightarrow> sec_reachable sc'"
| sec_logout: "sec_reachable sc \<Longrightarrow> sec_reachable (security_logout token sc)"
| sec_validate: "sec_reachable sc \<Longrightarrow> sec_reachable (snd (security_validate_session now token sc))"
| sec_touch: "sec_reachable sc \<Longrightarrow> sec_reachable (security_touch_session now token sc)"
| sec_cleanup: "sec_reachable sc \<Longrightarrow> sec_reachable (snd (security_cleanup_sessions now sc))"

lemma roles_ok_length: "roles_ok rs \<Longrightarrow> 6 \<le> length rs"
proof -
  assume "roles_ok rs"
  then have "length (map (\<lambda>r. (r_name r, r_permissions r, r_system r)) (take 6 rs)) = length (map (\<lambda>(n, p, d). (n, p, True)) predefined_roles)"
    by (simp only: roles_ok_def)
  then show ?thesis by (simp add: predefined_roles_def)
qed

lemma roles_ok_append: "roles_ok rs \<Longrightarrow> length rs < SECURITY_MAX_ROLES \<Longrightarrow> roles_ok (rs @ [r])"
  using roles_ok_length [of rs] by (simp add: roles_ok_def)

lemma roles_ok_system: "roles_ok rs \<Longrightarrow> i < 6 \<Longrightarrow> r_system (rs ! i)"
proof -
  assume ok: "roles_ok rs" and i: "i < 6"
  let ?m = "map (\<lambda>r. (r_name r, r_permissions r, r_system r)) (take 6 rs)"
  have "?m ! i \<in> set (map (\<lambda>(n, p, d). (n, p, True)) predefined_roles)"
  proof -
    have "?m ! i \<in> set ?m" using i roles_ok_length [OF ok] by (intro nth_mem) simp
    moreover have "?m = map (\<lambda>(n, p, d). (n, p, True)) predefined_roles" using ok by (simp only: roles_ok_def)
    ultimately show ?thesis by (simp only:)
  qed
  then show ?thesis using i roles_ok_length [OF ok] by auto
qed

lemma roles_ok_delete: "roles_ok rs \<Longrightarrow> 6 \<le> i \<Longrightarrow> roles_ok (take i rs @ drop (i + 1) rs)"
  using roles_ok_length [of rs] by (auto simp: roles_ok_def min_def)

lemma user_indexD: "user_index sc name = Some i \<Longrightarrow> i < length (sc_users sc) \<and> u_name (sc_users sc ! i) = name"
  by (auto simp: user_index_def dest: first_idx_SomeD)

lemma session_indexD: "session_index sc token = Some i \<Longrightarrow> i < sc_count sc \<and> i < length (sc_sessions sc)"
  by (auto simp: session_index_def live_sessions_def dest: first_idx_SomeD)

lemma super_count_update: "i < length us \<Longrightarrow> u_super v = u_super (us ! i) \<Longrightarrow> super_count (us[i := v]) = super_count us"
proof (induction us arbitrary: i)
  case (Cons u us)
  then show ?case by (cases i) (auto simp: super_count_def)
qed simp

lemma users_ok_update:
  "users_ok us \<Longrightarrow> i < length us \<Longrightarrow> u_super v = u_super (us ! i) \<Longrightarrow> length (u_roles v) \<le> 8 \<Longrightarrow> users_ok (us[i := v])"
  by (auto simp: users_ok_def super_count_update dest!: subsetD [OF set_update_subset_insert])

lemma wf_set_user:
  "security_wf sc \<Longrightarrow> user_index sc name = Some i \<Longrightarrow> u_super v = u_super (sc_users sc ! i) \<Longrightarrow> length (u_roles v) \<le> 8 \<Longrightarrow>
   security_wf (set_user i v sc)"
  by (auto simp: security_wf_def set_user_def live_sessions_def users_ok_update dest: user_indexD)

lemma wf_user_roles: "security_wf sc \<Longrightarrow> user_index sc name = Some i \<Longrightarrow> length (u_roles (sc_users sc ! i)) \<le> 8"
  by (auto simp: security_wf_def users_ok_def dest: user_indexD)

lemma wf_save: "security_wf sc \<Longrightarrow> security_wf (security_save sc)"
  by (simp add: security_wf_def security_save_def live_sessions_def)

lemma wf_create_user: "security_wf sc \<Longrightarrow> security_create_user now salt name pw role sc = Some (r, sc') \<Longrightarrow> security_wf sc'"
proof -
  assume wf: "security_wf sc" and run: "security_create_user now salt name pw role sc = Some (r, sc')"
  show "security_wf sc'"
  proof (cases "sc' = sc")
    case False
    then obtain salt_hex hash_hex where *: "length (sc_users sc) < SECURITY_MAX_USERS"
        "sc' = security_save (sc\<lparr>sc_users := sc_users sc @ [new_user now salt_hex hash_hex name role sc]\<rparr>)"
      using run by (auto simp: security_create_user_def Let_def not_le split: if_splits option.splits)
    define u where "u = new_user now salt_hex hash_hex name role sc"
    have u: "length (u_roles u) \<le> 8" "length (sc_users sc) < SECURITY_MAX_USERS"
        "sc' = security_save (sc\<lparr>sc_users := sc_users sc @ [u]\<rparr>)"
      using * by (simp_all add: u_def new_user_def)
    have "users_ok (sc_users sc @ [u])"
      using wf u(1,2) by (auto simp: security_wf_def users_ok_def super_count_def)
    then show ?thesis using wf by (simp add: u(3) security_wf_def security_save_def live_sessions_def)
  qed (use wf in simp)
qed

lemma super_count_drop:
  "i < length us \<Longrightarrow> super_count us = super_count (take i us @ drop (i + 1) us) + (if u_super (us ! i) then 1 else 0)"
proof (induction us arbitrary: i)
  case (Cons u us)
  then show ?case by (cases i) (auto simp: super_count_def)
qed simp

lemma wf_delete_user: "security_wf sc \<Longrightarrow> security_wf (snd (security_delete_user name sc))"
proof (cases "user_index sc name")
  case (Some i)
  assume wf: "security_wf sc"
  have i: "i < length (sc_users sc)" using user_indexD [OF Some] by simp
  show ?thesis
  proof (cases "u_super (sc_users sc ! i) \<and> super_count (sc_users sc) \<le> 1")
    case False
    have "users_ok (take i (sc_users sc) @ drop (i + 1) (sc_users sc))"
      using wf False super_count_drop [OF i] i
      by (auto simp: security_wf_def users_ok_def split: if_splits dest: in_set_takeD in_set_dropD)
    then show ?thesis
      using wf Some False by (simp add: security_delete_user_def security_wf_def security_save_def live_sessions_def)
  qed (use wf Some in \<open>simp add: security_delete_user_def\<close>)
qed (simp add: security_delete_user_def)

lemma wf_change_password: "security_wf sc \<Longrightarrow> security_change_password salt name pw sc = Some (rc, sc') \<Longrightarrow> security_wf sc'"
  by (auto simp: security_change_password_def wf_save wf_set_user wf_user_roles split: if_splits option.splits)

lemma wf_lock: "security_wf sc \<Longrightarrow> security_wf (snd (security_lock_user now name sc))"
  by (auto simp: security_lock_user_def wf_set_user wf_user_roles split: option.split)

lemma wf_unlock: "security_wf sc \<Longrightarrow> security_wf (snd (security_unlock_user name sc))"
  by (auto simp: security_unlock_user_def wf_set_user wf_user_roles split: option.split)

lemma wf_grant: "security_wf sc \<Longrightarrow> security_wf (snd (security_grant_role name role sc))"
  by (auto simp: security_grant_role_def Let_def wf_set_user split: option.split)

lemma wf_revoke: "security_wf sc \<Longrightarrow> security_wf (snd (security_revoke_role name role sc))"
  by (auto simp: security_revoke_role_def Let_def length_remove1 wf_user_roles intro!: wf_set_user split: option.split)
    (metis diff_le_self le_trans wf_user_roles)

lemma wf_create_role: "security_wf sc \<Longrightarrow> security_wf (snd (security_create_role role perms description sc))"
  by (auto simp: security_create_role_def security_wf_def live_sessions_def roles_ok_append)

lemma wf_delete_role: "security_wf sc \<Longrightarrow> security_wf (snd (security_delete_role role sc))"
proof (cases "first_idx (\<lambda>r. r_name r = role) (sc_roles sc)")
  case (Some i)
  assume wf: "security_wf sc"
  show ?thesis
  proof (cases "r_system (sc_roles sc ! i)")
    case False
    then have "6 \<le> i" using wf roles_ok_system [of "sc_roles sc" i] by (cases "i < 6") (auto simp: security_wf_def)
    then show ?thesis
      using wf Some False roles_ok_delete [of "sc_roles sc" i] by (simp add: security_delete_role_def security_wf_def live_sessions_def)
  qed (use wf Some in \<open>simp add: security_delete_role_def\<close>)
qed (simp add: security_delete_role_def)

lemma wf_remove_session: "security_wf sc \<Longrightarrow> i < sc_count sc \<Longrightarrow> security_wf (remove_session i sc)"
proof -
  assume wf: "security_wf sc" and i: "i < sc_count sc"
  have c: "sc_count sc \<le> length (sc_sessions sc)" using wf by (simp add: security_wf_def)
  have "set (live_sessions (remove_session i sc)) \<subseteq> set (live_sessions sc)"
    using live_remove(1) [OF i c] by (auto dest: in_set_takeD in_set_dropD)
  then have "\<forall>ss \<in> set (live_sessions (remove_session i sc)). ss_authenticated ss"
    using wf by (auto simp: security_wf_def)
  then show ?thesis using wf live_remove(2) [OF i c] by (auto simp: security_wf_def remove_session_def)
qed

lemma wf_logout: "security_wf sc \<Longrightarrow> security_wf (security_logout token sc)"
  by (auto simp: security_logout_def wf_remove_session dest: session_indexD split: option.split)

lemma wf_validate: "security_wf sc \<Longrightarrow> security_wf (snd (security_validate_session now token sc))"
  by (simp add: security_validate_session_def wf_logout split: option.split)

lemma wf_touch: "security_wf sc \<Longrightarrow> security_wf (security_touch_session now token sc)"
proof (cases "session_index sc token")
  case (Some i)
  assume wf: "security_wf sc"
  let ?ss = "(sc_sessions sc ! i)\<lparr>ss_activity := now, ss_expires := now + sc_timeout sc\<rparr>"
  have i: "i < sc_count sc" "i < length (sc_sessions sc)" using session_indexD [OF Some] by simp_all
  have "sc_sessions sc ! i \<in> set (live_sessions sc)"
    using i nth_mem [of i "live_sessions sc"] by (simp add: live_sessions_def)
  then have "ss_authenticated ?ss" using wf by (simp add: security_wf_def)
  moreover have "live_sessions (set_session i ?ss sc) = (live_sessions sc)[i := ?ss]"
    by (simp add: live_sessions_def set_session_def take_update_swap)
  ultimately have "\<forall>ss \<in> set (live_sessions (set_session i ?ss sc)). ss_authenticated ss"
    using wf by (auto simp: security_wf_def dest!: subsetD [OF set_update_subset_insert])
  then show ?thesis using wf Some by (simp add: security_touch_session_def security_wf_def set_session_def)
qed (simp add: security_touch_session_def)

lemma wf_cleanup: "security_wf sc \<Longrightarrow> security_wf (snd (security_cleanup_sessions now sc))"
proof -
  assume wf: "security_wf sc"
  obtain n sc' where run: "cleanup_loop now (sc_count sc) sc = (n, sc')" by (cases "cleanup_loop now (sc_count sc) sc")
  have "sc_count sc \<le> length (sc_sessions sc)" using wf by (simp add: security_wf_def)
  from cleanup_loop_spec [OF le_refl this run] show ?thesis
    using wf by (auto simp: security_cleanup_sessions_def run security_wf_def live_sessions_def)
qed

lemma wf_failed_login:
  "security_wf sc \<Longrightarrow> user_index sc name = Some i \<Longrightarrow> security_wf (snd (failed_login now i name sc))"
  by (simp add: failed_login_def Let_def wf_lock wf_set_user wf_user_roles)

lemma wf_room: "security_wf sc \<Longrightarrow> security_wf (room_for_session now sc)"
  by (simp add: room_for_session_def wf_cleanup)

lemma users_room: "sc_count sc \<le> length (sc_sessions sc) \<Longrightarrow> sc_users (room_for_session now sc) = sc_users sc"
  using cleanup_loop_spec [OF le_refl, of sc now]
  by (auto simp: room_for_session_def security_cleanup_sessions_def split: prod.splits)
    (metis prod.collapse)

lemma wf_open_session:
  assumes wf: "security_wf sc" and i: "user_index sc name = Some i" and room: "sc_count sc < SECURITY_MAX_SESSIONS"
  shows "security_wf (snd (open_session now random i name ip port sc))"
proof -
  let ?n = "sc_count sc" and ?u = "sc_users sc ! i"
  define ss where "ss = \<lparr>ss_token = security_generate_token random, ss_user_id = u_id ?u, ss_user = take 63 name,
      ss_permissions = security_get_user_permissions sc name, ss_created = now, ss_activity = now,
      ss_expires = now + sc_timeout sc, ss_ip = take 63 ip, ss_port = port, ss_db = ''public'',
      ss_authenticated = True, ss_super = u_super ?u\<rparr>"
  let ?sc = "set_session ?n ss (sc\<lparr>sc_count := ?n + 1\<rparr>)"
  have len: "?n < length (sc_sessions sc)" using wf room by (simp add: security_wf_def)
  have "live_sessions ?sc = live_sessions sc @ [ss]"
    using len by (simp add: live_sessions_def set_session_def take_Suc_conv_app_nth)
  then have "security_wf ?sc"
    using wf room by (auto simp: security_wf_def set_session_def ss_def)
  moreover have "user_index ?sc name = Some i" "sc_users ?sc = sc_users sc"
    using i by (simp_all add: user_index_def set_session_def)
  ultimately have "security_wf (set_user i (?u\<lparr>u_failed := 0, u_last_login := now\<rparr>) ?sc)"
    using wf_user_roles [OF wf i] by (intro wf_set_user) simp_all
  then show ?thesis by (simp add: open_session_def Let_def ss_def)
qed

lemma wf_check_password:
  assumes wf: "security_wf sc" and i: "user_index sc name = Some i"
    and run: "check_password now random i name pw ip port sc = Some (r, sc')"
  shows "security_wf sc'"
proof -
  have c: "sc_count sc \<le> length (sc_sessions sc)" using wf by (simp add: security_wf_def)
  have room: "user_index (room_for_session now sc) name = Some i" using i by (simp add: user_index_def users_room [OF c])
  show ?thesis
    using run wf wf_failed_login [OF wf i, of now] wf_room [OF wf, of now]
      wf_open_session [OF wf_room [OF wf, of now] room, of now random ip port]
    by (auto simp: check_password_def Let_def case_prod_beta split: if_splits)
qed

lemma wf_login: "security_wf sc \<Longrightarrow> security_login now random name pw ip port sc = Some (r, sc') \<Longrightarrow> security_wf sc'"
proof (cases "user_index sc name")
  case (Some i)
  assume wf: "security_wf sc" and run: "security_login now random name pw ip port sc = Some (r, sc')"
  let ?u = "sc_users sc ! i"
  have "user_index (set_user i (lift_lockout ?u) sc) name = Some i"
  proof -
    have "map u_name ((sc_users sc)[i := lift_lockout ?u]) = map u_name (sc_users sc)"
      using user_indexD [OF Some] by (simp add: map_update lift_lockout_def list_update_same_conv)
    then have "first_idx (\<lambda>u. u_name u = name) ((sc_users sc)[i := lift_lockout ?u]) = first_idx (\<lambda>u. u_name u = name) (sc_users sc)"
      by (intro first_idx_cong) (auto dest: map_eq_imp_length_eq simp: list_eq_iff_nth_eq)
    then show ?thesis using Some by (simp add: user_index_def set_user_def)
  qed
  moreover have "security_wf (set_user i (lift_lockout ?u) sc)"
    using wf_set_user [OF wf Some] wf_user_roles [OF wf Some] by (simp add: lift_lockout_def)
  ultimately show ?thesis
    using run wf wf_check_password [OF wf Some] Some
    by (auto simp: security_login_def Let_def wf_check_password split: if_splits)
qed (auto simp: security_login_def)

lemma init_roles_frame: "\<exists>rs. foldl init_role sc xs = sc\<lparr>sc_roles := rs\<rparr>"
proof (induction xs arbitrary: sc)
  case Nil
  show ?case by (intro exI [of _ "sc_roles sc"]) simp
next
  case (Cons x xs)
  have "\<exists>rs. init_role sc x = sc\<lparr>sc_roles := rs\<rparr>"
    unfolding init_role_def security_create_role_def case_prod_beta Let_def by (simp, blast)
  then obtain rs where "init_role sc x = sc\<lparr>sc_roles := rs\<rparr>" by blast
  moreover obtain qs where "foldl init_role (sc\<lparr>sc_roles := rs\<rparr>) xs = sc\<lparr>sc_roles := rs\<rparr>\<lparr>sc_roles := qs\<rparr>"
    using Cons by blast
  ultimately have "foldl init_role sc (x # xs) = sc\<lparr>sc_roles := qs\<rparr>" by simp
  then show ?case by (rule exI)
qed

lemma init_from_file:
  "security_init now salt (Some (us, rs)) =
     Some \<lparr>sc_users = us, sc_roles = rs, sc_sessions = replicate SECURITY_MAX_SESSIONS zero_session, sc_count = 0,
        sc_cost = 12, sc_timeout = 3600, sc_max_failed = 5, sc_lockout = 300, sc_min_length = 8, sc_upper = True,
        sc_lower = True, sc_digit = True, sc_special = False, sc_file = Some (us, rs)\<rparr>"
proof -
  let ?sc = "\<lparr>sc_users = [], sc_roles = [], sc_sessions = replicate SECURITY_MAX_SESSIONS zero_session, sc_count = 0,
      sc_cost = 12, sc_timeout = 3600, sc_max_failed = 5, sc_lockout = 300, sc_min_length = 8, sc_upper = True,
      sc_lower = True, sc_digit = True, sc_special = False, sc_file = Some (us, rs)\<rparr>"
  obtain qs where "security_init_roles ?sc = ?sc\<lparr>sc_roles := qs\<rparr>"
    using init_roles_frame [of ?sc] by (auto simp: security_init_roles_def)
  then show ?thesis by (simp add: security_init_def security_load_def)
qed

lemma sec_wf_init:
  "users_ok us \<Longrightarrow> roles_ok rs \<Longrightarrow> security_init now salt (Some (us, rs)) = Some sc \<Longrightarrow> security_wf sc"
  by (auto simp: init_from_file security_wf_def live_sessions_def)

lemma sec_reachable_wf: "sec_reachable sc \<Longrightarrow> security_wf sc"
proof (induction rule: sec_reachable.induct)
  case (sec_restart sc f now salt sc')
  obtain us rs where f: "f = (us, rs)" by (cases f)
  have "users_ok us" "roles_ok rs" using sec_restart(2,4) by (simp_all add: security_wf_def f)
  then show ?case using sec_restart(3) unfolding f by (rule sec_wf_init)
next
  case (sec_start us rs now salt sc)
  show ?case by (rule sec_wf_init [OF sec_start])
next
  case (sec_save sc)
  show ?case by (rule wf_save [OF sec_save.IH])
next
  case (sec_create_user sc now salt name pw role r sc')
  show ?case by (rule wf_create_user [OF sec_create_user.IH sec_create_user.hyps(2)])
next
  case (sec_delete_user sc name)
  show ?case by (rule wf_delete_user [OF sec_delete_user.IH])
next
  case (sec_change_password sc salt name pw rc sc')
  show ?case by (rule wf_change_password [OF sec_change_password.IH sec_change_password.hyps(2)])
next
  case (sec_lock_user sc now name)
  show ?case by (rule wf_lock [OF sec_lock_user.IH])
next
  case (sec_unlock_user sc name)
  show ?case by (rule wf_unlock [OF sec_unlock_user.IH])
next
  case (sec_create_role sc role perms description)
  show ?case by (rule wf_create_role [OF sec_create_role.IH])
next
  case (sec_delete_role sc role)
  show ?case by (rule wf_delete_role [OF sec_delete_role.IH])
next
  case (sec_grant_role sc name role)
  show ?case by (rule wf_grant [OF sec_grant_role.IH])
next
  case (sec_revoke_role sc name role)
  show ?case by (rule wf_revoke [OF sec_revoke_role.IH])
next
  case (sec_login sc now random name pw ip port r sc')
  show ?case by (rule wf_login [OF sec_login.IH sec_login.hyps(2)])
next
  case (sec_logout sc token)
  show ?case by (rule wf_logout [OF sec_logout.IH])
next
  case (sec_validate sc now token)
  show ?case by (rule wf_validate [OF sec_validate.IH])
next
  case (sec_touch sc now token)
  show ?case by (rule wf_touch [OF sec_touch.IH])
next
  case (sec_cleanup sc now)
  show ?case by (rule wf_cleanup [OF sec_cleanup.IH])
qed

text \<open>Whatever is called in whatever order, a superuser remains, the predefined roles keep their
  permissions, and every table stays within its array.\<close>

theorem security_invariant:
  assumes "sec_reachable sc"
  shows "(\<exists>u \<in> set (sc_users sc). u_super u) \<and>
    map (\<lambda>r. (r_name r, r_permissions r)) (take 6 (sc_roles sc)) = map (\<lambda>(n, p, d). (n, p)) predefined_roles \<and>
    length (sc_users sc) \<le> SECURITY_MAX_USERS \<and> length (sc_roles sc) \<le> SECURITY_MAX_ROLES \<and>
    sc_count sc \<le> SECURITY_MAX_SESSIONS \<and> length (sc_sessions sc) = SECURITY_MAX_SESSIONS \<and>
    (\<forall>u \<in> set (sc_users sc). length (u_roles u) \<le> 8)"
proof -
  have wf: "security_wf sc" by (rule sec_reachable_wf [OF assms])
  have "filter u_super (sc_users sc) \<noteq> []" using wf by (auto simp: security_wf_def users_ok_def super_count_def)
  then have super: "\<exists>u \<in> set (sc_users sc). u_super u" by (auto simp: filter_empty_conv)
  let ?f = "\<lambda>(n, p, b). (n, p)"
  have "map ?f (map (\<lambda>r. (r_name r, r_permissions r, r_system r)) (take 6 (sc_roles sc))) =
      map ?f (map (\<lambda>(n, p, d). (n, p, True)) predefined_roles)"
    using wf by (simp only: security_wf_def roles_ok_def)
  then have "map (\<lambda>r. (r_name r, r_permissions r)) (take 6 (sc_roles sc)) = map (\<lambda>(n, p, d). (n, p)) predefined_roles"
    by (simp add: o_def case_prod_beta)
  then show ?thesis using wf super by (simp add: security_wf_def users_ok_def roles_ok_def)
qed

definition demo_user :: "string \<Rightarrow> bool \<Rightarrow> sec_user" where
  "demo_user name super =
     \<lparr>u_id = 1, u_name = name, u_hash = [], u_salt = [], u_roles = [''guest''], u_status = USER_STATUS_ACTIVE,
      u_created = 0, u_last_login = 0, u_failed = 0, u_lockout = 0, u_super = super, u_must_change = False\<rparr>"

definition demo_roles :: "sec_role list" where
  "demo_roles = map (\<lambda>(n, p, d). \<lparr>r_name = n, r_permissions = p, r_system = True, r_description = d\<rparr>) predefined_roles"

definition demo_security :: security where
  "demo_security = the (security_init 0 [] (Some ([demo_user ''root'' True, demo_user ''eve'' False], demo_roles)))"

lemma demo_reachable: "sec_reachable demo_security"
proof -
  let ?us = "[demo_user ''root'' True, demo_user ''eve'' False]"
  have "users_ok ?us" by (simp add: users_ok_def super_count_def demo_user_def)
  moreover have "roles_ok demo_roles"
  proof -
    have "length predefined_roles = 6" by (simp add: predefined_roles_def)
    then show ?thesis by (simp add: roles_ok_def demo_roles_def o_def case_prod_beta)
  qed
  moreover have "security_init 0 [] (Some (?us, demo_roles)) = Some demo_security"
    by (simp add: demo_security_def init_from_file)
  ultimately show ?thesis by (rule sec_start)
qed

theorem security_invariant_witness:
  "\<exists>u \<in> set (sc_users (snd (security_delete_user ''root'' demo_security))). u_super u"
  using security_invariant [OF sec_delete_user [OF demo_reachable]] by blast

section \<open>Lockout\<close>

text \<open>Attempts of a user: the time, the random bytes, the password, the address and the port of each.\<close>

type_synonym attempt = "int \<times> bytes \<times> string \<times> string \<times> int"

fun run_logins :: "string \<Rightarrow> attempt list \<Rightarrow> security \<Rightarrow> security option" where
  "run_logins name [] sc = Some sc"
| "run_logins name ((now, random, pw, ip, port) # ts) sc =
     (case security_login now random name pw ip port sc of None \<Rightarrow> None | Some (r, sc') \<Rightarrow> run_logins name ts sc')"

lemma user_index_set:
  "user_index sc name = Some i \<Longrightarrow> u_name v = name \<Longrightarrow> user_index (set_user i v sc) name = Some i"
  unfolding user_index_def set_user_def
  by (auto simp: first_idx_Some nth_list_update)

lemma wrong_password:
  assumes i: "user_index sc name = Some i" and active: "u_status (sc_users sc ! i) = USER_STATUS_ACTIVE"
    and wrong: "security_verify_password (sc_cost sc) pw (u_salt (sc_users sc ! i)) (u_hash (sc_users sc ! i)) = Some False"
  shows "\<exists>e. security_login now random name pw ip port sc =
    Some (Inl e, let u = (sc_users sc ! i)\<lparr>u_failed := u_failed (sc_users sc ! i) + 1\<rparr>
      in set_user i (if sc_max_failed sc \<le> u_failed u then u\<lparr>u_status := USER_STATUS_LOCKED, u_lockout := now + sc_lockout sc\<rparr> else u) sc)"
proof -
  let ?u = "(sc_users sc ! i)\<lparr>u_failed := u_failed (sc_users sc ! i) + 1\<rparr>"
  have len: "i < length (sc_users sc)" and name: "u_name (sc_users sc ! i) = name" using user_indexD [OF i] by simp_all
  have "user_index (set_user i ?u sc) name = Some i" by (rule user_index_set [OF i]) (simp add: name)
  then have lock: "snd (security_lock_user now name (set_user i ?u sc)) =
      set_user i (?u\<lparr>u_status := USER_STATUS_LOCKED, u_lockout := now + sc_lockout sc\<rparr>) sc"
    using len by (simp add: security_lock_user_def set_user_def)
  show ?thesis
    using i active wrong lock by (simp add: security_login_def check_password_def failed_login_def Let_def case_prod_beta)
      (simp add: set_user_def)
qed

text \<open>C15: As many wrong passwords in a row as are allowed lock the account: until the lockout ends every
  login is refused, with the right password too, and changes nothing.\<close>

theorem brute_force_is_stopped:
  assumes "user_index sc name = Some i" and "u_status (sc_users sc ! i) = USER_STATUS_ACTIVE"
    and "ts \<noteq> []" and "u_failed (sc_users sc ! i) + int (length ts) = sc_max_failed sc"
    and "\<And>now random pw ip port. (now, random, pw, ip, port) \<in> set ts \<Longrightarrow>
      security_verify_password (sc_cost sc) pw (u_salt (sc_users sc ! i)) (u_hash (sc_users sc ! i)) = Some False"
  shows "\<exists>sc'. run_logins name ts sc = Some sc' \<and>
    (\<forall>now random pw ip port. now < fst (last ts) + sc_lockout sc \<longrightarrow>
      (\<exists>e. security_login now random name pw ip port sc' = Some (Inl e, sc')))"
  using assms
proof (induction ts arbitrary: sc)
  case (Cons t ts)
  obtain now random pw ip port where t: "t = (now, random, pw, ip, port)" by (cases t)
  let ?u = "(sc_users sc ! i)\<lparr>u_failed := u_failed (sc_users sc ! i) + 1\<rparr>"
  have len: "i < length (sc_users sc)" and name: "u_name (sc_users sc ! i) = name"
    using user_indexD [OF Cons.prems(1)] by simp_all
  note login = wrong_password [OF Cons.prems(1,2) Cons.prems(5) [of now random pw ip port], of now random ip port]
  show ?case
  proof (cases "ts = []")
    case True
    let ?v = "?u\<lparr>u_status := USER_STATUS_LOCKED, u_lockout := now + sc_lockout sc\<rparr>"
    have "sc_max_failed sc \<le> u_failed ?u" using Cons.prems(4) True by simp
    then have run: "run_logins name (t # ts) sc = Some (set_user i ?v sc)"
      using login by (auto simp: t True Let_def)
    have "user_index (set_user i ?v sc) name = Some i" by (rule user_index_set [OF Cons.prems(1)]) (simp add: name)
    moreover have "sc_users (set_user i ?v sc) ! i = ?v" using len by (simp add: set_user_def)
    ultimately show ?thesis by (intro exI [of _ "set_user i ?v sc"] conjI run) (simp add: t True security_login_def)
  next
    case False
    have less: "\<not> sc_max_failed sc \<le> u_failed ?u" using Cons.prems(4) False by (cases ts) auto
    let ?sc = "set_user i ?u sc"
    have step: "run_logins name (t # ts) sc = run_logins name ts ?sc" using login less by (auto simp: t Let_def)
    have index: "user_index ?sc name = Some i" by (rule user_index_set [OF Cons.prems(1)]) (simp add: name)
    have u: "sc_users ?sc ! i = ?u" using len by (simp add: set_user_def)
    have frame: "sc_max_failed ?sc = sc_max_failed sc" "sc_cost ?sc = sc_cost sc" "sc_lockout ?sc = sc_lockout sc"
      by (simp_all add: set_user_def)
    have "\<exists>sc'. run_logins name ts ?sc = Some sc' \<and>
        (\<forall>now random pw ip port. now < fst (last ts) + sc_lockout ?sc \<longrightarrow>
          (\<exists>e. security_login now random name pw ip port sc' = Some (Inl e, sc')))"
    proof (rule Cons.IH [OF index _ False])
      fix now' random' pw' ip' port'
      assume "(now', random', pw', ip', port') \<in> set ts"
      then show "security_verify_password (sc_cost ?sc) pw' (u_salt (sc_users ?sc ! i)) (u_hash (sc_users ?sc ! i)) = Some False"
        using Cons.prems(5) [of now' random' pw' ip' port'] by (simp add: u frame)
    qed (use Cons.prems in \<open>simp_all add: u frame\<close>)
    then show ?thesis using False by (simp add: step frame)
  qed
qed simp

text \<open>An empty digest matches no password.\<close>

lemma no_digest:
  assumes "12 \<le> length pw"
  shows "security_verify_password cost pw [] [] = Some False"
proof -
  let ?d = "pbkdf2_spec (bytes_of pw) (hex_to_bytes [] 16) (2 ^ cost) 32"
  have "length (hex_to_bytes [] 16) = 16" by (simp add: hex_to_bytes_def)
  then have run: "pbkdf2_sha256 (bytes_of pw) (hex_to_bytes [] 16) (2 ^ cost) 32 = Some ?d"
    using assms by (simp add: pbkdf2_sha256_spec)
  have "0 < length ?d" by (simp add: length_pbkdf2_spec)
  from bytes_to_hex_nth [OF this] have "field_char (bytes_to_hex ?d) 0 = hex_char (drop_bit 4 (?d ! 0) AND 0x0F)" by simp
  moreover have "hex_char n \<noteq> CHR 0x00" if "unat n < 16" for n
  proof -
    have "hex_char n \<in> set ''0123456789abcdef''" using that unfolding hex_char_def by (intro nth_mem) simp
    then show ?thesis by auto
  qed
  ultimately have "field_char (bytes_to_hex ?d) 0 \<noteq> field_char [] 0"
    using nibble_less by (simp add: field_char_def)
  then show ?thesis
    by (auto simp: security_verify_password_def SECURITY_SALT_LENGTH_def run intro!: bexI [of _ 0])
qed

theorem brute_force_is_stopped_witness:
  "let t = \<lambda>k. (k, [], ''wrong password'', ''10.0.0.1'', 4000) in
   \<exists>sc'. run_logins ''eve'' [t 1, t 2, t 3, t 4, t 5] demo_security = Some sc' \<and>
     (\<exists>e. security_login 304 [] ''eve'' ''the right password'' ''10.0.0.1'' 4000 sc' = Some (Inl e, sc'))"
proof -
  let ?t = "\<lambda>k. (k, [], ''wrong password'', ''10.0.0.1'', 4000) :: attempt"
  let ?ts = "[?t 1, ?t 2, ?t 3, ?t 4, ?t 5]"
  have demo: "user_index demo_security ''eve'' = Some 1" "sc_users demo_security ! 1 = demo_user ''eve'' False"
      "sc_max_failed demo_security = 5" "sc_lockout demo_security = 300"
    by (simp_all add: demo_security_def init_from_file user_index_def demo_user_def)
  have "\<exists>sc'. run_logins ''eve'' ?ts demo_security = Some sc' \<and>
    (\<forall>now random pw ip port. now < fst (last ?ts) + sc_lockout demo_security \<longrightarrow>
      (\<exists>e. security_login now random ''eve'' pw ip port sc' = Some (Inl e, sc')))"
    by (rule brute_force_is_stopped [OF demo(1)]) (use demo in \<open>auto simp: demo_user_def no_digest simp del: One_nat_def\<close>)
  then show ?thesis by (auto simp: Let_def demo)
qed

section \<open>The first start\<close>

text \<open>Without a file of an earlier run the server creates its default user, whose password has nine
  characters, and hashing it writes past the buffer.\<close>

theorem first_start_overruns_a_buffer: "security_init now random None = None"
proof -
  let ?sc = "\<lparr>sc_users = [], sc_roles = [], sc_sessions = replicate SECURITY_MAX_SESSIONS zero_session, sc_count = 0,
      sc_cost = 12, sc_timeout = 3600, sc_max_failed = 5, sc_lockout = 300, sc_min_length = 8, sc_upper = True,
      sc_lower = True, sc_digit = True, sc_special = False, sc_file = None\<rparr>"
  obtain rs where rs: "security_init_roles ?sc = ?sc\<lparr>sc_roles := rs\<rparr>"
    using init_roles_frame [of ?sc] by (auto simp: security_init_roles_def)
  have "security_create_user now random ''admin'' ''Admin@123'' ''superadmin'' (?sc\<lparr>sc_roles := rs\<rparr>) = None"
    by (simp add: security_create_user_def security_find_user_def user_index_def security_validate_password_def is_upper_char_def
        is_lower_char_def is_digit_def security_hash_password_def pbkdf2_sha256_spec SECURITY_SALT_LENGTH_def bytes_of_def Let_def)
  then show ?thesis by (simp add: security_init_def security_load_def rs)
qed

end
