(* ===== verification/ServerSafety.thy ===== *)
theory ServerSafety
  imports Server AccessControl ParserTotal
begin

text \<open>
  What a client can do to the server of \<open>src/server.c\<close>: nothing before it logs in, except to overrun a
  buffer with a short password; everything the executor can do after it, whatever its role; and whose
  permissions are looked at when sessions have moved in their array.
\<close>

section \<open>The first token of a statement\<close>

lemma statement_types: "\<forall>t p. map_of (statement_table n) t = Some p \<longrightarrow> t = TOKEN_IDENTIFIER \<or> \<not> has_text t"
  by (simp add: statement_table_def has_text_def)

lemma no_identifier_create: "check_keyword v = TOKEN_IDENTIFIER \<Longrightarrow> \<not> strcasecmp_eq v ''CREATE''"
proof
  assume v: "check_keyword v = TOKEN_IDENTIFIER" and eq: "strcasecmp_eq v ''CREATE''"
  have "strcasecmp_eq v k \<longleftrightarrow> strcasecmp_eq ''CREATE'' k" for k using eq by (auto simp: strcasecmp_eq_def)
  then have "check_keyword v = check_keyword ''CREATE''" by (simp only: check_keyword_def)
  moreover have "check_keyword ''CREATE'' \<noteq> TOKEN_IDENTIFIER" by code_simp
  ultimately show False using v by simp
qed

lemma parsed_first_token:
  assumes "parse (tokenize q) = Done node i"
  shows "token_text (tokenize q) 0 = None"
proof (rule ccontr)
  assume has_value: "token_text (tokenize q) 0 \<noteq> None"
  let ?ts = "tokenize q" and ?t = "tk_type (tokenize q ! 0)"
  have wf: "wf_tokens ?ts" by (simp add: tokenize_def wf_lex_loop)
  then have ne: "?ts \<noteq> []" "?ts ! 0 \<in> set ?ts" by (auto simp: wf_tokens_def)
  have has: "has_text ?t" using wf ne has_value by (auto simp: wf_tokens_def token_text_def)
  have cur: "current_token ?ts 0 = ?ts ! 0" using ne by (simp add: current_token_def)
  show False
  proof (cases "?t = TOKEN_IDENTIFIER")
    case True
    obtain v where v: "tk_value (?ts ! 0) = Some v" using has_value by (auto simp: token_text_def)
    have "tk_type (last ?ts) \<noteq> ?t" using wf True by (simp add: wf_tokens_def)
    then have "butlast ?ts \<noteq> []" and hd: "?ts ! 0 = butlast ?ts ! 0"
      using ne by (cases ?ts rule: rev_cases; auto simp: nth_append)+
    then have "?ts ! 0 \<in> set (butlast ?ts)" using hd_in_set [of "butlast ?ts"] by (simp add: hd_conv_nth)
    then have "printable (?ts ! 0)" using lex_printable [of 1 q] by (simp add: tokenize_def list_all_iff)
    then have "check_keyword v = TOKEN_IDENTIFIER"
      using True v by (auto simp: printable_def printable_text_def symbol_type_def split: if_splits)
    then have "\<not> strcasecmp_eq v ''CREATE''" by (rule no_identifier_create)
    then show False
      using assms True v cur
      by (simp add: parse_def statement_identifier branch_def pbind_def text_of_def cur_def fail_with_def strdup_def ret_def)
  next
    case False
    have "map_of (statement_table (enough_fuel ?ts)) ?t = None"
      using statement_types [of "enough_fuel ?ts"] has False by (cases "map_of (statement_table (enough_fuel ?ts)) ?t") auto
    then show False using assms cur by (simp add: parse_def parse_statement_def dispatch_cases fail_with_def)
  qed
qed

text \<open>A client for the examples.\<close>

definition demo_client :: "nat option \<Rightarrow> string \<Rightarrow> connection" where
  "demo_client k token =
     \<lparr>cn_ip = ''10.0.0.1'', cn_port = 4000, cn_session = k, cn_token = token, cn_auth = (k \<noteq> None),
      cn_ctx = \<lparr>current_db = ''public'', current_user = ''eve''\<rparr>, cn_queries = 0, cn_stmts = stmt_store_create,
      cn_tracker = None\<rparr>"

lemma demo_client_simps [simp]:
  "cn_session (demo_client k token) = k" "cn_auth (demo_client k token) \<longleftrightarrow> k \<noteq> None" "cn_token (demo_client k token) = token"
  "cn_tracker (demo_client k token) = None" "cn_queries (demo_client k token) = 0"
  by (simp_all add: demo_client_def)

text \<open>C2: Every query of a logged-in client that the parser accepts is executed, whatever the permissions
  of its session: the first token of such a query is a keyword, keywords have no text, and the check is
  made only on a text.\<close>

theorem permissions_are_not_enforced:
  assumes "cn_auth c" and "parse (tokenize q) = Done node i"
  shows "execute_client_query (Suc n) env q sv c =
    run_statement env (tokenize q)
      (sv\<lparr>sv_security := security_touch_session (now_of env) (cn_token c) (sv_security sv)\<rparr>)
      (c\<lparr>cn_queries := cn_queries c + 1\<rparr>)"
  using assms parsed_first_token [OF assms(2)] by (simp add: Let_def)

lemma demo_tokens:
  "tokenize ''CHECKPOINT ;'' =
     [make_token TOKEN_KW_CHECKPOINT None 1, make_token TOKEN_SEMICOLON (Some '';'') 1, make_token TOKEN_EOF None 1]"
  "hd (tokenize ''PREPARE s AS SELECT * FROM t;'') = make_token TOKEN_KW_PREPARE None 1"
proof -
  have words: "check_keyword ''CHECKPOINT'' = TOKEN_KW_CHECKPOINT" "check_keyword ''PREPARE'' = TOKEN_KW_PREPARE"
    unfolding check_keyword_def keyword_table_def by (simp_all only: keyword_eval)
  have "lex_loop 1 (''CHECKPOINT'' @ CHR '' '' # '';'') = word_token ''CHECKPOINT'' 1 # lex_loop 1 '';''"
    "lex_loop 1 (''PREPARE'' @ CHR '' '' # ''s AS SELECT * FROM t;'') = word_token ''PREPARE'' 1 # lex_loop 1 ''s AS SELECT * FROM t;''"
    by (rule lex_word [of "''CHECKPOINT''" 1 "'';''"], simp, simp add: is_alpha_def, simp add: is_alpha_def is_word_char_def,
        rule lex_word [of "''PREPARE''" 1 "''s AS SELECT * FROM t;''"], simp, simp add: is_alpha_def, simp add: is_alpha_def is_word_char_def)
  moreover have "lex_loop 1 '';'' = [make_token TOKEN_SEMICOLON (Some '';'') 1, make_token TOKEN_EOF None 1]"
    by (subst lex_symbol) (simp_all add: symbol_type_def)
  ultimately show "tokenize ''CHECKPOINT ;'' =
      [make_token TOKEN_KW_CHECKPOINT None 1, make_token TOKEN_SEMICOLON (Some '';'') 1, make_token TOKEN_EOF None 1]"
    "hd (tokenize ''PREPARE s AS SELECT * FROM t;'') = make_token TOKEN_KW_PREPARE None 1"
    by (simp_all add: tokenize_def word_token_def words make_token_def del: lex_loop.simps)
qed

theorem permissions_are_not_enforced_witness:
  "\<forall>env sv. execute_client_query 1 env ''CHECKPOINT ;'' sv (demo_client (Some 0) ''t'') =
     run_statement env (tokenize ''CHECKPOINT ;'')
       (sv\<lparr>sv_security := security_touch_session (now_of env) ''t'' (sv_security sv)\<rparr>)
       ((demo_client (Some 0) ''t'')\<lparr>cn_queries := 1\<rparr>)"
proof (intro allI)
  fix env sv
  have "parse (tokenize ''CHECKPOINT ;'') = Done NODE_CMD_CHECKPOINT 2" unfolding demo_tokens(1)
    by (simp add: parse_def parse_statement_def dispatch_cases statement_table_def current_token_def make_token_def
        parse_checkpoint_def consume_def pbind_def advance_def cur_def ret_def branch_def)
  from permissions_are_not_enforced [OF _ this, of "demo_client (Some 0) ''t''" 0 env sv]
  show "execute_client_query 1 env ''CHECKPOINT ;'' sv (demo_client (Some 0) ''t'') =
     run_statement env (tokenize ''CHECKPOINT ;'')
       (sv\<lparr>sv_security := security_touch_session (now_of env) ''t'' (sv_security sv)\<rparr>)
       ((demo_client (Some 0) ''t'')\<lparr>cn_queries := 1\<rparr>)"
    by (simp only: demo_client_simps One_nat_def add_0 option.distinct simp_thms)
qed

text \<open>\<open>PREPARE\<close>, \<open>EXECUTE\<close>, \<open>DEALLOCATE\<close> and \<open>EXPLAIN\<close> are answered with a parse error in either
  language: they are keywords, and the server looks for them among the tokens with a text.\<close>

theorem prepared_statements_are_unreachable:
  assumes "cn_auth c"
    and "tk_type (hd (tokenize q)) \<in> {TOKEN_KW_PREPARE, TOKEN_KW_EXECUTE, TOKEN_KW_DEALLOCATE, TOKEN_KW_EXPLAIN}"
  shows "\<exists>sv' c'. execute_client_query (Suc n) env q sv c = Some (sv', c', [R_parse_error]) \<and>
    cn_stmts c' = cn_stmts c \<and> sv_db sv' = sv_db sv"
proof -
  let ?ts = "tokenize q"
  have wf: "wf_tokens ?ts" by (simp add: tokenize_def wf_lex_loop)
  then have ne: "?ts \<noteq> []" and hd: "hd ?ts = ?ts ! 0" by (auto simp: wf_tokens_def hd_conv_nth)
  have "\<not> has_text (tk_type (?ts ! 0))" using assms(2) by (auto simp: hd has_text_def)
  then have none: "token_text ?ts 0 = None" using wf ne by (auto simp: wf_tokens_def token_text_def)
  have "map_of (statement_table m) (tk_type (?ts ! 0)) = None" for m using assms(2) by (auto simp: hd statement_table_def)
  then have "parse ?ts = ParseError"
    using ne by (simp add: parse_def parse_statement_def dispatch_cases current_token_def fail_with_def)
  then show ?thesis using assms(1) none by (simp add: Let_def run_statement_def)
qed

theorem prepared_statements_are_unreachable_witness:
  "\<forall>env sv. \<exists>sv' c'. execute_client_query 1 env ''PREPARE s AS SELECT * FROM t;'' sv (demo_client (Some 0) ''t'') =
     Some (sv', c', [R_parse_error]) \<and> cn_stmts c' = cn_stmts (demo_client (Some 0) ''t'') \<and> sv_db sv' = sv_db sv"
proof (intro allI)
  fix env sv
  have "tk_type (hd (tokenize ''PREPARE s AS SELECT * FROM t;'')) = TOKEN_KW_PREPARE" by (simp add: demo_tokens(2) make_token_def)
  then show "\<exists>sv' c'. execute_client_query 1 env ''PREPARE s AS SELECT * FROM t;'' sv (demo_client (Some 0) ''t'') =
     Some (sv', c', [R_parse_error]) \<and> cn_stmts c' = cn_stmts (demo_client (Some 0) ''t'') \<and> sv_db sv' = sv_db sv"
    unfolding One_nat_def by (intro prepared_statements_are_unreachable) simp_all
qed

section \<open>Before the login\<close>

lemma with_tracker_frame [simp]:
  "sv_security (with_tracker f c sv) = sv_security sv" "sv_db (with_tracker f c sv) = sv_db sv"
  "sv_stmt_id (with_tracker f c sv) = sv_stmt_id sv" "length (sv_trackers (with_tracker f c sv)) = length (sv_trackers sv)"
  by (simp_all add: with_tracker_def split: option.split)

text \<open>A turn that ends, leaves server and connection alone and sends no result.\<close>

definition quiet :: "server \<Rightarrow> connection \<Rightarrow> (bool \<times> turn) option \<Rightarrow> bool" where
  "quiet sv c r \<longleftrightarrow> (\<exists>go rs. r = Some (go, sv, c, rs) \<and> (\<forall>t. R_result t \<notin> set rs))"

lemma quiet_if: "(P \<Longrightarrow> quiet sv c a) \<Longrightarrow> (\<not> P \<Longrightarrow> quiet sv c b) \<Longrightarrow> quiet sv c (if P then a else b)"
  by simp

lemma quiet_Some: "\<forall>t. R_result t \<notin> set rs \<Longrightarrow> quiet sv c (Some (go, sv, c, rs))"
  by (simp add: quiet_def)

lemma quiet_unauthenticated:
  assumes "\<not> cn_auth c" and "cmd \<noteq> ''LOGIN''"
  shows "quiet sv c (client_command (Suc depth) env input line cmd arg1 arg2 sv c)"
proof -
  have "handle_logout sv c = (sv, c, [])" "handle_whoami sv c = Some [R_not_authenticated]"
    "handle_show_users sv c = Some [R_permission_denied]"
    "handle_create_user env rest sv c = Some (sv, c, [R_permission_denied])"
    "execute_client_query (Suc depth) env q sv c = Some (sv, c, [R_auth_required])" for rest q
    using assms(1) by (simp_all add: handle_logout_def handle_whoami_def handle_show_users_def handle_create_user_def)
  note answers = this
  show ?thesis
    unfolding client_command_def Let_def answers option.map prod.case
    by (intro quiet_if quiet_Some) (use assms in \<open>simp_all only: list.set reply.distinct simp_thms insert_iff empty_iff\<close>)
qed

text \<open>The trackers after a request is counted: the one of the connection counts it, every other one stays.\<close>

definition counted :: "int \<Rightarrow> string \<Rightarrow> connection \<Rightarrow> ip_tracker list \<Rightarrow> ip_tracker list" where
  "counted now line c ts =
     (case cn_tracker c of None \<Rightarrow> ts
      | Some i \<Rightarrow> if line = [] then ts else ts[i := snd (check_rate_limit now (ts ! i))])"

lemma counted_nth:
  assumes "j < length ts"
  shows "cn_tracker c \<noteq> Some j \<Longrightarrow> counted now line c ts ! j = ts ! j"
    and "it_failed (counted now line c ts ! j) = it_failed (ts ! j)"
    and "it_lockout (counted now line c ts ! j) = it_lockout (ts ! j)"
proof -
  show "cn_tracker c \<noteq> Some j \<Longrightarrow> counted now line c ts ! j = ts ! j"
    by (auto simp: counted_def split: option.split)
  have "it_failed (snd (check_rate_limit now t)) = it_failed t" "it_lockout (snd (check_rate_limit now t)) = it_lockout t" for t
    by (simp_all add: check_rate_limit_def Let_def)
  then show "it_failed (counted now line c ts ! j) = it_failed (ts ! j)"
    "it_lockout (counted now line c ts ! j) = it_lockout (ts ! j)"
    using assms by (cases "cn_tracker c = Some j"; auto simp: counted_def split: option.split)+
qed

lemma length_counted [simp]: "length (counted now line c ts) = length ts"
  by (simp add: counted_def split: option.split)

lemma with_tracker_counted:
  "line \<noteq> [] \<Longrightarrow> with_tracker (\<lambda>t. snd (check_rate_limit now t)) c sv = sv\<lparr>sv_trackers := counted now line c (sv_trackers sv)\<rparr>"
  by (simp add: with_tracker_def counted_def split: option.split)

text \<open>C9: Whatever a client sends that has not logged in, other than \<open>LOGIN\<close>, the turn ends and sends no
  result of a query; security state, database and connection stay as they are, a line that is not
  empty is counted by the tracker of the connection, every other tracker stays, and no failed login
  is forgotten and no lockout changed.\<close>

theorem unauthenticated_client_changes_nothing:
  assumes "\<not> cn_auth c" and "upper_word (fst (scan_word 31 (first_line input))) \<noteq> ''LOGIN''"
  shows "\<exists>go rs. let ts = counted (now_of env) (first_line input) c (sv_trackers sv) in
    client_turn (Suc depth) env input sv c = Some (go, sv\<lparr>sv_trackers := ts\<rparr>, c, rs) \<and>
    (\<forall>t. R_result t \<notin> set rs) \<and> length ts = length (sv_trackers sv) \<and>
    (\<forall>j < length (sv_trackers sv). (cn_tracker c \<noteq> Some j \<longrightarrow> ts ! j = sv_trackers sv ! j) \<and>
       it_failed (ts ! j) = it_failed (sv_trackers sv ! j) \<and> it_lockout (ts ! j) = it_lockout (sv_trackers sv ! j))"
proof -
  let ?line = "first_line input" and ?now = "now_of env"
  obtain cmd r1 where w1: "scan_word 31 ?line = (cmd, r1)" by (cases "scan_word 31 ?line")
  obtain arg1 r2 where w2: "scan_word 127 r1 = (arg1, r2)" by (cases "scan_word 127 r1")
  obtain arg2 r3 where w3: "scan_word 127 r2 = (arg2, r3)" by (cases "scan_word 127 r2")
  have cmd: "upper_word cmd \<noteq> ''LOGIN''" using assms(2) by (simp only: w1 fst_conv simp_thms)
  define ts where "ts = counted ?now ?line c (sv_trackers sv)"
  have "quiet (sv\<lparr>sv_trackers := ts\<rparr>) c (client_turn (Suc depth) env input sv c)"
  proof (cases "?line = []")
    case True
    then have "sv\<lparr>sv_trackers := ts\<rparr> = sv" by (simp add: ts_def counted_def split: option.split)
    then show ?thesis using True unfolding client_turn_def Let_def by (simp add: case_prod_beta quiet_Some)
  next
    case False
    show ?thesis
      unfolding client_turn_def Let_def w1 w2 w3 prod.case with_tracker_counted [OF False] ts_def [symmetric]
      using quiet_unauthenticated [OF assms(1) cmd, of "sv\<lparr>sv_trackers := ts\<rparr>" depth env input ?line arg1 arg2] False
      by (simp add: quiet_def ex_bool_eq)
  qed
  then obtain go rs where "client_turn (Suc depth) env input sv c = Some (go, sv\<lparr>sv_trackers := ts\<rparr>, c, rs)"
      "\<forall>t. R_result t \<notin> set rs"
    unfolding quiet_def by blast
  then show ?thesis
    using counted_nth unfolding Let_def ts_def length_counted by blast
qed

theorem unauthenticated_client_changes_nothing_witness:
  "\<forall>env sv. \<exists>go rs. client_turn 1 env ''drop table t;'' sv (demo_client None []) =
     Some (go, sv\<lparr>sv_trackers := counted (now_of env) ''drop table t;'' (demo_client None []) (sv_trackers sv)\<rparr>,
       demo_client None [], rs) \<and> (\<forall>t. R_result t \<notin> set rs)"
proof (intro allI)
  fix env :: server_env and sv
  have cmd: "upper_word (fst (scan_word 31 (first_line ''drop table t;''))) \<noteq> ''LOGIN''"
    and line: "first_line ''drop table t;'' = ''drop table t;''" by code_simp+
  from unauthenticated_client_changes_nothing [where depth = 0 and env = env and sv = sv, OF _ cmd, of "demo_client None []"]
  show "\<exists>go rs. client_turn 1 env ''drop table t;'' sv (demo_client None []) =
     Some (go, sv\<lparr>sv_trackers := counted (now_of env) ''drop table t;'' (demo_client None []) (sv_trackers sv)\<rparr>,
       demo_client None [], rs) \<and> (\<forall>t. R_result t \<notin> set rs)"
    unfolding Let_def line by (auto simp only: demo_client_simps One_nat_def)
qed

text \<open>A client that has not logged in and sends a password of fewer than twelve characters for an
  active user makes the server write past a buffer.\<close>

theorem login_with_short_password_overruns:
  assumes "user_index (sv_security sv) name = Some i" and "u_status (sc_users (sv_security sv) ! i) = USER_STATUS_ACTIVE"
    and "length pw < 12" and "cn_tracker c = None \<or> it_lockout (sv_trackers sv ! the (cn_tracker c)) \<le> now_of env"
  shows "handle_login env name pw sv c = None"
proof -
  have "\<not> (case cn_tracker c of None \<Rightarrow> False | Some i \<Rightarrow> fst (is_ip_locked_out (now_of env) (sv_trackers sv ! i)))"
    using assms(4) by (auto simp: is_ip_locked_out_def split: option.split)
  moreover have "security_verify_password cost pw salt_hex hash_hex = None" for cost salt_hex hash_hex
    using assms(3)
    by (simp add: security_verify_password_def pbkdf2_sha256_spec hex_to_bytes_def SECURITY_SALT_LENGTH_def)
  ultimately show ?thesis
    using assms(1,2) by (simp add: handle_login_def Let_def security_login_def check_password_def)
qed

definition demo_server :: "security \<Rightarrow> db_state \<Rightarrow> server" where
  "demo_server sc db = \<lparr>sv_security = sc, sv_trackers = [], sv_db = db, sv_stmt_id = 0\<rparr>"

theorem login_with_short_password_overruns_witness:
  "\<forall>env db. handle_login env ''eve'' ''12345678'' (demo_server demo_security db) (demo_client None []) = None"
proof (intro allI)
  fix env db
  show "handle_login env ''eve'' ''12345678'' (demo_server demo_security db) (demo_client None []) = None"
    by (rule login_with_short_password_overruns [of _ _ 1])
      (simp_all add: demo_server_def demo_security_def init_from_file user_index_def demo_user_def)
qed

section \<open>Sessions that move\<close>

lemma session_behind_removed:
  assumes "j < i" and "i + 1 < sc_count sc" and "sc_count sc \<le> length (sc_sessions sc)"
  shows "sc_sessions (remove_session j sc) ! i = sc_sessions sc ! (i + 1)"
  using assms by (simp add: remove_session_def close_gap_def nth_append min_def)

text \<open>C18: When a client logs out, every client whose session lies behind in the array is left pointing
  to the session of the next one: it may from then on what that one may.\<close>

theorem logout_shifts_the_permissions_of_others:
  assumes "sc_count (sv_security sv) \<le> length (sc_sessions (sv_security sv))"
    and "cn_auth a" and "cn_session a \<noteq> None" and "session_index (sv_security sv) (cn_token a) = Some j"
    and "cn_session b = Some i" and "j < i" and "i + 1 < sc_count (sv_security sv)"
    and "cn_session victim = Some (i + 1)"
  shows "case handle_logout sv a of (sv', a', rs) \<Rightarrow>
    session_of sv' b = session_of sv victim \<and> (\<forall>perm. may sv' b perm = may sv victim perm) \<and>
    (\<forall>cmd. authorized sv' b cmd = authorized sv victim cmd)"
proof -
  have "session_of (sv\<lparr>sv_security := security_logout (cn_token a) (sv_security sv)\<rparr>) b = session_of sv victim"
    using assms session_behind_removed [of j i "sv_security sv"]
    by (simp add: session_of_def security_logout_def)
  then show ?thesis using assms(2,3) by (simp add: handle_logout_def may_def authorized_def)
qed

definition demo_session :: "string \<Rightarrow> bool \<Rightarrow> sec_session" where
  "demo_session token super = zero_session\<lparr>ss_token := token, ss_authenticated := True, ss_super := super\<rparr>"

theorem logout_shifts_the_permissions_of_others_witness:
  "\<forall>db. let sc = demo_security\<lparr>sc_sessions := [demo_session ''a'' False, demo_session ''b'' False, demo_session ''c'' True],
         sc_count := 3\<rparr>; b = demo_client (Some 1) ''b''; sv = demo_server sc db
     in \<not> may sv b PERM_DROP_DB \<and> may (fst (handle_logout sv (demo_client (Some 0) ''a''))) b PERM_DROP_DB"
proof (intro allI)
  fix db
  let ?sc = "demo_security\<lparr>sc_sessions := [demo_session ''a'' False, demo_session ''b'' False, demo_session ''c'' True],
    sc_count := 3\<rparr>"
  let ?sv = "demo_server ?sc db"
  have "session_index ?sc ''a'' = Some 0"
    by (simp add: session_index_def live_sessions_def demo_session_def zero_session_def)
  then have "case handle_logout ?sv (demo_client (Some 0) ''a'') of (sv', a', rs) \<Rightarrow>
      session_of sv' (demo_client (Some 1) ''b'') = session_of ?sv (demo_client (Some 2) ''c'') \<and>
      (\<forall>perm. may sv' (demo_client (Some 1) ''b'') perm = may ?sv (demo_client (Some 2) ''c'') perm) \<and>
      (\<forall>cmd. authorized sv' (demo_client (Some 1) ''b'') cmd = authorized ?sv (demo_client (Some 2) ''c'') cmd)"
    by (intro logout_shifts_the_permissions_of_others) (simp_all add: demo_server_def)
  moreover have "\<not> may ?sv (demo_client (Some 1) ''b'') PERM_DROP_DB" "may ?sv (demo_client (Some 2) ''c'') PERM_DROP_DB"
    by (simp_all add: may_def session_of_def demo_server_def demo_session_def zero_session_def security_session_has_permission_def)
  ultimately show "let sc = ?sc; b = demo_client (Some 1) ''b''; sv = demo_server sc db
     in \<not> may sv b PERM_DROP_DB \<and> may (fst (handle_logout sv (demo_client (Some 0) ''a''))) b PERM_DROP_DB"
    unfolding Let_def by (simp only: case_prod_beta simp_thms)
qed

section \<open>Users are created by permission only\<close>

lemma length_users_set [simp]: "length (sc_users (set_user i u sc)) = length (sc_users sc)"
  by (simp add: set_user_def)

lemma users_session_ops [simp]:
  "sc_users (set_session k ss sc) = sc_users sc" "sc_users (security_touch_session now token sc) = sc_users sc"
  "sc_users (security_logout token sc) = sc_users sc" "sc_users (remove_session i sc) = sc_users sc"
  by (simp_all add: set_session_def security_touch_session_def security_logout_def remove_session_def split: option.split)

lemma users_cleanup [simp]: "sc_users (snd (cleanup_loop now k sc)) = sc_users sc"
  by (induction now k sc rule: cleanup_loop.induct) (simp_all add: case_prod_beta)

lemma login_keeps_number:
  "security_login now random name pw ip port sc = Some (r, sc') \<Longrightarrow> length (sc_users sc') = length (sc_users sc)"
  by (auto simp: security_login_def check_password_def failed_login_def open_session_def room_for_session_def
      security_cleanup_sessions_def security_lock_user_def Let_def case_prod_beta split: option.splits if_splits)

lemma query_keeps_users:
  "execute_client_query n env q sv c = Some (sv', c', rs) \<Longrightarrow> sc_users (sv_security sv') = sc_users (sv_security sv)"
proof (induction n arbitrary: q sv c sv' c' rs)
  case (Suc n)
  define s d ts where "s = sv\<lparr>sv_security := security_touch_session (now_of env) (cn_token c) (sv_security sv)\<rparr>"
    and "d = c\<lparr>cn_queries := cn_queries c + 1\<rparr>" and "ts = tokenize q"
  note query = Suc.prems [unfolded execute_client_query.simps Let_def, folded s_def d_def ts_def]
  have users: "sc_users (sv_security s) = sc_users (sv_security sv)" by (simp add: s_def)
  have run: "run_statement env ts s d = Some (sv', c', rs) \<Longrightarrow> ?case"
    using users by (auto simp: run_statement_def split: outcome.splits)
  show ?case
  proof (cases "cn_auth c")
    case True
    show ?thesis
    proof (cases "token_text ts 0")
      case None
      then show ?thesis using query True run by simp
    next
      case (Some cmd)
      consider (prepare) "is_word cmd [''PREPARE'', ''TAYYAR'']"
        | (exec) "\<not> is_word cmd [''PREPARE'', ''TAYYAR'']" "is_word cmd [''EXECUTE'', ''CHALAO'']"
        | (others) "\<not> is_word cmd [''PREPARE'', ''TAYYAR'']" "\<not> is_word cmd [''EXECUTE'', ''CHALAO'']"
        by blast
      then show ?thesis
      proof cases
        case prepare
        then have "prepare_command env q ts s d = Some (sv', c', rs)" using query True Some by simp
        then show ?thesis
          using users by (auto simp: prepare_command_def split: option.splits if_splits outcome.splits prod.splits)
      next
        case exec
        show ?thesis
        proof (cases "length ts < 2")
          case False
          obtain name where name: "token_text ts 1 = Some name" using query True Some exec False by (cases "token_text ts 1") simp_all
          obtain rc res store where ex: "stmt_execute (now_of env) (cn_stmts d) name (using_params env q) = (rc, res, store)"
            by (cases "stmt_execute (now_of env) (cn_stmts d) name (using_params env q)")
          show ?thesis
          proof (cases res)
            case None
            then show ?thesis using query True Some exec False name ex users by simp
          next
            case (Some resolved)
            then obtain rs' where "execute_client_query n env resolved s (d\<lparr>cn_stmts := store\<rparr>) = Some (sv', c', rs')"
              using query True \<open>token_text ts 0 = Some cmd\<close> exec False name ex by auto
            then show ?thesis using Suc.IH users by simp
          qed
        qed (use query True Some exec users in simp)
      next
        case others
        have deal: "deallocate_command ts s d = Some (sv', c', rs) \<Longrightarrow> ?thesis"
          using users by (auto simp: deallocate_command_def Let_def split: option.splits if_splits prod.splits)
        show ?thesis
          using query True Some others run deal users by (auto split: if_splits)
      qed
    qed
  qed (use query in simp)
qed simp


lemma demo_create_user:
  "user_password '' Secret123456'' = ''Secret123456''" "user_role ''bob Secret123456'' = ''guest''"
  by code_simp+


end
