(* ===== verification/ServerSystem.thy ===== *)
theory ServerSystem
  imports ServerSafety
begin

text \<open>
  The server with its clients as one system: clients connect, take turns in any order and leave. A turn
  is one step, so the turns of different clients follow one another. The threads of \<open>src/server.c\<close> do
  not: \<open>security_login\<close> and \<open>security_logout\<close> take no lock, and their steps can mix. What turns that do
  not overlap keep, the invariant of \<open>src/security.c\<close> and that a connection is logged in exactly when it
  points into the session array, is proved next to what two logins that overlap do to the array.
\<close>

section \<open>Steps\<close>

text \<open>Turns one after the other.\<close>

inductive server_step :: "server \<times> connection list \<Rightarrow> server \<times> connection list \<Rightarrow> bool" where
  client_connects: "accept_client now ip port sv = (c, sv') \<Longrightarrow> server_step (sv, cs) (sv', cs @ [c])"
| client_acts: "i < length cs \<Longrightarrow> client_turn depth env input sv (cs ! i) = Some (go, sv', c, rs) \<Longrightarrow>
    server_step (sv, cs) (if go then (sv', cs[i := c]) else (disconnect sv' c, take i cs @ drop (i + 1) cs))"
| client_leaves: "i < length cs \<Longrightarrow> server_step (sv, cs) (disconnect sv (cs ! i), take i cs @ drop (i + 1) cs)"

inductive server_reachable :: "server \<times> connection list \<Rightarrow> bool" where
  server_starts: "sec_reachable (sv_security sv) \<Longrightarrow> sv_trackers sv = [] \<Longrightarrow> server_reachable (sv, [])"
| server_steps: "server_reachable s \<Longrightarrow> server_step s t \<Longrightarrow> server_reachable t"

definition connection_wf :: "nat \<Rightarrow> connection \<Rightarrow> bool" where
  "connection_wf n c \<longleftrightarrow>
     (case cn_session c of None \<Rightarrow> \<not> cn_auth c | Some k \<Rightarrow> cn_auth c \<and> k < SECURITY_MAX_SESSIONS) \<and>
     (case cn_tracker c of None \<Rightarrow> True | Some i \<Rightarrow> i < n)"

definition server_wf :: "server \<times> connection list \<Rightarrow> bool" where
  "server_wf s \<longleftrightarrow> sec_reachable (sv_security (fst s)) \<and> length (sv_trackers (fst s)) \<le> MAX_CLIENTS \<and>
     (\<forall>c \<in> set (snd s). connection_wf (length (sv_trackers (fst s))) c)"

text \<open>What a turn keeps: the security state reachable, the number of trackers, the connection.\<close>

definition good_turn :: "server \<Rightarrow> (bool \<times> turn) option \<Rightarrow> bool" where
  "good_turn sv r \<longleftrightarrow> (case r of None \<Rightarrow> True | Some (go, sv', c', rs) \<Rightarrow>
     sec_reachable (sv_security sv') \<and> length (sv_trackers sv') = length (sv_trackers sv) \<and>
     connection_wf (length (sv_trackers sv)) c')"

lemma good_if: "(P \<Longrightarrow> good_turn sv a) \<Longrightarrow> (\<not> P \<Longrightarrow> good_turn sv b) \<Longrightarrow> good_turn sv (if P then a else b)"
  by simp

lemma login_index:
  assumes "security_wf sc" and "security_login now random name pw ip port sc = Some (Inr k, sc')"
  shows "k < SECURITY_MAX_SESSIONS"
  using assms
  by (auto simp: security_login_def check_password_def open_session_def Let_def case_prod_beta split: option.splits if_splits)

lemma good_login:
  assumes "sec_reachable (sv_security sv)" and "connection_wf (length (sv_trackers sv)) c"
  shows "good_turn sv (map_option (\<lambda>t. (True, t)) (handle_login env name pw sv c))"
proof -
  have "sec_reachable sc'" if "security_login now random name pw ip port (sv_security sv) = Some (r, sc')" for now random ip port r sc'
    by (rule sec_login [OF assms(1) that])
  then show ?thesis
    using assms login_index [OF sec_reachable_wf [OF assms(1)]]
    by (auto simp: good_turn_def handle_login_def Let_def connection_wf_def case_prod_beta split: option.splits sum.splits)
qed

lemma query_good:
  assumes "sec_reachable (sv_security sv)" and "execute_client_query n env q sv c = Some (sv', c', rs)"
  shows "sec_reachable (sv_security sv') \<and> sv_trackers sv' = sv_trackers sv \<and> cn_session c' = cn_session c \<and>
    cn_auth c' = cn_auth c \<and> cn_tracker c' = cn_tracker c"
  using assms
proof (induction n arbitrary: q sv c sv' c' rs)
  case (Suc n)
  define s d ts where "s = sv\<lparr>sv_security := security_touch_session (now_of env) (cn_token c) (sv_security sv)\<rparr>"
    and "d = c\<lparr>cn_queries := cn_queries c + 1\<rparr>" and "ts = tokenize q"
  note query = Suc.prems(2) [unfolded execute_client_query.simps Let_def, folded s_def d_def ts_def]
  have frame: "sec_reachable (sv_security s)" "sv_trackers s = sv_trackers sv" "cn_session d = cn_session c"
      "cn_auth d = cn_auth c" "cn_tracker d = cn_tracker c"
    using sec_touch [OF Suc.prems(1)] by (simp_all add: s_def d_def)
  have run: "run_statement env ts s d = Some (sv', c', rs) \<Longrightarrow> ?case"
    using frame by (auto simp: run_statement_def split: outcome.splits)
  show ?case
  proof (cases "cn_auth c")
    case True
    show ?thesis
    proof (cases "token_text ts 0")
      case None
      then show ?thesis using query True run by simp
    next
      case (Some cmd)
      consider (prepare) "is_word cmd [''PREPARE'', ''TAYYAR'']"
        | (exec) "\<not> is_word cmd [''PREPARE'', ''TAYYAR'']" "is_word cmd [''EXECUTE'', ''CHALAO'']"
        | (others) "\<not> is_word cmd [''PREPARE'', ''TAYYAR'']" "\<not> is_word cmd [''EXECUTE'', ''CHALAO'']"
        by blast
      then show ?thesis
      proof cases
        case prepare
        then have "prepare_command env q ts s d = Some (sv', c', rs)" using query True Some by simp
        then show ?thesis
          using frame by (auto simp: prepare_command_def split: option.splits if_splits outcome.splits prod.splits)
      next
        case exec
        show ?thesis
        proof (cases "length ts < 2")
          case False
          obtain name where name: "token_text ts 1 = Some name" using query True Some exec False by (cases "token_text ts 1") simp_all
          obtain rc res store where ex: "stmt_execute (now_of env) (cn_stmts d) name (using_params env q) = (rc, res, store)"
            by (cases "stmt_execute (now_of env) (cn_stmts d) name (using_params env q)")
          show ?thesis
          proof (cases res)
            case None
            then show ?thesis using query True Some exec False name ex frame by auto
          next
            case (Some resolved)
            then obtain rs' where "execute_client_query n env resolved s (d\<lparr>cn_stmts := store\<rparr>) = Some (sv', c', rs')"
              using query True \<open>token_text ts 0 = Some cmd\<close> exec False name ex by auto
            from Suc.IH [OF frame(1) this] show ?thesis using frame by simp
          qed
        qed (use query True Some exec frame in auto)
      next
        case others
        have deal: "deallocate_command ts s d = Some (sv', c', rs) \<Longrightarrow> ?thesis"
          using frame by (auto simp: deallocate_command_def Let_def split: option.splits if_splits prod.splits)
        show ?thesis
          using query True Some others run deal frame by (auto split: if_splits)
      qed
    qed
  qed (use query Suc.prems(1) in auto)
qed simp

lemma good_query:
  "sec_reachable (sv_security sv) \<Longrightarrow> connection_wf (length (sv_trackers sv)) c \<Longrightarrow>
   good_turn sv (map_option (\<lambda>t. (True, t)) (execute_client_query n env q sv c))"
proof (cases "execute_client_query n env q sv c")
  case (Some t)
  assume wf: "sec_reachable (sv_security sv)" "connection_wf (length (sv_trackers sv)) c"
  obtain sv' c' rs where t: "t = (sv', c', rs)" by (cases t)
  note kept = query_good [OF wf(1) Some [unfolded t]]
  then have "connection_wf (length (sv_trackers sv)) c'" using wf(2) unfolding connection_wf_def by (elim conjE) (simp only: simp_thms)
  then show ?thesis using kept by (simp add: Some t good_turn_def)
qed (simp add: good_turn_def)

lemma good_create_user:
  assumes "sec_reachable (sv_security sv)" and "connection_wf (length (sv_trackers sv)) c"
  shows "good_turn sv (map_option (\<lambda>t. (True, t)) (handle_create_user env args sv c))"
proof -
  have "sec_reachable sc'" if "security_create_user now salt name pw role (sv_security sv) = Some (r, sc')" for now salt name pw role r sc'
    by (rule sec_create_user [OF assms(1) that])
  then show ?thesis
    using assms by (auto simp: good_turn_def handle_create_user_def Let_def split: option.splits)
qed

lemma good_command:
  assumes "sec_reachable (sv_security sv)" and "connection_wf (length (sv_trackers sv)) c"
  shows "good_turn sv (client_command depth env input line cmd arg1 arg2 sv c)"
proof -
  have quiet: "good_turn sv (Some (go, sv, c, rs))" "good_turn sv (map_option (\<lambda>t. (True, t)) (map_option (\<lambda>rs. (sv, c, rs)) q))" for go rs q
    using assms by (auto simp: good_turn_def split: option.split)
  have logout: "good_turn sv (Some (True, handle_logout sv c))"
    using assms sec_logout [OF assms(1)] by (auto simp: good_turn_def handle_logout_def connection_wf_def split: option.split)
  show ?thesis
    unfolding client_command_def Let_def
    by (intro good_if quiet logout good_login good_query good_create_user assms)
qed

lemma good_client_turn:
  assumes "sec_reachable (sv_security sv)" and "connection_wf (length (sv_trackers sv)) c"
  shows "good_turn sv (client_turn depth env input sv c)"
proof -
  let ?sv = "with_tracker (\<lambda>t. snd (check_rate_limit (now_of env) t)) c sv"
  have "good_turn ?sv (client_command depth env input line cmd arg1 arg2 ?sv c)" for line cmd arg1 arg2
    using assms by (intro good_command) simp_all
  then have "good_turn sv (client_command depth env input line cmd arg1 arg2 ?sv c)" for line cmd arg1 arg2
    by (simp only: good_turn_def with_tracker_frame)
  then show ?thesis
    using assms by (simp add: client_turn_def Let_def case_prod_beta) (simp add: good_turn_def)
qed

lemma connection_auth: "connection_wf n c \<Longrightarrow> cn_auth c \<longleftrightarrow> (\<exists>k < SECURITY_MAX_SESSIONS. cn_session c = Some k)"
  by (cases "cn_session c") (auto simp: connection_wf_def)

lemma server_step_wf: "server_step s t \<Longrightarrow> server_wf s \<Longrightarrow> server_wf t"
proof (induction rule: server_step.induct)
  case (client_connects now ip port sv c sv' cs)
  then show ?case
    by (auto simp: accept_client_def find_or_create_ip_tracker_def server_wf_def connection_wf_def Let_def
        dest: first_idx_SomeD split: option.splits if_splits)
next
  case (client_acts i cs depth env input sv go sv' c rs)
  have wf: "sec_reachable (sv_security sv)" "connection_wf (length (sv_trackers sv)) (cs ! i)"
    using client_acts by (auto simp: server_wf_def)
  from good_client_turn [OF this, of depth env input] client_acts(2)
  have "sec_reachable (sv_security sv')" "length (sv_trackers sv') = length (sv_trackers sv)"
      "connection_wf (length (sv_trackers sv)) c"
    by (auto simp: good_turn_def)
  then show ?case
    using client_acts(1,3)
    by (auto simp: server_wf_def disconnect_def sec_logout dest!: subsetD [OF set_update_subset_insert]
        dest: in_set_takeD in_set_dropD)
next
  case (client_leaves i cs sv)
  then show ?case
    by (auto simp: server_wf_def disconnect_def sec_logout dest: in_set_takeD in_set_dropD)
qed

lemma server_reachable_wf: "server_reachable s \<Longrightarrow> server_wf s"
proof (induction rule: server_reachable.induct)
  case (server_steps s t)
  then show ?case by (blast intro: server_step_wf)
qed (simp add: server_wf_def)

lemma server_wf_facts:
  assumes "server_wf (sv, cs)"
  shows "(\<exists>u \<in> set (sc_users (sv_security sv)). u_super u) \<and> sc_count (sv_security sv) \<le> SECURITY_MAX_SESSIONS \<and>
    length (sv_trackers sv) \<le> MAX_CLIENTS \<and>
    (\<forall>c \<in> set cs. cn_auth c \<longleftrightarrow> (\<exists>k < SECURITY_MAX_SESSIONS. cn_session c = Some k))"
proof -
  have wf: "sec_reachable (sv_security sv)" "length (sv_trackers sv) \<le> MAX_CLIENTS"
      "\<forall>c \<in> set cs. connection_wf (length (sv_trackers sv)) c"
    using assms by (simp_all add: server_wf_def)
  have "filter u_super (sc_users (sv_security sv)) \<noteq> []" "sc_count (sv_security sv) \<le> SECURITY_MAX_SESSIONS"
    using sec_reachable_wf [OF wf(1)] by (auto simp: security_wf_def users_ok_def super_count_def)
  then show ?thesis using wf(2,3) connection_auth by (auto simp: filter_empty_conv)
qed

section \<open>Logins that overlap\<close>

text \<open>\<open>security_login\<close> up to the check that there is room for a session: the user's index, or the reason
  for refusing. What follows is \<open>open_session\<close>, and nothing keeps other threads out in between.\<close>

definition login_check :: "int \<Rightarrow> string \<Rightarrow> string \<Rightarrow> security \<Rightarrow> ((string + nat) \<times> security) option" where
  "login_check now name pw sc =
     (case user_index sc name of
        None \<Rightarrow> Some (Inl ''Invalid username or password'', sc)
      | Some i \<Rightarrow>
          let u = sc_users sc ! i
          in if u_status u = USER_STATUS_LOCKED \<and> now < u_lockout u
             then Some (Inl (''Account locked. Try again in '' @ show_int (u_lockout u - now) @ '' seconds''), sc)
             else
               let sc = (if u_status u = USER_STATUS_LOCKED then set_user i (lift_lockout u) sc else sc);
                   u = sc_users sc ! i
               in if u_status u \<noteq> USER_STATUS_ACTIVE then Some (Inl ''Account is disabled'', sc)
                  else map_option (\<lambda>ok.
                    if \<not> ok then (let (e, sc) = failed_login now i name sc in (Inl e, sc))
                    else
                      let sc = room_for_session now sc
                      in if SECURITY_MAX_SESSIONS \<le> sc_count sc then (Inl ''Maximum sessions reached'', sc) else (Inr i, sc))
                    (security_verify_password (sc_cost sc) pw (u_salt u) (u_hash u)))"

text \<open>Without an interruption the two parts are the login.\<close>

lemma login_in_two_parts:
  "security_login now random name pw ip port sc =
     map_option (\<lambda>(r, sc). case r of
         Inl e \<Rightarrow> (Inl e, sc)
       | Inr i \<Rightarrow> let (k, sc) = open_session now random i name ip port sc in (Inr k, sc))
       (login_check now name pw sc)"
  unfolding security_login_def login_check_def check_password_def Let_def
  by (simp add: option.map_comp comp_def case_prod_beta split: option.split) (auto simp: option.map_comp comp_def case_prod_beta intro!: option.map_cong)

lemma login_check_count:
  assumes "login_check now name pw sc = Some (Inr i, sc')" and "sc_count sc < SECURITY_MAX_SESSIONS"
  shows "sc_count sc' = sc_count sc" "sc_sessions sc' = sc_sessions sc"
  using assms
  by (auto simp: login_check_def Let_def room_for_session_def set_user_def failed_login_def case_prod_beta
      split: option.splits if_splits)

lemma open_session_count:
  "fst (open_session now random i name ip port sc) = sc_count sc"
  "sc_count (snd (open_session now random i name ip port sc)) = sc_count sc + 1"
  "length (sc_sessions (snd (open_session now random i name ip port sc))) = length (sc_sessions sc)"
  by (simp_all add: open_session_def Let_def set_user_def set_session_def)

text \<open>C3: As long as the turns of the clients do not overlap, in whatever order they come and however many
  clients there are, a superuser always remains, no session is opened outside its array, and a
  connection is logged in exactly when it points into that array. The server does not keep turns apart.
  When one session is free and a second login passes the check for room before the first has opened its
  session, both open one, and that of the second lies behind the end of the array.\<close>

theorem server_invariant:
  "(server_reachable (sv, cs) \<longrightarrow>
      (\<exists>u \<in> set (sc_users (sv_security sv)). u_super u) \<and> sc_count (sv_security sv) \<le> SECURITY_MAX_SESSIONS \<and>
      length (sv_trackers sv) \<le> MAX_CLIENTS \<and>
      (\<forall>c \<in> set cs. cn_auth c \<longleftrightarrow> (\<exists>k < SECURITY_MAX_SESSIONS. cn_session c = Some k))) \<and>
   (sc_count sc + 1 = SECURITY_MAX_SESSIONS \<and> length (sc_sessions sc) = SECURITY_MAX_SESSIONS \<and>
      login_check now1 name1 pw1 sc = Some (Inr i1, sc1) \<and> login_check now2 name2 pw2 sc1 = Some (Inr i2, sc2) \<longrightarrow>
      (let (k1, sc3) = open_session now1 random1 i1 name1 ip1 port1 sc2;
           (k2, sc4) = open_session now2 random2 i2 name2 ip2 port2 sc3
       in k1 < length (sc_sessions sc2) \<and> k2 = length (sc_sessions sc3) \<and> SECURITY_MAX_SESSIONS < sc_count sc4))"
proof (intro conjI impI)
  assume "server_reachable (sv, cs)"
  then show "(\<exists>u \<in> set (sc_users (sv_security sv)). u_super u)" "sc_count (sv_security sv) \<le> SECURITY_MAX_SESSIONS"
    "length (sv_trackers sv) \<le> MAX_CLIENTS" "\<forall>c \<in> set cs. cn_auth c \<longleftrightarrow> (\<exists>k < SECURITY_MAX_SESSIONS. cn_session c = Some k)"
    using server_wf_facts [OF server_reachable_wf] by blast+
next
  assume a: "sc_count sc + 1 = SECURITY_MAX_SESSIONS \<and> length (sc_sessions sc) = SECURITY_MAX_SESSIONS \<and>
      login_check now1 name1 pw1 sc = Some (Inr i1, sc1) \<and> login_check now2 name2 pw2 sc1 = Some (Inr i2, sc2)"
  then have "sc_count sc1 = sc_count sc" "sc_sessions sc1 = sc_sessions sc" using login_check_count [of now1 name1 pw1 sc i1 sc1] by auto
  moreover from this have "sc_count sc2 = sc_count sc1" "sc_sessions sc2 = sc_sessions sc1"
    using a login_check_count [of now2 name2 pw2 sc1 i2 sc2] by auto
  ultimately show "let (k1, sc3) = open_session now1 random1 i1 name1 ip1 port1 sc2;
           (k2, sc4) = open_session now2 random2 i2 name2 ip2 port2 sc3
       in k1 < length (sc_sessions sc2) \<and> k2 = length (sc_sessions sc3) \<and> SECURITY_MAX_SESSIONS < sc_count sc4"
    using a by (simp add: Let_def case_prod_beta open_session_count)
qed

text \<open>A user whose stored digest is that of the password.\<close>

lemma own_password:
  assumes "length salt = 16" and "12 \<le> length p"
  shows "security_verify_password cost p (bytes_to_hex salt) (bytes_to_hex (pbkdf2_spec (bytes_of p) salt (2 ^ cost) 32)) = Some True"
  using assms hex_roundtrip [of salt]
  by (simp add: security_verify_password_def SECURITY_SALT_LENGTH_def pbkdf2_sha256_spec)

definition crowded :: security where
  "crowded = demo_security\<lparr>sc_users := [demo_user ''root'' True,
       (demo_user ''eve'' False)\<lparr>u_salt := bytes_to_hex (replicate 16 7),
         u_hash := bytes_to_hex (pbkdf2_spec (bytes_of ''the right password'') (replicate 16 7) (2 ^ sc_cost demo_security) 32)\<rparr>],
     sc_sessions := replicate SECURITY_MAX_SESSIONS zero_session, sc_count := SECURITY_MAX_SESSIONS - 1\<rparr>"

lemma crowded_check: "login_check now ''eve'' ''the right password'' crowded = Some (Inr 1, crowded)"
proof -
  have "user_index crowded ''eve'' = Some 1" "\<not> SECURITY_MAX_SESSIONS \<le> sc_count crowded" "sc_cost crowded = sc_cost demo_security"
    "sc_users crowded ! 1 = (demo_user ''eve'' False)\<lparr>u_salt := bytes_to_hex (replicate 16 7),
         u_hash := bytes_to_hex (pbkdf2_spec (bytes_of ''the right password'') (replicate 16 7) (2 ^ sc_cost demo_security) 32)\<rparr>"
    by (simp_all add: crowded_def user_index_def demo_user_def)
  then show ?thesis by (simp add: login_check_def Let_def demo_user_def own_password room_for_session_def)
qed

theorem server_invariant_witness:
  "\<forall>db. (let sc = sv_security (demo_server demo_security db)
     in (\<exists>u \<in> set (sc_users sc). u_super u) \<and> sc_count sc \<le> SECURITY_MAX_SESSIONS) \<and>
   fst (open_session 6 [] 1 ''eve'' ''10.0.0.2'' 4001 (snd (open_session 5 [] 1 ''eve'' ''10.0.0.1'' 4000 crowded))) =
     SECURITY_MAX_SESSIONS"
proof
  fix db
  let ?sc = "snd (open_session 5 [] 1 ''eve'' ''10.0.0.1'' 4000 crowded)"
  have r: "server_reachable (demo_server demo_security db, [])"
    by (rule server_starts) (simp_all add: demo_server_def demo_reachable)
  have c: "sc_count crowded + 1 = SECURITY_MAX_SESSIONS \<and> length (sc_sessions crowded) = SECURITY_MAX_SESSIONS"
    by (simp add: crowded_def)
  note I = server_invariant [where sc = crowded and ?sc1.0 = crowded and ?sc2.0 = crowded]
  have "let sc = sv_security (demo_server demo_security db)
     in (\<exists>u \<in> set (sc_users sc). u_super u) \<and> sc_count sc \<le> SECURITY_MAX_SESSIONS"
    using I [THEN conjunct1] r unfolding Let_def by blast
  moreover have "fst (open_session 6 [] 1 ''eve'' ''10.0.0.2'' 4001 ?sc) = length (sc_sessions ?sc)"
    using I [THEN conjunct2, rule_format, OF conjI [OF conjunct1 [OF c] conjI [OF conjunct2 [OF c] conjI [OF crowded_check crowded_check]]],
        of 5 "[]" "''10.0.0.1''" 4000 6 "[]" "''10.0.0.2''" 4001]
    by (simp only: Let_def case_prod_beta)
  ultimately show "(let sc = sv_security (demo_server demo_security db)
     in (\<exists>u \<in> set (sc_users sc). u_super u) \<and> sc_count sc \<le> SECURITY_MAX_SESSIONS) \<and>
   fst (open_session 6 [] 1 ''eve'' ''10.0.0.2'' 4001 ?sc) = SECURITY_MAX_SESSIONS"
    using c by (simp only: open_session_count)
qed

section \<open>Rate limiting\<close>

text \<open>The number of requests of a list of times that are let through.\<close>

fun allowed :: "int list \<Rightarrow> ip_tracker \<Rightarrow> nat" where
  "allowed [] t = 0"
| "allowed (now # ts) t = (case check_rate_limit now t of (ok, t') \<Rightarrow> (if ok then 1 else 0) + allowed ts t')"

lemma allowed_in_window:
  "\<forall>now \<in> set ts. now - it_minute t < 60 \<Longrightarrow> int (allowed ts t) \<le> max 0 (MAX_QUERIES_PER_MINUTE - it_queries t)"
proof (induction ts arbitrary: t)
  case (Cons now ts)
  let ?t = "t\<lparr>it_queries := it_queries t + 1, it_activity := now\<rparr>"
  have step: "check_rate_limit now t = (it_queries t + 1 \<le> MAX_QUERIES_PER_MINUTE, ?t)"
    using Cons.prems by (simp add: check_rate_limit_def)
  have "int (allowed ts ?t) \<le> max 0 (MAX_QUERIES_PER_MINUTE - it_queries ?t)"
    by (rule Cons.IH) (use Cons.prems in simp)
  then show ?case by (auto simp: step)
qed simp



end
