(* ===== verification/Documents.thy ===== *)
theory Documents
  imports Executor QueryCache
begin

text \<open>
  The document store, \<open>src/nosql.c\<close>: JSON texts under keys of the key-value store, read by searching
  for a quoted field name. Collections, insertion, search, update, deletion and the pipeline of
  \<open>AGGREGATE\<close>. The random numbers and the clock are arguments; the counter of identifiers is a state
  that goes in and out. Lists of documents are lists. \<open>None\<close> is undefined behaviour: a value without
  its terminator, a list that is used after it was freed.
\<close>

section \<open>Documents\<close>

record document =
  d_id :: string
  d_json :: string
  d_version :: u64
  d_created :: u64
  d_updated :: u64

text \<open>\<open>snprintf\<close> into \<open>n\<close> bytes cuts; \<open>%0nllx\<close> of a value of at most \<open>n\<close> digits; \<open>%llu\<close>.\<close>

definition snprintf_buf :: "nat \<Rightarrow> string \<Rightarrow> string" where
  "snprintf_buf n s = take (n - 1) s"

definition hex_fixed :: "nat \<Rightarrow> nat \<Rightarrow> string" where
  "hex_fixed n v = map (\<lambda>i. hex_digit (v div 16 ^ i mod 16)) (rev [0..<n])"

definition show_u64 :: "u64 \<Rightarrow> string" where
  "show_u64 w = show_nat (unat w)"

text \<open>The random number is indexed by the value of the counter.\<close>

definition nosql_generate_id :: "exec_env \<Rightarrow> (u64 \<Rightarrow> u32) \<Rightarrow> u64 \<Rightarrow> string \<times> u64" where
  "nosql_generate_id env rnd ids =
     (let ids = ids + 1
      in (hex_fixed 8 (unat (word_of_int (ee_now env) :: u32)) @ hex_fixed 8 (unat (rnd ids)) @
          hex_fixed 4 (unat (ids AND 0xFFFF)), ids))"

text \<open>A string up to its closing quote, and what follows from there on.\<close>

fun json_text :: "string \<Rightarrow> string \<times> string" where
  "json_text [] = ([], [])"
| "json_text [c] = (if c = double_quote then ([], [c]) else ([c], []))"
| "json_text (c # d # s) =
     (if c = double_quote then ([], c # d # s)
      else if c = CHR 0x5C then (let (v, r) = json_text s in (c # d # v, r))
      else (let (v, r) = json_text (d # s) in (c # v, r)))"

definition json_search :: "string \<Rightarrow> string" where
  "json_search key = snprintf_buf 128 (quoted key)"

text \<open>What follows the first occurrence of the quoted name, the blanks and colons behind it.\<close>

definition json_after :: "string \<Rightarrow> string \<Rightarrow> string option" where
  "json_after json key =
     map_option (\<lambda>found. dropWhile (\<lambda>c. c = CHR '' '' \<or> c = CHR '':'') (drop (length (json_search key)) found))
       (str_from json (json_search key))"

definition json_get_string :: "string \<Rightarrow> string \<Rightarrow> string option" where
  "json_get_string json key =
     (case json_after json key of
        Some (c # s) \<Rightarrow> if c = double_quote then Some (fst (json_text s)) else None
      | _ \<Rightarrow> None)"

definition json_has_key :: "string \<Rightarrow> string \<Rightarrow> bool" where
  "json_has_key json key \<longleftrightarrow> str_from json (json_search key) \<noteq> None"

definition strip_end :: "(char \<Rightarrow> bool) \<Rightarrow> string \<Rightarrow> string" where
  "strip_end P s = rev (dropWhile P (rev s))"

definition json_unwrap :: "string \<Rightarrow> string" where
  "json_unwrap json =
     (let s = dropWhile is_space json; s = (case s of c # t \<Rightarrow> if c = CHR 0x7B then t else s | [] \<Rightarrow> [])
      in strip_end (\<lambda>c. is_space c \<or> c = CHR 0x7D) s)"

definition nosql_doc_create :: "exec_env \<Rightarrow> (u64 \<Rightarrow> u32) \<Rightarrow> string \<Rightarrow> u64 \<Rightarrow> document \<times> u64" where
  "nosql_doc_create env rnd json ids =
     (let (i, ids) = (case json_get_string json ''_id'' of Some i \<Rightarrow> (i, ids) | None \<Rightarrow> nosql_generate_id env rnd ids);
          now = word_of_int (ee_now env)
      in (\<lparr>d_id = i, d_json = json, d_version = 1, d_created = now, d_updated = now\<rparr>, ids))"

definition nosql_doc_get_field :: "document \<Rightarrow> string \<Rightarrow> string option" where
  "nosql_doc_get_field doc field = json_get_string (d_json doc) field"

section \<open>Collections\<close>

definition make_collection_key :: "string \<Rightarrow> string \<Rightarrow> string" where
  "make_collection_key db col = snprintf_buf 256 (''DB:'' @ db @ '':NOSQL_COL:'' @ col)"

definition make_doc_key :: "string \<Rightarrow> string \<Rightarrow> string \<Rightarrow> string" where
  "make_doc_key db col i = snprintf_buf 256 (''DB:'' @ db @ '':DOC:'' @ col @ '':'' @ i)"

definition json_value :: "string \<Rightarrow> kv_value" where
  "json_value s = \<lparr>val_data = bytes_of s @ [0], val_type = VAL_TYPE_JSON\<rparr>"

definition put_json :: "exec_env \<Rightarrow> kv_store \<Rightarrow> string \<Rightarrow> string \<Rightarrow> kv_store option" where
  "put_json env st key s = kv_put (ee_junk env) (ee_kv env) st key (json_value s)"

definition nosql_create_collection :: "exec_env \<Rightarrow> kv_store \<Rightarrow> string \<Rightarrow> string \<Rightarrow> (int \<times> kv_store) option" where
  "nosql_create_collection env st db name =
     (let key = make_collection_key db name
      in if kv_get st key \<noteq> None then Some (-1, st)
         else map_option (\<lambda>st. (0, st))
           (put_json env st key
             (snprintf_buf 256 (''{'' @ quoted ''name'' @ '':'' @ quoted name @ '','' @ quoted ''created'' @ '':'' @
                show_u64 (word_of_int (ee_now env)) @ ''}''))))"

definition nosql_drop_collection :: "exec_env \<Rightarrow> kv_store \<Rightarrow> string \<Rightarrow> string \<Rightarrow> int \<times> kv_store" where
  "nosql_drop_collection env st db name =
     (let key = make_collection_key db name
      in if kv_get st key = None then (-1, st) else (0, kv_delete (ee_kv env) st key))"

definition list_collections_callback :: "string \<Rightarrow> string \<Rightarrow> kv_value \<Rightarrow> string list \<Rightarrow> string list" where
  "list_collections_callback db key val names =
     (let pre = snprintf_buf 128 (''DB:'' @ db @ '':NOSQL_COL:'')
      in if has_prefix pre key then names @ [drop (length pre) key] else names)"

definition nosql_list_collections :: "kv_store \<Rightarrow> string \<Rightarrow> string list" where
  "nosql_list_collections st db = kv_iterate (list_collections_callback db) (entries st) []"

section \<open>Insertion\<close>

text \<open>The text that is stored: the fields of the store before those of the document.\<close>

definition full_json :: "document \<Rightarrow> string \<Rightarrow> string" where
  "full_json doc json =
     snprintf_buf 4096 (''{'' @ quoted ''_id'' @ '':'' @ quoted (d_id doc) @ '','' @
       quoted ''_version'' @ '':'' @ show_u64 (d_version doc) @ '','' @
       quoted ''_created'' @ '':'' @ show_u64 (d_created doc) @ '','' @
       quoted ''_updated'' @ '':'' @ show_u64 (d_updated doc) @ '','' @ json_unwrap json @ ''}'')"

definition nosql_insert_one ::
    "exec_env \<Rightarrow> (u64 \<Rightarrow> u32) \<Rightarrow> kv_store \<Rightarrow> string \<Rightarrow> string \<Rightarrow> string \<Rightarrow> u64 \<Rightarrow> (document \<times> kv_store \<times> u64) option" where
  "nosql_insert_one env rnd st db col json ids =
     (let (doc, ids) = nosql_doc_create env rnd json ids; text = full_json doc json
      in do {
        st \<leftarrow> (if kv_get st (make_collection_key db col) = None
               then map_option snd (nosql_create_collection env st db col) else Some st);
        st \<leftarrow> put_json env st (make_doc_key db col (d_id doc)) text;
        Some (doc\<lparr>d_json := text\<rparr>, st, ids) })"

fun nosql_insert_many ::
    "exec_env \<Rightarrow> (u64 \<Rightarrow> u32) \<Rightarrow> kv_store \<Rightarrow> string \<Rightarrow> string \<Rightarrow> string list \<Rightarrow> u64 \<Rightarrow> (int \<times> kv_store \<times> u64) option" where
  "nosql_insert_many env rnd st db col [] ids = Some (0, st, ids)"
| "nosql_insert_many env rnd st db col (j # js) ids =
     do { (doc, st, ids) \<leftarrow> nosql_insert_one env rnd st db col j ids;
          (n, st, ids) \<leftarrow> nosql_insert_many env rnd st db col js ids;
          Some (n + 1, st, ids) }"

section \<open>Search\<close>

text \<open>One field of a query against a document: the name and the value without quotes and blanks; the
  first character is never taken off the end.\<close>

definition strip_quotes :: "string \<Rightarrow> string" where
  "strip_quotes s = (case s of [] \<Rightarrow> [] | c # t \<Rightarrow> c # strip_end (\<lambda>d. d = double_quote \<or> is_space d) t)"

definition match_field :: "string \<Rightarrow> string \<Rightarrow> bool" where
  "match_field json tok =
     (let tok = dropWhile is_space tok
      in if CHR '':'' \<notin> set tok then True
         else
           let field = takeWhile (\<lambda>c. c \<noteq> CHR '':'') tok; val = drop (length field + 1) tok;
               field = strip_quotes (dropWhile (\<lambda>c. c = double_quote \<or> is_space c) field);
               val = dropWhile is_space val;
               val = strip_quotes (case val of c # t \<Rightarrow> if c = double_quote then t else val | [] \<Rightarrow> [])
           in json_get_string json field = Some val)"

definition simple_match :: "string \<Rightarrow> string option \<Rightarrow> bool" where
  "simple_match json query_json =
     (case query_json of
        None \<Rightarrow> True
      | Some q \<Rightarrow> q = ''{}'' \<or> json_unwrap q = [] \<or> list_all (match_field json) (strtok_all CHR '','' [] (json_unwrap q)))"

record find_ctx =
  fc_docs :: "document list"
  fc_count :: int
  fc_limit :: int
  fc_skip :: int
  fc_skipped :: int
  fc_ids :: u64

definition find_docs_callback ::
    "exec_env \<Rightarrow> (u64 \<Rightarrow> u32) \<Rightarrow> string \<Rightarrow> string \<Rightarrow> string \<Rightarrow> kv_value \<Rightarrow> find_ctx option \<Rightarrow> find_ctx option" where
  "find_docs_callback env rnd db col key val ctx =
     do { ctx \<leftarrow> ctx;
          if \<not> has_prefix (snprintf_buf 256 (''DB:'' @ db @ '':DOC:'' @ col @ '':'')) key \<or> val_type val \<noteq> VAL_TYPE_JSON
          then Some ctx
          else if 0 < fc_limit ctx \<and> fc_limit ctx \<le> fc_count ctx then Some ctx
          else do {
            json \<leftarrow> c_str val;
            if \<not> simple_match json None then Some ctx
            else if fc_skipped ctx < fc_skip ctx then Some (ctx\<lparr>fc_skipped := fc_skipped ctx + 1\<rparr>)
            else let (doc, ids) = nosql_doc_create env rnd json (fc_ids ctx)
                 in Some (ctx\<lparr>fc_docs := fc_docs ctx @ [doc], fc_count := fc_count ctx + 1, fc_ids := ids\<rparr>) } }"

text \<open>The query is not used.\<close>

definition nosql_find ::
    "exec_env \<Rightarrow> (u64 \<Rightarrow> u32) \<Rightarrow> kv_store \<Rightarrow> string \<Rightarrow> string \<Rightarrow> string option \<Rightarrow> u64 \<Rightarrow> (document list \<times> u64) option" where
  "nosql_find env rnd st db col query ids =
     map_option (\<lambda>ctx. (fc_docs ctx, fc_ids ctx))
       (kv_iterate (find_docs_callback env rnd db col) (entries st)
         (Some \<lparr>fc_docs = [], fc_count = 0, fc_limit = 0, fc_skip = 0, fc_skipped = 0, fc_ids = ids\<rparr>))"

definition nosql_find_one ::
    "exec_env \<Rightarrow> (u64 \<Rightarrow> u32) \<Rightarrow> kv_store \<Rightarrow> string \<Rightarrow> string \<Rightarrow> string \<Rightarrow> u64 \<Rightarrow> (document option \<times> u64) option" where
  "nosql_find_one env rnd st db col query ids =
     (case json_get_string query ''_id'' of
        Some i \<Rightarrow>
          (case kv_get st (make_doc_key db col i) of
             None \<Rightarrow> Some (None, ids)
           | Some v \<Rightarrow>
               if val_type v \<noteq> VAL_TYPE_JSON then Some (None, ids)
               else map_option (\<lambda>json. let (doc, ids) = nosql_doc_create env rnd json ids in (Some doc, ids)) (c_str v))
      | None \<Rightarrow>
          map_option (\<lambda>(docs, ids). (case docs of [] \<Rightarrow> None | doc # _ \<Rightarrow> Some doc, ids))
            (nosql_find env rnd st db col (Some query) ids))"

section \<open>Update and deletion\<close>

definition merge_json :: "string \<Rightarrow> string \<Rightarrow> string" where
  "merge_json doc_json update_json =
     snprintf_buf 4096 (''{'' @ json_unwrap doc_json @ '','' @ json_unwrap update_json @ ''}'')"

definition nosql_update_one ::
    "exec_env \<Rightarrow> (u64 \<Rightarrow> u32) \<Rightarrow> kv_store \<Rightarrow> string \<Rightarrow> string \<Rightarrow> string \<Rightarrow> string \<Rightarrow> u64 \<Rightarrow> (int \<times> kv_store \<times> u64) option" where
  "nosql_update_one env rnd st db col query update_json ids =
     do { (doc, ids) \<leftarrow> nosql_find_one env rnd st db col query ids;
          case doc of
            None \<Rightarrow> Some (0, st, ids)
          | Some doc \<Rightarrow>
              do { st \<leftarrow> put_json env st (make_doc_key db col (d_id doc)) (merge_json (d_json doc) update_json);
                   Some (1, st, ids) } }"

definition id_query :: "string \<Rightarrow> string" where
  "id_query i = snprintf_buf 128 (''{'' @ quoted ''_id'' @ '':'' @ quoted i @ ''}'')"

fun update_each ::
    "exec_env \<Rightarrow> (u64 \<Rightarrow> u32) \<Rightarrow> string \<Rightarrow> string \<Rightarrow> string \<Rightarrow> document list \<Rightarrow> int \<times> kv_store \<times> u64 \<Rightarrow> (int \<times> kv_store \<times> u64) option" where
  "update_each env rnd db col update_json [] (n, st, ids) = Some (n, st, ids)"
| "update_each env rnd db col update_json (doc # docs) (n, st, ids) =
     do { (k, st, ids) \<leftarrow> nosql_update_one env rnd st db col (id_query (d_id doc)) update_json ids;
          update_each env rnd db col update_json docs (n + k, st, ids) }"

definition nosql_update_many ::
    "exec_env \<Rightarrow> (u64 \<Rightarrow> u32) \<Rightarrow> kv_store \<Rightarrow> string \<Rightarrow> string \<Rightarrow> string option \<Rightarrow> string \<Rightarrow> u64 \<Rightarrow> (int \<times> kv_store \<times> u64) option" where
  "nosql_update_many env rnd st db col query update_json ids =
     do { (docs, ids) \<leftarrow> nosql_find env rnd st db col query ids;
          update_each env rnd db col update_json docs (0, st, ids) }"

definition nosql_upsert ::
    "exec_env \<Rightarrow> (u64 \<Rightarrow> u32) \<Rightarrow> kv_store \<Rightarrow> string \<Rightarrow> string \<Rightarrow> string \<Rightarrow> string \<Rightarrow> u64 \<Rightarrow> (document option \<times> kv_store \<times> u64) option" where
  "nosql_upsert env rnd st db col query doc_json ids =
     do { (existing, ids) \<leftarrow> nosql_find_one env rnd st db col query ids;
          case existing of
            Some _ \<Rightarrow>
              do { (_, st, ids) \<leftarrow> nosql_update_one env rnd st db col query doc_json ids;
                   (doc, ids) \<leftarrow> nosql_find_one env rnd st db col query ids;
                   Some (doc, st, ids) }
          | None \<Rightarrow>
              do { (doc, st, ids) \<leftarrow> nosql_insert_one env rnd st db col doc_json ids;
                   Some (Some doc, st, ids) } }"

definition nosql_delete_one ::
    "exec_env \<Rightarrow> (u64 \<Rightarrow> u32) \<Rightarrow> kv_store \<Rightarrow> string \<Rightarrow> string \<Rightarrow> string \<Rightarrow> u64 \<Rightarrow> (int \<times> kv_store \<times> u64) option" where
  "nosql_delete_one env rnd st db col query ids =
     do { (doc, ids) \<leftarrow> nosql_find_one env rnd st db col query ids;
          case doc of
            None \<Rightarrow> Some (0, st, ids)
          | Some doc \<Rightarrow> Some (1, kv_delete (ee_kv env) st (make_doc_key db col (d_id doc)), ids) }"

fun delete_each ::
    "exec_env \<Rightarrow> (u64 \<Rightarrow> u32) \<Rightarrow> string \<Rightarrow> string \<Rightarrow> document list \<Rightarrow> int \<times> kv_store \<times> u64 \<Rightarrow> (int \<times> kv_store \<times> u64) option" where
  "delete_each env rnd db col [] (n, st, ids) = Some (n, st, ids)"
| "delete_each env rnd db col (doc # docs) (n, st, ids) =
     do { (k, st, ids) \<leftarrow> nosql_delete_one env rnd st db col (id_query (d_id doc)) ids;
          delete_each env rnd db col docs (n + k, st, ids) }"

definition nosql_delete_many ::
    "exec_env \<Rightarrow> (u64 \<Rightarrow> u32) \<Rightarrow> kv_store \<Rightarrow> string \<Rightarrow> string \<Rightarrow> string option \<Rightarrow> u64 \<Rightarrow> (int \<times> kv_store \<times> u64) option" where
  "nosql_delete_many env rnd st db col query ids =
     do { (docs, ids) \<leftarrow> nosql_find env rnd st db col query ids;
          delete_each env rnd db col docs (0, st, ids) }"

section \<open>Pipelines\<close>

datatype stage_type =
    STAGE_MATCH | STAGE_PROJECT | STAGE_GROUP | STAGE_SORT | STAGE_LIMIT | STAGE_SKIP | STAGE_UNWIND
  | STAGE_LOOKUP | STAGE_COUNT | STAGE_ADD_FIELDS | STAGE_OUT

type_synonym pipeline = "(stage_type \<times> string) list"

definition nosql_pipeline_add_stage :: "pipeline \<Rightarrow> stage_type \<Rightarrow> string \<Rightarrow> pipeline" where
  "nosql_pipeline_add_stage p type spec_json = p @ [(type, spec_json)]"

text \<open>A limit below one frees the whole list, which is then used.\<close>

definition run_stage ::
    "exec_env \<Rightarrow> (u64 \<Rightarrow> u32) \<Rightarrow> stage_type \<times> string \<Rightarrow> document list \<times> u64 \<Rightarrow> (document list \<times> u64) option" where
  "run_stage env rnd stage s =
     (case (stage, s) of ((type, spec), docs, ids) \<Rightarrow>
        if type = STAGE_LIMIT then
          (let limit = atoi_int spec in if limit < 1 then None else Some (take (nat limit) docs, ids))
        else if type = STAGE_SKIP then Some (drop (nat (atoi_int spec)) docs, ids)
        else if type = STAGE_COUNT then
          (let (doc, ids) = nosql_doc_create env rnd (''{'' @ quoted ''count'' @ '':'' @ show_int (int (length docs)) @ ''}'') ids
           in Some ([doc], ids))
        else Some (docs, ids))"

fun run_stages :: "exec_env \<Rightarrow> (u64 \<Rightarrow> u32) \<Rightarrow> pipeline \<Rightarrow> document list \<times> u64 \<Rightarrow> (document list \<times> u64) option" where
  "run_stages env rnd [] s = Some s"
| "run_stages env rnd (stage # stages) s =
     (if fst s = [] then Some s else do { s \<leftarrow> run_stage env rnd stage s; run_stages env rnd stages s })"

definition nosql_aggregate ::
    "exec_env \<Rightarrow> (u64 \<Rightarrow> u32) \<Rightarrow> kv_store \<Rightarrow> string \<Rightarrow> string \<Rightarrow> pipeline \<Rightarrow> u64 \<Rightarrow> (document list \<times> u64) option" where
  "nosql_aggregate env rnd st db col p ids =
     do { s \<leftarrow> nosql_find env rnd st db col (Some ''{}'') ids; run_stages env rnd p s }"

section \<open>Indexes\<close>

definition nosql_index_key :: "string \<Rightarrow> string \<Rightarrow> string \<Rightarrow> string" where
  "nosql_index_key db col field = snprintf_buf 256 (''DB:'' @ db @ '':NOSQL_IDX:'' @ col @ '':'' @ field)"

definition nosql_create_index :: "exec_env \<Rightarrow> kv_store \<Rightarrow> string \<Rightarrow> string \<Rightarrow> string \<Rightarrow> kv_store option" where
  "nosql_create_index env st db col field =
     put_json env st (nosql_index_key db col field)
       (snprintf_buf 128 (''{'' @ quoted ''field'' @ '':'' @ quoted field @ '','' @ quoted ''created'' @ '':'' @
          show_u64 (word_of_int (ee_now env)) @ ''}''))"

definition nosql_drop_index :: "exec_env \<Rightarrow> kv_store \<Rightarrow> string \<Rightarrow> string \<Rightarrow> string \<Rightarrow> kv_store" where
  "nosql_drop_index env st db col field = kv_delete (ee_kv env) st (nosql_index_key db col field)"

end
