(* ===== verification/DocumentStore.thy ===== *)
theory DocumentStore
  imports Documents Statements KVRecovery
begin

text \<open>
  The statements of \<open>src/executor.c\<close> on collections, and what the document store of \<open>src/nosql.c\<close>
  promises: a stored document is found again under its identifier, an update keeps what the document
  had, and what the pipeline of \<open>AGGREGATE\<close> does.
\<close>

section \<open>Statements\<close>

text \<open>The state of the session with the counter of identifiers.\<close>

definition execute_create_collection :: "exec_env \<Rightarrow> string \<Rightarrow> db_state \<times> u64 \<Rightarrow> (db_state \<times> u64) option" where
  "execute_create_collection env name si =
     (case si of (s, ids) \<Rightarrow>
        do { (r, st) \<leftarrow> nosql_create_collection env (ds_store s) (here s) name;
             let s = s\<lparr>ds_store := st\<rparr>;
             Some (if r = 0 then emit (ANSI_GREEN @ ''Collection '' @ in_quotes name @ '' created.'' @ end_line @ ANSI_RESET) s
                   else emit (ANSI_YELLOW @ ''Collection '' @ in_quotes name @ '' already exists.'' @ end_line @ ANSI_RESET) s, ids) })"

definition numbered_lines :: "document list \<Rightarrow> string" where
  "numbered_lines docs =
     concat (map (\<lambda>(n, doc). ANSI_GREEN @ ''['' @ show_int (int n) @ ''] '' @ ANSI_RESET @ d_json doc @ end_line) (enumerate 1 docs))"

definition execute_nosql_find ::
    "exec_env \<Rightarrow> (u64 \<Rightarrow> u32) \<Rightarrow> string \<Rightarrow> string option \<Rightarrow> db_state \<times> u64 \<Rightarrow> (db_state \<times> u64) option" where
  "execute_nosql_find env rnd col query si =
     (case si of (s, ids) \<Rightarrow>
        do { (docs, ids) \<leftarrow> nosql_find env rnd (ds_store s) (here s) col query ids;
             Some (if docs = [] then emit (ANSI_YELLOW @ ''No documents found in '' @ in_quotes col @ ''.'' @ end_line @ ANSI_RESET) s
                   else emit (numbered_lines docs @ ANSI_CYAN @ end_line @ show_int (int (length docs)) @
                          '' document(s) found.'' @ end_line @ ANSI_RESET) s, ids) })"

definition execute_nosql_upsert ::
    "exec_env \<Rightarrow> (u64 \<Rightarrow> u32) \<Rightarrow> string \<Rightarrow> string \<Rightarrow> db_state \<times> u64 \<Rightarrow> (db_state \<times> u64) option" where
  "execute_nosql_upsert env rnd col json si =
     (case si of (s, ids) \<Rightarrow>
        do { (doc, st, ids) \<leftarrow> nosql_upsert env rnd (ds_store s) (here s) col ''{}'' json ids;
             let s = s\<lparr>ds_store := st\<rparr>;
             Some (case doc of
                     Some doc \<Rightarrow> emit (ANSI_GREEN @ ''Document upserted with _id: '' @ d_id doc @ end_line @ ANSI_RESET) s
                   | None \<Rightarrow> emit (ANSI_RED @ ''Upsert failed.'' @ end_line @ ANSI_RESET) s, ids) })"

text \<open>The type of a stage is the first of these names that its text contains.\<close>

definition stage_names :: "(string \<times> stage_type) list" where
  "stage_names = [(''$match'', STAGE_MATCH), (''$project'', STAGE_PROJECT), (''$group'', STAGE_GROUP), (''$sort'', STAGE_SORT),
     (''$limit'', STAGE_LIMIT), (''$skip'', STAGE_SKIP), (''$count'', STAGE_COUNT)]"

definition stage_type_of :: "string \<Rightarrow> stage_type" where
  "stage_type_of stage_json =
     (case List.find (\<lambda>(name, type). strstr stage_json name) stage_names of None \<Rightarrow> STAGE_MATCH | Some (name, type) \<Rightarrow> type)"

definition pipeline_of :: "string list \<Rightarrow> pipeline" where
  "pipeline_of stages = foldl (\<lambda>p stage_json. nosql_pipeline_add_stage p (stage_type_of stage_json) stage_json) [] stages"

definition execute_nosql_aggregate ::
    "exec_env \<Rightarrow> (u64 \<Rightarrow> u32) \<Rightarrow> string \<Rightarrow> string list \<Rightarrow> db_state \<times> u64 \<Rightarrow> (db_state \<times> u64) option" where
  "execute_nosql_aggregate env rnd col stages si =
     (case si of (s, ids) \<Rightarrow>
        do { (docs, ids) \<leftarrow> nosql_aggregate env rnd (ds_store s) (here s) col (pipeline_of stages) ids;
             Some (if docs = [] then emit (ANSI_YELLOW @ ''Aggregation returned no results.'' @ end_line @ ANSI_RESET) s
                   else emit (concat (map (\<lambda>doc. d_json doc @ end_line) docs) @ ANSI_CYAN @ end_line @
                          show_int (int (length docs)) @ '' result(s).'' @ end_line @ ANSI_RESET) s, ids) })"

text \<open>The dispatch of \<open>execute_query\<close> with these statements; those of \<open>src/backup.c\<close> are the argument.\<close>

definition execute_statement ::
    "(ast_node \<Rightarrow> db_state \<Rightarrow> db_state option) \<Rightarrow> exec_env \<Rightarrow> (u64 \<Rightarrow> u32) \<Rightarrow> ast_node \<Rightarrow> db_state \<times> u64 \<Rightarrow> (db_state \<times> u64) option" where
  "execute_statement backup env rnd node si =
     (case node of
        NODE_CMD_CREATE_COLLECTION name \<Rightarrow> execute_create_collection env name si
      | NODE_CMD_DOC_UPSERT col json \<Rightarrow> execute_nosql_upsert env rnd col json si
      | NODE_CMD_DOC_AGGREGATE col stages \<Rightarrow> execute_nosql_aggregate env rnd col stages si
      | _ \<Rightarrow> map_option (\<lambda>s. (s, snd si)) (execute_query backup env node (fst si)))"

section \<open>Searching a text\<close>

lemma str_from_SomeD: "str_from s w = Some t \<Longrightarrow> take (length w) t = w \<and> (\<exists>pre. s = pre @ t)"
proof (induction s)
  case (Cons c s)
  then show ?case by (auto simp: str_from_def split: if_splits intro: exI [of _ "_ # _"])
qed (auto simp: str_from_def split: if_splits)

lemma str_from_append: "str_from s w = Some t \<Longrightarrow> str_from (s @ r) w = Some (t @ r)"
proof (induction s)
  case Nil
  then show ?case by (cases r) (auto simp: str_from_def split: if_splits)
next
  case (Cons c s)
  show ?case
  proof (cases "take (length w) (c # s) = w")
    case True
    then have "length w \<le> length (c # s)" by (metis length_take min.cobounded1)
    then have "take (length w) (c # s @ r) = w" using True take_append [of "length w" "c # s" r] by simp
    then have "str_from ((c # s) @ r) w = Some ((c # s) @ r)" by (simp add: str_from_def)
    moreover have "t = c # s" using Cons.prems True by (simp add: str_from_def)
    ultimately show ?thesis by simp
  next
    case False
    then have t: "str_from s w = Some t" using Cons.prems by (simp add: str_from_def)
    then obtain pre where s: "s = pre @ t" "take (length w) t = w" using str_from_SomeD by blast
    have "length w \<le> length t" using s(2) by (metis length_take min.cobounded1)
    then have "length w \<le> length (c # s)" using s(1) by simp
    then have "take (length w) (c # s @ r) = take (length w) (c # s)" using take_append [of "length w" "c # s" r] by simp
    then show ?thesis using Cons.IH [OF t] False by (simp add: str_from_def)
  qed
qed

lemma str_from_skip:
  "w \<noteq> [] \<Longrightarrow> hd w \<notin> set lead \<Longrightarrow> str_from (lead @ s) w = str_from s w"
proof (induction lead)
  case (Cons c lead)
  then have "take (length w) (c # lead @ s) \<noteq> w" by (cases w) auto
  then show ?case using Cons by (simp add: str_from_def)
qed simp

text \<open>An occurrence that leaves room for what follows lies in the front.\<close>

lemma str_from_front:
  "str_from (a @ x) w = Some t \<Longrightarrow> length w + length x \<le> length t \<Longrightarrow> \<exists>u. t = u @ x \<and> str_from a w = Some u"
proof (induction a)
  case Nil
  then have t: "take (length w) t = w" "\<exists>pre. x = pre @ t" by (auto dest: str_from_SomeD)
  then have "length t \<le> length x" by auto
  then have "length w = 0" "length t = length x" using Nil(2) by linarith+
  then have "w = []" by simp
  then have "t = x" using t(2) \<open>length t = length x\<close> by auto
  then show ?case using \<open>w = []\<close> by (simp add: str_from_def)
next
  case (Cons c a)
  show ?case
  proof (cases "take (length w) (c # a @ x) = w")
    case True
    then have t: "t = (c # a) @ x" using Cons.prems(1) by (simp add: str_from_def)
    then have "length w \<le> length (c # a)" using Cons.prems(2) by simp
    then have "take (length w) (c # a) = w" using True take_append [of "length w" "c # a" x] by simp
    then show ?thesis using t by (simp add: str_from_def)
  next
    case False
    then have "str_from (a @ x) w = Some t" using Cons.prems(1) by (simp add: str_from_def)
    then obtain u where u: "t = u @ x" "str_from a w = Some u" using Cons.IH Cons.prems(2) by blast
    have "length w \<le> length (c # a)" using str_from_SomeD [OF u(2)] by (metis append_Cons length_append length_take min.cobounded1 le_add2 order_trans length_Cons le_SucI)
    then have "take (length w) (c # a) \<noteq> w" using False take_append [of "length w" "c # a" x] by simp
    then show ?thesis using u by (simp add: str_from_def)
  qed
qed

section \<open>String fields\<close>

lemma json_text_append: "snd (json_text s) \<noteq> [] \<Longrightarrow> json_text (s @ x) = (fst (json_text s), snd (json_text s) @ x)"
proof (induction s rule: json_text.induct)
  case (2 c)
  then show ?case by (cases x) (auto split: if_splits)
qed (auto split: prod.splits if_splits)

lemma json_text_open: "double_quote \<notin> set s \<Longrightarrow> snd (json_text s) = []"
  by (induction s rule: json_text.induct) (auto split: prod.splits)

lemma json_text_front:
  "snd (json_text (s @ x)) \<noteq> [] \<Longrightarrow> double_quote \<notin> set x \<Longrightarrow>
   snd (json_text s) \<noteq> [] \<and> fst (json_text (s @ x)) = fst (json_text s)"
proof (induction s rule: json_text.induct)
  case 1
  then show ?case using json_text_open by simp
next
  case (2 c)
  show ?case
  proof (cases "c = double_quote")
    case True
    then show ?thesis by (cases x) auto
  next
    case False
    have "snd (json_text ([c] @ x)) = []"
    proof (cases x)
      case (Cons d y)
      then show ?thesis using False 2(2) json_text_open [of y] json_text_open [of "d # y"] by (auto split: prod.splits)
    qed (use False in simp)
    then show ?thesis using 2 by simp
  qed
next
  case (3 c d s)
  then show ?case by (auto split: prod.splits if_splits)
qed

text \<open>A string field whose closing quote is there.\<close>

definition closed_value :: "string \<Rightarrow> string \<Rightarrow> string option" where
  "closed_value json key =
     (case json_after json key of
        Some (c # s) \<Rightarrow> if c = double_quote \<and> snd (json_text s) \<noteq> [] then Some (fst (json_text s)) else None
      | _ \<Rightarrow> None)"

lemma closed_value_get: "closed_value json key = Some v \<Longrightarrow> json_get_string json key = Some v"
  by (auto simp: closed_value_def json_get_string_def split: option.splits list.splits if_splits)

lemma closed_value_cases:
  assumes "closed_value json key = Some v"
  obtains t s where "str_from json (json_search key) = Some t"
    "dropWhile (\<lambda>c. c = CHR '' '' \<or> c = CHR '':'') (drop (length (json_search key)) t) = double_quote # s"
    "snd (json_text s) \<noteq> []" "v = fst (json_text s)"
  using assms by (auto simp: closed_value_def json_after_def split: option.splits list.splits if_splits)

lemma closed_valueI:
  "str_from json (json_search key) = Some t \<Longrightarrow>
   dropWhile (\<lambda>c. c = CHR '' '' \<or> c = CHR '':'') (drop (length (json_search key)) t) = double_quote # s \<Longrightarrow>
   snd (json_text s) \<noteq> [] \<Longrightarrow> closed_value json key = Some (fst (json_text s))"
  by (simp add: closed_value_def json_after_def)

lemma json_search_hd: "json_search key \<noteq> []" "hd (json_search key) = double_quote"
  by (simp_all add: json_search_def snprintf_buf_def quoted_def)

lemma closed_value_append:
  assumes "closed_value json key = Some v"
  shows "closed_value (json @ x) key = Some v"
proof -
  let ?P = "\<lambda>c. c = CHR '' '' \<or> c = CHR '':''"
  from closed_value_cases [OF assms] obtain t s
    where t: "str_from json (json_search key) = Some t" "dropWhile ?P (drop (length (json_search key)) t) = double_quote # s"
      "snd (json_text s) \<noteq> []" "v = fst (json_text s)" .
  have "length (json_search key) \<le> length t"
    using str_from_SomeD [OF t(1)] by (metis length_take min.cobounded1)
  then have "dropWhile ?P (drop (length (json_search key)) (t @ x)) = dropWhile ?P (drop (length (json_search key)) t @ x)" by simp
  also have "\<dots> = double_quote # s @ x"
  proof -
    have "double_quote \<in> set (drop (length (json_search key)) t)" using t(2) set_dropWhileD by (metis list.set_intros(1))
    then show ?thesis using t(2) dropWhile_append1 [of double_quote _ ?P x] by simp
  qed
  finally have "closed_value (json @ x) key = Some (fst (json_text (s @ x)))"
    using json_text_append [OF t(3)] t(3) by (intro closed_valueI [OF str_from_append [OF t(1)]]) auto
  then show ?thesis using json_text_append [OF t(3)] t(4) by simp
qed

lemma closed_value_skip: "double_quote \<notin> set lead \<Longrightarrow> closed_value (lead @ json) key = closed_value json key"
  using str_from_skip [OF json_search_hd(1), of key lead json] by (simp add: closed_value_def json_after_def json_search_hd)

lemma closed_value_front:
  assumes "closed_value (a @ x) key = Some v" and "double_quote \<notin> set x"
  shows "closed_value a key = Some v"
proof -
  let ?P = "\<lambda>c. c = CHR '' '' \<or> c = CHR '':''" and ?w = "json_search key"
  from closed_value_cases [OF assms(1)] obtain t s
    where t: "str_from (a @ x) ?w = Some t" "dropWhile ?P (drop (length ?w) t) = double_quote # s"
      "snd (json_text s) \<noteq> []" "v = fst (json_text s)" .
  have "set (double_quote # s) \<subseteq> set (drop (length ?w) t)" unfolding t(2) [symmetric] by (rule set_dropWhileD [THEN subsetI])
  then have mem: "double_quote \<in> set (drop (length ?w) t)" by simp
  obtain pre where pre: "a @ x = pre @ t" using str_from_SomeD [OF t(1)] by blast
  then have "a @ x = (pre @ take (length ?w) t) @ drop (length ?w) t" by simp
  then have "\<exists>m. drop (length ?w) t = m @ x"
  proof -
    have "x \<noteq> us @ drop (length ?w) t" for us using mem assms(2) by auto
    then show ?thesis
      using \<open>a @ x = (pre @ take (length ?w) t) @ drop (length ?w) t\<close>
      unfolding append_eq_append_conv2 by metis
  qed
  then obtain m where m: "drop (length ?w) t = m @ x" by blast
  have "length t - length ?w = length m + length x" using arg_cong [OF m, of length] by simp
  moreover have "length ?w < length t" by (rule ccontr) (use mem in simp)
  ultimately have "length ?w + length x \<le> length t" by simp
  from str_from_front [OF t(1) this] obtain u where u: "t = u @ x" "str_from a ?w = Some u" by blast
  have "length ?w \<le> length u" using str_from_SomeD [OF u(2)] by (metis length_take min.cobounded1)
  then have d: "dropWhile ?P (drop (length ?w) u @ x) = double_quote # s" using t(2) u(1) by simp
  have "\<exists>c \<in> set (drop (length ?w) u). \<not> ?P c"
  proof (rule ccontr)
    assume "\<not> ?thesis"
    then have "dropWhile ?P (drop (length ?w) u @ x) = dropWhile ?P x" by (intro dropWhile_append2) auto
    then have "double_quote \<in> set x" using d by (metis list.set_intros(1) set_dropWhileD)
    then show False using assms(2) by simp
  qed
  then obtain c where c: "c \<in> set (drop (length ?w) u)" "\<not> ?P c" by blast
  have split: "dropWhile ?P (drop (length ?w) u) @ x = double_quote # s"
    using d dropWhile_append1 [of c "drop (length ?w) u" ?P x] c by simp
  have "dropWhile ?P (drop (length ?w) u) \<noteq> []" using c by auto
  then obtain s' where s': "dropWhile ?P (drop (length ?w) u) = double_quote # s'" "s = s' @ x"
    using split by (cases "dropWhile ?P (drop (length ?w) u)") auto
  show ?thesis
    using closed_valueI [OF u(2) s'(1)] json_text_front [of s' x] t(3,4) s'(2) assms(2) by simp
qed

section \<open>Documents in the store\<close>

lemma put_json_eq: "put_json env st key s = Some (kv_put_locked (ee_kv env) st key (json_value s))"
  by (simp add: put_json_def kv_put_def kv_put_btree_def btree_id_def json_value_def)

lemma entries_put_json: "entries (kv_put_locked kenv st key v) = kv_put_internal (entries st) key v"
  by (simp add: kv_put_locked_def)

lemma c_str_json: "CHR 0x00 \<notin> set s \<Longrightarrow> c_str (json_value s) = Some s"
proof -
  assume s: "CHR 0x00 \<notin> set s"
  then have "takeWhile (\<lambda>b. b \<noteq> 0) (bytes_of s @ [0]) = bytes_of s"
    by (subst takeWhile_append2) (auto simp: bytes_of_def byte_of_char_0)
  then show ?thesis using c_string_bytes_of [OF s] by (simp add: c_str_def json_value_def c_string_def takeWhile_eq_all_conv)
qed

lemma byte_of_char_of_byte: "byte_of_char (char_of_byte b) = b"
proof -
  have "unat b < 256" by (rule unat_byte_less)
  then show ?thesis by (simp add: byte_of_char_def char_of_byte_def)
qed

lemma c_str_nul_free: "c_str v = Some s \<Longrightarrow> CHR 0x00 \<notin> set s"
proof -
  assume "c_str v = Some s"
  then have s: "s = string_of (takeWhile (\<lambda>b. b \<noteq> 0) (val_data v))" by (auto simp: c_str_def c_string_def split: if_splits)
  moreover have "char_of_byte b = CHR 0x00 \<Longrightarrow> b = 0" for b
    by (metis byte_of_char_0 byte_of_char_of_byte)
  ultimately have "b = 0" if "b \<in> set (takeWhile (\<lambda>b. b \<noteq> 0) (val_data v))" "char_of_byte b = CHR 0x00" for b
    using that by blast
  then have "char_of_byte b \<noteq> CHR 0x00" if "b \<in> set (takeWhile (\<lambda>b. b \<noteq> 0) (val_data v))" for b
    using that set_takeWhileD [OF that] by blast
  then show ?thesis unfolding s string_of_def by fastforce
qed

definition plain_id :: "string \<Rightarrow> bool" where
  "plain_id i \<longleftrightarrow> double_quote \<notin> set i \<and> CHR 0x5C \<notin> set i \<and> CHR 0x00 \<notin> set i \<and> length i \<le> 117"

lemma json_text_plain:
  "double_quote \<notin> set i \<Longrightarrow> CHR 0x5C \<notin> set i \<Longrightarrow> json_text (i @ double_quote # x) = (i, double_quote # x)"
proof (induction i)
  case Nil
  then show ?case by (cases x) auto
next
  case (Cons c i)
  then show ?case by (cases i) auto
qed

lemma json_id_first:
  assumes "plain_id i"
  shows "closed_value (''{'' @ quoted ''_id'' @ '':'' @ quoted i @ x) ''_id'' = Some i"
proof -
  have w: "json_search ''_id'' = quoted ''_id''" by (simp add: json_search_def snprintf_buf_def quoted_def)
  have f: "str_from (''{'' @ quoted ''_id'' @ '':'' @ quoted i @ x) (quoted ''_id'') = Some (quoted ''_id'' @ '':'' @ quoted i @ x)"
    by (simp add: str_from_def quoted_def)
  have "dropWhile (\<lambda>c. c = CHR '' '' \<or> c = CHR '':'') (drop (length (quoted ''_id'')) (quoted ''_id'' @ '':'' @ quoted i @ x)) =
      double_quote # i @ double_quote # x"
    by (simp add: quoted_def)
  from closed_valueI [where key = "''_id''", unfolded w, OF f this]
  show ?thesis using assms by (simp add: plain_id_def json_text_plain)
qed

lemma id_query_id: "plain_id i \<Longrightarrow> json_get_string (id_query i) ''_id'' = Some i"
proof (rule closed_value_get)
  assume i: "plain_id i"
  then have "id_query i = ''{'' @ quoted ''_id'' @ '':'' @ quoted i @ ''}''"
    by (auto simp: id_query_def snprintf_buf_def plain_id_def quoted_def)
  then show "closed_value (id_query i) ''_id'' = Some i" using json_id_first [OF i] by simp
qed

lemma created_with_id:
  "json_get_string json ''_id'' = Some i \<Longrightarrow> nosql_doc_create env rnd json ids =
     (\<lparr>d_id = i, d_json = json, d_version = 1, d_created = word_of_int (ee_now env), d_updated = word_of_int (ee_now env)\<rparr>, ids)"
  by (simp add: nosql_doc_create_def Let_def)

lemma found_by_id:
  assumes "plain_id i" and "kv_get st (make_doc_key db col i) = Some v" and "val_type v = VAL_TYPE_JSON" and "c_str v = Some json"
  shows "nosql_find_one env rnd st db col (id_query i) ids =
    Some (case nosql_doc_create env rnd json ids of (doc, ids) \<Rightarrow> (Some doc, ids))"
  using assms by (simp add: nosql_find_one_def id_query_id Let_def split: prod.split)

lemma card_keys_put:
  assumes "kv_reach es"
  shows "card (kv_keys (kv_put_internal es key v)) \<le> card (kv_keys es) + 1"
proof -
  have "kv_keys (kv_put_internal es key v) \<subseteq> insert key (kv_keys es)"
    using kv_put_lookup_other [OF assms, of _ key v] by (auto simp: kv_keys_def)
  then have "card (kv_keys (kv_put_internal es key v)) \<le> card (insert key (kv_keys es))"
    using finite_kv_keys [OF assms] by (intro card_mono) auto
  also have "\<dots> \<le> card (kv_keys es) + 1" using finite_kv_keys [OF assms] by (simp add: card_insert_if)
  finally show ?thesis .
qed

lemma show_u64_nul: "CHR 0x00 \<notin> set (show_u64 w)"
  using show_nat_digits [of "unat w"] by (auto simp: show_u64_def is_digit_def)

text \<open>What is taken off a text are blanks and braces.\<close>

lemma json_unwrap_parts:
  obtains lead trail where "json = lead @ json_unwrap json @ trail" "double_quote \<notin> set lead" "double_quote \<notin> set trail"
proof -
  let ?P = "\<lambda>c. is_space c \<or> c = CHR 0x7D"
  define s where "s = dropWhile is_space json"
  define t where "t = (case s of c # t \<Rightarrow> if c = CHR 0x7B then t else s | [] \<Rightarrow> [])"
  define brace where "brace = (case s of c # t \<Rightarrow> if c = CHR 0x7B then [c] else [] | [] \<Rightarrow> [])"
  have "json = takeWhile is_space json @ s" by (simp add: s_def)
  moreover have "s = brace @ t" by (simp add: brace_def t_def split: list.split)
  moreover have "t = strip_end ?P t @ rev (takeWhile ?P (rev t))"
    by (metis strip_end_def rev_append rev_rev_ident takeWhile_dropWhile_id)
  moreover have "json_unwrap json = strip_end ?P t" by (simp only: json_unwrap_def Let_def s_def t_def)
  moreover have "double_quote \<notin> set (takeWhile is_space json)" "double_quote \<notin> set (rev (takeWhile ?P (rev t)))"
    by (auto dest: set_takeWhileD simp: is_space_def)
  moreover have "double_quote \<notin> set brace" by (auto simp: brace_def split: list.splits if_splits)
  ultimately show ?thesis using that [of "takeWhile is_space json @ brace" "rev (takeWhile ?P (rev t))"] by simp
qed

lemma json_unwrap_nul: "CHR 0x00 \<notin> set json \<Longrightarrow> CHR 0x00 \<notin> set (json_unwrap json)"
  by (rule json_unwrap_parts [of json]) (metis Un_iff set_append)

lemma length_json_unwrap: "length (json_unwrap json) \<le> length json"
  by (rule json_unwrap_parts [of json]) (metis le_add1 le_add2 le_trans length_append)

lemma closed_value_unwrap: "closed_value json key = Some v \<Longrightarrow> closed_value (json_unwrap json) key = Some v"
proof (rule json_unwrap_parts [of json])
  fix lead trail
  assume j: "json = lead @ json_unwrap json @ trail" "double_quote \<notin> set lead" "double_quote \<notin> set trail"
    and v: "closed_value json key = Some v"
  have "closed_value (json_unwrap json @ trail) key = Some v" using v closed_value_skip [OF j(2)] j(1) by metis
  then show ?thesis using closed_value_front j(3) by blast
qed

text \<open>An update appends; what was found before is found again.\<close>

lemma closed_value_merge:
  assumes "closed_value json key = Some v" and "length json + length update_json < 4093"
  shows "closed_value (merge_json json update_json) key = Some v"
proof -
  have "merge_json json update_json = ''{'' @ json_unwrap json @ '','' @ json_unwrap update_json @ ''}''"
    using assms(2) length_json_unwrap [of json] length_json_unwrap [of update_json]
    by (simp add: merge_json_def snprintf_buf_def)
  moreover have "closed_value (''{'' @ json_unwrap json @ '','' @ json_unwrap update_json @ ''}'') key = Some v"
    by (subst closed_value_skip) (use closed_value_append [OF closed_value_unwrap [OF assms(1)]] in auto)
  ultimately show ?thesis by simp
qed

section \<open>Insertion and update\<close>



text \<open>A table with one document.\<close>

definition demo_json :: string where
  "demo_json = ''{'' @ quoted ''_id'' @ '':'' @ quoted ''7'' @ '','' @ quoted ''a'' @ '':'' @ quoted ''b'' @ ''}''"

definition demo_docs :: "kv_entry list" where
  "demo_docs = [\<lparr>entry_key = ''DB:d:DOC:c:7'', entry_val = json_value demo_json, occupied = True\<rparr>]"

lemma demo_key: "make_doc_key ''d'' ''c'' ''7'' = ''DB:d:DOC:c:7''"
  by (simp add: make_doc_key_def snprintf_buf_def)

lemma demo_values: "closed_value demo_json ''_id'' = Some ''7''" "closed_value demo_json ''a'' = Some ''b''"
  by code_simp+

lemma demo_plain: "plain_id ''7''" "CHR 0x00 \<notin> set demo_json"
  by (simp_all add: plain_id_def demo_json_def quoted_def)

lemma demo_get: "kv_get (st\<lparr>entries := demo_docs\<rparr>) ''DB:d:DOC:c:7'' = Some (json_value demo_json)"
  using kv_lookup_reach [OF full_table_reach [of demo_docs], of "''DB:d:DOC:c:7''" "json_value demo_json"]
  by (simp add: kv_get_def) (simp add: demo_docs_def has_entry_def)

lemma demo_created: "nosql_doc_create env rnd demo_json ids =
    (\<lparr>d_id = ''7'', d_json = demo_json, d_version = 1, d_created = word_of_int (ee_now env), d_updated = word_of_int (ee_now env)\<rparr>, ids)"
  by (rule created_with_id [OF closed_value_get [OF demo_values(1)]])


lemma found_by_idD:
  assumes "plain_id i" and "nosql_find_one env rnd st db col (id_query i) ids = Some (Some doc, ids')"
  obtains v where "kv_get st (make_doc_key db col i) = Some v" "c_str v = Some (d_json doc)"
    "nosql_doc_create env rnd (d_json doc) ids = (doc, ids')"
proof -
  obtain v where get: "kv_get st (make_doc_key db col i) = Some v"
    using assms by (auto simp: nosql_find_one_def id_query_id split: option.splits)
  have "val_type v = VAL_TYPE_JSON \<and> (\<exists>json. c_str v = Some json \<and> nosql_doc_create env rnd json ids = (doc, ids'))"
  proof (cases "c_str v")
    case None
    then show ?thesis using assms get by (simp add: nosql_find_one_def id_query_id split: if_splits)
  next
    case (Some json)
    then show ?thesis
      using assms get by (cases "nosql_doc_create env rnd json ids") (simp add: nosql_find_one_def id_query_id split: if_splits)
  qed
  then obtain json where v: "kv_get st (make_doc_key db col i) = Some v" "c_str v = Some json"
    "nosql_doc_create env rnd json ids = (doc, ids')" using get by blast
  moreover have "d_json doc = json" using v(3) by (auto simp: nosql_doc_create_def Let_def split: prod.splits)
  ultimately show ?thesis using that by blast
qed

text \<open>Updating a document that is stored under its own identifier returns one, and every string field
  that the document had is read with its old value afterwards, also when the update gives it another.\<close>

theorem updates_do_not_reach_existing_fields:
  assumes "nosql_find_one env rnd st db col (id_query i) ids = Some (Some doc, ids)"
    and "plain_id i" and "closed_value (d_json doc) ''_id'' = Some i" and "closed_value (d_json doc) field = Some v"
    and "length (d_json doc) + length update_json < 4093" and "CHR 0x00 \<notin> set update_json"
  shows "\<exists>st' doc'. nosql_update_one env rnd st db col (id_query i) update_json ids = Some (1, st', ids) \<and>
    nosql_find_one env rnd st' db col (id_query i) ids = Some (Some doc', ids) \<and>
    nosql_doc_get_field doc' field = Some v"
proof -
  from found_by_idD [OF assms(2,1)] obtain w where w: "kv_get st (make_doc_key db col i) = Some w" "c_str w = Some (d_json doc)"
    "nosql_doc_create env rnd (d_json doc) ids = (doc, ids)" .
  have "nosql_doc_create env rnd (d_json doc) ids = (\<lparr>d_id = i, d_json = d_json doc, d_version = 1,
      d_created = word_of_int (ee_now env), d_updated = word_of_int (ee_now env)\<rparr>, ids)"
    by (rule created_with_id [OF closed_value_get [OF assms(3)]])
  then have id: "d_id doc = i" using w(3) by (metis document.select_convs(1) prod.inject)
  let ?m = "merge_json (d_json doc) update_json" and ?key = "make_doc_key db col i"
  define st' where "st' = kv_put_locked (ee_kv env) st ?key (json_value ?m)"
  have "CHR 0x00 \<notin> set ?m"
    using c_str_nul_free [OF w(2)] assms(6) by (auto simp: merge_json_def snprintf_buf_def json_unwrap_nul dest!: in_set_takeD)
  moreover have "probe_from_home (entries st) ?key \<noteq> Full" using w(1) by (auto simp: kv_get_def kv_lookup_def)
  ultimately have get: "kv_get st' ?key = Some (json_value ?m)" "c_str (json_value ?m) = Some ?m"
    by (simp_all add: kv_get_def st'_def entries_put_json kv_put_lookup_same c_str_json)
  have up: "nosql_update_one env rnd st db col (id_query i) update_json ids = Some (1, st', ids)"
    using assms(1) by (simp add: nosql_update_one_def put_json_eq id st'_def)
  have "json_get_string ?m ''_id'' = Some i" using closed_value_get [OF closed_value_merge [OF assms(3,5)]] .
  then have "nosql_find_one env rnd st' db col (id_query i) ids =
      Some (Some \<lparr>d_id = i, d_json = ?m, d_version = 1, d_created = word_of_int (ee_now env), d_updated = word_of_int (ee_now env)\<rparr>, ids)"
    using found_by_id [OF assms(2) get(1) _ get(2)] by (simp add: created_with_id json_value_def)
  then show ?thesis
    using up closed_value_get [OF closed_value_merge [OF assms(4,5)]] by (auto simp: nosql_doc_get_field_def)
qed

theorem updates_do_not_reach_existing_fields_witness:
  "\<forall>(env :: exec_env) rnd st. \<exists>st' doc'.
     nosql_update_one env rnd (st\<lparr>entries := demo_docs\<rparr>) ''d'' ''c'' (id_query ''7'')
       (''{'' @ quoted ''a'' @ '':'' @ quoted ''z'' @ ''}'') 0 = Some (1, st', 0) \<and>
     nosql_find_one env rnd st' ''d'' ''c'' (id_query ''7'') 0 = Some (Some doc', 0) \<and>
     nosql_doc_get_field doc' ''a'' = Some ''b''"
proof (intro allI)
  fix env :: exec_env and rnd and st :: kv_store
  let ?st = "st\<lparr>entries := demo_docs\<rparr>"
  let ?doc = "\<lparr>d_id = ''7'', d_json = demo_json, d_version = 1, d_created = word_of_int (ee_now env), d_updated = word_of_int (ee_now env)\<rparr>"
  have "nosql_find_one env rnd ?st ''d'' ''c'' (id_query ''7'') 0 = Some (Some ?doc, 0)"
    using found_by_id [OF demo_plain(1), of ?st "''d''" "''c''" "json_value demo_json" demo_json env rnd 0]
    by (simp add: demo_key demo_get c_str_json [OF demo_plain(2)] demo_created) (simp add: json_value_def)
  from updates_do_not_reach_existing_fields [OF this demo_plain(1), where field = "''a''" and v = "''b''"
      and update_json = "''{'' @ quoted ''a'' @ '':'' @ quoted ''z'' @ ''}''"]
  show "\<exists>st' doc'. nosql_update_one env rnd ?st ''d'' ''c'' (id_query ''7'') (''{'' @ quoted ''a'' @ '':'' @ quoted ''z'' @ ''}'') 0 = Some (1, st', 0) \<and>
      nosql_find_one env rnd st' ''d'' ''c'' (id_query ''7'') 0 = Some (Some doc', 0) \<and> nosql_doc_get_field doc' ''a'' = Some ''b''"
    by (simp add: demo_values) (simp add: demo_json_def quoted_def)
qed

section \<open>Search\<close>

definition is_doc :: "string \<Rightarrow> string \<Rightarrow> kv_entry \<Rightarrow> bool" where
  "is_doc db col e \<longleftrightarrow>
     has_prefix (snprintf_buf 256 (''DB:'' @ db @ '':DOC:'' @ col @ '':'')) (entry_key e) \<and> val_type (entry_val e) = VAL_TYPE_JSON"

definition doc_texts :: "string \<Rightarrow> string \<Rightarrow> kv_entry list \<Rightarrow> string list option" where
  "doc_texts db col es = all_some (map (\<lambda>e. c_str (entry_val e)) (filter (is_doc db col) es))"

fun create_all :: "exec_env \<Rightarrow> (u64 \<Rightarrow> u32) \<Rightarrow> string list \<Rightarrow> u64 \<Rightarrow> document list \<times> u64" where
  "create_all env rnd [] ids = ([], ids)"
| "create_all env rnd (j # js) ids =
     (let (doc, ids) = nosql_doc_create env rnd j ids; (docs, ids) = create_all env rnd js ids in (doc # docs, ids))"

lemma foldl_callback_None: "foldl (\<lambda>c e. find_docs_callback env rnd db col (entry_key e) (entry_val e) c) None es = None"
  by (induction es) (simp_all add: find_docs_callback_def)

lemma find_callback_fold:
  assumes "fc_limit ctx = 0" and "fc_skip ctx = 0" and "fc_skipped ctx = 0"
  shows "foldl (\<lambda>c e. find_docs_callback env rnd db col (entry_key e) (entry_val e) c) (Some ctx) es =
    map_option (\<lambda>js. case create_all env rnd js (fc_ids ctx) of (docs, ids) \<Rightarrow>
        ctx\<lparr>fc_docs := fc_docs ctx @ docs, fc_count := fc_count ctx + int (length docs), fc_ids := ids\<rparr>) (doc_texts db col es)"
  using assms
proof (induction es arbitrary: ctx)
  case Nil
  then show ?case by (simp add: doc_texts_def)
next
  case (Cons e es)
  show ?case
  proof (cases "is_doc db col e")
    case False
    then have "find_docs_callback env rnd db col (entry_key e) (entry_val e) (Some ctx) = Some ctx"
      by (auto simp: find_docs_callback_def is_doc_def)
    then show ?thesis using Cons False by (simp add: doc_texts_def)
  next
    case True
    show ?thesis
    proof (cases "c_str (entry_val e)")
      case None
      then have "find_docs_callback env rnd db col (entry_key e) (entry_val e) (Some ctx) = None"
        using True Cons.prems by (simp add: find_docs_callback_def is_doc_def)
      then show ?thesis using None True by (simp add: foldl_callback_None doc_texts_def)
    next
      case (Some json)
      obtain doc ids where doc: "nosql_doc_create env rnd json (fc_ids ctx) = (doc, ids)" by fastforce
      have step: "find_docs_callback env rnd db col (entry_key e) (entry_val e) (Some ctx) =
          Some (ctx\<lparr>fc_docs := fc_docs ctx @ [doc], fc_count := fc_count ctx + 1, fc_ids := ids\<rparr>)"
        using True Some Cons.prems by (simp add: find_docs_callback_def is_doc_def doc simple_match_def)
      have texts: "doc_texts db col (e # es) = map_option ((#) json) (doc_texts db col es)"
        using True Some by (simp add: doc_texts_def)
      show ?thesis
        using Cons.IH [of "ctx\<lparr>fc_docs := fc_docs ctx @ [doc], fc_count := fc_count ctx + 1, fc_ids := ids\<rparr>"] Cons.prems
        by (cases "doc_texts db col es") (simp_all add: step texts doc split: prod.split)
    qed
  qed
qed

lemma nosql_find_spec:
  "nosql_find env rnd st db col query ids = map_option (\<lambda>js. create_all env rnd js ids) (doc_texts db col (live (entries st)))"
proof -
  let ?ctx = "\<lparr>fc_docs = [], fc_count = 0, fc_limit = 0, fc_skip = 0, fc_skipped = 0, fc_ids = ids\<rparr>"
  show ?thesis
    using find_callback_fold [of ?ctx env rnd db col "live (entries st)"]
    by (cases "doc_texts db col (live (entries st))")
      (auto simp: nosql_find_def kv_iterate_live split: prod.split)
qed

lemma all_some_None: "all_some xs \<noteq> None \<longleftrightarrow> None \<notin> set xs"
proof (induction xs)
  case (Cons x xs)
  then show ?case by (cases x) auto
qed simp

lemma doc_texts_put:
  assumes "doc_texts db col (live es) \<noteq> None"
  shows "doc_texts db col (live (kv_put_internal es key (json_value s))) \<noteq> None"
proof (cases rule: kv_put_cases [of es key "json_value s", case_names Full Slot])
  case (Slot i)
  have "c_str (json_value s) \<noteq> None" by (simp add: c_str_def json_value_def)
  moreover have "set (es[i := e]) \<subseteq> insert e (set es)" for e by (rule set_update_subset_insert)
  ultimately show ?thesis
    using assms unfolding Slot(3) doc_texts_def all_some_None live_def by fastforce
qed (use assms in simp)

section \<open>UPSERT\<close>

text \<open>C21: \<open>UPSERT\<close> on a collection whose first document is stored under its own identifier inserts nothing:
  it appends the body to the text of that document and leaves every other key as it was.\<close>

theorem upsert_changes_the_first_document:
  assumes "kv_reach (entries (ds_store s))"
    and "nosql_find env rnd (ds_store s) (here s) col None ids = Some (doc # docs, ids1)"
    and "closed_value (d_json doc) ''_id'' = Some i"
    and "kv_get (ds_store s) (make_doc_key (here s) col i) \<noteq> None"
  shows "\<exists>s' ids'. execute_nosql_upsert env rnd col body (s, ids) = Some (s', ids') \<and>
    (\<forall>\<kappa>. kv_get (ds_store s') \<kappa> =
      (if \<kappa> = make_doc_key (here s) col i then Some (json_value (merge_json (d_json doc) body)) else kv_get (ds_store s) \<kappa>))"
proof -
  let ?st = "ds_store s" and ?db = "here s"
  let ?key = "make_doc_key ?db col i" and ?m = "merge_json (d_json doc) body"
  obtain js where js: "doc_texts ?db col (live (entries ?st)) = Some js" "create_all env rnd js ids = (doc # docs, ids1)"
    using assms(2) by (auto simp: nosql_find_spec)
  then obtain j js' where j: "js = j # js'" by (cases js) auto
  have dj: "d_json doc = j"
    using js(2) unfolding j by (auto simp: nosql_doc_create_def Let_def split: prod.splits)
  have own: "json_get_string j ''_id'' = Some i" using closed_value_get [OF assms(3)] dj by simp
  have none: "json_get_string ''{}'' ''_id'' = None"
    by (simp add: json_get_string_def json_after_def json_search_def snprintf_buf_def quoted_def str_from_def)
  have first: "\<exists>doc ids2. nosql_find_one env rnd ?st ?db col ''{}'' ids' = Some (Some doc, ids2) \<and> d_id doc = i \<and> d_json doc = j" for ids'
    using created_with_id [OF own, of env rnd ids'] unfolding nosql_find_one_def none nosql_find_spec js(1) j
    by (auto split: prod.split)
  define st' where "st' = kv_put_locked (ee_kv env) ?st ?key (json_value ?m)"
  from first obtain d1 ids1 where d1: "nosql_find_one env rnd ?st ?db col ''{}'' ids = Some (Some d1, ids1)" by blast
  from first obtain d2 ids2 where d2: "nosql_find_one env rnd ?st ?db col ''{}'' ids1 = Some (Some d2, ids2)" "d_id d2 = i" "d_json d2 = j" by blast
  have up: "nosql_update_one env rnd ?st ?db col ''{}'' body ids1 = Some (1, st', ids2)"
    using d2 dj by (simp add: nosql_update_one_def put_json_eq st'_def)
  have "doc_texts ?db col (live (entries st')) \<noteq> None"
    using doc_texts_put js(1) by (simp add: st'_def entries_put_json)
  then have "nosql_find_one env rnd st' ?db col ''{}'' ids2 \<noteq> None"
    unfolding nosql_find_one_def none nosql_find_spec by (simp split: prod.split)
  then obtain d3 ids3 where d3: "nosql_find_one env rnd st' ?db col ''{}'' ids2 = Some (d3, ids3)" by auto
  have "\<exists>s'. execute_nosql_upsert env rnd col body (s, ids) = Some (s', ids3) \<and> ds_store s' = st'"
    using d1 up d3 by (cases d3) (simp_all add: execute_nosql_upsert_def nosql_upsert_def emit_def Let_def)
  moreover have "probe_from_home (entries ?st) ?key \<noteq> Full" using assms(4) by (auto simp: kv_get_def kv_lookup_def)
  then have "kv_get st' \<kappa> = (if \<kappa> = ?key then Some (json_value ?m) else kv_get ?st \<kappa>)" for \<kappa>
    using kv_put_lookup_other [OF assms(1)] by (simp add: kv_get_def st'_def entries_put_json kv_put_lookup_same)
  ultimately show ?thesis by blast
qed

lemma demo_texts: "doc_texts ''d'' ''c'' (live demo_docs) = Some [demo_json]"
  by (simp add: doc_texts_def demo_docs_def live_def is_doc_def has_prefix_def snprintf_buf_def c_str_json [OF demo_plain(2)])
    (simp add: json_value_def)

lemma demo_find: "nosql_find env rnd (st\<lparr>entries := demo_docs\<rparr>) ''d'' ''c'' q ids =
    Some ([\<lparr>d_id = ''7'', d_json = demo_json, d_version = 1, d_created = word_of_int (ee_now env), d_updated = word_of_int (ee_now env)\<rparr>], ids)"
  by (simp add: nosql_find_spec demo_texts demo_created)

theorem upsert_changes_the_first_document_witness:
  "\<forall>env rnd s st. \<exists>s' ids'.
     execute_nosql_upsert env rnd ''c'' (''{'' @ quoted ''_id'' @ '':'' @ quoted ''8'' @ ''}'')
       (s\<lparr>ds_store := st\<lparr>entries := demo_docs\<rparr>, ds_session := \<lparr>current_db = ''d'', current_user = ''guest''\<rparr>\<rparr>, 0) = Some (s', ids') \<and>
     kv_get (ds_store s') ''DB:d:DOC:c:8'' = kv_get (st\<lparr>entries := demo_docs\<rparr>) ''DB:d:DOC:c:8''"
proof (intro allI)
  fix env :: exec_env and rnd and s :: db_state and st :: kv_store
  let ?s = "s\<lparr>ds_store := st\<lparr>entries := demo_docs\<rparr>, ds_session := \<lparr>current_db = ''d'', current_user = ''guest''\<rparr>\<rparr>"
  have "kv_reach (entries (ds_store ?s))"
    using full_table_reach [of demo_docs] by (simp add: demo_docs_def)
  from upsert_changes_the_first_document [OF this, of env rnd "''c''" 0 _ "[]" 0 "''7''"]
  show "\<exists>s' ids'. execute_nosql_upsert env rnd ''c'' (''{'' @ quoted ''_id'' @ '':'' @ quoted ''8'' @ ''}'') (?s, 0) = Some (s', ids') \<and>
      kv_get (ds_store s') ''DB:d:DOC:c:8'' = kv_get (st\<lparr>entries := demo_docs\<rparr>) ''DB:d:DOC:c:8''"
    by (fastforce simp: here_def demo_find demo_values demo_key demo_get)
qed

section \<open>AGGREGATE\<close>

definition count_json :: "nat \<Rightarrow> string" where
  "count_json n = ''{'' @ quoted ''count'' @ '':'' @ show_int (int n) @ ''}''"

lemma pipeline_of_map: "pipeline_of stages = map (\<lambda>j. (stage_type_of j, j)) stages"
proof -
  have "foldl (\<lambda>p j. nosql_pipeline_add_stage p (stage_type_of j) j) p stages = p @ map (\<lambda>j. (stage_type_of j, j)) stages" for p
    by (induction stages arbitrary: p) (simp_all add: nosql_pipeline_add_stage_def)
  then show ?thesis by (simp add: pipeline_of_def)
qed

lemma atoi_brace: "atoi_int (CHR 0x7B # t) = 0"
  by (simp add: atoi_int_def atoi_def is_space_def is_digit_def)

definition stage_texts_ok :: "string list \<Rightarrow> bool" where
  "stage_texts_ok stages \<longleftrightarrow> (\<forall>j \<in> set stages. \<exists>t. j = CHR 0x7B # t)"

lemma run_stage_brace:
  assumes "j = CHR 0x7B # t"
  shows "stage_type_of j = STAGE_LIMIT \<Longrightarrow> run_stage env rnd (stage_type_of j, j) (docs, ids) = None"
    and "stage_type_of j = STAGE_COUNT \<Longrightarrow> \<exists>doc ids2. run_stage env rnd (stage_type_of j, j) (docs, ids) = Some ([doc], ids2) \<and>
      d_json doc = count_json (length docs)"
    and "stage_type_of j \<noteq> STAGE_LIMIT \<Longrightarrow> stage_type_of j \<noteq> STAGE_COUNT \<Longrightarrow>
      run_stage env rnd (stage_type_of j, j) (docs, ids) = Some (docs, ids)"
  using assms by (auto simp: run_stage_def atoi_brace Let_def nosql_doc_create_def count_json_def split: prod.splits)

lemma no_effect:
  assumes "stage_texts_ok stages" and "STAGE_LIMIT \<notin> stage_type_of ` set stages" and "STAGE_COUNT \<notin> stage_type_of ` set stages"
  shows "run_stages env rnd (map (\<lambda>j. (stage_type_of j, j)) stages) (docs, ids) = Some (docs, ids)"
  using assms
proof (induction stages)
  case (Cons j stages)
  then obtain t where "j = CHR 0x7B # t" by (auto simp: stage_texts_ok_def)
  then show ?case using Cons run_stage_brace(3) [of j t env rnd docs ids] by (auto simp: stage_texts_ok_def image_iff)
qed simp

lemma limit_crashes:
  assumes "stage_texts_ok stages" and "STAGE_LIMIT \<in> stage_type_of ` set stages" and "docs \<noteq> []"
  shows "run_stages env rnd (map (\<lambda>j. (stage_type_of j, j)) stages) (docs, ids) = None"
  using assms
proof (induction stages arbitrary: docs ids)
  case (Cons j stages)
  then obtain t where j: "j = CHR 0x7B # t" by (auto simp: stage_texts_ok_def)
  have ok: "stage_texts_ok stages" using Cons.prems(1) by (simp add: stage_texts_ok_def)
  consider "stage_type_of j = STAGE_LIMIT" | "stage_type_of j = STAGE_COUNT" | "stage_type_of j \<noteq> STAGE_LIMIT" "stage_type_of j \<noteq> STAGE_COUNT"
    by blast
  then show ?case
  proof cases
    case 1
    then show ?thesis using run_stage_brace(1) [OF j 1, of env rnd docs ids] Cons.prems(3) by simp
  next
    case 2
    then have "STAGE_LIMIT \<in> stage_type_of ` set stages" using Cons.prems(2) by auto
    then show ?thesis
      using run_stage_brace(2) [OF j 2, of env rnd docs ids] Cons.IH [OF ok] Cons.prems(3) by fastforce
  next
    case 3
    then have "STAGE_LIMIT \<in> stage_type_of ` set stages" using Cons.prems(2) by auto
    then show ?thesis
      using run_stage_brace(3) [OF j 3, of env rnd docs ids] Cons.IH [OF ok] Cons.prems(3) by simp
  qed
qed simp

lemma count_result:
  assumes "stage_texts_ok stages" and "STAGE_LIMIT \<notin> stage_type_of ` set stages" and "STAGE_COUNT \<in> stage_type_of ` set stages"
    and "docs \<noteq> []"
  shows "\<exists>doc ids2. run_stages env rnd (map (\<lambda>j. (stage_type_of j, j)) stages) (docs, ids) = Some ([doc], ids2) \<and>
    d_json doc = count_json (if length (filter (\<lambda>j. stage_type_of j = STAGE_COUNT) stages) = 1 then length docs else 1)"
  using assms
proof (induction stages arbitrary: docs ids)
  case (Cons j stages)
  then obtain t where j: "j = CHR 0x7B # t" by (auto simp: stage_texts_ok_def)
  have ok: "stage_texts_ok stages" using Cons.prems(1) by (simp add: stage_texts_ok_def)
  have nl: "stage_type_of j \<noteq> STAGE_LIMIT" "STAGE_LIMIT \<notin> stage_type_of ` set stages" using Cons.prems(2) by auto
  show ?case
  proof (cases "stage_type_of j = STAGE_COUNT")
    case False
    then have "STAGE_COUNT \<in> stage_type_of ` set stages" using Cons.prems(3) by auto
    then show ?thesis
      using run_stage_brace(3) [OF j nl(1) False, of env rnd docs ids] Cons.IH [OF ok nl(2) _ Cons.prems(4)] Cons.prems(4) False by simp
  next
    case True
    from run_stage_brace(2) [OF j True, of env rnd docs ids] obtain doc ids2
      where d: "run_stage env rnd (STAGE_COUNT, j) (docs, ids) = Some ([doc], ids2)" "d_json doc = count_json (length docs)"
      using True by auto
    show ?thesis
    proof (cases "STAGE_COUNT \<in> stage_type_of ` set stages")
      case more: True
      then have "filter (\<lambda>j. stage_type_of j = STAGE_COUNT) stages \<noteq> []" by (fastforce simp: filter_empty_conv)
      then show ?thesis
        using Cons.IH [OF ok nl(2) more, of "[doc]" ids2] d Cons.prems(4) True by auto
    next
      case False
      then have "filter (\<lambda>j. stage_type_of j = STAGE_COUNT) stages = []" by (fastforce simp: filter_empty_conv image_iff)
      then show ?thesis using no_effect [OF ok nl(2) False, of env rnd "[doc]" ids2] d Cons.prems(4) True by simp
    qed
  qed
qed simp

text \<open>C22: A pipeline as the parser builds it, every stage an object in braces, run on a collection with
  documents: a limit anywhere makes the code use a freed list; without limit and count no stage has an
  effect; with counts there is one document, which holds the number of documents, or 1 when
  there is more than one count.\<close>

theorem aggregate_outcome:
  assumes "nosql_find env rnd st db col (Some ''{}'') ids = Some (docs, ids1)" and "docs \<noteq> []"
    and "stage_texts_ok stages"
  shows "if STAGE_LIMIT \<in> stage_type_of ` set stages
    then nosql_aggregate env rnd st db col (pipeline_of stages) ids = None
    else if STAGE_COUNT \<in> stage_type_of ` set stages
    then \<exists>doc ids2. nosql_aggregate env rnd st db col (pipeline_of stages) ids = Some ([doc], ids2) \<and>
      d_json doc = count_json (if length (filter (\<lambda>j. stage_type_of j = STAGE_COUNT) stages) = 1 then length docs else 1)
    else nosql_aggregate env rnd st db col (pipeline_of stages) ids = Some (docs, ids1)"
  using limit_crashes [OF assms(3) _ assms(2)] count_result [OF assms(3) _ _ assms(2)] no_effect [OF assms(3)]
  by (simp add: nosql_aggregate_def assms(1) pipeline_of_map)

theorem aggregate_outcome_witness:
  "\<forall>env rnd st. nosql_aggregate env rnd (st\<lparr>entries := demo_docs\<rparr>) ''d'' ''c'' (pipeline_of [''{$skip : 1 }'', ''{$limit : 5 }'']) 0 = None"
proof (intro allI)
  fix env :: exec_env and rnd and st :: kv_store
  have types: "stage_type_of ''{$skip : 1 }'' = STAGE_SKIP" "stage_type_of ''{$limit : 5 }'' = STAGE_LIMIT"
    by (simp_all add: stage_type_of_def stage_names_def)
  show "nosql_aggregate env rnd (st\<lparr>entries := demo_docs\<rparr>) ''d'' ''c'' (pipeline_of [''{$skip : 1 }'', ''{$limit : 5 }'']) 0 = None"
    using aggregate_outcome [OF demo_find [of env rnd st], where stages = "[''{$skip : 1 }'', ''{$limit : 5 }'']"]
    by (simp add: types stage_texts_ok_def)
qed

end
