(* ===== verification/Spec2Isabelle.thy ===== *)
theory Spec2Isabelle
  imports BufferPool BTreeLeaf RowFormat KVRecovery TxnManager MvccSnapshots
    Compression Crc32 StorageEngine SkipIndexMap IndexManager RaftElection ParserErrors SqlRoundtrip
    QueryCache SelectResults StmtCache ServerSystem DocumentStore
begin

text \<open>
  Verification library for InventixDB, a relational database server in C.

  The program. \<open>src/server.c\<close> and \<open>src/client.c\<close> exchange SQL text; \<open>src/lexer.c\<close> and
  \<open>src/parser.c\<close> turn it into statements and \<open>src/executor.c\<close> runs them against one \<open>KVStore\<close>
  (\<open>src/storage.c\<close>), a hash table of byte values made durable by a log and snapshots, which copies
  row keys into a B+ tree leaf (\<open>src/btree.c\<close>) over a page cache (\<open>src/buffer_pool.c\<close>) and a file
  of pages (\<open>src/pager.c\<close>). \<open>src/transaction.c\<close> undoes row operations on the store;
  \<open>src/mvcc.c\<close> is a separate manager of snapshots and locks.

  The theories, from the bottom up.
  \<^item> \<open>Prelude\<close>, \<open>CStrings\<close>: bytes, little-endian words, windows of a buffer, \<open>strcmp\<close>, \<open>atoi\<close>,
    the djb2 hash, decimal printing; facts about lists and words shared by all components.
  \<^item> \<open>Pager\<close>: the database file as a list of bytes (\<open>pager_read\<close>, \<open>pager_write\<close>).
  \<^item> \<open>BufferPool\<close>: the ten frames over the pager. The abstraction \<open>bp_content\<close> maps a page number to
    its logical bytes (frame if cached, file otherwise); fetching refines reading that map, eviction
    and closing preserve it, pinned frames stay put.
  \<^item> \<open>BTreeLeaf\<close>: the leaf page as bytes with its accessors, binary search and insertion, against the
    sorted list of rows.
  \<^item> \<open>RowFormat\<close>: the row encoding of \<open>src/row.c\<close> and its round trip.
  \<^item> \<open>HashTable\<close>: the probing table of \<open>src/storage.c\<close> with the invariant \<open>kv_reach\<close> (every occupied
    slot is found from its key), and what deletion does to it.
  \<^item> \<open>KVLog\<close>: bytes of the log and of the snapshot, and the recovery loops over them.
  \<^item> \<open>KVStore\<close>: the store with its files and its B+ tree copy; every public operation.
  \<^item> \<open>KVRecovery\<close>: what recovery gives back after any sequence of commands.
  \<^item> \<open>TxnManager\<close>: \<open>src/transaction.c\<close>. The locale \<open>kv_backend\<close> states what rollback needs of the
    store (deletion undoes a fresh insertion, insertion restores an overwritten or deleted value, up
    to a similarity of tables) and is interpreted on \<open>kv_put\<close> and \<open>kv_delete\<close>.
  \<^item> \<open>LockTable\<close>, \<open>Mvcc\<close>: \<open>src/mvcc.c\<close>, one function per C function. \<open>MvccInvariant\<close>: the steps
    \<open>strict_step\<close> of transactions that begin at once and keep their locks to the end, and their
    invariant; \<open>MvccProperties\<close>: locks, also in every order of requests and releases (\<open>lock_run\<close>).
    \<open>MvccSystem\<close>: the steps \<open>mvcc_step\<close> of everything the threads can do, where a begin is four steps
    (id, timestamp, snapshot, slot) with others in between, locks are asked for in any mode and given
    back early; \<open>strict_in_steps\<close> shows that it covers the other relation. \<open>MvccSnapshots\<close>: visibility
    in the states it reaches.
  \<^item> \<open>SlottedPage\<close>, \<open>Compression\<close>, \<open>Crc32\<close>: the pages of \<open>src/storage_engine.c\<close> as bytes against a map
    from slots to records, its two codecs with their round trips, and its checksum against the
    bit-at-a-time definition.
  \<^item> \<open>MemTable\<close>, \<open>Bloom\<close>, \<open>Lsm\<close>, \<open>LsmMap\<close>: the LSM tree of the same file. The AVL tree is a sorted
    list; the locale \<open>membership_filter\<close> states what skipping a table needs of the filter and is
    interpreted on the Bloom filter; the tree with its files refines a map.
  \<^item> \<open>StorageEngine\<close>: its variable-length records, columns and the manager of the engines.

  \<^item> \<open>SkipIndex\<close>, \<open>SkipIndexMap\<close>: the skip lists of \<open>src/storage.c\<close> as nodes in a heap, and their refinement
    of a sorted list for any coins.
  \<^item> \<open>IndexManager\<close>: the catalogue and the composite keys of \<open>src/index.c\<close>. A definition may claim more
    columns than its array has; what reads them is then \<open>None\<close>.
  \<^item> \<open>Lexer\<close>: \<open>src/lexer.c\<close>, from a C string to the array of tokens; \<open>LexerRoundtrip\<close>: printing a token
    array and reading it again gives it back, and every token satisfies the typing of its kind.
  \<^item> \<open>Parser\<close>: \<open>src/parser.c\<close>, one function per C function over the token array and a position; a
    result is \<open>Done\<close> with the value and the next position, \<open>Exit\<close>, \<open>Crash\<close> or out of fuel.
    \<open>ParserTotal\<close>: with the fuel \<open>enough_fuel\<close>, six times the number of tokens and ten, every
    statement but the \<open>AGGREGATE\<close> stages is parsed to an end; the C loop of those stages does not
    return on some inputs, which \<open>ParserErrors\<close> shows, with other crashes and exits.
  \<^item> \<open>SqlGrammar\<close>: a grammar of queries as inductive relations on token spans, which the parser
    accepts exactly; \<open>SqlRoundtrip\<close>: a printer of queries, which the parser inverts.
  \<^item> \<open>SystemCatalog\<close>: \<open>src/system.c\<close> and \<open>src/auth.c\<close>, databases and users as keys of the store.
  \<^item> \<open>CDouble\<close>: the C type \<open>double\<close> with \<open>atof\<close>, comparison, addition and printing, as exact rationals
    rounded to the nearest double; integers up to 2 to the 53 are exact.
  \<^item> \<open>ResultSet\<close>: the result sets of \<open>src/query_result.c\<close>: ORDER BY, LIMIT, CSV with its round trip.
    The \<open>qsort\<close> of the C library is an argument with the law \<open>qsort_ok\<close> (a permutation, ordered when
    the comparison is consistent on the elements), which \<open>stable_qsort\<close> shows to be satisfiable.
    \<open>QueryCache\<close>: the cache of results in the same file.
  \<^item> \<open>QueryScan\<close>, \<open>Executor\<close>, \<open>Statements\<close>: \<open>src/executor.c\<close>. A statement takes \<open>db_state\<close> (store,
    indexes, transaction, session, output) to the next one; \<open>None\<close> is undefined behaviour.
    \<open>exec_env\<close> holds what the code gets from outside: memory contents, clock, coins, \<open>qsort\<close>. The
    statements of \<open>src/backup.c\<close> and those on collections are an argument \<open>other\<close> of the dispatch.
    \<open>SchemaText\<close>: the schema strings; \<open>SelectSemantics\<close>: SELECT as selection and projection of the
    stored rows, and the primary-key plan against the full scan; \<open>SelectResults\<close>: groups, ORDER BY.
  \<^item> \<open>Prepared\<close>, \<open>StmtCache\<close>: \<open>src/prepared.c\<close>: the prepared statements of a session with their
    parameters, what a substituted string can and cannot do to the tokens of the query, the normalised
    text of a query and the statement cache with its invariant.
  \<^item> \<open>Sha256\<close>: the password hashing of \<open>src/security.c\<close> on bytes and 32-bit words, equal to SHA-256,
    HMAC and PBKDF2 as the standards define them wherever it does not overrun its buffer.
  \<^item> \<open>Security\<close>: its users, roles, permissions, lockout and sessions; \<open>AccessControl\<close>: the states that
    any sequence of its operations reaches and their invariant, expiry of sessions, repeated failures.
  \<^item> \<open>Server\<close>: \<open>src/server.c\<close>, from a line of a client over login, commands and prepared statements to
    the executor. A connection keeps the index into the array of sessions that its pointer is, because
    the array is moved under it. What is sent is a list of \<open>reply\<close> values. \<open>ServerSafety\<close>: what a client
    can do with and without a login; \<open>ServerSystem\<close>: any number of clients whose turns follow one another
    in any order, the invariant of the reachable states, the rate limit, and what becomes of the session
    array when two logins overlap: \<open>login_check\<close> and \<open>open_session\<close> are the two parts of the login.
  \<^item> \<open>Documents\<close>: \<open>src/nosql.c\<close>, JSON texts in the store that are searched as strings; \<open>DocumentStore\<close>: the
    statements on collections with the dispatch \<open>execute_statement\<close>, and what insertion, update, UPSERT
    and AGGREGATE do to the documents. The counter of identifiers goes in and out of every operation.
  \<^item> \<open>Cluster\<close>: one node of \<open>src/cluster.c\<close>; \<open>RaftElection\<close>: a system of such nodes whose elections
    interleave with the messages. The vote a candidate counts is the byte it reads behind the payload.
    Election safety holds when that byte is the flag and no node answers during its own election, and
    two runs show that it needs both.

  Conventions. A C function is a HOL function of the state it reads, returning the new state with
  its result; a buffer is a list of bytes; the C integer types are words of their width or \<open>int\<close>
  where the code cannot overflow them; undefined behaviour (reading uninitialised or freed memory,
  writing past an array) and \<open>exit\<close> are \<open>None\<close> or a constructor of the result. \<open>malloc\<close> succeeds and
  returns arbitrary bytes, a parameter called \<open>junk\<close> where they can be observed. Operations under a
  mutex are atomic; \<open>mvcc_begin_transaction\<close>, which takes several in turn, is split where snapshots are
  concerned. Loops are structural recursion or have a measure; fuel is used in three places only: the
  loops of the parser, as above; the retries of \<open>mvcc_acquire_lock\<close>, which take the list of what
  other threads do between them; and the depth of \<open>execute_client_query\<close>, the recursion of the C stack
  when \<open>EXECUTE\<close> runs the text of a prepared statement. A depth of one is enough for every query the
  parser accepts, and a client that is not logged in never needs more.

  Not modelled: sockets, threads, logging and the formatting of messages. A turn of a client is one
  step of the system, though the server runs its threads without a lock around users, sessions and
  trackers; of the overlaps only that of two logins is considered. The
  server is not the master of a cluster, so queries are executed locally. Random bytes, the clock, the
  explanations of the optimiser and the statements of \<open>src/backup.c\<close> are arguments.
  \<open>src/join.c\<close> and \<open>src/optimizer.c\<close> are not called by the executor; \<open>src/memory.c\<close> keeps accounts of
  allocations nothing draws on; \<open>src/network.c\<close>, \<open>src/client.c\<close> and \<open>src/main.c\<close> are input and output.
\<close>

end
